(* ===== verification/Meld_Prelude.thy ===== *)
theory Meld_Prelude
  imports Main "HOL-Library.Word" "HOL-Library.Multiset"
begin

text \<open>
  Shared vocabulary of the development: the widths of the C++ types the virtual machine uses
  (\<^verbatim>\<open>vm/defs.hpp\<close>, x86-64), unsigned subtraction on \<^verbatim>\<open>size_t\<close>, the errors the modelled code can
  raise, the C library's \<^verbatim>\<open>ffsl\<close>, and generic lemmas on words, lists and options that the
  component theories rely on. The sources are modelled in the configuration of \<^verbatim>\<open>conf.mk\<close>
  (release build: assertions are compiled out; where an assertion matters the theorems prove
  that it holds or name it as a hypothesis).
\<close>

unbundle bit_operations_syntax

named_theorems vm_size_simps \<open>constants of the byte-code format, unfolded together\<close>
named_theorems store_simps \<open>reads after writes in the stores of the pointer structures\<close>

type_synonym byte = "8 word"
type_synonym int_val = "32 word"
type_synonym uint_val = "32 word"
type_synonym node_val = "64 word"
type_synonym ptr_val = "64 word"
type_synonym bitmap_type = "64 word"

subsection \<open>Arithmetic on \<^verbatim>\<open>size_t\<close>\<close>

abbreviation size_max :: nat where
  "size_max \<equiv> 2 ^ 64 - 1"

text \<open>
  A \<^verbatim>\<open>size_t\<close> is a natural number below \<open>2 ^ 64\<close>. Its subtraction wraps around, which is
  what a loop bound such as \<^verbatim>\<open>size - 1\<close> does at \<^verbatim>\<open>size == 0\<close>.
\<close>

definition size_sub :: "nat \<Rightarrow> nat \<Rightarrow> nat" where
  "size_sub a b = (if b \<le> a then a - b else 2 ^ 64 + a - b)"

lemma size_sub_le [simp]: "b \<le> a \<Longrightarrow> size_sub a b = a - b"
  by (simp add: size_sub_def)

subsection \<open>Words\<close>

text \<open>
  \<open>ffsl\<close>: one plus the index of the least significant bit that is set, 0 for the zero word.
\<close>

definition ffsl :: "64 word \<Rightarrow> nat" where
  "ffsl a = (case List.find (bit a) [0..<64] of None \<Rightarrow> 0 | Some i \<Rightarrow> Suc i)"

lemma word64_eq_0_iff: "(a :: 64 word) = 0 \<longleftrightarrow> (\<forall>i < 64. \<not> bit a i)"
  by (auto simp: bit_eq_iff dest: bit_imp_le_length)

lemma ffsl_0 [simp]: "ffsl 0 = 0"
  by (simp add: ffsl_def find_None_iff split: option.splits)

lemma ffsl_nonzero:
  assumes "a \<noteq> 0"
  obtains n where "ffsl a = Suc n" "n < 64" "bit a n" "\<forall>i < n. \<not> bit a i"
proof -
  from assms obtain k where k: "k < 64" "bit a k"
    by (auto simp: word64_eq_0_iff)
  then have "List.find (bit a) [0..<64] \<noteq> None"
    by (auto simp: find_None_iff)
  then obtain n where n: "List.find (bit a) [0..<64] = Some n" by auto
  then have "n < 64" "bit a n" "\<forall>i < n. \<not> bit a i"
    by (auto simp: find_Some_iff)
  with n that show ?thesis by (auto simp: ffsl_def)
qed

lemma bit_decrement_above:
  fixes x :: nat
  assumes odd: "bit x n" and low: "\<forall>i < n. \<not> bit x i" and "n < i"
  shows "bit (x - 1) i \<longleftrightarrow> bit x i"
proof -
  have tb: "take_bit n x = 0"
    using low by (auto simp: bit_eq_iff bit_simps)
  then have x: "x = 2 ^ n * (x div 2 ^ n)"
    using div_mult_mod_eq [of x "2 ^ n"] by (simp add: take_bit_eq_mod mult.commute)
  from odd have "odd (x div 2 ^ n)" by (simp add: bit_iff_odd)
  then obtain m where m: "x div 2 ^ n = 2 * m + 1" by (auto elim: oddE)
  have xe: "x = 2 ^ Suc n * m + 2 ^ n" using x m by (simp add: algebra_simps)
  have pos: "(0::nat) < 2 ^ n" by simp
  have d: "(2 ^ Suc n * m + r) div 2 ^ Suc n = m" if "r < 2 ^ Suc n" for r
    using that by (simp del: power_Suc)
  have d1: "x div 2 ^ Suc n = m" using d [of "2 ^ n"] by (simp add: xe)
  have "x - 1 = 2 ^ Suc n * m + (2 ^ n - 1)" using xe pos by linarith
  moreover have "2 ^ n - 1 < (2 ^ Suc n :: nat)" using pos unfolding power_Suc by linarith
  ultimately have d2: "(x - 1) div 2 ^ Suc n = m" using d by metis
  from \<open>n < i\<close> obtain k where i: "i = Suc n + k" by (metis less_iff_Suc_add add_Suc)
  have "bit (x - 1) i \<longleftrightarrow> bit ((x - 1) div 2 ^ Suc n) k"
    unfolding i by (simp add: bit_iff_odd power_add div_mult2_eq)
  also have "\<dots> \<longleftrightarrow> bit (x div 2 ^ Suc n) k" by (simp only: d1 d2)
  also have "\<dots> \<longleftrightarrow> bit x i"
    unfolding i by (simp add: bit_iff_odd power_add div_mult2_eq)
  finally show ?thesis .
qed

lemma bit_decrement_at:
  fixes x :: nat
  assumes odd: "bit x n" and low: "\<forall>i < n. \<not> bit x i"
  shows "\<not> bit (x - 1) n"
proof -
  have "take_bit n x = 0"
    using low by (auto simp: bit_eq_iff bit_simps)
  then have x: "x = 2 ^ n * (x div 2 ^ n)"
    using div_mult_mod_eq [of x "2 ^ n"] by (simp add: take_bit_eq_mod mult.commute)
  from odd have "odd (x div 2 ^ n)" by (simp add: bit_iff_odd)
  then obtain m where m: "x div 2 ^ n = 2 * m + 1" by (auto elim: oddE)
  have pos: "(0::nat) < 2 ^ n" by simp
  have "x - 1 = 2 ^ n * (2 * m) + (2 ^ n - 1)" using x m pos
    by (simp add: algebra_simps)
  moreover have "(2 ^ n * (2 * m) + r) div 2 ^ n = 2 * m" if "r < 2 ^ n" for r :: nat
    using that by simp
  ultimately have "(x - 1) div 2 ^ n = 2 * m" using pos by (metis diff_less zero_less_one)
  then show ?thesis by (simp add: bit_iff_odd)
qed

text \<open>The idiom \<^verbatim>\<open>a & (a - 1)\<close> clears the lowest bit that is set, and no other.\<close>

lemma bit_clear_lowest:
  fixes a :: "64 word"
  assumes "bit a n" and "\<forall>i < n. \<not> bit a i"
  shows "bit (a AND (a - 1)) i \<longleftrightarrow> bit a i \<and> i \<noteq> n"
proof -
  have a0: "a \<noteq> 0" using assms(1) by auto
  have un: "unat (a - 1) = unat a - 1" using a0 by (simp add: unat_minus_one)
  have b: "bit w j \<longleftrightarrow> bit (unat w) j" for w :: "64 word" and j
    by (simp add: bit_unsigned_iff bit_imp_le_length)
  have low: "\<forall>j < n. \<not> bit (unat a) j" and bn: "bit (unat a) n"
    using assms by (simp_all flip: b)
  have xn: "\<not> bit (unat a - 1) n"
    using bit_decrement_at [OF bn low] .
  consider "i < n" | "i = n" | "n < i" by linarith
  then show ?thesis
  proof cases
    case 1
    then show ?thesis using assms(2) by (simp add: bit_simps)
  next
    case 2
    have "\<not> bit (a - 1) n" using xn un b [of "a - 1"] by simp
    with 2 show ?thesis by (simp add: bit_simps)
  next
    case 3
    have "bit (a - 1) i \<longleftrightarrow> bit a i"
      using bit_decrement_above [OF bn low 3] un b [of "a - 1"] b [of a] by simp
    with 3 show ?thesis by (auto simp: bit_simps)
  qed
qed

subsection \<open>Removing one element of a list\<close>

definition remove_nth :: "nat \<Rightarrow> 'a list \<Rightarrow> 'a list" where
  "remove_nth i xs = take i xs @ drop (Suc i) xs"

lemma mset_remove_nth:
  assumes "i < length xs"
  shows "add_mset (xs ! i) (mset (remove_nth i xs)) = mset xs"
proof -
  have "mset xs = mset (take i xs @ xs ! i # drop (Suc i) xs)" using id_take_nth_drop [OF assms] by simp
  then show ?thesis by (simp add: remove_nth_def)
qed

lemma set_remove_nth: "set (remove_nth i xs) \<subseteq> set xs"
  by (auto simp: remove_nth_def dest: in_set_takeD in_set_dropD)

end
