(* ===== verification/Bitmap.thy ===== *)
theory Bitmap
  imports Meld_Prelude
begin

text \<open>
  \<^verbatim>\<open>vm/bitmap.hpp\<close> and \<^verbatim>\<open>vm/bitmap_static.hpp\<close>: sets of small numbers as arrays of 64-bit words.
  A \<open>bitmap\<close> keeps its first word inline and the others in a separate array (\<open>bm_rest\<close>, empty
  for the null pointer); the number of words is not stored but passed to the operations that
  need it. A \<open>bitmap_static\<close> is one array whose length is a template parameter.

  The locale \<open>bitset\<close> states what both promise their clients (the rule matcher, the
  registers in use, the thread predicates) in terms of the set of numbers a bitmap stands for;
  it is interpreted on both. \<open>remove_front\<close> and the iterators are proved to return the
  least element and to enumerate the set in increasing order.
\<close>

abbreviation bitmap_bits :: nat where
  "bitmap_bits \<equiv> 64"

subsection \<open>The bitmap with an inline first word\<close>

record bitmap =
  bm_first :: bitmap_type
  bm_rest :: "bitmap_type list"

definition bitmap_clear :: "bitmap \<Rightarrow> nat \<Rightarrow> bitmap" where
  "bitmap_clear b sz =
     (let b1 = b\<lparr>bm_first := 0\<rparr>
      in if sz > 1
         then b1\<lparr>bm_rest := replicate (size_sub sz 1) 0 @ drop (size_sub sz 1) (bm_rest b1)\<rparr>
         else b1)"

definition bitmap_empty :: "bitmap \<Rightarrow> nat \<Rightarrow> bool" where
  "bitmap_empty b sz =
     (if sz = 1 then bm_first b = 0
      else if bm_first b \<noteq> 0 then False
      else list_all (\<lambda>i. bm_rest b ! i = 0) [0..<size_sub sz 1])"

text \<open>The loops over the words after the first; \<open>n\<close> is the loop bound \<^verbatim>\<open>size - 1\<close>.\<close>

function front_loop :: "bitmap_type list \<Rightarrow> nat \<Rightarrow> nat \<Rightarrow> nat \<Rightarrow> nat" where
  "front_loop ws n j pos =
     (if j < n
      then (let a = ws ! j
            in if a \<noteq> 0 then pos + ffsl a - 1 else front_loop ws n (Suc j) (pos + bitmap_bits))
      else size_max)"
  by pat_completeness auto
termination
  by (relation "measure (\<lambda>(ws, n, j, pos). n - j)") auto

declare front_loop.simps [simp del]

definition bitmap_front :: "bitmap \<Rightarrow> nat \<Rightarrow> nat" where
  "bitmap_front b sz =
     (if sz = 1
      then (if bm_first b \<noteq> 0 then ffsl (bm_first b) - 1 else size_max)
      else if bm_first b \<noteq> 0 then ffsl (bm_first b) - 1
      else front_loop (bm_rest b) (size_sub sz 1) 0 bitmap_bits)"

function unset_front_loop :: "bitmap_type list \<Rightarrow> nat \<Rightarrow> nat \<Rightarrow> bitmap_type list" where
  "unset_front_loop ws n j =
     (if j < n
      then (let a = ws ! j
            in if a \<noteq> 0 then ws[j := a AND (a - 1)] else unset_front_loop ws n (Suc j))
      else ws)"
  by pat_completeness auto
termination
  by (relation "measure (\<lambda>(ws, n, j). n - j)") auto

declare unset_front_loop.simps [simp del]

definition bitmap_unset_front :: "bitmap \<Rightarrow> nat \<Rightarrow> bitmap" where
  "bitmap_unset_front b sz =
     (if sz = 1 then b\<lparr>bm_first := bm_first b AND (bm_first b - 1)\<rparr>
      else if bm_first b \<noteq> 0 then b\<lparr>bm_first := bm_first b AND (bm_first b - 1)\<rparr>
      else b\<lparr>bm_rest := unset_front_loop (bm_rest b) (size_sub sz 1) 0\<rparr>)"

function remove_front_loop ::
  "bitmap_type list \<Rightarrow> nat \<Rightarrow> nat \<Rightarrow> nat \<Rightarrow> nat \<times> bitmap_type list" where
  "remove_front_loop ws n j pos =
     (if j < n
      then (let a = ws ! j
            in if a \<noteq> 0 then (pos + (ffsl a - 1), ws[j := a AND (a - 1)])
               else remove_front_loop ws n (Suc j) (pos + bitmap_bits))
      else (size_max, ws))"
  by pat_completeness auto
termination
  by (relation "measure (\<lambda>(ws, n, j, pos). n - j)") auto

declare remove_front_loop.simps [simp del]

text \<open>
  With one word the release build computes \<^verbatim>\<open>ffsl(first) - 1\<close> without looking whether the word
  is zero (only an assertion does); on \<^verbatim>\<open>size_t\<close> that is \<open>size_max\<close> for the zero word.
\<close>

definition bitmap_remove_front :: "bitmap \<Rightarrow> nat \<Rightarrow> nat \<times> bitmap" where
  "bitmap_remove_front b sz =
     (if sz = 1 \<or> bm_first b \<noteq> 0
      then (size_sub (ffsl (bm_first b)) 1, b\<lparr>bm_first := bm_first b AND (bm_first b - 1)\<rparr>)
      else (let (r, ws) = remove_front_loop (bm_rest b) (size_sub sz 1) 0 bitmap_bits
            in (r, b\<lparr>bm_rest := ws\<rparr>)))"

text \<open>
  The loops that combine bitmaps word by word. \<open>zip_upto n f xs ys\<close> is the loop
  \<^verbatim>\<open>for(i = 0; i < n; ++i) xs[i] = f(xs[i], ys[i])\<close>.
\<close>

definition zip_upto :: "nat \<Rightarrow> ('a \<Rightarrow> 'b \<Rightarrow> 'a) \<Rightarrow> 'a list \<Rightarrow> 'b list \<Rightarrow> 'a list" where
  "zip_upto n f xs ys = fold (\<lambda>i ws. ws[i := f (ws ! i) (ys ! i)]) [0..<n] xs"

definition bitmap_unset_bits :: "bitmap \<Rightarrow> bitmap \<Rightarrow> nat \<Rightarrow> bitmap" where
  "bitmap_unset_bits b other sz =
     (if sz = 1 then b\<lparr>bm_first := bm_first b AND NOT (bm_first other)\<rparr>
      else b\<lparr>bm_first := bm_first b AND NOT (bm_first other),
             bm_rest := zip_upto (size_sub sz 1) (\<lambda>x y. x AND NOT y) (bm_rest b) (bm_rest other)\<rparr>)"

definition bitmap_set_bits_or :: "bitmap \<Rightarrow> bitmap \<Rightarrow> nat \<Rightarrow> bitmap" where
  "bitmap_set_bits_or b other sz =
     b\<lparr>bm_first := bm_first b OR bm_first other,
       bm_rest := zip_upto (size_sub sz 1) (\<lambda>x y. x OR y) (bm_rest b) (bm_rest other)\<rparr>"

definition bitmap_set_bits_of_and_result :: "bitmap \<Rightarrow> bitmap \<Rightarrow> bitmap \<Rightarrow> nat \<Rightarrow> bitmap" where
  "bitmap_set_bits_of_and_result r a b sz =
     r\<lparr>bm_first := bm_first a AND bm_first b,
       bm_rest := zip_upto (size_sub sz 1) (\<lambda>_ y. y) (bm_rest r)
                    (map2 (AND) (bm_rest a) (bm_rest b))\<rparr>"

definition bitmap_unset_bits_of_and_result :: "bitmap \<Rightarrow> bitmap \<Rightarrow> bitmap \<Rightarrow> nat \<Rightarrow> bitmap" where
  "bitmap_unset_bits_of_and_result r a b sz =
     r\<lparr>bm_first := bm_first r AND NOT (bm_first a AND bm_first b),
       bm_rest := zip_upto (size_sub sz 1) (\<lambda>x y. x AND NOT y) (bm_rest r)
                    (map2 (AND) (bm_rest a) (bm_rest b))\<rparr>"

text \<open>\<^verbatim>\<open>get_array(i)\<close>: the word that holds bit \<open>i\<close>, read and written.\<close>

definition bitmap_get_array :: "bitmap \<Rightarrow> nat \<Rightarrow> bitmap_type" where
  "bitmap_get_array b i =
     (let id = i div bitmap_bits in if id = 0 then bm_first b else bm_rest b ! (id - 1))"

definition bitmap_put_array :: "bitmap \<Rightarrow> nat \<Rightarrow> bitmap_type \<Rightarrow> bitmap" where
  "bitmap_put_array b i w =
     (let id = i div bitmap_bits
      in if id = 0 then b\<lparr>bm_first := w\<rparr> else b\<lparr>bm_rest := (bm_rest b)[id - 1 := w]\<rparr>)"

definition bitmap_set_bit :: "bitmap \<Rightarrow> nat \<Rightarrow> bitmap" where
  "bitmap_set_bit b i =
     bitmap_put_array b i (bitmap_get_array b i OR push_bit (i mod bitmap_bits) 1)"

definition bitmap_unset_bit :: "bitmap \<Rightarrow> nat \<Rightarrow> bitmap" where
  "bitmap_unset_bit b i =
     bitmap_put_array b i (bitmap_get_array b i AND NOT (push_bit (i mod bitmap_bits) 1))"

definition bitmap_get_bit :: "bitmap \<Rightarrow> nat \<Rightarrow> bool" where
  "bitmap_get_bit b i = (bitmap_get_array b i AND push_bit (i mod bitmap_bits) 1 \<noteq> 0)"

text \<open>
  \<^verbatim>\<open>bitmap::create\<close>: \<open>garbage\<close> is what the allocator returns, an array of \<^verbatim>\<open>size - 1\<close> words with
  arbitrary contents.
\<close>

definition bitmap_create :: "bitmap \<Rightarrow> bitmap_type list \<Rightarrow> nat \<Rightarrow> bitmap" where
  "bitmap_create b garbage sz =
     bitmap_clear (b\<lparr>bm_rest := (if sz \<ge> 2 then take (size_sub sz 1) garbage else [])\<rparr>) sz"

subsection \<open>The iterator\<close>

text \<open>
  The iterator's word pointer is either the address of \<open>bm_first\<close> (\<open>it_in_first\<close>) or an index
  into \<open>bm_rest\<close>. Reading behind the array is \<open>None\<close>.
\<close>

record bitmap_iterator =
  it_rest :: nat
  it_in_first :: bool
  it_pos :: nat
  it_total :: nat
  it_items :: nat

definition iter_word :: "bitmap \<Rightarrow> bitmap_iterator \<Rightarrow> bitmap_type option" where
  "iter_word b it =
     (if it_in_first it then Some (bm_first b)
      else if it_rest it < length (bm_rest b) then Some (bm_rest b ! it_rest it) else None)"

definition iter_move_position :: "bitmap_iterator \<Rightarrow> bool \<times> bitmap_iterator" where
  "iter_move_position it =
     (let it1 = it\<lparr>it_pos := it_pos it + 1, it_total := it_total it + 1\<rparr>
      in if it_total it1 = it_items it1 then (False, it1)
         else if it_pos it1 = bitmap_bits
         then (let it2 = it1\<lparr>it_pos := 0\<rparr>
               in if it_in_first it2 then (True, it2\<lparr>it_in_first := False, it_rest := 0\<rparr>)
                  else (True, it2\<lparr>it_rest := it_rest it2 + 1\<rparr>))
         else (True, it1))"

partial_function (option) iter_find_first_pos ::
  "bitmap \<Rightarrow> bitmap_iterator \<Rightarrow> bitmap_iterator option" where
  "iter_find_first_pos b it =
     (case iter_word b it of
        None \<Rightarrow> None
      | Some w \<Rightarrow>
          if w AND push_bit (it_pos it) 1 \<noteq> 0 then Some it
          else (case iter_move_position it of
                  (go, it') \<Rightarrow> if go then iter_find_first_pos b it' else Some it'))"

definition iter_next :: "bitmap \<Rightarrow> bitmap_iterator \<Rightarrow> bitmap_iterator option" where
  "iter_next b it =
     (case iter_move_position it of
        (go, it') \<Rightarrow> if go then iter_find_first_pos b it' else Some it')"

definition iter_end :: "bitmap_iterator \<Rightarrow> bool" where
  "iter_end it \<longleftrightarrow> it_total it = it_items it"

definition iter_begin :: "bitmap \<Rightarrow> nat \<Rightarrow> bitmap_iterator option" where
  "iter_begin b items =
     (let it = \<lparr>it_rest = 0, it_in_first = True, it_pos = 0, it_total = 0, it_items = items\<rparr>
      in if bm_rest b = [] \<and> bm_first b = 0 then Some (it\<lparr>it_total := items\<rparr>)
         else iter_find_first_pos b it)"

text \<open>The loop \<^verbatim>\<open>for(it = begin(items); !it.end(); ++it)\<close>: the numbers \<^verbatim>\<open>*it\<close> it visits.\<close>

partial_function (option) iter_collect :: "bitmap \<Rightarrow> bitmap_iterator \<Rightarrow> nat list option" where
  "iter_collect b it =
     (if iter_end it then Some []
      else Option.bind (iter_next b it)
             (\<lambda>it'. Option.bind (iter_collect b it') (\<lambda>ns. Some (it_total it # ns))))"

definition bitmap_elements :: "bitmap \<Rightarrow> nat \<Rightarrow> nat list option" where
  "bitmap_elements b items = Option.bind (iter_begin b items) (iter_collect b)"

subsection \<open>The array bitmap\<close>

text \<open>\<^verbatim>\<open>bitmap_static<SIZE>\<close>: the list has length \<^verbatim>\<open>SIZE\<close>.\<close>

record bitmap_static =
  bs_data :: "bitmap_type list"

definition bitmap_static_empty :: "bitmap_static \<Rightarrow> bool" where
  "bitmap_static_empty b = list_all (\<lambda>w. w = 0) (bs_data b)"

definition bitmap_static_clear :: "bitmap_static \<Rightarrow> bitmap_static" where
  "bitmap_static_clear b = b\<lparr>bs_data := replicate (length (bs_data b)) 0\<rparr>"

definition bitmap_static_front :: "bitmap_static \<Rightarrow> nat" where
  "bitmap_static_front b = front_loop (bs_data b) (length (bs_data b)) 0 0"

definition bitmap_static_unset_front :: "bitmap_static \<Rightarrow> bitmap_static" where
  "bitmap_static_unset_front b =
     b\<lparr>bs_data := unset_front_loop (bs_data b) (length (bs_data b)) 0\<rparr>"

definition bitmap_static_remove_front :: "bitmap_static \<Rightarrow> nat \<times> bitmap_static" where
  "bitmap_static_remove_front b =
     (let (r, ws) = remove_front_loop (bs_data b) (length (bs_data b)) 0 0
      in (r, b\<lparr>bs_data := ws\<rparr>))"

definition bitmap_static_unset_bits :: "bitmap_static \<Rightarrow> bitmap_static \<Rightarrow> bitmap_static" where
  "bitmap_static_unset_bits b other =
     b\<lparr>bs_data := zip_upto (length (bs_data b)) (\<lambda>x y. x AND NOT y) (bs_data b) (bs_data other)\<rparr>"

definition bitmap_static_set_bits_or :: "bitmap_static \<Rightarrow> bitmap_static \<Rightarrow> bitmap_static" where
  "bitmap_static_set_bits_or b other =
     b\<lparr>bs_data := zip_upto (length (bs_data b)) (\<lambda>x y. x OR y) (bs_data b) (bs_data other)\<rparr>"

definition bitmap_static_set_bits_of_and_result ::
  "bitmap_static \<Rightarrow> bitmap_static \<Rightarrow> bitmap_static \<Rightarrow> bitmap_static" where
  "bitmap_static_set_bits_of_and_result r a b =
     r\<lparr>bs_data := zip_upto (length (bs_data r)) (\<lambda>_ y. y) (bs_data r)
                   (map2 (AND) (bs_data a) (bs_data b))\<rparr>"

definition bitmap_static_unset_bits_of_and_result ::
  "bitmap_static \<Rightarrow> bitmap_static \<Rightarrow> bitmap_static \<Rightarrow> bitmap_static" where
  "bitmap_static_unset_bits_of_and_result r a b =
     r\<lparr>bs_data := zip_upto (length (bs_data r)) (\<lambda>x y. x AND NOT y) (bs_data r)
                   (map2 (AND) (bs_data a) (bs_data b))\<rparr>"

definition bitmap_static_set_bit :: "bitmap_static \<Rightarrow> nat \<Rightarrow> bitmap_static" where
  "bitmap_static_set_bit b i =
     (let id = i div bitmap_bits
      in b\<lparr>bs_data := (bs_data b)[id := bs_data b ! id OR push_bit (i mod bitmap_bits) 1]\<rparr>)"

definition bitmap_static_unset_bit :: "bitmap_static \<Rightarrow> nat \<Rightarrow> bitmap_static" where
  "bitmap_static_unset_bit b i =
     (let id = i div bitmap_bits
      in b\<lparr>bs_data := (bs_data b)[id := bs_data b ! id AND NOT (push_bit (i mod bitmap_bits) 1)]\<rparr>)"

definition bitmap_static_get_bit :: "bitmap_static \<Rightarrow> nat \<Rightarrow> bool" where
  "bitmap_static_get_bit b i =
     (bs_data b ! (i div bitmap_bits) AND push_bit (i mod bitmap_bits) 1 \<noteq> 0)"

subsection \<open>Words and bits\<close>

definition words_bit :: "bitmap_type list \<Rightarrow> nat \<Rightarrow> bool" where
  "words_bit ws i = bit (ws ! (i div 64)) (i mod 64)"

definition bitmap_words :: "bitmap \<Rightarrow> bitmap_type list" where
  "bitmap_words b = bm_first b # bm_rest b"

definition wf_bitmap :: "nat \<Rightarrow> bitmap \<Rightarrow> bool" where
  "wf_bitmap sz b \<longleftrightarrow> length (bitmap_words b) = sz"

lemma wf_bitmapD: "wf_bitmap sz b \<Longrightarrow> 1 \<le> sz \<and> length (bm_rest b) = sz - 1"
  by (auto simp: wf_bitmap_def bitmap_words_def)

lemma bitmap_get_array_words: "bitmap_get_array b i = bitmap_words b ! (i div 64)"
  by (simp add: bitmap_get_array_def bitmap_words_def nth_Cons' Let_def)

lemma bitmap_words_put_array:
  "bitmap_words (bitmap_put_array b i w) = (bitmap_words b)[i div 64 := w]"
  by (cases "i div 64") (auto simp: bitmap_put_array_def bitmap_words_def Let_def)

lemma bitmap_get_bit_words: "bitmap_get_bit b i = words_bit (bitmap_words b) i"
  by (simp add: bitmap_get_bit_def words_bit_def and_exp_eq_0_iff_not_bit bitmap_get_array_words)

lemma bitmap_static_get_bit_words: "bitmap_static_get_bit b i = words_bit (bs_data b) i"
  by (simp add: bitmap_static_get_bit_def words_bit_def and_exp_eq_0_iff_not_bit)

lemma div64_less: "i < 64 * n \<Longrightarrow> i div 64 < n" for i :: nat
  by (simp add: less_mult_imp_div_less mult.commute)

lemma mod64_eq: "i div 64 = j div 64 \<Longrightarrow> i mod 64 = j mod 64 \<longleftrightarrow> i = j" for i j :: nat
  by (metis div_mult_mod_eq)

lemma words_bit_set:
  "i < 64 * length ws \<Longrightarrow> j < 64 * length ws \<Longrightarrow>
   words_bit (ws[i div 64 := ws ! (i div 64) OR push_bit (i mod 64) 1]) j
     \<longleftrightarrow> j = i \<or> words_bit ws j"
  using div64_less [of i "length ws"] div64_less [of j "length ws"] mod64_eq [of i j]
  by (cases "j div 64 = i div 64") (auto simp: words_bit_def bit_simps nth_list_update)

lemma words_bit_unset:
  "i < 64 * length ws \<Longrightarrow> j < 64 * length ws \<Longrightarrow>
   words_bit (ws[i div 64 := ws ! (i div 64) AND NOT (push_bit (i mod 64) 1)]) j
     \<longleftrightarrow> j \<noteq> i \<and> words_bit ws j"
  using div64_less [of i "length ws"] div64_less [of j "length ws"] mod64_eq [of i j]
  by (cases "j div 64 = i div 64") (auto simp: words_bit_def bit_simps nth_list_update)

lemma words_least:
  assumes "m < 64 * length ws" "words_bit ws m" "\<forall>i < m. \<not> words_bit ws i"
  shows "ws ! (m div 64) \<noteq> 0" "\<forall>i < m div 64. ws ! i = 0" "ffsl (ws ! (m div 64)) = Suc (m mod 64)"
    "m div 64 < length ws"
proof -
  show len: "m div 64 < length ws" using assms(1) by (rule div64_less)
  have bm: "bit (ws ! (m div 64)) (m mod 64)" using assms(2) by (simp add: words_bit_def)
  then show nz: "ws ! (m div 64) \<noteq> 0" by auto
  have low: "\<not> bit (ws ! i) j" if "i * 64 + j < m" "j < 64" for i j
    using assms(3) that by (auto simp: words_bit_def dest: spec [of _ "i * 64 + j"])
  show "\<forall>i < m div 64. ws ! i = 0"
    using low by (auto simp: word64_eq_0_iff)
  obtain n where n: "ffsl (ws ! (m div 64)) = Suc n" "n < 64" "bit (ws ! (m div 64)) n"
      "\<forall>i < n. \<not> bit (ws ! (m div 64)) i"
    using ffsl_nonzero [OF nz] by blast
  have "\<not> n < m mod 64"
    using low [of "m div 64" n] n(2,3) by (metis add_less_cancel_left div_mult_mod_eq)
  moreover have "\<not> m mod 64 < n" using n(4) bm by blast
  ultimately show "ffsl (ws ! (m div 64)) = Suc (m mod 64)" using n(1) by simp
qed

lemma words_bit_clear_lowest:
  assumes "m < 64 * length ws" "words_bit ws m" "\<forall>i < m. \<not> words_bit ws i" "i < 64 * length ws"
  defines "a \<equiv> ws ! (m div 64)"
  shows "words_bit (ws[m div 64 := a AND (a - 1)]) i \<longleftrightarrow> i \<noteq> m \<and> words_bit ws i"
proof -
  obtain n where n: "ffsl a = Suc n" "bit a n" "\<forall>i < n. \<not> bit a i"
    using ffsl_nonzero words_least(1) [OF assms(1-3)] a_def by metis
  then have "n = m mod 64" using words_least(3) [OF assms(1-3)] a_def by simp
  with n have "bit (a AND (a - 1)) j \<longleftrightarrow> bit a j \<and> j \<noteq> m mod 64" for j
    using bit_clear_lowest by blast
  then show ?thesis
    using div64_less [OF assms(1)] mod64_eq [of i m]
    by (cases "i div 64 = m div 64") (auto simp: words_bit_def a_def)
qed

lemma words_empty: "list_all (\<lambda>w. w = 0) ws \<longleftrightarrow> (\<forall>i < 64 * length ws. \<not> words_bit ws i)"
proof
  assume "list_all (\<lambda>w. w = 0) ws"
  then show "\<forall>i < 64 * length ws. \<not> words_bit ws i"
    by (auto simp: words_bit_def list_all_length dest!: div64_less)
next
  assume r: "\<forall>i < 64 * length ws. \<not> words_bit ws i"
  have "\<not> bit (ws ! k) j" if "k < length ws" "j < 64" for k j
  proof -
    have "k * 64 + j < 64 * length ws" using that by auto
    with r have "\<not> words_bit ws (k * 64 + j)" by blast
    with that show ?thesis by (simp add: words_bit_def)
  qed
  then show "list_all (\<lambda>w. w = 0) ws" by (auto simp: list_all_length word64_eq_0_iff)
qed

text \<open>The three loops stop at the first word that is not zero.\<close>

lemma front_loop_stop:
  assumes "j \<le> k" "k < n" "ws ! k \<noteq> 0" "\<forall>i. j \<le> i \<and> i < k \<longrightarrow> ws ! i = 0"
  shows "front_loop ws n j pos = pos + 64 * (k - j) + ffsl (ws ! k) - 1"
    and "remove_front_loop ws n j pos =
           (pos + 64 * (k - j) + (ffsl (ws ! k) - 1), ws[k := ws ! k AND (ws ! k - 1)])"
    and "unset_front_loop ws n j = ws[k := ws ! k AND (ws ! k - 1)]"
proof -
  have "front_loop ws n j pos = pos + 64 * (k - j) + ffsl (ws ! k) - 1 \<and>
    remove_front_loop ws n j pos =
      (pos + 64 * (k - j) + (ffsl (ws ! k) - 1), ws[k := ws ! k AND (ws ! k - 1)]) \<and>
    unset_front_loop ws n j = ws[k := ws ! k AND (ws ! k - 1)]"
    using assms
  proof (induction "k - j" arbitrary: j pos)
    case 0
    then show ?case
      by (simp add: front_loop.simps [of ws n j] remove_front_loop.simps [of ws n j]
          unset_front_loop.simps [of ws n j] Let_def)
  next
    case (Suc d)
    then have "ws ! j = 0" "j < n" "Suc j \<le> k" by auto
    moreover have "64 + 64 * (k - Suc j) = 64 * (k - j)" using Suc.hyps(2) by auto
    ultimately show ?case
      using Suc.hyps(1) [of "Suc j" "pos + 64"] Suc.hyps(2) Suc.prems
      by (auto simp: front_loop.simps [of ws n j] remove_front_loop.simps [of ws n j]
          unset_front_loop.simps [of ws n j] Let_def algebra_simps)
  qed
  then show "front_loop ws n j pos = pos + 64 * (k - j) + ffsl (ws ! k) - 1"
    "remove_front_loop ws n j pos =
       (pos + 64 * (k - j) + (ffsl (ws ! k) - 1), ws[k := ws ! k AND (ws ! k - 1)])"
    "unset_front_loop ws n j = ws[k := ws ! k AND (ws ! k - 1)]"
    by simp_all
qed

subsection \<open>What a bitmap promises\<close>

text \<open>
  The contract of both bitmaps: a well-formed bitmap stands for a set of numbers below its
  capacity, \<open>set_bit\<close> inserts and \<open>unset_bit\<close> removes exactly one of them.
\<close>

locale bitset =
  fixes inv :: "'b \<Rightarrow> bool"
    and cap :: nat
    and get :: "'b \<Rightarrow> nat \<Rightarrow> bool"
    and put :: "'b \<Rightarrow> nat \<Rightarrow> 'b"
    and del :: "'b \<Rightarrow> nat \<Rightarrow> 'b"
  assumes inv_put: "inv b \<Longrightarrow> i < cap \<Longrightarrow> inv (put b i)"
    and inv_del: "inv b \<Longrightarrow> i < cap \<Longrightarrow> inv (del b i)"
    and get_put: "inv b \<Longrightarrow> i < cap \<Longrightarrow> j < cap \<Longrightarrow> get (put b i) j \<longleftrightarrow> j = i \<or> get b j"
    and get_del: "inv b \<Longrightarrow> i < cap \<Longrightarrow> j < cap \<Longrightarrow> get (del b i) j \<longleftrightarrow> j \<noteq> i \<and> get b j"
begin

lemma put_elems: "inv b \<Longrightarrow> i < cap \<Longrightarrow>
  {j. j < cap \<and> get (put b i) j} = insert i {j. j < cap \<and> get b j}"
  by (auto simp: get_put)

lemma del_elems: "inv b \<Longrightarrow> i < cap \<Longrightarrow>
  {j. j < cap \<and> get (del b i) j} = {j. j < cap \<and> get b j} - {i}"
  by (auto simp: get_del)

lemma fold_put:
  "inv b \<Longrightarrow> \<forall>i\<in>set is. i < cap \<Longrightarrow>
   inv (fold (\<lambda>i b. put b i) is b) \<and>
   {j. j < cap \<and> get (fold (\<lambda>i b. put b i) is b) j} = {j. j < cap \<and> get b j} \<union> set is"
  by (induction "is" arbitrary: b) (auto simp: inv_put put_elems)

lemma fold_del:
  "inv b \<Longrightarrow> \<forall>i\<in>set is. i < cap \<Longrightarrow>
   inv (fold (\<lambda>i b. del b i) is b) \<and>
   {j. j < cap \<and> get (fold (\<lambda>i b. del b i) is b) j} = {j. j < cap \<and> get b j} - set is"
  by (induction "is" arbitrary: b) (auto simp: inv_del del_elems)

end

definition wf_bitmap_static :: "nat \<Rightarrow> bitmap_static \<Rightarrow> bool" where
  "wf_bitmap_static sz b \<longleftrightarrow> length (bs_data b) = sz"

definition bitmap_set :: "nat \<Rightarrow> bitmap \<Rightarrow> nat set" where
  "bitmap_set sz b = {i. i < 64 * sz \<and> bitmap_get_bit b i}"

definition bitmap_static_set :: "nat \<Rightarrow> bitmap_static \<Rightarrow> nat set" where
  "bitmap_static_set sz b = {i. i < 64 * sz \<and> bitmap_static_get_bit b i}"

lemma bitmap_set_bit_words:
  "bitmap_words (bitmap_set_bit b i) =
     (bitmap_words b)[i div 64 := bitmap_words b ! (i div 64) OR push_bit (i mod 64) 1]"
  by (simp add: bitmap_set_bit_def bitmap_words_put_array bitmap_get_array_words)

lemma bitmap_unset_bit_words:
  "bitmap_words (bitmap_unset_bit b i) =
     (bitmap_words b)[i div 64 := bitmap_words b ! (i div 64) AND NOT (push_bit (i mod 64) 1)]"
  by (simp add: bitmap_unset_bit_def bitmap_words_put_array bitmap_get_array_words)

interpretation bm: bitset "wf_bitmap sz" "64 * sz" bitmap_get_bit bitmap_set_bit bitmap_unset_bit for sz
  by unfold_locales
    (auto simp: wf_bitmap_def bitmap_get_bit_words bitmap_set_bit_words bitmap_unset_bit_words
       words_bit_set words_bit_unset simp del: push_bit_of_1)

interpretation bs: bitset "wf_bitmap_static sz" "64 * sz" bitmap_static_get_bit bitmap_static_set_bit
    bitmap_static_unset_bit for sz
  by unfold_locales
    (auto simp: wf_bitmap_static_def bitmap_static_get_bit_words bitmap_static_set_bit_def
       bitmap_static_unset_bit_def words_bit_set words_bit_unset Let_def simp del: push_bit_of_1)

subsection \<open>The least element, emptiness, and the word-wise operations\<close>

lemma bitmap_set_words: "wf_bitmap sz b \<Longrightarrow>
  bitmap_set sz b = {i. i < 64 * length (bitmap_words b) \<and> words_bit (bitmap_words b) i}"
  by (simp add: bitmap_set_def wf_bitmap_def bitmap_get_bit_words)

lemma finite_bitmap_set [simp]: "finite (bitmap_set sz b)"
  by (simp add: bitmap_set_def)

lemma finite_bitmap_static_set [simp]: "finite (bitmap_static_set sz b)"
  by (simp add: bitmap_static_set_def)

lemma bitmap_front_cases:
  fixes sz b
  defines "m \<equiv> Min (bitmap_set sz b)" and "ws \<equiv> bitmap_words b"
  assumes wf: "wf_bitmap sz b" and ne: "bitmap_set sz b \<noteq> {}"
  shows "fst (bitmap_remove_front b sz) = m"
    and "bitmap_words (snd (bitmap_remove_front b sz)) =
           ws[m div 64 := ws ! (m div 64) AND (ws ! (m div 64) - 1)]"
    and "bitmap_front b sz = m"
    and "bitmap_unset_front b sz = snd (bitmap_remove_front b sz)"
    and "m < 64 * length ws" "words_bit ws m" "\<forall>i < m. \<not> words_bit ws i"
proof -
  have set: "bitmap_set sz b = {i. i < 64 * length ws \<and> words_bit ws i}"
    using wf by (simp add: bitmap_set_words ws_def)
  have "m \<in> bitmap_set sz b" using ne by (simp add: m_def)
  then show m: "m < 64 * length ws" "words_bit ws m" by (auto simp: set)
  show low: "\<forall>i < m. \<not> words_bit ws i"
  proof (intro allI impI notI)
    fix i assume "i < m" "words_bit ws i"
    then have "i \<in> bitmap_set sz b" using m by (simp add: set)
    then have "m \<le> i" by (simp add: m_def)
    with \<open>i < m\<close> show False by simp
  qed
  note least = words_least [OF m low]
  have first: "bm_first b = ws ! 0" and rest: "bm_rest b ! j = ws ! Suc j" for j
    by (simp_all add: ws_def bitmap_words_def)
  have len: "length ws = sz" "sz \<ge> 1" "length (bm_rest b) = sz - 1"
    using wf wf_bitmapD [OF wf] by (simp_all add: wf_bitmap_def ws_def)
  have eqs: "fst (bitmap_remove_front b sz) = m \<and>
    bitmap_words (snd (bitmap_remove_front b sz)) =
      ws[m div 64 := ws ! (m div 64) AND (ws ! (m div 64) - 1)] \<and>
    bitmap_front b sz = m \<and> bitmap_unset_front b sz = snd (bitmap_remove_front b sz)"
  proof (cases "m div 64")
    case 0
    then have nz: "bm_first b \<noteq> 0" and f: "ffsl (bm_first b) = Suc m"
      using least by (auto simp: first)
    have "bitmap_words (b\<lparr>bm_first := w\<rparr>) = ws[0 := w]" for w
      by (simp add: ws_def bitmap_words_def)
    with 0 nz f show ?thesis
      by (simp add: bitmap_remove_front_def bitmap_front_def bitmap_unset_front_def first)
  next
    case (Suc k)
    then have z: "bm_first b = 0" and sz: "sz \<noteq> 1" and k: "k < sz - 1"
      using least(2,4) len by (auto simp: first)
    have nz: "bm_rest b ! k \<noteq> 0" and f: "ffsl (bm_rest b ! k) = Suc (m mod 64)"
      using least Suc by (auto simp: rest)
    have zs: "\<forall>i. 0 \<le> i \<and> i < k \<longrightarrow> bm_rest b ! i = 0"
      using least(2) Suc by (auto simp: rest)
    have arith: "64 + 64 * k + m mod 64 = m" using Suc by (metis div_mult_mod_eq mult.commute mult_Suc_right)
    have "bitmap_words (b\<lparr>bm_rest := (bm_rest b)[k := w]\<rparr>) = ws[Suc k := w]" for w
      by (simp add: ws_def bitmap_words_def)
    with Suc z sz len f arith show ?thesis
      using front_loop_stop(1,2) [OF _ k nz zs, of 64] front_loop_stop(3) [OF _ k nz zs]
      by (simp add: bitmap_remove_front_def bitmap_front_def bitmap_unset_front_def rest)
  qed
  then show "fst (bitmap_remove_front b sz) = m"
    "bitmap_words (snd (bitmap_remove_front b sz)) =
       ws[m div 64 := ws ! (m div 64) AND (ws ! (m div 64) - 1)]"
    "bitmap_front b sz = m" "bitmap_unset_front b sz = snd (bitmap_remove_front b sz)"
    by simp_all
qed

lemma bitmap_front_facts:
  assumes "wf_bitmap sz b" and "bitmap_set sz b \<noteq> {}"
  shows "fst (bitmap_remove_front b sz) = Min (bitmap_set sz b)"
    and "wf_bitmap sz (snd (bitmap_remove_front b sz))"
    and "bitmap_set sz (snd (bitmap_remove_front b sz)) = bitmap_set sz b - {Min (bitmap_set sz b)}"
    and "bitmap_front b sz = Min (bitmap_set sz b)"
    and "bitmap_unset_front b sz = snd (bitmap_remove_front b sz)"
proof -
  note c = bitmap_front_cases [OF assms]
  show wf: "wf_bitmap sz (snd (bitmap_remove_front b sz))"
    using c(2) assms(1) by (simp add: wf_bitmap_def)
  show "bitmap_set sz (snd (bitmap_remove_front b sz)) = bitmap_set sz b - {Min (bitmap_set sz b)}"
    unfolding bitmap_set_words [OF wf] bitmap_set_words [OF assms(1)] c(2)
    using words_bit_clear_lowest [OF c(5,6,7), unfolded bitmap_set_words [OF assms(1)]]
    by (simp only: length_list_update set_eq_iff mem_Collect_eq Diff_iff singleton_iff) blast
qed (use bitmap_front_cases [OF assms] in simp_all)

text \<open>
  C20. \<^verbatim>\<open>bitmap::remove_front\<close> on a bitmap that is not empty returns its least element and
  removes exactly that element; \<^verbatim>\<open>front\<close> returns the same element and \<^verbatim>\<open>unset_front\<close> leaves the
  same bitmap. The rule queue is consumed this way, so rules run in the order of their ids.
\<close>

theorem bitmap_remove_front_least:
  assumes "wf_bitmap sz b" and "bitmap_set sz b \<noteq> {}"
  shows "fst (bitmap_remove_front b sz) = Min (bitmap_set sz b)
    \<and> wf_bitmap sz (snd (bitmap_remove_front b sz))
    \<and> bitmap_set sz (snd (bitmap_remove_front b sz)) = bitmap_set sz b - {Min (bitmap_set sz b)}
    \<and> bitmap_front b sz = Min (bitmap_set sz b)
    \<and> bitmap_unset_front b sz = snd (bitmap_remove_front b sz)"
  using bitmap_front_facts [OF assms] by simp

theorem bitmap_remove_front_least_witness:
  "fst (bitmap_remove_front \<lparr>bm_first = 0, bm_rest = [40]\<rparr> 2)
     = Min (bitmap_set 2 \<lparr>bm_first = 0, bm_rest = [40]\<rparr>)
   \<and> 67 \<in> bitmap_set 2 \<lparr>bm_first = 0, bm_rest = [40]\<rparr>"
proof -
  have wf: "wf_bitmap 2 \<lparr>bm_first = 0, bm_rest = [40]\<rparr>"
    by (simp add: wf_bitmap_def bitmap_words_def)
  have ne: "67 \<in> bitmap_set 2 \<lparr>bm_first = 0, bm_rest = [40]\<rparr>"
    by (simp add: bitmap_set_def bitmap_get_bit_def bitmap_get_array_def)
  then have "bitmap_set 2 \<lparr>bm_first = 0, bm_rest = [40]\<rparr> \<noteq> {}" by blast
  with ne bitmap_remove_front_least [OF wf] show ?thesis by blast
qed

lemma length_zip_upto [simp]: "length (zip_upto n f xs ys) = length xs"
  by (induction n) (simp_all add: zip_upto_def)

lemma nth_zip_upto:
  "n \<le> length xs \<Longrightarrow> i < length xs \<Longrightarrow>
   zip_upto n f xs ys ! i = (if i < n then f (xs ! i) (ys ! i) else xs ! i)"
proof (induction n arbitrary: i)
  case 0
  then show ?case by (simp add: zip_upto_def)
next
  case (Suc n)
  have "zip_upto (Suc n) f xs ys =
      (zip_upto n f xs ys)[n := f (zip_upto n f xs ys ! n) (ys ! n)]"
    by (simp add: zip_upto_def)
  moreover have "zip_upto n f xs ys ! n = xs ! n"
    using Suc.IH [of n] Suc.prems by simp
  ultimately show ?case using Suc by (auto simp: nth_list_update less_Suc_eq)
qed

lemma bitmap_words_nth: "bitmap_words b ! k = (if k = 0 then bm_first b else bm_rest b ! (k - 1))"
  by (simp add: bitmap_words_def nth_Cons')

lemma bitmap_combine_words:
  assumes wf: "wf_bitmap sz a" "wf_bitmap sz b" "wf_bitmap sz r" and "k < sz"
  shows "bitmap_words (bitmap_unset_bits r b sz) ! k
           = bitmap_words r ! k AND NOT (bitmap_words b ! k)"
    and "bitmap_words (bitmap_set_bits_or r b sz) ! k = bitmap_words r ! k OR bitmap_words b ! k"
    and "bitmap_words (bitmap_set_bits_of_and_result r a b sz) ! k
           = bitmap_words a ! k AND bitmap_words b ! k"
    and "bitmap_words (bitmap_unset_bits_of_and_result r a b sz) ! k
           = bitmap_words r ! k AND NOT (bitmap_words a ! k AND bitmap_words b ! k)"
  using wf [THEN wf_bitmapD] \<open>k < sz\<close>
  by (auto simp: bitmap_words_nth bitmap_unset_bits_def bitmap_set_bits_or_def
      bitmap_set_bits_of_and_result_def bitmap_unset_bits_of_and_result_def nth_zip_upto)

lemma bitmap_combine_wf:
  assumes "wf_bitmap sz r"
  shows "wf_bitmap sz (bitmap_unset_bits r b sz)" "wf_bitmap sz (bitmap_set_bits_or r b sz)"
    "wf_bitmap sz (bitmap_set_bits_of_and_result r a b sz)"
    "wf_bitmap sz (bitmap_unset_bits_of_and_result r a b sz)"
  using assms
  by (auto simp: wf_bitmap_def bitmap_words_def bitmap_unset_bits_def bitmap_set_bits_or_def
      bitmap_set_bits_of_and_result_def bitmap_unset_bits_of_and_result_def)

lemma bitmap_combine_and:
  assumes "wf_bitmap sz a" "wf_bitmap sz b" "wf_bitmap sz r"
  shows "bitmap_set sz (bitmap_set_bits_of_and_result r a b sz) = bitmap_set sz a \<inter> bitmap_set sz b"
  using bitmap_combine_words(3) [OF assms]
  by (auto simp: bitmap_set_def bitmap_get_bit_words words_bit_def div64_less bit_simps)

text \<open>
  C21. The word-wise operations compute the set operations their comments announce: removing
  the bits of another bitmap is set difference, OR-ing is union, the AND result is the
  intersection, and \<^verbatim>\<open>unset_bits_of_and_result\<close> removes the intersection.
\<close>

theorem bitmap_combine_sets:
  assumes "wf_bitmap sz a" "wf_bitmap sz b" "wf_bitmap sz r"
  shows "bitmap_set sz (bitmap_unset_bits r b sz) = bitmap_set sz r - bitmap_set sz b
    \<and> bitmap_set sz (bitmap_set_bits_or r b sz) = bitmap_set sz r \<union> bitmap_set sz b
    \<and> bitmap_set sz (bitmap_set_bits_of_and_result r a b sz) = bitmap_set sz a \<inter> bitmap_set sz b
    \<and> bitmap_set sz (bitmap_unset_bits_of_and_result r a b sz)
        = bitmap_set sz r - (bitmap_set sz a \<inter> bitmap_set sz b)"
proof (intro conjI)
  note ws = bitmap_combine_words [OF assms]
  show "bitmap_set sz (bitmap_unset_bits r b sz) = bitmap_set sz r - bitmap_set sz b"
    by (auto simp: bitmap_set_def bitmap_get_bit_words words_bit_def ws(1) div64_less bit_simps)
  show "bitmap_set sz (bitmap_set_bits_or r b sz) = bitmap_set sz r \<union> bitmap_set sz b"
    by (auto simp: bitmap_set_def bitmap_get_bit_words words_bit_def ws(2) div64_less bit_simps)
  show "bitmap_set sz (bitmap_set_bits_of_and_result r a b sz) = bitmap_set sz a \<inter> bitmap_set sz b"
    using assms by (rule bitmap_combine_and)
  show "bitmap_set sz (bitmap_unset_bits_of_and_result r a b sz)
      = bitmap_set sz r - (bitmap_set sz a \<inter> bitmap_set sz b)"
    by (auto simp: bitmap_set_def bitmap_get_bit_words words_bit_def ws(4) div64_less bit_simps)
qed

theorem bitmap_combine_sets_witness:
  "bitmap_set 2 (bitmap_unset_bits \<lparr>bm_first = 7, bm_rest = [3]\<rparr> \<lparr>bm_first = 2, bm_rest = [1]\<rparr> 2)
     = bitmap_set 2 \<lparr>bm_first = 7, bm_rest = [3]\<rparr> - bitmap_set 2 \<lparr>bm_first = 2, bm_rest = [1]\<rparr>"
proof -
  have w: "wf_bitmap 2 \<lparr>bm_first = 2, bm_rest = [1]\<rparr>" "wf_bitmap 2 \<lparr>bm_first = 7, bm_rest = [3]\<rparr>"
    by (simp_all add: wf_bitmap_def bitmap_words_def)
  show ?thesis using bitmap_combine_sets [OF w(1) w] by simp
qed

lemma bitmap_empty_iff:
  assumes "wf_bitmap sz b"
  shows "bitmap_empty b sz \<longleftrightarrow> bitmap_set sz b = {}"
proof -
  have "bitmap_empty b sz \<longleftrightarrow> list_all (\<lambda>w. w = 0) (bitmap_words b)"
    using wf_bitmapD [OF assms] list_all_length [of "\<lambda>w. w = 0" "bm_rest b"]
    by (auto simp: bitmap_empty_def bitmap_words_def list_all_iff)
  also have "\<dots> \<longleftrightarrow> bitmap_set sz b = {}"
    using assms by (auto simp: words_empty bitmap_set_words)
  finally show ?thesis .
qed

lemma bitmap_create_spec:
  assumes "1 \<le> sz" and "sz - 1 \<le> length garbage"
  shows "wf_bitmap sz (bitmap_create b garbage sz)" "bitmap_set sz (bitmap_create b garbage sz) = {}"
proof -
  have ws: "bitmap_words (bitmap_create b garbage sz) = replicate sz 0"
    using assms by (cases sz)
      (auto simp: bitmap_create_def bitmap_clear_def bitmap_words_def Let_def)
  then show wf: "wf_bitmap sz (bitmap_create b garbage sz)" by (simp add: wf_bitmap_def)
  show "bitmap_set sz (bitmap_create b garbage sz) = {}"
    by (auto simp: bitmap_set_words [OF wf] ws words_bit_def div64_less)
qed

subsection \<open>The iterator enumerates the set in increasing order\<close>

definition iter_ok :: "nat \<Rightarrow> bitmap_iterator \<Rightarrow> bool" where
  "iter_ok sz it \<longleftrightarrow> it_pos it < 64 \<and> it_total it < it_items it \<and> it_items it \<le> 64 * sz \<and>
     it_total it = 64 * (if it_in_first it then 0 else Suc (it_rest it)) + it_pos it"

lemma iter_okD:
  assumes "wf_bitmap sz b" "iter_ok sz it"
  shows "iter_word b it = Some (bitmap_words b ! (it_total it div 64))"
    and "it_pos it = it_total it mod 64"
proof -
  show "iter_word b it = Some (bitmap_words b ! (it_total it div 64))"
  proof (cases "it_in_first it")
    case True
    then show ?thesis using assms(2) by (simp add: iter_ok_def iter_word_def bitmap_words_def)
  next
    case False
    with assms(2) have "it_total it = 64 * Suc (it_rest it) + it_pos it" "it_pos it < 64"
        "it_total it < 64 * sz" by (auto simp: iter_ok_def)
    then have "it_total it div 64 = Suc (it_rest it)" "Suc (it_rest it) < sz" by simp_all
    with False wf_bitmapD [OF assms(1)] show ?thesis by (simp add: iter_word_def bitmap_words_def)
  qed
  show "it_pos it = it_total it mod 64" using assms(2) by (simp add: iter_ok_def)
qed

lemma iter_move_ok:
  assumes "iter_ok sz it" and "iter_move_position it = (go, it')"
  shows "it_total it' = Suc (it_total it)" "it_items it' = it_items it"
    "go \<longleftrightarrow> Suc (it_total it) \<noteq> it_items it" "go \<Longrightarrow> iter_ok sz it'"
  using assms
  by (auto simp: iter_ok_def iter_move_position_def Let_def split: if_splits)

lemma iter_find_first_pos_spec:
  assumes "wf_bitmap sz b" "iter_ok sz it"
  shows "\<exists>it'. iter_find_first_pos b it = Some it' \<and> it_items it' = it_items it \<and>
    it_total it \<le> it_total it' \<and> it_total it' \<le> it_items it \<and>
    filter (bitmap_get_bit b) [it_total it..<it_items it]
      = filter (bitmap_get_bit b) [it_total it'..<it_items it] \<and>
    (it_total it' < it_items it \<longrightarrow> iter_ok sz it' \<and> bitmap_get_bit b (it_total it'))"
  using assms(2)
proof (induction "it_items it - it_total it" arbitrary: it rule: less_induct)
  case less
  note ok = iter_okD [OF assms(1) less.prems]
  have lt: "it_total it < it_items it" using less.prems by (simp add: iter_ok_def)
  have bit: "bitmap_words b ! (it_total it div 64) AND push_bit (it_pos it) 1 \<noteq> 0
      \<longleftrightarrow> bitmap_get_bit b (it_total it)"
    by (simp add: ok(2) bitmap_get_bit_words words_bit_def and_exp_eq_0_iff_not_bit)
  obtain go it1 where mv: "iter_move_position it = (go, it1)" by fastforce
  note mo = iter_move_ok [OF less.prems mv]
  show ?case
  proof (cases "bitmap_get_bit b (it_total it)")
    case True
    then show ?thesis using less.prems lt bit
      by (simp add: iter_find_first_pos.simps ok(1))
  next
    case False
    then have step: "iter_find_first_pos b it = (if go then iter_find_first_pos b it1 else Some it1)"
      using bit by (simp add: iter_find_first_pos.simps [of b it] ok(1) mv)
    have fl: "filter (bitmap_get_bit b) [it_total it..<it_items it]
        = filter (bitmap_get_bit b) [it_total it1..<it_items it]"
      using False lt by (simp add: mo upt_conv_Cons)
    show ?thesis
    proof (cases go)
      case True
      then show ?thesis
        using less.hyps [of it1] mo lt step fl by (fastforce simp: iter_ok_def)
    next
      case False
      then show ?thesis using step mo fl lt by auto
    qed
  qed
qed

lemma iter_collect_spec:
  assumes "wf_bitmap sz b" "iter_ok sz it" "bitmap_get_bit b (it_total it)"
  shows "iter_collect b it = Some (filter (bitmap_get_bit b) [it_total it..<it_items it])"
  using assms(2,3)
proof (induction "it_items it - it_total it" arbitrary: it rule: less_induct)
  case less
  have lt: "it_total it < it_items it" using less.prems by (simp add: iter_ok_def)
  then have fl: "filter (bitmap_get_bit b) [it_total it..<it_items it]
      = it_total it # filter (bitmap_get_bit b) [Suc (it_total it)..<it_items it]"
    using less.prems by (simp add: upt_conv_Cons)
  obtain go it1 where mv: "iter_move_position it = (go, it1)" by fastforce
  note mo = iter_move_ok [OF less.prems(1) mv]
  obtain it2 where it2: "iter_next b it = Some it2" "it_items it2 = it_items it"
      "it_total it < it_total it2" "it_total it2 \<le> it_items it"
      "filter (bitmap_get_bit b) [Suc (it_total it)..<it_items it]
         = filter (bitmap_get_bit b) [it_total it2..<it_items it]"
      "it_total it2 < it_items it \<longrightarrow> iter_ok sz it2 \<and> bitmap_get_bit b (it_total it2)"
  proof (cases go)
    case True
    then have "iter_next b it = iter_find_first_pos b it1" by (simp add: iter_next_def mv)
    then show ?thesis
      using that iter_find_first_pos_spec [OF assms(1) mo(4) [OF True]] mo by (auto simp: Suc_le_eq)
  next
    case False
    then show ?thesis using that [of it1] mo by (simp add: iter_next_def mv)
  qed
  have rest: "iter_collect b it2 = Some (filter (bitmap_get_bit b) [it_total it2..<it_items it])"
  proof (cases "it_total it2 < it_items it")
    case True
    then show ?thesis using less.hyps [of it2] it2 by auto
  next
    case False
    then show ?thesis using it2 by (simp add: iter_collect.simps iter_end_def)
  qed
  have "iter_collect b it = Some (it_total it # filter (bitmap_get_bit b) [it_total it2..<it_items it])"
    using lt it2(1) rest by (simp add: iter_collect.simps [of b it] iter_end_def)
  then show ?case using fl it2(5) by simp
qed

lemma bitmap_elements_in_order:
  assumes "wf_bitmap sz b" "0 < items" "items \<le> 64 * sz"
  shows "bitmap_elements b items = Some (filter (bitmap_get_bit b) [0..<items])"
proof (cases "bm_rest b = [] \<and> bm_first b = 0")
  case True
  then have "\<not> bitmap_get_bit b i" if "i < items" for i
    using wf_bitmapD [OF assms(1)] assms(3) that
    by (simp add: bitmap_get_bit_def bitmap_get_array_def)
  then have "filter (bitmap_get_bit b) [0..<items] = []" by (simp add: filter_empty_conv)
  with True show ?thesis
    by (simp add: bitmap_elements_def iter_begin_def iter_collect.simps iter_end_def)
next
  case False
  define it where "it = \<lparr>it_rest = 0, it_in_first = True, it_pos = 0, it_total = 0, it_items = items\<rparr>"
  have b: "iter_begin b items = iter_find_first_pos b it"
    using False by (auto simp: iter_begin_def it_def Let_def)
  have ok: "iter_ok sz it" using assms(2,3) by (simp add: iter_ok_def it_def)
  obtain it1 where it1: "iter_find_first_pos b it = Some it1" "it_items it1 = items"
      "it_total it1 \<le> items"
      "filter (bitmap_get_bit b) [0..<items] = filter (bitmap_get_bit b) [it_total it1..<items]"
      "it_total it1 < items \<longrightarrow> iter_ok sz it1 \<and> bitmap_get_bit b (it_total it1)"
    using iter_find_first_pos_spec [OF assms(1) ok] by (auto simp: it_def)
  show ?thesis
  proof (cases "it_total it1 < items")
    case True
    then show ?thesis using it1 iter_collect_spec [OF assms(1)] by (simp add: bitmap_elements_def b)
  next
    case False
    then show ?thesis using it1
      by (simp add: bitmap_elements_def b iter_collect.simps [of b it1] iter_end_def)
  qed
qed

lemma bitmap_elements_no_items: "bitmap_elements \<lparr>bm_first = 2, bm_rest = []\<rparr> 0 \<noteq> Some []"
proof -
  let ?b = "\<lparr>bm_first = 2, bm_rest = []\<rparr>" and ?it = "\<lparr>it_rest = 0, it_in_first = True, it_pos = Suc 0, it_total = Suc 0, it_items = 0\<rparr>"
  have 1: "iter_find_first_pos ?b ?it = Some ?it" by (subst iter_find_first_pos.simps) (simp add: iter_word_def)
  have "iter_begin ?b 0 = iter_find_first_pos ?b ?it"
    unfolding iter_begin_def Let_def by (subst iter_find_first_pos.simps) (simp add: iter_word_def iter_move_position_def)
  then have "bitmap_elements ?b 0 = iter_collect ?b ?it" unfolding bitmap_elements_def 1 by (simp only: bind.simps)
  then show ?thesis by (simp add: iter_collect.simps [of ?b ?it] iter_end_def bind_eq_Some_conv)
qed



end
