(* ===== verification/Rule_Matcher.thy ===== *)
theory Rule_Matcher
  imports Bitmap
begin

text \<open>
  \<^verbatim>\<open>vm/rule_matcher.hpp\<close>: each node keeps, for every rule, how many of the predicates in its body
  have facts in the node's database, and a queue of the rules that may run. The operations are
  modelled on the bitmaps of \<open>Bitmap\<close> and the byte counters of the code (interpreted build,
  not \<^verbatim>\<open>COMPILED\<close>), together with the part of the program loader (\<^verbatim>\<open>vm/program.cpp\<close>) that builds
  the tables they read.

  The invariant \<open>matcher_inv\<close> says that the counter of a rule is the number of its body
  predicates that are available and that only rules with a complete body are queued. The
  locale \<open>fact_matcher\<close> is the abstract machine on two sets (available predicates, queued
  rules); the matcher is shown to implement it.
\<close>

subsection \<open>The tables of the program\<close>

text \<open>
  Indexed by predicate id: the rules a predicate affects (\<^verbatim>\<open>predicate::linear_rules\<close>, one entry
  per occurrence in a rule). Indexed by rule id: the predicates of its body
  (\<^verbatim>\<open>rule::predicates\<close>).
\<close>

record program_rules =
  pr_linear_rules :: "nat list list"
  pr_rule_predicates :: "nat list list"
  pr_thread_predicates_map :: bitmap

definition num_predicates_of :: "program_rules \<Rightarrow> nat" where
  "num_predicates_of P = length (pr_linear_rules P)"

definition num_rules_of :: "program_rules \<Rightarrow> nat" where
  "num_rules_of P = length (pr_rule_predicates P)"

definition rule_num_predicates :: "program_rules \<Rightarrow> nat \<Rightarrow> nat" where
  "rule_num_predicates P r = length (pr_rule_predicates P ! r)"

definition next_multiple_of_uint :: "nat \<Rightarrow> nat" where
  "next_multiple_of_uint v =
     (let ret = v div bitmap_bits in if v mod bitmap_bits > 0 then ret + 1 else ret)"

definition add_linear_affected_rule :: "program_rules \<Rightarrow> nat \<Rightarrow> nat \<Rightarrow> program_rules" where
  "add_linear_affected_rule P p r =
     P\<lparr>pr_linear_rules := (pr_linear_rules P)[p := pr_linear_rules P ! p @ [r]]\<rparr>"

definition rule_add_predicate :: "program_rules \<Rightarrow> nat \<Rightarrow> nat \<Rightarrow> program_rules" where
  "rule_add_predicate P r p =
     P\<lparr>pr_rule_predicates := (pr_rule_predicates P)[r := pr_rule_predicates P ! r @ [p]]\<rparr>"

text \<open>The loop of the loader that reads the body predicates \<open>ids\<close> of rule \<open>r\<close>, and the one over all rules.\<close>

definition load_rule_predicates :: "nat \<Rightarrow> nat list \<Rightarrow> program_rules \<Rightarrow> program_rules" where
  "load_rule_predicates r ids P =
     fold (\<lambda>p P. rule_add_predicate (add_linear_affected_rule P p r) r p) ids P"

definition load_rules :: "nat list list \<Rightarrow> program_rules \<Rightarrow> program_rules" where
  "load_rules bodies P = fold (\<lambda>r P. load_rule_predicates r (bodies ! r) P) [0..<length bodies] P"

subsection \<open>The matcher\<close>

record rule_matcher =
  rm_rules :: "byte list"
  rm_predicate_existence :: bitmap
  rm_rule_queue :: bitmap

definition unavailability_step :: "program_rules \<Rightarrow> nat \<Rightarrow> rule_matcher \<Rightarrow> rule_matcher" where
  "unavailability_step P r m =
     (let m1 = (if unat (rm_rules m ! r) = rule_num_predicates P r
                then m\<lparr>rm_rule_queue := bitmap_unset_bit (rm_rule_queue m) r\<rparr> else m)
      in m1\<lparr>rm_rules := (rm_rules m1)[r := rm_rules m1 ! r - 1]\<rparr>)"

definition register_predicate_unavailability ::
  "program_rules \<Rightarrow> nat \<Rightarrow> rule_matcher \<Rightarrow> rule_matcher" where
  "register_predicate_unavailability P p m =
     fold (unavailability_step P) (pr_linear_rules P ! p)
       (m\<lparr>rm_predicate_existence := bitmap_unset_bit (rm_predicate_existence m) p\<rparr>)"

definition availability_step :: "program_rules \<Rightarrow> nat \<Rightarrow> rule_matcher \<Rightarrow> rule_matcher" where
  "availability_step P r m =
     (let m1 = m\<lparr>rm_rules := (rm_rules m)[r := rm_rules m ! r + 1]\<rparr>
      in if unat (rm_rules m1 ! r) = rule_num_predicates P r
         then m1\<lparr>rm_rule_queue := bitmap_set_bit (rm_rule_queue m1) r\<rparr> else m1)"

definition register_predicate_availability ::
  "program_rules \<Rightarrow> nat \<Rightarrow> rule_matcher \<Rightarrow> rule_matcher" where
  "register_predicate_availability P p m =
     fold (availability_step P) (pr_linear_rules P ! p)
       (m\<lparr>rm_predicate_existence := bitmap_set_bit (rm_predicate_existence m) p\<rparr>)"

definition update_step :: "program_rules \<Rightarrow> nat \<Rightarrow> rule_matcher \<Rightarrow> rule_matcher" where
  "update_step P r m =
     (if unat (rm_rules m ! r) = rule_num_predicates P r
      then m\<lparr>rm_rule_queue := bitmap_set_bit (rm_rule_queue m) r\<rparr> else m)"

definition register_predicate_update ::
  "program_rules \<Rightarrow> nat \<Rightarrow> rule_matcher \<Rightarrow> rule_matcher" where
  "register_predicate_update P p m = fold (update_step P) (pr_linear_rules P ! p) m"

definition new_linear_fact :: "program_rules \<Rightarrow> nat \<Rightarrow> rule_matcher \<Rightarrow> rule_matcher" where
  "new_linear_fact P p m =
     (if bitmap_get_bit (rm_predicate_existence m) p then register_predicate_update P p m
      else register_predicate_availability P p m)"

definition new_persistent_fact :: "program_rules \<Rightarrow> nat \<Rightarrow> rule_matcher \<Rightarrow> rule_matcher" where
  "new_persistent_fact P p m = new_linear_fact P p m"

definition empty_predicate :: "program_rules \<Rightarrow> nat \<Rightarrow> rule_matcher \<Rightarrow> rule_matcher" where
  "empty_predicate P p m =
     (if bitmap_get_bit (rm_predicate_existence m) p
      then register_predicate_unavailability P p m else m)"

definition new_persistent_count ::
  "program_rules \<Rightarrow> nat \<Rightarrow> nat \<Rightarrow> rule_matcher \<Rightarrow> rule_matcher" where
  "new_persistent_count P p cnt m =
     (if cnt = 0
      then (if bitmap_get_bit (rm_predicate_existence m) p
            then register_predicate_unavailability P p m else m)
      else if cnt > 0 then new_persistent_fact P p m else m)"

definition matcher_is_empty :: "program_rules \<Rightarrow> rule_matcher \<Rightarrow> bool" where
  "matcher_is_empty P m =
     bitmap_empty (rm_predicate_existence m) (next_multiple_of_uint (num_predicates_of P))"

text \<open>\<open>None\<close> when the bitmap iterator runs outside its array.\<close>

definition add_thread :: "program_rules \<Rightarrow> rule_matcher \<Rightarrow> rule_matcher \<Rightarrow> rule_matcher option" where
  "add_thread P thread_matcher m =
     map_option (\<lambda>ps. fold (new_linear_fact P) ps m)
       (bitmap_elements (rm_predicate_existence thread_matcher) (num_predicates_of P))"

definition remove_thread ::
  "program_rules \<Rightarrow> rule_matcher \<Rightarrow> rule_matcher \<Rightarrow> (rule_matcher \<times> rule_matcher) option" where
  "remove_thread P thread_matcher m =
     (let tm = thread_matcher\<lparr>rm_predicate_existence :=
                 bitmap_set_bits_of_and_result (rm_predicate_existence thread_matcher)
                   (pr_thread_predicates_map P) (rm_predicate_existence m)
                   (next_multiple_of_uint (num_predicates_of P))\<rparr>
      in map_option
           (\<lambda>ps. (tm, fold (\<lambda>p m. if bitmap_get_bit (rm_predicate_existence m) p
                               then register_predicate_unavailability P p m else m) ps m))
           (bitmap_elements (pr_thread_predicates_map P) (num_predicates_of P)))"

text \<open>The constructor: zeroed counters, two cleared bitmaps (\<open>g1\<close>, \<open>g2\<close>: the allocated memory).\<close>

definition create_rule_matcher ::
  "program_rules \<Rightarrow> bitmap_type list \<Rightarrow> bitmap_type list \<Rightarrow> rule_matcher \<Rightarrow> rule_matcher" where
  "create_rule_matcher P g1 g2 m =
     \<lparr>rm_rules = replicate (num_rules_of P) 0,
      rm_predicate_existence = bitmap_create (rm_predicate_existence m) g1
        (next_multiple_of_uint (num_predicates_of P)),
      rm_rule_queue = bitmap_create (rm_rule_queue m) g2 (next_multiple_of_uint (num_rules_of P))\<rparr>"

subsection \<open>Well-formed programs\<close>

definition rule_body :: "program_rules \<Rightarrow> nat \<Rightarrow> nat list" where
  "rule_body P r = pr_rule_predicates P ! r"

text \<open>
  What the loader establishes: the two tables are transposes of each other, ids are in range,
  no body has 256 or more predicates (the loader asserts fewer than 10), and there is at least
  one predicate and one rule.
\<close>

definition wf_program_rules :: "program_rules \<Rightarrow> bool" where
  "wf_program_rules P \<longleftrightarrow>
     0 < num_predicates_of P \<and> 0 < num_rules_of P \<and>
     (\<forall>r < num_rules_of P. length (rule_body P r) < 256 \<and>
        (\<forall>p \<in> set (rule_body P r). p < num_predicates_of P)) \<and>
     (\<forall>p < num_predicates_of P. \<forall>r. r \<in> set (pr_linear_rules P ! p) \<longrightarrow> r < num_rules_of P) \<and>
     (\<forall>p < num_predicates_of P. \<forall>r < num_rules_of P.
        count_list (pr_linear_rules P ! p) r = count_list (rule_body P r) p) \<and>
     wf_bitmap (next_multiple_of_uint (num_predicates_of P)) (pr_thread_predicates_map P)"

lemma next_multiple_of_uint_bound: "v \<le> 64 * next_multiple_of_uint v"
  by (auto simp: next_multiple_of_uint_def Let_def)

lemma next_multiple_of_uint_pos: "0 < v \<Longrightarrow> 0 < next_multiple_of_uint v"
  by (auto simp: next_multiple_of_uint_def Let_def intro: Nat.gr0I)

text \<open>Loading the bodies into empty tables gives a well-formed program.\<close>

lemma load_rule_predicates_tables:
  assumes "r < length (pr_rule_predicates P)"
  shows "pr_rule_predicates (load_rule_predicates r ids P)
           = (pr_rule_predicates P)[r := pr_rule_predicates P ! r @ ids]"
    and "length (pr_linear_rules (load_rule_predicates r ids P)) = length (pr_linear_rules P)"
    and "p < length (pr_linear_rules P) \<Longrightarrow>
      pr_linear_rules (load_rule_predicates r ids P) ! p
        = pr_linear_rules P ! p @ replicate (count_list ids p) r"
    and "pr_thread_predicates_map (load_rule_predicates r ids P) = pr_thread_predicates_map P"
proof -
  have "pr_rule_predicates (load_rule_predicates r ids P)
          = (pr_rule_predicates P)[r := pr_rule_predicates P ! r @ ids] \<and>
    length (pr_linear_rules (load_rule_predicates r ids P)) = length (pr_linear_rules P) \<and>
    (p < length (pr_linear_rules P) \<longrightarrow>
      pr_linear_rules (load_rule_predicates r ids P) ! p
        = pr_linear_rules P ! p @ replicate (count_list ids p) r) \<and>
    pr_thread_predicates_map (load_rule_predicates r ids P) = pr_thread_predicates_map P"
    using assms
  proof (induction ids arbitrary: P)
    case Nil
    then show ?case by (simp add: load_rule_predicates_def)
  next
    case (Cons q ids)
    have "load_rule_predicates r (q # ids) P =
        load_rule_predicates r ids (rule_add_predicate (add_linear_affected_rule P q r) r q)"
      by (simp add: load_rule_predicates_def)
    with Cons show ?case
      by (auto simp: rule_add_predicate_def add_linear_affected_rule_def nth_list_update
          replicate_app_Cons_same)
  qed
  then show "pr_rule_predicates (load_rule_predicates r ids P)
          = (pr_rule_predicates P)[r := pr_rule_predicates P ! r @ ids]"
    "length (pr_linear_rules (load_rule_predicates r ids P)) = length (pr_linear_rules P)"
    "p < length (pr_linear_rules P) \<Longrightarrow>
      pr_linear_rules (load_rule_predicates r ids P) ! p
        = pr_linear_rules P ! p @ replicate (count_list ids p) r"
    "pr_thread_predicates_map (load_rule_predicates r ids P) = pr_thread_predicates_map P"
    by simp_all
qed

lemma count_list_replicate: "count_list (replicate n x) y = (if x = y then n else 0)"
  by (induction n) auto

lemma load_rules_prefix:
  fixes np bodies m
  defines "P0 \<equiv> \<lparr>pr_linear_rules = replicate np [], pr_rule_predicates = replicate (length bodies) [],
                 pr_thread_predicates_map = m\<rparr>"
  defines "Pk \<equiv> \<lambda>k. fold (\<lambda>r P. load_rule_predicates r (bodies ! r) P) [0..<k] P0"
  assumes "k \<le> length bodies"
  shows "pr_rule_predicates (Pk k) = take k bodies @ replicate (length bodies - k) [] \<and>
    length (pr_linear_rules (Pk k)) = np \<and> pr_thread_predicates_map (Pk k) = m \<and>
    (\<forall>p < np. set (pr_linear_rules (Pk k) ! p) \<subseteq> {..<k} \<and>
       (\<forall>r < k. count_list (pr_linear_rules (Pk k) ! p) r = count_list (bodies ! r) p))"
  using assms(3)
proof (induction k)
  case 0
  then show ?case by (simp add: Pk_def P0_def)
next
  case (Suc k)
  have step: "Pk (Suc k) = load_rule_predicates k (bodies ! k) (Pk k)" by (simp add: Pk_def)
  from Suc have IH: "pr_rule_predicates (Pk k) = take k bodies @ replicate (length bodies - k) []"
      "length (pr_linear_rules (Pk k)) = np" "pr_thread_predicates_map (Pk k) = m"
      "\<And>p. p < np \<Longrightarrow> set (pr_linear_rules (Pk k) ! p) \<subseteq> {..<k}"
      "\<And>p r. p < np \<Longrightarrow> r < k \<Longrightarrow>
         count_list (pr_linear_rules (Pk k) ! p) r = count_list (bodies ! r) p"
    by auto
  have k: "k < length (pr_rule_predicates (Pk k))" using IH(1) Suc.prems by simp
  note t = load_rule_predicates_tables [OF k, where ids = "bodies ! k"]
  have "(take k bodies @ replicate (length bodies - k) [])[k := [] @ bodies ! k]
      = take (Suc k) bodies @ replicate (length bodies - Suc k) []"
    using Suc.prems by (auto simp: list_update_append take_Suc_conv_app_nth
        Suc_diff_Suc [symmetric] simp del: Suc_diff_Suc split: nat.split)
  moreover have "pr_rule_predicates (Pk k) ! k = []"
    using IH(1) Suc.prems by (simp add: nth_append)
  ultimately have a: "pr_rule_predicates (Pk (Suc k))
      = take (Suc k) bodies @ replicate (length bodies - Suc k) []"
    using t(1) IH(1) by (simp add: step)
  have "count_list (pr_linear_rules (Pk k) ! p) k = 0" if "p < np" for p
    using IH(4) [OF that] by (auto simp: count_list_0_iff)
  then have "\<forall>p < np. set (pr_linear_rules (Pk (Suc k)) ! p) \<subseteq> {..<Suc k} \<and>
      (\<forall>r < Suc k. count_list (pr_linear_rules (Pk (Suc k)) ! p) r = count_list (bodies ! r) p)"
    using t(3) IH by (fastforce simp: step less_Suc_eq count_list_replicate)
  with a t(2,4) IH(2,3) show ?case by (simp add: step)
qed

subsection \<open>The invariant\<close>

abbreviation preds_words :: "program_rules \<Rightarrow> nat" where
  "preds_words P \<equiv> next_multiple_of_uint (num_predicates_of P)"

abbreviation rules_words :: "program_rules \<Rightarrow> nat" where
  "rules_words P \<equiv> next_multiple_of_uint (num_rules_of P)"

definition available :: "program_rules \<Rightarrow> rule_matcher \<Rightarrow> nat set" where
  "available P m = bitmap_set (preds_words P) (rm_predicate_existence m)"

definition queued :: "program_rules \<Rightarrow> rule_matcher \<Rightarrow> nat set" where
  "queued P m = bitmap_set (rules_words P) (rm_rule_queue m)"

definition matcher_inv :: "program_rules \<Rightarrow> rule_matcher \<Rightarrow> bool" where
  "matcher_inv P m \<longleftrightarrow>
     wf_bitmap (preds_words P) (rm_predicate_existence m) \<and>
     wf_bitmap (rules_words P) (rm_rule_queue m) \<and>
     length (rm_rules m) = num_rules_of P \<and>
     available P m \<subseteq> {..<num_predicates_of P} \<and>
     (\<forall>r < num_rules_of P.
        unat (rm_rules m ! r) = length (filter (\<lambda>p. p \<in> available P m) (rule_body P r))) \<and>
     (\<forall>r \<in> queued P m. r < num_rules_of P \<and> set (rule_body P r) \<subseteq> available P m)"

lemma pred_in_words: "p < num_predicates_of P \<Longrightarrow> p < 64 * preds_words P"
  using next_multiple_of_uint_bound [of "num_predicates_of P"] by linarith

lemma rule_in_words: "r < num_rules_of P \<Longrightarrow> r < 64 * rules_words P"
  using next_multiple_of_uint_bound [of "num_rules_of P"] by linarith

lemma available_get: "p < num_predicates_of P \<Longrightarrow>
  bitmap_get_bit (rm_predicate_existence m) p \<longleftrightarrow> p \<in> available P m"
  by (simp add: available_def bitmap_set_def pred_in_words)

lemma length_filter_insert:
  "p \<notin> A \<Longrightarrow> length (filter (\<lambda>q. q \<in> insert p A) xs) = length (filter (\<lambda>q. q \<in> A) xs) + count_list xs p"
  by (induction xs) auto

lemma length_filter_remove:
  "p \<in> A \<Longrightarrow> length (filter (\<lambda>q. q \<in> A - {p}) xs) + count_list xs p = length (filter (\<lambda>q. q \<in> A) xs)"
  by (induction xs) auto

lemma length_filter_all: "length (filter (\<lambda>q. q \<in> A) xs) = length xs \<longleftrightarrow> set xs \<subseteq> A"
  by (metis filter_True length_filter_less not_less_iff_gr_or_eq subset_code(1))

text \<open>The three loops over the rules of a predicate.\<close>

lemma byte_inc: "unat w + 1 < 256 \<Longrightarrow> unat (w + 1) = unat w + 1" for w :: byte
  by (simp add: unat_word_ariths)

lemma byte_dec: "0 < unat w \<Longrightarrow> unat (w - 1) = unat w - 1" for w :: byte
  by (metis unat_0 less_irrefl unat_minus_one)

lemma availability_loop:
  assumes "\<forall>r \<in> set rs. r < num_rules_of P" "length (rm_rules m) = num_rules_of P"
    "wf_bitmap (rules_words P) (rm_rule_queue m)"
    "\<forall>r < num_rules_of P. unat (rm_rules m ! r) + count_list rs r \<le> rule_num_predicates P r
       \<and> rule_num_predicates P r < 256"
  defines "m' \<equiv> fold (availability_step P) rs m"
  shows "rm_predicate_existence m' = rm_predicate_existence m
    \<and> length (rm_rules m') = num_rules_of P \<and> wf_bitmap (rules_words P) (rm_rule_queue m')
    \<and> (\<forall>r < num_rules_of P. unat (rm_rules m' ! r) = unat (rm_rules m ! r) + count_list rs r)
    \<and> queued P m' = queued P m \<union>
        {r \<in> set rs. unat (rm_rules m ! r) + count_list rs r = rule_num_predicates P r}"
  using assms(1-4) unfolding m'_def
proof (induction rs arbitrary: m)
  case Nil
  then show ?case by simp
next
  case (Cons r rs)
  define m1 where "m1 = availability_step P r m"
  have r: "r < num_rules_of P" using Cons.prems(1) by simp
  have "unat (rm_rules m ! r) + 1 + count_list rs r \<le> rule_num_predicates P r"
    using Cons.prems(4) r by fastforce
  then have inc: "unat (rm_rules m ! r + 1) = unat (rm_rules m ! r) + 1"
    using Cons.prems(4) r by (intro byte_inc) fastforce
  have rules: "rm_rules m1 = (rm_rules m)[r := rm_rules m ! r + 1]"
    and ex: "rm_predicate_existence m1 = rm_predicate_existence m"
    by (simp_all add: m1_def availability_step_def Let_def)
  have wf: "wf_bitmap (rules_words P) (rm_rule_queue m1)"
    using Cons.prems(3) bm.inv_put [OF _ rule_in_words [OF r]]
    by (simp add: m1_def availability_step_def Let_def)
  have q: "queued P m1 = queued P m \<union>
      (if unat (rm_rules m ! r) + 1 = rule_num_predicates P r then {r} else {})"
    using bm.put_elems [OF Cons.prems(3) rule_in_words [OF r]] inc r Cons.prems(2)
    by (auto simp: m1_def availability_step_def Let_def queued_def bitmap_set_def)
  have un: "unat (rm_rules m1 ! s) = unat (rm_rules m ! s) + (if s = r then 1 else 0)"
    if "s < num_rules_of P" for s
    using that inc Cons.prems(2) by (simp add: rules nth_list_update)
  have "\<forall>s < num_rules_of P. unat (rm_rules m1 ! s) + count_list rs s \<le> rule_num_predicates P s
       \<and> rule_num_predicates P s < 256"
    using Cons.prems(4) un by fastforce
  note IH = Cons.IH [OF _ _ wf this]
  then have IH: "rm_predicate_existence (fold (availability_step P) rs m1) = rm_predicate_existence m1
    \<and> length (rm_rules (fold (availability_step P) rs m1)) = num_rules_of P
    \<and> wf_bitmap (rules_words P) (rm_rule_queue (fold (availability_step P) rs m1))
    \<and> (\<forall>s < num_rules_of P. unat (rm_rules (fold (availability_step P) rs m1) ! s)
          = unat (rm_rules m1 ! s) + count_list rs s)
    \<and> queued P (fold (availability_step P) rs m1) = queued P m1 \<union>
        {s \<in> set rs. unat (rm_rules m1 ! s) + count_list rs s = rule_num_predicates P s}"
    using Cons.prems(1,2) by (simp add: rules)
  have "queued P (fold (availability_step P) rs m1) = queued P m \<union>
      {s \<in> set (r # rs). unat (rm_rules m ! s) + count_list (r # rs) s = rule_num_predicates P s}"
  proof -
    have "r \<notin> set rs \<Longrightarrow> count_list rs r = 0" by (simp add: count_list_0_iff)
    moreover have "r \<in> set rs \<Longrightarrow> 0 < count_list rs r" by (metis count_list_0_iff gr0I)
    moreover have "unat (rm_rules m ! r) + 1 + count_list rs r \<le> rule_num_predicates P r" by fact
    moreover have "\<forall>s \<in> set rs. s < num_rules_of P" using Cons.prems(1) by simp
    ultimately show ?thesis using IH un r by (auto simp: q)
  qed
  with IH un show ?case by (simp add: m1_def [symmetric] ex)
qed

lemma unavailability_loop:
  assumes "\<forall>r \<in> set rs. r < num_rules_of P" "length (rm_rules m) = num_rules_of P"
    "wf_bitmap (rules_words P) (rm_rule_queue m)"
    "\<forall>r < num_rules_of P. count_list rs r \<le> unat (rm_rules m ! r)
       \<and> unat (rm_rules m ! r) \<le> rule_num_predicates P r"
  defines "m' \<equiv> fold (unavailability_step P) rs m"
  shows "rm_predicate_existence m' = rm_predicate_existence m
    \<and> length (rm_rules m') = num_rules_of P \<and> wf_bitmap (rules_words P) (rm_rule_queue m')
    \<and> (\<forall>r < num_rules_of P. unat (rm_rules m' ! r) = unat (rm_rules m ! r) - count_list rs r)
    \<and> queued P m' = queued P m - {r \<in> set rs. unat (rm_rules m ! r) = rule_num_predicates P r}"
  using assms(1-4) unfolding m'_def
proof (induction rs arbitrary: m)
  case Nil
  then show ?case by simp
next
  case (Cons r rs)
  define m1 where "m1 = unavailability_step P r m"
  have r: "r < num_rules_of P" using Cons.prems(1) by simp
  have pos: "count_list rs r + 1 \<le> unat (rm_rules m ! r)"
    using Cons.prems(4) r by fastforce
  then have dec: "unat (rm_rules m ! r - 1) = unat (rm_rules m ! r) - 1"
    by (intro byte_dec) simp
  have rules: "rm_rules m1 = (rm_rules m)[r := rm_rules m ! r - 1]"
    and ex: "rm_predicate_existence m1 = rm_predicate_existence m"
    by (simp_all add: m1_def unavailability_step_def Let_def)
  have wf: "wf_bitmap (rules_words P) (rm_rule_queue m1)"
    using Cons.prems(3) bm.inv_del [OF _ rule_in_words [OF r]]
    by (simp add: m1_def unavailability_step_def Let_def)
  have q: "queued P m1 = queued P m -
      (if unat (rm_rules m ! r) = rule_num_predicates P r then {r} else {})"
    using bm.del_elems [OF Cons.prems(3) rule_in_words [OF r]]
    by (auto simp: m1_def unavailability_step_def Let_def queued_def bitmap_set_def)
  have un: "unat (rm_rules m1 ! s) = unat (rm_rules m ! s) - (if s = r then 1 else 0)"
    if "s < num_rules_of P" for s
    using that dec Cons.prems(2) by (simp add: rules nth_list_update)
  have "\<forall>s < num_rules_of P. count_list rs s \<le> unat (rm_rules m1 ! s)
       \<and> unat (rm_rules m1 ! s) \<le> rule_num_predicates P s"
    using Cons.prems(4) un pos by fastforce
  note IH = Cons.IH [OF _ _ wf this]
  then have IH: "rm_predicate_existence (fold (unavailability_step P) rs m1) = rm_predicate_existence m1
    \<and> length (rm_rules (fold (unavailability_step P) rs m1)) = num_rules_of P
    \<and> wf_bitmap (rules_words P) (rm_rule_queue (fold (unavailability_step P) rs m1))
    \<and> (\<forall>s < num_rules_of P. unat (rm_rules (fold (unavailability_step P) rs m1) ! s)
          = unat (rm_rules m1 ! s) - count_list rs s)
    \<and> queued P (fold (unavailability_step P) rs m1) = queued P m1 -
        {s \<in> set rs. unat (rm_rules m1 ! s) = rule_num_predicates P s}"
    using Cons.prems(1,2) by (simp add: rules)
  have "queued P (fold (unavailability_step P) rs m1) = queued P m -
      {s \<in> set (r # rs). unat (rm_rules m ! s) = rule_num_predicates P s}"
  proof -
    have "\<forall>s \<in> set rs. s < num_rules_of P" using Cons.prems(1) by simp
    moreover have "unat (rm_rules m ! r) - 1 \<noteq> rule_num_predicates P r"
      using Cons.prems(4) r pos by fastforce
    ultimately show ?thesis using IH un r by (auto simp: q split: if_splits)
  qed
  with IH un pos show ?case by (auto simp: m1_def [symmetric] ex)
qed

lemma update_loop:
  assumes "\<forall>r \<in> set rs. r < num_rules_of P" "wf_bitmap (rules_words P) (rm_rule_queue m)"
  defines "m' \<equiv> fold (update_step P) rs m"
  shows "rm_predicate_existence m' = rm_predicate_existence m \<and> rm_rules m' = rm_rules m
    \<and> wf_bitmap (rules_words P) (rm_rule_queue m')
    \<and> queued P m' = queued P m \<union> {r \<in> set rs. unat (rm_rules m ! r) = rule_num_predicates P r}"
  using assms(1,2) unfolding m'_def
proof (induction rs arbitrary: m)
  case Nil
  then show ?case by simp
next
  case (Cons r rs)
  have r: "r < 64 * rules_words P" using Cons.prems(1) rule_in_words by simp
  have "wf_bitmap (rules_words P) (rm_rule_queue (update_step P r m))"
    using Cons.prems(2) bm.inv_put [OF _ r] by (simp add: update_step_def)
  moreover have "queued P (update_step P r m) = queued P m \<union>
      (if unat (rm_rules m ! r) = rule_num_predicates P r then {r} else {})"
    using bm.put_elems [OF Cons.prems(2) r] by (auto simp: update_step_def queued_def bitmap_set_def)
  moreover have "rm_rules (update_step P r m) = rm_rules m"
    "rm_predicate_existence (update_step P r m) = rm_predicate_existence m"
    by (simp_all add: update_step_def)
  ultimately show ?case using Cons.IH [of "update_step P r m"] Cons.prems(1) by auto
qed

subsection \<open>Refinement\<close>

text \<open>
  The abstract machine: a set of available predicates and a set of queued rules. Adding a fact
  of a predicate makes it available and queues every rule that uses it and whose body is
  complete; removing the last fact of a predicate dequeues every rule that uses it.
\<close>

locale fact_matcher =
  fixes inv :: "'m \<Rightarrow> bool"
    and avail :: "'m \<Rightarrow> nat set"
    and queue :: "'m \<Rightarrow> nat set"
    and body :: "nat \<Rightarrow> nat set"
    and np :: nat
    and nr :: nat
    and add :: "nat \<Rightarrow> 'm \<Rightarrow> 'm"
    and del :: "nat \<Rightarrow> 'm \<Rightarrow> 'm"
  assumes add_inv: "inv m \<Longrightarrow> p < np \<Longrightarrow> inv (add p m)"
    and add_avail: "inv m \<Longrightarrow> p < np \<Longrightarrow> avail (add p m) = insert p (avail m)"
    and add_queue: "inv m \<Longrightarrow> p < np \<Longrightarrow>
      queue (add p m) = queue m \<union> {r. r < nr \<and> p \<in> body r \<and> body r \<subseteq> insert p (avail m)}"
    and del_inv: "inv m \<Longrightarrow> p < np \<Longrightarrow> inv (del p m)"
    and del_avail: "inv m \<Longrightarrow> p < np \<Longrightarrow> avail (del p m) = avail m - {p}"
    and del_queue: "inv m \<Longrightarrow> p < np \<Longrightarrow> queue (del p m) = queue m - {r. p \<in> body r}"
begin

lemma fold_add:
  "inv m \<Longrightarrow> \<forall>p \<in> set ps. p < np \<Longrightarrow>
   inv (fold add ps m) \<and> avail (fold add ps m) = avail m \<union> set ps \<and>
   queue (fold add ps m) =
     queue m \<union> {r. r < nr \<and> body r \<inter> set ps \<noteq> {} \<and> body r \<subseteq> avail m \<union> set ps}"
proof (induction ps arbitrary: m)
  case Nil
  then show ?case by simp
next
  case (Cons p ps)
  then have "inv (add p m)" and p: "p < np" by (simp_all add: add_inv)
  with Cons have "inv (fold add ps (add p m)) \<and>
      avail (fold add ps (add p m)) = avail (add p m) \<union> set ps \<and>
      queue (fold add ps (add p m)) = queue (add p m) \<union>
        {r. r < nr \<and> body r \<inter> set ps \<noteq> {} \<and> body r \<subseteq> avail (add p m) \<union> set ps}"
    by simp
  then show ?case using Cons.prems(1) p by (auto simp: add_avail add_queue)
qed

lemma fold_del:
  "inv m \<Longrightarrow> \<forall>p \<in> set ps. p < np \<Longrightarrow>
   inv (fold del ps m) \<and> avail (fold del ps m) = avail m - set ps \<and>
   queue (fold del ps m) = queue m - {r. body r \<inter> set ps \<noteq> {}}"
proof (induction ps arbitrary: m)
  case Nil
  then show ?case by simp
next
  case (Cons p ps)
  then have "inv (del p m)" and p: "p < np" by (simp_all add: del_inv)
  with Cons have "inv (fold del ps (del p m)) \<and>
      avail (fold del ps (del p m)) = avail (del p m) - set ps \<and>
      queue (fold del ps (del p m)) = queue (del p m) - {r. body r \<inter> set ps \<noteq> {}}"
    by simp
  then show ?case using Cons.prems(1) p by (auto simp: del_avail del_queue)
qed

end

lemma wf_program_rulesD:
  assumes "wf_program_rules P"
  shows "r < num_rules_of P \<Longrightarrow> rule_num_predicates P r < 256"
    and "r < num_rules_of P \<Longrightarrow> p \<in> set (rule_body P r) \<Longrightarrow> p < num_predicates_of P"
    and "p < num_predicates_of P \<Longrightarrow> r \<in> set (pr_linear_rules P ! p) \<Longrightarrow> r < num_rules_of P"
    and "p < num_predicates_of P \<Longrightarrow> r < num_rules_of P \<Longrightarrow>
      count_list (pr_linear_rules P ! p) r = count_list (rule_body P r) p"
  using assms by (auto simp: wf_program_rules_def rule_num_predicates_def rule_body_def)

lemma linear_rules_iff:
  assumes "wf_program_rules P" "p < num_predicates_of P"
  shows "r \<in> set (pr_linear_rules P ! p) \<longleftrightarrow> r < num_rules_of P \<and> p \<in> set (rule_body P r)"
  using wf_program_rulesD(3,4) [OF assms(1), of p] assms(2) by (metis count_list_0_iff)

lemma matcher_full_iff:
  assumes "matcher_inv P m" "r < num_rules_of P"
  shows "unat (rm_rules m ! r) = rule_num_predicates P r \<longleftrightarrow> set (rule_body P r) \<subseteq> available P m"
proof -
  have "unat (rm_rules m ! r) = length (filter (\<lambda>p. p \<in> available P m) (rule_body P r))"
    using assms by (simp add: matcher_inv_def)
  then show ?thesis using length_filter_all [of "available P m" "rule_body P r"]
    by (simp add: rule_num_predicates_def rule_body_def)
qed

lemma register_predicate_update_refines:
  assumes wf: "wf_program_rules P" and inv: "matcher_inv P m" and p: "p < num_predicates_of P"
  defines "m' \<equiv> register_predicate_update P p m"
  shows "matcher_inv P m'" and "available P m' = available P m"
    and "queued P m' = queued P m \<union>
      {r. r < num_rules_of P \<and> p \<in> set (rule_body P r) \<and> set (rule_body P r) \<subseteq> available P m}"
proof -
  have "\<forall>r \<in> set (pr_linear_rules P ! p). r < num_rules_of P"
    using wf_program_rulesD(3) [OF wf p] by blast
  from update_loop [OF this, of m] inv
  have l: "rm_predicate_existence m' = rm_predicate_existence m" "rm_rules m' = rm_rules m"
      "wf_bitmap (rules_words P) (rm_rule_queue m')"
      "queued P m' = queued P m \<union>
         {r \<in> set (pr_linear_rules P ! p). unat (rm_rules m ! r) = rule_num_predicates P r}"
    by (simp_all add: m'_def register_predicate_update_def matcher_inv_def)
  show av: "available P m' = available P m" by (simp add: available_def l)
  show q: "queued P m' = queued P m \<union>
      {r. r < num_rules_of P \<and> p \<in> set (rule_body P r) \<and> set (rule_body P r) \<subseteq> available P m}"
    using matcher_full_iff [OF inv] by (auto simp: l(4) linear_rules_iff [OF wf p])
  show "matcher_inv P m'"
    unfolding matcher_inv_def av q using inv l(1-3) by (auto simp: matcher_inv_def)
qed

lemma register_predicate_availability_refines:
  assumes wf: "wf_program_rules P" and inv: "matcher_inv P m" and p: "p < num_predicates_of P"
    and new: "p \<notin> available P m"
  defines "m' \<equiv> register_predicate_availability P p m"
  shows "matcher_inv P m'" and "available P m' = insert p (available P m)"
    and "queued P m' = queued P m \<union>
      {r. r < num_rules_of P \<and> p \<in> set (rule_body P r) \<and> set (rule_body P r) \<subseteq> insert p (available P m)}"
proof -
  define m0 where "m0 = m\<lparr>rm_predicate_existence := bitmap_set_bit (rm_predicate_existence m) p\<rparr>"
  have wfe: "wf_bitmap (preds_words P) (rm_predicate_existence m0)"
    using inv bm.inv_put [OF _ pred_in_words [OF p]] by (simp add: m0_def matcher_inv_def)
  have av0: "available P m0 = insert p (available P m)"
    using inv bm.put_elems [OF _ pred_in_words [OF p]]
    by (simp add: m0_def available_def bitmap_set_def matcher_inv_def)
  have cnt: "unat (rm_rules m ! r) + count_list (pr_linear_rules P ! p) r
      = length (filter (\<lambda>q. q \<in> insert p (available P m)) (rule_body P r))" if "r < num_rules_of P" for r
    using inv that wf_program_rulesD(4) [OF wf p that] length_filter_insert [OF new, of "rule_body P r"]
    by (simp add: matcher_inv_def)
  have "\<forall>r < num_rules_of P. unat (rm_rules m0 ! r) + count_list (pr_linear_rules P ! p) r
      \<le> rule_num_predicates P r \<and> rule_num_predicates P r < 256"
    using cnt wf_program_rulesD(1) [OF wf] by (simp add: m0_def rule_num_predicates_def rule_body_def)
  moreover have "\<forall>r \<in> set (pr_linear_rules P ! p). r < num_rules_of P"
    using wf_program_rulesD(3) [OF wf p] by blast
  moreover have "length (rm_rules m0) = num_rules_of P" "wf_bitmap (rules_words P) (rm_rule_queue m0)"
    using inv by (simp_all add: m0_def matcher_inv_def)
  ultimately have l: "rm_predicate_existence m' = rm_predicate_existence m0"
      "length (rm_rules m') = num_rules_of P" "wf_bitmap (rules_words P) (rm_rule_queue m')"
      "\<forall>r < num_rules_of P. unat (rm_rules m' ! r)
         = unat (rm_rules m0 ! r) + count_list (pr_linear_rules P ! p) r"
      "queued P m' = queued P m0 \<union> {r \<in> set (pr_linear_rules P ! p).
         unat (rm_rules m0 ! r) + count_list (pr_linear_rules P ! p) r = rule_num_predicates P r}"
    using availability_loop [of "pr_linear_rules P ! p" P m0]
    by (simp_all add: m'_def m0_def register_predicate_availability_def)
  show av: "available P m' = insert p (available P m)" using av0 l(1) by (simp add: available_def)
  have rm0: "rm_rules m0 = rm_rules m" "queued P m0 = queued P m" by (simp_all add: m0_def queued_def)
  have full: "unat (rm_rules m ! r) + count_list (pr_linear_rules P ! p) r = rule_num_predicates P r
      \<longleftrightarrow> set (rule_body P r) \<subseteq> insert p (available P m)" if "r < num_rules_of P" for r
    using cnt [OF that] length_filter_all [of "insert p (available P m)" "rule_body P r"]
    by (simp add: rule_num_predicates_def rule_body_def)
  show q: "queued P m' = queued P m \<union> {r. r < num_rules_of P \<and>
      p \<in> set (rule_body P r) \<and> set (rule_body P r) \<subseteq> insert p (available P m)}"
    using full by (auto simp: l(5) rm0 linear_rules_iff [OF wf p])
  show "matcher_inv P m'"
    unfolding matcher_inv_def av q using inv wfe l(1-4) cnt p rm0 by (auto simp: matcher_inv_def)
qed

lemma register_predicate_unavailability_refines:
  assumes wf: "wf_program_rules P" and inv: "matcher_inv P m" and p: "p < num_predicates_of P"
    and old: "p \<in> available P m"
  defines "m' \<equiv> register_predicate_unavailability P p m"
  shows "matcher_inv P m'" and "available P m' = available P m - {p}"
    and "queued P m' = queued P m - {r. p \<in> set (rule_body P r)}"
proof -
  define m0 where "m0 = m\<lparr>rm_predicate_existence := bitmap_unset_bit (rm_predicate_existence m) p\<rparr>"
  have wfe: "wf_bitmap (preds_words P) (rm_predicate_existence m0)"
    using inv bm.inv_del [OF _ pred_in_words [OF p]] by (simp add: m0_def matcher_inv_def)
  have av0: "available P m0 = available P m - {p}"
    using inv bm.del_elems [OF _ pred_in_words [OF p]]
    by (simp add: m0_def available_def bitmap_set_def matcher_inv_def)
  have cnt: "length (filter (\<lambda>q. q \<in> available P m - {p}) (rule_body P r))
      + count_list (pr_linear_rules P ! p) r = unat (rm_rules m ! r)" if "r < num_rules_of P" for r
    using inv that wf_program_rulesD(4) [OF wf p that] length_filter_remove [OF old, of "rule_body P r"]
    by (simp add: matcher_inv_def)
  have "unat (rm_rules m ! r) \<le> rule_num_predicates P r" if "r < num_rules_of P" for r
    using inv that by (simp add: matcher_inv_def rule_num_predicates_def rule_body_def)
  then have "\<forall>r < num_rules_of P. count_list (pr_linear_rules P ! p) r \<le> unat (rm_rules m0 ! r) \<and>
      unat (rm_rules m0 ! r) \<le> rule_num_predicates P r"
    using cnt by (fastforce simp: m0_def)
  moreover have "\<forall>r \<in> set (pr_linear_rules P ! p). r < num_rules_of P"
    using wf_program_rulesD(3) [OF wf p] by blast
  moreover have "length (rm_rules m0) = num_rules_of P" "wf_bitmap (rules_words P) (rm_rule_queue m0)"
    using inv by (simp_all add: m0_def matcher_inv_def)
  ultimately have l: "rm_predicate_existence m' = rm_predicate_existence m0"
      "length (rm_rules m') = num_rules_of P" "wf_bitmap (rules_words P) (rm_rule_queue m')"
      "\<forall>r < num_rules_of P. unat (rm_rules m' ! r)
         = unat (rm_rules m0 ! r) - count_list (pr_linear_rules P ! p) r"
      "queued P m' = queued P m0 - {r \<in> set (pr_linear_rules P ! p).
         unat (rm_rules m0 ! r) = rule_num_predicates P r}"
    using unavailability_loop [of "pr_linear_rules P ! p" P m0]
    by (simp_all add: m'_def m0_def register_predicate_unavailability_def)
  have rm0: "rm_rules m0 = rm_rules m" "queued P m0 = queued P m" by (simp_all add: m0_def queued_def)
  show av: "available P m' = available P m - {p}" using av0 l(1) by (simp add: available_def)
  have ready: "r < num_rules_of P \<and> set (rule_body P r) \<subseteq> available P m" if "r \<in> queued P m" for r
    using inv that by (simp add: matcher_inv_def)
  then show q: "queued P m' = queued P m - {r. p \<in> set (rule_body P r)}"
    using matcher_full_iff [OF inv] by (auto simp: l(5) rm0 linear_rules_iff [OF wf p])
  have "unat (rm_rules m' ! r) = length (filter (\<lambda>q. q \<in> available P m - {p}) (rule_body P r))"
    if "r < num_rules_of P" for r
    using cnt [OF that] l(4) that by (simp add: rm0)
  then show "matcher_inv P m'"
    unfolding matcher_inv_def av q using inv wfe l(1-3) ready by (auto simp: matcher_inv_def)
qed

interpretation rm: fact_matcher "\<lambda>m. wf_program_rules P \<and> matcher_inv P m" "available P" "queued P"
    "\<lambda>r. set (rule_body P r)" "num_predicates_of P" "num_rules_of P" "new_linear_fact P" "empty_predicate P"
  for P
proof (unfold_locales, goal_cases)
  case (1 m p)
  then show ?case
    using register_predicate_update_refines(1) [of P m p] register_predicate_availability_refines(1) [of P m p]
    by (auto simp: new_linear_fact_def available_get)
next
  case (2 m p)
  then show ?case
    using register_predicate_update_refines(2) [of P m p] register_predicate_availability_refines(2) [of P m p]
    by (auto simp: new_linear_fact_def available_get)
next
  case (3 m p)
  then show ?case
    using register_predicate_update_refines(3) [of P m p] register_predicate_availability_refines(3) [of P m p]
    by (cases "p \<in> available P m") (simp_all add: new_linear_fact_def available_get insert_absorb)
next
  case (4 m p)
  then show ?case
    using register_predicate_unavailability_refines(1) [of P m p]
    by (auto simp: empty_predicate_def available_get)
next
  case (5 m p)
  then show ?case
    using register_predicate_unavailability_refines(2) [of P m p]
    by (auto simp: empty_predicate_def available_get)
next
  case (6 m p)
  then have "\<forall>r \<in> queued P m. set (rule_body P r) \<subseteq> available P m" by (simp add: matcher_inv_def)
  with 6 show ?case
    using register_predicate_unavailability_refines(3) [of P m p]
    by (auto simp: empty_predicate_def available_get)
qed

subsection \<open>Properties\<close>

definition empty_program_rules :: "nat \<Rightarrow> nat \<Rightarrow> bitmap \<Rightarrow> program_rules" where
  "empty_program_rules np nr tmap =
     \<lparr>pr_linear_rules = replicate np [], pr_rule_predicates = replicate nr [],
      pr_thread_predicates_map = tmap\<rparr>"

lemma load_rules_wf:
  assumes "0 < np" "bodies \<noteq> []" "\<forall>b \<in> set bodies. length b < 256 \<and> (\<forall>p \<in> set b. p < np)"
    "wf_bitmap (next_multiple_of_uint np) tmap"
  defines "P \<equiv> load_rules bodies (empty_program_rules np (length bodies) tmap)"
  shows "wf_program_rules P" "num_predicates_of P = np" "num_rules_of P = length bodies"
    "r < length bodies \<Longrightarrow> rule_body P r = bodies ! r"
proof -
  have t: "pr_rule_predicates P = bodies \<and> length (pr_linear_rules P) = np \<and>
      pr_thread_predicates_map P = tmap \<and>
      (\<forall>p < np. set (pr_linear_rules P ! p) \<subseteq> {..<length bodies} \<and>
       (\<forall>r < length bodies. count_list (pr_linear_rules P ! p) r = count_list (bodies ! r) p))"
    using load_rules_prefix [of "length bodies" bodies np tmap]
    by (simp add: P_def load_rules_def empty_program_rules_def)
  then show n: "num_predicates_of P = np" "num_rules_of P = length bodies"
    by (simp_all add: num_predicates_of_def num_rules_of_def)
  have b: "rule_body P r = bodies ! r" for r using t by (simp add: rule_body_def)
  then show "r < length bodies \<Longrightarrow> rule_body P r = bodies ! r" by simp
  show "wf_program_rules P"
    using assms(1-4) t unfolding wf_program_rules_def n b by (auto simp: subset_iff all_set_conv_all_nth)
qed

lemma create_rule_matcher_inv:
  assumes "wf_program_rules P" "preds_words P - 1 \<le> length g1" "rules_words P - 1 \<le> length g2"
  shows "matcher_inv P (create_rule_matcher P g1 g2 m)"
    "available P (create_rule_matcher P g1 g2 m) = {}" "queued P (create_rule_matcher P g1 g2 m) = {}"
proof -
  have "0 < preds_words P" "0 < rules_words P"
    using assms(1) next_multiple_of_uint_pos by (auto simp: wf_program_rules_def)
  then have c: "wf_bitmap (preds_words P) (bitmap_create b g1 (preds_words P))"
      "bitmap_set (preds_words P) (bitmap_create b g1 (preds_words P)) = {}"
      "wf_bitmap (rules_words P) (bitmap_create b g2 (rules_words P))"
      "bitmap_set (rules_words P) (bitmap_create b g2 (rules_words P)) = {}" for b
    using assms(2,3) by (auto intro!: bitmap_create_spec)
  then show e: "available P (create_rule_matcher P g1 g2 m) = {}" "queued P (create_rule_matcher P g1 g2 m) = {}"
    by (simp_all add: available_def queued_def create_rule_matcher_def)
  show "matcher_inv P (create_rule_matcher P g1 g2 m)"
    using c by (simp add: matcher_inv_def e) (simp add: create_rule_matcher_def)
qed

text \<open>A program with two predicates, the second a thread predicate, and one rule that uses both.\<close>

definition example_rules :: program_rules where
  "example_rules = load_rules [[0, 1]] (empty_program_rules 2 1 \<lparr>bm_first = 2, bm_rest = []\<rparr>)"

definition example_matcher :: rule_matcher where
  "example_matcher = create_rule_matcher example_rules [] []
     \<lparr>rm_rules = [], rm_predicate_existence = \<lparr>bm_first = 9, bm_rest = []\<rparr>,
      rm_rule_queue = \<lparr>bm_first = 9, bm_rest = []\<rparr>\<rparr>"

lemma example_rules_facts:
  "wf_program_rules example_rules" "num_predicates_of example_rules = 2"
  "num_rules_of example_rules = 1" "rule_body example_rules 0 = [0, 1]"
  "pr_thread_predicates_map example_rules = \<lparr>bm_first = 2, bm_rest = []\<rparr>"
  using load_rules_wf [of 2 "[[0, 1]]" "\<lparr>bm_first = 2, bm_rest = []\<rparr>"]
  by (simp_all add: example_rules_def next_multiple_of_uint_def wf_bitmap_def bitmap_words_def
      load_rules_def load_rule_predicates_def rule_add_predicate_def add_linear_affected_rule_def
      empty_program_rules_def)

lemma example_ready_rules:
  "{r. r < num_rules_of example_rules \<and> p \<in> set (rule_body example_rules r) \<and>
      set (rule_body example_rules r) \<subseteq> X} = (if p \<in> {0, 1} \<and> {0, 1} \<subseteq> X then {0} else {})"
proof -
  have one: "{r. r < num_rules_of example_rules \<and> Q r} = (if Q 0 then {0} else {})" for Q
    by (auto simp: example_rules_facts(3))
  show ?thesis unfolding one example_rules_facts(4) by simp
qed

lemma example_matcher_facts:
  "matcher_inv example_rules example_matcher" "available example_rules example_matcher = {}"
  "queued example_rules example_matcher = {}"
  unfolding example_matcher_def
  by (rule create_rule_matcher_inv; simp add: example_rules_facts next_multiple_of_uint_def)+

text \<open>
  C5. The matcher implements the abstract machine. On a matcher that satisfies the invariant,
  registering a fact (\<^verbatim>\<open>new_linear_fact\<close>, \<^verbatim>\<open>new_persistent_fact\<close>, \<^verbatim>\<open>new_persistent_count\<close> with a
  positive count) keeps the invariant, makes the predicate available and queues exactly the
  rules that use the predicate and whose whole body is now available. The last fact going away
  (\<^verbatim>\<open>empty_predicate\<close>, count 0) keeps the invariant, makes the predicate unavailable and
  dequeues exactly the rules that use it. In particular no byte counter wraps around.
\<close>

theorem rule_matcher_refines:
  assumes "wf_program_rules P" "matcher_inv P m" "p < num_predicates_of P" "0 < n"
  shows "matcher_inv P (new_linear_fact P p m)
    \<and> available P (new_linear_fact P p m) = insert p (available P m)
    \<and> queued P (new_linear_fact P p m) = queued P m \<union> {r. r < num_rules_of P \<and>
        p \<in> set (rule_body P r) \<and> set (rule_body P r) \<subseteq> insert p (available P m)}
    \<and> new_persistent_fact P p m = new_linear_fact P p m
    \<and> new_persistent_count P p n m = new_linear_fact P p m
    \<and> matcher_inv P (empty_predicate P p m)
    \<and> available P (empty_predicate P p m) = available P m - {p}
    \<and> queued P (empty_predicate P p m) = queued P m - {r. p \<in> set (rule_body P r)}
    \<and> new_persistent_count P p 0 m = empty_predicate P p m"
  using assms rm.add_inv [of P m p] rm.add_avail [of P m p] rm.add_queue [of P m p]
    rm.del_inv [of P m p] rm.del_avail [of P m p] rm.del_queue [of P m p]
  by (simp add: new_persistent_fact_def new_persistent_count_def empty_predicate_def)

theorem rule_matcher_refines_witness:
  "available example_rules (new_linear_fact example_rules 1 (new_linear_fact example_rules 0 example_matcher)) = {0, 1}
   \<and> queued example_rules (new_linear_fact example_rules 1 (new_linear_fact example_rules 0 example_matcher)) = {0}"
proof -
  note e = example_rules_facts example_matcher_facts
  have p: "0 < num_predicates_of example_rules" "1 < num_predicates_of example_rules" "(0::nat) < 1"
    by (simp_all add: e)
  note r1 = rule_matcher_refines [OF e(1,6) p(1,3), unfolded example_ready_rules e(7,8)]
  note r2 = rule_matcher_refines [OF e(1) conjunct1 [OF r1] p(2,3), unfolded example_ready_rules]
  from r1 have "available example_rules (new_linear_fact example_rules 0 example_matcher) = {0}"
      "queued example_rules (new_linear_fact example_rules 0 example_matcher) = {}" by simp_all
  with r2 show ?thesis by auto
qed

text \<open>
  \<^verbatim>\<open>add_thread\<close> terminates and adds the predicates marked in the thread's matcher to the
  node's matcher, queueing every rule that uses one of them and is complete with them;
  \<^verbatim>\<open>remove_thread\<close> terminates, takes the thread predicates out of the node's matcher with all
  the rules that use them, and leaves in the thread's matcher the thread predicates that were
  available.
\<close>

theorem matcher_thread_predicates:
  assumes "wf_program_rules P" "matcher_inv P m" "matcher_inv P tm"
    "bitmap_set (next_multiple_of_uint (num_predicates_of P)) (pr_thread_predicates_map P)
       \<subseteq> {..<num_predicates_of P}"
  shows "\<exists>m1 tm2 m2. add_thread P tm m = Some m1 \<and> matcher_inv P m1
    \<and> available P m1 = available P m \<union> available P tm
    \<and> queued P m1 = queued P m \<union> {r. r < num_rules_of P \<and>
        set (rule_body P r) \<inter> available P tm \<noteq> {} \<and>
        set (rule_body P r) \<subseteq> available P m \<union> available P tm}
    \<and> remove_thread P tm m = Some (tm2, m2) \<and> matcher_inv P m2
    \<and> available P tm2 = bitmap_set (next_multiple_of_uint (num_predicates_of P)) (pr_thread_predicates_map P) \<inter> available P m
    \<and> available P m2 = available P m
        - bitmap_set (next_multiple_of_uint (num_predicates_of P)) (pr_thread_predicates_map P)
    \<and> queued P m2 = queued P m - {r. set (rule_body P r) \<inter>
        bitmap_set (next_multiple_of_uint (num_predicates_of P)) (pr_thread_predicates_map P) \<noteq> {}}"
proof -
  define T where "T = bitmap_set (preds_words P) (pr_thread_predicates_map P)"
  have np: "0 < num_predicates_of P" "num_predicates_of P \<le> 64 * preds_words P"
    using assms(1) next_multiple_of_uint_bound by (auto simp: wf_program_rules_def)
  have wft: "wf_bitmap (preds_words P) (pr_thread_predicates_map P)"
    using assms(1) by (simp add: wf_program_rules_def)
  have wfe: "wf_bitmap (preds_words P) (rm_predicate_existence tm)"
      "wf_bitmap (preds_words P) (rm_predicate_existence m)"
    using assms(2,3) by (simp_all add: matcher_inv_def)
  have elems: "\<exists>ps. bitmap_elements b (num_predicates_of P) = Some ps \<and> set ps = bitmap_set (preds_words P) b"
    if "wf_bitmap (preds_words P) b" "bitmap_set (preds_words P) b \<subseteq> {..<num_predicates_of P}" for b
    using bitmap_elements_in_order [OF that(1) np] that(2) np(2) by (auto simp: bitmap_set_def)
  obtain ps where ps: "bitmap_elements (rm_predicate_existence tm) (num_predicates_of P) = Some ps"
      "set ps = available P tm"
    using elems [OF wfe(1)] assms(3) by (auto simp: available_def matcher_inv_def)
  obtain qs where qs: "bitmap_elements (pr_thread_predicates_map P) (num_predicates_of P) = Some qs"
      "set qs = T"
    using elems [OF wft assms(4)] by (auto simp: T_def)
  have ad: "add_thread P tm m = Some (fold (new_linear_fact P) ps m)"
    by (simp add: add_thread_def ps)
  have "\<forall>p \<in> set ps. p < num_predicates_of P" using ps(2) assms(3) by (auto simp: matcher_inv_def)
  note f1 = rm.fold_add [of P m ps, OF _ this]
  have "\<forall>p \<in> set qs. p < num_predicates_of P" using qs(2) assms(4) by (auto simp: T_def)
  note f2 = rm.fold_del [of P m qs, OF _ this]
  have ep: "(\<lambda>p m. if bitmap_get_bit (rm_predicate_existence m) p
      then register_predicate_unavailability P p m else m) = empty_predicate P"
    by (simp add: fun_eq_iff empty_predicate_def)
  define tm2 where "tm2 = tm\<lparr>rm_predicate_existence :=
    bitmap_set_bits_of_and_result (rm_predicate_existence tm) (pr_thread_predicates_map P)
      (rm_predicate_existence m) (preds_words P)\<rparr>"
  have rt: "remove_thread P tm m = Some (tm2, fold (empty_predicate P) qs m)"
    by (simp add: remove_thread_def qs ep tm2_def Let_def)
  have "available P tm2 = T \<inter> available P m"
    using bitmap_combine_and [OF wft wfe(2,1)] by (simp add: tm2_def available_def T_def)
  then show ?thesis
    using ad rt f1 f2 assms(1,2) ps(2) qs(2) unfolding T_def by auto
qed

theorem matcher_thread_predicates_witness:
  "\<exists>tm2 m2. remove_thread example_rules example_matcher
      (new_linear_fact example_rules 1 example_matcher) = Some (tm2, m2)
    \<and> available example_rules tm2 = {1} \<and> available example_rules m2 = {}"
proof -
  note e = example_rules_facts example_matcher_facts
  have i0: "wf_program_rules example_rules \<and> matcher_inv example_rules example_matcher" using e by simp
  have p: "1 < num_predicates_of example_rules" by (simp add: e)
  have av: "available example_rules (new_linear_fact example_rules 1 example_matcher) = {1}"
    using rm.add_avail [OF i0 p] by (simp add: e)
  have b2: "bit (2 :: 64 word) i \<longleftrightarrow> i = 1" for i
    using bit_exp_iff [of 1 i, where 'a = "64 word"] by auto
  have T: "bitmap_set (next_multiple_of_uint (num_predicates_of example_rules))
      (pr_thread_predicates_map example_rules) = {1}"
  proof -
    have "words_bit [2] i \<longleftrightarrow> i = 1" if "i < 64" for i
      using that b2 [of i] by (simp add: words_bit_def)
    then show ?thesis
      by (auto simp: e(2,5) next_multiple_of_uint_def bitmap_set_def bitmap_get_bit_words bitmap_words_def)
  qed
  show ?thesis
    using matcher_thread_predicates [OF e(1) conjunct2 [OF rm.add_inv [OF i0 p]] e(6)] p
    unfolding T av by auto
qed

subsection \<open>Runs\<close>

text \<open>\<^verbatim>\<open>execute_mark_rule\<close> (\<^verbatim>\<open>vm/exec.cpp\<close>): queue a rule again if its body is complete.\<close>

definition mark_rule :: "program_rules \<Rightarrow> nat \<Rightarrow> rule_matcher \<Rightarrow> rule_matcher" where
  "mark_rule P r m =
     (if unat (rm_rules m ! r) = rule_num_predicates P r
      then m\<lparr>rm_rule_queue := bitmap_set_bit (rm_rule_queue m) r\<rparr> else m)"

text \<open>The interpreter takes the next rule off the queue (\<^verbatim>\<open>state::run_node\<close>).\<close>

definition dequeue_rule :: "program_rules \<Rightarrow> rule_matcher \<Rightarrow> nat \<times> rule_matcher" where
  "dequeue_rule P m =
     (let (r, q) = bitmap_remove_front (rm_rule_queue m) (next_multiple_of_uint (num_rules_of P))
      in (r, m\<lparr>rm_rule_queue := q\<rparr>))"

inductive matcher_step :: "program_rules \<Rightarrow> rule_matcher \<Rightarrow> rule_matcher \<Rightarrow> bool" for P where
  fact: "p < num_predicates_of P \<Longrightarrow> matcher_step P m (new_linear_fact P p m)"
| gone: "p < num_predicates_of P \<Longrightarrow> matcher_step P m (empty_predicate P p m)"
| count: "p < num_predicates_of P \<Longrightarrow> matcher_step P m (new_persistent_count P p n m)"
| mark: "r < num_rules_of P \<Longrightarrow> matcher_step P m (mark_rule P r m)"
| next_rule: "\<not> bitmap_empty (rm_rule_queue m) (next_multiple_of_uint (num_rules_of P)) \<Longrightarrow>
    matcher_step P m (snd (dequeue_rule P m))"

inductive matcher_reachable :: "program_rules \<Rightarrow> rule_matcher \<Rightarrow> bool" for P where
  start: "next_multiple_of_uint (num_predicates_of P) - 1 \<le> length g1 \<Longrightarrow>
    next_multiple_of_uint (num_rules_of P) - 1 \<le> length g2 \<Longrightarrow>
    matcher_reachable P (create_rule_matcher P g1 g2 m)"
| step: "matcher_reachable P m \<Longrightarrow> matcher_step P m m' \<Longrightarrow> matcher_reachable P m'"

lemma mark_rule_inv:
  assumes "matcher_inv P m" "r < num_rules_of P"
  shows "matcher_inv P (mark_rule P r m)"
proof -
  have wf: "wf_bitmap (rules_words P) (rm_rule_queue m)" using assms by (simp add: matcher_inv_def)
  note b = bm.inv_put [OF wf rule_in_words [OF assms(2)]] bm.put_elems [OF wf rule_in_words [OF assms(2)]]
  have "available P (mark_rule P r m) = available P m" by (simp add: mark_rule_def available_def)
  moreover have "queued P (mark_rule P r m) \<subseteq> queued P m \<union>
      (if set (rule_body P r) \<subseteq> available P m then {r} else {})"
    using b matcher_full_iff [OF assms] by (auto simp: mark_rule_def queued_def bitmap_set_def)
  moreover have "rm_rules (mark_rule P r m) = rm_rules m"
      "rm_predicate_existence (mark_rule P r m) = rm_predicate_existence m"
      "wf_bitmap (rules_words P) (rm_rule_queue (mark_rule P r m))"
    using b(1) wf by (simp_all add: mark_rule_def)
  ultimately show ?thesis
    using assms unfolding matcher_inv_def by (simp split: if_splits) blast+
qed

lemma dequeue_rule_spec:
  assumes "matcher_inv P m" "queued P m \<noteq> {}"
  shows "fst (dequeue_rule P m) = Min (queued P m)"
    and "queued P (snd (dequeue_rule P m)) = queued P m - {Min (queued P m)}"
    and "matcher_inv P (snd (dequeue_rule P m))"
proof -
  have wf: "wf_bitmap (rules_words P) (rm_rule_queue m)" using assms by (simp add: matcher_inv_def)
  have ne: "bitmap_set (rules_words P) (rm_rule_queue m) \<noteq> {}" using assms(2) by (simp add: queued_def)
  note f = bitmap_front_facts [OF wf ne]
  show fq: "fst (dequeue_rule P m) = Min (queued P m)"
    "queued P (snd (dequeue_rule P m)) = queued P m - {Min (queued P m)}"
    using f by (simp_all add: dequeue_rule_def queued_def case_prod_beta)
  have "available P (snd (dequeue_rule P m)) = available P m"
      "rm_rules (snd (dequeue_rule P m)) = rm_rules m"
      "rm_predicate_existence (snd (dequeue_rule P m)) = rm_predicate_existence m"
      "wf_bitmap (rules_words P) (rm_rule_queue (snd (dequeue_rule P m)))"
    using f by (simp_all add: dequeue_rule_def available_def case_prod_beta)
  then show "matcher_inv P (snd (dequeue_rule P m))"
    using assms(1) fq(2) by (auto simp: matcher_inv_def)
qed

lemma matcher_step_inv:
  assumes "wf_program_rules P" "matcher_inv P m" "matcher_step P m m'"
  shows "matcher_inv P m'"
  using assms(3)
proof (cases rule: matcher_step.cases)
  case (fact p)
  then show ?thesis using rm.add_inv assms(1,2) by blast
next
  case (gone p)
  then show ?thesis using rm.del_inv assms(1,2) by blast
next
  case (count p n)
  then show ?thesis using rm.add_inv [of P m p] rm.del_inv [of P m p] assms(1,2)
    by (auto simp: new_persistent_count_def new_persistent_fact_def empty_predicate_def)
next
  case (mark r)
  then show ?thesis using mark_rule_inv assms(2) by simp
next
  case next_rule
  have "wf_bitmap (rules_words P) (rm_rule_queue m)" using assms(2) by (simp add: matcher_inv_def)
  with next_rule have "queued P m \<noteq> {}" by (simp add: bitmap_empty_iff queued_def)
  with next_rule show ?thesis using dequeue_rule_spec(3) [OF assms(2)] by simp
qed

lemma matcher_reachable_inv:
  assumes "wf_program_rules P" "matcher_reachable P m"
  shows "matcher_inv P m"
  using assms(2)
  by (induction rule: matcher_reachable.induct)
    (use assms(1) create_rule_matcher_inv matcher_step_inv in blast)+

text \<open>
  C13. Whatever facts come and go and rules are taken off the queue or marked again, the rule
  that the interpreter takes next is the queued rule with the smallest id, every predicate of
  its body has a fact, and the bytes that count available predicates never exceed the number
  of predicates of the rule.
\<close>

theorem next_rule_ready:
  assumes "wf_program_rules P" "matcher_reachable P m"
    "\<not> bitmap_empty (rm_rule_queue m) (next_multiple_of_uint (num_rules_of P))"
  shows "fst (dequeue_rule P m) = Min (queued P m)
    \<and> fst (dequeue_rule P m) < num_rules_of P
    \<and> set (rule_body P (fst (dequeue_rule P m))) \<subseteq> available P m
    \<and> (\<forall>r < num_rules_of P. unat (rm_rules m ! r) \<le> rule_num_predicates P r)"
proof -
  have inv: "matcher_inv P m" using assms(1,2) by (rule matcher_reachable_inv)
  have "wf_bitmap (rules_words P) (rm_rule_queue m)" using inv by (simp add: matcher_inv_def)
  with assms(3) have ne: "queued P m \<noteq> {}" by (simp add: bitmap_empty_iff queued_def)
  then have "Min (queued P m) \<in> queued P m" by (simp add: queued_def)
  with dequeue_rule_spec(1) [OF inv ne] inv show ?thesis
    by (auto simp: matcher_inv_def rule_num_predicates_def rule_body_def)
qed

theorem next_rule_ready_witness:
  "fst (dequeue_rule example_rules
     (new_linear_fact example_rules 1 (new_linear_fact example_rules 0 example_matcher))) = 0"
proof -
  note e = example_rules_facts example_matcher_facts
  define m where "m = new_linear_fact example_rules 1 (new_linear_fact example_rules 0 example_matcher)"
  have "matcher_reachable example_rules example_matcher"
    unfolding example_matcher_def by (rule start) (simp_all add: e next_multiple_of_uint_def)
  moreover have p: "0 < num_predicates_of example_rules" "1 < num_predicates_of example_rules"
    by (simp_all add: e)
  ultimately have r: "matcher_reachable example_rules m"
    unfolding m_def
    by (rule matcher_reachable.step [OF matcher_reachable.step [OF _ matcher_step.fact] matcher_step.fact])
  have i0: "wf_program_rules example_rules \<and> matcher_inv example_rules example_matcher" using e by simp
  have q: "queued example_rules m = {0}"
    using rm.add_queue [OF rm.add_inv [OF i0 p(1)] p(2)] rm.add_avail [OF i0 p(1)] rm.add_queue [OF i0 p(1)]
    unfolding m_def example_ready_rules by (simp add: e)
  have "matcher_inv example_rules m" using e(1) r by (rule matcher_reachable_inv)
  then have "\<not> bitmap_empty (rm_rule_queue m) (next_multiple_of_uint (num_rules_of example_rules))"
    using q by (simp add: bitmap_empty_iff matcher_inv_def queued_def)
  from next_rule_ready [OF e(1) r this] q show ?thesis by (simp add: m_def)
qed

end
