(* ===== verification/Linked_List.thy ===== *)
theory Linked_List
  imports Meld_Prelude
begin

text \<open>
  Doubly linked chains in a store, shared by the intrusive list of facts
  (\<^verbatim>\<open>utils/intrusive_list.hpp\<close>) and the intrusive queue of nodes
  (\<^verbatim>\<open>queue/intrusive_implementation.hpp\<close>). The two link fields are functions from an object's
  address to an address, 0 is \<^verbatim>\<open>nullptr\<close>.
\<close>

type_synonym links = "ptr_val \<Rightarrow> ptr_val"

text \<open>The first address of a chain that is followed by \<open>e\<close>, the last one of a chain preceded by \<open>a\<close>.\<close>

definition first_of :: "ptr_val list \<Rightarrow> ptr_val \<Rightarrow> ptr_val" where
  "first_of xs e = (case xs of [] \<Rightarrow> e | x # _ \<Rightarrow> x)"

definition last_of :: "ptr_val \<Rightarrow> ptr_val list \<Rightarrow> ptr_val" where
  "last_of a xs = (if xs = [] then a else last xs)"

text \<open>\<open>dll nx pv a xs e\<close>: the objects \<open>xs\<close> are linked in this order, \<open>a\<close> before them and \<open>e\<close> after them.\<close>

fun dll :: "links \<Rightarrow> links \<Rightarrow> ptr_val \<Rightarrow> ptr_val list \<Rightarrow> ptr_val \<Rightarrow> bool" where
  "dll nx pv a [] e = True"
| "dll nx pv a (x # xs) e = (x \<noteq> 0 \<and> pv x = a \<and> nx x = first_of xs e \<and> dll nx pv x xs e)"

lemma first_of_simps [simp]:
  "first_of [] e = e" "first_of (x # xs) e = x"
  by (simp_all add: first_of_def)

lemma last_of_simps [simp]:
  "last_of a [] = a" "last_of a (x # xs) = last_of x xs" "last_of a (xs @ [y]) = y"
  by (simp_all add: last_of_def)

lemma first_of_append [simp]: "first_of (xs @ ys) e = first_of xs (first_of ys e)"
  by (cases xs) simp_all

lemma last_of_append [simp]: "last_of a (xs @ ys) = last_of (last_of a xs) ys"
  by (auto simp: last_of_def)

lemma dll_append:
  "dll nx pv a (xs @ ys) e \<longleftrightarrow> dll nx pv a xs (first_of ys e) \<and> dll nx pv (last_of a xs) ys e"
  by (induction xs arbitrary: a) auto

lemma dll_cong:
  assumes "\<And>x. x \<in> set xs \<Longrightarrow> nx' x = nx x" "\<And>x. x \<in> set xs \<Longrightarrow> pv' x = pv x"
  shows "dll nx' pv' a xs e = dll nx pv a xs e"
  using assms by (induction xs arbitrary: a) auto

lemma dll_upd_outside [simp]:
  assumes "p \<notin> set xs"
  shows "dll (nx(p := v)) pv a xs e = dll nx pv a xs e"
    "dll nx (pv(p := v)) a xs e = dll nx pv a xs e"
  using assms by (auto intro!: dll_cong)

lemma dll_nonnull: "dll nx pv a xs e \<Longrightarrow> 0 \<notin> set xs"
  by (induction xs arbitrary: a) auto

text \<open>Chaining a new successor to the last object and a new predecessor to the first one.\<close>

lemma dll_upd_next_last:
  assumes "dll nx pv a xs e" "distinct xs" "xs \<noteq> []"
  shows "dll (nx(last xs := e')) pv a xs e'"
  using assms by (cases xs rule: rev_cases) (auto simp: dll_append)

lemma dll_upd_prev_first:
  assumes "dll nx pv a xs e" "distinct xs" "xs \<noteq> []"
  shows "dll nx (pv(hd xs := a')) a' xs e"
  using assms by (cases xs) auto

lemma first_of_hd: "xs \<noteq> [] \<Longrightarrow> first_of xs e = hd xs"
  by (cases xs) auto

lemma last_of_last: "xs \<noteq> [] \<Longrightarrow> last_of a xs = last xs"
  by (simp add: last_of_def)

lemma first_of_mem: "first_of xs e = e \<or> first_of xs e \<in> set xs"
  by (cases xs) auto

lemma last_of_mem: "last_of a xs = a \<or> last_of a xs \<in> set xs"
  by (cases xs rule: rev_cases) auto

lemma dll_first_zero [simp]: "dll nx pv a xs e \<Longrightarrow> first_of xs 0 = 0 \<longleftrightarrow> xs = []"
  by (cases xs) auto

lemma dll_last_zero [simp]: "dll nx pv a xs e \<Longrightarrow> last_of 0 xs = 0 \<longleftrightarrow> xs = []"
  using dll_nonnull [of nx pv a xs e] by (cases xs rule: rev_cases) auto

text \<open>Where an object of a chain sits, in terms of its links.\<close>

lemma dll_split:
  assumes "dll nx pv a xs e" "x \<in> set xs"
  obtains ys zs where "xs = ys @ x # zs" "nx x = first_of zs e" "pv x = last_of a ys"
    "x \<noteq> 0"
proof -
  from assms(2) obtain ys zs where "xs = ys @ x # zs" by (meson split_list)
  with assms(1) that show ?thesis by (auto simp: dll_append)
qed

text \<open>A walk along the next links lists the chain.\<close>

fun chain_walk :: "nat \<Rightarrow> links \<Rightarrow> ptr_val \<Rightarrow> ptr_val list" where
  "chain_walk 0 nx p = []"
| "chain_walk (Suc n) nx p = (if p = 0 then [] else p # chain_walk n nx (nx p))"

lemma chain_walk_dll:
  assumes "dll nx pv a xs 0" "length xs \<le> n"
  shows "chain_walk n nx (first_of xs 0) = xs"
  using assms
proof (induction xs arbitrary: a n)
  case Nil then show ?case by (cases n) simp_all
next
  case (Cons x xs) then show ?case by (cases n) auto
qed

text \<open>Taking an object out of the middle of a chain.\<close>

lemma dll_unlink:
  assumes "dll nx pv a (ys @ x # zs) e" "distinct (ys @ x # zs)"
    "nx' = (if ys = [] then nx else nx(last ys := first_of zs e))"
    "pv' = (if zs = [] then pv else pv(hd zs := last_of a ys))"
  shows "dll nx' pv' a (ys @ zs) e"
proof -
  from assms(1) have d: "dll nx pv a ys x" "dll nx pv x zs e" by (auto simp: dll_append)
  have 1: "dll nx' pv a ys (first_of zs e)"
    using dll_upd_next_last [OF d(1)] assms(2,3) by auto
  have 2: "dll nx pv' (last_of a ys) zs e"
    using dll_upd_prev_first [OF d(2)] assms(2,4) by auto
  have "dll nx' pv' a ys (first_of zs e)"
    using 1 assms(2,4) by (cases zs) auto
  moreover have "dll nx' pv' (last_of a ys) zs e"
    using 2 assms(2,3) by (cases ys rule: rev_cases) auto
  ultimately show ?thesis by (simp add: dll_append)
qed

subsection \<open>Queues of linked objects\<close>

text \<open>
  What the clients of the two linked structures rely on: pushing appends a fresh object, popping
  takes the first one, and 0 is the answer of an empty queue. \<open>drain\<close> pops \<open>n\<close> times, as the
  scheduler's loops do.
\<close>

fun drain :: "('s \<Rightarrow> ptr_val \<times> 's) \<Rightarrow> nat \<Rightarrow> 's \<Rightarrow> ptr_val list \<times> 's" where
  "drain pop 0 s = ([], s)"
| "drain pop (Suc n) s = (case pop s of (x, s') \<Rightarrow> case drain pop n s' of (xs, s'') \<Rightarrow> (x # xs, s''))"

locale linked_queue =
  fixes repr :: "'s \<Rightarrow> ptr_val list \<Rightarrow> bool"
    and push :: "ptr_val \<Rightarrow> 's \<Rightarrow> 's"
    and pop :: "'s \<Rightarrow> ptr_val \<times> 's"
  assumes push_repr: "repr s xs \<Longrightarrow> x \<noteq> 0 \<Longrightarrow> x \<notin> set xs \<Longrightarrow> repr (push x s) (xs @ [x])"
    and pop_repr: "repr s (x # xs) \<Longrightarrow> fst (pop s) = x \<and> repr (snd (pop s)) xs"
    and pop_none: "repr s [] \<Longrightarrow> pop s = (0, s)"
begin

lemma push_all:
  assumes "repr s xs" "distinct (xs @ ys)" "0 \<notin> set ys"
  shows "repr (fold push ys s) (xs @ ys)"
  using assms
proof (induction ys arbitrary: s xs)
  case (Cons y ys)
  with push_repr [of s xs y] have "repr (push y s) (xs @ [y])" by simp
  from Cons.IH [OF this] Cons.prems show ?case by simp
qed simp

lemma drain_all:
  assumes "repr s (xs @ ys)"
  shows "fst (drain pop (length xs) s) = xs \<and> repr (snd (drain pop (length xs) s)) ys"
  using assms
proof (induction xs arbitrary: s)
  case (Cons x xs)
  then have "repr s (x # (xs @ ys))" by simp
  from pop_repr [OF this] Cons.IH [of "snd (pop s)"] show ?case
    by (auto split: prod.splits)
qed simp

lemma fifo:
  assumes "repr s xs" "distinct (xs @ ys)" "0 \<notin> set ys"
  shows "fst (drain pop (length xs + length ys) (fold push ys s)) = xs @ ys"
  using drain_all [of "fold push ys s" "xs @ ys" "[]"] push_all [OF assms] by simp

end

end
