(* ===== verification/Intrusive_List.thy ===== *)
theory Intrusive_List
  imports Linked_List
begin

text \<open>
  The intrusive doubly linked list of \<^verbatim>\<open>utils/intrusive_list.hpp\<close>, which holds the linear facts of
  a node. The links live in the facts themselves, so an operation changes a store of link fields
  that all lists share, and the list object with its head, tail and size. An iterator is the
  address of its current object, 0 at the end.

  The theorems relate every operation to the operation on HOL lists it implements, and show that
  it leaves the objects of all other lists alone.
\<close>

record list_links =
  l_next :: ptr_val
  l_prev :: ptr_val

type_synonym list_store = "ptr_val \<Rightarrow> list_links"

definition set_next :: "list_store \<Rightarrow> ptr_val \<Rightarrow> ptr_val \<Rightarrow> list_store" where
  "set_next \<sigma> x val = \<sigma>(x := (\<sigma> x)\<lparr>l_next := val\<rparr>)"

definition set_prev :: "list_store \<Rightarrow> ptr_val \<Rightarrow> ptr_val \<Rightarrow> list_store" where
  "set_prev \<sigma> x val = \<sigma>(x := (\<sigma> x)\<lparr>l_prev := val\<rparr>)"

record intrusive_list =
  il_head :: ptr_val
  il_tail :: ptr_val
  il_size :: nat

definition list_empty :: "intrusive_list \<Rightarrow> bool" where
  "list_empty l \<longleftrightarrow> il_head l = 0"

definition list_begin :: "intrusive_list \<Rightarrow> ptr_val" where
  "list_begin l = il_head l"

definition iterator_next :: "list_store \<Rightarrow> ptr_val \<Rightarrow> ptr_val" where
  "iterator_next \<sigma> it = l_next (\<sigma> it)"

definition list_clear :: "intrusive_list \<Rightarrow> intrusive_list" where
  "list_clear l = l\<lparr>il_size := 0, il_head := 0, il_tail := 0\<rparr>"

definition list_erase ::
  "list_store \<Rightarrow> intrusive_list \<Rightarrow> ptr_val \<Rightarrow> ptr_val \<times> list_store \<times> intrusive_list" where
  "list_erase \<sigma> l obj =
     (let it2 = l_next (\<sigma> obj) in
      if obj = il_head l
      then (let hd' = l_next (\<sigma> (il_head l)) in
            if obj = il_tail l
            then (it2, \<sigma>, l\<lparr>il_head := hd', il_tail := 0, il_size := size_sub (il_size l) 1\<rparr>)
            else (it2, set_prev \<sigma> hd' 0, l\<lparr>il_head := hd', il_size := size_sub (il_size l) 1\<rparr>))
      else (let prev = l_prev (\<sigma> obj); next = l_next (\<sigma> obj); \<sigma>1 = set_next \<sigma> prev next in
            if next \<noteq> 0
            then (it2, set_prev \<sigma>1 next prev, l\<lparr>il_size := size_sub (il_size l) 1\<rparr>)
            else (it2, \<sigma>1, l\<lparr>il_tail := prev, il_size := size_sub (il_size l) 1\<rparr>)))"

definition list_push_front :: "list_store \<Rightarrow> intrusive_list \<Rightarrow> ptr_val \<Rightarrow> list_store \<times> intrusive_list" where
  "list_push_front \<sigma> l n =
     (let (\<sigma>1, l1) =
        (if il_head l = 0 then (set_next \<sigma> n 0, l\<lparr>il_head := n, il_tail := n\<rparr>)
         else (set_next (set_prev \<sigma> (il_head l) n) n (il_head l), l\<lparr>il_head := n\<rparr>))
      in (set_prev \<sigma>1 n 0, l1\<lparr>il_size := il_size l1 + 1\<rparr>))"

definition list_pop_front :: "list_store \<Rightarrow> intrusive_list \<Rightarrow> ptr_val \<times> list_store \<times> intrusive_list" where
  "list_pop_front \<sigma> l =
     (if il_head l = 0 then (0, \<sigma>, l)
      else let ret = il_head l; hd' = l_next (\<sigma> (il_head l)) in
        if hd' \<noteq> 0 then (ret, set_prev \<sigma> hd' 0, l\<lparr>il_head := hd', il_size := size_sub (il_size l) 1\<rparr>)
        else (ret, \<sigma>, l\<lparr>il_head := hd', il_tail := 0, il_size := size_sub (il_size l) 1\<rparr>))"

definition list_push_back :: "list_store \<Rightarrow> intrusive_list \<Rightarrow> ptr_val \<Rightarrow> list_store \<times> intrusive_list" where
  "list_push_back \<sigma> l n =
     (let (\<sigma>1, l1) =
        (if il_head l = 0 then (set_prev \<sigma> n 0, l\<lparr>il_head := n, il_tail := n\<rparr>)
         else (set_prev (set_next \<sigma> (il_tail l) n) n (il_tail l), l\<lparr>il_tail := n\<rparr>))
      in (set_next \<sigma>1 (il_tail l1) 0, l1\<lparr>il_size := il_size l1 + 1\<rparr>))"

text \<open>The splices move the objects of \<open>ls\<close> into \<open>l\<close> and return the emptied \<open>ls\<close> last.\<close>

definition list_splice_front ::
  "list_store \<Rightarrow> intrusive_list \<Rightarrow> intrusive_list \<Rightarrow> list_store \<times> intrusive_list \<times> intrusive_list" where
  "list_splice_front \<sigma> l ls =
     (let (\<sigma>1, l1) =
        (if il_tail l = 0 then (\<sigma>, l\<lparr>il_head := il_head ls, il_tail := il_tail ls\<rparr>)
         else let \<sigma>0 = set_prev \<sigma> (il_head l) (il_tail ls) in
           if il_tail ls \<noteq> 0 then (set_next \<sigma>0 (il_tail ls) (il_head l), l\<lparr>il_head := il_head ls\<rparr>)
           else (\<sigma>0, l))
      in (\<sigma>1, l1\<lparr>il_size := il_size l1 + il_size ls\<rparr>, list_clear ls))"

definition list_splice_back ::
  "list_store \<Rightarrow> intrusive_list \<Rightarrow> intrusive_list \<Rightarrow> list_store \<times> intrusive_list \<times> intrusive_list" where
  "list_splice_back \<sigma> l ls =
     (let (\<sigma>1, l1) =
        (if il_head l = 0 then (\<sigma>, l\<lparr>il_head := il_head ls, il_tail := il_tail ls\<rparr>)
         else let \<sigma>0 = set_next \<sigma> (il_tail l) (il_head ls) in
           if il_head ls \<noteq> 0 then (set_prev \<sigma>0 (il_head ls) (il_tail l), l\<lparr>il_tail := il_tail ls\<rparr>)
           else (\<sigma>0, l))
      in (\<sigma>1, l1\<lparr>il_size := il_size l1 + il_size ls\<rparr>, list_clear ls))"

definition empty_intrusive_list :: intrusive_list where
  "empty_intrusive_list = \<lparr>il_head = 0, il_tail = 0, il_size = 0\<rparr>"

subsection \<open>The representation invariant\<close>

definition nextf :: "list_store \<Rightarrow> links" where
  "nextf \<sigma> = (\<lambda>p. l_next (\<sigma> p))"

definition prevf :: "list_store \<Rightarrow> links" where
  "prevf \<sigma> = (\<lambda>p. l_prev (\<sigma> p))"

text \<open>
  The list object \<open>l\<close> represents the sequence \<open>xs\<close>: what \<^verbatim>\<open>assertl\<close> checks, and that the size
  is right and no object occurs twice.
\<close>

definition list_repr :: "list_store \<Rightarrow> intrusive_list \<Rightarrow> ptr_val list \<Rightarrow> bool" where
  "list_repr \<sigma> l xs \<longleftrightarrow> distinct xs \<and> dll (nextf \<sigma>) (prevf \<sigma>) 0 xs 0
     \<and> il_head l = first_of xs 0 \<and> il_tail l = last_of 0 xs \<and> il_size l = length xs"

lemma linkf_upd [store_simps, simp]:
  "nextf (set_next \<sigma> p v) = (nextf \<sigma>)(p := v)" "prevf (set_next \<sigma> p v) = prevf \<sigma>"
  "prevf (set_prev \<sigma> p v) = (prevf \<sigma>)(p := v)" "nextf (set_prev \<sigma> p v) = nextf \<sigma>"
  by (auto simp: nextf_def prevf_def set_next_def set_prev_def)

lemma l_next_nextf: "l_next (\<sigma> p) = nextf \<sigma> p" "l_prev (\<sigma> p) = prevf \<sigma> p"
  by (simp_all add: nextf_def prevf_def)

lemma store_frame [store_simps]:
  "q \<noteq> p \<Longrightarrow> set_next \<sigma> p v q = \<sigma> q" "q \<noteq> p \<Longrightarrow> set_prev \<sigma> p v q = \<sigma> q"
  by (simp_all add: set_next_def set_prev_def)

lemma list_repr_frame:
  assumes "list_repr \<sigma> l xs" "\<forall>p\<in>set xs. \<sigma>' p = \<sigma> p"
  shows "list_repr \<sigma>' l xs"
proof -
  have "dll (nextf \<sigma>') (prevf \<sigma>') 0 xs 0 = dll (nextf \<sigma>) (prevf \<sigma>) 0 xs 0"
    using assms(2) by (intro dll_cong) (simp_all add: nextf_def prevf_def)
  with assms(1) show ?thesis by (simp add: list_repr_def)
qed

lemma list_repr_ends:
  assumes "list_repr \<sigma> l xs"
  shows "il_head l = 0 \<longleftrightarrow> xs = []" "il_tail l = 0 \<longleftrightarrow> xs = []" "0 \<notin> set xs"
  using assms unfolding list_repr_def by (auto dest: dll_nonnull)

lemma list_repr_empty: "list_repr \<sigma> empty_intrusive_list []"
  by (simp add: list_repr_def empty_intrusive_list_def)

subsection \<open>The operations\<close>

lemma push_back_repr:
  assumes "list_repr \<sigma> l xs" "n \<noteq> 0" "n \<notin> set xs" "list_push_back \<sigma> l n = (\<sigma>', l')"
  shows "list_repr \<sigma>' l' (xs @ [n])" "\<forall>p. p \<notin> insert n (set xs) \<longrightarrow> \<sigma>' p = \<sigma> p"
proof -
  note e = list_repr_ends [OF assms(1)]
  have d: "dll (nextf \<sigma>) (prevf \<sigma>) 0 xs 0" "distinct xs" and
    hd: "il_head l = first_of xs 0" "il_tail l = last_of 0 xs" "il_size l = length xs"
    using assms(1) by (auto simp: list_repr_def)
  have "dll ((nextf \<sigma>)(last xs := n)) (prevf \<sigma>) 0 xs n" if "xs \<noteq> []"
    using dll_upd_next_last [OF d that] .
  then show "list_repr \<sigma>' l' (xs @ [n])"
    using assms(2-4) d hd e unfolding list_push_back_def list_repr_def
    by (auto simp: dll_append first_of_hd last_of_last Let_def split: if_splits)
  show "\<forall>p. p \<notin> insert n (set xs) \<longrightarrow> \<sigma>' p = \<sigma> p"
    using assms(2-4) hd e unfolding list_push_back_def
    by (cases xs rule: rev_cases) (auto simp: store_simps Let_def split: if_splits)
qed

lemma push_front_repr:
  assumes "list_repr \<sigma> l xs" "n \<noteq> 0" "n \<notin> set xs" "list_push_front \<sigma> l n = (\<sigma>', l')"
  shows "list_repr \<sigma>' l' (n # xs)" "\<forall>p. p \<notin> insert n (set xs) \<longrightarrow> \<sigma>' p = \<sigma> p"
proof -
  note e = list_repr_ends [OF assms(1)]
  have d: "dll (nextf \<sigma>) (prevf \<sigma>) 0 xs 0" "distinct xs" and
    hd: "il_head l = first_of xs 0" "il_tail l = last_of 0 xs" "il_size l = length xs"
    using assms(1) by (auto simp: list_repr_def)
  have "dll (nextf \<sigma>) ((prevf \<sigma>)(hd xs := n)) n xs 0" if "xs \<noteq> []"
    using dll_upd_prev_first [OF d that] .
  then show "list_repr \<sigma>' l' (n # xs)"
    using assms(2-4) d hd e unfolding list_push_front_def list_repr_def
    by (auto simp: first_of_hd last_of_last Let_def split: if_splits)
  show "\<forall>p. p \<notin> insert n (set xs) \<longrightarrow> \<sigma>' p = \<sigma> p"
    using assms(2-4) hd e unfolding list_push_front_def
    by (cases xs) (auto simp: store_simps Let_def split: if_splits)
qed

lemma pop_front_repr:
  assumes "list_repr \<sigma> l (x # xs)" "list_pop_front \<sigma> l = (r, \<sigma>', l')"
  shows "r = x" "list_repr \<sigma>' l' xs" "\<forall>p. p \<notin> set (x # xs) \<longrightarrow> \<sigma>' p = \<sigma> p"
proof -
  note e = list_repr_ends [OF assms(1)]
  have d: "dll (nextf \<sigma>) (prevf \<sigma>) 0 (x # xs) 0" "distinct (x # xs)" and
    hd: "il_head l = x" "il_tail l = last_of x xs" "il_size l = Suc (length xs)"
    using assms(1) by (auto simp: list_repr_def)
  have nx: "l_next (\<sigma> x) = first_of xs 0" using d(1) by (simp add: l_next_nextf)
  have "dll (nextf \<sigma>) ((prevf \<sigma>)(hd xs := 0)) 0 xs 0" if "xs \<noteq> []"
    using dll_upd_prev_first [of _ _ x xs 0] d that by simp
  then show "r = x" "list_repr \<sigma>' l' xs"
    using assms(2) d hd e nx unfolding list_pop_front_def list_repr_def
    by (auto simp: first_of_hd last_of_last Let_def split: if_splits)
  show "\<forall>p. p \<notin> set (x # xs) \<longrightarrow> \<sigma>' p = \<sigma> p"
    using assms(2) hd e nx unfolding list_pop_front_def
    by (cases xs) (auto simp: store_simps Let_def split: if_splits)
qed

lemma erase_repr:
  assumes "list_repr \<sigma> l (ys @ x # zs)" "list_erase \<sigma> l x = (it2, \<sigma>', l')"
  shows "it2 = first_of zs 0" "list_repr \<sigma>' l' (ys @ zs)"
    "\<forall>p. p \<notin> set (ys @ zs) \<longrightarrow> \<sigma>' p = \<sigma> p"
proof -
  note e = list_repr_ends [OF assms(1)]
  have d: "dll (nextf \<sigma>) (prevf \<sigma>) 0 (ys @ x # zs) 0" "distinct (ys @ x # zs)" and
    hd: "il_head l = first_of ys x" "il_tail l = last_of x zs" "il_size l = Suc (length ys + length zs)"
    using assms(1) by (auto simp: list_repr_def)
  have nx: "l_next (\<sigma> x) = first_of zs 0" "l_prev (\<sigma> x) = last_of 0 ys"
    using d(1) by (simp_all add: l_next_nextf dll_append)
  have h1: "x = first_of ys x \<longleftrightarrow> ys = []" using d(2) by (cases ys) auto
  have h2: "x = last_of x zs \<longleftrightarrow> zs = []" using d(2) by (cases zs rule: rev_cases) auto
  have h3: "first_of zs 0 = 0 \<longleftrightarrow> zs = []" using e(3) by (cases zs) auto
  note h = h1 h2 h3
  note u = dll_unlink [OF d refl refl]
  show "it2 = first_of zs 0"
    using assms(2) unfolding list_erase_def by (auto simp: Let_def nx split: if_splits)
  show "list_repr \<sigma>' l' (ys @ zs)"
    using assms(2) hd u d(2) unfolding list_erase_def list_repr_def
    by (auto simp: Let_def nx h first_of_hd last_of_last split: if_splits)
  show "\<forall>p. p \<notin> set (ys @ zs) \<longrightarrow> \<sigma>' p = \<sigma> p"
    using assms(2) hd h unfolding list_erase_def
    by (cases ys rule: rev_cases; cases zs) (auto simp: Let_def nx store_simps split: if_splits)
qed

lemma splice_back_repr:
  assumes "list_repr \<sigma> l xs" "list_repr \<sigma> ls ys" "set xs \<inter> set ys = {}"
    "list_splice_back \<sigma> l ls = (\<sigma>', l', ls')"
  shows "list_repr \<sigma>' l' (xs @ ys)" "list_repr \<sigma>' ls' []"
    "\<forall>p. p \<notin> set (xs @ ys) \<longrightarrow> \<sigma>' p = \<sigma> p"
proof -
  note e = list_repr_ends [OF assms(1)] list_repr_ends [OF assms(2)]
  have d: "dll (nextf \<sigma>) (prevf \<sigma>) 0 xs 0" "distinct xs" "dll (nextf \<sigma>) (prevf \<sigma>) 0 ys 0" "distinct ys" and
    hd: "il_head l = first_of xs 0" "il_tail l = last_of 0 xs" "il_size l = length xs"
      "il_head ls = first_of ys 0" "il_tail ls = last_of 0 ys" "il_size ls = length ys"
    using assms(1,2) by (auto simp: list_repr_def)
  show "list_repr \<sigma>' l' (xs @ ys)"
  proof (cases "xs = [] \<or> ys = []")
    case True
    have "dll ((nextf \<sigma>)(last xs := 0)) (prevf \<sigma>) 0 xs 0" if "xs \<noteq> []"
      using dll_upd_next_last [OF d(1,2) that] .
    with True show ?thesis
      using assms(4) d hd e unfolding list_splice_back_def list_repr_def
      by (auto simp: Let_def last_of_last split: if_splits)
  next
    case False
    then obtain x xs0 y ys0 where c: "xs = xs0 @ [x]" "ys = y # ys0"
      by (meson neq_Nil_conv rev_exhaust)
    have "dll ((nextf \<sigma>)(x := y)) (prevf \<sigma>) 0 xs y" "dll (nextf \<sigma>) ((prevf \<sigma>)(y := x)) x ys 0"
      using dll_upd_next_last [OF d(1,2)] dll_upd_prev_first [OF d(3,4)] by (simp_all add: c)
    with assms(3,4) d hd e c show ?thesis unfolding list_splice_back_def list_repr_def
      by (auto simp: Let_def dll_append split: if_splits)
  qed
  show "list_repr \<sigma>' ls' []"
    using assms(4) unfolding list_splice_back_def
    by (auto simp: list_repr_def list_clear_def Let_def split: prod.splits)
  show "\<forall>p. p \<notin> set (xs @ ys) \<longrightarrow> \<sigma>' p = \<sigma> p"
    using assms(4) hd e unfolding list_splice_back_def
    by (cases xs rule: rev_cases; cases ys) (auto simp: Let_def store_simps split: if_splits)
qed

lemma splice_front_repr:
  assumes "list_repr \<sigma> l xs" "list_repr \<sigma> ls ys" "set xs \<inter> set ys = {}"
    "list_splice_front \<sigma> l ls = (\<sigma>', l', ls')"
  shows "list_repr \<sigma>' l' (ys @ xs)" "list_repr \<sigma>' ls' []"
    "\<forall>p. p \<notin> set (ys @ xs) \<longrightarrow> \<sigma>' p = \<sigma> p"
proof -
  note e = list_repr_ends [OF assms(1)] list_repr_ends [OF assms(2)]
  have d: "dll (nextf \<sigma>) (prevf \<sigma>) 0 xs 0" "distinct xs" "dll (nextf \<sigma>) (prevf \<sigma>) 0 ys 0" "distinct ys" and
    hd: "il_head l = first_of xs 0" "il_tail l = last_of 0 xs" "il_size l = length xs"
      "il_head ls = first_of ys 0" "il_tail ls = last_of 0 ys" "il_size ls = length ys"
    using assms(1,2) by (auto simp: list_repr_def)
  show "list_repr \<sigma>' l' (ys @ xs)"
  proof (cases "xs = [] \<or> ys = []")
    case True
    have "dll (nextf \<sigma>) ((prevf \<sigma>)(hd xs := 0)) 0 xs 0" if "xs \<noteq> []"
      using dll_upd_prev_first [OF d(1,2) that] .
    with True show ?thesis
      using assms(4) d hd e unfolding list_splice_front_def list_repr_def
      by (auto simp: Let_def first_of_hd split: if_splits)
  next
    case False
    then obtain x xs0 y ys0 where c: "xs = x # xs0" "ys = ys0 @ [y]"
      by (meson neq_Nil_conv rev_exhaust)
    have "dll ((nextf \<sigma>)(y := x)) (prevf \<sigma>) 0 ys x" "dll (nextf \<sigma>) ((prevf \<sigma>)(x := y)) y xs 0"
      using dll_upd_next_last [OF d(3,4)] dll_upd_prev_first [OF d(1,2)] by (simp_all add: c)
    with assms(3,4) d hd e c show ?thesis unfolding list_splice_front_def list_repr_def
      by (auto simp: Let_def dll_append split: if_splits)
  qed
  show "list_repr \<sigma>' ls' []"
    using assms(4) unfolding list_splice_front_def
    by (auto simp: list_repr_def list_clear_def Let_def split: prod.splits)
  show "\<forall>p. p \<notin> set (ys @ xs) \<longrightarrow> \<sigma>' p = \<sigma> p"
    using assms(4) hd e unfolding list_splice_front_def
    by (cases xs; cases ys rule: rev_cases) (auto simp: Let_def store_simps split: if_splits)
qed

lemma pop_front_none:
  "list_repr \<sigma> l [] \<Longrightarrow> list_pop_front \<sigma> l = (0, \<sigma>, l)"
  by (simp add: list_pop_front_def list_repr_def)

interpretation il: linked_queue "\<lambda>(\<sigma>, l). list_repr \<sigma> l" "\<lambda>n (\<sigma>, l). list_push_back \<sigma> l n"
  "\<lambda>(\<sigma>, l). list_pop_front \<sigma> l"
proof
  fix s xs and x :: ptr_val
  obtain \<sigma> l where s: "s = (\<sigma> :: list_store, l :: intrusive_list)" by fastforce
  show "(case case s of (\<sigma>, l) \<Rightarrow> list_push_back \<sigma> l x of (\<sigma>, l) \<Rightarrow> list_repr \<sigma> l) (xs @ [x])"
    if "(case s of (\<sigma>, l) \<Rightarrow> list_repr \<sigma> l) xs" "x \<noteq> 0" "x \<notin> set xs"
    using that push_back_repr(1) [of \<sigma> l xs x] by (simp add: s split: prod.splits)
  show "fst (case s of (\<sigma>, l) \<Rightarrow> list_pop_front \<sigma> l) = x
      \<and> (case snd (case s of (\<sigma>, l) \<Rightarrow> list_pop_front \<sigma> l) of (\<sigma>, l) \<Rightarrow> list_repr \<sigma> l) xs"
    if "(case s of (\<sigma>, l) \<Rightarrow> list_repr \<sigma> l) (x # xs)"
    using that pop_front_repr(1,2) [of \<sigma> l x xs] by (cases "list_pop_front \<sigma> l") (auto simp: s)
  show "(case s of (\<sigma>, l) \<Rightarrow> list_pop_front \<sigma> l) = (0, s)"
    if "(case s of (\<sigma>, l) \<Rightarrow> list_repr \<sigma> l) []"
    using that pop_front_none by (simp add: s)
qed

subsection \<open>Properties\<close>

definition example_links :: list_store where
  "example_links = (\<lambda>_. \<lparr>l_next = 7, l_prev = 9\<rparr>)"

lemma splice_keeps:
  assumes "list_repr \<sigma> l xs" "list_repr \<sigma> ls ys" "set xs \<inter> set ys = {}"
    "list_repr \<sigma> k zs" "set zs \<inter> (set xs \<union> set ys) = {}"
  shows "(case list_splice_back \<sigma> l ls of (\<sigma>', l', ls') \<Rightarrow>
        list_repr \<sigma>' l' (xs @ ys) \<and> list_repr \<sigma>' ls' [] \<and> list_repr \<sigma>' k zs)
    \<and> (case list_splice_front \<sigma> l ls of (\<sigma>', l', ls') \<Rightarrow>
        list_repr \<sigma>' l' (ys @ xs) \<and> list_repr \<sigma>' ls' [] \<and> list_repr \<sigma>' k zs)"
proof -
  have k: "list_repr \<sigma>' k zs" if "\<forall>p. p \<notin> set xs \<union> set ys \<longrightarrow> \<sigma>' p = \<sigma> p" for \<sigma>'
    using assms(5) that by (intro list_repr_frame [OF assms(4)]) auto
  from splice_back_repr [OF assms(1-3)] splice_front_repr [OF assms(1-3)] show ?thesis
    by (auto intro!: k split: prod.splits)
qed

text \<open>
  C23. The intrusive list implements finite sequences. On a list object that represents \<open>xs\<close>, empty or not,
  \<^verbatim>\<open>push_back\<close> and \<^verbatim>\<open>push_front\<close> of a fresh object represent \<open>xs\<close> with the object at the end or
  in front, whatever its link fields held before; \<^verbatim>\<open>pop_front\<close> returns the first object and represents the rest, or
  returns \<^verbatim>\<open>nullptr\<close> and changes nothing when the list is empty; \<^verbatim>\<open>erase\<close> of any object of the list
  removes that object only and returns an iterator at its successor. Each operation changes only
  link fields of the objects involved. Splicing moves a whole list in constant time: with disjoint
  lists, each of which may be empty, \<^verbatim>\<open>splice_back\<close> makes the first represent \<open>xs @ vs\<close> and \<^verbatim>\<open>splice_front\<close> \<open>vs @ xs\<close>, the
  other list becomes empty, and any third list that shares no object with the two still
  represents what it did.
\<close>

theorem intrusive_list_sequence:
  assumes "list_repr \<sigma> l xs"
  shows "(\<forall>n. n \<noteq> 0 \<and> n \<notin> set xs \<longrightarrow>
        (case list_push_back \<sigma> l n of (\<sigma>', l') \<Rightarrow>
          list_repr \<sigma>' l' (xs @ [n]) \<and> (\<forall>p. p \<notin> insert n (set xs) \<longrightarrow> \<sigma>' p = \<sigma> p))
        \<and> (case list_push_front \<sigma> l n of (\<sigma>', l') \<Rightarrow>
          list_repr \<sigma>' l' (n # xs) \<and> (\<forall>p. p \<notin> insert n (set xs) \<longrightarrow> \<sigma>' p = \<sigma> p)))
    \<and> (case xs of
        [] \<Rightarrow> list_pop_front \<sigma> l = (0, \<sigma>, l)
      | y # ys \<Rightarrow> (case list_pop_front \<sigma> l of (r, \<sigma>', l') \<Rightarrow>
          r = y \<and> list_repr \<sigma>' l' ys \<and> (\<forall>p. p \<notin> set xs \<longrightarrow> \<sigma>' p = \<sigma> p)))
    \<and> (\<forall>ys x zs. xs = ys @ x # zs \<longrightarrow>
        (case list_erase \<sigma> l x of (it2, \<sigma>', l') \<Rightarrow>
          it2 = first_of zs 0 \<and> list_repr \<sigma>' l' (ys @ zs)
          \<and> (\<forall>p. p \<notin> set (ys @ zs) \<longrightarrow> \<sigma>' p = \<sigma> p)))
    \<and> (\<forall>ls vs k ws. list_repr \<sigma> ls vs \<and> set xs \<inter> set vs = {} \<and> list_repr \<sigma> k ws \<and> set ws \<inter> (set xs \<union> set vs) = {} \<longrightarrow>
        (case list_splice_back \<sigma> l ls of (\<sigma>', l', ls') \<Rightarrow>
          list_repr \<sigma>' l' (xs @ vs) \<and> list_repr \<sigma>' ls' [] \<and> list_repr \<sigma>' k ws)
        \<and> (case list_splice_front \<sigma> l ls of (\<sigma>', l', ls') \<Rightarrow>
          list_repr \<sigma>' l' (vs @ xs) \<and> list_repr \<sigma>' ls' [] \<and> list_repr \<sigma>' k ws))"
proof (intro conjI)
  show "\<forall>n. n \<noteq> 0 \<and> n \<notin> set xs \<longrightarrow>
      (case list_push_back \<sigma> l n of (\<sigma>', l') \<Rightarrow> list_repr \<sigma>' l' (xs @ [n]) \<and> (\<forall>p. p \<notin> insert n (set xs) \<longrightarrow> \<sigma>' p = \<sigma> p))
      \<and> (case list_push_front \<sigma> l n of (\<sigma>', l') \<Rightarrow> list_repr \<sigma>' l' (n # xs) \<and> (\<forall>p. p \<notin> insert n (set xs) \<longrightarrow> \<sigma>' p = \<sigma> p))"
    using push_back_repr [OF assms _ _ surjective_pairing] push_front_repr [OF assms _ _ surjective_pairing] by (simp add: case_prod_beta)
  show "case xs of [] \<Rightarrow> list_pop_front \<sigma> l = (0, \<sigma>, l)
      | y # ys \<Rightarrow> (case list_pop_front \<sigma> l of (r, \<sigma>', l') \<Rightarrow> r = y \<and> list_repr \<sigma>' l' ys \<and> (\<forall>p. p \<notin> set xs \<longrightarrow> \<sigma>' p = \<sigma> p))"
    using pop_front_none pop_front_repr assms by (cases xs) (auto split: prod.splits)
  show "\<forall>ys x zs. xs = ys @ x # zs \<longrightarrow> (case list_erase \<sigma> l x of (it2, \<sigma>', l') \<Rightarrow>
      it2 = first_of zs 0 \<and> list_repr \<sigma>' l' (ys @ zs) \<and> (\<forall>p. p \<notin> set (ys @ zs) \<longrightarrow> \<sigma>' p = \<sigma> p))"
    using erase_repr assms by (auto split: prod.splits)
qed (intro allI impI, elim conjE, rule splice_keeps [OF assms])

theorem intrusive_list_sequence_witness:
  "(case list_push_front example_links empty_intrusive_list 16 of (\<sigma>, l) \<Rightarrow>
     list_repr \<sigma> l [16] \<and> (case list_splice_back \<sigma> empty_intrusive_list l of (\<sigma>', l', ls') \<Rightarrow> list_repr \<sigma>' l' [16] \<and> list_repr \<sigma>' ls' [])
     \<and> (case list_erase \<sigma> l 16 of (it2, \<sigma>', l') \<Rightarrow> it2 = 0 \<and> list_repr \<sigma>' l' []))
   \<and> list_pop_front example_links empty_intrusive_list = (0, example_links, empty_intrusive_list)"
proof -
  note e = intrusive_list_sequence [OF list_repr_empty]
  obtain \<sigma> l where s: "list_push_front example_links empty_intrusive_list 16 = (\<sigma>, l)" by fastforce
  have r: "list_repr \<sigma> l [16]" using e [of example_links, THEN conjunct1, rule_format, of 16] by (simp add: s)
  have b: "case list_splice_back \<sigma> empty_intrusive_list l of (\<sigma>', l', ls') \<Rightarrow> list_repr \<sigma>' l' [16] \<and> list_repr \<sigma>' ls' []"
    using e [of \<sigma>, THEN conjunct2, THEN conjunct2, THEN conjunct2, rule_format, of l "[16]" empty_intrusive_list "[]"] r
      list_repr_empty [of \<sigma>] by (auto split: prod.splits)
  have "case list_erase \<sigma> l 16 of (it2, \<sigma>', l') \<Rightarrow> it2 = 0 \<and> list_repr \<sigma>' l' []"
    using intrusive_list_sequence [OF r, THEN conjunct2, THEN conjunct2, THEN conjunct1, rule_format, of "[]" 16 "[]"] by (auto split: prod.splits)
  with b r e [of example_links] show ?thesis by (simp add: s)
qed

end
