(* ===== verification/Heap_Order.thy ===== *)
theory Heap_Order
  imports Meld_Prelude
begin

text \<open>
  Binary heaps in an array, independent of what the array holds: the sift-up and sift-down loops
  of \<^verbatim>\<open>queue/heap_implementation.hpp\<close> on a list and a comparison that is total and transitive on
  the elements the heap may hold. The intrusive heap of \<^verbatim>\<open>queue/safe_complex_pqueue.hpp\<close> and the
  value heap of \<^verbatim>\<open>queue/safe_simple_pqueue.hpp\<close> both refine them.
\<close>

definition swap_at :: "nat \<Rightarrow> nat \<Rightarrow> 'a list \<Rightarrow> 'a list" where
  "swap_at i j xs = xs[i := xs ! j, j := xs ! i]"

lemma swap_at_length [simp]: "length (swap_at i j xs) = length xs"
  by (simp add: swap_at_def)

lemma swap_at_nth:
  "i < length xs \<Longrightarrow> j < length xs \<Longrightarrow> k < length xs \<Longrightarrow>
   swap_at i j xs ! k = (if k = j then xs ! i else if k = i then xs ! j else xs ! k)"
  by (auto simp: swap_at_def nth_list_update)

lemma swap_at_mset [simp]:
  "i < length xs \<Longrightarrow> j < length xs \<Longrightarrow> mset (swap_at i j xs) = mset xs"
  by (simp add: swap_at_def mset_swap)

lemma swap_at_set [simp]:
  "i < length xs \<Longrightarrow> j < length xs \<Longrightarrow> set (swap_at i j xs) = set xs"
  using swap_at_mset by (metis set_mset_mset)

function sift_up :: "('a \<Rightarrow> 'a \<Rightarrow> bool) \<Rightarrow> 'a list \<Rightarrow> nat \<Rightarrow> 'a list" where
  "sift_up le xs i =
     (if i > 0 \<and> \<not> le (xs ! ((i - 1) div 2)) (xs ! i)
      then sift_up le (swap_at ((i - 1) div 2) i xs) ((i - 1) div 2) else xs)"
  by pat_completeness auto
termination by (relation "measure (\<lambda>(le, xs, i). i)") auto

function sift_down :: "('a \<Rightarrow> 'a \<Rightarrow> bool) \<Rightarrow> 'a list \<Rightarrow> nat \<Rightarrow> 'a list" where
  "sift_down le xs i =
     (let l = 2 * i + 1; r = 2 * i + 2 in
      if l \<ge> length xs then xs
      else if le (xs ! i) (xs ! l) \<and> (r < length xs \<longrightarrow> le (xs ! i) (xs ! r)) then xs
      else let smaller = (if r < length xs \<and> le (xs ! r) (xs ! l) then r else l)
           in sift_down le (swap_at i smaller xs) smaller)"
  by pat_completeness auto
termination by (relation "measure (\<lambda>(le, xs, i). length xs - i)") (auto split: if_splits)

declare sift_up.simps [simp del] sift_down.simps [simp del]

lemma sift_up_mset: "i < length xs \<Longrightarrow> mset (sift_up le xs i) = mset xs"
proof (induction le xs i rule: sift_up.induct)
  case (1 le xs i)
  show ?case
    by (subst sift_up.simps) (use 1 in auto)
qed

lemma sift_down_mset: "i < length xs \<Longrightarrow> mset (sift_down le xs i) = mset xs"
proof (induction le xs i rule: sift_down.induct)
  case (1 le xs i)
  show ?case
    by (subst sift_down.simps) (use 1 in \<open>auto simp: Let_def\<close>)
qed

lemma sift_up_length [simp]: "i < length xs \<Longrightarrow> length (sift_up le xs i) = length xs"
  using sift_up_mset [of i xs le] by (metis size_mset)

lemma sift_down_length [simp]: "i < length xs \<Longrightarrow> length (sift_down le xs i) = length xs"
  using sift_down_mset [of i xs le] by (metis size_mset)

lemma sift_up_set: "i < length xs \<Longrightarrow> set (sift_up le xs i) = set xs"
  using sift_up_mset by (metis set_mset_mset)

lemma sift_down_set: "i < length xs \<Longrightarrow> set (sift_down le xs i) = set xs"
  using sift_down_mset by (metis set_mset_mset)

text \<open>The heap order, and the two ways one position may break it while a loop runs.\<close>

definition heap_ordered :: "('a \<Rightarrow> 'a \<Rightarrow> bool) \<Rightarrow> 'a list \<Rightarrow> bool" where
  "heap_ordered le xs \<longleftrightarrow> (\<forall>j < length xs. j > 0 \<longrightarrow> le (xs ! ((j - 1) div 2)) (xs ! j))"

definition heap_but_up :: "('a \<Rightarrow> 'a \<Rightarrow> bool) \<Rightarrow> 'a list \<Rightarrow> nat \<Rightarrow> bool" where
  "heap_but_up le xs i \<longleftrightarrow>
     (\<forall>j < length xs. j > 0 \<longrightarrow> j \<noteq> i \<longrightarrow> le (xs ! ((j - 1) div 2)) (xs ! j))
   \<and> (\<forall>j < length xs. j > 0 \<longrightarrow> (j - 1) div 2 = i \<longrightarrow> i > 0 \<longrightarrow> le (xs ! ((i - 1) div 2)) (xs ! j))"

definition heap_but_down :: "('a \<Rightarrow> 'a \<Rightarrow> bool) \<Rightarrow> 'a list \<Rightarrow> nat \<Rightarrow> bool" where
  "heap_but_down le xs i \<longleftrightarrow>
     (\<forall>j < length xs. j > 0 \<longrightarrow> (j - 1) div 2 \<noteq> i \<longrightarrow> le (xs ! ((j - 1) div 2)) (xs ! j))
   \<and> (\<forall>j < length xs. j > 0 \<longrightarrow> (j - 1) div 2 = i \<longrightarrow> i > 0 \<longrightarrow> le (xs ! ((i - 1) div 2)) (xs ! j))"

lemma heap_child: "(j - 1) div 2 = i \<and> j > 0 \<longleftrightarrow> j = 2 * i + 1 \<or> j = 2 * i + (2::nat)"
  by linarith

locale heap_order =
  fixes le :: "'a \<Rightarrow> 'a \<Rightarrow> bool" and carrier :: "'a set"
  assumes total: "a \<in> carrier \<Longrightarrow> b \<in> carrier \<Longrightarrow> le a b \<or> le b a"
    and trans: "le a b \<Longrightarrow> le b c \<Longrightarrow> le a c"
begin

lemma sift_up_heap:
  assumes "i < length xs" "set xs \<subseteq> carrier" "heap_but_up le xs i"
  shows "heap_ordered le (sift_up le xs i)"
  using assms
proof (induction i arbitrary: xs rule: less_induct)
  case (less i)
  show ?case
  proof (cases "i > 0 \<and> \<not> le (xs ! ((i - 1) div 2)) (xs ! i)")
    case False
    with less.prems show ?thesis
      by (subst sift_up.simps) (auto simp: heap_ordered_def heap_but_up_def)
  next
    case True
    define p where "p = (i - 1) div 2"
    have p: "p < i" using True by (auto simp: p_def)
    let ?ys = "swap_at p i xs"
    have le: "le (xs ! i) (xs ! p)"
      using total [of "xs ! p" "xs ! i"] less.prems(1,2) p True by (auto simp: p_def subset_iff)
    have nth: "?ys ! k = (if k = i then xs ! p else if k = p then xs ! i else xs ! k)"
      if "k < length xs" for k
      using that p less.prems(1) by (simp add: swap_at_nth)
    have "heap_but_up le ?ys p"
      unfolding heap_but_up_def
    proof (intro conjI allI impI)
      fix j assume j: "j < length ?ys" "j > 0" "j \<noteq> p"
      let ?q = "(j - 1) div 2"
      have q: "?q < length xs" "j < length xs" using j by auto
      have old: "j \<noteq> i \<Longrightarrow> le (xs ! ?q) (xs ! j)"
        using less.prems(3) j by (auto simp: heap_but_up_def)
      have step: "?q = i \<Longrightarrow> le (xs ! p) (xs ! j)"
        using less.prems(3) j True by (auto simp: heap_but_up_def p_def)
      have ji: "?q = p \<Longrightarrow> j \<noteq> i \<Longrightarrow> le (xs ! i) (xs ! j)" using old le trans by metis
      show "le (?ys ! ?q) (?ys ! j)"
        using nth [OF q(1)] nth [OF q(2)] old step ji le j p
        by (auto simp: p_def)
    next
      fix j assume j: "j < length ?ys" "j > 0" "(j - 1) div 2 = p" "p > 0"
      let ?q = "(p - 1) div 2"
      have q: "?q < length xs" "j < length xs" "?q \<noteq> p" "?q \<noteq> i" "j \<noteq> p" using j p less.prems(1) by auto
      have pp: "le (xs ! ?q) (xs ! p)"
        using less.prems(1,3) j p by (auto simp: heap_but_up_def)
      have "j \<noteq> i \<Longrightarrow> le (xs ! p) (xs ! j)"
        using less.prems(3) j by (auto simp: heap_but_up_def)
      then show "le (?ys ! ?q) (?ys ! j)"
        using nth [OF q(1)] nth [OF q(2)] q pp trans by auto
    qed
    then have "heap_ordered le (sift_up le ?ys p)"
      using less.IH [OF p, of ?ys] less.prems(1,2) p by simp
    with True show ?thesis by (subst sift_up.simps) (simp add: p_def)
  qed
qed

lemma sift_down_heap:
  assumes "i < length xs" "set xs \<subseteq> carrier" "heap_but_down le xs i"
  shows "heap_ordered le (sift_down le xs i)"
  using assms
proof (induction "length xs - i" arbitrary: xs i rule: less_induct)
  case less
  let ?l = "2 * i + 1" and ?r = "2 * i + 2"
  have child: "j = ?l \<or> j = ?r" if "(j - 1) div 2 = i" "j > 0" for j using that by linarith
  show ?case
  proof (cases "?l \<ge> length xs \<or> le (xs ! i) (xs ! ?l) \<and> (?r < length xs \<longrightarrow> le (xs ! i) (xs ! ?r))")
    case True
    then have "heap_ordered le xs"
      using less.prems(3) child unfolding heap_ordered_def heap_but_down_def by fastforce
    with True show ?thesis by (subst sift_down.simps) (auto simp: Let_def)
  next
    case False
    define s where "s = (if ?r < length xs \<and> le (xs ! ?r) (xs ! ?l) then ?r else ?l)"
    have s: "i < s" "s < length xs" "(s - 1) div 2 = i" "s = ?l \<or> s = ?r" using False by (auto simp: s_def)
    let ?ys = "swap_at i s xs"
    have mem: "k < length xs \<Longrightarrow> xs ! k \<in> carrier" for k using less.prems(2) by auto
    have sm: "le (xs ! s) (xs ! j)" if "j = ?l \<or> j = ?r" "j < length xs" for j
      using that total [of "xs ! ?l" "xs ! ?r"] total [of "xs ! j" "xs ! j"] mem by (auto simp: s_def)
    have le: "le (xs ! s) (xs ! i)"
    proof -
      from False have "\<exists>j. (j = ?l \<or> j = ?r) \<and> j < length xs \<and> \<not> le (xs ! i) (xs ! j)"
        by (metis not_le)
      then obtain j where "j = ?l \<or> j = ?r" "j < length xs" "\<not> le (xs ! i) (xs ! j)" by blast
      with sm [of j] total [of "xs ! i" "xs ! j"] mem less.prems(1) trans show ?thesis by blast
    qed
    have nth: "?ys ! k = (if k = s then xs ! i else if k = i then xs ! s else xs ! k)"
      if "k < length xs" for k using that s less.prems(1) by (simp add: swap_at_nth)
    have "heap_but_down le ?ys s"
      unfolding heap_but_down_def
    proof (intro conjI allI impI)
      fix j assume j: "j < length ?ys" "j > 0" "(j - 1) div 2 \<noteq> s"
      let ?q = "(j - 1) div 2"
      have q: "?q < length xs" "j < length xs" using j by auto
      have old: "?q \<noteq> i \<Longrightarrow> le (xs ! ?q) (xs ! j)"
        using less.prems(3) j by (auto simp: heap_but_down_def)
      have up: "j = i \<Longrightarrow> le (xs ! ?q) (xs ! s)"
        using less.prems(3) j s by (auto simp: heap_but_down_def)
      show "le (?ys ! ?q) (?ys ! j)"
        using nth [OF q(1)] nth [OF q(2)] old up sm [of j] child [of j] le j s by auto
    next
      fix j assume j: "j < length ?ys" "j > 0" "(j - 1) div 2 = s" "s > 0"
      have q: "j < length xs" "j \<noteq> s" "j \<noteq> i" using j s by auto
      have "le (xs ! s) (xs ! j)" using less.prems(3) j s by (auto simp: heap_but_down_def)
      then show "le (?ys ! ((s - 1) div 2)) (?ys ! j)"
        using nth [of i] nth [OF q(1)] q s less.prems(1) by auto
    qed
    then have "heap_ordered le (sift_down le ?ys s)"
      using less.hyps [of ?ys s] less.prems(1,2) s by simp
    with False show ?thesis by (subst sift_down.simps) (auto simp: s_def Let_def)
  qed
qed

lemma heap_first_least:
  assumes "heap_ordered le xs" "set xs \<subseteq> carrier" "x \<in> set xs"
  shows "le (xs ! 0) x"
proof -
  have "le (xs ! 0) (xs ! j)" if "j < length xs" for j
    using that
  proof (induction j rule: less_induct)
    case (less j)
    show ?case
    proof (cases "j = 0")
      case True
      with less.prems assms(2) total [of "xs ! 0" "xs ! 0"] show ?thesis by (auto simp: subset_iff)
    next
      case False
      then have "(j - 1) div 2 < j" by linarith
      with less False have "le (xs ! 0) (xs ! ((j - 1) div 2))" by simp
      moreover have "le (xs ! ((j - 1) div 2)) (xs ! j)"
        using assms(1) less.prems False by (auto simp: heap_ordered_def)
      ultimately show ?thesis by (rule trans)
    qed
  qed
  with assms(3) show ?thesis by (auto simp: in_set_conv_nth)
qed

text \<open>What breaks the order when an element is appended, or the last one replaces another.\<close>

lemma heap_append_last:
  "heap_ordered le xs \<Longrightarrow> heap_but_up le (xs @ [x]) (length xs)"
  unfolding heap_ordered_def heap_but_up_def by (auto simp: nth_append)

lemma heap_replace:
  assumes "heap_ordered le (xs @ [x])" "i < length xs"
  shows "i > 0 \<Longrightarrow> le x (xs ! ((i - 1) div 2)) \<Longrightarrow> heap_but_up le (xs[i := x]) i"
    "i = 0 \<or> le (xs ! ((i - 1) div 2)) x \<Longrightarrow> heap_but_down le (xs[i := x]) i"
proof -
  have o: "le (xs ! ((j - 1) div 2)) (xs ! j)" if "j < length xs" "j > 0" for j
  proof -
    have "(j - 1) div 2 < length xs" using that by linarith
    with assms(1) that show ?thesis
      unfolding heap_ordered_def by (auto simp: nth_append dest: spec [of _ j])
  qed
  have gp: "le (xs ! ((i - 1) div 2)) (xs ! j)" if "j < length xs" "j > 0" "(j - 1) div 2 = i" "i > 0" for j
    using o [of j] o [of i] that assms(2) trans by metis
  show "heap_but_up le (xs[i := x]) i" if "i > 0" "le x (xs ! ((i - 1) div 2))"
    unfolding heap_but_up_def
  proof (intro conjI allI impI)
    fix j assume j: "j < length (xs[i := x])" "j > 0" "j \<noteq> i"
    then have "le x (xs ! j)" if "(j - 1) div 2 = i"
      using gp [of j] that \<open>i > 0\<close> \<open>le x _\<close> trans by auto
    with o [of j] j show "le (xs[i := x] ! ((j - 1) div 2)) (xs[i := x] ! j)"
      by (cases "(j - 1) div 2 = i") auto
  qed (use gp that in \<open>auto simp: nth_list_update\<close>)
  show "heap_but_down le (xs[i := x]) i" if "i = 0 \<or> le (xs ! ((i - 1) div 2)) x"
    unfolding heap_but_down_def
  proof (intro conjI allI impI)
    fix j assume j: "j < length (xs[i := x])" "j > 0" "(j - 1) div 2 \<noteq> i"
    with o [of j] that show "le (xs[i := x] ! ((j - 1) div 2)) (xs[i := x] ! j)"
      by (cases "j = i") auto
  qed (use gp in \<open>auto simp: nth_list_update\<close>)
qed

end

text \<open>An element whose key changes breaks the order in one direction only.\<close>

lemma heap_rekey:
  assumes "heap_ordered le xs" "i < length xs" "distinct xs"
    "\<And>a b. a \<noteq> xs ! i \<Longrightarrow> b \<noteq> xs ! i \<Longrightarrow> le a b \<Longrightarrow> le' a b"
    "\<And>a b c. le a b \<Longrightarrow> le b c \<Longrightarrow> le a c"
  shows "(\<And>b. b \<in> set xs \<Longrightarrow> b \<noteq> xs ! i \<Longrightarrow> le (xs ! i) b \<Longrightarrow> le' (xs ! i) b) \<Longrightarrow> heap_but_up le' xs i"
    "(\<And>b. b \<in> set xs \<Longrightarrow> b \<noteq> xs ! i \<Longrightarrow> le b (xs ! i) \<Longrightarrow> le' b (xs ! i)) \<Longrightarrow> heap_but_down le' xs i"
proof -
  have o: "le (xs ! ((j - 1) div 2)) (xs ! j)" "(j - 1) div 2 < length xs" "(j - 1) div 2 \<noteq> j"
    if "j < length xs" "j > 0" for j using assms(1) that by (auto simp: heap_ordered_def)
  have ne: "xs ! j \<noteq> xs ! i" if "j < length xs" "j \<noteq> i" for j
    using that assms(2,3) by (simp add: nth_eq_iff_index_eq)
  have gp: "le' (xs ! ((i - 1) div 2)) (xs ! j)" if "j < length xs" "j > 0" "(j - 1) div 2 = i" "i > 0" for j
  proof -
    have "le (xs ! ((i - 1) div 2)) (xs ! j)" using assms(5) o(1) [of j] o(1) [of i] that assms(2) by metis
    then show ?thesis using assms(4) ne [of j] ne [of "(i - 1) div 2"] o [of i] o [of j] that assms(2) by auto
  qed
  show "heap_but_up le' xs i" if "\<And>b. b \<in> set xs \<Longrightarrow> b \<noteq> xs ! i \<Longrightarrow> le (xs ! i) b \<Longrightarrow> le' (xs ! i) b"
    unfolding heap_but_up_def
  proof (intro conjI allI impI)
    fix j assume j: "j < length xs" "j > 0" "j \<noteq> i"
    show "le' (xs ! ((j - 1) div 2)) (xs ! j)"
    proof (cases "(j - 1) div 2 = i")
      case True
      then show ?thesis using that [of "xs ! j"] o(1) [of j] ne [of j] j by simp
    next
      case False
      then show ?thesis using assms(4) o [of j] ne [of j] ne [of "(j - 1) div 2"] j by simp
    qed
  qed (use gp in auto)
  show "heap_but_down le' xs i" if "\<And>b. b \<in> set xs \<Longrightarrow> b \<noteq> xs ! i \<Longrightarrow> le b (xs ! i) \<Longrightarrow> le' b (xs ! i)"
    unfolding heap_but_down_def
  proof (intro conjI allI impI)
    fix j assume j: "j < length xs" "j > 0" "(j - 1) div 2 \<noteq> i"
    show "le' (xs ! ((j - 1) div 2)) (xs ! j)"
    proof (cases "j = i")
      case True
      then show ?thesis using that [of "xs ! ((j - 1) div 2)"] o [of j] ne [of "(j - 1) div 2"] j by simp
    next
      case False
      then show ?thesis using assms(4) o [of j] ne [of j] ne [of "(j - 1) div 2"] j by simp
    qed
  qed (use gp in auto)
qed

end
