(* ===== verification/Double_Queue.thy ===== *)
theory Double_Queue
  imports Linked_List
begin

text \<open>
  The intrusive double queue of \<^verbatim>\<open>queue/intrusive_implementation.hpp\<close> and its safe variant
  \<^verbatim>\<open>queue/safe_double_queue.hpp\<close>, the work queue of a thread: an operation is what runs while the
  queue's mutex is held. Nodes carry the queue's link fields, and, as in \<^verbatim>\<open>queue/intrusive.hpp\<close>,
  \<^verbatim>\<open>next\<close> and the heap position are one 64-bit field, \<^verbatim>\<open>prev\<close> and the heap priority another.
\<close>

record intrusive_node =
  i_next :: "64 word"
  i_prev :: "64 word"
  i_queue :: "32 word"
  i_extra_id :: byte

type_synonym node_store = "ptr_val \<Rightarrow> intrusive_node"

abbreviation queue_no_queue :: "32 word" where
  "queue_no_queue \<equiv> - 1"

definition n_set_next :: "node_store \<Rightarrow> ptr_val \<Rightarrow> 64 word \<Rightarrow> node_store" where
  "n_set_next \<sigma> p v = \<sigma>(p := (\<sigma> p)\<lparr>i_next := v\<rparr>)"

definition n_set_prev :: "node_store \<Rightarrow> ptr_val \<Rightarrow> 64 word \<Rightarrow> node_store" where
  "n_set_prev \<sigma> p v = \<sigma>(p := (\<sigma> p)\<lparr>i_prev := v\<rparr>)"

definition n_set_queue :: "node_store \<Rightarrow> ptr_val \<Rightarrow> 32 word \<Rightarrow> node_store" where
  "n_set_queue \<sigma> p v = \<sigma>(p := (\<sigma> p)\<lparr>i_queue := v\<rparr>)"

definition n_set_extra :: "node_store \<Rightarrow> ptr_val \<Rightarrow> byte \<Rightarrow> node_store" where
  "n_set_extra \<sigma> p v = \<sigma>(p := (\<sigma> p)\<lparr>i_extra_id := v\<rparr>)"

record double_queue =
  dq_queue_number :: "32 word"
  dq_head :: ptr_val
  dq_tail :: ptr_val
  dq_total :: nat

definition new_double_queue :: "32 word \<Rightarrow> double_queue" where
  "new_double_queue q = \<lparr>dq_queue_number = q, dq_head = 0, dq_tail = 0, dq_total = 0\<rparr>"

definition dq_empty :: "double_queue \<Rightarrow> bool" where
  "dq_empty q \<longleftrightarrow> dq_head q = 0"

definition dq_in_queue :: "node_store \<Rightarrow> double_queue \<Rightarrow> ptr_val \<Rightarrow> bool" where
  "dq_in_queue \<sigma> q node \<longleftrightarrow> i_queue (\<sigma> node) = dq_queue_number q"

definition push_head_node :: "ptr_val \<Rightarrow> node_store \<Rightarrow> double_queue \<Rightarrow> node_store \<times> double_queue" where
  "push_head_node n \<sigma> q =
     (let q1 = q\<lparr>dq_total := dq_total q + 1\<rparr>;
          \<sigma>1 = n_set_next (n_set_queue \<sigma> n (dq_queue_number q)) n (dq_head q);
          q2 = (if dq_tail q1 = 0 then q1\<lparr>dq_tail := n\<rparr> else q1);
          \<sigma>2 = (if dq_head q \<noteq> 0 then n_set_prev \<sigma>1 (dq_head q) n else \<sigma>1)
      in (\<sigma>2, q2\<lparr>dq_head := n\<rparr>))"

definition push_tail_node :: "ptr_val \<Rightarrow> node_store \<Rightarrow> double_queue \<Rightarrow> node_store \<times> double_queue" where
  "push_tail_node n \<sigma> q =
     (let q1 = q\<lparr>dq_total := dq_total q + 1\<rparr>;
          q2 = (if dq_head q1 = 0 then q1\<lparr>dq_head := n\<rparr> else q1);
          \<sigma>1 = n_set_prev \<sigma> n (dq_tail q2);
          \<sigma>2 = (if dq_tail q2 \<noteq> 0 then n_set_next \<sigma>1 (dq_tail q2) n else \<sigma>1);
          \<sigma>3 = n_set_next (n_set_queue \<sigma>2 n (dq_queue_number q)) n 0
      in (\<sigma>3, q2\<lparr>dq_tail := n\<rparr>))"

text \<open>The pops return the node, or 0 for \<^verbatim>\<open>false\<close>.\<close>

definition dq_do_pop_head ::
  "32 word \<Rightarrow> node_store \<Rightarrow> double_queue \<Rightarrow> ptr_val \<times> node_store \<times> double_queue" where
  "dq_do_pop_head new_state \<sigma> q =
     (if dq_empty q then (0, \<sigma>, q)
      else let data = dq_head q; hd' = i_next (\<sigma> (dq_head q));
               (\<sigma>1, q1) = (if hd' \<noteq> 0 then (n_set_prev \<sigma> hd' 0, q\<lparr>dq_head := hd'\<rparr>)
                           else (\<sigma>, q\<lparr>dq_head := hd', dq_tail := 0\<rparr>))
           in (data, n_set_queue \<sigma>1 data new_state, q1\<lparr>dq_total := size_sub (dq_total q1) 1\<rparr>))"

definition dq_pop_tail ::
  "32 word \<Rightarrow> node_store \<Rightarrow> double_queue \<Rightarrow> ptr_val \<times> node_store \<times> double_queue" where
  "dq_pop_tail new_state \<sigma> q =
     (if dq_empty q then (0, \<sigma>, q)
      else let data = dq_tail q; tl' = i_prev (\<sigma> (dq_tail q));
               (\<sigma>1, q1) = (if tl' \<noteq> 0 then (n_set_next \<sigma> tl' 0, q\<lparr>dq_tail := tl'\<rparr>)
                           else (\<sigma>, q\<lparr>dq_tail := tl', dq_head := 0\<rparr>))
           in (data, n_set_queue \<sigma>1 data new_state, q1\<lparr>dq_total := size_sub (dq_total q1) 1\<rparr>))"

text \<open>
  \<^verbatim>\<open>pop_if_not_empty\<close> reads the successor of the head's successor before it looks whether there is
  one; the outer option is None where that dereferences \<^verbatim>\<open>nullptr\<close>.
\<close>

definition dq_pop_if_not_empty ::
  "32 word \<Rightarrow> node_store \<Rightarrow> double_queue \<Rightarrow> (ptr_val \<times> node_store \<times> double_queue) option" where
  "dq_pop_if_not_empty new_state \<sigma> q =
     (if dq_empty q then Some (0, \<sigma>, q)
      else if i_next (\<sigma> (dq_head q)) = 0 then None
      else if i_next (\<sigma> (i_next (\<sigma> (dq_head q)))) = 0 then Some (0, \<sigma>, q)
      else let data = dq_head q; hd' = i_next (\<sigma> (dq_head q));
               \<sigma>1 = n_set_prev \<sigma> hd' 0;
               \<sigma>2 = n_set_next (n_set_prev \<sigma>1 data 0) data 0
           in Some (data, n_set_queue \<sigma>2 data new_state, q\<lparr>dq_head := hd', dq_total := size_sub (dq_total q) 1\<rparr>))"

fun pop_half_loop :: "nat \<Rightarrow> 32 word \<Rightarrow> node_store \<Rightarrow> ptr_val \<Rightarrow> ptr_val list \<times> node_store \<times> ptr_val" where
  "pop_half_loop 0 new_state \<sigma> h = ([], \<sigma>, h)"
| "pop_half_loop (Suc i) new_state \<sigma> h =
     (let \<sigma>1 = n_set_queue \<sigma> h new_state;
          (buf, \<sigma>2, h2) = pop_half_loop i new_state \<sigma>1 (i_next (\<sigma>1 h))
      in (h # buf, \<sigma>2, h2))"

text \<open>\<^verbatim>\<open>pop_tail_half\<close>: what a thief takes, the first half of the queue, at most \<open>mx\<close> nodes.\<close>

definition dq_pop_tail_half ::
  "nat \<Rightarrow> 32 word \<Rightarrow> node_store \<Rightarrow> double_queue \<Rightarrow> ptr_val list \<times> node_store \<times> double_queue" where
  "dq_pop_tail_half mx new_state \<sigma> q =
     (let half = min mx (dq_total q div 2) in
      if half = 0 then ([], \<sigma>, q)
      else let (buf, \<sigma>1, h) = pop_half_loop half new_state \<sigma> (dq_head q)
           in (buf, n_set_prev \<sigma>1 h 0, q\<lparr>dq_head := h, dq_total := dq_total q - half\<rparr>))"

definition dq_move_up :: "ptr_val \<Rightarrow> node_store \<Rightarrow> double_queue \<Rightarrow> node_store \<times> double_queue" where
  "dq_move_up node \<sigma> q =
     (if \<not> dq_in_queue \<sigma> q node then (\<sigma>, q)
      else let prev = i_prev (\<sigma> node) in
        if prev = 0 then (\<sigma>, q)
        else let next = i_next (\<sigma> node);
                 \<sigma>1 = n_set_next \<sigma> prev next;
                 \<sigma>2 = (if next \<noteq> 0 then n_set_prev \<sigma>1 next prev else \<sigma>1);
                 q1 = (if next = 0 then q\<lparr>dq_tail := prev\<rparr> else q);
                 \<sigma>3 = n_set_next (n_set_prev \<sigma>2 node 0) node (dq_head q1);
                 \<sigma>4 = n_set_prev (n_set_queue \<sigma>3 node (dq_queue_number q)) (dq_head q1) node;
                 q2 = q1\<lparr>dq_head := node\<rparr>
             in (\<sigma>4, if dq_tail q2 = 0 then q2\<lparr>dq_tail := node\<rparr> else q2))"

definition dq_do_remove ::
  "ptr_val \<Rightarrow> 32 word \<Rightarrow> node_store \<Rightarrow> double_queue \<Rightarrow> bool \<times> node_store \<times> double_queue" where
  "dq_do_remove node new_state \<sigma> q =
     (if \<not> dq_in_queue \<sigma> q node then (False, \<sigma>, q)
      else let prev = i_prev (\<sigma> node); next = i_next (\<sigma> node);
               q1 = (if dq_head q = node then q\<lparr>dq_head := next\<rparr> else q);
               q2 = (if dq_tail q1 = node then q1\<lparr>dq_tail := prev\<rparr> else q1);
               \<sigma>1 = (if prev \<noteq> 0 then n_set_next \<sigma> prev next else \<sigma>);
               \<sigma>2 = (if next \<noteq> 0 then n_set_prev \<sigma>1 next prev else \<sigma>1);
               \<sigma>3 = n_set_prev (n_set_next \<sigma>2 node 0) node 0
           in (True, n_set_queue \<sigma>3 node new_state, q2\<lparr>dq_total := size_sub (dq_total q2) 1\<rparr>))"

subsection \<open>The representation invariant\<close>

definition n_nextf :: "node_store \<Rightarrow> links" where
  "n_nextf \<sigma> = (\<lambda>p. i_next (\<sigma> p))"

definition n_prevf :: "node_store \<Rightarrow> links" where
  "n_prevf \<sigma> = (\<lambda>p. i_prev (\<sigma> p))"

definition n_queuef :: "node_store \<Rightarrow> ptr_val \<Rightarrow> 32 word" where
  "n_queuef \<sigma> = (\<lambda>p. i_queue (\<sigma> p))"

lemma n_links_upd [store_simps, simp]:
  "n_nextf (n_set_next \<sigma> p v) = (n_nextf \<sigma>)(p := v)" "n_prevf (n_set_next \<sigma> p v) = n_prevf \<sigma>"
  "n_queuef (n_set_next \<sigma> p v) = n_queuef \<sigma>"
  "n_prevf (n_set_prev \<sigma> p v) = (n_prevf \<sigma>)(p := v)" "n_nextf (n_set_prev \<sigma> p v) = n_nextf \<sigma>"
  "n_queuef (n_set_prev \<sigma> p v) = n_queuef \<sigma>"
  "n_queuef (n_set_queue \<sigma> p w) = (n_queuef \<sigma>)(p := w)" "n_nextf (n_set_queue \<sigma> p w) = n_nextf \<sigma>"
  "n_prevf (n_set_queue \<sigma> p w) = n_prevf \<sigma>"
  "n_queuef (n_set_extra \<sigma> p b) = n_queuef \<sigma>" "n_nextf (n_set_extra \<sigma> p b) = n_nextf \<sigma>"
  "n_prevf (n_set_extra \<sigma> p b) = n_prevf \<sigma>"
  by (auto simp: n_nextf_def n_prevf_def n_queuef_def n_set_next_def n_set_prev_def n_set_queue_def
      n_set_extra_def)

lemma n_store_frame [store_simps]:
  "x \<noteq> p \<Longrightarrow> n_set_next \<sigma> p v x = \<sigma> x" "x \<noteq> p \<Longrightarrow> n_set_prev \<sigma> p v x = \<sigma> x"
  "x \<noteq> p \<Longrightarrow> n_set_queue \<sigma> p w x = \<sigma> x" "x \<noteq> p \<Longrightarrow> n_set_extra \<sigma> p b x = \<sigma> x"
  by (simp_all add: n_set_next_def n_set_prev_def n_set_queue_def n_set_extra_def)

lemma n_store_fields [store_simps]:
  "i_next (\<sigma> p) = n_nextf \<sigma> p" "i_prev (\<sigma> p) = n_prevf \<sigma> p" "i_queue (\<sigma> p) = n_queuef \<sigma> p"
  by (simp_all add: n_nextf_def n_prevf_def n_queuef_def)

definition dq_repr :: "node_store \<Rightarrow> double_queue \<Rightarrow> ptr_val list \<Rightarrow> bool" where
  "dq_repr \<sigma> q xs \<longleftrightarrow> distinct xs \<and> dll (n_nextf \<sigma>) (n_prevf \<sigma>) 0 xs 0
     \<and> dq_head q = first_of xs 0 \<and> dq_tail q = last_of 0 xs \<and> dq_total q = length xs
     \<and> (\<forall>x\<in>set xs. n_queuef \<sigma> x = dq_queue_number q)"

lemma dq_repr_new: "dq_repr \<sigma> (new_double_queue n) []"
  by (simp add: dq_repr_def new_double_queue_def)

lemma dq_repr_frame:
  assumes "dq_repr \<sigma> q xs" "\<forall>p\<in>set xs. \<sigma>' p = \<sigma> p"
  shows "dq_repr \<sigma>' q xs"
proof -
  have "dll (n_nextf \<sigma>') (n_prevf \<sigma>') 0 xs 0 = dll (n_nextf \<sigma>) (n_prevf \<sigma>) 0 xs 0"
    using assms(2) by (intro dll_cong) (simp_all add: n_nextf_def n_prevf_def)
  with assms show ?thesis by (simp add: dq_repr_def n_queuef_def)
qed

lemma dq_reprD:
  assumes "dq_repr \<sigma> q xs"
  shows "distinct xs" "dll (n_nextf \<sigma>) (n_prevf \<sigma>) 0 xs 0"
    "dq_head q = first_of xs 0" "dq_tail q = last_of 0 xs" "dq_total q = length xs"
    "\<forall>x\<in>set xs. n_queuef \<sigma> x = dq_queue_number q"
    "dq_head q = 0 \<longleftrightarrow> xs = []" "dq_tail q = 0 \<longleftrightarrow> xs = []" "0 \<notin> set xs"
  using assms unfolding dq_repr_def by (auto dest: dll_nonnull)

subsection \<open>The operations\<close>

lemma push_tail_repr:
  assumes "dq_repr \<sigma> q xs" "n \<noteq> 0" "n \<notin> set xs" "push_tail_node n \<sigma> q = (\<sigma>', q')"
  shows "dq_repr \<sigma>' q' (xs @ [n])" "\<forall>p. p \<notin> insert n (set xs) \<longrightarrow> \<sigma>' p = \<sigma> p"
    "dq_queue_number q' = dq_queue_number q"
proof -
  note d = dq_reprD [OF assms(1)]
  have "dll ((n_nextf \<sigma>)(last xs := n)) (n_prevf \<sigma>) 0 xs n" if "xs \<noteq> []"
    using dll_upd_next_last [OF d(2,1) that] .
  then show "dq_repr \<sigma>' q' (xs @ [n])"
    using assms(2-4) d unfolding push_tail_node_def dq_repr_def
    by (cases "xs = []") (auto simp: dll_append first_of_hd last_of_last Let_def)
  show "\<forall>p. p \<notin> insert n (set xs) \<longrightarrow> \<sigma>' p = \<sigma> p" "dq_queue_number q' = dq_queue_number q"
    using assms(2-4) d unfolding push_tail_node_def
    by (cases xs rule: rev_cases; auto simp: n_store_frame Let_def)+
qed

lemma push_head_repr:
  assumes "dq_repr \<sigma> q xs" "n \<noteq> 0" "n \<notin> set xs" "i_prev (\<sigma> n) = 0"
    "push_head_node n \<sigma> q = (\<sigma>', q')"
  shows "dq_repr \<sigma>' q' (n # xs)" "\<forall>p. p \<notin> insert n (set xs) \<longrightarrow> \<sigma>' p = \<sigma> p"
proof -
  note d = dq_reprD [OF assms(1)]
  have "dll (n_nextf \<sigma>) ((n_prevf \<sigma>)(hd xs := n)) n xs 0" if "xs \<noteq> []"
    using dll_upd_prev_first [OF d(2,1) that] .
  then show "dq_repr \<sigma>' q' (n # xs)"
    using assms(2-5) d unfolding push_head_node_def dq_repr_def n_store_fields
    by (cases xs) (auto simp: Let_def)
  show "\<forall>p. p \<notin> insert n (set xs) \<longrightarrow> \<sigma>' p = \<sigma> p"
    using assms(2-5) d unfolding push_head_node_def
    by (cases xs) (auto simp: n_store_frame Let_def)
qed

lemma pop_head_repr:
  assumes "dq_repr \<sigma> q (x # xs)" "dq_do_pop_head s \<sigma> q = (r, \<sigma>', q')"
  shows "r = x" "dq_repr \<sigma>' q' xs" "\<forall>p. p \<notin> set (x # xs) \<longrightarrow> \<sigma>' p = \<sigma> p"
    "i_queue (\<sigma>' x) = s" "i_prev (\<sigma>' x) = 0" "dq_queue_number q' = dq_queue_number q"
proof -
  note d = dq_reprD [OF assms(1)]
  have nx: "n_nextf \<sigma> x = first_of xs 0" using d(2) by simp
  have "dll (n_nextf \<sigma>) ((n_prevf \<sigma>)(hd xs := 0)) 0 xs 0" if "xs \<noteq> []"
    using dll_upd_prev_first [of _ _ x xs 0] d that by simp
  then show "r = x" "dq_repr \<sigma>' q' xs" "i_queue (\<sigma>' x) = s" "i_prev (\<sigma>' x) = 0"
      "dq_queue_number q' = dq_queue_number q"
    using assms(2) d nx unfolding dq_do_pop_head_def dq_repr_def dq_empty_def n_store_fields
    by (cases xs; auto simp: Let_def)+
  show "\<forall>p. p \<notin> set (x # xs) \<longrightarrow> \<sigma>' p = \<sigma> p"
    using assms(2) d nx unfolding dq_do_pop_head_def dq_empty_def n_store_fields
    by (cases xs) (auto simp: n_store_frame Let_def)
qed

lemma pop_tail_repr:
  assumes "dq_repr \<sigma> q (xs @ [x])" "dq_pop_tail s \<sigma> q = (r, \<sigma>', q')"
  shows "r = x" "dq_repr \<sigma>' q' xs" "\<forall>p. p \<notin> set (xs @ [x]) \<longrightarrow> \<sigma>' p = \<sigma> p"
    "i_queue (\<sigma>' x) = s"
proof -
  note d = dq_reprD [OF assms(1)]
  have pv: "n_prevf \<sigma> x = last_of 0 xs" and dx: "dll (n_nextf \<sigma>) (n_prevf \<sigma>) 0 xs x"
    using d(2) by (simp_all add: dll_append)
  have "dll ((n_nextf \<sigma>)(last xs := 0)) (n_prevf \<sigma>) 0 xs 0" if "xs \<noteq> []"
    using dll_upd_next_last [OF dx _ that] d(1) by simp
  then show "r = x" "dq_repr \<sigma>' q' xs" "i_queue (\<sigma>' x) = s"
    using assms(2) d pv unfolding dq_pop_tail_def dq_repr_def dq_empty_def n_store_fields
    by (cases xs rule: rev_cases; auto simp: Let_def)+
  have "n_prevf \<sigma> x = 0 \<or> n_prevf \<sigma> x \<in> set xs"
    unfolding pv by (cases xs rule: rev_cases) simp_all
  then have "\<sigma>' p = \<sigma> p" if "p \<notin> set (xs @ [x])" for p
    using assms(2) that d(4) unfolding dq_pop_tail_def dq_empty_def n_store_fields
    by (auto simp: n_store_frame Let_def split: if_splits intro!: n_store_frame(1))
  then show "\<forall>p. p \<notin> set (xs @ [x]) \<longrightarrow> \<sigma>' p = \<sigma> p" by blast
qed

lemma do_remove_repr:
  assumes "dq_repr \<sigma> q (ys @ x # zs)" "dq_do_remove x s \<sigma> q = (b, \<sigma>', q')"
  shows "b" "dq_repr \<sigma>' q' (ys @ zs)" "\<forall>p. p \<notin> set (ys @ x # zs) \<longrightarrow> \<sigma>' p = \<sigma> p"
    "i_queue (\<sigma>' x) = s" "dq_queue_number q' = dq_queue_number q"
proof -
  note d = dq_reprD [OF assms(1)]
  have nx: "n_nextf \<sigma> x = first_of zs 0" "n_prevf \<sigma> x = last_of 0 ys"
    using d(2) by (simp_all add: dll_append)
  have h1: "first_of ys x = x \<longleftrightarrow> ys = []" using d(1) by (cases ys) auto
  have h2: "last_of x zs = x \<longleftrightarrow> zs = []" using d(1) by (cases zs rule: rev_cases) auto
  have h3: "first_of zs 0 = 0 \<longleftrightarrow> zs = []" using d(9) by (cases zs) auto
  have h4: "last_of 0 ys = 0 \<longleftrightarrow> ys = []" using d(9) by (cases ys rule: rev_cases) auto
  note u = dll_unlink [OF d(2,1) refl refl]
  show "b" "i_queue (\<sigma>' x) = s" "dq_queue_number q' = dq_queue_number q"
    using assms(2) d unfolding dq_do_remove_def dq_in_queue_def n_store_fields
    by (auto simp: Let_def)
  show "dq_repr \<sigma>' q' (ys @ zs)"
    using assms(2) d u nx h1 h2 h3 h4
    unfolding dq_do_remove_def dq_repr_def dq_in_queue_def n_store_fields
    by (cases ys rule: rev_cases; cases zs) (auto simp: Let_def)
  show "\<forall>p. p \<notin> set (ys @ x # zs) \<longrightarrow> \<sigma>' p = \<sigma> p"
    using assms(2) d nx unfolding dq_do_remove_def dq_in_queue_def n_store_fields
    by (cases ys rule: rev_cases; cases zs) (auto simp: Let_def n_store_frame)
qed

lemma pop_half_loop_spec:
  assumes "dll (n_nextf \<sigma>) (n_prevf \<sigma>) a (xs @ ys) 0"
    "pop_half_loop (length xs) s \<sigma> (first_of (xs @ ys) 0) = (buf, \<sigma>', h)"
  shows "buf = xs" "h = first_of ys 0" "n_nextf \<sigma>' = n_nextf \<sigma>" "n_prevf \<sigma>' = n_prevf \<sigma>"
    "n_queuef \<sigma>' = (\<lambda>p. if p \<in> set xs then s else n_queuef \<sigma> p)"
    "\<forall>p. p \<notin> set xs \<longrightarrow> \<sigma>' p = \<sigma> p"
proof -
  have "buf = xs \<and> h = first_of ys 0 \<and> n_nextf \<sigma>' = n_nextf \<sigma> \<and> n_prevf \<sigma>' = n_prevf \<sigma>
    \<and> n_queuef \<sigma>' = (\<lambda>p. if p \<in> set xs then s else n_queuef \<sigma> p) \<and> (\<forall>p. p \<notin> set xs \<longrightarrow> \<sigma>' p = \<sigma> p)"
    using assms
  proof (induction xs arbitrary: \<sigma> a buf)
    case (Cons x xs)
    let ?\<sigma>1 = "n_set_queue \<sigma> x s"
    have nx: "i_next (?\<sigma>1 x) = first_of (xs @ ys) 0"
      using Cons.prems(1) by (simp add: n_store_fields)
    obtain buf' where b: "pop_half_loop (length xs) s ?\<sigma>1 (first_of (xs @ ys) 0) = (buf', \<sigma>', h)"
        "buf = x # buf'"
      using Cons.prems(2) nx by (auto simp: Let_def split: prod.splits)
    have "dll (n_nextf ?\<sigma>1) (n_prevf ?\<sigma>1) x (xs @ ys) 0" using Cons.prems(1) by simp
    from Cons.IH [OF this b(1)] b(2) show ?case by (auto simp: n_store_frame)
  qed auto
  then show "buf = xs" "h = first_of ys 0" "n_nextf \<sigma>' = n_nextf \<sigma>" "n_prevf \<sigma>' = n_prevf \<sigma>"
    "n_queuef \<sigma>' = (\<lambda>p. if p \<in> set xs then s else n_queuef \<sigma> p)" "\<forall>p. p \<notin> set xs \<longrightarrow> \<sigma>' p = \<sigma> p"
    by auto
qed

lemma pop_tail_half_repr:
  assumes "dq_repr \<sigma> q xs" "dq_pop_tail_half mx s \<sigma> q = (buf, \<sigma>', q')"
    "half = min mx (length xs div 2)"
  shows "buf = take half xs" "dq_repr \<sigma>' q' (drop half xs)"
    "\<forall>p\<in>set buf. i_queue (\<sigma>' p) = s" "\<forall>p. p \<notin> set xs \<longrightarrow> \<sigma>' p = \<sigma> p"
proof -
  note d = dq_reprD [OF assms(1)]
  define ys zs where "ys = take half xs" and "zs = drop half xs"
  have xs: "xs = ys @ zs" "length ys = half" by (simp_all add: ys_def zs_def assms(3))
  have "buf = ys \<and> dq_repr \<sigma>' q' zs \<and> (\<forall>p\<in>set buf. i_queue (\<sigma>' p) = s)
      \<and> (\<forall>p. p \<notin> set xs \<longrightarrow> \<sigma>' p = \<sigma> p)"
  proof (cases "half = 0")
    case True
    then have "ys = []" "zs = xs" by (simp_all add: ys_def zs_def)
    moreover have "buf = [] \<and> \<sigma>' = \<sigma> \<and> q' = q"
      using assms(2,3) True d(5) by (auto simp: dq_pop_tail_half_def Let_def)
    ultimately show ?thesis using assms(1) by simp
  next
    case False
    then have "zs \<noteq> []" using assms(3) by (auto simp: zs_def)
    then obtain z zs' where z: "zs = z # zs'" by (cases zs) auto
    obtain \<sigma>1 h where l: "pop_half_loop half s \<sigma> (dq_head q) = (buf, \<sigma>1, h)"
        "\<sigma>' = n_set_prev \<sigma>1 h 0" "q' = q\<lparr>dq_head := h, dq_total := dq_total q - half\<rparr>"
      using assms(2,3) False d(5) by (auto simp: dq_pop_tail_half_def Let_def split: prod.splits)
    have dl: "dll (n_nextf \<sigma>) (n_prevf \<sigma>) 0 (ys @ zs) 0" using d(2) xs by simp
    note sp = pop_half_loop_spec [OF dl, of s buf \<sigma>1 h, unfolded xs(2)]
    have sp: "buf = ys" "h = z" "n_nextf \<sigma>1 = n_nextf \<sigma>" "n_prevf \<sigma>1 = n_prevf \<sigma>"
      "n_queuef \<sigma>1 = (\<lambda>p. if p \<in> set ys then s else n_queuef \<sigma> p)"
      "\<forall>p. p \<notin> set ys \<longrightarrow> \<sigma>1 p = \<sigma> p"
      using sp l(1) d(3) xs z by auto
    have "dq_repr \<sigma>' q' zs"
      using d xs z by (auto simp: dq_repr_def l sp dll_append)
    with sp l xs z show ?thesis by (auto simp: n_store_fields n_store_frame)
  qed
  then show "buf = take half xs" "dq_repr \<sigma>' q' (drop half xs)"
    "\<forall>p\<in>set buf. i_queue (\<sigma>' p) = s" "\<forall>p. p \<notin> set xs \<longrightarrow> \<sigma>' p = \<sigma> p"
    by (auto simp: ys_def zs_def)
qed

lemma move_up_repr:
  assumes "dq_repr \<sigma> q (ys @ x # zs)" "dq_move_up x \<sigma> q = (\<sigma>', q')"
  shows "dq_repr \<sigma>' q' (x # ys @ zs)" "\<forall>p. p \<notin> set (ys @ x # zs) \<longrightarrow> \<sigma>' p = \<sigma> p"
proof -
  note d = dq_reprD [OF assms(1)]
  have nx: "n_nextf \<sigma> x = first_of zs 0" "n_prevf \<sigma> x = last_of 0 ys"
    using d(2) by (simp_all add: dll_append)
  have iq: "dq_in_queue \<sigma> q x" using d(6) by (simp add: dq_in_queue_def n_store_fields)
  show "dq_repr \<sigma>' q' (x # ys @ zs)"
  proof (cases ys rule: rev_cases)
    case Nil
    with assms nx iq have "\<sigma>' = \<sigma>" "q' = q"
      unfolding dq_move_up_def n_store_fields by (auto simp: Let_def)
    with assms(1) Nil show ?thesis by simp
  next
    case (snoc ys' y)
    define h where "h = first_of ys' y"
    define nx1 where "nx1 = (n_nextf \<sigma>)(y := first_of zs 0)"
    define pv1 where "pv1 = (if zs = [] then n_prevf \<sigma> else (n_prevf \<sigma>)(hd zs := y))"
    have u: "dll nx1 pv1 0 (ys @ zs) 0"
      using dll_unlink [OF d(2,1) refl refl] snoc by (auto simp: nx1_def pv1_def)
    have h: "ys @ zs \<noteq> []" "hd (ys @ zs) = h" "h \<in> set ys" "dq_head q = h"
      using d(3) by (cases ys'; simp add: snoc h_def)+
    have u2: "dll nx1 (pv1(h := x)) x (ys @ zs) 0"
      using dll_upd_prev_first [OF u _ h(1)] d(1) h(2) by simp
    have xn: "x \<notin> set (ys @ zs)" "x \<noteq> h" "x \<noteq> 0" using d(1,9) h(3) by auto
    have y: "y \<noteq> 0" "x \<noteq> y" "dq_tail q = last_of x zs" using d(1,4,9) snoc by auto
    have z: "first_of zs 0 = 0 \<longleftrightarrow> zs = []" using d(9) by (cases zs) auto
    have links: "n_nextf \<sigma>' = nx1(x := h)" "n_prevf \<sigma>' = pv1(x := 0, h := x)"
        "n_queuef \<sigma>' = (n_queuef \<sigma>)(x := dq_queue_number q)"
      using assms(2) nx iq y z h(4) snoc xn unfolding dq_move_up_def n_store_fields
      by (auto simp: Let_def nx1_def pv1_def first_of_hd fun_upd_twist)
    have q': "q' = q\<lparr>dq_head := x, dq_tail := last_of 0 (ys @ zs)\<rparr>"
      using assms(2) nx iq y z h(4) snoc d(8) unfolding dq_move_up_def n_store_fields
      by (cases zs rule: rev_cases) (auto simp: Let_def)
    have "dll (nx1(x := h)) (pv1(x := 0, h := x)) x (ys @ zs) 0"
      using u2 xn by (simp add: fun_upd_twist)
    moreover have "first_of (ys @ zs) 0 = h" using h(1,2) first_of_hd by metis
    moreover have "last_of x (ys @ zs) = last_of 0 (ys @ zs)" unfolding last_of_last [OF h(1)] ..
    ultimately show ?thesis using d xn by (auto simp: dq_repr_def links q')
  qed
  have "n_prevf \<sigma> x = 0 \<or> n_prevf \<sigma> x \<in> set ys" "n_nextf \<sigma> x = 0 \<or> n_nextf \<sigma> x \<in> set zs"
      "dq_head q \<in> set (ys @ x # zs)"
    using first_of_mem [of zs 0] first_of_mem [of ys x] last_of_mem [of 0 ys] nx d(3) by auto
  then have "\<sigma>' p = \<sigma> p" if "p \<notin> set (ys @ x # zs)" for p
  proof -
    have "p \<noteq> x" "p \<noteq> dq_head q" "n_prevf \<sigma> x \<noteq> 0 \<longrightarrow> p \<noteq> n_prevf \<sigma> x"
        "n_nextf \<sigma> x \<noteq> 0 \<longrightarrow> p \<noteq> n_nextf \<sigma> x"
      using that \<open>dq_head q \<in> _\<close> \<open>n_prevf \<sigma> x = 0 \<or> _\<close> \<open>n_nextf \<sigma> x = 0 \<or> _\<close> by auto
    with assms(2) iq show ?thesis unfolding dq_move_up_def n_store_fields
      by (auto simp: n_store_frame Let_def split: if_splits)
  qed
  then show "\<forall>p. p \<notin> set (ys @ x # zs) \<longrightarrow> \<sigma>' p = \<sigma> p" by blast
qed

lemma pop_head_none:
  "dq_repr \<sigma> q [] \<Longrightarrow> dq_do_pop_head s \<sigma> q = (0, \<sigma>, q)"
  by (simp add: dq_do_pop_head_def dq_repr_def dq_empty_def)

text \<open>The state of the interface is the store and the queue; the new state of popped nodes is a parameter.\<close>

interpretation dq: linked_queue "\<lambda>(\<sigma>, q). dq_repr \<sigma> q" "\<lambda>n (\<sigma>, q). push_tail_node n \<sigma> q"
  "\<lambda>(\<sigma>, q). dq_do_pop_head new_state \<sigma> q" for new_state
proof
  fix s xs and x :: ptr_val
  obtain \<sigma> q where s: "s = (\<sigma> :: node_store, q :: double_queue)" by fastforce
  show "(case case s of (\<sigma>, q) \<Rightarrow> push_tail_node x \<sigma> q of (\<sigma>, q) \<Rightarrow> dq_repr \<sigma> q) (xs @ [x])"
    if "(case s of (\<sigma>, q) \<Rightarrow> dq_repr \<sigma> q) xs" "x \<noteq> 0" "x \<notin> set xs"
    using that push_tail_repr(1) [of \<sigma> q xs x] by (cases "push_tail_node x \<sigma> q") (auto simp: s)
  show "fst (case s of (\<sigma>, q) \<Rightarrow> dq_do_pop_head new_state \<sigma> q) = x
      \<and> (case snd (case s of (\<sigma>, q) \<Rightarrow> dq_do_pop_head new_state \<sigma> q) of (\<sigma>, q) \<Rightarrow> dq_repr \<sigma> q) xs"
    if "(case s of (\<sigma>, q) \<Rightarrow> dq_repr \<sigma> q) (x # xs)"
    using that pop_head_repr(1,2) [of \<sigma> q x xs new_state]
    by (cases "dq_do_pop_head new_state \<sigma> q") (auto simp: s)
  show "(case s of (\<sigma>, q) \<Rightarrow> dq_do_pop_head new_state \<sigma> q) = (0, s)"
    if "(case s of (\<sigma>, q) \<Rightarrow> dq_repr \<sigma> q) []"
    using that pop_head_none by (simp add: s)
qed

subsection \<open>Properties\<close>

definition example_nodes :: node_store where
  "example_nodes = (\<lambda>_. \<lparr>i_next = 3, i_prev = 0, i_queue = 5, i_extra_id = 1\<rparr>)"

lemma steal_half_takes:
  assumes "dq_repr \<sigma> q xs"
  shows "(case dq_pop_tail_half mx s \<sigma> q of (buf, \<sigma>', q') \<Rightarrow>
      buf = take (min mx (length xs div 2)) xs
      \<and> dq_repr \<sigma>' q' (drop (min mx (length xs div 2)) xs)
      \<and> (\<forall>p\<in>set buf. i_queue (\<sigma>' p) = s)
      \<and> (\<forall>p. p \<notin> set xs \<longrightarrow> \<sigma>' p = \<sigma> p)
      \<and> (dq_empty q' \<longleftrightarrow> xs = []))"
proof -
  have e: "dq_empty q' \<longleftrightarrow> xs = []" if "dq_repr \<sigma>' q' (drop (min mx (length xs div 2)) xs)" for \<sigma>' q'
    using dq_reprD(7) [OF that] by (auto simp: dq_empty_def)
  obtain buf \<sigma>' q' where r: "dq_pop_tail_half mx s \<sigma> q = (buf, \<sigma>', q')" using prod_cases3 by blast
  note p = pop_tail_half_repr [OF assms r refl]
  from p e [OF p(2)] show ?thesis by (simp add: r)
qed

lemma push_head_stale:
  assumes "n \<noteq> 0" "n \<notin> set xs" "dq_repr \<sigma> q xs" "i_prev (\<sigma> n) \<noteq> 0" "push_head_node n \<sigma> q = (\<sigma>', q')"
  shows "\<not> dq_repr \<sigma>' q' (n # xs)"
proof -
  have "dq_head q \<noteq> n" using dq_reprD(3) [OF assms(3)] assms(1,2) by (cases xs) auto
  then have "n_prevf \<sigma>' n \<noteq> 0"
    using assms(4,5) unfolding push_head_node_def n_store_fields by (cases "dq_head q = 0") (auto simp: Let_def)
  then show ?thesis by (auto simp: dq_repr_def)
qed

lemma pop_tail_none:
  "dq_repr \<sigma> q [] \<Longrightarrow> dq_pop_tail s \<sigma> q = (0, \<sigma>, q)"
  by (simp add: dq_pop_tail_def dq_repr_def dq_empty_def)

text \<open>\<^verbatim>\<open>pop_if_not_empty\<close> pops only when there are three nodes or more, and dereferences \<^verbatim>\<open>nullptr\<close> when there is one.\<close>

lemma pop_if_not_empty_repr:
  assumes "dq_repr \<sigma> q xs"
  shows "length xs = 1 \<Longrightarrow> dq_pop_if_not_empty s \<sigma> q = None"
    "length xs = 0 \<or> length xs = 2 \<Longrightarrow> dq_pop_if_not_empty s \<sigma> q = Some (0, \<sigma>, q)"
    "xs = x # y # z # zs \<Longrightarrow>
      \<exists>\<sigma>' q'. dq_pop_if_not_empty s \<sigma> q = Some (x, \<sigma>', q') \<and> dq_repr \<sigma>' q' (y # z # zs) \<and> i_queue (\<sigma>' x) = s"
proof -
  note d = dq_reprD [OF assms]
  show "dq_pop_if_not_empty s \<sigma> q = None" if "length xs = 1"
    using that d by (cases xs) (auto simp: dq_pop_if_not_empty_def dq_empty_def n_store_fields)
  show "dq_pop_if_not_empty s \<sigma> q = Some (0, \<sigma>, q)" if "length xs = 0 \<or> length xs = 2"
    using that d by (cases xs rule: list.exhaust; cases "tl xs") (auto simp: dq_pop_if_not_empty_def dq_empty_def n_store_fields)
  assume xs: "xs = x # y # z # zs"
  have "dll (n_nextf \<sigma>) (n_prevf \<sigma>) x (y # z # zs) 0" using d(2) xs by simp
  from dll_upd_prev_first [OF this, of 0] have "dll (n_nextf \<sigma>) ((n_prevf \<sigma>)(y := 0)) 0 (y # z # zs) 0" using d(1) xs by simp
  moreover have "dq_head q = x" "n_nextf \<sigma> x = y" "n_nextf \<sigma> y = z" "x \<noteq> 0" "y \<noteq> 0" "z \<noteq> 0" using d xs by auto
  ultimately show "\<exists>\<sigma>' q'. dq_pop_if_not_empty s \<sigma> q = Some (x, \<sigma>', q') \<and> dq_repr \<sigma>' q' (y # z # zs) \<and> i_queue (\<sigma>' x) = s"
    using d xs unfolding dq_pop_if_not_empty_def dq_empty_def n_store_fields dq_repr_def
    by (auto simp: Let_def)
qed

text \<open>
  C24. The work queue of a thread implements a sequence of nodes. On a queue that represents \<open>xs\<close>, empty or not:
  pushing a fresh node at the tail adds it there; pushing it at the head does so exactly when its \<^verbatim>\<open>prev\<close> field is clear, which
  the code does not set; popping the head or the tail returns that node, marks it with the new state and keeps
  the others, and answers false on an empty queue; \<^verbatim>\<open>pop_if_not_empty\<close> pops the head of three nodes or more, answers false for none and
  for two, and follows a null pointer for one; \<^verbatim>\<open>move_up\<close> of a queued node moves it to the front; \<^verbatim>\<open>do_remove\<close> of a queued node
  takes it out and marks it, and of a node with the number of another queue answers false and changes nothing.
  Work stealing takes the front half: \<^verbatim>\<open>pop_tail_half\<close> fills the buffer with the first
  \<open>min mx (length xs div 2)\<close> nodes in queue order, marks exactly these with the thief's state, and
  leaves a queue of the other nodes, which is empty only if it was.
\<close>

theorem double_queue_sequence:
  assumes "dq_repr \<sigma> q xs"
  shows "(\<forall>n. n \<noteq> 0 \<and> n \<notin> set xs \<longrightarrow>
        (case push_tail_node n \<sigma> q of (\<sigma>', q') \<Rightarrow> dq_repr \<sigma>' q' (xs @ [n]))
        \<and> (case push_head_node n \<sigma> q of (\<sigma>', q') \<Rightarrow> dq_repr \<sigma>' q' (n # xs) \<longleftrightarrow> i_prev (\<sigma> n) = 0))
    \<and> (case dq_do_pop_head s \<sigma> q of (r, \<sigma>', q') \<Rightarrow>
        if xs = [] then r = 0 \<and> \<sigma>' = \<sigma> \<and> q' = q else r = hd xs \<and> dq_repr \<sigma>' q' (tl xs) \<and> i_queue (\<sigma>' r) = s)
    \<and> (case dq_pop_tail s \<sigma> q of (r, \<sigma>', q') \<Rightarrow>
        if xs = [] then r = 0 \<and> \<sigma>' = \<sigma> \<and> q' = q else r = last xs \<and> dq_repr \<sigma>' q' (butlast xs) \<and> i_queue (\<sigma>' r) = s)
    \<and> (case dq_pop_if_not_empty s \<sigma> q of
        None \<Rightarrow> length xs = 1
      | Some (r, \<sigma>', q') \<Rightarrow>
          if length xs < 3 then length xs \<noteq> 1 \<and> r = 0 \<and> \<sigma>' = \<sigma> \<and> q' = q
          else r = hd xs \<and> dq_repr \<sigma>' q' (tl xs) \<and> i_queue (\<sigma>' r) = s)
    \<and> (\<forall>ys x zs. xs = ys @ x # zs \<longrightarrow>
        (case dq_move_up x \<sigma> q of (\<sigma>', q') \<Rightarrow> dq_repr \<sigma>' q' (x # ys @ zs))
        \<and> (case dq_do_remove x s \<sigma> q of (b, \<sigma>', q') \<Rightarrow> b \<and> dq_repr \<sigma>' q' (ys @ zs) \<and> i_queue (\<sigma>' x) = s))
    \<and> (\<forall>n. i_queue (\<sigma> n) \<noteq> dq_queue_number q \<longrightarrow> dq_do_remove n s \<sigma> q = (False, \<sigma>, q))
    \<and> (case dq_pop_tail_half mx s \<sigma> q of (buf, \<sigma>', q') \<Rightarrow>
        buf = take (min mx (length xs div 2)) xs
        \<and> dq_repr \<sigma>' q' (drop (min mx (length xs div 2)) xs)
        \<and> (\<forall>p\<in>set buf. i_queue (\<sigma>' p) = s)
        \<and> (\<forall>p. p \<notin> set xs \<longrightarrow> \<sigma>' p = \<sigma> p)
        \<and> (dq_empty q' \<longleftrightarrow> xs = []))"
proof (intro conjI)
  show "\<forall>n. n \<noteq> 0 \<and> n \<notin> set xs \<longrightarrow> (case push_tail_node n \<sigma> q of (\<sigma>', q') \<Rightarrow> dq_repr \<sigma>' q' (xs @ [n]))
      \<and> (case push_head_node n \<sigma> q of (\<sigma>', q') \<Rightarrow> dq_repr \<sigma>' q' (n # xs) \<longleftrightarrow> i_prev (\<sigma> n) = 0)"
    using push_tail_repr(1) [OF assms] push_head_repr(1) [OF assms] push_head_stale [OF _ _ assms] by (fastforce split: prod.splits)
  show "case dq_do_pop_head s \<sigma> q of (r, \<sigma>', q') \<Rightarrow>
      if xs = [] then r = 0 \<and> \<sigma>' = \<sigma> \<and> q' = q else r = hd xs \<and> dq_repr \<sigma>' q' (tl xs) \<and> i_queue (\<sigma>' r) = s"
  proof (cases xs)
    case (Cons y ys)
    obtain r \<sigma>' q' where e: "dq_do_pop_head s \<sigma> q = (r, \<sigma>', q')" using prod_cases3 by blast
    from pop_head_repr(1,2,4) [OF assms [unfolded Cons] e] show ?thesis by (simp add: e Cons)
  qed (use pop_head_none [of \<sigma> q s] assms in simp)
  show "case dq_pop_tail s \<sigma> q of (r, \<sigma>', q') \<Rightarrow>
      if xs = [] then r = 0 \<and> \<sigma>' = \<sigma> \<and> q' = q else r = last xs \<and> dq_repr \<sigma>' q' (butlast xs) \<and> i_queue (\<sigma>' r) = s"
  proof (cases xs rule: rev_cases)
    case (snoc ys y)
    obtain r \<sigma>' q' where e: "dq_pop_tail s \<sigma> q = (r, \<sigma>', q')" using prod_cases3 by blast
    from pop_tail_repr(1,2,4) [OF assms [unfolded snoc] e] show ?thesis by (simp add: e snoc)
  qed (use pop_tail_none [of \<sigma> q s] assms in simp)
  show "case dq_pop_if_not_empty s \<sigma> q of None \<Rightarrow> length xs = 1
      | Some (r, \<sigma>', q') \<Rightarrow> if length xs < 3 then length xs \<noteq> 1 \<and> r = 0 \<and> \<sigma>' = \<sigma> \<and> q' = q
          else r = hd xs \<and> dq_repr \<sigma>' q' (tl xs) \<and> i_queue (\<sigma>' r) = s"
  proof -
    note p = pop_if_not_empty_repr [OF assms, where s = s]
    show ?thesis
    proof (cases "length xs < 3")
      case True
      then have "length xs = 1 \<or> length xs = 0 \<or> length xs = 2" by linarith
      then show ?thesis using p(1,2) by auto
    next
      case False
      then obtain x y z zs where xs: "xs = x # y # z # zs" by (cases xs; cases "tl xs"; cases "tl (tl xs)") auto
      from p(3) [OF this] show ?thesis by (auto simp: xs)
    qed
  qed
  show "\<forall>ys x zs. xs = ys @ x # zs \<longrightarrow> (case dq_move_up x \<sigma> q of (\<sigma>', q') \<Rightarrow> dq_repr \<sigma>' q' (x # ys @ zs))
      \<and> (case dq_do_remove x s \<sigma> q of (b, \<sigma>', q') \<Rightarrow> b \<and> dq_repr \<sigma>' q' (ys @ zs) \<and> i_queue (\<sigma>' x) = s)"
  proof (intro allI impI)
    fix ys x zs assume "xs = ys @ x # zs"
    then have m: "dq_repr \<sigma> q (ys @ x # zs)" using assms by simp
    obtain b \<sigma>' q' where r: "dq_do_remove x s \<sigma> q = (b, \<sigma>', q')" using prod_cases3 by blast
    obtain \<sigma>2 q2 where u: "dq_move_up x \<sigma> q = (\<sigma>2, q2)" by fastforce
    from do_remove_repr(1,2,4) [OF m r] move_up_repr(1) [OF m u]
    show "(case dq_move_up x \<sigma> q of (\<sigma>', q') \<Rightarrow> dq_repr \<sigma>' q' (x # ys @ zs))
        \<and> (case dq_do_remove x s \<sigma> q of (b, \<sigma>', q') \<Rightarrow> b \<and> dq_repr \<sigma>' q' (ys @ zs) \<and> i_queue (\<sigma>' x) = s)" by (simp add: r u)
  qed
  show "\<forall>n. i_queue (\<sigma> n) \<noteq> dq_queue_number q \<longrightarrow> dq_do_remove n s \<sigma> q = (False, \<sigma>, q)"
    by (simp add: dq_do_remove_def dq_in_queue_def)
qed (rule steal_half_takes [OF assms])

theorem double_queue_sequence_witness:
  "(case push_tail_node 16 example_nodes (new_double_queue 2) of (\<sigma>, q) \<Rightarrow>
     dq_repr \<sigma> q [16] \<and> (case push_head_node 32 \<sigma> q of (\<sigma>', q') \<Rightarrow> dq_repr \<sigma>' q' [32, 16])
     \<and> fst (dq_pop_tail 7 \<sigma> q) = 16 \<and> dq_pop_if_not_empty 7 \<sigma> q = None \<and> dq_do_remove 32 7 \<sigma> q = (False, \<sigma>, q) \<and> fst (dq_pop_tail_half 10 7 \<sigma> q) = [])"
proof -
  obtain \<sigma> q where s: "push_tail_node 16 example_nodes (new_double_queue 2) = (\<sigma>, q)" by fastforce
  have r: "dq_repr \<sigma> q [16]"
    using double_queue_sequence [OF dq_repr_new [of example_nodes 2], of 7 10, THEN conjunct1, rule_format, of 16] by (simp add: s)
  from push_tail_repr [OF dq_repr_new _ _ s] have f: "\<sigma> 32 = example_nodes 32" "dq_queue_number q = 2" by (auto simp: new_double_queue_def)
  have "i_prev (\<sigma> 32) = 0" "i_queue (\<sigma> 32) \<noteq> dq_queue_number q" using f by (simp_all add: example_nodes_def)
  moreover note D = double_queue_sequence [OF r, of 7 10]
  ultimately have "case push_head_node 32 \<sigma> q of (\<sigma>', q') \<Rightarrow> dq_repr \<sigma>' q' [32, 16]" "dq_do_remove 32 7 \<sigma> q = (False, \<sigma>, q)"
    using D [THEN conjunct1, rule_format, of 32] by (auto split: prod.splits)
  with D r show ?thesis unfolding s by (auto split: prod.splits option.splits)
qed

end
