(* ===== verification/Float_Val.thy ===== *)
theory Float_Val
  imports Meld_Prelude
begin

text \<open>
  The comparisons of \<^verbatim>\<open>double\<close> values (\<^verbatim>\<open>float_val\<close> and \<^verbatim>\<open>priority_t\<close> in \<^verbatim>\<open>vm/defs.hpp\<close>), on the
  IEEE 754 bit patterns of the x86-64 target, and the priority constants of \<^verbatim>\<open>vm/priority.hpp\<close>.
  Arithmetic on doubles is never evaluated here: the definitions that need it take it as a
  parameter.
\<close>

type_synonym float_val = "64 word"

text \<open>The magnitude bits; a value is NaN when they exceed those of infinity.\<close>

definition float_mag :: "float_val \<Rightarrow> nat" where
  "float_mag w = unat w mod 2 ^ 63"

definition float_is_nan :: "float_val \<Rightarrow> bool" where
  "float_is_nan w \<longleftrightarrow> float_mag w > 0x7FF0000000000000"

text \<open>Sign and magnitude as one integer: it orders the values that are not NaN, with both zeros at 0.\<close>

definition float_key :: "float_val \<Rightarrow> int" where
  "float_key w = (if unat w \<ge> 2 ^ 63 then - int (float_mag w) else int (float_mag w))"

definition float_le :: "float_val \<Rightarrow> float_val \<Rightarrow> bool" where
  "float_le a b \<longleftrightarrow> \<not> float_is_nan a \<and> \<not> float_is_nan b \<and> float_key a \<le> float_key b"

definition float_lt :: "float_val \<Rightarrow> float_val \<Rightarrow> bool" where
  "float_lt a b \<longleftrightarrow> \<not> float_is_nan a \<and> \<not> float_is_nan b \<and> float_key a < float_key b"

definition float_eq :: "float_val \<Rightarrow> float_val \<Rightarrow> bool" where
  "float_eq a b \<longleftrightarrow> \<not> float_is_nan a \<and> \<not> float_is_nan b \<and> float_key a = float_key b"

lemma float_le_trans: "float_le a b \<Longrightarrow> float_le b c \<Longrightarrow> float_le a c"
  by (auto simp: float_le_def)

lemma float_le_total: "\<not> float_is_nan a \<Longrightarrow> \<not> float_is_nan b \<Longrightarrow> float_le a b \<or> float_le b a"
  by (auto simp: float_le_def)

lemma float_lt_iff_not_le:
  "\<not> float_is_nan a \<Longrightarrow> \<not> float_is_nan b \<Longrightarrow> float_lt a b \<longleftrightarrow> \<not> float_le b a"
  by (auto simp: float_le_def float_lt_def)

lemma float_nan_incomparable:
  "float_is_nan a \<or> float_is_nan b \<Longrightarrow> \<not> float_le a b \<and> \<not> float_lt a b \<and> \<not> float_eq a b"
  by (auto simp: float_le_def float_lt_def float_eq_def)

text \<open>
  Conversion of a non-negative double to an unsigned integer: the fraction is cut off. Values below
  the least normal number convert to 0.
\<close>

definition float_trunc :: "float_val \<Rightarrow> nat" where
  "float_trunc w =
     (let e = float_mag w div 2 ^ 52; m = 2 ^ 52 + float_mag w mod 2 ^ 52
      in if e = 0 then 0 else if e \<ge> 1075 then m * 2 ^ (e - 1075) else m div 2 ^ (1075 - e))"

lemma float_trunc_tiny: "unat w < 2 ^ 52 \<Longrightarrow> float_trunc w = 0"
  by (simp add: float_trunc_def float_mag_def Let_def)

subsection \<open>Priorities\<close>

text \<open>\<^verbatim>\<open>std::numeric_limits<double>::max()\<close> and \<^verbatim>\<open>lowest()\<close>.\<close>

definition double_max :: float_val where
  "double_max = 0x7FEFFFFFFFFFFFFF"

definition double_lowest :: float_val where
  "double_lowest = 0xFFEFFFFFFFFFFFFF"

definition higher_priority :: "bool \<Rightarrow> float_val \<Rightarrow> float_val \<Rightarrow> bool" where
  "higher_priority desc p1 p2 = (if desc then float_lt p2 p1 else float_lt p1 p2)"

definition max_priority_value0 :: "bool \<Rightarrow> float_val" where
  "max_priority_value0 desc = (if desc then double_max else double_lowest)"

definition no_priority_value0 :: "bool \<Rightarrow> float_val" where
  "no_priority_value0 desc = max_priority_value0 (\<not> desc)"

text \<open>Half of an extreme value: the exponent is one less, the rest of the pattern is the same.\<close>

definition initial_priority_value0 :: "bool \<Rightarrow> float_val" where
  "initial_priority_value0 desc = (if desc then 0x7FDFFFFFFFFFFFFF else 0xFFDFFFFFFFFFFFFF)"

lemma double_limits [simp]:
  "\<not> float_is_nan double_max" "\<not> float_is_nan double_lowest"
  "float_key double_max = 0x7FEFFFFFFFFFFFFF" "float_key double_lowest = - 0x7FEFFFFFFFFFFFFF"
  by (simp_all add: double_max_def double_lowest_def float_is_nan_def float_key_def float_mag_def)

text \<open>The only values beyond the two limits are the infinities.\<close>

lemma float_key_bounds:
  "\<not> float_is_nan a \<Longrightarrow> \<bar>float_key a\<bar> \<le> 0x7FF0000000000000"
  by (auto simp: float_is_nan_def float_key_def)

lemma max_priority_top:
  assumes "\<not> float_is_nan a" "\<bar>float_key a\<bar> < 0x7FF0000000000000"
  shows "\<not> higher_priority desc a (max_priority_value0 desc)
    \<and> \<not> higher_priority desc (no_priority_value0 desc) a"
  using assms by (auto simp: higher_priority_def max_priority_value0_def no_priority_value0_def float_lt_def)

end
