(* ===== verification/Heap_Pqueue.thy ===== *)
theory Heap_Pqueue
  imports Heap_Order Double_Queue Float_Val
begin

text \<open>
  The priority queue of nodes, \<^verbatim>\<open>queue/safe_complex_pqueue.hpp\<close>, built from the macros of
  \<^verbatim>\<open>queue/heap_implementation.hpp\<close>: a binary heap in a vector of node pointers, where each node
  records its position and its priority in the same two fields that link it into a double queue.
  An operation is what runs while the queue's mutex is held. Indices that the code keeps in an
  \<^verbatim>\<open>int\<close> with -1 for none are natural numbers in an option; the invariant bounds the heap so that
  none of them overflows.
\<close>

datatype heap_type = HEAP_ASC | HEAP_DESC

record complex_pqueue =
  pq_queue_number :: "32 word"
  pq_typ :: heap_type
  pq_heap :: "ptr_val list"

abbreviation node_priority :: "node_store \<Rightarrow> ptr_val \<Rightarrow> float_val" where
  "node_priority \<sigma> p \<equiv> i_prev (\<sigma> p)"

abbreviation node_pos :: "node_store \<Rightarrow> ptr_val \<Rightarrow> 64 word" where
  "node_pos \<sigma> p \<equiv> i_next (\<sigma> p)"

definition heap_compare :: "heap_type \<Rightarrow> float_val \<Rightarrow> float_val \<Rightarrow> bool" where
  "heap_compare typ v1 v2 = (if typ = HEAP_ASC then float_le v1 v2 else float_le v2 v1)"

definition heap_left :: "ptr_val list \<Rightarrow> nat \<Rightarrow> nat option" where
  "heap_left heap parent = (let i = 2 * parent + 1 in if i < length heap then Some i else None)"

definition heap_right :: "ptr_val list \<Rightarrow> nat \<Rightarrow> nat option" where
  "heap_right heap parent = (let i = 2 * parent + 2 in if i < length heap then Some i else None)"

definition heap_parent :: "nat \<Rightarrow> nat option" where
  "heap_parent child = (if child \<noteq> 0 then Some ((child - 1) div 2) else None)"

definition heap_set_index ::
  "nat \<Rightarrow> ptr_val \<Rightarrow> node_store \<Rightarrow> ptr_val list \<Rightarrow> node_store \<times> ptr_val list" where
  "heap_set_index idx obj \<sigma> heap = (n_set_next \<sigma> obj (of_nat idx), heap[idx := obj])"

lemma heap_set_index_length [simp]: "length (snd (heap_set_index i x \<sigma> h)) = length h"
  by (simp add: heap_set_index_def)

function heapifyup ::
  "heap_type \<Rightarrow> nat \<Rightarrow> bool \<Rightarrow> node_store \<Rightarrow> ptr_val list \<Rightarrow> bool \<times> node_store \<times> ptr_val list" where
  "heapifyup typ index moved \<sigma> heap =
     (case heap_parent index of
        None \<Rightarrow> (moved, \<sigma>, heap)
      | Some p \<Rightarrow>
          if \<not> heap_compare typ (node_priority \<sigma> (heap ! p)) (node_priority \<sigma> (heap ! index))
          then let obj = heap ! p;
                   (\<sigma>1, heap1) = heap_set_index p (heap ! index) \<sigma> heap;
                   (\<sigma>2, heap2) = heap_set_index index obj \<sigma>1 heap1
               in heapifyup typ p True \<sigma>2 heap2
          else (moved, \<sigma>, heap))"
  by pat_completeness auto
termination
  by (relation "measure (\<lambda>(typ, index, moved, \<sigma>, heap). index)")
     (auto simp: heap_parent_def split: if_splits)

function heapifydown ::
  "heap_type \<Rightarrow> nat \<Rightarrow> node_store \<Rightarrow> ptr_val list \<Rightarrow> node_store \<times> ptr_val list" where
  "heapifydown typ index \<sigma> heap =
     (let prio = (\<lambda>i. node_priority \<sigma> (heap ! i)) in
      case heap_left heap index of
        None \<Rightarrow> (\<sigma>, heap)
      | Some l \<Rightarrow>
          (let r = heap_right heap index in
           if heap_compare typ (prio index) (prio l)
             \<and> (case r of Some r' \<Rightarrow> heap_compare typ (prio index) (prio r') | None \<Rightarrow> True)
           then (\<sigma>, heap)
           else let smaller = (case r of
                      Some r' \<Rightarrow> if heap_compare typ (prio r') (prio l) then r' else l
                    | None \<Rightarrow> l);
                    obj = heap ! index;
                    (\<sigma>1, heap1) = heap_set_index index (heap ! smaller) \<sigma> heap;
                    (\<sigma>2, heap2) = heap_set_index smaller obj \<sigma>1 heap1
                in heapifydown typ smaller \<sigma>2 heap2))"
  by pat_completeness auto
termination
  by (relation "measure (\<lambda>(typ, index, \<sigma>, heap). length heap - index)")
     (auto simp: heap_left_def heap_right_def heap_set_index_def Let_def split: if_splits option.splits)

declare heapifyup.simps [simp del] heapifydown.simps [simp del]

definition pq_empty :: "complex_pqueue \<Rightarrow> bool" where
  "pq_empty q \<longleftrightarrow> pq_heap q = []"

definition pq_size :: "complex_pqueue \<Rightarrow> nat" where
  "pq_size q = length (pq_heap q)"

definition pq_in_queue :: "node_store \<Rightarrow> complex_pqueue \<Rightarrow> ptr_val \<Rightarrow> bool" where
  "pq_in_queue \<sigma> q obj \<longleftrightarrow> i_queue (\<sigma> obj) = pq_queue_number q"

definition pq_do_insert ::
  "ptr_val \<Rightarrow> float_val \<Rightarrow> node_store \<Rightarrow> complex_pqueue \<Rightarrow> node_store \<times> complex_pqueue" where
  "pq_do_insert node prio \<sigma> q =
     (let \<sigma>1 = n_set_queue (n_set_prev \<sigma> node prio) node (pq_queue_number q);
          heap = pq_heap q @ [node];
          \<sigma>2 = n_set_next \<sigma>1 node (of_nat (length heap - 1));
          (moved, \<sigma>3, heap3) = heapifyup (pq_typ q) (length heap - 1) False \<sigma>2 heap
      in (\<sigma>3, q\<lparr>pq_heap := heap3\<rparr>))"

definition pq_do_pop ::
  "32 word \<Rightarrow> node_store \<Rightarrow> complex_pqueue \<Rightarrow> ptr_val \<times> node_store \<times> complex_pqueue" where
  "pq_do_pop new_state \<sigma> q =
     (if pq_empty q then (0, \<sigma>, q)
      else let min = hd (pq_heap q);
               (\<sigma>1, heap1) =
                 (if length (pq_heap q) > 1
                  then let heap = (pq_heap q)[0 := last (pq_heap q)];
                           \<sigma>' = n_set_next \<sigma> (heap ! 0) 0
                       in heapifydown (pq_typ q) 0 \<sigma>' (butlast heap)
                  else (\<sigma>, butlast (pq_heap q)))
           in (min, n_set_queue \<sigma>1 min new_state, q\<lparr>pq_heap := heap1\<rparr>))"

definition pq_do_remove ::
  "ptr_val \<Rightarrow> 32 word \<Rightarrow> node_store \<Rightarrow> complex_pqueue \<Rightarrow> node_store \<times> complex_pqueue" where
  "pq_do_remove obj new_state \<sigma> q =
     (let index = unat (node_pos \<sigma> obj); tmp = last (pq_heap q); heap = butlast (pq_heap q);
          \<sigma>1 = n_set_queue \<sigma> obj new_state
      in if heap \<noteq> [] \<and> index \<noteq> length heap
         then let (\<sigma>2, heap2) = heap_set_index index tmp \<sigma>1 heap;
                  (\<sigma>3, heap3) =
                    (case heap_parent index of
                       Some p \<Rightarrow>
                         if heap_compare (pq_typ q) (node_priority \<sigma>2 tmp) (node_priority \<sigma>2 (heap2 ! p))
                         then snd (heapifyup (pq_typ q) index False \<sigma>2 heap2)
                         else heapifydown (pq_typ q) index \<sigma>2 heap2
                     | None \<Rightarrow> heapifydown (pq_typ q) index \<sigma>2 heap2)
              in (\<sigma>3, q\<lparr>pq_heap := heap3\<rparr>)
         else (\<sigma>1, q\<lparr>pq_heap := heap\<rparr>))"

definition pq_remove ::
  "ptr_val \<Rightarrow> 32 word \<Rightarrow> node_store \<Rightarrow> complex_pqueue \<Rightarrow> bool \<times> node_store \<times> complex_pqueue" where
  "pq_remove obj new_state \<sigma> q =
     (if pq_empty q then (False, \<sigma>, q)
      else if i_queue (\<sigma> obj) \<noteq> pq_queue_number q then (False, \<sigma>, q)
      else (True, pq_do_remove obj new_state \<sigma> q))"

text \<open>\<^verbatim>\<open>min_value\<close>: the priority at the front, 0.0 of an empty queue.\<close>

definition pq_min_value :: "node_store \<Rightarrow> complex_pqueue \<Rightarrow> float_val" where
  "pq_min_value \<sigma> q = (if pq_empty q then 0 else node_priority \<sigma> (hd (pq_heap q)))"

definition pq_start_initial_insert :: "nat \<Rightarrow> complex_pqueue \<Rightarrow> complex_pqueue" where
  "pq_start_initial_insert many q =
     (if many = 0 then q
      else q\<lparr>pq_heap := take many (pq_heap q) @ replicate (many - length (pq_heap q)) 0\<rparr>)"

definition pq_initial_fast_insert ::
  "ptr_val \<Rightarrow> float_val \<Rightarrow> nat \<Rightarrow> node_store \<Rightarrow> complex_pqueue \<Rightarrow> node_store \<times> complex_pqueue" where
  "pq_initial_fast_insert node prio i \<sigma> q =
     (let \<sigma>1 = n_set_queue (n_set_prev \<sigma> node prio) node (pq_queue_number q)
      in (n_set_next \<sigma>1 node (of_nat i), q\<lparr>pq_heap := (pq_heap q)[i := node]\<rparr>))"

definition pq_pop_best ::
  "32 word \<Rightarrow> node_store \<Rightarrow> complex_pqueue \<Rightarrow> complex_pqueue
    \<Rightarrow> ptr_val \<times> node_store \<times> complex_pqueue \<times> complex_pqueue" where
  "pq_pop_best new_state \<sigma> q other =
     (let own = (case pq_do_pop new_state \<sigma> q of (r, \<sigma>', q') \<Rightarrow> (r, \<sigma>', q', other));
          from_other = (case pq_do_pop new_state \<sigma> other of (r, \<sigma>', o') \<Rightarrow> (r, \<sigma>', q, o'))
      in if pq_empty q then (if pq_empty other then (0, \<sigma>, q, other) else from_other)
         else if pq_empty other then own
         else if heap_compare (pq_typ q) (node_priority \<sigma> (hd (pq_heap q)))
                (node_priority \<sigma> (hd (pq_heap other)))
         then own else from_other)"

definition pq_do_move_node ::
  "ptr_val \<Rightarrow> float_val \<Rightarrow> node_store \<Rightarrow> complex_pqueue \<Rightarrow> node_store \<times> complex_pqueue" where
  "pq_do_move_node node new_prio \<sigma> q =
     (if pq_empty q then (\<sigma>, q)
      else if i_queue (\<sigma> node) \<noteq> pq_queue_number q then (\<sigma>, q)
      else let pos = unat (node_pos \<sigma> node); old_prio = node_priority \<sigma> node;
               \<sigma>1 = n_set_prev \<sigma> node new_prio;
               (\<sigma>2, heap2) =
                 (if heap_compare (pq_typ q) new_prio old_prio
                  then snd (heapifyup (pq_typ q) pos False \<sigma>1 (pq_heap q))
                  else heapifydown (pq_typ q) pos \<sigma>1 (pq_heap q))
           in (\<sigma>2, q\<lparr>pq_heap := heap2\<rparr>))"

text \<open>
  \<^verbatim>\<open>do_pop_half\<close>: the inner loop takes \<open>n\<close> nodes of one level of the tree starting at index \<open>i + j\<close>,
  the outer one goes down the levels. The flag says that \<open>half\<close> nodes were taken.
\<close>

fun pop_half_level ::
  "nat \<Rightarrow> nat \<Rightarrow> nat \<Rightarrow> nat \<Rightarrow> 32 word \<Rightarrow> ptr_val list \<Rightarrow> node_store \<Rightarrow> complex_pqueue
    \<Rightarrow> bool \<times> ptr_val list \<times> node_store \<times> complex_pqueue" where
  "pop_half_level 0 j i half new_state buf \<sigma> q = (False, buf, \<sigma>, q)"
| "pop_half_level (Suc n) j i half new_state buf \<sigma> q =
     (let idx = min (length (pq_heap q) - 1) (i + j);
          obj = pq_heap q ! idx;
          (\<sigma>1, q1) = pq_do_remove obj new_state \<sigma> q;
          buf1 = buf @ [obj]
      in if length buf1 = half then (True, buf1, \<sigma>1, q1)
         else pop_half_level n (Suc j) i half new_state buf1 \<sigma>1 q1)"

partial_function (option) pop_half_levels ::
  "nat \<Rightarrow> nat \<Rightarrow> nat \<Rightarrow> 32 word \<Rightarrow> ptr_val list \<Rightarrow> node_store \<Rightarrow> complex_pqueue
    \<Rightarrow> (ptr_val list \<times> node_store \<times> complex_pqueue) option" where
  "pop_half_levels i level half new_state buf \<sigma> q =
     (if i < length (pq_heap q)
      then case pop_half_level (level div 2) 0 i half new_state buf \<sigma> q of
             (full, buf1, \<sigma>1, q1) \<Rightarrow>
               if full then Some (buf1, \<sigma>1, q1)
               else pop_half_levels (i + level) (2 * level) half new_state buf1 \<sigma>1 q1
      else Some (buf, \<sigma>, q))"

definition pq_do_pop_half ::
  "nat \<Rightarrow> 32 word \<Rightarrow> node_store \<Rightarrow> complex_pqueue
    \<Rightarrow> (ptr_val list \<times> node_store \<times> complex_pqueue) option" where
  "pq_do_pop_half mx new_state \<sigma> q =
     (let half = min mx (length (pq_heap q) div 2) in
      if half = 0 then Some ([], \<sigma>, q)
      else pop_half_levels 1 2 half new_state [] \<sigma> q)"

declare pop_half_levels.simps [code]

subsection \<open>Refinement of the loops\<close>

definition key_le :: "heap_type \<Rightarrow> node_store \<Rightarrow> ptr_val \<Rightarrow> ptr_val \<Rightarrow> bool" where
  "key_le typ \<sigma> a b = heap_compare typ (node_priority \<sigma> a) (node_priority \<sigma> b)"

text \<open>Every node of the heap knows its position.\<close>

definition pos_ok :: "node_store \<Rightarrow> ptr_val list \<Rightarrow> bool" where
  "pos_ok \<sigma> heap \<longleftrightarrow> distinct heap \<and> length heap < 2 ^ 30
     \<and> (\<forall>i < length heap. node_pos \<sigma> (heap ! i) = of_nat i)"

text \<open>The loops move nodes: they write positions and nothing else.\<close>

definition moved_only :: "ptr_val set \<Rightarrow> node_store \<Rightarrow> node_store \<Rightarrow> bool" where
  "moved_only S \<sigma> \<sigma>' \<longleftrightarrow> (\<forall>p. i_prev (\<sigma>' p) = i_prev (\<sigma> p) \<and> i_queue (\<sigma>' p) = i_queue (\<sigma> p)
     \<and> i_extra_id (\<sigma>' p) = i_extra_id (\<sigma> p) \<and> (p \<notin> S \<longrightarrow> \<sigma>' p = \<sigma> p))"

lemma moved_only_refl [simp]: "moved_only S \<sigma> \<sigma>"
  by (simp add: moved_only_def)

lemma moved_only_trans: "moved_only S \<sigma> \<sigma>1 \<Longrightarrow> moved_only S \<sigma>1 \<sigma>2 \<Longrightarrow> moved_only S \<sigma> \<sigma>2"
  by (simp add: moved_only_def)

lemma moved_only_key_le: "moved_only S \<sigma> \<sigma>' \<Longrightarrow> key_le typ \<sigma>' = key_le typ \<sigma>"
  by (auto simp: moved_only_def key_le_def fun_eq_iff)

lemma moved_only_set_next: "p \<in> S \<Longrightarrow> moved_only S \<sigma> (n_set_next \<sigma> p v)"
  by (auto simp: moved_only_def n_set_next_def)

lemma swap_step:
  assumes "pos_ok \<sigma> heap" "i < length heap" "j < length heap" "i \<noteq> j"
    "heap_set_index i (heap ! j) \<sigma> heap = (\<sigma>1, heap1)"
    "heap_set_index j (heap ! i) \<sigma>1 heap1 = (\<sigma>2, heap2)"
  shows "heap2 = swap_at i j heap" "pos_ok \<sigma>2 heap2" "moved_only (set heap) \<sigma> \<sigma>2"
proof -
  show h: "heap2 = swap_at i j heap" using assms(5,6) by (auto simp: heap_set_index_def swap_at_def)
  have \<sigma>: "\<sigma>2 = n_set_next (n_set_next \<sigma> (heap ! j) (of_nat i)) (heap ! i) (of_nat j)"
    using assms(5,6) by (auto simp: heap_set_index_def)
  have d: "distinct heap2"
    using assms(1-3) h by (metis distinct_card card_distinct pos_ok_def swap_at_length swap_at_set)
  have "node_pos \<sigma>2 (heap2 ! k) = of_nat k" if "k < length heap" for k
  proof -
    have e: "heap ! k = heap ! i \<longleftrightarrow> k = i" "heap ! k = heap ! j \<longleftrightarrow> k = j" "heap ! i \<noteq> heap ! j"
      using assms(1-4) that by (simp_all add: pos_ok_def nth_eq_iff_index_eq)
    show ?thesis
      using assms(1-4) that e by (auto simp: h \<sigma> swap_at_nth n_set_next_def pos_ok_def)
  qed
  with assms(1) d show "pos_ok \<sigma>2 heap2" by (simp add: pos_ok_def h)
  show "moved_only (set heap) \<sigma> \<sigma>2"
    unfolding \<sigma> using assms(2,3) by (meson moved_only_set_next moved_only_trans nth_mem)
qed

lemma heapifyup_refines:
  assumes "index < length heap" "pos_ok \<sigma> heap"
    "heapifyup typ index moved \<sigma> heap = (m, \<sigma>', heap')"
  shows "heap' = sift_up (key_le typ \<sigma>) heap index \<and> pos_ok \<sigma>' heap' \<and> moved_only (set heap) \<sigma> \<sigma>'"
  using assms
proof (induction index arbitrary: heap \<sigma> moved rule: less_induct)
  case (less index)
  show ?case
  proof (cases "index > 0 \<and> \<not> key_le typ \<sigma> (heap ! ((index - 1) div 2)) (heap ! index)")
    case False
    then show ?thesis
      using less.prems
      by (cases "index = 0"; subst sift_up.simps; subst (asm) heapifyup.simps)
         (auto simp: heap_parent_def key_le_def)
  next
    case True
    define p where "p = (index - 1) div 2"
    have p: "p < index" using True by (auto simp: p_def)
    obtain \<sigma>1 h1 where s1: "heap_set_index p (heap ! index) \<sigma> heap = (\<sigma>1, h1)" by fastforce
    obtain \<sigma>2 h2 where s2: "heap_set_index index (heap ! p) \<sigma>1 h1 = (\<sigma>2, h2)" by fastforce
    note st = swap_step [OF less.prems(2) _ less.prems(1) _ s1 s2]
    have st: "h2 = swap_at p index heap" "pos_ok \<sigma>2 h2" "moved_only (set heap) \<sigma> \<sigma>2"
      using st p less.prems(1) by simp_all
    have r: "heapifyup typ p True \<sigma>2 h2 = (m, \<sigma>', heap')"
      using less.prems(3) True
      by (subst (asm) heapifyup.simps)
         (use s1 s2 in \<open>simp add: heap_parent_def key_le_def p_def\<close>)
    have "set h2 = set heap" using st(1) p less.prems(1) by simp
    moreover have "heap' = sift_up (key_le typ \<sigma>2) h2 p \<and> pos_ok \<sigma>' heap' \<and> moved_only (set h2) \<sigma>2 \<sigma>'"
      using less.IH [OF p _ st(2) r] p less.prems(1) st(1) by auto
    moreover have "sift_up (key_le typ \<sigma>) heap index = sift_up (key_le typ \<sigma>) h2 p"
      using True by (subst sift_up.simps) (simp add: st(1) p_def)
    ultimately show ?thesis
      using moved_only_key_le [OF st(3)] moved_only_trans [OF st(3)] by auto
  qed
qed

lemma heapifydown_refines:
  assumes "index < length heap" "pos_ok \<sigma> heap" "heapifydown typ index \<sigma> heap = (\<sigma>', heap')"
  shows "heap' = sift_down (key_le typ \<sigma>) heap index \<and> pos_ok \<sigma>' heap' \<and> moved_only (set heap) \<sigma> \<sigma>'"
  using assms
proof (induction "length heap - index" arbitrary: heap \<sigma> index rule: less_induct)
  case less
  let ?l = "2 * index + 1" and ?r = "2 * index + 2" and ?le = "key_le typ \<sigma>"
  show ?case
  proof (cases "?l \<ge> length heap \<or> ?le (heap ! index) (heap ! ?l)
      \<and> (?r < length heap \<longrightarrow> ?le (heap ! index) (heap ! ?r))")
    case True
    then show ?thesis
      using less.prems
      by (subst sift_down.simps, subst (asm) heapifydown.simps)
         (auto simp: heap_left_def heap_right_def key_le_def Let_def split: if_splits)
  next
    case False
    define s where "s = (if ?r < length heap \<and> ?le (heap ! ?r) (heap ! ?l) then ?r else ?l)"
    have s: "index < s" "s < length heap" using False by (auto simp: s_def)
    obtain \<sigma>1 h1 where s1: "heap_set_index index (heap ! s) \<sigma> heap = (\<sigma>1, h1)" by fastforce
    obtain \<sigma>2 h2 where s2: "heap_set_index s (heap ! index) \<sigma>1 h1 = (\<sigma>2, h2)" by fastforce
    note st = swap_step [OF less.prems(2,1) s(2) _ s1 s2]
    have st: "h2 = swap_at index s heap" "pos_ok \<sigma>2 h2" "moved_only (set heap) \<sigma> \<sigma>2"
      using st s by simp_all
    have r: "heapifydown typ s \<sigma>2 h2 = (\<sigma>', heap')"
    proof -
      have "(case heap_right heap index of
          Some r' \<Rightarrow> if ?le (heap ! r') (heap ! ?l) then r' else ?l | None \<Rightarrow> ?l) = s"
        by (auto simp: s_def heap_right_def)
      with less.prems(3) False show ?thesis
        by (subst (asm) heapifydown.simps)
           (auto simp: heap_left_def heap_right_def Let_def s1 s2 simp flip: key_le_def split: if_splits)
    qed
    have "set h2 = set heap" "length h2 - s < length heap - index"
      using st(1) s less.prems(1) by auto
    moreover from this have "heap' = sift_down (key_le typ \<sigma>2) h2 s \<and> pos_ok \<sigma>' heap' \<and> moved_only (set h2) \<sigma>2 \<sigma>'"
      using less.hyps [OF _ _ st(2) r] s st(1) by auto
    moreover have "sift_down ?le heap index = sift_down ?le h2 s"
      using False by (subst sift_down.simps) (auto simp: st(1) s_def Let_def)
    ultimately show ?thesis
      using moved_only_key_le [OF st(3)] moved_only_trans [OF st(3)] by auto
  qed
qed

subsection \<open>The queue invariant\<close>

text \<open>The priorities of a heap are ordered by the heap's comparison as long as none is NaN.\<close>

definition valid_nodes :: "node_store \<Rightarrow> ptr_val set" where
  "valid_nodes \<sigma> = {p. \<not> float_is_nan (node_priority \<sigma> p)}"

interpretation hp: heap_order "key_le ty \<sigma>" "valid_nodes \<sigma>" for ty \<sigma>
  by unfold_locales
    (auto simp: key_le_def heap_compare_def valid_nodes_def dest: float_le_total float_le_trans)

definition pq_inv :: "node_store \<Rightarrow> complex_pqueue \<Rightarrow> bool" where
  "pq_inv \<sigma> q \<longleftrightarrow> pos_ok \<sigma> (pq_heap q) \<and> set (pq_heap q) \<subseteq> valid_nodes \<sigma> \<and> 0 \<notin> set (pq_heap q)
     \<and> (\<forall>p\<in>set (pq_heap q). i_queue (\<sigma> p) = pq_queue_number q)
     \<and> heap_ordered (key_le (pq_typ q) \<sigma>) (pq_heap q)"

lemma pq_invD:
  assumes "pq_inv \<sigma> q"
  shows "pos_ok \<sigma> (pq_heap q)" "set (pq_heap q) \<subseteq> valid_nodes \<sigma>" "0 \<notin> set (pq_heap q)"
    "\<forall>p\<in>set (pq_heap q). i_queue (\<sigma> p) = pq_queue_number q"
    "heap_ordered (key_le (pq_typ q) \<sigma>) (pq_heap q)"
    "distinct (pq_heap q)" "length (pq_heap q) < 2 ^ 30"
  using assms by (simp_all add: pq_inv_def pos_ok_def)

lemma valid_nodes_moved: "moved_only S \<sigma> \<sigma>' \<Longrightarrow> valid_nodes \<sigma>' = valid_nodes \<sigma>"
  by (simp add: moved_only_def valid_nodes_def)

text \<open>
  What both loops establish from a heap that is broken at one position: \<open>heap\<close> is the vector
  before the loop, \<open>\<sigma>1\<close> the store.
\<close>

lemma sift_inv:
  assumes "pos_ok \<sigma>1 heap" "set heap \<subseteq> valid_nodes \<sigma>1" "0 \<notin> set heap"
    "\<forall>p\<in>set heap. i_queue (\<sigma>1 p) = pq_queue_number q" "i < length heap"
    "heap_but_up (key_le (pq_typ q) \<sigma>1) heap i \<and> (\<exists>m. heapifyup (pq_typ q) i b \<sigma>1 heap = (m, \<sigma>', heap'))
     \<or> heap_but_down (key_le (pq_typ q) \<sigma>1) heap i \<and> heapifydown (pq_typ q) i \<sigma>1 heap = (\<sigma>', heap')"
  shows "pq_inv \<sigma>' (q\<lparr>pq_heap := heap'\<rparr>)" "mset heap' = mset heap" "moved_only (set heap) \<sigma>1 \<sigma>'"
proof -
  have r: "pos_ok \<sigma>' heap' \<and> mset heap' = mset heap \<and> moved_only (set heap) \<sigma>1 \<sigma>'
      \<and> heap_ordered (key_le (pq_typ q) \<sigma>1) heap'"
    using assms(6)
  proof (elim disjE conjE exE)
    fix m assume b: "heap_but_up (key_le (pq_typ q) \<sigma>1) heap i"
      "heapifyup (pq_typ q) i b \<sigma>1 heap = (m, \<sigma>', heap')"
    show ?thesis
      using heapifyup_refines [OF assms(5,1) b(2)] hp.sift_up_heap [OF assms(5,2) b(1)]
        sift_up_mset [OF assms(5)] by auto
  next
    assume b: "heap_but_down (key_le (pq_typ q) \<sigma>1) heap i" "heapifydown (pq_typ q) i \<sigma>1 heap = (\<sigma>', heap')"
    show ?thesis
      using heapifydown_refines [OF assms(5,1) b(2)] hp.sift_down_heap [OF assms(5,2) b(1)]
        sift_down_mset [OF assms(5)] by auto
  qed
  then have st: "set heap' = set heap" by (metis set_mset_mset)
  have eq: "key_le (pq_typ q) \<sigma>' = key_le (pq_typ q) \<sigma>1" "valid_nodes \<sigma>' = valid_nodes \<sigma>1"
      "\<forall>p. i_queue (\<sigma>' p) = i_queue (\<sigma>1 p)"
    using r moved_only_key_le valid_nodes_moved by (blast, blast, simp add: moved_only_def)
  from r st eq assms(2-4) show "pq_inv \<sigma>' (q\<lparr>pq_heap := heap'\<rparr>)" "mset heap' = mset heap" "moved_only (set heap) \<sigma>1 \<sigma>'"
    by (auto simp: pq_inv_def)
qed

lemma pos_ok_append:
  assumes "pos_ok \<sigma> heap" "n \<notin> set heap" "length heap < 2 ^ 30 - 1"
  shows "pos_ok (n_set_next \<sigma> n (of_nat (length heap))) (heap @ [n])"
  using assms by (auto simp: pos_ok_def nth_append n_set_next_def less_Suc_eq)

lemma do_insert_spec:
  assumes "pq_inv \<sigma> q" "n \<noteq> 0" "n \<notin> set (pq_heap q)" "\<not> float_is_nan prio"
    "length (pq_heap q) < 2 ^ 30 - 1" "pq_do_insert n prio \<sigma> q = (\<sigma>', q')"
  shows "pq_inv \<sigma>' q'" "mset (pq_heap q') = add_mset n (mset (pq_heap q))"
    "node_priority \<sigma>' n = prio" "\<forall>p. p \<noteq> n \<longrightarrow> node_priority \<sigma>' p = node_priority \<sigma> p"
    "\<forall>p. p \<notin> insert n (set (pq_heap q)) \<longrightarrow> \<sigma>' p = \<sigma> p" "pq_queue_number q' = pq_queue_number q"
    "pq_typ q' = pq_typ q"
proof -
  note inv = pq_invD [OF assms(1)]
  let ?\<sigma>0 = "n_set_queue (n_set_prev \<sigma> n prio) n (pq_queue_number q)"
  let ?\<sigma>1 = "n_set_next ?\<sigma>0 n (of_nat (length (pq_heap q)))"
  let ?h = "pq_heap q @ [n]"
  obtain m \<sigma>3 h3 where u: "heapifyup (pq_typ q) (length (pq_heap q)) False ?\<sigma>1 ?h = (m, \<sigma>3, h3)"
    using prod_cases3 by blast
  have r: "\<sigma>' = \<sigma>3" "q' = q\<lparr>pq_heap := h3\<rparr>" using assms(6) u by (auto simp: pq_do_insert_def)
  have out: "p \<noteq> n \<Longrightarrow> ?\<sigma>1 p = \<sigma> p" for p by (simp add: n_store_frame)
  have self: "i_prev (?\<sigma>1 n) = prio" "i_queue (?\<sigma>1 n) = pq_queue_number q"
    by (simp_all add: n_set_next_def n_set_queue_def n_set_prev_def)
  have "pos_ok ?\<sigma>0 (pq_heap q)"
    using inv(1) assms(3) unfolding pos_ok_def by (auto simp: n_store_frame in_set_conv_nth)
  then have 1: "pos_ok ?\<sigma>1 ?h" using pos_ok_append assms(3,5) by blast
  have 2: "set ?h \<subseteq> valid_nodes ?\<sigma>1"
  proof
    fix p assume "p \<in> set ?h"
    then show "p \<in> valid_nodes ?\<sigma>1"
      using inv(2) assms(4) self(1) out [of p] by (cases "p = n") (auto simp: valid_nodes_def)
  qed
  have 3: "\<forall>p\<in>set ?h. i_queue (?\<sigma>1 p) = pq_queue_number q"
  proof
    fix p assume "p \<in> set ?h"
    then show "i_queue (?\<sigma>1 p) = pq_queue_number q"
      using inv(4) self(2) out [of p] by (cases "p = n") auto
  qed
  have "key_le (pq_typ q) ?\<sigma>1 a b = key_le (pq_typ q) \<sigma> a b" if "a \<in> set (pq_heap q)" "b \<in> set (pq_heap q)" for a b
  proof -
    have "a \<noteq> n" "b \<noteq> n" using that assms(3) by auto
    then show ?thesis using out by (simp add: key_le_def)
  qed
  then have "heap_ordered (key_le (pq_typ q) ?\<sigma>1) (pq_heap q)"
    using inv(5) unfolding heap_ordered_def by auto
  then have 4: "heap_but_up (key_le (pq_typ q) ?\<sigma>1) ?h (length (pq_heap q))" by (rule hp.heap_append_last)
  have 5: "0 \<notin> set ?h" using inv(3) assms(2) by simp
  note s = sift_inv [OF 1 2 5 3, of "length (pq_heap q)" False \<sigma>3 h3]
  have s: "pq_inv \<sigma>3 (q\<lparr>pq_heap := h3\<rparr>)" "mset h3 = mset ?h" "moved_only (set ?h) ?\<sigma>1 \<sigma>3"
    using s 4 u by auto
  then show "pq_inv \<sigma>' q'" "mset (pq_heap q') = add_mset n (mset (pq_heap q))" "node_priority \<sigma>' n = prio"
    "\<forall>p. p \<noteq> n \<longrightarrow> node_priority \<sigma>' p = node_priority \<sigma> p"
    "\<forall>p. p \<notin> insert n (set (pq_heap q)) \<longrightarrow> \<sigma>' p = \<sigma> p" "pq_queue_number q' = pq_queue_number q"
    "pq_typ q' = pq_typ q"
    using out self unfolding r moved_only_def by auto
qed

text \<open>
  Pop and remove put the last node of the vector in the place of the one that leaves; \<open>\<sigma>1\<close> is the
  store after the new position and queue mark are written.
\<close>

lemma replace_last:
  assumes "pq_inv \<sigma> q" "pq_heap q = xs @ [x]" "i < length xs"
    "\<forall>p. i_prev (\<sigma>1 p) = i_prev (\<sigma> p)"
    "\<forall>p. p \<noteq> x \<longrightarrow> i_next (\<sigma>1 p) = i_next (\<sigma> p)" "i_next (\<sigma>1 x) = of_nat i"
    "\<forall>p. p \<noteq> xs ! i \<longrightarrow> i_queue (\<sigma>1 p) = i_queue (\<sigma> p)"
  shows "pos_ok \<sigma>1 (xs[i := x])" "set (xs[i := x]) \<subseteq> valid_nodes \<sigma>1" "0 \<notin> set (xs[i := x])"
    "\<forall>p\<in>set (xs[i := x]). i_queue (\<sigma>1 p) = pq_queue_number q"
    "key_le (pq_typ q) \<sigma>1 = key_le (pq_typ q) \<sigma>"
    "add_mset (xs ! i) (mset (xs[i := x])) = mset (pq_heap q)"
proof -
  note inv = pq_invD [OF assms(1)]
  have d: "distinct xs" "x \<notin> set xs" using inv(6) assms(2) by auto
  have m: "add_mset (xs ! i) (mset (xs[i := x])) = mset (pq_heap q)"
    using assms(2,3) by (simp add: mset_update)
  have s: "set (xs[i := x]) \<subseteq> set (pq_heap q)"
    using assms(2) by (auto dest: set_update_subset_insert [THEN subsetD])
  have ni: "xs ! i \<notin> set (xs[i := x])"
    using d assms(3) by (metis distinct_list_update in_set_conv_nth length_list_update
        nth_eq_iff_index_eq nth_list_update nth_mem)
  show "add_mset (xs ! i) (mset (xs[i := x])) = mset (pq_heap q)" by (rule m)
  show "set (xs[i := x]) \<subseteq> valid_nodes \<sigma>1" "0 \<notin> set (xs[i := x])"
    using s inv(2,3) assms(4) by (auto simp: valid_nodes_def)
  show "\<forall>p\<in>set (xs[i := x]). i_queue (\<sigma>1 p) = pq_queue_number q" using s inv(4) ni assms(7) by (metis subsetD)
  show "key_le (pq_typ q) \<sigma>1 = key_le (pq_typ q) \<sigma>" using assms(4) by (simp add: key_le_def fun_eq_iff)
  have "i_next (\<sigma>1 (xs[i := x] ! k)) = of_nat k" if "k < length xs" for k
  proof (cases "k = i")
    case False
    with that d have "xs ! k \<noteq> x" by (metis nth_mem)
    then show ?thesis
      using that False inv(1) assms(2,5) by (auto simp: pos_ok_def nth_append dest: spec [of _ k])
  qed (use assms(3,6) in simp)
  moreover have "distinct (xs[i := x])" using d by (simp add: distinct_list_update)
  ultimately show "pos_ok \<sigma>1 (xs[i := x])" using inv(7) assms(2) by (simp add: pos_ok_def)
qed

lemma pq_inv_set_queue:
  assumes "pq_inv \<sigma> q" "p \<notin> set (pq_heap q)"
  shows "pq_inv (n_set_queue \<sigma> p s) q"
proof -
  have "key_le ty (n_set_queue \<sigma> p s) = key_le ty \<sigma>" for ty
    by (auto simp: key_le_def n_set_queue_def fun_eq_iff)
  moreover have "pos_ok (n_set_queue \<sigma> p s) (pq_heap q)" "valid_nodes (n_set_queue \<sigma> p s) = valid_nodes \<sigma>"
    using pq_invD(1) [OF assms(1)] by (auto simp: pos_ok_def n_set_queue_def valid_nodes_def)
  ultimately show ?thesis
    using assms by (auto simp: pq_inv_def n_set_queue_def)
qed

lemma do_pop_spec:
  assumes "pq_inv \<sigma> q" "pq_heap q \<noteq> []" "pq_do_pop s \<sigma> q = (r, \<sigma>', q')"
  shows "r = hd (pq_heap q)" "pq_inv \<sigma>' q'" "add_mset r (mset (pq_heap q')) = mset (pq_heap q)"
    "\<forall>p\<in>set (pq_heap q). key_le (pq_typ q) \<sigma> r p" "i_queue (\<sigma>' r) = s"
    "\<forall>p. node_priority \<sigma>' p = node_priority \<sigma> p" "\<forall>p. p \<notin> set (pq_heap q) \<longrightarrow> \<sigma>' p = \<sigma> p"
    "pq_queue_number q' = pq_queue_number q" "pq_typ q' = pq_typ q"
proof -
  note inv = pq_invD [OF assms(1)]
  show r: "r = hd (pq_heap q)" using assms(2,3) by (auto simp: pq_do_pop_def pq_empty_def Let_def split: prod.splits)
  then have r0: "r = pq_heap q ! 0" using assms(2) by (simp add: hd_conv_nth)
  show "\<forall>p\<in>set (pq_heap q). key_le (pq_typ q) \<sigma> r p"
    unfolding r0 using hp.heap_first_least [OF inv(5,2)] by blast
  obtain xs x where h: "pq_heap q = xs @ [x]" using assms(2) by (meson rev_exhaust)
  have "pq_inv \<sigma>' q' \<and> add_mset r (mset (pq_heap q')) = mset (pq_heap q) \<and> i_queue (\<sigma>' r) = s
    \<and> (\<forall>p. node_priority \<sigma>' p = node_priority \<sigma> p) \<and> (\<forall>p. p \<notin> set (pq_heap q) \<longrightarrow> \<sigma>' p = \<sigma> p)
    \<and> pq_queue_number q' = pq_queue_number q \<and> pq_typ q' = pq_typ q"
  proof (cases "xs = []")
    case True
    then have e: "\<sigma>' = n_set_queue \<sigma> r s" "q' = q\<lparr>pq_heap := []\<rparr>" "r = x"
      using assms(3) h r by (auto simp: pq_do_pop_def pq_empty_def)
    show ?thesis unfolding e
      using True h by (auto simp: n_set_queue_def pq_inv_def pos_ok_def heap_ordered_def)
  next
    case False
    then have i: "0 < length xs" by simp
    let ?\<sigma>1 = "n_set_next \<sigma> x 0"
    have rx: "r = xs ! 0" using r0 h i by (simp add: nth_append)
    obtain \<sigma>2 h2 where d: "heapifydown (pq_typ q) 0 ?\<sigma>1 (xs[0 := x]) = (\<sigma>2, h2)" by fastforce
    have e: "\<sigma>' = n_set_queue \<sigma>2 r s" "q' = q\<lparr>pq_heap := h2\<rparr>"
      using assms(3) d h i r
      by (auto simp: pq_do_pop_def pq_empty_def nth_append butlast_append list_update_append Let_def split: prod.splits)
    have c: "\<forall>p. i_prev (?\<sigma>1 p) = i_prev (\<sigma> p)" "\<forall>p. p \<noteq> x \<longrightarrow> i_next (?\<sigma>1 p) = i_next (\<sigma> p)"
      "i_next (?\<sigma>1 x) = of_nat 0" "\<forall>p. p \<noteq> xs ! 0 \<longrightarrow> i_queue (?\<sigma>1 p) = i_queue (\<sigma> p)"
      by (simp_all add: n_set_next_def)
    note rl = replace_last [OF assms(1) h i c]
    have bd: "heap_but_down (key_le (pq_typ q) ?\<sigma>1) (xs[0 := x]) 0"
      unfolding rl(5) using hp.heap_replace(2) [OF _ i] inv(5) h by auto
    note sf = sift_inv [OF rl(1-4), of 0 False \<sigma>2 h2]
    have sf: "pq_inv \<sigma>2 (q\<lparr>pq_heap := h2\<rparr>)" "mset h2 = mset (xs[0 := x])" "moved_only (set (xs[0 := x])) ?\<sigma>1 \<sigma>2"
      using sf bd d i by auto
    have dist: "r \<notin> set h2" "set h2 \<subseteq> set (pq_heap q)"
    proof -
      have "mset (pq_heap q) = add_mset r (mset h2)" using rl(6) sf(2) rx by simp
      then show "set h2 \<subseteq> set (pq_heap q)" by (metis set_mset_add_mset_insert set_mset_mset subset_insertI)
      have "count (mset (pq_heap q)) r \<le> 1" using inv(6) by (simp add: distinct_count_atmost_1)
      with \<open>mset (pq_heap q) = _\<close> have "count (mset h2) r = 0" by simp
      then show "r \<notin> set h2" by (simp add: count_eq_zero_iff)
    qed
    have "pq_inv \<sigma>' q'" using pq_inv_set_queue [OF sf(1), of r s] dist(1) by (simp add: e)
    moreover have "\<sigma>' p = \<sigma> p" if "p \<notin> set (pq_heap q)" for p
    proof -
      have "p \<noteq> r" "p \<noteq> x" "p \<notin> set (xs[0 := x])"
        using that r hd_in_set [OF assms(2)] h dist(2) mset_eq_setD [OF sf(2)] by auto
      then show ?thesis using sf(3) by (simp add: e moved_only_def n_store_frame)
    qed
    moreover have "node_priority \<sigma>' p = node_priority \<sigma> p" for p
      using sf(3) c(1) by (simp add: e moved_only_def n_set_queue_def)
    moreover have "add_mset r (mset h2) = mset (pq_heap q)" using rl(6) sf(2) rx by simp
    ultimately show ?thesis by (simp add: e n_set_queue_def)
  qed
  then show "pq_inv \<sigma>' q'" "add_mset r (mset (pq_heap q')) = mset (pq_heap q)" "i_queue (\<sigma>' r) = s"
    "\<forall>p. node_priority \<sigma>' p = node_priority \<sigma> p" "\<forall>p. p \<notin> set (pq_heap q) \<longrightarrow> \<sigma>' p = \<sigma> p"
    "pq_queue_number q' = pq_queue_number q" "pq_typ q' = pq_typ q" by auto
qed

lemma pos_lookup:
  assumes "pq_inv \<sigma> q" "obj \<in> set (pq_heap q)"
  obtains i where "i < length (pq_heap q)" "pq_heap q ! i = obj" "unat (node_pos \<sigma> obj) = i"
proof -
  from assms(2) obtain i where i: "i < length (pq_heap q)" "pq_heap q ! i = obj" by (auto simp: in_set_conv_nth)
  then have "node_pos \<sigma> obj = of_nat i" "i < 2 ^ 30" using pq_invD(1,7) [OF assms(1)] by (auto simp: pos_ok_def)
  then have "unat (node_pos \<sigma> obj) = i" by (simp add: unat_of_nat take_bit_nat_eq_self_iff)
  with i that show ?thesis by blast
qed

lemma pq_inv_drop_last:
  assumes "pq_inv \<sigma> q" "pq_heap q = xs @ [x]"
  shows "pq_inv (n_set_queue \<sigma> x s) (q\<lparr>pq_heap := xs\<rparr>)"
proof -
  note inv = pq_invD [OF assms(1)]
  have "heap_ordered (key_le (pq_typ q) \<sigma>) xs"
    unfolding heap_ordered_def
  proof (intro allI impI)
    fix j assume j: "j < length xs" "j > 0"
    then have "(j - 1) div 2 < length xs" by linarith
    with inv(5) j show "key_le (pq_typ q) \<sigma> (xs ! ((j - 1) div 2)) (xs ! j)"
      unfolding heap_ordered_def assms(2) by (auto simp: nth_append dest: spec [of _ j])
  qed
  moreover have "pos_ok \<sigma> xs"
    using inv(1) unfolding pos_ok_def assms(2) by (auto simp: nth_append dest: less_SucI split: if_splits)
  ultimately have "pq_inv \<sigma> (q\<lparr>pq_heap := xs\<rparr>)" using inv by (auto simp: pq_inv_def assms(2))
  moreover have "x \<notin> set xs" using inv(6) assms(2) by simp
  ultimately show ?thesis using pq_inv_set_queue by fastforce
qed

lemma do_remove_spec:
  assumes "pq_inv \<sigma> q" "obj \<in> set (pq_heap q)" "pq_do_remove obj s \<sigma> q = (\<sigma>', q')"
  shows "pq_inv \<sigma>' q' \<and> add_mset obj (mset (pq_heap q')) = mset (pq_heap q) \<and> i_queue (\<sigma>' obj) = s
    \<and> (\<forall>p. node_priority \<sigma>' p = node_priority \<sigma> p) \<and> (\<forall>p. p \<notin> set (pq_heap q) \<longrightarrow> \<sigma>' p = \<sigma> p)
    \<and> pq_queue_number q' = pq_queue_number q \<and> pq_typ q' = pq_typ q"
proof -
  note inv = pq_invD [OF assms(1)]
  obtain i where i: "i < length (pq_heap q)" "pq_heap q ! i = obj" "unat (node_pos \<sigma> obj) = i"
    using pos_lookup [OF assms(1,2)] .
  obtain xs x where h: "pq_heap q = xs @ [x]" using assms(2) by (metis empty_iff list.set(1) rev_exhaust)
  show ?thesis
  proof (cases "i = length xs")
    case True
    then have "obj = x" using i h by (simp add: nth_append)
    moreover have e: "\<sigma>' = n_set_queue \<sigma> obj s" "q' = q\<lparr>pq_heap := xs\<rparr>"
      using assms(3) True i(3) h by (auto simp: pq_do_remove_def Let_def)
    ultimately show ?thesis
      using pq_inv_drop_last [OF assms(1) h] h by (auto simp: n_set_queue_def)
  next
    case False
    then have il: "i < length xs" and o: "obj = xs ! i" using i h by (auto simp: nth_append)
    define \<sigma>1 where "\<sigma>1 = n_set_next (n_set_queue \<sigma> obj s) x (of_nat i)"
    have ox: "obj \<noteq> x" "obj \<in> set xs" using inv(6) h il o by auto
    have c: "\<forall>p. i_prev (\<sigma>1 p) = i_prev (\<sigma> p)" "\<forall>p. p \<noteq> x \<longrightarrow> i_next (\<sigma>1 p) = i_next (\<sigma> p)"
      "i_next (\<sigma>1 x) = of_nat i" "\<forall>p. p \<noteq> xs ! i \<longrightarrow> i_queue (\<sigma>1 p) = i_queue (\<sigma> p)"
      by (simp_all add: \<sigma>1_def n_set_next_def n_set_queue_def flip: o)
    note rl = replace_last [OF assms(1) h il c]
    let ?le = "key_le (pq_typ q) \<sigma>1"
    define par where "par = (i - 1) div 2"
    have ord: "heap_ordered ?le (xs @ [x])" using inv(5) h rl(5) by simp
    note rep = hp.heap_replace [OF ord il, folded par_def]
    have hpar: "heap_parent i = (if i > 0 then Some par else None)" by (simp add: heap_parent_def par_def)
    have par: "par < length xs" "par \<noteq> i" if "i > 0" using that il by (auto simp: par_def)
    have val: "x \<in> valid_nodes \<sigma>1" "k < length xs \<Longrightarrow> xs ! k \<in> valid_nodes \<sigma>1" for k
      using inv(2) h c(1) by (auto simp: valid_nodes_def subset_iff)
    obtain \<sigma>3 h3 where e: "\<sigma>' = \<sigma>3" "q' = q\<lparr>pq_heap := h3\<rparr>" and
      step: "heap_but_up ?le (xs[i := x]) i \<and> (\<exists>m. heapifyup (pq_typ q) i False \<sigma>1 (xs[i := x]) = (m, \<sigma>3, h3))
       \<or> heap_but_down ?le (xs[i := x]) i \<and> heapifydown (pq_typ q) i \<sigma>1 (xs[i := x]) = (\<sigma>3, h3)"
    proof (cases "i > 0 \<and> ?le x (xs ! par)")
      case True
      obtain m \<sigma>3 h3 where u: "heapifyup (pq_typ q) i False \<sigma>1 (xs[i := x]) = (m, \<sigma>3, h3)"
        using prod_cases3 by blast
      have "pq_do_remove obj s \<sigma> q = (\<sigma>3, q\<lparr>pq_heap := h3\<rparr>)"
        using True u h il par False
        by (auto simp: pq_do_remove_def heap_set_index_def hpar key_le_def i(3) Let_def simp flip: \<sigma>1_def)
      with that u rep(1) True assms(3) show ?thesis by auto
    next
      case nup: False
      obtain \<sigma>3 h3 where u: "heapifydown (pq_typ q) i \<sigma>1 (xs[i := x]) = (\<sigma>3, h3)" by fastforce
      have "pq_do_remove obj s \<sigma> q = (\<sigma>3, q\<lparr>pq_heap := h3\<rparr>)"
        using nup u h il par False
        by (auto simp: pq_do_remove_def heap_set_index_def hpar key_le_def i(3) Let_def simp flip: \<sigma>1_def)
      moreover have "i = 0 \<or> ?le (xs ! par) x"
        using nup val par(1) hp.total [of x \<sigma>1 "xs ! par" "pq_typ q"] by auto
      ultimately show ?thesis using that u rep(2) assms(3) by auto
    qed
    note sf = sift_inv [OF rl(1-4) _ step]
    have sf: "pq_inv \<sigma>3 (q\<lparr>pq_heap := h3\<rparr>)" "mset h3 = mset (xs[i := x])" "moved_only (set (xs[i := x])) \<sigma>1 \<sigma>3"
      using sf il by auto
    have m: "add_mset obj (mset h3) = mset (pq_heap q)" using rl(6) sf(2) o by simp
    have "set (xs[i := x]) \<subseteq> set (pq_heap q)"
      using h by (auto dest: set_update_subset_insert [THEN subsetD])
    then have "\<sigma>' p = \<sigma> p" if "p \<notin> set (pq_heap q)" for p
      using that sf(3) assms(2) h unfolding e moved_only_def
      by (auto simp: \<sigma>1_def n_set_next_def n_set_queue_def)
    moreover have "i_queue (\<sigma>' obj) = s"
      using sf(3) ox by (simp add: e moved_only_def \<sigma>1_def n_set_next_def n_set_queue_def)
    moreover have "node_priority \<sigma>' p = node_priority \<sigma> p" for p
      using sf(3) c(1) by (simp add: e moved_only_def)
    ultimately show ?thesis using sf(1) m by (simp add: e)
  qed
qed

lemma do_move_node_spec:
  assumes "pq_inv \<sigma> q" "n \<in> set (pq_heap q)" "\<not> float_is_nan prio" "pq_do_move_node n prio \<sigma> q = (\<sigma>', q')"
  shows "pq_inv \<sigma>' q' \<and> mset (pq_heap q') = mset (pq_heap q) \<and> node_priority \<sigma>' n = prio
    \<and> (\<forall>p. p \<noteq> n \<longrightarrow> node_priority \<sigma>' p = node_priority \<sigma> p)
    \<and> (\<forall>p. p \<notin> set (pq_heap q) \<longrightarrow> \<sigma>' p = \<sigma> p)
    \<and> pq_queue_number q' = pq_queue_number q \<and> pq_typ q' = pq_typ q"
proof -
  note inv = pq_invD [OF assms(1)]
  let ?h = "pq_heap q" and ?t = "pq_typ q"
  obtain i where i: "i < length ?h" "?h ! i = n" "unat (node_pos \<sigma> n) = i"
    using pos_lookup [OF assms(1,2)] .
  define \<sigma>1 where "\<sigma>1 = n_set_prev \<sigma> n prio"
  have f: "i_next (\<sigma>1 p) = i_next (\<sigma> p)" "i_queue (\<sigma>1 p) = i_queue (\<sigma> p)"
    "node_priority \<sigma>1 p = (if p = n then prio else node_priority \<sigma> p)" for p
    by (simp_all add: \<sigma>1_def n_set_prev_def)
  have pre: "pos_ok \<sigma>1 ?h" "set ?h \<subseteq> valid_nodes \<sigma>1" "0 \<notin> set ?h"
      "\<forall>p\<in>set ?h. i_queue (\<sigma>1 p) = pq_queue_number q"
    using inv assms(3) by (auto simp: pos_ok_def valid_nodes_def f)
  have keep: "key_le ?t \<sigma> a b \<Longrightarrow> key_le ?t \<sigma>1 a b" if "a \<noteq> ?h ! i" "b \<noteq> ?h ! i" for a b
    using that i(2) by (simp add: key_le_def f)
  note rk = heap_rekey [OF inv(5) i(1) inv(6) keep hp.trans]
  have nn: "\<not> float_is_nan (node_priority \<sigma> n)" using inv(2) assms(2) by (auto simp: valid_nodes_def)
  obtain \<sigma>2 h2 where e: "\<sigma>' = \<sigma>2" "q' = q\<lparr>pq_heap := h2\<rparr>" and
    step: "heap_but_up (key_le ?t \<sigma>1) ?h i \<and> (\<exists>m. heapifyup ?t i False \<sigma>1 ?h = (m, \<sigma>2, h2))
       \<or> heap_but_down (key_le ?t \<sigma>1) ?h i \<and> heapifydown ?t i \<sigma>1 ?h = (\<sigma>2, h2)"
  proof (cases "heap_compare ?t prio (node_priority \<sigma> n)")
    case True
    obtain m \<sigma>2 h2 where u: "heapifyup ?t i False \<sigma>1 ?h = (m, \<sigma>2, h2)" using prod_cases3 by blast
    have "pq_do_move_node n prio \<sigma> q = (\<sigma>2, q\<lparr>pq_heap := h2\<rparr>)"
      using True u i inv(4) assms(2)
      by (auto simp: pq_do_move_node_def pq_empty_def Let_def simp flip: \<sigma>1_def)
    moreover have "heap_but_up (key_le ?t \<sigma>1) ?h i"
      using True i(2) by (intro rk(1))
        (auto simp: key_le_def f heap_compare_def split: if_splits dest: float_le_trans)
    ultimately show ?thesis using that u assms(4) by auto
  next
    case False
    obtain \<sigma>2 h2 where u: "heapifydown ?t i \<sigma>1 ?h = (\<sigma>2, h2)" by fastforce
    have "pq_do_move_node n prio \<sigma> q = (\<sigma>2, q\<lparr>pq_heap := h2\<rparr>)"
      using False u i inv(4) assms(2)
      by (auto simp: pq_do_move_node_def pq_empty_def Let_def simp flip: \<sigma>1_def)
    moreover have "heap_compare ?t (node_priority \<sigma> n) prio"
      using False nn assms(3) float_le_total by (auto simp: heap_compare_def split: if_splits)
    then have "heap_but_down (key_le ?t \<sigma>1) ?h i"
      using i(2) by (intro rk(2))
        (auto simp: key_le_def f heap_compare_def split: if_splits dest: float_le_trans)
    ultimately show ?thesis using that u assms(4) by auto
  qed
  note sf = sift_inv [OF pre i(1) step]
  have "\<sigma>' p = \<sigma> p" if "p \<notin> set ?h" for p
    using that sf(3) assms(2) unfolding e moved_only_def by (auto simp: \<sigma>1_def n_set_prev_def)
  with sf show ?thesis by (auto simp: e moved_only_def f)
qed

subsection \<open>Taking half of the heap\<close>

text \<open>What holds between two removals of \<^verbatim>\<open>do_pop_half\<close>, from the state \<open>\<sigma>0\<close>, \<open>q0\<close> it started in.\<close>

definition half_inv ::
  "node_store \<Rightarrow> complex_pqueue \<Rightarrow> 32 word \<Rightarrow> ptr_val list \<Rightarrow> node_store \<Rightarrow> complex_pqueue \<Rightarrow> bool" where
  "half_inv \<sigma>0 q0 s buf \<sigma> q \<longleftrightarrow> pq_inv \<sigma> q \<and> mset buf + mset (pq_heap q) = mset (pq_heap q0)
     \<and> (\<forall>p\<in>set buf. i_queue (\<sigma> p) = s) \<and> (\<forall>p. node_priority \<sigma> p = node_priority \<sigma>0 p)
     \<and> (\<forall>p. p \<notin> set (pq_heap q0) \<longrightarrow> \<sigma> p = \<sigma>0 p)
     \<and> pq_queue_number q = pq_queue_number q0 \<and> pq_typ q = pq_typ q0"

lemma half_inv_step:
  assumes "half_inv \<sigma>0 q0 s buf \<sigma> q" "distinct (pq_heap q0)" "obj \<in> set (pq_heap q)"
    "pq_do_remove obj s \<sigma> q = (\<sigma>', q')"
  shows "half_inv \<sigma>0 q0 s (buf @ [obj]) \<sigma>' q'" "length (pq_heap q) = Suc (length (pq_heap q'))"
proof -
  have inv: "pq_inv \<sigma> q" and m: "mset buf + mset (pq_heap q) = mset (pq_heap q0)"
    using assms(1) by (auto simp: half_inv_def)
  note r = do_remove_spec [OF inv assms(3,4)]
  from r have c: "mset (pq_heap q) = add_mset obj (mset (pq_heap q'))" by simp
  then show "length (pq_heap q) = Suc (length (pq_heap q'))" by (metis size_add_mset size_mset)
  have "mset (buf @ pq_heap q) = mset (pq_heap q0)" using m by simp
  then have d: "distinct (buf @ pq_heap q)" "set buf \<union> set (pq_heap q) = set (pq_heap q0)"
    using assms(2) by (metis mset_eq_imp_distinct_iff, metis mset_eq_setD set_append)
  then have "i_queue (\<sigma>' p) = s" if "p \<in> set buf" for p
    using that r assms(1) by (auto simp: half_inv_def)
  moreover have "mset (buf @ [obj]) + mset (pq_heap q') = mset (pq_heap q0)" using c m by simp
  moreover have "\<sigma>' p = \<sigma>0 p" if "p \<notin> set (pq_heap q0)" for p
    using that d(2) r assms(1) by (auto simp: half_inv_def)
  ultimately show "half_inv \<sigma>0 q0 s (buf @ [obj]) \<sigma>' q'"
    using r assms(1) unfolding half_inv_def by simp
qed

lemma pop_half_level_spec:
  assumes "half_inv \<sigma>0 q0 s buf \<sigma> q" "distinct (pq_heap q0)" "2 * half \<le> length (pq_heap q0)"
    "length buf < half" "pop_half_level n j i half s buf \<sigma> q = (full, buf', \<sigma>', q')"
  shows "half_inv \<sigma>0 q0 s buf' \<sigma>' q' \<and> length buf' \<le> half \<and> (\<not> full \<longrightarrow> length buf' = length buf + n \<and> length buf' < half)
    \<and> (full \<longrightarrow> length buf' = half)"
  using assms(1,4,5)
proof (induction n arbitrary: j buf \<sigma> q)
  case (Suc n)
  let ?idx = "min (length (pq_heap q) - 1) (i + j)" and ?b = "buf @ [pq_heap q ! min (length (pq_heap q) - 1) (i + j)]"
  have "mset (buf @ pq_heap q) = mset (pq_heap q0)" using Suc.prems(1) by (simp add: half_inv_def)
  then have "length buf + length (pq_heap q) = length (pq_heap q0)" by (metis length_append mset_eq_length)
  with Suc.prems(2) assms(3) have "?idx < length (pq_heap q)" by linarith
  then have obj: "pq_heap q ! ?idx \<in> set (pq_heap q)" by simp
  obtain \<sigma>1 q1 where r: "pq_do_remove (pq_heap q ! ?idx) s \<sigma> q = (\<sigma>1, q1)" by fastforce
  note st = half_inv_step [OF Suc.prems(1) assms(2) obj r]
  show ?case
  proof (cases "length ?b = half")
    case True
    then show ?thesis using Suc.prems(3) r st by (auto simp: Let_def)
  next
    case False
    then have "length ?b < half" using Suc.prems(2) by simp
    moreover have "pop_half_level n (Suc j) i half s ?b \<sigma>1 q1 = (full, buf', \<sigma>', q')"
      using Suc.prems(3) r False by (simp add: Let_def)
    ultimately show ?thesis using Suc.IH [OF st(1)] by auto
  qed
qed auto

lemma pop_half_levels_spec:
  assumes "half_inv \<sigma>0 q0 s buf \<sigma> q" "distinct (pq_heap q0)" "2 * half \<le> length (pq_heap q0)"
    "length buf < half" "2 \<le> level"
  shows "\<exists>buf' \<sigma>' q'. pop_half_levels i level half s buf \<sigma> q = Some (buf', \<sigma>', q')
    \<and> half_inv \<sigma>0 q0 s buf' \<sigma>' q' \<and> length buf' \<le> half \<and> (buf \<noteq> [] \<or> i < length (pq_heap q) \<longrightarrow> buf' \<noteq> [])"
  using assms(1,4,5)
proof (induction "length (pq_heap q0) - i" arbitrary: i level buf \<sigma> q rule: less_induct)
  case less
  show ?case
  proof (cases "i < length (pq_heap q)")
    case False
    with less.prems show ?thesis by (subst pop_half_levels.simps) auto
  next
    case True
    obtain full b1 \<sigma>1 q1 where l: "pop_half_level (level div 2) 0 i half s buf \<sigma> q = (full, b1, \<sigma>1, q1)"
      using prod_cases4 by blast
    note sp = pop_half_level_spec [OF less.prems(1) assms(2,3) less.prems(2) l]
    show ?thesis
    proof (cases full)
      case True
      with sp l \<open>i < _\<close> less.prems(2) show ?thesis by (subst pop_half_levels.simps) auto
    next
      case False
      with sp have s1: "half_inv \<sigma>0 q0 s b1 \<sigma>1 q1" "length b1 < half" "b1 \<noteq> []"
        using less.prems(3) by auto
      have eq: "pop_half_levels i level half s buf \<sigma> q = pop_half_levels (i + level) (2 * level) half s b1 \<sigma>1 q1"
        using l True False by (subst pop_half_levels.simps) simp
      have "mset (pq_heap q0) = mset buf + mset (pq_heap q)" using less.prems(1) by (simp add: half_inv_def)
      then have "length (pq_heap q) \<le> length (pq_heap q0)" by (metis le_add2 size_mset size_union)
      with True less.prems(3) have "length (pq_heap q0) - (i + level) < length (pq_heap q0) - i" by linarith
      moreover have "2 \<le> 2 * level" using less.prems(3) by simp
      ultimately show ?thesis using less.hyps [of "i + level" b1 \<sigma>1 q1 "2 * level"] s1 eq by auto
    qed
  qed
qed

lemma do_pop_half_spec:
  assumes "pq_inv \<sigma> q"
  shows "\<exists>buf \<sigma>' q'. pq_do_pop_half mx s \<sigma> q = Some (buf, \<sigma>', q') \<and> half_inv \<sigma> q s buf \<sigma>' q'
    \<and> length buf \<le> min mx (length (pq_heap q) div 2)
    \<and> (0 < mx \<and> 2 \<le> length (pq_heap q) \<longrightarrow> buf \<noteq> [])"
proof -
  have st: "half_inv \<sigma> q s [] \<sigma> q" using assms by (simp add: half_inv_def)
  show ?thesis
  proof (cases "min mx (length (pq_heap q) div 2) = 0")
    case True
    with st show ?thesis by (auto simp: pq_do_pop_half_def min_def split: if_splits)
  next
    case False
    then have "2 * min mx (length (pq_heap q) div 2) \<le> length (pq_heap q)" "1 < length (pq_heap q)" by linarith+
    from pop_half_levels_spec [OF st pq_invD(6) [OF assms] this(1), of 2 1] this(2) False show ?thesis
      by (auto simp: pq_do_pop_half_def Let_def)
  qed
qed

subsection \<open>Properties\<close>

text \<open>
  C25. Insert, remove and change of priority keep the heap. On a queue that satisfies the
  invariant (heap order, every node records its own index, no NaN priority), each of
  \<^verbatim>\<open>do_insert\<close> of a fresh node, \<^verbatim>\<open>do_remove\<close> of a queued node from any position and
  \<^verbatim>\<open>do_move_node\<close> to any priority establishes the invariant again with exactly the intended
  nodes in the queue and the intended priorities, and leaves every node outside the queue alone.
\<close>

theorem pqueue_update_inv:
  assumes "pq_inv \<sigma> q" "x \<in> set (pq_heap q)" "n \<noteq> 0" "n \<notin> set (pq_heap q)" "\<not> float_is_nan prio"
    "length (pq_heap q) < 2 ^ 30 - 1"
  shows "(case pq_do_insert n prio \<sigma> q of (\<sigma>', q') \<Rightarrow>
        pq_inv \<sigma>' q' \<and> mset (pq_heap q') = add_mset n (mset (pq_heap q)) \<and> node_priority \<sigma>' n = prio
        \<and> (\<forall>p. p \<noteq> n \<longrightarrow> node_priority \<sigma>' p = node_priority \<sigma> p)
        \<and> (\<forall>p. p \<notin> insert n (set (pq_heap q)) \<longrightarrow> \<sigma>' p = \<sigma> p))
    \<and> (case pq_do_remove x s \<sigma> q of (\<sigma>', q') \<Rightarrow>
        pq_inv \<sigma>' q' \<and> add_mset x (mset (pq_heap q')) = mset (pq_heap q) \<and> i_queue (\<sigma>' x) = s
        \<and> (\<forall>p. node_priority \<sigma>' p = node_priority \<sigma> p)
        \<and> (\<forall>p. p \<notin> set (pq_heap q) \<longrightarrow> \<sigma>' p = \<sigma> p))
    \<and> (case pq_do_move_node x prio \<sigma> q of (\<sigma>', q') \<Rightarrow>
        pq_inv \<sigma>' q' \<and> mset (pq_heap q') = mset (pq_heap q) \<and> node_priority \<sigma>' x = prio
        \<and> (\<forall>p. p \<noteq> x \<longrightarrow> node_priority \<sigma>' p = node_priority \<sigma> p)
        \<and> (\<forall>p. p \<notin> set (pq_heap q) \<longrightarrow> \<sigma>' p = \<sigma> p))"
proof -
  obtain \<sigma>1 q1 where 1: "pq_do_insert n prio \<sigma> q = (\<sigma>1, q1)" by fastforce
  obtain \<sigma>2 q2 where 2: "pq_do_remove x s \<sigma> q = (\<sigma>2, q2)" by fastforce
  obtain \<sigma>3 q3 where 3: "pq_do_move_node x prio \<sigma> q = (\<sigma>3, q3)" by fastforce
  from do_insert_spec [OF assms(1,3-6) 1] do_remove_spec [OF assms(1,2) 2]
    do_move_node_spec [OF assms(1,2,5) 3]
  show ?thesis unfolding 1 2 3 by simp
qed

definition example_pqueue :: "node_store \<times> complex_pqueue" where
  "example_pqueue = pq_do_insert 16 0x4000000000000000 (\<lambda>_. \<lparr>i_next = 0, i_prev = 0, i_queue = - 1, i_extra_id = 0\<rparr>)
     \<lparr>pq_queue_number = 1, pq_typ = HEAP_ASC, pq_heap = []\<rparr>"

lemma example_pqueue_facts:
  "pq_inv (fst example_pqueue) (snd example_pqueue)" "pq_heap (snd example_pqueue) = [16]"
  "pq_typ (snd example_pqueue) = HEAP_ASC" "node_priority (fst example_pqueue) 16 = 0x4000000000000000"
  "pq_queue_number (snd example_pqueue) = 1"
proof -
  let ?\<sigma> = "\<lambda>_. \<lparr>i_next = 0, i_prev = 0, i_queue = - 1, i_extra_id = 0\<rparr>"
  let ?q = "\<lparr>pq_queue_number = 1, pq_typ = HEAP_ASC, pq_heap = []\<rparr>"
  have i: "pq_inv ?\<sigma> ?q" by (simp add: pq_inv_def pos_ok_def heap_ordered_def)
  have "\<not> float_is_nan 0x4000000000000000" by (simp add: float_is_nan_def float_mag_def)
  note s = do_insert_spec [OF i, of 16 _ "fst example_pqueue" "snd example_pqueue", OF _ _ this]
  from s show "pq_inv (fst example_pqueue) (snd example_pqueue)" "pq_heap (snd example_pqueue) = [16]"
    "pq_typ (snd example_pqueue) = HEAP_ASC" "node_priority (fst example_pqueue) 16 = 0x4000000000000000"
    "pq_queue_number (snd example_pqueue) = 1"
    by (auto simp: example_pqueue_def)
qed

theorem pqueue_update_inv_witness:
  "(case pq_do_insert 32 0x3FF0000000000000 (fst example_pqueue) (snd example_pqueue) of (\<sigma>', q') \<Rightarrow>
     pq_inv \<sigma>' q' \<and> mset (pq_heap q') = {#32, 16#} \<and> node_priority \<sigma>' 32 = 0x3FF0000000000000)"
proof -
  note e = example_pqueue_facts
  have "\<not> float_is_nan 0x3FF0000000000000" by (simp add: float_is_nan_def float_mag_def)
  from pqueue_update_inv [OF e(1), of 16 32, OF _ _ _ this] e(2) show ?thesis by (auto split: prod.splits)
qed

lemma pop_best_own:
  assumes "pq_inv \<sigma> q" "pq_inv \<sigma> other" "pq_typ other = pq_typ q"
    "set (pq_heap q) \<inter> set (pq_heap other) = {}" "pq_heap q \<noteq> []"
  shows "(case pq_do_pop s \<sigma> q of (r, \<sigma>', q') \<Rightarrow>
      pq_inv \<sigma>' q' \<and> add_mset r (mset (pq_heap q')) = mset (pq_heap q) \<and> i_queue (\<sigma>' r) = s
      \<and> (\<forall>p\<in>set (pq_heap q). heap_compare (pq_typ q) (node_priority \<sigma> r) (node_priority \<sigma> p)))
    \<and> (case pq_pop_best s \<sigma> q other of (r, \<sigma>', q', other') \<Rightarrow>
      add_mset r (mset (pq_heap q') + mset (pq_heap other')) = mset (pq_heap q) + mset (pq_heap other)
      \<and> i_queue (\<sigma>' r) = s
      \<and> (\<forall>p\<in>set (pq_heap q) \<union> set (pq_heap other).
          heap_compare (pq_typ q) (node_priority \<sigma> r) (node_priority \<sigma> p)))"
proof -
  let ?c = "\<lambda>a b. heap_compare (pq_typ q) (node_priority \<sigma> a) (node_priority \<sigma> b)"
  obtain r1 \<sigma>1 q1 where 1: "pq_do_pop s \<sigma> q = (r1, \<sigma>1, q1)" using prod_cases3 by blast
  obtain r2 \<sigma>2 q2 where 2: "pq_do_pop s \<sigma> other = (r2, \<sigma>2, q2)" using prod_cases3 by blast
  note p1 = do_pop_spec [OF assms(1,5) 1]
  have c1: "\<forall>p\<in>set (pq_heap q). ?c r1 p" using p1(4) by (simp add: key_le_def)
  have v: "p \<in> valid_nodes \<sigma>" if "p \<in> set (pq_heap q) \<union> set (pq_heap other)" for p
    using that pq_invD(2) [OF assms(1)] pq_invD(2) [OF assms(2)] by auto
  have "case pq_pop_best s \<sigma> q other of (r, \<sigma>', q', other') \<Rightarrow>
      add_mset r (mset (pq_heap q') + mset (pq_heap other')) = mset (pq_heap q) + mset (pq_heap other)
      \<and> i_queue (\<sigma>' r) = s \<and> (\<forall>p\<in>set (pq_heap q) \<union> set (pq_heap other). ?c r p)"
  proof (cases "pq_heap other = []")
    case True
    with assms(5) c1 p1(3,5) show ?thesis by (simp add: pq_pop_best_def pq_empty_def Let_def 1)
  next
    case False
    note p2 = do_pop_spec [OF assms(2) False 2]
    have c2: "\<forall>p\<in>set (pq_heap other). ?c r2 p" using p2(4) assms(3) by (simp add: key_le_def)
    have mem: "r1 \<in> valid_nodes \<sigma>" "r2 \<in> valid_nodes \<sigma>" using p1(1) p2(1) assms(5) False v by auto
    have tr: "?c a b \<Longrightarrow> ?c b d \<Longrightarrow> ?c a d" for a b d
      using hp.trans [of "pq_typ q" \<sigma> a b d] by (simp add: key_le_def)
    show ?thesis
    proof (cases "?c r1 r2")
      case True
      then have "\<forall>p\<in>set (pq_heap q) \<union> set (pq_heap other). ?c r1 p" using c1 c2 tr by blast
      with True p1(1,3,5) p2(1) assms(5) False show ?thesis
        by (simp add: pq_pop_best_def pq_empty_def Let_def 1)
    next
      case ncr: False
      then have "?c r2 r1" using hp.total [OF mem, of "pq_typ q"] by (simp add: key_le_def)
      then have "\<forall>p\<in>set (pq_heap q) \<union> set (pq_heap other). ?c r2 p" using c1 c2 tr by blast
      moreover have "add_mset r2 (mset (pq_heap q) + mset (pq_heap q2)) = mset (pq_heap q) + mset (pq_heap other)"
        using p2(3) by (metis union_mset_add_mset_right)
      ultimately show ?thesis
        using ncr p1(1) p2(1,5) assms(5) False
        by (simp add: pq_pop_best_def pq_empty_def Let_def 1 2)
    qed
  qed
  then show ?thesis using p1(2,3,5) c1 unfolding 1 by simp
qed

text \<open>
  C26. \<^verbatim>\<open>do_pop\<close> returns a node whose priority comes first among all queued nodes, ascending or
  descending by the type of the heap, takes exactly this node out, marks it with the new state
  and keeps the invariant; an empty queue answers \<^verbatim>\<open>nullptr\<close> and stays. \<^verbatim>\<open>pop_best\<close> on two queues of the same type with
  disjoint nodes takes out exactly one node that comes first among those of both, also when either of them is empty, and marks it; when both are empty it
  answers \<^verbatim>\<open>nullptr\<close> and changes nothing.
\<close>

theorem pqueue_pop_best_first:
  assumes "pq_inv \<sigma> q" "pq_inv \<sigma> other" "pq_typ other = pq_typ q"
    "set (pq_heap q) \<inter> set (pq_heap other) = {}"
  shows "(case pq_do_pop s \<sigma> q of (r, \<sigma>', q') \<Rightarrow>
      if pq_heap q = [] then r = 0 \<and> \<sigma>' = \<sigma> \<and> q' = q
      else pq_inv \<sigma>' q' \<and> add_mset r (mset (pq_heap q')) = mset (pq_heap q) \<and> i_queue (\<sigma>' r) = s
        \<and> (\<forall>p\<in>set (pq_heap q). heap_compare (pq_typ q) (node_priority \<sigma> r) (node_priority \<sigma> p)))
    \<and> (case pq_pop_best s \<sigma> q other of (r, \<sigma>', q', other') \<Rightarrow>
      if pq_heap q = [] \<and> pq_heap other = [] then r = 0 \<and> \<sigma>' = \<sigma> \<and> q' = q \<and> other' = other
      else add_mset r (mset (pq_heap q') + mset (pq_heap other')) = mset (pq_heap q) + mset (pq_heap other)
        \<and> i_queue (\<sigma>' r) = s
        \<and> (\<forall>p\<in>set (pq_heap q) \<union> set (pq_heap other).
            heap_compare (pq_typ q) (node_priority \<sigma> r) (node_priority \<sigma> p)))"
proof (cases "pq_heap q = []")
  case True
  obtain r \<sigma>' q' where e: "pq_do_pop s \<sigma> other = (r, \<sigma>', q')" using prod_cases3 by blast
  have "add_mset r (mset (pq_heap q')) = mset (pq_heap other) \<and> i_queue (\<sigma>' r) = s
      \<and> (\<forall>p\<in>set (pq_heap other). heap_compare (pq_typ q) (node_priority \<sigma> r) (node_priority \<sigma> p))" if "pq_heap other \<noteq> []"
    using pop_best_own [OF assms(2,1) assms(3) [symmetric] _ that, of s] True assms(3) by (simp add: e)
  moreover have "pq_do_pop s \<sigma> q = (0, \<sigma>, q)" using True by (simp add: pq_do_pop_def pq_empty_def)
  moreover have "pq_pop_best s \<sigma> q other = (if pq_heap other = [] then (0, \<sigma>, q, other) else (r, \<sigma>', q, q'))"
    using True by (simp add: pq_pop_best_def pq_empty_def e)
  ultimately show ?thesis using True by simp
next
  case False
  from pop_best_own [OF assms False, of s] False show ?thesis by (auto split: prod.splits)
qed

theorem pqueue_pop_best_first_witness:
  "(case pq_pop_best 7 (fst example_pqueue) ((snd example_pqueue)\<lparr>pq_heap := []\<rparr>) (snd example_pqueue) of (r, \<sigma>', q', other') \<Rightarrow>
     {#r#} + (mset (pq_heap q') + mset (pq_heap other')) = {#16#} \<and> i_queue (\<sigma>' r) = 7)"
proof -
  note e = example_pqueue_facts
  have "pq_inv (fst example_pqueue) ((snd example_pqueue)\<lparr>pq_heap := []\<rparr>)"
    by (simp add: pq_inv_def pos_ok_def heap_ordered_def)
  from pqueue_pop_best_first [OF this e(1), of 7] e(2) show ?thesis by (auto split: prod.splits if_splits)
qed

text \<open>
  C27. \<^verbatim>\<open>do_pop_half\<close> always returns. It takes at most the requested number of nodes and at most half
  of the queue, at least one when that is possible, each node once, marks exactly the taken
  nodes with the thief's state, and what stays behind is again a heap with its priorities.
\<close>

theorem pqueue_pop_half:
  assumes "pq_inv \<sigma> q"
  shows "\<exists>buf \<sigma>' q'. pq_do_pop_half mx s \<sigma> q = Some (buf, \<sigma>', q') \<and> pq_inv \<sigma>' q'
    \<and> mset buf + mset (pq_heap q') = mset (pq_heap q)
    \<and> length buf \<le> min mx (length (pq_heap q) div 2)
    \<and> (0 < mx \<and> 2 \<le> length (pq_heap q) \<longrightarrow> buf \<noteq> [])
    \<and> (\<forall>p\<in>set buf. i_queue (\<sigma>' p) = s)
    \<and> (\<forall>p. node_priority \<sigma>' p = node_priority \<sigma> p)"
  using do_pop_half_spec [OF assms, of mx s] by (auto simp: half_inv_def)

theorem pqueue_pop_half_witness:
  "\<exists>buf \<sigma>' q'. pq_do_pop_half 10 7 (fst example_pqueue) (snd example_pqueue) = Some (buf, \<sigma>', q')
    \<and> length buf \<le> 0 \<and> mset (pq_heap q') = {#16#}"
  using pqueue_pop_half [OF example_pqueue_facts(1), of 10 7] example_pqueue_facts(2) by auto

end
