(* ===== verification/Priority_Queue.thy ===== *)
theory Priority_Queue
  imports Heap_Pqueue
begin

text \<open>
  The thread's queue of nodes with a priority, \<^verbatim>\<open>thread/priority_queue.hpp\<close>: a heap of bounded size
  and four double queues that hold the nodes beyond it. A node's own priority
  (\<^verbatim>\<open>db::node::get_priority\<close>) is read through the parameter \<open>get_priority\<close>; the two computations on
  doubles, \<^verbatim>\<open>max_prio / 2\<close> and the bucket \<^verbatim>\<open>(size_t)(4.0 * (prio / max_prio))\<close>, are the parameters
  \<open>half\<close> and \<open>bucket\<close>.
\<close>

abbreviation MAX_NODES_IN_HEAP :: nat where
  "MAX_NODES_IN_HEAP \<equiv> 50000"

abbreviation NUMBER_OF_EXTRA_QUEUES :: nat where
  "NUMBER_OF_EXTRA_QUEUES \<equiv> 4"

record priority_queue =
  prq_main_heap :: complex_pqueue
  prq_total_size :: nat
  prq_has_extra :: bool
  prq_max_prio :: float_val
  prq_extra :: "double_queue list"

definition check_prio :: "float_val \<Rightarrow> priority_queue \<Rightarrow> priority_queue" where
  "check_prio new_prio q = (if float_lt (prq_max_prio q) new_prio then q\<lparr>prq_max_prio := new_prio\<rparr> else q)"

text \<open>The inner loop over extra queue \<open>i\<close>; the flag tells that the heap filled up.\<close>

partial_function (option) drain_extra ::
  "(ptr_val \<Rightarrow> float_val) \<Rightarrow> nat \<Rightarrow> node_store \<Rightarrow> priority_queue
    \<Rightarrow> (bool \<times> node_store \<times> priority_queue) option" where
  "drain_extra get_priority i \<sigma> q =
     (if dq_empty (prq_extra q ! i) then Some (False, \<sigma>, q)
      else case dq_do_pop_head (pq_queue_number (prq_main_heap q)) \<sigma> (prq_extra q ! i) of
        (n, \<sigma>1, d1) \<Rightarrow> case pq_do_insert n (get_priority n) \<sigma>1 (prq_main_heap q) of
        (\<sigma>2, h2) \<Rightarrow>
          let q2 = q\<lparr>prq_main_heap := h2, prq_extra := (prq_extra q)[i := d1]\<rparr>;
              \<sigma>3 = n_set_extra \<sigma>2 n 0
          in if pq_size h2 \<ge> MAX_NODES_IN_HEAP then Some (True, \<sigma>3, q2)
             else drain_extra get_priority i \<sigma>3 q2)"

declare drain_extra.simps [code]

fun drain_extras ::
  "(ptr_val \<Rightarrow> float_val) \<Rightarrow> nat list \<Rightarrow> node_store \<Rightarrow> priority_queue
    \<Rightarrow> (node_store \<times> priority_queue) option" where
  "drain_extras get_priority [] \<sigma> q = Some (\<sigma>, q\<lparr>prq_has_extra := False\<rparr>)"
| "drain_extras get_priority (i # is) \<sigma> q =
     (case drain_extra get_priority i \<sigma> q of
        None \<Rightarrow> None
      | Some (full, \<sigma>1, q1) \<Rightarrow>
          if full then Some (\<sigma>1, q1) else drain_extras get_priority is \<sigma>1 q1)"

definition move_from_extra_to_heap ::
  "(ptr_val \<Rightarrow> float_val) \<Rightarrow> node_store \<Rightarrow> priority_queue \<Rightarrow> (node_store \<times> priority_queue) option" where
  "move_from_extra_to_heap get_priority \<sigma> q =
     (if pq_size (prq_main_heap q) \<ge> MAX_NODES_IN_HEAP then Some (\<sigma>, q)
      else drain_extras get_priority [0..<NUMBER_OF_EXTRA_QUEUES] \<sigma> q)"

definition prq_empty :: "priority_queue \<Rightarrow> bool" where
  "prq_empty q \<longleftrightarrow> prq_total_size q = 0"

definition prq_min_value :: "node_store \<Rightarrow> priority_queue \<Rightarrow> float_val" where
  "prq_min_value \<sigma> q = pq_min_value \<sigma> (prq_main_heap q)"

definition prq_start_initial_insert :: "nat \<Rightarrow> priority_queue \<Rightarrow> priority_queue" where
  "prq_start_initial_insert many q =
     (let q1 = q\<lparr>prq_main_heap := pq_start_initial_insert (min many MAX_NODES_IN_HEAP) (prq_main_heap q)\<rparr>;
          q2 = (if many > MAX_NODES_IN_HEAP then q1\<lparr>prq_has_extra := True\<rparr> else q1)
      in q2\<lparr>prq_total_size := many\<rparr>)"

definition prq_initial_fast_insert ::
  "ptr_val \<Rightarrow> float_val \<Rightarrow> nat \<Rightarrow> node_store \<Rightarrow> priority_queue \<Rightarrow> node_store \<times> priority_queue" where
  "prq_initial_fast_insert node prio i \<sigma> q =
     (if i \<ge> MAX_NODES_IN_HEAP
      then (case push_tail_node node \<sigma> (prq_extra q ! 0) of (\<sigma>1, d1) \<Rightarrow>
              (n_set_extra \<sigma>1 node 1, q\<lparr>prq_extra := (prq_extra q)[0 := d1]\<rparr>))
      else (case pq_initial_fast_insert node prio i (n_set_extra \<sigma> node 0) (prq_main_heap q) of
              (\<sigma>1, h1) \<Rightarrow> (\<sigma>1, q\<lparr>prq_main_heap := h1\<rparr>)))"

definition prq_insert ::
  "(float_val \<Rightarrow> float_val) \<Rightarrow> (float_val \<Rightarrow> float_val \<Rightarrow> nat) \<Rightarrow> float_val \<Rightarrow>
   ptr_val \<Rightarrow> float_val \<Rightarrow> node_store \<Rightarrow> priority_queue \<Rightarrow> node_store \<times> priority_queue" where
  "prq_insert half bucket max_priority node prio \<sigma> q0 =
     (let q1 = check_prio prio q0;
          q = q1\<lparr>prq_total_size := prq_total_size q1 + 1\<rparr>;
          heap_size = pq_size (prq_main_heap q)
      in if float_eq prio max_priority \<or> heap_size < MAX_NODES_IN_HEAP div 2
            \<or> (heap_size < MAX_NODES_IN_HEAP \<and> float_lt prio (half (prq_max_prio q)))
         then (case pq_do_insert node prio (n_set_extra \<sigma> node 0) (prq_main_heap q) of
                 (\<sigma>1, h1) \<Rightarrow> (\<sigma>1, q\<lparr>prq_main_heap := h1\<rparr>))
         else let idx = min (NUMBER_OF_EXTRA_QUEUES - 1) (bucket prio (prq_max_prio q));
                  \<sigma>1 = n_set_queue (n_set_extra \<sigma> node (of_nat (idx + 1))) node queue_no_queue
              in case push_tail_node node \<sigma>1 (prq_extra q ! idx) of (\<sigma>2, d2) \<Rightarrow>
                   (\<sigma>2, q\<lparr>prq_extra := (prq_extra q)[idx := d2], prq_has_extra := True\<rparr>))"

definition should_move_from_extra :: "priority_queue \<Rightarrow> bool" where
  "should_move_from_extra q \<longleftrightarrow> pq_size (prq_main_heap q) < MAX_NODES_IN_HEAP div 8"

definition prq_refill ::
  "(ptr_val \<Rightarrow> float_val) \<Rightarrow> node_store \<Rightarrow> priority_queue \<Rightarrow> (node_store \<times> priority_queue) option" where
  "prq_refill get_priority \<sigma> q =
     (if prq_has_extra q \<and> should_move_from_extra q then move_from_extra_to_heap get_priority \<sigma> q
      else Some (\<sigma>, q))"

definition prq_do_pop ::
  "(ptr_val \<Rightarrow> float_val) \<Rightarrow> 32 word \<Rightarrow> node_store \<Rightarrow> priority_queue
    \<Rightarrow> (ptr_val \<times> node_store \<times> priority_queue) option" where
  "prq_do_pop get_priority new_state \<sigma> q =
     (case pq_do_pop new_state \<sigma> (prq_main_heap q) of
        (ret, \<sigma>1, h1) \<Rightarrow>
          map_option (\<lambda>(\<sigma>2, q2). (ret, \<sigma>2, q2))
            (prq_refill get_priority \<sigma>1
               (q\<lparr>prq_main_heap := h1, prq_total_size := size_sub (prq_total_size q) 1\<rparr>)))"

definition prq_pop ::
  "(ptr_val \<Rightarrow> float_val) \<Rightarrow> 32 word \<Rightarrow> node_store \<Rightarrow> priority_queue
    \<Rightarrow> (ptr_val \<times> node_store \<times> priority_queue) option" where
  "prq_pop get_priority new_state \<sigma> q =
     (if prq_empty q then Some (0, \<sigma>, q) else prq_do_pop get_priority new_state \<sigma> q)"

definition prq_remove ::
  "ptr_val \<Rightarrow> 32 word \<Rightarrow> node_store \<Rightarrow> priority_queue \<Rightarrow> bool \<times> node_store \<times> priority_queue" where
  "prq_remove node new_state \<sigma> q =
     (if prq_empty q then (False, \<sigma>, q)
      else if i_queue (\<sigma> node) \<noteq> pq_queue_number (prq_main_heap q) then (False, \<sigma>, q)
      else let id = unat (i_extra_id (\<sigma> node)) in
        if id = 0
        then if pq_empty (prq_main_heap q) then (False, \<sigma>, q)
             else (case pq_do_remove node new_state \<sigma> (prq_main_heap q) of (\<sigma>1, h1) \<Rightarrow>
                     (True, \<sigma>1, q\<lparr>prq_main_heap := h1, prq_total_size := size_sub (prq_total_size q) 1\<rparr>))
        else (case dq_do_remove node new_state \<sigma> (prq_extra q ! (id - 1)) of (b, \<sigma>1, d1) \<Rightarrow>
                (True, \<sigma>1, q\<lparr>prq_extra := (prq_extra q)[id - 1 := d1],
                              prq_total_size := size_sub (prq_total_size q) 1\<rparr>)))"

definition prq_pop_half ::
  "(ptr_val \<Rightarrow> float_val) \<Rightarrow> nat \<Rightarrow> 32 word \<Rightarrow> node_store \<Rightarrow> priority_queue
    \<Rightarrow> (ptr_val list \<times> node_store \<times> priority_queue) option" where
  "prq_pop_half get_priority mx new_state \<sigma> q =
     (case pq_do_pop_half mx new_state \<sigma> (prq_main_heap q) of
        None \<Rightarrow> None
      | Some (buf, \<sigma>1, h1) \<Rightarrow>
          map_option (\<lambda>(\<sigma>2, q2). (buf, \<sigma>2, q2))
            (prq_refill get_priority \<sigma>1
               (q\<lparr>prq_main_heap := h1, prq_total_size := size_sub (prq_total_size q) (length buf)\<rparr>)))"

text \<open>
  \<^verbatim>\<open>pop_best\<close> of two queues, returned in the order of the arguments. When the own queue is empty and
  the other is not, the code pops from the own queue.
\<close>

definition prq_pop_best ::
  "(ptr_val \<Rightarrow> float_val) \<Rightarrow> 32 word \<Rightarrow> node_store \<Rightarrow> priority_queue \<Rightarrow> priority_queue
    \<Rightarrow> (ptr_val \<times> node_store \<times> priority_queue \<times> priority_queue) option" where
  "prq_pop_best get_priority new_state \<sigma> q other =
     (let own = map_option (\<lambda>(r, \<sigma>', q'). (r, \<sigma>', q', other)) (prq_do_pop get_priority new_state \<sigma> q);
          from_other = map_option (\<lambda>(r, \<sigma>', o'). (r, \<sigma>', q, o')) (prq_do_pop get_priority new_state \<sigma> other)
      in if prq_empty q then (if prq_empty other then Some (0, \<sigma>, q, other) else own)
         else if prq_empty other then own
         else if heap_compare (pq_typ (prq_main_heap other)) (prq_min_value \<sigma> q) (prq_min_value \<sigma> other)
         then own else from_other)"

definition prq_move_node ::
  "(float_val \<Rightarrow> float_val) \<Rightarrow> ptr_val \<Rightarrow> float_val \<Rightarrow> node_store \<Rightarrow> priority_queue
    \<Rightarrow> node_store \<times> priority_queue" where
  "prq_move_node half node new_prio \<sigma> q =
     (if i_queue (\<sigma> node) \<noteq> pq_queue_number (prq_main_heap q) then (\<sigma>, q)
      else let id = unat (i_extra_id (\<sigma> node)); q1 = check_prio new_prio q in
        if id = 0
        then (case pq_do_move_node node new_prio \<sigma> (prq_main_heap q1) of (\<sigma>1, h1) \<Rightarrow>
                (\<sigma>1, q1\<lparr>prq_main_heap := h1\<rparr>))
        else if heap_compare (pq_typ (prq_main_heap q1)) new_prio (half (prq_max_prio q1))
                \<and> should_move_from_extra q1
        then (case dq_do_remove node (pq_queue_number (prq_main_heap q1)) \<sigma> (prq_extra q1 ! (id - 1)) of
                (b, \<sigma>1, d1) \<Rightarrow>
                case pq_do_insert node new_prio (n_set_extra \<sigma>1 node 0) (prq_main_heap q1) of
                (\<sigma>2, h2) \<Rightarrow> (\<sigma>2, q1\<lparr>prq_main_heap := h2, prq_extra := (prq_extra q1)[id - 1 := d1]\<rparr>))
        else (\<sigma>, q1))"

subsection \<open>While the heap has room\<close>

text \<open>
  The regime in which all nodes sit in the heap: no extra queue is in use and the counter agrees
  with the heap.
\<close>

definition prq_in_heap :: "node_store \<Rightarrow> priority_queue \<Rightarrow> bool" where
  "prq_in_heap \<sigma> q \<longleftrightarrow> pq_inv \<sigma> (prq_main_heap q) \<and> \<not> prq_has_extra q
     \<and> prq_total_size q = pq_size (prq_main_heap q)
     \<and> (\<forall>p\<in>set (pq_heap (prq_main_heap q)). i_extra_id (\<sigma> p) = 0)"

lemma pq_inv_set_extra:
  assumes "pq_inv \<sigma> q" shows "pq_inv (n_set_extra \<sigma> p b) q"
proof -
  have "key_le ty (n_set_extra \<sigma> p b) = key_le ty \<sigma>" for ty
    by (auto simp: key_le_def n_set_extra_def fun_eq_iff)
  moreover have "valid_nodes (n_set_extra \<sigma> p b) = valid_nodes \<sigma>" by (auto simp: valid_nodes_def n_set_extra_def)
  ultimately show ?thesis
    using assms by (auto simp: pq_inv_def pos_ok_def n_set_extra_def)
qed

lemma pqueue_extra_ids:
  assumes "pq_inv \<sigma> q" "pq_heap q \<noteq> []" "pq_do_pop s \<sigma> q = (r, \<sigma>', q')"
  shows "i_extra_id (\<sigma>' p) = i_extra_id (\<sigma> p)"
proof -
  obtain xs x where h: "pq_heap q = xs @ [x]" using assms(2) by (meson rev_exhaust)
  show ?thesis
  proof (cases "xs = []")
    case True
    with assms(3) h show ?thesis by (auto simp: pq_do_pop_def pq_empty_def n_set_queue_def)
  next
    case False
    then have i: "0 < length xs" by simp
    obtain \<sigma>2 h2 where d: "heapifydown (pq_typ q) 0 (n_set_next \<sigma> x 0) (xs[0 := x]) = (\<sigma>2, h2)" by fastforce
    have "\<sigma>' = n_set_queue \<sigma>2 r s"
      using assms(3) d h i
      by (auto simp: pq_do_pop_def pq_empty_def nth_append butlast_append list_update_append Let_def split: prod.splits)
    moreover have "moved_only (set (xs[0 := x])) (n_set_next \<sigma> x 0) \<sigma>2"
    proof -
      have "\<forall>p. i_prev (n_set_next \<sigma> x 0 p) = i_prev (\<sigma> p)"
        "\<forall>p. p \<noteq> x \<longrightarrow> i_next (n_set_next \<sigma> x 0 p) = i_next (\<sigma> p)"
        "i_next (n_set_next \<sigma> x 0 x) = of_nat 0"
        "\<forall>p. p \<noteq> xs ! 0 \<longrightarrow> i_queue (n_set_next \<sigma> x 0 p) = i_queue (\<sigma> p)"
        by (simp_all add: n_set_next_def)
      from replace_last(1) [OF assms(1) h i this] show ?thesis
        using heapifydown_refines [OF _ _ d] i by simp
    qed
    ultimately show ?thesis by (simp add: moved_only_def n_set_queue_def n_set_next_def)
  qed
qed

subsection \<open>Properties\<close>

text \<open>
  As long as the heap holds every node and fewer than half of its capacity, the bounded
  queue is the heap: insert puts a fresh node into the heap and counts it, pop returns a node
  whose priority comes first, removes and uncounts it, and both stay in this regime; an empty
  queue pops \<^verbatim>\<open>nullptr\<close>.
\<close>

theorem priority_queue_heap_regime:
  assumes "prq_in_heap \<sigma> q" "n \<noteq> 0" "n \<notin> set (pq_heap (prq_main_heap q))" "\<not> float_is_nan prio"
    "pq_size (prq_main_heap q) < MAX_NODES_IN_HEAP div 2"
  shows "(case prq_insert half bucket mp n prio \<sigma> q of (\<sigma>', q') \<Rightarrow>
        pq_inv \<sigma>' (prq_main_heap q') \<and> \<not> prq_has_extra q' \<and> prq_total_size q' = prq_total_size q + 1
        \<and> mset (pq_heap (prq_main_heap q')) = add_mset n (mset (pq_heap (prq_main_heap q))))
    \<and> (prq_empty q \<longleftrightarrow> pq_heap (prq_main_heap q) = [])
    \<and> (prq_empty q \<longrightarrow> prq_pop g s \<sigma> q = Some (0, \<sigma>, q))
    \<and> (\<not> prq_empty q \<longrightarrow> (\<exists>r \<sigma>' q'. prq_pop g s \<sigma> q = Some (r, \<sigma>', q') \<and> prq_in_heap \<sigma>' q'
        \<and> add_mset r (mset (pq_heap (prq_main_heap q'))) = mset (pq_heap (prq_main_heap q))
        \<and> (\<forall>p\<in>set (pq_heap (prq_main_heap q)).
             heap_compare (pq_typ (prq_main_heap q)) (node_priority \<sigma> r) (node_priority \<sigma> p))))"
proof -
  let ?h = "prq_main_heap q"
  have inv: "pq_inv \<sigma> ?h" and x: "\<not> prq_has_extra q" "prq_total_size q = length (pq_heap ?h)"
      "\<forall>p\<in>set (pq_heap ?h). i_extra_id (\<sigma> p) = 0"
    using assms(1) by (auto simp: prq_in_heap_def pq_size_def)
  have cp: "prq_main_heap (check_prio prio q) = ?h" "prq_total_size (check_prio prio q) = prq_total_size q"
      "prq_has_extra (check_prio prio q) = prq_has_extra q"
    by (simp_all add: check_prio_def)
  obtain \<sigma>1 h1 where i: "pq_do_insert n prio (n_set_extra \<sigma> n 0) ?h = (\<sigma>1, h1)" by fastforce
  have "length (pq_heap ?h) < 2 ^ 30 - 1" using assms(5) by (simp add: pq_size_def)
  note si = do_insert_spec [OF pq_inv_set_extra [OF inv] assms(2-4) this i]
  have "case prq_insert half bucket mp n prio \<sigma> q of (\<sigma>', q') \<Rightarrow>
      pq_inv \<sigma>' (prq_main_heap q') \<and> \<not> prq_has_extra q' \<and> prq_total_size q' = prq_total_size q + 1
      \<and> mset (pq_heap (prq_main_heap q')) = add_mset n (mset (pq_heap ?h))"
    using si(1,2) i assms(5) x(1) by (simp add: prq_insert_def Let_def cp)
  moreover have e: "prq_empty q \<longleftrightarrow> pq_heap ?h = []" using x(2) by (simp add: prq_empty_def)
  moreover have "\<exists>r \<sigma>' q'. prq_pop g s \<sigma> q = Some (r, \<sigma>', q') \<and> prq_in_heap \<sigma>' q'
        \<and> add_mset r (mset (pq_heap (prq_main_heap q'))) = mset (pq_heap ?h)
        \<and> (\<forall>p\<in>set (pq_heap ?h). heap_compare (pq_typ ?h) (node_priority \<sigma> r) (node_priority \<sigma> p))"
    if ne: "\<not> prq_empty q"
  proof -
    obtain r \<sigma>2 h2 where p: "pq_do_pop s \<sigma> ?h = (r, \<sigma>2, h2)" using prod_cases3 by blast
    have nil: "pq_heap ?h \<noteq> []" using e ne by simp
    note sp = do_pop_spec [OF inv nil p]
    have sz: "length (pq_heap ?h) = Suc (length (pq_heap h2))" using sp(3) by (metis size_add_mset size_mset)
    let ?q' = "q\<lparr>prq_main_heap := h2, prq_total_size := size_sub (prq_total_size q) 1\<rparr>"
    have sub: "set (pq_heap h2) \<subseteq> set (pq_heap ?h)"
      using sp(3) by (metis set_mset_add_mset_insert set_mset_mset subset_insertI)
    have "prq_pop g s \<sigma> q = Some (r, \<sigma>2, ?q')"
      using ne x(1) by (simp add: prq_pop_def prq_do_pop_def p prq_refill_def)
    moreover have "prq_in_heap \<sigma>2 ?q'"
      using sp(2) x sz sub pqueue_extra_ids [OF inv nil p] by (auto simp: prq_in_heap_def pq_size_def)
    ultimately show ?thesis using sp(3,4) by (auto simp: key_le_def)
  qed
  ultimately show ?thesis by (simp add: prq_pop_def)
qed

definition example_prq :: priority_queue where
  "example_prq = \<lparr>prq_main_heap = snd example_pqueue, prq_total_size = 1, prq_has_extra = False,
     prq_max_prio = 0, prq_extra = replicate 4 (new_double_queue 1)\<rparr>"

definition empty_prq :: priority_queue where
  "empty_prq = \<lparr>prq_main_heap = \<lparr>pq_queue_number = 1, pq_typ = HEAP_ASC, pq_heap = []\<rparr>, prq_total_size = 0,
     prq_has_extra = False, prq_max_prio = 0, prq_extra = replicate 4 (new_double_queue 1)\<rparr>"

lemma example_prq_in_heap:
  "prq_in_heap (n_set_extra (fst example_pqueue) 16 0) example_prq"
  using example_pqueue_facts pq_inv_set_extra
  by (simp add: prq_in_heap_def example_prq_def pq_size_def n_set_extra_def)

theorem priority_queue_heap_regime_witness:
  "\<exists>r \<sigma>' q'. prq_pop (\<lambda>_. 0) 7 (n_set_extra (fst example_pqueue) 16 0) example_prq = Some (r, \<sigma>', q')
     \<and> add_mset r (mset (pq_heap (prq_main_heap q'))) = {#16#}"
proof -
  have h: "pq_heap (prq_main_heap example_prq) = [16]" "\<not> prq_empty example_prq"
    using example_pqueue_facts(2) by (simp_all add: example_prq_def prq_empty_def)
  have "\<not> float_is_nan 0" by (simp add: float_is_nan_def float_mag_def)
  from priority_queue_heap_regime [OF example_prq_in_heap _ _ this, of 32 id "\<lambda>_ _. 0" 0 "\<lambda>_. 0" 7] h
  show ?thesis by (auto simp: pq_size_def)
qed

text \<open>
  \<^verbatim>\<open>pop_best\<close> of an empty queue and one that holds nodes pops from the empty one: it returns
  \<^verbatim>\<open>nullptr\<close>, takes no node from the other queue and lets the counter of the empty queue wrap
  around to \<open>2 ^ 64 - 1\<close>, so that the queue no longer counts as empty
  (\<^verbatim>\<open>queue/safe_complex_pqueue.hpp\<close> pops from the other queue in this case).
\<close>

theorem priority_queue_pop_best_empty:
  assumes "prq_empty q" "pq_heap (prq_main_heap q) = []" "\<not> prq_has_extra q" "\<not> prq_empty other"
  shows "prq_pop_best g s \<sigma> q other = Some (0, \<sigma>, q\<lparr>prq_total_size := 2 ^ 64 - 1\<rparr>, other)"
  using assms
  by (simp add: prq_pop_best_def prq_do_pop_def prq_refill_def pq_do_pop_def pq_empty_def prq_empty_def
      size_sub_def Let_def)

theorem priority_queue_pop_best_empty_witness:
  "prq_pop_best (\<lambda>_. 0) 7 (fst example_pqueue) empty_prq example_prq
     = Some (0, fst example_pqueue, empty_prq\<lparr>prq_total_size := 2 ^ 64 - 1\<rparr>, example_prq)"
  by (rule priority_queue_pop_best_empty) (simp_all add: empty_prq_def example_prq_def prq_empty_def)

end
