(* ===== verification/Types.thy ===== *)
theory Types
  imports Meld_Prelude
begin

text \<open>
  The types of the virtual machine, \<^verbatim>\<open>vm/types.hpp\<close> and \<^verbatim>\<open>vm/types.cpp\<close>: field types and their sizes,
  the class hierarchy of types with its structural comparison and its printing, and the kinds of
  aggregates. A \<^verbatim>\<open>throw type_error\<close> or \<^verbatim>\<open>abort\<close> is None.
\<close>

datatype field_type =
    FIELD_INT | FIELD_FLOAT | FIELD_NODE | FIELD_LIST | FIELD_STRUCT | FIELD_BOOL | FIELD_THREAD
  | FIELD_ARRAY | FIELD_SET | FIELD_STRING | FIELD_ANY

definition field_type_of_byte :: "byte \<Rightarrow> field_type option" where
  "field_type_of_byte b =
     (let t = [FIELD_INT, FIELD_FLOAT, FIELD_NODE, FIELD_LIST, FIELD_STRUCT, FIELD_BOOL, FIELD_THREAD,
               FIELD_ARRAY, FIELD_SET, FIELD_STRING, FIELD_ANY]
      in if unat b < length t then Some (t ! unat b) else None)"

fun field_code :: "field_type \<Rightarrow> byte" where
  "field_code FIELD_INT = 0x0"
| "field_code FIELD_FLOAT = 0x1"
| "field_code FIELD_NODE = 0x2"
| "field_code FIELD_LIST = 0x3"
| "field_code FIELD_STRUCT = 0x4"
| "field_code FIELD_BOOL = 0x5"
| "field_code FIELD_THREAD = 0x6"
| "field_code FIELD_ARRAY = 0x7"
| "field_code FIELD_SET = 0x8"
| "field_code FIELD_STRING = 0x9"
| "field_code FIELD_ANY = 0xA"

lemma field_type_of_code [simp]: "field_type_of_byte (field_code t) = Some t"
  by (cases t) (simp_all add: field_type_of_byte_def)

fun lookup_type_size :: "field_type \<Rightarrow> nat option" where
  "lookup_type_size FIELD_LIST = Some 8"
| "lookup_type_size FIELD_STRUCT = Some 8"
| "lookup_type_size FIELD_STRING = Some 8"
| "lookup_type_size FIELD_NODE = Some 8"
| "lookup_type_size FIELD_ARRAY = Some 8"
| "lookup_type_size FIELD_SET = Some 8"
| "lookup_type_size FIELD_INT = Some 4"
| "lookup_type_size FIELD_FLOAT = Some 8"
| "lookup_type_size _ = None"

fun reference_type :: "field_type \<Rightarrow> bool" where
  "reference_type FIELD_LIST = True"
| "reference_type FIELD_STRUCT = True"
| "reference_type FIELD_STRING = True"
| "reference_type FIELD_NODE = True"
| "reference_type FIELD_ARRAY = True"
| "reference_type FIELD_SET = True"
| "reference_type _ = False"

fun field_type_size :: "field_type \<Rightarrow> nat option" where
  "field_type_size FIELD_BOOL = Some 1"
| "field_type_size FIELD_INT = Some 4"
| "field_type_size FIELD_FLOAT = Some 8"
| "field_type_size FIELD_NODE = Some 8"
| "field_type_size FIELD_STRING = Some 8"
| "field_type_size FIELD_LIST = Some 8"
| "field_type_size FIELD_STRUCT = Some 8"
| "field_type_size FIELD_ARRAY = Some 8"
| "field_type_size FIELD_THREAD = Some 8"
| "field_type_size FIELD_SET = Some 8"
| "field_type_size FIELD_ANY = None"

fun field_type_string :: "field_type \<Rightarrow> string option" where
  "field_type_string FIELD_BOOL = Some ''bool''"
| "field_type_string FIELD_INT = Some ''int''"
| "field_type_string FIELD_FLOAT = Some ''float''"
| "field_type_string FIELD_NODE = Some ''node''"
| "field_type_string FIELD_THREAD = Some ''thread''"
| "field_type_string FIELD_STRING = Some ''string''"
| "field_type_string FIELD_LIST = Some ''list''"
| "field_type_string FIELD_STRUCT = Some ''struct''"
| "field_type_string FIELD_ARRAY = Some ''array''"
| "field_type_string FIELD_SET = Some ''set''"
| "field_type_string FIELD_ANY = None"

text \<open>
  The classes \<^verbatim>\<open>type\<close>, \<^verbatim>\<open>list_type\<close>, \<^verbatim>\<open>struct_type\<close>, \<^verbatim>\<open>set_type\<close> and \<^verbatim>\<open>array_type\<close>. \<open>NullT\<close> is a null
  pointer, which a type table holds at the indices that are not filled in yet.
\<close>

datatype vtype = BaseT field_type | ListT vtype | StructT "vtype list" | SetT vtype | ArrayT vtype | NullT

fun get_type :: "vtype \<Rightarrow> field_type option" where
  "get_type (BaseT f) = Some f"
| "get_type (ListT _) = Some FIELD_LIST"
| "get_type (StructT _) = Some FIELD_STRUCT"
| "get_type (SetT _) = Some FIELD_SET"
| "get_type (ArrayT _) = Some FIELD_ARRAY"
| "get_type NullT = None"

definition type_size :: "vtype \<Rightarrow> nat option" where
  "type_size t = Option.bind (get_type t) field_type_size"

fun is_reference :: "vtype \<Rightarrow> bool" where
  "is_reference (BaseT _) = False"
| "is_reference NullT = False"
| "is_reference _ = True"

text \<open>
  \<^verbatim>\<open>equal\<close> dispatches on the receiver. \<^verbatim>\<open>list_type::equal\<close> casts its argument without a check, so
  the comparison with a plain \<^verbatim>\<open>type\<close> of kind list is undefined (None), as is a null pointer.
\<close>

fun type_equal :: "vtype \<Rightarrow> vtype \<Rightarrow> bool option" and types_equal :: "vtype list \<Rightarrow> vtype list \<Rightarrow> bool option" where
  "type_equal (BaseT f) other = map_option (\<lambda>g. f = g) (get_type other)"
| "type_equal (ListT s) other =
     (case other of
        NullT \<Rightarrow> None
      | ListT s2 \<Rightarrow> type_equal s s2
      | BaseT FIELD_LIST \<Rightarrow> None
      | _ \<Rightarrow> Some False)"
| "type_equal (StructT ts) other =
     (case other of
        NullT \<Rightarrow> None
      | StructT ts2 \<Rightarrow>
          if length ts \<noteq> length ts2 then Some False
          else (case types_equal ts ts2 of
                  None \<Rightarrow> None
                | Some e \<Rightarrow> if \<not> e then Some False else Some False)
      | _ \<Rightarrow> Some False)"
| "type_equal (SetT b) other =
     (case other of NullT \<Rightarrow> None | SetT b2 \<Rightarrow> type_equal b b2 | _ \<Rightarrow> Some False)"
| "type_equal (ArrayT b) other =
     (case other of NullT \<Rightarrow> None | ArrayT b2 \<Rightarrow> type_equal b b2 | _ \<Rightarrow> Some False)"
| "type_equal NullT other = None"
| "types_equal (t # ts) (u # us) =
     (case type_equal t u of
        None \<Rightarrow> None
      | Some e \<Rightarrow> if \<not> e then Some False else types_equal ts us)"
| "types_equal _ _ = Some True"

fun type_string :: "vtype \<Rightarrow> string option" and types_string :: "vtype list \<Rightarrow> string option" where
  "type_string (BaseT f) = field_type_string f"
| "type_string (ListT s) = map_option (\<lambda>x. ''list '' @ x) (type_string s)"
| "type_string (SetT s) = map_option (\<lambda>x. ''set '' @ x) (type_string s)"
| "type_string (ArrayT s) = map_option (\<lambda>x. ''array '' @ x) (type_string s)"
| "type_string (StructT ts) = map_option (\<lambda>x. ''struct'' @ x) (types_string ts)"
| "type_string NullT = None"
| "types_string [] = Some []"
| "types_string (t # ts) =
     (case type_string t of None \<Rightarrow> None | Some x \<Rightarrow> map_option (\<lambda>y. '' '' @ x @ y) (types_string ts))"

text \<open>\<^verbatim>\<open>simple_composed_type\<close>: no field of the struct is a reference.\<close>

definition simple_composed_type :: "vtype list \<Rightarrow> bool" where
  "simple_composed_type ts \<longleftrightarrow> (\<forall>t\<in>set ts. case get_type t of Some f \<Rightarrow> \<not> reference_type f | None \<Rightarrow> True)"

subsection \<open>Aggregates\<close>

datatype aggregate_type =
    AGG_FIRST | AGG_MAX_INT | AGG_MIN_INT | AGG_SUM_INT | AGG_MAX_FLOAT | AGG_MIN_FLOAT | AGG_SUM_FLOAT
  | AGG_SUM_LIST_FLOAT | AGG_OTHER nat

text \<open>The cast of a number to \<^verbatim>\<open>aggregate_type\<close>; a number outside the enumeration is kept as it is.\<close>

definition aggregate_type_of :: "nat \<Rightarrow> aggregate_type" where
  "aggregate_type_of n =
     (if n = 1 then AGG_FIRST else if n = 2 then AGG_MAX_INT else if n = 3 then AGG_MIN_INT
      else if n = 4 then AGG_SUM_INT else if n = 5 then AGG_MAX_FLOAT else if n = 6 then AGG_MIN_FLOAT
      else if n = 7 then AGG_SUM_FLOAT else if n = 11 then AGG_SUM_LIST_FLOAT else AGG_OTHER n)"

datatype aggregate_safeness =
    AGG_LOCALLY_GENERATED | AGG_NEIGHBORHOOD | AGG_NEIGHBORHOOD_AND_SELF | AGG_IMMEDIATE | AGG_UNSAFE

definition aggregate_safeness_uses_neighborhood :: "aggregate_safeness \<Rightarrow> bool" where
  "aggregate_safeness_uses_neighborhood s \<longleftrightarrow> s = AGG_NEIGHBORHOOD \<or> s = AGG_NEIGHBORHOOD_AND_SELF"

fun aggregate_type_string :: "aggregate_type \<Rightarrow> string" where
  "aggregate_type_string AGG_FIRST = ''first''"
| "aggregate_type_string AGG_MIN_FLOAT = ''min''"
| "aggregate_type_string AGG_MIN_INT = ''min''"
| "aggregate_type_string AGG_MAX_FLOAT = ''max''"
| "aggregate_type_string AGG_MAX_INT = ''max''"
| "aggregate_type_string AGG_SUM_FLOAT = ''sum''"
| "aggregate_type_string AGG_SUM_INT = ''sum''"
| "aggregate_type_string AGG_SUM_LIST_FLOAT = ''sum''"
| "aggregate_type_string (AGG_OTHER _) = ''''"

subsection \<open>Properties\<close>

text \<open>Types without structs and without the bare kinds that only the constructors of composed types use.\<close>

fun plain_type :: "vtype \<Rightarrow> bool" where
  "plain_type (BaseT f) = (f \<notin> {FIELD_LIST, FIELD_STRUCT, FIELD_SET, FIELD_ARRAY})"
| "plain_type (ListT s) = plain_type s"
| "plain_type (SetT s) = plain_type s"
| "plain_type (ArrayT s) = plain_type s"
| "plain_type (StructT _) = False"
| "plain_type NullT = False"

lemma type_equal_plain: "plain_type t \<Longrightarrow> plain_type u \<Longrightarrow> type_equal t u = Some (t = u)"
proof (induction t arbitrary: u)
  case (BaseT f)
  then show ?case by (cases u) auto
next
  case (ListT t)
  then show ?case by (cases u) (auto split: field_type.splits)
qed (auto split: vtype.splits)

text \<open>
  Comparing two types that contain no struct decides whether they are the same type, but a
  struct type compares as different from every type that is not null, itself included: the loop
  over the field types falls through to \<^verbatim>\<open>return false\<close>.
\<close>

theorem type_equal_decides:
  assumes "plain_type t" "plain_type u" "types_equal ts ts' \<noteq> None"
  shows "type_equal t u = Some (t = u) \<and> type_equal (StructT ts) (StructT ts') = Some False
    \<and> type_equal (StructT ts) t = Some False"
proof -
  have "t \<noteq> NullT" "\<And>xs. t \<noteq> StructT xs" using assms(1) by auto
  then show ?thesis
    using type_equal_plain [OF assms(1,2)] assms(3) by (auto split: option.splits vtype.splits)
qed

theorem type_equal_decides_witness:
  "type_equal (ListT (BaseT FIELD_INT)) (ListT (BaseT FIELD_INT)) = Some True
   \<and> type_equal (StructT [BaseT FIELD_INT]) (StructT [BaseT FIELD_INT]) = Some False"
  using type_equal_decides [of "ListT (BaseT FIELD_INT)" "ListT (BaseT FIELD_INT)" "[BaseT FIELD_INT]" "[BaseT FIELD_INT]"]
  by simp

end
