(* ===== verification/Vm_Predicate.thy ===== *)
theory Vm_Predicate
  imports Types "HOL-Library.Monad_Syntax"
begin

text \<open>
  Reading byte-code files (\<^verbatim>\<open>vm/reader.hpp\<close>) and the predicates they declare
  (\<^verbatim>\<open>vm/predicate.hpp\<close>, \<^verbatim>\<open>vm/predicate.cpp\<close>). A reader consumes a list of bytes; None stands for
  reading past the end of the file, for \<^verbatim>\<open>abort\<close> and for reading a vector out of range.
  The theorems show that a predicate descriptor is read back as it was laid out and that the
  fields of a predicate tile its tuples.
\<close>

type_synonym stream = "byte list"

definition read_any :: "nat \<Rightarrow> stream \<Rightarrow> (byte list \<times> stream) option" where
  "read_any n r = (if n \<le> length r then Some (take n r, drop n r) else None)"

definition reader_seek :: "nat \<Rightarrow> stream \<Rightarrow> stream option" where
  "reader_seek n r = (if n \<le> length r then Some (drop n r) else None)"

definition read_byte :: "stream \<Rightarrow> (byte \<times> stream) option" where
  "read_byte r = (case r of [] \<Rightarrow> None | b # bs \<Rightarrow> Some (b, bs))"

text \<open>Integers of several bytes are stored in the byte order of x86-64, least significant byte first.\<close>

fun le_nat :: "byte list \<Rightarrow> nat" where
  "le_nat [] = 0"
| "le_nat (b # bs) = unat b + 256 * le_nat bs"

fun to_le :: "nat \<Rightarrow> nat \<Rightarrow> byte list" where
  "to_le 0 v = []"
| "to_le (Suc n) v = of_nat v # to_le n (v div 256)"

definition read_u32 :: "stream \<Rightarrow> (nat \<times> stream) option" where
  "read_u32 r = do { (bs, r) \<leftarrow> read_any 4 r; Some (le_nat bs, r) }"

definition read_u64 :: "stream \<Rightarrow> (64 word \<times> stream) option" where
  "read_u64 r = do { (bs, r) \<leftarrow> read_any 8 r; Some (of_nat (le_nat bs), r) }"

text \<open>A C string in a buffer: the characters before the first NUL, which has to be in the buffer.\<close>

definition c_string :: "byte list \<Rightarrow> string option" where
  "c_string bs =
     (if 0 \<in> set bs then Some (map (\<lambda>b. char_of (unat b)) (takeWhile (\<lambda>b. b \<noteq> 0) bs)) else None)"

subsection \<open>The predicate descriptor\<close>

abbreviation PRED_ARGS_MAX :: nat where "PRED_ARGS_MAX \<equiv> 32"
abbreviation PRED_NAME_SIZE_MAX :: nat where "PRED_NAME_SIZE_MAX \<equiv> 32"
abbreviation PRED_AGG_INFO_MAX :: nat where "PRED_AGG_INFO_MAX \<equiv> 32"

datatype store_type_t = LINKED_LIST | HASH_TABLE

text \<open>Members of \<^verbatim>\<open>aggregate_info\<close> that a branch of the reader leaves unset are None.\<close>

record aggregate_info =
  ai_field :: nat
  ai_type :: aggregate_type
  ai_safeness :: aggregate_safeness
  ai_local_level :: "nat option"
  ai_remote_pred_id :: "nat option"

record predicate =
  p_id :: nat
  p_id2 :: nat
  p_name :: string
  p_level :: nat
  p_types :: "vtype list"
  p_fields_size :: "nat list"
  p_fields_offset :: "nat list"
  p_tuple_size :: nat
  p_agg_info :: "aggregate_info option"
  p_is_route :: bool
  p_is_linear :: bool
  p_is_reverse_route :: bool
  p_is_action :: bool
  p_is_reused :: bool
  p_is_cycle :: bool
  p_is_thread :: bool
  p_is_compact :: bool
  p_has_code :: bool
  p_store_type :: store_type_t
  p_hash_argument :: nat
  p_argument_position :: nat

text \<open>
  A predicate is created in memory that holds \<open>mem\<close>. The constructor and the default initialisers do
  not set the identifiers, the hash argument and the argument position.
\<close>

definition new_predicate :: "predicate \<Rightarrow> predicate" where
  "new_predicate mem = mem\<lparr>p_name := [], p_level := 0, p_types := [], p_fields_size := [],
     p_fields_offset := [], p_tuple_size := 0, p_agg_info := None, p_is_route := False, p_is_linear := False,
     p_is_reverse_route := False, p_is_action := False, p_is_reused := False, p_is_cycle := False,
     p_is_thread := False, p_is_compact := False, p_has_code := True, p_store_type := LINKED_LIST\<rparr>"

definition version_at_least :: "nat \<times> nat \<Rightarrow> nat \<Rightarrow> nat \<Rightarrow> bool" where
  "version_at_least v major minor \<longleftrightarrow> fst v > major \<or> fst v = major \<and> snd v \<ge> minor"

definition make_predicate_simple :: "predicate \<Rightarrow> nat \<Rightarrow> string \<Rightarrow> bool \<Rightarrow> vtype list \<Rightarrow> predicate" where
  "make_predicate_simple mem pid name linear types =
     (new_predicate mem)\<lparr>p_id := pid, p_agg_info := None, p_is_linear := linear, p_types := types, p_name := name\<rparr>"

definition table_type :: "vtype list \<Rightarrow> byte \<Rightarrow> vtype option" where
  "table_type types tid = (if unat tid < length types then Some (types ! unat tid) else None)"

fun read_struct_fields :: "nat \<Rightarrow> vtype list \<Rightarrow> stream \<Rightarrow> (vtype list \<times> stream) option" where
  "read_struct_fields 0 types r = Some ([], r)"
| "read_struct_fields (Suc n) types r =
     do { (tid, r) \<leftarrow> read_byte r; t \<leftarrow> table_type types tid;
          (ts, r) \<leftarrow> read_struct_fields n types r; Some (t # ts, r) }"

definition read_type_from_reader :: "vtype list \<Rightarrow> stream \<Rightarrow> (vtype \<times> stream) option" where
  "read_type_from_reader types r =
     do { (f, r) \<leftarrow> read_byte r;
          t \<leftarrow> field_type_of_byte f;
          (case t of
             FIELD_LIST \<Rightarrow> do { (tid, r) \<leftarrow> read_byte r; s \<leftarrow> table_type types tid; Some (ListT s, r) }
           | FIELD_STRUCT \<Rightarrow> do { (sz, r) \<leftarrow> read_byte r;
                                  (ts, r) \<leftarrow> read_struct_fields (unat sz) types r; Some (StructT ts, r) }
           | FIELD_ARRAY \<Rightarrow> do { (tid, r) \<leftarrow> read_byte r; s \<leftarrow> table_type types tid; Some (ArrayT s, r) }
           | FIELD_SET \<Rightarrow> do { (tid, r) \<leftarrow> read_byte r; s \<leftarrow> table_type types tid; Some (SetT s, r) }
           | FIELD_ANY \<Rightarrow> None
           | _ \<Rightarrow> Some (BaseT t, r)) }"

definition read_type_id_from_reader :: "vtype list \<Rightarrow> stream \<Rightarrow> (vtype \<times> stream) option" where
  "read_type_id_from_reader types r = do { (p, r) \<leftarrow> read_byte r; t \<leftarrow> table_type types p; Some (t, r) }"

fun read_type_ids :: "nat \<Rightarrow> vtype list \<Rightarrow> stream \<Rightarrow> (vtype list \<times> stream) option" where
  "read_type_ids 0 types r = Some ([], r)"
| "read_type_ids (Suc n) types r =
     do { (t, r) \<leftarrow> read_type_id_from_reader types r; (ts, r) \<leftarrow> read_type_ids n types r; Some (t # ts, r) }"

text \<open>The argument types of versions before 0.10: always \<^verbatim>\<open>PRED_ARGS_MAX\<close> bytes, the first ones used.\<close>

definition old_arg_type :: "byte \<Rightarrow> vtype option" where
  "old_arg_type f =
     (if f = 0x3 then Some (ListT (BaseT FIELD_INT))
      else if f = 0x4 then Some (ListT (BaseT FIELD_FLOAT))
      else if f = 0x5 then Some (ListT (BaseT FIELD_NODE))
      else map_option BaseT (field_type_of_byte f))"

definition read_old_types :: "nat \<Rightarrow> stream \<Rightarrow> (vtype list \<times> stream) option" where
  "read_old_types n r =
     do { (fs, r) \<leftarrow> read_any PRED_ARGS_MAX r; ts \<leftarrow> those (map old_arg_type (take n fs)); Some (ts, r) }"

text \<open>A \<^verbatim>\<open>char\<close> is signed: widening it to \<^verbatim>\<open>size_t\<close> extends the sign.\<close>

definition size_of_char :: "byte \<Rightarrow> nat" where
  "size_of_char b = (if unat b < 128 then unat b else 2 ^ 64 - 256 + unat b)"

text \<open>The aggregate safeness; the test for \<^verbatim>\<open>PRED_AGG_UNSAFE\<close>, which is 0, is a bitwise and.\<close>

definition read_agg_safeness :: "byte list \<Rightarrow> aggregate_info \<Rightarrow> aggregate_info" where
  "read_agg_safeness buf ai =
     (if buf ! 0 = 0x01
      then ai\<lparr>ai_safeness := AGG_LOCALLY_GENERATED, ai_local_level := Some (size_of_char (buf ! 1))\<rparr>
      else if buf ! 0 = 0x02
      then ai\<lparr>ai_safeness := AGG_NEIGHBORHOOD, ai_remote_pred_id := Some (unat (buf ! 1))\<rparr>
      else if buf ! 0 = 0x04
      then ai\<lparr>ai_safeness := AGG_NEIGHBORHOOD_AND_SELF, ai_remote_pred_id := Some (unat (buf ! 1))\<rparr>
      else if buf ! 0 = 0x08 then ai\<lparr>ai_safeness := AGG_IMMEDIATE\<rparr>
      else if (buf ! 0) AND 0x00 \<noteq> 0 then ai\<lparr>ai_safeness := AGG_UNSAFE\<rparr>
      else ai)"

definition set_prop :: "byte \<Rightarrow> predicate \<Rightarrow> predicate" where
  "set_prop prop p = p\<lparr>p_is_linear := bit prop 3, p_is_route := bit prop 1, p_is_reverse_route := bit prop 2,
     p_is_action := bit prop 4, p_is_reused := bit prop 5, p_is_cycle := bit prop 6, p_is_thread := bit prop 7\<rparr>"

definition make_predicate_from_reader ::
  "predicate \<Rightarrow> nat \<Rightarrow> nat \<times> nat \<Rightarrow> vtype list \<Rightarrow> stream \<Rightarrow> (nat \<times> predicate \<times> stream) option" where
  "make_predicate_from_reader mem pid version types r =
     do { (code_size, r) \<leftarrow> read_u32 r;
          (prop, r) \<leftarrow> read_byte r;
          let is_agg = bit prop 0;
          let p = set_prop prop ((new_predicate mem)\<lparr>p_id := pid\<rparr>);
          (p, r) \<leftarrow> (if version_at_least version 0 13
             then do { (prop2, r) \<leftarrow> read_byte r; Some (if bit prop2 0 then p\<lparr>p_is_compact := True\<rparr> else p, r) }
             else Some (p, r));
          (agg, r) \<leftarrow> read_byte r;
          let ai = \<lparr>ai_field = unat (agg AND 0xF), ai_type = aggregate_type_of (unat (drop_bit 4 (agg AND 0xF0))),
                    ai_safeness = AGG_UNSAFE, ai_local_level = None, ai_remote_pred_id = None\<rparr>;
          (level, r) \<leftarrow> read_byte r;
          let p = p\<lparr>p_level := unat level\<rparr>;
          (p, r) \<leftarrow> (if version_at_least version 0 12
             then do { (fi, r) \<leftarrow> read_byte r;
                       Some (if fi \<noteq> 0 then p\<lparr>p_store_type := HASH_TABLE, p_hash_argument := unat fi - 1\<rparr> else p, r) }
             else Some (p, r));
          (nfields, r) \<leftarrow> read_byte r;
          (ts, r) \<leftarrow> (if version_at_least version 0 10 then read_type_ids (unat nfields) types r
             else read_old_types (unat nfields) r);
          (name_buf, r) \<leftarrow> read_any PRED_NAME_SIZE_MAX r;
          name \<leftarrow> c_string name_buf;
          (buf, r) \<leftarrow> read_any PRED_AGG_INFO_MAX r;
          Some (code_size,
                p\<lparr>p_types := ts, p_name := name,
                  p_agg_info := (if is_agg then Some (read_agg_safeness buf ai) else None)\<rparr>, r) }"

subsection \<open>Cached information\<close>

fun field_layout :: "nat \<Rightarrow> vtype list \<Rightarrow> (nat list \<times> nat list \<times> nat) option" where
  "field_layout offset [] = Some ([], [], offset)"
| "field_layout offset (t # ts) =
     do { sz \<leftarrow> type_size t;
          (sizes, offsets, tot) \<leftarrow> field_layout (offset + sz) ts;
          Some (sz # sizes, offset # offsets, tot) }"

definition build_field_info :: "predicate \<Rightarrow> predicate option" where
  "build_field_info p =
     do { (sizes, offsets, tot) \<leftarrow> field_layout 0 (p_types p);
          Some (p\<lparr>p_fields_size := sizes, p_fields_offset := offsets, p_tuple_size := tot\<rparr>) }"

definition num_fields :: "predicate \<Rightarrow> nat" where
  "num_fields p = length (p_types p)"

definition is_aggregate_pred :: "predicate \<Rightarrow> bool" where
  "is_aggregate_pred p \<longleftrightarrow> p_agg_info p \<noteq> None"

definition is_unsafe_agg :: "aggregate_info \<Rightarrow> bool" where
  "is_unsafe_agg ai \<longleftrightarrow> ai_safeness ai = AGG_UNSAFE \<or> ai_safeness ai = AGG_IMMEDIATE"

definition is_route_pred :: "predicate \<Rightarrow> bool" where
  "is_route_pred p \<longleftrightarrow> p_is_route p \<or> p_is_reverse_route p"

definition is_persistent_pred :: "predicate \<Rightarrow> bool" where
  "is_persistent_pred p \<longleftrightarrow> \<not> p_is_linear p"

text \<open>
  \<^verbatim>\<open>build_aggregate_info\<close> looks up the remote predicate of a neighbourhood aggregate in the program's
  table; the result is the index it resolves to.
\<close>

definition build_aggregate_info :: "nat \<Rightarrow> aggregate_info \<Rightarrow> nat option option" where
  "build_aggregate_info num_predicates ai =
     (case ai_safeness ai of
        AGG_NEIGHBORHOOD \<Rightarrow> (case ai_remote_pred_id ai of
            Some i \<Rightarrow> if i < num_predicates then Some (Some i) else None | None \<Rightarrow> None)
      | AGG_NEIGHBORHOOD_AND_SELF \<Rightarrow> (case ai_remote_pred_id ai of
            Some i \<Rightarrow> if i < num_predicates then Some (Some i) else None | None \<Rightarrow> None)
      | _ \<Rightarrow> Some None)"

definition cache_info :: "nat \<Rightarrow> predicate \<Rightarrow> predicate option" where
  "cache_info num_predicates p =
     do { p \<leftarrow> build_field_info p;
          (case p_agg_info p of
             None \<Rightarrow> Some p
           | Some ai \<Rightarrow> do { _ \<leftarrow> build_aggregate_info num_predicates ai; Some p }) }"

subsection \<open>Lemmas on readers\<close>

lemma length_to_le [simp]: "length (to_le n v) = n"
  by (induction n arbitrary: v) simp_all

lemma le_nat_to_le: "le_nat (to_le n v) = v mod 256 ^ n"
proof (induction n arbitrary: v)
  case (Suc n)
  have "v mod 256 ^ Suc n = v mod 256 + 256 * ((v div 256) mod 256 ^ n)"
    using mod_mult2_eq [of v 256 "256 ^ n"] by simp
  with Suc show ?case by (simp add: unat_of_nat take_bit_eq_mod)
qed simp

lemma read_any_append [simp]: "length bs = n \<Longrightarrow> read_any n (bs @ r) = Some (bs, r)"
  by (auto simp: read_any_def)

lemma read_byte_Cons [simp]: "read_byte (b # r) = Some (b, r)"
  by (simp add: read_byte_def)

lemma read_u32_append [simp]: "v < 2 ^ 32 \<Longrightarrow> read_u32 (to_le 4 v @ r) = Some (v, r)"
  by (simp add: read_u32_def le_nat_to_le)

lemma read_u64_append [simp]: "read_u64 (to_le 8 (unat v) @ r) = Some (v, r)"
proof -
  have "unat v < 256 ^ 8" using unsigned_less [of v] by simp
  then show ?thesis by (simp add: read_u64_def le_nat_to_le)
qed

lemma read_type_ids_append:
  assumes "\<forall>i\<in>set ids. unat i < length types"
  shows "read_type_ids (length ids) types (ids @ r) = Some (map (\<lambda>i. types ! unat i) ids, r)"
  using assms by (induction ids) (auto simp: read_type_id_from_reader_def table_type_def)

lemma field_layout_spec:
  assumes "field_layout offset ts = Some (sizes, offsets, tot)"
  shows "length sizes = length ts \<and> length offsets = length ts
    \<and> map Some sizes = map type_size ts
    \<and> (\<forall>i < length ts. offsets ! i = offset + sum_list (take i sizes))
    \<and> tot = offset + sum_list sizes"
  using assms
proof (induction ts arbitrary: offset sizes offsets tot)
  case (Cons t ts)
  from Cons.prems obtain sz ss os where
    c: "type_size t = Some sz" "field_layout (offset + sz) ts = Some (ss, os, tot)"
      "sizes = sz # ss" "offsets = offset # os"
    by (auto split: Option.bind_splits)
  note ih = Cons.IH [OF c(2)]
  have "offsets ! i = offset + sum_list (take i sizes)" if "i < length (t # ts)" for i
    using that ih c(3,4) by (cases i) auto
  with ih c show ?case by auto
qed simp

lemma field_layout_undefined:
  "field_layout offset ts = None \<longleftrightarrow> (\<exists>t\<in>set ts. type_size t = None)"
proof (induction ts arbitrary: offset)
  case (Cons t ts)
  show ?case
  proof (cases "type_size t")
    case (Some sz)
    have "field_layout offset (t # ts) = None \<longleftrightarrow> field_layout (offset + sz) ts = None"
      using Some by (auto split: Option.bind_splits)
    with Cons.IH [of "offset + sz"] Some show ?thesis by simp
  qed simp
qed simp

lemma c_string_padded:
  assumes "0 \<notin> set bs" "0 < n"
  shows "c_string (bs @ replicate n 0) = Some (map (\<lambda>b. char_of (unat b)) bs)"
proof -
  have "takeWhile (\<lambda>b. b \<noteq> 0) (bs @ replicate n (0 :: byte)) = bs"
    using assms by (cases n) (auto simp: takeWhile_append)
  with assms show ?thesis by (simp add: c_string_def)
qed

lemma take_sum_mono:
  fixes xs :: "nat list"
  assumes "i < j" "j \<le> length xs"
  shows "sum_list (take i xs) + xs ! i \<le> sum_list (take j xs)"
proof -
  have "sum_list (take (Suc i) xs) = sum_list (take i xs) + xs ! i"
    using assms by (simp add: take_Suc_conv_app_nth)
  moreover have "take j xs = take (Suc i) xs @ drop (Suc i) (take j xs)"
    using assms(1) by (metis append_take_drop_id min.absorb1 Suc_leI take_take)
  then have "sum_list (take (Suc i) xs) \<le> sum_list (take j xs)"
    by (metis le_add1 sum_list_append)
  ultimately show ?thesis by simp
qed

lemma predicate_descriptor_read:
  assumes "cs < 2 ^ 32" "length ids < 256" "\<forall>i\<in>set ids. unat i < length types"
    "length name_buf = 32" "c_string name_buf = Some name" "length agg_buf = 32" "minor \<ge> 13"
  shows "make_predicate_from_reader mem pid (0, minor) types
      (to_le 4 cs @ [prop, prop2, agg, level, fi, of_nat (length ids)] @ ids @ name_buf @ agg_buf @ rest)
    = Some (cs,
        (new_predicate mem)\<lparr>p_id := pid, p_name := name, p_level := unat level, p_types := map (\<lambda>i. types ! unat i) ids,
          p_agg_info := (if bit prop 0 then Some (read_agg_safeness agg_buf
              \<lparr>ai_field = unat (agg AND 0xF), ai_type = aggregate_type_of (unat (drop_bit 4 (agg AND 0xF0))),
               ai_safeness = AGG_UNSAFE, ai_local_level = None, ai_remote_pred_id = None\<rparr>) else None),
          p_is_route := bit prop 1, p_is_linear := bit prop 3, p_is_reverse_route := bit prop 2,
          p_is_action := bit prop 4, p_is_reused := bit prop 5, p_is_cycle := bit prop 6,
          p_is_thread := bit prop 7, p_is_compact := bit prop2 0,
          p_store_type := (if fi = 0 then LINKED_LIST else HASH_TABLE), p_hash_argument := (if fi = 0 then p_hash_argument mem else unat fi - 1)\<rparr>, rest)"
proof -
  have v: "version_at_least (0, minor) 0 13" "version_at_least (0, minor) 0 12" "version_at_least (0, minor) 0 10"
    using assms(7) by (auto simp: version_at_least_def)
  have n: "unat (of_nat (length ids) :: byte) = length ids" using assms(2) by (simp add: unat_of_nat take_bit_eq_mod)
  show ?thesis
    using assms(1,4-6) read_type_ids_append [OF assms(3), of "name_buf @ agg_buf @ rest"]
    by (simp add: make_predicate_from_reader_def v n Let_def set_prop_def new_predicate_def)
qed

text \<open>A predicate in zeroed memory, for examples.\<close>

definition zero_predicate :: predicate where
  "zero_predicate = \<lparr>p_id = 0, p_id2 = 0, p_name = [], p_level = 0, p_types = [], p_fields_size = [],
     p_fields_offset = [], p_tuple_size = 0, p_agg_info = None, p_is_route = False, p_is_linear = False,
     p_is_reverse_route = False, p_is_action = False, p_is_reused = False, p_is_cycle = False,
     p_is_thread = False, p_is_compact = False, p_has_code = True, p_store_type = LINKED_LIST,
     p_hash_argument = 0, p_argument_position = 0\<rparr>"

subsection \<open>Properties\<close>

text \<open>
  C28. The layout of a predicate descriptor in a byte-code file of version 0.13 or 0.14. Reading
  the code size (4 bytes, little endian), the two property bytes, the aggregate byte, the
  stratification level, the hash index, the number of fields, the ids of the field types, the name
  (32 bytes, NUL terminated) and the aggregate information (32 bytes) gives a predicate with these
  flags, types and name, stored as a table when a field is indexed, and consumes exactly these bytes.
  The fields that the file does not set keep what the memory \<open>mem\<close> held (the second identifier, the
  argument position and, without an index, the hash argument). The descriptor of
  \<^verbatim>\<open>docs/vm_format.tex\<close> (69 bytes) is another, older one.
\<close>

theorem predicate_descriptor_layout:
  assumes "cs < 2 ^ 32" "length ids < 256" "\<forall>i\<in>set ids. unat i < length types"
    "length name_buf = 32" "c_string name_buf = Some name" "length agg_buf = 32" "minor \<ge> 13"
  shows "make_predicate_from_reader mem pid (0, minor) types
      (to_le 4 cs @ [prop, prop2, agg, level, fi, of_nat (length ids)] @ ids @ name_buf @ agg_buf @ rest)
    = Some (cs,
        (new_predicate mem)\<lparr>p_id := pid, p_name := name, p_level := unat level, p_types := map (\<lambda>i. types ! unat i) ids,
          p_agg_info := (if bit prop 0 then Some (read_agg_safeness agg_buf
              \<lparr>ai_field = unat (agg AND 0xF), ai_type = aggregate_type_of (unat (drop_bit 4 (agg AND 0xF0))),
               ai_safeness = AGG_UNSAFE, ai_local_level = None, ai_remote_pred_id = None\<rparr>) else None),
          p_is_route := bit prop 1, p_is_linear := bit prop 3, p_is_reverse_route := bit prop 2,
          p_is_action := bit prop 4, p_is_reused := bit prop 5, p_is_cycle := bit prop 6,
          p_is_thread := bit prop 7, p_is_compact := bit prop2 0,
          p_store_type := (if fi = 0 then LINKED_LIST else HASH_TABLE), p_hash_argument := (if fi = 0 then p_hash_argument mem else unat fi - 1)\<rparr>, rest)"
  using predicate_descriptor_read [OF assms] .

theorem predicate_descriptor_layout_witness:
  "map_option (\<lambda>(cs, p, r). (cs, p_name p, p_types p, p_is_linear p, r))
     (make_predicate_from_reader zero_predicate 3 (0, 13) [BaseT FIELD_INT, BaseT FIELD_NODE]
       (to_le 4 7 @ [0x08, 0, 0, 0, 0, of_nat (length [1 :: byte, 0])] @ [1, 0]
        @ ([112, 111, 115] @ replicate 29 0) @ replicate 32 0 @ [5]))
   = Some (7, ''pos'', [BaseT FIELD_NODE, BaseT FIELD_INT], True, [5])"
proof -
  have n: "c_string ([112, 111, 115] @ replicate 29 0) = Some ''pos''"
    using c_string_padded [of "[112, 111, 115]" 29] by (simp add: char_of_def bit_iff_odd)
  show ?thesis
    by (subst predicate_descriptor_layout [OF _ _ _ _ n]) (simp_all add: bit_iff_odd new_predicate_def)
qed

text \<open>
  C29. The fields of a predicate tile its tuples. If every field has a size, \<^verbatim>\<open>build_field_info\<close>
  succeeds; the first field is at offset 0, every field ends where the next one starts, the last one
  ends at \<^verbatim>\<open>tuple_size\<close>, so no two fields overlap. It fails (\<^verbatim>\<open>type_error\<close>) exactly when the size of
  some field type is not defined.
\<close>

theorem build_field_info_tiles:
  assumes "\<forall>t\<in>set (p_types p). type_size t \<noteq> None"
  shows "\<exists>q. build_field_info p = Some q
    \<and> length (p_fields_offset q) = num_fields p \<and> map Some (p_fields_size q) = map type_size (p_types p)
    \<and> (0 < num_fields p \<longrightarrow> p_fields_offset q ! 0 = 0)
    \<and> (\<forall>i < num_fields p. p_fields_offset q ! i + p_fields_size q ! i
          = (if i + 1 < num_fields p then p_fields_offset q ! (i + 1) else p_tuple_size q))
    \<and> (\<forall>i j. i < j \<and> j < num_fields p \<longrightarrow>
          p_fields_offset q ! i + p_fields_size q ! i \<le> p_fields_offset q ! j)
    \<and> build_field_info (p\<lparr>p_types := p_types p @ [BaseT FIELD_ANY]\<rparr>) = None"
proof -
  from assms obtain sizes offsets tot where
    l: "field_layout 0 (p_types p) = Some (sizes, offsets, tot)"
    using field_layout_undefined [of 0 "p_types p"] by auto
  note sp = field_layout_spec [OF l]
  define q where "q = p\<lparr>p_fields_size := sizes, p_fields_offset := offsets, p_tuple_size := tot\<rparr>"
  have step: "offsets ! i + sizes ! i = sum_list (take (Suc i) sizes)" if "i < length (p_types p)" for i
    using that sp by (simp add: take_Suc_conv_app_nth)
  have "offsets ! i + sizes ! i = (if i + 1 < length (p_types p) then offsets ! (i + 1) else tot)"
    if "i < length (p_types p)" for i
    using that sp step [OF that] by auto
  moreover have "offsets ! i + sizes ! i \<le> offsets ! j" if "i < j" "j < length (p_types p)" for i j
    using that sp take_sum_mono [of i j sizes] by simp
  moreover have "field_layout 0 (p_types p @ [BaseT FIELD_ANY]) = None"
    by (simp add: field_layout_undefined type_size_def)
  ultimately show ?thesis
    using l sp by (intro exI [of _ q]) (auto simp: build_field_info_def q_def num_fields_def)
qed

theorem build_field_info_tiles_witness:
  "\<exists>q. build_field_info (zero_predicate\<lparr>p_types := [BaseT FIELD_NODE, BaseT FIELD_BOOL, BaseT FIELD_INT]\<rparr>) = Some q
     \<and> p_fields_offset q ! 0 = 0"
  using build_field_info_tiles [of "zero_predicate\<lparr>p_types := [BaseT FIELD_NODE, BaseT FIELD_BOOL, BaseT FIELD_INT]\<rparr>"]
  by (auto simp: type_size_def num_fields_def)

end
