(* ===== verification/Program.thy ===== *)
theory Program
  imports Vm_Predicate Rule_Matcher Float_Val "HOL-Library.List_Lexorder" "HOL-Library.Char_ord"
begin

text \<open>
  The loader of byte-code files, the constructor \<^verbatim>\<open>program::program(filename)\<close> of
  \<^verbatim>\<open>vm/program.cpp\<close>, on the bytes of the file. Each section of the constructor is a definition; they
  are composed in the order of the file. A pointer to a predicate, a rule or a type is its index in
  the program's table. \<^verbatim>\<open>dlopen\<close> of external functions is left out: the declaration of each external
  function is recorded.
\<close>

datatype load_error = Not_a_meld_file | Unsupported_version | Bad_file

text \<open>A loop that reads \<open>n\<close> items.\<close>

fun read_items :: "nat \<Rightarrow> (stream \<Rightarrow> ('a \<times> stream) option) \<Rightarrow> stream \<Rightarrow> ('a list \<times> stream) option" where
  "read_items 0 f r = Some ([], r)"
| "read_items (Suc n) f r = do { (x, r) \<leftarrow> f r; (xs, r) \<leftarrow> read_items n f r; Some (x # xs, r) }"

text \<open>A length of four bytes and that many characters, to which the code appends a NUL.\<close>

definition read_string :: "stream \<Rightarrow> (string \<times> stream) option" where
  "read_string r =
     do { (n, r) \<leftarrow> read_u32 r; (bs, r) \<leftarrow> read_any n r; s \<leftarrow> c_string (bs @ [0]); Some (s, r) }"

abbreviation MAGIC1 :: nat where "MAGIC1 \<equiv> 0x646c656d"
abbreviation MAGIC2 :: nat where "MAGIC2 \<equiv> 0x6c696620"

definition read_header :: "stream \<Rightarrow> load_error + ((nat \<times> nat) \<times> stream)" where
  "read_header r =
     (case do { (m1, r) \<leftarrow> read_u32 r; (m2, r) \<leftarrow> read_u32 r; Some (m1, m2, r) } of
        None \<Rightarrow> Inl Bad_file
      | Some (m1, m2, r) \<Rightarrow>
          if m1 \<noteq> MAGIC1 \<or> m2 \<noteq> MAGIC2 then Inl Not_a_meld_file
          else (case do { (major, r) \<leftarrow> read_u32 r; (minor, r) \<leftarrow> read_u32 r; Some ((major, minor), r) } of
                  None \<Rightarrow> Inl Bad_file
                | Some (v, r) \<Rightarrow>
                    if \<not> version_at_least v 0 11 then Inl Unsupported_version
                    else if version_at_least v 0 15 then Inl Unsupported_version
                    else Inr (v, r)))"

text \<open>The type table: entry \<open>i\<close> is read while the entries from \<open>i\<close> on are still null.\<close>

fun read_types :: "nat \<Rightarrow> nat \<Rightarrow> vtype list \<Rightarrow> stream \<Rightarrow> (vtype list \<times> stream) option" where
  "read_types 0 i types r = Some (types, r)"
| "read_types (Suc n) i types r =
     do { (t, r) \<leftarrow> read_type_from_reader types r; read_types n (Suc i) (types[i := t]) r }"

definition read_type_table :: "stream \<Rightarrow> (vtype list \<times> stream) option" where
  "read_type_table r = do { (n, r) \<leftarrow> read_byte r; read_types (unat n) 0 (replicate (unat n) NullT) r }"

definition read_import :: "stream \<Rightarrow> ((string \<times> string \<times> string) \<times> stream) option" where
  "read_import r =
     do { (imp, r) \<leftarrow> read_string r; (as, r) \<leftarrow> read_string r; (file, r) \<leftarrow> read_string r;
          Some ((imp, as, file), r) }"

definition read_imports :: "stream \<Rightarrow> ((string \<times> string \<times> string) list \<times> string list \<times> stream) option" where
  "read_imports r =
     do { (n, r) \<leftarrow> read_u32 r; (imports, r) \<leftarrow> read_items n read_import r;
          (m, r) \<leftarrow> read_u32 r; (exports, r) \<leftarrow> read_items m read_string r;
          Some (imports, exports, r) }"

definition read_rule_strings :: "stream \<Rightarrow> (string list \<times> stream) option" where
  "read_rule_strings r = do { (n, r) \<leftarrow> read_u32 r; read_items n read_string r }"

definition read_default_strings :: "stream \<Rightarrow> (string list \<times> stream) option" where
  "read_default_strings r = do { (n, r) \<leftarrow> read_u32 r; read_items n read_string r }"

text \<open>
  \<^verbatim>\<open>read_node_references\<close>: places in the code where the byte code holds a node id, which are patched
  when the node is created. The result pairs the node found at a place with the place.
\<close>

definition code_node_at :: "byte list \<Rightarrow> nat \<Rightarrow> nat option" where
  "code_node_at code place = (if place + 8 \<le> length code then Some (le_nat (take 8 (drop place code))) else None)"

definition read_node_references :: "byte list \<Rightarrow> stream \<Rightarrow> ((nat \<times> nat) list \<times> stream) option" where
  "read_node_references code r =
     do { (n, r) \<leftarrow> read_u32 r; (places, r) \<leftarrow> read_items n read_u32 r;
          nodes \<leftarrow> those (map (code_node_at code) places);
          Some (zip nodes places, r) }"

definition read_consts ::
  "vtype list \<Rightarrow> stream \<Rightarrow> (vtype list \<times> byte list \<times> (nat \<times> nat) list \<times> stream) option" where
  "read_consts types r =
     do { (n, r) \<leftarrow> read_u32 r; (ts, r) \<leftarrow> read_type_ids n types r;
          (sz, r) \<leftarrow> read_u32 r; (code, r) \<leftarrow> read_any sz r;
          (refs, r) \<leftarrow> read_node_references code r;
          Some (ts, code, refs, r) }"

definition read_function :: "stream \<Rightarrow> ((byte list \<times> (nat \<times> nat) list) \<times> stream) option" where
  "read_function r =
     do { (sz, r) \<leftarrow> read_u32 r; (code, r) \<leftarrow> read_any sz r;
          (refs, r) \<leftarrow> read_node_references code r; Some ((code, refs), r) }"

definition read_functions :: "stream \<Rightarrow> ((byte list \<times> (nat \<times> nat) list) list \<times> stream) option" where
  "read_functions r = do { (n, r) \<leftarrow> read_u32 r; read_items n read_function r }"

record extern_decl =
  ex_name :: string
  ex_filename :: string
  ex_ret :: vtype
  ex_args :: "vtype list"

definition read_extern :: "vtype list \<Rightarrow> stream \<Rightarrow> (extern_decl \<times> stream) option" where
  "read_extern types r =
     do { (extern_id, r) \<leftarrow> read_u32 r;
          (name_buf, r) \<leftarrow> read_any 256 r; name \<leftarrow> c_string name_buf;
          (file_buf, r) \<leftarrow> read_any 1024 r; file \<leftarrow> c_string file_buf;
          (ptr, r) \<leftarrow> read_u64 r;
          (nargs, r) \<leftarrow> read_u32 r;
          (ret, r) \<leftarrow> read_type_id_from_reader types r;
          (args, r) \<leftarrow> read_type_ids nargs types r;
          Some (\<lparr>ex_name = name, ex_filename = file, ex_ret = ret, ex_args = args\<rparr>, r) }"

definition read_externs :: "vtype list \<Rightarrow> stream \<Rightarrow> (extern_decl list \<times> stream) option" where
  "read_externs types r = do { (n, r) \<leftarrow> read_u32 r; read_items n (read_extern types) r }"

subsection \<open>The predicates\<close>

datatype special_fact = JUST_MOVED | THREAD_LIST | OTHER_THREAD | LEADER_THREAD

record pred_tables =
  pt_preds :: "predicate list"
  pt_code_size :: "nat list"
  pt_special :: "special_fact \<rightharpoonup> nat"
  pt_max_strat_level :: nat
  pt_route :: "nat list"
  pt_thread :: "nat list"
  pt_thread_map :: bitmap
  pt_total_arguments :: nat
  pt_linear :: "nat list"
  pt_persistent :: "nat list"

definition mark_special :: "string \<Rightarrow> nat \<Rightarrow> (special_fact \<rightharpoonup> nat) \<Rightarrow> (special_fact \<rightharpoonup> nat)" where
  "mark_special name i m =
     (if name = ''just-moved'' then m(JUST_MOVED \<mapsto> i)
      else if name = ''thread-list'' then m(THREAD_LIST \<mapsto> i)
      else if name = ''other-thread'' then m(OTHER_THREAD \<mapsto> i)
      else if name = ''leader-thread'' then m(LEADER_THREAD \<mapsto> i)
      else m)"

text \<open>One iteration of the loop over the predicates, for predicate \<open>i\<close> with its code size.\<close>

definition add_loaded_predicate :: "nat \<Rightarrow> nat \<Rightarrow> predicate \<Rightarrow> pred_tables \<Rightarrow> pred_tables" where
  "add_loaded_predicate i sz p0 t =
     (let p = p0\<lparr>p_argument_position := pt_total_arguments t, p_has_code := (sz > 0),
                p_id2 := (if p_is_linear p0 then length (pt_linear t) else length (pt_persistent t))\<rparr>
      in t\<lparr>pt_preds := pt_preds t @ [p], pt_code_size := pt_code_size t @ [sz],
           pt_special := mark_special (p_name p) i (pt_special t),
           pt_max_strat_level := max (p_level p + 1) (pt_max_strat_level t),
           pt_route := (if is_route_pred p then pt_route t @ [i] else pt_route t),
           pt_thread := (if p_is_thread p then pt_thread t @ [i] else pt_thread t),
           pt_thread_map := (if p_is_thread p then bitmap_set_bit (pt_thread_map t) i else pt_thread_map t),
           pt_total_arguments := pt_total_arguments t + num_fields p,
           pt_linear := (if p_is_linear p then pt_linear t @ [i] else pt_linear t),
           pt_persistent := (if p_is_linear p then pt_persistent t else pt_persistent t @ [i])\<rparr>)"

text \<open>\<open>mem i\<close> is what the memory of the \<open>i\<close>-th predicate holds before.\<close>

fun load_predicates ::
  "(nat \<Rightarrow> predicate) \<Rightarrow> nat \<Rightarrow> nat \<Rightarrow> nat \<times> nat \<Rightarrow> vtype list \<Rightarrow> pred_tables \<Rightarrow> stream \<Rightarrow> (pred_tables \<times> stream) option" where
  "load_predicates mem 0 i v types t r = Some (t, r)"
| "load_predicates mem (Suc n) i v types t r =
     do { (sz, p, r) \<leftarrow> make_predicate_from_reader (mem i) i v types r;
          load_predicates mem n (Suc i) v types (add_loaded_predicate i sz p t) r }"

text \<open>\<open>g\<close> is the memory the allocator returns for the bitmap of thread predicates.\<close>

definition empty_pred_tables :: "bitmap \<Rightarrow> bitmap_type list \<Rightarrow> nat \<Rightarrow> pred_tables" where
  "empty_pred_tables b g n =
     \<lparr>pt_preds = [], pt_code_size = [], pt_special = (\<lambda>_. None), pt_max_strat_level = 0, pt_route = [], pt_thread = [],
      pt_thread_map = bitmap_create b g (next_multiple_of_uint n), pt_total_arguments = 0,
      pt_linear = [], pt_persistent = []\<rparr>"

definition cache_predicates :: "predicate list \<Rightarrow> (predicate list \<times> bool \<times> bool) option" where
  "cache_predicates ps =
     do { qs \<leftarrow> those (map (cache_info (length ps)) ps);
          Some (qs, \<exists>p\<in>set qs. is_aggregate_pred p,
                \<not> (\<exists>p\<in>set qs. case p_agg_info p of Some ai \<Rightarrow> is_unsafe_agg ai | None \<Rightarrow> False)) }"

definition sort_predicates :: "predicate list \<Rightarrow> nat list" where
  "sort_predicates ps = sort_key (\<lambda>i. p_name (ps ! i)) [0..<length ps]"

definition get_predicate_by_name :: "predicate list \<Rightarrow> string \<Rightarrow> nat option" where
  "get_predicate_by_name ps name = List.find (\<lambda>i. p_name (ps ! i) = name) [0..<length ps]"

subsection \<open>Priorities\<close>

datatype priority_type = PRIORITY_ASC | PRIORITY_DESC

record priorities =
  pi_order :: priority_type
  pi_static :: bool
  pi_initial :: float_val
  pi_default :: float_val
  pi_no :: float_val
  pi_is_data :: bool

text \<open>
  \<open>u_default\<close> and \<open>u_no\<close> are what the memory of \<^verbatim>\<open>default_priority\<close> and \<^verbatim>\<open>no_priority\<close> holds before: the
  branches for a file without priorities do not set them.
\<close>

definition read_priorities ::
  "float_val \<Rightarrow> float_val \<Rightarrow> nat \<times> nat \<Rightarrow> stream \<Rightarrow> (priorities \<times> stream) option" where
  "read_priorities u_default u_no v r =
     do { (global_info, r) \<leftarrow> read_byte r;
          let p = \<lparr>pi_order = PRIORITY_DESC, pi_static = False, pi_initial = initial_priority_value0 True,
                   pi_default = u_default, pi_no = u_no, pi_is_data = False\<rparr>;
          if global_info = 0x01 then None
          else if global_info = 0x02 then
            do { (ty, r) \<leftarrow> read_byte r;
                 (asc_desc, r) \<leftarrow> read_byte r;
                 let order = (if bit asc_desc 0 then PRIORITY_ASC else PRIORITY_DESC);
                 (initial, r) \<leftarrow> read_u64 r;
                 (dflt, no, r) \<leftarrow> (if version_at_least v 0 14
                    then do { (d, r) \<leftarrow> read_u64 r; (n, r) \<leftarrow> read_u64 r; Some (d, n, r) }
                    else let x = no_priority_value0 (order = PRIORITY_DESC) in Some (x, x, r));
                 Some (p\<lparr>pi_order := order, pi_static := bit asc_desc 1, pi_initial := initial,
                         pi_default := dflt, pi_no := no\<rparr>, r) }
          else if global_info = 0x03 then Some (p\<lparr>pi_is_data := True\<rparr>, r)
          else Some (p, r) }"

subsection \<open>Code\<close>

fun read_predicate_code ::
  "nat list \<Rightarrow> stream \<Rightarrow> ((byte list \<times> (nat \<times> nat) list) option list \<times> stream) option" where
  "read_predicate_code [] r = Some ([], r)"
| "read_predicate_code (sz # sizes) r =
     do { (c, r) \<leftarrow> (if sz > 0
             then do { (code, r) \<leftarrow> read_any sz r; (refs, r) \<leftarrow> read_node_references code r;
                       Some (Some (code, refs), r) }
             else Some (None, r));
          (cs, r) \<leftarrow> read_predicate_code sizes r;
          Some (c # cs, r) }"

definition read_rule_code ::
  "stream \<Rightarrow> ((byte list \<times> (nat \<times> nat) list \<times> nat list) \<times> stream) option" where
  "read_rule_code r =
     do { (sz, r) \<leftarrow> read_u32 r; (code, r) \<leftarrow> read_any sz r;
          (refs, r) \<leftarrow> read_node_references code r;
          (np, r) \<leftarrow> read_u32 r; (ids, r) \<leftarrow> read_items np read_byte r;
          Some ((code, refs, map unat ids), r) }"

definition read_rules_code ::
  "stream \<Rightarrow> ((byte list \<times> (nat \<times> nat) list \<times> nat list) list \<times> stream) option" where
  "read_rules_code r = do { (n, r) \<leftarrow> read_u32 r; read_items n read_rule_code r }"

subsection \<open>The program\<close>

record program =
  pg_version :: "nat \<times> nat"
  pg_num_nodes :: nat
  pg_types :: "vtype list"
  pg_imports :: "(string \<times> string \<times> string) list"
  pg_exports :: "string list"
  pg_num_args :: nat
  pg_rule_strings :: "string list"
  pg_strings :: "string list"
  pg_const_types :: "vtype list"
  pg_const_code :: "byte list"
  pg_functions :: "(byte list \<times> (nat \<times> nat) list) list"
  pg_externs :: "extern_decl list"
  pg_preds :: "predicate list"
  pg_sorted :: "nat list"
  pg_tables :: pred_tables
  pg_has_aggregates :: bool
  pg_safe :: bool
  pg_priorities :: priorities
  pg_code :: "(byte list \<times> (nat \<times> nat) list) option list"
  pg_rules :: "(byte list \<times> (nat \<times> nat) list \<times> nat list) list"

definition database_node_size :: nat where
  "database_node_size = 16"

definition load_body ::
  "(nat \<Rightarrow> predicate) \<Rightarrow> bitmap \<Rightarrow> bitmap_type list \<Rightarrow> float_val \<Rightarrow> float_val \<Rightarrow> nat \<times> nat \<Rightarrow> stream \<Rightarrow> program option" where
  "load_body mem b g u_default u_no v r =
     do { (num_preds, r) \<leftarrow> read_byte r;
          (num_nodes, r) \<leftarrow> read_u32 r;
          r \<leftarrow> reader_seek (num_nodes * database_node_size) r;
          (types, r) \<leftarrow> read_type_table r;
          (imports, exports, r) \<leftarrow> read_imports r;
          (n_args, r) \<leftarrow> read_byte r;
          (rule_strings, r) \<leftarrow> read_rule_strings r;
          (strings, r) \<leftarrow> read_default_strings r;
          (const_types, const_code, const_refs, r) \<leftarrow> read_consts types r;
          (functions, r) \<leftarrow> read_functions r;
          (externs, r) \<leftarrow> read_externs types r;
          (t, r) \<leftarrow> load_predicates mem (unat num_preds) 0 v types (empty_pred_tables b g (unat num_preds)) r;
          (preds, has_agg, safe) \<leftarrow> cache_predicates (pt_preds t);
          (prio, r) \<leftarrow> read_priorities u_default u_no v r;
          (code, r) \<leftarrow> read_predicate_code (pt_code_size t) r;
          (rules, r) \<leftarrow> read_rules_code r;
          Some \<lparr>pg_version = v, pg_num_nodes = num_nodes, pg_types = types, pg_imports = imports, pg_exports = exports,
            pg_num_args = unat n_args, pg_rule_strings = rule_strings, pg_strings = strings,
            pg_const_types = const_types, pg_const_code = const_code, pg_functions = functions,
            pg_externs = externs, pg_preds = preds, pg_sorted = sort_predicates (pt_preds t), pg_tables = t,
            pg_has_aggregates = has_agg, pg_safe = safe, pg_priorities = prio, pg_code = code, pg_rules = rules\<rparr> }"

definition load_program ::
  "(nat \<Rightarrow> predicate) \<Rightarrow> bitmap \<Rightarrow> bitmap_type list \<Rightarrow> float_val \<Rightarrow> float_val \<Rightarrow> stream \<Rightarrow> load_error + program" where
  "load_program mem b g u_default u_no r =
     (case read_header r of
        Inl e \<Rightarrow> Inl e
      | Inr (v, r) \<Rightarrow> (case load_body mem b g u_default u_no v r of None \<Rightarrow> Inl Bad_file | Some p \<Rightarrow> Inr p))"

subsection \<open>The tables the predicates are indexed by\<close>

text \<open>
  What holds after any number of iterations of the loop over the predicates, for a bitmap of \<open>w\<close>
  words.
\<close>

definition pred_tables_ok :: "nat \<Rightarrow> pred_tables \<Rightarrow> bool" where
  "pred_tables_ok w t \<longleftrightarrow> length (pt_code_size t) = length (pt_preds t)
     \<and> pt_linear t = filter (\<lambda>j. p_is_linear (pt_preds t ! j)) [0..<length (pt_preds t)]
     \<and> pt_persistent t = filter (\<lambda>j. \<not> p_is_linear (pt_preds t ! j)) [0..<length (pt_preds t)]
     \<and> pt_thread t = filter (\<lambda>j. p_is_thread (pt_preds t ! j)) [0..<length (pt_preds t)]
     \<and> pt_route t = filter (\<lambda>j. is_route_pred (pt_preds t ! j)) [0..<length (pt_preds t)]
     \<and> wf_bitmap w (pt_thread_map t) \<and> bitmap_set w (pt_thread_map t) = set (pt_thread t)
     \<and> pt_total_arguments t = sum_list (map num_fields (pt_preds t))
     \<and> (\<forall>j < length (pt_preds t). p_id (pt_preds t ! j) = j \<and> p_level (pt_preds t ! j) < pt_max_strat_level t
         \<and> p_argument_position (pt_preds t ! j) = sum_list (map num_fields (take j (pt_preds t)))
         \<and> (let ids = (if p_is_linear (pt_preds t ! j) then pt_linear t else pt_persistent t)
            in p_id2 (pt_preds t ! j) < length ids \<and> ids ! p_id2 (pt_preds t ! j) = j))"

lemma filter_upt_append:
  "filter (\<lambda>j. P ((xs @ [x]) ! j)) [0..<length (xs @ [x])]
   = filter (\<lambda>j. P (xs ! j)) [0..<length xs] @ (if P x then [length xs] else [])"
proof -
  have "filter (\<lambda>j. P ((xs @ [x]) ! j)) [0..<length xs] = filter (\<lambda>j. P (xs ! j)) [0..<length xs]"
    by (rule filter_cong) (auto simp: nth_append)
  then show ?thesis by simp
qed

lemma add_loaded_predicate_ok:
  assumes "pred_tables_ok w t" "length (pt_preds t) < 64 * w" "p_id p = length (pt_preds t)"
  shows "pred_tables_ok w (add_loaded_predicate (length (pt_preds t)) sz p t)"
proof -
  let ?i = "length (pt_preds t)" and ?t = "add_loaded_predicate (length (pt_preds t)) sz p t"
  define q where "q = p\<lparr>p_argument_position := pt_total_arguments t, p_has_code := (sz > 0),
     p_id2 := (if p_is_linear p then length (pt_linear t) else length (pt_persistent t))\<rparr>"
  have q: "p_is_linear q = p_is_linear p" "p_is_thread q = p_is_thread p" "is_route_pred q = is_route_pred p"
      "p_level q = p_level p" "num_fields q = num_fields p" "p_id q = ?i"
      "p_argument_position q = pt_total_arguments t" "p_name q = p_name p"
      "p_id2 q = (if p_is_linear p then length (pt_linear t) else length (pt_persistent t))"
    using assms(3) by (simp_all add: q_def is_route_pred_def num_fields_def)
  have ps: "pt_preds ?t = pt_preds t @ [q]" by (simp add: add_loaded_predicate_def q_def Let_def)
  have old: "(pt_preds t @ [q]) ! j = pt_preds t ! j" if "j < ?i" for j using that by (simp add: nth_append)
  have lists: "pt_linear ?t = (if p_is_linear p then pt_linear t @ [?i] else pt_linear t)"
      "pt_persistent ?t = (if p_is_linear p then pt_persistent t else pt_persistent t @ [?i])"
      "pt_thread ?t = (if p_is_thread p then pt_thread t @ [?i] else pt_thread t)"
      "pt_route ?t = (if is_route_pred p then pt_route t @ [?i] else pt_route t)"
      "pt_thread_map ?t = (if p_is_thread p then bitmap_set_bit (pt_thread_map t) ?i else pt_thread_map t)"
      "pt_max_strat_level ?t = max (p_level p + 1) (pt_max_strat_level t)"
      "pt_total_arguments ?t = pt_total_arguments t + num_fields p"
      "length (pt_code_size ?t) = length (pt_code_size t) + 1"
    using q by (simp_all add: add_loaded_predicate_def q_def [symmetric] Let_def)
  have ok: "pt_linear t = filter (\<lambda>j. p_is_linear (pt_preds t ! j)) [0..<?i]"
      "pt_persistent t = filter (\<lambda>j. \<not> p_is_linear (pt_preds t ! j)) [0..<?i]"
      "pt_thread t = filter (\<lambda>j. p_is_thread (pt_preds t ! j)) [0..<?i]"
      "pt_route t = filter (\<lambda>j. is_route_pred (pt_preds t ! j)) [0..<?i]"
      "wf_bitmap w (pt_thread_map t)" "bitmap_set w (pt_thread_map t) = set (pt_thread t)"
      "length (pt_code_size t) = ?i" "pt_total_arguments t = sum_list (map num_fields (pt_preds t))"
    using assms(1) by (auto simp: pred_tables_ok_def)
  have map: "wf_bitmap w (pt_thread_map ?t) \<and> bitmap_set w (pt_thread_map ?t) = set (pt_thread ?t)"
    using ok(5,6) bm.inv_put [OF ok(5) assms(2)] bm.put_elems [OF ok(5) assms(2)]
    by (simp add: lists bitmap_set_def)
  have "p_id (pt_preds ?t ! j) = j \<and> p_level (pt_preds ?t ! j) < pt_max_strat_level ?t
      \<and> p_argument_position (pt_preds ?t ! j) = sum_list (map num_fields (take j (pt_preds ?t)))
      \<and> (let ids = (if p_is_linear (pt_preds ?t ! j) then pt_linear ?t else pt_persistent ?t)
         in p_id2 (pt_preds ?t ! j) < length ids \<and> ids ! p_id2 (pt_preds ?t ! j) = j)"
    if "j < length (pt_preds ?t)" for j
  proof (cases "j = ?i")
    case True
    then show ?thesis using q ok(8) by (simp add: ps lists Let_def)
  next
    case False
    then have j: "j < ?i" using that by (simp add: ps)
    have o: "p_id (pt_preds t ! j) = j \<and> p_level (pt_preds t ! j) < pt_max_strat_level t
      \<and> p_argument_position (pt_preds t ! j) = sum_list (map num_fields (take j (pt_preds t)))
      \<and> (let ids = (if p_is_linear (pt_preds t ! j) then pt_linear t else pt_persistent t)
         in p_id2 (pt_preds t ! j) < length ids \<and> ids ! p_id2 (pt_preds t ! j) = j)"
      using assms(1) j by (simp add: pred_tables_ok_def)
    then show ?thesis unfolding ps old [OF j] lists
      using j by (auto simp: Let_def nth_append split: if_splits)
  qed
  moreover have "pt_linear ?t = filter (\<lambda>j. p_is_linear (pt_preds ?t ! j)) [0..<length (pt_preds ?t)]"
    unfolding ps filter_upt_append [of p_is_linear] lists ok(1) [symmetric] q by simp
  moreover have "pt_persistent ?t = filter (\<lambda>j. \<not> p_is_linear (pt_preds ?t ! j)) [0..<length (pt_preds ?t)]"
    unfolding ps filter_upt_append [of "\<lambda>p. \<not> p_is_linear p"] lists ok(2) [symmetric] q by simp
  moreover have "pt_thread ?t = filter (\<lambda>j. p_is_thread (pt_preds ?t ! j)) [0..<length (pt_preds ?t)]"
    unfolding ps filter_upt_append [of p_is_thread] lists ok(3) [symmetric] q by simp
  moreover have "pt_route ?t = filter (\<lambda>j. is_route_pred (pt_preds ?t ! j)) [0..<length (pt_preds ?t)]"
    unfolding ps filter_upt_append [of is_route_pred] lists ok(4) [symmetric] q by simp
  moreover have "length (pt_code_size ?t) = length (pt_preds ?t)"
      "pt_total_arguments ?t = sum_list (map num_fields (pt_preds ?t))"
    using ok(7,8) q by (simp_all add: ps lists)
  ultimately show ?thesis unfolding pred_tables_ok_def using map by blast
qed

lemma make_predicate_id:
  "make_predicate_from_reader m pid v types r = Some (sz, p, r') \<Longrightarrow> p_id p = pid"
  unfolding make_predicate_from_reader_def set_prop_def
  by (auto simp: Let_def split: Option.bind_splits if_splits prod.splits)

lemma load_predicates_ok:
  assumes "load_predicates mem n (length (pt_preds t)) v types t r = Some (t', r')"
    "pred_tables_ok w t" "length (pt_preds t) + n \<le> 64 * w"
  shows "pred_tables_ok w t' \<and> length (pt_preds t') = length (pt_preds t) + n"
  using assms
proof (induction n arbitrary: t r)
  case (Suc n)
  let ?i = "length (pt_preds t)"
  from Suc.prems(1) obtain sz p r1 where
    m: "make_predicate_from_reader (mem ?i) ?i v types r = Some (sz, p, r1)"
      "load_predicates mem n (Suc ?i) v types (add_loaded_predicate ?i sz p t) r1 = Some (t', r')"
    by (auto split: Option.bind_splits)
  have l: "length (pt_preds (add_loaded_predicate ?i sz p t)) = Suc ?i"
    by (simp add: add_loaded_predicate_def Let_def)
  have "pred_tables_ok w (add_loaded_predicate ?i sz p t)"
    using add_loaded_predicate_ok [OF Suc.prems(2) _ make_predicate_id [OF m(1)]] Suc.prems(3) by simp
  from Suc.IH [OF _ this, of r1] m(2) l Suc.prems(3) show ?case by simp
qed simp

lemma empty_pred_tables_ok:
  assumes "0 < n" "next_multiple_of_uint n - 1 \<le> length g"
  shows "pred_tables_ok (next_multiple_of_uint n) (empty_pred_tables b g n)"
  using bitmap_create_spec [of "next_multiple_of_uint n" g b] assms next_multiple_of_uint_pos [OF assms(1)]
  by (simp add: pred_tables_ok_def empty_pred_tables_def)

lemma load_body_tables:
  assumes "load_body mem b g ud un v r = Some pg"
  shows "\<exists>n r1 r2 types. n < 256 \<and> load_predicates mem n 0 v types (empty_pred_tables b g n) r1 = Some (pg_tables pg, r2)
    \<and> those (map (cache_info (length (pt_preds (pg_tables pg)))) (pt_preds (pg_tables pg))) = Some (pg_preds pg)
    \<and> pg_sorted pg = sort_predicates (pt_preds (pg_tables pg))"
proof -
  have lt: "unat (x :: byte) < 256" for x using unsigned_less [of x] by simp
  show ?thesis using assms unfolding load_body_def cache_predicates_def
    by (clarsimp split: Option.bind_splits prod.splits) (use lt in blast)
qed

subsection \<open>Properties\<close>

lemma read_header_bytes:
  assumes "m1 < 2 ^ 32" "m2 < 2 ^ 32" "major < 2 ^ 32" "minor < 2 ^ 32"
  shows "read_header (to_le 4 m1 @ to_le 4 m2 @ to_le 4 major @ to_le 4 minor @ r) =
    (if m1 \<noteq> MAGIC1 \<or> m2 \<noteq> MAGIC2 then Inl Not_a_meld_file
     else if major \<noteq> 0 \<or> minor < 11 \<or> 15 \<le> minor then Inl Unsupported_version
     else Inr ((major, minor), r))"
  using assms by (auto simp: read_header_def version_at_least_def)

text \<open>
  C30. The loader accepts exactly byte-code files with the two magic numbers and a version from 0.11
  to 0.14; every other first sixteen bytes are rejected with the right error before anything else is
  read.
\<close>

theorem load_program_versions:
  assumes "m1 < 2 ^ 32" "m2 < 2 ^ 32" "major < 2 ^ 32" "minor < 2 ^ 32"
  shows "load_program mem b g ud un (to_le 4 m1 @ to_le 4 m2 @ to_le 4 major @ to_le 4 minor @ r) =
    (if m1 \<noteq> MAGIC1 \<or> m2 \<noteq> MAGIC2 then Inl Not_a_meld_file
     else if major \<noteq> 0 \<or> minor < 11 \<or> 15 \<le> minor then Inl Unsupported_version
     else (case load_body mem b g ud un (0, minor) r of None \<Rightarrow> Inl Bad_file | Some pg \<Rightarrow> Inr pg))"
  unfolding load_program_def read_header_bytes [OF assms] by simp

theorem load_program_versions_witness:
  "load_program (\<lambda>_. zero_predicate) \<lparr>bm_first = 0, bm_rest = []\<rparr> [] 0 0 (to_le 4 MAGIC1 @ to_le 4 MAGIC2 @ to_le 4 0 @ to_le 4 10 @ [])
     = Inl Unsupported_version"
  by (subst load_program_versions) simp_all

text \<open>
  C31. The tables of a loaded program are consistent. Every predicate carries its own index; linear
  and persistent predicates are numbered separately and the number of a predicate leads back to it
  in the table of its kind; the bitmap of thread predicates holds exactly the thread predicates;
  every stratification level is below \<^verbatim>\<open>MAX_STRAT_LEVEL\<close>; the argument positions of the predicates
  follow each other and end at the total number of arguments.
\<close>

theorem load_program_tables:
  assumes "load_program mem b g ud un bytes = Inr pg" "3 \<le> length g" "pt_preds (pg_tables pg) \<noteq> []"
  shows "let t = pg_tables pg; ps = pt_preds t in
    (\<forall>j < length ps. p_id (ps ! j) = j \<and> p_level (ps ! j) < pt_max_strat_level t
      \<and> p_argument_position (ps ! j) = sum_list (map num_fields (take j ps))
      \<and> (p_is_linear (ps ! j) \<longrightarrow> pt_linear t ! p_id2 (ps ! j) = j)
      \<and> (\<not> p_is_linear (ps ! j) \<longrightarrow> pt_persistent t ! p_id2 (ps ! j) = j))
    \<and> bitmap_set (next_multiple_of_uint (length ps)) (pt_thread_map t) = {j. j < length ps \<and> p_is_thread (ps ! j)}
    \<and> pt_total_arguments t = sum_list (map num_fields ps)
    \<and> set (pt_linear t) \<union> set (pt_persistent t) = {..<length ps} \<and> set (pt_linear t) \<inter> set (pt_persistent t) = {}"
proof -
  from assms(1) obtain v r where "load_body mem b g ud un v r = Some pg"
    by (auto simp: load_program_def split: sum.splits option.splits)
  from load_body_tables [OF this] obtain n r1 r2 types where
    l: "n < 256" "load_predicates mem n 0 v types (empty_pred_tables b g n) r1 = Some (pg_tables pg, r2)" by blast
  have n0: "n \<noteq> 0"
  proof
    assume "n = 0"
    with l(2) have "pg_tables pg = empty_pred_tables b g n" by simp
    with assms(3) show False by (simp add: empty_pred_tables_def)
  qed
  have "next_multiple_of_uint n \<le> 4" using l(1) by (simp add: next_multiple_of_uint_def Let_def) linarith
  then have "pred_tables_ok (next_multiple_of_uint n) (empty_pred_tables b g n)"
    using empty_pred_tables_ok n0 assms(2) by simp
  moreover have e: "length (pt_preds (empty_pred_tables b g n)) = 0" by (simp add: empty_pred_tables_def)
  ultimately have "pred_tables_ok (next_multiple_of_uint n) (pg_tables pg) \<and> length (pt_preds (pg_tables pg)) = n"
    using load_predicates_ok [of mem n "empty_pred_tables b g n" v types r1 "pg_tables pg" r2] l(2)
      next_multiple_of_uint_bound [of n] by simp
  then show ?thesis unfolding pred_tables_ok_def Let_def by auto
qed

definition example_file :: stream where
  "example_file = to_le 4 MAGIC1 @ to_le 4 MAGIC2 @ to_le 4 0 @ to_le 4 13
     @ [1] @ to_le 4 0 @ [1, 0x0] @ to_le 4 0 @ to_le 4 0 @ [0] @ to_le 4 0 @ to_le 4 0
     @ to_le 4 0 @ to_le 4 0 @ to_le 4 0 @ to_le 4 0 @ to_le 4 0
     @ to_le 4 0 @ [0x08, 0, 0, 0, 0, 1] @ [0] @ ([112] @ replicate 31 0) @ replicate 32 0
     @ [0] @ to_le 4 0"

lemma example_predicate:
  "make_predicate_from_reader m 0 (0, 13) [BaseT FIELD_INT]
     (to_le 4 0 @ [0x08, 0, 0, 0, 0, 1] @ [0] @ ([112] @ replicate 31 0) @ replicate 32 0 @ r)
   = Some (0, (new_predicate m)\<lparr>p_id := 0, p_name := ''p'', p_types := [BaseT FIELD_INT], p_is_linear := True\<rparr>, r)"
proof -
  have n: "c_string ([112] @ replicate 31 0) = Some ''p''"
    using c_string_padded [of "[112]" 31] by (simp add: char_of_def bit_iff_odd)
  show ?thesis
    using predicate_descriptor_read [OF _ _ _ _ n, of 0 "[0]" "[BaseT FIELD_INT]" "replicate 32 0" 13 m 0 8 0 0 0 0 r]
    by (simp add: new_predicate_def zero_predicate_def bit_iff_odd)
qed

lemma example_sections:
  "read_u32 (to_le 4 0 @ r) = Some (0, r)"
  "read_imports (to_le 4 0 @ to_le 4 0 @ r) = Some ([], [], r)"
  "read_rule_strings (to_le 4 0 @ r) = Some ([], r)" "read_default_strings (to_le 4 0 @ r) = Some ([], r)"
  "read_consts types (to_le 4 0 @ to_le 4 0 @ to_le 4 0 @ r) = Some ([], [], [], r)"
  "read_functions (to_le 4 0 @ r) = Some ([], r)" "read_externs types (to_le 4 0 @ r) = Some ([], r)"
  "read_rules_code (to_le 4 0 @ r) = Some ([], r)"
  "read_type_table (1 # 0 # r) = Some ([BaseT FIELD_INT], r)"
  by (simp_all add: read_imports_def read_rule_strings_def read_default_strings_def read_consts_def
      read_node_references_def read_functions_def read_externs_def read_rules_code_def read_any_def
      read_type_table_def read_type_from_reader_def field_type_of_byte_def)

lemma example_tables:
  "load_predicates mem (unat (1 :: byte)) 0 (0, 13) [BaseT FIELD_INT] (empty_pred_tables b g (unat (1 :: byte)))
     (to_le 4 0 @ [0x08, 0, 0, 0, 0, 1] @ [0] @ ([112] @ replicate 31 0) @ replicate 32 0 @ r)
   = Some (add_loaded_predicate 0 0 ((new_predicate (mem 0))\<lparr>p_id := 0, p_name := ''p'', p_types := [BaseT FIELD_INT], p_is_linear := True\<rparr>)
       (empty_pred_tables b g 1), r)"
  unfolding example_predicate unat_1 One_nat_def load_predicates.simps by simp

lemma example_file_loads:
  "\<exists>pg. load_program (\<lambda>_. zero_predicate) \<lparr>bm_first = 0, bm_rest = []\<rparr> [0, 0, 0] 0 0 example_file = Inr pg
     \<and> map p_is_thread (pt_preds (pg_tables pg)) = [False]"
proof -
  let ?t = "add_loaded_predicate 0 0 ((new_predicate zero_predicate)\<lparr>p_id := 0, p_name := ''p'', p_types := [BaseT FIELD_INT], p_is_linear := True\<rparr>)
       (empty_pred_tables \<lparr>bm_first = 0, bm_rest = []\<rparr> [0, 0, 0] 1)"
  have ps: "pt_preds ?t = [(new_predicate zero_predicate)\<lparr>p_id := 0, p_name := ''p'', p_types := [BaseT FIELD_INT], p_is_linear := True,
      p_has_code := False\<rparr>]" "pt_code_size ?t = [0]"
    by (simp_all add: add_loaded_predicate_def empty_pred_tables_def Let_def new_predicate_def zero_predicate_def)
  have c: "\<exists>x. cache_predicates (pt_preds ?t) = Some x"
    unfolding ps by (auto simp: cache_predicates_def cache_info_def build_field_info_def type_size_def new_predicate_def zero_predicate_def)
  then obtain qs ha sf where c: "cache_predicates (pt_preds ?t) = Some (qs, ha, sf)" by auto
  have p: "\<exists>x. read_priorities 0 0 (0, 13) (0 # r) = Some (x, r)" for r by (simp add: read_priorities_def)
  then obtain x where p: "read_priorities 0 0 (0, 13) (0 # to_le 4 0) = Some (x, to_le 4 0)" by blast
  have th: "map p_is_thread (pt_preds ?t) = [False]" unfolding ps by (simp add: new_predicate_def zero_predicate_def)
  have rr: "read_rules_code (to_le 4 0) = Some ([], [])" using example_sections(8) [of "[]"] by simp
  have "\<exists>pg. load_body (\<lambda>_. zero_predicate) \<lparr>bm_first = 0, bm_rest = []\<rparr> [0, 0, 0] 0 0 (0, 13)
      ([1] @ to_le 4 0 @ [1, 0x0] @ to_le 4 0 @ to_le 4 0 @ [0] @ to_le 4 0 @ to_le 4 0
       @ to_le 4 0 @ to_le 4 0 @ to_le 4 0 @ to_le 4 0 @ to_le 4 0
       @ to_le 4 0 @ [0x08, 0, 0, 0, 0, 1] @ [0] @ ([112] @ replicate 31 0) @ replicate 32 0
       @ [0] @ to_le 4 0) = Some pg \<and> pg_tables pg = ?t"
    unfolding load_body_def
    by (simp only: append_Cons append_Nil read_byte_Cons Option.bind.bind_lunit prod.case example_sections
        reader_seek_def mult_zero_left le0 if_True drop_0
        example_tables [simplified append_Cons append_Nil] c [unfolded ps(1)] ps p rr read_predicate_code.simps if_False less_irrefl)
      simp
  then obtain pg where pg: "load_body (\<lambda>_. zero_predicate) \<lparr>bm_first = 0, bm_rest = []\<rparr> [0, 0, 0] 0 0 (0, 13)
      ([1] @ to_le 4 0 @ [1, 0x0] @ to_le 4 0 @ to_le 4 0 @ [0] @ to_le 4 0 @ to_le 4 0
       @ to_le 4 0 @ to_le 4 0 @ to_le 4 0 @ to_le 4 0 @ to_le 4 0
       @ to_le 4 0 @ [0x08, 0, 0, 0, 0, 1] @ [0] @ ([112] @ replicate 31 0) @ replicate 32 0
       @ [0] @ to_le 4 0) = Some pg" "pg_tables pg = ?t" by blast
  have "load_program (\<lambda>_. zero_predicate) \<lparr>bm_first = 0, bm_rest = []\<rparr> [0, 0, 0] 0 0 example_file = Inr pg"
    unfolding load_program_def example_file_def by (subst read_header_bytes) (simp_all add: pg(1) [simplified])
  with pg(2) th show ?thesis by auto
qed

theorem load_program_tables_witness:
  "\<exists>pg. load_program (\<lambda>_. zero_predicate) \<lparr>bm_first = 0, bm_rest = []\<rparr> [0, 0, 0] 0 0 example_file = Inr pg
     \<and> bitmap_set (next_multiple_of_uint (length (pt_preds (pg_tables pg)))) (pt_thread_map (pg_tables pg)) = {}"
proof -
  obtain pg where pg: "load_program (\<lambda>_. zero_predicate) \<lparr>bm_first = 0, bm_rest = []\<rparr> [0, 0, 0] 0 0 example_file = Inr pg"
      "map p_is_thread (pt_preds (pg_tables pg)) = [False]"
    using example_file_loads by (elim exE conjE)
  define ps where "ps = pt_preds (pg_tables pg)"
  have m: "map p_is_thread ps = [False]" using pg(2) by (simp add: ps_def)
  then have "length ps = 1" "\<not> p_is_thread (ps ! 0)" by (cases ps; simp)+
  then have l: "length (pt_preds (pg_tables pg)) = 1" "\<not> p_is_thread (pt_preds (pg_tables pg) ! 0)"
    by (simp_all only: ps_def not_False_eq_True simp_thms)
  then have ne: "pt_preds (pg_tables pg) \<noteq> []" by auto
  have "3 \<le> length [0, 0, 0 :: bitmap_type]" by simp
  note r = load_program_tables [OF pg(1) this ne, unfolded Let_def, THEN conjunct2, THEN conjunct1]
  have "{j. j < length (pt_preds (pg_tables pg)) \<and> p_is_thread (pt_preds (pg_tables pg) ! j)} = {}"
    using l by auto
  with pg(1) r show ?thesis by simp
qed

end
