(* ===== verification/Instr.thy ===== *)
theory Instr
  imports Vm_Predicate
begin

text \<open>
  The byte-code format of the virtual machine (\<^verbatim>\<open>vm/instr.hpp\<close>): the sizes of the operands and of
  the instructions, the instruction codes, the functions that decode operands, and \<^verbatim>\<open>advance\<close>, which
  gives the address of the instruction that follows. Byte code is a list of bytes and a program
  counter an index into it; a decoder returns None when it reads outside the code. The theorems show
  that \<^verbatim>\<open>advance\<close> accepts exactly the declared instruction codes and always moves forward over an
  instruction of constant size, and that the header of the iterators and of the calls is decoded as
  it is laid out.
\<close>

type_synonym byte_code = "byte list"
type_synonym pcounter = nat

subsection \<open>Sizes of operands and instructions\<close>

definition type_size_code :: nat where [vm_size_simps]: "type_size_code = 1"
definition predicate_size :: nat where [vm_size_simps]: "predicate_size = 1"
definition extern_id_size :: nat where [vm_size_simps]: "extern_id_size = 1"
definition instr_size :: nat where [vm_size_simps]: "instr_size = 1"
definition field_size :: nat where [vm_size_simps]: "field_size = 2 * 1"
definition iter_match_size :: nat where [vm_size_simps]: "iter_match_size = 2 * 1"
definition val_size :: nat where [vm_size_simps]: "val_size = 1"
definition int_size :: nat where [vm_size_simps]: "int_size = 4"
definition uint_size :: nat where [vm_size_simps]: "uint_size = 4"
definition float_size :: nat where [vm_size_simps]: "float_size = 8"
definition node_size :: nat where [vm_size_simps]: "node_size = 8"
definition string_size :: nat where [vm_size_simps]: "string_size = 4"
definition ptr_size :: nat where [vm_size_simps]: "ptr_size = 8"
definition const_id_size :: nat where [vm_size_simps]: "const_id_size = uint_size"
definition bool_size :: nat where [vm_size_simps]: "bool_size = 1"
definition argument_size :: nat where [vm_size_simps]: "argument_size = 1"
definition reg_size :: nat where [vm_size_simps]: "reg_size = 0"
definition reg_val_size :: nat where [vm_size_simps]: "reg_val_size = 1"
definition host_size :: nat where [vm_size_simps]: "host_size = 0"
definition nil_size :: nat where [vm_size_simps]: "nil_size = 0"
definition non_nil_size :: nat where [vm_size_simps]: "non_nil_size = 0"
definition any_size :: nat where [vm_size_simps]: "any_size = 0"
definition tuple_size_code :: nat where [vm_size_simps]: "tuple_size_code = 0"
definition index_size :: nat where [vm_size_simps]: "index_size = 1"
definition jump_size :: nat where [vm_size_simps]: "jump_size = 4"
definition count_size :: nat where [vm_size_simps]: "count_size = 1"
definition stack_val_size :: nat where [vm_size_simps]: "stack_val_size = 1"
definition pcounter_val_size :: nat where [vm_size_simps]: "pcounter_val_size = 0"
definition operation_size :: nat where [vm_size_simps]: "operation_size = instr_size + 3 * reg_val_size"
definition call_size :: nat where [vm_size_simps]: "call_size = instr_size + extern_id_size + reg_val_size + type_size_code + bool_size"
definition iter_options_size :: nat where [vm_size_simps]: "iter_options_size = 2 * 1"
definition SEND_BASE :: nat where [vm_size_simps]: "SEND_BASE = instr_size + 2 * reg_val_size"
definition THREAD_SEND_BASE :: nat where [vm_size_simps]: "THREAD_SEND_BASE = SEND_BASE"
definition OP_BASE :: nat where [vm_size_simps]: "OP_BASE = instr_size + 4"
definition ITER_BASE0 :: nat where [vm_size_simps]: "ITER_BASE0 = instr_size + ptr_size + predicate_size + reg_val_size + bool_size + 2 * jump_size"
definition ITER_BASE :: nat where [vm_size_simps]: "ITER_BASE = ITER_BASE0 + count_size"
definition OITER_BASE :: nat where [vm_size_simps]: "OITER_BASE = ITER_BASE + iter_options_size"
definition PERS_ITER_BASE :: nat where [vm_size_simps]: "PERS_ITER_BASE = ITER_BASE"
definition TPERS_ITER_BASE :: nat where [vm_size_simps]: "TPERS_ITER_BASE = ITER_BASE"
definition LINEAR_ITER_BASE :: nat where [vm_size_simps]: "LINEAR_ITER_BASE = ITER_BASE"
definition TLINEAR_ITER_BASE :: nat where [vm_size_simps]: "TLINEAR_ITER_BASE = ITER_BASE"
definition TRLINEAR_ITER_BASE :: nat where [vm_size_simps]: "TRLINEAR_ITER_BASE = ITER_BASE"
definition RLINEAR_ITER_BASE :: nat where [vm_size_simps]: "RLINEAR_ITER_BASE = ITER_BASE"
definition OPERS_ITER_BASE :: nat where [vm_size_simps]: "OPERS_ITER_BASE = OITER_BASE"
definition OLINEAR_ITER_BASE :: nat where [vm_size_simps]: "OLINEAR_ITER_BASE = OITER_BASE"
definition ORLINEAR_ITER_BASE :: nat where [vm_size_simps]: "ORLINEAR_ITER_BASE = OITER_BASE"
definition ALLOC_BASE :: nat where [vm_size_simps]: "ALLOC_BASE = instr_size + predicate_size + 2 * reg_val_size"
definition CALL_BASE :: nat where [vm_size_simps]: "CALL_BASE = call_size + count_size"
definition IF_BASE :: nat where [vm_size_simps]: "IF_BASE = instr_size + 1 + jump_size"
definition TESTNIL_BASE :: nat where [vm_size_simps]: "TESTNIL_BASE = instr_size + reg_val_size + reg_val_size"
definition HEAD_BASE :: nat where [vm_size_simps]: "HEAD_BASE = instr_size + 3"
definition NOT_BASE :: nat where [vm_size_simps]: "NOT_BASE = instr_size + 2 * reg_val_size"
definition RETURN_BASE :: nat where [vm_size_simps]: "RETURN_BASE = instr_size"
definition NEXT_BASE :: nat where [vm_size_simps]: "NEXT_BASE = instr_size"
definition FLOAT_BASE :: nat where [vm_size_simps]: "FLOAT_BASE = instr_size + 2 * reg_val_size"
definition SELECT_BASE :: nat where [vm_size_simps]: "SELECT_BASE = instr_size + 8"
definition RETURN_SELECT_BASE :: nat where [vm_size_simps]: "RETURN_SELECT_BASE = instr_size + 4"
definition REMOVE_BASE :: nat where [vm_size_simps]: "REMOVE_BASE = instr_size + reg_val_size"
definition RETURN_LINEAR_BASE :: nat where [vm_size_simps]: "RETURN_LINEAR_BASE = instr_size"
definition RETURN_DERIVED_BASE :: nat where [vm_size_simps]: "RETURN_DERIVED_BASE = instr_size"
definition RESET_LINEAR_BASE :: nat where [vm_size_simps]: "RESET_LINEAR_BASE = instr_size + jump_size"
definition END_LINEAR_BASE :: nat where [vm_size_simps]: "END_LINEAR_BASE = instr_size"
definition RULE_BASE :: nat where [vm_size_simps]: "RULE_BASE = instr_size + uint_size"
definition RULE_DONE_BASE :: nat where [vm_size_simps]: "RULE_DONE_BASE = instr_size"
definition NEW_NODE_BASE :: nat where [vm_size_simps]: "NEW_NODE_BASE = instr_size + reg_val_size"
definition NEW_AXIOMS_BASE :: nat where [vm_size_simps]: "NEW_AXIOMS_BASE = instr_size + jump_size"
definition SEND_DELAY_BASE :: nat where [vm_size_simps]: "SEND_DELAY_BASE = instr_size + 2 + uint_size"
definition PUSH_BASE :: nat where [vm_size_simps]: "PUSH_BASE = instr_size"
definition POP_BASE :: nat where [vm_size_simps]: "POP_BASE = instr_size"
definition PUSH_REGS_BASE :: nat where [vm_size_simps]: "PUSH_REGS_BASE = instr_size"
definition POP_REGS_BASE :: nat where [vm_size_simps]: "POP_REGS_BASE = instr_size"
definition CALLF_BASE :: nat where [vm_size_simps]: "CALLF_BASE = instr_size + 1"
definition CALLE_BASE :: nat where [vm_size_simps]: "CALLE_BASE = call_size + count_size"
definition MAKE_STRUCTR_BASE :: nat where [vm_size_simps]: "MAKE_STRUCTR_BASE = instr_size + type_size_code + reg_val_size"
definition MVINTFIELD_BASE :: nat where [vm_size_simps]: "MVINTFIELD_BASE = instr_size + int_size + field_size"
definition MVINTREG_BASE :: nat where [vm_size_simps]: "MVINTREG_BASE = instr_size + int_size + reg_val_size"
definition MVTYPEREG_BASE :: nat where [vm_size_simps]: "MVTYPEREG_BASE = MVINTREG_BASE"
definition MVTHREADIDREG_BASE :: nat where [vm_size_simps]: "MVTHREADIDREG_BASE = instr_size + reg_val_size"
definition MVTHREADIDFIELD_BASE :: nat where [vm_size_simps]: "MVTHREADIDFIELD_BASE = instr_size + field_size"
definition MVFIELDFIELD_BASE :: nat where [vm_size_simps]: "MVFIELDFIELD_BASE = instr_size + field_size + field_size"
definition MVFIELDREG_BASE :: nat where [vm_size_simps]: "MVFIELDREG_BASE = instr_size + field_size + reg_val_size"
definition MVPTRREG_BASE :: nat where [vm_size_simps]: "MVPTRREG_BASE = instr_size + ptr_size + reg_val_size"
definition MVNILFIELD_BASE :: nat where [vm_size_simps]: "MVNILFIELD_BASE = instr_size + field_size"
definition MVNILREG_BASE :: nat where [vm_size_simps]: "MVNILREG_BASE = instr_size + reg_val_size"
definition MVREGFIELD_BASE :: nat where [vm_size_simps]: "MVREGFIELD_BASE = instr_size + reg_val_size + field_size"
definition MVHOSTFIELD_BASE :: nat where [vm_size_simps]: "MVHOSTFIELD_BASE = instr_size + field_size"
definition MVREGCONST_BASE :: nat where [vm_size_simps]: "MVREGCONST_BASE = instr_size + reg_val_size + const_id_size"
definition MVCONSTFIELD_BASE :: nat where [vm_size_simps]: "MVCONSTFIELD_BASE = instr_size + const_id_size + field_size"
definition MVADDRFIELD_BASE :: nat where [vm_size_simps]: "MVADDRFIELD_BASE = instr_size + node_size + field_size"
definition MVFLOATFIELD_BASE :: nat where [vm_size_simps]: "MVFLOATFIELD_BASE = instr_size + float_size + field_size"
definition MVFLOATREG_BASE :: nat where [vm_size_simps]: "MVFLOATREG_BASE = instr_size + float_size + reg_val_size"
definition MVINTCONST_BASE :: nat where [vm_size_simps]: "MVINTCONST_BASE = instr_size + int_size + const_id_size"
definition MVWORLDFIELD_BASE :: nat where [vm_size_simps]: "MVWORLDFIELD_BASE = instr_size + field_size"
definition MVSTACKPCOUNTER_BASE :: nat where [vm_size_simps]: "MVSTACKPCOUNTER_BASE = instr_size + stack_val_size"
definition MVPCOUNTERSTACK_BASE :: nat where [vm_size_simps]: "MVPCOUNTERSTACK_BASE = instr_size + stack_val_size"
definition MVSTACKREG_BASE :: nat where [vm_size_simps]: "MVSTACKREG_BASE = instr_size + stack_val_size + reg_val_size"
definition MVSTACKFIELD_BASE :: nat where [vm_size_simps]: "MVSTACKFIELD_BASE = instr_size + stack_val_size + field_size"
definition MVREGSTACK_BASE :: nat where [vm_size_simps]: "MVREGSTACK_BASE = instr_size + reg_val_size + stack_val_size"
definition MVADDRREG_BASE :: nat where [vm_size_simps]: "MVADDRREG_BASE = instr_size + node_size + reg_val_size"
definition MVHOSTREG_BASE :: nat where [vm_size_simps]: "MVHOSTREG_BASE = instr_size + reg_val_size"
definition MVREGREG_BASE :: nat where [vm_size_simps]: "MVREGREG_BASE = instr_size + 2 * reg_val_size"
definition MVARGREG_BASE :: nat where [vm_size_simps]: "MVARGREG_BASE = instr_size + argument_size + reg_val_size"
definition HEADRR_BASE :: nat where [vm_size_simps]: "HEADRR_BASE = instr_size + 2 * reg_val_size"
definition HEADFR_BASE :: nat where [vm_size_simps]: "HEADFR_BASE = instr_size + field_size + reg_val_size"
definition HEADFF_BASE :: nat where [vm_size_simps]: "HEADFF_BASE = instr_size + 2 * field_size"
definition HEADRF_BASE :: nat where [vm_size_simps]: "HEADRF_BASE = instr_size * reg_val_size + field_size"
definition TAILRR_BASE :: nat where [vm_size_simps]: "TAILRR_BASE = HEADRR_BASE"
definition TAILFR_BASE :: nat where [vm_size_simps]: "TAILFR_BASE = HEADFR_BASE"
definition TAILFF_BASE :: nat where [vm_size_simps]: "TAILFF_BASE = HEADFF_BASE"
definition TAILRF_BASE :: nat where [vm_size_simps]: "TAILRF_BASE = HEADRF_BASE"
definition MVWORLDREG_BASE :: nat where [vm_size_simps]: "MVWORLDREG_BASE = instr_size + reg_val_size"
definition MVCONSTREG_BASE :: nat where [vm_size_simps]: "MVCONSTREG_BASE = instr_size + const_id_size + reg_val_size"
definition CONSRRR_BASE :: nat where [vm_size_simps]: "CONSRRR_BASE = instr_size + type_size_code + 3 * reg_val_size + bool_size"
definition CONSRFF_BASE :: nat where [vm_size_simps]: "CONSRFF_BASE = instr_size + reg_val_size + 2 * field_size"
definition CONSFRF_BASE :: nat where [vm_size_simps]: "CONSFRF_BASE = instr_size + field_size + reg_val_size + field_size"
definition CONSFFR_BASE :: nat where [vm_size_simps]: "CONSFFR_BASE = instr_size + 2 * field_size + reg_val_size + bool_size"
definition CONSRRF_BASE :: nat where [vm_size_simps]: "CONSRRF_BASE = instr_size + 2 * reg_val_size + field_size"
definition CONSRFR_BASE :: nat where [vm_size_simps]: "CONSRFR_BASE = instr_size + reg_val_size + field_size + reg_val_size + bool_size"
definition CONSFRR_BASE :: nat where [vm_size_simps]: "CONSFRR_BASE = instr_size + type_size_code + field_size + 2 * reg_val_size + bool_size"
definition CONSFFF_BASE :: nat where [vm_size_simps]: "CONSFFF_BASE = instr_size + 3 * field_size"
definition CALL0_BASE :: nat where [vm_size_simps]: "CALL0_BASE = call_size"
definition CALL1_BASE :: nat where [vm_size_simps]: "CALL1_BASE = call_size + reg_val_size"
definition CALL2_BASE :: nat where [vm_size_simps]: "CALL2_BASE = call_size + 2 * reg_val_size"
definition CALL3_BASE :: nat where [vm_size_simps]: "CALL3_BASE = call_size + 3 * reg_val_size"
definition MVINTSTACK_BASE :: nat where [vm_size_simps]: "MVINTSTACK_BASE = instr_size + int_size + stack_val_size"
definition PUSHN_BASE :: nat where [vm_size_simps]: "PUSHN_BASE = instr_size + count_size"
definition MAKE_STRUCTF_BASE :: nat where [vm_size_simps]: "MAKE_STRUCTF_BASE = instr_size + field_size"
definition STRUCT_VALRR_BASE :: nat where [vm_size_simps]: "STRUCT_VALRR_BASE = instr_size + count_size + 2 * reg_val_size"
definition STRUCT_VALFR_BASE :: nat where [vm_size_simps]: "STRUCT_VALFR_BASE = instr_size + count_size + field_size + reg_val_size"
definition STRUCT_VALRF_BASE :: nat where [vm_size_simps]: "STRUCT_VALRF_BASE = STRUCT_VALFR_BASE"
definition STRUCT_VALRFR_BASE :: nat where [vm_size_simps]: "STRUCT_VALRFR_BASE = STRUCT_VALRF_BASE"
definition STRUCT_VALFF_BASE :: nat where [vm_size_simps]: "STRUCT_VALFF_BASE = instr_size + count_size + 2 * field_size"
definition STRUCT_VALFFR_BASE :: nat where [vm_size_simps]: "STRUCT_VALFFR_BASE = STRUCT_VALFF_BASE"
definition MVFLOATSTACK_BASE :: nat where [vm_size_simps]: "MVFLOATSTACK_BASE = instr_size + float_size + stack_val_size"
definition ADDLINEAR_BASE :: nat where [vm_size_simps]: "ADDLINEAR_BASE = instr_size + reg_val_size"
definition ADDPERS_BASE :: nat where [vm_size_simps]: "ADDPERS_BASE = ADDLINEAR_BASE"
definition ADDTPERS_BASE :: nat where [vm_size_simps]: "ADDTPERS_BASE = ADDLINEAR_BASE"
definition RUNACTION_BASE :: nat where [vm_size_simps]: "RUNACTION_BASE = ADDLINEAR_BASE"
definition ENQUEUE_LINEAR_BASE :: nat where [vm_size_simps]: "ENQUEUE_LINEAR_BASE = ADDLINEAR_BASE"
definition UPDATE_BASE :: nat where [vm_size_simps]: "UPDATE_BASE = instr_size + reg_val_size"
definition SET_PRIORITY_BASE :: nat where [vm_size_simps]: "SET_PRIORITY_BASE = instr_size + 2 * reg_val_size"
definition SET_PRIORITYH_BASE :: nat where [vm_size_simps]: "SET_PRIORITYH_BASE = instr_size + reg_val_size"
definition ADD_PRIORITY_BASE :: nat where [vm_size_simps]: "ADD_PRIORITY_BASE = instr_size + 2 * reg_val_size"
definition ADD_PRIORITYH_BASE :: nat where [vm_size_simps]: "ADD_PRIORITYH_BASE = instr_size + reg_val_size"
definition SET_DEFPRIOH_BASE :: nat where [vm_size_simps]: "SET_DEFPRIOH_BASE = instr_size + reg_val_size"
definition SET_DEFPRIO_BASE :: nat where [vm_size_simps]: "SET_DEFPRIO_BASE = instr_size + 2 * reg_val_size"
definition SET_STATICH_BASE :: nat where [vm_size_simps]: "SET_STATICH_BASE = instr_size"
definition SET_STATIC_BASE :: nat where [vm_size_simps]: "SET_STATIC_BASE = instr_size + reg_val_size"
definition SET_MOVINGH_BASE :: nat where [vm_size_simps]: "SET_MOVINGH_BASE = instr_size"
definition SET_MOVING_BASE :: nat where [vm_size_simps]: "SET_MOVING_BASE = instr_size + reg_val_size"
definition SET_AFFINITYH_BASE :: nat where [vm_size_simps]: "SET_AFFINITYH_BASE = instr_size + reg_val_size"
definition SET_AFFINITY_BASE :: nat where [vm_size_simps]: "SET_AFFINITY_BASE = instr_size + reg_val_size + reg_val_size"
definition CPU_STATIC_BASE :: nat where [vm_size_simps]: "CPU_STATIC_BASE = instr_size + 2 * reg_val_size"
definition MVCPUSREG_BASE :: nat where [vm_size_simps]: "MVCPUSREG_BASE = instr_size + reg_val_size"
definition SET_CPUH_BASE :: nat where [vm_size_simps]: "SET_CPUH_BASE = instr_size + reg_val_size"
definition IS_STATIC_BASE :: nat where [vm_size_simps]: "IS_STATIC_BASE = instr_size + 2 * reg_val_size"
definition IS_MOVING_BASE :: nat where [vm_size_simps]: "IS_MOVING_BASE = instr_size + 2 * reg_val_size"
definition STOP_PROG_BASE :: nat where [vm_size_simps]: "STOP_PROG_BASE = instr_size"
definition CPU_ID_BASE :: nat where [vm_size_simps]: "CPU_ID_BASE = instr_size + 2 * reg_val_size"
definition NODE_PRIORITY_BASE :: nat where [vm_size_simps]: "NODE_PRIORITY_BASE = instr_size + 2 * reg_val_size"
definition REM_PRIORITY_BASE :: nat where [vm_size_simps]: "REM_PRIORITY_BASE = instr_size + reg_val_size"
definition REM_PRIORITYH_BASE :: nat where [vm_size_simps]: "REM_PRIORITYH_BASE = instr_size"
definition FACTS_PROVED_BASE :: nat where [vm_size_simps]: "FACTS_PROVED_BASE = instr_size + 2 * reg_val_size"
definition FACTS_CONSUMED_BASE :: nat where [vm_size_simps]: "FACTS_CONSUMED_BASE = instr_size + 2 * reg_val_size"
definition SCHEDULE_NEXT_BASE :: nat where [vm_size_simps]: "SCHEDULE_NEXT_BASE = instr_size + reg_val_size"
definition IF_ELSE_BASE :: nat where [vm_size_simps]: "IF_ELSE_BASE = instr_size + reg_val_size + 2 * jump_size"
definition JUMP_BASE :: nat where [vm_size_simps]: "JUMP_BASE = instr_size + jump_size"
definition FABS_BASE :: nat where [vm_size_simps]: "FABS_BASE = instr_size + 2 * reg_val_size"
definition REMOTE_UPDATE_BASE :: nat where [vm_size_simps]: "REMOTE_UPDATE_BASE = instr_size + reg_val_size + 2 * predicate_size + 2 * count_size"
definition MARK_RULE_BASE :: nat where [vm_size_simps]: "MARK_RULE_BASE = instr_size + uint_size"
definition LITERAL_CONS_BASE :: nat where [vm_size_simps]: "LITERAL_CONS_BASE = instr_size + reg_val_size + type_size_code + jump_size"
definition NODE_TYPE_BASE :: nat where [vm_size_simps]: "NODE_TYPE_BASE = instr_size + reg_val_size + uint_size"

subsection \<open>Instruction codes\<close>

abbreviation RETURN_INSTR :: byte where "RETURN_INSTR \<equiv> 0x0"
abbreviation NEXT_INSTR :: byte where "NEXT_INSTR \<equiv> 0x1"
abbreviation PERS_ITER_INSTR :: byte where "PERS_ITER_INSTR \<equiv> 0x2"
abbreviation TESTNIL_INSTR :: byte where "TESTNIL_INSTR \<equiv> 0x3"
abbreviation OPERS_ITER_INSTR :: byte where "OPERS_ITER_INSTR \<equiv> 0x4"
abbreviation LINEAR_ITER_INSTR :: byte where "LINEAR_ITER_INSTR \<equiv> 0x5"
abbreviation RLINEAR_ITER_INSTR :: byte where "RLINEAR_ITER_INSTR \<equiv> 0x6"
abbreviation NOT_INSTR :: byte where "NOT_INSTR \<equiv> 0x7"
abbreviation SEND_INSTR :: byte where "SEND_INSTR \<equiv> 0x8"
abbreviation FLOAT_INSTR :: byte where "FLOAT_INSTR \<equiv> 0x9"
abbreviation SELECT_INSTR :: byte where "SELECT_INSTR \<equiv> 0xA"
abbreviation RETURN_SELECT_INSTR :: byte where "RETURN_SELECT_INSTR \<equiv> 0xB"
abbreviation OLINEAR_ITER_INSTR :: byte where "OLINEAR_ITER_INSTR \<equiv> 0xC"
abbreviation RESET_LINEAR_INSTR :: byte where "RESET_LINEAR_INSTR \<equiv> 0xE"
abbreviation END_LINEAR_INSTR :: byte where "END_LINEAR_INSTR \<equiv> 0xF"
abbreviation RULE_INSTR :: byte where "RULE_INSTR \<equiv> 0x10"
abbreviation RULE_DONE_INSTR :: byte where "RULE_DONE_INSTR \<equiv> 0x11"
abbreviation ORLINEAR_ITER_INSTR :: byte where "ORLINEAR_ITER_INSTR \<equiv> 0x12"
abbreviation NEW_NODE_INSTR :: byte where "NEW_NODE_INSTR \<equiv> 0x13"
abbreviation NEW_AXIOMS_INSTR :: byte where "NEW_AXIOMS_INSTR \<equiv> 0x14"
abbreviation SEND_DELAY_INSTR :: byte where "SEND_DELAY_INSTR \<equiv> 0x15"
abbreviation PUSH_INSTR :: byte where "PUSH_INSTR \<equiv> 0x16"
abbreviation POP_INSTR :: byte where "POP_INSTR \<equiv> 0x17"
abbreviation PUSH_REGS_INSTR :: byte where "PUSH_REGS_INSTR \<equiv> 0x18"
abbreviation POP_REGS_INSTR :: byte where "POP_REGS_INSTR \<equiv> 0x19"
abbreviation CALLF_INSTR :: byte where "CALLF_INSTR \<equiv> 0x1A"
abbreviation CALLE_INSTR :: byte where "CALLE_INSTR \<equiv> 0x1B"
abbreviation SET_PRIORITY_INSTR :: byte where "SET_PRIORITY_INSTR \<equiv> 0x1C"
abbreviation MAKE_STRUCTR_INSTR :: byte where "MAKE_STRUCTR_INSTR \<equiv> 0x1D"
abbreviation MVINTFIELD_INSTR :: byte where "MVINTFIELD_INSTR \<equiv> 0x1E"
abbreviation MVINTREG_INSTR :: byte where "MVINTREG_INSTR \<equiv> 0x1F"
abbreviation CALL_INSTR :: byte where "CALL_INSTR \<equiv> 0x20"
abbreviation MVFIELDFIELD_INSTR :: byte where "MVFIELDFIELD_INSTR \<equiv> 0x21"
abbreviation MVFIELDREG_INSTR :: byte where "MVFIELDREG_INSTR \<equiv> 0x22"
abbreviation MVPTRREG_INSTR :: byte where "MVPTRREG_INSTR \<equiv> 0x23"
abbreviation MVNILREG_INSTR :: byte where "MVNILREG_INSTR \<equiv> 0x24"
abbreviation MVFIELDFIELDR_INSTR :: byte where "MVFIELDFIELDR_INSTR \<equiv> 0x25"
abbreviation MVREGFIELD_INSTR :: byte where "MVREGFIELD_INSTR \<equiv> 0x26"
abbreviation MVREGFIELDR_INSTR :: byte where "MVREGFIELDR_INSTR \<equiv> 0x27"
abbreviation MVHOSTFIELD_INSTR :: byte where "MVHOSTFIELD_INSTR \<equiv> 0x28"
abbreviation MVREGCONST_INSTR :: byte where "MVREGCONST_INSTR \<equiv> 0x29"
abbreviation MVCONSTFIELD_INSTR :: byte where "MVCONSTFIELD_INSTR \<equiv> 0x2A"
abbreviation MVCONSTFIELDR_INSTR :: byte where "MVCONSTFIELDR_INSTR \<equiv> 0x2B"
abbreviation MVADDRFIELD_INSTR :: byte where "MVADDRFIELD_INSTR \<equiv> 0x2C"
abbreviation MVFLOATFIELD_INSTR :: byte where "MVFLOATFIELD_INSTR \<equiv> 0x2D"
abbreviation MVFLOATREG_INSTR :: byte where "MVFLOATREG_INSTR \<equiv> 0x2E"
abbreviation MVINTCONST_INSTR :: byte where "MVINTCONST_INSTR \<equiv> 0x2F"
abbreviation SET_PRIORITYH_INSTR :: byte where "SET_PRIORITYH_INSTR \<equiv> 0x30"
abbreviation MVWORLDFIELD_INSTR :: byte where "MVWORLDFIELD_INSTR \<equiv> 0x31"
abbreviation MVSTACKPCOUNTER_INSTR :: byte where "MVSTACKPCOUNTER_INSTR \<equiv> 0x32"
abbreviation MVPCOUNTERSTACK_INSTR :: byte where "MVPCOUNTERSTACK_INSTR \<equiv> 0x33"
abbreviation MVSTACKREG_INSTR :: byte where "MVSTACKREG_INSTR \<equiv> 0x34"
abbreviation MVREGSTACK_INSTR :: byte where "MVREGSTACK_INSTR \<equiv> 0x35"
abbreviation MVADDRREG_INSTR :: byte where "MVADDRREG_INSTR \<equiv> 0x36"
abbreviation MVHOSTREG_INSTR :: byte where "MVHOSTREG_INSTR \<equiv> 0x37"
abbreviation ADDRNOTEQUAL_INSTR :: byte where "ADDRNOTEQUAL_INSTR \<equiv> 0x38"
abbreviation ADDREQUAL_INSTR :: byte where "ADDREQUAL_INSTR \<equiv> 0x39"
abbreviation INTMINUS_INSTR :: byte where "INTMINUS_INSTR \<equiv> 0x3A"
abbreviation INTEQUAL_INSTR :: byte where "INTEQUAL_INSTR \<equiv> 0x3B"
abbreviation INTNOTEQUAL_INSTR :: byte where "INTNOTEQUAL_INSTR \<equiv> 0x3C"
abbreviation INTPLUS_INSTR :: byte where "INTPLUS_INSTR \<equiv> 0x3D"
abbreviation INTLESSER_INSTR :: byte where "INTLESSER_INSTR \<equiv> 0x3E"
abbreviation INTGREATEREQUAL_INSTR :: byte where "INTGREATEREQUAL_INSTR \<equiv> 0x3F"
abbreviation ALLOC_INSTR :: byte where "ALLOC_INSTR \<equiv> 0x40"
abbreviation BOOLOR_INSTR :: byte where "BOOLOR_INSTR \<equiv> 0x41"
abbreviation INTLESSEREQUAL_INSTR :: byte where "INTLESSEREQUAL_INSTR \<equiv> 0x42"
abbreviation INTGREATER_INSTR :: byte where "INTGREATER_INSTR \<equiv> 0x43"
abbreviation INTMUL_INSTR :: byte where "INTMUL_INSTR \<equiv> 0x44"
abbreviation INTDIV_INSTR :: byte where "INTDIV_INSTR \<equiv> 0x45"
abbreviation FLOATPLUS_INSTR :: byte where "FLOATPLUS_INSTR \<equiv> 0x46"
abbreviation FLOATMINUS_INSTR :: byte where "FLOATMINUS_INSTR \<equiv> 0x47"
abbreviation FLOATMUL_INSTR :: byte where "FLOATMUL_INSTR \<equiv> 0x48"
abbreviation FLOATDIV_INSTR :: byte where "FLOATDIV_INSTR \<equiv> 0x49"
abbreviation FLOATEQUAL_INSTR :: byte where "FLOATEQUAL_INSTR \<equiv> 0x4A"
abbreviation FLOATNOTEQUAL_INSTR :: byte where "FLOATNOTEQUAL_INSTR \<equiv> 0x4B"
abbreviation FLOATLESSER_INSTR :: byte where "FLOATLESSER_INSTR \<equiv> 0x4C"
abbreviation FLOATLESSEREQUAL_INSTR :: byte where "FLOATLESSEREQUAL_INSTR \<equiv> 0x4D"
abbreviation FLOATGREATER_INSTR :: byte where "FLOATGREATER_INSTR \<equiv> 0x4E"
abbreviation FLOATGREATEREQUAL_INSTR :: byte where "FLOATGREATEREQUAL_INSTR \<equiv> 0x4F"
abbreviation MVREGREG_INSTR :: byte where "MVREGREG_INSTR \<equiv> 0x50"
abbreviation BOOLEQUAL_INSTR :: byte where "BOOLEQUAL_INSTR \<equiv> 0x51"
abbreviation BOOLNOTEQUAL_INSTR :: byte where "BOOLNOTEQUAL_INSTR \<equiv> 0x52"
abbreviation HEADRR_INSTR :: byte where "HEADRR_INSTR \<equiv> 0x53"
abbreviation HEADFR_INSTR :: byte where "HEADFR_INSTR \<equiv> 0x54"
abbreviation HEADFF_INSTR :: byte where "HEADFF_INSTR \<equiv> 0x55"
abbreviation HEADRF_INSTR :: byte where "HEADRF_INSTR \<equiv> 0x56"
abbreviation HEADFFR_INSTR :: byte where "HEADFFR_INSTR \<equiv> 0x57"
abbreviation HEADRFR_INSTR :: byte where "HEADRFR_INSTR \<equiv> 0x58"
abbreviation TAILRR_INSTR :: byte where "TAILRR_INSTR \<equiv> 0x59"
abbreviation TAILFR_INSTR :: byte where "TAILFR_INSTR \<equiv> 0x5A"
abbreviation TAILFF_INSTR :: byte where "TAILFF_INSTR \<equiv> 0x5B"
abbreviation TAILRF_INSTR :: byte where "TAILRF_INSTR \<equiv> 0x5C"
abbreviation MVWORLDREG_INSTR :: byte where "MVWORLDREG_INSTR \<equiv> 0x5D"
abbreviation MVCONSTREG_INSTR :: byte where "MVCONSTREG_INSTR \<equiv> 0x5E"
abbreviation CONSRRR_INSTR :: byte where "CONSRRR_INSTR \<equiv> 0x5F"
abbreviation IF_INSTR :: byte where "IF_INSTR \<equiv> 0x60"
abbreviation CONSRFF_INSTR :: byte where "CONSRFF_INSTR \<equiv> 0x61"
abbreviation CONSFRF_INSTR :: byte where "CONSFRF_INSTR \<equiv> 0x62"
abbreviation CONSFFR_INSTR :: byte where "CONSFFR_INSTR \<equiv> 0x63"
abbreviation CONSRRF_INSTR :: byte where "CONSRRF_INSTR \<equiv> 0x64"
abbreviation CONSRFR_INSTR :: byte where "CONSRFR_INSTR \<equiv> 0x65"
abbreviation CONSFRR_INSTR :: byte where "CONSFRR_INSTR \<equiv> 0x66"
abbreviation CONSFFF_INSTR :: byte where "CONSFFF_INSTR \<equiv> 0x67"
abbreviation CALL0_INSTR :: byte where "CALL0_INSTR \<equiv> 0x68"
abbreviation CALL1_INSTR :: byte where "CALL1_INSTR \<equiv> 0x69"
abbreviation CALL2_INSTR :: byte where "CALL2_INSTR \<equiv> 0x6A"
abbreviation CALL3_INSTR :: byte where "CALL3_INSTR \<equiv> 0x6B"
abbreviation MVINTSTACK_INSTR :: byte where "MVINTSTACK_INSTR \<equiv> 0x6C"
abbreviation PUSHN_INSTR :: byte where "PUSHN_INSTR \<equiv> 0x6D"
abbreviation MAKE_STRUCTF_INSTR :: byte where "MAKE_STRUCTF_INSTR \<equiv> 0x6E"
abbreviation STRUCT_VALRR_INSTR :: byte where "STRUCT_VALRR_INSTR \<equiv> 0x6F"
abbreviation MVNILFIELD_INSTR :: byte where "MVNILFIELD_INSTR \<equiv> 0x70"
abbreviation STRUCT_VALFR_INSTR :: byte where "STRUCT_VALFR_INSTR \<equiv> 0x71"
abbreviation STRUCT_VALRF_INSTR :: byte where "STRUCT_VALRF_INSTR \<equiv> 0x72"
abbreviation STRUCT_VALRFR_INSTR :: byte where "STRUCT_VALRFR_INSTR \<equiv> 0x73"
abbreviation STRUCT_VALFF_INSTR :: byte where "STRUCT_VALFF_INSTR \<equiv> 0x74"
abbreviation STRUCT_VALFFR_INSTR :: byte where "STRUCT_VALFFR_INSTR \<equiv> 0x75"
abbreviation MVFLOATSTACK_INSTR :: byte where "MVFLOATSTACK_INSTR \<equiv> 0x76"
abbreviation ADDLINEAR_INSTR :: byte where "ADDLINEAR_INSTR \<equiv> 0x77"
abbreviation ADDPERS_INSTR :: byte where "ADDPERS_INSTR \<equiv> 0x78"
abbreviation RUNACTION_INSTR :: byte where "RUNACTION_INSTR \<equiv> 0x79"
abbreviation ENQUEUE_LINEAR_INSTR :: byte where "ENQUEUE_LINEAR_INSTR \<equiv> 0x7A"
abbreviation UPDATE_INSTR :: byte where "UPDATE_INSTR \<equiv> 0x7B"
abbreviation MVARGREG_INSTR :: byte where "MVARGREG_INSTR \<equiv> 0x7C"
abbreviation INTMOD_INSTR :: byte where "INTMOD_INSTR \<equiv> 0x7D"
abbreviation CPU_ID_INSTR :: byte where "CPU_ID_INSTR \<equiv> 0x7E"
abbreviation NODE_PRIORITY_INSTR :: byte where "NODE_PRIORITY_INSTR \<equiv> 0x7F"
abbreviation REMOVE_INSTR :: byte where "REMOVE_INSTR \<equiv> 0x80"
abbreviation IF_ELSE_INSTR :: byte where "IF_ELSE_INSTR \<equiv> 0x81"
abbreviation JUMP_INSTR :: byte where "JUMP_INSTR \<equiv> 0x82"
abbreviation MVSTACKFIELD_INSTR :: byte where "MVSTACKFIELD_INSTR \<equiv> 0x83"
abbreviation REMOTE_UPDATE_INSTR :: byte where "REMOTE_UPDATE_INSTR \<equiv> 0x84"
abbreviation ADD_PRIORITY_INSTR :: byte where "ADD_PRIORITY_INSTR \<equiv> 0xA0"
abbreviation ADD_PRIORITYH_INSTR :: byte where "ADD_PRIORITYH_INSTR \<equiv> 0xA1"
abbreviation STOP_PROG_INSTR :: byte where "STOP_PROG_INSTR \<equiv> 0xA2"
abbreviation SET_DEFPRIOH_INSTR :: byte where "SET_DEFPRIOH_INSTR \<equiv> 0xA3"
abbreviation SET_DEFPRIO_INSTR :: byte where "SET_DEFPRIO_INSTR \<equiv> 0xA4"
abbreviation SET_STATICH_INSTR :: byte where "SET_STATICH_INSTR \<equiv> 0xA5"
abbreviation SET_STATIC_INSTR :: byte where "SET_STATIC_INSTR \<equiv> 0xA6"
abbreviation SET_MOVINGH_INSTR :: byte where "SET_MOVINGH_INSTR \<equiv> 0xA7"
abbreviation SET_MOVING_INSTR :: byte where "SET_MOVING_INSTR \<equiv> 0xA8"
abbreviation SET_AFFINITYH_INSTR :: byte where "SET_AFFINITYH_INSTR \<equiv> 0xA9"
abbreviation SET_AFFINITY_INSTR :: byte where "SET_AFFINITY_INSTR \<equiv> 0xAA"
abbreviation CPU_STATIC_INSTR :: byte where "CPU_STATIC_INSTR \<equiv> 0xAB"
abbreviation MVCPUSREG_INSTR :: byte where "MVCPUSREG_INSTR \<equiv> 0xAC"
abbreviation SET_CPUH_INSTR :: byte where "SET_CPUH_INSTR \<equiv> 0xAD"
abbreviation IS_STATIC_INSTR :: byte where "IS_STATIC_INSTR \<equiv> 0xAE"
abbreviation IS_MOVING_INSTR :: byte where "IS_MOVING_INSTR \<equiv> 0xAF"
abbreviation FACTS_PROVED_INSTR :: byte where "FACTS_PROVED_INSTR \<equiv> 0xB0"
abbreviation REM_PRIORITY_INSTR :: byte where "REM_PRIORITY_INSTR \<equiv> 0xB1"
abbreviation REM_PRIORITYH_INSTR :: byte where "REM_PRIORITYH_INSTR \<equiv> 0xB2"
abbreviation FACTS_CONSUMED_INSTR :: byte where "FACTS_CONSUMED_INSTR \<equiv> 0xB3"
abbreviation TLINEAR_ITER_INSTR :: byte where "TLINEAR_ITER_INSTR \<equiv> 0xB4"
abbreviation ADDTPERS_INSTR :: byte where "ADDTPERS_INSTR \<equiv> 0xB5"
abbreviation SCHEDULE_NEXT_INSTR :: byte where "SCHEDULE_NEXT_INSTR \<equiv> 0xB6"
abbreviation TPERS_ITER_INSTR :: byte where "TPERS_ITER_INSTR \<equiv> 0xB7"
abbreviation FABS_INSTR :: byte where "FABS_INSTR \<equiv> 0xB8"
abbreviation MVTYPEREG_INSTR :: byte where "MVTYPEREG_INSTR \<equiv> 0xB9"
abbreviation MVTHREADIDREG_INSTR :: byte where "MVTHREADIDREG_INSTR \<equiv> 0xBA"
abbreviation MVTHREADIDFIELD_INSTR :: byte where "MVTHREADIDFIELD_INSTR \<equiv> 0xBB"
abbreviation THREAD_SEND_INSTR :: byte where "THREAD_SEND_INSTR \<equiv> 0xBC"
abbreviation TRLINEAR_ITER_INSTR :: byte where "TRLINEAR_ITER_INSTR \<equiv> 0xBD"
abbreviation LITERAL_CONS_INSTR :: byte where "LITERAL_CONS_INSTR \<equiv> 0xBE"
abbreviation NODE_TYPE_INSTR :: byte where "NODE_TYPE_INSTR \<equiv> 0xBF"
abbreviation RETURN_LINEAR_INSTR :: byte where "RETURN_LINEAR_INSTR \<equiv> 0xD0"
abbreviation MARK_RULE_INSTR :: byte where "MARK_RULE_INSTR \<equiv> 0xD1"
abbreviation RETURN_DERIVED_INSTR :: byte where "RETURN_DERIVED_INSTR \<equiv> 0xF0"

text \<open>The instruction codes in the order of the enumeration.\<close>

definition instr_type :: "byte list" where
  "instr_type = [
     RETURN_INSTR, NEXT_INSTR, PERS_ITER_INSTR, TESTNIL_INSTR, OPERS_ITER_INSTR, LINEAR_ITER_INSTR,
     RLINEAR_ITER_INSTR, NOT_INSTR, SEND_INSTR, FLOAT_INSTR, SELECT_INSTR, RETURN_SELECT_INSTR,
     OLINEAR_ITER_INSTR, RESET_LINEAR_INSTR, END_LINEAR_INSTR, RULE_INSTR, RULE_DONE_INSTR,
     ORLINEAR_ITER_INSTR, NEW_NODE_INSTR, NEW_AXIOMS_INSTR, SEND_DELAY_INSTR, PUSH_INSTR,
     POP_INSTR, PUSH_REGS_INSTR, POP_REGS_INSTR, CALLF_INSTR, CALLE_INSTR, SET_PRIORITY_INSTR,
     MAKE_STRUCTR_INSTR, MVINTFIELD_INSTR, MVINTREG_INSTR, CALL_INSTR, MVFIELDFIELD_INSTR,
     MVFIELDREG_INSTR, MVPTRREG_INSTR, MVNILREG_INSTR, MVFIELDFIELDR_INSTR, MVREGFIELD_INSTR,
     MVREGFIELDR_INSTR, MVHOSTFIELD_INSTR, MVREGCONST_INSTR, MVCONSTFIELD_INSTR,
     MVCONSTFIELDR_INSTR, MVADDRFIELD_INSTR, MVFLOATFIELD_INSTR, MVFLOATREG_INSTR,
     MVINTCONST_INSTR, SET_PRIORITYH_INSTR, MVWORLDFIELD_INSTR, MVSTACKPCOUNTER_INSTR,
     MVPCOUNTERSTACK_INSTR, MVSTACKREG_INSTR, MVREGSTACK_INSTR, MVADDRREG_INSTR, MVHOSTREG_INSTR,
     ADDRNOTEQUAL_INSTR, ADDREQUAL_INSTR, INTMINUS_INSTR, INTEQUAL_INSTR, INTNOTEQUAL_INSTR,
     INTPLUS_INSTR, INTLESSER_INSTR, INTGREATEREQUAL_INSTR, ALLOC_INSTR, BOOLOR_INSTR,
     INTLESSEREQUAL_INSTR, INTGREATER_INSTR, INTMUL_INSTR, INTDIV_INSTR, FLOATPLUS_INSTR,
     FLOATMINUS_INSTR, FLOATMUL_INSTR, FLOATDIV_INSTR, FLOATEQUAL_INSTR, FLOATNOTEQUAL_INSTR,
     FLOATLESSER_INSTR, FLOATLESSEREQUAL_INSTR, FLOATGREATER_INSTR, FLOATGREATEREQUAL_INSTR,
     MVREGREG_INSTR, BOOLEQUAL_INSTR, BOOLNOTEQUAL_INSTR, HEADRR_INSTR, HEADFR_INSTR, HEADFF_INSTR,
     HEADRF_INSTR, HEADFFR_INSTR, HEADRFR_INSTR, TAILRR_INSTR, TAILFR_INSTR, TAILFF_INSTR,
     TAILRF_INSTR, MVWORLDREG_INSTR, MVCONSTREG_INSTR, CONSRRR_INSTR, IF_INSTR, CONSRFF_INSTR,
     CONSFRF_INSTR, CONSFFR_INSTR, CONSRRF_INSTR, CONSRFR_INSTR, CONSFRR_INSTR, CONSFFF_INSTR,
     CALL0_INSTR, CALL1_INSTR, CALL2_INSTR, CALL3_INSTR, MVINTSTACK_INSTR, PUSHN_INSTR,
     MAKE_STRUCTF_INSTR, STRUCT_VALRR_INSTR, MVNILFIELD_INSTR, STRUCT_VALFR_INSTR,
     STRUCT_VALRF_INSTR, STRUCT_VALRFR_INSTR, STRUCT_VALFF_INSTR, STRUCT_VALFFR_INSTR,
     MVFLOATSTACK_INSTR, ADDLINEAR_INSTR, ADDPERS_INSTR, RUNACTION_INSTR, ENQUEUE_LINEAR_INSTR,
     UPDATE_INSTR, MVARGREG_INSTR, INTMOD_INSTR, CPU_ID_INSTR, NODE_PRIORITY_INSTR, REMOVE_INSTR,
     IF_ELSE_INSTR, JUMP_INSTR, MVSTACKFIELD_INSTR, REMOTE_UPDATE_INSTR, ADD_PRIORITY_INSTR,
     ADD_PRIORITYH_INSTR, STOP_PROG_INSTR, SET_DEFPRIOH_INSTR, SET_DEFPRIO_INSTR,
     SET_STATICH_INSTR, SET_STATIC_INSTR, SET_MOVINGH_INSTR, SET_MOVING_INSTR, SET_AFFINITYH_INSTR,
     SET_AFFINITY_INSTR, CPU_STATIC_INSTR, MVCPUSREG_INSTR, SET_CPUH_INSTR, IS_STATIC_INSTR,
     IS_MOVING_INSTR, FACTS_PROVED_INSTR, REM_PRIORITY_INSTR, REM_PRIORITYH_INSTR,
     FACTS_CONSUMED_INSTR, TLINEAR_ITER_INSTR, ADDTPERS_INSTR, SCHEDULE_NEXT_INSTR,
     TPERS_ITER_INSTR, FABS_INSTR, MVTYPEREG_INSTR, MVTHREADIDREG_INSTR, MVTHREADIDFIELD_INSTR,
     THREAD_SEND_INSTR, TRLINEAR_ITER_INSTR, LITERAL_CONS_INSTR, NODE_TYPE_INSTR,
     RETURN_LINEAR_INSTR, MARK_RULE_INSTR, RETURN_DERIVED_INSTR]"

subsection \<open>Reading the code\<close>

definition code_byte :: "byte_code \<Rightarrow> pcounter \<Rightarrow> byte option" where
  "code_byte code pc = (if pc < length code then Some (code ! pc) else None)"

definition code_bytes :: "nat \<Rightarrow> byte_code \<Rightarrow> pcounter \<Rightarrow> byte list option" where
  "code_bytes n code pc = (if pc + n \<le> length code then Some (take n (drop pc code)) else None)"

definition fetch :: "byte_code \<Rightarrow> pcounter \<Rightarrow> byte option" where
  "fetch code pc = code_byte code pc"

abbreviation VAL_TUPLE :: byte where "VAL_TUPLE \<equiv> 0x1f"
abbreviation VAL_PCOUNTER :: byte where "VAL_PCOUNTER \<equiv> 0xa"
abbreviation VAL_PTR :: byte where "VAL_PTR \<equiv> 0xb"
abbreviation VAL_BOOL :: byte where "VAL_BOOL \<equiv> 0xc"
abbreviation VAL_NIL :: byte where "VAL_NIL \<equiv> 0x4"
abbreviation VAL_NON_NIL :: byte where "VAL_NON_NIL \<equiv> 0xd"
abbreviation VAL_LIST :: byte where "VAL_LIST \<equiv> 0xe"
abbreviation VAL_ANY :: byte where "VAL_ANY \<equiv> 0xf"

definition val_is_reg :: "byte \<Rightarrow> bool" where "val_is_reg x \<longleftrightarrow> x AND 0x20 \<noteq> 0"
definition val_is_float :: "byte \<Rightarrow> bool" where "val_is_float x \<longleftrightarrow> x = 0"
definition val_is_bool :: "byte \<Rightarrow> bool" where "val_is_bool x \<longleftrightarrow> x = VAL_BOOL"
definition val_is_int :: "byte \<Rightarrow> bool" where "val_is_int x \<longleftrightarrow> x = 1"
definition val_is_field :: "byte \<Rightarrow> bool" where "val_is_field x \<longleftrightarrow> x = 2"
definition val_is_host :: "byte \<Rightarrow> bool" where "val_is_host x \<longleftrightarrow> x = 3"
definition val_is_nil :: "byte \<Rightarrow> bool" where "val_is_nil x \<longleftrightarrow> x = VAL_NIL"
definition val_is_non_nil :: "byte \<Rightarrow> bool" where "val_is_non_nil x \<longleftrightarrow> x = VAL_NON_NIL"
definition val_is_any :: "byte \<Rightarrow> bool" where "val_is_any x \<longleftrightarrow> x = VAL_ANY"
definition val_is_list :: "byte \<Rightarrow> bool" where "val_is_list x \<longleftrightarrow> x = VAL_LIST"
definition val_is_node :: "byte \<Rightarrow> bool" where "val_is_node x \<longleftrightarrow> x = 5"
definition val_is_string :: "byte \<Rightarrow> bool" where "val_is_string x \<longleftrightarrow> x = 6"
definition val_is_arg :: "byte \<Rightarrow> bool" where "val_is_arg x \<longleftrightarrow> x = 7"
definition val_is_const :: "byte \<Rightarrow> bool" where "val_is_const x \<longleftrightarrow> x = 8"
definition val_is_stack :: "byte \<Rightarrow> bool" where "val_is_stack x \<longleftrightarrow> x = 9"
definition val_is_pcounter :: "byte \<Rightarrow> bool" where "val_is_pcounter x \<longleftrightarrow> x = VAL_PCOUNTER"
definition val_is_ptr :: "byte \<Rightarrow> bool" where "val_is_ptr x \<longleftrightarrow> x = VAL_PTR"

definition val_reg :: "byte \<Rightarrow> nat" where
  "val_reg x = unat (x AND 0x1f)"

definition val_field_num :: "byte_code \<Rightarrow> pcounter \<Rightarrow> nat option" where
  "val_field_num code pc = map_option unat (code_byte code pc)"

definition val_field_reg :: "byte_code \<Rightarrow> pcounter \<Rightarrow> nat option" where
  "val_field_reg code pc = map_option (\<lambda>b. unat (b AND 0x1f)) (code_byte code (pc + 1))"

definition pcounter_code_size :: "byte_code \<Rightarrow> pcounter \<Rightarrow> nat option" where
  "pcounter_code_size code pc = map_option le_nat (code_bytes 4 code pc)"

definition jump_get :: "byte_code \<Rightarrow> pcounter \<Rightarrow> nat \<Rightarrow> nat option" where
  "jump_get code pc off = pcounter_code_size code (pc + off)"

definition reg_get :: "byte_code \<Rightarrow> pcounter \<Rightarrow> nat \<Rightarrow> nat option" where
  "reg_get code pc off = map_option (\<lambda>b. unat (b AND 0x1f)) (code_byte code (pc + off))"

definition val_get :: "byte_code \<Rightarrow> pcounter \<Rightarrow> nat \<Rightarrow> byte option" where
  "val_get code pc off = map_option (\<lambda>b. b AND 0x3f) (code_byte code (pc + off))"

definition predicate_get :: "byte_code \<Rightarrow> pcounter \<Rightarrow> nat \<Rightarrow> nat option" where
  "predicate_get code pc off = map_option (\<lambda>b. unat (b AND 0x7f)) (code_byte code (pc + off))"

definition byte_get :: "byte_code \<Rightarrow> pcounter \<Rightarrow> nat \<Rightarrow> byte option" where
  "byte_get code pc off = code_byte code (pc + off)"

definition field_num_get :: "byte_code \<Rightarrow> pcounter \<Rightarrow> nat \<Rightarrow> nat option" where
  "field_num_get code pc off = map_option unat (code_byte code (pc + off))"

definition pcounter_bool :: "byte_code \<Rightarrow> pcounter \<Rightarrow> bool option" where
  "pcounter_bool code pc = map_option (\<lambda>b. b \<noteq> 0) (code_byte code pc)"

definition pcounter_int :: "byte_code \<Rightarrow> pcounter \<Rightarrow> int_val option" where
  "pcounter_int code pc = map_option (of_nat \<circ> le_nat) (code_bytes 4 code pc)"

definition pcounter_float :: "byte_code \<Rightarrow> pcounter \<Rightarrow> 64 word option" where
  "pcounter_float code pc = map_option (of_nat \<circ> le_nat) (code_bytes 8 code pc)"

definition pcounter_node :: "byte_code \<Rightarrow> pcounter \<Rightarrow> node_val option" where
  "pcounter_node code pc = map_option (of_nat \<circ> le_nat) (code_bytes 8 code pc)"

definition pcounter_uint :: "byte_code \<Rightarrow> pcounter \<Rightarrow> uint_val option" where
  "pcounter_uint code pc = map_option (of_nat \<circ> le_nat) (code_bytes 4 code pc)"

definition pcounter_argument_id :: "byte_code \<Rightarrow> pcounter \<Rightarrow> nat option" where
  "pcounter_argument_id code pc = map_option unat (code_byte code pc)"

definition pcounter_const_id :: "byte_code \<Rightarrow> pcounter \<Rightarrow> nat option" where
  "pcounter_const_id code pc = map_option unat (pcounter_uint code pc)"

definition pcounter_offset_num :: "byte_code \<Rightarrow> pcounter \<Rightarrow> nat option" where
  "pcounter_offset_num code pc = map_option unat (code_byte code pc)"

definition pcounter_ptr :: "byte_code \<Rightarrow> pcounter \<Rightarrow> ptr_val option" where
  "pcounter_ptr code pc = map_option (of_nat \<circ> le_nat) (code_bytes 8 code pc)"

definition pcounter_reg :: "byte_code \<Rightarrow> pcounter \<Rightarrow> nat option" where
  "pcounter_reg code pc = map_option unat (code_byte code pc)"

definition pcounter_stack :: "byte_code \<Rightarrow> pcounter \<Rightarrow> nat option" where
  "pcounter_stack code pc = pcounter_offset_num code pc"

text \<open>Overwriting a node in the code, as the loader does when it resolves node references.\<close>

definition pcounter_set_node :: "byte_code \<Rightarrow> pcounter \<Rightarrow> node_val \<Rightarrow> byte_code option" where
  "pcounter_set_node code pc n =
     (if pc + node_size \<le> length code
      then Some (take pc code @ to_le node_size (unat n) @ drop (pc + node_size) code) else None)"

definition pcounter_move_byte :: "pcounter \<Rightarrow> pcounter" where
  "pcounter_move_byte pc = pc + 1"

definition pcounter_move_field :: "pcounter \<Rightarrow> pcounter" where
  "pcounter_move_field pc = pc + field_size"

definition pcounter_move_bool :: "pcounter \<Rightarrow> pcounter" where
  "pcounter_move_bool pc = pc + bool_size"

definition pcounter_move_int :: "pcounter \<Rightarrow> pcounter" where
  "pcounter_move_int pc = pc + int_size"

definition pcounter_move_float :: "pcounter \<Rightarrow> pcounter" where
  "pcounter_move_float pc = pc + float_size"

definition pcounter_move_match :: "pcounter \<Rightarrow> pcounter" where
  "pcounter_move_match pc = pc + iter_match_size"

definition pcounter_move_node :: "pcounter \<Rightarrow> pcounter" where
  "pcounter_move_node pc = pc + node_size"

definition pcounter_move_uint :: "pcounter \<Rightarrow> pcounter" where
  "pcounter_move_uint pc = pc + uint_size"

definition pcounter_move_argument_id :: "pcounter \<Rightarrow> pcounter" where
  "pcounter_move_argument_id pc = pc + argument_size"

definition pcounter_move_const_id :: "pcounter \<Rightarrow> pcounter" where
  "pcounter_move_const_id pc = pcounter_move_uint pc"

definition pcounter_move_offset_num :: "pcounter \<Rightarrow> pcounter" where
  "pcounter_move_offset_num pc = pc + stack_val_size"

definition pcounter_move_ptr :: "pcounter \<Rightarrow> pcounter" where
  "pcounter_move_ptr pc = pc + ptr_size"

subsection \<open>Operands of the instructions\<close>

definition if_reg :: "byte_code \<Rightarrow> pcounter \<Rightarrow> nat option" where
  "if_reg code pc = pcounter_reg code (pc + instr_size)"

definition if_jump :: "byte_code \<Rightarrow> pcounter \<Rightarrow> nat option" where
  "if_jump code pc = jump_get code pc (instr_size + reg_val_size)"

definition if_else_jump_else :: "byte_code \<Rightarrow> pcounter \<Rightarrow> nat option" where
  "if_else_jump_else code pc = jump_get code pc (instr_size + reg_val_size)"

definition if_else_jump :: "byte_code \<Rightarrow> pcounter \<Rightarrow> nat option" where
  "if_else_jump code pc = jump_get code pc (instr_size + reg_val_size + jump_size)"

definition send_msg :: "byte_code \<Rightarrow> pcounter \<Rightarrow> nat option" where
  "send_msg code pc = pcounter_reg code (pc + instr_size)"

definition send_dest :: "byte_code \<Rightarrow> pcounter \<Rightarrow> nat option" where
  "send_dest code pc = pcounter_reg code (pc + instr_size + reg_val_size)"

definition float_op :: "byte_code \<Rightarrow> pcounter \<Rightarrow> nat option" where
  "float_op code pc = pcounter_reg code (pc + instr_size)"

definition float_dest :: "byte_code \<Rightarrow> pcounter \<Rightarrow> nat option" where
  "float_dest code pc = pcounter_reg code (pc + instr_size + reg_val_size)"

definition iter_match_object :: "byte_code \<Rightarrow> pcounter \<Rightarrow> ptr_val option" where
  "iter_match_object code pc = pcounter_ptr code (pc + instr_size)"

definition iter_predicate :: "byte_code \<Rightarrow> pcounter \<Rightarrow> nat option" where
  "iter_predicate code pc = predicate_get code pc (instr_size + ptr_size)"

definition iter_reg :: "byte_code \<Rightarrow> pcounter \<Rightarrow> nat option" where
  "iter_reg code pc = pcounter_reg code (pc + instr_size + ptr_size + predicate_size)"

definition iter_constant_match :: "byte_code \<Rightarrow> pcounter \<Rightarrow> bool option" where
  "iter_constant_match code pc = pcounter_bool code (pc + instr_size + ptr_size + predicate_size + reg_val_size)"

definition iter_inner_jump :: "byte_code \<Rightarrow> pcounter \<Rightarrow> nat option" where
  "iter_inner_jump code pc = jump_get code pc (instr_size + ptr_size + predicate_size + reg_val_size + bool_size)"

definition iter_outer_jump :: "byte_code \<Rightarrow> pcounter \<Rightarrow> nat option" where
  "iter_outer_jump code pc = jump_get code pc (instr_size + ptr_size + predicate_size + reg_val_size + bool_size + jump_size)"

definition iter_matches_size :: "byte_code \<Rightarrow> pcounter \<Rightarrow> nat \<Rightarrow> nat option" where
  "iter_matches_size code pc bse = map_option unat (byte_get code pc (bse - count_size))"

definition iter_options :: "byte_code \<Rightarrow> pcounter \<Rightarrow> byte option" where
  "iter_options code pc = byte_get code pc ITER_BASE0"

definition iter_options_argument :: "byte_code \<Rightarrow> pcounter \<Rightarrow> byte option" where
  "iter_options_argument code pc = byte_get code pc (ITER_BASE0 + 1)"

definition iter_match_val :: "byte_code \<Rightarrow> pcounter \<Rightarrow> byte option" where
  "iter_match_val code pc = val_get code pc 1"

definition iter_match_field :: "byte_code \<Rightarrow> pcounter \<Rightarrow> nat option" where
  "iter_match_field code pc = map_option unat (code_byte code pc)"

definition iter_options_random :: "byte \<Rightarrow> bool" where
  "iter_options_random b \<longleftrightarrow> b AND 1 \<noteq> 0"

definition iter_options_min :: "byte \<Rightarrow> bool" where
  "iter_options_min b \<longleftrightarrow> b AND 4 \<noteq> 0"

definition iter_options_to_delete :: "byte \<Rightarrow> bool" where
  "iter_options_to_delete b \<longleftrightarrow> b AND 2 \<noteq> 0"

definition iter_options_min_arg :: "byte \<Rightarrow> nat" where
  "iter_options_min_arg b = unat b"

definition alloc_predicate :: "byte_code \<Rightarrow> pcounter \<Rightarrow> nat option" where
  "alloc_predicate code pc = predicate_get code pc (instr_size)"

definition alloc_reg :: "byte_code \<Rightarrow> pcounter \<Rightarrow> nat option" where
  "alloc_reg code pc = pcounter_reg code (pc + instr_size + predicate_size)"

definition alloc_dest :: "byte_code \<Rightarrow> pcounter \<Rightarrow> nat option" where
  "alloc_dest code pc = pcounter_reg code (pc + instr_size + predicate_size + reg_val_size)"

definition call_extern_id :: "byte_code \<Rightarrow> pcounter \<Rightarrow> nat option" where
  "call_extern_id code pc = map_option unat (byte_get code pc (instr_size))"

definition call_dest :: "byte_code \<Rightarrow> pcounter \<Rightarrow> nat option" where
  "call_dest code pc = pcounter_reg code (pc + instr_size + extern_id_size)"

definition call_type :: "byte_code \<Rightarrow> pcounter \<Rightarrow> nat option" where
  "call_type code pc = map_option unat (byte_get code pc (instr_size + extern_id_size + reg_val_size))"

definition call_gc :: "byte_code \<Rightarrow> pcounter \<Rightarrow> bool option" where
  "call_gc code pc = pcounter_bool code (pc + instr_size + extern_id_size + reg_val_size + type_size_code)"

definition call_num_args :: "byte_code \<Rightarrow> pcounter \<Rightarrow> nat option" where
  "call_num_args code pc = map_option unat (byte_get code pc (call_size))"

definition calle_extern_id :: "byte_code \<Rightarrow> pcounter \<Rightarrow> nat option" where
  "calle_extern_id code pc = map_option unat (byte_get code pc (1))"

definition calle_dest :: "byte_code \<Rightarrow> pcounter \<Rightarrow> nat option" where
  "calle_dest code pc = pcounter_reg code (pc + instr_size + extern_id_size)"

definition calle_type :: "byte_code \<Rightarrow> pcounter \<Rightarrow> nat option" where
  "calle_type code pc = map_option unat (byte_get code pc (instr_size + extern_id_size + reg_val_size))"

definition calle_gc :: "byte_code \<Rightarrow> pcounter \<Rightarrow> bool option" where
  "calle_gc code pc = pcounter_bool code (pc + instr_size + extern_id_size + reg_val_size + type_size_code)"

definition calle_num_args :: "byte_code \<Rightarrow> pcounter \<Rightarrow> nat option" where
  "calle_num_args code pc = map_option unat (byte_get code pc (call_size))"

definition test_nil_op :: "byte_code \<Rightarrow> pcounter \<Rightarrow> nat option" where
  "test_nil_op code pc = pcounter_reg code (pc + instr_size)"

definition test_nil_dest :: "byte_code \<Rightarrow> pcounter \<Rightarrow> nat option" where
  "test_nil_dest code pc = pcounter_reg code (pc + instr_size + reg_val_size)"

definition cons_type :: "byte_code \<Rightarrow> pcounter \<Rightarrow> nat option" where
  "cons_type code pc = map_option unat (byte_get code pc (instr_size))"

definition gc_reg :: "byte_code \<Rightarrow> pcounter \<Rightarrow> nat option" where
  "gc_reg code pc = pcounter_reg code (pc + instr_size + type_size_code)"

definition gc_type :: "byte_code \<Rightarrow> pcounter \<Rightarrow> nat option" where
  "gc_type code pc = map_option unat (byte_get code pc (instr_size))"

definition not_op :: "byte_code \<Rightarrow> pcounter \<Rightarrow> nat option" where
  "not_op code pc = pcounter_reg code (pc + instr_size)"

definition not_dest :: "byte_code \<Rightarrow> pcounter \<Rightarrow> nat option" where
  "not_dest code pc = pcounter_reg code (pc + instr_size + reg_val_size)"

definition select_size :: "byte_code \<Rightarrow> pcounter \<Rightarrow> nat option" where
  "select_size code pc = pcounter_code_size code (pc + instr_size)"

definition select_hash_size :: "byte_code \<Rightarrow> pcounter \<Rightarrow> nat option" where
  "select_hash_size code pc = pcounter_code_size code (pc + instr_size + 4)"

definition select_hash_start :: "pcounter \<Rightarrow> pcounter" where
  "select_hash_start pc = pc + SELECT_BASE"

definition select_hash :: "byte_code \<Rightarrow> pcounter \<Rightarrow> nat \<Rightarrow> nat option" where
  "select_hash code hash_start v = pcounter_code_size code (hash_start + 4 * v)"

definition select_hash_code :: "pcounter \<Rightarrow> nat \<Rightarrow> nat \<Rightarrow> pcounter" where
  "select_hash_code hash_start hash_size hashed = hash_start + hash_size * 4 + hashed - 1"

definition return_select_jump :: "byte_code \<Rightarrow> pcounter \<Rightarrow> nat option" where
  "return_select_jump code pc = pcounter_code_size code (pc + 1)"

definition delete_predicate :: "byte_code \<Rightarrow> pcounter \<Rightarrow> nat option" where
  "delete_predicate code pc = predicate_get code pc (1)"

definition delete_num_args :: "byte_code \<Rightarrow> pcounter \<Rightarrow> nat option" where
  "delete_num_args code pc = map_option unat (byte_get code pc (2))"

definition delete_val :: "byte_code \<Rightarrow> pcounter \<Rightarrow> byte option" where
  "delete_val code pc = val_get code pc index_size"

definition delete_index :: "byte_code \<Rightarrow> pcounter \<Rightarrow> nat option" where
  "delete_index code pc = field_num_get code pc 0"

definition reset_linear_jump :: "byte_code \<Rightarrow> pcounter \<Rightarrow> nat option" where
  "reset_linear_jump code pc = jump_get code pc (instr_size)"

definition rule_get_id :: "byte_code \<Rightarrow> pcounter \<Rightarrow> nat option" where
  "rule_get_id code pc = map_option unat (pcounter_uint code (pc + instr_size))"

definition new_node_reg :: "byte_code \<Rightarrow> pcounter \<Rightarrow> nat option" where
  "new_node_reg code pc = pcounter_reg code (pc + instr_size)"

definition new_axioms_jump :: "byte_code \<Rightarrow> pcounter \<Rightarrow> nat option" where
  "new_axioms_jump code pc = jump_get code pc (instr_size)"

definition send_delay_msg :: "byte_code \<Rightarrow> pcounter \<Rightarrow> nat option" where
  "send_delay_msg code pc = pcounter_reg code (pc + instr_size)"

definition send_delay_dest :: "byte_code \<Rightarrow> pcounter \<Rightarrow> nat option" where
  "send_delay_dest code pc = pcounter_reg code (pc + instr_size + reg_val_size)"

definition send_delay_time :: "byte_code \<Rightarrow> pcounter \<Rightarrow> uint_val option" where
  "send_delay_time code pc = pcounter_uint code (pc + instr_size + 2 * reg_val_size)"

definition callf_get_id :: "byte_code \<Rightarrow> pcounter \<Rightarrow> nat option" where
  "callf_get_id code pc = map_option unat (code_byte code (pc + instr_size))"

definition make_structr_type :: "byte_code \<Rightarrow> pcounter \<Rightarrow> nat option" where
  "make_structr_type code pc = map_option unat (byte_get code pc (instr_size))"

definition struct_val_idx :: "byte_code \<Rightarrow> pcounter \<Rightarrow> nat option" where
  "struct_val_idx code pc = map_option unat (byte_get code pc (instr_size))"

definition struct_val_from :: "byte_code \<Rightarrow> pcounter \<Rightarrow> byte option" where
  "struct_val_from code pc = val_get code pc (instr_size + 1)"

definition struct_val_to :: "byte_code \<Rightarrow> pcounter \<Rightarrow> byte option" where
  "struct_val_to code pc = val_get code pc (instr_size + 1 + val_size)"

definition push_n :: "byte_code \<Rightarrow> pcounter \<Rightarrow> nat option" where
  "push_n code pc = map_option unat (byte_get code pc (instr_size))"

definition remote_update_dest :: "byte_code \<Rightarrow> pcounter \<Rightarrow> nat option" where
  "remote_update_dest code pc = predicate_get code pc (instr_size)"

definition remote_update_edit :: "byte_code \<Rightarrow> pcounter \<Rightarrow> nat option" where
  "remote_update_edit code pc = predicate_get code pc (instr_size + reg_val_size)"

definition remote_update_target :: "byte_code \<Rightarrow> pcounter \<Rightarrow> nat option" where
  "remote_update_target code pc = predicate_get code pc (instr_size + reg_val_size + predicate_size)"

definition remote_update_common :: "byte_code \<Rightarrow> pcounter \<Rightarrow> nat option" where
  "remote_update_common code pc = map_option unat (byte_get code pc (instr_size + reg_val_size + 2 * predicate_size))"

definition remote_update_nregs :: "byte_code \<Rightarrow> pcounter \<Rightarrow> nat option" where
  "remote_update_nregs code pc = map_option unat (byte_get code pc (instr_size + reg_val_size + 2 * predicate_size + count_size))"

definition literal_cons_jump :: "byte_code \<Rightarrow> pcounter \<Rightarrow> nat option" where
  "literal_cons_jump code pc = jump_get code pc (LITERAL_CONS_BASE - jump_size)"

definition literal_cons_type :: "byte_code \<Rightarrow> pcounter \<Rightarrow> nat option" where
  "literal_cons_type code pc = map_option unat (byte_get code pc (LITERAL_CONS_BASE - jump_size - type_size_code))"

definition literal_cons_dest :: "byte_code \<Rightarrow> pcounter \<Rightarrow> nat option" where
  "literal_cons_dest code pc = reg_get code pc instr_size"

definition node_type_nodes :: "byte_code \<Rightarrow> pcounter \<Rightarrow> int_val option" where
  "node_type_nodes code pc = pcounter_uint code (pc + instr_size + reg_val_size)"

definition node_type_reg :: "byte_code \<Rightarrow> pcounter \<Rightarrow> nat option" where
  "node_type_reg code pc = reg_get code pc instr_size"

subsection \<open>The next instruction\<close>

text \<open>The instructions of constant size: the cases of \<^verbatim>\<open>advance\<close> that add a constant.\<close>

definition fixed_size_control :: "(byte \<times> nat) list" where
  "fixed_size_control = [
     (SEND_INSTR, SEND_BASE), (THREAD_SEND_INSTR, SEND_BASE), (ADDLINEAR_INSTR, ADDLINEAR_BASE),
     (ADDPERS_INSTR, ADDPERS_BASE), (ADDTPERS_INSTR, ADDPERS_BASE),
     (RUNACTION_INSTR, RUNACTION_BASE), (ENQUEUE_LINEAR_INSTR, ENQUEUE_LINEAR_BASE),
     (FLOAT_INSTR, FLOAT_BASE), (ALLOC_INSTR, ALLOC_BASE), (CALL0_INSTR, CALL0_BASE),
     (CALL1_INSTR, CALL1_BASE), (CALL2_INSTR, CALL2_BASE), (CALL3_INSTR, CALL3_BASE),
     (IF_INSTR, IF_BASE), (IF_ELSE_INSTR, IF_ELSE_BASE), (JUMP_INSTR, JUMP_BASE),
     (TESTNIL_INSTR, TESTNIL_BASE), (NOT_INSTR, NOT_BASE), (RETURN_INSTR, RETURN_BASE),
     (RETURN_LINEAR_INSTR, RETURN_LINEAR_BASE), (RETURN_DERIVED_INSTR, RETURN_DERIVED_BASE),
     (NEXT_INSTR, NEXT_BASE), (RETURN_SELECT_INSTR, RETURN_SELECT_BASE),
     (REMOVE_INSTR, REMOVE_BASE), (UPDATE_INSTR, UPDATE_BASE),
     (RESET_LINEAR_INSTR, RESET_LINEAR_BASE), (END_LINEAR_INSTR, END_LINEAR_BASE),
     (RULE_INSTR, RULE_BASE), (RULE_DONE_INSTR, RULE_DONE_BASE), (NEW_NODE_INSTR, NEW_NODE_BASE),
     (SEND_DELAY_INSTR, SEND_DELAY_BASE), (PUSH_INSTR, PUSH_BASE), (PUSHN_INSTR, PUSHN_BASE),
     (POP_INSTR, POP_BASE), (PUSH_REGS_INSTR, PUSH_REGS_BASE), (POP_REGS_INSTR, POP_REGS_BASE),
     (CALLF_INSTR, CALLF_BASE), (MAKE_STRUCTR_INSTR, MAKE_STRUCTR_BASE),
     (MAKE_STRUCTF_INSTR, MAKE_STRUCTF_BASE), (STRUCT_VALRR_INSTR, STRUCT_VALRR_BASE),
     (STRUCT_VALFR_INSTR, STRUCT_VALFR_BASE), (STRUCT_VALRF_INSTR, STRUCT_VALRF_BASE),
     (STRUCT_VALRFR_INSTR, STRUCT_VALRFR_BASE), (STRUCT_VALFF_INSTR, STRUCT_VALFF_BASE),
     (STRUCT_VALFFR_INSTR, STRUCT_VALFFR_BASE)]"

definition fixed_size_moves :: "(byte \<times> nat) list" where
  "fixed_size_moves = [
     (MVINTFIELD_INSTR, MVINTFIELD_BASE), (MVINTREG_INSTR, MVINTREG_BASE),
     (MVFIELDFIELD_INSTR, MVFIELDFIELD_BASE), (MVFIELDFIELDR_INSTR, MVFIELDFIELD_BASE),
     (MVFIELDREG_INSTR, MVFIELDREG_BASE), (MVPTRREG_INSTR, MVPTRREG_BASE),
     (MVNILFIELD_INSTR, MVNILFIELD_BASE), (MVNILREG_INSTR, MVNILREG_BASE),
     (MVREGFIELD_INSTR, MVREGFIELD_BASE), (MVREGFIELDR_INSTR, MVREGFIELD_BASE),
     (MVHOSTFIELD_INSTR, MVHOSTFIELD_BASE), (MVREGCONST_INSTR, MVREGCONST_BASE),
     (MVCONSTFIELD_INSTR, MVCONSTFIELD_BASE), (MVCONSTFIELDR_INSTR, MVCONSTFIELD_BASE),
     (MVADDRFIELD_INSTR, MVADDRFIELD_BASE), (MVFLOATFIELD_INSTR, MVFLOATFIELD_BASE),
     (MVFLOATREG_INSTR, MVFLOATREG_BASE), (MVINTCONST_INSTR, MVINTCONST_BASE),
     (MVWORLDFIELD_INSTR, MVWORLDFIELD_BASE), (MVSTACKPCOUNTER_INSTR, MVSTACKPCOUNTER_BASE),
     (MVPCOUNTERSTACK_INSTR, MVPCOUNTERSTACK_BASE), (MVSTACKREG_INSTR, MVSTACKREG_BASE),
     (MVREGSTACK_INSTR, MVREGSTACK_BASE), (MVADDRREG_INSTR, MVADDRREG_BASE),
     (MVHOSTREG_INSTR, MVHOSTREG_BASE), (MVFLOATSTACK_INSTR, MVFLOATSTACK_BASE),
     (MVARGREG_INSTR, MVARGREG_BASE)]"

definition fixed_size_data :: "(byte \<times> nat) list" where
  "fixed_size_data = [
     (ADDRNOTEQUAL_INSTR, operation_size), (ADDREQUAL_INSTR, operation_size),
     (INTMINUS_INSTR, operation_size), (INTEQUAL_INSTR, operation_size),
     (INTNOTEQUAL_INSTR, operation_size), (INTPLUS_INSTR, operation_size),
     (INTLESSER_INSTR, operation_size), (INTGREATEREQUAL_INSTR, operation_size),
     (INTLESSEREQUAL_INSTR, operation_size), (INTGREATER_INSTR, operation_size),
     (INTMUL_INSTR, operation_size), (INTDIV_INSTR, operation_size),
     (INTMOD_INSTR, operation_size), (FLOATPLUS_INSTR, operation_size),
     (FLOATMINUS_INSTR, operation_size), (FLOATMUL_INSTR, operation_size),
     (FLOATDIV_INSTR, operation_size), (FLOATEQUAL_INSTR, operation_size),
     (FLOATNOTEQUAL_INSTR, operation_size), (FLOATLESSER_INSTR, operation_size),
     (FLOATLESSEREQUAL_INSTR, operation_size), (FLOATGREATER_INSTR, operation_size),
     (FLOATGREATEREQUAL_INSTR, operation_size), (BOOLOR_INSTR, operation_size),
     (BOOLEQUAL_INSTR, operation_size), (BOOLNOTEQUAL_INSTR, operation_size),
     (MVREGREG_INSTR, MVREGREG_BASE), (HEADRR_INSTR, HEADRR_BASE), (HEADFR_INSTR, HEADFR_BASE),
     (HEADFF_INSTR, HEADFF_BASE), (HEADFFR_INSTR, HEADFF_BASE), (HEADRF_INSTR, HEADRF_BASE),
     (HEADRFR_INSTR, HEADRF_BASE), (TAILRR_INSTR, TAILRR_BASE), (TAILFR_INSTR, TAILFR_BASE),
     (TAILFF_INSTR, TAILFF_BASE), (TAILRF_INSTR, TAILRF_BASE), (MVWORLDREG_INSTR, MVWORLDREG_BASE),
     (MVCONSTREG_INSTR, MVCONSTREG_BASE), (MVINTSTACK_INSTR, MVINTSTACK_BASE),
     (CONSRRR_INSTR, CONSRRR_BASE), (CONSRFF_INSTR, CONSRFF_BASE), (CONSFRF_INSTR, CONSFRF_BASE),
     (CONSFFR_INSTR, CONSFFR_BASE), (CONSRRF_INSTR, CONSRRF_BASE), (CONSRFR_INSTR, CONSRFR_BASE),
     (CONSFRR_INSTR, CONSFRR_BASE), (CONSFFF_INSTR, CONSFFF_BASE)]"

definition fixed_size_coord :: "(byte \<times> nat) list" where
  "fixed_size_coord = [
     (SET_PRIORITY_INSTR, SET_PRIORITY_BASE), (SET_PRIORITYH_INSTR, SET_PRIORITYH_BASE),
     (ADD_PRIORITY_INSTR, ADD_PRIORITY_BASE), (ADD_PRIORITYH_INSTR, ADD_PRIORITYH_BASE),
     (STOP_PROG_INSTR, STOP_PROG_BASE), (CPU_ID_INSTR, CPU_ID_BASE),
     (NODE_PRIORITY_INSTR, NODE_PRIORITY_BASE), (MVSTACKFIELD_INSTR, MVSTACKFIELD_BASE),
     (SET_DEFPRIOH_INSTR, SET_DEFPRIOH_BASE), (SET_DEFPRIO_INSTR, SET_DEFPRIO_BASE),
     (SET_STATICH_INSTR, SET_STATICH_BASE), (SET_STATIC_INSTR, SET_STATIC_BASE),
     (SET_MOVINGH_INSTR, SET_MOVINGH_BASE), (SET_MOVING_INSTR, SET_MOVING_BASE),
     (SET_AFFINITYH_INSTR, SET_AFFINITYH_BASE), (SET_AFFINITY_INSTR, SET_AFFINITY_BASE),
     (CPU_STATIC_INSTR, CPU_STATIC_BASE), (MVCPUSREG_INSTR, MVCPUSREG_BASE),
     (SET_CPUH_INSTR, SET_CPUH_BASE), (IS_STATIC_INSTR, IS_STATIC_BASE),
     (IS_MOVING_INSTR, IS_MOVING_BASE), (REM_PRIORITY_INSTR, REM_PRIORITY_BASE),
     (REM_PRIORITYH_INSTR, REM_PRIORITYH_BASE), (FACTS_PROVED_INSTR, FACTS_PROVED_BASE),
     (FACTS_CONSUMED_INSTR, FACTS_CONSUMED_BASE), (SCHEDULE_NEXT_INSTR, SCHEDULE_NEXT_BASE),
     (FABS_INSTR, FABS_BASE), (MVTYPEREG_INSTR, MVTYPEREG_BASE),
     (MVTHREADIDREG_INSTR, MVTHREADIDREG_BASE), (MVTHREADIDFIELD_INSTR, MVTHREADIDFIELD_BASE),
     (MARK_RULE_INSTR, MARK_RULE_BASE)]"

definition fixed_size :: "(byte \<times> nat) list" where
  "fixed_size = fixed_size_control @ fixed_size_moves @ fixed_size_data @ fixed_size_coord"

definition iter_instrs :: "byte list" where
  "iter_instrs = [PERS_ITER_INSTR, TPERS_ITER_INSTR, OPERS_ITER_INSTR, LINEAR_ITER_INSTR, TLINEAR_ITER_INSTR,
     TRLINEAR_ITER_INSTR, RLINEAR_ITER_INSTR, OLINEAR_ITER_INSTR, ORLINEAR_ITER_INSTR]"

text \<open>
  \<open>Outside_code\<close> stands for reading past the code. The number of nodes of a \<^verbatim>\<open>NODE_TYPE\<close> is a signed
  integer, so the next address is computed with integers.
\<close>

datatype instr_error = Malformed_instr | Outside_code

definition advance_by :: "pcounter \<Rightarrow> nat option \<Rightarrow> instr_error + pcounter" where
  "advance_by pc n = (case n of None \<Rightarrow> Inl Outside_code | Some k \<Rightarrow> Inr (pc + k))"

definition advance_nodes :: "pcounter \<Rightarrow> int_val option \<Rightarrow> instr_error + pcounter" where
  "advance_nodes pc n =
     (case n of None \<Rightarrow> Inl Outside_code
      | Some k \<Rightarrow> (let t = int (pc + NODE_TYPE_BASE) + sint k * int val_size
                  in if t < 0 then Inl Outside_code else Inr (nat t)))"

definition advance :: "byte_code \<Rightarrow> pcounter \<Rightarrow> instr_error + pcounter" where
  "advance code pc =
     (case fetch code pc of None \<Rightarrow> Inl Outside_code
      | Some opc \<Rightarrow>
        (case map_of fixed_size opc of Some n \<Rightarrow> Inr (pc + n)
         | None \<Rightarrow>
           if opc \<in> set iter_instrs then advance_by pc (iter_inner_jump code pc)
           else if opc = CALL_INSTR then
             advance_by pc (map_option (\<lambda>n. CALL_BASE + n * reg_val_size) (call_num_args code pc))
           else if opc = CALLE_INSTR then
             advance_by pc (map_option (\<lambda>n. CALLE_BASE + n * reg_val_size) (calle_num_args code pc))
           else if opc = SELECT_INSTR then
             advance_by pc (map_option (\<lambda>n. SELECT_BASE + n * 4) (select_hash_size code pc))
           else if opc = NEW_AXIOMS_INSTR then advance_by pc (new_axioms_jump code pc)
           else if opc = REMOTE_UPDATE_INSTR then
             advance_by pc (map_option (\<lambda>n. REMOTE_UPDATE_BASE + n * reg_val_size) (remote_update_nregs code pc))
           else if opc = NODE_TYPE_INSTR then advance_nodes pc (node_type_nodes code pc)
           else if opc = LITERAL_CONS_INSTR then advance_by pc (literal_cons_jump code pc)
           else Inl Malformed_instr))"

subsection \<open>Which codes are instructions\<close>

lemma fixed_size_bounds: "\<forall>(opc, n) \<in> set fixed_size. 0 < n \<and> n \<le> 14"
proof -
  have "list_all (\<lambda>(opc, n). 0 < n \<and> n \<le> 14) fixed_size" by code_simp
  then show ?thesis by (simp only: list_all_iff)
qed

text \<open>The codes of the cases of \<^verbatim>\<open>advance\<close> whose result depends on the code.\<close>

definition variable_size :: "byte list" where
  "variable_size = iter_instrs @ [CALL_INSTR, CALLE_INSTR, SELECT_INSTR, NEW_AXIOMS_INSTR, REMOTE_UPDATE_INSTR,
     NODE_TYPE_INSTR, LITERAL_CONS_INSTR]"

lemma variable_size_not_fixed: "opc \<in> set variable_size \<Longrightarrow> map_of fixed_size opc = None"
proof -
  have "list_all (\<lambda>opc. map_of fixed_size opc = None) variable_size" by code_simp
  then show "opc \<in> set variable_size \<Longrightarrow> map_of fixed_size opc = None" by (simp add: list_all_iff)
qed

lemma instr_type_cases: "set instr_type = set (map fst fixed_size) \<union> set variable_size"
proof -
  have "sort (map uint instr_type) = sort (map uint (map fst fixed_size @ variable_size))"
    by code_simp
  then have "set (map uint instr_type) = set (map uint (map fst fixed_size @ variable_size))"
    by (metis set_sort)
  then have eq: "uint ` set instr_type = uint ` (set (map fst fixed_size) \<union> set variable_size)"
    by (simp add: image_Un image_image)
  show ?thesis by (rule inj_image_eq_iff [THEN iffD1, OF _ eq]) (simp add: inj_on_def word_uint_eq_iff)
qed

lemma map_of_fixed_size_None: "map_of fixed_size opc = None \<longleftrightarrow> opc \<notin> set (map fst fixed_size)"
  by (simp add: map_of_eq_None_iff)

lemma advance_fixed:
  assumes "pc < length code" "map_of fixed_size (code ! pc) = Some n"
  shows "advance code pc = Inr (pc + n)" "0 < n" "n \<le> 14"
proof -
  show "advance code pc = Inr (pc + n)"
    using assms by (simp add: advance_def fetch_def code_byte_def)
  have "(code ! pc, n) \<in> set fixed_size"
    using assms by (simp add: map_of_SomeD)
  with fixed_size_bounds show "0 < n" "n \<le> 14" by auto
qed

lemma advance_by_not_malformed [simp]: "advance_by pc n \<noteq> Inl Malformed_instr"
  by (simp add: advance_by_def split: option.split)

lemma advance_nodes_not_malformed [simp]: "advance_nodes pc n \<noteq> Inl Malformed_instr"
  by (simp add: advance_nodes_def Let_def split: option.split)

lemma advance_malformed_iff:
  assumes "pc < length code"
  shows "advance code pc = Inl Malformed_instr \<longleftrightarrow> code ! pc \<notin> set instr_type"
proof (cases "map_of fixed_size (code ! pc)")
  case None
  then have "code ! pc \<in> set instr_type \<longleftrightarrow> code ! pc \<in> set variable_size"
    by (simp add: instr_type_cases map_of_fixed_size_None del: set_map)
  with None assms show ?thesis
    by (simp add: advance_def fetch_def code_byte_def variable_size_def)
next
  case (Some n)
  then have "code ! pc \<in> set (map fst fixed_size)"
    using map_of_fixed_size_None [of "code ! pc"] by (simp del: set_map)
  with Some assms show ?thesis
    by (simp add: advance_def fetch_def code_byte_def instr_type_cases del: set_map)
qed

text \<open>
  C32. The codes on which \<^verbatim>\<open>advance\<close> throws \<^verbatim>\<open>malformed_instr_error\<close> are exactly the ones that are not
  in the enumeration of instructions: no declared instruction is missing from its switch. Over an
  instruction of constant size it moves forward by at least one and at most 14 bytes, so walking
  such instructions always ends.
\<close>

theorem advance_opcodes:
  assumes "pc < length code"
  shows "(advance code pc = Inl Malformed_instr \<longleftrightarrow> code ! pc \<notin> set instr_type)
    \<and> (code ! pc \<in> set (map fst fixed_size) \<longrightarrow>
        (\<exists>pc'. advance code pc = Inr pc' \<and> pc < pc' \<and> pc' \<le> pc + 14))"
proof -
  have "\<exists>pc'. advance code pc = Inr pc' \<and> pc < pc' \<and> pc' \<le> pc + 14"
    if "code ! pc \<in> set (map fst fixed_size)"
  proof -
    obtain n where "map_of fixed_size (code ! pc) = Some n"
      using \<open>code ! pc \<in> _\<close> map_of_fixed_size_None by fastforce
    from advance_fixed [OF assms this] show ?thesis by simp
  qed
  with advance_malformed_iff [OF assms] show ?thesis by blast
qed

theorem advance_opcodes_witness:
  "advance [MVREGREG_INSTR, 1, 2, RETURN_INSTR] 0 = Inr 3
   \<and> advance [0x0D] 0 = Inl Malformed_instr
   \<and> (\<exists>pc'. advance [MVREGREG_INSTR, 1, 2, RETURN_INSTR] 0 = Inr pc' \<and> 0 < pc' \<and> pc' \<le> 0 + 14)"
proof -
  have in_table: "[MVREGREG_INSTR, 1, 2, RETURN_INSTR] ! 0 \<in> set (map fst fixed_size)"
    by (simp add: fixed_size_def fixed_size_data_def)
  have "advance [MVREGREG_INSTR, 1, 2, RETURN_INSTR] 0 = Inr 3" by code_simp
  moreover have "[0x0D] ! 0 \<notin> set instr_type" by (simp add: instr_type_def)
  moreover note advance_opcodes [of 0 "[0x0D]"] advance_opcodes [of 0 "[MVREGREG_INSTR, 1, 2, RETURN_INSTR]"] in_table
  ultimately show ?thesis by simp
qed

subsection \<open>Reading operands that were laid out\<close>

lemma code_byte_append [simp]:
  "code_byte (a @ b) k = (if k < length a then code_byte a k else code_byte b (k - length a))"
  by (auto simp: code_byte_def nth_append)

lemma code_byte_Cons [simp]: "code_byte (x # b) k = (if k = 0 then Some x else code_byte b (k - 1))"
  by (cases k) (auto simp: code_byte_def)

lemma code_bytes_append [simp]:
  "length a \<le> k \<Longrightarrow> code_bytes n (a @ b) k = code_bytes n b (k - length a)"
  by (auto simp: code_bytes_def)

lemma code_bytes_Cons [simp]: "0 < k \<Longrightarrow> code_bytes n (x # b) k = code_bytes n b (k - 1)"
  by (cases k) (auto simp: code_bytes_def)

lemma code_bytes_here [simp]: "code_bytes n (to_le n v @ b) 0 = Some (to_le n v)"
  by (simp add: code_bytes_def)

lemma le_nat_to_le4 [simp]: "v < 2 ^ 32 \<Longrightarrow> le_nat (to_le 4 v) = v"
  by (simp add: le_nat_to_le)

lemma le_nat_to_le8 [simp]: "le_nat (to_le 8 (unat (v :: 64 word))) = unat v"
proof -
  have "unat v < 2 ^ 64" using unsigned_less [of v] by simp
  then show ?thesis by (simp add: le_nat_to_le)
qed

lemma le_nat_to_le4_word [simp]: "le_nat (to_le 4 (unat (v :: 32 word))) = unat v"
proof -
  have "unat v < 2 ^ 32" using unsigned_less [of v] by simp
  then show ?thesis by (simp add: le_nat_to_le)
qed

lemmas operand_defs = pcounter_reg_def pcounter_bool_def pcounter_code_size_def pcounter_int_def
  pcounter_float_def pcounter_node_def pcounter_uint_def pcounter_ptr_def pcounter_const_id_def
  pcounter_argument_id_def pcounter_offset_num_def pcounter_stack_def val_field_num_def
  val_field_reg_def jump_get_def byte_get_def predicate_get_def reg_get_def val_get_def field_num_get_def

lemma and_7f_less: "unat (p :: byte) < 128 \<Longrightarrow> unat (p AND 0x7f) = unat p"
proof -
  assume "unat p < 128"
  then have "take_bit 7 (unat p) = unat p" by (simp add: take_bit_nat_eq_self_iff)
  moreover have "p AND 0x7f = take_bit 7 p"
    by (simp add: take_bit_eq_mask mask_eq_exp_minus_1)
  ultimately show ?thesis by (simp add: unsigned_take_bit_eq)
qed

text \<open>
  The iterators that carry two bytes of options after the jumps. Each of the nine passes the constant
  of its own name as the base of its matches: \<open>OITER_BASE\<close> for these three, \<open>ITER_BASE\<close> for the others.
\<close>

definition option_iter_instrs :: "byte list" where
  "option_iter_instrs = [OPERS_ITER_INSTR, OLINEAR_ITER_INSTR, ORLINEAR_ITER_INSTR]"

definition iter_base :: "byte \<Rightarrow> nat" where
  "iter_base opc = (if opc \<in> set option_iter_instrs then OITER_BASE else ITER_BASE)"

text \<open>
  C33. The header of the nine iterator instructions is read back as it is laid out: the match
  object, the predicate (seven bits), the register, the constant-match flag, the two jumps, for
  the three iterators with options the option byte and its argument, and last the number of matches,
  one byte before the base of the iterator's matches. \<^verbatim>\<open>advance\<close> continues at the inner jump.
\<close>

theorem iter_header_layout:
  assumes "inner < 2 ^ 32" "outer < 2 ^ 32" "unat p < 128" "opc \<in> set iter_instrs"
    "code = pre @ opc # to_le 8 (unat obj) @ p # r # cm # to_le 4 inner @ to_le 4 outer
       @ (if opc \<in> set option_iter_instrs then [opt, arg] else []) @ cnt # rest"
    "pc = length pre"
  shows "iter_match_object code pc = Some obj \<and> iter_predicate code pc = Some (unat p)
    \<and> iter_reg code pc = Some (unat r) \<and> iter_constant_match code pc = Some (cm \<noteq> 0)
    \<and> iter_inner_jump code pc = Some inner \<and> iter_outer_jump code pc = Some outer
    \<and> (opc \<in> set option_iter_instrs \<longrightarrow> iter_options code pc = Some opt \<and> iter_options_argument code pc = Some arg)
    \<and> iter_matches_size code pc (iter_base opc) = Some (unat cnt)
    \<and> drop (pc + iter_base opc) code = rest
    \<and> advance code pc = Inr (pc + inner)"
proof -
  have jump: "iter_inner_jump code pc = Some inner"
    using assms by (simp add: iter_inner_jump_def operand_defs vm_size_simps)
  have "map_of fixed_size opc = None"
    using assms(4) by (simp add: variable_size_not_fixed variable_size_def)
  with jump assms(4-6) have adv: "advance code pc = Inr (pc + inner)"
    by (simp add: advance_def fetch_def advance_by_def)
  have len: "length (to_le k n) = k" for k n by simp
  show ?thesis
  proof (cases "opc \<in> set option_iter_instrs")
    case True
    with jump adv assms show ?thesis
      by (simp add: iter_match_object_def iter_predicate_def iter_reg_def iter_constant_match_def iter_base_def
          iter_outer_jump_def iter_matches_size_def iter_options_def iter_options_argument_def operand_defs
          vm_size_simps and_7f_less drop_Cons')
  next
    case False
    with jump adv assms show ?thesis
      by (simp add: iter_match_object_def iter_predicate_def iter_reg_def iter_constant_match_def iter_base_def
          iter_outer_jump_def iter_matches_size_def operand_defs vm_size_simps and_7f_less drop_Cons')
  qed
qed

theorem iter_header_layout_witness:
  "(\<exists>code. iter_predicate code 1 = Some 5 \<and> iter_reg code 1 = Some 3 \<and> iter_inner_jump code 1 = Some 21
      \<and> iter_outer_jump code 1 = Some 300 \<and> iter_matches_size code 1 LINEAR_ITER_BASE = Some 2 \<and> advance code 1 = Inr (1 + 21))
   \<and> (\<exists>code. iter_options code 1 = Some 4 \<and> iter_options_argument code 1 = Some 9
      \<and> iter_matches_size code 1 OLINEAR_ITER_BASE = Some 2 \<and> advance code 1 = Inr (1 + 23))"
proof -
  have i: "LINEAR_ITER_INSTR \<in> set iter_instrs" "OLINEAR_ITER_INSTR \<in> set iter_instrs" by (simp_all add: iter_instrs_def)
  have b: "iter_base LINEAR_ITER_INSTR = LINEAR_ITER_BASE" "iter_base OLINEAR_ITER_INSTR = OLINEAR_ITER_BASE"
    "OLINEAR_ITER_INSTR \<in> set option_iter_instrs"
    by (simp_all add: iter_base_def option_iter_instrs_def LINEAR_ITER_BASE_def OLINEAR_ITER_BASE_def)
  from iter_header_layout [of 21 300 5 LINEAR_ITER_INSTR _ "[RETURN_INSTR]" 0 3 0 4 9 2 "[]" 1, OF _ _ _ i(1) refl]
    iter_header_layout [of 23 300 5 OLINEAR_ITER_INSTR _ "[RETURN_INSTR]" 0 3 0 4 9 2 "[]" 1, OF _ _ _ i(2) refl] b
  show ?thesis by (intro conjI exI) auto
qed

text \<open>The instructions that call a function with a counted list of arguments.\<close>

lemma call_layout:
  assumes "code = pre @ CALL_INSTR # e # d # t # g # n # args @ rest" "pc = length pre" "length args = unat n"
  shows "call_extern_id code pc = Some (unat e) \<and> call_dest code pc = Some (unat d)
    \<and> call_type code pc = Some (unat t) \<and> call_gc code pc = Some (g \<noteq> 0)
    \<and> call_num_args code pc = Some (length args)
    \<and> (\<exists>pc'. advance code pc = Inr pc' \<and> drop pc' code = rest)"
proof -
  have n: "call_num_args code pc = Some (length args)"
    using assms by (simp add: call_num_args_def operand_defs vm_size_simps)
  have "map_of fixed_size CALL_INSTR = None" "CALL_INSTR \<notin> set iter_instrs"
    by (simp add: variable_size_not_fixed variable_size_def) (simp add: iter_instrs_def)
  with n assms(1,2) have "advance code pc = Inr (pc + 6 + length args)"
    by (simp add: advance_def fetch_def advance_by_def vm_size_simps)
  with n assms show ?thesis
    by (simp add: call_extern_id_def call_dest_def call_type_def call_gc_def operand_defs vm_size_simps drop_Cons')
qed
end
