(* ===== verification/Field_Val.thy ===== *)
theory Field_Val
  imports Float_Val
begin

text \<open>
  The union \<^verbatim>\<open>tuple_field\<close> of \<^verbatim>\<open>vm/defs.hpp\<close>, which registers, tuples, list cells and the call stack hold:
  eight bytes, read and written at the width of one of the members. Writing a narrower member keeps
  the other bytes (x86-64, least significant byte first).
\<close>

type_synonym tuple_field = "64 word"

definition field_bool :: "tuple_field \<Rightarrow> bool" where
  "field_bool f \<longleftrightarrow> take_bit 8 f \<noteq> 0"

definition field_int :: "tuple_field \<Rightarrow> int_val" where
  "field_int f = ucast f"

definition field_float :: "tuple_field \<Rightarrow> float_val" where
  "field_float f = f"

definition field_node :: "tuple_field \<Rightarrow> node_val" where
  "field_node f = f"

definition field_ptr :: "tuple_field \<Rightarrow> ptr_val" where
  "field_ptr f = f"

definition set_field_bool :: "tuple_field \<Rightarrow> bool \<Rightarrow> tuple_field" where
  "set_field_bool f b = push_bit 8 (drop_bit 8 f) OR of_bool b"

definition set_field_int :: "tuple_field \<Rightarrow> int_val \<Rightarrow> tuple_field" where
  "set_field_int f i = push_bit 32 (drop_bit 32 f) OR ucast i"

definition set_field_float :: "tuple_field \<Rightarrow> float_val \<Rightarrow> tuple_field" where
  "set_field_float f x = x"

definition set_field_node :: "tuple_field \<Rightarrow> node_val \<Rightarrow> tuple_field" where
  "set_field_node f n = n"

definition set_field_ptr :: "tuple_field \<Rightarrow> ptr_val \<Rightarrow> tuple_field" where
  "set_field_ptr f p = p"

lemmas whole_field_defs = field_float_def field_node_def field_ptr_def
  set_field_float_def set_field_node_def set_field_ptr_def

lemma field_int_set_int [simp]: "field_int (set_field_int f i) = i"
  by (rule bit_word_eqI) (simp add: field_int_def set_field_int_def bit_simps)

lemma field_bool_set_bool [simp]: "field_bool (set_field_bool f b) = b"
proof -
  have "take_bit 8 (set_field_bool f b) = of_bool b"
    by (rule bit_word_eqI) (auto simp: set_field_bool_def bit_simps)
  then show ?thesis by (simp add: field_bool_def)
qed

text \<open>A truth value stored as an integer is read back as a truth value.\<close>

lemma field_bool_set_int [simp]: "field_bool (set_field_int f (of_bool b)) = b"
proof -
  have "take_bit 8 (set_field_int f (of_bool b)) = of_bool b"
    by (rule bit_word_eqI) (auto simp: set_field_int_def bit_simps)
  then show ?thesis by (simp add: field_bool_def)
qed

lemma field_whole_set [simp]:
  "field_float (set_field_float f x) = x" "field_node (set_field_node f n) = n" "field_ptr (set_field_ptr f p) = p"
  by (simp_all add: whole_field_defs)

end
