(* ===== verification/Runtime_Heap.thy ===== *)
theory Runtime_Heap
  imports Types Field_Val "HOL-Library.Monad_Syntax"
begin

text \<open>
  The reference-counted objects of the virtual machine (\<^verbatim>\<open>runtime/*.hpp\<close>, \<^verbatim>\<open>runtime/objs.cpp\<close>): list
  cells, structs, strings, arrays, sets, and the nodes they refer to. A heap maps addresses to
  objects with their counters; address 0 is the null pointer. An operation returns None when it
  follows a dangling pointer, treats an object as one of another class, or decrements a counter that
  is already zero, which the assertions of the source exclude. Releasing an object releases what it
  owns, recursively; the recursion is bounded by fuel, and the sum of all counters is enough.
  The main theorem: when the counters are exact, dropping a reference never fails, keeps them
  exact, frees exactly the objects whose last reference went away, and leaves no dangling pointer.
\<close>

subsection \<open>Objects\<close>

text \<open>
  \<open>ConsO\<close> has the tail and the head of a list cell, \<open>ArrayO\<close> the capacity and the elements, \<open>SetO\<close> the
  elements in increasing order. Of a node only what garbage collection looks at is kept: its
  identifier and whether \<^verbatim>\<open>matcher.is_empty() && !unprocessed_facts\<close>.
\<close>

datatype robj =
    ConsO ptr_val tuple_field
  | StructO "tuple_field list"
  | StringO string
  | ArrayO nat "tuple_field list"
  | SetO "tuple_field list"
  | NodeO node_val bool

record heap =
  h_objs :: "ptr_val \<rightharpoonup> nat \<times> robj"
  h_gc :: "node_val set"

text \<open>What the functions ask the database.\<close>

record db_env =
  original_max_node_id :: node_val
  deleting :: bool

definition is_initial_node :: "db_env \<Rightarrow> node_val \<Rightarrow> bool" where
  "is_initial_node env i \<longleftrightarrow> deleting env \<or> i \<le> original_max_node_id env"

definition set_obj :: "ptr_val \<Rightarrow> nat \<times> robj \<Rightarrow> heap \<Rightarrow> heap" where
  "set_obj p ob H = H\<lparr>h_objs := (h_objs H)(p \<mapsto> ob)\<rparr>"

definition free_obj :: "ptr_val \<Rightarrow> heap \<Rightarrow> heap" where
  "free_obj p H = H\<lparr>h_objs := (h_objs H)(p := None)\<rparr>"

subsection \<open>Incrementing\<close>

definition do_increment_runtime :: "db_env \<Rightarrow> tuple_field \<Rightarrow> field_type \<Rightarrow> heap \<Rightarrow> heap option" where
  "do_increment_runtime env f t H =
     (if f = 0 then Some H
      else case h_objs H f of
        None \<Rightarrow> None
      | Some (r, ob) \<Rightarrow>
          if t = FIELD_NODE then
            (case ob of
               NodeO i q \<Rightarrow> if \<not> is_initial_node env i then Some (set_obj f (r + 1, ob) H) else Some H
             | _ \<Rightarrow> None)
          else Some (set_obj f (r + 1, ob) H))"

text \<open>The kinds of fields that the containers count.\<close>

fun counted_type :: "field_type \<Rightarrow> bool" where
  "counted_type FIELD_NODE = True"
| "counted_type FIELD_STRING = True"
| "counted_type FIELD_STRUCT = True"
| "counted_type FIELD_LIST = True"
| "counted_type _ = False"

definition increment_runtime_data :: "db_env \<Rightarrow> tuple_field \<Rightarrow> field_type \<Rightarrow> heap \<Rightarrow> heap option" where
  "increment_runtime_data env f t H = (if counted_type t then do_increment_runtime env f t H else Some H)"

subsection \<open>Decrementing and destroying\<close>

text \<open>The fields that \<^verbatim>\<open>decrement_runtime_data\<close> passes on to \<^verbatim>\<open>do_decrement_runtime\<close>.\<close>

definition counted :: "tuple_field \<Rightarrow> vtype \<Rightarrow> (tuple_field \<times> vtype) list" where
  "counted f t = (case get_type t of Some ft \<Rightarrow> if counted_type ft then [(f, t)] else [] | None \<Rightarrow> [])"

text \<open>
  What the \<^verbatim>\<open>destroy\<close> functions decrement, in their order: a list cell first its tail and then its
  head, a struct its fields unless they are all simple, an array and a set their elements if the
  element type is a reference.
\<close>

definition destroy_cons :: "vtype \<Rightarrow> ptr_val \<Rightarrow> tuple_field \<Rightarrow> (tuple_field \<times> vtype) list" where
  "destroy_cons s tailp headf = (if tailp \<noteq> 0 then [(tailp, ListT s)] else []) @ counted headf s"

definition destroy_struct :: "vtype list \<Rightarrow> tuple_field list \<Rightarrow> (tuple_field \<times> vtype) list" where
  "destroy_struct ts fs = (if simple_composed_type ts then [] else concat (map2 counted fs ts))"

definition destroy_array :: "vtype \<Rightarrow> tuple_field list \<Rightarrow> (tuple_field \<times> vtype) list" where
  "destroy_array b es = (if is_reference b then concat (map (\<lambda>e. counted e b) es) else [])"

definition destroy_set :: "vtype \<Rightarrow> tuple_field list \<Rightarrow> (tuple_field \<times> vtype) list" where
  "destroy_set b es = (if is_reference b then concat (map (\<lambda>e. counted e b) es) else [])"

fun owned :: "vtype \<Rightarrow> robj \<Rightarrow> (tuple_field \<times> vtype) list option" where
  "owned (ListT s) (ConsO tailp headf) = Some (destroy_cons s tailp headf)"
| "owned (StructT ts) (StructO fs) = (if length fs = length ts then Some (destroy_struct ts fs) else None)"
| "owned (ArrayT b) (ArrayO cap es) = Some (destroy_array b es)"
| "owned (SetT b) (SetO es) = Some (destroy_set b es)"
| "owned (BaseT FIELD_STRING) (StringO s) = Some []"
| "owned _ _ = None"

definition decrement_node :: "db_env \<Rightarrow> node_val \<Rightarrow> nat \<times> robj \<Rightarrow> heap \<Rightarrow> heap option" where
  "decrement_node env f ro H =
     (case ro of
        (r, NodeO i quiet) \<Rightarrow>
          if deleting env then Some H
          else if is_initial_node env i then Some H
          else if r = 0 then None
          else let H = set_obj f (r - 1, NodeO i quiet) H
               in Some (if r - 1 = 0 \<and> quiet then H\<lparr>h_gc := insert f (h_gc H)\<rparr> else H)
      | _ \<Rightarrow> None)"

fun do_decrement_runtime :: "db_env \<Rightarrow> nat \<Rightarrow> tuple_field \<Rightarrow> vtype \<Rightarrow> heap \<Rightarrow> heap option"
  and decrement_all :: "db_env \<Rightarrow> nat \<Rightarrow> (tuple_field \<times> vtype) list \<Rightarrow> heap \<Rightarrow> heap option" where
  "do_decrement_runtime env 0 f t H = None"
| "do_decrement_runtime env (Suc n) f t H =
     (if f = 0 then Some H
      else case h_objs H f of
        None \<Rightarrow> None
      | Some (r, ob) \<Rightarrow>
          if t = BaseT FIELD_NODE then decrement_node env f (r, ob) H
          else case owned t ob of
            None \<Rightarrow> None
          | Some fs \<Rightarrow>
              if r = 0 then None
              else if r - 1 = 0 then
                map_option (free_obj f) (decrement_all env n fs (set_obj f (0, ob) H))
              else Some (set_obj f (r - 1, ob) H))"
| "decrement_all env n [] H = Some H"
| "decrement_all env n (x # xs) H =
     do { H \<leftarrow> do_decrement_runtime env n (fst x) (snd x) H; decrement_all env n xs H }"

definition decrement_runtime_data :: "db_env \<Rightarrow> nat \<Rightarrow> tuple_field \<Rightarrow> vtype \<Rightarrow> heap \<Rightarrow> heap option" where
  "decrement_runtime_data env n f t H = decrement_all env n (counted f t) H"

subsection \<open>List cells\<close>

text \<open>
  \<^verbatim>\<open>inc_refs\<close> increments whatever the object is. A new cell is placed at an address the allocator
  chooses; its parameters are in the order of the source, \<open>t\<close> is the type of the elements.
\<close>

definition inc_refs :: "ptr_val \<Rightarrow> heap \<Rightarrow> heap option" where
  "inc_refs p H = (case h_objs H p of None \<Rightarrow> None | Some (r, ob) \<Rightarrow> Some (set_obj p (r + 1, ob) H))"

definition cons_inc_refs :: "ptr_val \<Rightarrow> heap \<Rightarrow> heap option" where
  "cons_inc_refs ls H = (if ls = 0 then Some H else inc_refs ls H)"

definition cons_dec_refs :: "db_env \<Rightarrow> nat \<Rightarrow> ptr_val \<Rightarrow> vtype \<Rightarrow> heap \<Rightarrow> heap option" where
  "cons_dec_refs env n ls t H = (if ls = 0 then Some H else do_decrement_runtime env n ls t H)"

definition cons_create ::
  "db_env \<Rightarrow> ptr_val \<Rightarrow> ptr_val \<Rightarrow> tuple_field \<Rightarrow> vtype \<Rightarrow> nat \<Rightarrow> heap \<Rightarrow> heap option" where
  "cons_create env c tailp headf t start_refs H =
     do { H \<leftarrow> cons_inc_refs tailp (set_obj c (start_refs, ConsO tailp headf) H);
          ft \<leftarrow> get_type t;
          increment_runtime_data env headf ft H }"

definition get_head :: "heap \<Rightarrow> ptr_val \<Rightarrow> tuple_field option" where
  "get_head H p = (case h_objs H p of Some (r, ConsO tailp headf) \<Rightarrow> Some headf | _ \<Rightarrow> None)"

definition get_tail :: "heap \<Rightarrow> ptr_val \<Rightarrow> ptr_val option" where
  "get_tail H p = (case h_objs H p of Some (r, ConsO tailp headf) \<Rightarrow> Some tailp | _ \<Rightarrow> None)"

subsection \<open>Replacing a field of a tuple\<close>

definition set_field_ref ::
  "db_env \<Rightarrow> nat \<Rightarrow> nat \<Rightarrow> tuple_field \<Rightarrow> vtype list \<Rightarrow> tuple_field list \<Rightarrow> heap \<Rightarrow> (tuple_field list \<times> heap) option" where
  "set_field_ref env n field newval types fs H =
     (if field < length fs \<and> field < length types then
        let oldval = fs ! field; fs' = fs[field := newval]; t = types ! field
        in if newval = oldval then Some (fs', H)
           else do { ft \<leftarrow> get_type t;
                     H \<leftarrow> do_increment_runtime env newval ft H;
                     H \<leftarrow> do_decrement_runtime env n oldval t H;
                     Some (fs', H) }
      else None)"

subsection \<open>Exact reference counts\<close>

text \<open>
  The predicate the counters keep. \<open>G\<close> gives the type of every address; \<open>roots\<close> is the multiset of
  the counted references from outside the heap (tuples, constants, the lists of temporaries); \<open>Z\<close>
  is the set of objects that are being destroyed, whose references were turned into roots. Nodes
  that exist from the start are not counted.
\<close>

definition owned_ptrs :: "(ptr_val \<Rightarrow> vtype option) \<Rightarrow> heap \<Rightarrow> ptr_val \<Rightarrow> ptr_val multiset" where
  "owned_ptrs G H q =
     (case (h_objs H q, G q) of
        (Some (r, ob), Some t) \<Rightarrow>
          (case owned t ob of Some fs \<Rightarrow> mset (filter (\<lambda>f. f \<noteq> 0) (map fst fs)) | None \<Rightarrow> {#})
      | _ \<Rightarrow> {#})"

definition refs_in :: "(ptr_val \<Rightarrow> vtype option) \<Rightarrow> heap \<Rightarrow> ptr_val set \<Rightarrow> ptr_val \<Rightarrow> nat" where
  "refs_in G H Z p = (\<Sum>q \<in> dom (h_objs H) - Z. count (owned_ptrs G H q) p)"

definition refs_of :: "heap \<Rightarrow> ptr_val \<Rightarrow> nat" where
  "refs_of H p = (case h_objs H p of Some (r, _) \<Rightarrow> r | None \<Rightarrow> 0)"

definition total_refs :: "heap \<Rightarrow> nat" where
  "total_refs H = (\<Sum>q \<in> dom (h_objs H). refs_of H q)"

fun is_node :: "robj \<Rightarrow> bool" where
  "is_node (NodeO i q) = True"
| "is_node _ = False"

fun uncounted :: "db_env \<Rightarrow> robj \<Rightarrow> bool" where
  "uncounted env (NodeO i q) = is_initial_node env i"
| "uncounted env _ = False"

definition ref_ok :: "(ptr_val \<Rightarrow> vtype option) \<Rightarrow> heap \<Rightarrow> tuple_field \<times> vtype \<Rightarrow> bool" where
  "ref_ok G H x \<longleftrightarrow> fst x = 0 \<or> fst x \<in> dom (h_objs H) \<and> G (fst x) = Some (snd x)"

definition obj_typed :: "(ptr_val \<Rightarrow> vtype option) \<Rightarrow> heap \<Rightarrow> ptr_val \<Rightarrow> robj \<Rightarrow> bool" where
  "obj_typed G H p ob \<longleftrightarrow>
     (case G p of
        None \<Rightarrow> False
      | Some t \<Rightarrow>
          if t = BaseT FIELD_NODE then is_node ob
          else (case owned t ob of None \<Rightarrow> False | Some fs \<Rightarrow> list_all (ref_ok G H) fs))"

definition rc_inv ::
  "db_env \<Rightarrow> (ptr_val \<Rightarrow> vtype option) \<Rightarrow> ptr_val set \<Rightarrow> heap \<Rightarrow> ptr_val multiset \<Rightarrow> bool" where
  "rc_inv env G Z H roots \<longleftrightarrow>
     \<not> deleting env \<and> finite (dom (h_objs H)) \<and> 0 \<notin> dom (h_objs H) \<and> Z \<subseteq> dom (h_objs H)
     \<and> set_mset roots \<subseteq> dom (h_objs H)
     \<and> (\<forall>p r ob. h_objs H p = Some (r, ob) \<longrightarrow>
          (p \<notin> Z \<longrightarrow> obj_typed G H p ob) \<and> (p \<in> Z \<longrightarrow> r = 0 \<and> \<not> is_node ob)
          \<and> (uncounted env ob \<or> r = count roots p + refs_in G H Z p))"

text \<open>What one heap keeps of another when references are dropped.\<close>

definition shrinks :: "ptr_val set \<Rightarrow> heap \<Rightarrow> heap \<Rightarrow> bool" where
  "shrinks Z H H' \<longleftrightarrow>
     total_refs H' \<le> total_refs H
     \<and> (\<forall>q r' ob. h_objs H' q = Some (r', ob) \<longrightarrow>
          (\<exists>r. h_objs H q = Some (r, ob) \<and> (r' = 0 \<and> \<not> is_node ob \<longrightarrow> r = 0)))
     \<and> (\<forall>q\<in>Z. h_objs H' q = h_objs H q)"

lemma shrinks_refl [simp]: "shrinks Z H H"
  by (simp add: shrinks_def)

lemma shrinks_trans: "shrinks Z H H1 \<Longrightarrow> shrinks Z H1 H2 \<Longrightarrow> shrinks Z H H2"
proof -
  assume a: "shrinks Z H H1" and b: "shrinks Z H1 H2"
  have "\<exists>r. h_objs H q = Some (r, ob) \<and> (r' = 0 \<and> \<not> is_node ob \<longrightarrow> r = 0)" if q: "h_objs H2 q = Some (r', ob)" for q r' ob
  proof -
    from b q obtain r1 where "h_objs H1 q = Some (r1, ob)" "r' = 0 \<and> \<not> is_node ob \<longrightarrow> r1 = 0"
      unfolding shrinks_def by blast
    with a show ?thesis unfolding shrinks_def by blast
  qed
  with a b show ?thesis by (simp add: shrinks_def)
qed

lemma shrinks_mono: "shrinks Z' H H' \<Longrightarrow> Z \<subseteq> Z' \<Longrightarrow> shrinks Z H H'"
  unfolding shrinks_def by blast

lemma shrinks_obj:
  assumes "shrinks Z H H'" "h_objs H' q = Some (r', ob)"
  obtains r where "h_objs H q = Some (r, ob)" "r' = 0 \<Longrightarrow> \<not> is_node ob \<Longrightarrow> r = 0"
  using assms unfolding shrinks_def by blast

lemma shrinks_dom: "shrinks Z H H' \<Longrightarrow> dom (h_objs H') \<subseteq> dom (h_objs H)"
  by (auto elim: shrinks_obj)

lemma h_objs_set_obj [simp]: "h_objs (set_obj p ob H) = (h_objs H)(p \<mapsto> ob)"
  by (simp add: set_obj_def)

lemma h_objs_free_obj [simp]: "h_objs (free_obj p H) = (h_objs H)(p := None)"
  by (simp add: free_obj_def)

lemma owned_ptrs_set_refs [simp]:
  "h_objs H p = Some (r, ob) \<Longrightarrow> owned_ptrs G (set_obj p (r', ob) H) q = owned_ptrs G H q"
  by (auto simp: owned_ptrs_def)

lemma refs_in_set_refs [simp]:
  "h_objs H p = Some (r, ob) \<Longrightarrow> refs_in G (set_obj p (r', ob) H) Z q = refs_in G H Z q"
  by (simp add: refs_in_def insert_absorb domI)

lemma refs_in_gc [simp]: "refs_in G (H\<lparr>h_gc := g\<rparr>) Z q = refs_in G H Z q"
  by (simp add: refs_in_def owned_ptrs_def)

lemma refs_in_insert:
  assumes "finite (dom (h_objs H))" "f \<in> dom (h_objs H)" "f \<notin> Z"
  shows "refs_in G H Z p = count (owned_ptrs G H f) p + refs_in G H (insert f Z) p"
proof -
  have "dom (h_objs H) - Z - {f} = dom (h_objs H) - insert f Z" by auto
  with assms show ?thesis
    by (simp add: refs_in_def sum.remove [of _ f])
qed

lemma refs_in_free: "f \<notin> Z \<Longrightarrow> refs_in G (free_obj f H) Z p = refs_in G H (insert f Z) p"
  unfolding refs_in_def by (rule sum.cong) (auto simp: owned_ptrs_def)

lemma ref_ok_set_obj [simp]: "h_objs H p = Some (r, ob) \<Longrightarrow> ref_ok G (set_obj p ro H) = ref_ok G H"
  by (rule ext) (auto simp: ref_ok_def)

lemma obj_typed_set_obj [simp]:
  "h_objs H p = Some (r, ob) \<Longrightarrow> obj_typed G (set_obj p ro H) q ob' = obj_typed G H q ob'"
  by (simp add: obj_typed_def split: option.split)

lemma ref_ok_gc [simp]: "ref_ok G (H\<lparr>h_gc := g\<rparr>) = ref_ok G H"
  by (rule ext) (simp add: ref_ok_def)

lemma obj_typed_gc [simp]: "obj_typed G (H\<lparr>h_gc := g\<rparr>) q ob = obj_typed G H q ob"
  by (simp add: obj_typed_def split: option.split)

lemma rc_inv_gc [simp]: "rc_inv env G Z (H\<lparr>h_gc := g\<rparr>) roots = rc_inv env G Z H roots"
  by (simp add: rc_inv_def)

lemma shrinks_gc [simp]: "shrinks Z H (H'\<lparr>h_gc := g\<rparr>) = shrinks Z H H'"
  by (simp add: shrinks_def total_refs_def refs_of_def)

lemma total_refs_set:
  assumes "finite (dom (h_objs H))" "h_objs H p = Some (r, ob)"
  shows "total_refs (set_obj p (r', ob') H) + r = total_refs H + r'"
proof -
  have p: "p \<in> dom (h_objs H)" using assms by auto
  have "(\<Sum>q \<in> dom (h_objs H) - {p}. refs_of (set_obj p (r', ob') H) q) = (\<Sum>q \<in> dom (h_objs H) - {p}. refs_of H q)"
    by (rule sum.cong) (auto simp: refs_of_def)
  with assms p show ?thesis
    by (simp add: total_refs_def sum.remove [of _ p] insert_absorb) (simp add: refs_of_def)
qed


lemma rc_inv_obj:
  assumes "rc_inv env G Z H roots" "h_objs H p = Some (r, ob)"
  shows "p \<notin> Z \<Longrightarrow> obj_typed G H p ob" "p \<in> Z \<Longrightarrow> r = 0 \<and> \<not> is_node ob"
    "\<not> uncounted env ob \<Longrightarrow> r = count roots p + refs_in G H Z p" "p \<noteq> 0"
  using assms unfolding rc_inv_def by blast+

lemma rc_inv_finite: "rc_inv env G Z H roots \<Longrightarrow> finite (dom (h_objs H))"
  by (simp add: rc_inv_def)

text \<open>Dropping one of several references.\<close>

lemma rc_inv_drop:
  assumes inv: "rc_inv env G Z H (add_mset f roots)" and f: "h_objs H f = Some (r, ob)"
    and counted: "\<not> uncounted env ob"
  shows "rc_inv env G Z (set_obj f (r - 1, ob) H) roots" "0 < r" "f \<notin> Z"
proof -
  from rc_inv_obj(3) [OF inv f counted] have r: "r = Suc (count roots f + refs_in G H Z f)" by simp
  then show "0 < r" by simp
  with rc_inv_obj(2) [OF inv f] show "f \<notin> Z" by auto
  with inv f r show "rc_inv env G Z (set_obj f (r - 1, ob) H) roots"
    unfolding rc_inv_def by (auto simp: insert_absorb domI split: if_splits)
qed

lemma rc_inv_drop_uncounted:
  "rc_inv env G Z H (add_mset f roots) \<Longrightarrow> h_objs H f = Some (r, ob) \<Longrightarrow> uncounted env ob \<Longrightarrow> rc_inv env G Z H roots"
proof -
  assume inv: "rc_inv env G Z H (add_mset f roots)" and f: "h_objs H f = Some (r, ob)" "uncounted env ob"
  have "uncounted env ob' \<or> r' = count roots p + refs_in G H Z p" if "h_objs H p = Some (r', ob')" for p r' ob'
    using rc_inv_obj(3) [OF inv that] f that by (cases "p = f") auto
  with inv show ?thesis unfolding rc_inv_def by simp
qed

text \<open>The last reference goes away: the object keeps its place while what it owns is released.\<close>

lemma rc_inv_last:
  assumes inv: "rc_inv env G Z H (add_mset f roots)" and f: "h_objs H f = Some (Suc 0, ob)"
    and t: "G f = Some t" "t \<noteq> BaseT FIELD_NODE" "owned t ob = Some fs" and notnode: "\<not> is_node ob"
  shows "rc_inv env G (insert f Z) (set_obj f (0, ob) H) (mset (filter (\<lambda>f. f \<noteq> 0) (map fst fs)) + roots)"
    and "list_all (ref_ok G H) fs"
proof -
  have counted: "\<not> uncounted env ob" using notnode by (cases ob) auto
  have fZ: "f \<notin> Z" using rc_inv_drop(3) [OF inv f counted] .
  have own: "owned_ptrs G H f = mset (filter (\<lambda>f. f \<noteq> 0) (map fst fs))"
    using f t by (simp add: owned_ptrs_def)
  show typed: "list_all (ref_ok G H) fs"
    using rc_inv_obj(1) [OF inv f fZ] t by (simp add: obj_typed_def)
  have split: "refs_in G H Z p = count (owned_ptrs G H f) p + refs_in G H (insert f Z) p" for p
    using refs_in_insert [OF rc_inv_finite [OF inv] _ fZ] f by auto
  have fs_dom: "set_mset (mset (filter (\<lambda>f. f \<noteq> 0) (map fst fs))) \<subseteq> dom (h_objs H)"
    using typed by (auto simp: list_all_iff ref_ok_def)
  have zero: "count roots f + count (owned_ptrs G H f) f + refs_in G H (insert f Z) f = 0"
    using rc_inv_obj(3) [OF inv f counted] split [of f] by simp
  show "rc_inv env G (insert f Z) (set_obj f (0, ob) H) (mset (filter (\<lambda>f. f \<noteq> 0) (map fst fs)) + roots)"
    unfolding rc_inv_def
  proof (intro conjI allI impI, goal_cases)
    case (6 p r ob')
    then show ?case using inv f by (auto simp: rc_inv_def split: if_splits)
  next
    case (7 p r ob')
    then show ?case using inv f notnode by (auto simp: rc_inv_def split: if_splits)
  next
    case (8 p r ob')
    then show ?case using inv f notnode by (auto simp: rc_inv_def split: if_splits)
  next
    case (9 p r ob')
    show ?case
    proof (cases "p = f")
      case True
      with zero 9 f own show ?thesis by (simp add: add.commute)
    next
      case False
      with 9 have "h_objs H p = Some (r, ob')" by simp
      from rc_inv_obj(3) [OF inv this] False split [of p] f own show ?thesis
        by (cases "uncounted env ob'") auto
    qed
  qed (use inv f fs_dom in \<open>auto simp: rc_inv_def\<close>)
qed

lemma rc_inv_free:
  assumes inv: "rc_inv env G (insert f Z) H roots" and f: "h_objs H f = Some (0, ob)" "f \<notin> Z"
  shows "rc_inv env G Z (free_obj f H) roots"
proof -
  have "\<not> uncounted env ob" using rc_inv_obj(2) [OF inv f(1)] by (cases ob) auto
  from rc_inv_obj(3) [OF inv f(1) this]
  have zero: "count roots f = 0" "refs_in G H (insert f Z) f = 0" by auto
  have no_ref: "count (owned_ptrs G H q) f = 0" if "q \<in> dom (h_objs H)" "q \<notin> insert f Z" for q
    using zero(2) that rc_inv_finite [OF inv] by (simp add: refs_in_def)
  have typed: "obj_typed G (free_obj f H) q ob'" if q: "h_objs H q = Some (r, ob')" "q \<notin> insert f Z" for q r ob'
  proof -
    from rc_inv_obj(1) [OF inv q] have t: "obj_typed G H q ob'" .
    have "ref_ok G (free_obj f H) x" if "owned u ob' = Some fs" "G q = Some u" "x \<in> set fs" "ref_ok G H x" for u fs x
    proof -
      have "fst x \<noteq> f \<or> f = 0"
      proof -
        have "fst x = 0 \<or> fst x \<in># owned_ptrs G H q"
          using q that(1-3) by (auto simp: owned_ptrs_def)
        moreover have "f \<notin># owned_ptrs G H q"
          using no_ref [of q] q by (auto simp: count_eq_zero_iff)
        ultimately show ?thesis by auto
      qed
      with that(4) show ?thesis by (auto simp: ref_ok_def)
    qed
    with t show ?thesis
      by (auto simp: obj_typed_def list_all_iff split: option.splits if_splits)
  qed
  show ?thesis
    unfolding rc_inv_def
  proof (intro conjI allI impI, goal_cases)
    case (5)
    then show ?case using inv zero(1) by (auto simp: rc_inv_def count_eq_zero_iff)
  next
    case (6 p r ob')
    then show ?case using typed by (auto split: if_splits)
  qed (use inv f in \<open>auto simp: rc_inv_def refs_in_free split: if_splits\<close>)
qed

lemma owned_node [simp]: "owned t (NodeO i q) = None"
proof (cases t)
  case (BaseT f)
  then show ?thesis by (cases f) simp_all
qed simp_all

lemma owned_not_node: "owned t ob = Some fs \<Longrightarrow> \<not> is_node ob"
proof (cases ob)
  case (NodeO i q)
  then show "owned t ob = Some fs \<Longrightarrow> ?thesis" by simp
qed simp_all

lemma shrinks_drop:
  assumes "finite (dom (h_objs H))" "h_objs H f = Some (r, ob)" "f \<notin> Z" "r \<noteq> Suc 0 \<or> is_node ob"
  shows "shrinks Z H (set_obj f (r - 1, ob) H)"
  unfolding shrinks_def
proof (intro conjI allI impI ballI)
  show "total_refs (set_obj f (r - 1, ob) H) \<le> total_refs H"
    using total_refs_set [OF assms(1,2), of "r - 1" ob] by simp
qed (use assms in \<open>auto split: if_splits\<close>)

text \<open>Freeing after what the object owned was released.\<close>

lemma shrinks_free:
  assumes fin: "finite (dom (h_objs H))" and f: "h_objs H f = Some (Suc 0, ob)" "f \<notin> Z"
    and sh: "shrinks (insert f Z) (set_obj f (0, ob) H) H1"
  shows "shrinks Z H (free_obj f H1)"
proof -
  have "total_refs (free_obj f H1) \<le> total_refs H1"
  proof -
    have "dom (h_objs H1) \<subseteq> dom (h_objs H)"
      using shrinks_dom [OF sh] f by auto
    then have "finite (dom (h_objs H1))" using fin finite_subset by blast
    then have "(\<Sum>q \<in> dom (h_objs H1) - {f}. refs_of H1 q) \<le> total_refs H1"
      unfolding total_refs_def by (rule sum_mono2) auto
    moreover have "total_refs (free_obj f H1) = (\<Sum>q \<in> dom (h_objs H1) - {f}. refs_of H1 q)"
      unfolding total_refs_def by (rule sum.cong) (auto simp: refs_of_def)
    ultimately show ?thesis by simp
  qed
  moreover have "total_refs (set_obj f (0, ob) H) \<le> total_refs H"
    using total_refs_set [OF fin f(1), of 0 ob] by simp
  moreover have "\<exists>r. h_objs H q = Some (r, ob') \<and> (r' = 0 \<and> \<not> is_node ob' \<longrightarrow> r = 0)"
    if "h_objs (free_obj f H1) q = Some (r', ob')" for q r' ob'
  proof -
    from that have "q \<noteq> f" "h_objs H1 q = Some (r', ob')" by (auto split: if_splits)
    with shrinks_obj [OF sh this(2)] show ?thesis by auto
  qed
  moreover have "\<forall>q\<in>Z. h_objs (free_obj f H1) q = h_objs H q"
    using sh f(2) by (auto simp: shrinks_def)
  ultimately show ?thesis using sh unfolding shrinks_def by (meson le_trans)
qed

lemma decrement_node_keeps:
  assumes inv: "rc_inv env G Z H (add_mset f roots)" and t: "G f = Some (BaseT FIELD_NODE)"
    and f: "h_objs H f = Some (r, ob)"
  shows "\<exists>H'. decrement_node env f (r, ob) H = Some H' \<and> rc_inv env G Z H' roots \<and> shrinks Z H H'"
proof (cases "f \<in> Z")
  case True
  with rc_inv_obj(2,3) [OF inv f] have "r = 0" "\<not> uncounted env ob \<Longrightarrow> r \<noteq> 0" "\<not> is_node ob" by auto
  then show ?thesis by (cases ob) auto
next
  case False
  with rc_inv_obj(1) [OF inv f] t have "is_node ob" by (simp add: obj_typed_def)
  then obtain i q where ob: "ob = NodeO i q" by (cases ob) auto
  have ndel: "\<not> deleting env" using inv by (simp add: rc_inv_def)
  show ?thesis
  proof (cases "is_initial_node env i")
    case True
    with rc_inv_drop_uncounted [OF inv f] ob ndel show ?thesis by (simp add: decrement_node_def)
  next
    case False
    with ob have "\<not> uncounted env ob" by simp
    from rc_inv_drop [OF inv f this] shrinks_drop [OF rc_inv_finite [OF inv] f, of Z] ob False ndel
    show ?thesis by (cases "r = Suc 0"; cases q) (simp_all add: decrement_node_def Let_def)
  qed
qed

lemma decrement_keeps:
  "rc_inv env G Z H (if f = 0 then roots else add_mset f roots) \<Longrightarrow> f \<noteq> 0 \<longrightarrow> G f = Some t \<Longrightarrow> total_refs H < n \<Longrightarrow>
     \<exists>H'. do_decrement_runtime env n f t H = Some H' \<and> rc_inv env G Z H' roots \<and> shrinks Z H H'"
  "rc_inv env G Z H (mset (filter (\<lambda>f. f \<noteq> 0) (map fst xs)) + roots) \<Longrightarrow> list_all (ref_ok G H) xs \<Longrightarrow>
     total_refs H < n \<Longrightarrow>
     \<exists>H'. decrement_all env n xs H = Some H' \<and> rc_inv env G Z H' roots \<and> shrinks Z H H'"
proof (induction env n f t H and env n xs H arbitrary: Z roots and Z roots
    rule: do_decrement_runtime_decrement_all.induct)
  case (1 env f t H)
  then show ?case by simp
next
  case (2 env n f t H)
  show ?case
  proof (cases "f = 0")
    case True
    with 2 show ?thesis by simp
  next
    case False
    with 2 have inv: "rc_inv env G Z H (add_mset f roots)" and t: "G f = Some t" by auto
    then have "f \<in> dom (h_objs H)" by (simp add: rc_inv_def)
    then obtain r ob where f: "h_objs H f = Some (r, ob)" by auto
    show ?thesis
    proof (cases "t = BaseT FIELD_NODE")
      case True
      with decrement_node_keeps [OF inv _ f] t f False show ?thesis by simp
    next
      case notnode: False
      have "\<exists>fs. owned t ob = Some fs"
      proof (cases "f \<in> Z")
        case True
        with rc_inv_obj(2,3) [OF inv f] show ?thesis by (cases ob) auto
      next
        case False
        with rc_inv_obj(1) [OF inv f] t notnode show ?thesis
          by (auto simp: obj_typed_def split: option.splits)
      qed
      then obtain fs where fs: "owned t ob = Some fs" by blast
      have counted: "\<not> uncounted env ob" "\<not> is_node ob"
        using owned_not_node [OF fs] by (cases ob; simp)+
      note drop = rc_inv_drop [OF inv f counted(1)]
      show ?thesis
      proof (cases "r = Suc 0")
        case False
        with drop shrinks_drop [OF rc_inv_finite [OF inv] f drop(3)] f fs notnode \<open>f \<noteq> 0\<close>
        show ?thesis by simp
      next
        case True
        with f have f1: "h_objs H f = Some (Suc 0, ob)" by simp
        note last = rc_inv_last [OF inv f1 t notnode fs counted(2)]
        have "total_refs (set_obj f (0, ob) H) < n"
          using total_refs_set [OF rc_inv_finite [OF inv] f1, of 0 ob] 2(4) by simp
        with "2.IH" [OF \<open>f \<noteq> 0\<close> f refl notnode fs] last True f1
        obtain H1 where H1: "decrement_all env n fs (set_obj f (0, ob) H) = Some H1"
          "rc_inv env G (insert f Z) H1 roots" "shrinks (insert f Z) (set_obj f (0, ob) H) H1"
          by auto
        then have "h_objs H1 f = Some (0, ob)" by (simp add: shrinks_def)
        from rc_inv_free [OF H1(2) this drop(3)]
          shrinks_free [OF rc_inv_finite [OF inv] f1 drop(3) H1(3)] H1(1) f1 fs notnode \<open>f \<noteq> 0\<close>
        show ?thesis by simp
      qed
    qed
  qed
next
  case (3 env n H)
  then show ?case by simp
next
  case (4 env n x xs H)
  obtain f t where x: "x = (f, t)" by (cases x)
  let ?rest = "mset (filter (\<lambda>f. f \<noteq> 0) (map fst xs)) + roots"
  have "rc_inv env G Z H (if f = 0 then ?rest else add_mset f ?rest)" "f \<noteq> 0 \<longrightarrow> G f = Some t"
    using 4(3,4) x by (auto simp: ref_ok_def)
  from "4.IH"(1) [unfolded x fst_conv snd_conv, OF this 4(5)] obtain H1 where
    H1: "do_decrement_runtime env n f t H = Some H1" "rc_inv env G Z H1 ?rest" "shrinks Z H H1"
    by blast
  have "list_all (ref_ok G H1) xs"
  proof -
    have "ref_ok G H1 y" if "y \<in> set xs" for y
    proof (cases "fst y = 0")
      case False
      then have "fst y \<in># ?rest" using that by auto
      then have "fst y \<in> dom (h_objs H1)" using H1(2) unfolding rc_inv_def by blast
      moreover have "ref_ok G H y" using 4(4) that by (simp add: list_all_iff)
      ultimately show ?thesis using False by (simp add: ref_ok_def)
    qed (simp add: ref_ok_def)
    then show ?thesis by (simp add: list_all_iff)
  qed
  moreover have "total_refs H1 < n" using H1(3) 4(5) by (simp add: shrinks_def)
  ultimately obtain H2 where "decrement_all env n xs H1 = Some H2" "rc_inv env G Z H2 roots" "shrinks Z H1 H2"
    using "4.IH"(2) [of H1] H1 x by auto
  with H1 x shrinks_trans show ?case by auto
qed

subsection \<open>Taking and dropping references\<close>

text \<open>
  C9. Dropping a reference is safe and exact. If every counter equals the number of references to
  its object and \<open>p\<close> is one of the references from outside, then \<^verbatim>\<open>do_decrement_runtime\<close> finishes
  without following a dangling pointer, afterwards the counters are exact for the references that
  are left and every one of these references still leads to an allocated object of its type. No
  remaining object changed, and an object whose last reference went away is not left behind.
  Fuel beyond the sum of all counters suffices, also for lists that share cells.
\<close>

theorem decrement_runtime_exact:
  assumes "rc_inv env G {} H (add_mset p roots)" "G p = Some t" "total_refs H < n"
  shows "\<exists>H'. do_decrement_runtime env n p t H = Some H' \<and> rc_inv env G {} H' roots
    \<and> (\<forall>q r' ob. h_objs H' q = Some (r', ob) \<longrightarrow>
         (\<exists>r. h_objs H q = Some (r, ob) \<and> (r' = 0 \<and> \<not> is_node ob \<longrightarrow> r = 0)))"
proof -
  have "p \<noteq> 0" using assms(1) by (auto simp: rc_inv_def)
  with decrement_keeps(1) [of env G "{}" H p roots t n] assms
  obtain H' where H': "do_decrement_runtime env n p t H = Some H'" "rc_inv env G {} H' roots" "shrinks {} H H'"
    by auto
  from H'(3) have "\<forall>q r' ob. h_objs H' q = Some (r', ob) \<longrightarrow>
      (\<exists>r. h_objs H q = Some (r, ob) \<and> (r' = 0 \<and> \<not> is_node ob \<longrightarrow> r = 0))"
    by (simp add: shrinks_def)
  with H'(1,2) show ?thesis by blast
qed

lemma rc_inv_inc:
  assumes inv: "rc_inv env G Z H roots" and f: "h_objs H f = Some (r, ob)" "f \<notin> Z"
  shows "rc_inv env G Z (set_obj f (r + 1, ob) H) (add_mset f roots)"
  using inv f unfolding rc_inv_def by (auto simp: insert_absorb domI split: if_splits)

lemma rc_inv_add_uncounted:
  assumes inv: "rc_inv env G Z H roots" and f: "h_objs H f = Some (r, ob)" "uncounted env ob"
  shows "rc_inv env G Z H (add_mset f roots)"
proof -
  have "uncounted env ob' \<or> r' = count (add_mset f roots) p + refs_in G H Z p"
    if "h_objs H p = Some (r', ob')" for p r' ob'
    using rc_inv_obj(3) [OF inv that] f that by (cases "p = f") auto
  with inv f show ?thesis unfolding rc_inv_def by auto
qed

text \<open>Heaps with the same objects up to the counters.\<close>

definition same_objs :: "heap \<Rightarrow> heap \<Rightarrow> bool" where
  "same_objs H H' \<longleftrightarrow> (\<forall>q. map_option snd (h_objs H' q) = map_option snd (h_objs H q))"

lemma same_objs_refl [simp]: "same_objs H H"
  by (simp add: same_objs_def)

lemma same_objs_trans: "same_objs H H1 \<Longrightarrow> same_objs H1 H2 \<Longrightarrow> same_objs H H2"
  by (simp add: same_objs_def)

lemma same_objs_dom: "same_objs H H' \<Longrightarrow> dom (h_objs H') = dom (h_objs H)"
  unfolding same_objs_def dom_def by (metis option.map_disc_iff)

lemma same_objs_set [simp]: "h_objs H p = Some (r, ob) \<Longrightarrow> same_objs H (set_obj p (r', ob) H)"
  by (simp add: same_objs_def)

lemma same_objs_ref_ok: "same_objs H H' \<Longrightarrow> ref_ok G H' x = ref_ok G H x"
  by (simp add: ref_ok_def same_objs_dom)

text \<open>Taking a reference to an object of the heap.\<close>

lemma increment_keeps:
  assumes inv: "rc_inv env G {} H roots" and f: "ref_ok G H (f, t)" and t: "get_type t = Some ft"
  shows "\<exists>H'. do_increment_runtime env f ft H = Some H' \<and> same_objs H H'
    \<and> rc_inv env G {} H' (if f = 0 then roots else add_mset f roots)
    \<and> total_refs H' \<le> Suc (total_refs H)"
proof (cases "f = 0")
  case False
  with f obtain r ob where ob: "h_objs H f = Some (r, ob)" and Gf: "G f = Some t"
    by (auto simp: ref_ok_def)
  have typed: "obj_typed G H f ob" using rc_inv_obj(1) [OF inv ob] by simp
  note inc = rc_inv_inc [OF inv ob] total_refs_set [OF rc_inv_finite [OF inv] ob, of "r + 1" ob]
  show ?thesis
  proof (cases "uncounted env ob")
    case True
    then obtain i q where i: "ob = NodeO i q" "is_initial_node env i" by (cases ob) auto
    with typed Gf have "t = BaseT FIELD_NODE" by (auto simp: obj_typed_def split: if_splits)
    with t i ob False rc_inv_add_uncounted [OF inv ob True] show ?thesis
      by (simp add: do_increment_runtime_def)
  next
    case counted: False
    have "do_increment_runtime env f ft H = Some (set_obj f (r + 1, ob) H)"
    proof (cases "ft = FIELD_NODE")
      case True
      with t have "t = BaseT FIELD_NODE" by (cases t) auto
      with typed Gf obtain i q where "ob = NodeO i q" by (cases ob) (auto simp: obj_typed_def)
      with True counted ob False show ?thesis by (simp add: do_increment_runtime_def)
    qed (use ob False in \<open>simp add: do_increment_runtime_def\<close>)
    with inc False ob show ?thesis by simp
  qed
qed (use inv in \<open>simp add: do_increment_runtime_def\<close>)

text \<open>A new object takes over references that were counted for it.\<close>

lemma rc_inv_alloc:
  assumes inv: "rc_inv env G {} H (mset (filter (\<lambda>f. f \<noteq> 0) (map fst fs)) + roots)"
    and p: "h_objs H p = None" "p \<noteq> 0" and fs: "owned t ob = Some fs" "t \<noteq> BaseT FIELD_NODE"
    and ok: "list_all (ref_ok G H) fs"
  shows "rc_inv env (G(p \<mapsto> t)) {} (set_obj p (0, ob) H) roots"
proof -
  let ?G = "G(p \<mapsto> t)" and ?H = "set_obj p (0, ob) H"
  have not_p: "p \<notin> dom (h_objs H)" using p by auto
  have pres: "ref_ok ?G ?H x" if "ref_ok G H x" for x
    using that not_p by (auto simp: ref_ok_def)
  have typed: "obj_typed ?G ?H q ob'" if "h_objs ?H q = Some (r, ob')" for q r ob'
  proof (cases "q = p")
    case True
    with that fs ok pres show ?thesis by (auto simp: obj_typed_def list_all_iff)
  next
    case False
    with that have "h_objs H q = Some (r, ob')" by simp
    from rc_inv_obj(1) [OF inv this] False pres show ?thesis
      by (auto simp: obj_typed_def list_all_iff split: option.splits if_splits)
  qed
  have own_p: "owned_ptrs ?G ?H p = mset (filter (\<lambda>f. f \<noteq> 0) (map fst fs))"
    using fs by (simp add: owned_ptrs_def)
  have own_q: "owned_ptrs ?G ?H q = owned_ptrs G H q" if "q \<noteq> p" for q
    using that by (simp add: owned_ptrs_def)
  have refs: "refs_in ?G ?H {} x = count (owned_ptrs ?G ?H p) x + refs_in G H {} x" for x
  proof -
    have "(\<Sum>q \<in> dom (h_objs H). count (owned_ptrs ?G ?H q) x) = (\<Sum>q \<in> dom (h_objs H). count (owned_ptrs G H q) x)"
      by (intro sum.cong refl) (metis own_q not_p)
    with not_p rc_inv_finite [OF inv] show ?thesis by (simp add: refs_in_def)
  qed
  have no_ref: "count roots p = 0" "count (owned_ptrs ?G ?H p) p = 0" "refs_in G H {} p = 0"
  proof -
    show "count roots p = 0" "count (owned_ptrs ?G ?H p) p = 0"
      using inv not_p own_p by (auto simp: rc_inv_def count_eq_zero_iff)
    have "count (owned_ptrs G H q) p = 0" if "q \<in> dom (h_objs H)" for q
    proof -
      obtain r ob' where q: "h_objs H q = Some (r, ob')" using \<open>q \<in> _\<close> by auto
      have "p \<notin># owned_ptrs G H q"
        using rc_inv_obj(1) [OF inv q] q not_p
        by (auto simp: owned_ptrs_def obj_typed_def list_all_iff ref_ok_def split: option.splits if_splits)
      then show ?thesis by (simp add: count_eq_zero_iff)
    qed
    then show "refs_in G H {} p = 0" by (simp add: refs_in_def)
  qed
  have "uncounted env ob' \<or> r = count roots q + refs_in ?G ?H {} q" if q: "h_objs ?H q = Some (r, ob')" for q r ob'
  proof (cases "q = p")
    case True
    with q refs no_ref show ?thesis by simp
  next
    case False
    with q have "h_objs H q = Some (r, ob')" by simp
    from rc_inv_obj(3) [OF inv this] refs own_p show ?thesis by (cases "uncounted env ob'") auto
  qed
  with typed inv p show ?thesis unfolding rc_inv_def by auto
qed

lemma do_increment_set_other:
  assumes "f \<noteq> c" "do_increment_runtime env f ft H = Some H'"
  shows "do_increment_runtime env f ft (set_obj c ob H) = Some (set_obj c ob H')"
  using assms
  by (auto simp: do_increment_runtime_def set_obj_def fun_upd_twist split: option.splits if_splits robj.splits)

lemma counted_ref_ok: "list_all (ref_ok G H) (counted f t) \<Longrightarrow> counted f t \<noteq> [] \<Longrightarrow> ref_ok G H (f, t)"
  by (auto simp: counted_def split: option.splits if_splits)

text \<open>Counting the fields of a container that is being filled.\<close>

lemma increment_data_keeps:
  assumes inv: "rc_inv env G {} H roots" and ok: "list_all (ref_ok G H) (counted f t)" and t: "get_type t = Some ft"
  shows "\<exists>H'. increment_runtime_data env f ft H = Some H' \<and> same_objs H H'
    \<and> rc_inv env G {} H' (mset (filter (\<lambda>f. f \<noteq> 0) (map fst (counted f t))) + roots)
    \<and> total_refs H' \<le> Suc (total_refs H)"
proof (cases "counted_type ft")
  case True
  with ok t have "ref_ok G H (f, t)" by (simp add: counted_def)
  from increment_keeps [OF inv this t] True t show ?thesis
    by (auto simp: increment_runtime_data_def counted_def split: if_splits)
qed (use inv t in \<open>simp add: increment_runtime_data_def counted_def\<close>)

lemma increment_data_set_other:
  assumes "counted f t \<noteq> [] \<Longrightarrow> f \<noteq> c" "get_type t = Some ft" "increment_runtime_data env f ft H = Some H'"
  shows "increment_runtime_data env f ft (set_obj c ob H) = Some (set_obj c ob H')"
  using assms do_increment_set_other
  by (auto simp: increment_runtime_data_def counted_def split: if_splits)

lemma cons_create_keeps:
  assumes inv: "rc_inv env G {} H roots" and c: "h_objs H c = None" "c \<noteq> 0"
    and tail: "ref_ok G H (tailp, ListT t)" and head: "list_all (ref_ok G H) (counted headf t)" "get_type t = Some ft"
  shows "\<exists>H'. cons_create env c tailp headf t 0 H = Some H' \<and> same_objs (set_obj c (0, ConsO tailp headf) H) H'
    \<and> h_objs H' c = Some (0, ConsO tailp headf)
    \<and> rc_inv env (G(c \<mapsto> ListT t)) {} H' roots"
proof -
  from increment_keeps [OF inv tail, of FIELD_LIST] obtain H1 where
    H1: "do_increment_runtime env tailp FIELD_LIST H = Some H1" "same_objs H H1"
      "rc_inv env G {} H1 (if tailp = 0 then roots else add_mset tailp roots)" by auto
  have "list_all (ref_ok G H1) (counted headf t)"
    using head(1) same_objs_ref_ok [OF H1(2)] by (simp add: list_all_iff)
  from increment_data_keeps [OF H1(3) this head(2)] obtain H2 where
    H2: "increment_runtime_data env headf ft H1 = Some H2" "same_objs H1 H2"
      "rc_inv env G {} H2 (mset (filter (\<lambda>f. f \<noteq> 0) (map fst (counted headf t))) + (if tailp = 0 then roots else add_mset tailp roots))"
    by auto
  have same: "same_objs H H2" using same_objs_trans [OF H1(2) H2(2)] .
  have c2: "h_objs H2 c = None" using same_objs_dom [OF same] c by auto
  let ?fs = "destroy_cons t tailp headf"
  have ok: "list_all (ref_ok G H2) ?fs"
    using tail head(1) same_objs_ref_ok [OF same] by (auto simp: destroy_cons_def list_all_iff)
  have "rc_inv env G {} H2 (mset (filter (\<lambda>f. f \<noteq> 0) (map fst ?fs)) + roots)"
    using H2(3) by (simp add: destroy_cons_def split: if_splits)
  from rc_inv_alloc [OF this c2 c(2) _ _ ok, of "ListT t" "ConsO tailp headf"]
  have final: "rc_inv env (G(c \<mapsto> ListT t)) {} (set_obj c (0, ConsO tailp headf) H2) roots" by simp
  have "tailp \<noteq> c" if "tailp \<noteq> 0" using tail that c by (auto simp: ref_ok_def)
  with H1(1) do_increment_set_other [of tailp c env FIELD_LIST H H1 "(0, ConsO tailp headf)"]
  have step1: "cons_inc_refs tailp (set_obj c (0, ConsO tailp headf) H) = Some (set_obj c (0, ConsO tailp headf) H1)"
    by (auto simp: cons_inc_refs_def inc_refs_def do_increment_runtime_def split: if_splits option.splits)
  have "headf \<noteq> c" if "counted headf t \<noteq> []"
    using counted_ref_ok [OF head(1) that] c by (auto simp: ref_ok_def)
  with increment_data_set_other [OF _ head(2) H2(1), of c "(0, ConsO tailp headf)"]
  have "cons_create env c tailp headf t 0 H = Some (set_obj c (0, ConsO tailp headf) H2)"
    using step1 head(2) by (simp add: cons_create_def)
  moreover have "same_objs (set_obj c (0, ConsO tailp headf) H) (set_obj c (0, ConsO tailp headf) H2)"
    using same by (simp add: same_objs_def)
  ultimately show ?thesis using final by simp
qed

text \<open>
  Building a list cell. For a tail and a head that are allocated objects of the right types (or
  null), \<^verbatim>\<open>cons::create\<close> at a fresh address never fails, the new cell holds the tail and the head, and
  the counters are exact again: the tail and a counted head gained one reference.
\<close>

theorem cons_create_exact:
  assumes inv: "rc_inv env G {} H roots" and c: "h_objs H c = None" "c \<noteq> 0"
    and tail: "ref_ok G H (tailp, ListT t)" and head: "list_all (ref_ok G H) (counted headf t)" "get_type t = Some ft"
  shows "\<exists>H'. cons_create env c tailp headf t 0 H = Some H' \<and> h_objs H' c = Some (0, ConsO tailp headf)
    \<and> rc_inv env (G(c \<mapsto> ListT t)) {} H' roots"
  using cons_create_keeps [OF assms] by blast

text \<open>
  C17. Replacing a reference in a tuple. The new value may be kept alive by the old one only, as when
  a list in a tuple is replaced by its own tail: \<^verbatim>\<open>set_field_ref\<close> increments before it decrements, so it
  never fails, the field holds the new value, which is still allocated, and the counters are exact
  for the tuple after the update.
\<close>

theorem set_field_ref_exact:
  assumes inv: "rc_inv env G {} H (if fs ! i = 0 then roots else add_mset (fs ! i) roots)"
    and i: "i < length fs" "i < length types" and old: "ref_ok G H (fs ! i, types ! i)"
    and new: "ref_ok G H (newval, types ! i)" and t: "get_type (types ! i) = Some ft"
    and n: "Suc (total_refs H) < n"
  shows "\<exists>H'. set_field_ref env n i newval types fs H = Some (fs[i := newval], H')
    \<and> rc_inv env G {} H' (if newval = 0 then roots else add_mset newval roots)
    \<and> ref_ok G H' (newval, types ! i)"
proof (cases "newval = fs ! i")
  case True
  with inv i new show ?thesis by (auto simp: set_field_ref_def Let_def)
next
  case False
  let ?roots' = "if newval = 0 then roots else add_mset newval roots"
  from increment_keeps [OF inv new t] obtain H1 where
    H1: "do_increment_runtime env newval ft H = Some H1" "same_objs H H1" "total_refs H1 \<le> Suc (total_refs H)"
      "rc_inv env G {} H1 (if fs ! i = 0 then ?roots' else add_mset (fs ! i) ?roots')"
    by (auto simp: add_mset_commute split: if_splits)
  have "fs ! i \<noteq> 0 \<longrightarrow> G (fs ! i) = Some (types ! i)" using old by (auto simp: ref_ok_def)
  from decrement_keeps(1) [OF H1(4) this, of n] n H1(3) obtain H2 where
    H2: "do_decrement_runtime env n (fs ! i) (types ! i) H1 = Some H2" "rc_inv env G {} H2 ?roots'"
    by auto
  have "ref_ok G H2 (newval, types ! i)"
    using H2(2) new by (auto simp: ref_ok_def rc_inv_def split: if_splits)
  with H1 H2 i t False show ?thesis by (auto simp: set_field_ref_def Let_def)
qed

subsection \<open>An example\<close>

text \<open>A list of two integers whose second cell is shared with nobody.\<close>

definition two_cells :: heap where
  "two_cells = \<lparr>h_objs = [8 \<mapsto> (1, ConsO 0 5), 16 \<mapsto> (1, ConsO 8 6)], h_gc = {}\<rparr>"

definition two_types :: "ptr_val \<Rightarrow> vtype option" where
  "two_types = [8 \<mapsto> ListT (BaseT FIELD_INT), 16 \<mapsto> ListT (BaseT FIELD_INT)]"

definition small_env :: db_env where
  "small_env = \<lparr>original_max_node_id = 3, deleting = False\<rparr>"

lemma two_cells_own:
  "owned_ptrs two_types two_cells 8 = {#}" "owned_ptrs two_types two_cells 16 = {#8#}"
  by (simp_all add: owned_ptrs_def two_cells_def two_types_def destroy_cons_def counted_def)

lemma two_cells_inv: "rc_inv small_env two_types {} two_cells {#16#}"
proof -
  have dom: "dom (h_objs two_cells) = {8, 16}" by (auto simp: two_cells_def)
  have refs: "refs_in two_types two_cells {} p = (if p = 8 then 1 else 0)" for p
    unfolding refs_in_def dom by (simp add: two_cells_own)
  have typed: "obj_typed two_types two_cells 8 (ConsO 0 5)" "obj_typed two_types two_cells 16 (ConsO 8 6)"
    by (simp_all add: obj_typed_def two_types_def destroy_cons_def counted_def ref_ok_def dom)
  show ?thesis
    unfolding rc_inv_def dom refs
    using typed by (auto simp: two_cells_def small_env_def split: if_splits)
qed

lemma two_cells_total: "total_refs two_cells = 2"
proof -
  have "dom (h_objs two_cells) = {8, 16}" by (auto simp: two_cells_def)
  then show ?thesis by (simp add: total_refs_def refs_of_def) (simp add: two_cells_def)
qed

theorem decrement_runtime_exact_witness:
  "\<exists>H'. do_decrement_runtime small_env 3 16 (ListT (BaseT FIELD_INT)) two_cells = Some H'
    \<and> rc_inv small_env two_types {} H' {#}"
  using decrement_runtime_exact [of small_env two_types two_cells 16 "{#}" "ListT (BaseT FIELD_INT)" 3]
    two_cells_inv two_cells_total
  by (auto simp: two_types_def)

theorem cons_create_exact_witness:
  "\<exists>H'. cons_create small_env 24 16 7 (BaseT FIELD_INT) 0 two_cells = Some H'
    \<and> h_objs H' 24 = Some (0, ConsO 16 7)
    \<and> rc_inv small_env (two_types(24 \<mapsto> ListT (BaseT FIELD_INT))) {} H' {#16#}"
  by (rule cons_create_exact [OF two_cells_inv])
    (simp_all add: two_cells_def two_types_def ref_ok_def counted_def)

text \<open>The list in a tuple is replaced by its own tail.\<close>

theorem set_field_ref_exact_witness:
  "\<exists>H'. set_field_ref small_env 4 0 8 [ListT (BaseT FIELD_INT)] [16] two_cells = Some ([8], H')
    \<and> rc_inv small_env two_types {} H' {#8#}"
proof -
  have "\<exists>H'. set_field_ref small_env 4 0 8 [ListT (BaseT FIELD_INT)] [16] two_cells = Some ([16][0 := 8], H')
    \<and> rc_inv small_env two_types {} H' (if 8 = (0 :: 64 word) then {#} else add_mset 8 {#})
    \<and> ref_ok two_types H' (8, [ListT (BaseT FIELD_INT)] ! 0)"
    by (rule set_field_ref_exact [where ft = FIELD_LIST])
      (simp_all add: two_cells_inv two_cells_total, simp_all add: two_cells_def two_types_def ref_ok_def)
  then show ?thesis by auto
qed

end
