(* ===== verification/Runtime_List.thy ===== *)
theory Runtime_List
  imports Runtime_Heap
begin

text \<open>
  The list functions of \<^verbatim>\<open>runtime/list.hpp\<close> on heaps: walking, measuring, indexing and comparing a
  list, and building lists from stacks and vectors of values. A loop over a list that does not end
  has no result. The lemmas relate a list in the heap to the HOL list of its heads and show that
  building a list keeps the reference counts exact. Addresses of new cells are taken, one for each
  cell, from a list of free addresses that stands for the allocator.
\<close>

fun list_at :: "heap \<Rightarrow> ptr_val \<Rightarrow> tuple_field list \<Rightarrow> bool" where
  "list_at H p [] \<longleftrightarrow> p = 0"
| "list_at H p (x # xs) \<longleftrightarrow> p \<noteq> 0 \<and> (\<exists>r q. h_objs H p = Some (r, ConsO q x) \<and> list_at H q xs)"

subsection \<open>Loops over a list\<close>

text \<open>
  The shape \<^verbatim>\<open>while(!is_null(p)) { ...; p = p->get_tail(); }\<close>: the body gets the head and the loop's
  state and either continues with a new state or returns from the function.
\<close>

partial_function (option) walk ::
  "heap \<Rightarrow> (tuple_field \<Rightarrow> 'a \<Rightarrow> 'a + 'b) \<Rightarrow> ptr_val \<Rightarrow> 'a \<Rightarrow> ('a + 'b) option" where
  [code]: "walk H body p a =
     (if p = 0 then Some (Inl a)
      else do { x \<leftarrow> get_head H p; q \<leftarrow> get_tail H p;
                case body x a of Inl a' \<Rightarrow> walk H body q a' | Inr b \<Rightarrow> Some (Inr b) })"

fun walk_list :: "(tuple_field \<Rightarrow> 'a \<Rightarrow> 'a + 'b) \<Rightarrow> tuple_field list \<Rightarrow> 'a \<Rightarrow> 'a + 'b" where
  "walk_list body [] a = Inl a"
| "walk_list body (x # xs) a = (case body x a of Inl a' \<Rightarrow> walk_list body xs a' | Inr b \<Rightarrow> Inr b)"

text \<open>On a list that ends, the loop ends and does what the recursion over the heads does.\<close>

lemma walk_list_at: "list_at H p xs \<Longrightarrow> walk H body p a = Some (walk_list body xs a)"
proof (induction xs arbitrary: p a)
  case Nil
  then show ?case by (simp add: walk.simps)
next
  case (Cons x xs)
  then obtain r q where p: "p \<noteq> 0" "h_objs H p = Some (r, ConsO q x)" "list_at H q xs" by auto
  then have "get_head H p = Some x" "get_tail H p = Some q"
    by (simp_all add: get_head_def get_tail_def)
  with p Cons.IH [OF p(3)] show ?case
    by (subst walk.simps) (simp split: sum.split)
qed

text \<open>Loops that never return early, and loops that look for an element.\<close>

lemma walk_list_fold: "walk_list (\<lambda>x a. Inl (f x a)) xs a = Inl (fold f xs a)"
  by (induction xs arbitrary: a) auto

lemma walk_list_search:
  "walk_list (\<lambda>x a. if P x then Inr b else Inl a) xs a = (if \<exists>x\<in>set xs. P x then Inr b else Inl a)"
  by (induction xs) auto

subsection \<open>Measuring, indexing, comparing\<close>

partial_function (option) cons_length :: "heap \<Rightarrow> ptr_val \<Rightarrow> nat option" where
  [code]: "cons_length H ls =
     (if ls = 0 then Some 0 else do { q \<leftarrow> get_tail H ls; n \<leftarrow> cons_length H q; Some (1 + n) })"

partial_function (option) cons_get :: "heap \<Rightarrow> ptr_val \<Rightarrow> nat \<Rightarrow> tuple_field \<Rightarrow> tuple_field option" where
  [code]: "cons_get H ls pos d =
     (if ls = 0 then Some d
      else if pos = 0 then get_head H ls
      else do { q \<leftarrow> get_tail H ls; cons_get H q (pos - 1) d })"

partial_function (option) cons_equal ::
  "heap \<Rightarrow> ptr_val \<Rightarrow> ptr_val \<Rightarrow> (tuple_field \<Rightarrow> tuple_field \<Rightarrow> bool) \<Rightarrow> bool option" where
  [code]: "cons_equal H l1 l2 eq =
     (if l1 = 0 \<and> l2 \<noteq> 0 then Some False
      else if l1 \<noteq> 0 \<and> l2 = 0 then Some False
      else if l1 = 0 \<and> l2 = 0 then Some True
      else do { x \<leftarrow> get_head H l1; y \<leftarrow> get_head H l2;
                if \<not> eq x y then Some False
                else do { q1 \<leftarrow> get_tail H l1; q2 \<leftarrow> get_tail H l2; cons_equal H q1 q2 eq } })"

definition stl_list :: "heap \<Rightarrow> ptr_val \<Rightarrow> tuple_field list option" where
  "stl_list H ls =
     (if ls = 0 then Some []
      else map_option (\<lambda>r. case r of Inl a \<Rightarrow> a | Inr (b :: tuple_field list) \<Rightarrow> b)
             (walk H (\<lambda>x a. Inl (a @ [x])) ls []))"

definition size_list :: "heap \<Rightarrow> ptr_val \<Rightarrow> nat option" where
  "size_list H ls = map_option (\<lambda>n. 4 + 8 * n) (cons_length H ls)"

lemma list_at_Cons_get:
  "list_at H p (x # xs) \<Longrightarrow> \<exists>q. p \<noteq> 0 \<and> get_head H p = Some x \<and> get_tail H p = Some q \<and> list_at H q xs"
  by (auto simp: get_head_def get_tail_def)

lemma cons_length_list_at: "list_at H p xs \<Longrightarrow> cons_length H p = Some (length xs)"
proof (induction xs arbitrary: p)
  case (Cons x xs)
  from list_at_Cons_get [OF Cons.prems] Cons.IH show ?case by (subst cons_length.simps) auto
qed (simp add: cons_length.simps)

lemma cons_get_list_at:
  "list_at H p xs \<Longrightarrow> cons_get H p pos d = Some (if pos < length xs then xs ! pos else d)"
proof (induction xs arbitrary: p pos)
  case (Cons x xs)
  from list_at_Cons_get [OF Cons.prems] Cons.IH show ?case
    by (subst cons_get.simps) (cases pos, auto)
qed (simp add: cons_get.simps)

lemma cons_equal_list_at:
  "list_at H p xs \<Longrightarrow> list_at H q ys \<Longrightarrow> cons_equal H p q eq = Some (list_all2 eq xs ys)"
proof (induction xs arbitrary: p q ys)
  case Nil
  then show ?case by (subst cons_equal.simps) (cases ys, auto)
next
  case (Cons x xs)
  obtain p' where p': "p \<noteq> 0" "get_head H p = Some x" "get_tail H p = Some p'" "list_at H p' xs"
    using list_at_Cons_get [OF Cons.prems(1)] by auto
  show ?case
  proof (cases ys)
    case Nil
    with p' Cons.prems(2) show ?thesis by (subst cons_equal.simps) simp
  next
    case (Cons y ys')
    from list_at_Cons_get [OF Cons.prems(2) [unfolded this]] p' Cons.IH Cons show ?thesis
      by (subst cons_equal.simps) auto
  qed
qed

lemma stl_list_list_at: "list_at H p xs \<Longrightarrow> stl_list H p = Some xs"
proof -
  assume l: "list_at H p xs"
  have "fold (\<lambda>x a. a @ [x]) xs a = a @ xs" for a
    by (induction xs arbitrary: a) auto
  from this [of "[]"] l show ?thesis
    by (cases "p = 0") (simp_all add: stl_list_def walk_list_at [OF l] walk_list_fold, cases xs, simp_all)
qed

text \<open>A list only depends on its own cells.\<close>

lemma same_objs_sym: "same_objs H H' \<Longrightarrow> same_objs H' H"
  by (simp add: same_objs_def)

lemma same_objs_obj: "same_objs H H' \<Longrightarrow> h_objs H p = Some (r, ob) \<Longrightarrow> \<exists>r'. h_objs H' p = Some (r', ob)"
proof -
  assume "same_objs H H'" "h_objs H p = Some (r, ob)"
  then have "map_option snd (h_objs H' p) = Some ob" unfolding same_objs_def by (metis option.simps(9) snd_conv)
  then show ?thesis by auto
qed

lemma list_at_same_objs1: "same_objs H H' \<Longrightarrow> list_at H p xs \<Longrightarrow> list_at H' p xs"
proof (induction xs arbitrary: p)
  case (Cons x xs)
  then obtain r q where q: "p \<noteq> 0" "h_objs H p = Some (r, ConsO q x)" "list_at H q xs" by auto
  from same_objs_obj [OF Cons.prems(1) q(2)] Cons.IH [OF Cons.prems(1) q(3)] q(1) show ?case by auto
qed simp

lemma list_at_same_objs: "same_objs H H' \<Longrightarrow> list_at H' p xs = list_at H p xs"
  using list_at_same_objs1 same_objs_sym by blast

lemma list_at_set_fresh: "list_at H p xs \<Longrightarrow> h_objs H c = None \<Longrightarrow> list_at (set_obj c ob H) p xs"
  by (induction xs arbitrary: p) auto

subsection \<open>Building lists\<close>

text \<open>A stack is a list with its top first. The vector version visits the vector from its start.\<close>

fun from_stack_to_list ::
  "db_env \<Rightarrow> vtype \<Rightarrow> ptr_val list \<Rightarrow> tuple_field list \<Rightarrow> ptr_val \<Rightarrow> heap \<Rightarrow> (ptr_val \<times> heap) option" where
  "from_stack_to_list env t addrs [] ptr H = Some (ptr, H)"
| "from_stack_to_list env t [] (x # stk) ptr H = None"
| "from_stack_to_list env t (a # addrs) (x # stk) ptr H =
     do { H \<leftarrow> cons_create env a ptr x t 0 H; from_stack_to_list env t addrs stk a H }"

definition from_stack_to_reverse_list ::
  "db_env \<Rightarrow> vtype \<Rightarrow> ptr_val list \<Rightarrow> tuple_field list \<Rightarrow> heap \<Rightarrow> (ptr_val \<times> heap) option" where
  "from_stack_to_reverse_list env t addrs stk H =
     from_stack_to_list env t addrs (fold (\<lambda>x stk2. x # stk2) stk []) 0 H"

definition from_vector_to_reverse_list ::
  "db_env \<Rightarrow> vtype \<Rightarrow> ptr_val list \<Rightarrow> tuple_field list \<Rightarrow> heap \<Rightarrow> (ptr_val \<times> heap) option" where
  "from_vector_to_reverse_list env t addrs vec H = from_stack_to_list env t addrs vec 0 H"

definition build_from_int :: "tuple_field \<Rightarrow> int_val \<Rightarrow> tuple_field" where
  "build_from_int junk v = set_field_int junk v"

text \<open>The objects of a heap are still there in another one.\<close>

definition extends :: "heap \<Rightarrow> heap \<Rightarrow> bool" where
  "extends H H' \<longleftrightarrow> (\<forall>q r ob. h_objs H q = Some (r, ob) \<longrightarrow> (\<exists>r'. h_objs H' q = Some (r', ob)))"

lemma extends_refl [simp]: "extends H H"
  by (simp add: extends_def)

lemma extends_trans: "extends H H1 \<Longrightarrow> extends H1 H2 \<Longrightarrow> extends H H2"
  unfolding extends_def by blast

lemma extends_dom: "extends H H' \<Longrightarrow> dom (h_objs H) \<subseteq> dom (h_objs H')"
proof
  fix q assume "extends H H'" "q \<in> dom (h_objs H)"
  then show "q \<in> dom (h_objs H')" unfolding extends_def by force
qed

lemma extends_list_at: "extends H H' \<Longrightarrow> list_at H p xs \<Longrightarrow> list_at H' p xs"
proof (induction xs arbitrary: p)
  case (Cons x xs)
  then obtain r q where q: "p \<noteq> 0" "h_objs H p = Some (r, ConsO q x)" "list_at H q xs" by auto
  from Cons.prems(1) q(2) obtain r' where "h_objs H' p = Some (r', ConsO q x)"
    unfolding extends_def by blast
  with q Cons show ?case by auto
qed simp

lemma extends_alloc: "h_objs H c = None \<Longrightarrow> same_objs (set_obj c ob H) H' \<Longrightarrow> extends H H'"
proof -
  assume c: "h_objs H c = None" and s: "same_objs (set_obj c ob H) H'"
  have "\<exists>r'. h_objs H' q = Some (r', ob')" if "h_objs H q = Some (r, ob')" for q r ob'
    using same_objs_obj [OF s, of q r ob'] that c by (cases "q = c") auto
  then show ?thesis unfolding extends_def by blast
qed

lemma ref_ok_extends:
  "ref_ok G H x \<Longrightarrow> extends H H' \<Longrightarrow> (\<forall>q\<in>dom (h_objs H). G' q = G q) \<Longrightarrow> ref_ok G' H' x"
  unfolding ref_ok_def using extends_dom [of H H'] by (metis subsetD)

lemma build_list_keeps:
  assumes "rc_inv env G {} H roots" "distinct addrs" "\<forall>a\<in>set addrs. a \<noteq> 0 \<and> h_objs H a = None"
    "length stk \<le> length addrs" "list_at H ptr ys" "ref_ok G H (ptr, ListT t)"
    "\<forall>x\<in>set stk. list_all (ref_ok G H) (counted x t)" "get_type t = Some ft"
  shows "\<exists>p H' G'. from_stack_to_list env t addrs stk ptr H = Some (p, H') \<and> list_at H' p (rev stk @ ys)
    \<and> extends H H' \<and> rc_inv env G' {} H' roots \<and> ref_ok G' H' (p, ListT t)
    \<and> (\<forall>q\<in>dom (h_objs H). G' q = G q)"
  using assms
proof (induction stk arbitrary: addrs ptr ys H G)
  case Nil
  then show ?case by (intro exI [of _ ptr] exI [of _ H] exI [of _ G]) simp
next
  case (Cons x stk)
  then obtain a as where addrs: "addrs = a # as" by (cases addrs) auto
  with Cons.prems have a: "h_objs H a = None" "a \<noteq> 0" by auto
  from Cons.prems(7) have x: "list_all (ref_ok G H) (counted x t)" by simp
  from cons_create_keeps [OF Cons.prems(1) a Cons.prems(6) x Cons.prems(8)] obtain H1 where
    H1: "cons_create env a ptr x t 0 H = Some H1" "same_objs (set_obj a (0, ConsO ptr x) H) H1"
      "h_objs H1 a = Some (0, ConsO ptr x)" "rc_inv env (G(a \<mapsto> ListT t)) {} H1 roots" by blast
  let ?G = "G(a \<mapsto> ListT t)"
  have ext: "extends H H1" using extends_alloc [OF a(1) H1(2)] .
  have agree: "\<forall>q\<in>dom (h_objs H). ?G q = G q" using a(1) by auto
  have free: "\<forall>b\<in>set as. b \<noteq> 0 \<and> h_objs H1 b = None"
  proof
    fix b assume b: "b \<in> set as"
    with Cons.prems(2,3) addrs have "b \<noteq> a" "b \<noteq> 0" "h_objs H b = None" by auto
    with same_objs_dom [OF H1(2)] show "b \<noteq> 0 \<and> h_objs H1 b = None" by auto
  qed
  have l1: "list_at H1 a (x # ys)" using extends_list_at [OF ext Cons.prems(5)] H1(3) a(2) by auto
  have r1: "ref_ok ?G H1 (a, ListT t)" using H1(3) by (auto simp: ref_ok_def)
  have els: "\<forall>y\<in>set stk. list_all (ref_ok ?G H1) (counted y t)"
  proof
    fix y assume "y \<in> set stk"
    with Cons.prems(7) have "list_all (ref_ok G H) (counted y t)" by simp
    then show "list_all (ref_ok ?G H1) (counted y t)"
      by (rule list.pred_mono_strong) (rule ref_ok_extends [OF _ ext agree])
  qed
  have "distinct as" "length stk \<le> length as" using Cons.prems(2,4) addrs by auto
  from Cons.IH [OF H1(4) this(1) free this(2) l1 r1 els Cons.prems(8)]
  obtain p H2 G2 where H2: "from_stack_to_list env t as stk a H1 = Some (p, H2)" "list_at H2 p (rev stk @ x # ys)"
    "extends H1 H2" "rc_inv env G2 {} H2 roots" "ref_ok G2 H2 (p, ListT t)" "\<forall>q\<in>dom (h_objs H1). G2 q = ?G q"
    by blast
  have "\<forall>q\<in>dom (h_objs H). G2 q = G q"
  proof
    fix q assume q: "q \<in> dom (h_objs H)"
    then have "q \<in> dom (h_objs H1)" using extends_dom [OF ext] by (rule rev_subsetD)
    with H2(6) agree q show "G2 q = G q" by simp
  qed
  with H2 H1(1) addrs extends_trans [OF ext H2(3)] show ?case
    by (intro exI [of _ p] exI [of _ H2] exI [of _ G2]) simp
qed

text \<open>
  C34. The functions that read a list in the heap compute the list functions on its elements: its
  length, the element at a position with a default beyond the end, the comparison element by element,
  and the conversion to a C++ list. In particular they end on every list that does.
\<close>

theorem cons_functions_correct:
  assumes "list_at H p xs" "list_at H q ys"
  shows "cons_length H p = Some (length xs) \<and> size_list H p = Some (4 + 8 * length xs)
    \<and> cons_get H p pos d = Some (if pos < length xs then xs ! pos else d)
    \<and> cons_equal H p q eq = Some (list_all2 eq xs ys) \<and> stl_list H p = Some xs"
  using assms
  by (simp add: cons_length_list_at size_list_def cons_get_list_at cons_equal_list_at stl_list_list_at)

theorem cons_functions_correct_witness:
  "cons_length two_cells 16 = Some 2 \<and> cons_get two_cells 16 1 0 = Some 5 \<and> cons_get two_cells 16 2 9 = Some 9
   \<and> cons_equal two_cells 16 8 (=) = Some False \<and> stl_list two_cells 16 = Some [6, 5]"
proof -
  have l: "list_at two_cells 16 [6, 5]" "list_at two_cells 8 [5]" by (simp_all add: two_cells_def)
  from cons_functions_correct [OF l, of 1 0 "(=)"] cons_functions_correct [OF l, of 2 9 "(=)"]
  show ?thesis by simp
qed

end
