(* ===== verification/External_Lists.thy ===== *)
theory External_Lists
  imports Runtime_List
begin

text \<open>
  The external functions on lists that programs call (\<^verbatim>\<open>external/lists.cpp\<close>, \<^verbatim>\<open>external/lists.hpp\<close>) and
  the ones on integer lists of \<^verbatim>\<open>external/math.cpp\<close> and \<^verbatim>\<open>external/others.cpp\<close>. A function returns the
  value its \<^verbatim>\<open>RETURN_...\<close> macro stores; None is \<^verbatim>\<open>abort\<close> or following a null or dangling pointer.
  Functions that build a list take the addresses of the new cells and, for integers, the
  uninitialised upper half of the unions they fill (\<open>junk\<close>, for each cell).
  The theorems show which of them compute the list functions their names promise, that the lists
  they build leave the reference counts exact, and what the ones with defects return instead.
\<close>

text \<open>How \<^verbatim>\<open>listcount\<close> and \<^verbatim>\<open>lexists\<close> compare an element with the argument, by the type of the elements.\<close>

fun field_test :: "field_type \<Rightarrow> (tuple_field \<Rightarrow> tuple_field \<Rightarrow> bool) option" where
  "field_test FIELD_INT = Some (\<lambda>x i. field_int x = field_int i)"
| "field_test FIELD_FLOAT = Some (\<lambda>x i. float_eq (field_float x) (field_float i))"
| "field_test FIELD_NODE = Some (\<lambda>x i. field_node x = field_node i)"
| "field_test _ = None"

subsection \<open>Functions that read lists\<close>

definition returned :: "('a \<Rightarrow> 'r) \<Rightarrow> ('a + 'r) option \<Rightarrow> 'r option" where
  "returned fin w = map_option (case_sum fin (\<lambda>r. r)) w"

definition listcount :: "heap \<Rightarrow> ptr_val \<Rightarrow> tuple_field \<Rightarrow> field_type \<Rightarrow> int_val option" where
  "listcount H ls i ty =
     (if ls = 0 then Some 0
      else do { test \<leftarrow> field_test ty;
                returned (\<lambda>tot. tot) (walk H (\<lambda>x tot. Inl (if test x i then tot + 1 else tot)) ls 0) })"

definition lexists :: "heap \<Rightarrow> ptr_val \<Rightarrow> tuple_field \<Rightarrow> field_type \<Rightarrow> bool option" where
  "lexists H ls i ty =
     (if ls = 0 then Some False
      else do { test \<leftarrow> field_test ty;
                returned (\<lambda>_. False) (walk H (\<lambda>x a. if test x i then Inr True else Inl a) ls ()) })"

definition llength :: "heap \<Rightarrow> ptr_val \<Rightarrow> int_val option" where
  "llength H ls = returned (\<lambda>tot. tot) (walk H (\<lambda>x tot. Inl (tot + 1)) ls 0)"

text \<open>
  \<^verbatim>\<open>lexistss\<close> looks for an element of \<^verbatim>\<open>other\<close>. For nodes it converts the floating-point value of the
  address, not the address.
\<close>

fun member_test :: "field_type \<Rightarrow> (tuple_field \<Rightarrow> tuple_field \<Rightarrow> bool) option" where
  "member_test FIELD_INT = Some (\<lambda>x h. field_int x = field_int h)"
| "member_test FIELD_FLOAT = Some (\<lambda>x h. float_eq (field_float x) (field_float h))"
| "member_test FIELD_NODE = Some (\<lambda>x h. field_node x = of_nat (float_trunc (field_float h)))"
| "member_test _ = None"

definition lexistss :: "heap \<Rightarrow> ptr_val \<Rightarrow> ptr_val \<Rightarrow> field_type \<Rightarrow> bool option" where
  "lexistss H ls other ty =
     (if ls = 0 then Some False
      else if other = 0 then Some False
      else do { test \<leftarrow> member_test ty;
                r \<leftarrow> walk H (\<lambda>h a.
                       case walk H (\<lambda>x b. if test x h then Inr () else Inl b) ls () of
                         None \<Rightarrow> Inr None
                       | Some (Inl _) \<Rightarrow> Inl a
                       | Some (Inr _) \<Rightarrow> Inr (Some True)) other ();
                case r of Inl _ \<Rightarrow> Some False | Inr res \<Rightarrow> res })"

definition has_value :: "heap \<Rightarrow> ptr_val \<Rightarrow> int_val \<Rightarrow> bool option" where
  "has_value H l v = returned (\<lambda>_. False) (walk H (\<lambda>x a. if field_int x = v then Inr True else Inl a) l ())"

definition lnth :: "heap \<Rightarrow> ptr_val \<Rightarrow> int_val \<Rightarrow> tuple_field option" where
  "lnth H ls v =
     do { r \<leftarrow> walk H (\<lambda>x cnt. if cnt = v then Inr x else Inl (cnt + 1)) ls (0 :: int_val);
          case r of Inl _ \<Rightarrow> None | Inr x \<Rightarrow> Some x }"

partial_function (option) listlast_loop :: "heap \<Rightarrow> ptr_val \<Rightarrow> tuple_field option" where
  [code]: "listlast_loop H p =
     do { q \<leftarrow> get_tail H p; if q \<noteq> 0 then listlast_loop H q else get_head H p }"

definition listlast :: "heap \<Rightarrow> ptr_val \<Rightarrow> tuple_field option" where
  "listlast H ls = (if ls = 0 then None else listlast_loop H ls)"

partial_function (option) intlistequal :: "heap \<Rightarrow> ptr_val \<Rightarrow> ptr_val \<Rightarrow> int_val option" where
  [code]: "intlistequal H ls1 ls2 =
     (if ls1 \<noteq> 0 then
        if ls2 = 0 then Some 0
        else do { x \<leftarrow> get_head H ls1; y \<leftarrow> get_head H ls2;
                  if field_int x \<noteq> field_int y then Some 0
                  else do { q1 \<leftarrow> get_tail H ls1; q2 \<leftarrow> get_tail H ls2; intlistequal H q1 q2 } }
      else if ls2 \<noteq> 0 then Some 0 else Some 1)"

partial_function (option) ltake :: "heap \<Rightarrow> ptr_val \<Rightarrow> int_val \<Rightarrow> ptr_val option" where
  [code]: "ltake H p n = (if sint n > 0 \<and> p \<noteq> 0 then do { q \<leftarrow> get_tail H p; ltake H q n } else Some p)"

definition queens_violation :: "heap \<Rightarrow> int_val \<Rightarrow> ptr_val \<Rightarrow> bool option" where
  "queens_violation H y cols =
     returned (\<lambda>_. False)
       (walk H (\<lambda>x (dly, dry). let p = field_int x in
                 if p = y \<or> p = dly \<or> p = dry then Inr True else Inl (dly - 1, dry + 1)) cols (y - 1, y + 1))"

definition minimax_points :: "heap \<Rightarrow> ptr_val \<Rightarrow> int_val \<Rightarrow> int_val option" where
  "minimax_points H game rootplayer =
     returned (\<lambda>c. c) (walk H (\<lambda>x c. Inl (if field_int x = rootplayer then c + 1 else c)) game 0)"

subsection \<open>Functions that build lists\<close>

text \<open>The values of a stack of integers as the cells will hold them.\<close>

definition int_cells :: "(nat \<Rightarrow> tuple_field) \<Rightarrow> int_val list \<Rightarrow> tuple_field list" where
  "int_cells junk s = map (\<lambda>(k, v). build_from_int (junk k) v) (enumerate 0 s)"

definition TYPE_INT :: vtype where "TYPE_INT = BaseT FIELD_INT"
definition TYPE_NODE :: vtype where "TYPE_NODE = BaseT FIELD_NODE"
definition TYPE_FLOAT :: vtype where "TYPE_FLOAT = BaseT FIELD_FLOAT"

definition intlistdiff ::
  "db_env \<Rightarrow> ptr_val list \<Rightarrow> (nat \<Rightarrow> tuple_field) \<Rightarrow> heap \<Rightarrow> ptr_val \<Rightarrow> ptr_val \<Rightarrow> (ptr_val \<times> heap) option" where
  "intlistdiff env addrs junk H ls1 ls2 =
     do { r \<leftarrow> walk H (\<lambda>x s. case has_value H ls2 (field_int x) of
                               None \<Rightarrow> Inr None
                             | Some b \<Rightarrow> Inl (if \<not> b then field_int x # s else s)) ls1 [];
          s \<leftarrow> (case r of Inl s \<Rightarrow> Some s | Inr res \<Rightarrow> res);
          from_stack_to_list env TYPE_INT addrs (int_cells junk s) 0 H }"

definition lremove ::
  "db_env \<Rightarrow> ptr_val list \<Rightarrow> (nat \<Rightarrow> tuple_field) \<Rightarrow> heap \<Rightarrow> ptr_val \<Rightarrow> tuple_field \<Rightarrow> field_type \<Rightarrow> (ptr_val \<times> heap) option" where
  "lremove env addrs junk H ls n ty =
     (if ls = 0 then Some (0, H)
      else case ty of
        FIELD_INT \<Rightarrow>
          do { s \<leftarrow> returned (\<lambda>s. s) (walk H (\<lambda>x s.
                      Inl (if field_int x \<noteq> field_int n then ucast (field_node x) # s else s)) ls []);
               from_stack_to_list env TYPE_INT addrs (int_cells junk s) 0 H }
      | FIELD_NODE \<Rightarrow>
          do { s \<leftarrow> returned (\<lambda>s. s) (walk H (\<lambda>x s.
                      Inl (if field_node x \<noteq> field_node n then field_node x # s else s)) ls []);
               from_stack_to_list env TYPE_NODE addrs s 0 H }
      | _ \<Rightarrow> None)"

partial_function (option) list_skip :: "heap \<Rightarrow> ptr_val \<Rightarrow> int_val \<Rightarrow> int_val \<Rightarrow> (ptr_val \<times> int_val) option" where
  [code]: "list_skip H ls ctn a =
     (if ls \<noteq> 0 \<and> sint ctn < sint a then do { q \<leftarrow> get_tail H ls; list_skip H q (ctn + 1) a } else Some (ls, ctn))"

definition intlistsub ::
  "db_env \<Rightarrow> ptr_val list \<Rightarrow> (nat \<Rightarrow> tuple_field) \<Rightarrow> heap \<Rightarrow> ptr_val \<Rightarrow> int_val \<Rightarrow> int_val \<Rightarrow> (ptr_val \<times> heap) option" where
  "intlistsub env addrs junk H p a b =
     do { (ls, ctn) \<leftarrow> list_skip H p 0 a;
          s \<leftarrow> returned (\<lambda>(ctn, s). s) (walk H (\<lambda>x (ctn, s).
                 if sint ctn < sint b then Inl (ctn + 1, field_int x # s) else Inr s) ls (ctn, []));
          from_stack_to_list env TYPE_INT addrs (int_cells junk s) 0 H }"

definition lappend ::
  "db_env \<Rightarrow> ptr_val list \<Rightarrow> heap \<Rightarrow> ptr_val \<Rightarrow> ptr_val \<Rightarrow> vtype \<Rightarrow> (ptr_val \<times> heap) option" where
  "lappend env addrs H ls1 ls2 ty =
     (if ls1 = 0 \<and> ls2 = 0 then Some (0, H)
      else do { s \<leftarrow> returned (\<lambda>s. s) (walk H (\<lambda>x s. Inl (x # s)) ls1 []);
                s \<leftarrow> returned (\<lambda>s. s) (walk H (\<lambda>x s. Inl (x # s)) ls2 s);
                from_stack_to_list env ty addrs s 0 H })"

text \<open>
  \<^verbatim>\<open>std::sort\<close> with the comparison \<^verbatim>\<open>>\<close>; the list is then built from the back. Nodes are compared by
  their identifiers, which the comparison reads through the addresses (\<^verbatim>\<open>USE_REAL_NODES\<close>); a vector with
  fewer than two elements is not compared. The sorted vector of nodes is dropped: its case ends without a
  \<^verbatim>\<open>RETURN_LIST\<close> of its own.
\<close>

definition node_get_id :: "heap \<Rightarrow> node_val \<Rightarrow> node_val option" where
  "node_get_id H a = (case h_objs H a of Some (r, NodeO i quiet) \<Rightarrow> Some i | _ \<Rightarrow> None)"

definition sort_nodes :: "heap \<Rightarrow> node_val list \<Rightarrow> node_val list option" where
  "sort_nodes H vec =
     (if length vec < 2 then Some vec
      else do { ids \<leftarrow> those (map (node_get_id H) vec); Some (rev (map snd (sort_key fst (zip ids vec)))) })"

definition lsort ::
  "db_env \<Rightarrow> ptr_val list \<Rightarrow> (nat \<Rightarrow> tuple_field) \<Rightarrow> heap \<Rightarrow> ptr_val \<Rightarrow> field_type \<Rightarrow> (ptr_val \<times> heap) option" where
  "lsort env addrs junk H ls ty =
     (if ls = 0 then Some (0, H)
      else case ty of
        FIELD_INT \<Rightarrow>
          do { vec \<leftarrow> returned (\<lambda>v. v) (walk H (\<lambda>x v. Inl (v @ [field_int x])) ls []);
               from_vector_to_reverse_list env TYPE_INT addrs (int_cells junk (rev (sort_key sint vec))) H }
      | FIELD_FLOAT \<Rightarrow>
          do { vec \<leftarrow> returned (\<lambda>v. v) (walk H (\<lambda>x v. Inl (v @ [field_float x])) ls []);
               from_vector_to_reverse_list env TYPE_FLOAT addrs (rev (sort_key float_key vec)) H }
      | FIELD_NODE \<Rightarrow>
          do { vec \<leftarrow> returned (\<lambda>v. v) (walk H (\<lambda>x v. Inl (v @ [field_node x])) ls []);
               vec \<leftarrow> sort_nodes H vec;
               Some (0, H) }
      | _ \<Rightarrow> None)"

text \<open>\<open>iter\<close> is the order in which the hash set of the elements is iterated.\<close>

definition lremoveduplicates ::
  "db_env \<Rightarrow> ptr_val list \<Rightarrow> (nat \<Rightarrow> tuple_field) \<Rightarrow> (int_val set \<Rightarrow> int_val list) \<Rightarrow> heap \<Rightarrow> ptr_val \<Rightarrow> field_type
   \<Rightarrow> (ptr_val \<times> heap) option" where
  "lremoveduplicates env addrs junk iter H ls ty =
     (if ls = 0 then Some (0, H)
      else case ty of
        FIELD_INT \<Rightarrow>
          do { set \<leftarrow> returned (\<lambda>s. s) (walk H (\<lambda>x s.
                         Inl (if field_int x \<notin> s then insert (field_int x) s else s)) ls {});
               from_stack_to_list env TYPE_INT addrs (int_cells junk (iter set)) 0 H }
      | _ \<Rightarrow> None)"

partial_function (option) lreverse_loop ::
  "db_env \<Rightarrow> vtype \<Rightarrow> ptr_val list \<Rightarrow> ptr_val \<Rightarrow> ptr_val \<Rightarrow> heap \<Rightarrow> (ptr_val \<times> heap) option" where
  [code]: "lreverse_loop env t addrs p nl H =
     (if p = 0 then Some (nl, H)
      else case addrs of
        [] \<Rightarrow> None
      | a # addrs \<Rightarrow>
          do { x \<leftarrow> get_head H p;
               H \<leftarrow> cons_create env a nl x t 0 H;
               q \<leftarrow> get_tail H p;
               lreverse_loop env t addrs q a H })"

definition lreverse :: "db_env \<Rightarrow> ptr_val list \<Rightarrow> heap \<Rightarrow> ptr_val \<Rightarrow> vtype \<Rightarrow> (ptr_val \<times> heap) option" where
  "lreverse env addrs H ls t = (if ls = 0 then Some (0, H) else lreverse_loop env t addrs ls 0 H)"

text \<open>From \<^verbatim>\<open>external/math.cpp\<close>: the lists are read in step, the first one to its end.\<close>

partial_function (option) demerge_loop :: "heap \<Rightarrow> ptr_val \<Rightarrow> ptr_val \<Rightarrow> int_val list \<Rightarrow> int_val list option" where
  [code]: "demerge_loop H ls1 ls2 s =
     (if ls1 = 0 then Some s
      else do { x \<leftarrow> get_head H ls1; y \<leftarrow> get_head H ls2; q1 \<leftarrow> get_tail H ls1; q2 \<leftarrow> get_tail H ls2;
                demerge_loop H q1 q2 ((field_int x OR field_int y) # s) })"

definition demergemessages ::
  "db_env \<Rightarrow> ptr_val list \<Rightarrow> (nat \<Rightarrow> tuple_field) \<Rightarrow> heap \<Rightarrow> ptr_val \<Rightarrow> ptr_val \<Rightarrow> (ptr_val \<times> heap) option" where
  "demergemessages env addrs junk H v1 v2 =
     do { s \<leftarrow> demerge_loop H v1 v2 [];
          from_stack_to_reverse_list env TYPE_INT addrs (int_cells junk s) H }"

definition intpower :: "int_val \<Rightarrow> int_val \<Rightarrow> int_val" where
  "intpower n1 n2 = ((\<lambda>r. r * n1) ^^ (nat (sint n2))) 1"

subsection \<open>Reading\<close>

lemma returned_walk:
  "list_at H p xs \<Longrightarrow> returned fin (walk H body p a) = Some (case_sum fin (\<lambda>r. r) (walk_list body xs a))"
  by (simp add: returned_def walk_list_at)

lemma fold_count:
  "fold (\<lambda>x tot. if P x then tot + 1 else tot) xs (c :: 'a :: len word) = c + of_nat (length (filter P xs))"
  by (induction xs arbitrary: c) (auto simp: algebra_simps)

lemma listcount_list_at:
  assumes "list_at H p xs" "field_test ty = Some test"
  shows "listcount H p i ty = Some (of_nat (length (filter (\<lambda>x. test x i) xs)))"
  using assms by (cases xs) (simp_all add: listcount_def returned_walk walk_list_fold fold_count del: list_at.simps(2),
      auto simp: returned_walk [OF assms(1)] walk_list_fold fold_count)

lemma lexists_list_at:
  assumes "list_at H p xs" "field_test ty = Some test"
  shows "lexists H p i ty = Some (\<exists>x\<in>set xs. test x i)"
  using assms by (cases "p = 0"; cases xs)
    (auto simp: lexists_def returned_walk [OF assms(1)] walk_list_search)

lemma llength_list_at: "list_at H p xs \<Longrightarrow> llength H p = Some (of_nat (length xs))"
  using fold_count [of "\<lambda>_. True" xs 0] by (simp add: llength_def returned_walk walk_list_fold)

lemma has_value_list_at: "list_at H p xs \<Longrightarrow> has_value H p v = Some (v \<in> field_int ` set xs)"
  by (auto simp: has_value_def returned_walk walk_list_search)

lemma walk_list_nth:
  "unat v < unat c + length xs \<Longrightarrow> unat c \<le> unat v \<Longrightarrow> unat c + length xs < 2 ^ 32 \<Longrightarrow>
   walk_list (\<lambda>x cnt. if cnt = v then Inr x else Inl (cnt + 1)) xs (c :: int_val) = Inr (xs ! (unat v - unat c))"
proof (induction xs arbitrary: c)
  case (Cons x xs)
  show ?case
  proof (cases "c = v")
    case False
    have c1: "unat (c + 1) = Suc (unat c)"
      using Cons.prems by (subst unat_add_lem [THEN iffD1]) auto
    moreover have "unat c \<noteq> unat v" using False by (simp add: word_unat_eq_iff)
    ultimately show ?thesis using Cons False by (simp add: nth_Cons')
  qed simp
qed simp

lemma lnth_list_at:
  "list_at H p xs \<Longrightarrow> unat v < length xs \<Longrightarrow> length xs < 2 ^ 32 \<Longrightarrow> lnth H p v = Some (xs ! unat v)"
  using walk_list_nth [of v 0 xs] by (simp add: lnth_def walk_list_at)

lemma listlast_list_at:
  assumes "list_at H p (xs @ [x])"
  shows "listlast H p = Some x"
proof -
  have "p \<noteq> 0 \<and> listlast_loop H p = Some x" using assms
  proof (induction xs arbitrary: p)
    case Nil
    then obtain q where "p \<noteq> 0" "get_head H p = Some x" "get_tail H p = Some q" "list_at H q []"
      using list_at_Cons_get [of H p x "[]"] by auto
    then show ?case by (subst listlast_loop.simps) simp
  next
    case (Cons y ys)
    then obtain q where q: "p \<noteq> 0" "get_head H p = Some y" "get_tail H p = Some q" "list_at H q (ys @ [x])"
      using list_at_Cons_get [of H p y "ys @ [x]"] by auto
    from Cons.IH [OF q(4)] q show ?case by (subst listlast_loop.simps) simp
  qed
  then show ?thesis by (simp add: listlast_def)
qed

lemma intlistequal_list_at:
  "list_at H p xs \<Longrightarrow> list_at H q ys \<Longrightarrow>
   intlistequal H p q = Some (of_bool (map field_int xs = map field_int ys))"
proof (induction xs arbitrary: p q ys)
  case Nil
  then show ?case by (subst intlistequal.simps) (cases ys, auto)
next
  case (Cons x xs)
  obtain p' where p': "p \<noteq> 0" "get_head H p = Some x" "get_tail H p = Some p'" "list_at H p' xs"
    using list_at_Cons_get [OF Cons.prems(1)] by auto
  show ?case
  proof (cases ys)
    case Nil
    with p' Cons.prems(2) show ?thesis by (subst intlistequal.simps) simp
  next
    case (Cons y ys')
    from list_at_Cons_get [OF Cons.prems(2) [unfolded this]] p' Cons.IH Cons show ?thesis
      by (subst intlistequal.simps) auto
  qed
qed

text \<open>
  C35. The external functions that read lists agree with the functions on lists they are named after:
  the length and the number of occurrences (modulo \<open>2 ^ 32\<close>), membership, the element at an index
  inside the list, the last element, and equality of two integer lists.
\<close>

theorem external_list_reads:
  assumes "list_at H p xs" "list_at H q ys" "field_test ty = Some test" "length xs < 2 ^ 32"
  shows "llength H p = Some (of_nat (length xs))
    \<and> listcount H p i ty = Some (of_nat (length (filter (\<lambda>x. test x i) xs)))
    \<and> lexists H p i ty = Some (\<exists>x\<in>set xs. test x i)
    \<and> (unat v < length xs \<longrightarrow> lnth H p v = Some (xs ! unat v))
    \<and> (xs \<noteq> [] \<longrightarrow> listlast H p = Some (last xs))
    \<and> intlistequal H p q = Some (of_bool (map field_int xs = map field_int ys))"
proof -
  have "listlast H p = Some (last xs)" if "xs \<noteq> []"
    using listlast_list_at [of H p "butlast xs" "last xs"] assms(1) that by simp
  with assms(4) show ?thesis
    by (simp add: llength_list_at [OF assms(1)] listcount_list_at [OF assms(1,3)] lexists_list_at [OF assms(1,3)]
        lnth_list_at [OF assms(1)] intlistequal_list_at [OF assms(1,2)])
qed

theorem external_list_reads_witness:
  "llength two_cells 16 = Some 2 \<and> listcount two_cells 16 5 FIELD_INT = Some 1
   \<and> lexists two_cells 16 7 FIELD_INT = Some False \<and> lnth two_cells 16 1 = Some 5
   \<and> listlast two_cells 16 = Some 5 \<and> intlistequal two_cells 16 8 = Some 0"
proof -
  have l: "list_at two_cells 16 [6, 5]" "list_at two_cells 8 [5]" by (simp_all add: two_cells_def)
  have i: "field_int 5 = 5" "field_int 6 = 6" "field_int 7 = 7" by (simp_all add: field_int_def)
  from external_list_reads [OF l field_test.simps(1), of 5 1] external_list_reads [OF l field_test.simps(1), of 7 1] i
  show ?thesis by simp
qed

subsection \<open>Building\<close>

lemma map_int_cells [simp]: "map field_int (int_cells junk s) = s"
  by (rule nth_equalityI) (auto simp: int_cells_def build_from_int_def nth_enumerate_eq split: prod.split)

lemma length_int_cells [simp]: "length (int_cells junk s) = length s"
  by (simp add: int_cells_def)

text \<open>
  What a function that builds a list guarantees: it succeeds, the elements of the new list satisfy
  \<open>P\<close>, every list that was there still is, and the counters are exact.
\<close>

definition builds ::
  "db_env \<Rightarrow> heap \<Rightarrow> ptr_val multiset \<Rightarrow> (tuple_field list \<Rightarrow> bool) \<Rightarrow> (ptr_val \<times> heap) option \<Rightarrow> bool" where
  "builds env H roots P res \<longleftrightarrow>
     (\<exists>p H' G' xs. res = Some (p, H') \<and> list_at H' p xs \<and> P xs \<and> extends H H' \<and> rc_inv env G' {} H' roots)"

definition fresh_addrs :: "heap \<Rightarrow> ptr_val list \<Rightarrow> bool" where
  "fresh_addrs H addrs \<longleftrightarrow> distinct addrs \<and> (\<forall>a\<in>set addrs. a \<noteq> 0 \<and> h_objs H a = None)"

lemma builds_stack:
  assumes "rc_inv env G {} H roots" "fresh_addrs H addrs" "length stk \<le> length addrs" "get_type t = Some ft"
    "\<forall>x\<in>set stk. list_all (ref_ok G H) (counted x t)" "P (rev stk)"
  shows "builds env H roots P (from_stack_to_list env t addrs stk 0 H)"
proof -
  have "ref_ok G H (0, ListT t)" by (simp add: ref_ok_def)
  moreover have "list_at H 0 []" by simp
  ultimately obtain p H' G' where "from_stack_to_list env t addrs stk 0 H = Some (p, H')" "list_at H' p (rev stk @ [])"
    "extends H H'" "rc_inv env G' {} H' roots"
    using build_list_keeps [OF assms(1) _ _ assms(3) _ _ assms(5,4)] assms(2) unfolding fresh_addrs_def by metis
  with assms(6) show ?thesis unfolding builds_def by (metis append_Nil2)
qed

lemma builds_ints:
  assumes "rc_inv env G {} H roots" "fresh_addrs H addrs" "length s \<le> length addrs" "P (rev s)"
  shows "builds env H roots (\<lambda>zs. P (map field_int zs)) (from_stack_to_list env TYPE_INT addrs (int_cells junk s) 0 H)"
  using assms by (intro builds_stack [where ft = FIELD_INT]) (auto simp: TYPE_INT_def counted_def rev_map [symmetric])

lemma builds_null: "rc_inv env G {} H roots \<Longrightarrow> P [] \<Longrightarrow> builds env H roots P (Some (0, H))"
  unfolding builds_def by (metis extends_refl list_at.simps(1))

lemma fold_filter_rev: "fold (\<lambda>x s. if P x then f x # s else s) xs s = rev (map f (filter P xs)) @ s"
  by (induction xs arbitrary: s) auto

lemma fold_rev_acc: "fold (\<lambda>x s. x # s) xs s = rev xs @ s"
  by (induction xs arbitrary: s) auto

lemma list_at_0 [simp]: "list_at H 0 xs = (xs = [])"
  by (cases xs) auto

lemma counted_list_elements:
  assumes inv: "rc_inv env G {} H roots" and t: "G p = Some (ListT t)" and l: "list_at H p xs" and x: "x \<in> set xs"
  shows "list_all (ref_ok G H) (counted x t)"
  using t l x
proof (induction xs arbitrary: p)
  case (Cons y xs)
  then obtain r q where q: "h_objs H p = Some (r, ConsO q y)" "list_at H q xs" by auto
  have own: "list_all (ref_ok G H) (destroy_cons t q y)"
    using rc_inv_obj(1) [OF inv q(1)] Cons.prems(1) by (simp add: obj_typed_def)
  show ?case
  proof (cases "x = y")
    case True
    with own show ?thesis by (simp add: destroy_cons_def)
  next
    case False
    with Cons.prems have x: "x \<in> set xs" by simp
    then have "q \<noteq> 0" using q(2) by auto
    with own have "G q = Some (ListT t)" by (simp add: destroy_cons_def ref_ok_def)
    from Cons.IH [OF this q(2) x] show ?thesis .
  qed
qed simp

lemma builds_lappend:
  assumes inv: "rc_inv env G {} H roots" and a: "fresh_addrs H addrs" "length xs + length ys \<le> length addrs"
    and l: "list_at H p xs" "list_at H q ys" and ft: "get_type t = Some ft"
    and ok: "\<forall>x\<in>set xs \<union> set ys. list_all (ref_ok G H) (counted x t)"
  shows "builds env H roots (\<lambda>zs. zs = xs @ ys) (lappend env addrs H p q t)"
proof (cases "p = 0 \<and> q = 0")
  case True
  with builds_null [OF inv, of "\<lambda>zs. zs = xs @ ys"] l show ?thesis by (simp add: lappend_def)
next
  case False
  from builds_stack [OF inv a(1) _ ft, of "rev (xs @ ys)" "\<lambda>zs. zs = xs @ ys"] a(2) ok False l show ?thesis
    by (auto simp: lappend_def returned_walk walk_list_fold fold_rev_acc)
qed

lemma builds_lremove_int:
  assumes inv: "rc_inv env G {} H roots" and a: "fresh_addrs H addrs" "length xs \<le> length addrs" and l: "list_at H p xs"
  shows "builds env H roots (\<lambda>zs. map field_int zs = filter (\<lambda>v. v \<noteq> field_int n) (map field_int xs))
    (lremove env addrs junk H p n FIELD_INT)"
proof (cases "p = 0")
  case True
  with builds_null [OF inv, of "\<lambda>zs. map field_int zs = filter (\<lambda>v. v \<noteq> field_int n) (map field_int xs)"] l show ?thesis
    by (simp add: lremove_def)
next
  case False
  let ?s = "rev (map field_int (filter (\<lambda>x. field_int x \<noteq> field_int n) xs))"
  have cast: "(\<lambda>x. ucast (field_node x)) = field_int" by (simp add: fun_eq_iff field_node_def field_int_def)
  have "length ?s \<le> length addrs" by (simp add: le_trans [OF length_filter_le a(2)])
  with builds_ints [OF inv a(1), of ?s "\<lambda>zs. zs = filter (\<lambda>v. v \<noteq> field_int n) (map field_int xs)" junk] False show ?thesis
    by (simp add: lremove_def returned_walk [OF l] walk_list_fold fold_filter_rev filter_map o_def cast)
qed

lemma walk_intlistdiff:
  assumes "list_at H q ys"
  shows "walk_list (\<lambda>x s. case has_value H q (field_int x) of None \<Rightarrow> Inr None
      | Some b \<Rightarrow> Inl (if \<not> b then field_int x # s else s)) xs s
    = Inl (rev (filter (\<lambda>v. v \<notin> field_int ` set ys) (map field_int xs)) @ s)"
  by (induction xs arbitrary: s) (auto simp: has_value_list_at [OF assms])

lemma builds_intlistdiff:
  assumes inv: "rc_inv env G {} H roots" and a: "fresh_addrs H addrs" "length xs \<le> length addrs"
    and l: "list_at H p xs" "list_at H q ys"
  shows "builds env H roots (\<lambda>zs. map field_int zs = filter (\<lambda>v. v \<notin> field_int ` set ys) (map field_int xs))
    (intlistdiff env addrs junk H p q)"
proof -
  let ?s = "rev (filter (\<lambda>v. v \<notin> field_int ` set ys) (map field_int xs))"
  have "length ?s \<le> length addrs" by (simp add: le_trans [OF length_filter_le] a(2))
  with builds_ints [OF inv a(1), of ?s "\<lambda>zs. zs = filter (\<lambda>v. v \<notin> field_int ` set ys) (map field_int xs)" junk]
  show ?thesis by (simp add: intlistdiff_def walk_list_at [OF l(1)] walk_intlistdiff [OF l(2)])
qed

lemma do_increment_same_objs: "do_increment_runtime env f ft H = Some H' \<Longrightarrow> same_objs H H'"
  by (auto simp: do_increment_runtime_def split: if_splits option.splits robj.splits)

lemma cons_create_extends:
  assumes "h_objs H c = None" "cons_create env c tailp x t 0 H = Some H'"
  shows "extends H H'" "dom (h_objs H') = insert c (dom (h_objs H))"
proof -
  let ?H = "set_obj c (0, ConsO tailp x) H"
  from assms(2) obtain H1 ft where H1: "cons_inc_refs tailp ?H = Some H1" "increment_runtime_data env x ft H1 = Some H'"
    by (auto simp: cons_create_def bind_eq_Some_conv)
  have "same_objs ?H H1"
    using H1(1) by (auto simp: cons_inc_refs_def inc_refs_def simp del: h_objs_set_obj split: if_splits option.splits)
  moreover have "same_objs H1 H'"
    using H1(2) do_increment_same_objs by (auto simp: increment_runtime_data_def split: if_splits)
  ultimately have same: "same_objs ?H H'" by (rule same_objs_trans)
  from extends_alloc [OF assms(1) same] show "extends H H'" .
  from same_objs_dom [OF same] show "dom (h_objs H') = insert c (dom (h_objs H))" by simp
qed

lemma lreverse_loop_stack:
  "list_at H p stk \<Longrightarrow> fresh_addrs H addrs \<Longrightarrow>
   lreverse_loop env t addrs p nl H = from_stack_to_list env t addrs stk nl H"
proof (induction stk arbitrary: H p addrs nl)
  case Nil
  then show ?case by (subst lreverse_loop.simps) simp
next
  case (Cons x stk)
  then obtain r q where q: "p \<noteq> 0" "h_objs H p = Some (r, ConsO q x)" "list_at H q stk" by auto
  show ?case
  proof (cases addrs)
    case Nil
    with q show ?thesis by (subst lreverse_loop.simps) simp
  next
    case (Cons a as)
    with Cons.prems have a: "h_objs H a = None" and as: "fresh_addrs H as" "a \<notin> set as" by (auto simp: fresh_addrs_def)
    show ?thesis
    proof (cases "cons_create env a nl x t 0 H")
      case None
      with q Cons show ?thesis by (subst lreverse_loop.simps) (simp add: get_head_def)
    next
      case (Some H1)
      note ext = cons_create_extends [OF a Some]
      have "get_tail H1 p = Some q"
        using ext(1) q(2) unfolding extends_def by (force simp: get_tail_def)
      moreover have "fresh_addrs H1 as"
        using as ext(2) by (auto simp: fresh_addrs_def)
      moreover have "list_at H1 q stk" using extends_list_at [OF ext(1) q(3)] .
      ultimately show ?thesis
        using q Cons Some Cons.IH by (subst lreverse_loop.simps) (simp add: get_head_def)
    qed
  qed
qed

lemma builds_lreverse:
  assumes inv: "rc_inv env G {} H roots" and a: "fresh_addrs H addrs" "length xs \<le> length addrs"
    and l: "list_at H p xs" and ft: "get_type t = Some ft" and ok: "\<forall>x\<in>set xs. list_all (ref_ok G H) (counted x t)"
  shows "builds env H roots (\<lambda>zs. zs = rev xs) (lreverse env addrs H p t)"
proof (cases "p = 0")
  case True
  with builds_null [OF inv, of "\<lambda>zs. zs = rev xs"] l show ?thesis by (simp add: lreverse_def)
next
  case False
  with builds_stack [OF inv a ft ok, of "\<lambda>zs. zs = rev xs"] lreverse_loop_stack [OF l a(1)] show ?thesis
    by (simp add: lreverse_def)
qed

lemma builds_lsort_int:
  assumes inv: "rc_inv env G {} H roots" and a: "fresh_addrs H addrs" "length xs \<le> length addrs" and l: "list_at H p xs"
  shows "builds env H roots (\<lambda>zs. map field_int zs = sort_key sint (map field_int xs)) (lsort env addrs junk H p FIELD_INT)"
proof (cases "p = 0")
  case True
  with builds_null [OF inv, of "\<lambda>zs. map field_int zs = sort_key sint (map field_int xs)"] l show ?thesis
    by (simp add: lsort_def)
next
  case False
  have "fold (\<lambda>x v. v @ [field_int x]) xs v = v @ map field_int xs" for v
    by (induction xs arbitrary: v) auto
  with builds_ints [OF inv a(1), of "rev (sort_key sint (map field_int xs))" "\<lambda>zs. zs = sort_key sint (map field_int xs)" junk]
    a(2) False show ?thesis
    by (simp add: lsort_def returned_walk [OF l] walk_list_fold from_vector_to_reverse_list_def)
qed

text \<open>
  C36. The external functions that build lists. With enough free addresses and exact counters they
  succeed, every existing list stays as it was, the counters are exact afterwards, and the new list
  is: the concatenation (\<^verbatim>\<open>lappend\<close>), the reversal (\<^verbatim>\<open>lreverse\<close>), for integers the list without a
  value (\<^verbatim>\<open>lremove\<close>), without the values of another list (\<^verbatim>\<open>intlistdiff\<close>), and the elements in
  increasing signed order (\<^verbatim>\<open>lsort\<close>).
\<close>

theorem external_list_builds:
  assumes inv: "rc_inv env G {} H roots" and a: "fresh_addrs H addrs" "length xs + length ys \<le> length addrs"
    and l: "list_at H p xs" "list_at H q ys" and t: "G p = Some (ListT t)" "G q = Some (ListT t)" "get_type t = Some ft"
  shows "builds env H roots (\<lambda>zs. zs = xs @ ys) (lappend env addrs H p q t)
    \<and> builds env H roots (\<lambda>zs. zs = rev xs) (lreverse env addrs H p t)
    \<and> builds env H roots (\<lambda>zs. map field_int zs = filter (\<lambda>v. v \<noteq> field_int n) (map field_int xs))
        (lremove env addrs junk H p n FIELD_INT)
    \<and> builds env H roots (\<lambda>zs. map field_int zs = filter (\<lambda>v. v \<notin> field_int ` set ys) (map field_int xs))
        (intlistdiff env addrs junk H p q)
    \<and> builds env H roots (\<lambda>zs. map field_int zs = sort_key sint (map field_int xs)) (lsort env addrs junk H p FIELD_INT)"
proof -
  have ok: "\<forall>x\<in>set xs \<union> set ys. list_all (ref_ok G H) (counted x t)"
    using counted_list_elements [OF inv t(1) l(1)] counted_list_elements [OF inv t(2) l(2)] by blast
  have len: "length xs \<le> length addrs" using a(2) by simp
  show ?thesis
    using builds_lappend [OF inv a l t(3) ok] builds_lreverse [OF inv a(1) len l(1) t(3)] ok
      builds_lremove_int [OF inv a(1) len l(1)] builds_intlistdiff [OF inv a(1) len l] builds_lsort_int [OF inv a(1) len l(1)]
    by simp
qed

theorem external_list_builds_witness:
  "builds small_env two_cells {#16#} (\<lambda>zs. zs = [6, 5, 5]) (lappend small_env [24, 32, 40] two_cells 16 8 (BaseT FIELD_INT))
   \<and> builds small_env two_cells {#16#} (\<lambda>zs. zs = [5, 6]) (lreverse small_env [24, 32, 40] two_cells 16 (BaseT FIELD_INT))
   \<and> builds small_env two_cells {#16#} (\<lambda>zs. map field_int zs = [5, 6])
       (lsort small_env [24, 32, 40] (\<lambda>_. 0) two_cells 16 FIELD_INT)"
proof -
  have l: "list_at two_cells 16 [6, 5]" "list_at two_cells 8 [5]" by (simp_all add: two_cells_def)
  have a: "fresh_addrs two_cells [24, 32, 40]" by (simp add: fresh_addrs_def two_cells_def)
  have i: "field_int 5 = 5" "field_int 6 = 6" by (simp_all add: field_int_def)
  from external_list_builds [OF two_cells_inv a _ l, of "BaseT FIELD_INT" FIELD_INT 0 "\<lambda>_. 0"] i
  show ?thesis by (simp add: two_types_def insort_key_def)
qed

subsection \<open>Sublists of integer lists\<close>

lemma sint_Suc: "0 \<le> sint (c :: int_val) \<Longrightarrow> sint c + 1 < 2 ^ 31 \<Longrightarrow> sint (c + 1) = sint c + 1"
  by (simp add: sint_word_ariths signed_take_bit_int_eq_self)

lemma list_skip_list_at:
  assumes "list_at H p xs" "0 \<le> sint c" "sint c + int (length xs) < 2 ^ 31"
  shows "\<exists>q c'. list_skip H p c a = Some (q, c') \<and> list_at H q (drop (nat (sint a - sint c)) xs)
    \<and> sint c' = sint c + int (min (length xs) (nat (sint a - sint c)))"
  using assms
proof (induction xs arbitrary: p c)
  case Nil
  then show ?case by (subst list_skip.simps) simp
next
  case (Cons x xs)
  obtain q where q: "p \<noteq> 0" "get_tail H p = Some q" "list_at H q xs"
    using list_at_Cons_get [OF Cons.prems(1)] by auto
  show ?case
  proof (cases "sint c < sint a")
    case True
    have c1: "sint (c + 1) = sint c + 1" using Cons.prems by (intro sint_Suc) auto
    from Cons.IH [OF q(3), of "c + 1"] c1 Cons.prems obtain r c' where
      r: "list_skip H q (c + 1) a = Some (r, c')" "list_at H r (drop (nat (sint a - (sint c + 1))) xs)"
        "sint c' = sint c + 1 + int (min (length xs) (nat (sint a - (sint c + 1))))" by auto
    have "nat (sint a - sint c) = Suc (nat (sint a - (sint c + 1)))" using True by simp
    with r True q show ?thesis by (subst list_skip.simps) simp
  next
    case False
    with Cons.prems(1) q show ?thesis by (subst list_skip.simps) simp
  qed
qed

lemma walk_list_take:
  assumes "0 \<le> sint c" "sint c + int (length xs) < 2 ^ 31"
  shows "case_sum (\<lambda>(ctn, s). s) (\<lambda>r. r) (walk_list (\<lambda>x (ctn, s).
      if sint ctn < sint b then Inl (ctn + 1, field_int x # s) else Inr s) xs (c :: int_val, s))
    = rev (map field_int (take (nat (sint b - sint c)) xs)) @ s"
  using assms
proof (induction xs arbitrary: c s)
  case (Cons x xs)
  show ?case
  proof (cases "sint c < sint b")
    case True
    have c1: "sint (c + 1) = sint c + 1" using Cons.prems by (intro sint_Suc) auto
    have "nat (sint b - sint c) = Suc (nat (sint b - (sint c + 1)))" using True by simp
    with Cons.IH [of "c + 1" "field_int x # s"] Cons.prems c1 True show ?thesis by simp
  qed simp
qed simp

lemma builds_intlistsub:
  assumes inv: "rc_inv env G {} H roots" and a: "fresh_addrs H addrs" "length xs \<le> length addrs"
    and l: "list_at H p xs" and len: "length xs < 2 ^ 31"
  shows "builds env H roots (\<lambda>zs. map field_int zs =
      map field_int (take (nat (sint b) - nat (sint a)) (drop (nat (sint a)) xs)))
    (intlistsub env addrs junk H p a b)"
proof -
  from list_skip_list_at [OF l, of 0 a] len obtain q c where
    q: "list_skip H p 0 a = Some (q, c)" "list_at H q (drop (nat (sint a)) xs)"
      "sint c = int (min (length xs) (nat (sint a)))" by auto
  let ?k = "nat (sint b - sint c)" and ?ys = "drop (nat (sint a)) xs"
  have take: "take ?k ?ys = take (nat (sint b) - nat (sint a)) ?ys"
  proof (cases "nat (sint a) \<le> length xs")
    case True
    have "nat (sint b - int m) = nat (sint b) - m" for m by arith
    with True q(3) show ?thesis by (simp add: min_absorb2 del: int_nat_eq)
  qed simp
  have w: "returned (\<lambda>(ctn, s). s) (walk H (\<lambda>x (ctn, s).
      if sint ctn < sint b then Inl (ctn + 1, field_int x # s) else Inr s) q (c, []))
    = Some (rev (map field_int (take ?k ?ys)))"
    using walk_list_take [of c ?ys b "[]"] q(3) len by (simp add: returned_walk [OF q(2)])
  have "length (take ?k ?ys) \<le> length addrs" using a(2) by simp
  with builds_ints [OF inv a(1), of "rev (map field_int (take ?k ?ys))" "\<lambda>zs. zs = map field_int (take ?k ?ys)" junk]
  show ?thesis by (simp add: intlistsub_def q(1) w flip: take)
qed

subsection \<open>Functions that do not do what their names say\<close>

lemma ltake_all: "list_at H p xs \<Longrightarrow> sint n > 0 \<Longrightarrow> ltake H p n = Some 0"
proof (induction xs arbitrary: p)
  case (Cons x xs)
  from list_at_Cons_get [OF Cons.prems(1)] Cons show ?case by (subst ltake.simps) auto
qed (simp add: ltake.simps)

lemma lexistss_nodes:
  assumes "list_at H p xs" "list_at H q ys" "0 \<notin> set xs" "\<forall>y\<in>set ys. unat y < 2 ^ 52"
  shows "lexistss H p q FIELD_NODE = Some False"
proof -
  have "walk_list (\<lambda>h a. case walk H (\<lambda>x b. if field_node x = of_nat (float_trunc (field_float h)) then Inr () else Inl b) p () of
      None \<Rightarrow> Inr None | Some (Inl _) \<Rightarrow> Inl a | Some (Inr _) \<Rightarrow> Inr (Some True)) ys () = Inl ()"
    using assms(4) by (induction ys)
      (use assms(3) in \<open>auto simp: walk_list_at [OF assms(1)] walk_list_search float_trunc_tiny field_float_def field_node_def\<close>)
  then show ?thesis by (simp add: lexistss_def walk_list_at [OF assms(2)])
qed

lemma those_defined: "(\<forall>x\<in>set xs. f x \<noteq> None) \<Longrightarrow> \<exists>ys. those (map f xs) = Some ys"
  by (induction xs) auto

lemma lsort_nodes:
  assumes "list_at H p xs" "\<forall>x\<in>set xs. node_get_id H x \<noteq> None"
  shows "lsort env addrs junk H p FIELD_NODE = Some (0, H)"
proof -
  have "fold (\<lambda>x v. v @ [field_node x]) xs v = v @ xs" for v
    by (induction xs arbitrary: v) (auto simp: field_node_def)
  moreover have "sort_nodes H xs \<noteq> None"
    using those_defined [OF assms(2)] by (auto simp: sort_nodes_def)
  ultimately show ?thesis
    by (auto simp: lsort_def returned_walk [OF assms(1)] walk_list_fold)
qed

text \<open>
  C37. Three external functions do not compute what they are named after. \<^verbatim>\<open>ltake\<close> with a positive
  count returns the empty list, because its loop never counts. \<^verbatim>\<open>lsort\<close> of a list of nodes sorts them
  and then returns the empty list. \<^verbatim>\<open>lexistss\<close> of two lists of node addresses is false even when they have
  a common node, because it converts the address as a floating-point number; this is for addresses
  below \<open>2 ^ 52\<close> (denormal numbers, which convert to 0) and a first list without the null address.
\<close>

theorem external_list_defects:
  assumes "list_at H p xs" "list_at H q ys"
  shows "(sint n > 0 \<longrightarrow> ltake H p n = Some 0)
    \<and> ((\<forall>x\<in>set xs. node_get_id H x \<noteq> None) \<longrightarrow> lsort env addrs junk H p FIELD_NODE = Some (0, H))
    \<and> (0 \<notin> set xs \<longrightarrow> (\<forall>y\<in>set ys. unat y < 2 ^ 52) \<longrightarrow> lexistss H p q FIELD_NODE = Some False)"
  using ltake_all [OF assms(1)] lsort_nodes [OF assms(1)] lexistss_nodes [OF assms] by blast

text \<open>Two nodes, and two lists that share the second one.\<close>

definition node_cells :: heap where
  "node_cells = \<lparr>h_objs = [8 \<mapsto> (1, ConsO 0 32), 16 \<mapsto> (1, ConsO 8 24), 24 \<mapsto> (1, NodeO 7 True), 32 \<mapsto> (2, NodeO 3 True)],
     h_gc = {}\<rparr>"

theorem external_list_defects_witness:
  "ltake node_cells 16 1 = Some 0 \<and> lexistss node_cells 16 8 FIELD_NODE = Some False
   \<and> lsort small_env [40, 48] (\<lambda>_. 0) node_cells 16 FIELD_NODE = Some (0, node_cells)
   \<and> sort_nodes node_cells [32, 24] = Some [24, 32]"
proof -
  have l: "list_at node_cells 16 [24, 32]" "list_at node_cells 8 [32]" by (simp_all add: node_cells_def)
  have "\<forall>x\<in>set [24, 32]. node_get_id node_cells x \<noteq> None" by (simp add: node_get_id_def node_cells_def)
  with external_list_defects [OF l, of 1 small_env "[40, 48]" "\<lambda>_. 0"] show ?thesis
    by (simp add: sort_nodes_def node_get_id_def node_cells_def insort_key_def)
qed

end
