(* ===== verification/Call_Stack.thy ===== *)
theory Call_Stack
  imports Runtime_Heap
begin

text \<open>
  The call stack of the virtual machine (\<^verbatim>\<open>vm/call_stack.hpp\<close>): an array that grows downwards from its
  end and doubles when it is full. Uninitialised memory is a parameter (\<open>junk\<close>). The theorems relate
  the array to the list of the values on the stack, top first, show that pushing at most as many
  values as the capacity is safe and that saving and restoring the registers is the identity, and
  that one doubling is not enough for a larger push.
\<close>

abbreviation NUM_REGS :: nat where "NUM_REGS \<equiv> 32"

record call_stack =
  cs_vec :: "tuple_field list"
  cs_capacity :: nat
  cs_size :: nat

definition stack_expand :: "tuple_field list \<Rightarrow> call_stack \<Rightarrow> call_stack" where
  "stack_expand junk s =
     s\<lparr>cs_vec := take (cs_capacity s) junk @ cs_vec s, cs_capacity := cs_capacity s * 2\<rparr>"

definition stack_empty :: "call_stack \<Rightarrow> bool" where
  "stack_empty s \<longleftrightarrow> cs_size s = 0"

definition stack_push :: "tuple_field list \<Rightarrow> nat \<Rightarrow> call_stack \<Rightarrow> call_stack" where
  "stack_push junk howmany s =
     (let s = s\<lparr>cs_size := cs_size s + howmany\<rparr>
      in if cs_size s > cs_capacity s then stack_expand junk s else s)"

definition stack_pop :: "nat \<Rightarrow> call_stack \<Rightarrow> call_stack" where
  "stack_pop howmany s = s\<lparr>cs_size := size_sub (cs_size s) howmany\<rparr>"

text \<open>The index \<^verbatim>\<open>capacity - size + off\<close>, if it is inside the array.\<close>

definition stack_index :: "call_stack \<Rightarrow> nat \<Rightarrow> nat option" where
  "stack_index s off =
     (if cs_size s \<le> cs_capacity s + off \<and> cs_capacity s + off - cs_size s < length (cs_vec s)
      then Some (cs_capacity s + off - cs_size s) else None)"

definition get_stack_at :: "call_stack \<Rightarrow> nat \<Rightarrow> tuple_field option" where
  "get_stack_at s off = map_option (\<lambda>i. cs_vec s ! i) (stack_index s off)"

definition set_stack_at :: "nat \<Rightarrow> tuple_field \<Rightarrow> call_stack \<Rightarrow> call_stack option" where
  "set_stack_at off v s = map_option (\<lambda>i. s\<lparr>cs_vec := (cs_vec s)[i := v]\<rparr>) (stack_index s off)"

definition push_regs :: "tuple_field list \<Rightarrow> tuple_field list \<Rightarrow> call_stack \<Rightarrow> call_stack option" where
  "push_regs junk regs s =
     (let s = stack_push junk NUM_REGS s
      in if cs_size s \<le> cs_capacity s \<and> NUM_REGS \<le> cs_size s
         then let i = cs_capacity s - cs_size s
              in Some (s\<lparr>cs_vec := take i (cs_vec s) @ regs @ drop (i + NUM_REGS) (cs_vec s)\<rparr>)
         else None)"

definition pop_regs :: "call_stack \<Rightarrow> (tuple_field list \<times> call_stack) option" where
  "pop_regs s =
     (if cs_size s \<le> cs_capacity s \<and> NUM_REGS \<le> cs_size s
      then Some (take NUM_REGS (drop (cs_capacity s - cs_size s) (cs_vec s)), stack_pop NUM_REGS s) else None)"

definition new_call_stack :: "tuple_field list \<Rightarrow> call_stack" where
  "new_call_stack junk = \<lparr>cs_vec = take (2 * NUM_REGS) junk, cs_capacity = 2 * NUM_REGS, cs_size = 0\<rparr>"

subsection \<open>The stack as a list\<close>

definition stack_inv :: "call_stack \<Rightarrow> bool" where
  "stack_inv s \<longleftrightarrow> length (cs_vec s) = cs_capacity s \<and> cs_size s \<le> cs_capacity s"

definition stack_list :: "call_stack \<Rightarrow> tuple_field list" where
  "stack_list s = drop (cs_capacity s - cs_size s) (cs_vec s)"

lemma length_stack_list: "stack_inv s \<Longrightarrow> length (stack_list s) = cs_size s"
  by (simp add: stack_inv_def stack_list_def)

lemma new_call_stack_inv: "2 * NUM_REGS \<le> length junk \<Longrightarrow> stack_inv (new_call_stack junk) \<and> stack_list (new_call_stack junk) = []"
  by (simp add: stack_inv_def stack_list_def new_call_stack_def)

lemma stack_index_inside:
  assumes "stack_inv s" "off < cs_size s"
  shows "stack_index s off = Some (cs_capacity s - cs_size s + off)" "cs_capacity s - cs_size s + off < length (cs_vec s)"
proof -
  have eq: "cs_capacity s + off - cs_size s = cs_capacity s - cs_size s + off"
    using assms(1) by (simp add: stack_inv_def)
  show lt: "cs_capacity s - cs_size s + off < length (cs_vec s)"
    using assms unfolding stack_inv_def by linarith
  have "cs_size s \<le> cs_capacity s + off" using assms(1) unfolding stack_inv_def by linarith
  with eq lt show "stack_index s off = Some (cs_capacity s - cs_size s + off)"
    by (simp only: stack_index_def simp_thms if_True)
qed

lemma get_stack_at_list: "stack_inv s \<Longrightarrow> off < cs_size s \<Longrightarrow> get_stack_at s off = Some (stack_list s ! off)"
  by (simp add: get_stack_at_def stack_index_inside stack_list_def stack_inv_def)

lemma set_stack_at_list:
  "stack_inv s \<Longrightarrow> off < cs_size s \<Longrightarrow>
   \<exists>s'. set_stack_at off v s = Some s' \<and> stack_inv s' \<and> stack_list s' = (stack_list s)[off := v]"
  by (simp add: set_stack_at_def stack_index_inside stack_list_def stack_inv_def drop_update_swap)

lemma stack_push_list:
  assumes inv: "stack_inv s" and n: "n \<le> cs_capacity s" and junk: "cs_capacity s \<le> length junk"
  shows "stack_inv (stack_push junk n s) \<and> cs_size (stack_push junk n s) = cs_size s + n
    \<and> drop n (stack_list (stack_push junk n s)) = stack_list s"
proof (cases "cs_size s + n \<le> cs_capacity s")
  case True
  then show ?thesis
    using inv by (auto simp: stack_push_def stack_inv_def stack_list_def Let_def)
next
  case False
  have "cs_capacity s * 2 - (cs_size s + n) + n = cs_capacity s + (cs_capacity s - cs_size s)"
    using inv n by (simp add: stack_inv_def)
  with False inv n junk show ?thesis
    by (auto simp: stack_push_def stack_expand_def stack_inv_def stack_list_def Let_def min_absorb2)
qed

lemma stack_pop_list:
  assumes "stack_inv s" "n \<le> cs_size s"
  shows "stack_inv (stack_pop n s) \<and> stack_list (stack_pop n s) = drop n (stack_list s)"
proof -
  have "cs_capacity s - (cs_size s - n) = n + (cs_capacity s - cs_size s)"
    using assms by (simp add: stack_inv_def)
  then show ?thesis using assms by (auto simp: stack_pop_def stack_inv_def stack_list_def)
qed

lemma push_regs_list:
  assumes inv: "stack_inv s" and n: "NUM_REGS \<le> cs_capacity s" and junk: "cs_capacity s \<le> length junk"
    and regs: "length regs = NUM_REGS"
  shows "\<exists>s'. push_regs junk regs s = Some s' \<and> stack_inv s' \<and> stack_list s' = regs @ stack_list s"
proof -
  let ?s = "stack_push junk NUM_REGS s"
  have p: "stack_inv ?s" "cs_size ?s = cs_size s + NUM_REGS" "drop NUM_REGS (stack_list ?s) = stack_list s"
    using stack_push_list [OF inv n junk] by auto
  then show ?thesis
    using regs inv by (auto simp: push_regs_def Let_def stack_inv_def stack_list_def add.commute)
qed

text \<open>
  C38. The call stack. From a stack in order, pushing at most its capacity keeps it in order, keeps what
  was on it below the new values and grows the array when needed; popping removes the values again.
  Saving the registers pushes them and restoring them gives them back and the old stack. A push of
  more than twice the capacity leaves the top outside the array, since the array is doubled once.
\<close>

theorem call_stack_correct:
  assumes inv: "stack_inv s" and n: "n \<le> cs_capacity s" "NUM_REGS \<le> cs_capacity s"
    and junk: "cs_capacity s \<le> length junk" and regs: "length regs = NUM_REGS"
  shows "stack_inv (stack_push junk n s) \<and> drop n (stack_list (stack_push junk n s)) = stack_list s
    \<and> stack_list (stack_pop n (stack_push junk n s)) = stack_list s
    \<and> (\<exists>s1 s2. push_regs junk regs s = Some s1 \<and> stack_list s1 = regs @ stack_list s
        \<and> pop_regs s1 = Some (regs, s2) \<and> stack_inv s2 \<and> stack_list s2 = stack_list s)
    \<and> (\<forall>m. 2 * cs_capacity s < cs_size s + m \<longrightarrow> get_stack_at (stack_push junk m s) 0 = None)"
proof -
  note push = stack_push_list [OF inv n(1) junk]
  have pop: "stack_list (stack_pop n (stack_push junk n s)) = stack_list s"
    using push stack_pop_list [of "stack_push junk n s" n] by simp
  obtain s1 where s1: "push_regs junk regs s = Some s1" "stack_inv s1" "stack_list s1 = regs @ stack_list s"
    using push_regs_list [OF inv n(2) junk regs] by blast
  have sz: "NUM_REGS \<le> cs_size s1" using length_stack_list [OF s1(2)] s1(3) regs by simp
  have "pop_regs s1 = Some (regs, stack_pop NUM_REGS s1)"
    using s1 sz regs by (simp add: pop_regs_def stack_inv_def flip: stack_list_def)
  moreover have "stack_inv (stack_pop NUM_REGS s1) \<and> stack_list (stack_pop NUM_REGS s1) = stack_list s"
    using stack_pop_list [OF s1(2) sz] s1(3) regs by simp
  moreover have "get_stack_at (stack_push junk m s) 0 = None" if "2 * cs_capacity s < cs_size s + m" for m
    using that by (simp add: stack_push_def stack_expand_def Let_def get_stack_at_def stack_index_def)
  ultimately show ?thesis using push pop s1 by blast
qed

theorem call_stack_correct_witness:
  "stack_list (stack_pop 2 (stack_push (replicate 64 7) 2 (new_call_stack (replicate 64 0)))) = []
   \<and> get_stack_at (stack_push (replicate 64 7) 200 (new_call_stack (replicate 64 0))) 0 = None"
proof -
  let ?s = "new_call_stack (replicate 64 0)"
  have s: "stack_inv ?s" "stack_list ?s = []" "cs_capacity ?s = 64" "cs_size ?s = 0"
    using new_call_stack_inv [of "replicate 64 0"] by (simp_all add: new_call_stack_def)
  from call_stack_correct [of ?s 2 "replicate 64 7" "replicate 32 0"] s show ?thesis by simp
qed

end
