(* ===== verification/Vm_State.thy ===== *)
theory Vm_State
  imports Instr Call_Stack
begin

text \<open>
  The part of the execution state that data instructions work on (\<^verbatim>\<open>vm/state.hpp\<close>): the registers, the
  predicates of the tuples in registers, the call stack, the tuples the registers point to, the heap
  of runtime objects, the constants, and the lists of temporaries that hold a reference until the
  rule ends. Reading or writing a register, field or constant that does not exist is None.
\<close>

record vm_state =
  st_regs :: "tuple_field list"
  st_preds :: "predicate option list"
  st_stack :: call_stack
  st_tuples :: "ptr_val \<rightharpoonup> tuple_field list"
  st_heap :: heap
  st_consts :: "tuple_field list"
  st_free_addrs :: "ptr_val list"
  st_free_cons :: "(ptr_val \<times> vtype) list"
  st_free_struct :: "(ptr_val \<times> vtype) list"
  st_free_string :: "ptr_val list"
  st_free_array :: "(ptr_val \<times> vtype) list"
  st_free_set :: "(ptr_val \<times> vtype) list"
  st_arguments :: "ptr_val list"
  st_linear_generated :: nat
  st_persistent_generated :: nat
  st_linear_consumed :: nat
  st_current_rule :: nat
  st_is_linear :: bool
  st_junk :: "tuple_field list"

text \<open>
  What the instructions read from the program, the database and the scheduler. Arithmetic on
  doubles is a parameter, and so are the addresses of the type objects. An external function has its
  number of arguments and what it does to the state.
\<close>

record vm_env =
  ve_types :: "vtype list"
  ve_const_types :: "vtype list"
  ve_functions :: "pcounter list"
  ve_node :: node_val
  ve_node_id :: nat
  ve_static_max_id :: nat
  ve_sched :: ptr_val
  ve_nodes_total :: nat
  ve_num_threads :: nat
  ve_args :: "string list"
  ve_type_addr :: "nat \<Rightarrow> ptr_val"
  ve_first_custom :: nat
  ve_external :: "nat \<rightharpoonup> nat \<times> (tuple_field list \<Rightarrow> vm_state \<Rightarrow> (tuple_field \<times> vm_state) option)"
  ve_db :: db_env
  ve_fuel :: nat
  ve_add :: "float_val \<Rightarrow> float_val \<Rightarrow> float_val"
  ve_sub :: "float_val \<Rightarrow> float_val \<Rightarrow> float_val"
  ve_mul :: "float_val \<Rightarrow> float_val \<Rightarrow> float_val"
  ve_div :: "float_val \<Rightarrow> float_val \<Rightarrow> float_val"
  ve_of_int :: "int_val \<Rightarrow> float_val"

subsection \<open>Registers\<close>

definition get_reg :: "vm_state \<Rightarrow> nat \<Rightarrow> tuple_field option" where
  "get_reg st r = (if r < length (st_regs st) then Some (st_regs st ! r) else None)"

definition set_reg :: "nat \<Rightarrow> tuple_field \<Rightarrow> vm_state \<Rightarrow> vm_state option" where
  "set_reg r v st = (if r < length (st_regs st) then Some (st\<lparr>st_regs := (st_regs st)[r := v]\<rparr>) else None)"

definition get_int :: "vm_state \<Rightarrow> nat \<Rightarrow> int_val option" where
  "get_int st r = map_option field_int (get_reg st r)"

definition get_float :: "vm_state \<Rightarrow> nat \<Rightarrow> float_val option" where
  "get_float st r = map_option field_float (get_reg st r)"

definition get_ptr :: "vm_state \<Rightarrow> nat \<Rightarrow> ptr_val option" where
  "get_ptr st r = map_option field_ptr (get_reg st r)"

definition get_bool :: "vm_state \<Rightarrow> nat \<Rightarrow> bool option" where
  "get_bool st r = map_option field_bool (get_reg st r)"

definition get_node :: "vm_state \<Rightarrow> nat \<Rightarrow> node_val option" where
  "get_node st r = map_option field_node (get_reg st r)"

definition set_int :: "nat \<Rightarrow> int_val \<Rightarrow> vm_state \<Rightarrow> vm_state option" where
  "set_int r v st = do { f \<leftarrow> get_reg st r; set_reg r (set_field_int f v) st }"

definition set_float :: "nat \<Rightarrow> float_val \<Rightarrow> vm_state \<Rightarrow> vm_state option" where
  "set_float r v st = do { f \<leftarrow> get_reg st r; set_reg r (set_field_float f v) st }"

definition set_ptr :: "nat \<Rightarrow> ptr_val \<Rightarrow> vm_state \<Rightarrow> vm_state option" where
  "set_ptr r v st = do { f \<leftarrow> get_reg st r; set_reg r (set_field_ptr f v) st }"

definition set_bool :: "nat \<Rightarrow> bool \<Rightarrow> vm_state \<Rightarrow> vm_state option" where
  "set_bool r v st = do { f \<leftarrow> get_reg st r; set_reg r (set_field_bool f v) st }"

definition set_node :: "nat \<Rightarrow> node_val \<Rightarrow> vm_state \<Rightarrow> vm_state option" where
  "set_node r v st = do { f \<leftarrow> get_reg st r; set_reg r (set_field_node f v) st }"

definition set_nil :: "nat \<Rightarrow> vm_state \<Rightarrow> vm_state option" where
  "set_nil r st = set_ptr r 0 st"

definition copy_reg :: "nat \<Rightarrow> nat \<Rightarrow> vm_state \<Rightarrow> vm_state option" where
  "copy_reg from to st = do { v \<leftarrow> get_reg st from; set_reg to v st }"

subsection \<open>Tuples and objects\<close>

definition get_pred :: "vm_state \<Rightarrow> nat \<Rightarrow> predicate option" where
  "get_pred st r = (if r < length (st_preds st) then st_preds st ! r else None)"

definition field_type_of :: "predicate \<Rightarrow> nat \<Rightarrow> vtype option" where
  "field_type_of p i = (if i < length (p_types p) then Some (p_types p ! i) else None)"

text \<open>The tuple and the field number that a field operand in the code names.\<close>

definition get_tuple_field :: "vm_state \<Rightarrow> byte_code \<Rightarrow> pcounter \<Rightarrow> ptr_val option" where
  "get_tuple_field st code pc = do { r \<leftarrow> val_field_reg code pc; get_ptr st r }"

definition get_field :: "vm_state \<Rightarrow> ptr_val \<Rightarrow> nat \<Rightarrow> tuple_field option" where
  "get_field st tpl i =
     do { fs \<leftarrow> st_tuples st tpl; if i < length fs then Some (fs ! i) else None }"

definition set_field :: "ptr_val \<Rightarrow> nat \<Rightarrow> tuple_field \<Rightarrow> vm_state \<Rightarrow> vm_state option" where
  "set_field tpl i v st =
     do { fs \<leftarrow> st_tuples st tpl;
          if i < length fs then Some (st\<lparr>st_tuples := (st_tuples st)(tpl \<mapsto> fs[i := v])\<rparr>) else None }"

definition tuple_set_int :: "ptr_val \<Rightarrow> nat \<Rightarrow> int_val \<Rightarrow> vm_state \<Rightarrow> vm_state option" where
  "tuple_set_int tpl i v st = do { f \<leftarrow> get_field st tpl i; set_field tpl i (set_field_int f v) st }"

definition tuple_set_float :: "ptr_val \<Rightarrow> nat \<Rightarrow> float_val \<Rightarrow> vm_state \<Rightarrow> vm_state option" where
  "tuple_set_float tpl i v st = do { f \<leftarrow> get_field st tpl i; set_field tpl i (set_field_float f v) st }"

definition tuple_set_ptr :: "ptr_val \<Rightarrow> nat \<Rightarrow> ptr_val \<Rightarrow> vm_state \<Rightarrow> vm_state option" where
  "tuple_set_ptr tpl i v st = do { f \<leftarrow> get_field st tpl i; set_field tpl i (set_field_ptr f v) st }"

definition with_heap :: "(heap \<Rightarrow> heap option) \<Rightarrow> vm_state \<Rightarrow> vm_state option" where
  "with_heap f st = do { H \<leftarrow> f (st_heap st); Some (st\<lparr>st_heap := H\<rparr>) }"

definition tuple_set_node :: "vm_env \<Rightarrow> ptr_val \<Rightarrow> nat \<Rightarrow> node_val \<Rightarrow> vm_state \<Rightarrow> vm_state option" where
  "tuple_set_node E tpl i v st =
     (case h_objs (st_heap st) v of
        Some (r, NodeO nid q) \<Rightarrow>
          do { st \<leftarrow> (if \<not> is_initial_node (ve_db E) nid then with_heap (inc_refs v) st else Some st);
               tuple_set_ptr tpl i v st }
      | _ \<Rightarrow> None)"

definition tuple_set_cons :: "ptr_val \<Rightarrow> nat \<Rightarrow> ptr_val \<Rightarrow> vm_state \<Rightarrow> vm_state option" where
  "tuple_set_cons tpl i v st = do { st \<leftarrow> tuple_set_ptr tpl i v st; with_heap (cons_inc_refs v) st }"

definition tuple_set_struct :: "ptr_val \<Rightarrow> nat \<Rightarrow> ptr_val \<Rightarrow> vm_state \<Rightarrow> vm_state option" where
  "tuple_set_struct tpl i v st = do { st \<leftarrow> tuple_set_ptr tpl i v st; with_heap (inc_refs v) st }"

definition tuple_set_field_ref :: "vm_env \<Rightarrow> ptr_val \<Rightarrow> nat \<Rightarrow> tuple_field \<Rightarrow> predicate \<Rightarrow> vm_state \<Rightarrow> vm_state option" where
  "tuple_set_field_ref E tpl i v p st =
     do { fs \<leftarrow> st_tuples st tpl;
          (fs, H) \<leftarrow> set_field_ref (ve_db E) (ve_fuel E) i v (p_types p) fs (st_heap st);
          Some (st\<lparr>st_tuples := (st_tuples st)(tpl \<mapsto> fs), st_heap := H\<rparr>) }"

text \<open>The temporaries.\<close>

definition add_cons :: "ptr_val \<Rightarrow> vtype \<Rightarrow> vm_state \<Rightarrow> vm_state option" where
  "add_cons ls t st =
     do { st \<leftarrow> with_heap (inc_refs ls) st; Some (st\<lparr>st_free_cons := st_free_cons st @ [(ls, t)]\<rparr>) }"

definition add_struct :: "ptr_val \<Rightarrow> vtype \<Rightarrow> vm_state \<Rightarrow> vm_state option" where
  "add_struct s t st =
     do { st \<leftarrow> with_heap (inc_refs s) st; Some (st\<lparr>st_free_struct := st_free_struct st @ [(s, t)]\<rparr>) }"

definition next_addr :: "vm_state \<Rightarrow> (ptr_val \<times> vm_state) option" where
  "next_addr st = (case st_free_addrs st of [] \<Rightarrow> None | a # as \<Rightarrow> Some (a, st\<lparr>st_free_addrs := as\<rparr>))"

definition new_cons :: "vm_env \<Rightarrow> ptr_val \<Rightarrow> tuple_field \<Rightarrow> vtype \<Rightarrow> vm_state \<Rightarrow> (ptr_val \<times> vm_state) option" where
  "new_cons E tailp headf t st =
     do { (a, st) \<leftarrow> next_addr st;
          st \<leftarrow> with_heap (cons_create (ve_db E) a tailp headf t 0) st;
          Some (a, st) }"

definition get_const :: "vm_state \<Rightarrow> nat \<Rightarrow> tuple_field option" where
  "get_const st i = (if i < length (st_consts st) then Some (st_consts st ! i) else None)"

definition set_const :: "nat \<Rightarrow> tuple_field \<Rightarrow> vm_state \<Rightarrow> vm_state option" where
  "set_const i v st = (if i < length (st_consts st) then Some (st\<lparr>st_consts := (st_consts st)[i := v]\<rparr>) else None)"

definition set_const_int :: "nat \<Rightarrow> int_val \<Rightarrow> vm_state \<Rightarrow> vm_state option" where
  "set_const_int i v st = do { f \<leftarrow> get_const st i; set_const i (set_field_int f v) st }"

definition lookup_type :: "vm_env \<Rightarrow> nat \<Rightarrow> vtype option" where
  "lookup_type E i = (if i < length (ve_types E) then Some (ve_types E ! i) else None)"

definition list_subtype :: "vtype \<Rightarrow> vtype option" where
  "list_subtype t = (case t of ListT s \<Rightarrow> Some s | _ \<Rightarrow> None)"

definition struct_types :: "vtype \<Rightarrow> vtype list option" where
  "struct_types t = (case t of StructT ts \<Rightarrow> Some ts | _ \<Rightarrow> None)"

definition struct_get_data :: "heap \<Rightarrow> ptr_val \<Rightarrow> nat \<Rightarrow> tuple_field option" where
  "struct_get_data H s i =
     (case h_objs H s of Some (r, StructO fs) \<Rightarrow> if i < length fs then Some (fs ! i) else None | _ \<Rightarrow> None)"

text \<open>\<^verbatim>\<open>set_data\<close> for all fields of a new struct.\<close>

fun increment_fields :: "db_env \<Rightarrow> tuple_field list \<Rightarrow> vtype list \<Rightarrow> heap \<Rightarrow> heap option" where
  "increment_fields env (f # fs) (t # ts) H =
     do { ft \<leftarrow> get_type t; H \<leftarrow> increment_runtime_data env f ft H; increment_fields env fs ts H }"
| "increment_fields env _ _ H = Some H"

definition new_struct :: "vm_env \<Rightarrow> vtype list \<Rightarrow> vm_state \<Rightarrow> (ptr_val \<times> vm_state) option" where
  "new_struct E ts st =
     do { (a, st) \<leftarrow> next_addr st;
          vs \<leftarrow> those (map (get_stack_at (st_stack st)) [0..<length ts]);
          st \<leftarrow> with_heap (\<lambda>H. increment_fields (ve_db E) vs ts (set_obj a (0, StructO vs) H)) st;
          Some (a, st\<lparr>st_stack := stack_pop (length ts) (st_stack st)\<rparr>) }"

lemma get_set_reg_same: "set_reg r v st = Some st' \<Longrightarrow> get_reg st' r = Some v"
  by (auto simp: set_reg_def get_reg_def split: if_splits)

lemma get_set_reg_other: "set_reg r v st = Some st' \<Longrightarrow> q \<noteq> r \<Longrightarrow> get_reg st' q = get_reg st q"
  by (auto simp: set_reg_def get_reg_def split: if_splits)

end
