(* ===== verification/Exec_Data.thy ===== *)
theory Exec_Data
  imports Vm_State "HOL-Library.Signed_Division"
begin

text \<open>
  The instructions that compute and move data (\<^verbatim>\<open>vm/exec.cpp\<close>): arithmetic and comparisons,
  moves between registers, tuple fields, constants and the stack, structs, heads and tails of lists,
  new list cells, and calls of external functions. Each \<^verbatim>\<open>execute_...\<close> function is a definition of
  the same name. None stands for undefined behaviour (a register, field, address or byte outside
  its range, division by zero) and for the exceptions the functions throw.
\<close>

type_synonym instruction = "vm_env \<Rightarrow> byte_code \<Rightarrow> pcounter \<Rightarrow> vm_state \<Rightarrow> vm_state option"

subsection \<open>Operands\<close>

text \<open>A field operand: the tuple and the number of the field; and the predicate of that tuple.\<close>

definition field_operand :: "vm_state \<Rightarrow> byte_code \<Rightarrow> pcounter \<Rightarrow> (ptr_val \<times> nat) option" where
  "field_operand st code pc =
     do { tpl \<leftarrow> get_tuple_field st code pc; i \<leftarrow> val_field_num code pc; Some (tpl, i) }"

definition field_pred :: "vm_state \<Rightarrow> byte_code \<Rightarrow> pcounter \<Rightarrow> predicate option" where
  "field_pred st code pc = do { r \<leftarrow> val_field_reg code pc; get_pred st r }"

definition read_field :: "vm_state \<Rightarrow> byte_code \<Rightarrow> pcounter \<Rightarrow> tuple_field option" where
  "read_field st code pc = do { (tpl, i) \<leftarrow> field_operand st code pc; get_field st tpl i }"

definition write_field :: "byte_code \<Rightarrow> pcounter \<Rightarrow> tuple_field \<Rightarrow> vm_state \<Rightarrow> vm_state option" where
  "write_field code pc v st = do { (tpl, i) \<leftarrow> field_operand st code pc; set_field tpl i v st }"

definition read_reg :: "vm_state \<Rightarrow> byte_code \<Rightarrow> pcounter \<Rightarrow> tuple_field option" where
  "read_reg st code pc = do { r \<leftarrow> pcounter_reg code pc; get_reg st r }"

definition write_reg :: "byte_code \<Rightarrow> pcounter \<Rightarrow> tuple_field \<Rightarrow> vm_state \<Rightarrow> vm_state option" where
  "write_reg code pc v st = do { r \<leftarrow> pcounter_reg code pc; set_reg r v st }"

lemmas field_access_defs = field_operand_def field_pred_def read_field_def write_field_def read_reg_def write_reg_def

subsection \<open>Arithmetic and comparisons\<close>

definition do_operation ::
  "(nat \<Rightarrow> 'b \<Rightarrow> vm_state \<Rightarrow> vm_state option) \<Rightarrow> (vm_state \<Rightarrow> nat \<Rightarrow> 'a option) \<Rightarrow> ('a \<Rightarrow> 'a \<Rightarrow> 'b option)
   \<Rightarrow> byte_code \<Rightarrow> pcounter \<Rightarrow> vm_state \<Rightarrow> vm_state option" where
  "do_operation set_function get_function f code pc st =
     do { op1 \<leftarrow> pcounter_reg code (pc + instr_size);
          op2 \<leftarrow> pcounter_reg code (pc + instr_size + reg_val_size);
          dst \<leftarrow> pcounter_reg code (pc + instr_size + 2 * reg_val_size);
          a \<leftarrow> get_function st op1; b \<leftarrow> get_function st op2; v \<leftarrow> f a b;
          set_function dst v st }"

text \<open>
  Division of \<^verbatim>\<open>int\<close> rounds towards zero; dividing by zero, or the least integer by \<open>-1\<close>, is undefined
  (the x86-64 instruction traps). The other operations wrap around.
\<close>

definition int_div_ok :: "int_val \<Rightarrow> int_val \<Rightarrow> bool" where
  "int_div_ok a b \<longleftrightarrow> b \<noteq> 0 \<and> \<not> (sint a = - (2 ^ 31) \<and> sint b = - 1)"

definition int_div :: "int_val \<Rightarrow> int_val \<Rightarrow> int_val option" where
  "int_div a b = (if int_div_ok a b then Some (word_of_int (sint a sdiv sint b)) else None)"

definition int_mod :: "int_val \<Rightarrow> int_val \<Rightarrow> int_val option" where
  "int_mod a b = (if int_div_ok a b then Some (word_of_int (sint a smod sint b)) else None)"

definition execute_addrnotequal :: instruction where
  "execute_addrnotequal E = do_operation set_bool get_node (\<lambda>a b. Some (a \<noteq> b))"
definition execute_addrequal :: instruction where
  "execute_addrequal E = do_operation set_bool get_node (\<lambda>a b. Some (a = b))"
definition execute_intminus :: instruction where
  "execute_intminus E = do_operation set_int get_int (\<lambda>a b. Some (a - b))"
definition execute_intequal :: instruction where
  "execute_intequal E = do_operation set_int get_int (\<lambda>a b. Some (of_bool (a = b)))"
definition execute_intnotequal :: instruction where
  "execute_intnotequal E = do_operation set_int get_int (\<lambda>a b. Some (of_bool (a \<noteq> b)))"
definition execute_intplus :: instruction where
  "execute_intplus E = do_operation set_int get_int (\<lambda>a b. Some (a + b))"
definition execute_intlesser :: instruction where
  "execute_intlesser E = do_operation set_bool get_int (\<lambda>a b. Some (sint a < sint b))"
definition execute_intgreaterequal :: instruction where
  "execute_intgreaterequal E = do_operation set_bool get_int (\<lambda>a b. Some (sint a \<ge> sint b))"
definition execute_boolor :: instruction where
  "execute_boolor E = do_operation set_bool get_bool (\<lambda>a b. Some (a \<or> b))"
definition execute_intlesserequal :: instruction where
  "execute_intlesserequal E = do_operation set_bool get_int (\<lambda>a b. Some (sint a \<le> sint b))"
definition execute_intgreater :: instruction where
  "execute_intgreater E = do_operation set_bool get_int (\<lambda>a b. Some (sint a > sint b))"
definition execute_intmul :: instruction where
  "execute_intmul E = do_operation set_int get_int (\<lambda>a b. Some (a * b))"
definition execute_intdiv :: instruction where
  "execute_intdiv E = do_operation set_int get_int int_div"
definition execute_intmod :: instruction where
  "execute_intmod E = do_operation set_int get_int int_mod"
definition execute_floatplus :: instruction where
  "execute_floatplus E = do_operation set_float get_float (\<lambda>a b. Some (ve_add E a b))"
definition execute_floatminus :: instruction where
  "execute_floatminus E = do_operation set_float get_float (\<lambda>a b. Some (ve_sub E a b))"
definition execute_floatmul :: instruction where
  "execute_floatmul E = do_operation set_float get_float (\<lambda>a b. Some (ve_mul E a b))"
definition execute_floatdiv :: instruction where
  "execute_floatdiv E = do_operation set_float get_float (\<lambda>a b. Some (ve_div E a b))"
definition execute_floatequal :: instruction where
  "execute_floatequal E = do_operation set_bool get_float (\<lambda>a b. Some (float_eq a b))"
definition execute_floatnotequal :: instruction where
  "execute_floatnotequal E = do_operation set_bool get_float (\<lambda>a b. Some (\<not> float_eq a b))"
definition execute_floatlesser :: instruction where
  "execute_floatlesser E = do_operation set_bool get_float (\<lambda>a b. Some (float_lt a b))"
definition execute_floatlesserequal :: instruction where
  "execute_floatlesserequal E = do_operation set_bool get_float (\<lambda>a b. Some (float_le a b))"
definition execute_floatgreater :: instruction where
  "execute_floatgreater E = do_operation set_bool get_float (\<lambda>a b. Some (float_lt b a))"
definition execute_floatgreaterequal :: instruction where
  "execute_floatgreaterequal E = do_operation set_bool get_float (\<lambda>a b. Some (float_le b a))"
definition execute_boolequal :: instruction where
  "execute_boolequal E = do_operation set_bool get_bool (\<lambda>a b. Some (a = b))"
definition execute_boolnotequal :: instruction where
  "execute_boolnotequal E = do_operation set_bool get_bool (\<lambda>a b. Some (a \<noteq> b))"

definition execute_not :: instruction where
  "execute_not E code pc st =
     do { r \<leftarrow> not_op code pc; dest \<leftarrow> not_dest code pc; b \<leftarrow> get_bool st r; set_bool dest (\<not> b) st }"

definition execute_testnil :: instruction where
  "execute_testnil E code pc st =
     do { r \<leftarrow> test_nil_op code pc; dest \<leftarrow> test_nil_dest code pc; x \<leftarrow> get_ptr st r; set_bool dest (x = 0) st }"

definition execute_float :: instruction where
  "execute_float E code pc st =
     do { src \<leftarrow> pcounter_reg code (pc + instr_size); dst \<leftarrow> pcounter_reg code (pc + instr_size + reg_val_size);
          i \<leftarrow> get_int st src; set_float dst (ve_of_int E i) st }"

text \<open>\<^verbatim>\<open>fabs\<close> clears the sign bit.\<close>

definition execute_fabs :: instruction where
  "execute_fabs E code pc st =
     do { src \<leftarrow> pcounter_reg code (pc + instr_size); dst \<leftarrow> pcounter_reg code (pc + instr_size + reg_val_size);
          x \<leftarrow> get_float st src; set_float dst (take_bit 63 x) st }"

subsection \<open>Moves\<close>

definition execute_mvintfield :: instruction where
  "execute_mvintfield E code pc st =
     do { (tpl, i) \<leftarrow> field_operand st code (pc + instr_size + int_size);
          v \<leftarrow> pcounter_int code (pc + instr_size); tuple_set_int tpl i v st }"

definition execute_mvintreg :: instruction where
  "execute_mvintreg E code pc st =
     do { r \<leftarrow> pcounter_reg code (pc + instr_size + int_size);
          v \<leftarrow> pcounter_int code (pc + instr_size); set_int r v st }"

definition execute_mvtypereg :: instruction where
  "execute_mvtypereg E code pc st =
     do { i \<leftarrow> pcounter_int code (pc + instr_size); t \<leftarrow> lookup_type E (unat i);
          r \<leftarrow> pcounter_reg code (pc + instr_size + int_size); set_ptr r (ve_type_addr E (unat i)) st }"

definition execute_mvfieldfield :: instruction where
  "execute_mvfieldfield E code pc st =
     do { v \<leftarrow> read_field st code (pc + instr_size); write_field code (pc + instr_size + field_size) v st }"

definition execute_mvfieldfieldr :: instruction where
  "execute_mvfieldfieldr E code pc st =
     do { v \<leftarrow> read_field st code (pc + instr_size);
          (tpl, i) \<leftarrow> field_operand st code (pc + instr_size + field_size);
          p \<leftarrow> field_pred st code (pc + instr_size + field_size);
          tuple_set_field_ref E tpl i v p st }"

definition execute_mvfieldreg :: instruction where
  "execute_mvfieldreg E code pc st =
     do { v \<leftarrow> read_field st code (pc + instr_size); write_reg code (pc + instr_size + field_size) v st }"

definition execute_mvptrreg :: instruction where
  "execute_mvptrreg E code pc st =
     do { p \<leftarrow> pcounter_ptr code (pc + instr_size); r \<leftarrow> pcounter_reg code (pc + instr_size + ptr_size); set_ptr r p st }"

definition execute_mvnilfield :: instruction where
  "execute_mvnilfield E code pc st =
     do { (tpl, i) \<leftarrow> field_operand st code (pc + instr_size); tuple_set_ptr tpl i 0 st }"

definition execute_mvnilreg :: instruction where
  "execute_mvnilreg E code pc st = do { r \<leftarrow> pcounter_reg code (pc + instr_size); set_nil r st }"

definition execute_mvregfield :: instruction where
  "execute_mvregfield E code pc st =
     do { v \<leftarrow> read_reg st code (pc + instr_size); write_field code (pc + instr_size + reg_val_size) v st }"

definition execute_mvregfieldr :: instruction where
  "execute_mvregfieldr E code pc st =
     do { v \<leftarrow> read_reg st code (pc + instr_size);
          p \<leftarrow> field_pred st code (pc + instr_size + reg_val_size);
          (tpl, i) \<leftarrow> field_operand st code (pc + instr_size + reg_val_size);
          tuple_set_field_ref E tpl i v p st }"

definition execute_mvhostfield :: instruction where
  "execute_mvhostfield E code pc st =
     do { (tpl, i) \<leftarrow> field_operand st code (pc + instr_size); tuple_set_node E tpl i (ve_node E) st }"

definition execute_mvthreadidreg :: instruction where
  "execute_mvthreadidreg E code pc st = do { r \<leftarrow> pcounter_reg code (pc + instr_size); set_ptr r (ve_sched E) st }"

definition execute_mvthreadidfield :: instruction where
  "execute_mvthreadidfield E code pc st =
     do { (tpl, i) \<leftarrow> field_operand st code (pc + instr_size); tuple_set_ptr tpl i (ve_sched E) st }"

definition execute_mvregconst :: instruction where
  "execute_mvregconst E code pc st =
     do { c \<leftarrow> pcounter_const_id code (pc + instr_size + reg_val_size);
          v \<leftarrow> read_reg st code (pc + instr_size);
          st \<leftarrow> set_const c v st;
          t \<leftarrow> (if c < length (ve_const_types E) then get_type (ve_const_types E ! c) else None);
          with_heap (increment_runtime_data (ve_db E) v t) st }"

definition execute_mvconstfield :: instruction where
  "execute_mvconstfield E code pc st =
     do { c \<leftarrow> pcounter_const_id code (pc + instr_size); v \<leftarrow> get_const st c;
          write_field code (pc + instr_size + const_id_size) v st }"

definition execute_mvconstfieldr :: instruction where
  "execute_mvconstfieldr E code pc st =
     do { c \<leftarrow> pcounter_const_id code (pc + instr_size);
          p \<leftarrow> field_pred st code (pc + instr_size + const_id_size);
          (tpl, i) \<leftarrow> field_operand st code (pc + instr_size + const_id_size);
          v \<leftarrow> get_const st c; tuple_set_field_ref E tpl i v p st }"

definition execute_mvconstreg :: instruction where
  "execute_mvconstreg E code pc st =
     do { c \<leftarrow> pcounter_const_id code (pc + instr_size); v \<leftarrow> get_const st c;
          write_reg code (pc + instr_size + const_id_size) v st }"

definition write_stack :: "nat \<Rightarrow> tuple_field \<Rightarrow> vm_state \<Rightarrow> vm_state option" where
  "write_stack off v st = do { s \<leftarrow> set_stack_at off v (st_stack st); Some (st\<lparr>st_stack := s\<rparr>) }"

definition execute_mvintstack :: instruction where
  "execute_mvintstack E code pc st =
     do { v \<leftarrow> pcounter_int code (pc + instr_size); off \<leftarrow> pcounter_stack code (pc + instr_size + int_size);
          f \<leftarrow> get_stack_at (st_stack st) off; write_stack off (set_field_int f v) st }"

text \<open>\<^verbatim>\<open>get_argument\<close> makes the string of a program argument on its first use; arguments count from 1.\<close>

definition get_argument :: "vm_env \<Rightarrow> nat \<Rightarrow> vm_state \<Rightarrow> (ptr_val \<times> vm_state) option" where
  "get_argument E k st =
     (if 1 \<le> k \<and> k \<le> length (st_arguments st) \<and> k \<le> length (ve_args E) then
        if st_arguments st ! (k - 1) = 0 then
          do { (a, st) \<leftarrow> next_addr st;
               Some (a, st\<lparr>st_heap := set_obj a (0, StringO (ve_args E ! (k - 1))) (st_heap st),
                           st_arguments := (st_arguments st)[k - 1 := a]\<rparr>) }
        else Some (st_arguments st ! (k - 1), st)
      else None)"

definition execute_mvargreg :: instruction where
  "execute_mvargreg E code pc st =
     do { k \<leftarrow> pcounter_argument_id code (pc + instr_size); r \<leftarrow> pcounter_reg code (pc + instr_size + argument_size);
          (a, st) \<leftarrow> get_argument E k st; set_ptr r a st }"

definition execute_mvfloatstack :: instruction where
  "execute_mvfloatstack E code pc st =
     do { v \<leftarrow> pcounter_float code (pc + instr_size); off \<leftarrow> pcounter_stack code (pc + instr_size + float_size);
          f \<leftarrow> get_stack_at (st_stack st) off; write_stack off (set_field_float f v) st }"

definition execute_mvaddrfield :: instruction where
  "execute_mvaddrfield E code pc st =
     do { n \<leftarrow> pcounter_node code (pc + instr_size);
          (tpl, i) \<leftarrow> field_operand st code (pc + instr_size + node_size); tuple_set_node E tpl i n st }"

definition execute_mvfloatfield :: instruction where
  "execute_mvfloatfield E code pc st =
     do { v \<leftarrow> pcounter_float code (pc + instr_size);
          (tpl, i) \<leftarrow> field_operand st code (pc + instr_size + float_size); tuple_set_float tpl i v st }"

definition execute_mvfloatreg :: instruction where
  "execute_mvfloatreg E code pc st =
     do { v \<leftarrow> pcounter_float code (pc + instr_size); r \<leftarrow> pcounter_reg code (pc + instr_size + float_size); set_float r v st }"

definition execute_mvintconst :: instruction where
  "execute_mvintconst E code pc st =
     do { v \<leftarrow> pcounter_int code (pc + instr_size); c \<leftarrow> pcounter_const_id code (pc + instr_size + int_size);
          set_const_int c v st }"

definition execute_mvworldfield :: instruction where
  "execute_mvworldfield E code pc st =
     do { (tpl, i) \<leftarrow> field_operand st code (pc + instr_size); tuple_set_int tpl i (of_nat (ve_nodes_total E)) st }"

definition execute_mvworldreg :: instruction where
  "execute_mvworldreg E code pc st =
     do { r \<leftarrow> pcounter_reg code (pc + instr_size); set_int r (of_nat (ve_nodes_total E)) st }"

definition execute_mvcpusreg :: instruction where
  "execute_mvcpusreg E code pc st =
     do { r \<leftarrow> pcounter_reg code (pc + instr_size); set_int r (of_nat (ve_num_threads E)) st }"

definition execute_mvstackpcounter :: "byte_code \<Rightarrow> pcounter \<Rightarrow> vm_state \<Rightarrow> pcounter option" where
  "execute_mvstackpcounter code pc st =
     do { off \<leftarrow> pcounter_stack code (pc + instr_size); f \<leftarrow> get_stack_at (st_stack st) off;
          Some (unat (field_ptr f) + CALLF_BASE) }"

definition execute_mvpcounterstack :: instruction where
  "execute_mvpcounterstack E code pc st =
     do { off \<leftarrow> pcounter_stack code (pc + instr_size); f \<leftarrow> get_stack_at (st_stack st) off;
          write_stack off (set_field_ptr f (of_nat (pc + MVPCOUNTERSTACK_BASE))) st }"

definition execute_mvstackreg :: instruction where
  "execute_mvstackreg E code pc st =
     do { off \<leftarrow> pcounter_stack code (pc + instr_size); f \<leftarrow> get_stack_at (st_stack st) off;
          write_reg code (pc + instr_size + stack_val_size) f st }"

definition execute_mvstackfield :: instruction where
  "execute_mvstackfield E code pc st =
     do { off \<leftarrow> pcounter_stack code (pc + instr_size); f \<leftarrow> get_stack_at (st_stack st) off;
          write_field code (pc + instr_size + reg_val_size) f st }"

definition execute_mvregstack :: instruction where
  "execute_mvregstack E code pc st =
     do { v \<leftarrow> read_reg st code (pc + instr_size); off \<leftarrow> pcounter_stack code (pc + instr_size + reg_val_size);
          write_stack off v st }"

definition execute_mvaddrreg :: instruction where
  "execute_mvaddrreg E code pc st =
     do { n \<leftarrow> pcounter_node code (pc + instr_size); r \<leftarrow> pcounter_reg code (pc + instr_size + node_size); set_node r n st }"

definition execute_mvhostreg :: instruction where
  "execute_mvhostreg E code pc st = do { r \<leftarrow> pcounter_reg code (pc + instr_size); set_node r (ve_node E) st }"

definition execute_mvregreg :: instruction where
  "execute_mvregreg E code pc st =
     do { from \<leftarrow> pcounter_reg code (pc + instr_size); to \<leftarrow> pcounter_reg code (pc + instr_size + reg_val_size);
          copy_reg from to st }"

end
