(* ===== verification/Exec_Lists.thy ===== *)
theory Exec_Lists
  imports Exec_Data
begin

text \<open>
  The instructions on structs and lists and the calls of external functions (\<^verbatim>\<open>vm/exec.cpp\<close>). A new
  object is placed at the next address the allocator hands out.
\<close>

subsection \<open>Structs\<close>

definition execute_make_structr :: instruction where
  "execute_make_structr E code pc st =
     do { ty \<leftarrow> make_structr_type code pc; t \<leftarrow> lookup_type E ty; ts \<leftarrow> struct_types t;
          to \<leftarrow> pcounter_reg code (pc + instr_size + type_size_code);
          (s, st) \<leftarrow> new_struct E ts st;
          st \<leftarrow> set_ptr to s st;
          add_struct s t st }"

definition execute_make_structf :: instruction where
  "execute_make_structf E code pc st =
     do { p \<leftarrow> field_pred st code (pc + instr_size);
          (tpl, i) \<leftarrow> field_operand st code (pc + instr_size);
          t \<leftarrow> field_type_of p i; ts \<leftarrow> struct_types t;
          (s, st) \<leftarrow> new_struct E ts st;
          tuple_set_struct tpl i s st }"

definition execute_struct_valrr :: instruction where
  "execute_struct_valrr E code pc st =
     do { idx \<leftarrow> struct_val_idx code pc; s \<leftarrow> read_reg st code (pc + instr_size + count_size);
          v \<leftarrow> struct_get_data (st_heap st) (field_ptr s) idx;
          write_reg code (pc + instr_size + count_size + reg_val_size) v st }"

definition execute_struct_valfr :: instruction where
  "execute_struct_valfr E code pc st =
     do { idx \<leftarrow> struct_val_idx code pc; s \<leftarrow> read_field st code (pc + instr_size + count_size);
          v \<leftarrow> struct_get_data (st_heap st) (field_ptr s) idx;
          write_reg code (pc + instr_size + count_size + field_size) v st }"

definition execute_struct_valrf :: instruction where
  "execute_struct_valrf E code pc st =
     do { idx \<leftarrow> struct_val_idx code pc; s \<leftarrow> read_reg st code (pc + instr_size + count_size);
          v \<leftarrow> struct_get_data (st_heap st) (field_ptr s) idx;
          write_field code (pc + instr_size + count_size + reg_val_size) v st }"

definition execute_struct_valrfr :: instruction where
  "execute_struct_valrfr E code pc st =
     do { idx \<leftarrow> struct_val_idx code pc; s \<leftarrow> read_reg st code (pc + instr_size + count_size);
          v \<leftarrow> struct_get_data (st_heap st) (field_ptr s) idx;
          st \<leftarrow> write_field code (pc + instr_size + count_size + reg_val_size) v st;
          with_heap (do_increment_runtime (ve_db E) v FIELD_STRUCT) st }"

text \<open>The variants from field to field do not read the index: they copy the struct itself.\<close>

definition execute_struct_valff :: instruction where
  "execute_struct_valff E code pc st =
     do { v \<leftarrow> read_field st code (pc + instr_size + count_size);
          write_field code (pc + instr_size + count_size + field_size) v st }"

definition execute_struct_valffr :: instruction where
  "execute_struct_valffr E code pc st =
     do { v \<leftarrow> read_field st code (pc + instr_size + count_size);
          st \<leftarrow> write_field code (pc + instr_size + count_size + field_size) v st;
          with_heap (do_increment_runtime (ve_db E) v FIELD_STRUCT) st }"

subsection \<open>Heads and tails\<close>

definition execute_headrr :: instruction where
  "execute_headrr E code pc st =
     do { l \<leftarrow> read_reg st code (pc + instr_size); h \<leftarrow> get_head (st_heap st) (field_ptr l);
          write_reg code (pc + instr_size + reg_val_size) h st }"

definition execute_headfr :: instruction where
  "execute_headfr E code pc st =
     do { l \<leftarrow> read_field st code (pc + instr_size); h \<leftarrow> get_head (st_heap st) (field_ptr l);
          write_reg code (pc + instr_size + field_size) h st }"

definition execute_headff :: instruction where
  "execute_headff E code pc st =
     do { l \<leftarrow> read_field st code (pc + instr_size); h \<leftarrow> get_head (st_heap st) (field_ptr l);
          write_field code (pc + instr_size + field_size) h st }"

definition execute_headffr :: instruction where
  "execute_headffr E code pc st =
     do { l \<leftarrow> read_field st code (pc + instr_size); h \<leftarrow> get_head (st_heap st) (field_ptr l);
          st \<leftarrow> write_field code (pc + instr_size + field_size) h st;
          with_heap (do_increment_runtime (ve_db E) h FIELD_LIST) st }"

definition execute_headrf :: instruction where
  "execute_headrf E code pc st =
     do { l \<leftarrow> read_reg st code (pc + instr_size); h \<leftarrow> get_head (st_heap st) (field_ptr l);
          write_field code (pc + instr_size + reg_val_size) h st }"

definition execute_headrfr :: instruction where
  "execute_headrfr E code pc st =
     do { l \<leftarrow> read_reg st code (pc + instr_size); h \<leftarrow> get_head (st_heap st) (field_ptr l);
          st \<leftarrow> write_field code (pc + instr_size + reg_val_size) h st;
          with_heap (do_increment_runtime (ve_db E) h FIELD_LIST) st }"

definition execute_tailrr :: instruction where
  "execute_tailrr E code pc st =
     do { l \<leftarrow> read_reg st code (pc + instr_size); r \<leftarrow> pcounter_reg code (pc + instr_size + reg_val_size);
          t \<leftarrow> get_tail (st_heap st) (field_ptr l); set_ptr r t st }"

definition execute_tailfr :: instruction where
  "execute_tailfr E code pc st =
     do { l \<leftarrow> read_field st code (pc + instr_size); r \<leftarrow> pcounter_reg code (pc + instr_size + field_size);
          t \<leftarrow> get_tail (st_heap st) (field_ptr l); set_ptr r t st }"

definition execute_tailff :: instruction where
  "execute_tailff E code pc st =
     do { l \<leftarrow> read_field st code (pc + instr_size);
          (tpl, i) \<leftarrow> field_operand st code (pc + instr_size + field_size);
          t \<leftarrow> get_tail (st_heap st) (field_ptr l); tuple_set_cons tpl i t st }"

definition execute_tailrf :: instruction where
  "execute_tailrf E code pc st =
     do { l \<leftarrow> read_reg st code (pc + instr_size);
          (tpl, i) \<leftarrow> field_operand st code (pc + instr_size + reg_val_size);
          t \<leftarrow> get_tail (st_heap st) (field_ptr l); tuple_set_cons tpl i t st }"

subsection \<open>New list cells\<close>

text \<open>
  What the eight variants share: a cell for the list type \<open>lt\<close>, kept alive by the list of temporaries
  when the instruction asks for it.
\<close>

definition cons_to_reg :: "vm_env \<Rightarrow> vtype \<Rightarrow> tuple_field \<Rightarrow> tuple_field \<Rightarrow> nat \<Rightarrow> bool \<Rightarrow> vm_state \<Rightarrow> vm_state option" where
  "cons_to_reg E lt headf tailf dest gc st =
     do { t \<leftarrow> list_subtype lt;
          (c, st) \<leftarrow> new_cons E (field_ptr tailf) headf t st;
          st \<leftarrow> (if gc then add_cons c lt st else Some st);
          set_ptr dest c st }"

definition cons_to_field :: "vm_env \<Rightarrow> vtype \<Rightarrow> tuple_field \<Rightarrow> tuple_field \<Rightarrow> ptr_val \<Rightarrow> nat \<Rightarrow> vm_state \<Rightarrow> vm_state option" where
  "cons_to_field E lt headf tailf tpl i st =
     do { t \<leftarrow> list_subtype lt;
          (c, st) \<leftarrow> new_cons E (field_ptr tailf) headf t st;
          tuple_set_cons tpl i c st }"

definition execute_consrrr :: instruction where
  "execute_consrrr E code pc st =
     do { h \<leftarrow> read_reg st code (pc + instr_size + type_size_code);
          t \<leftarrow> read_reg st code (pc + instr_size + type_size_code + reg_val_size);
          dest \<leftarrow> pcounter_reg code (pc + instr_size + type_size_code + 2 * reg_val_size);
          gc \<leftarrow> pcounter_bool code (pc + instr_size + type_size_code + 3 * reg_val_size);
          ty \<leftarrow> cons_type code pc; lt \<leftarrow> lookup_type E ty;
          cons_to_reg E lt h t dest gc st }"

definition execute_consrff :: instruction where
  "execute_consrff E code pc st =
     do { h \<leftarrow> read_reg st code (pc + instr_size);
          p \<leftarrow> field_pred st code (pc + instr_size + reg_val_size);
          (ttpl, ti) \<leftarrow> field_operand st code (pc + instr_size + reg_val_size);
          t \<leftarrow> get_field st ttpl ti;
          (tpl, i) \<leftarrow> field_operand st code (pc + instr_size + reg_val_size + field_size);
          lt \<leftarrow> field_type_of p ti;
          cons_to_field E lt h t tpl i st }"

definition execute_consfrf :: instruction where
  "execute_consfrf E code pc st =
     do { h \<leftarrow> read_field st code (pc + instr_size);
          t \<leftarrow> read_reg st code (pc + instr_size + field_size);
          p \<leftarrow> field_pred st code (pc + instr_size + field_size + reg_val_size);
          (tpl, i) \<leftarrow> field_operand st code (pc + instr_size + field_size + reg_val_size);
          lt \<leftarrow> field_type_of p i;
          cons_to_field E lt h t tpl i st }"

definition execute_consffr :: instruction where
  "execute_consffr E code pc st =
     do { h \<leftarrow> read_field st code (pc + instr_size);
          p \<leftarrow> field_pred st code (pc + instr_size + field_size);
          (ttpl, ti) \<leftarrow> field_operand st code (pc + instr_size + field_size);
          t \<leftarrow> get_field st ttpl ti;
          dest \<leftarrow> pcounter_reg code (pc + instr_size + 2 * field_size);
          gc \<leftarrow> pcounter_bool code (pc + instr_size + 2 * field_size + reg_val_size);
          lt \<leftarrow> field_type_of p ti;
          cons_to_reg E lt h t dest gc st }"

definition execute_consrrf :: instruction where
  "execute_consrrf E code pc st =
     do { h \<leftarrow> read_reg st code (pc + instr_size);
          t \<leftarrow> read_reg st code (pc + instr_size + reg_val_size);
          (tpl, i) \<leftarrow> field_operand st code (pc + instr_size + 2 * reg_val_size);
          p \<leftarrow> field_pred st code (pc + instr_size + 2 * reg_val_size);
          lt \<leftarrow> field_type_of p i;
          cons_to_field E lt h t tpl i st }"

definition execute_consrfr :: instruction where
  "execute_consrfr E code pc st =
     do { h \<leftarrow> read_reg st code (pc + instr_size);
          (ttpl, ti) \<leftarrow> field_operand st code (pc + instr_size + reg_val_size);
          t \<leftarrow> get_field st ttpl ti;
          p \<leftarrow> field_pred st code (pc + instr_size + reg_val_size);
          dest \<leftarrow> pcounter_reg code (pc + instr_size + reg_val_size + field_size);
          gc \<leftarrow> pcounter_bool code (pc + instr_size + reg_val_size + field_size + reg_val_size);
          lt \<leftarrow> field_type_of p ti;
          cons_to_reg E lt h t dest gc st }"

definition execute_consfrr :: instruction where
  "execute_consfrr E code pc st =
     do { h \<leftarrow> read_field st code (pc + instr_size + type_size_code);
          t \<leftarrow> read_reg st code (pc + instr_size + type_size_code + field_size);
          dest \<leftarrow> pcounter_reg code (pc + instr_size + type_size_code + field_size + reg_val_size);
          gc \<leftarrow> pcounter_bool code (pc + instr_size + type_size_code + field_size + 2 * reg_val_size);
          ty \<leftarrow> cons_type code pc; lt \<leftarrow> lookup_type E ty;
          cons_to_reg E lt h t dest gc st }"

definition execute_consfff :: instruction where
  "execute_consfff E code pc st =
     do { h \<leftarrow> read_field st code (pc + instr_size);
          (ttpl, ti) \<leftarrow> field_operand st code (pc + instr_size + field_size);
          t \<leftarrow> get_field st ttpl ti;
          p \<leftarrow> field_pred st code (pc + instr_size + field_size);
          (tpl, i) \<leftarrow> field_operand st code (pc + instr_size + 2 * field_size);
          lt \<leftarrow> field_type_of p ti;
          cons_to_field E lt h t tpl i st }"

subsection \<open>External functions\<close>

definition keep_string :: "ptr_val \<Rightarrow> vm_state \<Rightarrow> vm_state option" where
  "keep_string s st =
     do { st \<leftarrow> with_heap (inc_refs s) st; Some (st\<lparr>st_free_string := st_free_string st @ [s]\<rparr>) }"

definition add_array :: "ptr_val \<Rightarrow> vtype \<Rightarrow> vm_state \<Rightarrow> vm_state option" where
  "add_array a t st =
     do { st \<leftarrow> with_heap (inc_refs a) st; Some (st\<lparr>st_free_array := st_free_array st @ [(a, t)]\<rparr>) }"

definition add_set :: "ptr_val \<Rightarrow> vtype \<Rightarrow> vm_state \<Rightarrow> vm_state option" where
  "add_set a t st =
     do { st \<leftarrow> with_heap (inc_refs a) st; Some (st\<lparr>st_free_set := st_free_set st @ [(a, t)]\<rparr>) }"

fun set_call_return :: "vtype \<Rightarrow> nat \<Rightarrow> bool \<Rightarrow> tuple_field \<Rightarrow> vm_state \<Rightarrow> vm_state option" where
  "set_call_return (BaseT FIELD_BOOL) r gc ret st = set_bool r (field_bool ret) st"
| "set_call_return (BaseT FIELD_INT) r gc ret st = set_int r (field_int ret) st"
| "set_call_return (BaseT FIELD_FLOAT) r gc ret st = set_float r (field_float ret) st"
| "set_call_return (BaseT FIELD_NODE) r gc ret st = set_node r (field_node ret) st"
| "set_call_return (BaseT FIELD_THREAD) r gc ret st = set_ptr r (field_ptr ret) st"
| "set_call_return (BaseT FIELD_STRING) r gc ret st =
     do { st \<leftarrow> set_ptr r (field_ptr ret) st; if gc then keep_string (field_ptr ret) st else Some st }"
| "set_call_return (ListT t) r gc ret st =
     do { st \<leftarrow> set_ptr r (field_ptr ret) st;
          if gc \<and> field_ptr ret \<noteq> 0 then add_cons (field_ptr ret) (ListT t) st else Some st }"
| "set_call_return (StructT ts) r gc ret st =
     do { st \<leftarrow> set_ptr r (field_ptr ret) st; if gc then add_struct (field_ptr ret) (StructT ts) st else Some st }"
| "set_call_return (ArrayT b) r gc ret st =
     do { st \<leftarrow> set_ptr r (field_ptr ret) st; if gc then add_array (field_ptr ret) b st else Some st }"
| "set_call_return (SetT b) r gc ret st =
     do { st \<leftarrow> set_ptr r (field_ptr ret) st; if gc then add_set (field_ptr ret) b st else Some st }"
| "set_call_return (BaseT FIELD_ANY) r gc ret st = set_reg r ret st"
| "set_call_return _ r gc ret st = None"

text \<open>The registers named by \<open>n\<close> consecutive operands.\<close>

definition call_arguments :: "vm_state \<Rightarrow> byte_code \<Rightarrow> pcounter \<Rightarrow> nat \<Rightarrow> tuple_field list option" where
  "call_arguments st code m n = those (map (\<lambda>i. read_reg st code (m + i * reg_val_size)) [0..<n])"

definition do_call :: "vm_env \<Rightarrow> nat \<Rightarrow> tuple_field list \<Rightarrow> vm_state \<Rightarrow> (tuple_field \<times> vm_state) option" where
  "do_call E k args st =
     (case ve_external E k of
        Some (n, f) \<Rightarrow> if n = length args \<and> n \<le> 6 then f args st else None
      | None \<Rightarrow> None)"

definition call_fixed :: "nat \<Rightarrow> instruction" where
  "call_fixed n E code pc st =
     do { k \<leftarrow> call_extern_id code pc;
          args \<leftarrow> call_arguments st code (pc + call_size) n;
          (ret, st) \<leftarrow> do_call E k args st;
          r \<leftarrow> call_dest code pc; ty \<leftarrow> call_type code pc; t \<leftarrow> lookup_type E ty; gc \<leftarrow> call_gc code pc;
          set_call_return t r gc ret st }"

definition execute_call0 :: instruction where "execute_call0 = call_fixed 0"
definition execute_call1 :: instruction where "execute_call1 = call_fixed 1"
definition execute_call2 :: instruction where "execute_call2 = call_fixed 2"
definition execute_call3 :: instruction where "execute_call3 = call_fixed 3"

definition execute_call :: instruction where
  "execute_call E code pc st =
     do { k \<leftarrow> call_extern_id code pc; n \<leftarrow> call_num_args code pc;
          args \<leftarrow> call_arguments st code (pc + CALL_BASE) n;
          (ret, st) \<leftarrow> do_call E k args st;
          r \<leftarrow> call_dest code pc; ty \<leftarrow> call_type code pc; t \<leftarrow> lookup_type E ty; gc \<leftarrow> call_gc code pc;
          set_call_return t r gc ret st }"

definition execute_calle :: instruction where
  "execute_calle E code pc st =
     do { k \<leftarrow> calle_extern_id code pc; n \<leftarrow> calle_num_args code pc;
          args \<leftarrow> call_arguments st code (pc + CALLE_BASE) n;
          (ret, st) \<leftarrow> do_call E (k + ve_first_custom E) args st;
          r \<leftarrow> calle_dest code pc; ty \<leftarrow> calle_type code pc; t \<leftarrow> lookup_type E ty; gc \<leftarrow> calle_gc code pc;
          set_call_return t r gc ret st }"

end
