(* ===== verification/Exec_Step.thy ===== *)
theory Exec_Step
  imports Exec_Lists
begin

text \<open>
  The interpreter loop \<^verbatim>\<open>execute\<close> of \<^verbatim>\<open>vm/exec.cpp\<close> over the instructions that compute, move data and
  transfer control. The instructions that go on to the next one are a table with the size that the
  loop adds to the program counter; the others are cases of \<open>step\<close>. The instructions that iterate
  over facts, derive facts or talk to the scheduler end the run with \<open>Foreign\<close>.
\<close>

datatype return_type =
    RETURN_OK | RETURN_SELECT | RETURN_NEXT | RETURN_LINEAR | RETURN_DERIVED | RETURN_END_LINEAR | RETURN_NO_RETURN

subsection \<open>The stack instructions\<close>

definition execute_push :: instruction where
  "execute_push E code pc st = Some (st\<lparr>st_stack := stack_push (st_junk st) 1 (st_stack st)\<rparr>)"

definition execute_pushn :: instruction where
  "execute_pushn E code pc st =
     do { n \<leftarrow> push_n code pc; Some (st\<lparr>st_stack := stack_push (st_junk st) n (st_stack st)\<rparr>) }"

definition execute_pop :: instruction where
  "execute_pop E code pc st = Some (st\<lparr>st_stack := stack_pop 1 (st_stack st)\<rparr>)"

definition execute_push_regs :: instruction where
  "execute_push_regs E code pc st =
     do { s \<leftarrow> push_regs (st_junk st) (st_regs st) (st_stack st); Some (st\<lparr>st_stack := s\<rparr>) }"

definition execute_pop_regs :: instruction where
  "execute_pop_regs E code pc st =
     do { (regs, s) \<leftarrow> pop_regs (st_stack st); Some (st\<lparr>st_regs := regs, st_stack := s\<rparr>) }"

subsection \<open>Rule markers\<close>

definition execute_rule :: instruction where
  "execute_rule E code pc st = do { k \<leftarrow> rule_get_id code pc; Some (st\<lparr>st_current_rule := k\<rparr>) }"

definition execute_rule_done :: instruction where
  "execute_rule_done E code pc st = Some st"

subsection \<open>Instructions that go on to the next one\<close>

type_synonym instr_row = "byte \<times> nat \<times> instruction"

definition operation_instrs :: "instr_row list" where
  "operation_instrs =
     [(NOT_INSTR, NOT_BASE, execute_not), (TESTNIL_INSTR, TESTNIL_BASE, execute_testnil),
      (FLOAT_INSTR, FLOAT_BASE, execute_float), (FABS_INSTR, FABS_BASE, execute_fabs),
      (ADDRNOTEQUAL_INSTR, operation_size, execute_addrnotequal), (ADDREQUAL_INSTR, operation_size, execute_addrequal),
      (INTMINUS_INSTR, operation_size, execute_intminus), (INTEQUAL_INSTR, operation_size, execute_intequal),
      (INTNOTEQUAL_INSTR, operation_size, execute_intnotequal), (INTPLUS_INSTR, operation_size, execute_intplus),
      (INTLESSER_INSTR, operation_size, execute_intlesser), (INTGREATEREQUAL_INSTR, operation_size, execute_intgreaterequal),
      (BOOLOR_INSTR, operation_size, execute_boolor), (INTLESSEREQUAL_INSTR, operation_size, execute_intlesserequal),
      (INTGREATER_INSTR, operation_size, execute_intgreater), (INTMUL_INSTR, operation_size, execute_intmul),
      (INTDIV_INSTR, operation_size, execute_intdiv), (INTMOD_INSTR, operation_size, execute_intmod),
      (FLOATPLUS_INSTR, operation_size, execute_floatplus), (FLOATMINUS_INSTR, operation_size, execute_floatminus),
      (FLOATMUL_INSTR, operation_size, execute_floatmul), (FLOATDIV_INSTR, operation_size, execute_floatdiv),
      (FLOATEQUAL_INSTR, operation_size, execute_floatequal), (FLOATNOTEQUAL_INSTR, operation_size, execute_floatnotequal),
      (FLOATLESSER_INSTR, operation_size, execute_floatlesser), (FLOATLESSEREQUAL_INSTR, operation_size, execute_floatlesserequal),
      (FLOATGREATER_INSTR, operation_size, execute_floatgreater), (FLOATGREATEREQUAL_INSTR, operation_size, execute_floatgreaterequal),
      (BOOLEQUAL_INSTR, operation_size, execute_boolequal), (BOOLNOTEQUAL_INSTR, operation_size, execute_boolnotequal)]"

definition move_instrs :: "instr_row list" where
  "move_instrs =
     [(MVINTFIELD_INSTR, MVINTFIELD_BASE, execute_mvintfield), (MVINTREG_INSTR, MVINTREG_BASE, execute_mvintreg),
      (MVTYPEREG_INSTR, MVTYPEREG_BASE, execute_mvtypereg), (MVFIELDFIELD_INSTR, MVFIELDFIELD_BASE, execute_mvfieldfield),
      (MVFIELDFIELDR_INSTR, MVFIELDFIELD_BASE, execute_mvfieldfieldr), (MVFIELDREG_INSTR, MVFIELDREG_BASE, execute_mvfieldreg),
      (MVPTRREG_INSTR, MVPTRREG_BASE, execute_mvptrreg), (MVNILFIELD_INSTR, MVNILFIELD_BASE, execute_mvnilfield),
      (MVNILREG_INSTR, MVNILREG_BASE, execute_mvnilreg), (MVREGFIELD_INSTR, MVREGFIELD_BASE, execute_mvregfield),
      (MVREGFIELDR_INSTR, MVREGFIELD_BASE, execute_mvregfieldr), (MVHOSTFIELD_INSTR, MVHOSTFIELD_BASE, execute_mvhostfield),
      (MVREGCONST_INSTR, MVREGCONST_BASE, execute_mvregconst), (MVCONSTFIELD_INSTR, MVCONSTFIELD_BASE, execute_mvconstfield),
      (MVCONSTFIELDR_INSTR, MVCONSTFIELD_BASE, execute_mvconstfieldr), (MVADDRFIELD_INSTR, MVADDRFIELD_BASE, execute_mvaddrfield),
      (MVFLOATFIELD_INSTR, MVFLOATFIELD_BASE, execute_mvfloatfield), (MVFLOATREG_INSTR, MVFLOATREG_BASE, execute_mvfloatreg),
      (MVINTCONST_INSTR, MVINTCONST_BASE, execute_mvintconst), (MVWORLDFIELD_INSTR, MVWORLDFIELD_BASE, execute_mvworldfield),
      (MVPCOUNTERSTACK_INSTR, MVPCOUNTERSTACK_BASE, execute_mvpcounterstack), (MVSTACKREG_INSTR, MVSTACKREG_BASE, execute_mvstackreg),
      (MVREGSTACK_INSTR, MVREGSTACK_BASE, execute_mvregstack), (MVADDRREG_INSTR, MVADDRREG_BASE, execute_mvaddrreg),
      (MVHOSTREG_INSTR, MVHOSTREG_BASE, execute_mvhostreg), (MVTHREADIDREG_INSTR, MVTHREADIDREG_BASE, execute_mvthreadidreg),
      (MVTHREADIDFIELD_INSTR, MVTHREADIDFIELD_BASE, execute_mvthreadidfield), (MVREGREG_INSTR, MVREGREG_BASE, execute_mvregreg),
      (MVWORLDREG_INSTR, MVWORLDREG_BASE, execute_mvworldreg), (MVCONSTREG_INSTR, MVCONSTREG_BASE, execute_mvconstreg),
      (MVINTSTACK_INSTR, MVINTSTACK_BASE, execute_mvintstack), (MVFLOATSTACK_INSTR, MVFLOATSTACK_BASE, execute_mvfloatstack),
      (MVARGREG_INSTR, MVARGREG_BASE, execute_mvargreg), (MVCPUSREG_INSTR, MVCPUSREG_BASE, execute_mvcpusreg),
      (MVSTACKFIELD_INSTR, MVSTACKFIELD_BASE, execute_mvstackfield), (PUSH_INSTR, PUSH_BASE, execute_push),
      (PUSHN_INSTR, PUSHN_BASE, execute_pushn), (POP_INSTR, POP_BASE, execute_pop),
      (PUSH_REGS_INSTR, PUSH_REGS_BASE, execute_push_regs), (POP_REGS_INSTR, POP_REGS_BASE, execute_pop_regs),
      (RULE_INSTR, RULE_BASE, execute_rule), (RULE_DONE_INSTR, RULE_DONE_BASE, execute_rule_done)]"

definition object_instrs :: "instr_row list" where
  "object_instrs =
     [(MAKE_STRUCTR_INSTR, MAKE_STRUCTR_BASE, execute_make_structr), (MAKE_STRUCTF_INSTR, MAKE_STRUCTF_BASE, execute_make_structf),
      (STRUCT_VALRR_INSTR, STRUCT_VALRR_BASE, execute_struct_valrr), (STRUCT_VALFR_INSTR, STRUCT_VALFR_BASE, execute_struct_valfr),
      (STRUCT_VALRF_INSTR, STRUCT_VALRF_BASE, execute_struct_valrf), (STRUCT_VALRFR_INSTR, STRUCT_VALRFR_BASE, execute_struct_valrfr),
      (STRUCT_VALFF_INSTR, STRUCT_VALFF_BASE, execute_struct_valff), (STRUCT_VALFFR_INSTR, STRUCT_VALFFR_BASE, execute_struct_valffr),
      (HEADRR_INSTR, HEADRR_BASE, execute_headrr), (HEADFR_INSTR, HEADFR_BASE, execute_headfr),
      (HEADFF_INSTR, HEADFF_BASE, execute_headff), (HEADFFR_INSTR, HEADFF_BASE, execute_headffr),
      (TAILRR_INSTR, TAILRR_BASE, execute_tailrr), (TAILFR_INSTR, TAILFR_BASE, execute_tailfr),
      (TAILFF_INSTR, TAILFF_BASE, execute_tailff), (CONSRRR_INSTR, CONSRRR_BASE, execute_consrrr),
      (CONSRFF_INSTR, CONSRFF_BASE, execute_consrff), (CONSFRF_INSTR, CONSFRF_BASE, execute_consfrf),
      (CONSFFR_INSTR, CONSFFR_BASE, execute_consffr), (CONSRRF_INSTR, CONSRRF_BASE, execute_consrrf),
      (CONSRFR_INSTR, CONSRFR_BASE, execute_consrfr), (CONSFRR_INSTR, CONSFRR_BASE, execute_consfrr),
      (CONSFFF_INSTR, CONSFFF_BASE, execute_consfff), (CALL0_INSTR, CALL0_BASE, execute_call0),
      (CALL1_INSTR, CALL1_BASE, execute_call1), (CALL2_INSTR, CALL2_BASE, execute_call2), (CALL3_INSTR, CALL3_BASE, execute_call3)]"

definition short_instrs :: "instr_row list" where
  "short_instrs =
     [(HEADRF_INSTR, HEADRF_BASE, execute_headrf), (HEADRFR_INSTR, HEADRF_BASE, execute_headrfr),
      (TAILRF_INSTR, TAILRF_BASE, execute_tailrf)]"

definition data_instrs :: "instr_row list" where
  "data_instrs = operation_instrs @ move_instrs @ object_instrs @ short_instrs"

subsection \<open>Control\<close>

datatype outcome =
    Continue pcounter vm_state
  | Return return_type vm_state
  | Foreign pcounter vm_state
  | Fault

definition execute_select :: "vm_env \<Rightarrow> byte_code \<Rightarrow> pcounter \<Rightarrow> pcounter option" where
  "execute_select E code pc =
     (if ve_node_id E > ve_static_max_id E then do { s \<leftarrow> select_size code pc; Some (pc + s) }
      else do { hashed \<leftarrow> select_hash code (select_hash_start pc) (ve_node_id E);
                if hashed = 0 then do { s \<leftarrow> select_size code pc; Some (pc + s) }
                else do { hs \<leftarrow> select_hash_size code pc; Some (select_hash_code (select_hash_start pc) hs hashed) } })"

definition continue_at :: "pcounter option \<Rightarrow> vm_state \<Rightarrow> outcome" where
  "continue_at npc st = (case npc of Some p \<Rightarrow> Continue p st | None \<Rightarrow> Fault)"

definition execute_if :: "nat \<Rightarrow> (byte_code \<Rightarrow> pcounter \<Rightarrow> nat option) \<Rightarrow> byte_code \<Rightarrow> pcounter \<Rightarrow> vm_state \<Rightarrow> outcome" where
  "execute_if bse jump code pc st =
     (case do { r \<leftarrow> if_reg code pc; get_bool st r } of
        None \<Rightarrow> Fault
      | Some b \<Rightarrow> if \<not> b then continue_at (do { j \<leftarrow> jump code pc; Some (pc + j) }) st else Continue (pc + bse) st)"

definition callf_target :: "vm_env \<Rightarrow> byte_code \<Rightarrow> pcounter \<Rightarrow> pcounter option" where
  "callf_target E code pc =
     do { k \<leftarrow> callf_get_id code pc; if k < length (ve_functions E) then Some (ve_functions E ! k) else None }"

definition call_jump :: "nat \<Rightarrow> instruction \<Rightarrow> vm_env \<Rightarrow> byte_code \<Rightarrow> pcounter \<Rightarrow> vm_state \<Rightarrow> outcome" where
  "call_jump npc f E code pc st = (case f E code pc st of Some st \<Rightarrow> Continue npc st | None \<Rightarrow> Fault)"

definition step :: "vm_env \<Rightarrow> byte_code \<Rightarrow> pcounter \<Rightarrow> vm_state \<Rightarrow> outcome" where
  "step E code pc st =
     (case fetch code pc of
        None \<Rightarrow> Fault
      | Some i \<Rightarrow>
          if i = RETURN_INSTR then Return RETURN_OK st
          else if i = NEXT_INSTR then Return RETURN_NEXT st
          else if i = RETURN_LINEAR_INSTR then Return RETURN_LINEAR st
          else if i = RETURN_DERIVED_INSTR then Return RETURN_DERIVED st
          else if i = END_LINEAR_INSTR then Return RETURN_END_LINEAR st
          else if i = RETURN_SELECT_INSTR then continue_at (do { j \<leftarrow> return_select_jump code pc; Some (pc + j) }) st
          else if i = IF_INSTR then execute_if IF_BASE if_jump code pc st
          else if i = IF_ELSE_INSTR then execute_if IF_ELSE_BASE if_else_jump_else code pc st
          else if i = JUMP_INSTR then continue_at (do { j \<leftarrow> jump_get code pc instr_size; Some (pc + (j + JUMP_BASE)) }) st
          else if i = SELECT_INSTR then continue_at (execute_select E code pc) st
          else if i = CALLF_INSTR then continue_at (callf_target E code pc) st
          else if i = MVSTACKPCOUNTER_INSTR then continue_at (execute_mvstackpcounter code pc st) st
          else if i = CALL_INSTR then
            (case call_num_args code pc of
               Some n \<Rightarrow> call_jump (pc + (CALL_BASE + n * reg_val_size)) execute_call E code pc st | None \<Rightarrow> Fault)
          else if i = CALLE_INSTR then
            (case calle_num_args code pc of
               Some n \<Rightarrow> call_jump (pc + CALLE_BASE * n) execute_calle E code pc st | None \<Rightarrow> Fault)
          else case map_of data_instrs i of
            Some (sz, f) \<Rightarrow> call_jump (pc + sz) f E code pc st
          | None \<Rightarrow> if i \<in> set instr_type then Foreign pc st else Fault)"

subsection \<open>The loop\<close>

datatype exec_result =
    Done return_type vm_state
  | Stopped pcounter vm_state
  | Failed
  | OutOfFuel

text \<open>
  \<^verbatim>\<open>RESET_LINEAR\<close> runs its block with the linear flag off in a recursive call and continues after it, whatever the call
  returned; an assertion says that it is \<^verbatim>\<open>END_LINEAR\<close>. The bound limits the depth of the recursion: the number of instructions one
  after the other, where a block and what follows it have the same bound.
\<close>

fun execute :: "nat \<Rightarrow> vm_env \<Rightarrow> byte_code \<Rightarrow> pcounter \<Rightarrow> vm_state \<Rightarrow> exec_result" where
  "execute 0 E code pc st = OutOfFuel"
| "execute (Suc n) E code pc st =
     (if fetch code pc = Some RESET_LINEAR_INSTR then
        (case execute n E code (pc + RESET_LINEAR_BASE) (st\<lparr>st_is_linear := False\<rparr>) of
           Done ret st' \<Rightarrow>
             (case reset_linear_jump code pc of
                Some j \<Rightarrow> execute n E code (pc + j) (st'\<lparr>st_is_linear := st_is_linear st\<rparr>)
              | None \<Rightarrow> Failed)
         | res \<Rightarrow> res)
      else case step E code pc st of
        Continue pc' st' \<Rightarrow> execute n E code pc' st'
      | Return ret st' \<Rightarrow> Done ret st'
      | Foreign pc' st' \<Rightarrow> Stopped pc' st'
      | Fault \<Rightarrow> Failed)"

end
