(* ===== verification/Exec_Local.thy ===== *)
theory Exec_Local
  imports Exec_Step
begin

text \<open>
  What the instructions of the table read: the effect of an instruction depends only on the bytes
  that the loop skips, and the loop skips as many as \<^verbatim>\<open>advance\<close>. The exceptions are \<^verbatim>\<open>HEADRF\<close>,
  \<^verbatim>\<open>HEADRFR\<close> and \<^verbatim>\<open>TAILRF\<close>, whose declared size is one byte short.
\<close>

subsection \<open>What an instruction reads\<close>

definition same_bytes :: "nat \<Rightarrow> byte_code \<Rightarrow> byte_code \<Rightarrow> pcounter \<Rightarrow> bool" where
  "same_bytes n code code' pc \<longleftrightarrow> (\<forall>k<n. code_byte code (pc + k) = code_byte code' (pc + k))"

definition reads_only :: "nat \<Rightarrow> instruction \<Rightarrow> bool" where
  "reads_only n f \<longleftrightarrow> (\<forall>E code code' pc st. same_bytes n code code' pc \<longrightarrow> f E code pc st = f E code' pc st)"

lemma same_byte_at:
  "same_bytes n code code' pc \<Longrightarrow> pc \<le> a \<Longrightarrow> a < pc + n \<Longrightarrow> code_byte code a = code_byte code' a"
  unfolding same_bytes_def by (metis add.commute le_Suc_ex nat_add_left_cancel_less)

lemma code_bytes_zero [simp]: "code_bytes 0 code a = (if a \<le> length code then Some [] else None)"
  by (simp add: code_bytes_def)

lemma code_bytes_Suc:
  "code_bytes (Suc m) code a = (case code_byte code a of None \<Rightarrow> None | Some b \<Rightarrow>
     (case m of 0 \<Rightarrow> Some [b] | Suc _ \<Rightarrow> map_option ((#) b) (code_bytes m code (Suc a))))"
proof (cases "a < length code")
  case True
  then have "drop a code = code ! a # drop (Suc a) code" by (simp add: Cons_nth_drop_Suc)
  with True show ?thesis by (simp add: code_bytes_def code_byte_def split: nat.split)
qed (simp add: code_bytes_def code_byte_def)

lemma same_code_bytes:
  "same_bytes n code code' pc \<Longrightarrow> 0 < m \<Longrightarrow> pc \<le> a \<Longrightarrow> a + m \<le> pc + n \<Longrightarrow> code_bytes m code a = code_bytes m code' a"
proof (induction m arbitrary: a)
  case (Suc m)
  have "code_byte code a = code_byte code' a"
    using Suc.prems by (intro same_byte_at [OF Suc.prems(1)]) auto
  moreover have "m \<noteq> 0 \<Longrightarrow> code_bytes m code (Suc a) = code_bytes m code' (Suc a)"
    using Suc.prems by (intro Suc.IH) auto
  ultimately show ?case unfolding code_bytes_Suc [of m] by (cases m) (simp_all split: option.split)
qed simp

lemma reads_onlyI:
  assumes "\<And>E code code' pc st.
    \<forall>a. pc \<le> a \<longrightarrow> a < pc + n \<longrightarrow> code_byte code a = code_byte code' a \<Longrightarrow>
    \<forall>m a. 0 < m \<longrightarrow> pc \<le> a \<longrightarrow> a + m \<le> pc + n \<longrightarrow> code_bytes m code a = code_bytes m code' a \<Longrightarrow>
    f E code pc st = f E code' pc st"
  shows "reads_only n f"
  unfolding reads_only_def
proof (intro allI impI)
  fix E code code' pc st
  assume same: "same_bytes n code code' pc"
  show "f E code pc st = f E code' pc st"
    by (rule assms) (blast intro: same_byte_at [OF same] same_code_bytes [OF same])+
qed

lemmas instr_reader_defs = operand_defs field_access_defs get_tuple_field_def vm_size_simps

lemma do_operation_reads: "reads_only operation_size (\<lambda>E. do_operation s g (h E))"
  by (rule reads_onlyI) (simp add: do_operation_def operand_defs vm_size_simps)

lemma reads_only_eq: "reads_only n f \<Longrightarrow> same_bytes n code code' pc \<Longrightarrow> f E code pc st = f E code' pc st"
  by (simp add: reads_only_def)

lemma operation_instrs_local: "list_all (\<lambda>(opc, n, f). reads_only n f) operation_instrs"
  unfolding operation_instrs_def list.pred_inject prod.case
  by (intro conjI TrueI reads_onlyI;
      simp add: do_operation_def instr_reader_defs not_op_def not_dest_def test_nil_op_def test_nil_dest_def
        execute_not_def execute_testnil_def execute_float_def execute_fabs_def execute_addrnotequal_def
        execute_addrequal_def execute_intminus_def execute_intequal_def execute_intnotequal_def execute_intplus_def
        execute_intlesser_def execute_intgreaterequal_def execute_boolor_def execute_intlesserequal_def
        execute_intgreater_def execute_intmul_def execute_intdiv_def execute_intmod_def execute_floatplus_def
        execute_floatminus_def execute_floatmul_def execute_floatdiv_def execute_floatequal_def
        execute_floatnotequal_def execute_floatlesser_def execute_floatlesserequal_def execute_floatgreater_def
        execute_floatgreaterequal_def execute_boolequal_def execute_boolnotequal_def)

lemma move_instrs_local: "list_all (\<lambda>(opc, n, f). reads_only n f) move_instrs"
  unfolding move_instrs_def list.pred_inject prod.case
  by (intro conjI TrueI reads_onlyI;
      simp add: instr_reader_defs push_n_def rule_get_id_def execute_push_def execute_pushn_def execute_pop_def
        execute_push_regs_def execute_pop_regs_def execute_rule_def execute_rule_done_def
        execute_mvintfield_def execute_mvintreg_def execute_mvtypereg_def execute_mvfieldfield_def
        execute_mvfieldfieldr_def execute_mvfieldreg_def execute_mvptrreg_def execute_mvnilfield_def
        execute_mvnilreg_def execute_mvregfield_def execute_mvregfieldr_def execute_mvhostfield_def
        execute_mvthreadidreg_def execute_mvthreadidfield_def execute_mvregconst_def execute_mvconstfield_def
        execute_mvconstfieldr_def execute_mvconstreg_def execute_mvintstack_def execute_mvargreg_def
        execute_mvfloatstack_def execute_mvaddrfield_def execute_mvfloatfield_def execute_mvfloatreg_def
        execute_mvintconst_def execute_mvworldfield_def execute_mvworldreg_def execute_mvcpusreg_def
        execute_mvpcounterstack_def execute_mvstackreg_def execute_mvstackfield_def execute_mvregstack_def
        execute_mvaddrreg_def execute_mvhostreg_def execute_mvregreg_def)

lemmas call_reader_defs = call_fixed_def call_extern_id_def call_dest_def call_type_def call_gc_def

lemma call_arguments_cong:
  assumes "\<forall>a. m \<le> a \<longrightarrow> a < m + n \<longrightarrow> code_byte code a = code_byte code' a"
  shows "call_arguments st code m n = call_arguments st code' m n"
  unfolding call_arguments_def using assms
  by (intro arg_cong [where f = those] map_cong) (auto simp: read_reg_def operand_defs vm_size_simps)

lemma call_fixed_reads: "reads_only (call_size + n * reg_val_size) (call_fixed n)"
proof (rule reads_onlyI)
  fix E code code' pc st
  assume same: "\<forall>a. pc \<le> a \<longrightarrow> a < pc + (call_size + n * reg_val_size) \<longrightarrow> code_byte code a = code_byte code' a"
  then have "call_arguments st code (pc + call_size) n = call_arguments st code' (pc + call_size) n"
    by (intro call_arguments_cong) (auto simp: vm_size_simps)
  with same show "call_fixed n E code pc st = call_fixed n E code' pc st"
    by (simp add: call_reader_defs operand_defs vm_size_simps)
qed

lemma call_reads:
  "reads_only CALL0_BASE (call_fixed 0)" "reads_only CALL1_BASE (call_fixed 1)"
  "reads_only CALL2_BASE (call_fixed 2)" "reads_only CALL3_BASE (call_fixed 3)"
  using call_fixed_reads [of 0] call_fixed_reads [of 1] call_fixed_reads [of 2] call_fixed_reads [of 3]
  by (simp_all add: vm_size_simps)

lemma object_instrs_local: "list_all (\<lambda>(opc, n, f). reads_only n f) object_instrs"
  unfolding object_instrs_def list.pred_inject prod.case execute_call0_def execute_call1_def execute_call2_def execute_call3_def
  by (intro conjI TrueI call_reads reads_onlyI;
      simp add: instr_reader_defs make_structr_type_def struct_val_idx_def cons_type_def
        execute_make_structr_def execute_make_structf_def execute_struct_valrr_def execute_struct_valfr_def
        execute_struct_valrf_def execute_struct_valrfr_def execute_struct_valff_def execute_struct_valffr_def
        execute_headrr_def execute_headfr_def execute_headff_def execute_headffr_def execute_tailrr_def
        execute_tailfr_def execute_tailff_def execute_consrrr_def execute_consrff_def execute_consfrf_def
        execute_consffr_def execute_consrrf_def execute_consrfr_def execute_consfrr_def execute_consfff_def)

subsection \<open>Steps of the table\<close>

definition control_codes :: "byte list" where
  "control_codes = [RETURN_INSTR, NEXT_INSTR, RETURN_LINEAR_INSTR, RETURN_DERIVED_INSTR, END_LINEAR_INSTR,
     RETURN_SELECT_INSTR, IF_INSTR, IF_ELSE_INSTR, JUMP_INSTR, SELECT_INSTR, CALLF_INSTR,
     MVSTACKPCOUNTER_INSTR, CALL_INSTR, CALLE_INSTR, RESET_LINEAR_INSTR]"

lemma data_instrs_sizes:
  "list_all (\<lambda>(opc, n, f). opc \<notin> set control_codes \<and> map_of fixed_size opc = Some n) data_instrs"
  by code_simp

lemma data_instr_facts:
  assumes "map_of data_instrs opc = Some (n, f)"
  shows "opc \<notin> set control_codes" "map_of fixed_size opc = Some n"
proof -
  have "(opc, n, f) \<in> set data_instrs" using assms by (rule map_of_SomeD)
  with data_instrs_sizes show "opc \<notin> set control_codes" "map_of fixed_size opc = Some n"
    by (auto simp: list_all_iff)
qed

lemma step_data:
  assumes "fetch code pc = Some opc" "map_of data_instrs opc = Some (n, f)"
  shows "step E code pc st = call_jump (pc + n) f E code pc st"
  using assms(1) data_instr_facts(1) [OF assms(2)]
  by (simp add: step_def control_codes_def assms(2))

lemma advance_data:
  assumes "fetch code pc = Some opc" "map_of data_instrs opc = Some (n, f)"
  shows "advance code pc = Inr (pc + n)"
  using assms(1) data_instr_facts(2) [OF assms(2)] by (simp add: advance_def)

lemma data_instr_local:
  assumes "map_of data_instrs opc = Some (n, f)" "map_of short_instrs opc = None"
  shows "reads_only n f"
proof -
  have "(opc, n, f) \<in> set data_instrs" using assms(1) by (rule map_of_SomeD)
  moreover have "(opc, n, f) \<notin> set short_instrs" using assms(2) by (force simp: map_of_eq_None_iff)
  ultimately have "(opc, n, f) \<in> set operation_instrs \<union> set move_instrs \<union> set object_instrs"
    by (auto simp: data_instrs_def)
  with operation_instrs_local move_instrs_local object_instrs_local show ?thesis
    by (auto simp: list_all_iff)
qed

lemma data_instr_size_pos: "map_of data_instrs opc = Some (n, f) \<Longrightarrow> 0 < n"
  using bspec [OF fixed_size_bounds map_of_SomeD [OF data_instr_facts(2)]] by simp

lemma step_local:
  assumes "fetch code pc = Some opc" "map_of data_instrs opc = Some (n, f)" "map_of short_instrs opc = None"
    "same_bytes n code code' pc"
  shows "step E code' pc st = step E code pc st"
proof -
  have "fetch code' pc = Some opc"
    using assms(1) same_byte_at [OF assms(4), of pc] data_instr_size_pos [OF assms(2)] by (simp add: fetch_def)
  then have "step E code' pc st = call_jump (pc + n) f E code' pc st"
    by (rule step_data [OF _ assms(2)])
  also have "\<dots> = call_jump (pc + n) f E code pc st"
    by (simp add: call_jump_def reads_only_eq [OF data_instr_local [OF assms(2,3)] assms(4)])
  also have "\<dots> = step E code pc st"
    by (rule step_data [OF assms(1,2), symmetric])
  finally show ?thesis .
qed

text \<open>
  A state for the three instructions: register 0 has a list cell, registers 1 and 2 have tuples with
  one field. The operand of the instruction names the register of the tuple in its last byte.
\<close>

definition two_tuples :: vm_state where
  "two_tuples =
     \<lparr>st_regs = [5, 10, 20], st_preds = [], st_stack = \<lparr>cs_vec = [], cs_capacity = 0, cs_size = 0\<rparr>,
      st_tuples = [10 \<mapsto> [1], 20 \<mapsto> [1]], st_heap = \<lparr>h_objs = [5 \<mapsto> (1, ConsO 0 0)], h_gc = {}\<rparr>,
      st_consts = [], st_free_addrs = [], st_free_cons = [], st_free_struct = [], st_free_string = [],
      st_free_array = [], st_free_set = [], st_arguments = [], st_linear_generated = 0,
      st_persistent_generated = 0, st_linear_consumed = 0, st_current_rule = 0, st_is_linear = False, st_junk = []\<rparr>"

lemma short_instr_result:
  assumes "(opc, n, f) \<in> set short_instrs" "r = 1 \<or> r = (2 :: byte)"
  shows "f E [opc, 0, 0, r] 0 two_tuples =
           Some (two_tuples\<lparr>st_tuples := (st_tuples two_tuples)((if r = 1 then 10 else 20) \<mapsto> [0])\<rparr>)"
  using assms
  by (auto simp: short_instrs_def execute_headrf_def execute_headrfr_def execute_tailrf_def instr_reader_defs
      two_tuples_def get_reg_def get_ptr_def get_head_def get_tail_def set_field_def with_heap_def
      tuple_set_cons_def tuple_set_ptr_def get_field_def cons_inc_refs_def do_increment_runtime_def whole_field_defs)

lemma short_instr_reads_more:
  assumes "map_of short_instrs opc = Some (n, f)"
  shows "n = 3" "same_bytes n [opc, 0, 0, 1] [opc, 0, 0, 2] 0"
    "f E [opc, 0, 0, 1] 0 two_tuples \<noteq> f E [opc, 0, 0, 2] 0 two_tuples"
proof -
  have mem: "(opc, n, f) \<in> set short_instrs" using assms by (rule map_of_SomeD)
  then show n: "n = 3" by (auto simp: short_instrs_def vm_size_simps)
  show "same_bytes n [opc, 0, 0, 1] [opc, 0, 0, 2] 0"
    unfolding n same_bytes_def by (auto simp: code_byte_def numeral_3_eq_3 less_Suc_eq)
  show "f E [opc, 0, 0, 1] 0 two_tuples \<noteq> f E [opc, 0, 0, 2] 0 two_tuples"
    unfolding short_instr_result [OF mem disjI1 [OF refl]] short_instr_result [OF mem disjI2 [OF refl]]
    by (auto simp: two_tuples_def fun_eq_iff)
qed

lemma short_in_data:
  assumes "map_of short_instrs opc = Some (n, f)"
  shows "map_of data_instrs opc = Some (n, f)"
proof -
  have "opc = HEADRF_INSTR \<or> opc = HEADRFR_INSTR \<or> opc = TAILRF_INSTR"
    using assms by (auto simp: short_instrs_def split: if_splits)
  moreover have "map_of operation_instrs i = None \<and> map_of move_instrs i = None \<and> map_of object_instrs i = None"
    if "i = HEADRF_INSTR \<or> i = HEADRFR_INSTR \<or> i = TAILRF_INSTR" for i
    using that by (elim disjE) (simp_all add: operation_instrs_def move_instrs_def object_instrs_def)
  ultimately show ?thesis using assms by (simp add: data_instrs_def map_add_def)
qed

lemma short_codes: "map_of short_instrs opc = None \<longleftrightarrow> opc \<notin> {HEADRF_INSTR, HEADRFR_INSTR, TAILRF_INSTR}"
  by (auto simp: short_instrs_def)

text \<open>
  C39. The data instructions, the ones of \<open>data_instrs\<close>: arithmetic and comparisons, moves and
  conversions, operations on lists and structs, and \<^verbatim>\<open>CALL0\<close> to \<^verbatim>\<open>CALL3\<close>. The loop skips over one of them exactly
  as \<^verbatim>\<open>advance\<close> does, and the instruction reads nothing beyond the bytes that are skipped: code that agrees
  on them has the same effect. This fails for \<^verbatim>\<open>HEADRF\<close>, \<^verbatim>\<open>HEADRFR\<close> and \<^verbatim>\<open>TAILRF\<close>, whose size is computed one
  byte short: they read the first byte of the following instruction. Nothing is said of the control
  instructions, iterators and the other calls; over \<^verbatim>\<open>CALLE\<close> the loop does not move as \<^verbatim>\<open>advance\<close> does.
\<close>

theorem instructions_read_what_they_skip:
  assumes "fetch code pc = Some opc" "map_of data_instrs opc = Some (n, f)"
  shows "advance code pc = Inr (pc + n)
    \<and> (opc \<notin> {HEADRF_INSTR, HEADRFR_INSTR, TAILRF_INSTR} \<longrightarrow> same_bytes n code code' pc \<longrightarrow>
         step E code' pc st = step E code pc st)
    \<and> (opc \<in> {HEADRF_INSTR, HEADRFR_INSTR, TAILRF_INSTR} \<longrightarrow>
         (\<exists>code1 code2 st. fetch code1 0 = Some opc \<and> advance code1 0 = Inr 3 \<and> same_bytes 3 code1 code2 0 \<and>
            step E code1 0 st \<noteq> step E code2 0 st))"
proof (intro conjI impI)
  show "advance code pc = Inr (pc + n)" by (rule advance_data [OF assms])
next
  assume "opc \<notin> {HEADRF_INSTR, HEADRFR_INSTR, TAILRF_INSTR}" "same_bytes n code code' pc"
  then show "step E code' pc st = step E code pc st"
    using step_local [OF assms] unfolding short_codes by blast
next
  assume "opc \<in> {HEADRF_INSTR, HEADRFR_INSTR, TAILRF_INSTR}"
  then have "map_of short_instrs opc \<noteq> None" unfolding short_codes by blast
  then obtain m g where sh: "map_of short_instrs opc = Some (m, g)" by auto
  note m = short_instr_reads_more [OF sh]
  have at: "fetch [opc, 0, 0, x] 0 = Some opc" for x by (simp add: fetch_def)
  note st = step_data [OF at short_in_data [OF sh], unfolded m(1)]
  have ne: "step E [opc, 0, 0, 1] 0 two_tuples \<noteq> step E [opc, 0, 0, 2] 0 two_tuples"
    unfolding st using m(3) short_instr_result [OF map_of_SomeD [OF sh]] by (simp add: call_jump_def)
  show "\<exists>code1 code2 st. fetch code1 0 = Some opc \<and> advance code1 0 = Inr 3 \<and> same_bytes 3 code1 code2 0 \<and>
      step E code1 0 st \<noteq> step E code2 0 st"
    using at advance_data [OF at short_in_data [OF sh], of 1] m(2) ne unfolding m(1) by auto
qed

theorem instructions_read_what_they_skip_witness:
  "advance [INTPLUS_INSTR, 0, 1, 2] 0 = Inr 4
   \<and> (\<forall>E st. step E [INTPLUS_INSTR, 0, 1, 2, 9] 0 st = step E [INTPLUS_INSTR, 0, 1, 2] 0 st)"
proof -
  have "map_of data_instrs INTPLUS_INSTR = Some (4, execute_intplus)"
    by (simp add: data_instrs_def operation_instrs_def vm_size_simps)
  moreover have "same_bytes 4 [INTPLUS_INSTR, 0, 1, 2] [INTPLUS_INSTR, 0, 1, 2, 9] 0"
    by (auto simp: same_bytes_def code_byte_def less_Suc_eq numeral_eq_Suc)
  ultimately show ?thesis
    using instructions_read_what_they_skip [of "[INTPLUS_INSTR, 0, 1, 2]" 0 INTPLUS_INSTR 4 execute_intplus "[INTPLUS_INSTR, 0, 1, 2, 9]"]
    by (simp add: fetch_def)
qed

end
