(* ===== verification/Exec_Arith.thy ===== *)
theory Exec_Arith
  imports Exec_Local
begin

text \<open>
  What the arithmetic and comparison instructions compute, against operations on mathematical
  integers.
\<close>

subsection \<open>Arithmetic\<close>

text \<open>Wrap-around of a mathematical integer to 32 bits.\<close>

definition wrap32 :: "int \<Rightarrow> int" where
  "wrap32 z = (z + 2 ^ 31) mod 2 ^ 32 - 2 ^ 31"

lemma sint_word_of_int_wrap: "sint (word_of_int z :: int_val) = wrap32 z"
  by (simp add: wrap32_def sint_sbintrunc' signed_take_bit_eq_take_bit_shift take_bit_eq_mod)

lemma sint_arith_wrap:
  "sint (a + b :: int_val) = wrap32 (sint a + sint b)"
  "sint (a - b :: int_val) = wrap32 (sint a - sint b)"
  "sint (a * b :: int_val) = wrap32 (sint a * sint b)"
  by (simp_all flip: sint_word_of_int_wrap)

text \<open>The quotient rounded towards zero and its remainder; undefined for the divisions that trap.\<close>

definition quotient0 :: "int \<Rightarrow> int \<Rightarrow> int" where
  "quotient0 x y = (if 0 \<le> x * y then \<bar>x\<bar> div \<bar>y\<bar> else - (\<bar>x\<bar> div \<bar>y\<bar>))"

definition division_traps :: "int \<Rightarrow> int \<Rightarrow> bool" where
  "division_traps x y \<longleftrightarrow> y = 0 \<or> (x = - (2 ^ 31) \<and> y = - 1)"

definition arith_spec :: "(byte \<times> (int \<Rightarrow> int \<Rightarrow> int option)) list" where
  "arith_spec =
     [(INTPLUS_INSTR, \<lambda>x y. Some (x + y)), (INTMINUS_INSTR, \<lambda>x y. Some (x - y)), (INTMUL_INSTR, \<lambda>x y. Some (x * y)),
      (INTDIV_INSTR, \<lambda>x y. if division_traps x y then None else Some (quotient0 x y)),
      (INTMOD_INSTR, \<lambda>x y. if division_traps x y then None else Some (x - quotient0 x y * y))]"

definition compare_spec :: "(byte \<times> (int \<Rightarrow> int \<Rightarrow> bool)) list" where
  "compare_spec =
     [(INTEQUAL_INSTR, \<lambda>x y. x = y), (INTNOTEQUAL_INSTR, \<lambda>x y. x \<noteq> y), (INTLESSER_INSTR, \<lambda>x y. x < y),
      (INTLESSEREQUAL_INSTR, \<lambda>x y. x \<le> y), (INTGREATER_INSTR, \<lambda>x y. x > y), (INTGREATEREQUAL_INSTR, \<lambda>x y. x \<ge> y)]"

lemma sdiv_quotient0: "x sdiv y = quotient0 x y"
proof (cases "x = 0 \<or> y = 0")
  case False
  then show ?thesis
    by (auto simp: quotient0_def signed_divide_int_def sgn_if zero_le_mult_iff not_le)
qed (auto simp: quotient0_def signed_divide_int_def)

lemma smod_quotient0: "x smod y = x - quotient0 x y * (y :: int)"
  by (simp add: minus_sdiv_mult_eq_smod flip: sdiv_quotient0)

lemma sint_zero_iff: "sint (b :: int_val) = 0 \<longleftrightarrow> b = 0"
  by (metis sint_0 signed_word_eqI)

lemma int_div_ok_iff: "int_div_ok a b \<longleftrightarrow> \<not> division_traps (sint a) (sint b)"
  by (simp add: int_div_ok_def division_traps_def sint_zero_iff)

text \<open>The operands of an operation and the state after it.\<close>

lemma do_operation_result:
  assumes "code_byte code (pc + 1) = Some r1" "code_byte code (pc + 2) = Some r2" "code_byte code (pc + 3) = Some d"
    "get_function st (unat r1) = Some a" "get_function st (unat r2) = Some b"
  shows "do_operation set_function get_function f code pc st =
           do { v \<leftarrow> f a b; set_function (unat d) v st }"
  using assms by (simp add: do_operation_def operand_defs vm_size_simps numeral_2_eq_2 numeral_3_eq_3)

lemma set_int_ok: "r < length (st_regs st) \<Longrightarrow> set_int r v st = Some (st\<lparr>st_regs := (st_regs st)[r := set_field_int (st_regs st ! r) v]\<rparr>)"
  by (simp add: set_int_def get_reg_def set_reg_def)

lemma set_bool_ok: "r < length (st_regs st) \<Longrightarrow> set_bool r v st = Some (st\<lparr>st_regs := (st_regs st)[r := set_field_bool (st_regs st ! r) v]\<rparr>)"
  by (simp add: set_bool_def get_reg_def set_reg_def)

lemma get_int_ok: "r < length (st_regs st) \<Longrightarrow> get_int st r = Some (field_int (st_regs st ! r))"
  by (simp add: get_int_def get_reg_def)

text \<open>The state after writing register \<open>d\<close>, and a step that does this.\<close>

definition with_reg :: "nat \<Rightarrow> tuple_field \<Rightarrow> vm_state \<Rightarrow> vm_state" where
  "with_reg d v st = st\<lparr>st_regs := (st_regs st)[d := v]\<rparr>"

text \<open>An instruction with three register operands inside the register file.\<close>

definition operation_at :: "byte_code \<Rightarrow> pcounter \<Rightarrow> byte \<Rightarrow> nat \<Rightarrow> nat \<Rightarrow> nat \<Rightarrow> vm_state \<Rightarrow> bool" where
  "operation_at code pc opc r1 r2 d st \<longleftrightarrow>
     fetch code pc = Some opc \<and> code_byte code (pc + 1) = Some (of_nat r1) \<and> code_byte code (pc + 2) = Some (of_nat r2) \<and>
     code_byte code (pc + 3) = Some (of_nat d) \<and> r1 < length (st_regs st) \<and> r2 < length (st_regs st) \<and>
     d < length (st_regs st) \<and> length (st_regs st) \<le> 256"

lemma operation_size_4: "operation_size = 4"
  by (simp add: vm_size_simps)

lemma operation_step:
  assumes "operation_at code pc opc r1 r2 d st" "map_of data_instrs opc = Some (operation_size, \<lambda>E. do_operation s g (h E))"
    "g st r1 = Some a" "g st r2 = Some b"
  shows "step E code pc st =
    (case do { v \<leftarrow> h E a b; s d v st } of Some st' \<Rightarrow> Continue (pc + 4) st' | None \<Rightarrow> Fault)"
proof -
  have at: "fetch code pc = Some opc" "code_byte code (pc + 1) = Some (of_nat r1)"
    "code_byte code (pc + 2) = Some (of_nat r2)" "code_byte code (pc + 3) = Some (of_nat d)"
    and r: "unat (of_nat r1 :: byte) = r1" "unat (of_nat r2 :: byte) = r2" "unat (of_nat d :: byte) = d"
    using assms(1) by (auto simp: operation_at_def unat_of_nat)
  have "do_operation s g (h E) code pc st = do { v \<leftarrow> h E a b; s d v st }"
    using do_operation_result [OF at(2-4), of g st a b] assms(3,4) r by simp
  then show ?thesis
    using step_data [OF at(1) assms(2)] by (simp add: call_jump_def operation_size_4)
qed

lemma arith_rows:
  "map_of data_instrs INTPLUS_INSTR = Some (operation_size, \<lambda>E. do_operation set_int get_int (\<lambda>a b. Some (a + b)))"
  "map_of data_instrs INTMINUS_INSTR = Some (operation_size, \<lambda>E. do_operation set_int get_int (\<lambda>a b. Some (a - b)))"
  "map_of data_instrs INTMUL_INSTR = Some (operation_size, \<lambda>E. do_operation set_int get_int (\<lambda>a b. Some (a * b)))"
  "map_of data_instrs INTDIV_INSTR = Some (operation_size, \<lambda>E. do_operation set_int get_int int_div)"
  "map_of data_instrs INTMOD_INSTR = Some (operation_size, \<lambda>E. do_operation set_int get_int int_mod)"
  by (simp_all add: data_instrs_def operation_instrs_def fun_eq_iff execute_intplus_def execute_intminus_def
      execute_intmul_def execute_intdiv_def execute_intmod_def)

lemma compare_rows:
  "map_of data_instrs INTEQUAL_INSTR = Some (operation_size, \<lambda>E. do_operation set_int get_int (\<lambda>a b. Some (of_bool (a = b))))"
  "map_of data_instrs INTNOTEQUAL_INSTR = Some (operation_size, \<lambda>E. do_operation set_int get_int (\<lambda>a b. Some (of_bool (a \<noteq> b))))"
  "map_of data_instrs INTLESSER_INSTR = Some (operation_size, \<lambda>E. do_operation set_bool get_int (\<lambda>a b. Some (sint a < sint b)))"
  "map_of data_instrs INTLESSEREQUAL_INSTR = Some (operation_size, \<lambda>E. do_operation set_bool get_int (\<lambda>a b. Some (sint a \<le> sint b)))"
  "map_of data_instrs INTGREATER_INSTR = Some (operation_size, \<lambda>E. do_operation set_bool get_int (\<lambda>a b. Some (sint a > sint b)))"
  "map_of data_instrs INTGREATEREQUAL_INSTR = Some (operation_size, \<lambda>E. do_operation set_bool get_int (\<lambda>a b. Some (sint a \<ge> sint b)))"
  by (simp_all add: data_instrs_def operation_instrs_def fun_eq_iff execute_intequal_def execute_intnotequal_def
      execute_intlesser_def execute_intlesserequal_def execute_intgreater_def execute_intgreaterequal_def)

lemma int_operation_step:
  assumes at: "operation_at code pc opc r1 r2 d st"
    and row: "map_of data_instrs opc = Some (operation_size, \<lambda>E. do_operation set_int get_int f)"
    and res: "f (field_int (st_regs st ! r1)) (field_int (st_regs st ! r2)) = w"
  shows "step E code pc st =
    (case w of None \<Rightarrow> Fault | Some v \<Rightarrow> Continue (pc + 4) (with_reg d (set_field_int (st_regs st ! d) v) st))"
proof -
  have r: "r1 < length (st_regs st)" "r2 < length (st_regs st)" "d < length (st_regs st)"
    using at by (auto simp: operation_at_def)
  show ?thesis
    using operation_step [OF at row get_int_ok [OF r(1)] get_int_ok [OF r(2)]] r(3)
    by (simp add: res set_int_ok with_reg_def split: option.split)
qed

lemma bool_operation_step:
  assumes at: "operation_at code pc opc r1 r2 d st"
    and row: "map_of data_instrs opc = Some (operation_size, \<lambda>E. do_operation set_bool get_int (\<lambda>a b. Some (R a b)))"
  shows "step E code pc st = Continue (pc + 4)
    (with_reg d (set_field_bool (st_regs st ! d) (R (field_int (st_regs st ! r1)) (field_int (st_regs st ! r2)))) st)"
proof -
  have r: "r1 < length (st_regs st)" "r2 < length (st_regs st)" "d < length (st_regs st)"
    using at by (auto simp: operation_at_def)
  show ?thesis
    using operation_step [OF at row get_int_ok [OF r(1)] get_int_ok [OF r(2)]] r(3)
    by (simp add: set_bool_ok with_reg_def)
qed

abbreviation reg_int :: "vm_state \<Rightarrow> nat \<Rightarrow> int" where
  "reg_int st r \<equiv> sint (field_int (st_regs st ! r))"

lemma continue_int:
  "s = Continue p (with_reg d (set_field_int f w) st) \<Longrightarrow> sint w = z \<Longrightarrow>
   \<exists>v. s = Continue p (with_reg d v st) \<and> sint (field_int v) = z"
  by (intro exI [of _ "set_field_int f w"]) simp

lemma continue_bool:
  "s = Continue p (with_reg d (set_field_bool f b) st) \<Longrightarrow> \<exists>v. s = Continue p (with_reg d v st) \<and> field_bool v = b"
  "s = Continue p (with_reg d (set_field_int f (of_bool b)) st) \<Longrightarrow> \<exists>v. s = Continue p (with_reg d v st) \<and> field_bool v = b"
  using field_bool_set_bool field_bool_set_int by blast+

lemma sint_eq_iff: "sint (a :: int_val) = sint b \<longleftrightarrow> a = b"
  by (metis signed_word_eqI)

lemma arith_step:
  assumes at: "operation_at code pc opc r1 r2 d st" and spec: "map_of arith_spec opc = Some g"
  shows "case g (reg_int st r1) (reg_int st r2) of
      None \<Rightarrow> step E code pc st = Fault
    | Some z \<Rightarrow> \<exists>v. step E code pc st = Continue (pc + 4) (with_reg d v st) \<and> sint (field_int v) = wrap32 z"
proof -
  consider "opc = INTPLUS_INSTR" | "opc = INTMINUS_INSTR" | "opc = INTMUL_INSTR" | "opc = INTDIV_INSTR" | "opc = INTMOD_INSTR"
    using spec by (auto simp: arith_spec_def split: if_splits)
  then show ?thesis
  proof cases
    case 1
    show ?thesis
      using spec continue_int [OF int_operation_step [OF at, unfolded 1, OF arith_rows(1) refl, unfolded option.case]]
      by (auto simp: 1 arith_spec_def sint_arith_wrap)
  next
    case 2
    show ?thesis
      using spec continue_int [OF int_operation_step [OF at, unfolded 2, OF arith_rows(2) refl, unfolded option.case]]
      by (auto simp: 2 arith_spec_def sint_arith_wrap)
  next
    case 3
    show ?thesis
      using spec continue_int [OF int_operation_step [OF at, unfolded 3, OF arith_rows(3) refl, unfolded option.case]]
      by (auto simp: 3 arith_spec_def sint_arith_wrap)
  next
    case 4
    note st = int_operation_step [OF at, unfolded 4, OF arith_rows(4)]
    show ?thesis
    proof (cases "division_traps (reg_int st r1) (reg_int st r2)")
      case True
      with spec st [of None] show ?thesis by (auto simp: 4 arith_spec_def int_div_def int_div_ok_iff)
    next
      case False
      with spec continue_int [OF st [of "Some w" for w, unfolded option.case]] show ?thesis
        by (auto simp: 4 arith_spec_def int_div_def int_div_ok_iff sint_word_of_int_wrap sdiv_quotient0)
    qed
  next
    case 5
    note st = int_operation_step [OF at, unfolded 5, OF arith_rows(5)]
    show ?thesis
    proof (cases "division_traps (reg_int st r1) (reg_int st r2)")
      case True
      with spec st [of None] show ?thesis by (auto simp: 5 arith_spec_def int_mod_def int_div_ok_iff)
    next
      case False
      then have "int_mod (field_int (st_regs st ! r1)) (field_int (st_regs st ! r2)) =
          Some (word_of_int (reg_int st r1 smod reg_int st r2))"
        by (simp add: int_mod_def int_div_ok_iff)
      from continue_int [OF st [OF this, unfolded option.case] sint_word_of_int_wrap] False spec show ?thesis
        by (auto simp: 5 arith_spec_def smod_quotient0)
    qed
  qed
qed

lemma compare_step:
  assumes at: "operation_at code pc opc r1 r2 d st" and spec: "map_of compare_spec opc = Some R"
  shows "\<exists>v. step E code pc st = Continue (pc + 4) (with_reg d v st) \<and> field_bool v = R (reg_int st r1) (reg_int st r2)"
proof -
  consider "opc = INTEQUAL_INSTR" | "opc = INTNOTEQUAL_INSTR" | "opc = INTLESSER_INSTR" | "opc = INTLESSEREQUAL_INSTR"
    | "opc = INTGREATER_INSTR" | "opc = INTGREATEREQUAL_INSTR"
    using spec by (auto simp: compare_spec_def split: if_splits)
  then show ?thesis
  proof cases
    case 1
    show ?thesis
      using spec continue_bool(2) [OF int_operation_step [OF at, unfolded 1, OF compare_rows(1) refl, unfolded option.case]]
      by (auto simp: 1 compare_spec_def sint_eq_iff)
  next
    case 2
    show ?thesis
      using spec continue_bool(2) [OF int_operation_step [OF at, unfolded 2, OF compare_rows(2) refl, unfolded option.case]]
      by (auto simp: 2 compare_spec_def sint_eq_iff)
  next
    case 3
    show ?thesis
      using spec continue_bool(1) [OF bool_operation_step [OF at, unfolded 3, OF compare_rows(3)]]
      by (auto simp: 3 compare_spec_def)
  next
    case 4
    show ?thesis
      using spec continue_bool(1) [OF bool_operation_step [OF at, unfolded 4, OF compare_rows(4)]]
      by (auto simp: 4 compare_spec_def)
  next
    case 5
    show ?thesis
      using spec continue_bool(1) [OF bool_operation_step [OF at, unfolded 5, OF compare_rows(5)]]
      by (auto simp: 5 compare_spec_def)
  next
    case 6
    show ?thesis
      using spec continue_bool(1) [OF bool_operation_step [OF at, unfolded 6, OF compare_rows(6)]]
      by (auto simp: 6 compare_spec_def)
  qed
qed

lemma if_step:
  assumes "fetch code pc = Some IF_INSTR" "code_byte code (pc + 1) = Some (of_nat d)" "if_jump code pc = Some j"
    "d < length (st_regs st)" "d < 256"
  shows "step E code pc st = Continue (if field_bool (st_regs st ! d) then pc + IF_BASE else pc + j) st"
proof -
  have "unat (of_nat d :: byte) = d" using assms(5) by (simp add: unat_of_nat)
  then show ?thesis
    using assms
    by (simp add: step_def execute_if_def if_reg_def operand_defs vm_size_simps get_bool_def get_reg_def continue_at_def)
qed

text \<open>
  C40. The arithmetic instructions compute the sum, difference, product, quotient rounded towards
  zero and remainder of their operands as signed integers, reduced to 32 bits, and write only the
  destination register; a division that traps is the only failure. The comparison instructions write
  a truth value that a following \<^verbatim>\<open>IF\<close> reads back, although some of them store an \<^verbatim>\<open>int\<close> and others
  a \<^verbatim>\<open>bool\<close>.
\<close>

theorem integer_instructions:
  assumes "operation_at code pc opc r1 r2 d st"
  shows "(map_of arith_spec opc = Some g \<longrightarrow>
       (case g (reg_int st r1) (reg_int st r2) of
          None \<Rightarrow> step E code pc st = Fault
        | Some z \<Rightarrow> \<exists>v. step E code pc st = Continue (pc + 4) (with_reg d v st) \<and> sint (field_int v) = wrap32 z))
    \<and> (map_of compare_spec opc = Some R \<longrightarrow> fetch code (pc + 4) = Some IF_INSTR \<longrightarrow>
       code_byte code (pc + 5) = Some (of_nat d) \<longrightarrow> if_jump code (pc + 4) = Some j \<longrightarrow>
       (\<exists>v. step E code pc st = Continue (pc + 4) (with_reg d v st) \<and>
            step E code (pc + 4) (with_reg d v st) =
              Continue (if R (reg_int st r1) (reg_int st r2) then pc + 4 + IF_BASE else pc + 4 + j) (with_reg d v st)))"
proof (intro conjI impI)
  assume "map_of arith_spec opc = Some g"
  from arith_step [OF assms this]
  show "case g (reg_int st r1) (reg_int st r2) of
      None \<Rightarrow> step E code pc st = Fault
    | Some z \<Rightarrow> \<exists>v. step E code pc st = Continue (pc + 4) (with_reg d v st) \<and> sint (field_int v) = wrap32 z" .
next
  assume "map_of compare_spec opc = Some R" and at: "fetch code (pc + 4) = Some IF_INSTR"
    "code_byte code (pc + 5) = Some (of_nat d)" "if_jump code (pc + 4) = Some j"
  from compare_step [OF assms this(1)] obtain v where
    v: "step E code pc st = Continue (pc + 4) (with_reg d v st)" "field_bool v = R (reg_int st r1) (reg_int st r2)"
    by blast
  have d: "d < length (st_regs st)" "d < 256" using assms by (auto simp: operation_at_def)
  have at2: "code_byte code (pc + 4 + 1) = Some (of_nat d)" using at(2) by (simp add: add.commute)
  have "step E code (pc + 4) (with_reg d v st) =
      Continue (if R (reg_int st r1) (reg_int st r2) then pc + 4 + IF_BASE else pc + 4 + j) (with_reg d v st)"
    using if_step [OF at(1) at2 at(3), of "with_reg d v st" E] d v(2) by (simp add: with_reg_def)
  with v(1) show "\<exists>v. step E code pc st = Continue (pc + 4) (with_reg d v st) \<and>
      step E code (pc + 4) (with_reg d v st) =
        Continue (if R (reg_int st r1) (reg_int st r2) then pc + 4 + IF_BASE else pc + 4 + j) (with_reg d v st)" by blast
qed

theorem integer_instructions_witness:
  "\<forall>E. \<exists>v. step E [INTDIV_INSTR, 0, 1, 2] 0 (two_tuples\<lparr>st_regs := [0xFFFFFFF9, 2, 0]\<rparr>) =
         Continue 4 (with_reg 2 v (two_tuples\<lparr>st_regs := [0xFFFFFFF9, 2, 0]\<rparr>)) \<and> sint (field_int v) = - 3"
proof
  fix E
  let ?st = "two_tuples\<lparr>st_regs := [0xFFFFFFF9, 2, 0]\<rparr>"
  have at: "operation_at [INTDIV_INSTR, 0, 1, 2] 0 INTDIV_INSTR 0 1 2 ?st"
    by (simp add: operation_at_def fetch_def)
  have v: "reg_int ?st 0 = - 7" "reg_int ?st 1 = 2"
    by (simp_all add: field_int_def)
  have "map_of arith_spec INTDIV_INSTR = Some (\<lambda>x y. if division_traps x y then None else Some (quotient0 x y))"
    by (simp add: arith_spec_def)
  with integer_instructions [OF at, where E = E] show "\<exists>v. step E [INTDIV_INSTR, 0, 1, 2] 0 ?st = Continue 4 (with_reg 2 v ?st) \<and>
      sint (field_int v) = - 3"
    unfolding v by (fastforce simp: division_traps_def quotient0_def wrap32_def)
qed

end
