(* ===== verification/Exec_Loop.thy ===== *)
theory Exec_Loop
  imports Exec_Local
begin

text \<open>
  When the interpreter loop ends. The static successors of an instruction are the addresses where a
  step may continue. A block of instructions whose successors stay in the block and lie ahead ends, whatever the state is: the bytes of code
  that are left bound the depth of the recursion, and the result does not depend on the fuel beyond that. \<^verbatim>\<open>CALLE\<close> does not have such successors: the loop multiplies the
  size of the instruction by the number of arguments.
\<close>

definition jump_targets :: "(nat \<Rightarrow> pcounter) \<Rightarrow> nat option \<Rightarrow> pcounter list" where
  "jump_targets f j = (case j of None \<Rightarrow> [] | Some k \<Rightarrow> [f k])"

definition successors :: "vm_env \<Rightarrow> byte_code \<Rightarrow> pcounter \<Rightarrow> pcounter list" where
  "successors E code pc =
     (case fetch code pc of
        None \<Rightarrow> []
      | Some i \<Rightarrow>
          if i \<in> {RETURN_INSTR, NEXT_INSTR, RETURN_LINEAR_INSTR, RETURN_DERIVED_INSTR, END_LINEAR_INSTR} then []
          else if i = RESET_LINEAR_INSTR then
            (pc + RESET_LINEAR_BASE) # jump_targets (\<lambda>j. pc + j) (reset_linear_jump code pc)
          else if i = RETURN_SELECT_INSTR then jump_targets (\<lambda>j. pc + j) (return_select_jump code pc)
          else if i = IF_INSTR then (pc + IF_BASE) # jump_targets (\<lambda>j. pc + j) (if_jump code pc)
          else if i = IF_ELSE_INSTR then (pc + IF_ELSE_BASE) # jump_targets (\<lambda>j. pc + j) (if_else_jump_else code pc)
          else if i = JUMP_INSTR then jump_targets (\<lambda>j. pc + (j + JUMP_BASE)) (jump_get code pc instr_size)
          else if i = SELECT_INSTR then jump_targets (\<lambda>p. p) (execute_select E code pc)
          else if i = CALLF_INSTR then jump_targets (\<lambda>p. p) (callf_target E code pc)
          else if i = CALL_INSTR then jump_targets (\<lambda>n. pc + (CALL_BASE + n * reg_val_size)) (call_num_args code pc)
          else if i = CALLE_INSTR then jump_targets (\<lambda>n. pc + CALLE_BASE * n) (calle_num_args code pc)
          else case map_of data_instrs i of Some (sz, f) \<Rightarrow> [pc + sz] | None \<Rightarrow> [])"

definition forward_block :: "vm_env \<Rightarrow> byte_code \<Rightarrow> pcounter list \<Rightarrow> bool" where
  "forward_block E code pcs \<longleftrightarrow>
     list_all (\<lambda>pc. fetch code pc \<noteq> Some MVSTACKPCOUNTER_INSTR \<and>
       list_all (\<lambda>q. pc < q \<and> q \<in> set pcs) (successors E code pc)) pcs"

lemma forward_blockD:
  assumes "forward_block E code pcs" "pc \<in> set pcs"
  shows "fetch code pc \<noteq> Some MVSTACKPCOUNTER_INSTR" "q \<in> set (successors E code pc) \<Longrightarrow> pc < q \<and> q \<in> set pcs"
  using assms by (auto simp: forward_block_def list_all_iff)

lemma jump_targets_mem [simp]: "q \<in> set (jump_targets f j) \<longleftrightarrow> (\<exists>k. j = Some k \<and> q = f k)"
  by (auto simp: jump_targets_def split: option.split)

lemma continue_at_iff: "continue_at p st = Continue q st' \<longleftrightarrow> p = Some q \<and> st' = st"
  by (auto simp: continue_at_def split: option.split)

lemma execute_if_next:
  "execute_if bse jump code pc st = Continue q st' \<Longrightarrow> q = pc + bse \<or> (\<exists>j. jump code pc = Some j \<and> q = pc + j)"
  by (auto simp: execute_if_def continue_at_iff bind_eq_Some_conv split: option.splits if_splits)

lemma call_jump_next: "call_jump npc f E code pc st = Continue q st' \<Longrightarrow> q = npc"
  by (simp add: call_jump_def split: option.splits)

lemma step_control_successor:
  assumes "step E code pc st = Continue pc' st'" "fetch code pc = Some i" "i \<in> set control_codes"
    "i \<noteq> MVSTACKPCOUNTER_INSTR" "i \<noteq> RESET_LINEAR_INSTR"
  shows "pc' \<in> set (successors E code pc)"
  using assms(3,1,2,4,5) unfolding control_codes_def list.set insert_iff empty_iff
  by (elim disjE)
    (simp_all add: step_def successors_def continue_at_iff bind_eq_Some_conv,
     auto dest: execute_if_next call_jump_next split: option.splits)

lemma step_successor:
  assumes "step E code pc st = Continue pc' st'" "fetch code pc \<noteq> Some MVSTACKPCOUNTER_INSTR"
    "fetch code pc \<noteq> Some RESET_LINEAR_INSTR"
  shows "pc' \<in> set (successors E code pc)"
proof (cases "fetch code pc")
  case None
  with assms(1) show ?thesis by (simp add: step_def)
next
  case (Some i)
  show ?thesis
  proof (cases "i \<in> set control_codes")
    case True
    then show ?thesis using step_control_successor [OF assms(1) Some] assms(2,3) Some by simp
  next
    case False
    then show ?thesis
      using assms(1) Some
      by (cases "map_of data_instrs i")
        (auto simp: step_def successors_def control_codes_def split: if_splits dest: call_jump_next)
  qed
qed

declare execute.simps [simp del]

lemma step_outside: "length code \<le> pc \<Longrightarrow> step E code pc st = Fault"
  by (simp add: step_def fetch_def code_byte_def)

lemma forward_ends:
  assumes "forward_block E code pcs"
  shows "pc \<in> set pcs \<Longrightarrow> length code \<le> pc + n \<Longrightarrow> execute (Suc n) E code pc st \<noteq> OutOfFuel"
proof (induction n arbitrary: pc st)
  case 0
  then show ?case by (simp add: execute.simps step_outside) (simp add: fetch_def code_byte_def)
next
  case (Suc n)
  note next_pc = forward_blockD [OF assms Suc.prems(1)]
  have ih: "execute (Suc n) E code q st' \<noteq> OutOfFuel" if "q \<in> set (successors E code pc)" for q st'
    using next_pc(2) [OF that] Suc.prems(2) by (intro Suc.IH) auto
  show ?case
  proof (cases "fetch code pc = Some RESET_LINEAR_INSTR")
    case True
    have "pc + RESET_LINEAR_BASE \<in> set (successors E code pc)"
      using True by (simp add: successors_def)
    moreover have "reset_linear_jump code pc = Some j \<Longrightarrow> pc + j \<in> set (successors E code pc)" for j
      using True by (simp add: successors_def jump_targets_def)
    ultimately show ?thesis
      using True ih execute.simps(2) [of "Suc n" E code pc st]
      by (auto split: exec_result.split option.split)
  next
    case False
    then have "step E code pc st = Continue q st' \<Longrightarrow> execute (Suc n) E code q st' \<noteq> OutOfFuel" for q st'
      using ih step_successor next_pc(1) by blast
    with False show ?thesis
      using execute.simps(2) [of "Suc n" E code pc st] by (auto split: outcome.split)
  qed
qed

lemma execute_Suc_fuel: "execute n E code pc st \<noteq> OutOfFuel \<Longrightarrow> execute (Suc n) E code pc st = execute n E code pc st"
proof (induction n arbitrary: pc st)
  case 0
  then show ?case by (simp add: execute.simps)
next
  case (Suc n)
  show ?case
  proof (cases "fetch code pc = Some RESET_LINEAR_INSTR")
    case True
    let ?inner = "execute n E code (pc + RESET_LINEAR_BASE) (st\<lparr>st_is_linear := False\<rparr>)"
    have "?inner \<noteq> OutOfFuel"
      using Suc.prems True by (auto simp: execute.simps)
    from Suc.IH [OF this] Suc.prems True show ?thesis
      unfolding execute.simps(2) [of "Suc n" E code pc st] execute.simps(2) [of n E code pc st]
      by (auto split: exec_result.splits option.splits if_splits intro: Suc.IH)
  next
    case False
    with Suc.prems show ?thesis
      unfolding execute.simps(2) [of "Suc n" E code pc st] execute.simps(2) [of n E code pc st]
      by (auto split: outcome.splits intro: Suc.IH)
  qed
qed

lemma execute_more_fuel:
  assumes "execute n E code pc st \<noteq> OutOfFuel" "n \<le> m"
  shows "execute m E code pc st = execute n E code pc st"
  using assms(2,1) by (induction rule: dec_induct) (simp_all add: execute_Suc_fuel)

lemma calle_loops:
  assumes "fetch code pc = Some CALLE_INSTR" "calle_num_args code pc = Some 0"
  shows "execute n E code pc st \<in> {OutOfFuel, Failed}"
proof (induction n arbitrary: st)
  case 0
  then show ?case by (simp add: execute.simps)
next
  case (Suc n)
  show ?case
  proof (cases "execute_calle E code pc st")
    case None
    then show ?thesis using assms by (simp add: execute.simps step_def call_jump_def)
  next
    case (Some st')
    then have "step E code pc st = Continue pc st'"
      using assms by (simp add: step_def call_jump_def)
    then show ?thesis using Suc.IH [of st'] assms(1) by (simp add: execute.simps)
  qed
qed

text \<open>
  C15. Code in a block without backward jumps ends: with one more than the number of bytes left as the bound on the depth of
  the recursion, the interpreter returns, stops at an instruction of another component or fails, and a larger bound does
  not change the result. An external call with \<^verbatim>\<open>CALLE\<close> and no arguments never gets to the next instruction: with every
  bound the interpreter fails in the call or uses the bound up, because the loop computes
  the next address by a multiplication and stays where it is.
\<close>

theorem forward_code_ends:
  assumes "forward_block E code pcs" "pc \<in> set pcs" "fuel = Suc (length code - pc)"
  shows "execute fuel E code pc st \<noteq> OutOfFuel
    \<and> (\<forall>m\<ge>fuel. execute m E code pc st = execute fuel E code pc st)
    \<and> (fetch code' q = Some CALLE_INSTR \<longrightarrow> calle_num_args code' q = Some 0 \<longrightarrow>
         (\<forall>m. execute m E code' q st \<in> {OutOfFuel, Failed}))"
proof -
  have ends: "execute fuel E code pc st \<noteq> OutOfFuel"
    unfolding assms(3) by (rule forward_ends [OF assms(1,2)]) simp
  with execute_more_fuel [OF ends] calle_loops show ?thesis by blast
qed

text \<open>A block that adds two registers if a flag is set.\<close>

definition add_if :: byte_code where
  "add_if = [IF_INSTR, 0, 10, 0, 0, 0, INTPLUS_INSTR, 1, 2, 3, RETURN_INSTR]"

theorem forward_code_ends_witness: "\<forall>E st. execute 12 E add_if 0 st \<noteq> OutOfFuel"
proof (intro allI)
  fix E st
  have row: "map_of data_instrs INTPLUS_INSTR = Some (4, execute_intplus)"
    by (simp add: data_instrs_def operation_instrs_def vm_size_simps)
  have block: "forward_block E add_if [0, 6, 10]"
    by (simp add: forward_block_def successors_def add_if_def fetch_def row if_jump_def jump_get_def
        pcounter_code_size_def code_bytes_def le_nat.simps vm_size_simps jump_targets_def)
  have start: "0 \<in> set [0, 6, 10 :: nat]" and len: "12 = Suc (length add_if - 0)"
    by (simp_all add: add_if_def)
  show "execute 12 E add_if 0 st \<noteq> OutOfFuel"
    by (rule conjunct1 [OF forward_code_ends [OF block start len]])
qed

end
