(* ===== verification/Match.thy ===== *)
theory Match
  imports Vm_State
begin

text \<open>
  Match objects (\<^verbatim>\<open>vm/match.hpp\<close>) and the functions of \<^verbatim>\<open>vm/exec.cpp\<close> that build, refresh and use them:
  the patterns that an iterator compares facts with. A match object is built from the code the first
  time an iterator runs and is kept in the code; later runs only refresh the values that come from
  registers, fields or the host node. The theorems: the number of templates is what was counted
  before, so that they fit into the object, and a refreshed object matches the same facts as one built
  anew.
  A pattern for a list owns the patterns of its head and tail; a pointer to one of them is the path
  that leads there. None is an exception or undefined behaviour. Reading nested patterns is bounded
  by fuel; the length of the code is enough.
\<close>

subsection \<open>Match objects\<close>

datatype variable_match_type = MATCH_REG | MATCH_FIELD | MATCH_HOST

datatype match_field = MF (mf_exact: bool) (mf_ty: vtype) (mf_val: match_val)
and match_val = Plain tuple_field | LM match_field match_field

text \<open>A path goes to the head (True) or to the tail (False) of a list pattern.\<close>

type_synonym match_path = "bool list"

record variable_match_template =
  vmt_match :: match_path
  vmt_type :: variable_match_type
  vmt_reg :: nat
  vmt_field :: nat

record match =
  m_any_exact :: bool
  m_matches :: "match_field list"
  m_vars :: "(nat \<times> variable_match_template) list"
  m_var_size :: nat

definition match_mem_size :: "nat \<Rightarrow> nat \<Rightarrow> nat" where
  "match_mem_size nfields var_size = 24 + nfields * 24 + var_size * 16"

definition MATCH_OBJECT_SIZE :: nat where
  "MATCH_OBJECT_SIZE = 256"

definition match_int :: "int_val \<Rightarrow> match_field \<Rightarrow> match_field" where
  "match_int v m = MF True (mf_ty m) (Plain (set_field_int (case mf_val m of Plain f \<Rightarrow> f | LM _ _ \<Rightarrow> 0) v))"

definition match_whole :: "tuple_field \<Rightarrow> match_field \<Rightarrow> match_field" where
  "match_whole v m = MF True (mf_ty m) (Plain v)"

definition match_float :: "float_val \<Rightarrow> match_field \<Rightarrow> match_field" where
  "match_float = match_whole"

definition match_node :: "node_val \<Rightarrow> match_field \<Rightarrow> match_field" where
  "match_node = match_whole"

definition match_nil :: "match_field \<Rightarrow> match_field" where
  "match_nil = match_whole 0"

definition match_non_nil :: "match_field \<Rightarrow> match_field" where
  "match_non_nil = match_whole 1"

definition match_list :: "match_field \<Rightarrow> match_field \<Rightarrow> vtype \<Rightarrow> match_field" where
  "match_list h t ty = MF True ty (LM h t)"

text \<open>A field that matches everything; its value is left uninitialised.\<close>

definition any_field :: "tuple_field \<Rightarrow> vtype \<Rightarrow> match_field" where
  "any_field junk t = MF False t (Plain junk)"

definition init_match :: "tuple_field \<Rightarrow> predicate \<Rightarrow> nat \<Rightarrow> match" where
  "init_match junk p var_size =
     \<lparr>m_any_exact = False, m_matches = map (any_field junk) (p_types p), m_vars = [], m_var_size = var_size\<rparr>"

subsection \<open>Comparing facts\<close>

fun do_rec_match :: "heap \<Rightarrow> match_field \<Rightarrow> tuple_field \<Rightarrow> vtype \<Rightarrow> bool option" where
  "do_rec_match H (MF e ty (Plain f)) x t =
     (case t of
        BaseT FIELD_INT \<Rightarrow> Some (field_int f = field_int x)
      | BaseT FIELD_FLOAT \<Rightarrow> Some (float_eq (field_float f) (field_float x))
      | BaseT FIELD_NODE \<Rightarrow> Some (field_node f = field_node x)
      | ListT s \<Rightarrow> if f = 0 then Some (x = 0) else if f = 1 then Some (x \<noteq> 0) else None
      | _ \<Rightarrow> None)"
| "do_rec_match H (MF e ty (LM h tlm)) x t =
     (case t of
        ListT s \<Rightarrow>
          if x = 0 then Some False
          else do { hx \<leftarrow> get_head H x;
                    b \<leftarrow> (if mf_exact h then do_rec_match H h hx s else Some True);
                    if \<not> b then Some False
                    else do { tx \<leftarrow> get_tail H x; if mf_exact tlm then do_rec_match H tlm tx t else Some True } }
      | _ \<Rightarrow> None)"

fun matches_from :: "heap \<Rightarrow> match_field list \<Rightarrow> tuple_field list \<Rightarrow> vtype list \<Rightarrow> bool option" where
  "matches_from H (m # ms) (x # xs) (t # ts) =
     do { b \<leftarrow> (if mf_exact m then do_rec_match H m x t else Some True);
          if b then matches_from H ms xs ts else Some False }"
| "matches_from H _ _ [] = Some True"
| "matches_from H _ _ _ = None"

definition do_matches :: "heap \<Rightarrow> match option \<Rightarrow> tuple_field list \<Rightarrow> predicate \<Rightarrow> bool option" where
  "do_matches H m tpl p =
     (case m of None \<Rightarrow> Some True
      | Some m \<Rightarrow> if \<not> m_any_exact m then Some True else matches_from H (m_matches m) tpl (p_types p))"

subsection \<open>Building\<close>

definition field_operand_value ::
  "byte_code \<Rightarrow> vm_state \<Rightarrow> pcounter \<Rightarrow> (tuple_field \<times> nat \<times> nat) option" where
  "field_operand_value code st pc =
     do { r \<leftarrow> val_field_reg code pc; tpl \<leftarrow> get_ptr st r; i \<leftarrow> val_field_num code pc;
          v \<leftarrow> get_field st tpl i; Some (v, r, i) }"

text \<open>The pattern of a head or tail that may be anything is skipped.\<close>

definition unless_any :: "byte \<Rightarrow> 'a \<Rightarrow> 'a option \<Rightarrow> 'a option" where
  "unless_any val skipped b = (if val_is_any val then Some skipped else b)"

type_synonym built = "match_field \<times> variable_match_template list \<times> bool \<times> pcounter"

fun build_match_element ::
  "nat \<Rightarrow> vm_env \<Rightarrow> byte_code \<Rightarrow> vm_state \<Rightarrow> tuple_field \<Rightarrow> byte \<Rightarrow> vtype \<Rightarrow> match_field \<Rightarrow> pcounter \<Rightarrow> built option" where
  "build_match_element 0 E code st junk val t mf pc = None"
| "build_match_element (Suc n) E code st junk val t mf pc =
     (case t of
        BaseT FIELD_INT \<Rightarrow>
          if val_is_reg val then
            do { i \<leftarrow> get_int st (val_reg val);
                 Some (match_int i mf, [\<lparr>vmt_match = [], vmt_type = MATCH_REG, vmt_reg = val_reg val, vmt_field = 0\<rparr>], True, pc) }
          else if val_is_field val then
            do { (v, r, i) \<leftarrow> field_operand_value code st pc;
                 Some (match_int (field_int v) mf,
                   [\<lparr>vmt_match = [], vmt_type = MATCH_FIELD, vmt_reg = r, vmt_field = i\<rparr>], True, pcounter_move_field pc) }
          else if val_is_int val then
            do { i \<leftarrow> pcounter_int code pc; Some (match_int i mf, [], True, pcounter_move_int pc) }
          else None
      | BaseT FIELD_FLOAT \<Rightarrow>
          if val_is_field val then
            do { (v, r, i) \<leftarrow> field_operand_value code st pc;
                 Some (match_float (field_float v) mf,
                   [\<lparr>vmt_match = [], vmt_type = MATCH_FIELD, vmt_reg = r, vmt_field = i\<rparr>], True, pcounter_move_field pc) }
          else if val_is_float val then
            do { v \<leftarrow> pcounter_float code pc; Some (match_float v mf, [], True, pcounter_move_float pc) }
          else None
      | BaseT FIELD_NODE \<Rightarrow>
          if val_is_reg val then
            do { v \<leftarrow> get_node st (val_reg val);
                 Some (match_node v mf, [\<lparr>vmt_match = [], vmt_type = MATCH_REG, vmt_reg = val_reg val, vmt_field = 0\<rparr>], True, pc) }
          else if val_is_field val then
            do { (v, r, i) \<leftarrow> field_operand_value code st pc;
                 Some (match_node (field_node v) mf,
                   [\<lparr>vmt_match = [], vmt_type = MATCH_FIELD, vmt_reg = r, vmt_field = i\<rparr>], True, pcounter_move_field pc) }
          else if val_is_host val then
            Some (match_node (ve_node E) mf, [\<lparr>vmt_match = [], vmt_type = MATCH_HOST, vmt_reg = 0, vmt_field = 0\<rparr>], True, pc)
          else if val_is_node val then
            do { v \<leftarrow> pcounter_node code pc; Some (match_node v mf, [], True, pcounter_move_node pc) }
          else None
      | ListT s \<Rightarrow>
          if val_is_any val then Some (MF False (mf_ty mf) (mf_val mf), [], False, pc)
          else if val_is_nil val then Some (match_nil mf, [], True, pc)
          else if val_is_non_nil val then Some (match_non_nil mf, [], True, pc)
          else if val_is_list val then
            do { hv \<leftarrow> val_get code pc 0;
                 (h, vs1, a1, pc) \<leftarrow>
                   unless_any hv (any_field junk s, [], False, pcounter_move_byte pc)
                     (build_match_element n E code st junk hv s (any_field junk s) (pcounter_move_byte pc));
                 tv \<leftarrow> val_get code pc 0;
                 (tlm, vs2, a2, pc) \<leftarrow>
                   unless_any tv (any_field junk t, [], False, pcounter_move_byte pc)
                     (build_match_element n E code st junk tv t (any_field junk t) (pcounter_move_byte pc));
                 Some (match_list h tlm t,
                   map (\<lambda>v. v\<lparr>vmt_match := True # vmt_match v\<rparr>) vs1 @ map (\<lambda>v. v\<lparr>vmt_match := False # vmt_match v\<rparr>) vs2,
                   True, pc) }
          else None
      | _ \<Rightarrow> None)"

text \<open>One round of the loop stores the new pattern and appends its templates; too many fail the assertion.\<close>

fun build_match_object ::
  "nat \<Rightarrow> vm_env \<Rightarrow> byte_code \<Rightarrow> vm_state \<Rightarrow> tuple_field \<Rightarrow> predicate \<Rightarrow> nat \<Rightarrow> pcounter \<Rightarrow> match \<Rightarrow> match option" where
  "build_match_object fuel E code st junk p 0 pc m = Some m"
| "build_match_object fuel E code st junk p (Suc k) pc m =
     do { i \<leftarrow> iter_match_field code pc; val \<leftarrow> iter_match_val code pc;
          t \<leftarrow> field_type_of p i;
          if i < length (m_matches m) then
            do { (mf, vs, a, pc) \<leftarrow> build_match_element fuel E code st junk val t (m_matches m ! i) (pcounter_move_match pc);
                 if length (m_vars m) + length vs \<le> m_var_size m then
                   build_match_object fuel E code st junk p k pc
                     (m\<lparr>m_any_exact := m_any_exact m \<or> a, m_matches := (m_matches m)[i := mf],
                        m_vars := m_vars m @ map (Pair i) vs\<rparr>)
                 else None }
          else None }"

subsection \<open>Counting\<close>

fun count_var_match_element :: "nat \<Rightarrow> byte_code \<Rightarrow> byte \<Rightarrow> vtype \<Rightarrow> pcounter \<Rightarrow> (nat \<times> pcounter) option" where
  "count_var_match_element 0 code val t pc = None"
| "count_var_match_element (Suc n) code val t pc =
     (case t of
        BaseT FIELD_INT \<Rightarrow>
          if val_is_reg val then Some (1, pc)
          else if val_is_field val then Some (1, pcounter_move_field pc)
          else if val_is_int val then Some (0, pcounter_move_int pc)
          else None
      | BaseT FIELD_FLOAT \<Rightarrow>
          if val_is_reg val then Some (1, pc)
          else if val_is_field val then Some (1, pcounter_move_field pc)
          else if val_is_float val then Some (0, pcounter_move_float pc)
          else None
      | BaseT FIELD_NODE \<Rightarrow>
          if val_is_reg val then Some (1, pc)
          else if val_is_field val then Some (1, pcounter_move_field pc)
          else if val_is_host val then Some (1, pc)
          else if val_is_node val then Some (0, pcounter_move_node pc)
          else None
      | ListT s \<Rightarrow>
          if val_is_any val \<or> val_is_nil val \<or> val_is_non_nil val then Some (0, pc)
          else if val_is_list val then
            do { hv \<leftarrow> val_get code pc 0;
                 (c1, pc) \<leftarrow>
                   unless_any hv (0, pcounter_move_byte pc) (count_var_match_element n code hv s (pcounter_move_byte pc));
                 tv \<leftarrow> val_get code pc 0;
                 (c2, pc) \<leftarrow>
                   unless_any tv (0, pcounter_move_byte pc) (count_var_match_element n code tv t (pcounter_move_byte pc));
                 Some (c1 + c2, pc) }
          else None
      | _ \<Rightarrow> None)"

fun count_variable_match_elements :: "nat \<Rightarrow> byte_code \<Rightarrow> predicate \<Rightarrow> nat \<Rightarrow> pcounter \<Rightarrow> nat option" where
  "count_variable_match_elements fuel code p 0 pc = Some 0"
| "count_variable_match_elements fuel code p (Suc k) pc =
     do { i \<leftarrow> iter_match_field code pc; val \<leftarrow> iter_match_val code pc; t \<leftarrow> field_type_of p i;
          (c, pc) \<leftarrow> count_var_match_element fuel code val t (pcounter_move_match pc);
          r \<leftarrow> count_variable_match_elements fuel code p k pc;
          Some (c + r) }"

subsection \<open>Refreshing and retrieving\<close>

fun update_field :: "match_path \<Rightarrow> tuple_field \<Rightarrow> match_field \<Rightarrow> match_field option" where
  "update_field [] v (MF e ty w) = Some (MF e ty (Plain v))"
| "update_field (True # bs) v (MF e ty (LM h t)) = do { h \<leftarrow> update_field bs v h; Some (MF e ty (LM h t)) }"
| "update_field (False # bs) v (MF e ty (LM h t)) = do { t \<leftarrow> update_field bs v t; Some (MF e ty (LM h t)) }"
| "update_field _ v (MF e ty (Plain w)) = None"

definition template_value :: "vm_env \<Rightarrow> vm_state \<Rightarrow> variable_match_template \<Rightarrow> tuple_field option" where
  "template_value E st v =
     (case vmt_type v of
        MATCH_FIELD \<Rightarrow> do { tpl \<leftarrow> get_ptr st (vmt_reg v); get_field st tpl (vmt_field v) }
      | MATCH_REG \<Rightarrow> get_reg st (vmt_reg v)
      | MATCH_HOST \<Rightarrow> Some (ve_node E))"

fun refresh :: "vm_env \<Rightarrow> vm_state \<Rightarrow> (nat \<times> variable_match_template) list \<Rightarrow> match_field list \<Rightarrow> match_field list option" where
  "refresh E st [] ms = Some ms"
| "refresh E st ((i, v) # vs) ms =
     (if i < length ms then
        do { x \<leftarrow> template_value E st v; mf \<leftarrow> update_field (vmt_match v) x (ms ! i); refresh E st vs (ms[i := mf]) }
      else None)"

text \<open>
  The object that the code keeps for the running thread is an argument; the result has the object to
  use. Objects for all threads are built from the same state.
\<close>

definition retrieve_match_object ::
  "nat \<Rightarrow> vm_env \<Rightarrow> byte_code \<Rightarrow> vm_state \<Rightarrow> tuple_field \<Rightarrow> predicate \<Rightarrow> nat \<Rightarrow> pcounter \<Rightarrow> match option \<Rightarrow> match option option" where
  "retrieve_match_object fuel E code st junk p bse pc cached =
     do { matches \<leftarrow> iter_matches_size code pc bse;
          if matches > 0 then
            do { m \<leftarrow> (case cached of
                         Some m \<Rightarrow> Some m
                       | None \<Rightarrow>
                           do { var_size \<leftarrow> count_variable_match_elements fuel code p matches (pc + bse);
                                if match_mem_size (length (p_types p)) var_size > MATCH_OBJECT_SIZE then None
                                else build_match_object fuel E code st junk p matches (pc + bse) (init_match junk p var_size) });
                 const \<leftarrow> iter_constant_match code pc;
                 if \<not> const then do { ms \<leftarrow> refresh E st (m_vars m) (m_matches m); Some (Some (m\<lparr>m_matches := ms\<rparr>)) }
                 else Some (Some m) }
          else Some None }"

subsection \<open>Counting and building agree\<close>

lemmas val_kinds = val_is_any_def val_is_nil_def val_is_non_nil_def val_is_list_def

lemma build_list_pattern:
  assumes "build_match_element (Suc n) E code st junk val (ListT s) mf pc = Some (mf', vs, a, pc')"
    "\<not> (val_is_any val \<or> val_is_nil val \<or> val_is_non_nil val)"
  obtains hv h vs1 a1 pc1 tv tm vs2 a2 where
    "val_is_list val" "val_get code pc 0 = Some hv" "val_get code pc1 0 = Some tv"
    "unless_any hv (any_field junk s, [], False, pcounter_move_byte pc)
       (build_match_element n E code st junk hv s (any_field junk s) (pcounter_move_byte pc)) = Some (h, vs1, a1, pc1)"
    "unless_any tv (any_field junk (ListT s), [], False, pcounter_move_byte pc1)
       (build_match_element n E code st junk tv (ListT s) (any_field junk (ListT s)) (pcounter_move_byte pc1))
         = Some (tm, vs2, a2, pc')"
    "mf' = MF True (ListT s) (LM h tm)" "a"
    "vs = map (\<lambda>v. v\<lparr>vmt_match := True # vmt_match v\<rparr>) vs1 @ map (\<lambda>v. v\<lparr>vmt_match := False # vmt_match v\<rparr>) vs2"
  using assms by (auto simp: bind_eq_Some_conv match_list_def split: if_split_asm)

lemma count_match_element:
  "build_match_element n E code st junk val t mf pc = Some (mf', vs, a, pc') \<Longrightarrow>
   count_var_match_element n code val t pc = Some (length vs, pc')"
proof (induction n arbitrary: val t mf pc mf' vs a pc')
  case (Suc n)
  show ?case
  proof (cases t)
    case (BaseT b)
    then show ?thesis
      using Suc.prems
      by (cases b) (auto simp: bind_eq_Some_conv val_is_reg_def val_is_field_def val_is_float_def split: if_splits)
  next
    case (ListT s)
    show ?thesis
    proof (cases "val_is_any val \<or> val_is_nil val \<or> val_is_non_nil val")
      case True
      then show ?thesis using Suc.prems by (auto simp: ListT split: if_splits)
    next
      case False
      from build_list_pattern [OF Suc.prems [unfolded ListT] False]
      obtain hv h vs1 a1 pc1 tv tm vs2 a2 where
        l: "val_is_list val" "val_get code pc 0 = Some hv" "val_get code pc1 0 = Some tv"
          "unless_any hv (any_field junk s, [], False, pcounter_move_byte pc)
             (build_match_element n E code st junk hv s (any_field junk s) (pcounter_move_byte pc)) = Some (h, vs1, a1, pc1)"
          "unless_any tv (any_field junk (ListT s), [], False, pcounter_move_byte pc1)
             (build_match_element n E code st junk tv (ListT s) (any_field junk (ListT s)) (pcounter_move_byte pc1))
               = Some (tm, vs2, a2, pc')"
          "mf' = MF True (ListT s) (LM h tm)" a
          "vs = map (\<lambda>v. v\<lparr>vmt_match := True # vmt_match v\<rparr>) vs1 @ map (\<lambda>v. v\<lparr>vmt_match := False # vmt_match v\<rparr>) vs2" .
      have "unless_any hv (0, pcounter_move_byte pc) (count_var_match_element n code hv s (pcounter_move_byte pc))
          = Some (length vs1, pc1)"
        using l(4) Suc.IH by (auto simp: unless_any_def split: if_splits)
      moreover have "unless_any tv (0, pcounter_move_byte pc1)
          (count_var_match_element n code tv (ListT s) (pcounter_move_byte pc1)) = Some (length vs2, pc')"
        using l(5) Suc.IH by (auto simp: unless_any_def split: if_splits)
      ultimately show ?thesis using False l(1-3,8) by (simp add: ListT)
    qed
  qed (use Suc.prems in simp_all)
qed simp

lemma count_match_object:
  "build_match_object fuel E code st junk p k pc m = Some m' \<Longrightarrow>
   \<exists>c. count_variable_match_elements fuel code p k pc = Some c \<and> length (m_vars m') = length (m_vars m) + c"
proof (induction k arbitrary: pc m)
  case (Suc k)
  from Suc.prems obtain i val t mf vs a pc' where
    b: "iter_match_field code pc = Some i" "iter_match_val code pc = Some val" "field_type_of p i = Some t"
      "build_match_element fuel E code st junk val t (m_matches m ! i) (pcounter_move_match pc) = Some (mf, vs, a, pc')"
    and rest: "build_match_object fuel E code st junk p k pc'
      (m\<lparr>m_any_exact := m_any_exact m \<or> a, m_matches := (m_matches m)[i := mf], m_vars := m_vars m @ map (Pair i) vs\<rparr>) = Some m'"
    by (auto simp: bind_eq_Some_conv split: if_splits)
  from Suc.IH [OF rest] count_match_element [OF b(4)] show ?case by (auto simp: b)
qed simp

text \<open>A larger object holds the same patterns: the assertion on the number of templates cannot fail.\<close>

lemma build_match_size:
  "build_match_object fuel E code st junk p k pc m = Some m' \<Longrightarrow>
   count_variable_match_elements fuel code p k pc = Some c \<Longrightarrow> length (m_vars m) + c \<le> w \<Longrightarrow>
   build_match_object fuel E code st junk p k pc (m\<lparr>m_var_size := w\<rparr>) = Some (m'\<lparr>m_var_size := w\<rparr>)"
proof (induction k arbitrary: pc m c)
  case (Suc k)
  from Suc.prems(1) obtain i val t mf vs a pc' where
    b: "iter_match_field code pc = Some i" "iter_match_val code pc = Some val" "field_type_of p i = Some t"
      "build_match_element fuel E code st junk val t (m_matches m ! i) (pcounter_move_match pc) = Some (mf, vs, a, pc')"
      "i < length (m_matches m)"
    and rest: "build_match_object fuel E code st junk p k pc'
      (m\<lparr>m_any_exact := m_any_exact m \<or> a, m_matches := (m_matches m)[i := mf], m_vars := m_vars m @ map (Pair i) vs\<rparr>) = Some m'"
    by (auto simp: bind_eq_Some_conv split: if_splits)
  from Suc.prems(2) count_match_element [OF b(4)] obtain r where
    r: "count_variable_match_elements fuel code p k pc' = Some r" "c = length vs + r"
    by (auto simp: b bind_eq_Some_conv)
  have ord: "m\<lparr>m_var_size := w, m_any_exact := x, m_matches := ms, m_vars := vs'\<rparr> =
      m\<lparr>m_any_exact := x, m_matches := ms, m_vars := vs', m_var_size := w\<rparr>" for x ms vs'
    by (cases m) simp
  from Suc.IH [OF rest r(1)] Suc.prems(3) r(2) show ?case by (simp add: b ord)
qed simp

subsection \<open>Refreshing\<close>

fun refresh_field :: "vm_env \<Rightarrow> vm_state \<Rightarrow> variable_match_template list \<Rightarrow> match_field \<Rightarrow> match_field option" where
  "refresh_field E st [] mf = Some mf"
| "refresh_field E st (v # vs) mf =
     do { x \<leftarrow> template_value E st v; mf \<leftarrow> update_field (vmt_match v) x mf; refresh_field E st vs mf }"

lemma template_value_path [simp]: "template_value E st (v\<lparr>vmt_match := q\<rparr>) = template_value E st v"
  by (simp add: template_value_def split: variable_match_type.split)

lemma refresh_field_append:
  "refresh_field E st (vs @ ws) mf = do { mf \<leftarrow> refresh_field E st vs mf; refresh_field E st ws mf }"
  by (induction vs arbitrary: mf) (auto split: Option.bind_split)

lemma refresh_field_head:
  "refresh_field E st (map (\<lambda>v. v\<lparr>vmt_match := True # vmt_match v\<rparr>) vs) (MF e ty (LM h t)) =
     do { h \<leftarrow> refresh_field E st vs h; Some (MF e ty (LM h t)) }"
  by (induction vs arbitrary: h) (auto split: Option.bind_split)

lemma refresh_field_tail:
  "refresh_field E st (map (\<lambda>v. v\<lparr>vmt_match := False # vmt_match v\<rparr>) vs) (MF e ty (LM h t)) =
     do { t \<leftarrow> refresh_field E st vs t; Some (MF e ty (LM h t)) }"
  by (induction vs arbitrary: t) (auto split: Option.bind_split)

lemma refresh_field_list:
  "refresh_field E st
     (map (\<lambda>v. v\<lparr>vmt_match := True # vmt_match v\<rparr>) vs @ map (\<lambda>v. v\<lparr>vmt_match := False # vmt_match v\<rparr>) ws)
     (MF e ty (LM h t)) =
     do { h \<leftarrow> refresh_field E st vs h; t \<leftarrow> refresh_field E st ws t; Some (MF e ty (LM h t)) }"
  by (simp add: refresh_field_append refresh_field_head refresh_field_tail bind_assoc)

text \<open>Refreshing twice is the same as refreshing the second time only.\<close>

definition overwrites :: "variable_match_template list \<Rightarrow> bool" where
  "overwrites vs \<longleftrightarrow> (\<forall>m E st b E' st'. refresh_field E st vs m = Some b \<longrightarrow>
     refresh_field E' st' vs b = refresh_field E' st' vs m)"

lemma overwrites_Nil [simp]: "overwrites []"
  by (simp add: overwrites_def)

lemma overwrites_leaf [simp]: "overwrites [\<lparr>vmt_match = [], vmt_type = ty, vmt_reg = r, vmt_field = i\<rparr>]"
  unfolding overwrites_def
proof (intro allI impI)
  fix m E st b E' st'
  assume "refresh_field E st [\<lparr>vmt_match = [], vmt_type = ty, vmt_reg = r, vmt_field = i\<rparr>] m = Some b"
  then show "refresh_field E' st' [\<lparr>vmt_match = [], vmt_type = ty, vmt_reg = r, vmt_field = i\<rparr>] b =
      refresh_field E' st' [\<lparr>vmt_match = [], vmt_type = ty, vmt_reg = r, vmt_field = i\<rparr>] m"
    by (cases m) (auto simp: bind_eq_Some_conv split: Option.bind_split)
qed

lemma refresh_field_plain:
  "refresh_field E st (map (\<lambda>v. v\<lparr>vmt_match := b # vmt_match v\<rparr>) vs) (MF e ty (Plain w)) = Some r \<Longrightarrow> vs = []"
  by (cases vs) (auto simp: bind_eq_Some_conv)

lemma overwrites_list:
  assumes "overwrites vs" "overwrites ws"
  shows "overwrites (map (\<lambda>v. v\<lparr>vmt_match := True # vmt_match v\<rparr>) vs @ map (\<lambda>v. v\<lparr>vmt_match := False # vmt_match v\<rparr>) ws)"
  unfolding overwrites_def
proof (intro allI impI)
  let ?vs = "map (\<lambda>v. v\<lparr>vmt_match := True # vmt_match v\<rparr>) vs @ map (\<lambda>v. v\<lparr>vmt_match := False # vmt_match v\<rparr>) ws"
  fix m E st b E' st'
  assume r: "refresh_field E st ?vs m = Some b"
  obtain e ty w where m: "m = MF e ty w" by (cases m)
  show "refresh_field E' st' ?vs b = refresh_field E' st' ?vs m"
  proof (cases w)
    case (Plain x)
    from r obtain y where y: "refresh_field E st (map (\<lambda>v. v\<lparr>vmt_match := True # vmt_match v\<rparr>) vs) m = Some y"
      "refresh_field E st (map (\<lambda>v. v\<lparr>vmt_match := False # vmt_match v\<rparr>) ws) y = Some b"
      by (auto simp: refresh_field_append bind_eq_Some_conv)
    from y(1) have "vs = []" unfolding m Plain by (rule refresh_field_plain)
    moreover from this y have "ws = []" by (auto simp: m Plain intro: refresh_field_plain)
    ultimately show ?thesis using r by simp
  next
    case (LM h t)
    with r m obtain h' t' where "refresh_field E st vs h = Some h'" "refresh_field E st ws t = Some t'" "b = MF e ty (LM h' t')"
      by (auto simp: refresh_field_list bind_eq_Some_conv)
    with assms show ?thesis by (simp add: m LM refresh_field_list overwrites_def)
  qed
qed

text \<open>Patterns that match the same values of a type.\<close>

definition similar :: "vtype \<Rightarrow> match_field \<Rightarrow> match_field \<Rightarrow> bool" where
  "similar t a b \<longleftrightarrow> mf_exact a = mf_exact b \<and> (mf_exact a \<longrightarrow> (\<forall>H x. do_rec_match H a x t = do_rec_match H b x t))"

lemma similar_list: "similar s h h' \<Longrightarrow> similar (ListT s) t t' \<Longrightarrow>
    similar (ListT s) (MF True ty (LM h t)) (MF True ty' (LM h' t'))"
  by (auto simp: similar_def split: Option.bind_split)

lemma similar_any: "\<not> mf_exact a \<Longrightarrow> \<not> mf_exact b \<Longrightarrow> similar t a b"
  by (simp add: similar_def)

lemma similar_refl [simp]: "similar t a a"
  by (simp add: similar_def)

lemma field_operand_pair:
  assumes "field_operand_value code st pc = Some (v, r, i)" "field_operand_value code st' pc = Some (v', r', i')"
  shows "r' = r" "i' = i" "template_value E st' \<lparr>vmt_match = q, vmt_type = MATCH_FIELD, vmt_reg = r, vmt_field = i\<rparr> = Some v'"
  using assms by (auto simp: field_operand_value_def template_value_def bind_eq_Some_conv)

lemma reg_template:
  "template_value E st \<lparr>vmt_match = q, vmt_type = MATCH_REG, vmt_reg = r, vmt_field = i\<rparr> = get_reg st r"
  "template_value E st \<lparr>vmt_match = q, vmt_type = MATCH_HOST, vmt_reg = r, vmt_field = i\<rparr> = Some (ve_node E)"
  by (simp_all add: template_value_def)

lemmas match_leaf_defs = match_int_def match_float_def match_node_def match_whole_def match_nil_def match_non_nil_def

text \<open>
  Two runs of the builder over the same code: the templates are the same, and refreshing the first
  result in the state of the second gives a pattern like the second result.
\<close>

lemma build_base_element:
  assumes "build_match_element (Suc n) E code st junk val (BaseT b) mf pc = Some (m0, vs, a, pc0)"
    "build_match_element (Suc n) E' code st' junk' val (BaseT b) mf' pc = Some (m1, vs1, a1, pc1)"
  shows "vs1 = vs \<and> a1 = a \<and> pc1 = pc0 \<and> overwrites vs \<and>
    (\<exists>m. refresh_field E' st' vs m0 = Some m \<and> similar (BaseT b) m m1)"
proof (cases "val_is_field val")
  case True
  then have reg: "\<not> val_is_reg val" by (simp add: val_is_field_def val_is_reg_def)
  with True assms obtain v r i v' r' i' where
    f: "field_operand_value code st pc = Some (v, r, i)" "field_operand_value code st' pc = Some (v', r', i')"
    by (cases b) (auto simp: bind_eq_Some_conv)
  from True reg assms show ?thesis
    by (cases b) (auto simp: f field_operand_pair [OF f] match_leaf_defs similar_def whole_field_defs)
next
  case False
  with assms show ?thesis
    by (cases b) (auto simp: bind_eq_Some_conv match_leaf_defs similar_def reg_template get_int_def get_node_def whole_field_defs
      split: if_splits)
qed

lemma build_element_pair:
  "build_match_element n E code st junk val t mf pc = Some (m0, vs, a, pc0) \<Longrightarrow>
   build_match_element n E' code st' junk' val t mf' pc = Some (m1, vs1, a1, pc1) \<Longrightarrow>
   vs1 = vs \<and> a1 = a \<and> pc1 = pc0 \<and> overwrites vs \<and>
   (\<exists>m. refresh_field E' st' vs m0 = Some m \<and> similar t m m1)"
proof (induction n arbitrary: val t mf mf' pc m0 vs a pc0 m1 vs1 a1 pc1)
  case (Suc n)
  show ?case
  proof (cases t)
    case (BaseT b)
    show ?thesis
      using build_base_element [OF Suc.prems [unfolded BaseT]] unfolding BaseT .
  next
    case (ListT s)
    show ?thesis
    proof (cases "val_is_any val \<or> val_is_nil val \<or> val_is_non_nil val")
      case True
      then show ?thesis
        using Suc.prems by (auto simp: ListT match_leaf_defs similar_def split: if_splits)
    next
      case False
      from build_list_pattern [OF Suc.prems(1) [unfolded ListT] False]
      obtain hv h us1 b1 p1 tv tm us2 b2 where
        l: "val_get code pc 0 = Some hv" "val_get code p1 0 = Some tv"
          "unless_any hv (any_field junk s, [], False, pcounter_move_byte pc)
             (build_match_element n E code st junk hv s (any_field junk s) (pcounter_move_byte pc)) = Some (h, us1, b1, p1)"
          "unless_any tv (any_field junk t, [], False, pcounter_move_byte p1)
             (build_match_element n E code st junk tv t (any_field junk t) (pcounter_move_byte p1)) = Some (tm, us2, b2, pc0)"
        and r: "m0 = MF True t (LM h tm)" a
          "vs = map (\<lambda>v. v\<lparr>vmt_match := True # vmt_match v\<rparr>) us1 @ map (\<lambda>v. v\<lparr>vmt_match := False # vmt_match v\<rparr>) us2"
        unfolding ListT .
      from build_list_pattern [OF Suc.prems(2) [unfolded ListT] False]
      obtain hv' h' us1' b1' p1' tv' tm' us2' b2' where
        l': "val_get code pc 0 = Some hv'" "val_get code p1' 0 = Some tv'"
          "unless_any hv' (any_field junk' s, [], False, pcounter_move_byte pc)
             (build_match_element n E' code st' junk' hv' s (any_field junk' s) (pcounter_move_byte pc)) = Some (h', us1', b1', p1')"
          "unless_any tv' (any_field junk' t, [], False, pcounter_move_byte p1')
             (build_match_element n E' code st' junk' tv' t (any_field junk' t) (pcounter_move_byte p1')) = Some (tm', us2', b2', pc1)"
        and r': "m1 = MF True t (LM h' tm')" a1
          "vs1 = map (\<lambda>v. v\<lparr>vmt_match := True # vmt_match v\<rparr>) us1' @ map (\<lambda>v. v\<lparr>vmt_match := False # vmt_match v\<rparr>) us2'"
        unfolding ListT .
      have hv: "hv' = hv" using l(1) l'(1) by simp
      have H: "us1' = us1 \<and> p1' = p1 \<and> overwrites us1 \<and> (\<exists>m. refresh_field E' st' us1 h = Some m \<and> similar s m h')"
        using l(3) l'(3) Suc.IH unfolding hv
        by (cases "val_is_any hv") (auto simp: unless_any_def any_field_def intro: similar_any)
      then have tv: "tv' = tv" using l(2) l'(2) by simp
      have T: "us2' = us2 \<and> pc1 = pc0 \<and> overwrites us2 \<and> (\<exists>m. refresh_field E' st' us2 tm = Some m \<and> similar t m tm')"
        using l(4) l'(4) H Suc.IH unfolding tv
        by (cases "val_is_any tv") (auto simp: unless_any_def any_field_def intro: similar_any)
      from H T show ?thesis
        using r r' by (auto simp: refresh_field_list overwrites_list ListT intro: similar_list)
    qed
  qed (use Suc.prems in simp_all)
qed simp

subsection \<open>Refreshing a whole object\<close>

lemma refresh_append: "refresh E st (vs @ ws) ms = do { ms \<leftarrow> refresh E st vs ms; refresh E st ws ms }"
  by (induction vs arbitrary: ms) (auto split: Option.bind_split if_splits)

lemma refresh_one:
  "i < length ms \<Longrightarrow> refresh E st (map (Pair i) vs) ms = do { mf \<leftarrow> refresh_field E st vs (ms ! i); Some (ms[i := mf]) }"
  by (induction vs arbitrary: ms) (auto split: Option.bind_split)

lemma refresh_length: "refresh E st vs ms = Some ms' \<Longrightarrow> length ms' = length ms"
  by (induction vs arbitrary: ms) (auto simp: bind_eq_Some_conv split: if_splits)

lemma refresh_nth_other: "refresh E st vs ms = Some ms' \<Longrightarrow> i \<notin> fst ` set vs \<Longrightarrow> ms' ! i = ms ! i"
proof (induction vs arbitrary: ms)
  case (Cons v vs)
  then show ?case by (cases v) (fastforce simp: bind_eq_Some_conv split: if_splits)
qed simp

lemma refresh_update_other:
  "i \<notin> fst ` set vs \<Longrightarrow> refresh E st vs (ms[i := x]) = map_option (\<lambda>ms. ms[i := x]) (refresh E st vs ms)"
proof (induction vs arbitrary: ms)
  case (Cons v vs)
  obtain j w where v: "v = (j, w)" by (cases v)
  with Cons.prems have "j \<noteq> i" "i \<notin> fst ` set vs" by auto
  then show ?case
    using Cons.IH [of "ms[j := mf]" for mf]
    by (auto simp: v list_update_swap map_option_bind split: Option.bind_split)
qed simp

definition object_overwrites :: "(nat \<times> variable_match_template) list \<Rightarrow> bool" where
  "object_overwrites vs \<longleftrightarrow> (\<forall>ms E st b E' st'. refresh E st vs ms = Some b \<longrightarrow> refresh E' st' vs b = refresh E' st' vs ms)"

lemma object_overwrites_append:
  assumes vs: "object_overwrites vs" and ws: "overwrites ws" and i: "i \<notin> fst ` set vs"
  shows "object_overwrites (vs @ map (Pair i) ws)"
proof (cases "ws = []")
  case True
  with vs show ?thesis by simp
next
  case False
  then obtain w ws' where w: "ws = w # ws'" by (cases ws) auto
  show ?thesis
    unfolding object_overwrites_def
  proof (intro allI impI)
    fix ms E st b E' st'
    assume "refresh E st (vs @ map (Pair i) ws) ms = Some b"
    then obtain ms1 where m1: "refresh E st vs ms = Some ms1" "refresh E st (map (Pair i) ws) ms1 = Some b"
      by (auto simp: refresh_append bind_eq_Some_conv)
    then have len: "i < length ms1" by (auto simp: w split: if_splits)
    with m1(2) obtain mf where mf: "refresh_field E st ws (ms1 ! i) = Some mf" "b = ms1[i := mf]"
      by (auto simp: refresh_one bind_eq_Some_conv)
    have same: "refresh E' st' vs ms1 = refresh E' st' vs ms"
      using vs m1(1) by (auto simp: object_overwrites_def)
    have leaf: "refresh_field E' st' ws mf = refresh_field E' st' ws (ms1 ! i)"
      using ws mf(1) by (auto simp: overwrites_def)
    show "refresh E' st' (vs @ map (Pair i) ws) b = refresh E' st' (vs @ map (Pair i) ws) ms"
    proof (cases "refresh E' st' vs ms")
      case None
      then show ?thesis by (simp add: refresh_append mf(2) refresh_update_other [OF i] same)
    next
      case (Some ms2)
      have at: "ms2 ! i = ms1 ! i" "length ms2 = length ms1"
        using refresh_nth_other [OF Some i] refresh_nth_other [OF m1(1) i] refresh_length [OF Some] refresh_length [OF m1(1)]
        by simp_all
      with len show ?thesis
        by (simp add: refresh_append mf(2) refresh_update_other [OF i] same Some refresh_one leaf)
    qed
  qed
qed

text \<open>The fields that the patterns of an iterator are about.\<close>

fun match_fields :: "nat \<Rightarrow> byte_code \<Rightarrow> predicate \<Rightarrow> nat \<Rightarrow> pcounter \<Rightarrow> nat list option" where
  "match_fields fuel code p 0 pc = Some []"
| "match_fields fuel code p (Suc k) pc =
     do { i \<leftarrow> iter_match_field code pc; val \<leftarrow> iter_match_val code pc; t \<leftarrow> field_type_of p i;
          (c, pc) \<leftarrow> count_var_match_element fuel code val t (pcounter_move_match pc);
          is \<leftarrow> match_fields fuel code p k pc; Some (i # is) }"

definition same_patterns :: "vm_env \<Rightarrow> vm_state \<Rightarrow> predicate \<Rightarrow> match \<Rightarrow> match \<Rightarrow> bool" where
  "same_patterns E st p m m1 \<longleftrightarrow>
     m_vars m1 = m_vars m \<and> m_any_exact m1 = m_any_exact m \<and> length (m_matches m) = length (p_types p) \<and>
     length (m_matches m1) = length (p_types p) \<and> object_overwrites (m_vars m) \<and>
     (\<exists>ms. refresh E st (m_vars m) (m_matches m) = Some ms \<and>
        (\<forall>i < length (p_types p). similar (p_types p ! i) (ms ! i) (m_matches m1 ! i)))"

lemma same_patterns_init: "same_patterns E st p (init_match junk p w) (init_match junk' p w')"
  by (simp add: same_patterns_def init_match_def any_field_def similar_def object_overwrites_def)

lemma field_type_of_Some: "field_type_of p i = Some t \<longleftrightarrow> i < length (p_types p) \<and> t = p_types p ! i"
  by (auto simp: field_type_of_def)

lemma same_patterns_step:
  assumes same: "same_patterns E st p m m1" and i: "i < length (p_types p)" "i \<notin> fst ` set (m_vars m)"
    and built: "refresh_field E st vs mf = Some mf'" "similar (p_types p ! i) mf' mf1" "overwrites vs"
  shows "same_patterns E st p
    (m\<lparr>m_any_exact := m_any_exact m \<or> a, m_matches := (m_matches m)[i := mf], m_vars := m_vars m @ map (Pair i) vs\<rparr>)
    (m1\<lparr>m_any_exact := m_any_exact m1 \<or> a, m_matches := (m_matches m1)[i := mf1], m_vars := m_vars m1 @ map (Pair i) vs\<rparr>)"
proof -
  from same obtain ms where ms: "refresh E st (m_vars m) (m_matches m) = Some ms"
    "\<forall>j < length (p_types p). similar (p_types p ! j) (ms ! j) (m_matches m1 ! j)"
    by (auto simp: same_patterns_def)
  have len: "length ms = length (p_types p)" "length (m_matches m1) = length (p_types p)"
    using refresh_length [OF ms(1)] same by (simp_all add: same_patterns_def)
  have "refresh E st (m_vars m @ map (Pair i) vs) ((m_matches m)[i := mf]) = Some (ms[i := mf'])"
    using i(1) len by (simp add: refresh_append refresh_update_other [OF i(2)] ms(1) refresh_one built(1))
  moreover have "similar (p_types p ! j) (ms[i := mf'] ! j) ((m_matches m1)[i := mf1] ! j)" if "j < length (p_types p)" for j
    using that ms(2) built(2) len by (cases "j = i") auto
  moreover have "object_overwrites (m_vars m @ map (Pair i) vs)"
    using same i(2) built(3) by (intro object_overwrites_append) (auto simp: same_patterns_def)
  ultimately show ?thesis using same by (simp add: same_patterns_def)
qed

lemma build_object_pair:
  "build_match_object fuel E code st junk p k pc m = Some m0 \<Longrightarrow>
   build_match_object fuel E' code st' junk' p k pc m' = Some m1 \<Longrightarrow>
   match_fields fuel code p k pc = Some is \<Longrightarrow> distinct is \<Longrightarrow> set is \<inter> fst ` set (m_vars m) = {} \<Longrightarrow>
   same_patterns E' st' p m m' \<Longrightarrow> same_patterns E' st' p m0 m1"
proof (induction k arbitrary: pc m m' "is")
  case (Suc k)
  from Suc.prems(1) obtain i val t mf vs a pc' where
    b: "iter_match_field code pc = Some i" "iter_match_val code pc = Some val" "field_type_of p i = Some t"
      "build_match_element fuel E code st junk val t (m_matches m ! i) (pcounter_move_match pc) = Some (mf, vs, a, pc')"
    and rest: "build_match_object fuel E code st junk p k pc'
      (m\<lparr>m_any_exact := m_any_exact m \<or> a, m_matches := (m_matches m)[i := mf], m_vars := m_vars m @ map (Pair i) vs\<rparr>) = Some m0"
    by (auto simp: bind_eq_Some_conv split: if_splits)
  from Suc.prems(2) b(1-3) obtain mf1 vs1 a1 pc1 where
    b1: "build_match_element fuel E' code st' junk' val t (m_matches m' ! i) (pcounter_move_match pc) = Some (mf1, vs1, a1, pc1)"
    and rest1: "build_match_object fuel E' code st' junk' p k pc1
      (m'\<lparr>m_any_exact := m_any_exact m' \<or> a1, m_matches := (m_matches m')[i := mf1], m_vars := m_vars m' @ map (Pair i) vs1\<rparr>) = Some m1"
    by (auto simp: bind_eq_Some_conv split: if_splits)
  from build_element_pair [OF b(4) b1] obtain mf' where
    pair: "vs1 = vs" "a1 = a" "pc1 = pc'" "overwrites vs" "refresh_field E' st' vs mf = Some mf'" "similar t mf' mf1"
    by blast
  from Suc.prems(3) count_match_element [OF b(4)] b(1-3) obtain js where
    js: "match_fields fuel code p k pc' = Some js" "is = i # js"
    by (auto simp: bind_eq_Some_conv)
  have t: "i < length (p_types p)" "t = p_types p ! i" using b(3) by (simp_all add: field_type_of_Some)
  have i: "i \<notin> fst ` set (m_vars m)" using Suc.prems(5) js(2) by auto
  show ?case
  proof (rule Suc.IH [OF rest rest1 [unfolded pair(1-3)] js(1)])
    show "distinct js" using Suc.prems(4) js(2) by simp
    show "set js \<inter> fst ` set (m_vars (m\<lparr>m_any_exact := m_any_exact m \<or> a, m_matches := (m_matches m)[i := mf],
        m_vars := m_vars m @ map (Pair i) vs\<rparr>)) = {}"
      using Suc.prems(4,5) js(2) by auto
    show "same_patterns E' st' p
       (m\<lparr>m_any_exact := m_any_exact m \<or> a, m_matches := (m_matches m)[i := mf], m_vars := m_vars m @ map (Pair i) vs\<rparr>)
       (m'\<lparr>m_any_exact := m_any_exact m' \<or> a, m_matches := (m_matches m')[i := mf1], m_vars := m_vars m' @ map (Pair i) vs\<rparr>)"
      using same_patterns_step [OF Suc.prems(6) t(1) i pair(5) _ pair(4)] pair(6) t(2) by simp
  qed
qed simp

subsection \<open>Objects kept in the code\<close>

text \<open>The objects that an iterator may find: built once and refreshed any number of times, in any states.\<close>

inductive cached_match :: "nat \<Rightarrow> byte_code \<Rightarrow> predicate \<Rightarrow> nat \<Rightarrow> pcounter \<Rightarrow> match \<Rightarrow> bool"
  for fuel code p bse pc where
  built: "retrieve_match_object fuel E code st junk p bse pc None = Some (Some m) \<Longrightarrow> cached_match fuel code p bse pc m"
| reused: "cached_match fuel code p bse pc m \<Longrightarrow>
     retrieve_match_object fuel E code st junk p bse pc (Some m) = Some (Some m') \<Longrightarrow> cached_match fuel code p bse pc m'"

lemma same_patterns_refreshed:
  assumes "same_patterns E st p m m1" "refresh E' st' (m_vars m) (m_matches m) = Some ms"
  shows "same_patterns E st p (m\<lparr>m_matches := ms\<rparr>) m1"
  using assms refresh_length [OF assms(2)] by (auto simp: same_patterns_def object_overwrites_def)

lemma retrieve_built:
  assumes "retrieve_match_object fuel E code st junk p bse pc None = Some (Some m)"
    "iter_matches_size code pc bse = Some k" "iter_constant_match code pc = Some False"
  obtains w m0 ms where "build_match_object fuel E code st junk p k (pc + bse) (init_match junk p w) = Some m0"
    "refresh E st (m_vars m0) (m_matches m0) = Some ms" "m = m0\<lparr>m_matches := ms\<rparr>"
  using assms by (auto simp: retrieve_match_object_def bind_eq_Some_conv split: if_splits)

lemma retrieve_cached:
  assumes "iter_matches_size code pc bse = Some k" "0 < k" "iter_constant_match code pc = Some False"
  shows "retrieve_match_object fuel E code st junk p bse pc (Some m) =
    do { ms \<leftarrow> refresh E st (m_vars m) (m_matches m); Some (Some (m\<lparr>m_matches := ms\<rparr>)) }"
  using assms by (simp add: retrieve_match_object_def)

lemma cached_same_patterns:
  assumes "cached_match fuel code p bse pc m" "iter_matches_size code pc bse = Some k" "0 < k"
    "iter_constant_match code pc = Some False" "match_fields fuel code p k (pc + bse) = Some is" "distinct is"
    "build_match_object fuel E code st junk p k (pc + bse) (init_match junk p w) = Some m1"
  shows "same_patterns E st p m m1"
  using assms(1)
proof (induction rule: cached_match.induct)
  case (built E0 st0 junk0 m)
  from retrieve_built [OF built assms(2,4)] obtain w0 m0 ms where
    b: "build_match_object fuel E0 code st0 junk0 p k (pc + bse) (init_match junk0 p w0) = Some m0"
      "refresh E0 st0 (m_vars m0) (m_matches m0) = Some ms" "m = m0\<lparr>m_matches := ms\<rparr>" .
  have "same_patterns E st p m0 m1"
    by (rule build_object_pair [OF b(1) assms(7,5,6) _ same_patterns_init]) (simp add: init_match_def)
  then show ?case unfolding b(3) by (rule same_patterns_refreshed [OF _ b(2)])
next
  case (reused m E0 st0 junk0 m')
  then obtain ms where "refresh E0 st0 (m_vars m) (m_matches m) = Some ms" "m' = m\<lparr>m_matches := ms\<rparr>"
    by (auto simp: retrieve_cached [OF assms(2-4)] bind_eq_Some_conv)
  with reused.IH show ?case by (auto intro: same_patterns_refreshed)
qed

lemma matches_from_similar:
  "length ms = length ts \<Longrightarrow> length ms' = length ts \<Longrightarrow> (\<And>i. i < length ts \<Longrightarrow> similar (ts ! i) (ms ! i) (ms' ! i)) \<Longrightarrow>
   matches_from H ms xs ts = matches_from H ms' xs ts"
proof (induction ts arbitrary: ms ms' xs)
  case (Cons t ts)
  then obtain m n m' n' where m: "ms = m # n" "ms' = m' # n'" by (metis length_Suc_conv)
  have hd: "similar t m m'" using Cons.prems(3) [of 0] m by simp
  have tl: "matches_from H n ys ts = matches_from H n' ys ts" for ys
    using Cons.IH [of n n' ys] Cons.prems(1,2) Cons.prems(3) [of "Suc i" for i] m by auto
  show ?case
    using hd by (cases xs) (auto simp: m tl similar_def split: Option.bind_split)
qed (simp add: matches_from.simps)

lemma similar_trans: "similar t a c \<Longrightarrow> similar t b c \<Longrightarrow> similar t a b"
  by (auto simp: similar_def)

text \<open>
  C16. Keeping match objects in the code is transparent: an object that was built for an iterator at
  any time and refreshed any number of times since accepts, once refreshed in the present state,
  exactly the facts that an object built from scratch in the present state accepts. (No field is
  matched twice and the iterator is not marked as constant.)
\<close>

theorem cached_match_transparent:
  assumes "cached_match fuel code p bse pc m" "iter_matches_size code pc bse = Some k" "0 < k"
    "iter_constant_match code pc = Some False" "match_fields fuel code p k (pc + bse) = Some is" "distinct is"
    "retrieve_match_object fuel E code st junk p bse pc None = Some (Some fresh)"
  shows "\<exists>m'. retrieve_match_object fuel E code st junk' p bse pc (Some m) = Some (Some m') \<and>
    (\<forall>H tpl. do_matches H (Some m') tpl p = do_matches H (Some fresh) tpl p)"
proof -
  from retrieve_built [OF assms(7,2,4)] obtain w m1 ms1 where
    b: "build_match_object fuel E code st junk p k (pc + bse) (init_match junk p w) = Some m1"
      "refresh E st (m_vars m1) (m_matches m1) = Some ms1" "fresh = m1\<lparr>m_matches := ms1\<rparr>" .
  have own: "same_patterns E st p m1 m1"
    by (rule build_object_pair [OF b(1,1) assms(5,6) _ same_patterns_init]) (simp add: init_match_def)
  have same: "same_patterns E st p m m1" by (rule cached_same_patterns [OF assms(1-6) b(1)])
  then obtain ms where ms: "refresh E st (m_vars m) (m_matches m) = Some ms"
    "\<forall>i < length (p_types p). similar (p_types p ! i) (ms ! i) (m_matches m1 ! i)"
    by (auto simp: same_patterns_def)
  have "matches_from H ms tpl (p_types p) = matches_from H ms1 tpl (p_types p)" for H tpl
  proof (rule matches_from_similar)
    show "length ms = length (p_types p)" "length ms1 = length (p_types p)"
      using refresh_length [OF ms(1)] refresh_length [OF b(2)] same by (simp_all add: same_patterns_def)
    show "similar (p_types p ! i) (ms ! i) (ms1 ! i)" if "i < length (p_types p)" for i
      using ms(2) own b(2) that by (auto simp: same_patterns_def intro: similar_trans)
  qed
  moreover have "m_any_exact m1 = m_any_exact m" using same by (simp add: same_patterns_def)
  ultimately show ?thesis
    by (simp add: retrieve_cached [OF assms(2-4)] ms(1) do_matches_def b(3))
qed

text \<open>An iterator over facts with one integer that is compared with register 1.\<close>

definition one_match :: byte_code where
  "one_match = [LINEAR_ITER_INSTR, 0, 0, 0, 0, 0, 0, 0, 0, 0, 0, 0, 0, 0, 0, 0, 0, 0, 0, 0, 1, 0, 0x21]"

definition one_int :: predicate where
  "one_int = zero_predicate\<lparr>p_types := [BaseT FIELD_INT]\<rparr>"

definition blank_state :: "tuple_field list \<Rightarrow> vm_state" where
  "blank_state regs =
     \<lparr>st_regs = regs, st_preds = [], st_stack = \<lparr>cs_vec = [], cs_capacity = 0, cs_size = 0\<rparr>, st_tuples = Map.empty,
      st_heap = \<lparr>h_objs = Map.empty, h_gc = {}\<rparr>, st_consts = [], st_free_addrs = [], st_free_cons = [],
      st_free_struct = [], st_free_string = [], st_free_array = [], st_free_set = [], st_arguments = [],
      st_linear_generated = 0, st_persistent_generated = 0, st_linear_consumed = 0, st_current_rule = 0,
      st_is_linear = False, st_junk = []\<rparr>"

definition one_object :: "tuple_field \<Rightarrow> match" where
  "one_object v =
     \<lparr>m_any_exact = True, m_matches = [MF True (BaseT FIELD_INT) (Plain v)],
      m_vars = [(0, \<lparr>vmt_match = [], vmt_type = MATCH_REG, vmt_reg = 1, vmt_field = 0\<rparr>)], m_var_size = 1\<rparr>"

lemma one_match_header:
  "iter_matches_size one_match 0 21 = Some 1" "iter_constant_match one_match 0 = Some False"
  "iter_match_field one_match 21 = Some 0" "iter_match_val one_match 21 = Some 0x21"
  "field_type_of one_int 0 = Some (BaseT FIELD_INT)" "val_is_reg 0x21" "val_reg 0x21 = 1"
  by (simp_all add: one_match_def one_int_def iter_matches_size_def iter_constant_match_def iter_match_field_def
      iter_match_val_def operand_defs vm_size_simps field_type_of_def val_is_reg_def val_reg_def)

lemma one_match_retrieve:
  "retrieve_match_object 1 E one_match (blank_state [0, v]) 0 one_int 21 0 None = Some (Some (one_object v))"
  by (simp add: retrieve_match_object_def one_match_header match_mem_size_def MATCH_OBJECT_SIZE_def init_match_def
      any_field_def one_int_def [THEN arg_cong [of _ _ p_types]] match_int_def get_int_def get_reg_def blank_state_def
      template_value_def one_object_def)

theorem cached_match_transparent_witness:
  "\<forall>E H. \<exists>m. retrieve_match_object 1 E one_match (blank_state [0, 7]) 0 one_int 21 0 (Some (one_object 3)) = Some (Some m)
     \<and> do_matches H (Some m) [7] one_int = Some True \<and> do_matches H (Some m) [6] one_int = Some False"
proof (intro allI)
  fix E H
  have cached: "cached_match 1 one_match one_int 21 0 (one_object 3)"
    by (rule cached_match.built [OF one_match_retrieve])
  have fields: "match_fields 1 one_match one_int 1 (0 + 21) = Some [0]"
    by (simp add: one_match_header)
  from cached_match_transparent [OF cached one_match_header(1) _ one_match_header(2) fields _ one_match_retrieve [of E 7], of 0]
  obtain m where "retrieve_match_object 1 E one_match (blank_state [0, 7]) 0 one_int 21 0 (Some (one_object 3)) = Some (Some m)"
    "\<And>H tpl. do_matches H (Some m) tpl one_int = do_matches H (Some (one_object 7)) tpl one_int"
    by auto
  then show "\<exists>m. retrieve_match_object 1 E one_match (blank_state [0, 7]) 0 one_int 21 0 (Some (one_object 3)) = Some (Some m)
     \<and> do_matches H (Some m) [7] one_int = Some True \<and> do_matches H (Some m) [6] one_int = Some False"
    by (simp add: do_matches_def one_object_def one_int_def field_int_def)
qed

subsection \<open>Enough fuel\<close>

lemma count_advances: "count_var_match_element n code val t pc = Some (c, pc') \<Longrightarrow> pc \<le> pc'"
proof (induction n arbitrary: val t pc c pc')
  case (Suc n)
  show ?case
  proof (cases t)
    case (BaseT b)
    then show ?thesis
      using Suc.prems
      by (cases b) (auto simp: pcounter_move_field_def pcounter_move_int_def pcounter_move_float_def
          pcounter_move_node_def split: if_splits)
  next
    case (ListT s)
    have any: "unless_any v (0, q) (count_var_match_element n code v t' q) = Some (c', q') \<Longrightarrow> q \<le> q'" for v t' q c' q'
      using Suc.IH by (auto simp: unless_any_def split: if_splits)
    show ?thesis
      using Suc.prems
      by (auto simp: ListT bind_eq_Some_conv pcounter_move_byte_def split: if_splits dest!: any)
  qed (use Suc.prems in simp_all)
qed simp

lemma val_get_inside: "val_get code pc 0 = Some v \<Longrightarrow> pc < length code"
  by (simp add: val_get_def code_byte_def split: if_splits)

lemma count_enough_fuel:
  "length code \<le> pc + n \<Longrightarrow> count_var_match_element (Suc (Suc n)) code val t pc = count_var_match_element (Suc n) code val t pc"
proof (induction n arbitrary: val t pc)
  case 0
  then have "val_get code pc 0 = None" using val_get_inside by fastforce
  then show ?case by (simp split: vtype.split field_type.split)
next
  case (Suc n)
  have rec: "unless_any v (0, Suc q) (count_var_match_element (Suc (Suc n)) code v t' (Suc q)) =
      unless_any v (0, Suc q) (count_var_match_element (Suc n) code v t' (Suc q))" if "pc \<le> q" for v t' q
    using Suc.IH [of "Suc q"] Suc.prems that by (simp add: unless_any_def del: count_var_match_element.simps)
  show ?case
  proof (cases t)
    case (ListT s)
    have snd: "pc \<le> q" if "unless_any v (0, Suc pc) (count_var_match_element (Suc n) code v t' (Suc pc)) = Some (c, q)" for v t' c q
      using that count_advances [of "Suc n" code v t' "Suc pc" c q] by (auto simp: unless_any_def split: if_splits)
    let ?body = "\<lambda>m. do { hv \<leftarrow> val_get code pc 0;
        (c1, q) \<leftarrow> unless_any hv (0, Suc pc) (m hv s (Suc pc));
        tv \<leftarrow> val_get code q 0;
        (c2, r) \<leftarrow> unless_any tv (0, Suc q) (m tv (ListT s) (Suc q));
        Some (c1 + c2, r) }"
    have "?body (count_var_match_element (Suc (Suc n)) code) = ?body (count_var_match_element (Suc n) code)"
    proof (cases "val_get code pc 0")
      case (Some hv)
      show ?thesis
      proof (cases "unless_any hv (0, Suc pc) (count_var_match_element (Suc n) code hv s (Suc pc))")
        case None
        then show ?thesis using rec [of pc hv s] Some by (simp del: count_var_match_element.simps)
      next
        case (Some r)
        obtain c q where r: "r = (c, q)" by (cases r)
        with Some have le: "pc \<le> q" by (intro snd) simp
        show ?thesis
          using rec [of pc hv s] rec [OF le] Some \<open>val_get code pc 0 = Some hv\<close>
          by (simp add: r del: count_var_match_element.simps)
      qed
    qed simp
    then show ?thesis
      unfolding ListT count_var_match_element.simps(2) [of "Suc (Suc n)"] count_var_match_element.simps(2) [of "Suc n"]
      by (simp only: vtype.case pcounter_move_byte_def Suc_eq_plus1)
  qed (simp_all split: field_type.split)
qed

lemma count_any_fuel:
  assumes "Suc (length code) \<le> n"
  shows "count_var_match_element n code val t pc = count_var_match_element (Suc (length code)) code val t pc"
  using assms
proof (induction rule: dec_induct)
  case (step n)
  then obtain m where m: "n = Suc m" "length code \<le> m" by (cases n) auto
  with step.IH count_enough_fuel [of code pc m val t] show ?case by simp
qed simp

lemma build_within_size:
  "build_match_object fuel E code st junk p k pc m = Some m' \<Longrightarrow> length (m_vars m) \<le> m_var_size m \<Longrightarrow>
   length (m_vars m') \<le> m_var_size m' \<and> m_var_size m' = m_var_size m"
proof (induction k arbitrary: pc m)
  case (Suc k)
  then show ?case by (fastforce simp: bind_eq_Some_conv split: if_splits)
qed simp

text \<open>
  The templates of a match object are exactly as many as \<^verbatim>\<open>count_variable_match_elements\<close> counted
  before, so that the object that is allocated with this count holds them and the assertion on the
  index never fails. Counting agrees with building except for a \<^verbatim>\<open>float\<close> in a register, which is
  counted but cannot be built. Counting a nested pattern ends within the code.
\<close>

theorem match_templates_fit:
  assumes "build_match_object fuel E code st junk p k pc (init_match junk p w) = Some m"
  shows "(\<exists>c. count_variable_match_elements fuel code p k pc = Some c \<and> length (m_vars m) = c \<and> c \<le> w \<and>
        build_match_object fuel E code st junk p k pc (init_match junk p c) = Some (m\<lparr>m_var_size := c\<rparr>))
    \<and> (val_is_reg val \<longrightarrow> count_var_match_element (Suc n) code val (BaseT FIELD_FLOAT) q = Some (1, q) \<and>
         build_match_element (Suc n) E code st junk val (BaseT FIELD_FLOAT) mf q = None)
    \<and> (Suc (length code) \<le> n \<longrightarrow>
         count_var_match_element n code val t q = count_var_match_element (Suc (length code)) code val t q)"
proof (intro conjI impI)
  from count_match_object [OF assms] obtain c where
    c: "count_variable_match_elements fuel code p k pc = Some c" "length (m_vars m) = c"
    by (auto simp: init_match_def)
  have "c \<le> w" using build_within_size [OF assms] c(2) by (simp add: init_match_def)
  moreover have "build_match_object fuel E code st junk p k pc (init_match junk p c) = Some (m\<lparr>m_var_size := c\<rparr>)"
    using build_match_size [OF assms c(1), of c] by (simp add: init_match_def)
  ultimately show "\<exists>c. count_variable_match_elements fuel code p k pc = Some c \<and> length (m_vars m) = c \<and> c \<le> w \<and>
      build_match_object fuel E code st junk p k pc (init_match junk p c) = Some (m\<lparr>m_var_size := c\<rparr>)"
    using c by blast
next
  assume "val_is_reg val"
  then show "count_var_match_element (Suc n) code val (BaseT FIELD_FLOAT) q = Some (1, q)"
    "build_match_element (Suc n) E code st junk val (BaseT FIELD_FLOAT) mf q = None"
    by (auto simp: val_is_reg_def val_is_field_def val_is_float_def)
qed (rule count_any_fuel)

theorem match_templates_fit_witness:
  "\<forall>E. \<exists>m. build_match_object 1 E one_match (blank_state [0, 7]) 0 one_int 1 21 (init_match 0 one_int 3) = Some m
     \<and> length (m_vars m) = 1 \<and> count_variable_match_elements 1 one_match one_int 1 21 = Some 1"
proof
  fix E
  let ?m = "one_object 7\<lparr>m_var_size := 3\<rparr>"
  have b: "build_match_object 1 E one_match (blank_state [0, 7]) 0 one_int 1 21 (init_match 0 one_int 3) = Some ?m"
    by (simp add: one_match_header init_match_def any_field_def one_int_def [THEN arg_cong [of _ _ p_types]]
        match_int_def get_int_def get_reg_def blank_state_def one_object_def field_int_def set_field_int_def)
  from match_templates_fit [OF b] b show "\<exists>m. build_match_object 1 E one_match (blank_state [0, 7]) 0 one_int 1 21 (init_match 0 one_int 3) = Some m
     \<and> length (m_vars m) = 1 \<and> count_variable_match_elements 1 one_match one_int 1 21 = Some 1"
    by (auto simp: one_object_def)
qed

end
