(* ===== verification/Axiom_Data.thy ===== *)
theory Axiom_Data
  imports Runtime_List Vm_State
begin

text \<open>
  Literal data in the byte code (\<^verbatim>\<open>axiom_read_data\<close> of \<^verbatim>\<open>vm/helpers.cpp\<close>): the initial facts of a program
  and literal lists are stored in the code as bytes, and the virtual machine builds the values from
  them. The round-trip theorem: reading what was written for a value, inside any code, gives a field
  that denotes the value, in objects at new addresses, and leaves everything else in the heap alone.
\<close>

subsection \<open>Reading\<close>

definition struct_set_data ::
  "db_env \<Rightarrow> ptr_val \<Rightarrow> nat \<Rightarrow> tuple_field \<Rightarrow> vtype \<Rightarrow> heap \<Rightarrow> heap option" where
  "struct_set_data env s i v t H =
     (case h_objs H s of
        Some (r, StructO fs) \<Rightarrow>
          if i < length fs then
            do { ft \<leftarrow> get_type t; increment_runtime_data env v ft (set_obj s (r, StructO (fs[i := v])) H) }
          else None
      | _ \<Rightarrow> None)"

type_synonym reading = "(tuple_field \<times> pcounter \<times> ptr_val list \<times> heap) option"

fun read_fields ::
  "(vtype \<Rightarrow> pcounter \<Rightarrow> ptr_val list \<Rightarrow> heap \<Rightarrow> reading) \<Rightarrow> db_env \<Rightarrow> ptr_val \<Rightarrow> nat \<Rightarrow> vtype list \<Rightarrow>
   pcounter \<Rightarrow> ptr_val list \<Rightarrow> heap \<Rightarrow> (pcounter \<times> ptr_val list \<times> heap) option" where
  "read_fields rd env s i [] pc addrs H = Some (pc, addrs, H)"
| "read_fields rd env s i (t # ts) pc addrs H =
     do { (v, pc, addrs, H) \<leftarrow> rd t pc addrs H;
          H \<leftarrow> struct_set_data env s i v t H;
          read_fields rd env s (Suc i) ts pc addrs H }"

text \<open>The nesting of the data bounds the recursion; the allocator hands out the addresses.\<close>

fun axiom_read_data ::
  "nat \<Rightarrow> db_env \<Rightarrow> byte_code \<Rightarrow> vtype \<Rightarrow> pcounter \<Rightarrow> ptr_val list \<Rightarrow> heap \<Rightarrow> reading" where
  "axiom_read_data 0 env code t pc addrs H = None"
| "axiom_read_data (Suc n) env code t pc addrs H =
     (case t of
        BaseT FIELD_INT \<Rightarrow> do { v \<leftarrow> pcounter_int code pc; Some (set_field_int 0 v, pcounter_move_int pc, addrs, H) }
      | BaseT FIELD_FLOAT \<Rightarrow> do { v \<leftarrow> pcounter_float code pc; Some (set_field_float 0 v, pcounter_move_float pc, addrs, H) }
      | BaseT FIELD_NODE \<Rightarrow> do { v \<leftarrow> pcounter_node code pc; Some (set_field_node 0 v, pcounter_move_node pc, addrs, H) }
      | ListT s \<Rightarrow>
          do { b \<leftarrow> code_byte code pc;
               if b = 0 then Some (0, pc + 1, addrs, H)
               else if b = 1 then
                 do { (h, pc, addrs, H) \<leftarrow> axiom_read_data n env code s (pc + 1) addrs H;
                      (q, pc, addrs, H) \<leftarrow> axiom_read_data n env code t pc addrs H;
                      case addrs of [] \<Rightarrow> None
                      | c # addrs \<Rightarrow> do { H \<leftarrow> cons_create env c q h s 0 H; Some (c, pc, addrs, H) } }
               else None }
      | StructT ts \<Rightarrow>
          (case addrs of [] \<Rightarrow> None
           | s # addrs \<Rightarrow>
               do { (pc, addrs, H) \<leftarrow>
                      read_fields (\<lambda>t pc addrs H. axiom_read_data n env code t pc addrs H) env s 0 ts pc addrs
                        (set_obj s (0, StructO (replicate (length ts) 0)) H);
                    Some (s, pc, addrs, H) })
      | _ \<Rightarrow> None)"

definition execute_literal_cons :: "vm_env \<Rightarrow> byte_code \<Rightarrow> pcounter \<Rightarrow> vm_state \<Rightarrow> vm_state option" where
  "execute_literal_cons E code pc st =
     do { ty \<leftarrow> literal_cons_type code pc; t \<leftarrow> lookup_type E ty; dest \<leftarrow> literal_cons_dest code pc;
          (f, pc', addrs, H) \<leftarrow> axiom_read_data (Suc (length code)) (ve_db E) code t (pc + LITERAL_CONS_BASE)
             (st_free_addrs st) (st_heap st);
          set_ptr dest (field_ptr f) (st\<lparr>st_free_addrs := addrs, st_heap := H\<rparr>) }"

definition execute_node_type :: "vm_env \<Rightarrow> byte_code \<Rightarrow> pcounter \<Rightarrow> vm_state \<Rightarrow> vm_state option" where
  "execute_node_type E code pc st =
     do { dest \<leftarrow> node_type_reg code pc; b \<leftarrow> code_byte code (pc + NODE_TYPE_BASE + ve_node_id E);
          set_int dest (ucast b) st }"

fun tuple_set_field :: "vm_env \<Rightarrow> ptr_val \<Rightarrow> vtype \<Rightarrow> nat \<Rightarrow> tuple_field \<Rightarrow> vm_state \<Rightarrow> vm_state option" where
  "tuple_set_field E tpl (ListT s) i f st = tuple_set_cons tpl i (field_ptr f) st"
| "tuple_set_field E tpl (StructT ts) i f st = tuple_set_struct tpl i (field_ptr f) st"
| "tuple_set_field E tpl (BaseT FIELD_NODE) i f st = tuple_set_node E tpl i (field_node f) st"
| "tuple_set_field E tpl (BaseT FIELD_INT) i f st = set_field tpl i f st"
| "tuple_set_field E tpl (BaseT FIELD_FLOAT) i f st = set_field tpl i f st"
| "tuple_set_field E tpl (BaseT FIELD_STRING) i f st = tuple_set_struct tpl i (field_ptr f) st"
| "tuple_set_field E tpl _ i f st = None"

subsection \<open>Literals\<close>

datatype literal =
    LInt int_val
  | LFloat float_val
  | LNode node_val
  | LNil
  | LCons literal literal
  | LStruct "literal list"

fun encode :: "literal \<Rightarrow> byte list" where
  "encode (LInt v) = to_le 4 (unat v)"
| "encode (LFloat v) = to_le 8 (unat v)"
| "encode (LNode v) = to_le 8 (unat v)"
| "encode LNil = [0]"
| "encode (LCons x xs) = 1 # encode x @ encode xs"
| "encode (LStruct xs) = concat (map encode xs)"

fun literal_typed :: "literal \<Rightarrow> vtype \<Rightarrow> bool" where
  "literal_typed (LInt v) t \<longleftrightarrow> t = BaseT FIELD_INT"
| "literal_typed (LFloat v) t \<longleftrightarrow> t = BaseT FIELD_FLOAT"
| "literal_typed (LNode v) t \<longleftrightarrow> t = BaseT FIELD_NODE"
| "literal_typed LNil t \<longleftrightarrow> (\<exists>s. t = ListT s)"
| "literal_typed (LCons x xs) t \<longleftrightarrow> (case t of ListT s \<Rightarrow> literal_typed x s \<and> literal_typed xs t | _ \<Rightarrow> False)"
| "literal_typed (LStruct xs) t \<longleftrightarrow> (case t of StructT ts \<Rightarrow> list_all2 literal_typed xs ts | _ \<Rightarrow> False)"

text \<open>The objects a literal needs, how deep it is nested, and the nodes in it.\<close>

fun literal_objects :: "literal \<Rightarrow> nat" where
  "literal_objects (LCons x xs) = literal_objects x + literal_objects xs + 1"
| "literal_objects (LStruct xs) = 1 + sum_list (map literal_objects xs)"
| "literal_objects _ = 0"

fun literal_depth :: "literal \<Rightarrow> nat" where
  "literal_depth (LCons x xs) = Suc (max (literal_depth x) (literal_depth xs))"
| "literal_depth (LStruct xs) = Suc (Max (insert 0 (set (map literal_depth xs))))"
| "literal_depth _ = 1"

fun literal_nodes :: "literal \<Rightarrow> node_val set" where
  "literal_nodes (LNode n) = {n}"
| "literal_nodes (LCons x xs) = literal_nodes x \<union> literal_nodes xs"
| "literal_nodes (LStruct xs) = \<Union> (set (map literal_nodes xs))"
| "literal_nodes _ = {}"

text \<open>A field denotes a literal; all objects are at addresses of a given set.\<close>

fun denotes :: "ptr_val set \<Rightarrow> heap \<Rightarrow> literal \<Rightarrow> tuple_field \<Rightarrow> bool" where
  "denotes D H (LInt v) f \<longleftrightarrow> f = set_field_int 0 v"
| "denotes D H (LFloat v) f \<longleftrightarrow> f = v"
| "denotes D H (LNode v) f \<longleftrightarrow> f = v"
| "denotes D H LNil f \<longleftrightarrow> f = 0"
| "denotes D H (LCons x xs) f \<longleftrightarrow>
     f \<noteq> 0 \<and> f \<in> D \<and> (\<exists>r q h. h_objs H f = Some (r, ConsO q h) \<and> denotes D H x h \<and> denotes D H xs q)"
| "denotes D H (LStruct xs) f \<longleftrightarrow>
     f \<noteq> 0 \<and> f \<in> D \<and> (\<exists>r fs. h_objs H f = Some (r, StructO fs) \<and> list_all2 (denotes D H) xs fs)"

subsection \<open>Framing\<close>

text \<open>The objects at some addresses are the same up to their counters.\<close>

definition keeps :: "ptr_val set \<Rightarrow> heap \<Rightarrow> heap \<Rightarrow> bool" where
  "keeps D H H' \<longleftrightarrow> (\<forall>p\<in>D. \<forall>r ob. h_objs H p = Some (r, ob) \<longrightarrow> (\<exists>r'. h_objs H' p = Some (r', ob)))"

lemma keeps_refl [simp]: "keeps D H H"
  by (simp add: keeps_def)

lemma keeps_trans: "keeps D H H1 \<Longrightarrow> keeps D H1 H2 \<Longrightarrow> keeps D H H2"
  unfolding keeps_def by blast

lemma keeps_subset: "keeps D H H' \<Longrightarrow> D' \<subseteq> D \<Longrightarrow> keeps D' H H'"
  unfolding keeps_def by blast

lemma keeps_obj: "keeps D H H' \<Longrightarrow> p \<in> D \<Longrightarrow> h_objs H p = Some (r, ob) \<Longrightarrow> \<exists>r'. h_objs H' p = Some (r', ob)"
  unfolding keeps_def by blast

lemma same_objs_keeps: "same_objs H H' \<Longrightarrow> keeps D H H'"
  unfolding keeps_def using same_objs_obj by blast

lemma set_obj_keeps: "p \<notin> D \<Longrightarrow> keeps D H (set_obj p ob H)"
  unfolding keeps_def by auto

lemma denotes_frame: "denotes D H x f \<Longrightarrow> keeps D H H' \<Longrightarrow> D \<subseteq> D' \<Longrightarrow> denotes D' H' x f"
proof (induction x arbitrary: f)
  case (LCons x xs)
  then obtain r q h where o: "f \<noteq> 0" "f \<in> D" "h_objs H f = Some (r, ConsO q h)" "denotes D H x h" "denotes D H xs q"
    by auto
  from keeps_obj [OF LCons.prems(2) o(2,3)] obtain r' where "h_objs H' f = Some (r', ConsO q h)" ..
  with o LCons show ?case by auto
next
  case (LStruct xs)
  then obtain r fs where o: "f \<noteq> 0" "f \<in> D" "h_objs H f = Some (r, StructO fs)" "list_all2 (denotes D H) xs fs"
    by auto
  from keeps_obj [OF LStruct.prems(2) o(2,3)] obtain r' where "h_objs H' f = Some (r', StructO fs)" ..
  moreover have "list_all2 (denotes D' H') xs fs"
    using o(4) by (rule list.rel_mono_strong) (use LStruct in blast)
  ultimately show ?case using o LStruct.prems by auto
qed auto

subsection \<open>References to new values\<close>

definition can_count :: "heap \<Rightarrow> tuple_field \<Rightarrow> field_type \<Rightarrow> bool" where
  "can_count H f ft \<longleftrightarrow> (counted_type ft \<longrightarrow> f = 0 \<or> (\<exists>r ob. h_objs H f = Some (r, ob) \<and> (ft = FIELD_NODE \<longrightarrow> is_node ob)))"

lemma increment_can_count: "can_count H f ft \<Longrightarrow> \<exists>H'. increment_runtime_data env f ft H = Some H' \<and> same_objs H H'"
proof (cases "counted_type ft \<and> f \<noteq> 0")
  case True
  assume "can_count H f ft"
  with True obtain r ob where o: "h_objs H f = Some (r, ob)" "ft = FIELD_NODE \<longrightarrow> is_node ob"
    by (auto simp: can_count_def)
  with True show ?thesis
    by (cases ob) (auto simp: increment_runtime_data_def do_increment_runtime_def)
qed (auto simp: increment_runtime_data_def do_increment_runtime_def)

lemma cons_create_new:
  assumes "h_objs H c = None" "q = 0 \<or> q \<in> dom (h_objs H)" "get_type t = Some ft" "can_count H h ft"
  shows "\<exists>H'. cons_create env c q h t 0 H = Some H' \<and> same_objs (set_obj c (0, ConsO q h) H) H'"
proof -
  let ?H1 = "set_obj c (0, ConsO q h) H"
  have "\<exists>H2. cons_inc_refs q ?H1 = Some H2 \<and> same_objs ?H1 H2"
    using assms(1,2) by (auto simp: cons_inc_refs_def inc_refs_def intro!: same_objs_set)
  then obtain H2 where H2: "cons_inc_refs q ?H1 = Some H2" "same_objs ?H1 H2" by blast
  have "can_count ?H1 h ft"
    using assms(1,4) by (auto simp: can_count_def)
  then have "can_count H2 h ft"
    using same_objs_obj [OF H2(2)] unfolding can_count_def by blast
  from increment_can_count [OF this] obtain H3 where "increment_runtime_data env h ft H2 = Some H3" "same_objs H2 H3" by blast
  with H2 assms(3) show ?thesis by (auto simp: cons_create_def intro: same_objs_trans)
qed

lemma denotes_can_count:
  assumes "denotes D H x f" "literal_typed x t" "\<forall>n\<in>literal_nodes x. \<exists>r i q. h_objs H n = Some (r, NodeO i q)"
  shows "\<exists>ft. get_type t = Some ft \<and> can_count H f ft" "(\<exists>s. t = ListT s) \<Longrightarrow> f = 0 \<or> f \<in> dom (h_objs H)"
  using assms by (cases x; auto simp: can_count_def split: vtype.splits)+

subsection \<open>Reading what was encoded\<close>

definition bytes_at :: "byte_code \<Rightarrow> pcounter \<Rightarrow> byte list \<Rightarrow> bool" where
  "bytes_at code pc bs \<longleftrightarrow> code_bytes (length bs) code pc = Some bs"

lemma bytes_at_append: "bytes_at code pc (xs @ ys) \<longleftrightarrow> bytes_at code pc xs \<and> bytes_at code (pc + length xs) ys"
  by (auto simp: bytes_at_def code_bytes_def take_add add.assoc add.commute [of "length xs" pc] drop_drop append_eq_append_conv
      split: if_splits)

lemma bytes_at_Cons: "bytes_at code pc (b # bs) \<longleftrightarrow> code_byte code pc = Some b \<and> bytes_at code (pc + 1) bs"
proof -
  have "bytes_at code pc [b] \<longleftrightarrow> code_byte code pc = Some b"
    by (auto simp: bytes_at_def code_bytes_def code_byte_def take_Suc_conv_app_nth hd_drop_conv_nth take_Suc split: if_splits)
  then show ?thesis using bytes_at_append [of code pc "[b]" bs] by simp
qed

definition fresh :: "ptr_val list \<Rightarrow> heap \<Rightarrow> bool" where
  "fresh addrs H \<longleftrightarrow> distinct addrs \<and> 0 \<notin> set addrs \<and> set addrs \<inter> dom (h_objs H) = {}"

lemma fresh_drop:
  "fresh addrs H \<Longrightarrow> dom (h_objs H') = dom (h_objs H) \<union> set (take k addrs) \<Longrightarrow> fresh (drop k addrs) H'"
  using set_take_disj_set_drop_if_distinct [of addrs k k] set_drop_subset [of k addrs]
  by (auto simp: fresh_def)

lemma fresh_ConsD: "fresh (a # addrs) H \<Longrightarrow> a \<noteq> 0 \<and> a \<notin> set addrs \<and> h_objs H a = None"
  by (auto simp: fresh_def)

lemma set_take_add: "set (take (a + b) xs) = set (take a xs) \<union> set (take b (drop a xs))"
  by (simp add: take_add)

definition nodes_live :: "heap \<Rightarrow> literal \<Rightarrow> bool" where
  "nodes_live H x \<longleftrightarrow> (\<forall>n\<in>literal_nodes x. \<exists>r i q. h_objs H n = Some (r, NodeO i q))"

lemma nodes_live_keeps: "nodes_live H x \<Longrightarrow> keeps (dom (h_objs H) - A) H H' \<Longrightarrow> A \<inter> literal_nodes x = {} \<Longrightarrow> nodes_live H' x"
  unfolding nodes_live_def keeps_def by (metis Diff_iff Int_iff domI empty_iff)

text \<open>The statement of the round trip for one literal.\<close>

definition reads_back :: "db_env \<Rightarrow> byte_code \<Rightarrow> literal \<Rightarrow> bool" where
  "reads_back env code x \<longleftrightarrow>
     (\<forall>t n pc addrs H. literal_typed x t \<longrightarrow> literal_depth x \<le> n \<longrightarrow> bytes_at code pc (encode x) \<longrightarrow> fresh addrs H \<longrightarrow>
        literal_objects x \<le> length addrs \<longrightarrow> nodes_live H x \<longrightarrow>
        (\<exists>f H'. axiom_read_data n env code t pc addrs H =
             Some (f, pc + length (encode x), drop (literal_objects x) addrs, H') \<and>
           keeps UNIV H H' \<and> denotes (set (take (literal_objects x) addrs)) H' x f \<and>
           dom (h_objs H') = dom (h_objs H) \<union> set (take (literal_objects x) addrs)))"

lemma reads_backD:
  assumes "reads_back env code x" "literal_typed x t" "literal_depth x \<le> n" "bytes_at code pc (encode x)" "fresh addrs H"
    "literal_objects x \<le> length addrs" "nodes_live H x"
  obtains f H' where "axiom_read_data n env code t pc addrs H =
      Some (f, pc + length (encode x), drop (literal_objects x) addrs, H')"
    "keeps UNIV H H'" "denotes (set (take (literal_objects x) addrs)) H' x f"
    "dom (h_objs H') = dom (h_objs H) \<union> set (take (literal_objects x) addrs)"
  using assms unfolding reads_back_def by blast

lemma nodes_live_UNIV: "nodes_live H x \<Longrightarrow> keeps UNIV H H' \<Longrightarrow> nodes_live H' x"
  using nodes_live_keeps [of H x "{}" H'] keeps_subset by auto

lemma set_obj_keeps_new: "h_objs H p = None \<Longrightarrow> keeps D H (set_obj p ob H)"
  unfolding keeps_def by auto

lemma reads_back_LCons:
  assumes x: "reads_back env code x" and xs: "reads_back env code xs"
  shows "reads_back env code (LCons x xs)"
  unfolding reads_back_def
proof (intro allI impI)
  fix t n pc addrs H
  assume typed: "literal_typed (LCons x xs) t" and depth: "literal_depth (LCons x xs) \<le> n"
    and bytes: "bytes_at code pc (encode (LCons x xs))" and fresh: "fresh addrs H"
    and len: "literal_objects (LCons x xs) \<le> length addrs" and nodes: "nodes_live H (LCons x xs)"
  from typed obtain s where t: "t = ListT s" "literal_typed x s" "literal_typed xs t" by (auto split: vtype.splits)
  from depth obtain m where n: "n = Suc m" "literal_depth x \<le> m" "literal_depth xs \<le> m" by (cases n) auto
  from bytes have b: "code_byte code pc = Some 1" "bytes_at code (pc + 1) (encode x)"
    "bytes_at code (pc + 1 + length (encode x)) (encode xs)"
    by (auto simp: bytes_at_Cons bytes_at_append)
  let ?k = "literal_objects x" and ?l = "literal_objects xs"
  have len1: "?k \<le> length addrs" and len2: "?l \<le> length (drop ?k addrs)" using len by auto
  have live: "nodes_live H x" "nodes_live H xs" using nodes by (auto simp: nodes_live_def)
  obtain h H1 where h: "axiom_read_data m env code s (pc + 1) addrs H = Some (h, pc + 1 + length (encode x), drop ?k addrs, H1)"
    "keeps UNIV H H1" "denotes (set (take ?k addrs)) H1 x h" "dom (h_objs H1) = dom (h_objs H) \<union> set (take ?k addrs)"
    by (rule reads_backD [OF x t(2) n(2) b(2) fresh len1 live(1)])
  obtain q H2 where q: "axiom_read_data m env code t (pc + 1 + length (encode x)) (drop ?k addrs) H1 =
      Some (q, pc + 1 + length (encode x) + length (encode xs), drop ?l (drop ?k addrs), H2)"
    "keeps UNIV H1 H2" "denotes (set (take ?l (drop ?k addrs))) H2 xs q"
    "dom (h_objs H2) = dom (h_objs H1) \<union> set (take ?l (drop ?k addrs))"
    by (rule reads_backD [OF xs t(3) n(3) b(3) fresh_drop [OF fresh h(4)] len2 nodes_live_UNIV [OF live(2) h(2)]])
  obtain c rest where c: "drop ?l (drop ?k addrs) = c # rest"
    using len by (cases "drop ?l (drop ?k addrs)") auto
  have "fresh (c # rest) H2" using fresh_drop [OF fresh_drop [OF fresh h(4)] q(4)] c by simp
  then have c2: "c \<noteq> 0" "h_objs H2 c = None" using fresh_ConsD by blast+
  have D1: "set (take ?k addrs) \<subseteq> dom (h_objs H2)" and D2: "set (take ?l (drop ?k addrs)) \<subseteq> dom (h_objs H2)"
    using h(4) q(4) by auto
  have x2: "denotes (set (take ?k addrs)) H2 x h"
    using denotes_frame [OF h(3) keeps_subset [OF q(2)]] by auto
  have live2: "nodes_live H2 x" "nodes_live H2 xs"
    using live nodes_live_UNIV h(2) q(2) by blast+
  obtain ft where ft: "get_type s = Some ft" "can_count H2 h ft"
    using denotes_can_count(1) [OF x2 t(2)] live2(1) by (auto simp: nodes_live_def)
  have "q = 0 \<or> q \<in> dom (h_objs H2)"
    using denotes_can_count(2) [OF q(3) t(3)] live2(2) t(1) by (auto simp: nodes_live_def)
  from cons_create_new [OF c2(2) this ft] obtain H3 where
    H3: "cons_create env c q h s 0 H2 = Some H3" "same_objs (set_obj c (0, ConsO q h) H2) H3" by blast
  let ?D = "set (take (literal_objects (LCons x xs)) addrs)"
  have rest: "drop (literal_objects (LCons x xs)) addrs = rest"
    using arg_cong [OF c, of "drop 1"] by (simp add: add.commute add.left_commute)
  have D: "?D = insert c (set (take ?k addrs) \<union> set (take ?l (drop ?k addrs)))"
    using set_take_add [of "?k + ?l" 1 addrs] set_take_add [of ?k ?l addrs] c by (simp add: add.commute)
  have "c \<notin> set (take ?k addrs)" "c \<notin> set (take ?l (drop ?k addrs))" using D1 D2 c2(2) by auto
  then have k23: "keeps (set (take ?k addrs)) H2 H3" "keeps (set (take ?l (drop ?k addrs))) H2 H3" "keeps UNIV H2 H3"
    using keeps_trans [OF set_obj_keeps_new [OF c2(2)] same_objs_keeps [OF H3(2)]] by blast+
  obtain r where "h_objs H3 c = Some (r, ConsO q h)"
    using same_objs_obj [OF H3(2), of c 0 "ConsO q h"] by auto
  moreover have "denotes ?D H3 x h" unfolding D by (rule denotes_frame [OF x2 k23(1)]) blast
  moreover have "denotes ?D H3 xs q" unfolding D by (rule denotes_frame [OF q(3) k23(2)]) blast
  ultimately have "denotes ?D H3 (LCons x xs) c" using c2(1) D by auto
  moreover have "dom (h_objs H3) = dom (h_objs H) \<union> ?D"
    using same_objs_dom [OF H3(2)] h(4) q(4) unfolding D by auto
  moreover have "keeps UNIV H H3"
    using h(2) q(2) k23(3) by (blast intro: keeps_trans)
  moreover have "axiom_read_data n env code t pc addrs H = Some (c, pc + length (encode (LCons x xs)), rest, H3)"
    using h(1) q(1) [unfolded c] H3(1) b(1) unfolding n(1) t(1) by (simp add: add.assoc)
  ultimately show "\<exists>f H'. axiom_read_data n env code t pc addrs H =
      Some (f, pc + length (encode (LCons x xs)), drop (literal_objects (LCons x xs)) addrs, H') \<and>
      keeps UNIV H H' \<and> denotes ?D H' (LCons x xs) f \<and> dom (h_objs H') = dom (h_objs H) \<union> ?D"
    unfolding rest by blast
qed

lemma can_count_overwrite:
  "can_count H f ft \<Longrightarrow> h_objs H s = Some (r, StructO fs) \<Longrightarrow> can_count (set_obj s (r, StructO fs') H) f ft"
  by (auto simp: can_count_def)

lemma struct_set_data_ok:
  assumes "h_objs H s = Some (r, StructO fs)" "i < length fs" "get_type t = Some ft" "can_count H v ft"
  shows "\<exists>H'. struct_set_data env s i v t H = Some H' \<and> same_objs (set_obj s (r, StructO (fs[i := v])) H) H'"
  using increment_can_count [OF can_count_overwrite [OF assms(4,1)]] assms(1-3)
  by (simp add: struct_set_data_def)

lemma reads_fields:
  assumes "\<forall>x\<in>set xs. reads_back env code x"
  shows "list_all2 literal_typed xs ts \<Longrightarrow> \<forall>x\<in>set xs. literal_depth x \<le> n \<Longrightarrow>
    bytes_at code pc (concat (map encode xs)) \<Longrightarrow> fresh addrs H \<Longrightarrow> sum_list (map literal_objects xs) \<le> length addrs \<Longrightarrow>
    \<forall>x\<in>set xs. nodes_live H x \<Longrightarrow> h_objs H s = Some (r, StructO fs) \<Longrightarrow> length fs = length ys + length xs \<Longrightarrow>
    list_all2 (denotes D H) ys (take (length ys) fs) \<Longrightarrow> D \<subseteq> dom (h_objs H) - {s} \<Longrightarrow>
    \<exists>H' fs' r'. read_fields (\<lambda>t pc addrs H. axiom_read_data n env code t pc addrs H) env s (length ys) ts pc addrs H =
        Some (pc + length (concat (map encode xs)), drop (sum_list (map literal_objects xs)) addrs, H') \<and>
      keeps (dom (h_objs H) - {s}) H H' \<and> h_objs H' s = Some (r', StructO fs') \<and>
      list_all2 (denotes (D \<union> set (take (sum_list (map literal_objects xs)) addrs)) H') (ys @ xs) fs' \<and>
      dom (h_objs H') = dom (h_objs H) \<union> set (take (sum_list (map literal_objects xs)) addrs)"
  using assms
proof (induction xs arbitrary: ts pc addrs H r fs ys D)
  case Nil
  then show ?case by simp
next
  case (Cons x xs)
  from Cons.prems(1) obtain t ts' where ts: "ts = t # ts'" "literal_typed x t" "list_all2 literal_typed xs ts'"
    by (auto simp: list_all2_Cons1)
  let ?k = "literal_objects x" and ?l = "sum_list (map literal_objects xs)" and ?i = "length ys"
  let ?D1 = "set (take ?k addrs)"
  have b: "bytes_at code pc (encode x)" "bytes_at code (pc + length (encode x)) (concat (map encode xs))"
    using Cons.prems(3) by (auto simp: bytes_at_append)
  have len: "?k \<le> length addrs" "?l \<le> length (drop ?k addrs)" using Cons.prems(5) by auto
  have rb: "reads_back env code x" "literal_depth x \<le> n" "nodes_live H x" using Cons.prems by auto
  obtain v H1 where v: "axiom_read_data n env code t pc addrs H = Some (v, pc + length (encode x), drop ?k addrs, H1)"
    "keeps UNIV H H1" "denotes ?D1 H1 x v" "dom (h_objs H1) = dom (h_objs H) \<union> ?D1"
    by (rule reads_backD [OF rb(1) ts(2) rb(2) b(1) Cons.prems(4) len(1) rb(3)])
  obtain r1 where s1: "h_objs H1 s = Some (r1, StructO fs)"
    using keeps_obj [OF v(2) _ Cons.prems(7)] by auto
  obtain ft where ft: "get_type t = Some ft" "can_count H1 v ft"
    using denotes_can_count(1) [OF v(3) ts(2)] nodes_live_UNIV [OF rb(3) v(2)] by (auto simp: nodes_live_def)
  have i: "?i < length fs" using Cons.prems(8) by simp
  from struct_set_data_ok [OF s1 i ft] obtain H2 where
    H2: "struct_set_data env s ?i v t H1 = Some H2" "same_objs (set_obj s (r1, StructO (fs[?i := v])) H1) H2" by blast
  obtain r2 where s2: "h_objs H2 s = Some (r2, StructO (fs[?i := v]))"
    using same_objs_obj [OF H2(2), of s r1 "StructO (fs[?i := v])"] by auto
  have dom2: "dom (h_objs H2) = dom (h_objs H) \<union> ?D1"
    using same_objs_dom [OF H2(2)] v(4) s1 by auto
  have k2: "s \<notin> A \<Longrightarrow> keeps A H1 H2" for A
    using keeps_trans [OF set_obj_keeps same_objs_keeps [OF H2(2)]] by blast
  have k02: "s \<notin> A \<Longrightarrow> keeps A H H2" for A
    using keeps_trans [OF keeps_subset [OF v(2)] k2] by blast
  have D1: "s \<notin> ?D1" "s \<notin> D"
    using Cons.prems(4,7,10) set_take_subset [of ?k addrs] by (auto simp: fresh_def)
  have "list_all2 (denotes (D \<union> ?D1) H2) ys (take ?i (fs[?i := v]))"
    using Cons.prems(9) by (auto intro: list_all2_mono denotes_frame [OF _ k02 [OF D1(2)]])
  moreover have "denotes (D \<union> ?D1) H2 x v" by (rule denotes_frame [OF v(3) k2 [OF D1(1)]]) simp
  ultimately have fields: "list_all2 (denotes (D \<union> ?D1) H2) (ys @ [x]) (take (length (ys @ [x])) (fs[?i := v]))"
    using i by (simp add: take_Suc_conv_app_nth list_all2_appendI)
  have live: "\<forall>y\<in>set xs. nodes_live H2 y"
  proof
    fix y assume "y \<in> set xs"
    then have "nodes_live H y" using Cons.prems(6) by simp
    moreover from this Cons.prems(7) have "{s} \<inter> literal_nodes y = {}" by (auto simp: nodes_live_def)
    ultimately show "nodes_live H2 y" by (intro nodes_live_keeps [OF _ k02]) auto
  qed
  have "D \<union> ?D1 \<subseteq> dom (h_objs H2) - {s}" using Cons.prems(10) D1 dom2 by auto
  moreover have "\<forall>y\<in>set xs. literal_depth y \<le> n" "\<forall>y\<in>set xs. reads_back env code y"
    "length (fs[?i := v]) = length (ys @ [x]) + length xs"
    using Cons.prems(2,8,11) by auto
  ultimately
  obtain H' fs' r' where IH: "read_fields (\<lambda>t pc addrs H. axiom_read_data n env code t pc addrs H) env s (Suc ?i) ts'
        (pc + length (encode x)) (drop ?k addrs) H2 =
      Some (pc + length (encode x) + length (concat (map encode xs)), drop ?l (drop ?k addrs), H')"
    "keeps (dom (h_objs H2) - {s}) H2 H'" "h_objs H' s = Some (r', StructO fs')"
    "list_all2 (denotes (D \<union> ?D1 \<union> set (take ?l (drop ?k addrs))) H') (ys @ x # xs) fs'"
    "dom (h_objs H') = dom (h_objs H2) \<union> set (take ?l (drop ?k addrs))"
    using Cons.IH [OF ts(3) _ b(2) fresh_drop [OF Cons.prems(4) dom2] len(2) live s2 _ fields]
    unfolding length_append_singleton append_assoc append_Cons append_Nil by blast
  have "keeps (dom (h_objs H) - {s}) H H'"
    by (rule keeps_trans [OF k02 keeps_subset [OF IH(2)]]) (auto simp: dom2)
  moreover have E1: "set (take (sum_list (map literal_objects (x # xs))) addrs) = ?D1 \<union> set (take ?l (drop ?k addrs))"
    by (simp add: set_take_add)
  moreover have E2: "drop (sum_list (map literal_objects (x # xs))) addrs = drop ?l (drop ?k addrs)"
    by (simp add: add.commute)
  moreover have "read_fields (\<lambda>t pc addrs H. axiom_read_data n env code t pc addrs H) env s ?i ts pc addrs H =
      Some (pc + length (concat (map encode (x # xs))), drop ?l (drop ?k addrs), H')"
    by (simp only: ts(1) read_fields.simps v(1) H2(1) IH(1) bind.bind_lunit prod.case concat.simps list.map length_append add.assoc)
  moreover have "dom (h_objs H') = dom (h_objs H) \<union> (?D1 \<union> set (take ?l (drop ?k addrs)))"
    unfolding IH(5) dom2 by (rule Un_assoc)
  ultimately show ?case using IH(3) IH(4) unfolding Un_assoc E1 E2 by blast
qed

lemma reads_back_LStruct:
  assumes xs: "\<forall>x\<in>set xs. reads_back env code x"
  shows "reads_back env code (LStruct xs)"
  unfolding reads_back_def
proof (intro allI impI)
  fix t n pc addrs H
  assume typed: "literal_typed (LStruct xs) t" and depth: "literal_depth (LStruct xs) \<le> n"
    and bytes: "bytes_at code pc (encode (LStruct xs))" and fresh: "fresh addrs H"
    and len: "literal_objects (LStruct xs) \<le> length addrs" and nodes: "nodes_live H (LStruct xs)"
  from typed obtain ts where t: "t = StructT ts" "list_all2 literal_typed xs ts" by (auto split: vtype.splits)
  from depth obtain m where n: "n = Suc m" "\<forall>x\<in>set xs. literal_depth x \<le> m" by (cases n) auto
  from len obtain s rest where a: "addrs = s # rest" by (cases addrs) auto
  note s = fresh_ConsD [OF fresh [unfolded a]]
  let ?H = "set_obj s (0, StructO (replicate (length ts) 0)) H" and ?D = "set (take (sum_list (map literal_objects xs)) rest)"
  have "fresh rest ?H" using fresh s by (auto simp: a fresh_def)
  moreover have "\<forall>x\<in>set xs. nodes_live ?H x" using nodes s by (fastforce simp: nodes_live_def)
  ultimately obtain H' fs' r' where r: "read_fields (\<lambda>t pc addrs H. axiom_read_data m env code t pc addrs H) env s 0 ts pc rest ?H =
      Some (pc + length (concat (map encode xs)), drop (sum_list (map literal_objects xs)) rest, H')"
    "keeps (dom (h_objs ?H) - {s}) ?H H'" "h_objs H' s = Some (r', StructO fs')"
    "list_all2 (denotes ?D H') xs fs'" "dom (h_objs H') = dom (h_objs ?H) \<union> ?D"
    using reads_fields [OF xs t(2) n(2), of pc rest ?H s 0 "replicate (length ts) 0" "[]" "{}"] bytes len t(2)
    by (auto simp: a list_all2_lengthD)
  have "denotes ?D H' x f \<Longrightarrow> denotes (insert s ?D) H' x f" for x f
    by (rule denotes_frame [OF _ keeps_refl]) auto
  then have "list_all2 (denotes (insert s ?D) H') xs fs'" by (rule list_all2_mono [OF r(4)])
  then have "denotes (insert s ?D) H' (LStruct xs) s" using r(3) s by auto
  moreover have "keeps UNIV H H'"
    using r(2) s unfolding keeps_def by fastforce
  moreover have "dom (h_objs H') = dom (h_objs H) \<union> insert s ?D" using r(5) by auto
  ultimately show "\<exists>f H'. axiom_read_data n env code t pc addrs H =
      Some (f, pc + length (encode (LStruct xs)), drop (literal_objects (LStruct xs)) addrs, H') \<and>
      keeps UNIV H H' \<and> denotes (set (take (literal_objects (LStruct xs)) addrs)) H' (LStruct xs) f \<and>
      dom (h_objs H') = dom (h_objs H) \<union> set (take (literal_objects (LStruct xs)) addrs)"
    using r(1) by (simp add: a n(1) t(1))
qed

lemma bytes_at_word:
  "bytes_at code pc (to_le 4 (unat (v :: 32 word))) \<Longrightarrow> pcounter_int code pc = Some v"
  "bytes_at code pc (to_le 8 (unat (w :: 64 word))) \<Longrightarrow> pcounter_float code pc = Some w"
  "bytes_at code pc (to_le 8 (unat (w :: 64 word))) \<Longrightarrow> pcounter_node code pc = Some w"
  by (simp_all add: bytes_at_def pcounter_int_def pcounter_float_def pcounter_node_def)

lemma reads_back_literal: "reads_back env code x"
proof (induction x)
  case (LInt v)
  show ?case
    unfolding reads_back_def
    by (auto simp: bytes_at_word pcounter_move_int_def vm_size_simps Suc_le_eq gr0_conv_Suc)
next
  case (LFloat v)
  show ?case
    unfolding reads_back_def
    by (auto simp: bytes_at_word pcounter_move_float_def vm_size_simps whole_field_defs Suc_le_eq gr0_conv_Suc)
next
  case (LNode v)
  show ?case
    unfolding reads_back_def
    by (auto simp: bytes_at_word pcounter_move_node_def vm_size_simps whole_field_defs Suc_le_eq gr0_conv_Suc)
next
  case LNil
  show ?case
    unfolding reads_back_def by (auto simp: bytes_at_Cons Suc_le_eq gr0_conv_Suc)
next
  case (LCons x xs)
  then show ?case by (rule reads_back_LCons)
next
  case (LStruct xs)
  then show ?case by (intro reads_back_LStruct) blast
qed

text \<open>
  C18. Reading literal data inverts writing it: where the code has the bytes of a literal, reading a
  value of its type succeeds, continues right after the bytes, uses one new object for each list
  cell and struct, and returns a field that denotes the literal; no other object of the heap changes
  except for its counter.
\<close>

theorem axiom_data_roundtrip:
  assumes "literal_typed x t" "literal_depth x \<le> n" "bytes_at code pc (encode x)"
    "fresh addrs H" "literal_objects x \<le> length addrs" "nodes_live H x"
  shows "\<exists>f H'. axiom_read_data n env code t pc addrs H = Some (f, pc + length (encode x), drop (literal_objects x) addrs, H')
    \<and> denotes (set (take (literal_objects x) addrs)) H' x f \<and> extends H H'
    \<and> dom (h_objs H') = dom (h_objs H) \<union> set (take (literal_objects x) addrs)"
proof -
  from assms obtain f H' where "axiom_read_data n env code t pc addrs H = Some (f, pc + length (encode x), drop (literal_objects x) addrs, H')"
    "keeps UNIV H H'" "denotes (set (take (literal_objects x) addrs)) H' x f"
    "dom (h_objs H') = dom (h_objs H) \<union> set (take (literal_objects x) addrs)"
    by (rule reads_backD [OF reads_back_literal])
  then show ?thesis unfolding keeps_def extends_def by blast
qed

text \<open>The list of the struct of 7 and the empty list, in the middle of some code.\<close>

theorem axiom_data_roundtrip_witness:
  "\<exists>f H'. axiom_read_data 4 small_env ([9] @ encode (LCons (LStruct [LInt 7, LNil]) LNil) @ [9])
       (ListT (StructT [BaseT FIELD_INT, ListT (BaseT FIELD_INT)])) 1 [8, 16, 24] \<lparr>h_objs = Map.empty, h_gc = {}\<rparr> =
     Some (f, 8, [24], H') \<and> denotes {8, 16} H' (LCons (LStruct [LInt 7, LNil]) LNil) f"
proof -
  let ?x = "LCons (LStruct [LInt 7, LNil]) LNil" and ?H = "\<lparr>h_objs = Map.empty, h_gc = {}\<rparr>"
  have b: "bytes_at ([9] @ encode ?x @ [9]) 1 (encode ?x)"
    by (simp add: bytes_at_def code_bytes_def)
  have "literal_typed ?x (ListT (StructT [BaseT FIELD_INT, ListT (BaseT FIELD_INT)]))" "literal_depth ?x \<le> 4"
    "fresh [8, 16, 24] ?H" "literal_objects ?x \<le> length [8, 16, 24 :: ptr_val]" "nodes_live ?H ?x"
    by (simp_all add: fresh_def nodes_live_def)
  note rt = axiom_data_roundtrip [OF this(1,2) b this(3,4,5), of small_env]
  have k: "literal_objects ?x = 2" "1 + length (encode ?x) = 8" "drop 2 [8, 16, 24 :: ptr_val] = [24]"
    "set (take 2 [8, 16, 24 :: ptr_val]) = {8, 16}"
    by simp_all
  from rt show ?thesis unfolding k by blast
qed

end
