(* ===== verification/Trie_Node.thy ===== *)
theory Trie_Node
  imports Runtime_Heap
begin

text \<open>
  The nodes of the tries that store persistent facts (\<^verbatim>\<open>db/trie.hpp\<close>, \<^verbatim>\<open>db/trie.cpp\<close>). A fact is a path
  from the root: every field contributes one symbol, or several when it is a list or a struct. The
  children of a node are a chain that becomes a hash table when it grows.
  The nodes form a tree: a \<^verbatim>\<open>next\<close> chain is a list, and a pointer to a node is the list of steps that
  lead from the node up to the root, so that \<^verbatim>\<open>parent\<close> is its tail, \<^verbatim>\<open>prev == nullptr\<close> is position 0 and
  \<^verbatim>\<open>bucket\<close> is part of the step. None is an abort or undefined behaviour.
  The hash functions of the C++ library are parameters.
\<close>

subsection \<open>Nodes\<close>

datatype trie_node = TN (tn_data: tuple_field) (tn_hashed: bool) (tn_child: trie_child)
and trie_child = TLeaf ptr_val | TNodes "trie_node list" | THash vtype "trie_node list list" nat

text \<open>\<open>TNodes []\<close> is a null \<^verbatim>\<open>child\<close>; \<open>THash\<close> has the type, the buckets and the total of a \<^verbatim>\<open>trie_hash\<close>.\<close>

datatype child_pos = InList nat | InBucket nat nat

type_synonym trie_pos = "child_pos list"

record hashes =
  hash_int :: "int_val \<Rightarrow> nat"
  hash_uint :: "uint_val \<Rightarrow> nat"
  hash_float :: "float_val \<Rightarrow> nat"
  hash_node :: "node_val \<Rightarrow> nat"
  hash_thread :: "ptr_val \<Rightarrow> nat"

definition TRIE_HASH_LIST_THRESHOLD :: nat where
  "TRIE_HASH_LIST_THRESHOLD = 8"

definition TRIE_HASH_BASE_BUCKETS :: nat where
  "TRIE_HASH_BASE_BUCKETS = 64"

definition new_trie_node :: "tuple_field \<Rightarrow> trie_node" where
  "new_trie_node d = TN d False (TNodes [])"

definition is_leaf :: "trie_node \<Rightarrow> bool" where
  "is_leaf n = (case tn_child n of TLeaf l \<Rightarrow> True | _ \<Rightarrow> False)"

definition set_child :: "trie_child \<Rightarrow> trie_node \<Rightarrow> trie_node" where
  "set_child c n = TN (tn_data n) (tn_hashed n) c"

fun children :: "trie_child \<Rightarrow> trie_node list" where
  "children (TLeaf l) = []"
| "children (TNodes ns) = ns"
| "children (THash ty bs tot) = concat bs"

text \<open>Following and updating pointers.\<close>

fun child_at :: "child_pos \<Rightarrow> trie_node \<Rightarrow> trie_node option" where
  "child_at (InList i) (TN d h (TNodes ns)) = (if i < length ns then Some (ns ! i) else None)"
| "child_at (InBucket b i) (TN d h (THash ty bs tot)) =
     (if b < length bs \<and> i < length (bs ! b) then Some (bs ! b ! i) else None)"
| "child_at _ _ = None"

fun put_child :: "child_pos \<Rightarrow> trie_node \<Rightarrow> trie_node \<Rightarrow> trie_node" where
  "put_child (InList i) m (TN d h (TNodes ns)) = TN d h (TNodes (ns[i := m]))"
| "put_child (InBucket b i) m (TN d h (THash ty bs tot)) = TN d h (THash ty (bs[b := (bs ! b)[i := m]]) tot)"
| "put_child _ m n = n"

fun node_at :: "trie_pos \<Rightarrow> trie_node \<Rightarrow> trie_node option" where
  "node_at [] root = Some root"
| "node_at (p # up) root = Option.bind (node_at up root) (child_at p)"

fun put_at :: "trie_pos \<Rightarrow> trie_node \<Rightarrow> trie_node \<Rightarrow> trie_node" where
  "put_at [] m root = m"
| "put_at (p # up) m root = (case node_at up root of None \<Rightarrow> root | Some n \<Rightarrow> put_at up (put_child p m n) root)"

subsection \<open>Hash tables of children\<close>

fun hash_data :: "hashes \<Rightarrow> vtype \<Rightarrow> tuple_field \<Rightarrow> nat option" where
  "hash_data hs (BaseT FIELD_INT) f = Some (hash_int hs (field_int f))"
| "hash_data hs (BaseT FIELD_FLOAT) f = Some (hash_float hs (field_float f) div 1000)"
| "hash_data hs (BaseT FIELD_NODE) f = Some (hash_node hs (field_node f))"
| "hash_data hs (BaseT FIELD_THREAD) f = Some (hash_thread hs f)"
| "hash_data hs (BaseT FIELD_STRING) f = Some (hash_uint hs (ucast f))"
| "hash_data hs (ListT s) f = Some (hash_uint hs (if f = 0 then 0 else 1))"
| "hash_data hs _ f = None"

text \<open>A node becomes the first of its bucket.\<close>

definition hash_insert :: "nat \<Rightarrow> trie_node \<Rightarrow> trie_node list list \<Rightarrow> trie_node list list" where
  "hash_insert key m bs = (let b = key mod length bs in bs[b := m # bs ! b])"

fun hash_insert_all :: "hashes \<Rightarrow> vtype \<Rightarrow> trie_node list \<Rightarrow> trie_node list list \<Rightarrow> trie_node list list option" where
  "hash_insert_all hs t [] bs = Some bs"
| "hash_insert_all hs t (m # ms) bs =
     do { key \<leftarrow> hash_data hs t (tn_data m); hash_insert_all hs t ms (hash_insert key m bs) }"

definition convert_hash :: "hashes \<Rightarrow> vtype \<Rightarrow> trie_node \<Rightarrow> trie_node option" where
  "convert_hash hs t n =
     (case tn_child n of
        TNodes ns \<Rightarrow>
          do { bs \<leftarrow> hash_insert_all hs t ns (replicate TRIE_HASH_BASE_BUCKETS []);
               Some (TN (tn_data n) True (THash t bs (length ns))) }
      | _ \<Rightarrow> None)"

text \<open>\<^verbatim>\<open>expand\<close> has no case for threads.\<close>

definition trie_hash_expand :: "hashes \<Rightarrow> trie_node \<Rightarrow> trie_node option" where
  "trie_hash_expand hs n =
     (case tn_child n of
        THash ty bs tot \<Rightarrow>
          if ty = BaseT FIELD_THREAD \<and> concat bs \<noteq> [] then None
          else do { bs' \<leftarrow> hash_insert_all hs ty (concat bs) (replicate (length bs * 2) []);
                    Some (set_child (THash ty bs' tot) n) }
      | _ \<Rightarrow> None)"

subsection \<open>Matching and inserting one symbol\<close>

type_synonym insert_stack = "(vtype \<times> tuple_field) list"

text \<open>What a list cell or a struct leaves on the stack: its parts, the first one on top.\<close>

definition push_parts :: "heap \<Rightarrow> vtype \<Rightarrow> tuple_field \<Rightarrow> insert_stack \<Rightarrow> insert_stack option" where
  "push_parts H t f stk =
     (case t of
        ListT s \<Rightarrow>
          if f = 0 then Some stk
          else do { hf \<leftarrow> get_head H f; tf \<leftarrow> get_tail H f; Some ((s, hf) # (t, tf) # stk) }
      | StructT ts \<Rightarrow>
          if ts = [] then Some stk
          else (case h_objs H f of
                  Some (r, StructO fs) \<Rightarrow> if length fs = length ts then Some (zip ts fs @ stk) else None
                | _ \<Rightarrow> None)
      | _ \<Rightarrow> Some stk)"

fun same_data :: "vtype \<Rightarrow> tuple_field \<Rightarrow> tuple_field \<Rightarrow> bool option" where
  "same_data (BaseT FIELD_INT) d f = Some (field_int d = field_int f)"
| "same_data (BaseT FIELD_FLOAT) d f = Some (float_eq (field_float d) (field_float f))"
| "same_data (BaseT FIELD_NODE) d f = Some (field_node d = field_node f)"
| "same_data (BaseT FIELD_THREAD) d f = Some (d = f)"
| "same_data (BaseT FIELD_STRING) d f = Some (d = f)"
| "same_data (StructT ts) d f = Some (field_int d = of_nat (length ts))"
| "same_data (ListT s) d f = Some (if f = 0 then d = 0 else d = 1)"
| "same_data _ d f = None"

text \<open>The walk along a chain: the position of the first node that fits, and the nodes looked at.\<close>

fun match_nodes :: "vtype \<Rightarrow> tuple_field \<Rightarrow> nat \<Rightarrow> trie_node list \<Rightarrow> (nat option \<times> nat) option" where
  "match_nodes t f i [] = Some (None, i)"
| "match_nodes t f i (n # ns) =
     do { b \<leftarrow> same_data t (tn_data n) f; if b then Some (Some i, Suc i) else match_nodes t f (Suc i) ns }"

definition trie_match ::
  "hashes \<Rightarrow> heap \<Rightarrow> trie_node \<Rightarrow> vtype \<Rightarrow> tuple_field \<Rightarrow> insert_stack \<Rightarrow>
   (child_pos option \<times> insert_stack \<times> nat) option" where
  "trie_match hs H n t f stk =
     (case tn_child n of
        TLeaf l \<Rightarrow> None
      | TNodes ns \<Rightarrow>
          if ns = [] then Some (None, stk, 0)
          else if tn_hashed n then None
          else do { (r, c) \<leftarrow> match_nodes t f 0 ns;
                    (case r of
                       None \<Rightarrow> Some (None, stk, c)
                     | Some i \<Rightarrow> do { stk \<leftarrow> push_parts H t f stk; Some (Some (InList i), stk, c) }) }
      | THash ty bs tot \<Rightarrow>
          if \<not> tn_hashed n then None
          else do { key \<leftarrow> hash_data hs t f;
                    (r, c) \<leftarrow> match_nodes t f 0 (bs ! (key mod length bs));
                    (case r of
                       None \<Rightarrow> Some (None, stk, c)
                     | Some i \<Rightarrow> do { stk \<leftarrow> push_parts H t f stk; Some (Some (InBucket (key mod length bs) i), stk, c) }) })"

fun insert_data :: "vtype \<Rightarrow> tuple_field \<Rightarrow> tuple_field option" where
  "insert_data (ListT s) f = Some (if f = 0 then 0 else 1)"
| "insert_data (StructT ts) f = Some (set_field_int 0 (of_nat (length ts)))"
| "insert_data (BaseT FIELD_BOOL) f = Some f"
| "insert_data (BaseT FIELD_INT) f = Some f"
| "insert_data (BaseT FIELD_FLOAT) f = Some f"
| "insert_data (BaseT FIELD_NODE) f = Some f"
| "insert_data (BaseT FIELD_THREAD) f = Some f"
| "insert_data _ f = None"

definition trie_insert ::
  "hashes \<Rightarrow> heap \<Rightarrow> trie_node \<Rightarrow> vtype \<Rightarrow> tuple_field \<Rightarrow> insert_stack \<Rightarrow>
   (trie_node \<times> child_pos \<times> insert_stack) option" where
  "trie_insert hs H n t f stk =
     do { d \<leftarrow> insert_data t f;
          stk \<leftarrow> push_parts H t f stk;
          (case tn_child n of
             TLeaf l \<Rightarrow> None
           | TNodes ns \<Rightarrow>
               if tn_hashed n then None
               else Some (set_child (TNodes (new_trie_node d # ns)) n, InList 0, stk)
           | THash ty bs tot \<Rightarrow>
               if \<not> tn_hashed n then None
               else do { key \<leftarrow> hash_data hs t d;
                         Some (set_child (THash ty (hash_insert key (new_trie_node d) bs) (tot + 1)) n,
                           InBucket (key mod length bs) 0, stk) }) }"

text \<open>
  What \<^verbatim>\<open>check_insert\<close> does to the parent before it inserts: \<open>cnt\<close> is the number of nodes that were looked
  at, plus one. A parent that is marked as hashed and has no table is dereferenced as null.
\<close>

definition make_room :: "hashes \<Rightarrow> vtype \<Rightarrow> nat \<Rightarrow> trie_node \<Rightarrow> trie_node option" where
  "make_room hs t cnt n =
     (if cnt > TRIE_HASH_LIST_THRESHOLD \<and> \<not> tn_hashed n then convert_hash hs t n
      else if tn_hashed n then
        (case tn_child n of
           THash ty bs tot \<Rightarrow> if cnt > TRIE_HASH_LIST_THRESHOLD div 2 then trie_hash_expand hs n else Some n
         | _ \<Rightarrow> None)
      else Some n)"

subsection \<open>The two loops of \<^verbatim>\<open>check_insert\<close>\<close>

text \<open>
  The first loop goes down as long as the symbols are there; it ends at a leaf or with the parent
  where a symbol is missing, the field, the rest of the stack and the number of nodes looked at.
\<close>

datatype descent = Reached trie_pos ptr_val | Missing trie_pos trie_node vtype tuple_field insert_stack nat

lemma child_at_size [termination_simp]: "child_at p n = Some m \<Longrightarrow> size m < size n"
proof (induction p n rule: child_at.induct)
  case (1 i d h ns)
  then have "size m \<le> size_list size ns"
    by (auto intro!: size_list_estimation' [OF nth_mem] split: if_splits)
  then show ?case by simp
next
  case (2 b i d h ty bs tot)
  then have "size m \<le> size_list (size_list size) bs"
    by (auto intro!: size_list_estimation' [OF nth_mem size_list_estimation' [OF nth_mem]] split: if_splits)
  then show ?case by simp
qed simp_all

function descend :: "hashes \<Rightarrow> heap \<Rightarrow> trie_node \<Rightarrow> trie_pos \<Rightarrow> insert_stack \<Rightarrow> descent option" where
  "descend hs H parent pos stk =
     (case tn_child parent of
        TLeaf l \<Rightarrow> Some (Reached pos l)
      | _ \<Rightarrow>
          (case stk of
             [] \<Rightarrow> None
           | (t, f) # stk \<Rightarrow>
               (case trie_match hs H parent t f stk of
                  None \<Rightarrow> None
                | Some (None, stk, cnt) \<Rightarrow> Some (Missing pos parent t f stk cnt)
                | Some (Some p, stk, cnt) \<Rightarrow>
                    (case child_at p parent of None \<Rightarrow> None | Some cur \<Rightarrow> descend hs H cur (p # pos) stk))))"
  by pat_completeness auto
termination
  by (relation "measure (\<lambda>(hs, H, n, pos, stk). size n)") (auto dest: child_at_size)

declare descend.simps [simp del]

text \<open>
  The second loop inserts one node for every symbol that remains. The number of rounds is bounded by
  fuel; the number of symbols is enough.
\<close>

fun insert_rest :: "nat \<Rightarrow> hashes \<Rightarrow> heap \<Rightarrow> trie_node \<Rightarrow> trie_pos \<Rightarrow> insert_stack \<Rightarrow> (trie_node \<times> trie_pos) option" where
  "insert_rest n hs H root pos [] = Some (root, pos)"
| "insert_rest 0 hs H root pos (x # stk) = None"
| "insert_rest (Suc n) hs H root pos ((t, f) # stk) =
     do { parent \<leftarrow> node_at pos root;
          (parent, p, stk) \<leftarrow> trie_insert hs H parent t f stk;
          insert_rest n hs H (put_at pos parent root) (p # pos) stk }"

text \<open>What follows a missing symbol: making room, the new nodes, and the leaf at the end.\<close>

definition insert_branch ::
  "nat \<Rightarrow> hashes \<Rightarrow> heap \<Rightarrow> ptr_val \<Rightarrow> trie_node \<Rightarrow> trie_pos \<Rightarrow> trie_node \<Rightarrow> vtype \<Rightarrow> tuple_field \<Rightarrow> insert_stack \<Rightarrow> nat \<Rightarrow>
   (trie_node \<times> trie_pos) option" where
  "insert_branch fuel hs H l root pos parent t f stk cnt =
     do { parent \<leftarrow> make_room hs t (cnt + 1) parent;
          (parent, p, stk) \<leftarrow> trie_insert hs H parent t f stk;
          (root, pos) \<leftarrow> insert_rest fuel hs H (put_at pos parent root) (p # pos) stk;
          parent \<leftarrow> node_at pos root;
          Some (put_at pos (set_child (TLeaf l) parent) root, pos) }"

subsection \<open>Removing nodes\<close>

text \<open>
  \<^verbatim>\<open>delete_path\<close> unlinks a node whose child is null and goes on with its parent when that was the last
  child. The table of a hashed parent is freed first.
\<close>

fun delete_path :: "trie_pos \<Rightarrow> trie_node \<Rightarrow> trie_node option" where
  "delete_path [] root = Some (TN (tn_data root) False (tn_child root))"
| "delete_path (p # up) root =
     do { parent \<leftarrow> node_at up root;
          (case (p, tn_child parent) of
             (InBucket b i, THash ty bs tot) \<Rightarrow>
               let tot = size_sub tot 1; bs = bs[b := remove_nth i (bs ! b)]
               in if i = 0 \<and> tot = 0 then delete_path up (put_at up (set_child (TNodes []) parent) root)
                  else Some (put_at up (set_child (THash ty bs tot) parent) root)
           | (InList i, TNodes ns) \<Rightarrow>
               let ns = remove_nth i ns; root = put_at up (set_child (TNodes ns) parent) root
               in if i = 0 \<and> ns = [] then delete_path up root else Some root
           | _ \<Rightarrow> None) }"

text \<open>The node of a leaf, which the source keeps in the leaf, is found by searching.\<close>

fun leaf_pos :: "ptr_val \<Rightarrow> trie_node \<Rightarrow> trie_pos option"
  and leaf_pos_list :: "ptr_val \<Rightarrow> (nat \<Rightarrow> child_pos) \<Rightarrow> nat \<Rightarrow> trie_node list \<Rightarrow> trie_pos option"
  and leaf_pos_table :: "ptr_val \<Rightarrow> nat \<Rightarrow> trie_node list list \<Rightarrow> trie_pos option" where
  "leaf_pos l (TN d h (TLeaf l')) = (if l = l' then Some [] else None)"
| "leaf_pos l (TN d h (TNodes ns)) = leaf_pos_list l InList 0 ns"
| "leaf_pos l (TN d h (THash ty bs tot)) = leaf_pos_table l 0 bs"
| "leaf_pos_list l mk i [] = None"
| "leaf_pos_list l mk i (m # ms) =
     (case leaf_pos l m of Some q \<Rightarrow> Some (q @ [mk i]) | None \<Rightarrow> leaf_pos_list l mk (Suc i) ms)"
| "leaf_pos_table l b [] = None"
| "leaf_pos_table l b (x # xs) =
     (case leaf_pos_list l (InBucket b) 0 x of Some q \<Rightarrow> Some q | None \<Rightarrow> leaf_pos_table l (Suc b) xs)"

subsection \<open>Counting and looking up\<close>

text \<open>\<open>counts\<close> has the counters of the leaves.\<close>

fun count_refs :: "(ptr_val \<Rightarrow> nat) \<Rightarrow> trie_node \<Rightarrow> nat" where
  "count_refs counts (TN d h (TLeaf l)) = counts l"
| "count_refs counts (TN d h (TNodes ns)) = sum_list (map (count_refs counts) ns)"
| "count_refs counts (TN d h (THash ty bs tot)) = sum_list (map (\<lambda>b. sum_list (map (count_refs counts) b)) bs)"

definition get_by :: "hashes \<Rightarrow> vtype \<Rightarrow> tuple_field \<Rightarrow> trie_node \<Rightarrow> child_pos option option" where
  "get_by hs t f n =
     (case tn_child n of
        TLeaf l \<Rightarrow> None
      | TNodes ns \<Rightarrow>
          if tn_hashed n then None
          else do { (r, c) \<leftarrow> match_nodes t f 0 ns; Some (map_option InList r) }
      | THash ty bs tot \<Rightarrow>
          if \<not> tn_hashed n then None
          else do { key \<leftarrow> hash_data hs t f; (r, c) \<leftarrow> match_nodes t f 0 (bs ! (key mod length bs));
                    Some (map_option (InBucket (key mod length bs)) r) })"

definition get_by_int :: "hashes \<Rightarrow> int_val \<Rightarrow> trie_node \<Rightarrow> child_pos option option" where
  "get_by_int hs v = get_by hs (BaseT FIELD_INT) (set_field_int 0 v)"

definition get_by_float :: "hashes \<Rightarrow> float_val \<Rightarrow> trie_node \<Rightarrow> child_pos option option" where
  "get_by_float hs v = get_by hs (BaseT FIELD_FLOAT) (set_field_float 0 v)"

definition get_by_node :: "hashes \<Rightarrow> node_val \<Rightarrow> trie_node \<Rightarrow> child_pos option option" where
  "get_by_node hs v = get_by hs (BaseT FIELD_NODE) (set_field_node 0 v)"

end
