(* ===== verification/Trie_Keys.thy ===== *)
theory Trie_Keys
  imports Trie_Node
begin

text \<open>
  What a trie of \<^verbatim>\<open>db/trie.cpp\<close> contains: the key of a fact, the keys and leaves that a tree of nodes
  holds, when such a tree is well formed, and how a change at one position changes the contents.
\<close>

subsection \<open>Keys\<close>

text \<open>
  Symbols are compared with \<^verbatim>\<open>==\<close> at the type of the field, so that a symbol is the value that this
  comparison looks at. A float that is not a number equals nothing and has no key; the types that
  abort have none either.
\<close>

fun symbol :: "vtype \<Rightarrow> tuple_field \<Rightarrow> int" where
  "symbol (BaseT FIELD_INT) d = uint (field_int d)"
| "symbol (BaseT FIELD_FLOAT) d = float_key (field_float d)"
| "symbol (BaseT FIELD_NODE) d = uint (field_node d)"
| "symbol (ListT s) d = of_bool (d \<noteq> 0)"
| "symbol _ d = 0"

fun key_ok :: "vtype \<Rightarrow> tuple_field \<Rightarrow> bool" where
  "key_ok (BaseT FIELD_INT) f = True"
| "key_ok (BaseT FIELD_FLOAT) f = (\<not> float_is_nan (field_float f))"
| "key_ok (BaseT FIELD_NODE) f = True"
| "key_ok (ListT s) f = True"
| "key_ok (StructT ts) f = True"
| "key_ok _ f = False"

fun tuple_key :: "nat \<Rightarrow> heap \<Rightarrow> insert_stack \<Rightarrow> int list option" where
  "tuple_key n H [] = Some []"
| "tuple_key 0 H (x # stk) = None"
| "tuple_key (Suc n) H ((t, f) # stk) =
     (if key_ok t f then
        do { stk \<leftarrow> push_parts H t f stk; k \<leftarrow> tuple_key n H stk; Some (symbol t f # k) }
      else None)"

text \<open>The types of the symbols that follow a symbol, and the data a node can hold.\<close>

fun parts :: "vtype \<Rightarrow> tuple_field \<Rightarrow> vtype list" where
  "parts (ListT s) d = (if d = 0 then [] else [s, ListT s])"
| "parts (StructT ts) d = ts"
| "parts _ d = []"

fun good_data :: "vtype \<Rightarrow> tuple_field \<Rightarrow> bool" where
  "good_data (ListT s) d = (d = 0 \<or> d = 1)"
| "good_data (StructT ts) d = (field_int d = of_nat (length ts))"
| "good_data t d = key_ok t d"

definition hashes_ok :: "hashes \<Rightarrow> bool" where
  "hashes_ok hs \<longleftrightarrow> (\<forall>a b. float_eq a b \<longrightarrow> hash_float hs a = hash_float hs b)"

lemma base_type_cases:
  obtains "t = BaseT FIELD_INT" | "t = BaseT FIELD_FLOAT" | "t = BaseT FIELD_NODE"
  | s where "t = ListT s" | ts where "t = StructT ts" | "\<And>f. \<not> key_ok t f" "\<And>f. \<not> good_data t f"
proof (cases t)
  case (BaseT b)
  then show ?thesis using that by (cases b) simp_all
qed (use that in simp_all)

lemma good_key_ok: "good_data t d \<Longrightarrow> key_ok t d"
  by (cases t rule: base_type_cases) auto

lemma same_data_sym: "good_data t d \<Longrightarrow> key_ok t f \<Longrightarrow> same_data t d f = Some (symbol t d = symbol t f)"
  by (cases t rule: base_type_cases) (auto simp: float_eq_def word_uint_eq_iff)

lemma hash_data_sym:
  "hashes_ok hs \<Longrightarrow> key_ok t d \<Longrightarrow> key_ok t f \<Longrightarrow> symbol t d = symbol t f \<Longrightarrow> hash_data hs t d = hash_data hs t f"
proof (cases t rule: base_type_cases)
  case 2
  assume "hashes_ok hs" "key_ok t d" "key_ok t f" "symbol t d = symbol t f"
  with 2 have "float_eq (field_float d) (field_float f)" by (simp add: float_eq_def)
  with 2 \<open>hashes_ok hs\<close> show ?thesis by (simp add: hashes_ok_def)
qed (auto dest: word_uint_eq_iff [THEN iffD2])

lemma parts_sym: "symbol t d = symbol t f \<Longrightarrow> parts t d = parts t f"
  by (cases t) (auto split: if_splits)

lemma insert_data_ok:
  assumes "key_ok t f"
  obtains d where "insert_data t f = Some d" "good_data t d" "symbol t d = symbol t f"
  using assms that by (cases t rule: base_type_cases) auto

lemma push_parts_types: "push_parts H t f stk = Some stk' \<Longrightarrow> map fst stk' = parts t f @ map fst stk"
  by (auto simp: push_parts_def bind_eq_Some_conv split: vtype.splits option.splits robj.splits if_splits)

lemma tuple_key_Cons:
  assumes "tuple_key n H ((t, f) # stk) = Some k"
  obtains m stk' k' where "n = Suc m" "key_ok t f" "push_parts H t f stk = Some stk'"
    "tuple_key m H stk' = Some k'" "k = symbol t f # k'"
  using assms that by (cases n) (auto simp: bind_eq_Some_conv split: if_splits)

lemma tuple_key_mono: "tuple_key n H stk = Some k \<Longrightarrow> n \<le> m \<Longrightarrow> tuple_key m H stk = Some k"
proof (induction n arbitrary: stk k m)
  case 0
  then show ?case by (cases stk) auto
next
  case (Suc n)
  show ?case
  proof (cases stk)
    case (Cons x stk0)
    obtain t f where x: "x = (t, f)" by fastforce
    obtain m' where m: "m = Suc m'" "n \<le> m'" using Suc.prems(2) by (cases m) auto
    from Suc.prems(1) obtain stk1 k1 where
      k: "key_ok t f" "push_parts H t f stk0 = Some stk1" "tuple_key n H stk1 = Some k1" "k = symbol t f # k1"
      by (auto simp: Cons x bind_eq_Some_conv split: if_splits)
    from Suc.IH [OF k(3) m(2)] show ?thesis by (simp add: Cons x m k)
  qed (use Suc.prems in simp)
qed

subsection \<open>Contents\<close>

definition add_sym :: "int \<Rightarrow> int list \<times> ptr_val \<Rightarrow> int list \<times> ptr_val" where
  "add_sym x e = (x # fst e, snd e)"

definition add_prefix :: "int list \<Rightarrow> int list \<times> ptr_val \<Rightarrow> int list \<times> ptr_val" where
  "add_prefix pre e = (pre @ fst e, snd e)"

fun entries :: "vtype list \<Rightarrow> trie_node \<Rightarrow> (int list \<times> ptr_val) list" where
  "entries ts (TN d h (TLeaf l)) = [([], l)]"
| "entries [] (TN d h c) = []"
| "entries (t # ts) (TN d h (TNodes ns)) =
     concat (map (\<lambda>m. map (add_sym (symbol t (tn_data m))) (entries (parts t (tn_data m) @ ts) m)) ns)"
| "entries (t # ts) (TN d h (THash ty bs tot)) =
     concat (map (\<lambda>b. concat (map (\<lambda>m. map (add_sym (symbol t (tn_data m))) (entries (parts t (tn_data m) @ ts) m)) b)) bs)"

definition child_entries :: "vtype \<Rightarrow> vtype list \<Rightarrow> trie_node \<Rightarrow> (int list \<times> ptr_val) list" where
  "child_entries t ts m = map (add_sym (symbol t (tn_data m))) (entries (parts t (tn_data m) @ ts) m)"

lemma concat_map_concat: "concat (map (\<lambda>b. concat (map g b)) bs) = concat (map g (concat bs))"
  by (induction bs) simp_all

lemma entries_children:
  assumes "\<not> is_leaf n"
  shows "entries (t # ts) n = concat (map (child_entries t ts) (children (tn_child n)))"
proof (cases n)
  case (TN d h c)
  then show ?thesis using assms
    by (cases c) (simp_all add: is_leaf_def child_entries_def [abs_def] concat_map_concat [symmetric])
qed

definition placed :: "hashes \<Rightarrow> vtype \<Rightarrow> nat \<Rightarrow> nat \<Rightarrow> tuple_field \<Rightarrow> bool" where
  "placed hs t w b d \<longleftrightarrow> (\<exists>key. hash_data hs t d = Some key \<and> key mod w = b)"

definition level_ok :: "hashes \<Rightarrow> vtype \<Rightarrow> trie_node \<Rightarrow> bool" where
  "level_ok hs t n \<longleftrightarrow>
     (\<forall>m \<in> set (children (tn_child n)). good_data t (tn_data m)) \<and>
     distinct (map (\<lambda>m. symbol t (tn_data m)) (children (tn_child n))) \<and>
     (case tn_child n of
        TLeaf l \<Rightarrow> False
      | TNodes ns \<Rightarrow> \<not> tn_hashed n
      | THash ty bs tot \<Rightarrow>
          tn_hashed n \<and> ty = t \<and> bs \<noteq> [] \<and> tot = length (concat bs) \<and>
          (\<forall>b < length bs. \<forall>m \<in> set (bs ! b). placed hs t (length bs) b (tn_data m)))"

fun wf_node :: "hashes \<Rightarrow> vtype list \<Rightarrow> trie_node \<Rightarrow> bool" where
  "wf_node hs ts (TN d h (TLeaf l)) = (ts = [] \<and> \<not> h)"
| "wf_node hs [] (TN d h c) = False"
| "wf_node hs (t # ts) (TN d h (TNodes ns)) =
     (level_ok hs t (TN d h (TNodes ns)) \<and> ns \<noteq> [] \<and> (\<forall>m \<in> set ns. wf_node hs (parts t (tn_data m) @ ts) m))"
| "wf_node hs (t # ts) (TN d h (THash ty bs tot)) =
     (level_ok hs t (TN d h (THash ty bs tot)) \<and> concat bs \<noteq> [] \<and>
      (\<forall>b \<in> set bs. \<forall>m \<in> set b. wf_node hs (parts t (tn_data m) @ ts) m))"

lemma wf_node_Cons:
  "wf_node hs (t # ts) n \<longleftrightarrow>
     level_ok hs t n \<and> children (tn_child n) \<noteq> [] \<and>
     (\<forall>m \<in> set (children (tn_child n)). wf_node hs (parts t (tn_data m) @ ts) m)"
  by (cases n; cases "tn_child n") (auto simp: level_ok_def)

lemma wf_node_Nil: "wf_node hs [] n \<longleftrightarrow> is_leaf n \<and> \<not> tn_hashed n"
  by (cases n; cases "tn_child n") (auto simp: is_leaf_def)

lemma level_ok_not_leaf: "level_ok hs t n \<Longrightarrow> \<not> is_leaf n"
  by (auto simp: level_ok_def is_leaf_def split: trie_child.splits)

text \<open>The root of an empty trie has no child; every other node leads to a leaf.\<close>

definition wf_root :: "hashes \<Rightarrow> vtype list \<Rightarrow> trie_node \<Rightarrow> bool" where
  "wf_root hs ts root \<longleftrightarrow> wf_node hs ts root \<or> tn_child root = TNodes [] \<and> \<not> tn_hashed root"

subsection \<open>Positions\<close>

text \<open>
  \<open>at_node ts root pos pre ts' n\<close>: the pointer \<open>pos\<close> leads to \<open>n\<close>, the symbols on the way are \<open>pre\<close>, and
  \<open>ts'\<close> are the types of the symbols that follow.
\<close>

inductive at_node :: "vtype list \<Rightarrow> trie_node \<Rightarrow> trie_pos \<Rightarrow> int list \<Rightarrow> vtype list \<Rightarrow> trie_node \<Rightarrow> bool"
  for ts root where
  at_root: "at_node ts root [] [] ts root"
| at_child: "at_node ts root pos pre (t # ts') n \<Longrightarrow> child_at p n = Some m \<Longrightarrow>
    at_node ts root (p # pos) (pre @ [symbol t (tn_data m)]) (parts t (tn_data m) @ ts') m"

inductive_cases at_node_ConsE: "at_node ts root (p # pos) pre ts' m"
inductive_simps at_node_Nil [simp]: "at_node ts root [] pre ts' m"

lemma at_node_pos: "at_node ts root pos pre ts' n \<Longrightarrow> node_at pos root = Some n"
  by (induction rule: at_node.induct) simp_all

lemma at_node_trans:
  "at_node ts1 n pos2 pre2 ts2 m \<Longrightarrow> at_node ts root pos1 pre1 ts1 n \<Longrightarrow>
   at_node ts root (pos2 @ pos1) (pre1 @ pre2) ts2 m"
proof (induction rule: at_node.induct)
  case (at_child pos pre t ts' n p m)
  show ?case
    using at_node.at_child [OF at_child.IH [OF at_child.prems] at_child.hyps(2)] by simp
qed simp

lemma put_child_data [simp]: "tn_data (put_child p m n) = tn_data n" "tn_hashed (put_child p m n) = tn_hashed n"
  by (induction p m n rule: put_child.induct) simp_all

lemma child_at_children:
  assumes "child_at p n = Some m"
  obtains A B where "children (tn_child n) = A @ m # B"
    "\<And>m'. children (tn_child (put_child p m' n)) = A @ m' # B"
  using assms
proof (induction p n rule: child_at.induct)
  case (1 i d h ns)
  then have "i < length ns" "m = ns ! i" by (auto split: if_splits)
  with 1 show ?case
    by (intro 1(1) [of "take i ns" "drop (Suc i) ns"]) (simp_all add: id_take_nth_drop upd_conv_take_nth_drop)
next
  case (2 b i d h ty bs tot)
  then have i: "b < length bs" "i < length (bs ! b)" "m = bs ! b ! i" by (auto split: if_splits)
  have "concat (bs[b := c]) = concat (take b bs) @ c @ concat (drop (Suc b) bs)" for c
    using i(1) by (simp add: upd_conv_take_nth_drop)
  moreover have "(bs ! b)[i := m'] = take i (bs ! b) @ m' # drop (Suc i) (bs ! b)" for m'
    using i(2) by (simp add: upd_conv_take_nth_drop)
  ultimately have c: "concat (bs[b := (bs ! b)[i := m']]) =
      (concat (take b bs) @ take i (bs ! b)) @ m' # drop (Suc i) (bs ! b) @ concat (drop (Suc b) bs)" for m'
    by simp
  moreover have "concat bs = concat (bs[b := (bs ! b)[i := m]])" using i by simp
  ultimately show ?case by (intro 2(1)) (simp_all only: children.simps trie_node.sel put_child.simps)
qed simp_all

lemma child_at_mem: "child_at p n = Some m \<Longrightarrow> m \<in> set (children (tn_child n))"
  by (erule child_at_children) simp

lemma mem_child_at:
  assumes "m \<in> set (children (tn_child n))"
  obtains p where "child_at p n = Some m"
proof -
  obtain d h c where n: "n = TN d h c" by (cases n)
  show ?thesis
  proof (cases c)
    case (TNodes ns)
    with assms n obtain i where "i < length ns" "ns ! i = m" by (auto simp: in_set_conv_nth)
    with that [of "InList i"] n TNodes show ?thesis by simp
  next
    case (THash ty bs tot)
    with assms n obtain b i where "b < length bs" "i < length (bs ! b)" "bs ! b ! i = m"
      by (auto simp: in_set_conv_nth)
    with that [of "InBucket b i"] n THash show ?thesis by simp
  qed (use assms n in simp)
qed

lemma child_at_not_leaf: "child_at p n = Some m \<Longrightarrow> \<not> is_leaf n"
  by (induction p n rule: child_at.induct) (simp_all add: is_leaf_def)

lemma put_child_not_leaf [simp]: "is_leaf (put_child p m n) = is_leaf n"
  by (induction p m n rule: put_child.induct) (simp_all add: is_leaf_def)

lemma put_child_same: "child_at p n = Some m \<Longrightarrow> put_child p m n = n"
  by (induction p n rule: child_at.induct) (auto split: if_splits)

lemma put_at_same: "node_at pos root = Some n \<Longrightarrow> put_at pos n root = root"
  by (induction pos arbitrary: n) (auto simp: put_child_same bind_eq_Some_conv)

lemma put_at_data: "node_at pos root = Some n \<Longrightarrow> tn_data n' = tn_data n \<Longrightarrow> tn_data (put_at pos n' root) = tn_data root"
  by (induction pos arbitrary: n n') (auto simp: bind_eq_Some_conv)

lemma node_at_put_at: "node_at pos root = Some n \<Longrightarrow> node_at pos (put_at pos n' root) = Some n'"
proof (induction pos arbitrary: n n')
  case (Cons p pos)
  then obtain m where m: "node_at pos root = Some m" "child_at p m = Some n" by (auto simp: bind_eq_Some_conv)
  have "child_at p (put_child p n' m) = Some n'"
    using m(2) by (induction p m rule: child_at.induct) (auto split: if_splits)
  with Cons.IH [OF m(1)] m(1) show ?case by simp
qed simp

lemma put_at_put_at:
  "node_at pos root = Some n \<Longrightarrow> put_at pos n2 (put_at pos n1 root) = put_at pos n2 root"
proof (induction pos arbitrary: n n1 n2)
  case (Cons p pos)
  then obtain m where m: "node_at pos root = Some m" "child_at p m = Some n" by (auto simp: bind_eq_Some_conv)
  have "put_child p n2 (put_child p n1 m) = put_child p n2 m"
    using m(2) by (induction p m rule: child_at.induct) (auto split: if_splits)
  with Cons.IH [OF m(1)] m(1) show ?case by (simp add: node_at_put_at)
qed simp

subsection \<open>Changing a node\<close>

lemma entries_put_child:
  assumes "child_at p n = Some m"
  obtains C where "\<And>m'. tn_data m' = tn_data m \<Longrightarrow>
    mset (entries (t # ts) (put_child p m' n)) =
      C + image_mset (add_sym (symbol t (tn_data m))) (mset (entries (parts t (tn_data m) @ ts) m'))"
proof -
  from child_at_children [OF assms] obtain A B where
    ab: "\<And>m'. children (tn_child (put_child p m' n)) = A @ m' # B" by metis
  have "mset (entries (t # ts) (put_child p m' n)) =
      mset (concat (map (child_entries t ts) (A @ B))) +
      image_mset (add_sym (symbol t (tn_data m))) (mset (entries (parts t (tn_data m) @ ts) m'))"
    if "tn_data m' = tn_data m" for m'
    using child_at_not_leaf [OF assms] by (simp add: entries_children ab that child_entries_def [of _ _ m'])
  then show ?thesis by (rule that)
qed

lemma entries_put_at:
  assumes "at_node ts root pos pre ts' n"
  shows "\<exists>C. \<forall>n'. tn_data n' = tn_data n \<longrightarrow>
    mset (entries ts (put_at pos n' root)) = C + image_mset (add_prefix pre) (mset (entries ts' n'))"
  using assms
proof (induction rule: at_node.induct)
  case at_root
  show ?case by (rule exI [of _ "{#}"]) (simp add: add_prefix_def)
next
  case (at_child pos pre t ts' n p m)
  from at_child.IH obtain C where C: "\<And>n'. tn_data n' = tn_data n \<Longrightarrow>
    mset (entries ts (put_at pos n' root)) = C + image_mset (add_prefix pre) (mset (entries (t # ts') n'))" by blast
  from entries_put_child [OF at_child.hyps(2), of t ts'] obtain D where D: "\<And>m'. tn_data m' = tn_data m \<Longrightarrow>
    mset (entries (t # ts') (put_child p m' n)) =
      D + image_mset (add_sym (symbol t (tn_data m))) (mset (entries (parts t (tn_data m) @ ts') m'))" by metis
  have pre: "add_prefix pre \<circ> add_sym x = add_prefix (pre @ [x])" for x
    by (auto simp: add_prefix_def add_sym_def fun_eq_iff)
  show ?case
    using at_node_pos [OF at_child.hyps(1)]
    by (intro exI [of _ "C + image_mset (add_prefix pre) D"])
      (simp add: C D multiset.map_comp pre add.assoc)
qed

lemma level_ok_put_child:
  assumes "child_at p n = Some m" "tn_data m' = tn_data m" "level_ok hs t n"
  shows "level_ok hs t (put_child p m' n)"
proof -
  from child_at_children [OF assms(1)] obtain A B where
    ab: "children (tn_child n) = A @ m # B" "\<And>m'. children (tn_child (put_child p m' n)) = A @ m' # B" by metis
  have same: "(\<forall>x \<in> set (children (tn_child (put_child p m' n))). good_data t (tn_data x)) \<and>
      distinct (map (\<lambda>x. symbol t (tn_data x)) (children (tn_child (put_child p m' n))))"
    using assms(2,3) unfolding level_ok_def ab by simp
  obtain d h c where n: "n = TN d h c" by (cases n)
  show ?thesis
  proof (cases c)
    case (THash ty bs tot)
    with n assms(1) obtain b i where p: "p = InBucket b i" "b < length bs" "i < length (bs ! b)" "m = bs ! b ! i"
      by (cases p) (auto split: if_splits)
    define bs' where "bs' = bs[b := (bs ! b)[i := m']]"
    have c: "tn_child (put_child p m' n) = THash ty bs' tot" by (simp add: n THash p(1) bs'_def)
    have len: "length (concat bs') = length (concat bs)"
      using ab(1) ab(2) [of m', unfolded c] by (simp add: n THash del: length_concat)
    have pl: "placed hs t (length bs) b' (tn_data x)" if "x \<in> set (bs' ! b')" "b' < length bs" for x b'
    proof -
      have "x \<in> set (bs ! b') \<or> b' = b \<and> x = m'"
        using that set_update_subset_insert [of "bs ! b" i m'] by (cases "b' = b") (auto simp: bs'_def p)
      moreover have "m \<in> set (bs ! b)" using p by simp
      ultimately show ?thesis using assms(2,3) that(2) p(2) unfolding level_ok_def by (auto simp: n THash)
    qed
    have "bs' \<noteq> []" "length bs' = length bs" using p by (auto simp: bs'_def)
    with assms(3) pl len have "case THash ty bs' tot of TLeaf l \<Rightarrow> False | TNodes ns \<Rightarrow> \<not> tn_hashed (put_child p m' n)
      | THash ty bs tot \<Rightarrow> tn_hashed (put_child p m' n) \<and> ty = t \<and> bs \<noteq> [] \<and> tot = length (concat bs) \<and>
          (\<forall>b < length bs. \<forall>m \<in> set (bs ! b). placed hs t (length bs) b (tn_data m))"
      unfolding level_ok_def by (simp add: n THash del: length_concat)
    with same c show ?thesis unfolding level_ok_def by (simp del: length_concat)
  next
    case (TNodes ns)
    with n assms(1) obtain i where "p = InList i" by (cases p) auto
    with same assms(3) show ?thesis unfolding level_ok_def by (simp add: n TNodes)
  qed (use n assms in simp)
qed

lemma wf_put_child:
  assumes "wf_node hs (t # ts) n" "child_at p n = Some m" "tn_data m' = tn_data m"
    "wf_node hs (parts t (tn_data m) @ ts) m'"
  shows "wf_node hs (t # ts) (put_child p m' n)"
proof -
  from child_at_children [OF assms(2)] obtain A B where
    "children (tn_child n) = A @ m # B" "\<And>m'. children (tn_child (put_child p m' n)) = A @ m' # B" by metis
  with assms level_ok_put_child [OF assms(2,3)] show ?thesis by (simp add: wf_node_Cons)
qed

lemma wf_at_node: "at_node ts root pos pre ts' n \<Longrightarrow> wf_node hs ts root \<Longrightarrow> wf_node hs ts' n"
  by (induction rule: at_node.induct) (auto simp: wf_node_Cons dest: child_at_mem)

lemma wf_put_at:
  "at_node ts root pos pre ts' n \<Longrightarrow> wf_node hs ts root \<Longrightarrow> tn_data n' = tn_data n \<Longrightarrow> wf_node hs ts' n' \<Longrightarrow>
   wf_node hs ts (put_at pos n' root)"
proof (induction arbitrary: n' rule: at_node.induct)
  case (at_child pos pre t ts' n p m)
  have "wf_node hs (t # ts') (put_child p n' n)"
    by (rule wf_put_child [OF wf_at_node [OF at_child.hyps(1) at_child.prems(1)] at_child.hyps(2) at_child.prems(2,3)])
  with at_child.IH [OF at_child.prems(1)] at_node_pos [OF at_child.hyps(1)] show ?case by simp
qed simp

text \<open>A position of an empty root is the root itself.\<close>

lemma at_node_empty:
  "at_node ts root pos pre ts' n \<Longrightarrow> tn_child root = TNodes [] \<Longrightarrow> pos = [] \<and> n = root \<and> pre = [] \<and> ts' = ts"
proof (induction rule: at_node.induct)
  case (at_child pos pre t ts' n p m)
  then have "n = root" "tn_child root = TNodes []" by auto
  with at_child.hyps(2) show ?case using child_at_mem [of p n m] by simp
qed simp

subsection \<open>Keys are unique\<close>

lemma map_add_sym_fst: "map fst (child_entries t ts m) = map ((#) (symbol t (tn_data m))) (map fst (entries (parts t (tn_data m) @ ts) m))"
  by (simp add: child_entries_def add_sym_def o_def)

lemma distinct_keys: "wf_node hs ts n \<Longrightarrow> distinct (map fst (entries ts n))"
proof (induction "size n" arbitrary: n ts rule: less_induct)
  case less
  show ?case
  proof (cases ts)
    case Nil
    with less.prems show ?thesis by (cases n; cases "tn_child n") (auto simp: wf_node_Nil is_leaf_def)
  next
    case (Cons t ts')
    note wf = less.prems [unfolded Cons wf_node_Cons]
    have "distinct (map fst (concat (map (child_entries t ts') ms)))"
      if "set ms \<subseteq> set (children (tn_child n))" "distinct (map (\<lambda>m. symbol t (tn_data m)) ms)" for ms
      using that
    proof (induction ms)
      case (Cons m ms)
      have "size m < size n"
        using Cons.prems(1) mem_child_at child_at_size by (metis list.set_intros(1) subsetD)
      then have "distinct (map fst (entries (parts t (tn_data m) @ ts') m))"
        using less.hyps wf Cons.prems(1) by simp
      then have "distinct (map fst (child_entries t ts' m))"
        unfolding map_add_sym_fst by (simp add: distinct_map inj_on_def)
      moreover have "fst ` set (child_entries t ts' m) \<inter> fst ` set (concat (map (child_entries t ts') ms)) = {}"
        using Cons.prems(2) by (auto simp: child_entries_def add_sym_def)
      ultimately show ?case using Cons by auto
    qed simp
    then show ?thesis
      using wf level_ok_not_leaf [of hs t n] by (simp add: Cons entries_children level_ok_def)
  qed
qed

end
