(* ===== verification/Trie_Change.thy ===== *)
theory Trie_Change
  imports Trie_Keys
begin

text \<open>
  The operations of \<open>Trie_Node\<close> on well-formed trees: matching finds the child with the symbol, hashing and
  growing a level keeps its children, inserting adds exactly one key, and deleting a position removes
  exactly the keys below it.
\<close>

subsection \<open>Matching\<close>

lemma match_nodes_ok:
  assumes "\<forall>m \<in> set ns. good_data t (tn_data m)" "key_ok t f"
  shows "(\<exists>j < length ns. match_nodes t f i ns = Some (Some (i + j), Suc (i + j)) \<and> symbol t (tn_data (ns ! j)) = symbol t f)
    \<or> match_nodes t f i ns = Some (None, i + length ns) \<and> symbol t f \<notin> (\<lambda>m. symbol t (tn_data m)) ` set ns"
  using assms
proof (induction ns arbitrary: i)
  case (Cons n ns)
  show ?case
  proof (cases "symbol t (tn_data n) = symbol t f")
    case True
    then show ?thesis using Cons.prems by (intro disjI1 exI [of _ 0]) (simp add: same_data_sym)
  next
    case False
    then have "match_nodes t f i (n # ns) = match_nodes t f (Suc i) ns"
      using Cons.prems by (simp add: same_data_sym)
    moreover have "(\<exists>j < length ns. match_nodes t f (Suc i) ns = Some (Some (Suc i + j), Suc (Suc i + j)) \<and>
        symbol t (tn_data (ns ! j)) = symbol t f)
      \<or> match_nodes t f (Suc i) ns = Some (None, Suc i + length ns) \<and> symbol t f \<notin> (\<lambda>m. symbol t (tn_data m)) ` set ns"
      using Cons.IH [of "Suc i"] Cons.prems by simp
    ultimately show ?thesis using False by auto
  qed
qed simp

definition symbols :: "vtype \<Rightarrow> trie_node \<Rightarrow> int set" where
  "symbols t n = (\<lambda>m. symbol t (tn_data m)) ` set (children (tn_child n))"

definition live :: "trie_node \<Rightarrow> bool" where
  "live n \<longleftrightarrow> children (tn_child n) \<noteq> [] \<or> tn_child n = TNodes []"

lemma level_ok_good: "level_ok hs t n \<Longrightarrow> m \<in> set (children (tn_child n)) \<Longrightarrow> good_data t (tn_data m)"
  by (simp add: level_ok_def)

lemma level_ok_placed:
  "level_ok hs t n \<Longrightarrow> tn_child n = THash ty bs tot \<Longrightarrow> b < length bs \<Longrightarrow> m \<in> set (bs ! b) \<Longrightarrow>
   placed hs t (length bs) b (tn_data m)"
  by (simp add: level_ok_def)

lemma level_ok_table:
  "level_ok hs t n \<Longrightarrow> tn_child n = THash ty bs tot \<Longrightarrow>
   tn_hashed n \<and> ty = t \<and> bs \<noteq> [] \<and> tot = length (concat bs)"
  by (simp add: level_ok_def)

lemma level_hash_data:
  assumes "level_ok hs t n" "tn_child n = THash ty bs tot" "m \<in> set (children (tn_child n))"
  shows "\<exists>key. hash_data hs t (tn_data m) = Some key"
proof -
  from assms(2,3) obtain b where "b < length bs" "m \<in> set (bs ! b)"
    by simp (metis in_set_conv_nth)
  from level_ok_placed [OF assms(1,2) this] show ?thesis by (auto simp: placed_def)
qed

lemma hash_data_key: "key_ok t f \<Longrightarrow> (\<And>ts. t \<noteq> StructT ts) \<Longrightarrow> \<exists>key. hash_data hs t f = Some key"
  by (cases t rule: base_type_cases) auto

lemma trie_match_ok:
  assumes "level_ok hs t n" "live n" "hashes_ok hs" "key_ok t f" "push_parts H t f stk = Some stk'"
  shows "(\<exists>p m c. trie_match hs H n t f stk = Some (Some p, stk', c) \<and> child_at p n = Some m \<and> symbol t (tn_data m) = symbol t f)
    \<or> (\<exists>c. trie_match hs H n t f stk = Some (None, stk, c) \<and> symbol t f \<notin> symbols t n \<and> c \<le> length (children (tn_child n)))"
proof -
  obtain d h c where n: "n = TN d h c" by (cases n)
  show ?thesis
  proof (cases c)
    case (TNodes ns)
    with assms(1) n have "\<not> h" "\<forall>m \<in> set ns. good_data t (tn_data m)" by (auto simp: level_ok_def)
    with match_nodes_ok [OF this(2) assms(4), of 0] assms(5) show ?thesis
      by (auto simp: trie_match_def n TNodes symbols_def)
  next
    case (THash ty bs tot)
    then have c: "tn_child n = THash ty bs tot" by (simp add: n)
    from level_ok_table [OF assms(1) c] have l: "h" "bs \<noteq> []" by (simp_all add: n)
    from assms(2) c obtain m0 where "m0 \<in> set (children (tn_child n))"
      by (metis last_in_set live_def trie_child.distinct(5))
    from level_hash_data [OF assms(1) c this] have "\<And>ts. t \<noteq> StructT ts" by auto
    from hash_data_key [OF assms(4) this] obtain key where key: "hash_data hs t f = Some key" by blast
    define b where "b = key mod length bs"
    have b: "b < length bs" using l(2) by (simp add: b_def)
    have good: "good_data t (tn_data m)" if "m \<in> set (bs ! b')" "b' < length bs" for m b'
      using that c by (intro level_ok_good [OF assms(1)]) (auto dest: nth_mem)
    have other: "symbol t (tn_data m) \<noteq> symbol t f" if "m \<in> set (bs ! b')" "b' < length bs" "b' \<noteq> b" for m b'
    proof
      assume "symbol t (tn_data m) = symbol t f"
      moreover have "key_ok t (tn_data m)" by (rule good_key_ok [OF good [OF that(1,2)]])
      ultimately have "hash_data hs t (tn_data m) = Some key"
        using hash_data_sym [OF assms(3) _ assms(4)] key by metis
      with level_ok_placed [OF assms(1) c that(2,1)] that(3) show False by (auto simp: placed_def b_def)
    qed
    have le: "length (bs ! b) \<le> length (concat bs)"
      using b by (auto simp: length_concat intro!: member_le_sum_list)
    have "\<forall>m \<in> set (bs ! b). good_data t (tn_data m)" using good b by blast
    from match_nodes_ok [OF this assms(4), of 0] show ?thesis
    proof (elim disjE exE conjE)
      fix j assume "j < length (bs ! b)" "match_nodes t f 0 (bs ! b) = Some (Some (0 + j), Suc (0 + j))"
        "symbol t (tn_data (bs ! b ! j)) = symbol t f"
      with b key assms(5) l(1) show ?thesis
        by (intro disjI1 exI [of _ "InBucket b j"] exI [of _ "bs ! b ! j"])
          (simp add: trie_match_def n THash b_def [symmetric])
    next
      assume no: "match_nodes t f 0 (bs ! b) = Some (None, 0 + length (bs ! b))"
        "symbol t f \<notin> (\<lambda>m. symbol t (tn_data m)) ` set (bs ! b)"
      have "symbol t f \<notin> symbols t n"
      proof
        assume "symbol t f \<in> symbols t n"
        then obtain b' m where "b' < length bs" "m \<in> set (bs ! b')" "symbol t (tn_data m) = symbol t f"
          by (auto simp: symbols_def n THash in_set_conv_nth) metis
        with other no(2) show False by (metis image_eqI)
      qed
      with no(1) key l(1) le show ?thesis
        by (intro disjI2) (simp add: trie_match_def n THash b_def [symmetric])
    qed
  qed (use n assms(1) in \<open>simp add: level_ok_def\<close>)
qed

subsection \<open>Growing a level\<close>

lemma mset_concat_update:
  "b < length bs \<Longrightarrow> mset (concat (bs[b := m # bs ! b])) = add_mset m (mset (concat bs))"
  using id_take_nth_drop [of b bs] by (simp add: upd_conv_take_nth_drop) (metis concat.simps(2) concat_append mset_append add_mset_add_single union_mset_add_mset_right)

lemma hash_insert_ok:
  assumes "hash_data hs t (tn_data m) = Some key" "bs \<noteq> []"
    "\<forall>b < length bs. \<forall>x \<in> set (bs ! b). placed hs t (length bs) b (tn_data x)"
  shows "length (hash_insert key m bs) = length bs" "mset (concat (hash_insert key m bs)) = add_mset m (mset (concat bs))"
    "\<forall>b < length bs. \<forall>x \<in> set (hash_insert key m bs ! b). placed hs t (length bs) b (tn_data x)"
  using assms by (auto simp: hash_insert_def Let_def mset_concat_update nth_list_update placed_def)

lemma hash_insert_all_ok:
  assumes "\<forall>m \<in> set ms. \<exists>key. hash_data hs t (tn_data m) = Some key" "bs \<noteq> []"
    "\<forall>b < length bs. \<forall>x \<in> set (bs ! b). placed hs t (length bs) b (tn_data x)"
  shows "\<exists>bs'. hash_insert_all hs t ms bs = Some bs' \<and> length bs' = length bs \<and>
    mset (concat bs') = mset ms + mset (concat bs) \<and>
    (\<forall>b < length bs'. \<forall>x \<in> set (bs' ! b). placed hs t (length bs') b (tn_data x))"
  using assms
proof (induction ms arbitrary: bs)
  case (Cons m ms)
  then obtain key where key: "hash_data hs t (tn_data m) = Some key" by auto
  note ins = hash_insert_ok [OF key Cons.prems(2,3)]
  have "\<exists>bs'. hash_insert_all hs t ms (hash_insert key m bs) = Some bs' \<and> length bs' = length (hash_insert key m bs) \<and>
    mset (concat bs') = mset ms + mset (concat (hash_insert key m bs)) \<and>
    (\<forall>b < length bs'. \<forall>x \<in> set (bs' ! b). placed hs t (length bs') b (tn_data x))"
    using Cons.prems ins by (intro Cons.IH) auto
  then show ?case by (auto simp: key ins(1,2))
qed auto

lemma level_ok_rehash:
  assumes "level_ok hs t n" "mset (concat bs) = mset (children (tn_child n))" "bs \<noteq> []"
    "\<forall>b < length bs. \<forall>x \<in> set (bs ! b). placed hs t (length bs) b (tn_data x)"
  shows "level_ok hs t (TN d True (THash t bs (length (children (tn_child n)))))"
proof -
  from assms(2) have "set (concat bs) = set (children (tn_child n))" "length (concat bs) = length (children (tn_child n))"
    by (metis set_mset_mset, metis size_mset)
  moreover have "mset (map (\<lambda>m. symbol t (tn_data m)) (concat bs)) = mset (map (\<lambda>m. symbol t (tn_data m)) (children (tn_child n)))"
    by (simp only: mset_map assms(2))
  then have "distinct (map (\<lambda>m. symbol t (tn_data m)) (concat bs))"
    using assms(1) unfolding level_ok_def by (metis mset_eq_imp_distinct_iff)
  ultimately show ?thesis
    using assms(1,3,4) unfolding level_ok_def by (simp del: set_concat length_concat concat_eq_Nil_conv)
qed

lemma make_room_ok:
  assumes "level_ok hs t n" "live n" "key_ok t f" "symbol t f \<notin> symbols t n" "c \<le> length (children (tn_child n))"
  shows "\<exists>n'. make_room hs t (c + 1) n = Some n' \<and> level_ok hs t n' \<and> live n' \<and> tn_data n' = tn_data n \<and>
    mset (children (tn_child n')) = mset (children (tn_child n))"
proof -
  have hashable: "\<exists>key. hash_data hs t (tn_data m) = Some key" if "m \<in> set (children (tn_child n))" for m
  proof (rule hash_data_key)
    show "key_ok t (tn_data m)" by (rule good_key_ok [OF level_ok_good [OF assms(1) that]])
    show "t \<noteq> StructT ts" for ts
      using that assms(4) by (auto simp: symbols_def)
  qed
  have thread: "t \<noteq> BaseT FIELD_THREAD" using assms(3) by auto
  have rehash: "\<exists>bs. hash_insert_all hs t (children (tn_child n)) (replicate w []) = Some bs \<and> bs \<noteq> [] \<and>
      mset (concat bs) = mset (children (tn_child n)) \<and>
      (\<forall>b < length bs. \<forall>x \<in> set (bs ! b). placed hs t (length bs) b (tn_data x))" if "0 < w" for w
  proof -
    from hash_insert_all_ok [of "children (tn_child n)" hs t "replicate w []"] hashable that obtain bs where
      bs: "hash_insert_all hs t (children (tn_child n)) (replicate w []) = Some bs" "length bs = w"
        "mset (concat bs) = mset (children (tn_child n)) + mset (concat (replicate w []))"
        "\<forall>b < length bs. \<forall>x \<in> set (bs ! b). placed hs t (length bs) b (tn_data x)" by auto
    moreover have "bs \<noteq> []" using bs(2) that by auto
    ultimately show ?thesis by auto
  qed
  obtain d h ch where n: "n = TN d h ch" by (cases n)
  show ?thesis
  proof (cases ch)
    case (TNodes ns)
    with assms(1) n have h: "\<not> h" by (simp add: level_ok_def)
    show ?thesis
    proof (cases "c + 1 > TRIE_HASH_LIST_THRESHOLD")
      case True
      then have "ns \<noteq> []" using assms(5) by (auto simp: n TNodes TRIE_HASH_LIST_THRESHOLD_def)
      from rehash [of TRIE_HASH_BASE_BUCKETS] obtain bs where
        "hash_insert_all hs t ns (replicate TRIE_HASH_BASE_BUCKETS []) = Some bs" "bs \<noteq> []" "mset (concat bs) = mset ns"
        "\<forall>b < length bs. \<forall>x \<in> set (bs ! b). placed hs t (length bs) b (tn_data x)"
        by (auto simp: TRIE_HASH_BASE_BUCKETS_def n TNodes)
      moreover from this have "level_ok hs t (TN d True (THash t bs (length ns)))"
        using level_ok_rehash [OF assms(1), of bs d] by (simp add: n TNodes)
      moreover from calculation(3) have "concat bs \<noteq> []" using \<open>ns \<noteq> []\<close> by (metis mset_zero_iff)
      ultimately show ?thesis using True h
        by (simp add: make_room_def n TNodes convert_hash_def live_def del: concat_eq_Nil_conv)
    next
      case False
      with h assms(1,2) show ?thesis by (simp add: make_room_def n TNodes)
    qed
  next
    case (THash ty bs0 tot)
    then have ch: "tn_child n = THash ty bs0 tot" by (simp add: n)
    from level_ok_table [OF assms(1) ch] have tb: "h" "ty = t" "bs0 \<noteq> []" "tot = length (concat bs0)" by (simp_all add: n)
    show ?thesis
    proof (cases "c + 1 > TRIE_HASH_LIST_THRESHOLD div 2")
      case True
      from rehash [of "length bs0 * 2"] tb(3) obtain bs where
        bs: "hash_insert_all hs t (concat bs0) (replicate (length bs0 * 2) []) = Some bs" "bs \<noteq> []" "mset (concat bs) = mset (concat bs0)"
        "\<forall>b < length bs. \<forall>x \<in> set (bs ! b). placed hs t (length bs) b (tn_data x)"
        by (auto simp: n THash)
      then have "level_ok hs t (TN d True (THash t bs (length (concat bs0))))"
        using level_ok_rehash [OF assms(1), of bs d] by (simp add: n THash del: length_concat)
      moreover have "concat bs \<noteq> []"
        using bs(3) assms(2) by (metis ch children.simps(3) live_def mset_zero_iff trie_child.distinct(5))
      ultimately show ?thesis using True tb bs thread
        by (simp add: make_room_def n THash trie_hash_expand_def set_child_def live_def del: concat_eq_Nil_conv length_concat)
    next
      case False
      with tb assms(1,2) show ?thesis by (simp add: make_room_def n THash)
    qed
  qed (use assms(1) n in \<open>simp add: level_ok_def\<close>)
qed

subsection \<open>Inserting\<close>

lemma trie_insert_ok:
  assumes "level_ok hs t n" "live n" "key_ok t f" "symbol t f \<notin> symbols t n" "push_parts H t f stk = Some stk'"
  obtains n' p d where "trie_insert hs H n t f stk = Some (n', p, stk')" "child_at p n' = Some (new_trie_node d)"
    "tn_data n' = tn_data n" "symbol t d = symbol t f" "level_ok hs t n'"
    "\<And>m. mset (children (tn_child (put_child p m n'))) = add_mset m (mset (children (tn_child n)))"
proof -
  obtain d where d: "insert_data t f = Some d" "good_data t d" "symbol t d = symbol t f"
    by (rule insert_data_ok [OF assms(3)])
  obtain d0 h c where n: "n = TN d0 h c" by (cases n)
  show ?thesis
  proof (cases c)
    case (TNodes ns)
    with assms(1) n have h: "\<not> h" by (simp add: level_ok_def)
    show ?thesis
    proof (rule that [of "TN d0 h (TNodes (new_trie_node d # ns))" "InList 0" d])
      show "level_ok hs t (TN d0 h (TNodes (new_trie_node d # ns)))"
        using assms(1,4) d(2,3) h by (simp add: level_ok_def n TNodes symbols_def new_trie_node_def)
    qed (use d assms(5) h in \<open>simp_all add: n TNodes trie_insert_def set_child_def\<close>)
  next
    case (THash ty bs tot)
    then have c: "tn_child n = THash ty bs tot" by (simp add: n)
    from level_ok_table [OF assms(1) c] have tb: "h" "ty = t" "bs \<noteq> []" "tot = length (concat bs)" by (simp_all add: n)
    from assms(2) c obtain m0 where "m0 \<in> set (children (tn_child n))"
      by (metis last_in_set live_def trie_child.distinct(5))
    from level_hash_data [OF assms(1) c this] have "\<And>ts. t \<noteq> StructT ts" by auto
    from hash_data_key [OF good_key_ok [OF d(2)] this] obtain key where key: "hash_data hs t d = Some key" by blast
    have pl: "\<forall>b < length bs. \<forall>x \<in> set (bs ! b). placed hs t (length bs) b (tn_data x)"
      using level_ok_placed [OF assms(1) c] by blast
    have key': "hash_data hs t (tn_data (new_trie_node d)) = Some key" using key by (simp add: new_trie_node_def)
    note ins = hash_insert_ok [OF key' tb(3) pl]
    define b where "b = key mod length bs"
    have b: "b < length bs" using tb(3) by (simp add: b_def)
    show ?thesis
    proof (rule that [of "TN d0 h (THash ty (hash_insert key (new_trie_node d) bs) (tot + 1))" "InBucket b 0" d])
      show "level_ok hs t (TN d0 h (THash ty (hash_insert key (new_trie_node d) bs) (tot + 1)))"
      proof -
        have "hash_insert key (new_trie_node d) bs \<noteq> []" using ins(1) tb(3) by (metis length_0_conv)
        moreover have "set (concat (hash_insert key (new_trie_node d) bs)) = insert (new_trie_node d) (set (concat bs))"
          "length (concat (hash_insert key (new_trie_node d) bs)) = Suc (length (concat bs))"
          using ins(2) by (metis set_mset_mset set_mset_add_mset_insert, metis size_mset size_add_mset)
        moreover have "mset (map (\<lambda>m. symbol t (tn_data m)) (concat (hash_insert key (new_trie_node d) bs))) =
            mset (map (\<lambda>m. symbol t (tn_data m)) (new_trie_node d # concat bs))"
          by (simp only: mset_map ins(2) mset.simps)
        then have "distinct (map (\<lambda>m. symbol t (tn_data m)) (concat (hash_insert key (new_trie_node d) bs))) \<longleftrightarrow>
            distinct (map (\<lambda>m. symbol t (tn_data m)) (new_trie_node d # concat bs))"
          by (rule mset_eq_imp_distinct_iff)
        ultimately show ?thesis
          using assms(1,4) d(2,3) ins(1,3) tb unfolding level_ok_def
          by (simp add: n THash symbols_def new_trie_node_def del: set_concat length_concat concat_eq_Nil_conv)
      qed
      fix m
      have "(hash_insert key (new_trie_node d) bs)[b := (hash_insert key (new_trie_node d) bs ! b)[0 := m]] = bs[b := m # bs ! b]"
        using b by (simp add: hash_insert_def Let_def b_def)
      then show "mset (children (tn_child (put_child (InBucket b 0) m
          (TN d0 h (THash ty (hash_insert key (new_trie_node d) bs) (tot + 1)))))) = add_mset m (mset (children (tn_child n)))"
        using mset_concat_update [OF b, of m] by (simp add: n THash)
    qed (use d assms(5) tb key b in \<open>simp_all add: n THash trie_insert_def set_child_def hash_insert_def Let_def b_def\<close>)
  qed (use assms(1) n in \<open>simp add: level_ok_def\<close>)
qed

text \<open>The new nodes form a single branch.\<close>

lemma insert_rest_ok:
  assumes "tuple_key fuel H stk = Some k" "node_at pos root = Some (new_trie_node d)"
  shows "\<exists>root1 pos1 m n'. insert_rest fuel hs H root pos stk = Some (root1, pos1) \<and> node_at pos1 root1 = Some m \<and>
    put_at pos1 (set_child (TLeaf l) m) root1 = put_at pos n' root \<and> tn_data n' = d \<and>
    wf_node hs (map fst stk) n' \<and> entries (map fst stk) n' = [(k, l)]"
  using assms
proof (induction fuel arbitrary: stk k pos root d)
  case 0
  then show ?case
    by (cases stk) (auto simp: set_child_def new_trie_node_def intro!: exI [of _ "TN d False (TLeaf l)"])
next
  case (Suc fuel)
  show ?case
  proof (cases stk)
    case Nil
    with Suc.prems show ?thesis
      by (auto simp: set_child_def new_trie_node_def intro!: exI [of _ "TN d False (TLeaf l)"])
  next
    case (Cons x stk0)
    obtain t f where x: "x = (t, f)" by fastforce
    from Suc.prems(1) obtain stk1 k1 where
      k: "key_ok t f" "push_parts H t f stk0 = Some stk1" "tuple_key fuel H stk1 = Some k1" "k = symbol t f # k1"
      by (auto simp: Cons x bind_eq_Some_conv split: if_splits)
    obtain d1 where d1: "insert_data t f = Some d1" "good_data t d1" "symbol t d1 = symbol t f"
      by (rule insert_data_ok [OF k(1)])
    define parent where "parent = TN d False (TNodes [new_trie_node d1])"
    have ins: "trie_insert hs H (new_trie_node d) t f stk0 = Some (parent, InList 0, stk1)"
      by (simp add: trie_insert_def d1(1) k(2) new_trie_node_def set_child_def parent_def)
    have at1: "node_at (InList 0 # pos) (put_at pos parent root) = Some (new_trie_node d1)"
      by (simp add: node_at_put_at [OF Suc.prems(2)] parent_def)
    from Suc.IH [OF k(3) at1] obtain root1 pos1 m n1 where
      r: "insert_rest fuel hs H (put_at pos parent root) (InList 0 # pos) stk1 = Some (root1, pos1)"
        "node_at pos1 root1 = Some m"
        "put_at pos1 (set_child (TLeaf l) m) root1 = put_at (InList 0 # pos) n1 (put_at pos parent root)"
        "tn_data n1 = d1" "wf_node hs (map fst stk1) n1" "entries (map fst stk1) n1 = [(k1, l)]" by blast
    have eq: "put_at (InList 0 # pos) n1 (put_at pos parent root) = put_at pos (TN d False (TNodes [n1])) root"
      by (simp add: node_at_put_at [OF Suc.prems(2)] put_at_put_at [OF Suc.prems(2)] parent_def)
    have ty: "map fst stk1 = parts t d1 @ map fst stk0"
      using push_parts_types [OF k(2)] parts_sym [OF d1(3)] by simp
    have "wf_node hs (t # map fst stk0) (TN d False (TNodes [n1]))"
      using r(4,5) d1(2) by (simp add: ty level_ok_def)
    moreover have "entries (t # map fst stk0) (TN d False (TNodes [n1])) = [(k, l)]"
      using r(4,6) d1(3) k(4) by (simp add: ty add_sym_def)
    ultimately show ?thesis
      using r(1,2,3) eq ins Suc.prems(2) by (auto simp: Cons x)
  qed
qed

text \<open>Inserting a branch below a node where the symbol is missing adds one key.\<close>

lemma entries_symbols:
  assumes "level_ok hs t n" "(s # k, l) \<in> set (entries (t # ts) n)"
  obtains m where "m \<in> set (children (tn_child n))" "symbol t (tn_data m) = s" "(k, l) \<in> set (entries (parts t (tn_data m) @ ts) m)"
  using assms level_ok_not_leaf [OF assms(1)]
  by (auto simp: entries_children child_entries_def add_sym_def)

lemma live_empty: "tn_child n = TNodes [] \<Longrightarrow> \<not> tn_hashed n \<Longrightarrow> level_ok hs t n \<and> live n"
  by (simp add: level_ok_def live_def)

lemma wf_live: "wf_node hs (t # ts) n \<Longrightarrow> level_ok hs t n \<and> live n"
  by (simp add: wf_node_Cons live_def)

lemma wf_root_at:
  assumes "wf_root hs ts root" "at_node ts root pos pre (t # ts') n"
  shows "level_ok hs t n" "live n" "\<forall>m \<in> set (children (tn_child n)). wf_node hs (parts t (tn_data m) @ ts') m"
proof -
  have "level_ok hs t n \<and> live n \<and> (\<forall>m \<in> set (children (tn_child n)). wf_node hs (parts t (tn_data m) @ ts') m)"
    using assms(1) unfolding wf_root_def
  proof
    assume "wf_node hs ts root"
    from wf_at_node [OF assms(2) this] show ?thesis using wf_live wf_node_Cons by blast
  next
    assume e: "tn_child root = TNodes [] \<and> \<not> tn_hashed root"
    with at_node_empty [OF assms(2)] have "n = root" by simp
    with e live_empty [of n hs t] show ?thesis by simp
  qed
  then show "level_ok hs t n" "live n" "\<forall>m \<in> set (children (tn_child n)). wf_node hs (parts t (tn_data m) @ ts') m" by auto
qed

lemma wf_root_put:
  assumes "wf_root hs ts root" "at_node ts root pos pre ts' n" "tn_data n' = tn_data n" "wf_node hs ts' n'"
  shows "wf_node hs ts (put_at pos n' root)"
  using assms(1) unfolding wf_root_def
proof
  assume "wf_node hs ts root"
  from wf_put_at [OF assms(2) this assms(3,4)] show ?thesis .
next
  assume "tn_child root = TNodes [] \<and> \<not> tn_hashed root"
  with at_node_empty [OF assms(2)] assms(4) show ?thesis by simp
qed

lemma insert_branch_ok:
  assumes "wf_root hs ts root" "hashes_ok hs" "at_node ts root pos pre (t # map fst stk) n"
    "key_ok t f" "push_parts H t f stk = Some stk'" "tuple_key fuel H stk' = Some k"
    "symbol t f \<notin> symbols t n" "c \<le> length (children (tn_child n))"
  shows "\<exists>root' pos' m. insert_branch fuel hs H l root pos n t f stk c = Some (root', pos') \<and> wf_node hs ts root' \<and>
    node_at pos' root' = Some m \<and> tn_child m = TLeaf l \<and>
    mset (entries ts root') = add_mset (pre @ symbol t f # k, l) (mset (entries ts root))"
proof -
  note n = wf_root_at [OF assms(1,3)]
  from make_room_ok [OF n(1,2) assms(4,7,8)] obtain n1 where
    n1: "make_room hs t (c + 1) n = Some n1" "level_ok hs t n1" "live n1" "tn_data n1 = tn_data n"
      "mset (children (tn_child n1)) = mset (children (tn_child n))" by blast
  have "symbol t f \<notin> symbols t n1" using assms(7) mset_eq_setD [OF n1(5)] by (simp add: symbols_def)
  from trie_insert_ok [OF n1(2,3) assms(4) this assms(5)] obtain n2 p d where
    n2: "trie_insert hs H n1 t f stk = Some (n2, p, stk')" "child_at p n2 = Some (new_trie_node d)"
      "tn_data n2 = tn_data n1" "symbol t d = symbol t f" "level_ok hs t n2"
      "\<And>m. mset (children (tn_child (put_child p m n2))) = add_mset m (mset (children (tn_child n1)))" by blast
  note pos = at_node_pos [OF assms(3)]
  have at: "node_at (p # pos) (put_at pos n2 root) = Some (new_trie_node d)"
    by (simp add: node_at_put_at [OF pos] n2(2))
  from insert_rest_ok [OF assms(6) at, of hs l] obtain root1 pos1 m n' where
    r: "insert_rest fuel hs H (put_at pos n2 root) (p # pos) stk' = Some (root1, pos1)" "node_at pos1 root1 = Some m"
      "put_at pos1 (set_child (TLeaf l) m) root1 = put_at (p # pos) n' (put_at pos n2 root)"
      "tn_data n' = d" "wf_node hs (map fst stk') n'" "entries (map fst stk') n' = [(k, l)]" by blast
  define n3 where "n3 = put_child p n' n2"
  have root': "put_at (p # pos) n' (put_at pos n2 root) = put_at pos n3 root"
    by (simp add: node_at_put_at [OF pos] put_at_put_at [OF pos] n3_def)
  have ty: "map fst stk' = parts t d @ map fst stk"
    using push_parts_types [OF assms(5)] parts_sym [OF n2(4)] by simp
  have ch: "mset (children (tn_child n3)) = add_mset n' (mset (children (tn_child n)))"
    by (simp add: n3_def n2(6) n1(5))
  have data: "tn_data n' = tn_data (new_trie_node d)" by (simp add: r(4) new_trie_node_def)
  have lvl: "level_ok hs t n3" unfolding n3_def by (rule level_ok_put_child [OF n2(2) data n2(5)])
  have "wf_node hs (t # map fst stk) n3"
    unfolding wf_node_Cons using lvl n(3) r(4,5) ch ty mset_eq_setD [OF ch [folded mset.simps(2)]] by auto
  moreover have "mset (entries (t # map fst stk) n3) = add_mset (symbol t f # k, l) (mset (entries (t # map fst stk) n))"
  proof -
    have "mset (entries (t # map fst stk) x) = (\<Sum>y \<in># mset (children (tn_child x)). mset (child_entries t (map fst stk) y))"
      if "level_ok hs t x" for x
      using level_ok_not_leaf [OF that] by (simp add: entries_children mset_concat o_def flip: sum_mset_sum_list)
    with lvl n(1) ch show ?thesis
      by (simp add: child_entries_def r(4,6) ty [symmetric] add_sym_def n2(4))
  qed
  moreover have "tn_data n3 = tn_data n" by (simp add: n3_def n2(3) n1(4))
  moreover from entries_put_at [OF assms(3)] obtain C where
    C: "\<And>x. tn_data x = tn_data n \<Longrightarrow> mset (entries ts (put_at pos x root)) =
      C + image_mset (add_prefix pre) (mset (entries (t # map fst stk) x))" by blast
  moreover have "mset (entries ts root) = C + image_mset (add_prefix pre) (mset (entries (t # map fst stk) n))"
    using C [of n] by (simp add: put_at_same [OF pos])
  ultimately show ?thesis
    using wf_root_put [OF assms(1,3)] n1(1) n2(1) r(1,2,3) root' node_at_put_at [OF r(2), of "set_child (TLeaf l) m"]
    by (auto simp: insert_branch_def add_prefix_def set_child_def)
qed

subsection \<open>Looking up\<close>

lemma wf_root_child:
  assumes "wf_root hs ts root" "at_node ts root pos pre (t # ts') n" "child_at p n = Some m"
  shows "wf_node hs (parts t (tn_data m) @ ts') m"
  using wf_root_at(3) [OF assms(1,2)] child_at_mem [OF assms(3)] by blast

definition found_at where
  "found_at ts root k r \<longleftrightarrow> (\<exists>pos l m. r = Some (Reached pos l) \<and> at_node ts root pos k [] m \<and> tn_child m = TLeaf l)"

definition missing_at where
  "missing_at H ts root fuel k r \<longleftrightarrow>
     (\<exists>pos m t f stk c pre stk' k'. r = Some (Missing pos m t f stk c) \<and> at_node ts root pos pre (t # map fst stk) m \<and>
        k = pre @ symbol t f # k' \<and> key_ok t f \<and> push_parts H t f stk = Some stk' \<and> tuple_key fuel H stk' = Some k' \<and>
        symbol t f \<notin> symbols t m \<and> c \<le> length (children (tn_child m)))"

lemma descend_ok:
  assumes "wf_root hs ts root" "hashes_ok hs" "at_node ts root pos pre (map fst stk) n"
    "tuple_key fuel0 H stk = Some k" "stk \<noteq> [] \<or> is_leaf n" "fuel0 \<le> fuel"
  shows "found_at ts root (pre @ k) (descend hs H n pos stk) \<or> missing_at H ts root fuel (pre @ k) (descend hs H n pos stk)"
  using assms
proof (induction "size n" arbitrary: n pos pre stk fuel0 k rule: less_induct)
  case less
  show ?case
  proof (cases stk)
    case Nil
    with less.prems have l: "is_leaf n" "k = []" by auto
    then obtain l where "tn_child n = TLeaf l" by (auto simp: is_leaf_def split: trie_child.splits)
    with less.prems(3) Nil l(2) show ?thesis
      by (intro disjI1) (auto simp: found_at_def descend.simps [of hs H n])
  next
    case (Cons x stk0)
    obtain t f where x: "x = (t, f)" by fastforce
    have at: "at_node ts root pos pre (t # map fst stk0) n" using less.prems(3) by (simp add: Cons x)
    note n = wf_root_at [OF less.prems(1) at]
    from tuple_key_Cons [OF less.prems(4) [unfolded Cons x]] obtain fuel1 stk1 k1 where
      k: "fuel0 = Suc fuel1" "key_ok t f" "push_parts H t f stk0 = Some stk1" "tuple_key fuel1 H stk1 = Some k1"
        "k = symbol t f # k1" .
    have step: "descend hs H n pos stk =
        (case trie_match hs H n t f stk0 of
           None \<Rightarrow> None
         | Some (None, stk, cnt) \<Rightarrow> Some (Missing pos n t f stk cnt)
         | Some (Some p, stk, cnt) \<Rightarrow>
             (case child_at p n of None \<Rightarrow> None | Some cur \<Rightarrow> descend hs H cur (p # pos) stk))"
      using level_ok_not_leaf [OF n(1)]
      by (subst descend.simps) (auto simp: Cons x is_leaf_def split: trie_child.splits)
    from trie_match_ok [OF n(1,2) less.prems(2) k(2,3)] show ?thesis
    proof (elim disjE exE conjE)
      fix p m c
      assume m: "trie_match hs H n t f stk0 = Some (Some p, stk1, c)" "child_at p n = Some m" "symbol t (tn_data m) = symbol t f"
      have ty: "map fst stk1 = parts t (tn_data m) @ map fst stk0"
        using push_parts_types [OF k(3)] parts_sym [OF m(3)] by simp
      have at1: "at_node ts root (p # pos) (pre @ [symbol t f]) (map fst stk1) m"
        using at_child [OF at m(2)] m(3) ty by simp
      have "stk1 \<noteq> [] \<or> is_leaf m"
        using wf_root_child [OF less.prems(1) at m(2)] ty by (cases stk1) (auto simp: wf_node_Nil)
      moreover have "fuel1 \<le> fuel" using less.prems(6) k(1) by simp
      ultimately show ?thesis
        using less.hyps [OF child_at_size [OF m(2)] less.prems(1,2) at1 k(4)] by (simp add: step m(1,2) k(5))
    next
      fix c
      assume "trie_match hs H n t f stk0 = Some (None, stk0, c)" "symbol t f \<notin> symbols t n" "c \<le> length (children (tn_child n))"
      moreover have "tuple_key fuel H stk1 = Some k1" using tuple_key_mono [OF k(4)] less.prems(6) k(1) by simp
      ultimately show ?thesis
        using at k(2,3,5) unfolding missing_at_def by (intro disjI2 exI conjI) (auto simp: step)
    qed
  qed
qed

lemma entries_below:
  "at_node ts root pos pre ts' n \<Longrightarrow> wf_root hs ts root \<Longrightarrow> (pre @ k, l) \<in> set (entries ts root) \<Longrightarrow>
   (k, l) \<in> set (entries ts' n)"
proof (induction arbitrary: k rule: at_node.induct)
  case (at_child pos pre t ts' n p m)
  from at_child.IH [of "symbol t (tn_data m) # k"] at_child.prems
  have "(symbol t (tn_data m) # k, l) \<in> set (entries (t # ts') n)" by simp
  from entries_symbols [OF wf_root_at(1) [OF at_child.prems(1) at_child.hyps(1)] this] obtain m' where
    m': "m' \<in> set (children (tn_child n))" "symbol t (tn_data m') = symbol t (tn_data m)"
      "(k, l) \<in> set (entries (parts t (tn_data m') @ ts') m')" .
  have "distinct (map (\<lambda>m. symbol t (tn_data m)) (children (tn_child n)))"
    using wf_root_at(1) [OF at_child.prems(1) at_child.hyps(1)] by (simp add: level_ok_def)
  with m'(1,2) child_at_mem [OF at_child.hyps(2)] have "m' = m" by (auto simp: distinct_map inj_on_def)
  with m'(3) show ?case by simp
qed simp

lemma entries_above:
  assumes "at_node ts root pos pre ts' n" "(k, l) \<in> set (entries ts' n)"
  shows "(pre @ k, l) \<in> set (entries ts root)"
proof -
  from entries_put_at [OF assms(1)] obtain C where
    "mset (entries ts (put_at pos n root)) = C + image_mset (add_prefix pre) (mset (entries ts' n))" by blast
  then have "mset (entries ts root) = C + image_mset (add_prefix pre) (mset (entries ts' n))"
    by (simp add: put_at_same [OF at_node_pos [OF assms(1)]])
  moreover have "(pre @ k, l) \<in># image_mset (add_prefix pre) (mset (entries ts' n))"
    using assms(2) by (force simp: add_prefix_def)
  ultimately show ?thesis by (metis set_mset_mset union_iff)
qed

lemma found_entry:
  assumes "at_node ts root pos k [] m" "tn_child m = TLeaf l"
  shows "(k, l) \<in> set (entries ts root)"
  using entries_above [OF assms(1), of "[]" l] assms(2) by (cases m) simp

lemma missing_no_entry:
  assumes "wf_root hs ts root" "missing_at H ts root fuel k r"
  shows "k \<notin> fst ` set (entries ts root)"
proof
  assume "k \<in> fst ` set (entries ts root)"
  then obtain l where l: "(k, l) \<in> set (entries ts root)" by auto
  from assms(2) show False
    unfolding missing_at_def
  proof (elim exE conjE)
    fix pos m t f stk c pre stk' k'
    assume m: "at_node ts root pos pre (t # map fst stk) m" "k = pre @ symbol t f # k'" "symbol t f \<notin> symbols t m"
    from entries_below [OF m(1) assms(1) l [unfolded m(2)]]
    have "(symbol t f # k', l) \<in> set (entries (t # map fst stk) m)" .
    from entries_symbols [OF wf_root_at(1) [OF assms(1) m(1)] this] show False
      using m(3) by (metis (mono_tags, lifting) image_eqI symbols_def)
  qed
qed

subsection \<open>Deleting\<close>

lemma level_ok_fewer:
  assumes "level_ok hs t n" "mset (children (tn_child n)) = add_mset m (mset (children (tn_child n')))"
    "(case tn_child n' of TLeaf l \<Rightarrow> False | TNodes ns \<Rightarrow> \<not> tn_hashed n'
      | THash ty bs tot \<Rightarrow> tn_hashed n' \<and> ty = t \<and> bs \<noteq> [] \<and> tot = length (concat bs) \<and>
          (\<forall>b < length bs. \<forall>m \<in> set (bs ! b). placed hs t (length bs) b (tn_data m)))"
  shows "level_ok hs t n'"
proof -
  have eq: "mset (children (tn_child n)) = mset (m # children (tn_child n'))" using assms(2) by simp
  have "mset (map (\<lambda>m. symbol t (tn_data m)) (children (tn_child n))) =
      mset (map (\<lambda>m. symbol t (tn_data m)) (m # children (tn_child n')))"
    by (simp only: mset_map eq)
  from mset_eq_imp_distinct_iff [OF this] mset_eq_setD [OF eq] assms(1,3) show ?thesis
    unfolding level_ok_def by auto
qed

text \<open>Unlinking one child. The node that is unlinked may have been emptied before.\<close>

definition unlink :: "child_pos \<Rightarrow> trie_node \<Rightarrow> trie_node" where
  "unlink p n =
     (case (p, tn_child n) of
        (InBucket b i, THash ty bs tot) \<Rightarrow> set_child (THash ty (bs[b := remove_nth i (bs ! b)]) (size_sub tot 1)) n
      | (InList i, TNodes ns) \<Rightarrow> set_child (TNodes (remove_nth i ns)) n
      | _ \<Rightarrow> n)"

lemma unlink_ok:
  assumes "level_ok hs t n" "child_at p n = Some m"
  shows "level_ok hs t (unlink p (put_child p m' n))" "tn_data (unlink p (put_child p m' n)) = tn_data n"
    "mset (children (tn_child n)) = add_mset m (mset (children (tn_child (unlink p (put_child p m' n)))))"
proof -
  obtain d h c where n: "n = TN d h c" by (cases n)
  have nth: "remove_nth i (xs[i := y]) = remove_nth i xs" for i and xs :: "trie_node list" and y
    by (simp add: remove_nth_def)
  have "tn_data (unlink p (put_child p m' n)) = tn_data n \<and>
      mset (children (tn_child n)) = add_mset m (mset (children (tn_child (unlink p (put_child p m' n))))) \<and>
      level_ok hs t (unlink p (put_child p m' n))"
  proof (cases c)
    case (TNodes ns)
    with n assms(2) obtain i where p: "p = InList i" "i < length ns" "m = ns ! i" by (cases p) (auto split: if_splits)
    have u: "unlink p (put_child p m' n) = TN d h (TNodes (remove_nth i ns))"
      by (simp add: unlink_def n TNodes p(1) set_child_def nth)
    have ms: "mset (children (tn_child n)) = add_mset m (mset (children (tn_child (unlink p (put_child p m' n)))))"
      unfolding u using mset_remove_nth [OF p(2)] by (simp add: n TNodes p(3))
    have "level_ok hs t (unlink p (put_child p m' n))"
      by (rule level_ok_fewer [OF assms(1) ms], unfold u) (use assms(1) in \<open>simp add: n TNodes level_ok_def\<close>)
    with ms show ?thesis unfolding u by (simp add: n)
  next
    case (THash ty bs tot)
    with n assms(2) obtain b i where p: "p = InBucket b i" "b < length bs" "i < length (bs ! b)" "m = bs ! b ! i"
      by (cases p) (auto split: if_splits)
    define bs' where "bs' = bs[b := remove_nth i (bs ! b)]"
    have u: "unlink p (put_child p m' n) = TN d h (THash ty bs' (size_sub tot 1))"
      using p(2) by (simp add: unlink_def n THash p(1) set_child_def nth bs'_def)
    have c: "tn_child n = THash ty bs tot" by (simp add: n THash)
    have cc: "mset (concat bs) = add_mset m (mset (concat bs'))"
    proof -
      have "mset (concat bs) = mset (concat (take b bs @ bs ! b # drop (Suc b) bs))"
        using id_take_nth_drop [OF p(2)] by simp
      also have "\<dots> = add_mset m (mset (concat bs'))"
        using p(2) mset_remove_nth [OF p(3), symmetric] by (simp add: bs'_def upd_conv_take_nth_drop p(4))
      finally show ?thesis .
    qed
    then have ms: "mset (children (tn_child n)) = add_mset m (mset (children (tn_child (unlink p (put_child p m' n)))))"
      unfolding u by (simp add: c)
    have len: "length (concat bs) = Suc (length (concat bs'))" using cc by (metis size_add_mset size_mset)
    have pl: "placed hs t (length bs) b' (tn_data x)" if "b' < length bs" "x \<in> set (bs' ! b')" for b' x
      using that set_remove_nth [of i "bs ! b"] p(2) by (intro level_ok_placed [OF assms(1) c]) (cases "b' = b"; auto simp: bs'_def)+
    have "level_ok hs t (unlink p (put_child p m' n))"
    proof (rule level_ok_fewer [OF assms(1) ms], unfold u)
      have "length bs' = length bs" "bs' \<noteq> []" using level_ok_table [OF assms(1) c] by (auto simp: bs'_def)
      with level_ok_table [OF assms(1) c] pl len show "case tn_child (TN d h (THash ty bs' (size_sub tot 1))) of
          TLeaf l \<Rightarrow> False | TNodes ns \<Rightarrow> \<not> tn_hashed (TN d h (THash ty bs' (size_sub tot 1)))
        | THash ty' bs'' tot' \<Rightarrow> tn_hashed (TN d h (THash ty bs' (size_sub tot 1))) \<and> ty' = t \<and> bs'' \<noteq> [] \<and>
            tot' = length (concat bs'') \<and>
            (\<forall>b < length bs''. \<forall>m \<in> set (bs'' ! b). placed hs t (length bs'') b (tn_data m))"
        by (simp add: n del: length_concat)
    qed
    with ms show ?thesis unfolding u by (simp add: n)
  qed (use n assms(2) in simp)
  then show "level_ok hs t (unlink p (put_child p m' n))" "tn_data (unlink p (put_child p m' n)) = tn_data n"
    "mset (children (tn_child n)) = add_mset m (mset (children (tn_child (unlink p (put_child p m' n)))))" by auto
qed

lemma delete_path_step:
  assumes "level_ok hs t m" "child_at p m = Some n" "node_at up root = Some (put_child p n0 m)"
  defines "u \<equiv> unlink p (put_child p n0 m)"
  shows "delete_path (p # up) root =
    (if children (tn_child u) = [] then delete_path up (put_at up (set_child (TNodes []) (put_child p n0 m)) root)
     else Some (put_at up u root))"
proof -
  note u = unlink_ok [OF assms(1,2), of n0, folded u_def]
  from u(3) have one: "length (children (tn_child m)) = Suc (length (children (tn_child u)))"
    by (metis size_add_mset size_mset)
  obtain d h c where m: "m = TN d h c" by (cases m)
  show ?thesis
  proof (cases c)
    case (TNodes ns)
    with m assms(2) obtain i where p: "p = InList i" "i < length ns" by (cases p) (auto split: if_splits)
    have "u = set_child (TNodes (remove_nth i (ns[i := n0]))) (put_child p n0 m)"
      by (simp add: u_def unlink_def m TNodes p(1))
    moreover from this have "remove_nth i (ns[i := n0]) = [] \<Longrightarrow> i = 0"
      using one p(2) by (simp add: set_child_def m TNodes)
    ultimately show ?thesis using assms(3) by (simp add: m TNodes p(1) set_child_def Let_def)
  next
    case (THash ty bs tot)
    with m assms(2) obtain b i where p: "p = InBucket b i" "b < length bs" "i < length (bs ! b)"
      by (cases p) (auto split: if_splits)
    define bs1 where "bs1 = bs[b := (bs ! b)[i := n0]]"
    define bs2 where "bs2 = bs1[b := remove_nth i (bs1 ! b)]"
    have u': "u = set_child (THash ty bs2 (size_sub tot 1)) (put_child p n0 m)"
      by (simp add: u_def unlink_def m THash p(1) bs1_def bs2_def)
    have "length (bs ! b) \<le> length (concat bs)" using p(2) by (auto simp: length_concat intro!: member_le_sum_list)
    then have "concat bs2 = [] \<Longrightarrow> i = 0"
      using one p(3) by (simp add: u' set_child_def m THash del: length_concat concat_eq_Nil_conv)
    moreover have "size_sub tot 1 = length (concat bs2)"
      using level_ok_table [OF u(1)] by (simp add: u' set_child_def)
    ultimately show ?thesis
      using assms(3) by (simp add: m THash p(1) u' set_child_def Let_def bs1_def [symmetric] bs2_def [symmetric] del: length_concat concat_eq_Nil_conv)
  qed (use m assms(2) in simp)
qed

lemma delete_path_ok:
  assumes "wf_node hs ts root" "at_node ts root pos pre ts' n" "tn_data n0 = tn_data n" "pos = [] \<Longrightarrow> tn_child n0 = TNodes []"
  shows "\<exists>root'. delete_path pos (put_at pos n0 root) = Some root' \<and> wf_root hs ts root' \<and>
    mset (entries ts root) = mset (entries ts root') + image_mset (add_prefix pre) (mset (entries ts' n))"
  using assms(2,3,4)
proof (induction pos arbitrary: pre ts' n n0)
  case Nil
  have "entries ts (TN d h (TNodes [])) = []" for d h by (cases ts) simp_all
  with Nil show ?case by (auto simp: wf_root_def add_prefix_def)
next
  case (Cons p up)
  from Cons.prems(1) obtain pre1 t ts1 m where
    at: "at_node ts root up pre1 (t # ts1) m" "child_at p m = Some n" "pre = pre1 @ [symbol t (tn_data n)]"
      "ts' = parts t (tn_data n) @ ts1" by (rule at_node_ConsE) auto
  note pos = at_node_pos [OF at(1)]
  have wf: "wf_node hs (t # ts1) m" by (rule wf_at_node [OF at(1) assms(1)])
  then have lvl: "level_ok hs t m" by (simp add: wf_node_Cons)
  define u where "u = unlink p (put_child p n0 m)"
  note u = unlink_ok [OF lvl at(2), of n0, folded u_def]
  define root0 where "root0 = put_at (p # up) n0 root"
  have root0: "root0 = put_at up (put_child p n0 m) root" by (simp add: root0_def pos)
  have at0: "node_at up root0 = Some (put_child p n0 m)" by (simp add: root0 node_at_put_at [OF pos])
  have put0: "put_at up x root0 = put_at up x root" for x by (simp add: root0 put_at_put_at [OF pos])
  have sum: "mset (entries (t # ts1) x) = (\<Sum>y \<in># mset (children (tn_child x)). mset (child_entries t ts1 y))"
    if "level_ok hs t x" for x
    using level_ok_not_leaf [OF that] by (simp add: entries_children mset_concat o_def flip: sum_mset_sum_list)
  have split: "mset (entries (t # ts1) m) = mset (child_entries t ts1 n) + mset (entries (t # ts1) u)"
    by (simp add: sum [OF lvl] sum [OF u(1)] u(3))
  have pre: "image_mset (add_prefix pre1) (mset (child_entries t ts1 n)) = image_mset (add_prefix pre) (mset (entries ts' n))"
    by (simp add: child_entries_def at(3,4) multiset.map_comp o_def add_prefix_def [abs_def] add_sym_def)
  note step = delete_path_step [OF lvl at(2) at0, folded u_def, unfolded put0]
  show ?case
  proof (cases "children (tn_child u) = []")
    case True
    then have "mset (entries (t # ts1) u) = {#}" by (simp add: sum [OF u(1)])
    moreover from Cons.IH [OF at(1), of "set_child (TNodes []) (put_child p n0 m)"] obtain root' where
      "delete_path up (put_at up (set_child (TNodes []) (put_child p n0 m)) root) = Some root'" "wf_root hs ts root'"
      "mset (entries ts root) = mset (entries ts root') + image_mset (add_prefix pre1) (mset (entries (t # ts1) m))"
      by (auto simp: set_child_def)
    ultimately show ?thesis using True step split pre by (simp add: root0_def)
  next
    case False
    have "wf_node hs (t # ts1) u"
      using wf u(1,3) False mset_eq_setD [OF u(3) [folded mset.simps(2)]] by (auto simp: wf_node_Cons)
    from wf_put_at [OF at(1) assms(1) u(2) this] have "wf_root hs ts (put_at up u root)" by (simp add: wf_root_def)
    moreover from entries_put_at [OF at(1)] obtain C where
      C: "\<And>x. tn_data x = tn_data m \<Longrightarrow> mset (entries ts (put_at up x root)) =
        C + image_mset (add_prefix pre1) (mset (entries (t # ts1) x))" by blast
    ultimately show ?thesis
      using False step C [OF u(2)] C [of m] split pre by (simp add: root0_def put_at_same [OF pos])
  qed
qed

subsection \<open>The node of a leaf\<close>

text \<open>\<open>leaf_at n q l\<close>: the pointer \<open>q\<close> leads from \<open>n\<close> to the leaf \<open>l\<close>.\<close>

definition leaf_at :: "trie_node \<Rightarrow> trie_pos \<Rightarrow> ptr_val \<Rightarrow> bool" where
  "leaf_at n q l \<longleftrightarrow> (\<exists>m. node_at q n = Some m \<and> tn_child m = TLeaf l)"

lemma node_at_append: "node_at (q @ q') n = Option.bind (node_at q' n) (node_at q)"
  by (induction q) (auto simp: bind_assoc)

lemma leaf_pos_sound:
  "leaf_pos l n = Some q \<Longrightarrow> leaf_at n q l"
  "leaf_pos_list l mk i ns = Some q \<Longrightarrow> \<exists>j m q'. j < length ns \<and> m = ns ! j \<and> q = q' @ [mk (i + j)] \<and> leaf_at m q' l"
  "leaf_pos_table l b bs = Some q \<Longrightarrow>
     \<exists>j i m q'. j < length bs \<and> i < length (bs ! j) \<and> m = bs ! j ! i \<and> q = q' @ [InBucket (b + j) i] \<and> leaf_at m q' l"
proof (induction l n and l mk i ns and l b bs arbitrary: q and q and q rule: leaf_pos_leaf_pos_list_leaf_pos_table.induct)
  case (1 l d h l')
  then show ?case by (auto simp: leaf_at_def split: if_splits)
next
  case (2 l d h ns)
  then show ?case by (fastforce simp: leaf_at_def node_at_append)
next
  case (3 l d h ty bs tot)
  then show ?case by (fastforce simp: leaf_at_def node_at_append)
next
  case (5 l mk i m ms)
  show ?case
  proof (cases "leaf_pos l m")
    case None
    with 5 obtain j q' where "j < length ms" "q = q' @ [mk (Suc i + j)]" "leaf_at (ms ! j) q' l" by auto
    then show ?thesis by (intro exI [of _ "Suc j"]) auto
  next
    case (Some q')
    with 5 show ?thesis by (intro exI [of _ 0]) auto
  qed
next
  case (7 l b x xs)
  show ?case
  proof (cases "leaf_pos_list l (InBucket b) 0 x")
    case None
    with 7 obtain j i q' where "j < length xs" "i < length (xs ! j)" "q = q' @ [InBucket (Suc b + j) i]" "leaf_at (xs ! j ! i) q' l"
      by auto
    then show ?thesis by (intro exI [of _ "Suc j"] exI [of _ i]) auto
  next
    case (Some q')
    with 7 obtain i q'' where "i < length x" "q = q'' @ [InBucket b i]" "leaf_at (x ! i) q'' l" by auto
    then show ?thesis by (intro exI [of _ 0] exI [of _ i]) auto
  qed
qed simp_all

lemma leaf_pos_complete:
  "l \<in> snd ` set (entries ts n) \<Longrightarrow> leaf_pos l n \<noteq> None"
proof (induction "size n" arbitrary: n ts rule: less_induct)
  case less
  obtain d h c where n: "n = TN d h c" by (cases n)
  have ih: "leaf_pos l m \<noteq> None" if "m \<in> set (children c)" "l \<in> snd ` set (entries ts' m)" for m ts'
    using less.hyps [OF _ that(2)] mem_child_at [of m n] that(1) child_at_size n by (metis trie_node.sel(3))
  have ns: "leaf_pos_list l mk i ns \<noteq> None" if "m \<in> set ns" "leaf_pos l m \<noteq> None" for mk i ns m
    using that by (induction ns arbitrary: i) (auto split: option.splits)
  show ?case
  proof (cases c)
    case (TLeaf l')
    with less.prems n show ?thesis by simp
  next
    case (TNodes xs)
    from less.prems n TNodes obtain t ts' where ts: "ts = t # ts'" by (cases ts) auto
    from less.prems n TNodes ts obtain m where "m \<in> set xs" "l \<in> snd ` set (entries (parts t (tn_data m) @ ts') m)"
      by (force simp: add_sym_def)
    with ih ns n TNodes show ?thesis by simp
  next
    case (THash ty bs tot)
    from less.prems n THash obtain t ts' where ts: "ts = t # ts'" by (cases ts) auto
    from less.prems n THash ts obtain b m where
      m: "b \<in> set bs" "m \<in> set b" "l \<in> snd ` set (entries (parts t (tn_data m) @ ts') m)"
      by (force simp: add_sym_def)
    then have "leaf_pos l m \<noteq> None" using ih THash by auto
    with m(1,2) have "leaf_pos_table l i bs \<noteq> None" for i
      by (induction bs arbitrary: i) (auto split: option.splits dest: ns)
    with n THash show ?thesis by simp
  qed
qed

text \<open>In a well-formed tree, a pointer to a node has a type stack and a list of symbols.\<close>

lemma node_at_at_node:
  "wf_node hs ts root \<Longrightarrow> node_at pos root = Some n \<Longrightarrow> \<exists>pre ts'. at_node ts root pos pre ts' n"
proof (induction pos arbitrary: n)
  case (Cons p pos)
  then obtain m where m: "node_at pos root = Some m" "child_at p m = Some n" by (auto simp: bind_eq_Some_conv)
  with Cons obtain pre ts' where at: "at_node ts root pos pre ts' m" by blast
  from wf_at_node [OF at Cons.prems(1)] child_at_not_leaf [OF m(2)] obtain t ts'' where "ts' = t # ts''"
    by (cases ts') (auto simp: wf_node_Nil)
  with at at_child m(2) show ?case by blast
qed (auto intro: at_root)

lemma leaf_pos_ok:
  assumes "wf_node hs ts root" "(k, l) \<in> set (entries ts root)" "distinct (map snd (entries ts root))"
  obtains pos m where "leaf_pos l root = Some pos" "at_node ts root pos k [] m" "tn_child m = TLeaf l"
proof -
  have "l \<in> snd ` set (entries ts root)" using assms(2) by force
  from leaf_pos_complete [OF this] obtain pos where pos: "leaf_pos l root = Some pos" by auto
  from leaf_pos_sound(1) [OF pos] obtain m where m: "node_at pos root = Some m" "tn_child m = TLeaf l"
    by (auto simp: leaf_at_def)
  from node_at_at_node [OF assms(1) m(1)] obtain pre ts' where at: "at_node ts root pos pre ts' m" by blast
  from wf_at_node [OF at assms(1)] m(2) have "ts' = []"
    by (cases ts') (auto simp: wf_node_Cons level_ok_def)
  with at found_entry m(2) have "(pre, l) \<in> set (entries ts root)" "at_node ts root pos pre [] m" by auto
  moreover from this(1) assms(2,3) have "(pre, l) = (k, l)"
    unfolding distinct_map by (metis inj_onD snd_conv)
  ultimately show ?thesis using that pos m(2) by blast
qed

end
