(* ===== verification/Trie_Leaf.thy ===== *)
theory Trie_Leaf
  imports Linked_List
begin

text \<open>
  The leaves of the tries (\<^verbatim>\<open>db/trie.hpp\<close>): their reference counts, the counts by depth of the predicates
  that are derived in cycles, and the list that links the leaves in the order of their creation.
\<close>

subsection \<open>Counts by depth\<close>

text \<open>A \<^verbatim>\<open>std::map\<close> from depths to counts, as the list of its pairs in increasing order.\<close>

type_synonym depth_counter = "(nat \<times> nat) list"

definition dc_get_count :: "nat \<Rightarrow> depth_counter \<Rightarrow> nat" where
  "dc_get_count depth c = (case map_of c depth of None \<Rightarrow> 0 | Some n \<Rightarrow> n)"

definition dc_max_depth :: "depth_counter \<Rightarrow> nat" where
  "dc_max_depth c = (if c = [] then 0 else fst (last c))"

definition dc_min_depth :: "depth_counter \<Rightarrow> nat" where
  "dc_min_depth c = (if c = [] then 0 else fst (hd c))"

fun dc_add :: "nat \<Rightarrow> nat \<Rightarrow> depth_counter \<Rightarrow> depth_counter" where
  "dc_add depth n [] = [(depth, n)]"
| "dc_add depth n ((e, m) # c) =
     (if depth = e then (e, m + n) # c
      else if depth < e then (depth, n) # (e, m) # c
      else (e, m) # dc_add depth n c)"

fun dc_sub :: "nat \<Rightarrow> nat \<Rightarrow> depth_counter \<Rightarrow> bool \<times> depth_counter" where
  "dc_sub depth n [] = (True, [])"
| "dc_sub depth n ((e, m) # c) =
     (if depth = e then
        let m' = (if n > m then 0 else m - n) in if m' = 0 then (True, c) else (False, (e, m') # c)
      else let (r, c') = dc_sub depth n c in (r, (e, m) # c'))"

text \<open>The loop that removes the greatest depth as long as it is above \<open>depth\<close>, on the reversed list.\<close>

fun delete_above_loop :: "nat \<Rightarrow> depth_counter \<Rightarrow> nat \<Rightarrow> nat \<times> depth_counter" where
  "delete_above_loop depth [] ret = (ret, [])"
| "delete_above_loop depth ((e, m) # c) ret =
     (if e \<le> depth then (ret, (e, m) # c) else delete_above_loop depth c (ret + m))"

definition dc_delete_depths_above :: "nat \<Rightarrow> depth_counter \<Rightarrow> nat \<times> depth_counter" where
  "dc_delete_depths_above depth c = (let (ret, c') = delete_above_loop depth (rev c) 0 in (ret, rev c'))"

definition dc_ok :: "depth_counter \<Rightarrow> bool" where
  "dc_ok c \<longleftrightarrow> sorted_wrt (<) (map fst c) \<and> (\<forall>x \<in> set c. 0 < snd x)"

definition dc_total :: "depth_counter \<Rightarrow> nat" where
  "dc_total c = sum_list (map snd c)"

lemma dc_add_fst: "fst ` set (dc_add depth n c) = insert depth (fst ` set c)"
  by (induction depth n c rule: dc_add.induct) auto

lemma dc_add_ok: "dc_ok c \<Longrightarrow> 0 < n \<Longrightarrow> dc_ok (dc_add depth n c) \<and> dc_total (dc_add depth n c) = dc_total c + n"
proof (induction depth n c rule: dc_add.induct)
  case (2 depth n e m c)
  have "\<forall>x \<in> fst ` set (dc_add depth n c). e < x" if "e < depth"
    using 2(2) that unfolding dc_add_fst by (auto simp: dc_ok_def)
  with 2 show ?case by (auto simp: dc_ok_def dc_total_def)
qed (auto simp: dc_ok_def dc_total_def)

lemma dc_sub_fst: "x \<in> set (snd (dc_sub depth n c)) \<Longrightarrow> fst x \<in> fst ` set c"
  by (induction depth n c rule: dc_sub.induct) (auto simp: Let_def split: prod.splits if_splits)

lemma dc_sub_ok: "dc_ok c \<Longrightarrow> dc_ok (snd (dc_sub depth n c))"
proof (induction depth n c rule: dc_sub.induct)
  case (2 depth n e m c)
  have "e < fst x" if "x \<in> set (snd (dc_sub depth n c))" for x
    using dc_sub_fst [OF that] 2(2) by (auto simp: dc_ok_def)
  with 2 show ?case by (auto simp: dc_ok_def Let_def split: prod.splits if_splits)
qed (simp add: dc_ok_def)

lemma dc_sub_total:
  "dc_ok c \<Longrightarrow> dc_total (snd (dc_sub depth n c)) = dc_total c - min n (dc_get_count depth c)"
proof (induction depth n c rule: dc_sub.induct)
  case (2 depth n e m c)
  have le: "dc_get_count depth c \<le> dc_total c"
    by (induction c) (auto simp: dc_get_count_def dc_total_def split: option.splits)
  from 2 have "dc_ok c" by (auto simp: dc_ok_def)
  with 2 le show ?case
    by (auto simp: dc_total_def dc_get_count_def Let_def split: prod.splits if_splits)
qed (simp add: dc_total_def)

lemma delete_above_loop_ok:
  assumes "sorted_wrt (>) (map fst c)"
  shows "delete_above_loop depth c ret = (ret + sum_list (map snd (filter (\<lambda>x. depth < fst x) c)), filter (\<lambda>x. fst x \<le> depth) c)"
  using assms
proof (induction depth c ret rule: delete_above_loop.induct)
  case (2 depth e m c ret)
  show ?case
  proof (cases "e \<le> depth")
    case True
    with 2(2) have "\<forall>x \<in> set c. fst x \<le> depth" by auto
    with True show ?thesis by (auto simp: filter_empty_conv filter_id_conv not_less)
  qed (use 2 in \<open>auto simp: not_le\<close>)
qed simp

lemma delete_depths_above_ok:
  assumes "dc_ok c" "dc_delete_depths_above depth c = (ret, c')"
  shows "c' = filter (\<lambda>x. fst x \<le> depth) c" "dc_ok c'" "dc_total c = dc_total c' + ret"
proof -
  have "sorted_wrt (>) (map fst (rev c))" using assms(1) by (simp add: dc_ok_def sorted_wrt_rev flip: rev_map)
  from delete_above_loop_ok [OF this, of depth 0] assms(2)
  have r: "c' = filter (\<lambda>x. fst x \<le> depth) c" "ret = sum_list (map snd (filter (\<lambda>x. depth < fst x) c))"
    by (auto simp: dc_delete_depths_above_def rev_filter [symmetric] rev_map [symmetric] sum_list_rev)
  show "c' = filter (\<lambda>x. fst x \<le> depth) c" by (rule r(1))
  show "dc_ok c'" using assms(1) by (auto simp: r(1) dc_ok_def sorted_wrt_map intro: sorted_wrt_filter)
  show "dc_total c = dc_total c' + ret"
    unfolding r dc_total_def by (induction c) (auto simp: not_le)
qed

subsection \<open>Leaves\<close>

text \<open>
  \<open>TupleLeaf\<close> has the tuple, the count and the counts by depth of a \<^verbatim>\<open>tuple_trie_leaf\<close>, \<open>AggLeaf\<close> the
  configuration and the count of an \<^verbatim>\<open>agg_trie_leaf\<close>. The methods that change a count do nothing for the latter.
\<close>

datatype trie_leaf = TupleLeaf ptr_val nat "depth_counter option" | AggLeaf ptr_val nat

fun leaf_get_count :: "trie_leaf \<Rightarrow> nat" where
  "leaf_get_count (TupleLeaf tpl c ds) = c"
| "leaf_get_count (AggLeaf conf c) = c"

fun leaf_add_new :: "nat \<Rightarrow> nat \<Rightarrow> trie_leaf \<Rightarrow> trie_leaf" where
  "leaf_add_new depth many (TupleLeaf tpl c ds) = TupleLeaf tpl (c + many) (map_option (dc_add depth many) ds)"
| "leaf_add_new depth many (AggLeaf conf c) = AggLeaf conf c"

fun leaf_sub :: "nat \<Rightarrow> nat \<Rightarrow> trie_leaf \<Rightarrow> trie_leaf" where
  "leaf_sub depth many (TupleLeaf tpl c ds) =
     TupleLeaf tpl (if many > c then 0 else c - many) (map_option (\<lambda>d. snd (dc_sub depth many d)) ds)"
| "leaf_sub depth many (AggLeaf conf c) = AggLeaf conf c"

definition leaf_to_delete :: "trie_leaf \<Rightarrow> bool" where
  "leaf_to_delete lf \<longleftrightarrow> leaf_get_count lf = 0"

fun leaf_set_zero_refs :: "trie_leaf \<Rightarrow> trie_leaf" where
  "leaf_set_zero_refs (AggLeaf conf c) = AggLeaf conf 0"
| "leaf_set_zero_refs lf = lf"

fun leaf_get_max_depth :: "trie_leaf \<Rightarrow> nat" where
  "leaf_get_max_depth (TupleLeaf tpl c (Some d)) = dc_max_depth d"
| "leaf_get_max_depth lf = 0"

fun leaf_get_min_depth :: "trie_leaf \<Rightarrow> nat" where
  "leaf_get_min_depth (TupleLeaf tpl c (Some d)) = dc_min_depth d"
| "leaf_get_min_depth lf = 0"

text \<open>None when there is no depth counter, which the source dereferences.\<close>

fun leaf_delete_depths_above :: "nat \<Rightarrow> trie_leaf \<Rightarrow> (nat \<times> trie_leaf) option" where
  "leaf_delete_depths_above depth (TupleLeaf tpl c (Some d)) =
     (let (ret, d') = dc_delete_depths_above depth d in Some (ret, TupleLeaf tpl (size_sub c ret) (Some d')))"
| "leaf_delete_depths_above depth lf = None"

definition new_tuple_trie_leaf :: "ptr_val \<Rightarrow> bool \<Rightarrow> nat \<Rightarrow> nat \<Rightarrow> trie_leaf" where
  "new_tuple_trie_leaf tpl cycle cnt depth =
     leaf_add_new depth cnt (TupleLeaf tpl 0 (if cycle then Some [] else None))"

definition new_agg_trie_leaf :: trie_leaf where
  "new_agg_trie_leaf = AggLeaf 0 1"

subsection \<open>The list of leaves\<close>

record leaf_list =
  ll_first :: ptr_val
  ll_last :: ptr_val
  ll_next :: links
  ll_prev :: links

definition append_leaf :: "ptr_val \<Rightarrow> leaf_list \<Rightarrow> leaf_list" where
  "append_leaf l L =
     (let L = L\<lparr>ll_next := (ll_next L)(l := 0)\<rparr>
      in if ll_first L = 0 then L\<lparr>ll_first := l, ll_last := l, ll_prev := (ll_prev L)(l := 0)\<rparr>
         else L\<lparr>ll_prev := (ll_prev L)(l := ll_last L), ll_next := (ll_next L)(ll_last L := l), ll_last := l\<rparr>)"

definition single_leaf :: "ptr_val \<Rightarrow> leaf_list \<Rightarrow> leaf_list" where
  "single_leaf l L = L\<lparr>ll_prev := (ll_prev L)(l := 0), ll_next := (ll_next L)(l := 0), ll_first := l, ll_last := l\<rparr>"

definition unlink_leaf :: "ptr_val \<Rightarrow> leaf_list \<Rightarrow> leaf_list" where
  "unlink_leaf l L =
     (let nx = ll_next L l; pv = ll_prev L l;
          L1 = (if nx \<noteq> 0 then L\<lparr>ll_prev := (ll_prev L)(nx := pv)\<rparr> else L);
          L2 = (if pv \<noteq> 0 then L1\<lparr>ll_next := (ll_next L1)(pv := nx)\<rparr> else L1);
          L3 = (if l = ll_first L2 then L2\<lparr>ll_first := ll_next L2 (ll_first L2)\<rparr> else L2)
      in if l = ll_last L3 then L3\<lparr>ll_last := ll_prev L3 (ll_last L3)\<rparr> else L3)"

definition leaves_repr :: "leaf_list \<Rightarrow> ptr_val list \<Rightarrow> bool" where
  "leaves_repr L ls \<longleftrightarrow>
     distinct ls \<and> dll (ll_next L) (ll_prev L) 0 ls 0 \<and> ll_first L = first_of ls 0 \<and> ll_last L = last_of 0 ls"

lemma append_leaf_repr:
  assumes "leaves_repr L ls" "l \<noteq> 0" "l \<notin> set ls"
  shows "leaves_repr (append_leaf l L) (ls @ [l])"
proof (cases "ls = []")
  case True
  with assms show ?thesis by (simp add: leaves_repr_def append_leaf_def Let_def)
next
  case False
  have d: "dll (ll_next L) (ll_prev L) 0 ls 0" "distinct ls" using assms(1) by (auto simp: leaves_repr_def)
  have "dll ((ll_next L)(last ls := l)) (ll_prev L) 0 ls l" by (rule dll_upd_next_last [OF d False])
  moreover have "ll_first L \<noteq> 0" using assms(1) False d by (auto simp: leaves_repr_def)
  moreover have "last ls \<noteq> l" using False assms(3) by auto
  moreover have "first_of ls x = hd ls" for x using False by (rule first_of_hd)
  ultimately show ?thesis
    using assms False d
    by (auto simp: leaves_repr_def append_leaf_def Let_def dll_append last_of_last fun_upd_twist [of l "last ls"])
qed

lemma single_leaf_repr: "l \<noteq> 0 \<Longrightarrow> leaves_repr (single_leaf l L) [l]"
  by (simp add: leaves_repr_def single_leaf_def)

lemma unlink_leaf_repr:
  assumes "leaves_repr L (ys @ l # zs)"
  shows "leaves_repr (unlink_leaf l L) (ys @ zs)"
proof -
  have d: "dll (ll_next L) (ll_prev L) 0 (ys @ l # zs) 0" "distinct (ys @ l # zs)" and
    e: "ll_first L = first_of ys l" "ll_last L = last_of l zs"
    using assms by (auto simp: leaves_repr_def)
  have nx: "ll_next L l = first_of zs 0" "ll_prev L l = last_of 0 ys" "l \<noteq> 0"
    using d(1) by (simp_all add: dll_append)
  have nz: "0 \<notin> set ys" "0 \<notin> set zs" using dll_nonnull [OF d(1)] by auto
  note u = dll_unlink [OF d refl refl]
  show ?thesis
  proof (cases ys rule: rev_cases; cases zs)
    fix ys' y z zs' assume "ys = ys' @ [y]" "zs = z # zs'"
    with u d(2) e nx nz first_of_mem [of ys' y] show ?thesis
      by (cases zs' rule: rev_cases) (auto simp: unlink_leaf_def leaves_repr_def Let_def)
  next
    fix ys' y assume "ys = ys' @ [y]" "zs = []"
    with u d(2) e nx nz first_of_mem [of ys' y] show ?thesis by (auto simp: unlink_leaf_def leaves_repr_def Let_def)
  next
    fix z zs' assume "ys = []" "zs = z # zs'"
    with u d(2) e nx nz show ?thesis
      by (cases zs' rule: rev_cases) (auto simp: unlink_leaf_def leaves_repr_def Let_def)
  next
    assume "ys = []" "zs = []"
    with u d(2) e nx nz show ?thesis by (auto simp: unlink_leaf_def leaves_repr_def Let_def)
  qed
qed

text \<open>Walking the list visits the leaves in the order of their creation.\<close>

definition leaf_walk :: "nat \<Rightarrow> leaf_list \<Rightarrow> ptr_val list" where
  "leaf_walk n L = chain_walk n (ll_next L) (ll_first L)"

lemma leaf_walk_repr: "leaves_repr L ls \<Longrightarrow> length ls \<le> n \<Longrightarrow> leaf_walk n L = ls"
  by (auto simp: leaf_walk_def leaves_repr_def chain_walk_dll)

end
