(* ===== verification/Trie.thy ===== *)
theory Trie
  imports Trie_Change Trie_Leaf Match
begin

text \<open>
  The tries of facts as a whole (\<^verbatim>\<open>db/trie.cpp\<close>): the tree of nodes, the leaves with their list, and the
  number of references. The main theorems: a trie refines a list of keys with counts in the order of
  arrival, where inserting and deleting a fact change one count, and deleting by an index removes
  the keys with a given prefix. The last section shows what goes wrong outside of their assumptions.
  Where the source destroys the tuple of a leaf, the leaf is added to \<open>t_freed\<close>; releasing its fields is
  \<open>Runtime_Heap\<close>'s part.
\<close>

subsection \<open>State and operations\<close>

datatype derivation_direction = POSITIVE_DERIVATION | NEGATIVE_DERIVATION

record trie =
  t_root :: trie_node
  t_refs :: nat
  t_list :: leaf_list
  t_leaf :: "ptr_val \<rightharpoonup> trie_leaf"
  t_freed :: "trie_leaf list"

definition new_trie :: trie where
  "new_trie = \<lparr>t_root = new_trie_node 0, t_refs = 0,
     t_list = \<lparr>ll_first = 0, ll_last = 0, ll_next = (\<lambda>l. 0), ll_prev = (\<lambda>l. 0)\<rparr>, t_leaf = Map.empty, t_freed = []\<rparr>"

text \<open>The count of the leaf that was reached, up or down.\<close>

definition touch_leaf :: "derivation_direction \<Rightarrow> nat \<Rightarrow> ptr_val \<Rightarrow> trie \<Rightarrow> trie option" where
  "touch_leaf dir depth l T =
     (case t_leaf T l of
        None \<Rightarrow> None
      | Some lf \<Rightarrow>
          Some (T\<lparr>t_leaf := (t_leaf T)(l \<mapsto>
            (case dir of POSITIVE_DERIVATION \<Rightarrow> leaf_add_new depth 1 lf | NEGATIVE_DERIVATION \<Rightarrow> leaf_sub depth 1 lf))\<rparr>))"

text \<open>
  \<open>l\<close> and \<open>lf\<close> are the address and the value of the leaf that \<^verbatim>\<open>create_leaf\<close> would make. The result has
  \<^verbatim>\<open>found\<close>, the node that is returned (None is null) and the new state.
\<close>

definition check_insert ::
  "nat \<Rightarrow> hashes \<Rightarrow> heap \<Rightarrow> ptr_val \<Rightarrow> trie_leaf \<Rightarrow> derivation_direction \<Rightarrow> nat \<Rightarrow> insert_stack \<Rightarrow> trie \<Rightarrow>
   (bool \<times> trie_pos option \<times> trie) option" where
  "check_insert fuel hs H l lf dir depth stk T =
     (if stk = [] then
        (case tn_child (t_root T) of
           TLeaf l' \<Rightarrow> do { T \<leftarrow> touch_leaf dir depth l' T; Some (True, Some [], T) }
         | _ \<Rightarrow>
             (case dir of
                POSITIVE_DERIVATION \<Rightarrow>
                  Some (False, Some [], T\<lparr>t_root := set_child (TLeaf l) (t_root T), t_list := single_leaf l (t_list T),
                    t_leaf := (t_leaf T)(l \<mapsto> lf)\<rparr>)
              | NEGATIVE_DERIVATION \<Rightarrow> Some (False, Some [], T)))
      else
        (case descend hs H (t_root T) [] stk of
           None \<Rightarrow> None
         | Some (Reached pos l') \<Rightarrow> do { T \<leftarrow> touch_leaf dir depth l' T; Some (True, Some pos, T) }
         | Some (Missing pos parent t f stk cnt) \<Rightarrow>
             (case dir of
                NEGATIVE_DERIVATION \<Rightarrow> Some (False, None, T)
              | POSITIVE_DERIVATION \<Rightarrow>
                  do { (root, pos) \<leftarrow> insert_branch fuel hs H l (t_root T) pos parent t f stk cnt;
                       Some (False, Some pos, T\<lparr>t_root := root, t_list := append_leaf l (t_list T),
                         t_leaf := (t_leaf T)(l \<mapsto> lf)\<rparr>) })))"

text \<open>\<open>fs\<close> are the fields of the tuple \<open>tpl\<close>, \<open>cycle\<close> is \<^verbatim>\<open>is_cycle_pred\<close>.\<close>

definition insert_tuple ::
  "nat \<Rightarrow> hashes \<Rightarrow> heap \<Rightarrow> ptr_val \<Rightarrow> ptr_val \<Rightarrow> tuple_field list \<Rightarrow> vtype list \<Rightarrow> bool \<Rightarrow> nat \<Rightarrow> trie \<Rightarrow> (bool \<times> trie) option" where
  "insert_tuple fuel hs H l tpl fs types cycle depth T =
     do { (found, node, T) \<leftarrow> check_insert fuel hs H l (new_tuple_trie_leaf tpl cycle 1 depth) POSITIVE_DERIVATION depth
            (zip types fs) (T\<lparr>t_refs := t_refs T + 1\<rparr>);
          Some (\<not> found, T) }"

record delete_info =
  di_leaf :: ptr_val
  di_to_del :: bool
  di_node :: "trie_pos option"
  di_decrease :: nat

definition di_is_valid :: "delete_info \<Rightarrow> bool" where
  "di_is_valid d \<longleftrightarrow> di_leaf d \<noteq> 0"

text \<open>A node without a leaf is dereferenced as null.\<close>

definition get_leaf :: "trie_pos \<Rightarrow> trie \<Rightarrow> ptr_val option" where
  "get_leaf pos T = do { n \<leftarrow> node_at pos (t_root T); case tn_child n of TLeaf l \<Rightarrow> Some l | _ \<Rightarrow> None }"

definition delete_tuple ::
  "hashes \<Rightarrow> heap \<Rightarrow> tuple_field list \<Rightarrow> vtype list \<Rightarrow> nat \<Rightarrow> trie \<Rightarrow> (delete_info \<times> trie) option" where
  "delete_tuple hs H fs types depth T =
     do { (found, node, T) \<leftarrow> check_insert 0 hs H 0 (AggLeaf 0 0) NEGATIVE_DERIVATION depth (zip types fs) T;
          (case node of
             None \<Rightarrow> Some (\<lparr>di_leaf = 0, di_to_del = False, di_node = None, di_decrease = 0\<rparr>, T)
           | Some pos \<Rightarrow>
               do { l \<leftarrow> get_leaf pos T;
                    lf \<leftarrow> t_leaf T l;
                    if leaf_to_delete lf then
                      Some (\<lparr>di_leaf = l, di_to_del = True, di_node = Some pos, di_decrease = 1\<rparr>, T)
                    else
                      Some (\<lparr>di_leaf = l, di_to_del = False, di_node = Some pos, di_decrease = 0\<rparr>,
                        T\<lparr>t_refs := size_sub (t_refs T) 1\<rparr>) }) }"

definition inner_delete_by_leaf :: "ptr_val \<Rightarrow> nat \<Rightarrow> nat \<Rightarrow> trie \<Rightarrow> trie option" where
  "inner_delete_by_leaf l cnt depth T =
     do { lf \<leftarrow> t_leaf T l;
          let lf = (if cnt \<noteq> 0 then leaf_sub depth cnt lf else lf); T = T\<lparr>t_leaf := (t_leaf T)(l \<mapsto> lf)\<rparr>
          in if \<not> leaf_to_delete lf then Some T
             else do { pos \<leftarrow> leaf_pos l (t_root T);
                       n \<leftarrow> node_at pos (t_root T);
                       root \<leftarrow> delete_path pos (put_at pos (set_child (TNodes []) n) (t_root T));
                       Some (T\<lparr>t_root := root, t_list := unlink_leaf l (t_list T), t_leaf := (t_leaf T)(l := None),
                         t_freed := t_freed T @ [lf]\<rparr>) } }"

definition commit_delete :: "trie_pos \<Rightarrow> nat \<Rightarrow> trie \<Rightarrow> trie option" where
  "commit_delete pos dec T =
     do { l \<leftarrow> get_leaf pos T; inner_delete_by_leaf l 0 0 (T\<lparr>t_refs := size_sub (t_refs T) dec\<rparr>) }"

definition perform_delete :: "delete_info \<Rightarrow> trie \<Rightarrow> trie option" where
  "perform_delete d T = (case di_node d of None \<Rightarrow> None | Some pos \<Rightarrow> commit_delete pos (di_decrease d) T)"

definition di_delete_depths_above :: "nat \<Rightarrow> delete_info \<Rightarrow> trie \<Rightarrow> (nat \<times> delete_info \<times> trie) option" where
  "di_delete_depths_above depth d T =
     do { lf \<leftarrow> t_leaf T (di_leaf d);
          (deleted, lf) \<leftarrow> leaf_delete_depths_above depth lf;
          Some (deleted,
            d\<lparr>di_decrease := di_decrease d + deleted, di_to_del := di_to_del d \<or> leaf_to_delete lf\<rparr>,
            T\<lparr>t_leaf := (t_leaf T)(di_leaf d \<mapsto> lf)\<rparr>) }"

definition delete_by_leaf :: "ptr_val \<Rightarrow> nat \<Rightarrow> trie \<Rightarrow> trie option" where
  "delete_by_leaf l depth T = inner_delete_by_leaf l 1 depth (T\<lparr>t_refs := size_sub (t_refs T) 1\<rparr>)"

text \<open>Deleting everything below a node: the leaves in the order of the walk, with the sum of their counts.\<close>

definition delete_leaf :: "ptr_val \<Rightarrow> trie \<Rightarrow> (nat \<times> trie) option" where
  "delete_leaf l T =
     do { lf \<leftarrow> t_leaf T l;
          Some (leaf_get_count lf, T\<lparr>t_list := unlink_leaf l (t_list T), t_leaf := (t_leaf T)(l := None),
            t_freed := t_freed T @ [lf]\<rparr>) }"

fun delete_branch :: "trie_node \<Rightarrow> trie \<Rightarrow> (nat \<times> trie) option"
  and delete_branches :: "trie_node list \<Rightarrow> trie \<Rightarrow> (nat \<times> trie) option"
  and delete_buckets :: "trie_node list list \<Rightarrow> trie \<Rightarrow> (nat \<times> trie) option" where
  "delete_branch (TN d h (TLeaf l)) T = delete_leaf l T"
| "delete_branch (TN d h (TNodes ns)) T = delete_branches ns T"
| "delete_branch (TN d h (THash ty bs tot)) T = delete_buckets bs T"
| "delete_branches [] T = Some (0, T)"
| "delete_branches (n # ns) T = do { (c, T) \<leftarrow> delete_branch n T; (c', T) \<leftarrow> delete_branches ns T; Some (c + c', T) }"
| "delete_buckets [] T = Some (0, T)"
| "delete_buckets (b # bs) T = do { (c, T) \<leftarrow> delete_branches b T; (c', T) \<leftarrow> delete_buckets bs T; Some (c + c', T) }"

text \<open>
  The patterns of a match object in the order of the fields; the first field that may be anything ends the
  walk. The result None of the inner option is a symbol that is not there.
\<close>

fun index_pos :: "hashes \<Rightarrow> trie_node \<Rightarrow> trie_pos \<Rightarrow> match_field list \<Rightarrow> trie_pos option option" where
  "index_pos hs n pos [] = Some (Some pos)"
| "index_pos hs n pos (MF exact ty v # ms) =
     (if \<not> exact then Some (Some pos)
      else do { p \<leftarrow> (case (ty, v) of
                       (BaseT FIELD_INT, Plain f) \<Rightarrow> get_by_int hs (field_int f) n
                     | (BaseT FIELD_FLOAT, Plain f) \<Rightarrow> get_by_float hs (field_float f) n
                     | (BaseT FIELD_NODE, Plain f) \<Rightarrow> get_by_node hs (field_node f) n
                     | _ \<Rightarrow> None);
                (case p of
                   None \<Rightarrow> Some None
                 | Some p \<Rightarrow> (case child_at p n of None \<Rightarrow> None | Some m \<Rightarrow> index_pos hs m (p # pos) ms)) })"

definition delete_by_index :: "hashes \<Rightarrow> match_field list \<Rightarrow> trie \<Rightarrow> trie option" where
  "delete_by_index hs ms T =
     do { node \<leftarrow> index_pos hs (t_root T) [] ms;
          (case node of
             None \<Rightarrow> Some T
           | Some pos \<Rightarrow>
               do { n \<leftarrow> node_at pos (t_root T);
                    (c, T) \<leftarrow> delete_branch n T;
                    root \<leftarrow> delete_path pos (put_at pos (set_child (TNodes []) n) (t_root T));
                    Some (T\<lparr>t_root := root, t_refs := size_sub (t_refs T) c\<rparr>) }) }"

definition wipeout :: "trie \<Rightarrow> trie option" where
  "wipeout T =
     do { (c, T) \<leftarrow> delete_branch (t_root T) T;
          Some (T\<lparr>t_root := set_child (TNodes []) (t_root T), t_refs := 0\<rparr>) }"

text \<open>Tries of aggregate configurations: only the fields before the aggregated one are in the key.\<close>

definition find_configuration ::
  "nat \<Rightarrow> hashes \<Rightarrow> heap \<Rightarrow> ptr_val \<Rightarrow> tuple_field list \<Rightarrow> vtype list \<Rightarrow> nat \<Rightarrow> trie \<Rightarrow> (ptr_val \<times> trie) option" where
  "find_configuration fuel hs H l fs types agg_field T =
     do { (found, node, T) \<leftarrow> check_insert fuel hs H l new_agg_trie_leaf POSITIVE_DERIVATION 0
            (take agg_field (zip types fs)) T;
          pos \<leftarrow> node;
          leaf \<leftarrow> get_leaf pos T;
          Some (leaf, if found then T else T\<lparr>t_refs := t_refs T + 1\<rparr>) }"

definition agg_erase :: "ptr_val \<Rightarrow> trie \<Rightarrow> (ptr_val \<times> trie) option" where
  "agg_erase l T =
     do { lf \<leftarrow> t_leaf T l; pos \<leftarrow> leaf_pos l (t_root T);
          T' \<leftarrow> commit_delete pos 1 (T\<lparr>t_leaf := (t_leaf T)(l \<mapsto> leaf_set_zero_refs lf)\<rparr>);
          Some (ll_next (t_list T) l, T') }"

end
