(* ===== verification/Trie_Spec.thy ===== *)
theory Trie_Spec
  imports Trie
begin

text \<open>
  The specification of the tries: a list of keys with their leaves, in the order in which the keys
  arrived. The operations of \<open>Trie\<close> refine operations on this list.
\<close>

subsection \<open>Representation\<close>

type_synonym trie_view = "(int list \<times> ptr_val \<times> trie_leaf) list"

definition view_entry :: "int list \<times> ptr_val \<times> trie_leaf \<Rightarrow> int list \<times> ptr_val" where
  "view_entry x = (fst x, fst (snd x))"

definition view_addr :: "int list \<times> ptr_val \<times> trie_leaf \<Rightarrow> ptr_val" where
  "view_addr x = fst (snd x)"

definition view_total :: "trie_view \<Rightarrow> nat" where
  "view_total xs = sum_list (map (\<lambda>x. leaf_get_count (snd (snd x))) xs)"

definition adjust :: "int list \<Rightarrow> (trie_leaf \<Rightarrow> trie_leaf) \<Rightarrow> trie_view \<Rightarrow> trie_view" where
  "adjust k f xs = map (\<lambda>x. if fst x = k then (fst x, fst (snd x), f (snd (snd x))) else x) xs"

definition trie_repr :: "hashes \<Rightarrow> vtype list \<Rightarrow> trie \<Rightarrow> trie_view \<Rightarrow> bool" where
  "trie_repr hs ts T xs \<longleftrightarrow>
     wf_root hs ts (t_root T) \<and> mset (entries ts (t_root T)) = mset (map view_entry xs) \<and>
     leaves_repr (t_list T) (map view_addr xs) \<and> (\<forall>x \<in> set xs. t_leaf T (view_addr x) = Some (snd (snd x)))"

lemmas view_defs = view_entry_def view_addr_def

lemma entries_empty: "tn_child n = TNodes [] \<Longrightarrow> entries ts n = []"
  by (cases n; cases ts) simp_all

lemma new_trie_repr: "trie_repr hs ts new_trie []"
  by (simp add: trie_repr_def new_trie_def new_trie_node_def wf_root_def entries_empty leaves_repr_def)

lemma trie_repr_leaf: "trie_repr hs ts T xs \<Longrightarrow> (k, l, lf) \<in> set xs \<Longrightarrow> t_leaf T l = Some lf"
  by (force simp: trie_repr_def view_defs)

lemma trie_repr_distinct:
  assumes "trie_repr hs ts T xs"
  shows "distinct (map fst xs)" "distinct (map view_addr xs)" "distinct (map snd (entries ts (t_root T)))"
proof -
  note r = assms [unfolded trie_repr_def]
  have "distinct (map fst (entries ts (t_root T)))"
    using r distinct_keys entries_empty [of "t_root T" ts] by (auto simp: wf_root_def)
  moreover have "mset (map fst (entries ts (t_root T))) = mset (map fst xs)"
    using r by (simp add: view_entry_def o_def multiset.map_comp)
  ultimately show "distinct (map fst xs)" by (metis mset_eq_imp_distinct_iff)
  show d: "distinct (map view_addr xs)" using r by (simp add: leaves_repr_def)
  have "mset (map snd (entries ts (t_root T))) = mset (map view_addr xs)"
    using r by (simp add: view_entry_def view_addr_def [abs_def] o_def multiset.map_comp)
  with d show "distinct (map snd (entries ts (t_root T)))" by (metis mset_eq_imp_distinct_iff)
qed

lemma trie_repr_entry:
  assumes "trie_repr hs ts T xs"
  shows "(k, l) \<in> set (entries ts (t_root T)) \<longleftrightarrow> (\<exists>lf. (k, l, lf) \<in> set xs)"
proof -
  have "set (entries ts (t_root T)) = set (map view_entry xs)"
    using assms unfolding trie_repr_def by (metis mset_eq_setD)
  then show ?thesis by (force simp: view_entry_def)
qed

lemma trie_repr_keys: "trie_repr hs ts T xs \<Longrightarrow> fst ` set (entries ts (t_root T)) = set (map fst xs)"
  using trie_repr_entry [of hs ts T xs] by force

subsection \<open>Changing a count\<close>

lemma adjust_simps [simp]:
  "map view_entry (adjust k f xs) = map view_entry xs" "map view_addr (adjust k f xs) = map view_addr xs"
  "map fst (adjust k f xs) = map fst xs"
  by (simp_all add: adjust_def view_defs)

lemma adjust_split:
  assumes "distinct (map fst (ys @ (k, l, lf) # zs))"
  shows "adjust k f (ys @ (k, l, lf) # zs) = ys @ (k, l, f lf) # zs"
proof -
  have "adjust k f vs = vs" if "k \<notin> set (map fst vs)" for vs
    using that by (induction vs) (auto simp: adjust_def)
  then show ?thesis using assms by (simp add: adjust_def)
qed

lemma touch_leaf_repr:
  assumes "trie_repr hs ts T xs" "(k, l, lf) \<in> set xs"
  shows "\<exists>T'. touch_leaf dir depth l T = Some T' \<and> t_root T' = t_root T \<and> t_refs T' = t_refs T \<and> t_freed T' = t_freed T \<and>
    trie_repr hs ts T' (adjust k (case dir of POSITIVE_DERIVATION \<Rightarrow> leaf_add_new depth 1 | NEGATIVE_DERIVATION \<Rightarrow> leaf_sub depth 1) xs)"
proof -
  define f where "f = (case dir of POSITIVE_DERIVATION \<Rightarrow> leaf_add_new depth 1 | NEGATIVE_DERIVATION \<Rightarrow> leaf_sub depth 1)"
  define T' where "T' = T\<lparr>t_leaf := (t_leaf T)(l \<mapsto> f lf)\<rparr>"
  have eq: "x = (k, l, lf)" if "x \<in> set xs" "view_addr x = l \<or> fst x = k" for x
    using trie_repr_distinct(1,2) [OF assms(1)] assms(2) that unfolding distinct_map
    by (metis fst_conv inj_onD snd_conv view_addr_def)
  have leaf: "t_leaf T' (view_addr x) = Some (snd (snd x))" if x: "x \<in> set (adjust k f xs)" for x
  proof -
    from x [unfolded adjust_def set_map] obtain y where
      y: "x = (if fst y = k then (fst y, fst (snd y), f (snd (snd y))) else y)" "y \<in> set xs" by (rule imageE)
    with assms(1) have ty: "t_leaf T (view_addr y) = Some (snd (snd y))" by (simp add: trie_repr_def)
    show ?thesis
    proof (cases "fst y = k")
      case True
      with eq [OF y(2)] y(1) show ?thesis by (simp add: T'_def view_defs)
    next
      case False
      with eq [OF y(2)] have "view_addr y \<noteq> l" by (metis fst_conv)
      with False y(1) ty show ?thesis by (simp add: T'_def)
    qed
  qed
  have "trie_repr hs ts T' (adjust k f xs)"
    unfolding trie_repr_def adjust_simps using leaf assms(1) by (simp add: trie_repr_def T'_def)
  moreover have "touch_leaf dir depth l T = Some T'"
    by (simp add: touch_leaf_def trie_repr_leaf [OF assms] T'_def f_def split: derivation_direction.split)
  ultimately show ?thesis by (simp add: f_def T'_def)
qed

subsection \<open>Inserting and looking up\<close>

lemma wf_root_stack:
  assumes "wf_root hs ts root" "ts \<noteq> []"
  shows "\<not> is_leaf root"
proof -
  obtain t ts' where "ts = t # ts'" using assms(2) by (cases ts) auto
  with wf_root_at(1) [OF assms(1), of "[]" "[]" t ts' root] level_ok_not_leaf show ?thesis by (auto intro: at_root)
qed

lemma descend_root:
  assumes "wf_root hs ts root" "hashes_ok hs" "ts = map fst stk" "stk \<noteq> []" "tuple_key fuel H stk = Some k"
  shows "found_at ts root k (descend hs H root [] stk) \<or> missing_at H ts root fuel k (descend hs H root [] stk)"
proof -
  have "at_node ts root [] [] (map fst stk) root" using at_root [of ts root] assms(3) by simp
  from descend_ok [OF assms(1,2) this assms(5), of fuel] assms(4) show ?thesis by simp
qed

text \<open>What \<^verbatim>\<open>check_insert\<close> finds when the stack is not empty.\<close>

lemma check_insert_found:
  assumes "trie_repr hs ts T xs" "found_at ts (t_root T) k (descend hs H (t_root T) [] stk)" "stk \<noteq> []"
  shows "\<exists>pos lf l' T'. check_insert fuel hs H l new dir depth stk T = Some (True, Some pos, T') \<and> (k, l', lf) \<in> set xs \<and>
    get_leaf pos T' = Some l' \<and> t_refs T' = t_refs T \<and> t_freed T' = t_freed T \<and>
    trie_repr hs ts T' (adjust k (case dir of POSITIVE_DERIVATION \<Rightarrow> leaf_add_new depth 1 | NEGATIVE_DERIVATION \<Rightarrow> leaf_sub depth 1) xs)"
proof -
  from assms(2) obtain pos l' m where f: "descend hs H (t_root T) [] stk = Some (Reached pos l')"
    "at_node ts (t_root T) pos k [] m" "tn_child m = TLeaf l'" by (auto simp: found_at_def)
  from found_entry [OF f(2,3)] trie_repr_entry [OF assms(1)] obtain lf where x: "(k, l', lf) \<in> set xs" by auto
  from touch_leaf_repr [OF assms(1) x, of dir depth] obtain T' where T': "touch_leaf dir depth l' T = Some T'"
    "t_root T' = t_root T" "t_refs T' = t_refs T" "t_freed T' = t_freed T"
    "trie_repr hs ts T' (adjust k (case dir of POSITIVE_DERIVATION \<Rightarrow> leaf_add_new depth 1 | NEGATIVE_DERIVATION \<Rightarrow> leaf_sub depth 1) xs)"
    by blast
  have "get_leaf pos T' = Some l'" using at_node_pos [OF f(2)] f(3) by (simp add: get_leaf_def T'(2))
  with f(1) T' x assms(3) show ?thesis by (simp add: check_insert_def) blast
qed

lemma check_insert_missing_negative:
  "missing_at H ts (t_root T) fuel k (descend hs H (t_root T) [] stk) \<Longrightarrow> stk \<noteq> [] \<Longrightarrow>
   check_insert n hs H l new NEGATIVE_DERIVATION depth stk T = Some (False, None, T)"
  by (auto simp: missing_at_def check_insert_def)

lemma check_insert_missing:
  assumes "trie_repr hs ts T xs" "hashes_ok hs" "missing_at H ts (t_root T) fuel k (descend hs H (t_root T) [] stk)" "stk \<noteq> []"
    "l \<noteq> 0" "l \<notin> set (map view_addr xs)"
  shows "\<exists>pos T'. check_insert fuel hs H l new POSITIVE_DERIVATION depth stk T = Some (False, Some pos, T') \<and>
      get_leaf pos T' = Some l \<and> t_refs T' = t_refs T \<and> t_freed T' = t_freed T \<and> trie_repr hs ts T' (xs @ [(k, l, new)])"
  using assms(3) unfolding missing_at_def
proof (elim exE conjE)
  note r = assms(1) [unfolded trie_repr_def]
  fix pos m t f stk1 c pre stk2 k'
  assume d: "descend hs H (t_root T) [] stk = Some (Missing pos m t f stk1 c)" "at_node ts (t_root T) pos pre (t # map fst stk1) m"
    "k = pre @ symbol t f # k'" "key_ok t f" "push_parts H t f stk1 = Some stk2" "tuple_key fuel H stk2 = Some k'"
    "symbol t f \<notin> symbols t m" "c \<le> length (children (tn_child m))"
  from insert_branch_ok [OF _ assms(2) d(2,4,5,6,7,8), of l] r obtain root' pos' m' where
    i: "insert_branch fuel hs H l (t_root T) pos m t f stk1 c = Some (root', pos')" "wf_node hs ts root'"
      "node_at pos' root' = Some m'" "tn_child m' = TLeaf l"
      "mset (entries ts root') = add_mset (k, l) (mset (entries ts (t_root T)))" using d(3) by blast
  define T' where "T' = T\<lparr>t_root := root', t_list := append_leaf l (t_list T), t_leaf := (t_leaf T)(l \<mapsto> new)\<rparr>"
  have "trie_repr hs ts T' (xs @ [(k, l, new)])"
    using r i(2,5) append_leaf_repr [of "t_list T" "map view_addr xs" l] assms(5,6)
    unfolding trie_repr_def by (auto simp: T'_def wf_root_def view_defs)
  moreover have "get_leaf pos' T' = Some l" by (simp add: get_leaf_def T'_def i(3,4))
  ultimately show ?thesis using d(1) i(1) assms(4) by (auto simp: check_insert_def T'_def)
qed

text \<open>A predicate without fields has the root as its only leaf.\<close>

lemma check_insert_no_fields:
  assumes "trie_repr hs [] T xs"
  shows "xs = [] \<and> (l \<noteq> 0 \<longrightarrow>
      (\<exists>T'. check_insert fuel hs H l new POSITIVE_DERIVATION depth [] T = Some (False, Some [], T') \<and>
        get_leaf [] T' = Some l \<and> t_refs T' = t_refs T \<and> t_freed T' = t_freed T \<and> trie_repr hs [] T' [([], l, new)]))
    \<or> (\<exists>l' lf T'. xs = [([], l', lf)] \<and> check_insert fuel hs H l new dir depth [] T = Some (True, Some [], T') \<and>
        get_leaf [] T' = Some l' \<and> t_refs T' = t_refs T \<and> t_freed T' = t_freed T \<and>
        trie_repr hs [] T' (adjust [] (case dir of POSITIVE_DERIVATION \<Rightarrow> leaf_add_new depth 1 | NEGATIVE_DERIVATION \<Rightarrow> leaf_sub depth 1) xs))"
proof -
  note r = assms(1) [unfolded trie_repr_def wf_root_def wf_node_Nil]
  show ?thesis
  proof (cases "is_leaf (t_root T)")
    case True
    then obtain d h l' where n: "t_root T = TN d h (TLeaf l')" by (cases "t_root T"; cases "tn_child (t_root T)") (auto simp: is_leaf_def)
    with r have "mset (map view_entry xs) = {#([], l')#}" by simp
    then have "map view_entry xs = [([], l')]" by (metis mset_single_iff_right)
    then obtain lf where x: "xs = [([], l', lf)]" by (auto simp: view_entry_def)
    from touch_leaf_repr [OF assms(1), of "[]" l' lf dir depth] x obtain T' where
      "touch_leaf dir depth l' T = Some T'" "t_root T' = t_root T" "t_refs T' = t_refs T" "t_freed T' = t_freed T"
      "trie_repr hs [] T' (adjust [] (case dir of POSITIVE_DERIVATION \<Rightarrow> leaf_add_new depth 1 | NEGATIVE_DERIVATION \<Rightarrow> leaf_sub depth 1) xs)"
      by auto
    with x n show ?thesis by (intro disjI2) (simp add: check_insert_def get_leaf_def)
  next
    case False
    with r have e: "tn_child (t_root T) = TNodes []" "\<not> tn_hashed (t_root T)" by auto
    with r entries_empty [OF e(1)] have "xs = []" by auto
    moreover have "l \<noteq> 0 \<longrightarrow> trie_repr hs [] (T\<lparr>t_root := set_child (TLeaf l) (t_root T), t_list := single_leaf l (t_list T), t_leaf := (t_leaf T)(l \<mapsto> new)\<rparr>) [([], l, new)]"
      using single_leaf_repr [of l] e(2)
      by (simp add: trie_repr_def wf_root_def set_child_def view_defs)
    ultimately show ?thesis
      using e by (intro disjI1) (simp add: check_insert_def get_leaf_def set_child_def)
  qed
qed

lemma check_insert_positive:
  assumes "hashes_ok hs" "trie_repr hs (map fst stk) T xs" "tuple_key fuel H stk = Some k" "l \<noteq> 0" "l \<notin> set (map view_addr xs)"
  shows "\<exists>pos l' T'. check_insert fuel hs H l new POSITIVE_DERIVATION depth stk T = Some (k \<in> set (map fst xs), Some pos, T') \<and>
    get_leaf pos T' = Some l' \<and> t_refs T' = t_refs T \<and> t_freed T' = t_freed T \<and>
    trie_repr hs (map fst stk) T' (if k \<in> set (map fst xs) then adjust k (leaf_add_new depth 1) xs else xs @ [(k, l, new)])"
proof (cases "stk = []")
  case True
  with assms(3) have "k = []" by simp
  with True check_insert_no_fields [of hs T xs l fuel H new depth POSITIVE_DERIVATION] assms(2,4) show ?thesis
    by auto
next
  case False
  have root: "wf_root hs (map fst stk) (t_root T)" using assms(2) by (simp add: trie_repr_def)
  from descend_root [OF root assms(1) refl False assms(3)] show ?thesis
  proof
    assume f: "found_at (map fst stk) (t_root T) k (descend hs H (t_root T) [] stk)"
    from check_insert_found [OF assms(2) f False, of fuel l new POSITIVE_DERIVATION depth] show ?thesis by force
  next
    assume m: "missing_at H (map fst stk) (t_root T) fuel k (descend hs H (t_root T) [] stk)"
    from missing_no_entry [OF root m] trie_repr_keys [OF assms(2)] have "k \<notin> set (map fst xs)" by simp
    with check_insert_missing [OF assms(2,1) m False assms(4,5), of new depth] show ?thesis by auto
  qed
qed

lemma check_insert_negative:
  assumes "hashes_ok hs" "trie_repr hs (map fst stk) T xs" "tuple_key fuel H stk = Some k"
  shows "(k, l', lf) \<in> set xs \<Longrightarrow>
      \<exists>pos T'. check_insert n hs H l new NEGATIVE_DERIVATION depth stk T = Some (True, Some pos, T') \<and>
        get_leaf pos T' = Some l' \<and> t_refs T' = t_refs T \<and> t_freed T' = t_freed T \<and>
        trie_repr hs (map fst stk) T' (adjust k (leaf_sub depth 1) xs)"
    and "k \<notin> set (map fst xs) \<Longrightarrow> stk \<noteq> [] \<Longrightarrow>
      check_insert n hs H l new NEGATIVE_DERIVATION depth stk T = Some (False, None, T)"
proof -
  have root: "wf_root hs (map fst stk) (t_root T)" using assms(2) by (simp add: trie_repr_def)
  have uniq: "l1 = l'" if "(k, l1, lf1) \<in> set xs" "(k, l', lf) \<in> set xs" for l1 lf1
    using trie_repr_distinct(1) [OF assms(2)] that unfolding distinct_map by (metis fst_conv inj_onD snd_conv)
  note cases = descend_root [OF root assms(1) refl _ assms(3)]
  note missing = missing_no_entry [OF root, of H fuel k, unfolded trie_repr_keys [OF assms(2)]]
  show "\<exists>pos T'. check_insert n hs H l new NEGATIVE_DERIVATION depth stk T = Some (True, Some pos, T') \<and>
        get_leaf pos T' = Some l' \<and> t_refs T' = t_refs T \<and> t_freed T' = t_freed T \<and>
        trie_repr hs (map fst stk) T' (adjust k (leaf_sub depth 1) xs)" if in_xs: "(k, l', lf) \<in> set xs"
  proof (cases "stk = []")
    case True
    with check_insert_no_fields [of hs T xs l n H new depth NEGATIVE_DERIVATION] assms(2,3) in_xs show ?thesis by auto
  next
    case False
    have "k \<in> set (map fst xs)" using in_xs by force
    with cases [OF False] missing have f: "found_at (map fst stk) (t_root T) k (descend hs H (t_root T) [] stk)" by blast
    from check_insert_found [OF assms(2) f False, of n l new NEGATIVE_DERIVATION depth] uniq in_xs show ?thesis by fastforce
  qed
  show "check_insert n hs H l new NEGATIVE_DERIVATION depth stk T = Some (False, None, T)"
    if "k \<notin> set (map fst xs)" "stk \<noteq> []"
  proof -
    have "\<not> found_at (map fst stk) (t_root T) k (descend hs H (t_root T) [] stk)"
      using that(1) found_entry trie_repr_keys [OF assms(2)] unfolding found_at_def by (metis fst_conv image_eqI)
    with cases [OF that(2)] check_insert_missing_negative that(2) show ?thesis by blast
  qed
qed

subsection \<open>Removing a leaf\<close>

lemma mset_view_remove: "mset (map view_entry (ys @ (k, l, lf) # zs)) = add_mset (k, l) (mset (map view_entry (ys @ zs)))"
  by (simp add: view_entry_def)

lemma inner_delete_repr:
  assumes "trie_repr hs ts T (ys @ (k, l, lf) # zs)" "leaf_get_count lf = 0"
  shows "\<exists>T'. inner_delete_by_leaf l 0 0 T = Some T' \<and> trie_repr hs ts T' (ys @ zs) \<and> t_refs T' = t_refs T \<and>
    t_freed T' = t_freed T @ [lf]"
proof -
  note r = assms(1) [unfolded trie_repr_def mset_view_remove]
  have kl: "(k, l) \<in> set (entries ts (t_root T))" using trie_repr_entry [OF assms(1)] by auto
  then have wf: "wf_node hs ts (t_root T)" using r entries_empty [of "t_root T" ts] by (auto simp: wf_root_def)
  from leaf_pos_ok [OF wf kl trie_repr_distinct(3) [OF assms(1)]] obtain pos m where
    m: "leaf_pos l (t_root T) = Some pos" "at_node ts (t_root T) pos k [] m" "tn_child m = TLeaf l" .
  have em: "entries [] m = [([], l)]" using m(3) by (cases m) simp
  from delete_path_ok [OF wf m(2), of "set_child (TNodes []) m"] obtain root' where
    d: "delete_path pos (put_at pos (set_child (TNodes []) m) (t_root T)) = Some root'" "wf_root hs ts root'"
      "mset (entries ts (t_root T)) = add_mset (k, l) (mset (entries ts root'))"
    by (auto simp: em set_child_def add_prefix_def)
  define T' where "T' = T\<lparr>t_root := root', t_list := unlink_leaf l (t_list T),
    t_leaf := (t_leaf T)(l := None), t_freed := t_freed T @ [lf]\<rparr>"
  have "t_leaf T l = Some lf" using trie_repr_leaf [OF assms(1)] by auto
  then have "inner_delete_by_leaf l 0 0 T = Some T'"
    using m(1) at_node_pos [OF m(2)] d(1) assms(2) by (simp add: inner_delete_by_leaf_def leaf_to_delete_def T'_def)
  moreover have "trie_repr hs ts T' (ys @ zs)"
    using r d(2,3) unlink_leaf_repr [of "t_list T" "map view_addr ys" l "map view_addr zs"] trie_repr_distinct(2) [OF assms(1)]
    unfolding trie_repr_def by (auto simp: T'_def view_addr_def)
  ultimately show ?thesis by (simp add: T'_def)
qed

subsection \<open>Removing a branch\<close>

fun delete_leaves :: "ptr_val list \<Rightarrow> trie \<Rightarrow> (nat \<times> trie) option" where
  "delete_leaves [] T = Some (0, T)"
| "delete_leaves (l # ls) T = do { (c, T) \<leftarrow> delete_leaf l T; (c', T) \<leftarrow> delete_leaves ls T; Some (c + c', T) }"

lemma delete_leaves_append:
  "delete_leaves (xs @ ys) T = do { (c, T) \<leftarrow> delete_leaves xs T; (c', T) \<leftarrow> delete_leaves ys T; Some (c + c', T) }"
  by (induction xs arbitrary: T) (auto split: Option.bind_split prod.splits simp: add.assoc)

lemma delete_leaves_one: "delete_leaves [l] T = delete_leaf l T"
  by (simp split: Option.bind_split prod.splits)

lemma map_snd_child_entries: "map snd (child_entries t ts m) = map snd (entries (parts t (tn_data m) @ ts) m)"
  by (simp add: child_entries_def add_sym_def)

lemma delete_branches_leaves:
  assumes "\<And>m T. m \<in> set ns \<Longrightarrow> delete_branch m T = delete_leaves (map snd (child_entries t ts m)) T"
  shows "delete_branches ns T = delete_leaves (map snd (concat (map (child_entries t ts) ns))) T"
  using assms
proof (induction ns arbitrary: T)
  case (Cons n ns)
  then show ?case by (simp add: delete_leaves_append)
qed simp

lemma delete_buckets_leaves:
  assumes "\<And>m T. m \<in> set (concat bs) \<Longrightarrow> delete_branch m T = delete_leaves (map snd (child_entries t ts m)) T"
  shows "delete_buckets bs T = delete_leaves (map snd (concat (map (child_entries t ts) (concat bs)))) T"
  using assms
proof (induction bs arbitrary: T)
  case (Cons b bs)
  have "delete_branches b T = delete_leaves (map snd (concat (map (child_entries t ts) b))) T" for T
    using Cons.prems by (intro delete_branches_leaves) auto
  with Cons show ?case by (simp add: delete_leaves_append)
qed simp

lemma delete_branch_leaves:
  "wf_node hs ts n \<Longrightarrow> delete_branch n T = delete_leaves (map snd (entries ts n)) T"
proof (induction "size n" arbitrary: n ts T rule: less_induct)
  case less
  obtain d h c where n: "n = TN d h c" by (cases n)
  show ?case
  proof (cases ts)
    case Nil
    with less.prems n obtain l where "c = TLeaf l" by (cases c) auto
    with n show ?thesis by (simp add: delete_leaves_one del: delete_leaves.simps)
  next
    case (Cons t ts')
    note wf = less.prems [unfolded Cons wf_node_Cons]
    have ih: "delete_branch m T = delete_leaves (map snd (child_entries t ts' m)) T" if "m \<in> set (children (tn_child n))" for m T
    proof -
      from mem_child_at [OF that] obtain p where "child_at p n = Some m" .
      with less.hyps [OF child_at_size] wf that show ?thesis by (simp add: map_snd_child_entries)
    qed
    have e: "entries ts n = concat (map (child_entries t ts') (children (tn_child n)))"
      using wf level_ok_not_leaf by (metis Cons entries_children)
    show ?thesis
    proof (cases c)
      case (TNodes ns)
      then show ?thesis using delete_branches_leaves [of ns t ts' T] ih unfolding e by (simp add: n)
    next
      case (THash ty bs tot)
      then show ?thesis using delete_buckets_leaves [of bs t ts' T] ih unfolding e by (simp add: n)
    qed (use wf n in \<open>simp add: level_ok_def\<close>)
  qed
qed

definition leaves_ok :: "trie \<Rightarrow> trie_view \<Rightarrow> bool" where
  "leaves_ok T xs \<longleftrightarrow> leaves_repr (t_list T) (map view_addr xs) \<and> (\<forall>x \<in> set xs. t_leaf T (view_addr x) = Some (snd (snd x)))"

lemma delete_leaves_ok:
  assumes "leaves_ok T xs" "distinct ls" "set ls \<subseteq> set (map view_addr xs)"
  shows "\<exists>c T'. delete_leaves ls T = Some (c, T') \<and> leaves_ok T' (filter (\<lambda>x. view_addr x \<notin> set ls) xs) \<and>
    t_root T' = t_root T \<and> t_refs T' = t_refs T \<and> view_total xs = view_total (filter (\<lambda>x. view_addr x \<notin> set ls) xs) + c"
  using assms
proof (induction ls arbitrary: T xs)
  case (Cons l ls)
  from Cons.prems(3) obtain x where "x \<in> set xs" "view_addr x = l" by auto
  then obtain ys k lf zs where xs: "xs = ys @ (k, l, lf) # zs"
    by (metis prod.collapse split_list view_addr_def)
  note ok = Cons.prems(1) [unfolded leaves_ok_def]
  have dist: "distinct (map view_addr xs)" using ok by (simp add: leaves_repr_def)
  have notl: "view_addr y \<noteq> l" if "y \<in> set (ys @ zs)" for y
    using dist that by (auto simp: xs view_addr_def)
  define T1 where "T1 = T\<lparr>t_list := unlink_leaf l (t_list T), t_leaf := (t_leaf T)(l := None), t_freed := t_freed T @ [lf]\<rparr>"
  have "t_leaf T l = Some lf" using ok by (simp add: xs view_addr_def)
  then have one: "delete_leaf l T = Some (leaf_get_count lf, T1)" by (simp add: delete_leaf_def T1_def)
  have "leaves_ok T1 (ys @ zs)"
    using ok unlink_leaf_repr [of "t_list T" "map view_addr ys" l "map view_addr zs"] notl
    by (auto simp: leaves_ok_def T1_def xs view_addr_def [of "(k, l, lf)"])
  moreover have "set ls \<subseteq> set (map view_addr (ys @ zs))" using Cons.prems(2,3) by (auto simp: xs view_addr_def)
  ultimately obtain c T' where
    r: "delete_leaves ls T1 = Some (c, T')" "leaves_ok T' (filter (\<lambda>x. view_addr x \<notin> set ls) (ys @ zs))"
      "t_root T' = t_root T1" "t_refs T' = t_refs T1" "view_total (ys @ zs) = view_total (filter (\<lambda>x. view_addr x \<notin> set ls) (ys @ zs)) + c"
    using Cons.IH [of T1 "ys @ zs"] Cons.prems(2) by auto
  have f: "filter (\<lambda>x. view_addr x \<notin> set (l # ls)) xs = filter (\<lambda>x. view_addr x \<notin> set ls) (ys @ zs)"
    using notl by (simp add: xs view_addr_def [of "(k, l, lf)"] cong: filter_cong)
  have "view_total xs = view_total (ys @ zs) + leaf_get_count lf" by (simp add: xs view_total_def)
  with one r show ?case unfolding f by (simp add: T1_def)
qed simp

subsection \<open>Deleting by an index\<close>

text \<open>An index: patterns for the first fields that are exact integers, floats or nodes.\<close>

fun index_ok :: "vtype list \<Rightarrow> match_field list \<Rightarrow> bool" where
  "index_ok (t # ts) (MF e ty v # ms) =
     (\<not> e \<or> ty = t \<and> t \<in> {BaseT FIELD_INT, BaseT FIELD_FLOAT, BaseT FIELD_NODE} \<and>
      (case v of Plain f \<Rightarrow> key_ok t f | LM _ _ \<Rightarrow> False) \<and> index_ok ts ms)"
| "index_ok ts ms = (ms = [])"

fun index_key :: "match_field list \<Rightarrow> int list" where
  "index_key [] = []"
| "index_key (MF e ty v # ms) =
     (if e then (case v of Plain f \<Rightarrow> symbol ty f | LM _ _ \<Rightarrow> 0) # index_key ms else [])"

lemma get_by_match:
  assumes "level_ok hs t n" "live n" "hashes_ok hs" "key_ok t f" "t \<in> {BaseT FIELD_INT, BaseT FIELD_FLOAT, BaseT FIELD_NODE}"
  shows "(\<exists>p m. get_by hs t f n = Some (Some p) \<and> child_at p n = Some m \<and> symbol t (tn_data m) = symbol t f)
    \<or> get_by hs t f n = Some None \<and> symbol t f \<notin> symbols t n"
proof -
  have "push_parts H t f [] = Some []" for H using assms(5) by (auto simp: push_parts_def)
  note m = trie_match_ok [OF assms(1-4) this]
  have "get_by hs t f n = map_option fst (trie_match hs H n t f [])" for H
    using assms(1,5) by (auto simp: get_by_def trie_match_def level_ok_def push_parts_def split: trie_child.splits Option.bind_split option.splits)
  with m show ?thesis by (metis fst_conv option.simps(9))
qed

lemma index_pos_ok:
  assumes "wf_root hs ts root" "hashes_ok hs" "at_node ts root pos pre ts' n" "index_ok ts' ms"
  shows "(\<exists>pos' n' ts''. index_pos hs n pos ms = Some (Some pos') \<and> at_node ts root pos' (pre @ index_key ms) ts'' n')
    \<or> index_pos hs n pos ms = Some None \<and> (\<forall>k l. (pre @ index_key ms @ k, l) \<notin> set (entries ts root))"
  using assms(3,4)
proof (induction ts' ms arbitrary: pos pre n rule: index_ok.induct)
  case (1 t ts' e ty v ms)
  show ?case
  proof (cases e)
    case False
    with 1(2) show ?thesis by auto
  next
    case True
    with 1(3) obtain f where f: "ty = t" "v = Plain f" "t \<in> {BaseT FIELD_INT, BaseT FIELD_FLOAT, BaseT FIELD_NODE}"
      "key_ok t f" "index_ok ts' ms" by (auto split: match_val.splits)
    note n = wf_root_at [OF assms(1) 1(2)]
    define g where "g = (if t = BaseT FIELD_INT then set_field_int 0 (field_int f) else f)"
    have g: "key_ok t g" "symbol t g = symbol t f" using f(3,4) by (auto simp: g_def)
    have step: "index_pos hs n pos (MF e ty v # ms) =
        do { p \<leftarrow> get_by hs t g n;
             (case p of None \<Rightarrow> Some None
              | Some p \<Rightarrow> (case child_at p n of None \<Rightarrow> None | Some m \<Rightarrow> index_pos hs m (p # pos) ms)) }"
      using f(1-3) True by (auto simp: g_def get_by_int_def get_by_float_def get_by_node_def whole_field_defs)
    from get_by_match [OF n(1,2) assms(2) g(1) f(3)] show ?thesis
    proof (elim disjE exE conjE)
      fix p m
      assume m: "get_by hs t g n = Some (Some p)" "child_at p n = Some m" "symbol t (tn_data m) = symbol t g"
      have "parts t (tn_data m) = []" using f(3) by auto
      with at_child [OF 1(2) m(2)] m(3) g(2) have "at_node ts root (p # pos) (pre @ [symbol t f]) ts' m" by simp
      from 1(1) [OF this f(5)] True f(1,2) m(1,2) show ?thesis unfolding step by simp
    next
      assume m: "get_by hs t g n = Some None" "symbol t g \<notin> symbols t n"
      have "(pre @ index_key (MF e ty v # ms) @ k, l) \<notin> set (entries ts root)" for k l
      proof
        assume "(pre @ index_key (MF e ty v # ms) @ k, l) \<in> set (entries ts root)"
        from entries_below [OF 1(2) assms(1) this] True f(1,2)
        have "(symbol t f # index_key ms @ k, l) \<in> set (entries (t # ts') n)" by simp
        from entries_symbols [OF n(1) this] m(2) g(2) show False by (metis (mono_tags, lifting) image_eqI symbols_def)
      qed
      with m(1) show ?thesis unfolding step by simp
    qed
  qed
qed auto

definition has_prefix :: "int list \<Rightarrow> int list \<Rightarrow> bool" where
  "has_prefix pre k \<longleftrightarrow> take (length pre) k = pre"

lemma has_prefix_iff: "has_prefix pre k \<longleftrightarrow> (\<exists>k'. k = pre @ k')"
  by (metis append_eq_conv_conj append_take_drop_id has_prefix_def)

text \<open>The entries below a position are those with its symbols as a prefix.\<close>

lemma delete_below:
  assumes "wf_node hs ts root" "at_node ts root pos pre ts' n" "distinct (map fst (entries ts root))"
    "mset (entries ts root) = mset (entries ts root') + image_mset (add_prefix pre) (mset (entries ts' n))"
  shows "mset (entries ts root') = filter_mset (\<lambda>e. \<not> has_prefix pre (fst e)) (mset (entries ts root))"
proof -
  have "\<not> has_prefix pre (fst e)" if e: "e \<in> set (entries ts root')" for e
  proof
    assume "has_prefix pre (fst e)"
    then obtain k where k: "fst e = pre @ k" by (auto simp: has_prefix_iff)
    have "e \<in># mset (entries ts root)" using e by (simp add: assms(4))
    then have "(pre @ k, snd e) \<in> set (entries ts root)" by (simp flip: k)
    from entries_below [OF assms(2) _ this, of hs] assms(1) have "(k, snd e) \<in> set (entries ts' n)" by (simp add: wf_root_def)
    moreover have "e = add_prefix pre (k, snd e)" using k by (simp add: add_prefix_def prod_eq_iff)
    ultimately have "e \<in># image_mset (add_prefix pre) (mset (entries ts' n))" by (metis image_eqI set_image_mset set_mset_mset)
    then have "1 \<le> count (image_mset (add_prefix pre) (mset (entries ts' n))) e" by (simp only: count_greater_eq_one_iff)
    moreover have "1 \<le> count (mset (entries ts root')) e" using e by (simp only: count_greater_eq_one_iff set_mset_mset)
    ultimately have "2 \<le> count (mset (entries ts root)) e" by (simp only: assms(4) count_union)
    moreover have "count (mset (entries ts root)) e \<le> 1"
    proof -
      have "distinct (entries ts root)" using assms(3) unfolding distinct_map by simp
      then have "count (mset (entries ts root)) e = (if e \<in> set (entries ts root) then 1 else 0)"
        unfolding distinct_count_atmost_1 by blast
      then show ?thesis by simp
    qed
    ultimately show False by simp
  qed
  moreover have "has_prefix pre (fst e)" if "e \<in># image_mset (add_prefix pre) (mset (entries ts' n))" for e
    using that by (auto simp: add_prefix_def has_prefix_iff)
  ultimately have "filter_mset (\<lambda>e. \<not> has_prefix pre (fst e)) (mset (entries ts root')) = filter_mset (\<lambda>e. True) (mset (entries ts root'))"
    "filter_mset (\<lambda>e. \<not> has_prefix pre (fst e)) (image_mset (add_prefix pre) (mset (entries ts' n))) = {#}"
    by (auto simp: filter_mset_eq_conv intro: filter_mset_cong)
  then show ?thesis unfolding assms(4) by simp
qed

lemma delete_by_index_repr:
  assumes "hashes_ok hs" "trie_repr hs ts T xs" "index_ok ts ms" "t_refs T = view_total xs"
  defines "ys \<equiv> filter (\<lambda>x. \<not> has_prefix (index_key ms) (fst x)) xs"
  shows "\<exists>T'. delete_by_index hs ms T = Some T' \<and> trie_repr hs ts T' ys \<and> t_refs T' = view_total ys"
proof -
  note r = assms(2) [unfolded trie_repr_def]
  have root: "wf_root hs ts (t_root T)" using r by simp
  have "at_node ts (t_root T) [] [] ts (t_root T)" by (rule at_root)
  from index_pos_ok [OF root assms(1) this assms(3)] show ?thesis
  proof (elim disjE exE conjE)
    assume none: "index_pos hs (t_root T) [] ms = Some None" "\<forall>k l. ([] @ index_key ms @ k, l) \<notin> set (entries ts (t_root T))"
    have "ys = xs"
      unfolding ys_def filter_id_conv
    proof (intro ballI notI)
      fix x assume x: "x \<in> set xs" "has_prefix (index_key ms) (fst x)"
      then obtain k where "fst x = index_key ms @ k" by (auto simp: has_prefix_iff)
      with x(1) trie_repr_entry [OF assms(2), of "fst x" "view_addr x"] none(2) show False
        by (metis append_Nil prod.collapse view_addr_def)
    qed
    with none(1) assms(2,4) show ?thesis by (simp add: delete_by_index_def)
  next
    fix pos n ts'
    assume p: "index_pos hs (t_root T) [] ms = Some (Some pos)" "at_node ts (t_root T) pos ([] @ index_key ms) ts' n"
    show ?thesis
    proof (cases "tn_child (t_root T) = TNodes []")
      case True
      then have e: "pos = []" "n = t_root T" "index_key ms = []" using at_node_empty [OF p(2)] by auto
      have h: "\<not> tn_hashed (t_root T)"
        using root True by (cases "t_root T"; cases ts) (auto simp: wf_root_def)
      from r True have "xs = []" using entries_empty by auto
      moreover have "delete_branch n T = Some (0, T)" using True e(2) by (cases "t_root T") simp
      moreover have "delete_path [] (put_at [] (set_child (TNodes []) n) (t_root T)) = Some (t_root T)"
        using True h e(2) by (cases "t_root T") (simp add: set_child_def)
      ultimately show ?thesis
        using p(1) e assms(2,4) by (simp add: delete_by_index_def ys_def view_total_def)
    next
      case False
      then have wf: "wf_node hs ts (t_root T)" using root by (simp add: wf_root_def)
      have at: "at_node ts (t_root T) pos (index_key ms) ts' n" using p(2) by simp
      define ls where "ls = map snd (entries ts' n)"
      have below: "(k, l) \<in> set (entries ts' n) \<longleftrightarrow> (index_key ms @ k, l) \<in> set (entries ts (t_root T))" for k l
        using entries_above [OF at] entries_below [OF at root] by blast
      have uniq: "k1 = k2" if "(k1, l) \<in> set (entries ts (t_root T))" "(k2, l) \<in> set (entries ts (t_root T))" for k1 k2 l
        using trie_repr_distinct(3) [OF assms(2)] that unfolding distinct_map by (metis fst_conv inj_onD snd_conv)
      have pref: "view_addr x \<in> set ls \<longleftrightarrow> has_prefix (index_key ms) (fst x)" if "x \<in> set xs" for x
      proof -
        have x: "(fst x, view_addr x) \<in> set (entries ts (t_root T))"
          using trie_repr_entry [OF assms(2)] that by (metis prod.collapse view_addr_def)
        show ?thesis
        proof
          assume "view_addr x \<in> set ls"
          then obtain k where "(k, view_addr x) \<in> set (entries ts' n)" by (auto simp: ls_def)
          with below uniq [OF _ x] show "has_prefix (index_key ms) (fst x)" by (auto simp: has_prefix_iff)
        next
          assume "has_prefix (index_key ms) (fst x)"
          then obtain k where "fst x = index_key ms @ k" by (auto simp: has_prefix_iff)
          with below [of k "view_addr x"] x show "view_addr x \<in> set ls" by (force simp: ls_def)
        qed
      qed
      have "leaves_ok T xs" using r by (simp add: leaves_ok_def)
      moreover have "distinct ls"
      proof -
        have "inj_on snd (set (entries ts' n))"
        proof (rule inj_onI)
          fix a b assume ab: "a \<in> set (entries ts' n)" "b \<in> set (entries ts' n)" "snd a = snd b"
          have "(index_key ms @ fst a, snd a) \<in> set (entries ts (t_root T))" "(index_key ms @ fst b, snd a) \<in> set (entries ts (t_root T))"
            using below ab by (metis prod.collapse)+
          from uniq [OF this] ab(3) show "a = b" by (simp add: prod_eq_iff)
        qed
        with distinct_keys [OF wf_at_node [OF at wf]] show ?thesis by (simp add: ls_def distinct_map)
      qed
      moreover have "set ls \<subseteq> set (map view_addr xs)"
      proof
        fix l assume "l \<in> set ls"
        then obtain k where "(k, l) \<in> set (entries ts' n)" by (auto simp: ls_def)
        with below trie_repr_entry [OF assms(2)] obtain lf where "(index_key ms @ k, l, lf) \<in> set xs" by blast
        then show "l \<in> set (map view_addr xs)" by (force simp: view_addr_def)
      qed
      moreover have flt: "filter (\<lambda>x. view_addr x \<notin> set ls) xs = ys" unfolding ys_def using pref by (simp cong: filter_cong)
      ultimately obtain c T1 where
        d: "delete_leaves ls T = Some (c, T1)" "leaves_ok T1 ys" "t_root T1 = t_root T" "t_refs T1 = t_refs T" "view_total xs = view_total ys + c"
        using delete_leaves_ok [of T xs ls] by auto
      from delete_path_ok [OF wf at, of "set_child (TNodes []) n"] obtain root' where
        q: "delete_path pos (put_at pos (set_child (TNodes []) n) (t_root T)) = Some root'" "wf_root hs ts root'"
          "mset (entries ts (t_root T)) = mset (entries ts root') + image_mset (add_prefix (index_key ms)) (mset (entries ts' n))"
        by (auto simp: set_child_def)
      have "mset (entries ts root') = mset (map view_entry ys)"
        using delete_below [OF wf at distinct_keys [OF wf] q(3)] r
        by (simp add: ys_def view_entry_def filter_mset_image_mset flip: mset_filter)
      then have "trie_repr hs ts (T1\<lparr>t_root := root', t_refs := size_sub (t_refs T) c\<rparr>) ys"
        using d(2) q(2) by (simp add: trie_repr_def leaves_ok_def)
      moreover have "delete_branch n T = Some (c, T1)"
        using delete_branch_leaves [OF wf_at_node [OF at wf]] d(1) by (simp add: ls_def)
      ultimately show ?thesis
        using p(1) at_node_pos [OF at] q(1) d(3,4,5) assms(4) by (simp add: delete_by_index_def)
    qed
  qed
qed

subsection \<open>Facts\<close>

definition tuple_view :: "trie_view \<Rightarrow> bool" where
  "tuple_view xs \<longleftrightarrow> (\<forall>x \<in> set xs. case snd (snd x) of TupleLeaf tpl c ds \<Rightarrow> 0 < c | AggLeaf conf c \<Rightarrow> False)"

text \<open>What a trie of facts keeps between operations.\<close>

definition fact_trie :: "hashes \<Rightarrow> vtype list \<Rightarrow> trie \<Rightarrow> trie_view \<Rightarrow> bool" where
  "fact_trie hs ts T xs \<longleftrightarrow> trie_repr hs ts T xs \<and> tuple_view xs \<and> t_refs T = view_total xs"

definition view_insert :: "int list \<Rightarrow> ptr_val \<Rightarrow> ptr_val \<Rightarrow> bool \<Rightarrow> nat \<Rightarrow> trie_view \<Rightarrow> trie_view" where
  "view_insert k l tpl cycle depth xs =
     (if k \<in> set (map fst xs) then adjust k (leaf_add_new depth 1) xs
      else xs @ [(k, l, new_tuple_trie_leaf tpl cycle 1 depth)])"

lemma view_split:
  assumes "distinct (map fst xs)" "k \<in> set (map fst xs)"
  obtains ys l lf zs where "xs = ys @ (k, l, lf) # zs" "\<And>f. adjust k f xs = ys @ (k, l, f lf) # zs"
    "filter (\<lambda>x. fst x \<noteq> k) xs = ys @ zs"
proof -
  from assms(2) obtain x where "x \<in> set xs" "fst x = k" by auto
  then obtain ys l lf zs where xs: "xs = ys @ (k, l, lf) # zs" by (metis prod.collapse split_list)
  have "filter (\<lambda>x. fst x \<noteq> k) vs = vs" if "k \<notin> fst ` set vs" for vs :: trie_view
    using that by (auto simp: filter_id_conv)
  then have "filter (\<lambda>x. fst x \<noteq> k) xs = ys @ zs" using assms(1) by (simp add: xs)
  with that xs adjust_split [of ys k l lf zs] assms(1) show ?thesis by blast
qed

lemma new_fact_trie: "fact_trie hs ts new_trie []"
  unfolding fact_trie_def
  by (intro conjI new_trie_repr) (simp_all add: tuple_view_def view_total_def new_trie_def)

lemma insert_tuple_repr:
  assumes "hashes_ok hs" "fact_trie hs ts T xs" "length fs = length ts" "tuple_key fuel H (zip ts fs) = Some k"
    "l \<noteq> 0" "l \<notin> set (map view_addr xs)"
  shows "\<exists>T'. insert_tuple fuel hs H l tpl fs ts cycle depth T = Some (k \<notin> set (map fst xs), T') \<and>
    fact_trie hs ts T' (view_insert k l tpl cycle depth xs) \<and> t_freed T' = t_freed T"
proof -
  have ts: "map fst (zip ts fs) = ts" using assms(3) by simp
  define T0 where "T0 = T\<lparr>t_refs := t_refs T + 1\<rparr>"
  have T0: "trie_repr hs (map fst (zip ts fs)) T0 xs" using assms(2) by (simp add: fact_trie_def trie_repr_def T0_def ts)
  note T = assms(2) [unfolded fact_trie_def]
  from check_insert_positive [OF assms(1) T0 assms(4-6), of "new_tuple_trie_leaf tpl cycle 1 depth" depth, unfolded ts]
  obtain pos T' where c: "check_insert fuel hs H l (new_tuple_trie_leaf tpl cycle 1 depth) POSITIVE_DERIVATION depth (zip ts fs) T0 =
      Some (k \<in> set (map fst xs), Some pos, T')" "t_refs T' = t_refs T0" "t_freed T' = t_freed T0"
    "trie_repr hs ts T' (view_insert k l tpl cycle depth xs)" unfolding view_insert_def by blast
  have "tuple_view (view_insert k l tpl cycle depth xs) \<and> view_total (view_insert k l tpl cycle depth xs) = view_total xs + 1"
  proof (cases "k \<in> set (map fst xs)")
    case True
    from view_split [OF trie_repr_distinct(1) [OF T0] True] obtain ys l' lf zs where
      "xs = ys @ (k, l', lf) # zs" "\<And>f. adjust k f xs = ys @ (k, l', f lf) # zs" by metis
    with True T show ?thesis by (cases lf) (simp_all add: view_insert_def tuple_view_def view_total_def)
  next
    case False
    with T show ?thesis by (auto simp: view_insert_def tuple_view_def view_total_def new_tuple_trie_leaf_def)
  qed
  with c T show ?thesis by (simp add: insert_tuple_def fact_trie_def T0_def)
qed

lemma insert_tuple_refs:
  "insert_tuple fuel hs H l tpl fs ts cycle depth T = Some (b, T') \<Longrightarrow> t_refs T' = t_refs T + 1"
  by (auto simp: insert_tuple_def check_insert_def touch_leaf_def bind_eq_Some_conv
      split: if_splits trie_child.splits option.splits descent.splits)

lemma delete_tuple_absent:
  assumes "hashes_ok hs" "fact_trie hs ts T xs" "length fs = length ts" "tuple_key fuel H (zip ts fs) = Some k"
    "k \<notin> set (map fst xs)" "ts \<noteq> []"
  shows "\<exists>d. delete_tuple hs H fs ts depth T = Some (d, T) \<and> \<not> di_is_valid d"
proof -
  have "zip ts fs \<noteq> []" using assms(3,6) by (cases ts; cases fs) auto
  with check_insert_negative(2) [of hs "zip ts fs" T xs fuel H k] assms show ?thesis
    by (simp add: delete_tuple_def fact_trie_def di_is_valid_def)
qed

lemma delete_tuple_present:
  assumes "hashes_ok hs" "fact_trie hs ts T xs" "length fs = length ts" "tuple_key fuel H (zip ts fs) = Some k"
    "(k, l, TupleLeaf tpl c ds) \<in> set xs"
  shows "\<exists>d T1. delete_tuple hs H fs ts depth T = Some (d, T1) \<and> di_is_valid d \<and> (di_to_del d \<longleftrightarrow> c = 1) \<and>
    (if c = 1 then \<exists>T'. perform_delete d T1 = Some T' \<and> fact_trie hs ts T' (filter (\<lambda>x. fst x \<noteq> k) xs) \<and>
        t_freed T' = t_freed T @ [leaf_sub depth 1 (TupleLeaf tpl c ds)]
     else fact_trie hs ts T1 (adjust k (leaf_sub depth 1) xs) \<and> t_freed T1 = t_freed T)"
proof -
  have ts: "map fst (zip ts fs) = ts" using assms(3) by simp
  note T = assms(2) [unfolded fact_trie_def]
  have repr: "trie_repr hs (map fst (zip ts fs)) T xs" using T ts by simp
  have k: "k \<in> set (map fst xs)" using assms(5) by force
  from view_split [OF trie_repr_distinct(1) [OF repr] k] obtain ys l0 lf0 zs where
    xs: "xs = ys @ (k, l0, lf0) # zs" "\<And>f. adjust k f xs = ys @ (k, l0, f lf0) # zs"
      "filter (\<lambda>x. fst x \<noteq> k) xs = ys @ zs" by blast
  have "(k, l0, lf0) \<in> set xs" by (simp add: xs(1))
  with trie_repr_distinct(1) [OF repr] assms(5) have "(k, l0, lf0) = (k, l, TupleLeaf tpl c ds)"
    unfolding distinct_map by (metis fst_conv inj_onD)
  then have lf0: "l0 = l" "lf0 = TupleLeaf tpl c ds" by auto
  from check_insert_negative(1) [OF assms(1) repr assms(4,5), of 0 0 "AggLeaf 0 0" depth, unfolded ts] obtain pos T1 where
    c: "check_insert 0 hs H 0 (AggLeaf 0 0) NEGATIVE_DERIVATION depth (zip ts fs) T = Some (True, Some pos, T1)"
      "get_leaf pos T1 = Some l" "t_refs T1 = t_refs T" "t_freed T1 = t_freed T"
      "trie_repr hs ts T1 (ys @ (k, l, leaf_sub depth 1 (TupleLeaf tpl c ds)) # zs)"
    by (auto simp: xs(2) lf0)
  have leaf: "t_leaf T1 l = Some (leaf_sub depth 1 (TupleLeaf tpl c ds))" by (rule trie_repr_leaf [OF c(5), of k]) simp
  have l: "l \<noteq> 0" using c(5) by (auto simp: trie_repr_def leaves_repr_def view_addr_def dll_append)
  have pos: "0 < c" "tuple_view (ys @ zs)" using T by (auto simp: tuple_view_def xs(1) lf0)
  show ?thesis
  proof (cases "c = 1")
    case True
    have "trie_repr hs ts (T1\<lparr>t_refs := size_sub (t_refs T1) 1\<rparr>) (ys @ (k, l, leaf_sub depth 1 (TupleLeaf tpl c ds)) # zs)"
      using c(5) by (simp add: trie_repr_def)
    from inner_delete_repr [OF this] True obtain T' where
      T': "inner_delete_by_leaf l 0 0 (T1\<lparr>t_refs := size_sub (t_refs T1) 1\<rparr>) = Some T'" "trie_repr hs ts T' (ys @ zs)"
        "t_refs T' = size_sub (t_refs T1) 1" "t_freed T' = t_freed T @ [leaf_sub depth 1 (TupleLeaf tpl c ds)]"
      using c(4) by auto
    have "t_refs T' = view_total (ys @ zs)" using T T'(3) c(3) True by (simp add: xs(1) lf0 view_total_def)
    then have "fact_trie hs ts T' (ys @ zs)" using T'(2) pos(2) by (simp add: fact_trie_def)
    moreover define d where "d = \<lparr>di_leaf = l, di_to_del = True, di_node = Some pos, di_decrease = 1\<rparr>"
    have "delete_tuple hs H fs ts depth T = Some (d, T1)"
      using c(1,2) leaf True by (simp add: delete_tuple_def leaf_to_delete_def d_def)
    moreover have "perform_delete d T1 = Some T'"
      using c(2) T'(1) by (simp add: perform_delete_def commit_delete_def d_def)
    ultimately show ?thesis
      using True T'(4) l by (intro exI [of _ d] exI [of _ T1]) (simp add: d_def di_is_valid_def xs(3))
  next
    case False
    with pos(1) obtain m where m: "c = Suc (Suc m)" by (cases c; cases "c - 1") auto
    have "t_refs T1 = Suc (view_total (ys @ (k, l, leaf_sub depth 1 (TupleLeaf tpl c ds)) # zs))"
      using T c(3) by (simp add: xs(1) lf0 view_total_def m)
    moreover have "tuple_view (ys @ (k, l, leaf_sub depth 1 (TupleLeaf tpl c ds)) # zs)"
      using pos(2) by (auto simp: tuple_view_def m)
    ultimately show ?thesis
      using False c leaf l
      by (simp add: delete_tuple_def leaf_to_delete_def di_is_valid_def fact_trie_def xs(2) lf0 m trie_repr_def)
  qed
qed

text \<open>The check that \<^verbatim>\<open>sanity_check\<close> has in a comment: counting the references in the tree.\<close>

definition leaf_counts :: "trie \<Rightarrow> ptr_val \<Rightarrow> nat" where
  "leaf_counts T l = (case t_leaf T l of None \<Rightarrow> 0 | Some lf \<Rightarrow> leaf_get_count lf)"

lemma sum_list_concat: "sum_list (map f (concat xss)) = sum_list (map (\<lambda>xs. sum_list (map f xs)) xss)"
  for f :: "'a \<Rightarrow> nat"
  by (induction xss) simp_all

lemma count_refs_entries:
  "wf_node hs ts n \<Longrightarrow> count_refs counts n = sum_list (map (\<lambda>e. counts (snd e)) (entries ts n))"
proof (induction "size n" arbitrary: n ts rule: less_induct)
  case less
  obtain d h c where n: "n = TN d h c" by (cases n)
  show ?case
  proof (cases ts)
    case Nil
    with less.prems n show ?thesis by (cases c) auto
  next
    case (Cons t ts')
    note wf = less.prems [unfolded Cons wf_node_Cons]
    have ih: "count_refs counts m = sum_list (map (\<lambda>e. counts (snd e)) (child_entries t ts' m))"
      if "m \<in> set (children (tn_child n))" for m
    proof -
      from mem_child_at [OF that] obtain p where "child_at p n = Some m" .
      with less.hyps [OF child_at_size] wf that show ?thesis by (simp add: child_entries_def add_sym_def o_def)
    qed
    have "count_refs counts n = sum_list (map (count_refs counts) (children (tn_child n)))"
      using wf by (cases c) (auto simp: n level_ok_def sum_list_concat)
    also have "\<dots> = sum_list (map (\<lambda>m. sum_list (map (\<lambda>e. counts (snd e)) (child_entries t ts' m))) (children (tn_child n)))"
      using ih by (simp cong: map_cong)
    also have "\<dots> = sum_list (map (\<lambda>e. counts (snd e)) (entries ts n))"
      using wf level_ok_not_leaf [of hs t n] by (simp add: Cons entries_children sum_list_concat o_def)
    finally show ?thesis .
  qed
qed

lemma fact_trie_count_refs:
  assumes "fact_trie hs ts T xs"
  shows "count_refs (leaf_counts T) (t_root T) = t_refs T"
proof -
  note T = assms [unfolded fact_trie_def trie_repr_def]
  have "count_refs (leaf_counts T) (t_root T) = sum_list (map (\<lambda>e. leaf_counts T (snd e)) (entries ts (t_root T)))"
    using T count_refs_entries [of hs ts "t_root T"] entries_empty [of "t_root T" ts]
    by (cases "t_root T") (auto simp: wf_root_def)
  also have "\<dots> = sum_mset (image_mset (\<lambda>e. leaf_counts T (snd e)) (mset (entries ts (t_root T))))"
    by (simp flip: sum_mset_sum_list)
  also have "\<dots> = sum_mset (image_mset (\<lambda>x. leaf_counts T (view_addr x)) (mset xs))"
    using T by (simp add: multiset.map_comp o_def view_defs)
  also have "\<dots> = sum_mset (image_mset (\<lambda>x. leaf_get_count (snd (snd x))) (mset xs))"
    using T by (intro arg_cong [of _ _ sum_mset] image_mset_cong) (simp add: leaf_counts_def)
  also have "\<dots> = view_total xs" by (simp add: view_total_def flip: sum_mset_sum_list)
  finally show ?thesis using T by simp
qed

subsection \<open>The contract\<close>

text \<open>
  C4. A trie of persistent facts is a counted set of facts, listed in the order in which they first
  arrived. When the hash functions respect equality and the fact has a key (its fields are integers,
  floats that are numbers, nodes, or lists and structs of these), \<^verbatim>\<open>insert_tuple\<close> succeeds, whatever levels
  become hash tables or grow on the way; it reports whether the fact is new; a new fact is appended with
  count one and an old one only counts one more; the number of references stays the sum of the counts in the
  tree (the check that is commented out in \<^verbatim>\<open>sanity_check\<close>), nothing is destroyed, and walking the leaves visits the facts in order. The length of the key is enough fuel.
\<close>

theorem trie_insert_refines:
  assumes "hashes_ok hs" "fact_trie hs ts T xs" "length fs = length ts" "tuple_key fuel H (zip ts fs) = Some k"
    "l \<noteq> 0" "l \<notin> set (map view_addr xs)"
  shows "\<exists>T'. insert_tuple fuel hs H l tpl fs ts cycle depth T = Some (k \<notin> set (map fst xs), T') \<and>
    fact_trie hs ts T' (view_insert k l tpl cycle depth xs) \<and> t_freed T' = t_freed T \<and>
    t_refs T' = t_refs T + 1 \<and> count_refs (leaf_counts T') (t_root T') = t_refs T' \<and>
    leaf_walk (Suc (length xs)) (t_list T') = map view_addr (view_insert k l tpl cycle depth xs)"
proof -
  from insert_tuple_repr [OF assms] obtain T' where
    T': "insert_tuple fuel hs H l tpl fs ts cycle depth T = Some (k \<notin> set (map fst xs), T')"
      "fact_trie hs ts T' (view_insert k l tpl cycle depth xs)" "t_freed T' = t_freed T" by blast
  have len: "length (map view_addr (view_insert k l tpl cycle depth xs)) \<le> Suc (length xs)"
    by (simp add: view_insert_def adjust_def)
  have "leaf_walk (Suc (length xs)) (t_list T') = map view_addr (view_insert k l tpl cycle depth xs)"
    using T'(2) by (intro leaf_walk_repr len) (simp add: fact_trie_def trie_repr_def)
  moreover have "t_refs T' = t_refs T + 1"
    using T'(1) assms(2) insert_tuple_refs by (metis fact_trie_def)
  ultimately show ?thesis using T' fact_trie_count_refs [OF T'(2)] by blast
qed

definition zero_hashes :: hashes where
  "zero_hashes = \<lparr>hash_int = (\<lambda>i. unat i), hash_uint = (\<lambda>i. unat i), hash_float = (\<lambda>x. 0), hash_node = (\<lambda>n. unat n),
     hash_thread = (\<lambda>t. unat t)\<rparr>"

definition int_list_types :: "vtype list" where
  "int_list_types = [BaseT FIELD_INT, ListT (BaseT FIELD_INT)]"

text \<open>A heap with the list of one integer 7 at address 16.\<close>

definition one_cell :: heap where
  "one_cell = \<lparr>h_objs = [16 \<mapsto> (1, ConsO 0 7)], h_gc = {}\<rparr>"

lemma one_cell_key: "tuple_key 4 one_cell (zip int_list_types [5, 16]) = Some [5, 1, 7, 0]"
  by code_simp

lemma zero_hashes_ok: "hashes_ok zero_hashes"
  by (simp add: hashes_ok_def zero_hashes_def)

theorem trie_insert_refines_witness:
  "\<exists>T1 T2. insert_tuple 4 zero_hashes one_cell 32 64 [5, 16] int_list_types False 0 new_trie = Some (True, T1)
     \<and> insert_tuple 4 zero_hashes one_cell 48 80 [5, 16] int_list_types False 0 T1 = Some (False, T2) \<and> t_refs T2 = 2
     \<and> leaf_walk (Suc (Suc 0)) (t_list T2) = [32]"
proof -
  note ins = trie_insert_refines [OF zero_hashes_ok _ _ one_cell_key]
  have len: "length [5, 16 :: tuple_field] = length int_list_types" by (simp add: int_list_types_def)
  from ins [OF new_fact_trie len, of 32 64 False 0] obtain T1 where
    1: "insert_tuple 4 zero_hashes one_cell 32 64 [5, 16] int_list_types False 0 new_trie = Some (True, T1)"
      "fact_trie zero_hashes int_list_types T1 (view_insert [5, 1, 7, 0] 32 64 False 0 [])" "t_refs T1 = 1"
    by (auto simp: new_trie_def)
  from ins [OF 1(2) len, of 48 80 False 0] 1(1,3) show ?thesis
    by (auto simp: view_insert_def adjust_def view_addr_def)
qed

text \<open>
  C10. Deleting. A fact that is not stored is reported as invalid and nothing changes. A fact with a count
  above one only counts one less. For the last reference, \<^verbatim>\<open>delete_tuple\<close> asks for the deletion and
  \<^verbatim>\<open>perform_delete\<close> takes the fact out of the tree and the list, frees every node that led to it
  alone, and destroys its tuple. \<^verbatim>\<open>delete_by_index\<close> removes exactly the facts whose first fields
  have the given values. The number of references stays the sum of the counts in all cases.
\<close>

theorem trie_delete_refines:
  assumes "hashes_ok hs" "fact_trie hs ts T xs" "length fs = length ts" "tuple_key fuel H (zip ts fs) = Some k" "index_ok ts ms"
  shows "(k \<notin> set (map fst xs) \<and> ts \<noteq> [] \<longrightarrow> (\<exists>d. delete_tuple hs H fs ts depth T = Some (d, T) \<and> \<not> di_is_valid d))
    \<and> (\<forall>l tpl c ds. (k, l, TupleLeaf tpl c ds) \<in> set xs \<longrightarrow>
        (\<exists>d T1. delete_tuple hs H fs ts depth T = Some (d, T1) \<and> di_is_valid d \<and> (di_to_del d \<longleftrightarrow> c = 1) \<and>
          (if c = 1 then \<exists>T'. perform_delete d T1 = Some T' \<and> fact_trie hs ts T' (filter (\<lambda>x. fst x \<noteq> k) xs) \<and>
              t_freed T' = t_freed T @ [leaf_sub depth 1 (TupleLeaf tpl c ds)]
           else fact_trie hs ts T1 (adjust k (leaf_sub depth 1) xs) \<and> t_freed T1 = t_freed T)))
    \<and> (\<exists>T'. delete_by_index hs ms T = Some T' \<and> fact_trie hs ts T' (filter (\<lambda>x. \<not> has_prefix (index_key ms) (fst x)) xs))"
proof (intro conjI impI allI)
  show "\<exists>d. delete_tuple hs H fs ts depth T = Some (d, T) \<and> \<not> di_is_valid d" if "k \<notin> set (map fst xs) \<and> ts \<noteq> []"
    using delete_tuple_absent [OF assms(1-4)] that by blast
  show "\<exists>d T1. delete_tuple hs H fs ts depth T = Some (d, T1) \<and> di_is_valid d \<and> (di_to_del d \<longleftrightarrow> c = 1) \<and>
      (if c = 1 then \<exists>T'. perform_delete d T1 = Some T' \<and> fact_trie hs ts T' (filter (\<lambda>x. fst x \<noteq> k) xs) \<and>
          t_freed T' = t_freed T @ [leaf_sub depth 1 (TupleLeaf tpl c ds)]
       else fact_trie hs ts T1 (adjust k (leaf_sub depth 1) xs) \<and> t_freed T1 = t_freed T)"
    if "(k, l, TupleLeaf tpl c ds) \<in> set xs" for l tpl c ds
    by (rule delete_tuple_present [OF assms(1-4) that])
  show "\<exists>T'. delete_by_index hs ms T = Some T' \<and> fact_trie hs ts T' (filter (\<lambda>x. \<not> has_prefix (index_key ms) (fst x)) xs)"
    using delete_by_index_repr [OF assms(1) _ assms(5), of T xs] assms(2) by (auto simp: fact_trie_def tuple_view_def)
qed

theorem trie_delete_refines_witness:
  "\<exists>T1 T2 d T3. insert_tuple 4 zero_hashes one_cell 32 64 [5, 16] int_list_types False 0 new_trie = Some (True, T1)
     \<and> delete_tuple zero_hashes one_cell [5, 16] int_list_types 0 T1 = Some (d, T2) \<and> di_to_del d
     \<and> perform_delete d T2 = Some T3 \<and> fact_trie zero_hashes int_list_types T3 [] \<and> t_freed T3 = [TupleLeaf 64 0 None]
     \<and> (\<exists>T. delete_by_index zero_hashes [MF True (BaseT FIELD_INT) (Plain 5), MF False (ListT (BaseT FIELD_INT)) (Plain 0)] T1 = Some T
          \<and> fact_trie zero_hashes int_list_types T [])"
proof -
  have len: "length [5, 16 :: tuple_field] = length int_list_types" by (simp add: int_list_types_def)
  from insert_tuple_repr [OF zero_hashes_ok new_fact_trie len one_cell_key, of 32 64 False 0] obtain T1 where
    1: "insert_tuple 4 zero_hashes one_cell 32 64 [5, 16] int_list_types False 0 new_trie = Some (True, T1)"
      "fact_trie zero_hashes int_list_types T1 [([5, 1, 7, 0], 32, TupleLeaf 64 1 None)]" "t_freed T1 = []"
    by (auto simp: new_trie_def view_insert_def new_tuple_trie_leaf_def)
  have ix: "index_ok int_list_types [MF True (BaseT FIELD_INT) (Plain 5), MF False (ListT (BaseT FIELD_INT)) (Plain 0)]"
    by (simp add: int_list_types_def)
  have key: "index_key [MF True (BaseT FIELD_INT) (Plain 5), MF False (ListT (BaseT FIELD_INT)) (Plain 0)] = [5]"
    by (simp add: field_int_def)
  from trie_delete_refines [OF zero_hashes_ok 1(2) len one_cell_key ix, of 0] 1(1,3) show ?thesis
    unfolding key by (auto simp: has_prefix_def)
qed

end
