(* ===== verification/Hash_Table.thy ===== *)
theory Hash_Table
  imports Bitmap Vm_Predicate Field_Val
begin

text \<open>
  The hash tables of linear facts (\<^verbatim>\<open>db/hash_table.hpp\<close>, \<^verbatim>\<open>utils/hash.hpp\<close>). A table has 29 buckets, each a
  chain of lists; a list holds the facts that have the same value in the hashed field. A bucket with too
  many lists becomes a table of its own, up to four levels, each of which looks at five more bits of
  the hash. A bitmap says which buckets are tables.

  A table is a tree here: \<^verbatim>\<open>next\<close>, \<^verbatim>\<open>prev\<close>, \<^verbatim>\<open>parent\<close>, \<^verbatim>\<open>idx\<close> and the index a table keeps in its last slot are positions
  in it. \<^verbatim>\<open>vm::tuple_list\<close> is the sequence that \<open>Intrusive_List\<close> shows it to be. None stands for
  \<^verbatim>\<open>abort\<close> and for following a pointer that is null or has another type.
\<close>

subsection \<open>Hashing\<close>

definition fnv1_hash :: "byte list \<Rightarrow> 64 word" where
  "fnv1_hash p = fold (\<lambda>b h. (h * 1099511628211) XOR ucast b) p 14695981039346656037"

text \<open>A node is hashed by the address of its second member, of which four bytes are read.\<close>

definition hash_field :: "field_type \<Rightarrow> tuple_field \<Rightarrow> uint_val option" where
  "hash_field hash_type f =
     (case hash_type of
        FIELD_INT \<Rightarrow> Some (ucast (fnv1_hash (to_le 4 (unat (field_int f)))))
      | FIELD_FLOAT \<Rightarrow> Some (ucast (fnv1_hash (to_le 8 (unat (field_float f)))))
      | FIELD_NODE \<Rightarrow> Some (ucast (fnv1_hash (to_le 4 (unat (field_ptr f + 8)))))
      | FIELD_LIST \<Rightarrow> Some (if field_ptr f = 0 then 0 else 1)
      | _ \<Rightarrow> None)"

definition same_field0 :: "field_type \<Rightarrow> tuple_field \<Rightarrow> tuple_field \<Rightarrow> bool option" where
  "same_field0 hash_type f g =
     (case hash_type of
        FIELD_INT \<Rightarrow> Some (field_int f = field_int g)
      | FIELD_FLOAT \<Rightarrow> Some (float_eq (field_float f) (field_float g))
      | FIELD_NODE \<Rightarrow> Some (field_node f = field_node g)
      | FIELD_LIST \<Rightarrow> Some (field_ptr f \<noteq> 0 \<and> field_ptr g \<noteq> 0 \<or> field_ptr f = field_ptr g)
      | _ \<Rightarrow> None)"

definition HASH_TABLE_PRIME :: nat where
  "HASH_TABLE_PRIME = 29"

definition HASH_TABLE_SUBHASH_SHIFT :: nat where
  "HASH_TABLE_SUBHASH_SHIFT = 5"

definition HASH_TABLE_SUBHASH_MASK :: uint_val where
  "HASH_TABLE_SUBHASH_MASK = push_bit HASH_TABLE_SUBHASH_SHIFT 1 - 1"

definition HASH_TABLE_MAX_LEVELS :: nat where
  "HASH_TABLE_MAX_LEVELS = 4"

definition CREATE_HASHTABLE_THREADSHOLD :: nat where
  "CREATE_HASHTABLE_THREADSHOLD = 8"

definition mod_hash :: "uint_val \<Rightarrow> nat" where
  "mod_hash hsh = unat hsh mod HASH_TABLE_PRIME"

subsection \<open>Tables\<close>

record hash_list =
  hl_value :: tuple_field
  hl_items :: "ptr_val list"

datatype subhash_table =
  SH (sh_table: "slot list") (sh_bitmap: bitmap_static) (sh_unique_lists: "16 word") (sh_unique_subs: "16 word")
and slot = Bucket "hash_list list" | Sub subhash_table

definition slot_at :: "nat \<Rightarrow> slot list \<Rightarrow> slot option" where
  "slot_at i tbl = (if i < length tbl then Some (tbl ! i) else None)"

definition get_bucket :: "nat \<Rightarrow> subhash_table \<Rightarrow> hash_list list option" where
  "get_bucket idx s = (case slot_at idx (sh_table s) of Some (Bucket ls) \<Rightarrow> Some ls | _ \<Rightarrow> None)"

definition get_subhash :: "nat \<Rightarrow> subhash_table \<Rightarrow> subhash_table option" where
  "get_subhash idx s = (case slot_at idx (sh_table s) of Some (Sub s') \<Rightarrow> Some s' | _ \<Rightarrow> None)"

definition is_subhash :: "nat \<Rightarrow> subhash_table \<Rightarrow> bool" where
  "is_subhash idx s = bitmap_static_get_bit (sh_bitmap s) idx"

fun put_slot :: "nat \<Rightarrow> slot \<Rightarrow> subhash_table \<Rightarrow> subhash_table" where
  "put_slot i sl (SH tbl bm ul us) = SH (tbl[i := sl]) bm ul us"

fun set_subhash :: "nat \<Rightarrow> subhash_table \<Rightarrow> subhash_table \<Rightarrow> subhash_table" where
  "set_subhash idx p (SH tbl bm ul us) = SH (tbl[idx := Sub p]) (bitmap_static_set_bit bm idx) ul us"

text \<open>
  \<^verbatim>\<open>setup\<close> clears the slots and the counters of a table that was just allocated. It does not touch the
  bitmap, which keeps what the memory held: \<open>junk\<close>.
\<close>

definition sub_setup :: "bitmap_type \<Rightarrow> subhash_table" where
  "sub_setup junk = SH (replicate HASH_TABLE_PRIME (Bucket [])) \<lparr>bs_data = [junk]\<rparr> 0 0"

subsection \<open>Inserting\<close>

text \<open>The first list of a chain for a value.\<close>

fun find_list :: "field_type \<Rightarrow> tuple_field \<Rightarrow> hash_list list \<Rightarrow> nat option option" where
  "find_list hash_type v [] = Some None"
| "find_list hash_type v (b # bs) =
     (case same_field0 hash_type v (hl_value b) of
        None \<Rightarrow> None
      | Some True \<Rightarrow> Some (Some 0)
      | Some False \<Rightarrow> map_option (map_option Suc) (find_list hash_type v bs))"

text \<open>The loop that moves the lists of a bucket to the front of the chains of a new table.\<close>

fun distribute :: "field_type \<Rightarrow> nat \<Rightarrow> hash_list list \<Rightarrow> subhash_table \<Rightarrow> subhash_table option" where
  "distribute hash_type level [] sub = Some sub"
| "distribute hash_type level (bucket # next) sub =
     do { hsh \<leftarrow> hash_field hash_type (hl_value bucket);
          let index = mod_hash (drop_bit ((level + 1) * HASH_TABLE_SUBHASH_SHIFT) hsh AND HASH_TABLE_SUBHASH_MASK);
          ls \<leftarrow> get_bucket index sub;
          distribute hash_type level next (put_slot index (Bucket (bucket # ls)) sub) }"

definition new_hash_list :: "tuple_field \<Rightarrow> ptr_val \<Rightarrow> hash_list" where
  "new_hash_list v item = \<lparr>hl_value = v, hl_items = [item]\<rparr>"

definition create_subhash :: "field_type \<Rightarrow> bitmap_type \<Rightarrow> nat \<Rightarrow> nat \<Rightarrow> subhash_table \<Rightarrow> subhash_table option" where
  "create_subhash hash_type junk level idx s =
     do { ls \<leftarrow> get_bucket idx s;
          sub \<leftarrow> distribute hash_type level ls (sub_setup junk);
          let total = of_nat (length ls);
          let sub = SH (sh_table sub) (sh_bitmap sub) total (sh_unique_subs sub);
          Some (set_subhash idx sub
            (SH (sh_table s) (sh_bitmap s) (sh_unique_lists s - total) (sh_unique_subs s + 1))) }"

text \<open>What \<^verbatim>\<open>insert\<close> does in a bucket that is a chain of lists: it returns the size of the list of the item.\<close>

definition bucket_insert ::
  "field_type \<Rightarrow> bitmap_type \<Rightarrow> nat \<Rightarrow> ptr_val \<Rightarrow> tuple_field \<Rightarrow> nat \<Rightarrow> subhash_table \<Rightarrow> (nat \<times> subhash_table) option" where
  "bucket_insert hash_type junk idx item v level s =
     do { ls \<leftarrow> get_bucket idx s;
          found \<leftarrow> find_list hash_type v ls;
          (case found of
             Some j \<Rightarrow>
               let b = (ls ! j)\<lparr>hl_items := hl_items (ls ! j) @ [item]\<rparr>
               in Some (length (hl_items b), put_slot idx (Bucket (ls[j := b])) s)
           | None \<Rightarrow>
               let s = SH ((sh_table s)[idx := Bucket (ls @ [new_hash_list v item])]) (sh_bitmap s)
                         (sh_unique_lists s + 1) (sh_unique_subs s)
               in if length ls + 1 \<ge> CREATE_HASHTABLE_THREADSHOLD \<and> level + 1 < HASH_TABLE_MAX_LEVELS
                  then do { s \<leftarrow> create_subhash hash_type junk level idx s; Some (1, s) }
                  else Some (1, s)) }"

lemma get_subhash_size [termination_simp]: "get_subhash i s = Some s' \<Longrightarrow> size s' < size s"
proof -
  assume "get_subhash i s = Some s'"
  then have "Sub s' \<in> set (sh_table s)"
    by (auto simp: get_subhash_def slot_at_def in_set_conv_nth split: if_splits slot.splits)
  then have "size (Sub s') \<le> size_list size (sh_table s)"
    by (rule size_list_estimation') simp
  then show ?thesis by (cases s) simp
qed

function sub_insert ::
  "field_type \<Rightarrow> bitmap_type \<Rightarrow> uint_val \<Rightarrow> ptr_val \<Rightarrow> tuple_field \<Rightarrow> nat \<Rightarrow> subhash_table \<Rightarrow> (nat \<times> subhash_table) option" where
  "sub_insert hash_type junk hid item v level s =
     (let idx = mod_hash (hid AND HASH_TABLE_SUBHASH_MASK)
      in if is_subhash idx s then
           (case get_subhash idx s of
              None \<Rightarrow> None
            | Some sub \<Rightarrow>
                (case sub_insert hash_type junk (drop_bit HASH_TABLE_SUBHASH_SHIFT hid) item v (level + 1) sub of
                   None \<Rightarrow> None
                 | Some (n, sub) \<Rightarrow> Some (n, put_slot idx (Sub sub) s)))
         else bucket_insert hash_type junk idx item v level s)"
  by pat_completeness auto
termination
  by (relation "measure (\<lambda>(ty, junk, hid, item, v, level, s). size s)") (auto dest: get_subhash_size)

declare sub_insert.simps [simp del]

subsection \<open>Looking up and erasing\<close>

text \<open>The position of a list: the slots on the way to its chain, and its place in the chain.\<close>

type_synonym list_pos = "nat list \<times> nat"

function sub_lookup_list :: "field_type \<Rightarrow> uint_val \<Rightarrow> tuple_field \<Rightarrow> subhash_table \<Rightarrow> list_pos option option" where
  "sub_lookup_list hash_type hid f s =
     (let idx = mod_hash (hid AND HASH_TABLE_SUBHASH_MASK)
      in if is_subhash idx s then
           (case get_subhash idx s of
              None \<Rightarrow> None
            | Some sub \<Rightarrow>
                map_option (map_option (\<lambda>(path, j). (idx # path, j)))
                  (sub_lookup_list hash_type (drop_bit HASH_TABLE_SUBHASH_SHIFT hid) f sub))
         else
           (case get_bucket idx s of
              None \<Rightarrow> None
            | Some ls \<Rightarrow> map_option (map_option (\<lambda>j. ([idx], j))) (find_list hash_type f ls)))"
  by pat_completeness auto
termination
  by (relation "measure (\<lambda>(ty, hid, f, s). size s)") (auto dest: get_subhash_size)

declare sub_lookup_list.simps [simp del]

fun list_at_pos :: "list_pos \<Rightarrow> subhash_table \<Rightarrow> hash_list option" where
  "list_at_pos ([], j) s = None"
| "list_at_pos ([i], j) s =
     (case get_bucket i s of Some ls \<Rightarrow> if j < length ls then Some (ls ! j) else None | None \<Rightarrow> None)"
| "list_at_pos (i # path, j) s =
     (case get_subhash i s of Some sub \<Rightarrow> list_at_pos (path, j) sub | None \<Rightarrow> None)"

text \<open>
  \<^verbatim>\<open>check_empty_table\<close> of the table \<open>sub\<close> in slot \<open>i\<close>: an empty one is freed and the check goes on with its parent,
  which the truth value of the result says.
\<close>

definition check_empty_table :: "nat \<Rightarrow> subhash_table \<Rightarrow> subhash_table \<Rightarrow> bool \<times> subhash_table" where
  "check_empty_table i sub p =
     (if sh_unique_lists sub = 0 \<and> sh_unique_subs sub = 0
      then (True, SH ((sh_table p)[i := Bucket []]) (bitmap_static_unset_bit (sh_bitmap p) i)
              (sh_unique_lists p) (sh_unique_subs p - 1))
      else (False, put_slot i (Sub sub) p))"

text \<open>
  \<^verbatim>\<open>erase_from_list\<close> takes the \<open>k\<close>th fact out of the list at a position; an empty list is freed and its table is
  checked.
\<close>

fun sub_erase_from_list :: "list_pos \<Rightarrow> nat \<Rightarrow> subhash_table \<Rightarrow> (bool \<times> subhash_table) option" where
  "sub_erase_from_list ([], j) k s = None"
| "sub_erase_from_list ([i], j) k s =
     (case get_bucket i s of
        None \<Rightarrow> None
      | Some ls \<Rightarrow>
          if j < length ls \<and> k < length (hl_items (ls ! j)) then
            let b = (ls ! j)\<lparr>hl_items := remove_nth k (hl_items (ls ! j))\<rparr>
            in Some (if hl_items b = []
                     then (True, SH ((sh_table s)[i := Bucket (remove_nth j ls)]) (sh_bitmap s)
                                   (sh_unique_lists s - 1) (sh_unique_subs s))
                     else (False, put_slot i (Bucket (ls[j := b])) s))
          else None)"
| "sub_erase_from_list (i # path, j) k s =
     (case get_subhash i s of
        None \<Rightarrow> None
      | Some sub \<Rightarrow>
          (case sub_erase_from_list (path, j) k sub of
             None \<Rightarrow> None
           | Some (chk, sub) \<Rightarrow> Some (if chk then check_empty_table i sub s else (False, put_slot i (Sub sub) s))))"

subsection \<open>The iterator\<close>

text \<open>
  The frames of an iterator are the tables on the way down, each with the next bucket to look at, the
  deepest first; the list at the head of \<open>hi_current\<close> is the current one and the rest follows it in its
  chain. The iterator is at its end when no frame is left. \<open>scan_frames\<close> is the loop of \<^verbatim>\<open>find_good_bucket\<close>; there is room for
  four frames.
\<close>

type_synonym frame = "subhash_table \<times> nat"

record ht_iterator =
  hi_current :: "hash_list list"
  hi_frames :: "frame list"

fun sub_work :: "subhash_table \<Rightarrow> nat" and slot_work :: "slot \<Rightarrow> nat" where
  "sub_work (SH tbl bm ul us) = sum_list (map slot_work tbl)"
| "slot_work (Bucket ls) = Suc (length ls)"
| "slot_work (Sub s) = Suc (Suc (sub_work s))"

definition frame_work :: "frame \<Rightarrow> nat" where
  "frame_work f = Suc (sum_list (map slot_work (drop (snd f) (sh_table (fst f)))))"

lemma frame_work_slot:
  assumes "slot_at pos (sh_table s) = Some sl"
  shows "frame_work (s, pos) = slot_work sl + frame_work (s, Suc pos)"
  using assms by (auto simp: frame_work_def slot_at_def Cons_nth_drop_Suc [symmetric] split: if_splits)

lemma frame_work_0 [simp]: "frame_work (s, 0) = Suc (sub_work s)"
  by (cases s) (simp add: frame_work_def)

function scan_frames :: "frame list \<Rightarrow> ht_iterator option" where
  "scan_frames [] = Some \<lparr>hi_current = [], hi_frames = []\<rparr>"
| "scan_frames ((s, pos) # fs) =
     (if pos < HASH_TABLE_PRIME then
        if is_subhash pos s then
          (case get_subhash pos s of
             None \<Rightarrow> None
           | Some sub \<Rightarrow>
               if length fs + 1 < HASH_TABLE_MAX_LEVELS then scan_frames ((sub, 0) # (s, pos + 1) # fs) else None)
        else
          (case get_bucket pos s of
             None \<Rightarrow> None
           | Some [] \<Rightarrow> scan_frames ((s, pos + 1) # fs)
           | Some (l # ls) \<Rightarrow> Some \<lparr>hi_current = l # ls, hi_frames = (s, pos) # fs\<rparr>)
      else scan_frames fs)"
  by pat_completeness auto
termination
proof (relation "measure (\<lambda>fs. sum_list (map frame_work fs))", goal_cases)
  case (2 s pos fs sub)
  then show ?case by (auto simp: get_subhash_def frame_work_slot split: option.splits slot.splits)
next
  case (3 s pos fs)
  then show ?case by (auto simp: get_bucket_def frame_work_slot split: option.splits slot.splits)
qed (simp_all add: frame_work_def)

declare scan_frames.simps [simp del]

definition find_good_bucket :: "ht_iterator \<Rightarrow> ht_iterator option" where
  "find_good_bucket it =
     (case hi_current it of
        l # l' # ls \<Rightarrow> Some (it\<lparr>hi_current := l' # ls\<rparr>)
      | _ \<Rightarrow>
          (case hi_frames it of
             [] \<Rightarrow> None
           | (s, pos) # fs \<Rightarrow> scan_frames ((s, pos + 1) # fs)))"

definition hi_begin :: "subhash_table \<Rightarrow> ht_iterator option" where
  "hi_begin sub = scan_frames [(sub, 0)]"

definition hi_end :: "ht_iterator \<Rightarrow> bool" where
  "hi_end it \<longleftrightarrow> hi_frames it = []"

text \<open>The loop \<^verbatim>\<open>for(it = begin(); !it.end(); ++it)\<close>: the lists \<^verbatim>\<open>*it\<close> it visits.\<close>

partial_function (option) hi_collect :: "ht_iterator \<Rightarrow> hash_list list option" where
  "hi_collect it =
     (if hi_end it then Some []
      else
        (case hi_current it of
           [] \<Rightarrow> None
         | l # ls \<Rightarrow>
             Option.bind (find_good_bucket it) (\<lambda>it'. Option.bind (hi_collect it') (\<lambda>rest. Some (l # rest)))))"

subsection \<open>\<^verbatim>\<open>hash_table\<close>\<close>

record hash_table =
  ht_sh :: subhash_table
  ht_elems :: nat
  ht_hash_type :: field_type

text \<open>
  The fields of the tuples are a parameter; \<open>field\<close> is the hashed field of the predicate.
\<close>

type_synonym tuples = "ptr_val \<Rightarrow> tuple_field list"

definition tuple_get_field :: "tuples \<Rightarrow> nat \<Rightarrow> ptr_val \<Rightarrow> tuple_field option" where
  "tuple_get_field tuples field item = (if field < length (tuples item) then Some (tuples item ! field) else None)"

definition ht_setup :: "bitmap_type \<Rightarrow> field_type \<Rightarrow> hash_table" where
  "ht_setup junk t = \<lparr>ht_sh = sub_setup junk, ht_elems = 0, ht_hash_type = t\<rparr>"

definition ht_insert :: "tuples \<Rightarrow> nat \<Rightarrow> bitmap_type \<Rightarrow> ptr_val \<Rightarrow> hash_table \<Rightarrow> (bool \<times> hash_table) option" where
  "ht_insert tuples field junk item tbl =
     do { v \<leftarrow> tuple_get_field tuples field item;
          hid \<leftarrow> hash_field (ht_hash_type tbl) v;
          (n, sh) \<leftarrow> sub_insert (ht_hash_type tbl) junk hid item v 0 (ht_sh tbl);
          Some (n = 1, tbl\<lparr>ht_elems := ht_elems tbl + 1, ht_sh := sh\<rparr>) }"

definition ht_lookup_list :: "tuple_field \<Rightarrow> hash_table \<Rightarrow> list_pos option option" where
  "ht_lookup_list f tbl =
     do { hid \<leftarrow> hash_field (ht_hash_type tbl) f;
          sub_lookup_list (ht_hash_type tbl) hid f (ht_sh tbl) }"

definition ht_erase_from_list :: "list_pos \<Rightarrow> nat \<Rightarrow> hash_table \<Rightarrow> hash_table option" where
  "ht_erase_from_list pos k tbl =
     do { (chk, sh) \<leftarrow> sub_erase_from_list pos k (ht_sh tbl);
          Some (tbl\<lparr>ht_elems := size_sub (ht_elems tbl) 1, ht_sh := sh\<rparr>) }"

definition ht_empty :: "hash_table \<Rightarrow> bool" where
  "ht_empty tbl \<longleftrightarrow> ht_elems tbl = 0"

definition ht_lists :: "hash_table \<Rightarrow> hash_list list option" where
  "ht_lists tbl = Option.bind (hi_begin (ht_sh tbl)) hi_collect"

definition too_sparse :: "hash_table \<Rightarrow> bool" where
  "too_sparse tbl \<longleftrightarrow>
     unat (sh_unique_lists (ht_sh tbl)) < CREATE_HASHTABLE_THREADSHOLD div 2 \<and> sh_unique_subs (ht_sh tbl) = 0"

text \<open>
  \<^verbatim>\<open>destroy\<close> gives back the memory of all tables below this one and of all lists; the result says how many
  lists and tables are freed.
\<close>

function sub_destroy :: "subhash_table \<Rightarrow> (nat \<times> nat) option"
  and destroy_slots :: "nat \<Rightarrow> subhash_table \<Rightarrow> (nat \<times> nat) option" where
  "sub_destroy s = destroy_slots 0 s"
| "destroy_slots i s =
     (if i < HASH_TABLE_PRIME then
        do { (ls, ts) \<leftarrow>
               (if is_subhash i s then
                  (case get_subhash i s of
                     None \<Rightarrow> None
                   | Some sub \<Rightarrow> map_option (\<lambda>(ls, ts). (ls, ts + 1)) (sub_destroy sub))
                else map_option (\<lambda>ls. (length ls, 0)) (get_bucket i s));
             (ls', ts') \<leftarrow> destroy_slots (i + 1) s;
             Some (ls + ls', ts + ts') }
      else Some (0, 0))"
  by pat_completeness auto
termination
  by (relation "measures [\<lambda>x. case x of Inl s \<Rightarrow> size s | Inr (i, s) \<Rightarrow> size s,
        \<lambda>x. case x of Inl s \<Rightarrow> Suc HASH_TABLE_PRIME | Inr (i, s) \<Rightarrow> HASH_TABLE_PRIME - i]")
    (auto simp: HASH_TABLE_PRIME_def dest: get_subhash_size)

declare sub_destroy.simps [simp del] destroy_slots.simps [simp del]

definition ht_destroy :: "hash_table \<Rightarrow> (nat \<times> nat) option" where
  "ht_destroy tbl = map_option (\<lambda>(ls, ts). (ls, ts + 1)) (sub_destroy (ht_sh tbl))"

end
