(* ===== verification/Hash_Table_Spec.thy ===== *)
theory Hash_Table_Spec
  imports Hash_Table
begin

text \<open>
  What the hash tables of linear facts promise: a table is a map from values of the hashed field to
  queues of facts. The invariant places every list in the bucket that the hash of its value selects, level by
  level, and keeps the bitmap and the counters exact.
\<close>

lemmas hash_consts = HASH_TABLE_PRIME_def HASH_TABLE_SUBHASH_SHIFT_def HASH_TABLE_MAX_LEVELS_def
  CREATE_HASHTABLE_THREADSHOLD_def

subsection \<open>Values as keys\<close>

text \<open>
  The key of a value is its canonical representative. A NaN has no key, since it is not even equal to itself,
  and neither has negative zero, which is equal to zero and has another hash. Of a list, only whether it
  is empty counts.
\<close>

definition hkey :: "field_type \<Rightarrow> tuple_field \<Rightarrow> tuple_field option" where
  "hkey hash_type f =
     (case hash_type of
        FIELD_INT \<Rightarrow> Some (ucast (field_int f))
      | FIELD_FLOAT \<Rightarrow> if float_is_nan f \<or> f = 0x8000000000000000 then None else Some f
      | FIELD_NODE \<Rightarrow> Some f
      | FIELD_LIST \<Rightarrow> Some (if f = 0 then 0 else 1)
      | _ \<Rightarrow> None)"

lemma float_key_inj:
  assumes "float_key a = float_key b" "a \<noteq> 0x8000000000000000" "b \<noteq> 0x8000000000000000"
  shows "a = b"
proof -
  have neg: "unat w \<noteq> 2 ^ 63" if "w \<noteq> 0x8000000000000000" for w :: "64 word"
  proof
    assume "unat w = 2 ^ 63"
    then have "w = of_nat (2 ^ 63)" by (metis of_nat_unat ucast_id)
    with that show False by simp
  qed
  have key: "float_key w = (if unat w \<ge> 2 ^ 63 then - int (unat w - 2 ^ 63) else int (unat w))" for w
  proof -
    have "unat w < 2 ^ 64" using unsigned_less [of w] by simp
    then have "unat w - 2 ^ 63 < 2 ^ 63" by simp
    moreover have "x mod 2 ^ 63 = (if x \<ge> 2 ^ 63 then x - 2 ^ 63 else x)" if "x - 2 ^ 63 < 2 ^ 63" for x :: nat
      using that by (simp add: le_mod_geq)
    ultimately show ?thesis unfolding float_key_def float_mag_def by presburger
  qed
  have num: "x = y" if "(if x \<ge> 2 ^ 63 then - int (x - 2 ^ 63) else int x) = (if y \<ge> 2 ^ 63 then - int (y - 2 ^ 63) else int y)"
    "x \<noteq> 2 ^ 63" "y \<noteq> 2 ^ 63" for x y :: nat
    using that by (auto split: if_splits)
  have "unat a = unat b"
    by (rule num [OF _ neg [OF assms(2)] neg [OF assms(3)]]) (use assms(1) in \<open>simp only: key\<close>)
  then show ?thesis by (metis of_nat_unat ucast_id)
qed

lemma field_int_ucast [simp]: "field_int (ucast i) = i"
  unfolding field_int_def by (rule bit_word_eqI) (simp add: bit_simps)

lemma hkey_facts:
  assumes "hkey ty f = Some k"
  shows "hkey ty k = Some k" "hash_field ty f = hash_field ty k" "\<exists>h. hash_field ty k = Some h"
proof -
  have "hkey ty k = Some k \<and> hash_field ty f = hash_field ty k \<and> (\<exists>h. hash_field ty k = Some h)"
    using assms unfolding hkey_def hash_field_def whole_field_defs by (cases ty; simp split: if_splits) auto
  then show "hkey ty k = Some k" "hash_field ty f = hash_field ty k" "\<exists>h. hash_field ty k = Some h" by blast+
qed

lemma hkey_same:
  assumes "hkey ty f = Some a" "hkey ty g = Some b"
  shows "same_field0 ty f g = Some (a = b)"
proof (cases ty)
  case FIELD_FLOAT
  then show ?thesis
    using assms float_key_inj [of f g]
    by (auto simp: hkey_def same_field0_def field_float_def float_eq_def split: if_splits)
next
  case FIELD_INT
  have "field_int f = field_int g \<longleftrightarrow> ucast (field_int f) = (ucast (field_int g) :: 64 word)"
    by (metis field_int_ucast)
  with FIELD_INT show ?thesis
    using assms by (auto simp: hkey_def same_field0_def)
qed (use assms in \<open>auto simp: hkey_def same_field0_def whole_field_defs split: if_splits\<close>)

subsection \<open>The invariant\<close>

definition lkey :: "field_type \<Rightarrow> hash_list \<Rightarrow> tuple_field" where
  "lkey ty l = the (hkey ty (hl_value l))"

text \<open>The bucket that a key selects on a level.\<close>

definition kidx :: "field_type \<Rightarrow> nat \<Rightarrow> tuple_field \<Rightarrow> nat" where
  "kidx ty lv k =
     mod_hash (drop_bit (lv * HASH_TABLE_SUBHASH_SHIFT) (the (hash_field ty k)) AND HASH_TABLE_SUBHASH_MASK)"

text \<open>All lists of a table, in the order of the iterator.\<close>

fun sub_lists :: "subhash_table \<Rightarrow> hash_list list" and slot_lists :: "slot \<Rightarrow> hash_list list" where
  "sub_lists (SH tbl bm ul us) = concat (map slot_lists tbl)"
| "slot_lists (Bucket ls) = ls"
| "slot_lists (Sub s) = sub_lists s"

fun is_sub :: "slot \<Rightarrow> bool" where
  "is_sub (Bucket ls) = False"
| "is_sub (Sub s) = True"

fun chain_length :: "slot \<Rightarrow> nat" where
  "chain_length (Bucket ls) = length ls"
| "chain_length (Sub s) = 0"

definition count_lists :: "slot list \<Rightarrow> nat" where
  "count_lists tbl = sum_list (map chain_length tbl)"

definition count_subs :: "slot list \<Rightarrow> nat" where
  "count_subs tbl = sum_list (map (\<lambda>sl. of_bool (is_sub sl)) tbl)"

text \<open>
  A list is not empty and all its facts have its key; \<open>val\<close> is the value of the hashed field of a fact.
\<close>

definition list_ok :: "(ptr_val \<Rightarrow> tuple_field option) \<Rightarrow> field_type \<Rightarrow> hash_list \<Rightarrow> bool" where
  "list_ok val ty l \<longleftrightarrow> hl_items l \<noteq> [] \<and> hkey ty (hl_value l) \<noteq> None \<and>
     (\<forall>t \<in> set (hl_items l). Option.bind (val t) (hkey ty) = hkey ty (hl_value l))"

definition slot_ok :: "(ptr_val \<Rightarrow> tuple_field option) \<Rightarrow> field_type \<Rightarrow> nat \<Rightarrow> nat \<Rightarrow> slot \<Rightarrow> bool" where
  "slot_ok val ty lv i sl \<longleftrightarrow>
     (\<forall>l \<in> set (slot_lists sl). list_ok val ty l \<and> kidx ty lv (lkey ty l) = i) \<and>
     distinct (map (lkey ty) (slot_lists sl)) \<and> (is_sub sl \<longrightarrow> slot_lists sl \<noteq> [])"

inductive wf_sub :: "(ptr_val \<Rightarrow> tuple_field option) \<Rightarrow> field_type \<Rightarrow> nat \<Rightarrow> subhash_table \<Rightarrow> bool" for val ty where
  wf_subI: "\<lbrakk>lv < HASH_TABLE_MAX_LEVELS; length tbl = HASH_TABLE_PRIME; wf_bitmap_static 1 bm;
     ul = of_nat (count_lists tbl); count_lists tbl < 65536; us = of_nat (count_subs tbl);
     \<forall>i < HASH_TABLE_PRIME. bitmap_static_get_bit bm i = is_sub (tbl ! i) \<and> slot_ok val ty lv i (tbl ! i);
     \<forall>i < HASH_TABLE_PRIME. \<forall>s. tbl ! i = Sub s \<longrightarrow> wf_sub val ty (Suc lv) s\<rbrakk>
   \<Longrightarrow> wf_sub val ty lv (SH tbl bm ul us)"

inductive_simps wf_sub_SH: "wf_sub val ty lv (SH tbl bm ul us)"

lemma kidx_less [simp]: "kidx ty lv k < HASH_TABLE_PRIME"
  by (simp add: kidx_def mod_hash_def HASH_TABLE_PRIME_def)

lemma sum_list_update_nat: "i < length xs \<Longrightarrow> sum_list (xs[i := x]) + xs ! i = sum_list xs + (x :: nat)"
  by (induction xs arbitrary: i) (auto split: nat.splits)

lemma count_update:
  assumes "i < length tbl"
  shows "count_lists (tbl[i := sl]) + chain_length (tbl ! i) = count_lists tbl + chain_length sl"
    "count_subs (tbl[i := sl]) + of_bool (is_sub (tbl ! i)) = count_subs tbl + of_bool (is_sub sl)"
  using sum_list_update_nat [of i "map chain_length tbl" "chain_length sl"]
    sum_list_update_nat [of i "map (\<lambda>sl. of_bool (is_sub sl)) tbl" "of_bool (is_sub sl)"] assms
  by (simp_all add: count_lists_def count_subs_def map_update)

lemma count_subs_bound: "count_subs tbl \<le> length tbl"
  by (induction tbl) (auto simp: count_subs_def)

text \<open>The facts with a key, in order.\<close>

definition look :: "field_type \<Rightarrow> hash_list list \<Rightarrow> tuple_field \<Rightarrow> ptr_val list" where
  "look ty ls k = (case map_of (map (\<lambda>l. (lkey ty l, hl_items l)) ls) k of None \<Rightarrow> [] | Some xs \<Rightarrow> xs)"

lemma look_append: "look ty (ls @ ls') k = (if k \<in> lkey ty ` set ls then look ty ls k else look ty ls' k)"
  by (induction ls) (auto simp: look_def)

lemma look_none: "k \<notin> lkey ty ` set ls \<Longrightarrow> look ty ls k = []"
  by (induction ls) (auto simp: look_def)

lemma look_Nil [simp]: "look ty [] k = []"
  by (simp add: look_def)

lemma look_concat:
  assumes "i < length xss" "\<And>j l. j < length xss \<Longrightarrow> l \<in> set (xss ! j) \<Longrightarrow> lkey ty l = k \<Longrightarrow> j = i"
  shows "look ty (concat xss) k = look ty (xss ! i) k"
proof -
  have "concat xss = concat (take i xss) @ xss ! i @ concat (drop (Suc i) xss)"
    using id_take_nth_drop [OF assms(1)] by (metis concat.simps(2) concat_append)
  moreover have "k \<notin> lkey ty ` set (concat (take i xss))"
  proof
    assume "k \<in> lkey ty ` set (concat (take i xss))"
    then obtain xs l where "xs \<in> set (take i xss)" "l \<in> set xs" "lkey ty l = k" by auto
    moreover from this(1) obtain j where "j < i" "xs = xss ! j" using assms(1) by (auto simp: in_set_conv_nth)
    ultimately show False using assms(1) assms(2) [of j l] by auto
  qed
  moreover have "k \<notin> lkey ty ` set (concat (drop (Suc i) xss))"
  proof
    assume "k \<in> lkey ty ` set (concat (drop (Suc i) xss))"
    then obtain xs l where "xs \<in> set (drop (Suc i) xss)" "l \<in> set xs" "lkey ty l = k" by auto
    moreover from this(1) obtain j where "Suc i + j < length xss" "xs = xss ! (Suc i + j)"
      by (auto simp: in_set_conv_nth) (metis add.commute less_diff_conv add_Suc_right)
    ultimately show False using assms(2) [of "Suc i + j" l] by auto
  qed
  ultimately show ?thesis by (simp add: look_append look_none)
qed

lemma look_sub:
  assumes "wf_sub val ty lv s"
  shows "look ty (sub_lists s) k = look ty (slot_lists (sh_table s ! kidx ty lv k)) k"
  using assms
proof cases
  case (wf_subI tbl bm ul us)
  have "look ty (concat (map slot_lists tbl)) k = look ty (map slot_lists tbl ! kidx ty lv k) k"
    using wf_subI by (intro look_concat) (auto simp: slot_ok_def)
  then show ?thesis using wf_subI by simp
qed

lemma set_concat_nth: "x \<in> set (concat xss) \<longleftrightarrow> (\<exists>i < length xss. x \<in> set (xss ! i))"
  by (simp add: set_concat) (metis in_set_conv_nth)

lemma distinct_concat_keys:
  assumes "\<And>i l. i < length xss \<Longrightarrow> l \<in> set (xss ! i) \<Longrightarrow> f (g l) = i + c" "\<And>xs. xs \<in> set xss \<Longrightarrow> distinct (map g xs)"
  shows "distinct (map g (concat xss))"
  using assms
proof (induction xss arbitrary: c)
  case (Cons xs xss)
  have "distinct (map g (concat xss))"
    using Cons.prems(1) [of "Suc i" for i] Cons.prems(2) by (intro Cons.IH [of "Suc c"]) auto
  moreover have "f (g l) = c" if "l \<in> set xs" for l using Cons.prems(1) [of 0 l] that by simp
  moreover have "f (g l) \<noteq> c" if "l \<in> set (concat xss)" for l
  proof -
    from that obtain i where "i < length xss" "l \<in> set (xss ! i)" unfolding set_concat_nth by blast
    then show ?thesis using Cons.prems(1) [of "Suc i" l] by simp
  qed
  ultimately show ?case using Cons.prems(2) by (auto simp: image_iff) metis
qed simp

lemma wf_sub_lists:
  assumes "wf_sub val ty lv s"
  shows "distinct (map (lkey ty) (sub_lists s))" "l \<in> set (sub_lists s) \<Longrightarrow> list_ok val ty l"
proof -
  from assms have "distinct (map (lkey ty) (sub_lists s)) \<and> (\<forall>l \<in> set (sub_lists s). list_ok val ty l)"
  proof cases
    case (wf_subI tbl bm ul us)
    have "distinct (map (lkey ty) (concat (map slot_lists tbl)))"
      by (rule distinct_concat_keys [where f = "kidx ty lv" and c = 0])
        (use wf_subI in \<open>auto simp: slot_ok_def in_set_conv_nth\<close>)
    moreover have "list_ok val ty l" if "l \<in> set (concat (map slot_lists tbl))" for l
      using that wf_subI unfolding set_concat_nth by (auto simp: slot_ok_def)
    ultimately show ?thesis using wf_subI by auto
  qed
  then show "distinct (map (lkey ty) (sub_lists s))" "l \<in> set (sub_lists s) \<Longrightarrow> list_ok val ty l" by auto
qed

text \<open>Changing one slot, with the bitmap and the counters changed to match.\<close>

lemma replace_slot:
  assumes wf: "wf_sub val ty lv (SH tbl bm ul us)" and i: "i < HASH_TABLE_PRIME"
    and sl: "slot_ok val ty lv i sl" "\<And>s. sl = Sub s \<Longrightarrow> wf_sub val ty (Suc lv) s"
    and bm: "wf_bitmap_static 1 bm'"
      "\<And>j. j < HASH_TABLE_PRIME \<Longrightarrow> bitmap_static_get_bit bm' j = (if j = i then is_sub sl else bitmap_static_get_bit bm j)"
    and ul: "ul' + of_nat (chain_length (tbl ! i)) = ul + of_nat (chain_length sl)"
      "count_lists tbl + chain_length sl < 65536 + chain_length (tbl ! i)"
    and us: "us' + of_bool (is_sub (tbl ! i)) = us + of_bool (is_sub sl)"
  shows "wf_sub val ty lv (SH (tbl[i := sl]) bm' ul' us')"
proof -
  have len: "length tbl = HASH_TABLE_PRIME" using wf by (simp add: wf_sub_SH)
  have c: "count_lists (tbl[i := sl]) + chain_length (tbl ! i) = count_lists tbl + chain_length sl"
    "count_subs (tbl[i := sl]) + of_bool (is_sub (tbl ! i)) = count_subs tbl + of_bool (is_sub sl)"
    using count_update [of i tbl sl] i len by simp_all
  have "ul' = of_nat (count_lists (tbl[i := sl]))"
    using ul(1) arg_cong [OF c(1), of "of_nat :: nat \<Rightarrow> 16 word"] wf by (simp add: wf_sub_SH) (metis add_right_cancel)
  moreover have "us' = of_nat (count_subs (tbl[i := sl]))"
    using us arg_cong [OF c(2), of "of_nat :: nat \<Rightarrow> 16 word"] wf by (simp add: wf_sub_SH) (metis add_right_cancel)
  moreover have "count_lists (tbl[i := sl]) < 65536" using c(1) ul(2) by simp
  ultimately show ?thesis
    using wf sl bm i len by (auto simp: wf_sub_SH nth_list_update)
qed

lemma look_replaced:
  assumes "wf_sub val ty lv (SH tbl bm ul us)" "wf_sub val ty lv (SH (tbl[i := sl]) bm' ul' us')"
    "i = kidx ty lv k" "look ty (slot_lists sl) = (look ty (slot_lists (tbl ! i)))(k := xs)"
  shows "look ty (sub_lists (SH (tbl[i := sl]) bm' ul' us')) = (look ty (sub_lists (SH tbl bm ul us)))(k := xs)"
proof
  fix k'
  have len: "length tbl = HASH_TABLE_PRIME" using assms(1) by (simp add: wf_sub_SH)
  show "look ty (sub_lists (SH (tbl[i := sl]) bm' ul' us')) k' = ((look ty (sub_lists (SH tbl bm ul us)))(k := xs)) k'"
    unfolding look_sub [OF assms(2)] fun_upd_apply look_sub [OF assms(1)]
    using assms(3,4) len by (cases "kidx ty lv k' = i") (auto simp: nth_list_update)
qed

definition all_items :: "hash_list list \<Rightarrow> ptr_val list" where
  "all_items ls = concat (map hl_items ls)"

lemma concat_map_update:
  assumes "i < length tbl"
  shows "mset (concat (map f (tbl[i := sl]))) + mset (f (tbl ! i)) = mset (concat (map f tbl)) + mset (f sl)"
proof -
  have "mset (concat (map f tbl)) = mset (concat (map f (take i tbl @ tbl ! i # drop (Suc i) tbl)))"
    using id_take_nth_drop [OF assms] by simp
  then show ?thesis using assms by (simp add: upd_conv_take_nth_drop)
qed

lemma items_replaced:
  assumes "i < length tbl"
  shows "mset (all_items (sub_lists (SH (tbl[i := sl]) bm' ul' us'))) + mset (all_items (slot_lists (tbl ! i)))
    = mset (all_items (sub_lists (SH tbl bm ul us))) + mset (all_items (slot_lists sl))"
    "length (sub_lists (SH (tbl[i := sl]) bm' ul' us')) + length (slot_lists (tbl ! i))
    = length (sub_lists (SH tbl bm ul us)) + length (slot_lists sl)"
proof -
  have *: "all_items (concat (map slot_lists t)) = concat (map (\<lambda>s. all_items (slot_lists s)) t)" for t
    by (induction t) (auto simp: all_items_def)
  show "mset (all_items (sub_lists (SH (tbl[i := sl]) bm' ul' us'))) + mset (all_items (slot_lists (tbl ! i)))
    = mset (all_items (sub_lists (SH tbl bm ul us))) + mset (all_items (slot_lists sl))"
    using concat_map_update [OF assms, of "\<lambda>s. all_items (slot_lists s)"] by (simp add: *)
  show "length (sub_lists (SH (tbl[i := sl]) bm' ul' us')) + length (slot_lists (tbl ! i))
    = length (sub_lists (SH tbl bm ul us)) + length (slot_lists sl)"
    using arg_cong [OF concat_map_update [OF assms, of slot_lists sl], of size] by simp
qed

subsection \<open>Searching a chain\<close>

lemma find_list_ok:
  assumes "\<forall>l \<in> set ls. hkey ty (hl_value l) \<noteq> None" "hkey ty v = Some k"
  obtains (found) j where "find_list ty v ls = Some (Some j)" "j < length ls" "lkey ty (ls ! j) = k"
  | (missing) "find_list ty v ls = Some None" "k \<notin> lkey ty ` set ls"
proof -
  have "(\<exists>j. find_list ty v ls = Some (Some j) \<and> j < length ls \<and> lkey ty (ls ! j) = k) \<or>
      find_list ty v ls = Some None \<and> k \<notin> lkey ty ` set ls"
    using assms(1)
  proof (induction ls)
    case (Cons b bs)
    then obtain k' where k': "hkey ty (hl_value b) = Some k'" by auto
    from Cons show ?case
      using hkey_same [OF assms(2) k'] k' by (cases "k = k'") (auto simp: lkey_def)
  qed simp
  then show thesis using that by blast
qed

lemma look_mem:
  assumes "distinct (map (lkey ty) ls)" "l \<in> set ls"
  shows "look ty ls (lkey ty l) = hl_items l"
  using assms by (induction ls) (auto simp: look_def image_iff)

lemma look_nth:
  assumes "distinct (map (lkey ty) ls)" "j < length ls"
  shows "look ty ls (lkey ty (ls ! j)) = hl_items (ls ! j)"
  using look_mem [OF assms(1) nth_mem [OF assms(2)]] .

lemma look_update:
  assumes "distinct (map (lkey ty) ls)" "j < length ls" "hl_value b = hl_value (ls ! j)"
  shows "look ty (ls[j := b]) = (look ty ls)(lkey ty (ls ! j) := hl_items b)" "map (lkey ty) (ls[j := b]) = map (lkey ty) ls"
proof -
  have b: "lkey ty b = lkey ty (ls ! j)" by (simp add: lkey_def assms(3))
  show keys: "map (lkey ty) (ls[j := b]) = map (lkey ty) ls"
    by (simp add: map_update b list_update_same_conv assms(2))
  show "look ty (ls[j := b]) = (look ty ls)(lkey ty (ls ! j) := hl_items b)"
    using assms(1,2) b
  proof (induction ls arbitrary: j)
    case (Cons l ls)
    then have "j = Suc i \<Longrightarrow> lkey ty (ls ! i) \<noteq> lkey ty l" for i
      by (metis Suc_less_eq distinct.simps(2) image_eqI length_Cons list.simps(9) list.set_map nth_mem)
    with Cons show ?case by (cases j) (auto simp: look_def fun_eq_iff split: option.splits)
  qed simp
qed

lemma look_snoc:
  assumes "lkey ty l \<notin> lkey ty ` set ls"
  shows "look ty (ls @ [l]) = (look ty ls)(lkey ty l := hl_items l)"
  using assms by (auto simp: fun_eq_iff look_append look_none) (simp_all add: look_def)

lemma look_perm:
  assumes "mset ls = mset ls'" "distinct (map (lkey ty) ls)"
  shows "look ty ls = look ty ls'"
proof
  fix k
  have d: "distinct (map (lkey ty) ls')" using assms mset_map mset_eq_imp_distinct_iff by metis
  have set: "set ls = set ls'" using assms(1) by (rule mset_eq_setD)
  show "look ty ls k = look ty ls' k"
  proof (cases "k \<in> lkey ty ` set ls")
    case True
    then show ?thesis using look_mem [OF assms(2)] look_mem [OF d] set by auto
  next
    case False
    then show ?thesis using set by (simp add: look_none)
  qed
qed

subsection \<open>Inserting\<close>

definition junk_ok :: "bitmap_type \<Rightarrow> bool" where
  "junk_ok junk \<longleftrightarrow> (\<forall>i < HASH_TABLE_PRIME. \<not> bit junk i)"

lemma one_word_bit: "i < HASH_TABLE_PRIME \<Longrightarrow> bitmap_static_get_bit \<lparr>bs_data = [junk]\<rparr> i = bit junk i"
  by (simp add: bitmap_static_get_bit_words words_bit_def HASH_TABLE_PRIME_def)

text \<open>The tables that \<open>distribute\<close> works on have no tables below them.\<close>

definition flat :: "subhash_table \<Rightarrow> bool" where
  "flat sub \<longleftrightarrow> length (sh_table sub) = HASH_TABLE_PRIME \<and> (\<forall>i < HASH_TABLE_PRIME. \<not> is_sub (sh_table sub ! i))"

lemma sh_table_put_slot [simp]: "sh_table (put_slot i sl s) = (sh_table s)[i := sl]"
  "sh_bitmap (put_slot i sl s) = sh_bitmap s" "sh_unique_lists (put_slot i sl s) = sh_unique_lists s"
  "sh_unique_subs (put_slot i sl s) = sh_unique_subs s"
  by (cases s; simp)+

lemma sub_lists_table: "sub_lists s = concat (map slot_lists (sh_table s))"
  by (cases s) simp

lemma distribute_ok:
  assumes "\<forall>l \<in> set ls. hkey ty (hl_value l) \<noteq> None" "flat sub"
  shows "\<exists>sub'. distribute ty lv ls sub = Some sub' \<and> flat sub' \<and> mset (sub_lists sub') = mset ls + mset (sub_lists sub) \<and>
    sh_bitmap sub' = sh_bitmap sub \<and> sh_unique_subs sub' = sh_unique_subs sub \<and>
    (\<forall>i < HASH_TABLE_PRIME. set (slot_lists (sh_table sub' ! i)) =
       {l \<in> set ls. kidx ty (Suc lv) (lkey ty l) = i} \<union> set (slot_lists (sh_table sub ! i)))"
  using assms
proof (induction ls arbitrary: sub)
  case (Cons b bs)
  then obtain k where k: "hkey ty (hl_value b) = Some k" by auto
  from hkey_facts [OF k] obtain h where h: "hash_field ty (hl_value b) = Some h" "hash_field ty k = Some h" by auto
  define i where "i = kidx ty (Suc lv) k"
  have i: "i < HASH_TABLE_PRIME"
    "i = mod_hash (drop_bit ((lv + 1) * HASH_TABLE_SUBHASH_SHIFT) h AND HASH_TABLE_SUBHASH_MASK)"
    unfolding i_def by simp (simp add: kidx_def h(2))
  obtain ls where ls: "sh_table sub ! i = Bucket ls" "get_bucket i sub = Some ls"
    using Cons.prems(2) i(1) by (cases "sh_table sub ! i") (auto simp: flat_def get_bucket_def slot_at_def)
  define sub1 where "sub1 = put_slot i (Bucket (b # ls)) sub"
  have len: "i < length (sh_table sub)" using Cons.prems(2) i(1) by (simp add: flat_def)
  have flat1: "flat sub1" using Cons.prems(2) len by (auto simp: flat_def sub1_def nth_list_update)
  have step: "distribute ty lv (b # bs) sub = distribute ty lv bs sub1"
    unfolding distribute.simps h(1) bind.simps Let_def i(2) [symmetric] ls(2) sub1_def ..
  have m1: "mset (sub_lists sub1) = add_mset b (mset (sub_lists sub))"
    using concat_map_update [OF len, of slot_lists "Bucket (b # ls)"] ls(1) by (simp add: sub_lists_table sub1_def)
  have s1: "set (slot_lists (sh_table sub1 ! j)) = (if j = i then {b} else {}) \<union> set (slot_lists (sh_table sub ! j))"
    if "j < HASH_TABLE_PRIME" for j
    using ls(1) len by (auto simp: sub1_def nth_list_update)
  have b: "lkey ty b = k" by (simp add: lkey_def k)
  from Cons.IH [OF _ flat1] Cons.prems(1) obtain sub' where sub': "distribute ty lv bs sub1 = Some sub'" "flat sub'"
    "mset (sub_lists sub') = mset bs + mset (sub_lists sub1)" "sh_bitmap sub' = sh_bitmap sub1"
    "sh_unique_subs sub' = sh_unique_subs sub1"
    "\<forall>i < HASH_TABLE_PRIME. set (slot_lists (sh_table sub' ! i)) =
       {l \<in> set bs. kidx ty (Suc lv) (lkey ty l) = i} \<union> set (slot_lists (sh_table sub1 ! i))" by auto
  have "set (slot_lists (sh_table sub' ! j)) =
       {l \<in> set (b # bs). kidx ty (Suc lv) (lkey ty l) = j} \<union> set (slot_lists (sh_table sub ! j))"
    if "j < HASH_TABLE_PRIME" for j
    using sub'(6) s1 [OF that] that b by (auto simp: i_def)
  then show ?case unfolding step using sub' m1 by (auto simp: sub1_def)
qed simp

lemma flat_counts:
  assumes "flat sub"
  shows "count_lists (sh_table sub) = length (sub_lists sub)" "count_subs (sh_table sub) = 0"
proof -
  have "\<forall>sl \<in> set (sh_table sub). \<not> is_sub sl" using assms by (auto simp: flat_def in_set_conv_nth)
  then have c: "map chain_length (sh_table sub) = map (length \<circ> slot_lists) (sh_table sub)"
    "map (\<lambda>sl. of_bool (is_sub sl)) (sh_table sub) = map (\<lambda>_. 0 :: nat) (sh_table sub)"
    by (auto elim!: is_sub.elims(3))
  show "count_lists (sh_table sub) = length (sub_lists sub)"
    unfolding count_lists_def sub_lists_table length_concat map_map c(1) ..
  show "count_subs (sh_table sub) = 0" unfolding count_subs_def c(2) by simp
qed

lemma sub_setup_flat: "flat (sub_setup junk)" "sub_lists (sub_setup junk) = []"
  by (auto simp: flat_def sub_setup_def HASH_TABLE_PRIME_def)

lemma sub_setup_wf: "junk_ok junk \<Longrightarrow> lv < HASH_TABLE_MAX_LEVELS \<Longrightarrow> wf_sub val ty lv (sub_setup junk)"
  unfolding sub_setup_def
  by (rule wf_subI)
    (auto simp: count_lists_def count_subs_def wf_bitmap_static_def one_word_bit junk_ok_def slot_ok_def sum_list_replicate)

text \<open>A bucket that becomes a table: the same lists, one level down.\<close>

lemma split_bucket:
  assumes ls: "slot_ok val ty lv i (Bucket ls)" "ls \<noteq> []" "length ls < 65536" and lv: "Suc lv < HASH_TABLE_MAX_LEVELS"
    and junk: "junk_ok junk"
  obtains sub where "distribute ty lv ls (sub_setup junk) = Some sub" "sh_unique_subs sub = 0"
    "wf_sub val ty (Suc lv) (SH (sh_table sub) (sh_bitmap sub) (of_nat (length ls)) 0)"
    "mset (sub_lists sub) = mset ls" "look ty (sub_lists sub) = look ty ls" "slot_ok val ty lv i (Sub sub)"
proof -
  have ok: "\<forall>l \<in> set ls. hkey ty (hl_value l) \<noteq> None" using ls(1) by (auto simp: slot_ok_def list_ok_def)
  from distribute_ok [OF ok sub_setup_flat(1), of lv junk] obtain sub where
    sub: "distribute ty lv ls (sub_setup junk) = Some sub" "flat sub" "mset (sub_lists sub) = mset ls"
      "sh_bitmap sub = \<lparr>bs_data = [junk]\<rparr>" "sh_unique_subs sub = 0"
      "\<forall>i < HASH_TABLE_PRIME. set (slot_lists (sh_table sub ! i)) = {l \<in> set ls. kidx ty (Suc lv) (lkey ty l) = i}"
    by (auto simp: sub_setup_flat(2) sub_setup_def)
  have d: "distinct (map (lkey ty) (sub_lists sub))"
    using ls(1) sub(3) mset_map mset_eq_imp_distinct_iff unfolding slot_ok_def by (metis slot_lists.simps(1))
  have slot: "slot_ok val ty (Suc lv) j (sh_table sub ! j)" "\<not> is_sub (sh_table sub ! j)" if j: "j < HASH_TABLE_PRIME" for j
  proof -
    show "\<not> is_sub (sh_table sub ! j)" using sub(2) j by (simp add: flat_def)
    moreover have "slot_lists (sh_table sub ! j) \<in> set (map slot_lists (sh_table sub))"
      using sub(2) j by (simp add: flat_def)
    then have "distinct (map (lkey ty) (slot_lists (sh_table sub ! j)))"
      using d by (auto simp: sub_lists_table map_concat distinct_concat_iff)
    ultimately show "slot_ok val ty (Suc lv) j (sh_table sub ! j)"
      using sub(6) j ls(1) by (auto simp: slot_ok_def)
  qed
  have "length (sub_lists sub) = length ls" using sub(3) by (metis size_mset)
  then have "wf_sub val ty (Suc lv) (SH (sh_table sub) (sh_bitmap sub) (of_nat (length ls)) 0)"
    using lv sub(2,4) junk slot ls(3)
    by (auto simp: wf_sub_SH flat_counts flat_def wf_bitmap_static_def one_word_bit junk_ok_def) (metis is_sub.simps(2))
  moreover have "look ty (sub_lists sub) = look ty ls" by (rule look_perm [OF sub(3) d])
  moreover have "slot_ok val ty lv i (Sub sub)"
    using ls(1,2) d mset_eq_setD [OF sub(3)] by (auto simp: slot_ok_def)
  ultimately show thesis using that sub by blast
qed

text \<open>What an operation on a table does to the map it stands for.\<close>

definition adds_item ::
  "(ptr_val \<Rightarrow> tuple_field option) \<Rightarrow> field_type \<Rightarrow> nat \<Rightarrow> tuple_field \<Rightarrow> ptr_val \<Rightarrow> subhash_table \<Rightarrow> subhash_table \<Rightarrow> bool" where
  "adds_item val ty lv k item s s' \<longleftrightarrow>
     wf_sub val ty lv s' \<and> look ty (sub_lists s') = (look ty (sub_lists s))(k := look ty (sub_lists s) k @ [item]) \<and>
     mset (all_items (sub_lists s')) = add_mset item (mset (all_items (sub_lists s))) \<and>
     length (sub_lists s') \<le> Suc (length (sub_lists s))"

text \<open>One slot gets the item; \<open>sl\<close> is the slot afterwards.\<close>

lemma adds_item_slot:
  assumes wf: "wf_sub val ty lv (SH tbl bm ul us)" "wf_sub val ty lv (SH (tbl[i := sl]) bm' ul' us')" and i: "i = kidx ty lv k"
    and sl: "look ty (slot_lists sl) = (look ty (slot_lists (tbl ! i)))(k := look ty (slot_lists (tbl ! i)) k @ [item])"
      "mset (all_items (slot_lists sl)) = add_mset item (mset (all_items (slot_lists (tbl ! i))))"
      "length (slot_lists sl) \<le> Suc (length (slot_lists (tbl ! i)))"
  shows "adds_item val ty lv k item (SH tbl bm ul us) (SH (tbl[i := sl]) bm' ul' us')"
proof -
  have len: "i < length tbl" using wf(1) i by (simp add: wf_sub_SH)
  have l: "look ty (slot_lists (tbl ! i)) k = look ty (sub_lists (SH tbl bm ul us)) k"
    using look_sub [OF wf(1), of k] i by simp
  show ?thesis
    unfolding adds_item_def
    using wf(2) look_replaced [OF wf i sl(1)] items_replaced [OF len, of sl bm' ul' us' bm ul us] sl(2,3)
    unfolding l by simp
qed

lemma all_items_simps [simp]:
  "all_items [] = []" "all_items (l # ls) = hl_items l @ all_items ls" "all_items (ls @ ls') = all_items ls @ all_items ls'"
  by (simp_all add: all_items_def)

lemma all_items_update:
  "j < length ls \<Longrightarrow> mset (all_items (ls[j := b])) + mset (hl_items (ls ! j)) = mset (all_items ls) + mset (hl_items b)"
  unfolding all_items_def by (rule concat_map_update)

lemma all_items_mset:
  assumes "mset ls = mset ls'"
  shows "mset (all_items ls) = mset (all_items ls')"
proof -
  have "mset (all_items ls) = \<Sum>\<^sub># (image_mset (\<lambda>l. mset (hl_items l)) (mset ls))" for ls
    by (induction ls) simp_all
  with assms show ?thesis by metis
qed

lemma slot_count_le: "i < length tbl \<Longrightarrow> chain_length (tbl ! i) \<le> count_lists tbl"
  using member_le_sum_list [of "chain_length (tbl ! i)" "map chain_length tbl"] by (simp add: count_lists_def)

lemma count_lists_le: "count_lists (sh_table s) \<le> length (sub_lists s)"
proof -
  have "chain_length sl \<le> length (slot_lists sl)" for sl by (cases sl) simp_all
  then show ?thesis unfolding count_lists_def sub_lists_table length_concat map_map comp_def by (rule sum_list_mono)
qed

lemma bucket_push:
  assumes wf: "wf_sub val ty lv (SH tbl bm ul us)" and k: "hkey ty v = Some k" "val item = Some v" "i = kidx ty lv k"
    and ls: "tbl ! i = Bucket ls" "j < length ls" "lkey ty (ls ! j) = k"
    and b: "b = (ls ! j)\<lparr>hl_items := hl_items (ls ! j) @ [item]\<rparr>"
  shows "adds_item val ty lv k item (SH tbl bm ul us) (SH (tbl[i := Bucket (ls[j := b])]) bm ul us)"
proof -
  have i: "i < HASH_TABLE_PRIME" using k by simp
  have ok: "slot_ok val ty lv i (Bucket ls)" using wf i ls(1) by (auto simp: wf_sub_SH)
  then have d: "distinct (map (lkey ty) ls)" and okj: "list_ok val ty (ls ! j)" using ls(2) by (auto simp: slot_ok_def)
  have okb: "list_ok val ty b" using okj k ls(3) by (auto simp: list_ok_def b lkey_def)
  have val: "hl_value b = hl_value (ls ! j)" by (simp add: b)
  have kb: "lkey ty b = k" using ls(3) by (simp add: lkey_def val)
  have ok': "slot_ok val ty lv i (Bucket (ls[j := b]))"
    using ok okb look_update(2) [OF d ls(2) val] k(3) kb set_update_subset_insert [of ls j b] by (auto simp: slot_ok_def)
  have wf': "wf_sub val ty lv (SH (tbl[i := Bucket (ls[j := b])]) bm ul us)"
    using wf i ok' ls(1) by (intro replace_slot [OF wf]) (auto simp: wf_sub_SH)
  show ?thesis
  proof (rule adds_item_slot [OF wf wf' k(3)])
    show "look ty (slot_lists (Bucket (ls[j := b]))) = (look ty (slot_lists (tbl ! i)))(k := look ty (slot_lists (tbl ! i)) k @ [item])"
      using look_update(1) [OF d ls(2) val] look_nth [OF d ls(2)] ls(1,3) by (simp add: b)
    show "mset (all_items (slot_lists (Bucket (ls[j := b])))) = add_mset item (mset (all_items (slot_lists (tbl ! i))))"
      using all_items_update [OF ls(2), of b] ls(1) by (simp add: b)
  qed (simp add: ls(1))
qed

lemma bucket_new_list:
  assumes wf: "wf_sub val ty lv (SH tbl bm ul us)" and k: "hkey ty v = Some k" "val item = Some v" "i = kidx ty lv k"
    and ls: "tbl ! i = Bucket ls" "k \<notin> lkey ty ` set ls" and n: "count_lists tbl < 65535"
  shows "adds_item val ty lv k item (SH tbl bm ul us) (SH (tbl[i := Bucket (ls @ [new_hash_list v item])]) bm (ul + 1) us)"
proof -
  have i: "i < HASH_TABLE_PRIME" using k by simp
  have ok: "slot_ok val ty lv i (Bucket ls)" using wf i ls(1) by (auto simp: wf_sub_SH)
  define b where "b = new_hash_list v item"
  have kb: "lkey ty b = k" "list_ok val ty b" "hl_items b = [item]" using k by (auto simp: b_def new_hash_list_def lkey_def list_ok_def)
  have ok': "slot_ok val ty lv i (Bucket (ls @ [b]))" using ok kb k(3) ls(2) by (auto simp: slot_ok_def)
  have wf': "wf_sub val ty lv (SH (tbl[i := Bucket (ls @ [b])]) bm (ul + 1) us)"
    using wf i ok' ls(1) n by (intro replace_slot [OF wf]) (auto simp: wf_sub_SH)
  have "adds_item val ty lv k item (SH tbl bm ul us) (SH (tbl[i := Bucket (ls @ [b])]) bm (ul + 1) us)"
    by (rule adds_item_slot [OF wf wf' k(3)]) (use ls kb look_snoc [of ty b ls] in \<open>simp_all add: look_none\<close>)
  then show ?thesis by (simp add: b_def)
qed

text \<open>Turning a bucket into a table changes nothing of what is stored.\<close>

lemma create_subhash_ok:
  assumes wf: "wf_sub val ty lv s" and i: "i < HASH_TABLE_PRIME" "sh_table s ! i = Bucket ls" "ls \<noteq> []"
    and lv: "lv + 1 < HASH_TABLE_MAX_LEVELS" and junk: "junk_ok junk"
  shows "\<exists>s'. create_subhash ty junk lv i s = Some s' \<and> wf_sub val ty lv s' \<and>
    look ty (sub_lists s') = look ty (sub_lists s) \<and> mset (all_items (sub_lists s')) = mset (all_items (sub_lists s)) \<and>
    length (sub_lists s') = length (sub_lists s)"
proof -
  obtain tbl bm ul us where s: "s = SH tbl bm ul us" by (cases s)
  have tbl: "tbl ! i = Bucket ls" "i < length tbl" using i wf by (auto simp: s wf_sub_SH)
  have ok: "slot_ok val ty lv i (Bucket ls)" using wf i by (auto simp: s wf_sub_SH)
  have cnt: "length ls \<le> count_lists tbl" using slot_count_le [OF tbl(2)] tbl(1) by simp
  then have len: "length ls < 65536" using wf by (simp add: s wf_sub_SH)
  from split_bucket [OF ok i(3) len _ junk] lv obtain sub where
    sub: "distribute ty lv ls (sub_setup junk) = Some sub" "sh_unique_subs sub = 0"
      "wf_sub val ty (Suc lv) (SH (sh_table sub) (sh_bitmap sub) (of_nat (length ls)) 0)"
      "mset (sub_lists sub) = mset ls" "look ty (sub_lists sub) = look ty ls" "slot_ok val ty lv i (Sub sub)" by auto
  define sub' where "sub' = SH (sh_table sub) (sh_bitmap sub) (of_nat (length ls)) 0"
  have lists: "sub_lists sub' = sub_lists sub" by (simp add: sub'_def sub_lists_table)
  define s' where "s' = SH (tbl[i := Sub sub']) (bitmap_static_set_bit bm i) (ul - of_nat (length ls)) (us + 1)"
  have run: "create_subhash ty junk lv i s = Some s'"
    by (simp add: create_subhash_def get_bucket_def slot_at_def s tbl sub(1,2) s'_def sub'_def Let_def)
  have bits: "wf_bitmap_static 1 bm" using wf by (simp add: s wf_sub_SH)
  have wf': "wf_sub val ty lv s'"
    unfolding s'_def
  proof (rule replace_slot [OF wf [unfolded s] i(1)])
    show "wf_bitmap_static 1 (bitmap_static_set_bit bm i)"
      using bs.inv_put [OF bits] i(1) by (simp add: HASH_TABLE_PRIME_def)
    show "bitmap_static_get_bit (bitmap_static_set_bit bm i) j = (if j = i then is_sub (Sub sub') else bitmap_static_get_bit bm j)"
      if "j < HASH_TABLE_PRIME" for j
      using bs.get_put [OF bits, of i j] i(1) that by (simp add: HASH_TABLE_PRIME_def)
  qed (use sub wf cnt in \<open>auto simp: sub'_def [symmetric] lists slot_ok_def tbl s wf_sub_SH\<close>)
  moreover have "look ty (sub_lists s') k = look ty (sub_lists s) k" for k
    unfolding look_sub [OF wf'] look_sub [OF wf]
    using tbl sub(5) by (cases "kidx ty lv k = i") (auto simp: s'_def s nth_list_update lists)
  moreover have "mset (all_items (sub_lists s')) = mset (all_items (sub_lists s))" "length (sub_lists s') = length (sub_lists s)"
    using items_replaced [OF tbl(2), of "Sub sub'"] tbl(1) all_items_mset [OF sub(4)] mset_eq_length [OF sub(4)]
    unfolding s'_def s by (simp_all add: lists)
  ultimately show ?thesis using run by blast
qed

lemma bucket_insert_ok:
  assumes wf: "wf_sub val ty lv s" and k: "hkey ty v = Some k" "val item = Some v" "i = kidx ty lv k"
    and sl: "\<not> is_sub (sh_table s ! i)" and n: "length (sub_lists s) < 65535" and junk: "junk_ok junk"
  shows "\<exists>s'. bucket_insert ty junk i item v lv s = Some (Suc (length (look ty (sub_lists s) k)), s') \<and>
    adds_item val ty lv k item s s'"
proof -
  obtain tbl bm ul us where s: "s = SH tbl bm ul us" by (cases s)
  have i: "i < HASH_TABLE_PRIME" "i < length tbl" using k(3) wf by (auto simp: s wf_sub_SH)
  obtain ls where ls: "tbl ! i = Bucket ls" using sl by (cases "tbl ! i") (auto simp: s)
  have b: "get_bucket i s = Some ls" using i(2) ls by (simp add: get_bucket_def slot_at_def s)
  have look: "look ty (sub_lists s) k = look ty ls k" using look_sub [OF wf, of k] ls by (simp add: s k(3))
  have ok: "slot_ok val ty lv i (Bucket ls)" using wf i ls by (auto simp: s wf_sub_SH)
  then have hk: "\<forall>l \<in> set ls. hkey ty (hl_value l) \<noteq> None" and d: "distinct (map (lkey ty) ls)"
    by (auto simp: slot_ok_def list_ok_def)
  from hk k(1) consider
    (found) j where "find_list ty v ls = Some (Some j)" "j < length ls" "lkey ty (ls ! j) = k"
  | (missing) "find_list ty v ls = Some None" "k \<notin> lkey ty ` set ls" by (rule find_list_ok)
  then show ?thesis
  proof cases
    case (found j)
    then have "look ty ls k = hl_items (ls ! j)" using look_nth [OF d] by auto
    then show ?thesis
      using found(1) b bucket_push [OF wf [unfolded s] k ls found(2,3) refl]
      unfolding look by (simp add: bucket_insert_def Let_def s)
  next
    case missing
    define s1 where "s1 = SH (tbl[i := Bucket (ls @ [new_hash_list v item])]) bm (ul + 1) us"
    have "count_lists tbl < 65535" using count_lists_le [of s] n by (simp add: s)
    then have add: "adds_item val ty lv k item s s1"
      unfolding s1_def s by (rule bucket_new_list [OF wf [unfolded s] k ls missing(2)])
    have run: "bucket_insert ty junk i item v lv s =
        (if length ls + 1 \<ge> CREATE_HASHTABLE_THREADSHOLD \<and> lv + 1 < HASH_TABLE_MAX_LEVELS
         then map_option (Pair 1) (create_subhash ty junk lv i s1) else Some (1, s1))"
      using missing(1) b by (simp add: bucket_insert_def s1_def s map_conv_bind_option Let_def comp_def)
    have "sh_table s1 ! i = Bucket (ls @ [new_hash_list v item])" using i(2) by (simp add: s1_def)
    from create_subhash_ok [OF _ i(1) this _ _ junk, of val ty lv] add
    show ?thesis unfolding run look look_none [OF missing(2)] by (auto simp: adds_item_def)
  qed
qed

lemma kidx_next: "mod_hash (drop_bit (lv * HASH_TABLE_SUBHASH_SHIFT) (the (hash_field ty k)) AND HASH_TABLE_SUBHASH_MASK) = kidx ty lv k"
  "drop_bit HASH_TABLE_SUBHASH_SHIFT (drop_bit (lv * HASH_TABLE_SUBHASH_SHIFT) h) = drop_bit (Suc lv * HASH_TABLE_SUBHASH_SHIFT) h" for h :: uint_val
  by (simp_all add: kidx_def)

lemma is_subhash_iff: "wf_sub val ty lv s \<Longrightarrow> i < HASH_TABLE_PRIME \<Longrightarrow> is_subhash i s = is_sub (sh_table s ! i)"
  by (cases s) (simp add: wf_sub_SH is_subhash_def)

lemma wf_sub_child:
  assumes "wf_sub val ty lv s" "i < HASH_TABLE_PRIME" "sh_table s ! i = Sub sub"
  shows "get_subhash i s = Some sub" "wf_sub val ty (Suc lv) sub" "length (sub_lists sub) \<le> length (sub_lists s)"
    "slot_ok val ty lv i (Sub sub)" "Suc lv < HASH_TABLE_MAX_LEVELS"
proof -
  obtain tbl bm ul us where s: "s = SH tbl bm ul us" by (cases s)
  show wf: "wf_sub val ty (Suc lv) sub" and "slot_ok val ty lv i (Sub sub)" using assms by (auto simp: s wf_sub_SH)
  show "get_subhash i s = Some sub" using assms by (simp add: get_subhash_def slot_at_def s wf_sub_SH)
  show "Suc lv < HASH_TABLE_MAX_LEVELS" using wf by (cases sub) (simp add: wf_sub_SH)
  have "length (sub_lists sub) \<in> set (map (length \<circ> slot_lists) tbl)"
    using assms nth_mem [of i tbl] by (auto simp: s wf_sub_SH image_iff intro!: bexI [of _ "tbl ! i"])
  then show "length (sub_lists sub) \<le> length (sub_lists s)"
    unfolding s sub_lists.simps length_concat map_map by (rule member_le_sum_list) simp
qed

lemma child_slot_ok:
  assumes "slot_ok val ty lv i (Sub sub)" "wf_sub val ty (Suc lv) sub'"
    "\<And>k. look ty (sub_lists sub') k \<noteq> [] \<Longrightarrow> look ty (sub_lists sub) k \<noteq> [] \<or> kidx ty lv k = i"
    "\<exists>k. look ty (sub_lists sub') k \<noteq> []"
  shows "slot_ok val ty lv i (Sub sub')"
proof -
  have "kidx ty lv (lkey ty l) = i" if l: "l \<in> set (sub_lists sub')" for l
  proof -
    have "look ty (sub_lists sub') (lkey ty l) \<noteq> []"
      using look_mem [OF wf_sub_lists(1) [OF assms(2)] l] wf_sub_lists(2) [OF assms(2) l] by (simp add: list_ok_def)
    from assms(3) [OF this] show ?thesis
    proof
      assume "look ty (sub_lists sub) (lkey ty l) \<noteq> []"
      then obtain l' where "l' \<in> set (sub_lists sub)" "lkey ty l' = lkey ty l" 
        using look_none [of "lkey ty l" ty "sub_lists sub"] by (auto simp: image_iff) metis
      then show ?thesis using assms(1) by (auto simp: slot_ok_def)
    qed
  qed
  moreover have "sub_lists sub' \<noteq> []" using assms(4) by auto
  ultimately show ?thesis using wf_sub_lists [OF assms(2)] by (auto simp: slot_ok_def)
qed

lemma sub_insert_ok:
  assumes "wf_sub val ty lv s" "hkey ty v = Some k" "val item = Some v"
    "hid = drop_bit (lv * HASH_TABLE_SUBHASH_SHIFT) (the (hash_field ty k))"
    "length (sub_lists s) < 65535" "junk_ok junk"
  shows "\<exists>s'. sub_insert ty junk hid item v lv s = Some (Suc (length (look ty (sub_lists s) k)), s') \<and>
    adds_item val ty lv k item s s'"
  using assms
proof (induction "size s" arbitrary: s lv hid rule: less_induct)
  case less
  define i where "i = kidx ty lv k"
  have i: "mod_hash (hid AND HASH_TABLE_SUBHASH_MASK) = i" "i < HASH_TABLE_PRIME"
    unfolding less.prems(4) kidx_next i_def by simp_all
  show ?case
  proof (cases "sh_table s ! i")
    case (Bucket ls)
    have "sub_insert ty junk hid item v lv s = bucket_insert ty junk i item v lv s"
      using is_subhash_iff [OF less.prems(1) i(2)] Bucket by (subst sub_insert.simps) (simp add: i)
    then show ?thesis using bucket_insert_ok [OF less.prems(1-3) i_def _ less.prems(5,6)] Bucket by simp
  next
    case (Sub sub)
    obtain tbl bm ul us where s: "s = SH tbl bm ul us" by (cases s)
    note c = wf_sub_child [OF less.prems(1) i(2) Sub]
    have "length (sub_lists sub) < 65535" using c(3) less.prems(5) by simp
    from less.hyps [OF get_subhash_size [OF c(1)] c(2) less.prems(2,3) _ this less.prems(6)] obtain sub' where
      sub': "sub_insert ty junk (drop_bit HASH_TABLE_SUBHASH_SHIFT hid) item v (Suc lv) sub
          = Some (Suc (length (look ty (sub_lists sub) k)), sub')" "adds_item val ty (Suc lv) k item sub sub'"
      unfolding less.prems(4) kidx_next by blast
    have look: "look ty (sub_lists s) k = look ty (sub_lists sub) k"
      using look_sub [OF less.prems(1), of k] Sub by (simp flip: i_def)
    have run: "sub_insert ty junk hid item v lv s = Some (Suc (length (look ty (sub_lists s) k)), SH (tbl[i := Sub sub']) bm ul us)"
      unfolding look using is_subhash_iff [OF less.prems(1) i(2)] Sub sub'(1)
      by (subst sub_insert.simps) (simp add: i c(1) [unfolded s] s)
    have ok: "slot_ok val ty lv i (Sub sub')"
      using sub'(2) by (intro child_slot_ok [OF c(4)]) (auto simp: adds_item_def i_def split: if_splits)
    have wf': "wf_sub val ty lv (SH (tbl[i := Sub sub']) bm ul us)"
      using Sub less.prems(1) sub'(2) ok i(2)
      by (intro replace_slot [OF less.prems(1) [unfolded s]]) (auto simp: s wf_sub_SH adds_item_def)
    have "adds_item val ty lv k item (SH tbl bm ul us) (SH (tbl[i := Sub sub']) bm ul us)"
      by (rule adds_item_slot [OF less.prems(1) [unfolded s] wf' i_def]) (use sub'(2) Sub in \<open>simp_all add: adds_item_def s\<close>)
    then show ?thesis using run by (simp add: s)
  qed
qed

subsection \<open>Looking up\<close>

lemma sub_lookup_ok:
  assumes "wf_sub val ty lv s" "hkey ty f = Some k"
    "hid = drop_bit (lv * HASH_TABLE_SUBHASH_SHIFT) (the (hash_field ty k))"
  shows "(if look ty (sub_lists s) k = [] then sub_lookup_list ty hid f s = Some None
    else \<exists>pos l. sub_lookup_list ty hid f s = Some (Some pos) \<and> list_at_pos pos s = Some l \<and> lkey ty l = k \<and>
      hl_items l = look ty (sub_lists s) k)"
  using assms
proof (induction "size s" arbitrary: s lv hid rule: less_induct)
  case less
  define i where "i = kidx ty lv k"
  have i: "mod_hash (hid AND HASH_TABLE_SUBHASH_MASK) = i" "i < HASH_TABLE_PRIME"
    unfolding less.prems(3) kidx_next i_def by simp_all
  have look: "look ty (sub_lists s) k = look ty (slot_lists (sh_table s ! i)) k"
    using look_sub [OF less.prems(1), of k] by (simp flip: i_def)
  have sub: "is_subhash i s = is_sub (sh_table s ! i)" by (rule is_subhash_iff [OF less.prems(1) i(2)])
  show ?case
  proof (cases "sh_table s ! i")
    case (Bucket ls)
    have b: "get_bucket i s = Some ls"
      using less.prems(1) i(2) Bucket by (cases s) (simp add: get_bucket_def slot_at_def wf_sub_SH)
    have ok: "slot_ok val ty lv i (Bucket ls)" using less.prems(1) i(2) Bucket by (cases s) (auto simp: wf_sub_SH)
    then have hk: "\<forall>l \<in> set ls. hkey ty (hl_value l) \<noteq> None" and d: "distinct (map (lkey ty) ls)"
      and ne: "\<forall>l \<in> set ls. hl_items l \<noteq> []"
      by (auto simp: slot_ok_def list_ok_def)
    have run: "sub_lookup_list ty hid f s = map_option (map_option (\<lambda>j. ([i], j))) (find_list ty f ls)"
      using sub Bucket b by (subst sub_lookup_list.simps) (simp add: i)
    from hk less.prems(2) show ?thesis
    proof (rule find_list_ok)
      fix j
      assume j: "find_list ty f ls = Some (Some j)" "j < length ls" "lkey ty (ls ! j) = k"
      then have "look ty ls k = hl_items (ls ! j)" "hl_items (ls ! j) \<noteq> []" using look_nth [OF d] ne by auto
      then show ?thesis using j b by (simp add: run look Bucket)
    qed (simp add: run look Bucket look_none)
  next
    case (Sub s')
    note c = wf_sub_child [OF less.prems(1) i(2) Sub]
    have run: "sub_lookup_list ty hid f s = map_option (map_option (\<lambda>(path, j). (i # path, j)))
        (sub_lookup_list ty (drop_bit HASH_TABLE_SUBHASH_SHIFT hid) f s')"
      using sub Sub c(1) by (subst sub_lookup_list.simps) (simp add: i)
    have down: "list_at_pos (i # path, j) s = Some l" if "list_at_pos (path, j) s' = Some l" for path j l
      using that c(1) by (cases path) simp_all
    from less.hyps [OF get_subhash_size [OF c(1)] c(2) less.prems(2), of "drop_bit HASH_TABLE_SUBHASH_SHIFT hid"]
    show ?thesis
      unfolding run look Sub slot_lists.simps
      unfolding less.prems(3) kidx_next by (auto split: if_splits dest: down)
  qed
qed

subsection \<open>Erasing\<close>

definition drops_item ::
  "(ptr_val \<Rightarrow> tuple_field option) \<Rightarrow> field_type \<Rightarrow> nat \<Rightarrow> tuple_field \<Rightarrow> nat \<Rightarrow> subhash_table \<Rightarrow> subhash_table \<Rightarrow> bool" where
  "drops_item val ty lv k n s s' \<longleftrightarrow>
     wf_sub val ty lv s' \<and> look ty (sub_lists s') = (look ty (sub_lists s))(k := remove_nth n (look ty (sub_lists s) k)) \<and>
     add_mset (look ty (sub_lists s) k ! n) (mset (all_items (sub_lists s'))) = mset (all_items (sub_lists s)) \<and>
     length (sub_lists s') \<le> length (sub_lists s)"

lemma drops_item_slot:
  assumes wf: "wf_sub val ty lv (SH tbl bm ul us)" "wf_sub val ty lv (SH (tbl[i := sl]) bm' ul' us')" and i: "i = kidx ty lv k"
    and sl: "look ty (slot_lists sl) = (look ty (slot_lists (tbl ! i)))(k := remove_nth n (look ty (slot_lists (tbl ! i)) k))"
      "add_mset (look ty (slot_lists (tbl ! i)) k ! n) (mset (all_items (slot_lists sl))) = mset (all_items (slot_lists (tbl ! i)))"
      "length (slot_lists sl) \<le> length (slot_lists (tbl ! i))"
  shows "drops_item val ty lv k n (SH tbl bm ul us) (SH (tbl[i := sl]) bm' ul' us')"
proof -
  have len: "i < length tbl" using wf(1) i by (simp add: wf_sub_SH)
  have l: "look ty (slot_lists (tbl ! i)) k = look ty (sub_lists (SH tbl bm ul us)) k"
    using look_sub [OF wf(1), of k] i by simp
  show ?thesis
    unfolding drops_item_def
    using wf(2) look_replaced [OF wf i sl(1)] items_replaced [OF len, of sl bm' ul' us' bm ul us] sl(2,3)
    unfolding l by (auto simp flip: sl(2))
qed

lemma look_remove:
  assumes "distinct (map (lkey ty) ls)" "j < length ls"
  shows "look ty (remove_nth j ls) = (look ty ls)(lkey ty (ls ! j) := [])" "distinct (map (lkey ty) (remove_nth j ls))"
proof -
  have ls: "ls = take j ls @ ls ! j # drop (Suc j) ls" by (rule id_take_nth_drop [OF assms(2)])
  have d: "distinct (map (lkey ty) (take j ls @ ls ! j # drop (Suc j) ls))" using assms(1) ls by simp
  have "look ty (remove_nth j ls) k = ((look ty (take j ls @ ls ! j # drop (Suc j) ls))(lkey ty (ls ! j) := [])) k" for k
    using d by (auto simp: remove_nth_def look_append look_none) (auto simp: look_def)
  then show "look ty (remove_nth j ls) = (look ty ls)(lkey ty (ls ! j) := [])" using ls by auto
  show "distinct (map (lkey ty) (remove_nth j ls))" using d by (simp add: remove_nth_def)
qed

lemma word16_of_nat_0: "n < 65536 \<Longrightarrow> (of_nat n :: 16 word) = 0 \<longleftrightarrow> n = 0"
  by (simp add: word_of_nat_eq_0_iff) (auto dest: dvd_imp_le)

text \<open>The test of \<^verbatim>\<open>check_empty_table\<close> holds exactly for tables that store nothing.\<close>

lemma sub_empty_iff:
  assumes "wf_sub val ty lv s"
  shows "sh_unique_lists s = 0 \<and> sh_unique_subs s = 0 \<longleftrightarrow> sub_lists s = []"
  using assms
proof cases
  case (wf_subI tbl bm ul us)
  have "count_subs tbl < 65536" using count_subs_bound [of tbl] wf_subI by (simp add: HASH_TABLE_PRIME_def)
  then have "sh_unique_lists s = 0 \<and> sh_unique_subs s = 0 \<longleftrightarrow> count_lists tbl = 0 \<and> count_subs tbl = 0"
    using wf_subI by (simp add: word16_of_nat_0)
  also have "\<dots> \<longleftrightarrow> (\<forall>sl \<in> set tbl. chain_length sl = 0 \<and> \<not> is_sub sl)"
    by (auto simp: count_lists_def count_subs_def)
  also have "\<dots> \<longleftrightarrow> (\<forall>sl \<in> set tbl. slot_lists sl = [])"
  proof (rule ball_cong [OF refl])
    fix sl
    assume "sl \<in> set tbl"
    then have "is_sub sl \<Longrightarrow> slot_lists sl \<noteq> []" using wf_subI by (auto simp: in_set_conv_nth slot_ok_def)
    then show "(chain_length sl = 0 \<and> \<not> is_sub sl) = (slot_lists sl = [])" by (cases sl) auto
  qed
  finally show ?thesis using wf_subI by auto
qed

lemma bucket_erase_ok:
  assumes wf: "wf_sub val ty lv s" and ls: "get_bucket i s = Some ls" "j < length ls" "n < length (hl_items (ls ! j))"
    and i: "i < HASH_TABLE_PRIME"
  shows "\<exists>chk s'. sub_erase_from_list ([i], j) n s = Some (chk, s') \<and> drops_item val ty lv (lkey ty (ls ! j)) n s s' \<and>
    (\<not> chk \<longrightarrow> sub_lists s' \<noteq> [])"
proof -
  obtain tbl bm ul us where s: "s = SH tbl bm ul us" by (cases s)
  have tbl: "i < length tbl" "tbl ! i = Bucket ls"
    using ls(1) by (auto simp: s get_bucket_def slot_at_def split: if_splits slot.splits)
  define k where "k = lkey ty (ls ! j)"
  have ok: "slot_ok val ty lv i (Bucket ls)" using wf i tbl by (auto simp: s wf_sub_SH)
  then have d: "distinct (map (lkey ty) ls)" and okj: "list_ok val ty (ls ! j)" and ki: "i = kidx ty lv k"
    using ls(2) by (auto simp: slot_ok_def k_def)
  have lk: "look ty ls k = hl_items (ls ! j)" using look_nth [OF d ls(2)] by (simp add: k_def)
  have cnt: "length ls \<le> count_lists tbl" "count_lists tbl < 65536"
    using slot_count_le [OF tbl(1)] tbl(2) wf by (simp_all add: s wf_sub_SH)
  show ?thesis
  proof (cases "remove_nth n (hl_items (ls ! j)) = []")
    case True
    define s' where "s' = SH (tbl[i := Bucket (remove_nth j ls)]) bm (ul - 1) us"
    have len: "Suc (length (remove_nth j ls)) = length ls" using arg_cong [OF mset_remove_nth [OF ls(2)], of size] by simp
    have "slot_ok val ty lv i (Bucket (remove_nth j ls))"
      using ok look_remove(2) [OF d ls(2)] set_remove_nth [of j ls] by (auto simp: slot_ok_def)
    moreover have "(of_nat (length ls) :: 16 word) = 1 + of_nat (length (remove_nth j ls))"
      by (simp flip: len)
    ultimately have wf': "wf_sub val ty lv s'"
      unfolding s'_def using wf i tbl cnt len by (intro replace_slot [OF wf [unfolded s]]) (auto simp: s wf_sub_SH)
    have "hl_items (ls ! j) = [hl_items (ls ! j) ! n]"
      using mset_remove_nth [OF ls(3)] True by (metis mset.simps mset_single_iff_right add_mset_add_single empty_neutral(1))
    then have it: "mset (all_items ls) = add_mset (hl_items (ls ! j) ! n) (mset (all_items (remove_nth j ls)))"
      using all_items_mset [of "ls ! j # remove_nth j ls" ls] mset_remove_nth [OF ls(2)]
      by (metis all_items_simps(2) append_Cons append_Nil mset.simps(2))
    have "drops_item val ty lv k n s s'"
      unfolding s s'_def
    proof (rule drops_item_slot [OF wf [unfolded s] wf' [unfolded s'_def] ki])
      show "look ty (slot_lists (Bucket (remove_nth j ls))) =
          (look ty (slot_lists (tbl ! i)))(k := remove_nth n (look ty (slot_lists (tbl ! i)) k))"
        using look_remove(1) [OF d ls(2)] True by (simp add: tbl(2) lk flip: k_def)
    qed (use it len in \<open>simp_all add: tbl(2) lk\<close>)
    then show ?thesis using True ls tbl by (intro exI [of _ True] exI [of _ s']) (simp add: s s'_def k_def)
  next
    case False
    define b where "b = (ls ! j)\<lparr>hl_items := remove_nth n (hl_items (ls ! j))\<rparr>"
    define s' where "s' = SH (tbl[i := Bucket (ls[j := b])]) bm ul us"
    have val: "hl_value b = hl_value (ls ! j)" by (simp add: b_def)
    have okb: "list_ok val ty b"
      using okj False set_remove_nth [of n "hl_items (ls ! j)"] by (auto simp: list_ok_def b_def)
    have kb: "lkey ty b = k" by (simp add: lkey_def val k_def)
    have "slot_ok val ty lv i (Bucket (ls[j := b]))"
      using ok okb look_update(2) [OF d ls(2) val] ki kb set_update_subset_insert [of ls j b] by (auto simp: slot_ok_def)
    then have wf': "wf_sub val ty lv s'"
      unfolding s'_def using wf i tbl by (intro replace_slot [OF wf [unfolded s]]) (auto simp: s wf_sub_SH)
    have "drops_item val ty lv k n s s'"
      unfolding s s'_def
    proof (rule drops_item_slot [OF wf [unfolded s] wf' [unfolded s'_def] ki])
      show "look ty (slot_lists (Bucket (ls[j := b]))) =
          (look ty (slot_lists (tbl ! i)))(k := remove_nth n (look ty (slot_lists (tbl ! i)) k))"
        using look_update(1) [OF d ls(2) val] by (simp add: tbl(2) lk flip: k_def) (simp add: b_def)
      have "mset (hl_items (ls ! j)) = add_mset (hl_items (ls ! j) ! n) (mset (hl_items b))"
        using mset_remove_nth [OF ls(3)] by (simp add: b_def)
      then show "add_mset (look ty (slot_lists (tbl ! i)) k ! n) (mset (all_items (slot_lists (Bucket (ls[j := b]))))) =
          mset (all_items (slot_lists (tbl ! i)))"
        using all_items_update [OF ls(2), of b] by (simp add: tbl(2) lk)
    qed (simp add: tbl(2))
    moreover have "sub_lists s' \<noteq> []"
      using tbl(1) ls(2) by (auto simp: s'_def intro!: bexI [of _ "Bucket (ls[j := b])"] set_update_memI)
    ultimately show ?thesis
      using False ls tbl by (intro exI [of _ False] exI [of _ s']) (simp add: s s'_def k_def b_def Let_def)
  qed
qed

text \<open>A table below that has lost an item: it is put back, or freed when it is empty.\<close>

lemma child_erased:
  assumes wf: "wf_sub val ty lv s" and i: "i < HASH_TABLE_PRIME" "sh_table s ! i = Sub sub"
    and sub': "drops_item val ty (Suc lv) k n sub sub'" "\<not> chk \<longrightarrow> sub_lists sub' \<noteq> []" and k: "i = kidx ty lv k"
  shows "\<exists>chk' s'. (if chk then check_empty_table i sub' s else (False, put_slot i (Sub sub') s)) = (chk', s') \<and>
    drops_item val ty lv k n s s' \<and> (\<not> chk' \<longrightarrow> sub_lists s' \<noteq> [])"
proof -
  obtain tbl bm ul us where s: "s = SH tbl bm ul us" by (cases s)
  note c = wf_sub_child [OF wf i]
  have tbl: "i < length tbl" "tbl ! i = Sub sub" using wf i by (auto simp: s wf_sub_SH)
  have bits: "wf_bitmap_static 1 bm" using wf by (simp add: s wf_sub_SH)
  have wfs: "wf_sub val ty (Suc lv) sub'" using sub'(1) by (simp add: drops_item_def)
  show ?thesis
  proof (cases "sub_lists sub' = []")
    case True
    define s' where "s' = SH (tbl[i := Bucket []]) (bitmap_static_unset_bit bm i) ul (us - 1)"
    have wf': "wf_sub val ty lv s'"
      unfolding s'_def
    proof (rule replace_slot [OF wf [unfolded s] i(1)])
      show "wf_bitmap_static 1 (bitmap_static_unset_bit bm i)"
        using bs.inv_del [OF bits] i(1) by (simp add: HASH_TABLE_PRIME_def)
      show "bitmap_static_get_bit (bitmap_static_unset_bit bm i) j = (if j = i then is_sub (Bucket []) else bitmap_static_get_bit bm j)"
        if "j < HASH_TABLE_PRIME" for j
        using bs.get_del [OF bits, of i j] i(1) that by (simp add: HASH_TABLE_PRIME_def)
    qed (use wf tbl in \<open>auto simp: slot_ok_def s wf_sub_SH\<close>)
    have "drops_item val ty lv k n s s'"
      unfolding s s'_def
      by (rule drops_item_slot [OF wf [unfolded s] wf' [unfolded s'_def] k])
        (use sub'(1) True in \<open>simp_all add: tbl(2) drops_item_def\<close>)
    then show ?thesis
      using sub'(2) True sub_empty_iff [OF wfs]
      by (intro exI [of _ True] exI [of _ s']) (simp add: check_empty_table_def s s'_def)
  next
    case False
    define s' where "s' = SH (tbl[i := Sub sub']) bm ul us"
    have ne: "\<exists>k. look ty (sub_lists sub') k \<noteq> []"
    proof -
      from False obtain l where l: "l \<in> set (sub_lists sub')" by (cases "sub_lists sub'") auto
      then show ?thesis
        using look_mem [OF wf_sub_lists(1) [OF wfs] l] wf_sub_lists(2) [OF wfs l]
        by (intro exI [of _ "lkey ty l"]) (auto simp: list_ok_def)
    qed
    have ok: "slot_ok val ty lv i (Sub sub')"
      using sub'(1) k by (intro child_slot_ok [OF c(4) wfs _ ne]) (auto simp: drops_item_def split: if_splits)
    have wf': "wf_sub val ty lv s'"
      unfolding s'_def using wf tbl ok i(1) wfs by (intro replace_slot [OF wf [unfolded s]]) (auto simp: s wf_sub_SH)
    have "drops_item val ty lv k n s s'"
      unfolding s s'_def
      by (rule drops_item_slot [OF wf [unfolded s] wf' [unfolded s'_def] k])
        (use sub'(1) in \<open>simp_all add: tbl(2) drops_item_def\<close>)
    moreover have "sub_lists s' \<noteq> []"
      using tbl(1) False by (auto simp: s'_def intro!: bexI [of _ "Sub sub'"] set_update_memI)
    ultimately show ?thesis
      using False sub_empty_iff [OF wfs] by (auto simp: check_empty_table_def s s'_def)
  qed
qed

lemma list_at_pos_mem: "list_at_pos pos s = Some l \<Longrightarrow> l \<in> set (sub_lists s)"
proof (induction pos s rule: list_at_pos.induct)
  case (2 i j s)
  then show ?case
    by (cases s) (auto simp: get_bucket_def slot_at_def split: option.splits if_splits slot.splits intro!: bexI [OF _ nth_mem])
next
  case (3 i p path j s)
  then show ?case
    by (cases s) (auto simp: get_subhash_def slot_at_def split: option.splits if_splits slot.splits intro!: bexI [OF _ nth_mem])
qed simp

lemma sub_erase_ok:
  assumes "wf_sub val ty lv s" "list_at_pos pos s = Some l" "n < length (hl_items l)"
  shows "\<exists>chk s'. sub_erase_from_list pos n s = Some (chk, s') \<and> drops_item val ty lv (lkey ty l) n s s' \<and>
    (\<not> chk \<longrightarrow> sub_lists s' \<noteq> [])"
  using assms
proof (induction pos s arbitrary: lv rule: list_at_pos.induct)
  case (2 i j s)
  from 2(2) obtain ls where ls: "get_bucket i s = Some ls" "j < length ls" "l = ls ! j"
    by (auto split: option.splits if_splits)
  then have "i < HASH_TABLE_PRIME"
    using 2(1) by (cases s) (auto simp: get_bucket_def slot_at_def wf_sub_SH split: if_splits)
  then show ?case using bucket_erase_ok [OF 2(1) ls(1,2)] 2(3) ls(3) by simp
next
  case (3 i p path j s)
  from 3(3) obtain sub where sub: "get_subhash i s = Some sub" "list_at_pos (p # path, j) sub = Some l"
    by (auto split: option.splits)
  have i: "i < HASH_TABLE_PRIME" "sh_table s ! i = Sub sub"
    using 3(2) sub(1) by (cases s; auto simp: get_subhash_def slot_at_def wf_sub_SH split: if_splits slot.splits)+
  note c = wf_sub_child [OF 3(2) i]
  from 3(1) [OF sub(1) c(2) sub(2) 3(4)] obtain chk sub' where
    sub': "sub_erase_from_list (p # path, j) n sub = Some (chk, sub')" "drops_item val ty (Suc lv) (lkey ty l) n sub sub'"
      "\<not> chk \<longrightarrow> sub_lists sub' \<noteq> []" by blast
  have "l \<in> set (sub_lists sub)" by (rule list_at_pos_mem [OF sub(2)])
  then have "i = kidx ty lv (lkey ty l)" using c(4) by (auto simp: slot_ok_def)
  from child_erased [OF 3(2) i sub'(2,3) this] show ?case using sub(1) sub'(1) by simp
qed simp

subsection \<open>Iterating\<close>

definition frame_lists :: "frame \<Rightarrow> hash_list list" where
  "frame_lists f = concat (map slot_lists (drop (snd f) (sh_table (fst f))))"

definition frames_lists :: "frame list \<Rightarrow> hash_list list" where
  "frames_lists fs = concat (map frame_lists fs)"

text \<open>The frames of an iterator are well formed tables, each one level above the one before it.\<close>

fun frames_ok :: "(ptr_val \<Rightarrow> tuple_field option) \<Rightarrow> field_type \<Rightarrow> frame list \<Rightarrow> bool" where
  "frames_ok val ty [] = True"
| "frames_ok val ty ((s, pos) # fs) \<longleftrightarrow> wf_sub val ty (length fs) s \<and> frames_ok val ty fs"

lemma frame_lists_end: "wf_sub val ty lv s \<Longrightarrow> \<not> pos < HASH_TABLE_PRIME \<Longrightarrow> frame_lists (s, pos) = []"
  by (cases s) (simp add: frame_lists_def wf_sub_SH)

lemma frame_lists_slot:
  assumes "wf_sub val ty lv s" "pos < HASH_TABLE_PRIME"
  shows "frame_lists (s, pos) = slot_lists (sh_table s ! pos) @ frame_lists (s, Suc pos)"
proof -
  have "pos < length (sh_table s)" using assms by (cases s) (simp add: wf_sub_SH)
  then show ?thesis by (simp add: frame_lists_def Cons_nth_drop_Suc [symmetric])
qed

lemma frame_lists_0: "frame_lists (s, 0) = sub_lists s"
  by (simp add: frame_lists_def sub_lists_table)

lemma frames_lists_Cons [simp]: "frames_lists [] = []" "frames_lists (f # fs) = frame_lists f @ frames_lists fs"
  by (simp_all add: frames_lists_def)

text \<open>An iterator that is not at its end is at a list of a chain; what it has still to visit is fixed.\<close>

definition hi_todo :: "ht_iterator \<Rightarrow> hash_list list" where
  "hi_todo it = hi_current it @
     (case hi_frames it of [] \<Rightarrow> [] | (s, pos) # fs \<Rightarrow> frame_lists (s, Suc pos) @ frames_lists fs)"

definition hi_ok :: "(ptr_val \<Rightarrow> tuple_field option) \<Rightarrow> field_type \<Rightarrow> ht_iterator \<Rightarrow> bool" where
  "hi_ok val ty it \<longleftrightarrow> frames_ok val ty (hi_frames it) \<and> (hi_frames it = [] \<longleftrightarrow> hi_current it = [])"

lemma scan_frames_ok:
  assumes "frames_ok val ty fs"
  shows "\<exists>it. scan_frames fs = Some it \<and> hi_ok val ty it \<and> hi_todo it = frames_lists fs"
  using assms
proof (induction fs rule: scan_frames.induct)
  case 1
  then show ?case by (simp add: scan_frames.simps hi_ok_def hi_todo_def)
next
  case (2 s pos fs)
  have wf: "wf_sub val ty (length fs) s" and fs: "frames_ok val ty fs" using 2(4) by simp_all
  show ?case
  proof (cases "pos < HASH_TABLE_PRIME")
    case False
    then show ?thesis
      using 2(3) [OF False fs] frame_lists_end [OF wf False] by (simp add: scan_frames.simps)
  next
    case pos: True
    note slot = frame_lists_slot [OF wf pos] and sub = is_subhash_iff [OF wf pos]
    show ?thesis
    proof (cases "sh_table s ! pos")
      case (Sub s')
      note c = wf_sub_child [OF wf pos Sub]
      from c(5) have lv: "length fs + 1 < HASH_TABLE_MAX_LEVELS" by simp
      have "frames_ok val ty ((s', 0) # (s, pos + 1) # fs)" using c(2) wf fs by simp
      from 2(1) [OF pos _ c(1) lv this] show ?thesis
        using pos sub Sub c(1) lv by (subst scan_frames.simps) (simp add: slot frame_lists_0)
    next
      case (Bucket ls)
      have b: "get_bucket pos s = Some ls"
        using wf pos Bucket by (cases s) (simp add: get_bucket_def slot_at_def wf_sub_SH)
      show ?thesis
      proof (cases ls)
        case Nil
        have "frames_ok val ty ((s, pos + 1) # fs)" using wf fs by simp
        from 2(2) [OF pos _ _ _ this] show ?thesis
          using pos sub Bucket b Nil by (subst scan_frames.simps) (simp add: slot)
      next
        case (Cons l ls')
        then show ?thesis
          using pos sub Bucket b wf fs by (subst scan_frames.simps) (simp add: slot hi_ok_def hi_todo_def)
      qed
    qed
  qed
qed

lemma find_good_bucket_ok:
  assumes "hi_ok val ty it" "hi_todo it = l # rest" "\<not> hi_end it"
  shows "\<exists>it' ls. hi_current it = l # ls \<and> find_good_bucket it = Some it' \<and> hi_ok val ty it' \<and> hi_todo it' = rest"
proof -
  obtain s pos fs where fr: "hi_frames it = (s, pos) # fs" using assms(3) by (cases "hi_frames it") (auto simp: hi_end_def)
  then obtain ls where cur: "hi_current it = l # ls" using assms(1,2) by (cases "hi_current it") (auto simp: hi_ok_def hi_todo_def)
  show ?thesis
  proof (cases ls)
    case Nil
    have "frames_ok val ty ((s, pos + 1) # fs)" using assms(1) fr by (simp add: hi_ok_def)
    from scan_frames_ok [OF this] show ?thesis
      using assms(2) fr cur Nil by (simp add: find_good_bucket_def hi_todo_def)
  next
    case (Cons l' ls')
    then show ?thesis using assms fr cur by (simp add: find_good_bucket_def hi_todo_def hi_ok_def)
  qed
qed

lemma hi_collect_ok:
  assumes "hi_ok val ty it"
  shows "hi_collect it = Some (hi_todo it)"
  using assms
proof (induction "hi_todo it" arbitrary: it)
  case Nil
  then have "hi_end it" by (cases "hi_frames it") (auto simp: hi_todo_def hi_ok_def hi_end_def)
  then show ?case using Nil by (subst hi_collect.simps) simp
next
  case (Cons l rest)
  have "\<not> hi_end it" using Cons.hyps(2) Cons.prems by (auto simp: hi_end_def hi_todo_def hi_ok_def)
  moreover from find_good_bucket_ok [OF Cons.prems Cons.hyps(2) [symmetric] this] obtain it' ls where
    it': "hi_current it = l # ls" "find_good_bucket it = Some it'" "hi_ok val ty it'" "hi_todo it' = rest" by blast
  moreover have "hi_collect it' = Some rest" using Cons.hyps(1) [of it'] it'(3,4) by simp
  ultimately show ?case using Cons.hyps(2) by (subst hi_collect.simps) simp
qed

lemma iterate_ok:
  assumes "wf_sub val ty 0 s"
  shows "Option.bind (hi_begin s) hi_collect = Some (sub_lists s)"
  using scan_frames_ok [of val ty "[(s, 0)]"] assms hi_collect_ok
  by (fastforce simp: hi_begin_def frame_lists_0)

subsection \<open>Freeing\<close>

fun sub_tables :: "subhash_table \<Rightarrow> nat" and slot_tables :: "slot \<Rightarrow> nat" where
  "sub_tables (SH tbl bm ul us) = sum_list (map slot_tables tbl)"
| "slot_tables (Bucket ls) = 0"
| "slot_tables (Sub s) = Suc (sub_tables s)"

lemma destroy_ok:
  "wf_sub val ty lv s \<Longrightarrow> sub_destroy s = Some (length (sub_lists s), sub_tables s)"
  "wf_sub val ty lv s \<Longrightarrow> destroy_slots i s =
     Some (length (frame_lists (s, i)), sum_list (map slot_tables (drop i (sh_table s))))"
proof (induction s and i s arbitrary: lv and lv rule: sub_destroy_destroy_slots.induct)
  case (1 s)
  then show ?case by (cases s) (simp add: sub_destroy.simps frame_lists_0)
next
  case (2 i s)
  show ?case
  proof (cases "i < HASH_TABLE_PRIME")
    case False
    then show ?thesis using 2(3) by (cases s) (simp add: destroy_slots.simps frame_lists_def wf_sub_SH)
  next
    case True
    have len: "i < length (sh_table s)" using 2(3) True by (cases s) (simp add: wf_sub_SH)
    have drop: "drop i (sh_table s) = sh_table s ! i # drop (Suc i) (sh_table s)"
      using len by (simp add: Cons_nth_drop_Suc)
    have here: "(if is_subhash i s then case get_subhash i s of None \<Rightarrow> None
          | Some sub \<Rightarrow> map_option (\<lambda>(ls, ts). (ls, ts + 1)) (sub_destroy sub)
        else map_option (\<lambda>ls. (length ls, 0)) (get_bucket i s)) =
      Some (length (slot_lists (sh_table s ! i)), slot_tables (sh_table s ! i))"
    proof (cases "sh_table s ! i")
      case (Sub sub)
      note c = wf_sub_child [OF 2(3) True Sub]
      show ?thesis using 2(1) [OF True _ c(1) c(2)] Sub c(1) is_subhash_iff [OF 2(3) True] by simp
    next
      case (Bucket ls)
      then have "get_bucket i s = Some ls" using len by (simp add: get_bucket_def slot_at_def)
      then show ?thesis using Bucket is_subhash_iff [OF 2(3) True] by simp
    qed
    show ?thesis
      using 2(2) [OF True here refl 2(3)]
      by (subst destroy_slots.simps) (simp add: True here frame_lists_slot [OF 2(3) True] drop)
  qed
qed

subsection \<open>The contract\<close>

definition ht_repr :: "tuples \<Rightarrow> nat \<Rightarrow> hash_table \<Rightarrow> (tuple_field \<Rightarrow> ptr_val list) \<Rightarrow> bool" where
  "ht_repr tuples field T m \<longleftrightarrow>
     wf_sub (tuple_get_field tuples field) (ht_hash_type T) 0 (ht_sh T) \<and>
     m = look (ht_hash_type T) (sub_lists (ht_sh T)) \<and> ht_elems T = length (all_items (sub_lists (ht_sh T)))"

lemma ht_setup_repr: "junk_ok junk \<Longrightarrow> ht_repr tuples field (ht_setup junk ty) (\<lambda>_. [])"
  using sub_setup_wf [of junk 0] sub_setup_flat(2) [of junk]
  by (simp add: ht_repr_def ht_setup_def HASH_TABLE_MAX_LEVELS_def fun_eq_iff)

lemma ht_repr_keys:
  assumes "ht_repr tuples field T m"
  shows "lkey (ht_hash_type T) ` set (sub_lists (ht_sh T)) = {k. m k \<noteq> []}"
    "card {k. m k \<noteq> []} = length (sub_lists (ht_sh T))"
    "ht_elems T = (\<Sum>k | m k \<noteq> []. length (m k))"
proof -
  let ?ty = "ht_hash_type T" and ?ls = "sub_lists (ht_sh T)"
  have wf: "wf_sub (tuple_get_field tuples field) ?ty 0 (ht_sh T)" and m: "m = look ?ty ?ls"
    and n: "ht_elems T = length (all_items ?ls)"
    using assms by (simp_all add: ht_repr_def)
  note d = wf_sub_lists(1) [OF wf]
  have it: "m (lkey ?ty l) = hl_items l" "hl_items l \<noteq> []" if "l \<in> set ?ls" for l
    using look_mem [OF d that] wf_sub_lists(2) [OF wf that] by (simp_all add: m list_ok_def)
  show keys: "lkey ?ty ` set ?ls = {k. m k \<noteq> []}"
    using it look_none [of _ ?ty ?ls] by (auto simp: m)
  show "card {k. m k \<noteq> []} = length ?ls"
    unfolding keys [symmetric] using distinct_card [OF d] by simp
  have "(\<Sum>k | m k \<noteq> []. length (m k)) = sum_list (map (\<lambda>k. length (m k)) (map (lkey ?ty) ?ls))"
    unfolding sum.distinct_set_conv_list [OF d, symmetric] using keys by simp
  also have "\<dots> = sum_list (map (\<lambda>l. length (hl_items l)) ?ls)"
    using it(1) by (intro arg_cong [of _ _ sum_list]) simp
  finally show "ht_elems T = (\<Sum>k | m k \<noteq> []. length (m k))"
    by (simp add: n all_items_def length_concat comp_def)
qed

lemma ht_insert_repr:
  assumes "ht_repr tuples field T m" "tuple_get_field tuples field item = Some v" "hkey (ht_hash_type T) v = Some k"
    "card {k. m k \<noteq> []} < 65535" "junk_ok junk"
  shows "\<exists>T'. ht_insert tuples field junk item T = Some (m k = [], T') \<and> ht_repr tuples field T' (m(k := m k @ [item])) \<and>
    ht_hash_type T' = ht_hash_type T \<and>
    mset (all_items (sub_lists (ht_sh T'))) = add_mset item (mset (all_items (sub_lists (ht_sh T))))"
proof -
  from hkey_facts [OF assms(3)] obtain h where h: "hash_field (ht_hash_type T) v = Some h" "hash_field (ht_hash_type T) k = Some h"
    by auto
  have wf: "wf_sub (tuple_get_field tuples field) (ht_hash_type T) 0 (ht_sh T)" using assms(1) by (simp add: ht_repr_def)
  have n: "length (sub_lists (ht_sh T)) < 65535" using assms(4) ht_repr_keys(2) [OF assms(1)] by simp
  from sub_insert_ok [OF wf assms(3,2) _ n assms(5), of h] h(2) obtain s' where
    s': "sub_insert (ht_hash_type T) junk h item v 0 (ht_sh T) = Some (Suc (length (m k)), s')"
      "adds_item (tuple_get_field tuples field) (ht_hash_type T) 0 k item (ht_sh T) s'"
    using assms(1) by (auto simp: ht_repr_def)
  have "length (all_items (sub_lists s')) = Suc (length (all_items (sub_lists (ht_sh T))))"
    using s'(2) by (metis adds_item_def size_add_mset size_mset)
  then show ?thesis
    using s' assms(1,2) h(1) by (simp add: ht_insert_def ht_repr_def adds_item_def)
qed

lemma ht_lookup_repr:
  assumes "ht_repr tuples field T m" "hkey (ht_hash_type T) f = Some k"
  shows "if m k = [] then ht_lookup_list f T = Some None
    else \<exists>pos l. ht_lookup_list f T = Some (Some pos) \<and> list_at_pos pos (ht_sh T) = Some l \<and> hl_items l = m k \<and>
      lkey (ht_hash_type T) l = k"
proof -
  from hkey_facts [OF assms(2)] obtain h where h: "hash_field (ht_hash_type T) f = Some h" "hash_field (ht_hash_type T) k = Some h"
    by auto
  have wf: "wf_sub (tuple_get_field tuples field) (ht_hash_type T) 0 (ht_sh T)" using assms(1) by (simp add: ht_repr_def)
  show ?thesis
    using sub_lookup_ok [OF wf assms(2), of h] h assms(1) by (auto simp: ht_lookup_list_def ht_repr_def)
qed

lemma ht_erase_repr:
  assumes "ht_repr tuples field T m" "list_at_pos pos (ht_sh T) = Some l" "lkey (ht_hash_type T) l = k" "n < length (m k)"
  shows "\<exists>T'. ht_erase_from_list pos n T = Some T' \<and> ht_repr tuples field T' (m(k := remove_nth n (m k))) \<and>
    ht_hash_type T' = ht_hash_type T \<and>
    add_mset (m k ! n) (mset (all_items (sub_lists (ht_sh T')))) = mset (all_items (sub_lists (ht_sh T)))"
proof -
  have wf: "wf_sub (tuple_get_field tuples field) (ht_hash_type T) 0 (ht_sh T)" using assms(1) by (simp add: ht_repr_def)
  have l: "hl_items l = m k"
    using look_mem [OF wf_sub_lists(1) [OF wf] list_at_pos_mem [OF assms(2)]] assms(1,3) by (simp add: ht_repr_def)
  from sub_erase_ok [OF wf assms(2), of n] obtain chk s' where
    s': "sub_erase_from_list pos n (ht_sh T) = Some (chk, s')"
      "drops_item (tuple_get_field tuples field) (ht_hash_type T) 0 k n (ht_sh T) s'"
    using assms(3,4) l by auto
  have "length (all_items (sub_lists (ht_sh T))) = Suc (length (all_items (sub_lists s')))"
    using s'(2) by (metis drops_item_def size_add_mset size_mset)
  then show ?thesis
    using s' assms(1) by (simp add: ht_erase_from_list_def ht_repr_def drops_item_def)
qed

text \<open>
  C11. A hash table of linear facts is a map from the values of the hashed field to queues of facts, as long as
  the memory of new tables has a clear bitmap, no more than 65535 values are stored (the counters have 16 bits) and
  values have keys. \<^verbatim>\<open>insert\<close> appends to the queue of the value and says whether it was empty, however many
  buckets become tables on the way; \<^verbatim>\<open>lookup_list\<close> finds the queue of every value that is stored and of no other;
  \<^verbatim>\<open>erase_from_list\<close> takes one fact out of a queue and frees lists and tables that become empty; the iterator visits every
  queue exactly once and needs no more than its four frames; \<^verbatim>\<open>get_total_size\<close> is exact; \<^verbatim>\<open>destroy\<close> frees every list and
  table once.
\<close>

theorem hash_table_refines:
  assumes "ht_repr tuples field T m" "tuple_get_field tuples field item = Some v" "hkey (ht_hash_type T) v = Some k"
    "card {k. m k \<noteq> []} < 65535" "junk_ok junk"
  shows "(\<exists>T'. ht_insert tuples field junk item T = Some (m k = [], T') \<and> ht_repr tuples field T' (m(k := m k @ [item])))
    \<and> (if m k = [] then ht_lookup_list v T = Some None
       else \<exists>pos l. ht_lookup_list v T = Some (Some pos) \<and> list_at_pos pos (ht_sh T) = Some l \<and> hl_items l = m k \<and>
         (\<forall>n < length (m k). \<exists>T'. ht_erase_from_list pos n T = Some T' \<and> ht_repr tuples field T' (m(k := remove_nth n (m k)))))
    \<and> (\<exists>ls. ht_lists T = Some ls \<and> distinct (map (lkey (ht_hash_type T)) ls) \<and>
         lkey (ht_hash_type T) ` set ls = {k. m k \<noteq> []} \<and> (\<forall>l \<in> set ls. hl_items l = m (lkey (ht_hash_type T) l)) \<and>
         ht_destroy T = Some (length ls, sub_tables (ht_sh T) + 1))
    \<and> ht_elems T = (\<Sum>k | m k \<noteq> []. length (m k))"
proof (intro conjI)
  have wf: "wf_sub (tuple_get_field tuples field) (ht_hash_type T) 0 (ht_sh T)" using assms(1) by (simp add: ht_repr_def)
  show "\<exists>T'. ht_insert tuples field junk item T = Some (m k = [], T') \<and> ht_repr tuples field T' (m(k := m k @ [item]))"
    using ht_insert_repr [OF assms] by blast
  have erase: "\<exists>T'. ht_erase_from_list pos n T = Some T' \<and> ht_repr tuples field T' (m(k := remove_nth n (m k)))"
    if "list_at_pos pos (ht_sh T) = Some l" "lkey (ht_hash_type T) l = k" "n < length (m k)" for pos l n
    using ht_erase_repr [OF assms(1) that] by blast
  show "if m k = [] then ht_lookup_list v T = Some None
       else \<exists>pos l. ht_lookup_list v T = Some (Some pos) \<and> list_at_pos pos (ht_sh T) = Some l \<and> hl_items l = m k \<and>
         (\<forall>n < length (m k). \<exists>T'. ht_erase_from_list pos n T = Some T' \<and> ht_repr tuples field T' (m(k := remove_nth n (m k))))"
    using ht_lookup_repr [OF assms(1,3)] erase by (auto split: if_splits)
  have "ht_lists T = Some (sub_lists (ht_sh T))" using iterate_ok [OF wf] by (simp add: ht_lists_def)
  moreover have "hl_items l = m (lkey (ht_hash_type T) l)" if "l \<in> set (sub_lists (ht_sh T))" for l
    using look_mem [OF wf_sub_lists(1) [OF wf] that] assms(1) by (simp add: ht_repr_def)
  ultimately show "\<exists>ls. ht_lists T = Some ls \<and> distinct (map (lkey (ht_hash_type T)) ls) \<and>
      lkey (ht_hash_type T) ` set ls = {k. m k \<noteq> []} \<and> (\<forall>l \<in> set ls. hl_items l = m (lkey (ht_hash_type T) l)) \<and>
      ht_destroy T = Some (length ls, sub_tables (ht_sh T) + 1)"
    using wf_sub_lists(1) [OF wf] ht_repr_keys(1) [OF assms(1)] destroy_ok(1) [OF wf] by (auto simp: ht_destroy_def)
  show "ht_elems T = (\<Sum>k | m k \<noteq> []. length (m k))" by (rule ht_repr_keys(3) [OF assms(1)])
qed

text \<open>A table in which fact 16, with the integer 7, was stored, when fact 24 with the same integer comes.\<close>

definition two_facts :: tuples where
  "two_facts p = (if p = 16 \<or> p = 24 then [7] else [])"

lemma one_fact_table:
  "\<exists>T. ht_insert two_facts 0 0 16 (ht_setup 0 FIELD_INT) = Some (True, T) \<and>
     ht_repr two_facts 0 T ((\<lambda>_. [])(7 := [16])) \<and> ht_hash_type T = FIELD_INT"
proof -
  have key: "hkey FIELD_INT 7 = Some 7" by (simp add: hkey_def field_int_def)
  have "ht_repr two_facts 0 (ht_setup 0 FIELD_INT) (\<lambda>_. [])" by (rule ht_setup_repr) (simp add: junk_ok_def)
  from ht_insert_repr [OF this, of 16 7 7 0] show ?thesis
    using key by (auto simp: ht_setup_def two_facts_def tuple_get_field_def junk_ok_def)
qed

theorem hash_table_refines_witness:
  "\<exists>T T' pos. ht_insert two_facts 0 0 16 (ht_setup 0 FIELD_INT) = Some (True, T) \<and>
     ht_insert two_facts 0 0 24 T = Some (False, T') \<and> ht_repr two_facts 0 T' ((\<lambda>_. [])(7 := [16, 24])) \<and>
     ht_lookup_list 7 T = Some (Some pos)"
proof -
  from one_fact_table obtain T where T: "ht_insert two_facts 0 0 16 (ht_setup 0 FIELD_INT) = Some (True, T)"
    "ht_repr two_facts 0 T ((\<lambda>_. [])(7 := [16]))" "ht_hash_type T = FIELD_INT" by blast
  have "card {k :: tuple_field. ((\<lambda>_. [])(7 := [16 :: ptr_val])) k \<noteq> []} < 65535" by simp
  with hash_table_refines [of two_facts 0 T "(\<lambda>_. [])(7 := [16])" 24 7 7 0] T show ?thesis
    by (auto simp: two_facts_def tuple_get_field_def junk_ok_def hkey_def field_int_def)
qed

subsection \<open>What the conditions of the contract exclude\<close>

text \<open>
  A table whose memory had a bit set in the place of the bitmap: the bucket of a fact is taken for a table
  and its null pointer is followed.
\<close>

lemma junk_bitmap_crashes:
  assumes "tuple_get_field tuples field item = Some v" "hkey ty v = Some k" "bit junk (kidx ty 0 k)"
  shows "ht_insert tuples field junk' item (ht_setup junk ty) = None"
proof -
  from hkey_facts [OF assms(2)] obtain h where h: "hash_field ty v = Some h" "hash_field ty k = Some h" by auto
  have i: "mod_hash (h AND HASH_TABLE_SUBHASH_MASK) = kidx ty 0 k" using kidx_next(1) [of 0 ty k] h(2) by simp
  have "is_subhash (kidx ty 0 k) (sub_setup junk)" using assms(3) by (simp add: is_subhash_def sub_setup_def one_word_bit)
  moreover have "get_subhash (kidx ty 0 k) (sub_setup junk) = None"
    by (simp add: get_subhash_def slot_at_def sub_setup_def)
  ultimately have "sub_insert ty junk' h item v 0 (sub_setup junk) = None"
    by (subst sub_insert.simps) (simp add: i)
  then show ?thesis using assms(1) h(1) by (simp add: ht_insert_def ht_setup_def)
qed

end
