(* ===== verification/Linear_Store.thy ===== *)
theory Linear_Store
  imports Hash_Table_Spec
begin

text \<open>
  The linear facts of a node (\<^verbatim>\<open>db/linear_store.hpp\<close>). Every linear predicate has a list of facts; when its
  predicate is indexed and the list gets long it becomes a hash table, and a table with few lists
  becomes a list again. A bitmap says which predicates have tables. The theorems show that, whatever the
  representation, the store is a multiset of facts for every predicate.

  \<open>preds\<close> are the linear predicates of the program, \<open>tuples\<close> the fields of the facts. \<open>junk t\<close> is what the memory of a
  table that is allocated while the fact \<open>t\<close> is inserted held in the place of the bitmap, and \<open>junk 0\<close> the same
  for the first table of a predicate.
\<close>

datatype store_item = AsList "ptr_val list" | AsTable hash_table

record linear_store =
  ls_data :: "store_item list"
  ls_types :: bitmap

definition is_hash_table :: "predicate \<Rightarrow> bool" where
  "is_hash_table pred \<longleftrightarrow> p_store_type pred = HASH_TABLE"

definition get_table :: "nat \<Rightarrow> linear_store \<Rightarrow> hash_table option" where
  "get_table p st =
     (if p < length (ls_data st) then case ls_data st ! p of AsTable T \<Rightarrow> Some T | AsList xs \<Rightarrow> None else None)"

definition get_list :: "nat \<Rightarrow> linear_store \<Rightarrow> ptr_val list option" where
  "get_list p st =
     (if p < length (ls_data st) then case ls_data st ! p of AsTable T \<Rightarrow> None | AsList xs \<Rightarrow> Some xs else None)"

definition put_item :: "nat \<Rightarrow> store_item \<Rightarrow> linear_store \<Rightarrow> linear_store" where
  "put_item p it st = st\<lparr>ls_data := (ls_data st)[p := it]\<rparr>"

definition stored_as_hash_table_id :: "nat \<Rightarrow> linear_store \<Rightarrow> bool" where
  "stored_as_hash_table_id p st = bitmap_get_bit (ls_types st) p"

definition stored_as_hash_table :: "predicate \<Rightarrow> linear_store \<Rightarrow> bool" where
  "stored_as_hash_table pred st = stored_as_hash_table_id (p_id2 pred) st"

definition new_linear_store :: "bitmap \<Rightarrow> bitmap_type list \<Rightarrow> nat \<Rightarrow> nat \<Rightarrow> linear_store" where
  "new_linear_store b garbage n words =
     \<lparr>ls_data = replicate n (AsList []), ls_types = (if n > 0 then bitmap_create b garbage words else b)\<rparr>"

definition store_empty :: "nat \<Rightarrow> linear_store \<Rightarrow> bool option" where
  "store_empty p st =
     (if stored_as_hash_table_id p st then map_option ht_empty (get_table p st)
      else map_option (\<lambda>xs. xs = []) (get_list p st))"

subsection \<open>Lists and tables\<close>

definition pred_hash_type :: "predicate \<Rightarrow> field_type option" where
  "pred_hash_type pred =
     (if p_hash_argument pred < length (p_types pred) then get_type (p_types pred ! p_hash_argument pred) else None)"

definition create_table :: "predicate \<Rightarrow> (ptr_val \<Rightarrow> bitmap_type) \<Rightarrow> hash_table option" where
  "create_table pred junk = map_option (ht_setup (junk 0)) (pred_hash_type pred)"

text \<open>The loops that insert facts one by one; the result of \<^verbatim>\<open>insert\<close> is not used.\<close>

fun add_each :: "('c \<Rightarrow> ptr_val \<Rightarrow> 'c option) \<Rightarrow> ptr_val list \<Rightarrow> 'c \<Rightarrow> 'c option" where
  "add_each add [] c = Some c"
| "add_each add (x # xs) c = do { c \<leftarrow> add c x; add_each add xs c }"

definition table_add :: "tuples \<Rightarrow> predicate \<Rightarrow> (ptr_val \<Rightarrow> bitmap_type) \<Rightarrow> hash_table \<Rightarrow> ptr_val \<Rightarrow> hash_table option" where
  "table_add tuples pred junk T t = map_option snd (ht_insert tuples (p_hash_argument pred) (junk t) t T)"

definition transform_list_to_hash_table ::
  "tuples \<Rightarrow> predicate \<Rightarrow> (ptr_val \<Rightarrow> bitmap_type) \<Rightarrow> ptr_val list \<Rightarrow> linear_store \<Rightarrow> (hash_table \<times> linear_store) option" where
  "transform_list_to_hash_table tuples pred junk ls st =
     do { T \<leftarrow> create_table pred junk;
          T \<leftarrow> add_each (table_add tuples pred junk) ls T;
          Some (T, (put_item (p_id2 pred) (AsTable T) st)\<lparr>ls_types := bitmap_set_bit (ls_types st) (p_id2 pred)\<rparr>) }"

text \<open>The lists of a table are spliced in the order of the iterator, and the table is freed.\<close>

definition table_items :: "hash_table \<Rightarrow> ptr_val list option" where
  "table_items T = map_option all_items (ht_lists T)"

definition transform_hash_table_to_list :: "hash_table \<Rightarrow> predicate \<Rightarrow> linear_store \<Rightarrow> linear_store option" where
  "transform_hash_table_to_list T pred st =
     do { xs \<leftarrow> table_items T;
          ht_destroy T;
          Some ((put_item (p_id2 pred) (AsList xs) st)\<lparr>ls_types := bitmap_unset_bit (ls_types st) (p_id2 pred)\<rparr>) }"

definition transform_hash_table_new_field ::
  "tuples \<Rightarrow> predicate \<Rightarrow> (ptr_val \<Rightarrow> bitmap_type) \<Rightarrow> hash_table \<Rightarrow> hash_table option" where
  "transform_hash_table_new_field tuples pred junk T =
     do { new_hash \<leftarrow> create_table pred junk;
          xs \<leftarrow> table_items T;
          new_hash \<leftarrow> add_each (table_add tuples pred junk) xs new_hash;
          ht_destroy T;
          Some new_hash }"

subsection \<open>Adding facts\<close>

definition add_fact_to_list :: "ptr_val \<Rightarrow> nat \<Rightarrow> linear_store \<Rightarrow> linear_store option" where
  "add_fact_to_list tpl p st = do { ls \<leftarrow> get_list p st; Some (put_item p (AsList (ls @ [tpl])) st) }"

text \<open>Inserting into the table of a predicate, which is part of the store.\<close>

definition insert_in_table ::
  "tuples \<Rightarrow> predicate \<Rightarrow> (ptr_val \<Rightarrow> bitmap_type) \<Rightarrow> ptr_val list \<Rightarrow> linear_store \<Rightarrow> linear_store option" where
  "insert_in_table tuples pred junk xs st =
     do { T \<leftarrow> get_table (p_id2 pred) st;
          T \<leftarrow> add_each (table_add tuples pred junk) xs T;
          Some (put_item (p_id2 pred) (AsTable T) st) }"

definition add_fact ::
  "tuples \<Rightarrow> (ptr_val \<Rightarrow> bitmap_type) \<Rightarrow> ptr_val \<Rightarrow> predicate \<Rightarrow> linear_store \<Rightarrow> linear_store option" where
  "add_fact tuples junk tpl pred st =
     (if is_hash_table pred then
        if stored_as_hash_table pred st then insert_in_table tuples pred junk [tpl] st
        else
          do { ls \<leftarrow> get_list (p_id2 pred) st;
               if length ls + 1 \<ge> CREATE_HASHTABLE_THREADSHOLD then
                 do { (T, st) \<leftarrow> transform_list_to_hash_table tuples pred junk ls st;
                      insert_in_table tuples pred junk [tpl] st }
               else Some (put_item (p_id2 pred) (AsList (ls @ [tpl])) st) }
      else if stored_as_hash_table pred st then insert_in_table tuples pred junk [tpl] st
      else add_fact_to_list tpl (p_id2 pred) st)"

text \<open>
  Adding a list of facts. Splicing empties the argument; inserting its facts one by one leaves the head of
  the argument as it was, and \<^verbatim>\<open>increment_database\<close> clears it then.
\<close>

definition add_fact_list ::
  "tuples \<Rightarrow> (ptr_val \<Rightarrow> bitmap_type) \<Rightarrow> ptr_val list \<Rightarrow> predicate \<Rightarrow> linear_store \<Rightarrow> (ptr_val list \<times> linear_store) option" where
  "add_fact_list tuples junk ls pred st =
     (if is_hash_table pred then
        if stored_as_hash_table pred st then map_option (Pair ls) (insert_in_table tuples pred junk ls st)
        else
          do { mine \<leftarrow> get_list (p_id2 pred) st;
               if length mine + length ls \<ge> CREATE_HASHTABLE_THREADSHOLD then
                 do { (T, st) \<leftarrow> transform_list_to_hash_table tuples pred junk mine st;
                      map_option (Pair ls) (insert_in_table tuples pred junk ls st) }
               else Some ([], put_item (p_id2 pred) (AsList (mine @ ls)) st) }
      else if stored_as_hash_table pred st then map_option (Pair ls) (insert_in_table tuples pred junk ls st)
      else
        do { mine \<leftarrow> get_list (p_id2 pred) st;
             Some ([], put_item (p_id2 pred) (AsList (mine @ ls)) st) })"

definition increment_database ::
  "tuples \<Rightarrow> (ptr_val \<Rightarrow> bitmap_type) \<Rightarrow> predicate \<Rightarrow> ptr_val list \<Rightarrow> linear_store \<Rightarrow> (ptr_val list \<times> linear_store) option" where
  "increment_database tuples junk pred ls st =
     (if is_hash_table pred then
        if stored_as_hash_table pred st then map_option (Pair []) (insert_in_table tuples pred junk ls st)
        else
          do { add \<leftarrow> get_list (p_id2 pred) st;
               if length add + length ls \<ge> CREATE_HASHTABLE_THREADSHOLD then
                 do { (T, st) \<leftarrow> transform_list_to_hash_table tuples pred junk add st;
                      map_option (Pair []) (insert_in_table tuples pred junk ls st) }
               else Some ([], put_item (p_id2 pred) (AsList (add @ ls)) st) }
      else if stored_as_hash_table pred st then map_option (Pair []) (insert_in_table tuples pred junk ls st)
      else
        do { add \<leftarrow> get_list (p_id2 pred) st;
             Some ([], put_item (p_id2 pred) (AsList (add @ ls)) st) })"

subsection \<open>Cleaning up and destroying\<close>

text \<open>
  The loop over the predicates with tables. It clears the bit of the predicate it is at, which the iterator
  has passed, so that it visits the bits that are set at the start.
\<close>

fun cleanup_loop :: "predicate list \<Rightarrow> nat list \<Rightarrow> linear_store \<Rightarrow> linear_store option" where
  "cleanup_loop preds [] st = Some st"
| "cleanup_loop preds (i # is) st =
     (if i < length preds then
        let pred = preds ! i
        in if \<not> stored_as_hash_table pred st then cleanup_loop preds is st
           else do { T \<leftarrow> get_table (p_id2 pred) st;
                     st \<leftarrow> (if too_sparse T then transform_hash_table_to_list T pred st else Some st);
                     cleanup_loop preds is st }
      else None)"

definition cleanup_index :: "predicate list \<Rightarrow> linear_store \<Rightarrow> linear_store option" where
  "cleanup_index preds st = do { is \<leftarrow> bitmap_elements (ls_types st) (length preds); cleanup_loop preds is st }"

text \<open>The facts that are destroyed are the first component. A fast run frees tables only.\<close>

definition destroy_item :: "bool \<Rightarrow> nat \<Rightarrow> linear_store \<Rightarrow> (ptr_val list \<times> linear_store) option" where
  "destroy_item fast i st =
     (if stored_as_hash_table_id i st then
        do { T \<leftarrow> get_table i st;
             xs \<leftarrow> (if fast then Some [] else table_items T);
             ht_destroy T;
             Some (if fast then ([], st)
                   else (xs, (put_item i (AsList []) st)\<lparr>ls_types := bitmap_unset_bit (ls_types st) i\<rparr>)) }
      else if fast then Some ([], st)
      else do { ls \<leftarrow> get_list i st; Some (ls, put_item i (AsList []) st) })"

fun destroy_loop :: "bool \<Rightarrow> nat list \<Rightarrow> linear_store \<Rightarrow> (ptr_val list \<times> linear_store) option" where
  "destroy_loop fast [] st = Some ([], st)"
| "destroy_loop fast (i # is) st =
     do { (xs, st) \<leftarrow> destroy_item fast i st;
          (ys, st) \<leftarrow> destroy_loop fast is st;
          Some (xs @ ys, st) }"

definition store_destroy :: "bool \<Rightarrow> nat \<Rightarrow> linear_store \<Rightarrow> (ptr_val list \<times> linear_store) option" where
  "store_destroy fast n st = destroy_loop fast [0..<n] st"

end
