(* ===== verification/Linear_Store_Spec.thy ===== *)
theory Linear_Store_Spec
  imports Linear_Store
begin

text \<open>
  What the store of linear facts promises. Lists, hash tables and the store as a whole share one contract, the locale
  \<open>fact_container\<close>: adding a fact adds it to a multiset. Its consequence for the loops that add many facts is
  proved once and used for all of them.
\<close>

subsection \<open>Containers of facts\<close>

locale fact_container =
  fixes holds :: "'c \<Rightarrow> ptr_val multiset \<Rightarrow> bool"
    and accepts :: "ptr_val \<Rightarrow> bool"
    and add :: "'c \<Rightarrow> ptr_val \<Rightarrow> 'c option"
  assumes add_holds: "holds c M \<Longrightarrow> accepts x \<Longrightarrow> size M < 65535 \<Longrightarrow> \<exists>c'. add c x = Some c' \<and> holds c' (add_mset x M)"
begin

lemma add_each_holds:
  "holds c M \<Longrightarrow> \<forall>x \<in> set xs. accepts x \<Longrightarrow> size M + length xs \<le> 65535 \<Longrightarrow>
     \<exists>c'. add_each add xs c = Some c' \<and> holds c' (M + mset xs)"
proof (induction xs arbitrary: c M)
  case (Cons x xs)
  from add_holds [of c M x] Cons.prems obtain c1 where c1: "add c x = Some c1" "holds c1 (add_mset x M)" by auto
  from Cons.IH [OF c1(2)] Cons.prems c1(1) show ?case by auto
qed simp

end

text \<open>A fact has a key for the index of its predicate.\<close>

definition indexable :: "tuples \<Rightarrow> predicate \<Rightarrow> ptr_val \<Rightarrow> bool" where
  "indexable tuples pred t \<longleftrightarrow>
     (\<exists>ty v k. pred_hash_type pred = Some ty \<and> tuple_get_field tuples (p_hash_argument pred) t = Some v \<and> hkey ty v = Some k)"

definition table_holds :: "tuples \<Rightarrow> predicate \<Rightarrow> hash_table \<Rightarrow> ptr_val multiset \<Rightarrow> bool" where
  "table_holds tuples pred T M \<longleftrightarrow>
     pred_hash_type pred = Some (ht_hash_type T) \<and> (\<exists>m. ht_repr tuples (p_hash_argument pred) T m) \<and>
     mset (all_items (sub_lists (ht_sh T))) = M"

lemma table_holds_size: "table_holds tuples pred T M \<Longrightarrow> ht_elems T = size M"
  by (auto simp: table_holds_def ht_repr_def)

lemma table_keys_bound:
  assumes "ht_repr tuples field T m"
  shows "card {k. m k \<noteq> []} \<le> ht_elems T"
proof -
  have wf: "wf_sub (tuple_get_field tuples field) (ht_hash_type T) 0 (ht_sh T)" using assms by (simp add: ht_repr_def)
  have "length ls \<le> length (all_items ls)" if "\<forall>l \<in> set ls. hl_items l \<noteq> []" for ls
    using that
  proof (induction ls)
    case (Cons l ls)
    then show ?case by (cases "hl_items l") auto
  qed simp
  moreover have "\<forall>l \<in> set (sub_lists (ht_sh T)). hl_items l \<noteq> []" using wf_sub_lists(2) [OF wf] by (auto simp: list_ok_def)
  ultimately show ?thesis using ht_repr_keys(2) [OF assms] assms by (simp add: ht_repr_def)
qed

interpretation table: fact_container "table_holds tuples pred" "\<lambda>t. indexable tuples pred t \<and> junk_ok (junk t)"
    "table_add tuples pred junk" for tuples pred junk
proof
  fix T M x
  assume T: "table_holds tuples pred T M" and x: "indexable tuples pred x \<and> junk_ok (junk x)" and n: "size M < 65535"
  from T obtain m where m: "ht_repr tuples (p_hash_argument pred) T m" by (auto simp: table_holds_def)
  from x T obtain v k where v: "tuple_get_field tuples (p_hash_argument pred) x = Some v" "hkey (ht_hash_type T) v = Some k"
    by (auto simp: indexable_def table_holds_def)
  have "card {k. m k \<noteq> []} < 65535" using table_keys_bound [OF m] table_holds_size [OF T] n by simp
  from ht_insert_repr [OF m v this, of "junk x"] x obtain T' where
    "ht_insert tuples (p_hash_argument pred) (junk x) x T = Some (m k = [], T')"
    "ht_repr tuples (p_hash_argument pred) T' (m(k := m k @ [x]))" "ht_hash_type T' = ht_hash_type T"
    "mset (all_items (sub_lists (ht_sh T'))) = add_mset x (mset (all_items (sub_lists (ht_sh T))))" by blast
  then show "\<exists>T'. table_add tuples pred junk T x = Some T' \<and> table_holds tuples pred T' (add_mset x M)"
    using T by (auto simp: table_add_def table_holds_def)
qed

lemma new_table_holds:
  assumes "pred_hash_type pred = Some ty" "junk_ok (junk 0)"
  shows "\<exists>T. create_table pred junk = Some T \<and> table_holds tuples pred T {#}"
  using assms ht_setup_repr [OF assms(2), of tuples "p_hash_argument pred" ty] sub_setup_flat(2) [of "junk 0"]
  by (auto simp: create_table_def table_holds_def ht_setup_def)

lemma table_items_holds:
  assumes "table_holds tuples pred T M"
  shows "\<exists>xs. table_items T = Some xs \<and> mset xs = M \<and> (\<forall>x \<in> set xs. indexable tuples pred x)" "\<exists>r. ht_destroy T = Some r"
proof -
  from assms have wf: "wf_sub (tuple_get_field tuples (p_hash_argument pred)) (ht_hash_type T) 0 (ht_sh T)"
    by (auto simp: table_holds_def ht_repr_def)
  have "table_items T = Some (all_items (sub_lists (ht_sh T)))"
    using iterate_ok [OF wf] by (simp add: table_items_def ht_lists_def)
  moreover have "indexable tuples pred x" if "x \<in> set (all_items (sub_lists (ht_sh T)))" for x
  proof -
    from that obtain l where "l \<in> set (sub_lists (ht_sh T))" "x \<in> set (hl_items l)" by (auto simp: all_items_def)
    with wf_sub_lists(2) [OF wf] have "Option.bind (tuple_get_field tuples (p_hash_argument pred) x) (hkey (ht_hash_type T)) \<noteq> None"
      by (auto simp: list_ok_def)
    then show ?thesis using assms by (auto simp: indexable_def table_holds_def bind_eq_Some_conv)
  qed
  ultimately show "\<exists>xs. table_items T = Some xs \<and> mset xs = M \<and> (\<forall>x \<in> set xs. indexable tuples pred x)"
    using assms by (auto simp: table_holds_def)
  show "\<exists>r. ht_destroy T = Some r" using destroy_ok(1) [OF wf] by (simp add: ht_destroy_def)
qed

lemma table_erase_holds:
  assumes "table_holds tuples pred T M" "list_at_pos pos (ht_sh T) = Some l" "n < length (hl_items l)"
  shows "\<exists>T'. ht_erase_from_list pos n T = Some T' \<and> table_holds tuples pred T' (M - {#hl_items l ! n#}) \<and> hl_items l ! n \<in># M"
proof -
  from assms(1) obtain m where m: "ht_repr tuples (p_hash_argument pred) T m" by (auto simp: table_holds_def)
  have "hl_items l = m (lkey (ht_hash_type T) l)"
    using m look_mem [OF wf_sub_lists(1) list_at_pos_mem [OF assms(2)]] by (auto simp: ht_repr_def)
  with ht_erase_repr [OF m assms(2) refl] assms(3) obtain T' where
    T': "ht_erase_from_list pos n T = Some T'" "\<exists>m. ht_repr tuples (p_hash_argument pred) T' m" "ht_hash_type T' = ht_hash_type T"
      "add_mset (hl_items l ! n) (mset (all_items (sub_lists (ht_sh T')))) = mset (all_items (sub_lists (ht_sh T)))" by force
  moreover have "mset (all_items (sub_lists (ht_sh T'))) = M - {#hl_items l ! n#}" "hl_items l ! n \<in># M"
    using T'(4) assms(1) by (auto simp: table_holds_def simp flip: T'(4))
  ultimately show ?thesis using assms(1) by (auto simp: table_holds_def)
qed

subsection \<open>The store\<close>

fun item_holds :: "tuples \<Rightarrow> predicate \<Rightarrow> store_item \<Rightarrow> ptr_val multiset \<Rightarrow> bool" where
  "item_holds tuples pred (AsList xs) N \<longleftrightarrow> mset xs = N \<and> (is_hash_table pred \<longrightarrow> (\<forall>x \<in> set xs. indexable tuples pred x))"
| "item_holds tuples pred (AsTable T) N \<longleftrightarrow> is_hash_table pred \<and> table_holds tuples pred T N"

fun is_table :: "store_item \<Rightarrow> bool" where
  "is_table (AsList xs) = False"
| "is_table (AsTable T) = True"

text \<open>The linear predicates of a program: each has its own index, and an indexed one has a field to hash.\<close>

definition linear_preds_ok :: "predicate list \<Rightarrow> bool" where
  "linear_preds_ok preds \<longleftrightarrow>
     (\<forall>i < length preds. p_id2 (preds ! i) = i \<and> (is_hash_table (preds ! i) \<longrightarrow> pred_hash_type (preds ! i) \<noteq> None))"

definition store_holds :: "tuples \<Rightarrow> predicate list \<Rightarrow> nat \<Rightarrow> linear_store \<Rightarrow> (nat \<Rightarrow> ptr_val multiset) \<Rightarrow> bool" where
  "store_holds tuples preds sz st M \<longleftrightarrow>
     length (ls_data st) = length preds \<and> wf_bitmap sz (ls_types st) \<and> length preds \<le> 64 * sz \<and>
     (\<forall>i < length preds. bitmap_get_bit (ls_types st) i = is_table (ls_data st ! i) \<and>
        item_holds tuples (preds ! i) (ls_data st ! i) (M i))"

lemma store_put:
  assumes "store_holds tuples preds sz st M" "i < length preds" "item_holds tuples (preds ! i) it N"
    "wf_bitmap sz b" "\<And>j. j < length preds \<Longrightarrow> bitmap_get_bit b j = (if j = i then is_table it else bitmap_get_bit (ls_types st) j)"
  shows "store_holds tuples preds sz ((put_item i it st)\<lparr>ls_types := b\<rparr>) (M(i := N))"
  using assms by (auto simp: store_holds_def put_item_def nth_list_update)

lemma store_put_same:
  assumes "store_holds tuples preds sz st M" "i < length preds" "item_holds tuples (preds ! i) it N"
    "is_table it = is_table (ls_data st ! i)"
  shows "store_holds tuples preds sz (put_item i it st) (M(i := N))"
proof -
  have "store_holds tuples preds sz ((put_item i it st)\<lparr>ls_types := ls_types st\<rparr>) (M(i := N))"
    using assms by (intro store_put) (auto simp: store_holds_def)
  then show ?thesis by (simp add: put_item_def)
qed

lemma store_item_cases:
  assumes "store_holds tuples preds sz st M" "i < length preds"
  obtains (list) xs where "ls_data st ! i = AsList xs" "get_list i st = Some xs" "\<not> stored_as_hash_table_id i st"
      "mset xs = M i" "is_hash_table (preds ! i) \<longrightarrow> (\<forall>x \<in> set xs. indexable tuples (preds ! i) x)"
  | (tabled) T where "ls_data st ! i = AsTable T" "get_table i st = Some T" "stored_as_hash_table_id i st"
      "is_hash_table (preds ! i)" "table_holds tuples (preds ! i) T (M i)"
  using assms by (cases "ls_data st ! i") (auto simp: store_holds_def get_list_def get_table_def stored_as_hash_table_id_def)

lemma insert_in_table_holds:
  assumes st: "store_holds tuples preds sz st M" and i: "i < length preds" "p_id2 (preds ! i) = i"
    and T: "ls_data st ! i = AsTable T" and xs: "\<forall>x \<in> set xs. indexable tuples (preds ! i) x \<and> junk_ok (junk x)"
    and n: "size (M i) + length xs \<le> 65535"
  shows "\<exists>st'. insert_in_table tuples (preds ! i) junk xs st = Some st' \<and> store_holds tuples preds sz st' (M(i := M i + mset xs))"
proof -
  have "table_holds tuples (preds ! i) T (M i)" "get_table i st = Some T" and h: "is_hash_table (preds ! i)"
    using st i(1) T by (auto simp: store_holds_def get_table_def)
  with table.add_each_holds [OF this(1) xs n] obtain T' where
    "add_each (table_add tuples (preds ! i) junk) xs T = Some T'" "table_holds tuples (preds ! i) T' (M i + mset xs)" by blast
  then show ?thesis
    using store_put_same [OF st i(1), of "AsTable T'"] T h \<open>get_table i st = Some T\<close>
    by (simp add: insert_in_table_def i(2))
qed

lemma to_table_holds:
  assumes st: "store_holds tuples preds sz st M" and i: "i < length preds" "p_id2 (preds ! i) = i" "is_hash_table (preds ! i)"
    and ty: "pred_hash_type (preds ! i) = Some ty" and xs: "ls_data st ! i = AsList xs" and junk: "\<And>t. junk_ok (junk t)"
    and n: "size (M i) \<le> 65535"
  shows "\<exists>T st'. transform_list_to_hash_table tuples (preds ! i) junk xs st = Some (T, st') \<and>
    ls_data st' ! i = AsTable T \<and> store_holds tuples preds sz st' M"
proof -
  have ok: "mset xs = M i" "\<forall>x \<in> set xs. indexable tuples (preds ! i) x \<and> junk_ok (junk x)"
    using st i xs junk by (auto simp: store_holds_def)
  from new_table_holds [where junk = junk, OF ty junk] obtain T0 where T0: "create_table (preds ! i) junk = Some T0" "table_holds tuples (preds ! i) T0 {#}"
    by blast
  have "size (M i) = length xs" using ok(1) by (metis size_mset)
  with table.add_each_holds [OF T0(2) ok(2)] n ok(1) obtain T where
    T: "add_each (table_add tuples (preds ! i) junk) xs T0 = Some T" "table_holds tuples (preds ! i) T (M i)" by auto
  have b: "wf_bitmap sz (ls_types st)" "i < 64 * sz" "length preds \<le> 64 * sz" using st i(1) by (auto simp: store_holds_def)
  have "store_holds tuples preds sz ((put_item i (AsTable T) st)\<lparr>ls_types := bitmap_set_bit (ls_types st) i\<rparr>) (M(i := M i))"
    using b T(2) i bm.inv_put [OF b(1,2)] bm.get_put [OF b(1,2)] by (intro store_put [OF st i(1)]) auto
  then show ?thesis
    using T0(1) T(1) st i(1) by (auto simp: transform_list_to_hash_table_def i(2) put_item_def store_holds_def)
qed

lemma to_list_holds:
  assumes st: "store_holds tuples preds sz st M" and i: "i < length preds" "p_id2 (preds ! i) = i"
    and T: "ls_data st ! i = AsTable T"
  shows "\<exists>st'. transform_hash_table_to_list T (preds ! i) st = Some st' \<and> store_holds tuples preds sz st' M"
proof -
  have T': "table_holds tuples (preds ! i) T (M i)" using st i T by (auto simp: store_holds_def)
  from table_items_holds [OF T'] obtain xs r where
    xs: "table_items T = Some xs" "mset xs = M i" "\<forall>x \<in> set xs. indexable tuples (preds ! i) x" "ht_destroy T = Some r" by blast
  have b: "wf_bitmap sz (ls_types st)" "i < 64 * sz" "length preds \<le> 64 * sz" using st i(1) by (auto simp: store_holds_def)
  have "store_holds tuples preds sz ((put_item i (AsList xs) st)\<lparr>ls_types := bitmap_unset_bit (ls_types st) i\<rparr>) (M(i := M i))"
    using b xs i bm.inv_del [OF b(1,2)] bm.get_del [OF b(1,2)] by (intro store_put [OF st i(1)]) auto
  then show ?thesis using xs by (simp add: transform_hash_table_to_list_def i(2))
qed

subsection \<open>Changing fields\<close>

text \<open>
  A field of a stored fact is changed in place. A table stays a table of its facts as long as the field that it is indexed by keeps its value.
\<close>

lemma wf_sub_cong:
  assumes "wf_sub val ty lv s" "\<forall>x \<in> set (all_items (sub_lists s)). val' x = val x"
  shows "wf_sub val' ty lv s"
  using assms
proof induction
  case (wf_subI lv tbl bm ul us)
  have items: "x \<in> set (all_items (sub_lists (SH tbl bm ul us)))"
    if "i < HASH_TABLE_PRIME" "l \<in> set (slot_lists (tbl ! i))" "x \<in> set (hl_items l)" for i l x
    using that wf_subI(2) nth_mem [of i tbl] by (force simp: all_items_def)
  have "slot_ok val' ty lv i (tbl ! i)" if i: "i < HASH_TABLE_PRIME" for i
  proof -
    have "val' x = val x" if "l \<in> set (slot_lists (tbl ! i))" "x \<in> set (hl_items l)" for l x
      using items [OF i that] wf_subI.prems by blast
    moreover have "slot_ok val ty lv i (tbl ! i)" using wf_subI(7) i by blast
    ultimately show ?thesis by (simp add: slot_ok_def list_ok_def)
  qed
  moreover have "wf_sub val' ty (Suc lv) t" if i: "i < HASH_TABLE_PRIME" and t: "tbl ! i = Sub t" for i t
  proof -
    have "\<forall>x \<in> set (all_items (sub_lists t)). val' x = val x"
      using items [OF i] t wf_subI.prems by (force simp: all_items_def)
    with wf_subI(8) i t show ?thesis by blast
  qed
  ultimately show ?case using wf_subI(1-7) by (intro wf_sub.wf_subI) auto
qed

fun item_list :: "store_item \<Rightarrow> ptr_val list" where
  "item_list (AsList xs) = xs"
| "item_list (AsTable T) = []"

fun item_tabled :: "store_item \<Rightarrow> ptr_val list" where
  "item_tabled (AsList xs) = []"
| "item_tabled (AsTable T) = all_items (sub_lists (ht_sh T))"

text \<open>The new fields of a fact with an index of \<open>pred\<close>, in a list or in a table.\<close>

definition same_key :: "tuples \<Rightarrow> tuples \<Rightarrow> predicate \<Rightarrow> ptr_val \<Rightarrow> bool" where
  "same_key tuples tuples' pred x \<longleftrightarrow>
     tuple_get_field tuples' (p_hash_argument pred) x = tuple_get_field tuples (p_hash_argument pred) x"

lemma store_holds_write:
  assumes st: "store_holds tuples preds sz st M"
    and w: "\<And>i x. i < length preds \<Longrightarrow> is_hash_table (preds ! i) \<Longrightarrow> x \<in> set (item_tabled (ls_data st ! i)) \<Longrightarrow> same_key tuples tuples' (preds ! i) x"
      "\<And>i x. i < length preds \<Longrightarrow> is_hash_table (preds ! i) \<Longrightarrow> x \<in> set (item_list (ls_data st ! i)) \<Longrightarrow> indexable tuples' (preds ! i) x"
  shows "store_holds tuples' preds sz st M"
proof -
  have "item_holds tuples' (preds ! i) (ls_data st ! i) (M i)" if i: "i < length preds" for i
  proof (cases "ls_data st ! i")
    case (AsList xs)
    then show ?thesis using st i w(2) [OF i] by (auto simp: store_holds_def)
  next
    case (AsTable T)
    then have T: "is_hash_table (preds ! i)" "table_holds tuples (preds ! i) T (M i)" using st i by (auto simp: store_holds_def)
    then obtain m where m: "ht_repr tuples (p_hash_argument (preds ! i)) T m" by (auto simp: table_holds_def)
    have "wf_sub (tuple_get_field tuples' (p_hash_argument (preds ! i))) (ht_hash_type T) 0 (ht_sh T)"
      by (rule wf_sub_cong [of "tuple_get_field tuples (p_hash_argument (preds ! i))"])
        (use m w(1) [OF i T(1)] AsTable in \<open>auto simp: ht_repr_def same_key_def\<close>)
    then have "ht_repr tuples' (p_hash_argument (preds ! i)) T m" using m by (simp add: ht_repr_def)
    then show ?thesis using T AsTable by (auto simp: table_holds_def)
  qed
  then show ?thesis using st by (simp add: store_holds_def)
qed

subsection \<open>Adding\<close>

text \<open>The three operations that add facts are one operation on lists.\<close>

definition absorb :: "tuples \<Rightarrow> (ptr_val \<Rightarrow> bitmap_type) \<Rightarrow> ptr_val list \<Rightarrow> predicate \<Rightarrow> linear_store \<Rightarrow> linear_store option" where
  "absorb tuples junk xs pred st =
     (if stored_as_hash_table pred st then insert_in_table tuples pred junk xs st
      else
        do { mine \<leftarrow> get_list (p_id2 pred) st;
             if is_hash_table pred \<and> length mine + length xs \<ge> CREATE_HASHTABLE_THREADSHOLD then
               do { (T, st) \<leftarrow> transform_list_to_hash_table tuples pred junk mine st;
                    insert_in_table tuples pred junk xs st }
             else Some (put_item (p_id2 pred) (AsList (mine @ xs)) st) })"

lemma add_fact_absorb: "add_fact tuples junk t pred st = absorb tuples junk [t] pred st"
  by (simp add: add_fact_def absorb_def add_fact_to_list_def cong: if_cong)

lemma add_fact_list_absorb: "map_option snd (add_fact_list tuples junk xs pred st) = absorb tuples junk xs pred st"
  by (auto simp: add_fact_list_def absorb_def option.map_comp comp_def option.map_ident split: Option.bind_splits)

lemma increment_database_absorb:
  "increment_database tuples junk pred xs st = map_option (Pair []) (absorb tuples junk xs pred st)"
  by (auto simp: increment_database_def absorb_def option.map_comp comp_def split: Option.bind_splits)

lemma absorb_holds:
  assumes st: "store_holds tuples preds sz st M" and preds: "linear_preds_ok preds" and i: "i < length preds"
    and xs: "is_hash_table (preds ! i) \<longrightarrow> (\<forall>x \<in> set xs. indexable tuples (preds ! i) x)"
    and junk: "\<And>t. junk_ok (junk t)" and n: "size (M i) + length xs \<le> 65535"
  shows "\<exists>st'. absorb tuples junk xs (preds ! i) st = Some st' \<and> store_holds tuples preds sz st' (M(i := M i + mset xs))"
proof -
  have p: "p_id2 (preds ! i) = i" using preds i by (simp add: linear_preds_ok_def)
  from st i show ?thesis
  proof (cases rule: store_item_cases)
    case (tabled T)
    have "\<forall>x \<in> set xs. indexable tuples (preds ! i) x \<and> junk_ok (junk x)" using xs junk tabled(4) by blast
    then show ?thesis
      using insert_in_table_holds [OF st i p tabled(1) _ n] tabled(3) by (simp add: absorb_def stored_as_hash_table_def p)
  next
    case (list mine)
    show ?thesis
    proof (cases "is_hash_table (preds ! i) \<and> length mine + length xs \<ge> CREATE_HASHTABLE_THREADSHOLD")
      case True
      with preds i obtain ty where ty: "pred_hash_type (preds ! i) = Some ty" by (auto simp: linear_preds_ok_def)
      have "size (M i) \<le> 65535" using n by simp
      from to_table_holds [where junk = junk, OF st i p _ ty list(1) junk this] True obtain T st1 where
        st1: "transform_list_to_hash_table tuples (preds ! i) junk mine st = Some (T, st1)" "ls_data st1 ! i = AsTable T"
          "store_holds tuples preds sz st1 M" by blast
      have "\<forall>x \<in> set xs. indexable tuples (preds ! i) x \<and> junk_ok (junk x)" using xs junk True by blast
      from insert_in_table_holds [OF st1(3) i p st1(2) this n] show ?thesis
        using True list(2,3) st1(1) by (simp add: absorb_def stored_as_hash_table_def p)
    next
      case False
      then have run: "absorb tuples junk xs (preds ! i) st = Some (put_item i (AsList (mine @ xs)) st)"
        using list(2,3) by (auto simp: absorb_def stored_as_hash_table_def p)
      have "item_holds tuples (preds ! i) (AsList (mine @ xs)) (M i + mset xs)" using list(4,5) xs by auto
      then show ?thesis using run store_put_same [OF st i, of "AsList (mine @ xs)"] list(1) by simp
    qed
  qed
qed

subsection \<open>Cleaning up and destroying\<close>

lemma cleanup_loop_holds:
  assumes "store_holds tuples preds sz st M" "linear_preds_ok preds" "\<forall>i \<in> set is. i < length preds"
  shows "\<exists>st'. cleanup_loop preds is st = Some st' \<and> store_holds tuples preds sz st' M"
  using assms(1,3)
proof (induction "is" arbitrary: st)
  case (Cons i "is")
  have i: "i < length preds" "p_id2 (preds ! i) = i" using assms(2) Cons.prems(2) by (auto simp: linear_preds_ok_def)
  from Cons.prems(1) i(1) show ?case
  proof (cases rule: store_item_cases)
    case (list xs)
    then show ?thesis using Cons.IH [OF Cons.prems(1)] Cons.prems(2) i by (simp add: stored_as_hash_table_def)
  next
    case (tabled T)
    have "\<exists>st1. (if too_sparse T then transform_hash_table_to_list T (preds ! i) st else Some st) = Some st1 \<and>
        store_holds tuples preds sz st1 M"
      using to_list_holds [OF Cons.prems(1) i tabled(1)] Cons.prems(1) by simp
    then obtain st1 where st1: "(if too_sparse T then transform_hash_table_to_list T (preds ! i) st else Some st) = Some st1"
      "store_holds tuples preds sz st1 M" by blast
    from Cons.IH [OF st1(2)] Cons.prems(2) show ?thesis
      using tabled(2,3) i st1(1) by (simp add: stored_as_hash_table_def)
  qed
qed simp

lemma cleanup_index_holds:
  assumes "store_holds tuples preds sz st M" "linear_preds_ok preds" "preds \<noteq> []"
  shows "\<exists>st'. cleanup_index preds st = Some st' \<and> store_holds tuples preds sz st' M"
proof -
  have "bitmap_elements (ls_types st) (length preds) = Some (filter (bitmap_get_bit (ls_types st)) [0..<length preds])"
    using assms by (intro bitmap_elements_in_order) (auto simp: store_holds_def)
  then show ?thesis
    using cleanup_loop_holds [OF assms(1,2), of "filter (bitmap_get_bit (ls_types st)) [0..<length preds]"]
    by (simp add: cleanup_index_def)
qed

lemma destroy_item_holds:
  assumes st: "store_holds tuples preds sz st M" and i: "i < length preds"
  shows "\<exists>xs st'. destroy_item False i st = Some (xs, st') \<and> mset xs = M i \<and> store_holds tuples preds sz st' (M(i := {#}))"
proof -
  have it: "item_holds tuples (preds ! i) (AsList []) {#}" by simp
  from st i show ?thesis
  proof (cases rule: store_item_cases)
    case (list xs)
    then show ?thesis using store_put_same [OF st i it] by (auto simp: destroy_item_def)
  next
    case (tabled T)
    from table_items_holds [OF tabled(5)] obtain xs r where
      xs: "table_items T = Some xs" "mset xs = M i" "ht_destroy T = Some r" by blast
    have b: "wf_bitmap sz (ls_types st)" "i < 64 * sz" "length preds \<le> 64 * sz" using st i(1) by (auto simp: store_holds_def)
    have "store_holds tuples preds sz ((put_item i (AsList []) st)\<lparr>ls_types := bitmap_unset_bit (ls_types st) i\<rparr>) (M(i := {#}))"
      using b bm.inv_del [OF b(1,2)] bm.get_del [OF b(1,2)] by (intro store_put [OF st i it]) auto
    then show ?thesis using tabled xs by (simp add: destroy_item_def)
  qed
qed

lemma destroy_loop_holds:
  assumes "store_holds tuples preds sz st M" "\<forall>i \<in> set is. i < length preds" "distinct is"
  shows "\<exists>xs st'. destroy_loop False is st = Some (xs, st') \<and> mset xs = (\<Sum>i\<leftarrow>is. M i) \<and>
    store_holds tuples preds sz st' (\<lambda>i. if i \<in> set is then {#} else M i)"
  using assms
proof (induction "is" arbitrary: st M)
  case (Cons i "is")
  from destroy_item_holds [OF Cons.prems(1), of i] Cons.prems(2) obtain xs st1 where
    st1: "destroy_item False i st = Some (xs, st1)" "mset xs = M i" "store_holds tuples preds sz st1 (M(i := {#}))" by auto
  from Cons.IH [OF st1(3)] Cons.prems obtain ys st2 where
    st2: "destroy_loop False is st1 = Some (ys, st2)" "mset ys = (\<Sum>j\<leftarrow>is. (M(i := {#})) j)"
      "store_holds tuples preds sz st2 (\<lambda>j. if j \<in> set is then {#} else (M(i := {#})) j)" by auto
  have "(\<Sum>j\<leftarrow>is. (M(i := {#})) j) = (\<Sum>j\<leftarrow>is. M j)"
    using Cons.prems(3) by (intro arg_cong [of _ _ sum_list] map_cong) auto
  moreover have "(\<lambda>j. if j \<in> set is then {#} else (M(i := {#})) j) = (\<lambda>j. if j \<in> set (i # is) then {#} else M j)" by auto
  ultimately show ?case using st1(1,2) st2 by (simp del: fun_upd_apply)
qed simp

subsection \<open>The contract of the store\<close>

text \<open>One predicate of a store is itself a container of facts.\<close>

interpretation store: fact_container
    "\<lambda>st N. store_holds tuples preds sz st (M(i := N)) \<and> linear_preds_ok preds \<and> i < length preds"
    "\<lambda>t. (is_hash_table (preds ! i) \<longrightarrow> indexable tuples (preds ! i) t) \<and> (\<forall>p. junk_ok (junk p))"
    "\<lambda>st t. add_fact tuples junk t (preds ! i) st" for tuples preds sz M i junk
proof
  fix st N x
  assume st: "store_holds tuples preds sz st (M(i := N)) \<and> linear_preds_ok preds \<and> i < length preds"
    and x: "(is_hash_table (preds ! i) \<longrightarrow> indexable tuples (preds ! i) x) \<and> (\<forall>p. junk_ok (junk p))" and n: "size N < 65535"
  have "\<exists>st'. absorb tuples junk [x] (preds ! i) st = Some st' \<and>
      store_holds tuples preds sz st' ((M(i := N))(i := (M(i := N)) i + mset [x]))"
    using st x n by (intro absorb_holds) auto
  then show "\<exists>st'. add_fact tuples junk x (preds ! i) st = Some st' \<and>
      (store_holds tuples preds sz st' (M(i := add_mset x N)) \<and> linear_preds_ok preds \<and> i < length preds)"
    using st by (simp add: add_fact_absorb)
qed

lemma new_store_holds:
  assumes "1 \<le> words" "words - 1 \<le> length garbage" "length preds \<le> 64 * words" "preds \<noteq> []"
  shows "store_holds tuples preds words (new_linear_store b garbage (length preds) words) (\<lambda>_. {#})"
proof -
  have "\<not> bitmap_get_bit (bitmap_create b garbage words) i" if "i < length preds" for i
    using bitmap_create_spec(2) [OF assms(1,2), of b] that assms(3) by (auto simp: bitmap_set_def)
  then show ?thesis
    using bitmap_create_spec(1) [OF assms(1,2), of b] assms by (simp add: store_holds_def new_linear_store_def)
qed

text \<open>
  C3. The store of linear facts is a multiset of facts for every linear predicate, whether they are in a list or in
  a hash table. \<^verbatim>\<open>add_fact\<close>, repeated for any facts, \<^verbatim>\<open>add_fact_list\<close> and \<^verbatim>\<open>increment_database\<close> add exactly
  the given facts, also when the list turns into a table on the way, and the last one empties its argument;
  \<^verbatim>\<open>cleanup_index\<close>, which turns sparse tables back into lists, changes nothing of what is stored; \<^verbatim>\<open>empty\<close> is exact;
  \<^verbatim>\<open>destroy\<close> destroys every fact exactly once and leaves an empty store. The conditions: facts of an indexed
  predicate have a key, tables get memory with a clear bitmap, and a predicate has at most 65535 facts.
\<close>

theorem linear_store_refines:
  assumes "store_holds tuples preds sz st M" "linear_preds_ok preds" "i < length preds" "\<forall>p. junk_ok (junk p)"
    "is_hash_table (preds ! i) \<longrightarrow> (\<forall>x \<in> set xs. indexable tuples (preds ! i) x)" "size (M i) + length xs \<le> 65535"
  shows "(\<exists>st'. add_each (\<lambda>st t. add_fact tuples junk t (preds ! i) st) xs st = Some st' \<and>
        store_holds tuples preds sz st' (M(i := M i + mset xs)))
    \<and> (\<exists>ls st'. add_fact_list tuples junk xs (preds ! i) st = Some (ls, st') \<and> store_holds tuples preds sz st' (M(i := M i + mset xs)))
    \<and> (\<exists>st'. increment_database tuples junk (preds ! i) xs st = Some ([], st') \<and> store_holds tuples preds sz st' (M(i := M i + mset xs)))
    \<and> (\<exists>st'. cleanup_index preds st = Some st' \<and> store_holds tuples preds sz st' M)
    \<and> store_empty i st = Some (M i = {#})
    \<and> (\<exists>ys st'. store_destroy False (length preds) st = Some (ys, st') \<and> mset ys = (\<Sum>j < length preds. M j) \<and>
        store_holds tuples preds sz st' (\<lambda>_. {#}))"
proof (intro conjI)
  have junk: "\<And>t. junk_ok (junk t)" using assms(4) by blast
  have "store_holds tuples preds sz st (M(i := M i)) \<and> linear_preds_ok preds \<and> i < length preds" using assms(1-3) by simp
  from store.add_each_holds [OF this, of xs junk] assms(4-6)
  show "\<exists>st'. add_each (\<lambda>st t. add_fact tuples junk t (preds ! i) st) xs st = Some st' \<and>
        store_holds tuples preds sz st' (M(i := M i + mset xs))" by auto
  from absorb_holds [where junk = junk, OF assms(1-3,5) junk assms(6)] obtain st1 where
    st1: "absorb tuples junk xs (preds ! i) st = Some st1" "store_holds tuples preds sz st1 (M(i := M i + mset xs))" by blast
  show "\<exists>ls st'. add_fact_list tuples junk xs (preds ! i) st = Some (ls, st') \<and> store_holds tuples preds sz st' (M(i := M i + mset xs))"
    using st1 add_fact_list_absorb [of tuples junk xs "preds ! i" st] by auto
  show "\<exists>st'. increment_database tuples junk (preds ! i) xs st = Some ([], st') \<and> store_holds tuples preds sz st' (M(i := M i + mset xs))"
    using st1 by (simp add: increment_database_absorb)
  show "\<exists>st'. cleanup_index preds st = Some st' \<and> store_holds tuples preds sz st' M"
    using assms(3) by (intro cleanup_index_holds [OF assms(1,2)]) auto
  from assms(1,3) show "store_empty i st = Some (M i = {#})"
  proof (cases rule: store_item_cases)
    case (list xs)
    then show ?thesis by (auto simp: store_empty_def)
  next
    case (tabled T)
    then show ?thesis using table_holds_size [OF tabled(5)] by (simp add: store_empty_def ht_empty_def)
  qed
  have *: "(\<Sum>j\<leftarrow>[0..<length preds]. M j) = (\<Sum>j < length preds. M j)"
    by (simp add: sum_list_distinct_conv_sum_set atLeast0LessThan)
  from destroy_loop_holds [OF assms(1), of "[0..<length preds]"] obtain ys st2 where
    st2: "destroy_loop False [0..<length preds] st = Some (ys, st2)" "mset ys = (\<Sum>j < length preds. M j)"
      "store_holds tuples preds sz st2 (\<lambda>j. if j \<in> set [0..<length preds] then {#} else M j)" unfolding * by auto
  moreover have "store_holds tuples preds sz st2 (\<lambda>_. {#})" using st2(3) by (auto simp: store_holds_def)
  ultimately show "\<exists>ys st'. store_destroy False (length preds) st = Some (ys, st') \<and> mset ys = (\<Sum>j < length preds. M j) \<and>
      store_holds tuples preds sz st' (\<lambda>_. {#})" by (auto simp: store_destroy_def)
qed

definition indexed_pred :: predicate where
  "indexed_pred = zero_predicate\<lparr>p_types := [BaseT FIELD_INT], p_is_linear := True, p_store_type := HASH_TABLE\<rparr>"

text \<open>Nine facts of an indexed predicate, which make its list a table.\<close>

theorem linear_store_refines_witness:
  "\<exists>st'. increment_database (\<lambda>p. [p]) (\<lambda>_. 0) indexed_pred [8, 16, 24, 32, 40, 48, 56, 64, 72]
       (new_linear_store \<lparr>bm_first = 0, bm_rest = []\<rparr> [] 1 1) = Some ([], st') \<and>
     store_holds (\<lambda>p. [p]) [indexed_pred] 1 st' ((\<lambda>_. {#})(0 := {#8, 16, 24, 32, 40, 48, 56, 64, 72#}))"
proof -
  have st: "store_holds (\<lambda>p. [p]) [indexed_pred] 1 (new_linear_store \<lparr>bm_first = 0, bm_rest = []\<rparr> [] 1 1) (\<lambda>_. {#})"
    using new_store_holds [of 1 "[]" "[indexed_pred]" "\<lambda>p. [p]" "\<lparr>bm_first = 0, bm_rest = []\<rparr>"] by simp
  have p: "linear_preds_ok [indexed_pred]" "p_hash_argument indexed_pred = 0" "pred_hash_type indexed_pred = Some FIELD_INT"
    by (simp_all add: linear_preds_ok_def indexed_pred_def zero_predicate_def pred_hash_type_def)
  have x: "indexable (\<lambda>p. [p]) indexed_pred t" for t by (simp add: indexable_def p(2,3) tuple_get_field_def hkey_def)
  have "\<forall>t. junk_ok 0" by (simp add: junk_ok_def)
  with linear_store_refines [OF st p(1), of 0 "\<lambda>_. 0" "[8, 16, 24, 32, 40, 48, 56, 64, 72]"] x show ?thesis by simp
qed

end
