(* ===== verification/Node_Db.thy ===== *)
theory Node_Db
  imports Linear_Store_Spec Rule_Matcher Trie
begin

text \<open>
  The node of the graph and its facts (\<^verbatim>\<open>db/node.hpp\<close>, \<^verbatim>\<open>db/temporary_store.hpp\<close>, \<^verbatim>\<open>vm/full_tuple.hpp\<close>, and what
  \<^verbatim>\<open>vm/state.cpp\<close> and the linear iterators of \<^verbatim>\<open>vm/exec.cpp\<close> do to them). A fact that another thread sends waits
  in the temporary store; the thread that runs the node moves it to the database and tells the rule
  matcher. A rule consumes facts of the database and generates facts, which are moved to the database when the rule
  has run. The theorems show that no fact gets lost on the way and that the matcher knows about every fact of the
  database.
\<close>

subsection \<open>The state\<close>

record full_tuple =
  ft_data :: ptr_val
  ft_pred :: predicate
  ft_is_aggregate :: bool
  ft_dir :: derivation_direction
  ft_depth :: nat

definition new_full_tuple :: "ptr_val \<Rightarrow> predicate \<Rightarrow> derivation_direction \<Rightarrow> nat \<Rightarrow> full_tuple" where
  "new_full_tuple tpl pred dir depth =
     \<lparr>ft_data = tpl, ft_pred = pred, ft_is_aggregate = False, ft_dir = dir, ft_depth = depth\<rparr>"

text \<open>The rules of the program, its linear predicates, the fields of the facts, and the memory for tables. Only the fields change while the program runs.\<close>

record db_env_t =
  de_rules :: program_rules
  de_linear :: "predicate list"
  de_tuples :: tuples
  de_junk :: "ptr_val \<Rightarrow> bitmap_type"
  de_desc :: bool
  de_no_priority :: float_val

record db_node =
  dn_refs :: nat
  dn_owner :: ptr_val
  dn_static_node :: ptr_val
  dn_default_priority :: float_val
  dn_priority :: float_val
  dn_linear :: linear_store
  dn_incoming :: "ptr_val list list"
  dn_incoming_persistent :: "full_tuple list"
  dn_incoming_action :: "full_tuple list"
  dn_matcher :: rule_matcher
  dn_unprocessed_facts :: bool
  dn_rounds :: "16 word"

subsection \<open>Work that arrives\<close>

definition add_linear_fact :: "db_env_t \<Rightarrow> ptr_val \<Rightarrow> predicate \<Rightarrow> db_node \<Rightarrow> db_node option" where
  "add_linear_fact E tpl pred nd =
     do { st \<leftarrow> add_fact (de_tuples E) (de_junk E) tpl pred (dn_linear nd);
          Some (nd\<lparr>dn_matcher := new_linear_fact (de_rules E) (p_id pred) (dn_matcher nd), dn_linear := st\<rparr>) }"

definition add_persistent_fact :: "ptr_val \<Rightarrow> predicate \<Rightarrow> derivation_direction \<Rightarrow> nat \<Rightarrow> db_node \<Rightarrow> db_node" where
  "add_persistent_fact tpl pred dir depth nd =
     nd\<lparr>dn_incoming_persistent := dn_incoming_persistent nd @ [new_full_tuple tpl pred dir depth]\<rparr>"

definition inner_add_work_myself ::
  "db_env_t \<Rightarrow> ptr_val \<Rightarrow> predicate \<Rightarrow> derivation_direction \<Rightarrow> nat \<Rightarrow> db_node \<Rightarrow> db_node option" where
  "inner_add_work_myself E tpl pred dir depth nd =
     (if p_is_action pred then
        Some (nd\<lparr>dn_incoming_action := dn_incoming_action nd @ [new_full_tuple tpl pred dir depth]\<rparr>)
      else if \<not> p_is_linear pred \<or> p_is_reused pred then Some (add_persistent_fact tpl pred dir depth nd)
      else add_linear_fact E tpl pred nd)"

definition add_work_myself ::
  "db_env_t \<Rightarrow> ptr_val \<Rightarrow> predicate \<Rightarrow> derivation_direction \<Rightarrow> nat \<Rightarrow> db_node \<Rightarrow> db_node option" where
  "add_work_myself E tpl pred dir depth nd = inner_add_work_myself E tpl pred dir depth (nd\<lparr>dn_unprocessed_facts := True\<rparr>)"

text \<open>A buffer of facts for one node: for every predicate a list of facts.\<close>

type_synonym buffer_node = "(predicate \<times> ptr_val list) list"

definition persistent_tuples :: "predicate \<Rightarrow> ptr_val list \<Rightarrow> full_tuple list" where
  "persistent_tuples pred ls = map (\<lambda>tpl. new_full_tuple tpl pred POSITIVE_DERIVATION 0) ls"

definition work_item_myself :: "db_env_t \<Rightarrow> predicate \<times> ptr_val list \<Rightarrow> db_node \<Rightarrow> db_node option" where
  "work_item_myself E item nd =
     (case item of
        (pred, ls) \<Rightarrow>
          if p_is_action pred then Some nd
          else if \<not> p_is_linear pred \<or> p_is_reused pred then
            Some (nd\<lparr>dn_incoming_persistent := dn_incoming_persistent nd @ persistent_tuples pred ls\<rparr>)
          else do { (ls, st) \<leftarrow> add_fact_list (de_tuples E) (de_junk E) ls pred (dn_linear nd);
                    Some (nd\<lparr>dn_matcher := new_linear_fact (de_rules E) (p_id pred) (dn_matcher nd), dn_linear := st\<rparr>) })"

fun each :: "('a \<Rightarrow> 's \<Rightarrow> 's option) \<Rightarrow> 'a list \<Rightarrow> 's \<Rightarrow> 's option" where
  "each f [] s = Some s"
| "each f (x # xs) s = do { s \<leftarrow> f x s; each f xs s }"

definition add_work_myself_buffer :: "db_env_t \<Rightarrow> buffer_node \<Rightarrow> db_node \<Rightarrow> db_node option" where
  "add_work_myself_buffer E b nd = each (work_item_myself E) b (nd\<lparr>dn_unprocessed_facts := True\<rparr>)"

definition full_tuple_myself :: "db_env_t \<Rightarrow> full_tuple \<Rightarrow> db_node \<Rightarrow> db_node option" where
  "full_tuple_myself E x nd =
     (if p_is_action (ft_pred x) then Some (nd\<lparr>dn_incoming_action := dn_incoming_action nd @ [x]\<rparr>)
      else if \<not> p_is_linear (ft_pred x) \<or> p_is_reused (ft_pred x) then
        Some (nd\<lparr>dn_incoming_persistent := dn_incoming_persistent nd @ [x]\<rparr>)
      else add_linear_fact E (ft_data x) (ft_pred x) nd)"

definition add_work_myself_list :: "db_env_t \<Rightarrow> full_tuple list \<Rightarrow> db_node \<Rightarrow> db_node option" where
  "add_work_myself_list E ls nd = each (full_tuple_myself E) ls (nd\<lparr>dn_unprocessed_facts := True\<rparr>)"

text \<open>Facts from other threads wait in the temporary store.\<close>

definition add_incoming_list :: "ptr_val list \<Rightarrow> predicate \<Rightarrow> db_node \<Rightarrow> db_node option" where
  "add_incoming_list ls pred nd =
     (if p_id2 pred < length (dn_incoming nd)
      then Some (nd\<lparr>dn_incoming := (dn_incoming nd)[p_id2 pred := dn_incoming nd ! p_id2 pred @ ls]\<rparr>) else None)"

definition add_incoming :: "ptr_val \<Rightarrow> predicate \<Rightarrow> db_node \<Rightarrow> db_node option" where
  "add_incoming tpl pred nd = add_incoming_list [tpl] pred nd"

definition inner_add_work_others ::
  "ptr_val \<Rightarrow> predicate \<Rightarrow> derivation_direction \<Rightarrow> nat \<Rightarrow> db_node \<Rightarrow> db_node option" where
  "inner_add_work_others tpl pred dir depth nd =
     (if p_is_action pred then
        Some (nd\<lparr>dn_incoming_action := dn_incoming_action nd @ [new_full_tuple tpl pred dir depth]\<rparr>)
      else if \<not> p_is_linear pred \<or> p_is_reused pred then Some (add_persistent_fact tpl pred dir depth nd)
      else add_incoming tpl pred nd)"

definition add_work_others :: "ptr_val \<Rightarrow> predicate \<Rightarrow> derivation_direction \<Rightarrow> nat \<Rightarrow> db_node \<Rightarrow> db_node option" where
  "add_work_others tpl pred dir depth nd = inner_add_work_others tpl pred dir depth (nd\<lparr>dn_unprocessed_facts := True\<rparr>)"

definition work_item_others :: "predicate \<times> ptr_val list \<Rightarrow> db_node \<Rightarrow> db_node option" where
  "work_item_others item nd =
     (case item of
        (pred, ls) \<Rightarrow>
          if p_is_action pred then Some (nd\<lparr>dn_incoming_action := dn_incoming_action nd @ persistent_tuples pred ls\<rparr>)
          else if \<not> p_is_linear pred \<or> p_is_reused pred then
            Some (nd\<lparr>dn_incoming_persistent := dn_incoming_persistent nd @ persistent_tuples pred ls\<rparr>)
          else add_incoming_list ls pred nd)"

definition add_work_others_buffer :: "buffer_node \<Rightarrow> db_node \<Rightarrow> db_node option" where
  "add_work_others_buffer b nd = each work_item_others b (nd\<lparr>dn_unprocessed_facts := True\<rparr>)"

subsection \<open>Running a node\<close>

text \<open>A new node; \<open>b\<close> and \<open>garbage\<close> are what the memory of its bitmap has.\<close>

definition new_db_node :: "db_env_t \<Rightarrow> float_val \<Rightarrow> float_val \<Rightarrow> bitmap \<Rightarrow> bitmap_type list \<Rightarrow> nat \<Rightarrow> rule_matcher \<Rightarrow> db_node" where
  "new_db_node E default_priority initial_priority b garbage words m =
     \<lparr>dn_refs = 0, dn_owner = 0, dn_static_node = 0, dn_default_priority = default_priority,
      dn_priority = initial_priority, dn_linear = new_linear_store b garbage (length (de_linear E)) words,
      dn_incoming = replicate (length (de_linear E)) [], dn_incoming_persistent = [], dn_incoming_action = [],
      dn_matcher = m, dn_unprocessed_facts = False, dn_rounds = 0\<rparr>"

text \<open>
  The thread that runs a node takes the incoming linear facts. \<open>m\<close> is the matcher of the state, which is that of the
  node that runs and not always of the node whose facts are taken.
\<close>

definition take_incoming :: "db_env_t \<Rightarrow> nat \<Rightarrow> rule_matcher \<times> db_node \<Rightarrow> (rule_matcher \<times> db_node) option" where
  "take_incoming E i s =
     (case s of
        (m, nd) \<Rightarrow>
          if i < length (dn_incoming nd) \<and> i < length (de_linear E) then
            if dn_incoming nd ! i = [] then Some (m, nd)
            else do { let pred = de_linear E ! i;
                      (ls, st) \<leftarrow> increment_database (de_tuples E) (de_junk E) pred (dn_incoming nd ! i) (dn_linear nd);
                      Some (new_linear_fact (de_rules E) (p_id pred) m,
                        nd\<lparr>dn_linear := st, dn_incoming := (dn_incoming nd)[i := ls]\<rparr>) }
          else None)"

definition process_incoming_tuples :: "db_env_t \<Rightarrow> rule_matcher \<times> db_node \<Rightarrow> (rule_matcher \<times> db_node) option" where
  "process_incoming_tuples E s = each (take_incoming E) [0..<length (de_linear E)] s"

text \<open>Action facts are given to the machine, in their order; the result has them.\<close>

definition process_action_tuples :: "db_node \<Rightarrow> (ptr_val \<times> predicate) list \<times> db_node" where
  "process_action_tuples nd =
     (map (\<lambda>x. (ft_data x, ft_pred x)) (dn_incoming_action nd), nd\<lparr>dn_incoming_action := []\<rparr>)"

text \<open>
  The state of a run: the node, the node of the thread, which has the facts of the thread predicates, the linear
  facts that the rule generates, which are moved to the database after the rule, and the persistent facts to be treated.
\<close>

record run_state =
  rs_node :: db_node
  rs_thread :: db_node
  rs_gen :: "ptr_val list list"
  rs_generated_facts :: bool
  rs_persistent :: "full_tuple list"

text \<open>The first part of \<^verbatim>\<open>state::run_node\<close>, which has the lock of the node.\<close>

definition receive_work :: "db_env_t \<Rightarrow> run_state \<Rightarrow> ((ptr_val \<times> predicate) list \<times> run_state) option" where
  "receive_work E s =
     (let (actions, nd) = process_action_tuples (rs_node s)
      in do { (m, nd) \<leftarrow> process_incoming_tuples E (dn_matcher nd, nd);
              Some (actions, s\<lparr>rs_node := nd\<lparr>dn_matcher := m, dn_incoming_persistent := [], dn_unprocessed_facts := False\<rparr>,
                rs_persistent := rs_persistent s @ dn_incoming_persistent nd\<rparr>) })"

text \<open>The loop takes the next rule; when it has run, the generated facts are moved.\<close>

definition start_rule :: "db_env_t \<Rightarrow> run_state \<Rightarrow> (nat \<times> run_state) option" where
  "start_rule E s =
     (if bitmap_empty (rm_rule_queue (dn_matcher (rs_node s))) (next_multiple_of_uint (num_rules_of (de_rules E))) then None
      else let (rule, m) = dequeue_rule (de_rules E) (dn_matcher (rs_node s))
           in Some (rule, s\<lparr>rs_node := (rs_node s)\<lparr>dn_matcher := m\<rparr>, rs_generated_facts := False\<rparr>))"

definition add_generated :: "ptr_val \<Rightarrow> predicate \<Rightarrow> run_state \<Rightarrow> run_state option" where
  "add_generated tpl pred s =
     (if p_id2 pred < length (rs_gen s)
      then Some (s\<lparr>rs_gen := (rs_gen s)[p_id2 pred := rs_gen s ! p_id2 pred @ [tpl]], rs_generated_facts := True\<rparr>) else None)"

definition flush_generated :: "db_env_t \<Rightarrow> nat \<Rightarrow> run_state \<Rightarrow> run_state option" where
  "flush_generated E i s =
     (if i < length (rs_gen s) \<and> i < length (de_linear E) then
        if rs_gen s ! i = [] then Some s
        else
          let pred = de_linear E ! i;
              s = s\<lparr>rs_node := (rs_node s)\<lparr>dn_matcher := new_linear_fact (de_rules E) (p_id pred) (dn_matcher (rs_node s))\<rparr>\<rparr>
          in if p_is_thread pred then
               do { (ls, st) \<leftarrow> increment_database (de_tuples E) (de_junk E) pred (rs_gen s ! i) (dn_linear (rs_thread s));
                    Some (s\<lparr>rs_thread := (rs_thread s)\<lparr>dn_linear := st\<rparr>, rs_gen := (rs_gen s)[i := ls]\<rparr>) }
             else
               do { (ls, st) \<leftarrow> increment_database (de_tuples E) (de_junk E) pred (rs_gen s ! i) (dn_linear (rs_node s));
                    Some (s\<lparr>rs_node := (rs_node s)\<lparr>dn_linear := st\<rparr>, rs_gen := (rs_gen s)[i := ls]\<rparr>) }
      else None)"

definition move_generated :: "db_env_t \<Rightarrow> run_state \<Rightarrow> run_state option" where
  "move_generated E s = (if rs_generated_facts s then each (flush_generated E) [0..<length (de_linear E)] s else Some s)"

text \<open>
  What \<^verbatim>\<open>execute_linear_iter_list\<close> does with a fact its rule has used: the \<open>n\<close>th one of a list of facts, which belongs to a
  table (\<open>Some pos\<close>) or is the list of the predicate. It is taken out; then it is destroyed, and the matcher told when
  that was the last fact of the predicate, or, when the rule updated it, put among the generated facts. The result has the fact.
\<close>

definition take_fact :: "nat \<Rightarrow> list_pos option \<Rightarrow> nat \<Rightarrow> linear_store \<Rightarrow> (ptr_val \<times> bool \<times> linear_store) option" where
  "take_fact i pos n st =
     (case pos of
        None \<Rightarrow>
          do { ls \<leftarrow> get_list i st;
               if n < length ls then
                 let ls' = remove_nth n ls in Some (ls ! n, ls' = [], put_item i (AsList ls') st)
               else None }
      | Some p \<Rightarrow>
          do { T \<leftarrow> get_table i st;
               l \<leftarrow> list_at_pos p (ht_sh T);
               T' \<leftarrow> ht_erase_from_list p n T;
               Some (hl_items l ! n, ht_empty T', put_item i (AsTable T') st) })"

text \<open>
  The iterator is over the facts of the node or, with \<open>th\<close>, over those of the thread; the matcher is that of the state in both cases.
\<close>

definition iter_store :: "bool \<Rightarrow> run_state \<Rightarrow> linear_store" where
  "iter_store th s = dn_linear (if th then rs_thread s else rs_node s)"

definition set_iter_store :: "bool \<Rightarrow> linear_store \<Rightarrow> run_state \<Rightarrow> run_state" where
  "set_iter_store th st s =
     (if th then s\<lparr>rs_thread := (rs_thread s)\<lparr>dn_linear := st\<rparr>\<rparr> else s\<lparr>rs_node := (rs_node s)\<lparr>dn_linear := st\<rparr>\<rparr>)"

definition consume_fact ::
  "db_env_t \<Rightarrow> bool \<Rightarrow> predicate \<Rightarrow> list_pos option \<Rightarrow> nat \<Rightarrow> run_state \<Rightarrow> (ptr_val \<times> run_state) option" where
  "consume_fact E th pred pos n s =
     do { (tpl, was_last, st) \<leftarrow> take_fact (p_id2 pred) pos n (iter_store th s);
          let s = set_iter_store th st s;
          Some (tpl, if was_last
            then s\<lparr>rs_node := (rs_node s)\<lparr>dn_matcher := empty_predicate (de_rules E) (p_id pred) (dn_matcher (rs_node s))\<rparr>\<rparr>
            else s) }"

text \<open>The fact of the first iterator (register 0) stays where it is, with its new fields.\<close>

definition update_fact :: "bool \<Rightarrow> nat \<Rightarrow> predicate \<Rightarrow> list_pos option \<Rightarrow> nat \<Rightarrow> run_state \<Rightarrow> run_state option" where
  "update_fact th reg pred pos n s =
     (if reg > 0 then
        do { (tpl, was_last, st) \<leftarrow> take_fact (p_id2 pred) pos n (iter_store th s);
             add_generated tpl pred (set_iter_store th st s) }
      else Some s)"

text \<open>The fields of a fact are written: when it is made, and by the instructions of the rule that updates it.\<close>

definition set_fields :: "ptr_val \<Rightarrow> tuple_field list \<Rightarrow> db_env_t \<Rightarrow> db_env_t" where
  "set_fields x fs E = E\<lparr>de_tuples := (de_tuples E)(x := fs)\<rparr>"

definition manage_index :: "db_env_t \<Rightarrow> db_node \<Rightarrow> db_node option" where
  "manage_index E nd =
     (let rounds = dn_rounds nd + 1
      in if rounds > 0 then
           do { st \<leftarrow> cleanup_index (de_linear E) (dn_linear nd); Some (nd\<lparr>dn_rounds := rounds, dn_linear := st\<rparr>) }
         else Some (nd\<lparr>dn_rounds := rounds\<rparr>))"

subsection \<open>Priorities, owners, garbage\<close>

definition get_priority :: "db_env_t \<Rightarrow> db_node \<Rightarrow> float_val" where
  "get_priority E nd = (if float_eq (dn_priority nd) (de_no_priority E) then dn_default_priority nd else dn_priority nd)"

definition set_temporary_priority :: "float_val \<Rightarrow> db_node \<Rightarrow> db_node" where
  "set_temporary_priority level nd = nd\<lparr>dn_priority := level\<rparr>"

definition set_temporary_priority_if :: "db_env_t \<Rightarrow> float_val \<Rightarrow> db_node \<Rightarrow> bool \<times> db_node" where
  "set_temporary_priority_if E level nd =
     (if higher_priority (de_desc E) level (get_priority E nd) then (True, nd\<lparr>dn_priority := level\<rparr>) else (False, nd))"

definition remove_temporary_priority :: "db_node \<Rightarrow> db_node" where
  "remove_temporary_priority nd = nd\<lparr>dn_priority := dn_default_priority nd\<rparr>"

definition set_default_priority :: "float_val \<Rightarrow> db_node \<Rightarrow> db_node" where
  "set_default_priority level nd = nd\<lparr>dn_default_priority := level\<rparr>"

definition has_priority :: "db_env_t \<Rightarrow> db_node \<Rightarrow> bool" where
  "has_priority E nd \<longleftrightarrow> \<not> float_eq (get_priority E nd) (de_no_priority E)"

definition has_new_owner :: "db_node \<Rightarrow> bool" where
  "has_new_owner nd \<longleftrightarrow> dn_static_node nd \<noteq> 0 \<and> dn_owner nd \<noteq> dn_static_node nd"

definition garbage_collect :: "db_env_t \<Rightarrow> db_node \<Rightarrow> bool" where
  "garbage_collect E nd \<longleftrightarrow> dn_refs nd = 0 \<and> matcher_is_empty (de_rules E) (dn_matcher nd) \<and> \<not> dn_unprocessed_facts nd"

definition try_garbage_collect :: "db_env_t \<Rightarrow> db_node \<Rightarrow> bool \<times> db_node" where
  "try_garbage_collect E nd =
     (let nd = nd\<lparr>dn_refs := size_sub (dn_refs nd) 1\<rparr> in (dn_refs nd = 0 \<and> garbage_collect E nd, nd))"

end
