(* ===== verification/Node_Db_Spec.thy ===== *)
theory Node_Db_Spec
  imports Node_Db
begin

text \<open>
  The contract of a node with its facts: the database, the incoming and the generated facts are multisets; every operation
  moves facts between them; and the matcher has marked every predicate that has a fact in the database.
\<close>

subsection \<open>The invariant\<close>

definition env_ok :: "db_env_t \<Rightarrow> bool" where
  "env_ok E \<longleftrightarrow> wf_program_rules (de_rules E) \<and> linear_preds_ok (de_linear E) \<and> de_linear E \<noteq> [] \<and>
     (\<forall>i < length (de_linear E). p_id (de_linear E ! i) < num_predicates_of (de_rules E)) \<and>
     distinct (map p_id (de_linear E)) \<and> (\<forall>p. junk_ok (de_junk E p))"

definition fits :: "db_env_t \<Rightarrow> nat \<Rightarrow> ptr_val \<Rightarrow> bool" where
  "fits E i x \<longleftrightarrow> (is_hash_table (de_linear E ! i) \<longrightarrow> indexable (de_tuples E) (de_linear E ! i) x)"

abbreviation holds :: "db_env_t \<Rightarrow> nat \<Rightarrow> db_node \<Rightarrow> (nat \<Rightarrow> ptr_val multiset) \<Rightarrow> bool" where
  "holds E sz nd M \<equiv> store_holds (de_tuples E) (de_linear E) sz (dn_linear nd) M"

text \<open>
  The matcher knows about every predicate that has a fact in the databases \<open>M\<close>, and of no other one, unless it has a
  fact among the rest \<open>R\<close>.
\<close>

definition visible :: "db_env_t \<Rightarrow> rule_matcher \<Rightarrow> (nat \<Rightarrow> ptr_val multiset) \<Rightarrow> (nat \<Rightarrow> ptr_val multiset) \<Rightarrow> bool" where
  "visible E m M R \<longleftrightarrow> matcher_inv (de_rules E) m \<and>
     (\<forall>i < length (de_linear E).
        (M i \<noteq> {#} \<longrightarrow> p_id (de_linear E ! i) \<in> available (de_rules E) m) \<and>
        (p_id (de_linear E ! i) \<in> available (de_rules E) m \<longrightarrow> M i + R i \<noteq> {#}))"

definition all_empty :: "'a list list \<Rightarrow> bool" where
  "all_empty xss \<longleftrightarrow> (\<forall>i < length xss. xss ! i = [])"

definition idle_ok :: "db_node \<Rightarrow> bool" where
  "idle_ok nd \<longleftrightarrow> (\<not> dn_unprocessed_facts nd \<longrightarrow>
     all_empty (dn_incoming nd) \<and> dn_incoming_persistent nd = [] \<and> dn_incoming_action nd = [])"

text \<open>Facts of every predicate: in the database \<open>M\<close>, in that of the thread \<open>Mt\<close>, incoming and generated.\<close>

abbreviation both :: "(nat \<Rightarrow> ptr_val multiset) \<Rightarrow> (nat \<Rightarrow> ptr_val multiset) \<Rightarrow> nat \<Rightarrow> ptr_val multiset" where
  "both M Mt i \<equiv> M i + Mt i"

abbreviation gen :: "run_state \<Rightarrow> nat \<Rightarrow> ptr_val multiset" where
  "gen s i \<equiv> mset (rs_gen s ! i)"

definition buffers_ok :: "db_env_t \<Rightarrow> run_state \<Rightarrow> (nat \<Rightarrow> ptr_val multiset) \<Rightarrow> (nat \<Rightarrow> ptr_val multiset) \<Rightarrow> bool" where
  "buffers_ok E s M Mt \<longleftrightarrow>
     length (dn_incoming (rs_node s)) = length (de_linear E) \<and> length (rs_gen s) = length (de_linear E) \<and>
     (\<forall>i < length (de_linear E).
        (\<forall>x \<in> set (dn_incoming (rs_node s) ! i) \<union> set (rs_gen s ! i). fits E i x) \<and>
        size (M i) + size (Mt i) + length (dn_incoming (rs_node s) ! i) + length (rs_gen s ! i) \<le> 65535 \<and>
        (p_is_thread (de_linear E ! i) \<longrightarrow> M i = {#} \<and> dn_incoming (rs_node s) ! i = []) \<and>
        (\<not> p_is_thread (de_linear E ! i) \<longrightarrow> Mt i = {#}))"

definition run_ok :: "db_env_t \<Rightarrow> nat \<Rightarrow> run_state \<Rightarrow> (nat \<Rightarrow> ptr_val multiset) \<Rightarrow> (nat \<Rightarrow> ptr_val multiset) \<Rightarrow> bool" where
  "run_ok E sz s M Mt \<longleftrightarrow>
     holds E sz (rs_node s) M \<and> holds E sz (rs_thread s) Mt \<and> visible E (dn_matcher (rs_node s)) (both M Mt) (gen s) \<and>
     buffers_ok E s M Mt \<and> (\<not> rs_generated_facts s \<longrightarrow> all_empty (rs_gen s)) \<and> idle_ok (rs_node s)"

lemma run_okD:
  assumes "run_ok E sz s M Mt"
  shows "holds E sz (rs_node s) M" "holds E sz (rs_thread s) Mt" "visible E (dn_matcher (rs_node s)) (both M Mt) (gen s)"
    "buffers_ok E s M Mt" "\<not> rs_generated_facts s \<Longrightarrow> all_empty (rs_gen s)" "idle_ok (rs_node s)"
    "length (dn_incoming (rs_node s)) = length (de_linear E)" "length (rs_gen s) = length (de_linear E)"
  using assms by (auto simp: run_ok_def buffers_ok_def)

lemma env_okD:
  assumes "env_ok E" "i < length (de_linear E)"
  shows "wf_program_rules (de_rules E)" "linear_preds_ok (de_linear E)" "p_id2 (de_linear E ! i) = i"
    "p_id (de_linear E ! i) < num_predicates_of (de_rules E)" "junk_ok (de_junk E p)"
  using assms by (auto simp: env_ok_def linear_preds_ok_def)

lemma env_ok_ids:
  assumes "env_ok E" "i < length (de_linear E)" "j < length (de_linear E)" "p_id (de_linear E ! i) = p_id (de_linear E ! j)"
  shows "i = j"
  using assms nth_eq_iff_index_eq [of "map p_id (de_linear E)" i j] by (auto simp: env_ok_def)

lemma visible_new:
  assumes E: "env_ok E" and i: "i < length (de_linear E)" and v: "visible E m M R"
    and same: "\<And>j. j \<noteq> i \<Longrightarrow> M' j = M j \<and> R' j = R j" and ne: "M' i + R' i \<noteq> {#}"
  shows "visible E (new_linear_fact (de_rules E) (p_id (de_linear E ! i)) m) M' R'"
proof -
  note e = env_okD [OF E i]
  have m: "matcher_inv (de_rules E) m" using v by (simp add: visible_def)
  note rm = rm.add_inv [OF conjI [OF e(1) m] e(4)] rm.add_avail [OF conjI [OF e(1) m] e(4)]
  have "(M' j \<noteq> {#} \<longrightarrow> p_id (de_linear E ! j) \<in> insert (p_id (de_linear E ! i)) (available (de_rules E) m)) \<and>
      (p_id (de_linear E ! j) \<in> insert (p_id (de_linear E ! i)) (available (de_rules E) m) \<longrightarrow> M' j + R' j \<noteq> {#})"
    if "j < length (de_linear E)" for j
    using that v same [of j] ne env_ok_ids [OF E that i] by (cases "j = i") (auto simp: visible_def)
  then show ?thesis using rm by (simp add: visible_def)
qed

lemma visible_same:
  assumes "visible E m M R" "\<And>j. M' j \<noteq> {#} \<Longrightarrow> M j \<noteq> {#}" "\<And>j. M' j + R' j = {#} \<Longrightarrow> M j + R j = {#}"
  shows "visible E m M' R'"
  using assms unfolding visible_def by blast

lemma visible_gone:
  assumes E: "env_ok E" and i: "i < length (de_linear E)" and v: "visible E m M R"
    and same: "\<And>j. j \<noteq> i \<Longrightarrow> M' j = M j" and gone: "M' i = {#}"
  shows "visible E (empty_predicate (de_rules E) (p_id (de_linear E ! i)) m) M' R"
proof -
  note e = env_okD [OF E i]
  have m: "matcher_inv (de_rules E) m" using v by (simp add: visible_def)
  note rm = rm.del_inv [OF conjI [OF e(1) m] e(4)] rm.del_avail [OF conjI [OF e(1) m] e(4)]
  have "(M' j \<noteq> {#} \<longrightarrow> p_id (de_linear E ! j) \<in> available (de_rules E) m - {p_id (de_linear E ! i)}) \<and>
      (p_id (de_linear E ! j) \<in> available (de_rules E) m - {p_id (de_linear E ! i)} \<longrightarrow> M' j + R j \<noteq> {#})"
    if "j < length (de_linear E)" for j
    using that v same [of j] gone env_ok_ids [OF E that i] by (cases "j = i") (auto simp: visible_def)
  then show ?thesis using rm by (simp add: visible_def)
qed

subsection \<open>Adding\<close>

lemma fits_list:
  "(\<forall>x \<in> set xs. fits E i x) \<longleftrightarrow> (is_hash_table (de_linear E ! i) \<longrightarrow> (\<forall>x \<in> set xs. indexable (de_tuples E) (de_linear E ! i) x))"
  by (auto simp: fits_def)

lemma increment_holds:
  assumes E: "env_ok E" and i: "i < length (de_linear E)" and st: "store_holds (de_tuples E) (de_linear E) sz st M"
    and xs: "\<forall>x \<in> set xs. fits E i x" "size (M i) + length xs \<le> 65535"
  shows "\<exists>st'. increment_database (de_tuples E) (de_junk E) (de_linear E ! i) xs st = Some ([], st') \<and>
    store_holds (de_tuples E) (de_linear E) sz st' (M(i := M i + mset xs))"
  using absorb_holds [OF st _ i, where junk = "de_junk E" and xs = xs] env_okD [OF E i] xs
  by (auto simp: increment_database_absorb fits_list)

lemma add_fact_holds:
  assumes E: "env_ok E" and i: "i < length (de_linear E)" and st: "store_holds (de_tuples E) (de_linear E) sz st M"
    and x: "fits E i x" "size (M i) < 65535"
  shows "\<exists>st'. add_fact (de_tuples E) (de_junk E) x (de_linear E ! i) st = Some st' \<and>
    store_holds (de_tuples E) (de_linear E) sz st' (M(i := add_mset x (M i)))"
  using absorb_holds [OF st _ i, where junk = "de_junk E" and xs = "[x]"] env_okD [OF E i] x
  by (auto simp: add_fact_absorb fits_def)

lemma add_fact_list_holds:
  assumes E: "env_ok E" and i: "i < length (de_linear E)" and st: "store_holds (de_tuples E) (de_linear E) sz st M"
    and xs: "\<forall>x \<in> set xs. fits E i x" "size (M i) + length xs \<le> 65535"
  shows "\<exists>ls st'. add_fact_list (de_tuples E) (de_junk E) xs (de_linear E ! i) st = Some (ls, st') \<and>
    store_holds (de_tuples E) (de_linear E) sz st' (M(i := M i + mset xs))"
  using absorb_holds [OF st _ i, where junk = "de_junk E" and xs = xs] env_okD [OF E i] xs
  by (auto simp: fits_list simp flip: add_fact_list_absorb)

definition plain_linear :: "predicate \<Rightarrow> bool" where
  "plain_linear pred \<longleftrightarrow> p_is_linear pred \<and> \<not> p_is_action pred \<and> \<not> p_is_reused pred"

abbreviation load :: "run_state \<Rightarrow> (nat \<Rightarrow> ptr_val multiset) \<Rightarrow> (nat \<Rightarrow> ptr_val multiset) \<Rightarrow> nat \<Rightarrow> nat" where
  "load s M Mt i \<equiv> size (M i) + size (Mt i) + length (dn_incoming (rs_node s) ! i) + length (rs_gen s ! i)"

lemma run_ok_unprocessed:
  "run_ok E sz s M Mt \<Longrightarrow> run_ok E sz (s\<lparr>rs_node := (rs_node s)\<lparr>dn_unprocessed_facts := True\<rparr>\<rparr>) M Mt"
  by (simp add: run_ok_def buffers_ok_def idle_ok_def)

lemma run_ok_add:
  assumes E: "env_ok E" and ok: "run_ok E sz s M Mt" and i: "i < length (de_linear E)" and nt: "\<not> p_is_thread (de_linear E ! i)" and xs: "xs \<noteq> []"
    and st: "store_holds (de_tuples E) (de_linear E) sz st (M(i := M i + mset xs))" and l: "load s M Mt i + length xs \<le> 65535"
  shows "run_ok E sz (s\<lparr>rs_node := (rs_node s)\<lparr>
      dn_matcher := new_linear_fact (de_rules E) (p_id (de_linear E ! i)) (dn_matcher (rs_node s)), dn_linear := st\<rparr>\<rparr>) (M(i := M i + mset xs)) Mt"
proof -
  have "visible E (new_linear_fact (de_rules E) (p_id (de_linear E ! i)) (dn_matcher (rs_node s))) (both (M(i := M i + mset xs)) Mt) (gen s)"
    by (rule visible_new [OF E i run_okD(3) [OF ok]]) (use xs in auto)
  then show ?thesis using ok st l nt by (auto simp: run_ok_def buffers_ok_def idle_ok_def)
qed

lemma run_ok_add_linear:
  assumes E: "env_ok E" and ok: "run_ok E sz s M Mt" and i: "i < length (de_linear E)" and nt: "\<not> p_is_thread (de_linear E ! i)" and x: "fits E i x" "load s M Mt i < 65535"
  shows "\<exists>nd. add_linear_fact E x (de_linear E ! i) (rs_node s) = Some nd \<and>
    run_ok E sz (s\<lparr>rs_node := nd\<rparr>) (M(i := add_mset x (M i))) Mt"
proof -
  from add_fact_holds [OF E i run_okD(1) [OF ok] x(1)] x(2) obtain st' where
    st': "add_fact (de_tuples E) (de_junk E) x (de_linear E ! i) (dn_linear (rs_node s)) = Some st'"
      "store_holds (de_tuples E) (de_linear E) sz st' (M(i := add_mset x (M i)))" by auto
  with run_ok_add [OF E ok i nt, of "[x]"] x(2) show ?thesis by (simp add: add_linear_fact_def)
qed

lemma run_ok_work_myself:
  assumes E: "env_ok E" and ok: "run_ok E sz s M Mt" and i: "i < length (de_linear E)" and nt: "\<not> p_is_thread (de_linear E ! i)" and p: "plain_linear (de_linear E ! i)"
    and x: "fits E i x" "load s M Mt i < 65535"
  shows "\<exists>nd. add_work_myself E x (de_linear E ! i) dir depth (rs_node s) = Some nd \<and>
    run_ok E sz (s\<lparr>rs_node := nd\<rparr>) (M(i := add_mset x (M i))) Mt"
  using run_ok_add_linear [OF E run_ok_unprocessed [OF ok] i nt x(1)] x(2) p
  by (simp add: add_work_myself_def inner_add_work_myself_def plain_linear_def)

lemma run_ok_item_myself:
  assumes E: "env_ok E" and ok: "run_ok E sz s M Mt" and i: "i < length (de_linear E)" and nt: "\<not> p_is_thread (de_linear E ! i)" and p: "plain_linear (de_linear E ! i)"
    and xs: "xs \<noteq> []" "\<forall>x \<in> set xs. fits E i x" "load s M Mt i + length xs \<le> 65535"
  shows "\<exists>nd. add_work_myself_buffer E [(de_linear E ! i, xs)] (rs_node s) = Some nd \<and>
    run_ok E sz (s\<lparr>rs_node := nd\<rparr>) (M(i := M i + mset xs)) Mt"
proof -
  have "size (M i) + length xs \<le> 65535" using xs(3) by simp
  from add_fact_list_holds [OF E i run_okD(1) [OF ok] xs(2) this] obtain ls st' where
    st': "add_fact_list (de_tuples E) (de_junk E) xs (de_linear E ! i) (dn_linear (rs_node s)) = Some (ls, st')"
      "store_holds (de_tuples E) (de_linear E) sz st' (M(i := M i + mset xs))" by auto
  with run_ok_add [OF E run_ok_unprocessed [OF ok] i nt xs(1)] xs(3) p show ?thesis
    by (simp add: add_work_myself_buffer_def work_item_myself_def plain_linear_def)
qed

lemma run_ok_incoming:
  assumes E: "env_ok E" and ok: "run_ok E sz s M Mt" and i: "i < length (de_linear E)" and nt: "\<not> p_is_thread (de_linear E ! i)"
    and xs: "\<forall>x \<in> set xs. fits E i x" "load s M Mt i + length xs \<le> 65535"
  shows "run_ok E sz (s\<lparr>rs_node := (rs_node s)\<lparr>dn_unprocessed_facts := True,
      dn_incoming := (dn_incoming (rs_node s))[i := dn_incoming (rs_node s) ! i @ xs]\<rparr>\<rparr>) M Mt"
  using ok xs i nt by (auto simp: run_ok_def buffers_ok_def idle_ok_def nth_list_update)

lemma run_ok_work_others:
  assumes E: "env_ok E" and ok: "run_ok E sz s M Mt" and i: "i < length (de_linear E)" and nt: "\<not> p_is_thread (de_linear E ! i)" and p: "plain_linear (de_linear E ! i)"
    and x: "fits E i x" "load s M Mt i < 65535"
  shows "\<exists>nd. add_work_others x (de_linear E ! i) dir depth (rs_node s) = Some nd \<and>
    dn_incoming nd = (dn_incoming (rs_node s))[i := dn_incoming (rs_node s) ! i @ [x]] \<and> run_ok E sz (s\<lparr>rs_node := nd\<rparr>) M Mt"
  using run_ok_incoming [OF E ok i nt, of "[x]"] p x i env_okD(3) [OF E i] run_okD(7) [OF ok]
  by (simp add: add_work_others_def inner_add_work_others_def add_incoming_def add_incoming_list_def plain_linear_def)

lemma run_ok_item_others:
  assumes E: "env_ok E" and ok: "run_ok E sz s M Mt" and i: "i < length (de_linear E)" and nt: "\<not> p_is_thread (de_linear E ! i)" and p: "plain_linear (de_linear E ! i)"
    and xs: "\<forall>x \<in> set xs. fits E i x" "load s M Mt i + length xs \<le> 65535"
  shows "\<exists>nd. add_work_others_buffer [(de_linear E ! i, xs)] (rs_node s) = Some nd \<and>
    dn_incoming nd = (dn_incoming (rs_node s))[i := dn_incoming (rs_node s) ! i @ xs] \<and> run_ok E sz (s\<lparr>rs_node := nd\<rparr>) M Mt"
  using run_ok_incoming [OF E ok i nt xs] p i env_okD(3) [OF E i] run_okD(7) [OF ok]
  by (simp add: add_work_others_buffer_def work_item_others_def add_incoming_list_def plain_linear_def)

lemma run_ok_derive:
  assumes E: "env_ok E" and ok: "run_ok E sz s M Mt" and i: "i < length (de_linear E)"
    and x: "fits E i x" "load s M Mt i < 65535"
  shows "\<exists>s'. add_generated x (de_linear E ! i) s = Some s' \<and> rs_gen s' = (rs_gen s)[i := rs_gen s ! i @ [x]] \<and> run_ok E sz s' M Mt"
proof -
  have "visible E (dn_matcher (rs_node s)) (both M Mt) (gen (s\<lparr>rs_gen := (rs_gen s)[i := rs_gen s ! i @ [x]]\<rparr>))"
    by (rule visible_same [OF run_okD(3) [OF ok]]) (use i run_okD(8) [OF ok] in \<open>auto simp: nth_list_update split: if_splits\<close>)
  then show ?thesis
    using ok x i env_okD(3) [OF E i] by (auto simp: add_generated_def run_ok_def buffers_ok_def nth_list_update)
qed

subsection \<open>Moving facts to the database\<close>

text \<open>During the loop over the incoming facts the flags are still those of before.\<close>

definition moving_ok :: "db_env_t \<Rightarrow> nat \<Rightarrow> run_state \<Rightarrow> (nat \<Rightarrow> ptr_val multiset) \<Rightarrow> (nat \<Rightarrow> ptr_val multiset) \<Rightarrow> bool" where
  "moving_ok E sz s M Mt \<longleftrightarrow>
     holds E sz (rs_node s) M \<and> holds E sz (rs_thread s) Mt \<and> visible E (dn_matcher (rs_node s)) (both M Mt) (gen s) \<and> buffers_ok E s M Mt"

lemma take_incoming_ok:
  assumes E: "env_ok E" and ok: "moving_ok E sz (s\<lparr>rs_node := nd\<lparr>dn_matcher := m\<rparr>\<rparr>) M Mt" and i: "i < length (de_linear E)"
  shows "\<exists>m' nd'. take_incoming E i (m, nd) = Some (m', nd') \<and> dn_incoming nd' = (dn_incoming nd)[i := []] \<and>
    dn_incoming_persistent nd' = dn_incoming_persistent nd \<and> dn_incoming_action nd' = dn_incoming_action nd \<and>
    moving_ok E sz (s\<lparr>rs_node := nd'\<lparr>dn_matcher := m'\<rparr>\<rparr>) (M(i := M i + mset (dn_incoming nd ! i))) Mt"
proof -
  have len: "length (dn_incoming nd) = length (de_linear E)" using ok by (simp add: moving_ok_def buffers_ok_def)
  show ?thesis
  proof (cases "dn_incoming nd ! i = []")
    case True
    then have "(dn_incoming nd)[i := []] = dn_incoming nd" using len i by (metis list_update_id)
    then show ?thesis using True ok len i by (simp add: take_incoming_def)
  next
    case False
    have st: "store_holds (de_tuples E) (de_linear E) sz (dn_linear nd) M" and v: "visible E m (both M Mt) (gen s)"
      and xs: "\<forall>x \<in> set (dn_incoming nd ! i). fits E i x" "size (M i) + length (dn_incoming nd ! i) \<le> 65535" and nt: "\<not> p_is_thread (de_linear E ! i)"
      using ok i False by (auto simp: moving_ok_def buffers_ok_def)
    from increment_holds [OF E i st xs] obtain st' where
      st': "increment_database (de_tuples E) (de_junk E) (de_linear E ! i) (dn_incoming nd ! i) (dn_linear nd) = Some ([], st')"
        "store_holds (de_tuples E) (de_linear E) sz st' (M(i := M i + mset (dn_incoming nd ! i)))" by blast
    have "visible E (new_linear_fact (de_rules E) (p_id (de_linear E ! i)) m) (both (M(i := M i + mset (dn_incoming nd ! i))) Mt) (gen s)"
      by (rule visible_new [OF E i v]) (use False in auto)
    then have "moving_ok E sz (s\<lparr>rs_node := nd\<lparr>dn_linear := st', dn_incoming := (dn_incoming nd)[i := []],
        dn_matcher := new_linear_fact (de_rules E) (p_id (de_linear E ! i)) m\<rparr>\<rparr>) (M(i := M i + mset (dn_incoming nd ! i))) Mt"
      using ok st'(2) len nt by (auto simp: moving_ok_def buffers_ok_def nth_list_update)
    then show ?thesis using False len i st'(1) by (simp add: take_incoming_def Let_def)
  qed
qed

lemma incoming_loop_ok:
  assumes E: "env_ok E" and "moving_ok E sz (s\<lparr>rs_node := nd\<lparr>dn_matcher := m\<rparr>\<rparr>) M Mt" "distinct is" "\<forall>i \<in> set is. i < length (de_linear E)"
  shows "\<exists>m' nd'. each (take_incoming E) is (m, nd) = Some (m', nd') \<and>
    dn_incoming_persistent nd' = dn_incoming_persistent nd \<and> dn_incoming_action nd' = dn_incoming_action nd \<and>
    (\<forall>i < length (de_linear E). dn_incoming nd' ! i = (if i \<in> set is then [] else dn_incoming nd ! i)) \<and>
    moving_ok E sz (s\<lparr>rs_node := nd'\<lparr>dn_matcher := m'\<rparr>\<rparr>) (\<lambda>i. if i \<in> set is then M i + mset (dn_incoming nd ! i) else M i) Mt"
  using assms(2-)
proof (induction "is" arbitrary: m nd M)
  case (Cons i "is")
  have i: "i < length (de_linear E)" using Cons.prems(3) by simp
  from take_incoming_ok [OF E Cons.prems(1) i] obtain m1 nd1 where
    1: "take_incoming E i (m, nd) = Some (m1, nd1)" "dn_incoming nd1 = (dn_incoming nd)[i := []]"
      "dn_incoming_persistent nd1 = dn_incoming_persistent nd" "dn_incoming_action nd1 = dn_incoming_action nd"
      "moving_ok E sz (s\<lparr>rs_node := nd1\<lparr>dn_matcher := m1\<rparr>\<rparr>) (M(i := M i + mset (dn_incoming nd ! i))) Mt" by blast
  have len: "length (dn_incoming nd) = length (de_linear E)" using Cons.prems(1) by (simp add: moving_ok_def buffers_ok_def)
  from Cons.IH [OF 1(5)] Cons.prems(2,3) obtain m2 nd2 where
    2: "each (take_incoming E) is (m1, nd1) = Some (m2, nd2)"
      "dn_incoming_persistent nd2 = dn_incoming_persistent nd1 \<and> dn_incoming_action nd2 = dn_incoming_action nd1"
      "\<forall>j < length (de_linear E). dn_incoming nd2 ! j = (if j \<in> set is then [] else dn_incoming nd1 ! j)"
      "moving_ok E sz (s\<lparr>rs_node := nd2\<lparr>dn_matcher := m2\<rparr>\<rparr>)
        (\<lambda>j. if j \<in> set is then (M(i := M i + mset (dn_incoming nd ! i))) j + mset (dn_incoming nd1 ! j)
             else (M(i := M i + mset (dn_incoming nd ! i))) j) Mt" by auto
  have "(\<lambda>j. if j \<in> set is then (M(i := M i + mset (dn_incoming nd ! i))) j + mset (dn_incoming nd1 ! j)
           else (M(i := M i + mset (dn_incoming nd ! i))) j)
      = (\<lambda>j. if j \<in> set (i # is) then M j + mset (dn_incoming nd ! j) else M j)"
    using Cons.prems(2) 1(2) by (auto simp: fun_eq_iff nth_list_update)
  then show ?case using 1(1-4) 2 len by (auto simp: nth_list_update)
qed simp

lemma receive_work_ok:
  assumes E: "env_ok E" and ok: "run_ok E sz s M Mt"
  shows "\<exists>s'. receive_work E s = Some (map (\<lambda>x. (ft_data x, ft_pred x)) (dn_incoming_action (rs_node s)), s') \<and>
    rs_persistent s' = rs_persistent s @ dn_incoming_persistent (rs_node s) \<and> rs_gen s' = rs_gen s \<and>
    all_empty (dn_incoming (rs_node s')) \<and> run_ok E sz s' (\<lambda>i. M i + mset (dn_incoming (rs_node s) ! i)) Mt"
proof -
  let ?nd = "(rs_node s)\<lparr>dn_incoming_action := []\<rparr>"
  let ?M = "\<lambda>i. if i \<in> set [0..<length (de_linear E)] then M i + mset (dn_incoming ?nd ! i) else M i"
  have "moving_ok E sz (s\<lparr>rs_node := ?nd\<lparr>dn_matcher := dn_matcher (rs_node s)\<rparr>\<rparr>) M Mt"
    using ok by (simp add: moving_ok_def run_ok_def buffers_ok_def)
  from incoming_loop_ok [OF E this, of "[0..<length (de_linear E)]"] obtain m' nd' where
    nd: "process_incoming_tuples E (dn_matcher ?nd, ?nd) = Some (m', nd')"
      "dn_incoming_persistent nd' = dn_incoming_persistent ?nd \<and> dn_incoming_action nd' = dn_incoming_action ?nd"
      "\<forall>i < length (de_linear E). dn_incoming nd' ! i = (if i \<in> set [0..<length (de_linear E)] then [] else dn_incoming ?nd ! i)"
      "moving_ok E sz (s\<lparr>rs_node := nd'\<lparr>dn_matcher := m'\<rparr>\<rparr>) ?M Mt"
    by (auto simp: process_incoming_tuples_def)
  have e: "all_empty (dn_incoming nd')" using nd(3,4) by (simp add: all_empty_def moving_ok_def buffers_ok_def)
  have "store_holds (de_tuples E) (de_linear E) sz st (\<lambda>i. M i + mset (dn_incoming (rs_node s) ! i))"
    if "store_holds (de_tuples E) (de_linear E) sz st ?M" for st using that by (simp add: store_holds_def)
  then show ?thesis using nd e ok
    by (auto simp: receive_work_def process_action_tuples_def run_ok_def moving_ok_def buffers_ok_def idle_ok_def visible_def)
qed

lemma dequeue_same: "available P (snd (dequeue_rule P m)) = available P m"
  by (simp add: dequeue_rule_def available_def case_prod_beta)

lemma start_rule_ok:
  assumes ok: "run_ok E sz s M Mt" and e: "all_empty (rs_gen s)" and s': "start_rule E s = Some (r, s')"
  shows "run_ok E sz s' M Mt" "rs_gen s' = rs_gen s" "r \<in> queued (de_rules E) (dn_matcher (rs_node s))"
proof -
  have m: "matcher_inv (de_rules E) (dn_matcher (rs_node s))" using ok by (simp add: run_ok_def visible_def)
  then have wf: "wf_bitmap (rules_words (de_rules E)) (rm_rule_queue (dn_matcher (rs_node s)))" by (simp add: matcher_inv_def)
  with s' have ne: "queued (de_rules E) (dn_matcher (rs_node s)) \<noteq> {}"
    by (auto simp: start_rule_def bitmap_empty_iff queued_def split: if_splits)
  have r: "r = fst (dequeue_rule (de_rules E) (dn_matcher (rs_node s)))"
    "s' = s\<lparr>rs_node := (rs_node s)\<lparr>dn_matcher := snd (dequeue_rule (de_rules E) (dn_matcher (rs_node s)))\<rparr>, rs_generated_facts := False\<rparr>"
    using s' by (auto simp: start_rule_def case_prod_beta Let_def split: if_splits)
  note d = dequeue_rule_spec [OF m ne]
  have "finite (queued (de_rules E) (dn_matcher (rs_node s)))" using wf by (simp add: queued_def bitmap_set_def)
  then show "r \<in> queued (de_rules E) (dn_matcher (rs_node s))" using d(1) ne r(1) by simp
  show "run_ok E sz s' M Mt" using ok e d(3)
    by (simp add: r(2) run_ok_def visible_def dequeue_same buffers_ok_def idle_ok_def)
  show "rs_gen s' = rs_gen s" by (simp add: r(2))
qed

text \<open>The database gets the generated facts of a predicate: that of the thread when it is a thread predicate.\<close>

lemma flush_generated_ok:
  assumes E: "env_ok E" and ok: "moving_ok E sz s M Mt" and i: "i < length (de_linear E)"
  shows "\<exists>s' M' Mt'. flush_generated E i s = Some s' \<and> rs_gen s' = (rs_gen s)[i := []] \<and> moving_ok E sz s' M' Mt' \<and>
    dn_incoming (rs_node s') = dn_incoming (rs_node s) \<and> idle_ok (rs_node s') = idle_ok (rs_node s) \<and>
    (\<forall>j. M' j + Mt' j = (if j = i then M j + Mt j + mset (rs_gen s ! i) else M j + Mt j))"
proof -
  have len: "length (rs_gen s) = length (de_linear E)" using ok by (simp add: moving_ok_def buffers_ok_def)
  show ?thesis
  proof (cases "rs_gen s ! i = []")
    case True
    then have "(rs_gen s)[i := []] = rs_gen s" using len i by (metis list_update_id)
    then show ?thesis using True ok len i by (auto simp: flush_generated_def)
  next
    case False
    let ?m = "new_linear_fact (de_rules E) (p_id (de_linear E ! i)) (dn_matcher (rs_node s))"
    have st: "holds E sz (rs_node s) M" "holds E sz (rs_thread s) Mt" and v: "visible E (dn_matcher (rs_node s)) (both M Mt) (gen s)"
      and xs: "\<forall>x \<in> set (rs_gen s ! i). fits E i x" "size (M i) + length (rs_gen s ! i) \<le> 65535" "size (Mt i) + length (rs_gen s ! i) \<le> 65535"
      using ok i by (auto simp: moving_ok_def buffers_ok_def)
    let ?s = "s\<lparr>rs_gen := (rs_gen s)[i := []]\<rparr>"
    show ?thesis
    proof (cases "p_is_thread (de_linear E ! i)")
      case True
      from increment_holds [OF E i st(2) xs(1,3)] obtain st' where
        st': "increment_database (de_tuples E) (de_junk E) (de_linear E ! i) (rs_gen s ! i) (dn_linear (rs_thread s)) = Some ([], st')"
          "store_holds (de_tuples E) (de_linear E) sz st' (Mt(i := Mt i + mset (rs_gen s ! i)))" by blast
      have "visible E ?m (both M (Mt(i := Mt i + mset (rs_gen s ! i)))) (gen ?s)"
        by (rule visible_new [OF E i v]) (use False in auto)
      then have "moving_ok E sz (s\<lparr>rs_node := (rs_node s)\<lparr>dn_matcher := ?m\<rparr>, rs_thread := (rs_thread s)\<lparr>dn_linear := st'\<rparr>,
          rs_gen := (rs_gen s)[i := []]\<rparr>) M (Mt(i := Mt i + mset (rs_gen s ! i)))"
        using ok st'(2) len True by (auto simp: moving_ok_def buffers_ok_def nth_list_update)
      then show ?thesis using True False len i st'(1) by (force simp: flush_generated_def Let_def idle_ok_def)
    next
      case nt: False
      from increment_holds [OF E i st(1) xs(1,2)] obtain st' where
        st': "increment_database (de_tuples E) (de_junk E) (de_linear E ! i) (rs_gen s ! i) (dn_linear (rs_node s)) = Some ([], st')"
          "store_holds (de_tuples E) (de_linear E) sz st' (M(i := M i + mset (rs_gen s ! i)))" by blast
      have "visible E ?m (both (M(i := M i + mset (rs_gen s ! i))) Mt) (gen ?s)"
        by (rule visible_new [OF E i v]) (use False in auto)
      then have "moving_ok E sz (s\<lparr>rs_node := (rs_node s)\<lparr>dn_matcher := ?m, dn_linear := st'\<rparr>,
          rs_gen := (rs_gen s)[i := []]\<rparr>) (M(i := M i + mset (rs_gen s ! i))) Mt"
        using ok st'(2) len nt by (auto simp: moving_ok_def buffers_ok_def nth_list_update)
      then show ?thesis using nt False len i st'(1) by (force simp: flush_generated_def Let_def idle_ok_def)
    qed
  qed
qed

lemma flush_loop_ok:
  assumes E: "env_ok E" and "distinct is" "\<forall>i \<in> set is. i < length (de_linear E)" "moving_ok E sz s M Mt"
  shows "\<exists>s' M' Mt'. each (flush_generated E) is s = Some s' \<and> moving_ok E sz s' M' Mt' \<and>
    dn_incoming (rs_node s') = dn_incoming (rs_node s) \<and> idle_ok (rs_node s') = idle_ok (rs_node s) \<and>
    (\<forall>i < length (de_linear E). (if i \<in> set is then rs_gen s' ! i = [] \<and> M' i + Mt' i = M i + Mt i + mset (rs_gen s ! i)
      else rs_gen s' ! i = rs_gen s ! i \<and> M' i + Mt' i = M i + Mt i))"
  using assms(2-)
proof (induction "is" arbitrary: s M Mt)
  case Nil
  then show ?case by (intro exI [of _ s] exI [of _ M] exI [of _ Mt]) simp
next
  case (Cons i "is")
  have i: "i < length (de_linear E)" using Cons.prems(2) by simp
  have len: "length (rs_gen s) = length (de_linear E)" using Cons.prems(3) by (simp add: moving_ok_def buffers_ok_def)
  from flush_generated_ok [OF E Cons.prems(3) i] obtain s1 M1 Mt1 where
    1: "flush_generated E i s = Some s1" "rs_gen s1 = (rs_gen s)[i := []]" "moving_ok E sz s1 M1 Mt1"
      "dn_incoming (rs_node s1) = dn_incoming (rs_node s) \<and> idle_ok (rs_node s1) = idle_ok (rs_node s)"
      "\<forall>j. M1 j + Mt1 j = (if j = i then M j + Mt j + mset (rs_gen s ! i) else M j + Mt j)" by blast
  from Cons.IH [OF _ _ 1(3)] Cons.prems(1,2) obtain s2 M2 Mt2 where
    2: "each (flush_generated E) is s1 = Some s2" "moving_ok E sz s2 M2 Mt2"
      "dn_incoming (rs_node s2) = dn_incoming (rs_node s1) \<and> idle_ok (rs_node s2) = idle_ok (rs_node s1)"
      "\<forall>j < length (de_linear E). (if j \<in> set is then rs_gen s2 ! j = [] \<and> M2 j + Mt2 j = M1 j + Mt1 j + mset (rs_gen s1 ! j)
        else rs_gen s2 ! j = rs_gen s1 ! j \<and> M2 j + Mt2 j = M1 j + Mt1 j)" by auto
  have "\<forall>j < length (de_linear E). (if j \<in> set (i # is) then rs_gen s2 ! j = [] \<and> M2 j + Mt2 j = M j + Mt j + mset (rs_gen s ! j)
        else rs_gen s2 ! j = rs_gen s ! j \<and> M2 j + Mt2 j = M j + Mt j)"
    using 2(4) 1(2,5) Cons.prems(1) len by (auto simp: nth_list_update)
  then show ?case using 1(1,4) 2(1-3) by (intro exI [of _ s2] exI [of _ M2] exI [of _ Mt2]) simp
qed

lemma run_ok_moving: "run_ok E sz s M Mt \<Longrightarrow> moving_ok E sz s M Mt"
  by (simp add: run_ok_def moving_ok_def)

lemma move_generated_ok:
  assumes E: "env_ok E" and ok: "run_ok E sz s M Mt"
  shows "\<exists>s' M' Mt'. move_generated E s = Some s' \<and> run_ok E sz s' M' Mt' \<and> dn_incoming (rs_node s') = dn_incoming (rs_node s) \<and>
    all_empty (rs_gen s') \<and> (\<forall>i < length (de_linear E). M' i + Mt' i = M i + Mt i + mset (rs_gen s ! i))"
proof (cases "rs_generated_facts s")
  case True
  have "distinct [0..<length (de_linear E)]" "\<forall>i \<in> set [0..<length (de_linear E)]. i < length (de_linear E)" by simp_all
  from flush_loop_ok [OF E this run_ok_moving [OF ok]] obtain s' M' Mt' where
    s': "each (flush_generated E) [0..<length (de_linear E)] s = Some s'" "moving_ok E sz s' M' Mt'"
      "dn_incoming (rs_node s') = dn_incoming (rs_node s) \<and> idle_ok (rs_node s') = idle_ok (rs_node s)"
      "\<forall>i < length (de_linear E). rs_gen s' ! i = [] \<and> M' i + Mt' i = M i + Mt i + mset (rs_gen s ! i)" by auto
  have e: "all_empty (rs_gen s')" using s'(2,4) by (simp add: moving_ok_def buffers_ok_def all_empty_def)
  with s' True run_okD(6) [OF ok] show ?thesis by (auto simp: move_generated_def run_ok_def moving_ok_def)
next
  case False
  then have "all_empty (rs_gen s)" by (rule run_okD(5) [OF ok])
  with False ok run_okD(8) [OF ok] show ?thesis
    by (intro exI [of _ s] exI [of _ M] exI [of _ Mt]) (simp add: move_generated_def all_empty_def)
qed

subsection \<open>Taking facts out of the database\<close>

text \<open>The fact that an iterator is at.\<close>

definition fact_at :: "nat \<Rightarrow> list_pos option \<Rightarrow> nat \<Rightarrow> linear_store \<Rightarrow> ptr_val \<Rightarrow> bool" where
  "fact_at i pos n st x \<longleftrightarrow>
     (case pos of
        None \<Rightarrow> \<exists>ls. get_list i st = Some ls \<and> n < length ls \<and> x = ls ! n
      | Some p \<Rightarrow> \<exists>T l. get_table i st = Some T \<and> list_at_pos p (ht_sh T) = Some l \<and> n < length (hl_items l) \<and> x = hl_items l ! n)"

lemma take_fact_ok:
  assumes st: "store_holds tuples preds sz st M" and i: "i < length preds" and x: "fact_at i pos n st x"
  shows "\<exists>st'. take_fact i pos n st = Some (x, M i - {#x#} = {#}, st') \<and> store_holds tuples preds sz st' (M(i := M i - {#x#})) \<and> x \<in># M i"
proof (cases pos)
  case None
  then obtain ls where ls: "get_list i st = Some ls" "n < length ls" "x = ls ! n" using x by (auto simp: fact_at_def)
  then have d: "ls_data st ! i = AsList ls" by (auto simp: get_list_def split: if_splits store_item.splits)
  have it: "mset ls = M i" "is_hash_table (preds ! i) \<longrightarrow> (\<forall>x \<in> set ls. indexable tuples (preds ! i) x)"
    using st i d by (auto simp: store_holds_def)
  have m: "mset (remove_nth n ls) = M i - {#x#}" "x \<in># M i"
    using mset_remove_nth [OF ls(2)] it(1) ls(3) by (auto simp flip: it(1) mset_remove_nth [OF ls(2)])
  have "item_holds tuples (preds ! i) (AsList (remove_nth n ls)) (M i - {#x#})"
    using m(1) it(2) set_remove_nth [of n ls] by auto
  then have "store_holds tuples preds sz (put_item i (AsList (remove_nth n ls)) st) (M(i := M i - {#x#}))"
    by (intro store_put_same [OF st i]) (simp_all add: d)
  then show ?thesis using None ls m by (auto simp: take_fact_def Let_def simp flip: m(1))
next
  case (Some p)
  then obtain T l where T: "get_table i st = Some T" "list_at_pos p (ht_sh T) = Some l" "n < length (hl_items l)" "x = hl_items l ! n"
    using x by (auto simp: fact_at_def)
  then have d: "ls_data st ! i = AsTable T" by (auto simp: get_table_def split: if_splits store_item.splits)
  have h: "is_hash_table (preds ! i)" "table_holds tuples (preds ! i) T (M i)" using st i d by (auto simp: store_holds_def)
  from table_erase_holds [OF h(2) T(2,3)] obtain T' where
    T': "ht_erase_from_list p n T = Some T'" "table_holds tuples (preds ! i) T' (M i - {#x#})" "x \<in># M i" using T(4) by blast
  have "store_holds tuples preds sz (put_item i (AsTable T') st) (M(i := M i - {#x#}))"
    using T'(2) h(1) by (intro store_put_same [OF st i]) (simp_all add: d)
  moreover have "ht_empty T' = (M i - {#x#} = {#})" using table_holds_size [OF T'(2)] by (simp add: ht_empty_def)
  ultimately show ?thesis using Some T T' by (simp add: take_fact_def)
qed

lemma size_less: "x \<in># N \<Longrightarrow> size (N - {#x#}) < size N" for N :: "'a multiset"
  by (metis size_Diff1_less)

text \<open>The facts that are left when \<open>x\<close> of the node or of the thread is taken.\<close>

abbreviation (input) left :: "bool \<Rightarrow> nat \<Rightarrow> ptr_val \<Rightarrow> (nat \<Rightarrow> ptr_val multiset) \<Rightarrow> nat \<Rightarrow> ptr_val multiset" where
  "left b i x M \<equiv> (if b then M(i := M i - {#x#}) else M)"

lemma take_iter_ok:
  assumes ok: "run_ok E sz s M Mt" and i: "i < length (de_linear E)" and x: "fact_at i pos n (iter_store th s) x"
  shows "\<exists>st. take_fact i pos n (iter_store th s) = Some (x, both (left (\<not> th) i x M) (left th i x Mt) i = {#}, st) \<and>
    holds E sz (rs_node (set_iter_store th st s)) (left (\<not> th) i x M) \<and> holds E sz (rs_thread (set_iter_store th st s)) (left th i x Mt) \<and>
    x \<in># (if th then Mt i else M i)"
proof -
  have b: "M i = {#} \<or> Mt i = {#}" using run_okD(4) [OF ok] i by (auto simp: buffers_ok_def)
  show ?thesis
  proof (cases th)
    case True
    from take_fact_ok [OF run_okD(2) [OF ok] i, of pos n x] x True obtain st where
      "take_fact i pos n (dn_linear (rs_thread s)) = Some (x, Mt i - {#x#} = {#}, st)"
        "store_holds (de_tuples E) (de_linear E) sz st (Mt(i := Mt i - {#x#}))" "x \<in># Mt i" by (auto simp: iter_store_def)
    moreover from this(3) b have "M i = {#}" by auto
    ultimately show ?thesis using True run_okD(1) [OF ok] by (auto simp: iter_store_def set_iter_store_def)
  next
    case False
    from take_fact_ok [OF run_okD(1) [OF ok] i, of pos n x] x False obtain st where
      "take_fact i pos n (dn_linear (rs_node s)) = Some (x, M i - {#x#} = {#}, st)"
        "store_holds (de_tuples E) (de_linear E) sz st (M(i := M i - {#x#}))" "x \<in># M i" by (auto simp: iter_store_def)
    moreover from this(3) b have "Mt i = {#}" by auto
    ultimately show ?thesis using False run_okD(2) [OF ok] by (auto simp: iter_store_def set_iter_store_def)
  qed
qed

lemma set_iter_store_same [simp]:
  "dn_matcher (rs_node (set_iter_store th st s)) = dn_matcher (rs_node s)" "dn_incoming (rs_node (set_iter_store th st s)) = dn_incoming (rs_node s)"
  "rs_gen (set_iter_store th st s) = rs_gen s" "rs_generated_facts (set_iter_store th st s) = rs_generated_facts s"
  "idle_ok (rs_node (set_iter_store th st s)) = idle_ok (rs_node s)"
  by (simp_all add: set_iter_store_def idle_ok_def)

lemma buffers_left:
  assumes "buffers_ok E s M Mt" "dn_incoming (rs_node s') = dn_incoming (rs_node s)" "rs_gen s' = rs_gen s"
  shows "buffers_ok E s' (left (\<not> th) i x M) (left th i x Mt)"
proof -
  let ?M = "left (\<not> th) i x M" and ?Mt = "left th i x Mt"
  have le: "size (N - {#x#}) \<le> size N" for N :: "ptr_val multiset" by (simp add: size_mset_mono)
  have l: "load s' ?M ?Mt j \<le> 65535" if "load s M Mt j \<le> 65535" for j
    using that assms(2,3) le [of "M i"] le [of "Mt i"] by (cases th; cases "j = i") simp_all
  have e: "M j = {#} \<Longrightarrow> ?M j = {#}" "Mt j = {#} \<Longrightarrow> ?Mt j = {#}" for j by (cases th; cases "j = i"; simp)+
  from assms l e show ?thesis unfolding buffers_ok_def by simp
qed

lemma consume_fact_ok:
  assumes E: "env_ok E" and ok: "run_ok E sz s M Mt" and i: "i < length (de_linear E)"
    and x: "fact_at i pos n (iter_store th s) x"
  shows "\<exists>s'. consume_fact E th (de_linear E ! i) pos n s = Some (x, s') \<and> x \<in># (if th then Mt i else M i) \<and> rs_gen s' = rs_gen s \<and>
    dn_incoming (rs_node s') = dn_incoming (rs_node s) \<and> run_ok E sz s' (left (\<not> th) i x M) (left th i x Mt)"
proof -
  let ?M = "left (\<not> th) i x M" and ?Mt = "left th i x Mt"
  from take_iter_ok [OF ok i x] obtain st where
    st: "take_fact i pos n (iter_store th s) = Some (x, both ?M ?Mt i = {#}, st)"
      "holds E sz (rs_node (set_iter_store th st s)) ?M" "holds E sz (rs_thread (set_iter_store th st s)) ?Mt"
      "x \<in># (if th then Mt i else M i)" by blast
  let ?m = "if both ?M ?Mt i = {#} then empty_predicate (de_rules E) (p_id (de_linear E ! i)) (dn_matcher (rs_node s))
      else dn_matcher (rs_node s)"
  have "visible E ?m (both ?M ?Mt) (gen s)"
  proof (cases "both ?M ?Mt i = {#}")
    case True
    then show ?thesis using visible_gone [OF E i run_okD(3) [OF ok], of "both ?M ?Mt"] by auto
  next
    case False
    have "visible E (dn_matcher (rs_node s)) (both ?M ?Mt) (gen s)"
      by (rule visible_same [OF run_okD(3) [OF ok]]) (use st(4) False in \<open>auto split: if_splits\<close>)
    then show ?thesis unfolding if_not_P [OF False] .
  qed
  moreover let ?s = "if both ?M ?Mt i = {#}
      then (set_iter_store th st s)\<lparr>rs_node := (rs_node (set_iter_store th st s))\<lparr>dn_matcher := ?m\<rparr>\<rparr> else set_iter_store th st s"
  have s': "rs_gen ?s = rs_gen s" "dn_incoming (rs_node ?s) = dn_incoming (rs_node s)" "dn_matcher (rs_node ?s) = ?m"
    "dn_linear (rs_node ?s) = dn_linear (rs_node (set_iter_store th st s))" "rs_thread ?s = rs_thread (set_iter_store th st s)"
    "idle_ok (rs_node ?s) = idle_ok (rs_node s)" "rs_generated_facts ?s = rs_generated_facts s"
    by (simp_all add: set_iter_store_def idle_ok_def)
  ultimately have "run_ok E sz ?s ?M ?Mt"
    using st(2,3) ok buffers_left [OF run_okD(4) [OF ok] s'(2,1)] unfolding run_ok_def s' by blast
  moreover have "consume_fact E th (de_linear E ! i) pos n s = Some (x, ?s)"
    using st(1) env_okD(3) [OF E i] by (simp add: consume_fact_def Let_def)
  ultimately show ?thesis using st(4) s'(1,2) by blast
qed

lemma update_fact_ok:
  assumes E: "env_ok E" and ok: "run_ok E sz s M Mt" and i: "i < length (de_linear E)"
    and x: "fact_at i pos n (iter_store th s) x" "fits E i x" and r: "0 < reg"
  shows "\<exists>s'. update_fact th reg (de_linear E ! i) pos n s = Some s' \<and> x \<in># (if th then Mt i else M i) \<and>
    rs_gen s' = (rs_gen s)[i := rs_gen s ! i @ [x]] \<and>
    dn_incoming (rs_node s') = dn_incoming (rs_node s) \<and> run_ok E sz s' (left (\<not> th) i x M) (left th i x Mt)"
proof -
  let ?M = "left (\<not> th) i x M" and ?Mt = "left th i x Mt"
  note len = run_okD(8) [OF ok]
  from take_iter_ok [OF ok i x(1)] obtain st where
    st: "take_fact i pos n (iter_store th s) = Some (x, both ?M ?Mt i = {#}, st)"
      "holds E sz (rs_node (set_iter_store th st s)) ?M" "holds E sz (rs_thread (set_iter_store th st s)) ?Mt"
      "x \<in># (if th then Mt i else M i)" by blast
  let ?s = "(set_iter_store th st s)\<lparr>rs_gen := (rs_gen s)[i := rs_gen s ! i @ [x]], rs_generated_facts := True\<rparr>"
  have "visible E (dn_matcher (rs_node s)) (both ?M ?Mt) (gen ?s)"
    by (rule visible_same [OF run_okD(3) [OF ok]]) (use len i st(4) in \<open>auto simp: nth_list_update split: if_splits\<close>)
  moreover have "buffers_ok E ?s ?M ?Mt"
    using run_okD(4) [OF ok] x(2) len i st(4) size_less [of x "if th then Mt i else M i"]
    by (auto simp: buffers_ok_def nth_list_update split: if_splits)
  ultimately have "run_ok E sz ?s ?M ?Mt" using ok st(2,3) by (simp add: run_ok_def)
  then show ?thesis using st(1,4) env_okD(3) [OF E i] len i r by (simp add: update_fact_def add_generated_def)
qed

lemma manage_index_ok:
  assumes E: "env_ok E" and ok: "run_ok E sz s M Mt"
  shows "\<exists>nd. manage_index E (rs_node s) = Some nd \<and> run_ok E sz (s\<lparr>rs_node := nd\<rparr>) M Mt"
  using cleanup_index_holds [OF run_okD(1) [OF ok]] E ok
  by (auto simp: manage_index_def Let_def run_ok_def env_ok_def buffers_ok_def idle_ok_def)

end
