(* ===== verification/Node_Run.thy ===== *)
theory Node_Run
  imports Node_Db_Spec
begin

text \<open>
  The runs of a node: facts of the same thread and of other threads arrive, the thread takes them and runs rules,
  which consume, update and generate facts, of the node and of its thread; between two rules the generated facts are moved to the databases
  (\<^verbatim>\<open>state::run_node\<close> in \<^verbatim>\<open>vm/state.cpp\<close>). Other threads only have the lock of the incoming facts, so
  their facts arrive at any time, also while a rule runs. The fields of facts are written when they are made and when
  a rule updates them.
\<close>

subsection \<open>The steps\<close>

fun item_size :: "store_item \<Rightarrow> nat" where
  "item_size (AsList xs) = length xs"
| "item_size (AsTable T) = ht_elems T"

definition stored_facts :: "run_state \<Rightarrow> nat \<Rightarrow> nat" where
  "stored_facts s i = item_size (ls_data (dn_linear (rs_node s)) ! i) + item_size (ls_data (dn_linear (rs_thread s)) ! i) +
     length (dn_incoming (rs_node s) ! i) + length (rs_gen s ! i)"

text \<open>
  New fields \<open>fs\<close> of the fact at \<open>x\<close>: when it is in the table of an indexed predicate, they have the same value in the indexed field;
  when it is in another list of facts of such a predicate, they have a key. The code does not check this: the fact of a first iterator that is updated in place stays
  in its bucket. A fact that leaves the table because it is updated gets its new fields when it has left.
\<close>

definition writable :: "db_env_t \<Rightarrow> run_state \<Rightarrow> ptr_val \<Rightarrow> tuple_field list \<Rightarrow> bool" where
  "writable E s x fs \<longleftrightarrow>
     (\<forall>i < length (de_linear E). is_hash_table (de_linear E ! i) \<longrightarrow>
        (x \<in> set (item_tabled (ls_data (dn_linear (rs_node s)) ! i)) \<union> set (item_tabled (ls_data (dn_linear (rs_thread s)) ! i)) \<longrightarrow>
           same_key (de_tuples E) (de_tuples (set_fields x fs E)) (de_linear E ! i) x) \<and>
        (x \<in> set (item_list (ls_data (dn_linear (rs_node s)) ! i)) \<union> set (item_list (ls_data (dn_linear (rs_thread s)) ! i)) \<union>
             set (dn_incoming (rs_node s) ! i) \<union> set (rs_gen s ! i) \<longrightarrow>
           indexable (de_tuples (set_fields x fs E)) (de_linear E ! i) x))"

definition node_pred :: "predicate \<Rightarrow> bool" where
  "node_pred pred \<longleftrightarrow> plain_linear pred \<and> \<not> p_is_thread pred"

text \<open>
  The table of a predicate counts its facts with 16 bits, so the steps that add facts keep their number below \<open>65536\<close>. Linear facts that arrive are
  not of thread predicates, and the facts of an indexed predicate have a key (\<open>fits\<close>).
  The flag says that a rule is running.
\<close>

inductive node_step :: "db_env_t \<times> bool \<times> run_state \<Rightarrow> db_env_t \<times> bool \<times> run_state \<Rightarrow> bool" where
  myself: "i < length (de_linear E) \<Longrightarrow> node_pred (de_linear E ! i) \<Longrightarrow> fits E i x \<Longrightarrow> stored_facts s i < 65535 \<Longrightarrow>
    add_work_myself E x (de_linear E ! i) dir depth (rs_node s) = Some nd \<Longrightarrow>
    node_step (E, False, s) (E, False, s\<lparr>rs_node := nd\<rparr>)"
| reused: "i < length (de_linear E) \<Longrightarrow> \<not> p_is_thread (de_linear E ! i) \<Longrightarrow> fits E i x \<Longrightarrow> stored_facts s i < 65535 \<Longrightarrow>
    add_linear_fact E x (de_linear E ! i) (rs_node s) = Some nd \<Longrightarrow>
    node_step (E, False, s) (E, False, s\<lparr>rs_node := nd\<rparr>)"
| buffer_myself: "i < length (de_linear E) \<Longrightarrow> node_pred (de_linear E ! i) \<Longrightarrow> xs \<noteq> [] \<Longrightarrow> \<forall>x \<in> set xs. fits E i x \<Longrightarrow>
    stored_facts s i + length xs \<le> 65535 \<Longrightarrow>
    add_work_myself_buffer E [(de_linear E ! i, xs)] (rs_node s) = Some nd \<Longrightarrow>
    node_step (E, False, s) (E, False, s\<lparr>rs_node := nd\<rparr>)"
| others: "i < length (de_linear E) \<Longrightarrow> node_pred (de_linear E ! i) \<Longrightarrow> fits E i x \<Longrightarrow> stored_facts s i < 65535 \<Longrightarrow>
    add_work_others x (de_linear E ! i) dir depth (rs_node s) = Some nd \<Longrightarrow>
    node_step (E, b, s) (E, b, s\<lparr>rs_node := nd\<rparr>)"
| buffer_others: "i < length (de_linear E) \<Longrightarrow> node_pred (de_linear E ! i) \<Longrightarrow> \<forall>x \<in> set xs. fits E i x \<Longrightarrow>
    stored_facts s i + length xs \<le> 65535 \<Longrightarrow>
    add_work_others_buffer [(de_linear E ! i, xs)] (rs_node s) = Some nd \<Longrightarrow>
    node_step (E, b, s) (E, b, s\<lparr>rs_node := nd\<rparr>)"
| set_myself: "\<not> plain_linear pred \<Longrightarrow> add_work_myself E x pred dir depth (rs_node s) = Some nd \<or>
      add_work_myself_buffer E [(pred, xs)] (rs_node s) = Some nd \<Longrightarrow>
    node_step (E, False, s) (E, False, s\<lparr>rs_node := nd\<rparr>)"
| set_others: "\<not> plain_linear pred \<Longrightarrow> add_work_others x pred dir depth (rs_node s) = Some nd \<or>
      add_work_others_buffer [(pred, xs)] (rs_node s) = Some nd \<Longrightarrow>
    node_step (E, b, s) (E, b, s\<lparr>rs_node := nd\<rparr>)"
| receive: "receive_work E s = Some (actions, s') \<Longrightarrow> node_step (E, False, s) (E, False, s')"
| treat: "rs_persistent s = x # xs \<Longrightarrow> node_step (E, b, s) (E, b, s\<lparr>rs_persistent := xs\<rparr>)"
| start: "start_rule E s = Some (r, s') \<Longrightarrow> node_step (E, False, s) (E, True, s')"
| fields: "writable E s x fs \<Longrightarrow> node_step (E, b, s) (set_fields x fs E, b, s)"
| consume: "i < length (de_linear E) \<Longrightarrow> fact_at i pos n (iter_store th s) x \<Longrightarrow>
    consume_fact E th (de_linear E ! i) pos n s = Some (x, s') \<Longrightarrow> node_step (E, True, s) (E, True, s')"
| update: "i < length (de_linear E) \<Longrightarrow> fact_at i pos n (iter_store th s) x \<Longrightarrow> fits E i x \<Longrightarrow>
    update_fact th reg (de_linear E ! i) pos n s = Some s' \<Longrightarrow> node_step (E, True, s) (E, True, s')"
| derive: "i < length (de_linear E) \<Longrightarrow> fits E i x \<Longrightarrow> stored_facts s i < 65535 \<Longrightarrow>
    add_generated x (de_linear E ! i) s = Some s' \<Longrightarrow> node_step (E, True, s) (E, True, s')"
| finish: "move_generated E s = Some s' \<Longrightarrow> node_step (E, True, s) (E, False, s')"
| persistent: "p < num_predicates_of (de_rules E) \<Longrightarrow> p \<notin> p_id ` set (de_linear E) \<Longrightarrow>
    node_step (E, b, s)
      (E, b, s\<lparr>rs_node := (rs_node s)\<lparr>dn_matcher := new_persistent_count (de_rules E) p n (dn_matcher (rs_node s))\<rparr>\<rparr>)"
| index: "manage_index E (rs_node s) = Some nd \<Longrightarrow> node_step (E, False, s) (E, False, s\<lparr>rs_node := nd\<rparr>)"

definition new_run_state :: "db_env_t \<Rightarrow> db_node \<Rightarrow> db_node \<Rightarrow> run_state" where
  "new_run_state E nd thread = \<lparr>rs_node = nd, rs_thread = thread, rs_gen = replicate (length (de_linear E)) [],
     rs_generated_facts = False, rs_persistent = []\<rparr>"

inductive node_reachable :: "nat \<Rightarrow> db_env_t \<times> bool \<times> run_state \<Rightarrow> bool" for words where
  start: "1 \<le> words \<Longrightarrow> length (de_linear E) \<le> 64 * words \<Longrightarrow> words - 1 \<le> length g1 \<Longrightarrow> words - 1 \<le> length g2 \<Longrightarrow>
    preds_words (de_rules E) - 1 \<le> length h1 \<Longrightarrow> rules_words (de_rules E) - 1 \<le> length h2 \<Longrightarrow>
    node_reachable words (E, False, new_run_state E
      (new_db_node E d p b1 g1 words (create_rule_matcher (de_rules E) h1 h2 m)) (new_db_node E d' p' b2 g2 words m'))"
| step: "node_reachable words s \<Longrightarrow> node_step s s' \<Longrightarrow> node_reachable words s'"

subsection \<open>The invariant\<close>

lemma item_size_holds: "item_holds tuples pred it N \<Longrightarrow> item_size it = size N"
  by (cases it) (auto simp: table_holds_size)

lemma stored_facts_load:
  assumes ok: "run_ok E sz s M Mt" and i: "i < length (de_linear E)"
  shows "stored_facts s i = load s M Mt i"
proof -
  have "item_size (ls_data (dn_linear (rs_node s)) ! i) = size (M i)" "item_size (ls_data (dn_linear (rs_thread s)) ! i) = size (Mt i)"
    using run_okD(1,2) [OF ok] i unfolding store_holds_def by (blast intro: item_size_holds)+
  then show ?thesis by (simp add: stored_facts_def)
qed

lemma new_run_ok:
  assumes E: "env_ok E" and w: "1 \<le> words" "length (de_linear E) \<le> 64 * words" "words - 1 \<le> length g1" "words - 1 \<le> length g2"
    "preds_words (de_rules E) - 1 \<le> length h1" "rules_words (de_rules E) - 1 \<le> length h2"
  shows "run_ok E words (new_run_state E (new_db_node E d p b1 g1 words (create_rule_matcher (de_rules E) h1 h2 m))
    (new_db_node E d' p' b2 g2 words m')) (\<lambda>_. {#}) (\<lambda>_. {#})"
proof -
  have e: "wf_program_rules (de_rules E)" "de_linear E \<noteq> []" using E by (simp_all add: env_ok_def)
  note m = create_rule_matcher_inv [OF e(1) w(5,6), of m]
  show ?thesis
    using new_store_holds [OF w(1) w(3) w(2) e(2)] new_store_holds [OF w(1) w(4) w(2) e(2)] m
    by (simp add: run_ok_def new_run_state_def new_db_node_def visible_def buffers_ok_def all_empty_def idle_ok_def)
qed

lemma run_ok_persistent:
  assumes E: "env_ok E" and ok: "run_ok E sz s M Mt" and p: "p < num_predicates_of (de_rules E)" "p \<notin> p_id ` set (de_linear E)"
  shows "run_ok E sz (s\<lparr>rs_node := (rs_node s)\<lparr>dn_matcher := new_persistent_count (de_rules E) p n (dn_matcher (rs_node s))\<rparr>\<rparr>) M Mt"
proof -
  let ?m = "dn_matcher (rs_node s)"
  have wf: "wf_program_rules (de_rules E)" using E by (simp add: env_ok_def)
  have m: "matcher_inv (de_rules E) ?m" using run_okD(3) [OF ok] by (simp add: visible_def)
  note rm = rm.add_inv [OF conjI [OF wf m] p(1)] rm.add_avail [OF conjI [OF wf m] p(1)]
    rm.del_inv [OF conjI [OF wf m] p(1)] rm.del_avail [OF conjI [OF wf m] p(1)]
  have ids: "p_id (de_linear E ! i) \<noteq> p" if "i < length (de_linear E)" for i using p(2) that by auto
  have "new_persistent_count (de_rules E) p n ?m \<in> {new_linear_fact (de_rules E) p ?m, empty_predicate (de_rules E) p ?m}"
    by (simp add: new_persistent_count_def new_persistent_fact_def empty_predicate_def)
  then have "visible E (new_persistent_count (de_rules E) p n ?m) (both M Mt) (gen s)"
    using run_okD(3) [OF ok] rm ids by (auto simp: visible_def)
  then show ?thesis using ok by (simp add: run_ok_def buffers_ok_def idle_ok_def)
qed

text \<open>Facts that are not linear, or linear and kept as persistent ones, and action facts.\<close>

lemma run_ok_set:
  assumes ok: "run_ok E sz s M Mt" and p: "\<not> plain_linear pred"
    and nd: "add_work_myself E x pred dir depth (rs_node s) = Some nd \<or> add_work_myself_buffer E [(pred, xs)] (rs_node s) = Some nd \<or>
      add_work_others x pred dir depth (rs_node s) = Some nd \<or> add_work_others_buffer [(pred, xs)] (rs_node s) = Some nd"
  shows "run_ok E sz (s\<lparr>rs_node := nd\<rparr>) M Mt"
proof -
  have "dn_linear nd = dn_linear (rs_node s) \<and> dn_matcher nd = dn_matcher (rs_node s) \<and> dn_incoming nd = dn_incoming (rs_node s) \<and> dn_unprocessed_facts nd"
    using nd p by (auto simp: plain_linear_def add_work_myself_def inner_add_work_myself_def add_work_others_def inner_add_work_others_def
        add_persistent_fact_def add_work_myself_buffer_def work_item_myself_def add_work_others_buffer_def work_item_others_def split: if_splits)
  then show ?thesis using ok by (simp add: run_ok_def buffers_ok_def idle_ok_def)
qed

lemma env_ok_fields [simp]: "env_ok (set_fields x fs E) = env_ok E"
  by (simp add: env_ok_def set_fields_def)

lemma run_ok_write:
  assumes ok: "run_ok E sz s M Mt" and w: "writable E s x fs"
  shows "run_ok (set_fields x fs E) sz s M Mt"
proof -
  let ?E = "set_fields x fs E"
  have other: "tuple_get_field (de_tuples ?E) f y = tuple_get_field (de_tuples E) f y" if "y \<noteq> x" for f y
    using that by (simp add: set_fields_def tuple_get_field_def)
  have st: "store_holds (de_tuples ?E) (de_linear E) sz (dn_linear nd) N"
    if "holds E sz nd N" "nd = rs_node s \<or> nd = rs_thread s" for nd N
  proof (rule store_holds_write [OF that(1)])
    fix i y assume i: "i < length (de_linear E)" "is_hash_table (de_linear E ! i)"
    show "same_key (de_tuples E) (de_tuples ?E) (de_linear E ! i) y" if "y \<in> set (item_tabled (ls_data (dn_linear nd) ! i))"
      using that w i \<open>nd = rs_node s \<or> nd = rs_thread s\<close> other [of y] by (cases "y = x") (auto simp: writable_def same_key_def)
    show "indexable (de_tuples ?E) (de_linear E ! i) y" if l: "y \<in> set (item_list (ls_data (dn_linear nd) ! i))"
    proof (cases "y = x")
      case True
      then show ?thesis using l w i \<open>nd = rs_node s \<or> nd = rs_thread s\<close> by (auto simp: writable_def)
    next
      case False
      have "item_holds (de_tuples E) (de_linear E ! i) (ls_data (dn_linear nd) ! i) (N i)"
        using \<open>holds E sz nd N\<close> i(1) by (simp add: store_holds_def)
      then have "indexable (de_tuples E) (de_linear E ! i) y" using l i(2) by (cases "ls_data (dn_linear nd) ! i") auto
      then show ?thesis using other [OF False] by (simp add: indexable_def)
    qed
  qed
  have f: "fits ?E i y" if "fits E i y" "i < length (de_linear E)" "y \<in> set (dn_incoming (rs_node s) ! i) \<union> set (rs_gen s ! i)" for i y
    using that w other [of y] by (cases "y = x") (auto simp: fits_def writable_def indexable_def set_fields_def)
  have e: "de_linear ?E = de_linear E" "de_rules ?E = de_rules E" by (simp_all add: set_fields_def)
  show ?thesis using run_okD [OF ok] st f unfolding run_ok_def buffers_ok_def visible_def e by blast
qed

text \<open>Every step keeps the invariant, and between the rules no fact waits among the generated ones.\<close>

definition node_inv :: "nat \<Rightarrow> db_env_t \<times> bool \<times> run_state \<Rightarrow> bool" where
  "node_inv sz c \<longleftrightarrow> (case c of (E, running, s) \<Rightarrow>
     (\<exists>M Mt. run_ok E sz s M Mt) \<and> (\<not> running \<longrightarrow> all_empty (rs_gen s)))"

lemma node_step_ok:
  assumes E: "env_ok (fst c)" and step: "node_step c c'" and inv: "node_inv sz c"
  shows "node_inv sz c'"
  using step
proof cases
  case (myself i E x s dir depth nd)
  then obtain M Mt where r: "run_ok E sz s M Mt" "all_empty (rs_gen s)" using inv by (auto simp: node_inv_def)
  have p: "\<not> p_is_thread (de_linear E ! i)" "plain_linear (de_linear E ! i)" using myself(4) by (simp_all add: node_pred_def)
  from run_ok_work_myself [OF _ r(1) myself(3) p myself(5), of dir depth] myself r stored_facts_load [OF r(1) myself(3)] E
  show ?thesis by (auto simp: node_inv_def)
next
  case (reused i E x s nd)
  then obtain M Mt where r: "run_ok E sz s M Mt" "all_empty (rs_gen s)" using inv by (auto simp: node_inv_def)
  from run_ok_add_linear [OF _ r(1) reused(3,4,5)] reused r stored_facts_load [OF r(1) reused(3)] E
  show ?thesis by (auto simp: node_inv_def)
next
  case (buffer_myself i E xs s nd)
  then obtain M Mt where r: "run_ok E sz s M Mt" "all_empty (rs_gen s)" using inv by (auto simp: node_inv_def)
  have p: "\<not> p_is_thread (de_linear E ! i)" "plain_linear (de_linear E ! i)" using buffer_myself(4) by (simp_all add: node_pred_def)
  from run_ok_item_myself [OF _ r(1) buffer_myself(3) p buffer_myself(5,6)] buffer_myself r stored_facts_load [OF r(1) buffer_myself(3)] E
  show ?thesis by (auto simp: node_inv_def)
next
  case (others i E x s dir depth nd b)
  then obtain M Mt where r: "run_ok E sz s M Mt" "\<not> b \<longrightarrow> all_empty (rs_gen s)" using inv by (auto simp: node_inv_def)
  have p: "\<not> p_is_thread (de_linear E ! i)" "plain_linear (de_linear E ! i)" using others(4) by (simp_all add: node_pred_def)
  from run_ok_work_others [OF _ r(1) others(3) p others(5), of dir depth] others r stored_facts_load [OF r(1) others(3)] E
  show ?thesis by (auto simp: node_inv_def)
next
  case (buffer_others i E xs s nd b)
  then obtain M Mt where r: "run_ok E sz s M Mt" "\<not> b \<longrightarrow> all_empty (rs_gen s)" using inv by (auto simp: node_inv_def)
  have p: "\<not> p_is_thread (de_linear E ! i)" "plain_linear (de_linear E ! i)" using buffer_others(4) by (simp_all add: node_pred_def)
  from run_ok_item_others [OF _ r(1) buffer_others(3) p buffer_others(5)] buffer_others r stored_facts_load [OF r(1) buffer_others(3)] E
  show ?thesis by (auto simp: node_inv_def)
next
  case (set_myself pred E x dir depth s nd xs)
  then show ?thesis using inv run_ok_set [of E sz s _ _ pred x dir depth nd xs] by (auto simp: node_inv_def)
next
  case (set_others pred x dir depth s nd xs E b)
  then show ?thesis using inv run_ok_set [of E sz s _ _ pred x dir depth nd xs] by (auto simp: node_inv_def)
next
  case (receive E s actions s')
  then obtain M Mt where r: "run_ok E sz s M Mt" "all_empty (rs_gen s)" using inv by (auto simp: node_inv_def)
  from receive_work_ok [OF _ r(1)] receive r E show ?thesis by (auto simp: node_inv_def)
next
  case (treat s x xs E b)
  have "run_ok E sz (s\<lparr>rs_persistent := xs\<rparr>) M Mt = run_ok E sz s M Mt" for M Mt
    by (simp add: run_ok_def buffers_ok_def)
  then show ?thesis using inv treat by (auto simp: node_inv_def)
next
  case (start E s r s')
  then obtain M Mt where "run_ok E sz s M Mt" "all_empty (rs_gen s)" using inv by (auto simp: node_inv_def)
  from start_rule_ok [OF this start(3)] start show ?thesis by (auto simp: node_inv_def)
next
  case (fields E s x fs b)
  then show ?thesis using inv run_ok_write [of E sz s _ _ x fs] by (auto simp: node_inv_def)
next
  case (consume i E pos n th s x s')
  then obtain M Mt where r: "run_ok E sz s M Mt" using inv by (auto simp: node_inv_def)
  have "env_ok E" using E consume(1) by simp
  from consume_fact_ok [OF this r consume(3,4)] consume show ?thesis by (auto simp: node_inv_def)
next
  case (update i E pos n th s x reg s')
  then obtain M Mt where r: "run_ok E sz s M Mt" using inv by (auto simp: node_inv_def)
  have e: "env_ok E" using E update(1) by simp
  show ?thesis
  proof (cases "0 < reg")
    case True
    from update_fact_ok [OF e r update(3,4,5) True] update show ?thesis by (auto simp: node_inv_def)
  next
    case False
    then show ?thesis using update r by (auto simp: node_inv_def update_fact_def)
  qed
next
  case (derive i E x s s')
  then obtain M Mt where r: "run_ok E sz s M Mt" using inv by (auto simp: node_inv_def)
  from run_ok_derive [OF _ r derive(3,4)] derive stored_facts_load [OF r derive(3)] E show ?thesis by (auto simp: node_inv_def)
next
  case (finish E s s')
  then obtain M Mt where r: "run_ok E sz s M Mt" using inv by (auto simp: node_inv_def)
  from move_generated_ok [OF _ r] finish E show ?thesis by (auto simp: node_inv_def)
next
  case (persistent p E b s n)
  then obtain M Mt where r: "run_ok E sz s M Mt" "\<not> b \<longrightarrow> all_empty (rs_gen s)" using inv by (auto simp: node_inv_def)
  have "env_ok E" using E persistent(1) by simp
  from run_ok_persistent [OF this r(1) persistent(3,4)] r(2) persistent(2) show ?thesis by (auto simp: node_inv_def)
next
  case (index E s nd)
  then obtain M Mt where r: "run_ok E sz s M Mt" "all_empty (rs_gen s)" using inv by (auto simp: node_inv_def)
  from manage_index_ok [OF _ r(1)] index r E show ?thesis by (auto simp: node_inv_def)
qed

lemma node_step_env: "node_step c c' \<Longrightarrow> env_ok (fst c') = env_ok (fst c)"
  by (cases rule: node_step.cases) auto

lemma node_reachable_ok: "node_reachable sz c \<Longrightarrow> env_ok (fst c) \<Longrightarrow> node_inv sz c"
proof (induction rule: node_reachable.induct)
  case (start E g1 g2 h1 h2 d p b1 m d' p' b2 m')
  from new_run_ok [OF _ start(1-6), of d p b1 m d' p' b2 m'] start(7) show ?case
    by (auto simp: node_inv_def) (simp add: new_run_state_def all_empty_def)
next
  case (step c c')
  have "env_ok (fst c)" using node_step_env [OF step(2)] step(4) by simp
  with step node_step_ok show ?case by blast
qed

lemma matcher_empty_available:
  assumes "matcher_inv P m" "matcher_is_empty P m"
  shows "available P m = {}"
  using assms bitmap_empty_iff [of "preds_words P" "rm_predicate_existence m"]
  by (simp add: matcher_inv_def matcher_is_empty_def available_def)

lemma all_emptyD: "all_empty xss \<Longrightarrow> i < length xss \<Longrightarrow> xss ! i = []"
  by (simp add: all_empty_def)



text \<open>A node with an indexed predicate: another thread sends two facts, the thread of the node takes them.\<close>

definition example_env :: db_env_t where
  "example_env = \<lparr>de_rules = example_rules, de_linear = [indexed_pred], de_tuples = (\<lambda>p. [p]), de_junk = (\<lambda>_. 0),
     de_desc = True, de_no_priority = 0\<rparr>"

definition example_run :: run_state where
  "example_run =
     (let b = \<lparr>bm_first = 0, bm_rest = []\<rparr>;
          nd = new_db_node example_env 0 0 b [] 1 example_matcher
      in new_run_state example_env nd nd)"

lemma example_env_ok: "env_ok example_env"
  by (simp add: env_ok_def example_env_def example_rules_facts linear_preds_ok_def indexed_pred_def zero_predicate_def
      pred_hash_type_def junk_ok_def)

lemma example_start: "node_reachable 1 (example_env, False, example_run)"
  unfolding example_run_def Let_def example_matcher_def
  by (rule node_reachable.start [where E = example_env, unfolded example_env_def, simplified, folded example_env_def])
    (simp_all add: example_rules_facts next_multiple_of_uint_def)

lemma example_sent_reachable:
  "\<exists>nd. add_work_others_buffer [(indexed_pred, [8, 16])] (rs_node example_run) = Some nd \<and>
    dn_incoming nd = [[8, 16]] \<and> node_reachable 1 (example_env, False, example_run\<lparr>rs_node := nd\<rparr>)"
proof -
  have "map_option dn_incoming (add_work_others_buffer [(indexed_pred, [8, 16])] (rs_node example_run)) = Some [[8, 16]]"
    by code_simp
  then obtain nd where nd: "add_work_others_buffer [(indexed_pred, [8, 16])] (rs_node example_run) = Some nd" "dn_incoming nd = [[8, 16]]"
    by auto
  have e: "de_linear example_env = [indexed_pred]" by (simp add: example_env_def)
  have p: "node_pred indexed_pred" "p_hash_argument indexed_pred = 0" "pred_hash_type indexed_pred = Some FIELD_INT"
    by (simp_all add: node_pred_def plain_linear_def indexed_pred_def zero_predicate_def pred_hash_type_def)
  have "fits example_env 0 x" for x
    by (simp add: fits_def e p indexable_def tuple_get_field_def hkey_def) (simp add: example_env_def)
  moreover have "stored_facts example_run 0 = 0" by code_simp
  ultimately have "node_step (example_env, False, example_run) (example_env, False, example_run\<lparr>rs_node := nd\<rparr>)"
    using node_step.buffer_others [of 0 example_env "[8, 16]" example_run nd False] nd(1) p(1) by (simp add: e)
  with example_start nd show ?thesis by (blast intro: node_reachable.step)
qed

lemma example_received:
  "\<exists>s. node_reachable 1 (example_env, False, s) \<and> get_list 0 (dn_linear (rs_node s)) = Some [8, 16]"
proof -
  obtain nd where nd: "add_work_others_buffer [(indexed_pred, [8, 16])] (rs_node example_run) = Some nd"
    "node_reachable 1 (example_env, False, example_run\<lparr>rs_node := nd\<rparr>)" using example_sent_reachable by blast
  have "Option.bind (add_work_others_buffer [(indexed_pred, [8, 16])] (rs_node example_run))
      (\<lambda>nd. map_option (\<lambda>(a, s). get_list 0 (dn_linear (rs_node s))) (receive_work example_env (example_run\<lparr>rs_node := nd\<rparr>))) = Some (Some [8, 16])"
    by code_simp
  then obtain a s where "receive_work example_env (example_run\<lparr>rs_node := nd\<rparr>) = Some (a, s)" "get_list 0 (dn_linear (rs_node s)) = Some [8, 16]"
    using nd(1) by auto
  with nd(2) show ?thesis by (blast intro: node_reachable.step node_step.receive)
qed


text \<open>Another thread also sends a persistent fact.\<close>

lemma example_both_reachable:
  "\<exists>nd. Option.bind (add_work_others_buffer [(indexed_pred, [8, 16])] (rs_node example_run)) (add_work_others 24 zero_predicate POSITIVE_DERIVATION 0) = Some nd \<and>
    dn_incoming nd = [[8, 16]] \<and> dn_incoming_persistent nd = [new_full_tuple 24 zero_predicate POSITIVE_DERIVATION 0] \<and>
    node_reachable 1 (example_env, False, example_run\<lparr>rs_node := nd\<rparr>)"
proof -
  obtain nd where nd: "add_work_others_buffer [(indexed_pred, [8, 16])] (rs_node example_run) = Some nd" "dn_incoming nd = [[8, 16]]"
    "node_reachable 1 (example_env, False, example_run\<lparr>rs_node := nd\<rparr>)" using example_sent_reachable by blast
  have "map_option dn_incoming_persistent (add_work_others_buffer [(indexed_pred, [8, 16])] (rs_node example_run)) = Some []" by code_simp
  then have p: "dn_incoming_persistent nd = []" using nd(1) by simp
  have z: "\<not> p_is_action zero_predicate" "\<not> p_is_linear zero_predicate" "\<not> plain_linear zero_predicate"
    by (simp_all add: zero_predicate_def plain_linear_def)
  then have nd2: "add_work_others 24 zero_predicate POSITIVE_DERIVATION 0 nd =
      Some (nd\<lparr>dn_unprocessed_facts := True, dn_incoming_persistent := [new_full_tuple 24 zero_predicate POSITIVE_DERIVATION 0]\<rparr>)"
    using p by (simp add: add_work_others_def inner_add_work_others_def add_persistent_fact_def)
  have "node_step (example_env, False, example_run\<lparr>rs_node := nd\<rparr>) (example_env, False, example_run\<lparr>rs_node :=
      nd\<lparr>dn_unprocessed_facts := True, dn_incoming_persistent := [new_full_tuple 24 zero_predicate POSITIVE_DERIVATION 0]\<rparr>\<rparr>)"
    using node_step.set_others [OF z(3), of 24 POSITIVE_DERIVATION 0 "example_run\<lparr>rs_node := nd\<rparr>"] nd2 by simp
  from node_reachable.step [OF nd(3) this] nd(1,2) nd2 show ?thesis by simp
qed


end
