(* ===== verification/Scheduler.thy ===== *)
theory Scheduler
  imports Node_Db Heap_Pqueue
begin

text \<open>
  The scheduler (\<^verbatim>\<open>thread/thread.hpp\<close>, \<^verbatim>\<open>thread/thread.cpp\<close>, \<^verbatim>\<open>thread/coord.cpp\<close>, \<^verbatim>\<open>thread/coord-include.hpp\<close>): every thread has
  queues of the nodes it has to run, with or without priorities, for nodes that other threads may
  steal and for those that stay; threads send facts to nodes of others, steal nodes, and programs change priorities and
  owners of nodes. The threads and all nodes are one state; a function is what a thread does while it
  has the lock of a node or of a queue. The queues are those of \<open>Double_Queue\<close> and \<open>Heap_Pqueue\<close>, over the link fields
  that all nodes have.
\<close>

subsection \<open>The state\<close>

abbreviation "STATE_IDLE \<equiv> queue_no_queue"
abbreviation "STATE_WORKING \<equiv> 0 :: 32 word"
abbreviation "STATE_STEALING \<equiv> 1 :: 32 word"
abbreviation "STATE_PRIO_CHANGE \<equiv> 2 :: 32 word"
abbreviation "STATE_STATIC_CHANGE \<equiv> 3 :: 32 word"
abbreviation "STATE_AFFINITY_CHANGE \<equiv> 4 :: 32 word"
abbreviation "NORMAL_QUEUE_MOVING \<equiv> 100 :: 32 word"
abbreviation "NORMAL_QUEUE_STATIC \<equiv> 101 :: 32 word"
abbreviation "PRIORITY_MOVING \<equiv> 102 :: 32 word"
abbreviation "PRIORITY_STATIC \<equiv> 103 :: 32 word"

abbreviation "THREAD_ACTIVE \<equiv> 1 :: byte"
abbreviation "THREAD_INACTIVE \<equiv> 2 :: byte"
abbreviation "THREAD_NEW_WORK \<equiv> 5 :: byte"

text \<open>The two members of the structures \<^verbatim>\<open>Queues\<close> and \<^verbatim>\<open>Priorities\<close>; \<open>THREAD_NEW_WORK\<close> is the flag together with that of an active thread.\<close>

datatype which = Moving | Stati

record sched_thread =
  th_id :: nat
  th_tstate :: byte
  th_queue :: "which \<Rightarrow> double_queue"
  th_prio :: "which \<Rightarrow> complex_pqueue"
  th_current :: ptr_val
  th_thread_node :: ptr_val
  th_comm :: bitmap
  th_steal_flag :: bool
  th_static_nodes :: "64 word"
  th_target :: ptr_val
  th_buffer :: "ptr_val list"

text \<open>\<open>th_target\<close> and \<open>th_buffer\<close> are local variables of \<^verbatim>\<open>go_steal_nodes\<close>: the victim and the nodes still to be treated.\<close>

record sched =
  sc_links :: node_store
  sc_nodes :: "ptr_val \<Rightarrow> db_node"
  sc_live :: "ptr_val set"
  sc_threads :: "ptr_val \<Rightarrow> sched_thread"
  sc_active_threads :: nat
  sc_done :: bool

text \<open>What is fixed: the program, whether coordination is enabled, the special fact that a moved node gets, the threads, the arithmetic of priorities.\<close>

record sched_env =
  se_db :: db_env_t
  se_scheduling_mechanism :: bool
  se_just_moved :: "predicate option"
  se_scheds :: "ptr_val list"
  se_num_threads_next_uint :: nat
  se_fadd :: "float_val \<Rightarrow> float_val \<Rightarrow> float_val"

definition upd_thread :: "ptr_val \<Rightarrow> (sched_thread \<Rightarrow> sched_thread) \<Rightarrow> sched \<Rightarrow> sched" where
  "upd_thread t f S = S\<lparr>sc_threads := (sc_threads S)(t := f (sc_threads S t))\<rparr>"

definition upd_node :: "ptr_val \<Rightarrow> (db_node \<Rightarrow> db_node) \<Rightarrow> sched \<Rightarrow> sched" where
  "upd_node n f S = S\<lparr>sc_nodes := (sc_nodes S)(n := f (sc_nodes S n))\<rparr>"

definition try_node :: "ptr_val \<Rightarrow> (db_node \<Rightarrow> db_node option) \<Rightarrow> sched \<Rightarrow> sched option" where
  "try_node n f S = map_option (\<lambda>nd. upd_node n (\<lambda>_. nd) S) (f (sc_nodes S n))"

definition node_state :: "ptr_val \<Rightarrow> sched \<Rightarrow> 32 word" where
  "node_state n S = i_queue (sc_links S n)"

definition active_node :: "ptr_val \<Rightarrow> sched \<Rightarrow> bool" where
  "active_node n S \<longleftrightarrow> node_state n S \<noteq> queue_no_queue"

definition make_inactive :: "ptr_val \<Rightarrow> sched \<Rightarrow> sched" where
  "make_inactive n S = S\<lparr>sc_links := n_set_queue (sc_links S) n queue_no_queue\<rparr>"

definition is_static :: "db_node \<Rightarrow> bool" where
  "is_static nd \<longleftrightarrow> dn_static_node nd \<noteq> 0"

subsection \<open>Queues of a thread\<close>

definition queue_push_tail :: "ptr_val \<Rightarrow> which \<Rightarrow> ptr_val \<Rightarrow> sched \<Rightarrow> sched" where
  "queue_push_tail t w n S =
     (case push_tail_node n (sc_links S) (th_queue (sc_threads S t) w) of
        (\<sigma>, q) \<Rightarrow> upd_thread t (\<lambda>th. th\<lparr>th_queue := (th_queue th)(w := q)\<rparr>) (S\<lparr>sc_links := \<sigma>\<rparr>))"

definition queue_remove :: "ptr_val \<Rightarrow> which \<Rightarrow> ptr_val \<Rightarrow> 32 word \<Rightarrow> sched \<Rightarrow> bool \<times> sched" where
  "queue_remove t w n new_state S =
     (case dq_do_remove n new_state (sc_links S) (th_queue (sc_threads S t) w) of
        (b, \<sigma>, q) \<Rightarrow> (b, upd_thread t (\<lambda>th. th\<lparr>th_queue := (th_queue th)(w := q)\<rparr>) (S\<lparr>sc_links := \<sigma>\<rparr>)))"

definition queue_pop_head :: "ptr_val \<Rightarrow> which \<Rightarrow> 32 word \<Rightarrow> sched \<Rightarrow> ptr_val \<times> sched" where
  "queue_pop_head t w new_state S =
     (case dq_do_pop_head new_state (sc_links S) (th_queue (sc_threads S t) w) of
        (n, \<sigma>, q) \<Rightarrow> (n, upd_thread t (\<lambda>th. th\<lparr>th_queue := (th_queue th)(w := q)\<rparr>) (S\<lparr>sc_links := \<sigma>\<rparr>)))"

definition queue_pop_half :: "ptr_val \<Rightarrow> which \<Rightarrow> nat \<Rightarrow> 32 word \<Rightarrow> sched \<Rightarrow> ptr_val list \<times> sched" where
  "queue_pop_half t w mx new_state S =
     (case dq_pop_tail_half mx new_state (sc_links S) (th_queue (sc_threads S t) w) of
        (ns, \<sigma>, q) \<Rightarrow> (ns, upd_thread t (\<lambda>th. th\<lparr>th_queue := (th_queue th)(w := q)\<rparr>) (S\<lparr>sc_links := \<sigma>\<rparr>)))"

definition prio_insert :: "ptr_val \<Rightarrow> which \<Rightarrow> ptr_val \<Rightarrow> float_val \<Rightarrow> sched \<Rightarrow> sched" where
  "prio_insert t w n p S =
     (case pq_do_insert n p (sc_links S) (th_prio (sc_threads S t) w) of
        (\<sigma>, q) \<Rightarrow> upd_thread t (\<lambda>th. th\<lparr>th_prio := (th_prio th)(w := q)\<rparr>) (S\<lparr>sc_links := \<sigma>\<rparr>))"

definition prio_remove :: "ptr_val \<Rightarrow> which \<Rightarrow> ptr_val \<Rightarrow> 32 word \<Rightarrow> sched \<Rightarrow> bool \<times> sched" where
  "prio_remove t w n new_state S =
     (case pq_remove n new_state (sc_links S) (th_prio (sc_threads S t) w) of
        (b, \<sigma>, q) \<Rightarrow> (b, upd_thread t (\<lambda>th. th\<lparr>th_prio := (th_prio th)(w := q)\<rparr>) (S\<lparr>sc_links := \<sigma>\<rparr>)))"

definition prio_move_node :: "ptr_val \<Rightarrow> which \<Rightarrow> ptr_val \<Rightarrow> float_val \<Rightarrow> sched \<Rightarrow> sched" where
  "prio_move_node t w n p S =
     (case pq_do_move_node n p (sc_links S) (th_prio (sc_threads S t) w) of
        (\<sigma>, q) \<Rightarrow> upd_thread t (\<lambda>th. th\<lparr>th_prio := (th_prio th)(w := q)\<rparr>) (S\<lparr>sc_links := \<sigma>\<rparr>))"

definition prio_pop_half :: "ptr_val \<Rightarrow> which \<Rightarrow> nat \<Rightarrow> 32 word \<Rightarrow> sched \<Rightarrow> (ptr_val list \<times> sched) option" where
  "prio_pop_half t w mx new_state S =
     map_option (\<lambda>(ns, \<sigma>, q). (ns, upd_thread t (\<lambda>th. th\<lparr>th_prio := (th_prio th)(w := q)\<rparr>) (S\<lparr>sc_links := \<sigma>\<rparr>)))
       (pq_do_pop_half mx new_state (sc_links S) (th_prio (sc_threads S t) w))"

text \<open>\<^verbatim>\<open>prios.moving.pop_best(prios.stati, ...)\<close>\<close>

definition prio_pop_best :: "ptr_val \<Rightarrow> 32 word \<Rightarrow> sched \<Rightarrow> ptr_val \<times> sched" where
  "prio_pop_best t new_state S =
     (case pq_pop_best new_state (sc_links S) (th_prio (sc_threads S t) Moving) (th_prio (sc_threads S t) Stati) of
        (n, \<sigma>, qm, qs) \<Rightarrow>
          (n, upd_thread t (\<lambda>th. th\<lparr>th_prio := (th_prio th)(Moving := qm, Stati := qs)\<rparr>) (S\<lparr>sc_links := \<sigma>\<rparr>)))"

definition queues_has_work :: "sched_thread \<Rightarrow> bool" where
  "queues_has_work th \<longleftrightarrow> \<not> dq_empty (th_queue th Moving) \<or> \<not> dq_empty (th_queue th Stati)"

definition prios_has_work :: "sched_thread \<Rightarrow> bool" where
  "prios_has_work th \<longleftrightarrow> \<not> pq_empty (th_prio th Moving) \<or> \<not> pq_empty (th_prio th Stati)"

definition has_work :: "sched_thread \<Rightarrow> bool" where
  "has_work th \<longleftrightarrow> queues_has_work th \<or> prios_has_work th"

definition add_to_priority_queue :: "db_env_t \<Rightarrow> ptr_val \<Rightarrow> ptr_val \<Rightarrow> sched \<Rightarrow> sched" where
  "add_to_priority_queue E t n S =
     (if is_static (sc_nodes S n) then prio_insert t Stati n (get_priority E (sc_nodes S n)) S
      else prio_insert t Moving n (get_priority E (sc_nodes S n)) S)"

definition add_to_queue :: "db_env_t \<Rightarrow> ptr_val \<Rightarrow> ptr_val \<Rightarrow> sched \<Rightarrow> sched" where
  "add_to_queue E t n S =
     (if has_priority E (sc_nodes S n) then add_to_priority_queue E t n S
      else if is_static (sc_nodes S n) then queue_push_tail t Stati n S
      else queue_push_tail t Moving n S)"

definition pop_node_from_queues :: "ptr_val \<Rightarrow> sched \<Rightarrow> ptr_val \<times> sched" where
  "pop_node_from_queues t S =
     (case queue_pop_head t Stati STATE_WORKING S of
        (n, S1) \<Rightarrow> if n \<noteq> 0 then (n, S1) else queue_pop_head t Moving STATE_WORKING S1)"

subsection \<open>States of threads\<close>

text \<open>
  The loops with \<^verbatim>\<open>cmpxchg\<close> change the state of a thread and then the counter of the termination barrier; here this
  is one step, and \<open>Termination\<close> has the two steps.
\<close>

definition barrier_is_active :: "sched \<Rightarrow> sched" where
  "barrier_is_active S = S\<lparr>sc_active_threads := sc_active_threads S + 1\<rparr>"

definition barrier_is_inactive :: "sched \<Rightarrow> sched" where
  "barrier_is_inactive S =
     (let S = S\<lparr>sc_active_threads := size_sub (sc_active_threads S) 1\<rparr>
      in if sc_active_threads S = 0 then S\<lparr>sc_done := True\<rparr> else S)"

definition set_tstate :: "ptr_val \<Rightarrow> byte \<Rightarrow> sched \<Rightarrow> sched" where
  "set_tstate t b S = upd_thread t (\<lambda>th. th\<lparr>th_tstate := b\<rparr>) S"

definition activate_thread :: "ptr_val \<Rightarrow> sched \<Rightarrow> sched" where
  "activate_thread t S =
     (let old_val = th_tstate (sc_threads S t)
      in if old_val = THREAD_INACTIVE then barrier_is_active (set_tstate t THREAD_NEW_WORK S)
         else if old_val = THREAD_ACTIVE then set_tstate t THREAD_NEW_WORK S
         else S)"

definition set_active_if_inactive :: "ptr_val \<Rightarrow> sched \<Rightarrow> bool \<times> sched" where
  "set_active_if_inactive t S =
     (let old_val = th_tstate (sc_threads S t)
      in if old_val = THREAD_INACTIVE then (False, barrier_is_active (set_tstate t THREAD_ACTIVE S))
         else if old_val = THREAD_ACTIVE then (False, S)
         else (True, set_tstate t THREAD_ACTIVE S))"

definition set_inactive_if_no_work :: "ptr_val \<Rightarrow> sched \<Rightarrow> bool \<times> sched" where
  "set_inactive_if_no_work t S =
     (let old_val = th_tstate (sc_threads S t)
      in if old_val = THREAD_INACTIVE then (False, S)
         else if old_val = THREAD_ACTIVE then (False, barrier_is_inactive (set_tstate t THREAD_INACTIVE S))
         else (True, set_tstate t THREAD_ACTIVE S))"

definition set_force_inactive :: "ptr_val \<Rightarrow> sched \<Rightarrow> sched" where
  "set_force_inactive t S =
     (let old_val = th_tstate (sc_threads S t)
      in if old_val = THREAD_INACTIVE then S
         else if old_val = THREAD_ACTIVE then barrier_is_inactive (set_tstate t THREAD_INACTIVE S)
         else set_tstate t THREAD_INACTIVE S)"

subsection \<open>Sending facts\<close>

definition set_comm :: "ptr_val \<Rightarrow> ptr_val \<Rightarrow> sched \<Rightarrow> sched" where
  "set_comm t other S = upd_thread t (\<lambda>th. th\<lparr>th_comm := bitmap_set_bit (th_comm th) (th_id (sc_threads S other))\<rparr>) S"

text \<open>After the facts have been added: the node is queued unless it is in a queue, is run or is stolen.\<close>

definition queue_if_idle :: "db_env_t \<Rightarrow> ptr_val \<Rightarrow> ptr_val \<Rightarrow> sched \<Rightarrow> sched" where
  "queue_if_idle E t n S =
     (let owner = dn_owner (sc_nodes S n)
      in if active_node n S then S
         else if owner = t then add_to_queue E t n S
         else set_comm t owner (add_to_queue E owner n S))"

text \<open>\<open>got_lock\<close> is the result of \<^verbatim>\<open>try_lock1\<close> on the database of the node, when the node belongs to another thread.\<close>

definition new_work ::
  "db_env_t \<Rightarrow> ptr_val \<Rightarrow> bool \<Rightarrow> ptr_val \<Rightarrow> ptr_val \<Rightarrow> predicate \<Rightarrow> derivation_direction \<Rightarrow> nat \<Rightarrow> sched \<Rightarrow> sched option" where
  "new_work E t got_lock to tpl pred dir depth S =
     do { S \<leftarrow> (if dn_owner (sc_nodes S to) = t \<or> got_lock
                then try_node to (add_work_myself E tpl pred dir depth) S
                else try_node to (add_work_others tpl pred dir depth) S);
          Some (queue_if_idle E t to S) }"

definition new_work_list :: "db_env_t \<Rightarrow> ptr_val \<Rightarrow> bool \<Rightarrow> ptr_val \<Rightarrow> buffer_node \<Rightarrow> sched \<Rightarrow> sched option" where
  "new_work_list E t got_lock to b S =
     do { S \<leftarrow> (if dn_owner (sc_nodes S to) = t \<or> got_lock
                then try_node to (add_work_myself_buffer E b) S
                else try_node to (add_work_others_buffer b) S);
          Some (queue_if_idle E t to S) }"

definition new_thread_work :: "ptr_val \<Rightarrow> ptr_val \<Rightarrow> ptr_val \<Rightarrow> predicate \<Rightarrow> sched \<Rightarrow> sched option" where
  "new_thread_work t to tpl pred S =
     do { S \<leftarrow> try_node (th_thread_node (sc_threads S to)) (add_work_others tpl pred POSITIVE_DERIVATION 0) S;
          Some (set_comm t to S) }"

subsection \<open>Moving nodes between threads\<close>

definition make_node_static :: "ptr_val \<Rightarrow> ptr_val \<Rightarrow> sched \<Rightarrow> sched" where
  "make_node_static n target S =
     (let old = dn_static_node (sc_nodes S n);
          S = (if old \<noteq> 0 then upd_thread old (\<lambda>th. th\<lparr>th_static_nodes := th_static_nodes th - 1\<rparr>) S else S);
          S = upd_thread target (\<lambda>th. th\<lparr>th_static_nodes := th_static_nodes th + 1\<rparr>) S
      in upd_node n (\<lambda>nd. nd\<lparr>dn_static_node := target\<rparr>) S)"

definition make_node_moving :: "ptr_val \<Rightarrow> sched \<Rightarrow> sched" where
  "make_node_moving n S =
     (let old = dn_static_node (sc_nodes S n);
          S = (if old \<noteq> 0 then upd_thread old (\<lambda>th. th\<lparr>th_static_nodes := th_static_nodes th - 1\<rparr>) S else S)
      in upd_node n (\<lambda>nd. nd\<lparr>dn_static_node := 0\<rparr>) S)"

definition set_owner :: "ptr_val \<Rightarrow> ptr_val \<Rightarrow> sched \<Rightarrow> sched" where
  "set_owner n t S = upd_node n (\<lambda>nd. nd\<lparr>dn_owner := t\<rparr>) S"

text \<open>\<open>tpl\<close> is the new tuple of the special fact, if the program uses it.\<close>

definition just_moved :: "sched_env \<Rightarrow> ptr_val \<Rightarrow> ptr_val \<Rightarrow> sched \<Rightarrow> sched option" where
  "just_moved SE tpl n S =
     (case se_just_moved SE of None \<Rightarrow> Some S | Some pred \<Rightarrow> try_node n (add_linear_fact (se_db SE) tpl pred) S)"

definition just_moved_buffer :: "sched_env \<Rightarrow> ptr_val \<Rightarrow> ptr_val \<Rightarrow> sched \<Rightarrow> sched option" where
  "just_moved_buffer SE tpl n S =
     (case se_just_moved SE of None \<Rightarrow> Some S
      | Some pred \<Rightarrow> try_node n (inner_add_work_others tpl pred POSITIVE_DERIVATION 0) S)"

definition move_node_to_new_owner :: "sched_env \<Rightarrow> ptr_val \<Rightarrow> ptr_val \<Rightarrow> ptr_val \<Rightarrow> ptr_val \<Rightarrow> sched \<Rightarrow> sched option" where
  "move_node_to_new_owner SE t tpl n new_owner S =
     do { S \<leftarrow> just_moved_buffer SE tpl n S;
          Some (set_comm t new_owner (add_to_queue (se_db SE) new_owner n S)) }"

subsection \<open>Stealing\<close>

abbreviation "NODE_BUFFER_SIZE \<equiv> 16 :: nat"

definition steal_nodes :: "ptr_val \<Rightarrow> nat \<Rightarrow> sched \<Rightarrow> (ptr_val list \<times> sched) option" where
  "steal_nodes t mx S =
     (let S = upd_thread t (\<lambda>th. th\<lparr>th_steal_flag := \<not> th_steal_flag th\<rparr>) S; th = sc_threads S t
      in if th_steal_flag th then
           (if \<not> dq_empty (th_queue th Moving) then Some (queue_pop_half t Moving mx STATE_STEALING S)
            else if \<not> pq_empty (th_prio th Moving) then prio_pop_half t Moving mx STATE_STEALING S
            else Some ([], S))
         else
           (if \<not> pq_empty (th_prio th Moving) then prio_pop_half t Moving mx STATE_STEALING S
            else if \<not> dq_empty (th_queue th Moving) then Some (queue_pop_half t Moving mx STATE_STEALING S)
            else Some ([], S)))"

text \<open>\<^verbatim>\<open>go_steal_nodes\<close> first takes nodes out of the queues of \<open>target\<close>, then treats them one by one, each under its lock.\<close>

definition steal_begin :: "ptr_val \<Rightarrow> ptr_val \<Rightarrow> sched \<Rightarrow> sched option" where
  "steal_begin t target S =
     do { (ns, S) \<leftarrow> steal_nodes target NODE_BUFFER_SIZE S;
          Some (upd_thread t (\<lambda>th. th\<lparr>th_target := target, th_buffer := ns\<rparr>) S) }"

definition steal_one :: "sched_env \<Rightarrow> ptr_val \<Rightarrow> ptr_val \<Rightarrow> sched \<Rightarrow> sched option" where
  "steal_one SE t tpl S =
     (case th_buffer (sc_threads S t) of
        [] \<Rightarrow> Some S
      | n # ns \<Rightarrow>
          let S = upd_thread t (\<lambda>th. th\<lparr>th_buffer := ns\<rparr>) S;
              target = th_target (sc_threads S t)
          in if node_state n S \<noteq> STATE_STEALING then Some S
             else if is_static (sc_nodes S n) \<and> dn_owner (sc_nodes S n) \<noteq> target
             then move_node_to_new_owner SE t tpl n (dn_owner (sc_nodes S n)) S
             else let S = (if is_static (sc_nodes S n) then make_node_static n t S else S)
                  in Some (add_to_queue (se_db SE) t n (set_owner n t S)))"

subsection \<open>The next node\<close>

definition make_current_node_inactive :: "ptr_val \<Rightarrow> sched \<Rightarrow> sched" where
  "make_current_node_inactive t S =
     (let n = th_current (sc_threads S t) in upd_node n remove_temporary_priority (make_inactive n S))"

definition set_current :: "ptr_val \<Rightarrow> ptr_val \<Rightarrow> sched \<Rightarrow> sched" where
  "set_current t n S = upd_thread t (\<lambda>th. th\<lparr>th_current := n\<rparr>) S"

definition delete_node :: "ptr_val \<Rightarrow> sched \<Rightarrow> sched" where
  "delete_node n S = S\<lparr>sc_live := sc_live S - {n}\<rparr>"

text \<open>
  The fields of the current node are first read without its lock: \<open>moved\<close> is the value of \<^verbatim>\<open>has_new_owner()\<close> and \<open>idle\<close> that of
  \<^verbatim>\<open>!unprocessed_facts\<close> that were read then. What follows happens under the lock, with the fields as they are now; only the second
  value is read again. None is a null pointer: another thread may have made the node
  a moving one in between.
\<close>

definition check_if_current_useless ::
  "sched_env \<Rightarrow> ptr_val \<Rightarrow> bool \<Rightarrow> bool \<Rightarrow> ptr_val \<Rightarrow> sched \<Rightarrow> (bool \<times> sched) option" where
  "check_if_current_useless SE t moved idle tpl S =
     (let n = th_current (sc_threads S t); nd = sc_nodes S n
      in if moved \<and> dn_static_node nd = 0 then None
         else if moved then
           let S = upd_node n remove_temporary_priority (set_owner n (dn_static_node nd) S)
           in do { S \<leftarrow> move_node_to_new_owner SE t tpl n (dn_owner (sc_nodes S n)) S;
                   Some (True, set_current t 0 S) }
         else if idle \<and> \<not> dn_unprocessed_facts nd then
           let S = make_current_node_inactive t S;
               S = (if garbage_collect (se_db SE) (sc_nodes S n) then delete_node n S else S)
           in Some (True, set_current t 0 S)
         else Some (False, S))"

text \<open>
  One round of the loop of \<^verbatim>\<open>set_next_node\<close>: the next node, if there is one. When there is none, the threads that
  were sent something are activated, and \<^verbatim>\<open>busy_wait\<close> decides.
\<close>

definition pick_node :: "ptr_val \<Rightarrow> sched \<Rightarrow> sched" where
  "pick_node t S =
     (case prio_pop_best t STATE_WORKING S of
        (n, S) \<Rightarrow>
          if n \<noteq> 0 then set_current t n S
          else
            (case pop_node_from_queues t S of
               (n, S) \<Rightarrow>
                 if n \<noteq> 0 then set_current t n S
                 else if th_thread_node (sc_threads S t) \<noteq> 0 \<and> dn_unprocessed_facts (sc_nodes S (th_thread_node (sc_threads S t)))
                 then set_current t (th_thread_node (sc_threads S t)) S
                 else S))"

text \<open>The threads that were sent something are activated.\<close>

definition flush_comm :: "sched_env \<Rightarrow> ptr_val \<Rightarrow> sched \<Rightarrow> sched option" where
  "flush_comm SE t S =
     do { ids \<leftarrow> bitmap_elements (th_comm (sc_threads S t)) (length (se_scheds SE));
          let S = fold (\<lambda>i. activate_thread (se_scheds SE ! i)) ids S
          in Some (upd_thread t (\<lambda>th. th\<lparr>th_comm := bitmap_clear (th_comm th) (se_num_threads_next_uint SE)\<rparr>) S) }"

subsection \<open>New nodes\<close>

text \<open>
  A node at a new address. The first nodes, whose number of references keeps them from being collected, go into the
  queue of their thread; a node that a program creates gets there with the first fact that is sent to it.
\<close>

definition new_node :: "ptr_val \<Rightarrow> db_node \<Rightarrow> sched \<Rightarrow> sched" where
  "new_node n nd S =
     S\<lparr>sc_live := insert n (sc_live S), sc_nodes := (sc_nodes S)(n := nd), sc_links := n_set_queue (sc_links S) n queue_no_queue\<rparr>"

definition setup_node :: "db_env_t \<Rightarrow> ptr_val \<Rightarrow> ptr_val \<Rightarrow> predicate \<Rightarrow> ptr_val \<Rightarrow> sched \<Rightarrow> sched option" where
  "setup_node E t tpl init_pred n S =
     do { S \<leftarrow> try_node n (add_linear_fact E tpl init_pred) (set_owner n t S);
          Some (upd_node n (\<lambda>nd. nd\<lparr>dn_unprocessed_facts := True\<rparr>) S) }"

definition create_node :: "db_env_t \<Rightarrow> ptr_val \<Rightarrow> db_node \<Rightarrow> ptr_val \<Rightarrow> predicate \<Rightarrow> ptr_val \<Rightarrow> sched \<Rightarrow> sched option" where
  "create_node E t nd tpl init_pred n S = setup_node E t tpl init_pred n (new_node n (remove_temporary_priority nd) S)"

definition init_node :: "db_env_t \<Rightarrow> ptr_val \<Rightarrow> db_node \<Rightarrow> ptr_val \<Rightarrow> predicate \<Rightarrow> ptr_val \<Rightarrow> sched \<Rightarrow> sched option" where
  "init_node E t nd tpl init_pred n S =
     setup_node E t tpl init_pred n (upd_node n (\<lambda>nd. nd\<lparr>dn_refs := dn_refs nd + 1\<rparr>) (new_node n nd S))"

definition init_queue_node :: "db_env_t \<Rightarrow> ptr_val \<Rightarrow> db_node \<Rightarrow> ptr_val \<Rightarrow> predicate \<Rightarrow> ptr_val \<Rightarrow> sched \<Rightarrow> sched option" where
  "init_queue_node E t nd tpl init_pred n S = map_option (queue_push_tail t Moving n) (init_node E t nd tpl init_pred n S)"

subsection \<open>Coordination\<close>

text \<open>
  The operations read the state of the node and act on it. The node may be taken out of its queue in between, by its
  thread or by a thief, who do not need its lock: \<open>st\<close> is the state that was read.
\<close>

definition set_prio_if :: "db_env_t \<Rightarrow> ptr_val \<Rightarrow> float_val \<Rightarrow> sched \<Rightarrow> bool \<times> sched" where
  "set_prio_if E n prio S =
     (case set_temporary_priority_if E prio (sc_nodes S n) of (b, nd) \<Rightarrow> (b, upd_node n (\<lambda>_. nd) S))"

text \<open>A node of a queue without priorities moves to the one with priorities of the same thread, and back.\<close>

definition to_prio_queue :: "db_env_t \<Rightarrow> ptr_val \<Rightarrow> which \<Rightarrow> ptr_val \<Rightarrow> sched \<Rightarrow> bool \<times> sched" where
  "to_prio_queue E t w n S =
     (case queue_remove t w n STATE_PRIO_CHANGE S of
        (b, S) \<Rightarrow> if b then (True, prio_insert t w n (get_priority E (sc_nodes S n)) S) else (False, S))"

definition from_prio_queue :: "ptr_val \<Rightarrow> which \<Rightarrow> ptr_val \<Rightarrow> sched \<Rightarrow> bool \<times> sched" where
  "from_prio_queue t w n S =
     (case prio_remove t w n STATE_PRIO_CHANGE S of
        (b, S) \<Rightarrow> if b then (True, queue_push_tail t w n S) else (False, S))"

definition prio_change :: "db_env_t \<Rightarrow> ptr_val \<Rightarrow> which \<Rightarrow> ptr_val \<Rightarrow> float_val \<Rightarrow> sched \<Rightarrow> sched" where
  "prio_change E t w n prio S =
     (case set_prio_if E n prio S of (b, S) \<Rightarrow> if b then prio_move_node t w n prio S else S)"

definition do_set_node_priority ::
  "db_env_t \<Rightarrow> ptr_val \<Rightarrow> 32 word \<Rightarrow> ptr_val \<Rightarrow> float_val \<Rightarrow> bool \<Rightarrow> sched \<Rightarrow> sched option" where
  "do_set_node_priority E t st n prio force_queue S =
     (if th_current (sc_threads S t) = n then Some (upd_node n (set_temporary_priority prio) S)
      else if st = STATE_STEALING then Some (snd (set_prio_if E n prio S))
      else if st = PRIORITY_MOVING then Some (prio_change E t Moving n prio S)
      else if st = PRIORITY_STATIC then Some (prio_change E t Stati n prio S)
      else if st = NORMAL_QUEUE_MOVING then Some (snd (to_prio_queue E t Moving n (snd (set_prio_if E n prio S))))
      else if st = NORMAL_QUEUE_STATIC then Some (snd (to_prio_queue E t Stati n (snd (set_prio_if E n prio S))))
      else if st = STATE_WORKING \<or> st = STATE_PRIO_CHANGE then Some (snd (set_prio_if E n prio S))
      else if st = STATE_IDLE then
        (let S = snd (set_prio_if E n prio S) in Some (if force_queue then add_to_queue E t n S else S))
      else None)"

definition activate_if :: "ptr_val \<Rightarrow> bool \<times> sched \<Rightarrow> sched" where
  "activate_if t r = (if fst r then activate_thread t (snd r) else snd r)"

definition do_set_node_priority_other :: "db_env_t \<Rightarrow> 32 word \<Rightarrow> ptr_val \<Rightarrow> float_val \<Rightarrow> sched \<Rightarrow> sched option" where
  "do_set_node_priority_other E st n prio S =
     (let owner = dn_owner (sc_nodes S n)
      in if st = STATE_STEALING then Some (snd (set_prio_if E n prio S))
         else if st = NORMAL_QUEUE_MOVING then
           Some (activate_if owner (to_prio_queue E owner Moving n (snd (set_prio_if E n prio S))))
         else if st = NORMAL_QUEUE_STATIC then
           Some (activate_if owner (to_prio_queue E owner Stati n (snd (set_prio_if E n prio S))))
         else if st = PRIORITY_MOVING then Some (prio_change E owner Moving n prio S)
         else if st = PRIORITY_STATIC then Some (prio_change E owner Stati n prio S)
         else if st = STATE_PRIO_CHANGE \<or> st = STATE_IDLE then Some (snd (set_prio_if E n prio S))
         else if st = STATE_WORKING then Some S
         else None)"

definition set_node_priority :: "db_env_t \<Rightarrow> ptr_val \<Rightarrow> 32 word \<Rightarrow> ptr_val \<Rightarrow> float_val \<Rightarrow> sched \<Rightarrow> sched option" where
  "set_node_priority E t st n prio S =
     (if th_current (sc_threads S t) = n then Some S
      else if \<not> higher_priority (de_desc E) prio (get_priority E (sc_nodes S n)) then Some S
      else if dn_owner (sc_nodes S n) = t then do_set_node_priority E t st n prio False S
      else do_set_node_priority_other E st n prio S)"

definition add_node_priority :: "sched_env \<Rightarrow> ptr_val \<Rightarrow> 32 word \<Rightarrow> ptr_val \<Rightarrow> float_val \<Rightarrow> sched \<Rightarrow> sched option" where
  "add_node_priority SE t st n prio S =
     (let new_prio = se_fadd SE (get_priority (se_db SE) (sc_nodes S n)) prio
      in if \<not> se_scheduling_mechanism SE \<or> th_current (sc_threads S t) = n then Some S
         else if dn_owner (sc_nodes S n) = t then do_set_node_priority (se_db SE) t st n new_prio False S
         else do_set_node_priority_other (se_db SE) st n new_prio S)"

definition schedule_next :: "db_env_t \<Rightarrow> ptr_val \<Rightarrow> 32 word \<Rightarrow> ptr_val \<Rightarrow> sched \<Rightarrow> sched option" where
  "schedule_next E t st n S =
     (if dn_owner (sc_nodes S n) = t
      then do_set_node_priority E t st n (max_priority_value0 (de_desc E)) True S else Some S)"

definition set_default_node_priority :: "sched_env \<Rightarrow> ptr_val \<Rightarrow> float_val \<Rightarrow> sched \<Rightarrow> sched" where
  "set_default_node_priority SE n prio S =
     (if \<not> se_scheduling_mechanism SE then S else upd_node n (set_default_priority prio) S)"

definition remove_prio :: "ptr_val \<Rightarrow> sched \<Rightarrow> sched" where
  "remove_prio n S = upd_node n remove_temporary_priority S"

definition do_remove_node_priority :: "ptr_val \<Rightarrow> 32 word \<Rightarrow> ptr_val \<Rightarrow> sched \<Rightarrow> sched option" where
  "do_remove_node_priority t st n S =
     (if st = STATE_STEALING then Some (remove_prio n S)
      else if st = PRIORITY_MOVING then Some (snd (from_prio_queue t Moving n (remove_prio n S)))
      else if st = PRIORITY_STATIC then Some (snd (from_prio_queue t Stati n (remove_prio n S)))
      else if st = NORMAL_QUEUE_MOVING \<or> st = NORMAL_QUEUE_STATIC then Some (remove_prio n S)
      else if st = STATE_WORKING then Some (remove_prio n S)
      else if st = STATE_IDLE then Some (remove_prio n S)
      else None)"

text \<open>The value None is \<^verbatim>\<open>abort()\<close>, to which also an idle node leads here.\<close>

definition do_remove_node_priority_other :: "32 word \<Rightarrow> ptr_val \<Rightarrow> sched \<Rightarrow> sched option" where
  "do_remove_node_priority_other st n S =
     (let owner = dn_owner (sc_nodes S n)
      in if st = STATE_STEALING then Some (remove_prio n S)
         else if st = NORMAL_QUEUE_MOVING \<or> st = NORMAL_QUEUE_STATIC then Some (remove_prio n S)
         else if st = PRIORITY_MOVING then Some (activate_if owner (from_prio_queue owner Moving n (remove_prio n S)))
         else if st = PRIORITY_STATIC then Some (activate_if owner (from_prio_queue owner Stati n (remove_prio n S)))
         else if st = STATE_WORKING then Some S
         else None)"

definition remove_node_priority :: "sched_env \<Rightarrow> ptr_val \<Rightarrow> 32 word \<Rightarrow> ptr_val \<Rightarrow> sched \<Rightarrow> sched option" where
  "remove_node_priority SE t st n S =
     (if \<not> se_scheduling_mechanism SE then Some S
      else if th_current (sc_threads S t) = n then Some (remove_prio n S)
      else if dn_owner (sc_nodes S n) = t then do_remove_node_priority t st n S
      else do_remove_node_priority_other st n S)"

text \<open>The queues that the next operations take the node from are those of \<open>t\<close>, whoever owns the node.\<close>

definition requeue_normal :: "ptr_val \<Rightarrow> which \<Rightarrow> which \<Rightarrow> ptr_val \<Rightarrow> sched \<Rightarrow> sched" where
  "requeue_normal t w w' n S =
     (case queue_remove t w n STATE_STATIC_CHANGE S of (b, S) \<Rightarrow> if b then queue_push_tail t w' n S else S)"

definition requeue_prio :: "db_env_t \<Rightarrow> ptr_val \<Rightarrow> which \<Rightarrow> which \<Rightarrow> ptr_val \<Rightarrow> sched \<Rightarrow> sched" where
  "requeue_prio E t w w' n S =
     (case prio_remove t w n STATE_STATIC_CHANGE S of
        (b, S) \<Rightarrow> if b then prio_insert t w' n (get_priority E (sc_nodes S n)) S else S)"

definition set_node_static :: "sched_env \<Rightarrow> ptr_val \<Rightarrow> 32 word \<Rightarrow> ptr_val \<Rightarrow> sched \<Rightarrow> sched" where
  "set_node_static SE t st n S =
     (if \<not> se_scheduling_mechanism SE then S
      else if n = th_current (sc_threads S t) then make_node_static n t S
      else if is_static (sc_nodes S n) then S
      else let S = make_node_static n t S
           in if st = NORMAL_QUEUE_MOVING then requeue_normal t Moving Stati n S
              else if st = PRIORITY_MOVING then requeue_prio (se_db SE) t Moving Stati n S
              else S)"

definition set_node_moving :: "sched_env \<Rightarrow> ptr_val \<Rightarrow> 32 word \<Rightarrow> ptr_val \<Rightarrow> sched \<Rightarrow> sched" where
  "set_node_moving SE t st n S =
     (if \<not> se_scheduling_mechanism SE then S
      else if n = th_current (sc_threads S t) then make_node_moving n S
      else if \<not> is_static (sc_nodes S n) then S
      else let S = make_node_moving n S
           in if st = NORMAL_QUEUE_STATIC then requeue_normal t Stati Moving n S
              else if st = PRIORITY_STATIC then requeue_prio (se_db SE) t Stati Moving n S
              else S)"

text \<open>
  One round of the loop of \<^verbatim>\<open>set_node_owner\<close>, which repeats when the node has left the queue; the flag is \<^verbatim>\<open>done\<close>.
\<close>

definition owner_if :: "sched_env \<Rightarrow> ptr_val \<Rightarrow> ptr_val \<Rightarrow> ptr_val \<Rightarrow> ptr_val \<Rightarrow> bool \<times> sched \<Rightarrow> (bool \<times> sched) option" where
  "owner_if SE t tpl n new_owner r =
     (if fst r then map_option (Pair True) (move_node_to_new_owner SE t tpl n new_owner (set_owner n new_owner (snd r)))
      else Some r)"

definition owner_round ::
  "sched_env \<Rightarrow> ptr_val \<Rightarrow> ptr_val \<Rightarrow> 32 word \<Rightarrow> ptr_val \<Rightarrow> ptr_val \<Rightarrow> sched \<Rightarrow> (bool \<times> sched) option" where
  "owner_round SE t tpl st n new_owner S =
     (if st = STATE_STEALING then Some (True, set_owner n new_owner S)
      else if st = NORMAL_QUEUE_STATIC then owner_if SE t tpl n new_owner (queue_remove t Stati n STATE_AFFINITY_CHANGE S)
      else if st = NORMAL_QUEUE_MOVING then owner_if SE t tpl n new_owner (queue_remove t Moving n STATE_AFFINITY_CHANGE S)
      else if st = PRIORITY_MOVING then owner_if SE t tpl n new_owner (prio_remove t Moving n STATE_AFFINITY_CHANGE S)
      else if st = PRIORITY_STATIC then owner_if SE t tpl n new_owner (prio_remove t Stati n STATE_AFFINITY_CHANGE S)
      else if st = STATE_WORKING then Some (True, S)
      else if st = STATE_IDLE then map_option (Pair True) (just_moved_buffer SE tpl n (set_owner n new_owner S))
      else Some (False, S))"

text \<open>The first round may have read an old state; in the second one the node is in no queue and keeps its state.\<close>

definition set_node_owner ::
  "sched_env \<Rightarrow> ptr_val \<Rightarrow> ptr_val \<Rightarrow> 32 word \<Rightarrow> ptr_val \<Rightarrow> ptr_val \<Rightarrow> sched \<Rightarrow> (bool \<times> sched) option" where
  "set_node_owner SE t tpl st n new_owner S =
     (if n = th_current (sc_threads S t) then
        do { S \<leftarrow> (if new_owner = t then just_moved SE tpl n S else Some S);
             Some (True, make_node_static n new_owner S) }
      else
        let S = make_node_static n new_owner S
        in if dn_owner (sc_nodes S n) = new_owner then map_option (Pair True) (just_moved_buffer SE tpl n S)
           else do { (fin, S) \<leftarrow> owner_round SE t tpl st n new_owner S;
                     if fin then Some (fin, S) else owner_round SE t tpl (node_state n S) n new_owner S })"

definition set_node_cpu ::
  "sched_env \<Rightarrow> ptr_val \<Rightarrow> ptr_val \<Rightarrow> 32 word \<Rightarrow> ptr_val \<Rightarrow> ptr_val \<Rightarrow> sched \<Rightarrow> (bool \<times> sched) option" where
  "set_node_cpu SE t tpl st n new_owner S =
     (if \<not> se_scheduling_mechanism SE then Some (True, S) else set_node_owner SE t tpl st n new_owner S)"

definition set_node_affinity ::
  "sched_env \<Rightarrow> ptr_val \<Rightarrow> ptr_val \<Rightarrow> 32 word \<Rightarrow> ptr_val \<Rightarrow> ptr_val \<Rightarrow> sched \<Rightarrow> (bool \<times> sched) option" where
  "set_node_affinity SE t tpl st n affinity S =
     (if \<not> se_scheduling_mechanism SE then Some (True, S)
      else set_node_owner SE t tpl st n (dn_owner (sc_nodes S affinity)) S)"

end
