(* ===== verification/Sched_Queues.thy ===== *)
theory Sched_Queues
  imports Scheduler
begin

text \<open>
  What the scheduler needs from a queue of nodes: it holds a set of nodes, which are marked with its number, and its
  operations touch only the link fields of these nodes. Both kinds of queues, the linked ones and the heaps, provide it.
\<close>

locale node_queue =
  fixes repr :: "node_store \<Rightarrow> 'q \<Rightarrow> ptr_val set \<Rightarrow> bool"
    and num :: "'q \<Rightarrow> 32 word"
    and room :: "'k \<Rightarrow> ptr_val set \<Rightarrow> bool"
    and put :: "'k \<Rightarrow> ptr_val \<Rightarrow> node_store \<Rightarrow> 'q \<Rightarrow> node_store \<times> 'q"
    and take_out :: "ptr_val \<Rightarrow> 32 word \<Rightarrow> node_store \<Rightarrow> 'q \<Rightarrow> bool \<times> node_store \<times> 'q"
  assumes frame: "repr \<sigma> q X \<Longrightarrow> \<forall>p \<in> X. \<sigma>' p = \<sigma> p \<Longrightarrow> repr \<sigma>' q X"
    and marked: "repr \<sigma> q X \<Longrightarrow> p \<in> X \<Longrightarrow> i_queue (\<sigma> p) = num q"
    and put: "repr \<sigma> q X \<Longrightarrow> n \<noteq> 0 \<Longrightarrow> n \<notin> X \<Longrightarrow> room k X \<Longrightarrow> put k n \<sigma> q = (\<sigma>', q') \<Longrightarrow>
      repr \<sigma>' q' (insert n X) \<and> num q' = num q \<and> (\<forall>p. p \<notin> insert n X \<longrightarrow> \<sigma>' p = \<sigma> p)"
    and take_out: "repr \<sigma> q X \<Longrightarrow> n \<in> X \<Longrightarrow> take_out n s \<sigma> q = (b, \<sigma>', q') \<Longrightarrow>
      b \<and> repr \<sigma>' q' (X - {n}) \<and> num q' = num q \<and> i_queue (\<sigma>' n) = s \<and> (\<forall>p. p \<notin> X \<longrightarrow> \<sigma>' p = \<sigma> p)"
    and take_other: "i_queue (\<sigma> n) \<noteq> num q \<Longrightarrow> take_out n s \<sigma> q = (False, \<sigma>, q)"
begin

lemma put_marks:
  assumes "repr \<sigma> q X" "n \<noteq> 0" "n \<notin> X" "room k X" "put k n \<sigma> q = (\<sigma>', q')"
  shows "i_queue (\<sigma>' p) = (if p = n then num q else i_queue (\<sigma> p))"
proof -
  note l = put [OF assms]
  show ?thesis
  proof (cases "p \<in> insert n X")
    case True
    then have "i_queue (\<sigma>' p) = num q" using marked [of \<sigma>' q' "insert n X" p] l by auto
    with True show ?thesis using marked [OF assms(1), of p] by auto
  qed (use l in simp)
qed

lemma take_marks:
  assumes "repr \<sigma> q X" "n \<in> X" "take_out n s \<sigma> q = (b, \<sigma>', q')"
  shows "i_queue (\<sigma>' p) = (if p = n then s else i_queue (\<sigma> p))"
proof -
  note l = take_out [OF assms]
  show ?thesis
  proof (cases "p \<in> X - {n}")
    case True
    then have "i_queue (\<sigma>' p) = num q" using marked [of \<sigma>' q' "X - {n}" p] l by auto
    with True show ?thesis using marked [OF assms(1), of p] by auto
  qed (use l in auto)
qed

end

subsection \<open>Linked queues\<close>

definition normal_repr :: "node_store \<Rightarrow> double_queue \<Rightarrow> ptr_val set \<Rightarrow> bool" where
  "normal_repr \<sigma> q X \<longleftrightarrow> (\<exists>xs. dq_repr \<sigma> q xs \<and> set xs = X)"

interpretation nq: node_queue normal_repr dq_queue_number "\<lambda>(_ :: unit) _. True" "\<lambda>_. push_tail_node" dq_do_remove
proof
  show "normal_repr \<sigma>' q X" if "normal_repr \<sigma> q X" "\<forall>p \<in> X. \<sigma>' p = \<sigma> p" for \<sigma> q X \<sigma>'
    using that dq_repr_frame unfolding normal_repr_def by blast
  show "i_queue (\<sigma> p) = dq_queue_number q" if "normal_repr \<sigma> q X" "p \<in> X" for \<sigma> q X p
    using that dq_reprD(6) by (auto simp: normal_repr_def n_queuef_def)
  show "normal_repr \<sigma>' q' (insert n X) \<and> dq_queue_number q' = dq_queue_number q \<and> (\<forall>p. p \<notin> insert n X \<longrightarrow> \<sigma>' p = \<sigma> p)"
    if h: "normal_repr \<sigma> q X" "n \<noteq> 0" "n \<notin> X" "push_tail_node n \<sigma> q = (\<sigma>', q')" for \<sigma> q X n \<sigma>' q'
  proof -
    obtain xs where xs: "dq_repr \<sigma> q xs" "set xs = X" using h(1) by (auto simp: normal_repr_def)
    with push_tail_repr [OF xs(1) h(2) _ h(4)] h(3) show ?thesis by (auto simp: normal_repr_def intro!: exI [of _ "xs @ [n]"])
  qed
  show "b \<and> normal_repr \<sigma>' q' (X - {n}) \<and> dq_queue_number q' = dq_queue_number q \<and> i_queue (\<sigma>' n) = s \<and> (\<forall>p. p \<notin> X \<longrightarrow> \<sigma>' p = \<sigma> p)"
    if h: "normal_repr \<sigma> q X" "n \<in> X" "dq_do_remove n s \<sigma> q = (b, \<sigma>', q')" for \<sigma> q X n s b \<sigma>' q'
  proof -
    obtain ys zs where xs: "dq_repr \<sigma> q (ys @ n # zs)" "set (ys @ n # zs) = X"
      using h(1,2) by (auto simp: normal_repr_def in_set_conv_decomp)
    have "distinct (ys @ n # zs)" by (rule dq_reprD(1) [OF xs(1)])
    then have "set (ys @ zs) = X - {n}" using xs(2) by auto
    then show ?thesis using do_remove_repr [OF xs(1) h(3)] xs(2) by (auto simp: normal_repr_def)
  qed
  show "dq_do_remove n s \<sigma> q = (False, \<sigma>, q)" if "i_queue (\<sigma> n) \<noteq> dq_queue_number q" for \<sigma> n q s
    using that by (simp add: dq_do_remove_def dq_in_queue_def)
qed

lemma normal_pop_head:
  assumes "normal_repr \<sigma> q X" "dq_do_pop_head s \<sigma> q = (r, \<sigma>', q')"
  shows "X = {} \<Longrightarrow> r = 0 \<and> \<sigma>' = \<sigma> \<and> q' = q"
    "X \<noteq> {} \<Longrightarrow> r \<in> X \<and> r \<noteq> 0 \<and> normal_repr \<sigma>' q' (X - {r}) \<and> dq_queue_number q' = dq_queue_number q \<and> i_queue (\<sigma>' r) = s \<and>
      (\<forall>p. p \<notin> X \<longrightarrow> \<sigma>' p = \<sigma> p)"
proof -
  obtain xs where xs: "dq_repr \<sigma> q xs" "set xs = X" using assms(1) by (auto simp: normal_repr_def)
  note d = dq_reprD [OF xs(1)]
  show "r = 0 \<and> \<sigma>' = \<sigma> \<and> q' = q" if "X = {}"
    using that xs assms(2) d(7) by (auto simp: dq_do_pop_head_def dq_empty_def)
  show "r \<in> X \<and> r \<noteq> 0 \<and> normal_repr \<sigma>' q' (X - {r}) \<and> dq_queue_number q' = dq_queue_number q \<and> i_queue (\<sigma>' r) = s \<and>
      (\<forall>p. p \<notin> X \<longrightarrow> \<sigma>' p = \<sigma> p)" if ne: "X \<noteq> {}"
  proof -
    obtain x zs where x: "xs = x # zs" using ne xs(2) by (cases xs) auto
    have "set zs = X - {x}" using d(1) xs(2) x by auto
    then show ?thesis using pop_head_repr [OF _ assms(2), of x zs] xs x d(9) by (auto simp: normal_repr_def)
  qed
qed

lemma normal_pop_half:
  assumes "normal_repr \<sigma> q X" "dq_pop_tail_half mx s \<sigma> q = (buf, \<sigma>', q')"
  shows "set buf \<subseteq> X" "distinct buf" "normal_repr \<sigma>' q' (X - set buf)" "dq_queue_number q' = dq_queue_number q"
    "\<forall>p \<in> set buf. i_queue (\<sigma>' p) = s" "\<forall>p. p \<notin> X \<longrightarrow> \<sigma>' p = \<sigma> p"
proof -
  obtain xs where xs: "dq_repr \<sigma> q xs" "set xs = X" using assms(1) by (auto simp: normal_repr_def)
  let ?h = "min mx (length xs div 2)"
  note r = pop_tail_half_repr [OF xs(1) assms(2) refl]
  have d: "distinct xs" by (rule dq_reprD(1) [OF xs(1)])
  then have "distinct (take ?h xs @ drop ?h xs)" by (simp only: append_take_drop_id)
  then have "set (take ?h xs) \<inter> set (drop ?h xs) = {}" by (simp only: distinct_append)
  moreover have "set (take ?h xs) \<union> set (drop ?h xs) = X" using xs(2) by (metis append_take_drop_id set_append)
  ultimately have "set (drop ?h xs) = X - set (take ?h xs)" by blast
  then show "normal_repr \<sigma>' q' (X - set buf)" using r(1,2) by (auto simp: normal_repr_def)
  show "set buf \<subseteq> X" "distinct buf" "\<forall>p \<in> set buf. i_queue (\<sigma>' p) = s" "\<forall>p. p \<notin> X \<longrightarrow> \<sigma>' p = \<sigma> p"
    using r xs(2) d set_take_subset [of ?h xs] by auto
  show "dq_queue_number q' = dq_queue_number q"
    using assms(2) by (auto simp: dq_pop_tail_half_def Let_def split: if_splits prod.splits)
qed

subsection \<open>Heaps\<close>

definition prio_repr :: "node_store \<Rightarrow> complex_pqueue \<Rightarrow> ptr_val set \<Rightarrow> bool" where
  "prio_repr \<sigma> q X \<longleftrightarrow> pq_inv \<sigma> q \<and> set (pq_heap q) = X"

lemma pq_inv_frame:
  assumes "pq_inv \<sigma> q" "\<forall>p \<in> set (pq_heap q). \<sigma>' p = \<sigma> p"
  shows "pq_inv \<sigma>' q"
  using assms unfolding pq_inv_def pos_ok_def heap_ordered_def valid_nodes_def key_le_def by (auto simp: subset_iff)

lemma prio_set:
  assumes "pq_inv \<sigma> q" "add_mset n (mset (pq_heap q')) = mset (pq_heap q)"
  shows "set (pq_heap q') = set (pq_heap q) - {n}" "n \<in> set (pq_heap q)"
proof -
  have "distinct (pq_heap q)" by (rule pq_invD(6) [OF assms(1)])
  then have "distinct (n # pq_heap q')" using assms(2) by (metis mset.simps(2) mset_eq_imp_distinct_iff)
  moreover have "insert n (set (pq_heap q')) = set (pq_heap q)" using assms(2) by (metis list.simps(15) mset.simps(2) set_mset_mset)
  ultimately show "set (pq_heap q') = set (pq_heap q) - {n}" "n \<in> set (pq_heap q)" by auto
qed

interpretation hq: node_queue prio_repr pq_queue_number "\<lambda>p X. \<not> float_is_nan p \<and> card X < 2 ^ 30 - 1"
  "\<lambda>p n. pq_do_insert n p" pq_remove
proof
  show "prio_repr \<sigma>' q X" if "prio_repr \<sigma> q X" "\<forall>p \<in> X. \<sigma>' p = \<sigma> p" for \<sigma> q X \<sigma>'
    using that pq_inv_frame by (auto simp: prio_repr_def)
  show "i_queue (\<sigma> p) = pq_queue_number q" if "prio_repr \<sigma> q X" "p \<in> X" for \<sigma> q X p
    using that pq_invD(4) by (auto simp: prio_repr_def)
  show "prio_repr \<sigma>' q' (insert n X) \<and> pq_queue_number q' = pq_queue_number q \<and> (\<forall>p. p \<notin> insert n X \<longrightarrow> \<sigma>' p = \<sigma> p)"
    if "prio_repr \<sigma> q X" "n \<noteq> 0" "n \<notin> X" "\<not> float_is_nan p \<and> card X < 2 ^ 30 - 1" "pq_do_insert n p \<sigma> q = (\<sigma>', q')" for \<sigma> q X n p \<sigma>' q'
  proof -
    have q: "pq_inv \<sigma> q" "set (pq_heap q) = X" using that(1) by (auto simp: prio_repr_def)
    then have "length (pq_heap q) < 2 ^ 30 - 1" using that(4) pq_invD(6) [OF q(1)] by (metis distinct_card)
    from do_insert_spec [OF q(1) that(2) _ _ this that(5)] that(3,4) q(2) show ?thesis
      by (auto simp: prio_repr_def dest: mset_eq_setD [of _ "n # pq_heap q" for n, simplified])
  qed
  show "b \<and> prio_repr \<sigma>' q' (X - {n}) \<and> pq_queue_number q' = pq_queue_number q \<and> i_queue (\<sigma>' n) = s \<and> (\<forall>p. p \<notin> X \<longrightarrow> \<sigma>' p = \<sigma> p)"
    if "prio_repr \<sigma> q X" "n \<in> X" "pq_remove n s \<sigma> q = (b, \<sigma>', q')" for \<sigma> q X n s b \<sigma>' q'
  proof -
    have q: "pq_inv \<sigma> q" "set (pq_heap q) = X" using that(1) by (auto simp: prio_repr_def)
    have "i_queue (\<sigma> n) = pq_queue_number q" "pq_heap q \<noteq> []" using pq_invD(4) [OF q(1)] q(2) that(2) by auto
    then have r: "b" "pq_do_remove n s \<sigma> q = (\<sigma>', q')" using that(3) by (auto simp: pq_remove_def pq_empty_def)
    have "n \<in> set (pq_heap q)" using that(2) q(2) by simp
    from do_remove_spec [OF q(1) this r(2)] prio_set [OF q(1), of n q'] q(2) r(1) show ?thesis by (auto simp: prio_repr_def)
  qed
  show "pq_remove n s \<sigma> q = (False, \<sigma>, q)" if "i_queue (\<sigma> n) \<noteq> pq_queue_number q" for \<sigma> n q s
    using that by (simp add: pq_remove_def)
qed

lemma prio_move:
  assumes "prio_repr \<sigma> q X" "n \<in> X" "\<not> float_is_nan p" "pq_do_move_node n p \<sigma> q = (\<sigma>', q')"
  shows "prio_repr \<sigma>' q' X" "pq_queue_number q' = pq_queue_number q" "\<forall>p. p \<notin> X \<longrightarrow> \<sigma>' p = \<sigma> p"
  using do_move_node_spec [of \<sigma> q n p \<sigma>' q'] assms mset_eq_setD by (auto simp: prio_repr_def)

lemma prio_move_other: "i_queue (\<sigma> n) \<noteq> pq_queue_number q \<Longrightarrow> pq_do_move_node n p \<sigma> q = (\<sigma>, q)"
  by (simp add: pq_do_move_node_def)

lemma prio_pop:
  assumes "prio_repr \<sigma> q X" "pq_do_pop s \<sigma> q = (r, \<sigma>', q')" "X \<noteq> {}"
  shows "r \<in> X" "r \<noteq> 0" "prio_repr \<sigma>' q' (X - {r})" "pq_queue_number q' = pq_queue_number q" "i_queue (\<sigma>' r) = s"
    "\<forall>p. p \<notin> X \<longrightarrow> \<sigma>' p = \<sigma> p"
proof -
  have q: "pq_inv \<sigma> q" "set (pq_heap q) = X" "pq_heap q \<noteq> []" using assms by (auto simp: prio_repr_def)
  note p = do_pop_spec [OF q(1,3) assms(2)]
  show "r \<in> X" "r \<noteq> 0" "prio_repr \<sigma>' q' (X - {r})" "pq_queue_number q' = pq_queue_number q" "i_queue (\<sigma>' r) = s"
    "\<forall>p. p \<notin> X \<longrightarrow> \<sigma>' p = \<sigma> p"
    using p prio_set [OF q(1) p(3)] q(2) pq_invD(3) [OF q(1)] by (auto simp: prio_repr_def)
qed

lemma prio_pop_half_repr:
  assumes "prio_repr \<sigma> q X"
  shows "\<exists>buf \<sigma>' q'. pq_do_pop_half mx s \<sigma> q = Some (buf, \<sigma>', q') \<and> set buf \<subseteq> X \<and> distinct buf \<and> prio_repr \<sigma>' q' (X - set buf) \<and>
    pq_queue_number q' = pq_queue_number q \<and> (\<forall>p \<in> set buf. i_queue (\<sigma>' p) = s) \<and> (\<forall>p. p \<notin> X \<longrightarrow> \<sigma>' p = \<sigma> p)"
proof -
  have q: "pq_inv \<sigma> q" "set (pq_heap q) = X" using assms by (auto simp: prio_repr_def)
  from do_pop_half_spec [OF q(1), of mx s] obtain buf \<sigma>' q' where
    r: "pq_do_pop_half mx s \<sigma> q = Some (buf, \<sigma>', q')" "half_inv \<sigma> q s buf \<sigma>' q'" by blast
  have m: "mset (buf @ pq_heap q') = mset (pq_heap q)" using r(2) by (simp add: half_inv_def)
  then have "distinct (buf @ pq_heap q')" using pq_invD(6) [OF q(1)] by (metis mset_eq_imp_distinct_iff)
  moreover have "set buf \<union> set (pq_heap q') = X" using mset_eq_setD [OF m] q(2) by simp
  ultimately have "set buf \<subseteq> X" "distinct buf" "set (pq_heap q') = X - set buf" by auto
  with r q show ?thesis by (auto simp: half_inv_def prio_repr_def)
qed

end
