(* ===== verification/Sched_Inv.thy ===== *)
theory Sched_Inv
  imports Sched_Queues
begin

text \<open>
  Where a node is: in a queue of its owner, run by its owner, in the hands of a thief, or nowhere. The invariant of the scheduler says
  that the link fields, the queues and the fields of the nodes agree with one such place for every node.
\<close>

datatype place = Idle | Fresh | Held "32 word" | Queued ptr_val bool which | Working ptr_val | Stolen ptr_val

text \<open>
  A fresh node was created and nobody has sent it a fact yet. A node that an operation has taken out of a queue and
  not yet put into another one is held.
\<close>

fun queue_number :: "bool \<Rightarrow> which \<Rightarrow> 32 word" where
  "queue_number False Moving = NORMAL_QUEUE_MOVING"
| "queue_number False Stati = NORMAL_QUEUE_STATIC"
| "queue_number True Moving = PRIORITY_MOVING"
| "queue_number True Stati = PRIORITY_STATIC"

fun place_tag :: "place \<Rightarrow> 32 word" where
  "place_tag Idle = STATE_IDLE"
| "place_tag Fresh = STATE_IDLE"
| "place_tag (Held s) = s"
| "place_tag (Queued t b w) = queue_number b w"
| "place_tag (Working t) = STATE_WORKING"
| "place_tag (Stolen t) = STATE_STEALING"

definition queue_at :: "node_store \<Rightarrow> sched_thread \<Rightarrow> bool \<Rightarrow> which \<Rightarrow> ptr_val set \<Rightarrow> bool" where
  "queue_at \<sigma> th b w X \<longleftrightarrow>
     (if b then prio_repr \<sigma> (th_prio th w) X \<and> pq_queue_number (th_prio th w) = queue_number True w
      else normal_repr \<sigma> (th_queue th w) X \<and> dq_queue_number (th_queue th w) = queue_number False w)"

definition in_place :: "sched \<Rightarrow> (ptr_val \<Rightarrow> place) \<Rightarrow> place \<Rightarrow> ptr_val set" where
  "in_place S pl p = {n \<in> sc_live S. pl n = p}"

definition node_ok :: "ptr_val set \<Rightarrow> db_node \<Rightarrow> place \<Rightarrow> bool" where
  "node_ok T nd p \<longleftrightarrow> dn_owner nd \<in> T \<and> (dn_static_node nd = 0 \<or> dn_static_node nd \<in> T) \<and>
     \<not> float_is_nan (dn_priority nd) \<and> \<not> float_is_nan (dn_default_priority nd) \<and>
     (dn_unprocessed_facts nd \<longrightarrow> p \<noteq> Idle) \<and>
     (case p of Queued t b w \<Rightarrow> t = dn_owner nd | Working t \<Rightarrow> t = dn_owner nd | _ \<Rightarrow> True)"

definition sched_inv :: "ptr_val set \<Rightarrow> sched \<Rightarrow> (ptr_val \<Rightarrow> place) \<Rightarrow> bool" where
  "sched_inv T S pl \<longleftrightarrow>
     (\<forall>t \<in> T. \<forall>b w. queue_at (sc_links S) (sc_threads S t) b w (in_place S pl (Queued t b w))) \<and>
     finite (sc_live S) \<and> card (sc_live S) < 2 ^ 30 - 1 \<and> 0 \<notin> sc_live S \<and> 0 \<notin> T \<and>
     (\<forall>n \<in> sc_live S. node_state n S = place_tag (pl n) \<and> node_ok T (sc_nodes S n) (pl n))"

text \<open>What the operations on queues leave alone.\<close>

definition locals_same :: "sched_thread \<Rightarrow> sched_thread \<Rightarrow> bool" where
  "locals_same th th' \<longleftrightarrow> th_current th' = th_current th \<and> th_buffer th' = th_buffer th \<and> th_target th' = th_target th \<and>
     th_thread_node th' = th_thread_node th"

definition sched_frame :: "sched \<Rightarrow> sched \<Rightarrow> bool" where
  "sched_frame S S' \<longleftrightarrow> sc_live S' = sc_live S \<and> sc_nodes S' = sc_nodes S \<and>
     (\<forall>t. locals_same (sc_threads S t) (sc_threads S' t))"

fun unqueued :: "place \<Rightarrow> bool" where
  "unqueued (Queued t b w) = False"
| "unqueued p = True"

lemma sched_frame_refl [simp]: "sched_frame S S"
  by (simp add: sched_frame_def locals_same_def)

lemma sched_frame_trans [trans]: "sched_frame S S1 \<Longrightarrow> sched_frame S1 S2 \<Longrightarrow> sched_frame S S2"
  by (auto simp: sched_frame_def locals_same_def)

lemma upd_simps [simp]:
  "sc_links (upd_thread t f S) = sc_links S" "sc_nodes (upd_thread t f S) = sc_nodes S" "sc_live (upd_thread t f S) = sc_live S"
  "sc_threads (upd_thread t f S) = (sc_threads S)(t := f (sc_threads S t))"
  "sc_links (upd_node n g S) = sc_links S" "sc_threads (upd_node n g S) = sc_threads S" "sc_live (upd_node n g S) = sc_live S"
  "sc_nodes (upd_node n g S) = (sc_nodes S)(n := g (sc_nodes S n))"
  "node_state m (upd_thread t f S) = node_state m S" "node_state m (upd_node n g S) = node_state m S"
  by (simp_all add: upd_thread_def upd_node_def node_state_def)

lemma sched_invD:
  assumes "sched_inv T S pl"
  shows "t \<in> T \<Longrightarrow> queue_at (sc_links S) (sc_threads S t) b w (in_place S pl (Queued t b w))"
    "finite (sc_live S)" "card (sc_live S) < 2 ^ 30 - 1" "0 \<notin> sc_live S" "0 \<notin> T"
    "n \<in> sc_live S \<Longrightarrow> node_state n S = place_tag (pl n)" "n \<in> sc_live S \<Longrightarrow> node_ok T (sc_nodes S n) (pl n)"
  using assms unfolding sched_inv_def by blast+

lemma queue_at_frame:
  assumes "queue_at \<sigma> th b w X" "\<forall>p \<in> X. \<sigma>' p = \<sigma> p" "th_queue th' w = th_queue th w" "th_prio th' w = th_prio th w"
  shows "queue_at \<sigma>' th' b w X"
  using assms nq.frame hq.frame by (auto simp: queue_at_def)

lemma queue_number_inj: "queue_number b w = queue_number b' w' \<longleftrightarrow> b = b' \<and> w = w'"
  by (cases b; cases w; cases b'; cases w') simp_all

lemma queue_number_facts [simp]:
  "queue_number b w \<noteq> STATE_WORKING" "queue_number b w \<noteq> STATE_STEALING" "queue_number b w \<noteq> STATE_IDLE"
  by (cases b; cases w; simp)+

text \<open>
  The nodes \<open>N\<close> move from or to one queue of \<open>t\<close>; the others stay where they are.
\<close>

lemma inv_move:
  assumes I: "sched_inv T S pl" and t: "t \<in> T" and N: "N \<subseteq> sc_live S"
    and old: "\<And>n. n \<in> N \<Longrightarrow> unqueued (pl n) \<or> pl n = Queued t b w" and new: "unqueued p' \<or> p' = Queued t b w"
    and nodes: "\<And>n. n \<in> N \<Longrightarrow> node_ok T (sc_nodes S n) p'"
    and S': "sc_threads S' = (sc_threads S)(t := th')" "sc_nodes S' = sc_nodes S" "sc_live S' = sc_live S"
    and others: "\<And>w'. \<not> b \<or> w' \<noteq> w \<Longrightarrow> th_prio th' w' = th_prio (sc_threads S t) w'"
      "\<And>w'. b \<or> w' \<noteq> w \<Longrightarrow> th_queue th' w' = th_queue (sc_threads S t) w'"
    and q: "queue_at (sc_links S') th' b w (in_place S (\<lambda>n. if n \<in> N then p' else pl n) (Queued t b w))"
    and links: "\<And>p. p \<notin> N \<Longrightarrow> p \<notin> in_place S pl (Queued t b w) \<Longrightarrow> sc_links S' p = sc_links S p"
    and tags: "\<And>p. i_queue (sc_links S' p) = (if p \<in> N then place_tag p' else i_queue (sc_links S p))"
  shows "sched_inv T S' (\<lambda>n. if n \<in> N then p' else pl n)"
proof -
  let ?pl = "\<lambda>n. if n \<in> N then p' else pl n"
  have "queue_at (sc_links S') (sc_threads S' u) b' w' (in_place S' ?pl (Queued u b' w'))" if u: "u \<in> T" for u b' w'
  proof (cases "u = t \<and> b' = b \<and> w' = w")
    case True
    then show ?thesis using q S' by (simp add: in_place_def)
  next
    case False
    have N': "pl n \<noteq> Queued u b' w'" "p' \<noteq> Queued u b' w'" if "n \<in> N" for n
      using False old [OF that] new that by auto
    then have e: "in_place S' ?pl (Queued u b' w') = in_place S pl (Queued u b' w')"
      using S'(3) by (auto simp: in_place_def)
    have "queue_at (sc_links S) (sc_threads S u) b' w' (in_place S pl (Queued u b' w'))" by (rule sched_invD(1) [OF I u])
    moreover have "\<forall>p \<in> in_place S pl (Queued u b' w'). sc_links S' p = sc_links S p"
    proof
      fix p assume "p \<in> in_place S pl (Queued u b' w')"
      then have "pl p = Queued u b' w'" by (simp add: in_place_def)
      then show "sc_links S' p = sc_links S p" using False N' by (intro links) (auto simp: in_place_def)
    qed
    ultimately show ?thesis
      using others False unfolding e by (cases "u = t"; cases b') (auto simp: S'(1) queue_at_def intro: nq.frame hq.frame)
  qed
  moreover have "node_state n S' = place_tag (?pl n)" "node_ok T (sc_nodes S' n) (?pl n)" if "n \<in> sc_live S'" for n
    using that tags [of n] nodes sched_invD(6,7) [OF I] S' by (auto simp: node_state_def)
  ultimately show ?thesis using sched_invD(2-5) [OF I] S'(3) unfolding sched_inv_def by auto
qed

lemma inv_move1:
  assumes "sched_inv T S pl" "t \<in> T" "n \<in> sc_live S" "unqueued (pl n) \<or> pl n = Queued t b w" "unqueued p' \<or> p' = Queued t b w"
    "node_ok T (sc_nodes S n) p'" "sc_threads S' = (sc_threads S)(t := th')" "sc_nodes S' = sc_nodes S" "sc_live S' = sc_live S"
    "\<And>w'. \<not> b \<or> w' \<noteq> w \<Longrightarrow> th_prio th' w' = th_prio (sc_threads S t) w'"
    "\<And>w'. b \<or> w' \<noteq> w \<Longrightarrow> th_queue th' w' = th_queue (sc_threads S t) w'"
    "queue_at (sc_links S') th' b w (in_place S (pl(n := p')) (Queued t b w))"
    "\<And>p. p \<noteq> n \<Longrightarrow> p \<notin> in_place S pl (Queued t b w) \<Longrightarrow> sc_links S' p = sc_links S p"
    "\<And>p. i_queue (sc_links S' p) = (if p = n then place_tag p' else i_queue (sc_links S p))"
  shows "sched_inv T S' (pl(n := p'))"
proof -
  have e: "(\<lambda>m. if m \<in> {n} then p' else pl m) = pl(n := p')" by auto
  show ?thesis unfolding e [symmetric]
    by (rule inv_move [OF assms(1,2), where b = b and w = w and th' = th']) (use assms in \<open>auto simp: e [symmetric]\<close>)
qed

lemma in_place_upd:
  assumes "n \<in> sc_live S" "pl n \<noteq> p"
  shows "in_place S (pl(n := p)) p = insert n (in_place S pl p)"
  using assms by (auto simp: in_place_def)

lemma in_place_gone: "q \<noteq> p \<Longrightarrow> in_place S (pl(n := q)) p = in_place S pl p - {n}"
  by (auto simp: in_place_def)

lemma in_place_card: "sched_inv T S pl \<Longrightarrow> card (in_place S pl p) < 2 ^ 30 - 1"
  using card_mono [of "sc_live S" "in_place S pl p"] sched_invD(2,3) by (fastforce simp: in_place_def)

subsection \<open>The operations on queues\<close>

lemma push_tail_inv:
  assumes I: "sched_inv T S pl" and n: "n \<in> sc_live S" "unqueued (pl n)" "dn_owner (sc_nodes S n) = t"
  shows "sched_inv T (queue_push_tail t w n S) (pl(n := Queued t False w))" "sched_frame S (queue_push_tail t w n S)"
proof -
  have ok: "node_ok T (sc_nodes S n) (pl n)" by (rule sched_invD(7) [OF I n(1)])
  then have t: "t \<in> T" using n(3) by (simp add: node_ok_def)
  let ?X = "in_place S pl (Queued t False w)"
  obtain \<sigma> q where r: "push_tail_node n (sc_links S) (th_queue (sc_threads S t) w) = (\<sigma>, q)" by fastforce
  have q: "normal_repr (sc_links S) (th_queue (sc_threads S t) w) ?X" "dq_queue_number (th_queue (sc_threads S t) w) = queue_number False w"
    using sched_invD(1) [OF I t, of False w] by (simp_all add: queue_at_def)
  have n0: "n \<noteq> 0" "n \<notin> ?X" "pl n \<noteq> Queued t False w" using n(1,2) sched_invD(4) [OF I] by (auto simp: in_place_def)
  note p = nq.put [OF q(1) n0(1,2) _ r] and m = nq.put_marks [OF q(1) n0(1,2) _ r]
  have e: "queue_push_tail t w n S = upd_thread t (\<lambda>th. th\<lparr>th_queue := (th_queue th)(w := q)\<rparr>) (S\<lparr>sc_links := \<sigma>\<rparr>)"
    by (simp add: queue_push_tail_def r)
  show "sched_inv T (queue_push_tail t w n S) (pl(n := Queued t False w))"
    unfolding e
    by (rule inv_move1 [OF I t n(1), where b = False and w = w and
          th' = "(sc_threads S t)\<lparr>th_queue := (th_queue (sc_threads S t))(w := q)\<rparr>"])
      (use n p m q ok in_place_upd [of n S pl, OF n(1) n0(3)] in \<open>auto simp: queue_at_def node_ok_def\<close>)
  show "sched_frame S (queue_push_tail t w n S)" by (simp add: e sched_frame_def locals_same_def)
qed

lemma prio_insert_inv:
  assumes I: "sched_inv T S pl" and n: "n \<in> sc_live S" "unqueued (pl n)" "dn_owner (sc_nodes S n) = t" and nan: "\<not> float_is_nan p"
  shows "sched_inv T (prio_insert t w n p S) (pl(n := Queued t True w))" "sched_frame S (prio_insert t w n p S)"
proof -
  have ok: "node_ok T (sc_nodes S n) (pl n)" by (rule sched_invD(7) [OF I n(1)])
  then have t: "t \<in> T" using n(3) by (simp add: node_ok_def)
  let ?X = "in_place S pl (Queued t True w)"
  obtain \<sigma> q where r: "pq_do_insert n p (sc_links S) (th_prio (sc_threads S t) w) = (\<sigma>, q)" by fastforce
  have q: "prio_repr (sc_links S) (th_prio (sc_threads S t) w) ?X" "pq_queue_number (th_prio (sc_threads S t) w) = queue_number True w"
    using sched_invD(1) [OF I t, of True w] by (simp_all add: queue_at_def)
  have n0: "n \<noteq> 0" "n \<notin> ?X" "pl n \<noteq> Queued t True w" using n(1,2) sched_invD(4) [OF I] by (auto simp: in_place_def)
  note c = conjI [OF nan in_place_card [OF I, of "Queued t True w"]]
  note p = hq.put [OF q(1) n0(1,2) c r] and m = hq.put_marks [OF q(1) n0(1,2) c r]
  have e: "prio_insert t w n p S = upd_thread t (\<lambda>th. th\<lparr>th_prio := (th_prio th)(w := q)\<rparr>) (S\<lparr>sc_links := \<sigma>\<rparr>)"
    by (simp add: prio_insert_def r)
  show "sched_inv T (prio_insert t w n p S) (pl(n := Queued t True w))"
    unfolding e
    by (rule inv_move1 [OF I t n(1), where b = True and w = w and
          th' = "(sc_threads S t)\<lparr>th_prio := (th_prio (sc_threads S t))(w := q)\<rparr>"])
      (use n p m q ok in_place_upd [of n S pl, OF n(1) n0(3)] in \<open>auto simp: queue_at_def node_ok_def\<close>)
  show "sched_frame S (prio_insert t w n p S)" by (simp add: e sched_frame_def locals_same_def)
qed

lemma queue_remove_inv:
  assumes I: "sched_inv T S pl" and t: "t \<in> T" and n: "n \<in> sc_live S" "pl n = Queued t False w" "s \<noteq> STATE_IDLE"
  shows "\<exists>S'. queue_remove t w n s S = (True, S') \<and> sched_inv T S' (pl(n := Held s)) \<and> sched_frame S S'"
proof -
  have ok: "node_ok T (sc_nodes S n) (pl n)" by (rule sched_invD(7) [OF I n(1)])
  let ?X = "in_place S pl (Queued t False w)"
  obtain b \<sigma> q where r: "dq_do_remove n s (sc_links S) (th_queue (sc_threads S t) w) = (b, \<sigma>, q)" by (metis prod_cases3)
  have q: "normal_repr (sc_links S) (th_queue (sc_threads S t) w) ?X" "dq_queue_number (th_queue (sc_threads S t) w) = queue_number False w"
    using sched_invD(1) [OF I t, of False w] by (simp_all add: queue_at_def)
  have nX: "n \<in> ?X" using n by (simp add: in_place_def)
  note p = nq.take_out [OF q(1) nX r] and m = nq.take_marks [OF q(1) nX r]
  let ?S = "upd_thread t (\<lambda>th. th\<lparr>th_queue := (th_queue th)(w := q)\<rparr>) (S\<lparr>sc_links := \<sigma>\<rparr>)"
  have "sched_inv T ?S (pl(n := Held s))"
    by (rule inv_move1 [OF I t n(1), where b = False and w = w and
          th' = "(sc_threads S t)\<lparr>th_queue := (th_queue (sc_threads S t))(w := q)\<rparr>"])
      (use n p m q ok in_place_gone [of "Held s" "Queued t False w" S pl n] in \<open>auto simp: queue_at_def node_ok_def\<close>)
  moreover have "queue_remove t w n s S = (True, ?S)" using p by (simp add: queue_remove_def r)
  ultimately show ?thesis by (simp add: sched_frame_def locals_same_def)
qed

lemma prio_remove_inv:
  assumes I: "sched_inv T S pl" and t: "t \<in> T" and n: "n \<in> sc_live S" "pl n = Queued t True w" "s \<noteq> STATE_IDLE"
  shows "\<exists>S'. prio_remove t w n s S = (True, S') \<and> sched_inv T S' (pl(n := Held s)) \<and> sched_frame S S'"
proof -
  have ok: "node_ok T (sc_nodes S n) (pl n)" by (rule sched_invD(7) [OF I n(1)])
  let ?X = "in_place S pl (Queued t True w)"
  obtain b \<sigma> q where r: "pq_remove n s (sc_links S) (th_prio (sc_threads S t) w) = (b, \<sigma>, q)" by (metis prod_cases3)
  have q: "prio_repr (sc_links S) (th_prio (sc_threads S t) w) ?X" "pq_queue_number (th_prio (sc_threads S t) w) = queue_number True w"
    using sched_invD(1) [OF I t, of True w] by (simp_all add: queue_at_def)
  have nX: "n \<in> ?X" using n by (simp add: in_place_def)
  note p = hq.take_out [OF q(1) nX r] and m = hq.take_marks [OF q(1) nX r]
  let ?S = "upd_thread t (\<lambda>th. th\<lparr>th_prio := (th_prio th)(w := q)\<rparr>) (S\<lparr>sc_links := \<sigma>\<rparr>)"
  have "sched_inv T ?S (pl(n := Held s))"
    by (rule inv_move1 [OF I t n(1), where b = True and w = w and
          th' = "(sc_threads S t)\<lparr>th_prio := (th_prio (sc_threads S t))(w := q)\<rparr>"])
      (use n p m q ok in_place_gone [of "Held s" "Queued t True w" S pl n] in \<open>auto simp: queue_at_def node_ok_def\<close>)
  moreover have "prio_remove t w n s S = (True, ?S)" using p by (simp add: prio_remove_def r)
  ultimately show ?thesis by (simp add: sched_frame_def locals_same_def)
qed

lemma upd_thread_same: "f (sc_threads S t) = sc_threads S t \<Longrightarrow> upd_thread t f S = S"
  by (simp add: upd_thread_def fun_upd_idem)

lemma removes_other:
  assumes I: "sched_inv T S pl" and t: "t \<in> T"
  shows "node_state n S \<noteq> queue_number False w \<Longrightarrow> queue_remove t w n s S = (False, S)"
    "node_state n S \<noteq> queue_number True w \<Longrightarrow> prio_remove t w n s S = (False, S)"
    "node_state n S \<noteq> queue_number True w \<Longrightarrow> prio_move_node t w n p S = S"
  using sched_invD(1) [OF I t, of False w] sched_invD(1) [OF I t, of True w]
  by (simp_all add: queue_remove_def prio_remove_def prio_move_node_def queue_at_def node_state_def nq.take_other hq.take_other
      prio_move_other upd_thread_same)

lemma prio_move_inv:
  assumes I: "sched_inv T S pl" and t: "t \<in> T" and n: "n \<in> sc_live S" "pl n = Queued t True w" and nan: "\<not> float_is_nan p"
  shows "sched_inv T (prio_move_node t w n p S) pl" "sched_frame S (prio_move_node t w n p S)"
proof -
  have ok: "node_ok T (sc_nodes S n) (pl n)" by (rule sched_invD(7) [OF I n(1)])
  let ?X = "in_place S pl (Queued t True w)"
  obtain \<sigma> q where r: "pq_do_move_node n p (sc_links S) (th_prio (sc_threads S t) w) = (\<sigma>, q)" by fastforce
  have q: "prio_repr (sc_links S) (th_prio (sc_threads S t) w) ?X" "pq_queue_number (th_prio (sc_threads S t) w) = queue_number True w"
    using sched_invD(1) [OF I t, of True w] by (simp_all add: queue_at_def)
  have nX: "n \<in> ?X" using n by (simp add: in_place_def)
  note m = prio_move [OF q(1) nX nan r]
  have e: "prio_move_node t w n p S = upd_thread t (\<lambda>th. th\<lparr>th_prio := (th_prio th)(w := q)\<rparr>) (S\<lparr>sc_links := \<sigma>\<rparr>)"
    by (simp add: prio_move_node_def r)
  have tag: "i_queue (\<sigma> p) = i_queue (sc_links S p)" for p
    using hq.marked [OF q(1), of p] hq.marked [OF m(1), of p] m(2,3) by (cases "p \<in> ?X") simp_all
  have nt: "i_queue (sc_links S n) = queue_number True w" using sched_invD(6) [OF I n(1)] n(2) by (simp add: node_state_def)
  have "sched_inv T (prio_move_node t w n p S) (pl(n := Queued t True w))"
    unfolding e
    by (rule inv_move1 [OF I t n(1), where b = True and w = w and
          th' = "(sc_threads S t)\<lparr>th_prio := (th_prio (sc_threads S t))(w := q)\<rparr>"])
      (use n m q ok tag nt in \<open>auto simp: queue_at_def fun_upd_idem\<close>)
  then show "sched_inv T (prio_move_node t w n p S) pl" using n(2) by (metis fun_upd_idem)
  show "sched_frame S (prio_move_node t w n p S)" by (simp add: e sched_frame_def locals_same_def)
qed

text \<open>A node that is popped is held.\<close>

lemma pop_tags:
  assumes "\<forall>p. p \<notin> X \<longrightarrow> \<sigma>' p = \<sigma> p" "\<And>p. p \<in> X \<Longrightarrow> i_queue (\<sigma> p) = k" "\<And>p. p \<in> X - N \<Longrightarrow> i_queue (\<sigma>' p) = k"
    "\<And>p. p \<in> N \<Longrightarrow> i_queue (\<sigma>' p) = s"
  shows "i_queue (\<sigma>' p) = (if p \<in> N then s else i_queue (\<sigma> p))"
  using assms by (metis Diff_iff)

lemma pop_head_inv:
  assumes I: "sched_inv T S pl" and t: "t \<in> T" and s: "s \<noteq> STATE_IDLE" and r: "queue_pop_head t w s S = (n, S')"
  shows "n = 0 \<and> S' = S \<or> n \<in> sc_live S \<and> pl n = Queued t False w \<and> sched_inv T S' (pl(n := Held s)) \<and> sched_frame S S'"
proof -
  let ?X = "in_place S pl (Queued t False w)"
  obtain \<sigma> q where p: "dq_do_pop_head s (sc_links S) (th_queue (sc_threads S t) w) = (n, \<sigma>, q)"
    and S': "S' = upd_thread t (\<lambda>th. th\<lparr>th_queue := (th_queue th)(w := q)\<rparr>) (S\<lparr>sc_links := \<sigma>\<rparr>)"
    using r by (auto simp: queue_pop_head_def split: prod.splits)
  have q: "normal_repr (sc_links S) (th_queue (sc_threads S t) w) ?X" "dq_queue_number (th_queue (sc_threads S t) w) = queue_number False w"
    using sched_invD(1) [OF I t, of False w] by (simp_all add: queue_at_def)
  note pp = normal_pop_head [OF q(1) p]
  show ?thesis
  proof (cases "?X = {}")
    case True
    then show ?thesis using pp(1) S' by (simp add: upd_thread_same)
  next
    case False
    note P = pp(2) [OF False]
    have n: "n \<in> sc_live S" "pl n = Queued t False w" using P by (simp_all add: in_place_def)
    have ok: "node_ok T (sc_nodes S n) (pl n)" by (rule sched_invD(7) [OF I n(1)])
    have tags: "i_queue (\<sigma> x) = (if x \<in> {n} then s else i_queue (sc_links S x))" for x
      by (rule pop_tags [of ?X _ _ "queue_number False w"]) (use P q nq.marked in \<open>auto\<close>)
    have "sched_inv T S' (pl(n := Held s))"
      unfolding S'
      by (rule inv_move1 [OF I t n(1), where b = False and w = w and
            th' = "(sc_threads S t)\<lparr>th_queue := (th_queue (sc_threads S t))(w := q)\<rparr>"])
        (use n P q ok tags in_place_gone [of "Held s" "Queued t False w" S pl n] in \<open>auto simp: queue_at_def node_ok_def\<close>)
    then show ?thesis using n by (simp add: S' sched_frame_def locals_same_def)
  qed
qed

lemma pop_prio_inv:
  assumes I: "sched_inv T S pl" and t: "t \<in> T" and s: "s \<noteq> STATE_IDLE" and r: "pq_do_pop s (sc_links S) (th_prio (sc_threads S t) w) = (n, \<sigma>, q)"
    and ne: "\<not> pq_empty (th_prio (sc_threads S t) w)"
    and S': "S' = upd_thread t (\<lambda>th. th\<lparr>th_prio := (th_prio th)(w := q)\<rparr>) (S\<lparr>sc_links := \<sigma>\<rparr>)"
  shows "n \<in> sc_live S \<and> pl n = Queued t True w \<and> sched_inv T S' (pl(n := Held s)) \<and> sched_frame S S'"
proof -
  let ?X = "in_place S pl (Queued t True w)"
  have q: "prio_repr (sc_links S) (th_prio (sc_threads S t) w) ?X" "pq_queue_number (th_prio (sc_threads S t) w) = queue_number True w"
    using sched_invD(1) [OF I t, of True w] by (simp_all add: queue_at_def)
  have "?X \<noteq> {}" using ne q(1) by (auto simp: pq_empty_def prio_repr_def)
  note P = prio_pop [OF q(1) r this]
  have n: "n \<in> sc_live S" "pl n = Queued t True w" using P(1) by (simp_all add: in_place_def)
  have ok: "node_ok T (sc_nodes S n) (pl n)" by (rule sched_invD(7) [OF I n(1)])
  have tags: "i_queue (\<sigma> x) = (if x \<in> {n} then s else i_queue (sc_links S x))" for x
    by (rule pop_tags [of ?X _ _ "queue_number True w"]) (use P q hq.marked in \<open>auto\<close>)
  have "sched_inv T S' (pl(n := Held s))"
    unfolding S'
    by (rule inv_move1 [OF I t n(1), where b = True and w = w and
          th' = "(sc_threads S t)\<lparr>th_prio := (th_prio (sc_threads S t))(w := q)\<rparr>"])
      (use n P q ok tags in_place_gone [of "Held s" "Queued t True w" S pl n] in \<open>auto simp: queue_at_def node_ok_def\<close>)
  then show ?thesis using n by (simp add: S' sched_frame_def locals_same_def)
qed

lemma pop_best_inv:
  assumes I: "sched_inv T S pl" and t: "t \<in> T" and s: "s \<noteq> STATE_IDLE" and r: "prio_pop_best t s S = (n, S')"
  shows "n = 0 \<and> S' = S \<or> n \<in> sc_live S \<and> (\<exists>w. pl n = Queued t True w) \<and> sched_inv T S' (pl(n := Held s)) \<and> sched_frame S S'"
proof -
  let ?th = "sc_threads S t"
  have own: "n \<in> sc_live S \<and> (\<exists>w. pl n = Queued t True w) \<and> sched_inv T S' (pl(n := Held s)) \<and> sched_frame S S'"
    if h: "pq_pop_best s (sc_links S) (th_prio ?th Moving) (th_prio ?th Stati) =
        (case pq_do_pop s (sc_links S) (th_prio ?th Moving) of (r, \<sigma>, q) \<Rightarrow> (r, \<sigma>, q, th_prio ?th Stati))" "\<not> pq_empty (th_prio ?th Moving)"
  proof -
    obtain \<sigma> q where p: "pq_do_pop s (sc_links S) (th_prio ?th Moving) = (n, \<sigma>, q)"
      "S' = upd_thread t (\<lambda>th. th\<lparr>th_prio := (th_prio th)(Moving := q, Stati := th_prio ?th Stati)\<rparr>) (S\<lparr>sc_links := \<sigma>\<rparr>)"
      using r h(1) by (auto simp: prio_pop_best_def split: prod.splits)
    have "(th_prio ?th)(Moving := q, Stati := th_prio ?th Stati) = (th_prio ?th)(Moving := q)" by (simp add: fun_eq_iff)
    then have "S' = upd_thread t (\<lambda>th. th\<lparr>th_prio := (th_prio th)(Moving := q)\<rparr>) (S\<lparr>sc_links := \<sigma>\<rparr>)"
      using p(2) by (simp add: upd_thread_def)
    from pop_prio_inv [OF I t s p(1) h(2) this] show ?thesis by blast
  qed
  have other: "n \<in> sc_live S \<and> (\<exists>w. pl n = Queued t True w) \<and> sched_inv T S' (pl(n := Held s)) \<and> sched_frame S S'"
    if h: "pq_pop_best s (sc_links S) (th_prio ?th Moving) (th_prio ?th Stati) =
        (case pq_do_pop s (sc_links S) (th_prio ?th Stati) of (r, \<sigma>, q) \<Rightarrow> (r, \<sigma>, th_prio ?th Moving, q))" "\<not> pq_empty (th_prio ?th Stati)"
  proof -
    obtain \<sigma> q where p: "pq_do_pop s (sc_links S) (th_prio ?th Stati) = (n, \<sigma>, q)"
      "S' = upd_thread t (\<lambda>th. th\<lparr>th_prio := (th_prio th)(Moving := th_prio ?th Moving, Stati := q)\<rparr>) (S\<lparr>sc_links := \<sigma>\<rparr>)"
      using r h(1) by (auto simp: prio_pop_best_def split: prod.splits)
    have "S' = upd_thread t (\<lambda>th. th\<lparr>th_prio := (th_prio th)(Stati := q)\<rparr>) (S\<lparr>sc_links := \<sigma>\<rparr>)"
      using p(2) by (simp add: upd_thread_def)
    from pop_prio_inv [OF I t s p(1) h(2) this] show ?thesis by blast
  qed
  show ?thesis
  proof (cases "pq_empty (th_prio ?th Moving) \<and> pq_empty (th_prio ?th Stati)")
    case True
    have u: "th_prio th = (th_prio th)(Moving := th_prio th Moving, Stati := th_prio th Stati)" for th by simp
    from True r have "n = 0" "S' = upd_thread t (\<lambda>th. th\<lparr>th_prio := (th_prio th)(Moving := th_prio ?th Moving, Stati := th_prio ?th Stati)\<rparr>) (S\<lparr>sc_links := sc_links S\<rparr>)"
      by (auto simp: prio_pop_best_def pq_pop_best_def)
    then show ?thesis by (simp add: upd_thread_same)
  next
    case False
    then have "pq_pop_best s (sc_links S) (th_prio ?th Moving) (th_prio ?th Stati) =
          (case pq_do_pop s (sc_links S) (th_prio ?th Moving) of (r, \<sigma>, q) \<Rightarrow> (r, \<sigma>, q, th_prio ?th Stati)) \<and> \<not> pq_empty (th_prio ?th Moving) \<or>
        pq_pop_best s (sc_links S) (th_prio ?th Moving) (th_prio ?th Stati) =
          (case pq_do_pop s (sc_links S) (th_prio ?th Stati) of (r, \<sigma>, q) \<Rightarrow> (r, \<sigma>, th_prio ?th Moving, q)) \<and> \<not> pq_empty (th_prio ?th Stati)"
      by (simp add: pq_pop_best_def Let_def)
    then show ?thesis using own other by blast
  qed
qed

abbreviation all_at :: "ptr_val set \<Rightarrow> place \<Rightarrow> (ptr_val \<Rightarrow> place) \<Rightarrow> ptr_val \<Rightarrow> place" where
  "all_at N p pl \<equiv> \<lambda>n. if n \<in> N then p else pl n"

text \<open>A thief gets nodes of one queue of its victim.\<close>

definition taken :: "ptr_val set \<Rightarrow> ptr_val \<Rightarrow> (ptr_val \<Rightarrow> place) \<Rightarrow> ptr_val list \<Rightarrow> sched \<Rightarrow> sched \<Rightarrow> bool" where
  "taken T t pl ns S S' \<longleftrightarrow> set ns \<subseteq> sc_live S \<and> distinct ns \<and> (\<forall>n \<in> set ns. \<exists>b w. pl n = Queued t b w) \<and>
     sched_inv T S' (all_at (set ns) (Held STATE_STEALING) pl) \<and> sched_frame S S'"

lemma taken_none: "sched_inv T S pl \<Longrightarrow> taken T t pl [] S S"
  by (simp add: taken_def)

lemma pop_half_inv:
  assumes I: "sched_inv T S pl" and t: "t \<in> T" and r: "queue_pop_half t w mx STATE_STEALING S = (ns, S')"
  shows "taken T t pl ns S S'"
proof -
  let ?X = "in_place S pl (Queued t False w)"
  obtain \<sigma> q where p: "dq_pop_tail_half mx STATE_STEALING (sc_links S) (th_queue (sc_threads S t) w) = (ns, \<sigma>, q)"
    and S': "S' = upd_thread t (\<lambda>th. th\<lparr>th_queue := (th_queue th)(w := q)\<rparr>) (S\<lparr>sc_links := \<sigma>\<rparr>)"
    using r by (auto simp: queue_pop_half_def split: prod.splits)
  have q: "normal_repr (sc_links S) (th_queue (sc_threads S t) w) ?X" "dq_queue_number (th_queue (sc_threads S t) w) = queue_number False w"
    using sched_invD(1) [OF I t, of False w] by (simp_all add: queue_at_def)
  note P = normal_pop_half [OF q(1) p]
  have tags: "i_queue (\<sigma> x) = (if x \<in> set ns then STATE_STEALING else i_queue (sc_links S x))" for x
    by (rule pop_tags [of ?X _ _ "queue_number False w"]) (use P q nq.marked in \<open>auto\<close>)
  have n: "n \<in> sc_live S" "pl n = Queued t False w" if "n \<in> set ns" for n using P(1) that by (auto simp: in_place_def)
  have e: "in_place S (all_at (set ns) (Held STATE_STEALING) pl) (Queued t False w) = ?X - set ns" by (auto simp: in_place_def)
  have "sched_inv T S' (all_at (set ns) (Held STATE_STEALING) pl)"
    unfolding S'
    by (rule inv_move [OF I t, where b = False and w = w and
          th' = "(sc_threads S t)\<lparr>th_queue := (th_queue (sc_threads S t))(w := q)\<rparr>"])
      (use n P q tags sched_invD(7) [OF I] in \<open>auto simp: queue_at_def node_ok_def e\<close>)
  then show ?thesis using n P(2) by (auto simp: S' sched_frame_def locals_same_def taken_def)
qed

lemma prio_pop_half_inv:
  assumes I: "sched_inv T S pl" and t: "t \<in> T"
  shows "\<exists>ns S'. prio_pop_half t w mx STATE_STEALING S = Some (ns, S') \<and> taken T t pl ns S S'"
proof -
  let ?X = "in_place S pl (Queued t True w)"
  have q: "prio_repr (sc_links S) (th_prio (sc_threads S t) w) ?X" "pq_queue_number (th_prio (sc_threads S t) w) = queue_number True w"
    using sched_invD(1) [OF I t, of True w] by (simp_all add: queue_at_def)
  from prio_pop_half_repr [OF q(1), of mx STATE_STEALING] obtain ns \<sigma> q' where
    p: "pq_do_pop_half mx STATE_STEALING (sc_links S) (th_prio (sc_threads S t) w) = Some (ns, \<sigma>, q')"
    and P: "set ns \<subseteq> ?X" "distinct ns" "prio_repr \<sigma> q' (?X - set ns)" "pq_queue_number q' = pq_queue_number (th_prio (sc_threads S t) w)"
      "\<forall>p \<in> set ns. i_queue (\<sigma> p) = STATE_STEALING" "\<forall>p. p \<notin> ?X \<longrightarrow> \<sigma> p = sc_links S p" by blast
  let ?S = "upd_thread t (\<lambda>th. th\<lparr>th_prio := (th_prio th)(w := q')\<rparr>) (S\<lparr>sc_links := \<sigma>\<rparr>)"
  have tags: "i_queue (\<sigma> x) = (if x \<in> set ns then STATE_STEALING else i_queue (sc_links S x))" for x
    by (rule pop_tags [of ?X _ _ "queue_number True w"]) (use P q hq.marked in \<open>auto\<close>)
  have n: "n \<in> sc_live S" "pl n = Queued t True w" if "n \<in> set ns" for n using P(1) that by (auto simp: in_place_def)
  have e: "in_place S (all_at (set ns) (Held STATE_STEALING) pl) (Queued t True w) = ?X - set ns" by (auto simp: in_place_def)
  have "sched_inv T ?S (all_at (set ns) (Held STATE_STEALING) pl)"
    by (rule inv_move [OF I t, where b = True and w = w and
          th' = "(sc_threads S t)\<lparr>th_prio := (th_prio (sc_threads S t))(w := q')\<rparr>"])
      (use n P q tags sched_invD(7) [OF I] in \<open>auto simp: queue_at_def node_ok_def e\<close>)
  then have "taken T t pl ns S ?S" using n P(2) by (auto simp: sched_frame_def locals_same_def taken_def)
  then show ?thesis using p by (auto simp: prio_pop_half_def)
qed

subsection \<open>Changes outside the queues\<close>

lemma inv_node:
  assumes "sched_inv T S pl" "n \<in> sc_live S \<Longrightarrow> node_ok T (f (sc_nodes S n)) (pl n)"
  shows "sched_inv T (upd_node n f S) pl"
  using assms unfolding sched_inv_def by (auto simp: in_place_def)

lemma inv_thread:
  assumes "sched_inv T S pl" "th_queue (f (sc_threads S t)) = th_queue (sc_threads S t)" "th_prio (f (sc_threads S t)) = th_prio (sc_threads S t)"
  shows "sched_inv T (upd_thread t f S) pl"
  using assms unfolding sched_inv_def by (auto simp: in_place_def queue_at_def)

lemma inv_place:
  assumes I: "sched_inv T S pl" and n: "unqueued (pl n)" "unqueued p" "n \<in> sc_live S \<Longrightarrow> place_tag p = place_tag (pl n)"
    "n \<in> sc_live S \<Longrightarrow> node_ok T (sc_nodes S n) p"
  shows "sched_inv T S (pl(n := p))"
proof -
  have e: "in_place S (pl(n := p)) (Queued t b w) = in_place S pl (Queued t b w)" for t b w
    using n(1,2) by (auto simp: in_place_def)
  show ?thesis using I n(3,4) unfolding sched_inv_def e by auto
qed

lemma inv_barrier [simp]:
  "sched_inv T (S\<lparr>sc_active_threads := k\<rparr>) pl = sched_inv T S pl" "sched_inv T (S\<lparr>sc_done := d\<rparr>) pl = sched_inv T S pl"
  by (simp_all add: sched_inv_def in_place_def node_state_def)

lemma inv_delete:
  assumes I: "sched_inv T S pl" and n: "unqueued (pl n)"
  shows "sched_inv T (delete_node n S) pl"
proof -
  have e: "in_place (delete_node n S) pl (Queued t b w) = in_place S pl (Queued t b w)" for t b w
    using n by (auto simp: in_place_def delete_node_def)
  have "card (sc_live S - {n}) \<le> card (sc_live S)" using sched_invD(2) [OF I] by (simp add: card_mono)
  then show ?thesis using I unfolding sched_inv_def e by (auto simp: delete_node_def node_state_def)
qed

lemma inv_make_inactive:
  assumes I: "sched_inv T S pl" and n: "unqueued (pl n)" "n \<in> sc_live S \<Longrightarrow> \<not> dn_unprocessed_facts (sc_nodes S n)"
  shows "sched_inv T (make_inactive n S) (pl(n := Idle))"
proof -
  let ?S = "make_inactive n S"
  have S: "sc_threads ?S = sc_threads S" "sc_live ?S = sc_live S" "sc_nodes ?S = sc_nodes S"
    "sc_links ?S = n_set_queue (sc_links S) n queue_no_queue" by (simp_all add: make_inactive_def)
  have e: "in_place ?S (pl(n := Idle)) (Queued t b w) = in_place S pl (Queued t b w)" for t b w
    using n(1) by (auto simp: in_place_def S)
  have "queue_at (sc_links ?S) (sc_threads S t) b w (in_place S pl (Queued t b w))" if "t \<in> T" for t b w
    by (rule queue_at_frame [OF sched_invD(1) [OF I that]]) (use n(1) in \<open>auto simp: S in_place_def n_set_queue_def\<close>)
  moreover have "node_state m ?S = place_tag ((pl(n := Idle)) m)" "node_ok T (sc_nodes S m) ((pl(n := Idle)) m)" if "m \<in> sc_live S" for m
    using sched_invD(6,7) [OF I that] n(2) that by (auto simp: node_state_def S n_set_queue_def node_ok_def)
  ultimately show ?thesis using sched_invD(2-5) [OF I] unfolding sched_inv_def e S by auto
qed

end
