(* ===== verification/Sched_Ops.thy ===== *)
theory Sched_Ops
  imports Sched_Inv
begin

text \<open>
  The operations of the scheduler keep its invariant. Each of them moves at most one node, which ends in a queue of its owner.
\<close>

subsection \<open>Nodes\<close>

definition sched_same :: "db_node \<Rightarrow> db_node \<Rightarrow> bool" where
  "sched_same nd nd' \<longleftrightarrow> dn_owner nd' = dn_owner nd \<and> dn_static_node nd' = dn_static_node nd \<and>
     dn_priority nd' = dn_priority nd \<and> dn_default_priority nd' = dn_default_priority nd"

lemma sched_same_refl [simp]: "sched_same nd nd"
  by (simp add: sched_same_def)

lemma sched_same_trans: "sched_same a b \<Longrightarrow> sched_same b c \<Longrightarrow> sched_same a c"
  by (simp add: sched_same_def)

lemma add_linear_fact_same:
  "add_linear_fact E tpl pred nd = Some nd' \<Longrightarrow> sched_same nd nd' \<and> dn_unprocessed_facts nd' = dn_unprocessed_facts nd"
  by (auto simp: add_linear_fact_def sched_same_def split: bind_splits)

lemma inner_add_work_others_same:
  "inner_add_work_others tpl pred dir depth nd = Some nd' \<Longrightarrow> sched_same nd nd' \<and> dn_unprocessed_facts nd' = dn_unprocessed_facts nd"
  by (auto simp: inner_add_work_others_def add_persistent_fact_def add_incoming_def add_incoming_list_def sched_same_def split: if_splits)

lemma add_work_others_same:
  "add_work_others tpl pred dir depth nd = Some nd' \<Longrightarrow> sched_same nd nd' \<and> dn_unprocessed_facts nd'"
  by (auto simp: add_work_others_def sched_same_def dest!: inner_add_work_others_same)

lemma add_work_myself_same:
  "add_work_myself E tpl pred dir depth nd = Some nd' \<Longrightarrow> sched_same nd nd' \<and> dn_unprocessed_facts nd'"
  by (auto simp: add_work_myself_def inner_add_work_myself_def add_persistent_fact_def sched_same_def
      dest!: add_linear_fact_same split: if_splits)

lemma each_same:
  assumes "\<And>x nd nd'. f x nd = Some nd' \<Longrightarrow> sched_same nd nd' \<and> dn_unprocessed_facts nd' = dn_unprocessed_facts nd" "each f xs nd = Some nd'"
  shows "sched_same nd nd' \<and> dn_unprocessed_facts nd' = dn_unprocessed_facts nd"
  using assms(2)
proof (induction xs arbitrary: nd)
  case (Cons x xs)
  then obtain nd1 where "f x nd = Some nd1" "each f xs nd1 = Some nd'" by (auto split: bind_splits)
  with assms(1) [of x nd nd1] Cons.IH [of nd1] show ?case by (auto intro: sched_same_trans)
qed simp

lemma add_work_buffer_same:
  "add_work_myself_buffer E b nd = Some nd' \<Longrightarrow> sched_same nd nd' \<and> dn_unprocessed_facts nd'"
  "add_work_others_buffer b nd = Some nd' \<Longrightarrow> sched_same nd nd' \<and> dn_unprocessed_facts nd'"
proof -
  have 1: "sched_same nd nd' \<and> dn_unprocessed_facts nd' = dn_unprocessed_facts nd" if "work_item_myself E x nd = Some nd'" for x nd nd'
    using that by (auto simp: work_item_myself_def sched_same_def split: prod.splits if_splits bind_splits)
  have 2: "sched_same nd nd' \<and> dn_unprocessed_facts nd' = dn_unprocessed_facts nd" if "work_item_others x nd = Some nd'" for x nd nd'
    using that by (auto simp: work_item_others_def add_incoming_list_def sched_same_def split: prod.splits if_splits)
  show "add_work_myself_buffer E b nd = Some nd' \<Longrightarrow> sched_same nd nd' \<and> dn_unprocessed_facts nd'"
    using each_same [OF 1] by (fastforce simp: add_work_myself_buffer_def sched_same_def)
  show "add_work_others_buffer b nd = Some nd' \<Longrightarrow> sched_same nd nd' \<and> dn_unprocessed_facts nd'"
    using each_same [OF 2] by (fastforce simp: add_work_others_buffer_def sched_same_def)
qed

lemma node_ok_same:
  assumes "node_ok T nd p" "sched_same nd nd'" "dn_unprocessed_facts nd' \<longrightarrow> dn_unprocessed_facts nd \<or> p \<noteq> Idle"
  shows "node_ok T nd' p"
  using assms by (auto simp: node_ok_def sched_same_def split: place.splits)

lemma node_ok_priority:
  "node_ok T nd p \<Longrightarrow> \<not> float_is_nan (get_priority E nd)"
  "node_ok T nd p \<Longrightarrow> node_ok T (remove_temporary_priority nd) p"
  "node_ok T nd p \<Longrightarrow> \<not> float_is_nan v \<Longrightarrow> node_ok T (set_temporary_priority v nd) p"
  "node_ok T nd p \<Longrightarrow> \<not> float_is_nan v \<Longrightarrow> node_ok T (snd (set_temporary_priority_if E v nd)) p"
  "node_ok T nd p \<Longrightarrow> \<not> float_is_nan v \<Longrightarrow> node_ok T (set_default_priority v nd) p"
  by (auto simp: node_ok_def get_priority_def remove_temporary_priority_def set_temporary_priority_def
      set_temporary_priority_if_def set_default_priority_def split: place.splits)

subsection \<open>What an operation may do\<close>

definition live_same :: "sched \<Rightarrow> sched \<Rightarrow> bool" where
  "live_same S S' \<longleftrightarrow> sc_live S' = sc_live S \<and> (\<forall>t. locals_same (sc_threads S t) (sc_threads S' t))"

lemma live_same_refl [simp]: "live_same S S"
  by (simp add: live_same_def locals_same_def)

lemma live_same_trans: "live_same S S1 \<Longrightarrow> live_same S1 S2 \<Longrightarrow> live_same S S2"
  by (auto simp: live_same_def locals_same_def)

lemma live_same_frame: "sched_frame S S' \<Longrightarrow> live_same S S'"
  by (simp add: sched_frame_def live_same_def)

lemma live_same_node [simp]: "live_same S (upd_node n f S)"
  by (simp add: live_same_def locals_same_def)

lemma live_same_thread: "locals_same (sc_threads S t) (f (sc_threads S t)) \<Longrightarrow> live_same S (upd_thread t f S)"
  by (auto simp: live_same_def locals_same_def)

lemma live_same_set_comm [simp]: "live_same S (set_comm t other S)"
  unfolding set_comm_def by (rule live_same_thread) (simp add: locals_same_def)

fun resting :: "place \<Rightarrow> bool" where
  "resting Idle = True"
| "resting Fresh = True"
| "resting (Queued t b w) = True"
| "resting p = False"

definition op_ok :: "ptr_val set \<Rightarrow> ptr_val \<Rightarrow> (ptr_val \<Rightarrow> place) \<Rightarrow> sched \<Rightarrow> sched \<Rightarrow> bool" where
  "op_ok T n pl S S' \<longleftrightarrow> live_same S S' \<and>
     (\<exists>p. sched_inv T S' (pl(n := p)) \<and> (p = pl n \<or> resting (pl n) \<and> (\<exists>t b w. p = Queued t b w)))"

lemma op_ok_same: "sched_inv T S' pl \<Longrightarrow> live_same S S' \<Longrightarrow> op_ok T n pl S S'"
  unfolding op_ok_def by (metis fun_upd_triv)

lemma op_ok_queued: "sched_inv T S' (pl(n := Queued t b w)) \<Longrightarrow> live_same S S' \<Longrightarrow> resting (pl n) \<Longrightarrow> op_ok T n pl S S'"
  unfolding op_ok_def by blast

lemma inv_set_comm: "sched_inv T S pl \<Longrightarrow> sched_inv T (set_comm t other S) pl"
  unfolding set_comm_def by (rule inv_thread) simp_all

lemma add_to_queue_inv:
  assumes I: "sched_inv T S pl" and n: "n \<in> sc_live S" "unqueued (pl n)" "dn_owner (sc_nodes S n) = t"
  shows "\<exists>b w. sched_inv T (add_to_queue E t n S) (pl(n := Queued t b w)) \<and> sched_frame S (add_to_queue E t n S)"
proof -
  have nan: "\<not> float_is_nan (get_priority E (sc_nodes S n))" by (rule node_ok_priority(1) [OF sched_invD(7) [OF I n(1)]])
  show ?thesis
    using push_tail_inv [OF I n] prio_insert_inv [OF I n nan]
    by (intro exI [of _ "has_priority E (sc_nodes S n)"] exI [of _ "if is_static (sc_nodes S n) then Stati else Moving"])
      (simp add: add_to_queue_def add_to_priority_queue_def)
qed

subsection \<open>Facts\<close>

lemma queue_if_idle_ok:
  assumes I: "sched_inv T S pl" and n: "n \<in> sc_live S" and settled: "\<And>s. pl n \<noteq> Held s" and ni: "pl n \<noteq> Idle"
  shows "live_same S (queue_if_idle E t n S) \<and> (\<exists>p. sched_inv T (queue_if_idle E t n S) (pl(n := p)) \<and>
    (p = pl n \<and> pl n \<noteq> Fresh \<or> pl n = Fresh \<and> (\<exists>t b w. p = Queued t b w)))"
proof (cases "active_node n S")
  case True
  then have "pl n \<noteq> Fresh" using sched_invD(6) [OF I n] by (auto simp: active_node_def)
  with True show ?thesis using I by (auto simp: queue_if_idle_def intro!: exI [of _ "pl n"])
next
  case False
  then have "place_tag (pl n) = STATE_IDLE" using sched_invD(6) [OF I n] by (simp add: active_node_def)
  then have f: "pl n = Fresh" using settled ni by (cases "pl n") auto
  let ?o = "dn_owner (sc_nodes S n)"
  from f have "unqueued (pl n)" by simp
  from add_to_queue_inv [OF I n this refl, of E] obtain b w where
    a: "sched_inv T (add_to_queue E ?o n S) (pl(n := Queued ?o b w))" "live_same S (add_to_queue E ?o n S)"
    using live_same_frame by blast
  have "queue_if_idle E t n S = add_to_queue E ?o n S \<or> queue_if_idle E t n S = set_comm t ?o (add_to_queue E ?o n S)"
    using False by (auto simp: queue_if_idle_def Let_def)
  then show ?thesis
    using a f inv_set_comm [OF a(1)] live_same_trans [OF a(2) live_same_set_comm] by (auto intro!: exI [of _ "Queued ?o b w"])
qed

text \<open>The facts are added and the node is queued: afterwards it is neither idle nor fresh.\<close>

lemma work_ok:
  assumes I: "sched_inv T S pl" and n: "n \<in> sc_live S" and settled: "\<And>s. pl n \<noteq> Held s"
    and f: "f (sc_nodes S n) = Some nd" "sched_same (sc_nodes S n) nd \<and> dn_unprocessed_facts nd"
  shows "\<exists>S'. map_option (queue_if_idle E t n) (try_node n f S) = Some S' \<and> live_same S S' \<and>
    (\<exists>p. sched_inv T S' (pl(n := p)) \<and> (p = pl n \<and> \<not> resting p \<or> resting (pl n) \<and> (\<exists>t b w. p = Queued t b w)))"
proof -
  let ?pl = "if pl n = Idle then pl(n := Fresh) else pl"
  have "sched_inv T S ?pl"
    using I inv_place [OF I, of n Fresh] sched_invD(7) [OF I n] by (auto simp: node_ok_def)
  then have 1: "sched_inv T (upd_node n (\<lambda>_. nd) S) ?pl"
    using node_ok_same [OF sched_invD(7) [OF \<open>sched_inv T S ?pl\<close> n] conjunct1 [OF f(2)]] by (intro inv_node) auto
  have pn: "?pl n = (if pl n = Idle then Fresh else pl n)" by simp
  have upd: "?pl(n := p) = pl(n := p)" for p by simp
  have "n \<in> sc_live (upd_node n (\<lambda>_. nd) S)" "\<And>s. ?pl n \<noteq> Held s" "?pl n \<noteq> Idle" using n settled by simp_all
  from queue_if_idle_ok [OF 1 this, of E t] obtain p where
    p: "live_same (upd_node n (\<lambda>_. nd) S) (queue_if_idle E t n (upd_node n (\<lambda>_. nd) S))"
      "sched_inv T (queue_if_idle E t n (upd_node n (\<lambda>_. nd) S)) (pl(n := p))"
      "p = ?pl n \<and> ?pl n \<noteq> Fresh \<or> ?pl n = Fresh \<and> (\<exists>t b w. p = Queued t b w)"
    unfolding upd by blast
  have "p = pl n \<and> \<not> resting p \<or> resting (pl n) \<and> (\<exists>t b w. p = Queued t b w)"
    using p(3) settled by (cases "pl n") (auto split: if_splits)
  with p(1,2) f(1) show ?thesis using live_same_trans [OF live_same_node p(1)] by (auto simp: try_node_def)
qed

lemma new_work_ok:
  assumes I: "sched_inv T S pl" and n: "n \<in> sc_live S" and settled: "\<And>s. pl n \<noteq> Held s"
    and r: "new_work E t got_lock n tpl pred dir depth S = Some S' \<or> new_work_list E t got_lock n b S = Some S'"
  shows "live_same S S' \<and> (\<exists>p. sched_inv T S' (pl(n := p)) \<and> (p = pl n \<and> \<not> resting p \<or> resting (pl n) \<and> (\<exists>t b w. p = Queued t b w)))"
proof -
  obtain f nd where f: "f (sc_nodes S n) = Some nd" "sched_same (sc_nodes S n) nd \<and> dn_unprocessed_facts nd"
      "Some S' = map_option (queue_if_idle E t n) (try_node n f S)"
    using r
  proof (elim disjE)
    assume h: "new_work E t got_lock n tpl pred dir depth S = Some S'"
    let ?f = "if dn_owner (sc_nodes S n) = t \<or> got_lock then add_work_myself E tpl pred dir depth else add_work_others tpl pred dir depth"
    have e: "Some S' = map_option (queue_if_idle E t n) (try_node n ?f S)"
      using h by (auto simp: new_work_def try_node_def split: bind_splits if_splits)
    then obtain nd where nd: "?f (sc_nodes S n) = Some nd" by (cases "?f (sc_nodes S n)") (auto simp: try_node_def)
    then have "sched_same (sc_nodes S n) nd \<and> dn_unprocessed_facts nd"
      by (auto dest: add_work_myself_same add_work_others_same split: if_splits)
    from that [OF nd this e] show thesis .
  next
    assume h: "new_work_list E t got_lock n b S = Some S'"
    let ?f = "if dn_owner (sc_nodes S n) = t \<or> got_lock then add_work_myself_buffer E b else add_work_others_buffer b"
    have e: "Some S' = map_option (queue_if_idle E t n) (try_node n ?f S)"
      using h by (auto simp: new_work_list_def try_node_def split: bind_splits if_splits)
    then obtain nd where nd: "?f (sc_nodes S n) = Some nd" by (cases "?f (sc_nodes S n)") (auto simp: try_node_def)
    then have "sched_same (sc_nodes S n) nd \<and> dn_unprocessed_facts nd"
      by (auto dest: add_work_buffer_same split: if_splits)
    from that [OF nd this e] show thesis .
  qed
  from work_ok [where f = f, OF I n settled f(1,2), of E t] f(3) show ?thesis by auto
qed

end
