(* ===== verification/Sched_Coord.thy ===== *)
theory Sched_Coord
  imports Sched_Ops
begin

text \<open>The coordination operations keep the invariant: changes of priorities, of the thread a node stays at, and of its owner.\<close>

definition may_read :: "32 word \<Rightarrow> ptr_val \<Rightarrow> sched \<Rightarrow> bool" where
  "may_read st n S \<longleftrightarrow> st = node_state n S \<or>
     node_state n S \<in> {STATE_STEALING, STATE_WORKING} \<and> st \<in> {NORMAL_QUEUE_MOVING, NORMAL_QUEUE_STATIC, PRIORITY_MOVING, PRIORITY_STATIC}"

abbreviation settled :: "(ptr_val \<Rightarrow> place) \<Rightarrow> ptr_val \<Rightarrow> bool" where
  "settled pl n \<equiv> \<forall>s. pl n \<noteq> Held s"

lemma tag_place:
  assumes I: "sched_inv T S pl" and n: "n \<in> sc_live S" "settled pl n"
  shows "node_state n S = queue_number b w \<Longrightarrow> pl n = Queued (dn_owner (sc_nodes S n)) b w"
    "node_state n S = STATE_IDLE \<Longrightarrow> pl n = Idle \<or> pl n = Fresh"
    "node_state n S = STATE_STEALING \<Longrightarrow> \<exists>t. pl n = Stolen t"
    "node_state n S = STATE_WORKING \<Longrightarrow> \<exists>t. pl n = Working t"
  using sched_invD(6,7) [OF I n(1)] n(2)
  by (cases "pl n"; auto simp: node_ok_def queue_number_inj queue_number_facts [symmetric])+

lemma op_ok_pre: "live_same S S1 \<Longrightarrow> op_ok T n pl S1 S2 \<Longrightarrow> op_ok T n pl S S2"
  unfolding op_ok_def using live_same_trans by blast

lemma op_ok_post: "op_ok T n pl S S1 \<Longrightarrow> (\<And>pl. sched_inv T S1 pl \<Longrightarrow> sched_inv T S2 pl) \<Longrightarrow> live_same S1 S2 \<Longrightarrow> op_ok T n pl S S2"
  unfolding op_ok_def using live_same_trans by blast

lemma activate_thread_ok:
  "sched_inv T S pl \<Longrightarrow> sched_inv T (activate_thread t S) pl" "live_same S (activate_thread t S)"
proof -
  have "sched_inv T S pl \<Longrightarrow> sched_inv T (set_tstate t b S) pl" for b unfolding set_tstate_def by (rule inv_thread) simp_all
  then show "sched_inv T S pl \<Longrightarrow> sched_inv T (activate_thread t S) pl" by (simp add: activate_thread_def barrier_is_active_def Let_def)
  show "live_same S (activate_thread t S)"
    by (auto simp: activate_thread_def barrier_is_active_def set_tstate_def live_same_def locals_same_def Let_def)
qed

lemma activate_if_ok: "op_ok T n pl S (snd r) \<Longrightarrow> op_ok T n pl S (activate_if t r)"
  using op_ok_post [of T n pl S "snd r"] activate_thread_ok by (auto simp: activate_if_def)

lemma set_prio_if_ok:
  assumes I: "sched_inv T S pl" and nan: "\<not> float_is_nan prio"
  shows "sched_inv T (snd (set_prio_if E n prio S)) pl" "live_same S (snd (set_prio_if E n prio S))"
    "node_state m (snd (set_prio_if E n prio S)) = node_state m S" "sc_live (snd (set_prio_if E n prio S)) = sc_live S"
    "dn_owner (sc_nodes (snd (set_prio_if E n prio S)) n) = dn_owner (sc_nodes S n)"
proof -
  have e: "snd (set_prio_if E n prio S) = upd_node n (\<lambda>_. snd (set_temporary_priority_if E prio (sc_nodes S n))) S"
    by (simp add: set_prio_if_def split: prod.splits)
  show "sched_inv T (snd (set_prio_if E n prio S)) pl" unfolding e
    by (rule inv_node [OF I]) (rule node_ok_priority(4) [OF sched_invD(7) [OF I] nan])
  show "live_same S (snd (set_prio_if E n prio S))" "node_state m (snd (set_prio_if E n prio S)) = node_state m S"
    "sc_live (snd (set_prio_if E n prio S)) = sc_live S" by (simp_all add: e)
  show "dn_owner (sc_nodes (snd (set_prio_if E n prio S)) n) = dn_owner (sc_nodes S n)"
    by (simp add: e set_temporary_priority_if_def)
qed

lemma remove_prio_ok:
  assumes I: "sched_inv T S pl"
  shows "sched_inv T (remove_prio n S) pl" "live_same S (remove_prio n S)" "node_state m (remove_prio n S) = node_state m S"
    "sc_live (remove_prio n S) = sc_live S" "dn_owner (sc_nodes (remove_prio n S) n) = dn_owner (sc_nodes S n)"
proof -
  show "sched_inv T (remove_prio n S) pl" unfolding remove_prio_def
    by (rule inv_node [OF I]) (rule node_ok_priority(2) [OF sched_invD(7) [OF I]])
  show "live_same S (remove_prio n S)" "node_state m (remove_prio n S) = node_state m S"
    "sc_live (remove_prio n S) = sc_live S" "dn_owner (sc_nodes (remove_prio n S) n) = dn_owner (sc_nodes S n)"
    by (simp_all add: remove_prio_def remove_temporary_priority_def)
qed

subsection \<open>From one queue to another\<close>

lemma owner_in:
  assumes "sched_inv T S pl" "n \<in> sc_live S"
  shows "dn_owner (sc_nodes S n) \<in> T"
  using sched_invD(7) [OF assms] by (simp add: node_ok_def)

text \<open>A node that was taken out of a queue and is put into another one of the same thread.\<close>

lemma held_push:
  assumes I: "sched_inv T S1 (pl(n := Held s))" and f: "sched_frame S S1" and n: "n \<in> sc_live S" "dn_owner (sc_nodes S n) = t" "resting (pl n)"
  shows "op_ok T n pl S (queue_push_tail t w n S1)"
    "\<not> float_is_nan p \<Longrightarrow> op_ok T n pl S (prio_insert t w n p S1)"
proof -
  have n1: "n \<in> sc_live S1" "unqueued ((pl(n := Held s)) n)" "dn_owner (sc_nodes S1 n) = t" using f n by (simp_all add: sched_frame_def)
  show "op_ok T n pl S (queue_push_tail t w n S1)"
    using push_tail_inv [where pl = "pl(n := Held s)" and w = w, OF I n1] live_same_trans [OF live_same_frame [OF f] live_same_frame]
    by (intro op_ok_queued [where n = n and pl = pl and t = t and b = False and w = w]) (simp_all add: n(3))
  show "op_ok T n pl S (prio_insert t w n p S1)" if "\<not> float_is_nan p"
    using prio_insert_inv [where pl = "pl(n := Held s)" and w = w, OF I n1 that] live_same_trans [OF live_same_frame [OF f] live_same_frame]
    by (intro op_ok_queued [where n = n and pl = pl and t = t and b = True and w = w]) (simp_all add: n(3))
qed

lemma node_nan:
  assumes "sched_inv T S pl" "sched_frame S S1" "n \<in> sc_live S"
  shows "\<not> float_is_nan (get_priority E (sc_nodes S1 n))"
  using node_ok_priority(1) [OF sched_invD(7) [OF assms(1,3)]] assms(2) by (simp add: sched_frame_def)

lemma from_normal_ok:
  assumes I: "sched_inv T S pl" and n: "n \<in> sc_live S" "settled pl n" "dn_owner (sc_nodes S n) = t"
  shows "op_ok T n pl S (snd (to_prio_queue E t w n S))" "op_ok T n pl S (requeue_normal t w w' n S)"
proof -
  have t: "t \<in> T" using owner_in [OF I n(1)] n(3) by simp
  show "op_ok T n pl S (snd (to_prio_queue E t w n S))" "op_ok T n pl S (requeue_normal t w w' n S)"
  proof (atomize (full), cases "node_state n S = queue_number False w")
    case True
    then have p: "pl n = Queued t False w" using tag_place(1) [OF I n(1,2)] n(3) by simp
    have "op_ok T n pl S (snd (to_prio_queue E t w n S))"
      using queue_remove_inv [OF I t n(1) p, of STATE_PRIO_CHANGE] held_push(2) [OF _ _ n(1,3), of T _ pl STATE_PRIO_CHANGE] node_nan [OF I _ n(1)] p
      by (auto simp: to_prio_queue_def)
    moreover have "op_ok T n pl S (requeue_normal t w w' n S)"
      using queue_remove_inv [OF I t n(1) p, of STATE_STATIC_CHANGE] held_push(1) [OF _ _ n(1,3), of T _ pl STATE_STATIC_CHANGE] p
      by (auto simp: requeue_normal_def)
    ultimately show "op_ok T n pl S (snd (to_prio_queue E t w n S)) \<and> op_ok T n pl S (requeue_normal t w w' n S)" by blast
  next
    case False
    show "op_ok T n pl S (snd (to_prio_queue E t w n S)) \<and> op_ok T n pl S (requeue_normal t w w' n S)"
      using removes_other(1) [OF I t False] op_ok_same [OF I] by (simp add: to_prio_queue_def requeue_normal_def)
  qed
qed

lemma from_prio_ok:
  assumes I: "sched_inv T S pl" and n: "n \<in> sc_live S" "settled pl n" "dn_owner (sc_nodes S n) = t"
  shows "op_ok T n pl S (snd (from_prio_queue t w n S))" "op_ok T n pl S (requeue_prio E t w w' n S)"
proof -
  have t: "t \<in> T" using owner_in [OF I n(1)] n(3) by simp
  show "op_ok T n pl S (snd (from_prio_queue t w n S))" "op_ok T n pl S (requeue_prio E t w w' n S)"
  proof (atomize (full), cases "node_state n S = queue_number True w")
    case True
    then have p: "pl n = Queued t True w" using tag_place(1) [OF I n(1,2)] n(3) by simp
    have "op_ok T n pl S (snd (from_prio_queue t w n S))"
      using prio_remove_inv [OF I t n(1) p, of STATE_PRIO_CHANGE] held_push(1) [OF _ _ n(1,3), of T _ pl STATE_PRIO_CHANGE] p
      by (auto simp: from_prio_queue_def)
    moreover have "op_ok T n pl S (requeue_prio E t w w' n S)"
      using prio_remove_inv [OF I t n(1) p, of STATE_STATIC_CHANGE] held_push(2) [OF _ _ n(1,3), of T _ pl STATE_STATIC_CHANGE] node_nan [OF I _ n(1)] p
      by (auto simp: requeue_prio_def)
    ultimately show "op_ok T n pl S (snd (from_prio_queue t w n S)) \<and> op_ok T n pl S (requeue_prio E t w w' n S)" by blast
  next
    case False
    show "op_ok T n pl S (snd (from_prio_queue t w n S)) \<and> op_ok T n pl S (requeue_prio E t w w' n S)"
      using removes_other(2) [OF I t False] op_ok_same [OF I] by (simp add: from_prio_queue_def requeue_prio_def)
  qed
qed

lemma prio_change_ok:
  assumes I: "sched_inv T S pl" and n: "n \<in> sc_live S" "settled pl n" "dn_owner (sc_nodes S n) = t" and nan: "\<not> float_is_nan prio"
  shows "op_ok T n pl S (prio_change E t w n prio S)"
proof -
  let ?S = "snd (set_prio_if E n prio S)"
  note s = set_prio_if_ok [OF I nan, where E = E and n = n]
  have t: "t \<in> T" using owner_in [OF I n(1)] n(3) by simp
  have "op_ok T n pl ?S (prio_move_node t w n prio ?S)"
  proof (cases "node_state n ?S = queue_number True w")
    case True
    then have p: "pl n = Queued t True w" using tag_place(1) [OF s(1) _ n(2)] n s(4,5) by simp
    have l: "n \<in> sc_live ?S" using n(1) s(4) by simp
    show ?thesis by (rule op_ok_same [OF prio_move_inv(1) [OF s(1) t l p nan] live_same_frame [OF prio_move_inv(2) [OF s(1) t l p nan]]])
  next
    case False
    then show ?thesis using removes_other(3) [OF s(1) t False] op_ok_same [OF s(1)] by simp
  qed
  then have "op_ok T n pl S (prio_move_node t w n prio ?S)" by (rule op_ok_pre [OF s(2)])
  moreover have "op_ok T n pl S ?S" by (rule op_ok_same [OF s(1,2)])
  ultimately show ?thesis by (simp add: prio_change_def case_prod_beta)
qed

subsection \<open>Priorities\<close>

lemma prio_then_normal_ok:
  assumes I: "sched_inv T S pl" and n: "n \<in> sc_live S" "settled pl n" "dn_owner (sc_nodes S n) = t" and nan: "\<not> float_is_nan prio"
  shows "op_ok T n pl S (snd (set_prio_if E n prio S))" "op_ok T n pl S (snd (to_prio_queue E t w n (snd (set_prio_if E n prio S))))"
proof -
  note s = set_prio_if_ok [OF I nan, where E = E and n = n]
  show "op_ok T n pl S (snd (set_prio_if E n prio S))" by (rule op_ok_same [OF s(1,2)])
  show "op_ok T n pl S (snd (to_prio_queue E t w n (snd (set_prio_if E n prio S))))"
    by (rule op_ok_pre [OF s(2) from_normal_ok(1) [OF s(1)]]) (use n s(4,5) in simp_all)
qed

lemma do_set_node_priority_ok:
  assumes I: "sched_inv T S pl" and n: "n \<in> sc_live S" "settled pl n" "dn_owner (sc_nodes S n) = t" and nan: "\<not> float_is_nan prio"
    and st: "may_read st n S" and r: "do_set_node_priority E t st n prio force S = Some S'"
  shows "op_ok T n pl S S'"
proof -
  note a = prio_change_ok [OF I n nan] prio_then_normal_ok [OF I n nan]
  have "op_ok T n pl S (upd_node n (set_temporary_priority prio) S)"
    by (rule op_ok_same [OF inv_node [OF I]]) (simp_all add: node_ok_priority(3) [OF sched_invD(7) [OF I] nan])
  moreover have "op_ok T n pl S (add_to_queue E t n (snd (set_prio_if E n prio S)))" if "st = STATE_IDLE"
  proof -
    note s = set_prio_if_ok [OF I nan, where E = E and n = n]
    have "node_state n S = STATE_IDLE" using st that by (auto simp: may_read_def)
    then have p: "unqueued (pl n)" "resting (pl n)" using tag_place(2) [OF I n(1,2)] by auto
    have l: "n \<in> sc_live (snd (set_prio_if E n prio S))" "dn_owner (sc_nodes (snd (set_prio_if E n prio S)) n) = t" using n s(4,5) by simp_all
    from add_to_queue_inv [OF s(1) l(1) p(1) l(2), of E] obtain b w where
      "sched_inv T (add_to_queue E t n (snd (set_prio_if E n prio S))) (pl(n := Queued t b w))"
      "live_same (snd (set_prio_if E n prio S)) (add_to_queue E t n (snd (set_prio_if E n prio S)))" using live_same_frame by blast
    then show ?thesis using live_same_trans [OF s(2)] p(2) unfolding op_ok_def by blast
  qed
  ultimately show ?thesis using r a by (auto simp: do_set_node_priority_def Let_def split: if_splits)
qed

lemma do_set_node_priority_other_ok:
  assumes I: "sched_inv T S pl" and n: "n \<in> sc_live S" "settled pl n" and nan: "\<not> float_is_nan prio"
    and r: "do_set_node_priority_other E st n prio S = Some S'"
  shows "op_ok T n pl S S'"
proof -
  note a = prio_change_ok [OF I n refl nan] prio_then_normal_ok [OF I n refl nan] op_ok_same [OF I live_same_refl]
  show ?thesis using r a activate_if_ok [OF a(3)] by (auto simp: do_set_node_priority_other_def Let_def split: if_splits)
qed

lemma remove_node_priority_ok:
  assumes I: "sched_inv T S pl" and n: "n \<in> sc_live S" "settled pl n" and r: "remove_node_priority SE t st n S = Some S'"
  shows "op_ok T n pl S S'"
proof -
  let ?t = "dn_owner (sc_nodes S n)"
  note s = remove_prio_ok [OF I, where n = n]
  have a: "op_ok T n pl S (remove_prio n S)" by (rule op_ok_same [OF s(1,2)])
  have b: "op_ok T n pl S (snd (from_prio_queue ?t w n (remove_prio n S)))" for w
    by (rule op_ok_pre [OF s(2) from_prio_ok(1) [OF s(1)]]) (use n s(4,5) in simp_all)
  show ?thesis using r a b activate_if_ok [OF b] op_ok_same [OF I live_same_refl]
    by (auto simp: remove_node_priority_def do_remove_node_priority_def do_remove_node_priority_other_def Let_def split: if_splits)
qed

subsection \<open>Static nodes and owners\<close>

lemma make_static_ok:
  assumes I: "sched_inv T S pl" and t: "t \<in> T"
  shows "sched_inv T (make_node_static n t S) pl" "live_same S (make_node_static n t S)" "node_state m (make_node_static n t S) = node_state m S"
    "sc_live (make_node_static n t S) = sc_live S" "dn_owner (sc_nodes (make_node_static n t S) n) = dn_owner (sc_nodes S n)"
proof -
  let ?S1 = "if dn_static_node (sc_nodes S n) \<noteq> 0 then upd_thread (dn_static_node (sc_nodes S n)) (\<lambda>th. th\<lparr>th_static_nodes := th_static_nodes th - 1\<rparr>) S else S"
  let ?S2 = "upd_thread t (\<lambda>th. th\<lparr>th_static_nodes := th_static_nodes th + 1\<rparr>) ?S1"
  have "sched_inv T ?S1 pl" using I inv_thread by simp
  then have I2: "sched_inv T ?S2 pl" by (intro inv_thread) simp_all
  have e: "make_node_static n t S = upd_node n (\<lambda>nd. nd\<lparr>dn_static_node := t\<rparr>) ?S2" by (simp add: make_node_static_def Let_def)
  show "sched_inv T (make_node_static n t S) pl" unfolding e
    by (rule inv_node [OF I2]) (use sched_invD(7) [OF I2, of n] t in \<open>auto simp: node_ok_def split: place.splits\<close>)
  show "live_same S (make_node_static n t S)" by (auto simp: e live_same_def locals_same_def)
  show "node_state m (make_node_static n t S) = node_state m S" "sc_live (make_node_static n t S) = sc_live S"
    "dn_owner (sc_nodes (make_node_static n t S) n) = dn_owner (sc_nodes S n)" by (simp_all add: e)
qed

lemma make_moving_ok:
  assumes I: "sched_inv T S pl"
  shows "sched_inv T (make_node_moving n S) pl" "live_same S (make_node_moving n S)" "node_state m (make_node_moving n S) = node_state m S"
    "sc_live (make_node_moving n S) = sc_live S" "dn_owner (sc_nodes (make_node_moving n S) n) = dn_owner (sc_nodes S n)"
proof -
  let ?S1 = "if dn_static_node (sc_nodes S n) \<noteq> 0 then upd_thread (dn_static_node (sc_nodes S n)) (\<lambda>th. th\<lparr>th_static_nodes := th_static_nodes th - 1\<rparr>) S else S"
  have I1: "sched_inv T ?S1 pl" using I inv_thread by simp
  have e: "make_node_moving n S = upd_node n (\<lambda>nd. nd\<lparr>dn_static_node := 0\<rparr>) ?S1" by (simp add: make_node_moving_def Let_def)
  show "sched_inv T (make_node_moving n S) pl" unfolding e
    by (rule inv_node [OF I1]) (use sched_invD(7) [OF I1, of n] in \<open>auto simp: node_ok_def split: place.splits\<close>)
  show "live_same S (make_node_moving n S)" by (auto simp: e live_same_def locals_same_def)
  show "node_state m (make_node_moving n S) = node_state m S" "sc_live (make_node_moving n S) = sc_live S"
    "dn_owner (sc_nodes (make_node_moving n S) n) = dn_owner (sc_nodes S n)" by (simp_all add: e)
qed

text \<open>The node is in no queue of another thread.\<close>

definition own_queue :: "ptr_val \<Rightarrow> ptr_val \<Rightarrow> sched \<Rightarrow> bool" where
  "own_queue t n S \<longleftrightarrow> (\<forall>b w. node_state n S = queue_number b w \<longrightarrow> dn_owner (sc_nodes S n) = t)"

lemma foreign_requeue:
  assumes I: "sched_inv T S pl" and t: "t \<in> T" and own: "own_queue t n S" and d: "dn_owner (sc_nodes S n) \<noteq> t"
  shows "requeue_normal t w w' n S = S" "requeue_prio E t w w' n S = S"
proof -
  have "node_state n S \<noteq> queue_number b w" for b using own d by (auto simp: own_queue_def)
  then show "requeue_normal t w w' n S = S" "requeue_prio E t w w' n S = S"
    using removes_other(1,2) [OF I t] by (simp_all add: requeue_normal_def requeue_prio_def)
qed

lemma set_node_static_ok:
  assumes I: "sched_inv T S pl" and t: "t \<in> T" and n: "n \<in> sc_live S" "settled pl n" "own_queue t n S"
  shows "op_ok T n pl S (set_node_static SE t st n S)" "op_ok T n pl S (set_node_moving SE t st n S)"
proof -
  have q: "op_ok T n pl S1 (requeue_normal t w w' n S1)" "op_ok T n pl S1 (requeue_prio (se_db SE) t w w' n S1)"
    if h: "sched_inv T S1 pl" "n \<in> sc_live S1" "own_queue t n S1" for S1 w w'
  proof -
    show "op_ok T n pl S1 (requeue_normal t w w' n S1)" "op_ok T n pl S1 (requeue_prio (se_db SE) t w w' n S1)"
      using from_normal_ok(2) [OF h(1,2) n(2)] from_prio_ok(2) [OF h(1,2) n(2)] foreign_requeue [OF h(1) t h(3)] op_ok_same [OF h(1) live_same_refl]
      by (cases "dn_owner (sc_nodes S1 n) = t"; simp)+
  qed
  note s = make_static_ok [OF I t, where n = n] and m = make_moving_ok [OF I, where n = n]
  have 1: "op_ok T n pl S (requeue_normal t w w' n (make_node_static n t S))" "op_ok T n pl S (requeue_prio (se_db SE) t w w' n (make_node_static n t S))"
      "op_ok T n pl S (make_node_static n t S)" for w w'
    using op_ok_pre [OF s(2) q(1) [OF s(1)]] op_ok_pre [OF s(2) q(2) [OF s(1)]] op_ok_same [OF s(1,2)] n s(3-5) by (simp_all add: own_queue_def)
  have 2: "op_ok T n pl S (requeue_normal t w w' n (make_node_moving n S))" "op_ok T n pl S (requeue_prio (se_db SE) t w w' n (make_node_moving n S))"
      "op_ok T n pl S (make_node_moving n S)" for w w'
    using op_ok_pre [OF m(2) q(1) [OF m(1)]] op_ok_pre [OF m(2) q(2) [OF m(1)]] op_ok_same [OF m(1,2)] n m(3-5) by (simp_all add: own_queue_def)
  show "op_ok T n pl S (set_node_static SE t st n S)" "op_ok T n pl S (set_node_moving SE t st n S)"
    using 1 2 op_ok_same [OF I live_same_refl] by (auto simp: set_node_static_def set_node_moving_def Let_def)
qed

lemma try_node_ok:
  assumes I: "sched_inv T S pl" and r: "try_node n f S = Some S'"
    and f: "\<And>nd. f (sc_nodes S n) = Some nd \<Longrightarrow> sched_same (sc_nodes S n) nd \<and> dn_unprocessed_facts nd = dn_unprocessed_facts (sc_nodes S n)"
  shows "sched_inv T S' pl" "live_same S S'" "node_state m S' = node_state m S" "sc_live S' = sc_live S"
    "sched_same (sc_nodes S n) (sc_nodes S' n)" "sc_threads S' = sc_threads S"
proof -
  obtain nd where nd: "f (sc_nodes S n) = Some nd" "S' = upd_node n (\<lambda>_. nd) S" using r by (auto simp: try_node_def)
  note same = f [OF nd(1)]
  show "sched_inv T S' pl" unfolding nd(2)
    by (rule inv_node [OF I]) (rule node_ok_same [OF sched_invD(7) [OF I]], use same in auto)
  show "live_same S S'" "node_state m S' = node_state m S" "sc_live S' = sc_live S" "sched_same (sc_nodes S n) (sc_nodes S' n)"
    "sc_threads S' = sc_threads S" using same by (simp_all add: nd(2))
qed

lemma just_moved_ok:
  assumes I: "sched_inv T S pl" and r: "just_moved SE tpl n S = Some S' \<or> just_moved_buffer SE tpl n S = Some S'"
  shows "sched_inv T S' pl" "live_same S S'" "node_state m S' = node_state m S" "sc_live S' = sc_live S"
    "sched_same (sc_nodes S n) (sc_nodes S' n)" "sc_threads S' = sc_threads S"
proof -
  from r consider "S' = S" | pred where "try_node n (add_linear_fact (se_db SE) tpl pred) S = Some S'"
    | pred where "try_node n (inner_add_work_others tpl pred POSITIVE_DERIVATION 0) S = Some S'"
    by (auto simp: just_moved_def just_moved_buffer_def split: option.splits)
  then have "sched_inv T S' pl \<and> live_same S S' \<and> node_state m S' = node_state m S \<and> sc_live S' = sc_live S \<and>
    sched_same (sc_nodes S n) (sc_nodes S' n) \<and> sc_threads S' = sc_threads S"
  proof cases
    case 1
    then show ?thesis using I by simp
  next
    case (2 pred)
    note h = try_node_ok [OF I this add_linear_fact_same [where E = "se_db SE" and tpl = tpl and pred = pred]]
    show ?thesis using h(1,2,4-6) h(3) [of m] by blast
  next
    case (3 pred)
    note h = try_node_ok [OF I this inner_add_work_others_same [where tpl = tpl and pred = pred and dir = POSITIVE_DERIVATION and depth = 0]]
    show ?thesis using h(1,2,4-6) h(3) [of m] by blast
  qed
  then show "sched_inv T S' pl" "live_same S S'" "node_state m S' = node_state m S" "sc_live S' = sc_live S"
    "sched_same (sc_nodes S n) (sc_nodes S' n)" "sc_threads S' = sc_threads S" by blast+
qed

lemma move_node_ok:
  assumes I: "sched_inv T S pl" and n: "n \<in> sc_live S" "unqueued (pl n)" "dn_owner (sc_nodes S n) = new_owner"
    and r: "move_node_to_new_owner SE t tpl n new_owner S = Some S'"
  shows "\<exists>b w. sched_inv T S' (pl(n := Queued new_owner b w)) \<and> live_same S S'"
proof -
  obtain S1 where S1: "just_moved_buffer SE tpl n S = Some S1" "S' = set_comm t new_owner (add_to_queue (se_db SE) new_owner n S1)"
    using r by (auto simp: move_node_to_new_owner_def split: bind_splits)
  note j = just_moved_ok [OF I disjI2 [OF S1(1)]]
  have "n \<in> sc_live S1" "dn_owner (sc_nodes S1 n) = new_owner" using n j(4,5) by (simp_all add: sched_same_def)
  from add_to_queue_inv [OF j(1) this(1) n(2) this(2), of "se_db SE"] obtain b w where
    a: "sched_inv T (add_to_queue (se_db SE) new_owner n S1) (pl(n := Queued new_owner b w))" "live_same S1 (add_to_queue (se_db SE) new_owner n S1)"
    using live_same_frame by blast
  show ?thesis using inv_set_comm [OF a(1)] live_same_trans [OF j(2) live_same_trans [OF a(2) live_same_set_comm]] unfolding S1(2) by blast
qed

lemma set_owner_ok:
  assumes I: "sched_inv T S pl" and u: "t \<in> T" "\<And>t b w. pl n \<noteq> Queued t b w" "\<And>t. pl n \<noteq> Working t"
  shows "sched_inv T (set_owner n t S) pl" "live_same S (set_owner n t S)" "dn_owner (sc_nodes (set_owner n t S) n) = t"
    "sc_live (set_owner n t S) = sc_live S"
proof -
  show "sched_inv T (set_owner n t S) pl" unfolding set_owner_def
    by (rule inv_node [OF I]) (use sched_invD(7) [OF I, of n] u in \<open>auto simp: node_ok_def split: place.splits\<close>)
qed (simp_all add: set_owner_def)

lemma owner_if_ok:
  assumes I: "sched_inv T S pl" and t: "new_owner \<in> T" and n: "n \<in> sc_live S" "resting (pl n)"
    and S1: "sched_inv T S1 (pl(n := Held s))" "sched_frame S S1" and r: "owner_if SE t tpl n new_owner (True, S1) = Some (fin, S')"
  shows "op_ok T n pl S S' \<and> fin"
proof -
  note o = set_owner_ok [OF S1(1) t, of n]
  have m: "move_node_to_new_owner SE t tpl n new_owner (set_owner n new_owner S1) = Some S'" "fin" using r by (auto simp: owner_if_def)
  have l: "n \<in> sc_live (set_owner n new_owner S1)" using n S1(2) o(4) by (simp add: sched_frame_def)
  have "sched_inv T (set_owner n new_owner S1) (pl(n := Held s))" using o(1) by simp
  from move_node_ok [OF this l _ _ m(1)] o(3) obtain b w where
    "sched_inv T S' (pl(n := Queued new_owner b w))" "live_same (set_owner n new_owner S1) S'" by auto
  then have "op_ok T n pl S S'"
    using n(2) live_same_trans [OF live_same_frame [OF S1(2)] live_same_trans [of S1 "set_owner n new_owner S1" S']]
    by (intro op_ok_queued [where n = n and pl = pl and b = b and w = w]) (simp_all add: set_owner_def)
  with m(2) show ?thesis by blast
qed

lemma owner_round_ok:
  assumes I: "sched_inv T S pl" and t: "t \<in> T" "new_owner \<in> T" and n: "n \<in> sc_live S" "settled pl n" "own_queue t n S"
    and st: "may_read st n S" and r: "owner_round SE t tpl st n new_owner S = Some (fin, S')"
  shows "op_ok T n pl S S' \<and> (fin \<or> S' = S \<and> node_state n S \<in> {STATE_STEALING, STATE_WORKING})"
proof -
  have queued: "pl n = Queued t b w" if "node_state n S = queue_number b w" for b w
    using tag_place(1) [OF I n(1,2) that] n(3) that by (auto simp: own_queue_def)
  have act: "node_state n S \<in> {STATE_STEALING, STATE_WORKING, STATE_IDLE, NORMAL_QUEUE_MOVING, NORMAL_QUEUE_STATIC, PRIORITY_MOVING, PRIORITY_STATIC}"
    using sched_invD(6) [OF I n(1)] n(2) by (cases "pl n") (auto elim: queue_number.elims [OF sym])
  have normal: ?thesis if "st = queue_number False w" "owner_if SE t tpl n new_owner (queue_remove t w n STATE_AFFINITY_CHANGE S) = Some (fin, S')" for w
  proof (cases "node_state n S = queue_number False w")
    case True
    from queued [OF True] queue_remove_inv [OF I t(1) n(1), of w STATE_AFFINITY_CHANGE] obtain S1 where
      "queue_remove t w n STATE_AFFINITY_CHANGE S = (True, S1)" "sched_inv T S1 (pl(n := Held STATE_AFFINITY_CHANGE))" "sched_frame S S1" by auto
    with owner_if_ok [OF I t(2) n(1), of S1 STATE_AFFINITY_CHANGE SE t tpl fin S'] queued [OF True] that(2) show ?thesis by simp
  next
    case False
    then have "node_state n S \<in> {STATE_STEALING, STATE_WORKING}" using st that(1) by (auto simp: may_read_def)
    then show ?thesis using removes_other(1) [OF I t(1) False] that(2) op_ok_same [OF I live_same_refl] by (simp add: owner_if_def)
  qed
  have prio: ?thesis if "st = queue_number True w" "owner_if SE t tpl n new_owner (prio_remove t w n STATE_AFFINITY_CHANGE S) = Some (fin, S')" for w
  proof (cases "node_state n S = queue_number True w")
    case True
    from queued [OF True] prio_remove_inv [OF I t(1) n(1), of w STATE_AFFINITY_CHANGE] obtain S1 where
      "prio_remove t w n STATE_AFFINITY_CHANGE S = (True, S1)" "sched_inv T S1 (pl(n := Held STATE_AFFINITY_CHANGE))" "sched_frame S S1" by auto
    with owner_if_ok [OF I t(2) n(1), of S1 STATE_AFFINITY_CHANGE SE t tpl fin S'] queued [OF True] that(2) show ?thesis by simp
  next
    case False
    then have "node_state n S \<in> {STATE_STEALING, STATE_WORKING}" using st that(1) by (auto simp: may_read_def)
    then show ?thesis using removes_other(2) [OF I t(1) False] that(2) op_ok_same [OF I live_same_refl] by (simp add: owner_if_def)
  qed
  have stealing: ?thesis if "st = STATE_STEALING"
  proof -
    have "node_state n S = STATE_STEALING" using st that by (auto simp: may_read_def)
    then obtain u where "pl n = Stolen u" using tag_place(3) [OF I n(1,2)] by blast
    then show ?thesis using set_owner_ok(1,2) [OF I t(2), of n] r that by (auto simp: owner_round_def intro: op_ok_same)
  qed
  have idle: ?thesis if "st = STATE_IDLE"
  proof -
    have "node_state n S = STATE_IDLE" using st that by (auto simp: may_read_def)
    then have "pl n = Idle \<or> pl n = Fresh" using tag_place(2) [OF I n(1,2)] by blast
    then have o: "sched_inv T (set_owner n new_owner S) pl" "live_same S (set_owner n new_owner S)" using set_owner_ok(1,2) [OF I t(2), of n] by auto
    have "fin" "just_moved_buffer SE tpl n (set_owner n new_owner S) = Some S'" using r that by (auto simp: owner_round_def)
    with just_moved_ok(1,2) [OF o(1) disjI2] live_same_trans [OF o(2)] show ?thesis by (auto intro: op_ok_same)
  qed
  have working: ?thesis if "st = STATE_WORKING" using r that op_ok_same [OF I live_same_refl] by (simp add: owner_round_def)
  have "st \<in> {STATE_STEALING, STATE_WORKING, STATE_IDLE, NORMAL_QUEUE_MOVING, NORMAL_QUEUE_STATIC, PRIORITY_MOVING, PRIORITY_STATIC}"
    using act st by (auto simp: may_read_def)
  then show ?thesis
    using stealing working idle normal [of Moving] normal [of Stati] prio [of Moving] prio [of Stati] r
    by (auto simp: owner_round_def)
qed

lemma set_node_owner_ok:
  assumes I: "sched_inv T S pl" and t: "t \<in> T" "new_owner \<in> T" and n: "n \<in> sc_live S" "settled pl n" "own_queue t n S"
    and st: "may_read st n S" and r: "set_node_owner SE t tpl st n new_owner S = Some (fin, S')"
  shows "op_ok T n pl S S' \<and> fin"
proof (cases "n = th_current (sc_threads S t)")
  case True
  then obtain S1 where S1: "S1 = S \<or> just_moved SE tpl n S = Some S1" "S' = make_node_static n new_owner S1" "fin"
    using r by (auto simp: set_node_owner_def split: bind_splits if_splits)
  then have "sched_inv T S1 pl" "live_same S S1" using I just_moved_ok(1,2) [OF I disjI1] by auto
  then show ?thesis using make_static_ok(1,2) [OF _ t(2)] live_same_trans S1(2,3) by (blast intro: op_ok_same)
next
  case False
  let ?S = "make_node_static n new_owner S"
  note s = make_static_ok [OF I t(2), where n = n]
  show ?thesis
  proof (cases "dn_owner (sc_nodes ?S n) = new_owner")
    case True
    with False r have "just_moved_buffer SE tpl n ?S = Some S'" "fin" by (auto simp: set_node_owner_def)
    then show ?thesis using just_moved_ok(1,2) [OF s(1) disjI2] live_same_trans [OF s(2)] by (blast intro: op_ok_same)
  next
    case no: False
    have S: "n \<in> sc_live ?S" "own_queue t n ?S" "may_read st n ?S" using n st s(3-5) by (simp_all add: own_queue_def may_read_def)
    from False no r obtain f1 S1 where 1: "owner_round SE t tpl st n new_owner ?S = Some (f1, S1)"
      "if f1 then fin \<and> S' = S1 else owner_round SE t tpl (node_state n S1) n new_owner S1 = Some (fin, S')"
      by (auto simp: set_node_owner_def Let_def split: bind_splits if_splits)
    note o1 = owner_round_ok [OF s(1) t S(1) n(2) S(2,3) 1(1)]
    show ?thesis
    proof (cases f1)
      case True
      then show ?thesis using o1 1(2) op_ok_pre [OF s(2)] by simp
    next
      case False
      then have e: "S1 = ?S" "node_state n ?S \<in> {STATE_STEALING, STATE_WORKING}" using o1 by simp_all
      have r2: "owner_round SE t tpl (node_state n ?S) n new_owner ?S = Some (fin, S')" using 1(2) False e(1) by simp
      then have "fin" using e(2) by (auto simp: owner_round_def)
      moreover have "may_read (node_state n ?S) n ?S" by (simp add: may_read_def)
      note op_ok_pre [OF s(2) conjunct1 [OF owner_round_ok [OF s(1) t S(1) n(2) S(2) this r2]]]
      ultimately show ?thesis by blast
    qed
  qed
qed

end
