(* ===== verification/Sched_Run.thy ===== *)
theory Sched_Run
  imports Sched_Coord
begin

text \<open>
  Runs of the scheduler: the steps of all threads in any order, each under the lock of the node or queue it works on. In
  every state that is reached, every node has one place, and a node with unprocessed facts is there for some thread to find.
\<close>

subsection \<open>What the threads hold\<close>

text \<open>\<open>F\<close> are the nodes that were created and have not been sent a fact yet.\<close>

definition free_ok :: "ptr_val set \<Rightarrow> ptr_val set \<Rightarrow> (ptr_val \<Rightarrow> place) \<Rightarrow> ptr_val \<Rightarrow> bool" where
  "free_ok T F pl n \<longleftrightarrow> settled pl n \<and> (\<forall>t. pl n = Stolen t \<longrightarrow> t \<in> T) \<and> (pl n = Fresh \<longrightarrow> n \<in> F)"

definition locals_ok :: "ptr_val set \<Rightarrow> ptr_val set \<Rightarrow> sched \<Rightarrow> (ptr_val \<Rightarrow> place) \<Rightarrow> bool" where
  "locals_ok T F S pl \<longleftrightarrow>
     (\<forall>t \<in> T. let th = sc_threads S t
        in in_place S pl (Working t) = {th_current th} - {0, th_thread_node th} \<and>
           in_place S pl (Stolen t) = set (th_buffer th) \<and> distinct (th_buffer th) \<and> th_thread_node th \<notin> sc_live S) \<and>
     (\<forall>n \<in> sc_live S. free_ok T F pl n)"

definition sched_ok :: "ptr_val set \<Rightarrow> ptr_val set \<Rightarrow> sched \<Rightarrow> bool" where
  "sched_ok T F S \<longleftrightarrow> (\<exists>pl. sched_inv T S pl \<and> locals_ok T F S pl)"

lemma locals_okD:
  assumes "locals_ok T F S pl"
  shows "t \<in> T \<Longrightarrow> in_place S pl (Working t) = {th_current (sc_threads S t)} - {0, th_thread_node (sc_threads S t)}"
    "t \<in> T \<Longrightarrow> in_place S pl (Stolen t) = set (th_buffer (sc_threads S t))" "t \<in> T \<Longrightarrow> distinct (th_buffer (sc_threads S t))"
    "t \<in> T \<Longrightarrow> th_thread_node (sc_threads S t) \<notin> sc_live S" "n \<in> sc_live S \<Longrightarrow> free_ok T F pl n"
  using assms unfolding locals_ok_def Let_def by blast+

text \<open>The places of the nodes that no thread holds may change.\<close>

lemma locals_move:
  assumes L: "locals_ok T F S pl" and s: "live_same S S'" and p: "p = pl n \<or> resting (pl n) \<and> (\<exists>t b w. p = Queued t b w)"
  shows "locals_ok T F S' (pl(n := p))"
proof -
  have e: "in_place S' (pl(n := p)) q = in_place S pl q" if "\<not> resting q" for q
    using s p that by (auto simp: in_place_def live_same_def)
  have th: "locals_same (sc_threads S t) (sc_threads S' t)" "sc_live S' = sc_live S" for t using s by (simp_all add: live_same_def)
  have "free_ok T F (pl(n := p)) m" if "m \<in> sc_live S" for m
    using locals_okD(5) [OF L that] p by (cases "m = n") (auto simp: free_ok_def)
  then show ?thesis
    using locals_okD(1-4) [OF L] th unfolding locals_ok_def locals_same_def Let_def by (auto simp: e)
qed

lemma op_ok_run:
  assumes "op_ok T n pl S S'" "locals_ok T F S pl"
  shows "sched_ok T F S'"
  using assms locals_move [OF assms(2)] unfolding op_ok_def sched_ok_def by blast

lemma same_run: "sched_inv T S' pl \<Longrightarrow> locals_ok T F S pl \<Longrightarrow> live_same S S' \<Longrightarrow> sched_ok T F S'"
  using op_ok_run [OF op_ok_same] by blast

subsection \<open>Stealing\<close>

lemma inv_relabel:
  assumes I: "sched_inv T S (all_at N (Held STATE_STEALING) pl)" and N: "N \<subseteq> sc_live S"
  shows "sched_inv T S (all_at N (Stolen t) pl)"
proof -
  have e: "in_place S (all_at N (Stolen t) pl) (Queued u b w) = in_place S (all_at N (Held STATE_STEALING) pl) (Queued u b w)" for u b w
    by (auto simp: in_place_def)
  show ?thesis using I unfolding sched_inv_def e by (auto simp: node_ok_def split: if_splits)
qed

lemma taken_flag:
  assumes "taken T t pl ns S1 S2" "live_same S S1" "sc_nodes S1 = sc_nodes S"
  shows "set ns \<subseteq> sc_live S" "distinct ns" "\<And>n. n \<in> set ns \<Longrightarrow> \<exists>b w. pl n = Queued t b w"
    "sched_inv T S2 (all_at (set ns) (Held STATE_STEALING) pl)" "live_same S S2"
  using assms live_same_trans [OF assms(2) live_same_frame [of S1 S2]] by (auto simp: taken_def live_same_def)

lemma steal_nodes_taken:
  assumes I: "sched_inv T S pl" and t: "t \<in> T"
  shows "\<exists>ns S'. steal_nodes t mx S = Some (ns, S') \<and> set ns \<subseteq> sc_live S \<and> distinct ns \<and> (\<forall>n \<in> set ns. \<exists>b w. pl n = Queued t b w) \<and>
    sched_inv T S' (all_at (set ns) (Held STATE_STEALING) pl) \<and> live_same S S'"
proof -
  let ?S = "upd_thread t (\<lambda>th. th\<lparr>th_steal_flag := \<not> th_steal_flag th\<rparr>) S"
  have S: "sched_inv T ?S pl" "live_same S ?S" "sc_nodes ?S = sc_nodes S"
    using inv_thread [OF I] by (simp_all add: live_same_thread locals_same_def)
  note a = pop_half_inv [OF S(1) t, of Moving mx] and b = prio_pop_half_inv [OF S(1) t, of Moving mx] and c = taken_none [OF S(1), of t]
  have "\<exists>ns S'. steal_nodes t mx S = Some (ns, S') \<and> taken T t pl ns ?S S'"
    using a [OF surjective_pairing] b c unfolding steal_nodes_def Let_def
    by (cases "queue_pop_half t Moving mx STATE_STEALING ?S") auto
  then obtain ns S' where h: "steal_nodes t mx S = Some (ns, S')" "taken T t pl ns ?S S'" by blast
  from h(1) taken_flag [OF h(2) S(2,3)] show ?thesis by (intro exI [of _ ns] exI [of _ S']) simp
qed

lemma steal_begin_ok:
  assumes I: "sched_inv T S pl" and L: "locals_ok T F S pl" and t: "t \<in> T" "target \<in> T" and e: "th_buffer (sc_threads S t) = []"
    and r: "steal_begin t target S = Some S'"
  shows "sched_ok T F S'"
proof -
  from steal_nodes_taken [OF I t(2), of NODE_BUFFER_SIZE] obtain ns S1 where
    s: "steal_nodes target NODE_BUFFER_SIZE S = Some (ns, S1)" and ns: "set ns \<subseteq> sc_live S" "distinct ns" "\<And>n. n \<in> set ns \<Longrightarrow> \<exists>b w. pl n = Queued target b w"
    and I1: "sched_inv T S1 (all_at (set ns) (Held STATE_STEALING) pl)" and ls: "live_same S S1" by blast
  have S': "S' = upd_thread t (\<lambda>th. th\<lparr>th_target := target, th_buffer := ns\<rparr>) S1" using r s by (simp add: steal_begin_def)
  let ?pl = "all_at (set ns) (Stolen t) pl"
  have live: "sc_live S1 = sc_live S" and th: "locals_same (sc_threads S u) (sc_threads S1 u)" for u using ls by (simp_all add: live_same_def)
  have "sched_inv T S1 ?pl" by (rule inv_relabel [OF I1]) (simp add: live ns)
  then have "sched_inv T S' ?pl" unfolding S' by (rule inv_thread) simp_all
  moreover have "locals_ok T F S' ?pl"
  proof -
    have q: "pl n \<noteq> Working u" "pl n \<noteq> Stolen u" if "n \<in> set ns" for n u using ns(3) [OF that] by auto
    have w: "in_place S' ?pl (Working u) = in_place S pl (Working u)" for u using q by (auto simp: in_place_def S' live)
    have st: "in_place S' ?pl (Stolen u) = (if u = t then set ns \<union> in_place S pl (Stolen t) else in_place S pl (Stolen u))" for u
      using ns(1) q by (auto simp: in_place_def S' live)
    have "free_ok T F ?pl m" if "m \<in> sc_live S" for m using locals_okD(5) [OF L that] t(1) by (simp add: free_ok_def)
    then show ?thesis
      using locals_okD(1-4) [OF L] th e ns(2) unfolding locals_ok_def w st by (auto simp: S' live locals_same_def Let_def)
  qed
  ultimately show ?thesis unfolding sched_ok_def by blast
qed

lemma steal_one_ok:
  assumes I: "sched_inv T S pl" and L: "locals_ok T F S pl" and t: "t \<in> T" and r: "steal_one SE t tpl S = Some S'"
  shows "sched_ok T F S'"
proof (cases "th_buffer (sc_threads S t)")
  case Nil
  then show ?thesis using I L r by (auto simp: steal_one_def sched_ok_def)
next
  case (Cons n ns)
  let ?S = "upd_thread t (\<lambda>th. th\<lparr>th_buffer := ns\<rparr>) S"
  have n: "n \<in> sc_live S" "pl n = Stolen t" and d: "n \<notin> set ns" using locals_okD(2,3) [OF L t] Cons by (auto simp: in_place_def)
  have I1: "sched_inv T ?S pl" by (rule inv_thread [OF I]) simp_all
  have state: "node_state n ?S = STATE_STEALING" using sched_invD(6) [OF I n(1)] n(2) by simp
  obtain u b w where q: "sched_inv T S' (pl(n := Queued u b w))" "live_same ?S S'"
  proof (cases "is_static (sc_nodes S n) \<and> dn_owner (sc_nodes S n) \<noteq> th_target (sc_threads S t)")
    case True
    then have "move_node_to_new_owner SE t tpl n (dn_owner (sc_nodes S n)) ?S = Some S'"
      using r Cons state by (simp add: steal_one_def Let_def)
    from move_node_ok [OF I1 _ _ _ this] n that show thesis by auto
  next
    case False
    let ?S2 = "if is_static (sc_nodes S n) then make_node_static n t ?S else ?S"
    have S': "S' = add_to_queue (se_db SE) t n (set_owner n t ?S2)" using False r Cons state by (auto simp: steal_one_def Let_def)
    have 2: "sched_inv T ?S2 pl" "live_same ?S ?S2" "sc_live ?S2 = sc_live S" using I1 make_static_ok(1,2,4) [OF I1 t, of n] by simp_all
    have "\<And>t b w. pl n \<noteq> Queued t b w" "\<And>t. pl n \<noteq> Working t" using n(2) by simp_all
    note o = set_owner_ok [OF 2(1) t this]
    have l: "n \<in> sc_live (set_owner n t ?S2)" "unqueued (pl n)" using n 2(3) o(4) by simp_all
    from add_to_queue_inv [OF o(1) l o(3), of "se_db SE"] obtain b w where
      "sched_inv T S' (pl(n := Queued t b w))" "live_same (set_owner n t ?S2) S'" using live_same_frame S' by blast
    then show thesis using that live_same_trans [OF 2(2) live_same_trans [OF o(2)]] by blast
  qed
  have live: "sc_live S' = sc_live S" and th: "locals_same (sc_threads ?S v) (sc_threads S' v)" for v using q(2) by (simp_all add: live_same_def)
  have wk: "in_place S' (pl(n := Queued u b w)) (Working v) = in_place S pl (Working v)"
    and st: "in_place S' (pl(n := Queued u b w)) (Stolen v) = in_place S pl (Stolen v) - {n}" for v
    using n(2) by (auto simp: in_place_def live)
  have nv: "n \<notin> in_place S pl (Stolen v)" if "v \<noteq> t" for v using n(2) that by (simp add: in_place_def)
  have ns: "in_place S pl (Stolen v) - {n} = set (th_buffer (sc_threads ?S v))" if "v \<in> T" for v
    using locals_okD(2) [OF L that] nv [of v] Cons d by (cases "v = t") auto
  have "free_ok T F (pl(n := Queued u b w)) m" if "m \<in> sc_live S" for m
    using locals_okD(5) [OF L that] by (simp add: free_ok_def)
  then have "locals_ok T F S' (pl(n := Queued u b w))"
    using locals_okD(1,3,4) [OF L] locals_okD(3) [OF L t] th ns Cons unfolding locals_ok_def wk st by (auto simp: live locals_same_def Let_def)
  with q(1) show ?thesis unfolding sched_ok_def by blast
qed

subsection \<open>The current node\<close>

lemma inv_dead:
  assumes "sched_inv T S pl" "n \<notin> sc_live S"
  shows "sched_inv T S (pl(n := p))"
proof -
  have e: "in_place S (pl(n := p)) q = in_place S pl q" for q using assms(2) by (auto simp: in_place_def)
  show ?thesis using assms unfolding sched_inv_def e by auto
qed

lemma current_working:
  assumes L: "locals_ok T F S pl" and t: "t \<in> T" and n: "n = th_current (sc_threads S t)" "n \<noteq> 0" "n \<in> sc_live S"
  shows "pl n = Working t"
proof -
  have "n \<noteq> th_thread_node (sc_threads S t)" using locals_okD(4) [OF L t] n(3) by blast
  then have "n \<in> in_place S pl (Working t)" unfolding locals_okD(1) [OF L t] using n by simp
  then show ?thesis by (simp add: in_place_def)
qed

text \<open>The thread has no current node any more: the node has another place or is gone.\<close>

lemma current_gone:
  assumes I: "sched_inv T S' (pl(n := p))" and L: "locals_ok T F S pl" and t: "t \<in> T" and n: "n = th_current (sc_threads S t)" "resting p \<and> p \<noteq> Fresh" "0 \<notin> sc_live S"
    and live: "sc_live S' = sc_live S \<or> sc_live S' = sc_live S - {n}" and th: "\<And>u. locals_same (sc_threads S u) (sc_threads S' u)"
  shows "sched_ok T F (set_current t 0 S')"
proof -
  let ?S = "set_current t 0 S'" and ?pl = "pl(n := p)"
  have I1: "sched_inv T ?S ?pl" unfolding set_current_def by (rule inv_thread [OF I]) simp_all
  have n0: "pl n = Working t" if h: "n \<in> sc_live S" by (rule current_working [OF L t n(1) _ h]) (use h n(3) in metis)
  have live0: "sc_live ?S = sc_live S \<or> sc_live ?S = sc_live S - {n}" using live by (simp add: set_current_def)
  then have sub: "sc_live ?S \<subseteq> sc_live S" by auto
  have lv: "m \<in> sc_live ?S \<longleftrightarrow> m \<in> sc_live S" if "m \<noteq> n" for m using live0 that by (elim disjE) simp_all
  have pn: "p \<noteq> Working u" "p \<noteq> Stolen u" "p \<noteq> Held s" for u s using n(2) by auto
  have away: "in_place ?S ?pl q = in_place S pl q - {n}" if "p \<noteq> q" for q
  proof (rule set_eqI)
    show "m \<in> in_place ?S ?pl q \<longleftrightarrow> m \<in> in_place S pl q - {n}" for m using lv [of m] that by (cases "m = n") (simp_all add: in_place_def)
  qed
  note wk = away [OF pn(1)] and st = away [OF pn(2)]
  have nst: "n \<notin> in_place S pl (Stolen u)" for u using n0 by (auto simp: in_place_def)
  have nwk: "n \<notin> in_place S pl (Working u)" if "u \<noteq> t" for u using n0 that by (auto simp: in_place_def)
  have W: "in_place S pl (Working u) - {n} = {th_current (sc_threads ?S u)} - {0, th_thread_node (sc_threads ?S u)}" if "u \<in> T" for u
    using locals_okD(1) [OF L that] nwk [of u] th [of u] n(1) by (cases "u = t") (simp_all add: set_current_def locals_same_def)
  have B: "in_place S pl (Stolen u) - {n} = set (th_buffer (sc_threads ?S u))" "distinct (th_buffer (sc_threads ?S u))"
      "th_thread_node (sc_threads ?S u) \<notin> sc_live ?S" if "u \<in> T" for u
    using locals_okD(2-4) [OF L that] nst [of u] th [of u] sub by (auto simp: set_current_def locals_same_def)
  have "free_ok T F ?pl m" if "m \<in> sc_live ?S" for m
    using locals_okD(5) [OF L subsetD [OF sub that]] n(2) by (cases "m = n") (auto simp: free_ok_def)
  then have "locals_ok T F ?S ?pl" using W B unfolding locals_ok_def wk st by (auto simp: Let_def)
  with I1 show ?thesis unfolding sched_ok_def by blast
qed

text \<open>A thread node is in no queue and never changes its owner.\<close>

lemma check_ok:
  assumes I: "sched_inv T S pl" and L: "locals_ok T F S pl" and t: "t \<in> T" and n: "n = th_current (sc_threads S t)" "n \<in> sc_live S \<or> \<not> moved"
    and r: "check_if_current_useless SE t moved idle tpl S = Some (b, S')"
  shows "sched_ok T F S'"
proof -
  let ?nd = "sc_nodes S n"
  have z: "0 \<notin> sc_live S" by (rule sched_invD(4) [OF I])
  have wk: "pl n = Working t" if h: "n \<in> sc_live S" by (rule current_working [OF L t n(1) _ h]) (use h z in metis)
  note gone = current_gone [OF _ L t n(1) _ z]
  consider (moved) "moved" "dn_static_node ?nd \<noteq> 0" | (idle) "\<not> moved" "idle" "\<not> dn_unprocessed_facts ?nd" | (busy) "S' = S"
    using r n(1) by (cases moved; cases "idle \<and> \<not> dn_unprocessed_facts ?nd") (auto simp: check_if_current_useless_def Let_def split: if_splits)
  then show ?thesis
  proof cases
    case moved
    then have live: "n \<in> sc_live S" using n(2) by blast
    let ?s = "dn_static_node ?nd" and ?pl = "pl(n := Held STATE_WORKING)"
    have o: "node_ok T ?nd (Working t)" using sched_invD(7) [OF I live] wk [OF live] by simp
    have s: "?s \<in> T" using o moved(2) by (simp add: node_ok_def)
    have I1: "sched_inv T S ?pl" by (rule inv_place [OF I]) (use wk [OF live] o in \<open>simp_all add: node_ok_def\<close>)
    have "\<And>t b w. ?pl n \<noteq> Queued t b w" "\<And>t. ?pl n \<noteq> Working t" by simp_all
    note so = set_owner_ok [OF I1 s this] and sp = remove_prio_ok [OF set_owner_ok(1) [OF I1 s this], of n]
    let ?S = "remove_prio n (set_owner n ?s S)"
    have own: "dn_owner (sc_nodes ?S n) = ?s" using so(3) sp(5) by simp
    from r moved n(1) own obtain S1 where S1: "move_node_to_new_owner SE t tpl n ?s ?S = Some S1" "S' = set_current t 0 S1"
      unfolding remove_prio_def by (auto simp: check_if_current_useless_def Let_def split: bind_splits)
    have "n \<in> sc_live ?S" using live so(4) sp(4) by simp
    have "unqueued (?pl n)" by simp
    from move_node_ok [OF sp(1) \<open>n \<in> sc_live ?S\<close> this own S1(1)] obtain b w where
      q: "sched_inv T S1 (pl(n := Queued ?s b w))" "live_same ?S S1" unfolding fun_upd_upd by blast
    have "live_same S S1" by (rule live_same_trans [OF so(2) live_same_trans [OF sp(2) q(2)]])
    then show ?thesis using gone [OF q(1)] by (simp add: S1(2) live_same_def)
  next
    case idle
    let ?pl = "if n \<in> sc_live S then pl else pl(n := Fresh)"
    have I0: "sched_inv T S ?pl" using I inv_dead [OF I, of n Fresh] by simp
    have up: "?pl(n := p) = pl(n := p)" for p by simp
    have "sched_inv T (make_inactive n S) (pl(n := Idle))"
      using inv_make_inactive [OF I0, of n] wk idle(3) unfolding up by auto
    then have I2: "sched_inv T (make_current_node_inactive t S) (pl(n := Idle))"
      using inv_node [where n = n and f = remove_temporary_priority] node_ok_priority(2) sched_invD(7) n(1)
      by (auto simp: make_current_node_inactive_def Let_def)
    let ?S = "make_current_node_inactive t S"
    have S': "S' = set_current t 0 (if garbage_collect (se_db SE) (sc_nodes ?S n) then delete_node n ?S else ?S)"
      using r idle n(1) by (auto simp: check_if_current_useless_def Let_def)
    have fr: "sc_live ?S = sc_live S" "sc_threads ?S = sc_threads S" by (simp_all add: make_current_node_inactive_def make_inactive_def Let_def)
    have "sched_inv T (delete_node n ?S) (pl(n := Idle))" using inv_delete [OF I2] by simp
    then show ?thesis using gone [OF I2] gone [of "delete_node n ?S" Idle] fr by (simp add: S' delete_node_def locals_same_def)
  next
    case busy
    then show ?thesis using I L by (auto simp: sched_ok_def)
  qed
qed

lemma current_set:
  assumes I: "sched_inv T S' (pl(n := Held STATE_WORKING))" and f: "sched_frame S S'" and L: "locals_ok T F S pl" and t: "t \<in> T" "th_current (sc_threads S t) = 0"
    and n: "n \<in> sc_live S" "pl n = Queued t b w" "node_ok T (sc_nodes S n) (pl n)" "n \<noteq> 0"
  shows "sched_ok T F (set_current t n S')"
proof -
  let ?S = "set_current t n S'" and ?pl = "pl(n := Working t)"
  have live: "sc_live ?S = sc_live S" and th: "\<And>u. locals_same (sc_threads S u) (sc_threads S' u)"
    using f by (simp_all add: set_current_def sched_frame_def)
  have "sched_inv T S' ((pl(n := Held STATE_WORKING))(n := Working t))"
    by (rule inv_place [OF I]) (use f n in \<open>auto simp: node_ok_def sched_frame_def\<close>)
  then have I1: "sched_inv T ?S ?pl" unfolding set_current_def by (intro inv_thread) simp_all
  have tn: "n \<noteq> th_thread_node (sc_threads S t)" using locals_okD(4) [OF L t(1)] n(1) by blast
  have wk: "in_place ?S ?pl (Working u) = (if u = t then insert n (in_place S pl (Working t)) else in_place S pl (Working u))"
    and st: "in_place ?S ?pl (Stolen u) = in_place S pl (Stolen u)" for u using n(1,2) by (auto simp: in_place_def live)
  have "free_ok T F ?pl m" if "m \<in> sc_live S" for m using locals_okD(5) [OF L that] by (simp add: free_ok_def)
  moreover have "(if u = t then insert n (in_place S pl (Working t)) else in_place S pl (Working u)) =
      {th_current (sc_threads ?S u)} - {0, th_thread_node (sc_threads ?S u)}" if "u \<in> T" for u
    using locals_okD(1) [OF L that] th [of u] tn n(4) t(2) by (cases "u = t") (simp_all add: set_current_def locals_same_def insert_Diff_if)
  moreover have "in_place S pl (Stolen u) = set (th_buffer (sc_threads ?S u))" "distinct (th_buffer (sc_threads ?S u))"
      "th_thread_node (sc_threads ?S u) \<notin> sc_live S" if "u \<in> T" for u
    using locals_okD(2-4) [OF L that] th [of u] by (cases "u = t"; simp add: set_current_def locals_same_def)+
  ultimately have "locals_ok T F ?S ?pl" unfolding locals_ok_def wk st live by (auto simp: Let_def)
  with I1 show ?thesis unfolding sched_ok_def by blast
qed

lemma pick_node_ok:
  assumes I: "sched_inv T S pl" and L: "locals_ok T F S pl" and t: "t \<in> T" "th_current (sc_threads S t) = 0"
  shows "sched_ok T F (pick_node t S)"
proof -
  have s: "STATE_WORKING \<noteq> STATE_IDLE" by simp
  have z: "0 \<notin> sc_live S" by (rule sched_invD(4) [OF I])
  note set = current_set [OF _ _ L t]
  obtain n1 S1 where 1: "prio_pop_best t STATE_WORKING S = (n1, S1)" by fastforce
  obtain n2 S2 where 2: "queue_pop_head t Stati STATE_WORKING S1 = (n2, S2)" by fastforce
  obtain n3 S3 where 3: "queue_pop_head t Moving STATE_WORKING S2 = (n3, S3)" by fastforce
  show ?thesis
  proof (cases "n1 = 0")
    case False
    with pop_best_inv [OF I t(1) s 1] set [of S1 n1] sched_invD(7) [OF I, of n1] show ?thesis by (auto simp: pick_node_def 1)
  next
    case True
    then have S1: "S1 = S" using pop_best_inv [OF I t(1) s 1] z by blast
    show ?thesis
    proof (cases "n2 = 0")
      case False
      with pop_head_inv [OF I t(1) s 2 [unfolded S1]] set [of S2 n2] sched_invD(7) [OF I, of n2] True show ?thesis
        by (auto simp: pick_node_def pop_node_from_queues_def 1 2)
    next
      case n2: True
      then have S2: "S2 = S" using pop_head_inv [OF I t(1) s 2 [unfolded S1]] z by blast
      show ?thesis
      proof (cases "n3 = 0")
        case False
        with pop_head_inv [OF I t(1) s 3 [unfolded S2]] set [of S3 n3] sched_invD(7) [OF I, of n3] True n2 show ?thesis
          by (auto simp: pick_node_def pop_node_from_queues_def 1 2 3)
      next
        case n3: True
        then have "S3 = S" using pop_head_inv [OF I t(1) s 3 [unfolded S2]] z by blast
        then have p: "pick_node t S = (if th_thread_node (sc_threads S t) \<noteq> 0 \<and> dn_unprocessed_facts (sc_nodes S (th_thread_node (sc_threads S t)))
            then set_current t (th_thread_node (sc_threads S t)) S else S)"
          by (simp add: pick_node_def pop_node_from_queues_def 1 2 3 True n2 n3)
        have "sched_ok T F S" using I L by (auto simp: sched_ok_def)
        moreover have "sched_ok T F (set_current t (th_thread_node (sc_threads S t)) S)"
        proof -
          let ?S = "set_current t (th_thread_node (sc_threads S t)) S"
          have "sched_inv T ?S pl" unfolding set_current_def by (rule inv_thread [OF I]) simp_all
          moreover have "in_place ?S pl q = in_place S pl q" "sc_live ?S = sc_live S" for q by (simp_all add: in_place_def set_current_def)
          moreover have "{th_current (sc_threads ?S u)} - {0, th_thread_node (sc_threads ?S u)} = {th_current (sc_threads S u)} - {0, th_thread_node (sc_threads S u)}"
            "th_buffer (sc_threads ?S u) = th_buffer (sc_threads S u)" "th_thread_node (sc_threads ?S u) = th_thread_node (sc_threads S u)" for u
            using t(2) by (auto simp: set_current_def)
          ultimately show ?thesis using L unfolding sched_ok_def locals_ok_def Let_def by (intro exI [of _ pl]) simp
        qed
        ultimately show ?thesis by (simp add: p)
      qed
    qed
  qed
qed

subsection \<open>New nodes\<close>

lemma new_node_inv:
  assumes I: "sched_inv T S pl" and n: "n \<notin> sc_live S" "n \<noteq> 0" "card (sc_live S) + 1 < 2 ^ 30 - 1" and ok: "node_ok T nd Fresh"
  shows "sched_inv T (new_node n nd S) (pl(n := Fresh))"
proof -
  let ?S = "new_node n nd S"
  have S: "sc_threads ?S = sc_threads S" "sc_live ?S = insert n (sc_live S)" "sc_nodes ?S = (sc_nodes S)(n := nd)"
    "sc_links ?S = n_set_queue (sc_links S) n queue_no_queue" by (simp_all add: new_node_def)
  have e: "in_place ?S (pl(n := Fresh)) (Queued t b w) = in_place S pl (Queued t b w)" for t b w
    using n(1) by (auto simp: in_place_def S)
  have "queue_at (sc_links ?S) (sc_threads S t) b w (in_place S pl (Queued t b w))" if "t \<in> T" for t b w
    by (rule queue_at_frame [OF sched_invD(1) [OF I that]]) (use n(1) in \<open>auto simp: S in_place_def n_set_queue_def\<close>)
  moreover have "node_state m ?S = place_tag ((pl(n := Fresh)) m)" "node_ok T (sc_nodes ?S m) ((pl(n := Fresh)) m)" if "m \<in> sc_live ?S" for m
    using sched_invD(6,7) [OF I, of m] that ok by (auto simp: node_state_def S n_set_queue_def)
  ultimately show ?thesis using sched_invD(2-5) [OF I] n unfolding sched_inv_def e S by auto
qed

lemma setup_node_inv:
  assumes I: "sched_inv T S pl" and t: "t \<in> T" and n: "n \<notin> sc_live S" "n \<noteq> 0" "card (sc_live S) + 1 < 2 ^ 30 - 1"
    and nd: "dn_static_node nd = 0" "\<not> float_is_nan (dn_priority nd)" "\<not> float_is_nan (dn_default_priority nd)"
    and r: "setup_node E t tpl pred n (new_node n nd S) = Some S'"
  shows "sched_inv T S' (pl(n := Fresh))" "sc_live S' = insert n (sc_live S)" "sc_threads S' = sc_threads S" "dn_owner (sc_nodes S' n) = t"
proof -
  let ?S = "new_node n (nd\<lparr>dn_owner := t\<rparr>) S"
  have e: "set_owner n t (new_node n nd S) = ?S" by (simp add: set_owner_def upd_node_def new_node_def)
  have I1: "sched_inv T ?S (pl(n := Fresh))" by (rule new_node_inv [OF I n]) (simp add: node_ok_def t nd)
  from r obtain S1 where 1: "try_node n (add_linear_fact E tpl pred) ?S = Some S1" "S' = upd_node n (\<lambda>nd. nd\<lparr>dn_unprocessed_facts := True\<rparr>) S1"
    by (auto simp: setup_node_def e split: bind_splits)
  note h = try_node_ok [OF I1 1(1) add_linear_fact_same [where E = E and tpl = tpl and pred = pred]]
  show "sched_inv T S' (pl(n := Fresh))" unfolding 1(2)
    by (rule inv_node [OF h(1)]) (use sched_invD(7) [OF h(1), of n] in \<open>auto simp: node_ok_def\<close>)
  show "sc_live S' = insert n (sc_live S)" "sc_threads S' = sc_threads S" using h(4,6) by (simp_all add: 1(2) new_node_def)
  show "dn_owner (sc_nodes S' n) = t" using h(5) by (simp add: 1(2) new_node_def sched_same_def)
qed

lemma locals_new:
  assumes L: "locals_ok T F S pl" and S': "sc_live S' = insert n (sc_live S)" "\<And>u. locals_same (sc_threads S u) (sc_threads S' u)"
    and n: "n \<notin> sc_live S" "\<And>u. u \<in> T \<Longrightarrow> n \<noteq> th_thread_node (sc_threads S u)" and p: "p = Fresh \<or> (\<exists>t b w. p = Queued t b w)" "p = Fresh \<longrightarrow> n \<in> F'" "F \<subseteq> F'"
  shows "locals_ok T F' S' (pl(n := p))"
proof -
  have e: "in_place S' (pl(n := p)) q = in_place S pl q" if "\<not> resting q" for q
    using S'(1) p(1) n(1) that by (auto simp: in_place_def)
  have "free_ok T F' (pl(n := p)) m" if "m \<in> sc_live S'" for m
    using locals_okD(5) [OF L, of m] that S'(1) p by (cases "m = n") (auto simp: free_ok_def)
  moreover have "th_thread_node (sc_threads S' u) \<notin> sc_live S'" if "u \<in> T" for u
    using locals_okD(4) [OF L that] S' n(2) [OF that] by (auto simp: locals_same_def)
  ultimately show ?thesis using locals_okD(1-3) [OF L] S'(2) unfolding locals_ok_def Let_def by (simp add: e locals_same_def)
qed

lemma new_nodes_ok:
  assumes I: "sched_inv T S pl" and L: "locals_ok T F S pl" and t: "t \<in> T" and n: "n \<notin> sc_live S" "n \<noteq> 0" "card (sc_live S) + 1 < 2 ^ 30 - 1"
    "\<And>u. u \<in> T \<Longrightarrow> n \<noteq> th_thread_node (sc_threads S u)"
    and nd: "dn_static_node nd = 0" "\<not> float_is_nan (dn_priority nd)" "\<not> float_is_nan (dn_default_priority nd)"
  shows "create_node E t nd tpl pred n S = Some S' \<Longrightarrow> sched_ok T (insert n F) S'" "init_queue_node E t nd tpl pred n S = Some S' \<Longrightarrow> sched_ok T F S'"
proof -
  assume r: "create_node E t nd tpl pred n S = Some S'"
  have nd': "dn_static_node (remove_temporary_priority nd) = 0" "\<not> float_is_nan (dn_priority (remove_temporary_priority nd))"
    "\<not> float_is_nan (dn_default_priority (remove_temporary_priority nd))" using nd by (simp_all add: remove_temporary_priority_def)
  note h = setup_node_inv [OF I t n(1-3) nd' r [unfolded create_node_def]]
  have "locals_ok T (insert n F) S' (pl(n := Fresh))"
    by (rule locals_new [OF L h(2) _ n(1,4)]) (use h(3) in \<open>auto simp: locals_same_def\<close>)
  with h(1) show "sched_ok T (insert n F) S'" unfolding sched_ok_def by blast
next
  assume "init_queue_node E t nd tpl pred n S = Some S'"
  then obtain S1 where 1: "init_node E t nd tpl pred n S = Some S1" "S' = queue_push_tail t Moving n S1" by (auto simp: init_queue_node_def)
  let ?nd = "nd\<lparr>dn_refs := dn_refs nd + 1\<rparr>"
  have e: "upd_node n (\<lambda>nd. nd\<lparr>dn_refs := dn_refs nd + 1\<rparr>) (new_node n nd S) = new_node n ?nd S" by (simp add: upd_node_def new_node_def)
  have nd': "dn_static_node ?nd = 0" "\<not> float_is_nan (dn_priority ?nd)" "\<not> float_is_nan (dn_default_priority ?nd)" using nd by simp_all
  note h = setup_node_inv [OF I t n(1-3) nd' 1(1) [unfolded init_node_def e]]
  have l: "n \<in> sc_live S1" "unqueued ((pl(n := Fresh)) n)" using h(2) by simp_all
  note q = push_tail_inv [OF h(1) l h(4), of Moving]
  have "locals_ok T F S' (pl(n := Queued t False Moving))"
    by (rule locals_new [OF L _ _ n(1,4)]) (use q(2) h(2,3) 1(2) in \<open>auto simp: sched_frame_def locals_same_def\<close>)
  with q(1) show "sched_ok T F S'" unfolding sched_ok_def 1(2) fun_upd_upd by blast
qed

end
