(* ===== verification/Sched_Safety.thy ===== *)
theory Sched_Safety
  imports Sched_Run Node_Run
begin

text \<open>
  The steps of the scheduler and the states they lead to. The threads interleave in any order; what the code does under one
  lock is one step.
\<close>

subsection \<open>Steps\<close>

text \<open>
  What a step is, as far as the theorems below ask something of it that the code does not check: a
  priority is given to a node, \<open>t\<close> changes the queue or the owner of \<open>n\<close>, \<open>n\<close> is collected, the current node \<open>n\<close> is checked and was
  seen to have a new owner, a node is created.
\<close>

datatype step_label = Priority float_val | Requeue ptr_val ptr_val | Reclaim ptr_val | Check ptr_val bool | Create float_val float_val | Other

fun disciplined :: "step_label \<Rightarrow> sched \<Rightarrow> bool" where
  "disciplined (Priority p) S \<longleftrightarrow> \<not> float_is_nan p"
| "disciplined (Requeue t n) S \<longleftrightarrow> own_queue t n S"
| "disciplined (Reclaim n) S \<longleftrightarrow> \<not> active_node n S"
| "disciplined (Check n moved) S \<longleftrightarrow> n \<in> sc_live S \<or> \<not> moved"
| "disciplined (Create p0 p1) S \<longleftrightarrow> \<not> float_is_nan p0 \<and> \<not> float_is_nan p1 \<and> card (sc_live S) + 1 < 2 ^ 30 - 1"
| "disciplined Other S \<longleftrightarrow> True"

text \<open>A coordination instruction of \<open>t\<close> on \<open>n\<close>; \<open>st\<close> is the state of the node that was read without a lock on its queue.\<close>

inductive coordinate :: "sched_env \<Rightarrow> ptr_val set \<Rightarrow> ptr_val \<Rightarrow> ptr_val \<Rightarrow> sched \<Rightarrow> step_label \<Rightarrow> sched \<Rightarrow> bool"
  for SE T t n S where
  priority: "may_read st n S \<Longrightarrow> set_node_priority (se_db SE) t st n prio S = Some S' \<Longrightarrow> coordinate SE T t n S (Priority prio) S'"
| add_priority: "may_read st n S \<Longrightarrow> add_node_priority SE t st n prio S = Some S' \<Longrightarrow>
    coordinate SE T t n S (Priority (se_fadd SE (get_priority (se_db SE) (sc_nodes S n)) prio)) S'"
| schedule: "may_read st n S \<Longrightarrow> schedule_next (se_db SE) t st n S = Some S' \<Longrightarrow> coordinate SE T t n S Other S'"
| default_priority: "coordinate SE T t n S (Priority prio) (set_default_node_priority SE n prio S)"
| remove_priority: "may_read st n S \<Longrightarrow> remove_node_priority SE t st n S = Some S' \<Longrightarrow> coordinate SE T t n S Other S'"
| static: "may_read st n S \<Longrightarrow> coordinate SE T t n S (Requeue t n) (set_node_static SE t st n S)"
| moving: "may_read st n S \<Longrightarrow> coordinate SE T t n S (Requeue t n) (set_node_moving SE t st n S)"
| cpu: "may_read st n S \<Longrightarrow> new_owner \<in> T \<Longrightarrow> set_node_cpu SE t tpl st n new_owner S = Some (fin, S') \<Longrightarrow>
    coordinate SE T t n S (Requeue t n) S'"
| affinity: "may_read st n S \<Longrightarrow> m \<in> sc_live S \<Longrightarrow> set_node_affinity SE t tpl st n m S = Some (fin, S') \<Longrightarrow>
    coordinate SE T t n S (Requeue t n) S'"

text \<open>Changes of the state of a thread.\<close>

inductive thread_change :: "sched_env \<Rightarrow> ptr_val \<Rightarrow> sched \<Rightarrow> sched \<Rightarrow> bool" for SE t S where
  activate: "thread_change SE t S (activate_thread t S)"
| active_if_inactive: "thread_change SE t S (snd (set_active_if_inactive t S))"
| inactive_if_no_work: "thread_change SE t S (snd (set_inactive_if_no_work t S))"
| force_inactive: "thread_change SE t S (set_force_inactive t S)"
| flush: "flush_comm SE t S = Some S' \<Longrightarrow> thread_change SE t S S'"

text \<open>
  The second component are the created nodes that have not been sent a fact. While a thread runs a node, its database changes and
  it may lose its mark; apart from that the mark only comes with facts. A node is created at an address that is not in use. The nodes that
  facts are sent to and that coordination is about are not thread nodes.
\<close>

definition fresh_address :: "ptr_val set \<Rightarrow> ptr_val \<Rightarrow> sched \<Rightarrow> bool" where
  "fresh_address T n S \<longleftrightarrow> n \<notin> sc_live S \<and> n \<noteq> 0 \<and> (\<forall>u \<in> T. n \<noteq> th_thread_node (sc_threads S u))"

inductive sched_step :: "sched_env \<Rightarrow> ptr_val set \<Rightarrow> sched \<times> ptr_val set \<Rightarrow> step_label \<Rightarrow> sched \<times> ptr_val set \<Rightarrow> bool" for SE T where
  send: "t \<in> T \<Longrightarrow> n \<in> sc_live S \<Longrightarrow> new_work (se_db SE) t got_lock n tpl pred dir depth S = Some S' \<Longrightarrow> sched_step SE T (S, F) Other (S', F - {n})"
| send_list: "t \<in> T \<Longrightarrow> n \<in> sc_live S \<Longrightarrow> new_work_list (se_db SE) t got_lock n b S = Some S' \<Longrightarrow> sched_step SE T (S, F) Other (S', F - {n})"
| send_thread: "t \<in> T \<Longrightarrow> u \<in> T \<Longrightarrow> new_thread_work t u tpl pred S = Some S' \<Longrightarrow> sched_step SE T (S, F) Other (S', F)"
| create: "t \<in> T \<Longrightarrow> fresh_address T n S \<Longrightarrow> nd = new_db_node (se_db SE) p0 p1 bm garbage words m \<Longrightarrow>
    create_node (se_db SE) t nd tpl pred n S = Some S' \<Longrightarrow> sched_step SE T (S, F) (Create p0 p1) (S', insert n F)"
| init: "t \<in> T \<Longrightarrow> fresh_address T n S \<Longrightarrow> nd = new_db_node (se_db SE) p0 p1 bm garbage words m \<Longrightarrow>
    init_queue_node (se_db SE) t nd tpl pred n S = Some S' \<Longrightarrow> sched_step SE T (S, F) (Create p0 p1) (S', F)"
| run: "t \<in> T \<Longrightarrow> th_current (sc_threads S t) = n \<Longrightarrow> n \<noteq> 0 \<Longrightarrow> sched_same (sc_nodes S n) nd \<Longrightarrow>
    sched_step SE T (S, F) Other (upd_node n (\<lambda>_. nd) S, F)"
| change: "sched_same (sc_nodes S n) nd \<Longrightarrow> dn_unprocessed_facts nd = dn_unprocessed_facts (sc_nodes S n) \<Longrightarrow>
    sched_step SE T (S, F) Other (upd_node n (\<lambda>_. nd) S, F)"
| collect: "n \<in> sc_live S \<Longrightarrow> garbage_collect (se_db SE) (sc_nodes S n) \<Longrightarrow> sched_step SE T (S, F) (Reclaim n) (delete_node n S, F)"
| steal: "t \<in> T \<Longrightarrow> target \<in> T \<Longrightarrow> t \<noteq> target \<Longrightarrow> th_buffer (sc_threads S t) = [] \<Longrightarrow> steal_begin t target S = Some S' \<Longrightarrow>
    sched_step SE T (S, F) Other (S', F)"
| stolen: "t \<in> T \<Longrightarrow> steal_one SE t tpl S = Some S' \<Longrightarrow> sched_step SE T (S, F) Other (S', F)"
| check: "t \<in> T \<Longrightarrow> n = th_current (sc_threads S t) \<Longrightarrow> n \<noteq> 0 \<Longrightarrow> check_if_current_useless SE t moved idle tpl S = Some (b, S') \<Longrightarrow>
    sched_step SE T (S, F) (Check n moved) (S', F)"
| pick: "t \<in> T \<Longrightarrow> th_current (sc_threads S t) = 0 \<Longrightarrow> sched_step SE T (S, F) Other (pick_node t S, F)"
| coordinate: "t \<in> T \<Longrightarrow> n \<in> sc_live S \<Longrightarrow> coordinate SE T t n S l S' \<Longrightarrow> sched_step SE T (S, F) l (S', F)"
| thread: "t \<in> T \<Longrightarrow> thread_change SE t S S' \<Longrightarrow> sched_step SE T (S, F) Other (S', F)"

definition sched_start :: "ptr_val set \<Rightarrow> sched \<Rightarrow> bool" where
  "sched_start T S \<longleftrightarrow> 0 \<notin> T \<and> sc_live S = {} \<and>
     (\<forall>t \<in> T. \<forall>w. let th = sc_threads S t
        in th_queue th w = new_double_queue (queue_number False w) \<and> pq_queue_number (th_prio th w) = queue_number True w \<and>
           pq_heap (th_prio th w) = [] \<and> th_current th = 0 \<and> th_buffer th = [])"

text \<open>A run, with the states in which steps were made and what they were.\<close>

inductive sched_run :: "sched_env \<Rightarrow> ptr_val set \<Rightarrow> (sched \<times> step_label) list \<Rightarrow> sched \<times> ptr_val set \<Rightarrow> bool" for SE T where
  start: "sched_start T S \<Longrightarrow> sched_run SE T [] (S, {})"
| step: "sched_run SE T tr s \<Longrightarrow> sched_step SE T s l s' \<Longrightarrow> sched_run SE T (tr @ [(fst s, l)]) s'"

subsection \<open>The invariant\<close>

lemma coordinate_ok:
  assumes I: "sched_inv T S pl" and t: "t \<in> T" and n: "n \<in> sc_live S" "settled pl n" and c: "coordinate SE T t n S l S'" and d: "disciplined l S"
  shows "op_ok T n pl S S'"
  using c
proof cases
  case (priority st prio)
  then show ?thesis
    using do_set_node_priority_ok [OF I n, of t prio st "se_db SE" False] do_set_node_priority_other_ok [OF I n, of prio "se_db SE" st]
      op_ok_same [OF I live_same_refl] d by (auto simp: set_node_priority_def split: if_splits)
next
  case (add_priority st prio)
  then show ?thesis
    using do_set_node_priority_ok [OF I n, of t _ st "se_db SE" False] do_set_node_priority_other_ok [OF I n, of _ "se_db SE" st]
      op_ok_same [OF I live_same_refl] d by (auto simp: add_node_priority_def Let_def split: if_splits)
next
  case (schedule st)
  then show ?thesis
    using do_set_node_priority_ok [OF I n, of t "max_priority_value0 (de_desc (se_db SE))" st "se_db SE" True]
      op_ok_same [OF I live_same_refl] by (auto simp: schedule_next_def max_priority_value0_def split: if_splits)
next
  case (default_priority prio)
  have nan: "\<not> float_is_nan prio" using d default_priority(1) by simp
  have "op_ok T n pl S (upd_node n (set_default_priority prio) S)"
    by (rule op_ok_same [OF inv_node [OF I]]) (simp_all add: node_ok_priority(5) [OF sched_invD(7) [OF I] nan])
  then show ?thesis using default_priority(2) op_ok_same [OF I live_same_refl] by (simp add: set_default_node_priority_def)
next
  case (remove_priority st)
  then show ?thesis using remove_node_priority_ok [OF I n] by blast
next
  case (static st)
  then show ?thesis using set_node_static_ok(1) [OF I t n] d by simp
next
  case (moving st)
  then show ?thesis using set_node_static_ok(2) [OF I t n] d by simp
next
  case (cpu st new_owner tpl fin)
  then have own: "own_queue t n S" using d by simp
  show ?thesis
    using cpu set_node_owner_ok [OF I t cpu(3) n own cpu(2), of SE tpl fin S'] op_ok_same [OF I live_same_refl]
    by (auto simp: set_node_cpu_def split: if_splits)
next
  case (affinity st m tpl fin)
  then have own: "own_queue t n S" using d by simp
  show ?thesis
    using affinity set_node_owner_ok [OF I t owner_in [OF I affinity(3)] n own affinity(2), of SE tpl fin S'] op_ok_same [OF I live_same_refl]
    by (auto simp: set_node_affinity_def split: if_splits)
qed

lemma set_tstate_ok: "sched_inv T S pl \<Longrightarrow> sched_inv T (set_tstate t b S) pl" "live_same S (set_tstate t b S)"
  unfolding set_tstate_def by (rule inv_thread, simp_all) (rule live_same_thread, simp add: locals_same_def)

lemma barrier_ok:
  "sched_inv T (barrier_is_active S) pl = sched_inv T S pl" "sched_inv T (barrier_is_inactive S) pl = sched_inv T S pl"
  "live_same S' (barrier_is_active S) = live_same S' S" "live_same S' (barrier_is_inactive S) = live_same S' S"
  by (simp_all add: barrier_is_active_def barrier_is_inactive_def live_same_def Let_def)

lemma activate_all_ok:
  "sched_inv T S pl \<Longrightarrow> sched_inv T (fold (\<lambda>i. activate_thread (f i)) xs S) pl \<and> live_same S (fold (\<lambda>i. activate_thread (f i)) xs S)"
proof (induction xs arbitrary: S)
  case (Cons x xs)
  from Cons.IH [OF activate_thread_ok(1) [OF Cons.prems, of "f x"]] show ?case
    using live_same_trans [OF activate_thread_ok(2)] by auto
qed simp

lemma thread_change_ok:
  assumes I: "sched_inv T S pl" and c: "thread_change SE t S S'"
  shows "sched_inv T S' pl \<and> live_same S S'"
  using c
proof cases
  case (flush)
  then obtain ids where ids: "S' = upd_thread t (\<lambda>th. th\<lparr>th_comm := bitmap_clear (th_comm th) (se_num_threads_next_uint SE)\<rparr>)
      (fold (\<lambda>i. activate_thread (se_scheds SE ! i)) ids S)"
    by (auto simp: flush_comm_def Let_def split: bind_splits)
  have a: "sched_inv T (fold (\<lambda>i. activate_thread (se_scheds SE ! i)) ids S) pl" "live_same S (fold (\<lambda>i. activate_thread (se_scheds SE ! i)) ids S)"
    using activate_all_ok [OF I] by blast+
  have "sched_inv T S' pl" unfolding ids by (rule inv_thread [OF a(1)]) simp_all
  moreover have "live_same S S'" unfolding ids
    by (rule live_same_trans [OF a(2) live_same_thread]) (simp add: locals_same_def)
  ultimately show ?thesis by blast
qed (use I activate_thread_ok set_tstate_ok in \<open>auto simp: set_active_if_inactive_def set_inactive_if_no_work_def set_force_inactive_def Let_def barrier_ok\<close>)

lemma start_ok:
  assumes "sched_start T S"
  shows "sched_ok T {} S"
proof -
  have "queue_at (sc_links S) (sc_threads S t) b w {}" if "t \<in> T" for t b w
    using assms that dq_repr_new
    by (auto simp: sched_start_def Let_def queue_at_def normal_repr_def prio_repr_def pq_inv_def pos_ok_def heap_ordered_def valid_nodes_def
        new_double_queue_def)
  then have "sched_inv T S (\<lambda>_. Idle)" using assms by (auto simp: sched_inv_def sched_start_def in_place_def)
  moreover have "locals_ok T {} S (\<lambda>_. Idle)" using assms by (auto simp: locals_ok_def sched_start_def in_place_def Let_def)
  ultimately show ?thesis unfolding sched_ok_def by blast
qed

lemma sent_ok:
  assumes I: "sched_inv T S pl" and L: "locals_ok T F S pl" and n: "n \<in> sc_live S"
    and r: "new_work E t got_lock n tpl pred dir depth S = Some S' \<or> new_work_list E t got_lock n b S = Some S'"
  shows "sched_ok T (F - {n}) S'"
proof -
  have settled: "\<And>s. pl n \<noteq> Held s" using locals_okD(5) [OF L n] by (simp add: free_ok_def)
  from new_work_ok [OF I n settled r] obtain p where p: "live_same S S'" "sched_inv T S' (pl(n := p))"
    "p = pl n \<and> \<not> resting p \<or> resting (pl n) \<and> (\<exists>t b w. p = Queued t b w)" by blast
  then have "locals_ok T F S' (pl(n := p))" by (intro locals_move [OF L]) blast+
  moreover have "p \<noteq> Fresh" using p(3) by auto
  ultimately have "locals_ok T (F - {n}) S' (pl(n := p))" unfolding locals_ok_def by (auto simp: free_ok_def)
  with p(2) show ?thesis unfolding sched_ok_def by blast
qed

lemma thread_sent_ok:
  assumes I: "sched_inv T S pl" and L: "locals_ok T F S pl" and u: "u \<in> T" and r: "new_thread_work t u tpl pred S = Some S'"
  shows "sched_ok T F S'"
proof -
  let ?n = "th_thread_node (sc_threads S u)"
  obtain nd where S': "S' = set_comm t u (upd_node ?n (\<lambda>_. nd) S)" using r by (auto simp: new_thread_work_def try_node_def split: bind_splits)
  have "sched_inv T (upd_node ?n (\<lambda>_. nd) S) pl" by (rule inv_node [OF I]) (use locals_okD(4) [OF L u] in simp)
  then have "sched_inv T S' pl" unfolding S' by (rule inv_set_comm)
  moreover have "live_same S S'" unfolding S' by (rule live_same_trans [OF live_same_node live_same_set_comm])
  ultimately show ?thesis using same_run [OF _ L] by blast
qed

lemma collect_ok:
  assumes I: "sched_inv T S pl" and L: "locals_ok T F S pl" and n: "n \<in> sc_live S" "\<not> active_node n S"
  shows "sched_ok T F (delete_node n S)"
proof -
  have "settled pl n" using locals_okD(5) [OF L n(1)] by (simp add: free_ok_def)
  then have p: "pl n = Idle \<or> pl n = Fresh" using tag_place(2) [OF I n(1)] n(2) by (simp add: active_node_def)
  then have "sched_inv T (delete_node n S) pl" using inv_delete [OF I] by auto
  moreover have "in_place (delete_node n S) pl q = in_place S pl q" if "\<not> resting q" for q
    using p that by (auto simp: in_place_def delete_node_def)
  then have "locals_ok T F (delete_node n S) pl" using L unfolding locals_ok_def by (auto simp: delete_node_def Let_def)
  ultimately show ?thesis unfolding sched_ok_def by blast
qed

lemma node_change_ok:
  assumes I: "sched_inv T S pl" and L: "locals_ok T F S pl" and nd: "sched_same (sc_nodes S n) nd"
    "dn_unprocessed_facts nd = dn_unprocessed_facts (sc_nodes S n) \<or> t \<in> T \<and> n = th_current (sc_threads S t) \<and> n \<noteq> 0"
  shows "sched_ok T F (upd_node n (\<lambda>_. nd) S)"
proof -
  have "node_ok T nd (pl n)" if "n \<in> sc_live S"
    by (rule node_ok_same [OF sched_invD(7) [OF I that] nd(1)]) (use nd(2) current_working [OF L _ _ _ that] in auto)
  then have "sched_inv T (upd_node n (\<lambda>_. nd) S) pl" by (rule inv_node [OF I])
  then show ?thesis by (rule same_run [OF _ L live_same_node])
qed

lemma step_ok:
  assumes "sched_step SE T s l s'" "sched_ok T (snd s) (fst s)" "disciplined l (fst s)"
  shows "sched_ok T (snd s') (fst s')"
proof -
  from assms(2) obtain pl where I: "sched_inv T (fst s) pl" and L: "locals_ok T (snd s) (fst s) pl" unfolding sched_ok_def by blast
  have settled: "settled pl n" if "n \<in> sc_live (fst s)" for n using locals_okD(5) [OF L that] by (simp add: free_ok_def)
  from assms(1) show ?thesis
  proof cases
    case (send t n S got_lock tpl pred dir depth S' F)
    then show ?thesis using sent_ok [of T S pl F n "se_db SE" t got_lock tpl pred dir depth S'] I L by simp
  next
    case (send_list t n S got_lock b S' F)
    then show ?thesis using sent_ok [of T S pl F n "se_db SE" t got_lock _ _ _ _ S' b] I L by simp
  next
    case (send_thread t u tpl pred S S' F)
    then show ?thesis using thread_sent_ok I L by simp
  next
    case (create t n S nd p0 p1 bm garbage words m tpl pred S' F)
    have nd: "dn_static_node nd = 0" "\<not> float_is_nan (dn_priority nd)" "\<not> float_is_nan (dn_default_priority nd)"
      using create assms(3) by (simp_all add: new_db_node_def)
    show ?thesis using new_nodes_ok(1) [OF _ _ create(4) _ _ _ _ nd create(7)] create(1-3,5) assms(3) I L by (auto simp: fresh_address_def)
  next
    case (init t n S nd p0 p1 bm garbage words m tpl pred S' F)
    have nd: "dn_static_node nd = 0" "\<not> float_is_nan (dn_priority nd)" "\<not> float_is_nan (dn_default_priority nd)"
      using init assms(3) by (simp_all add: new_db_node_def)
    show ?thesis using new_nodes_ok(2) [OF _ _ init(4) _ _ _ _ nd init(7)] init(1-3,5) assms(3) I L by (auto simp: fresh_address_def)
  next
    case (run t S n nd F)
    then show ?thesis using node_change_ok [of T S pl F n nd t] I L by simp
  next
    case (change S n nd F)
    then show ?thesis using node_change_ok [of T S pl F n nd] I L by simp
  next
    case (collect n S F)
    then show ?thesis using collect_ok [of T S pl F n] assms(3) I L by simp
  next
    case (steal t target S S' F)
    then show ?thesis using steal_begin_ok [of T S pl F t target S'] I L by simp
  next
    case (stolen t tpl S S' F)
    then show ?thesis using steal_one_ok [of T S pl F t SE tpl S'] I L by simp
  next
    case (check t n S moved idle tpl b S' F)
    then show ?thesis using check_ok [of T S pl F t n moved SE idle tpl b S'] assms(3) I L by simp
  next
    case (pick t S F)
    then show ?thesis using pick_node_ok [of T S pl F t] I L by simp
  next
    case (coordinate t n S S' F)
    then show ?thesis using op_ok_run [OF coordinate_ok [of T S pl t n SE l S']] settled [of n] assms(3) I L by simp
  next
    case (thread t S S' F)
    then show ?thesis using thread_change_ok [of T S pl SE t S'] same_run [of T S' pl F S] I L by simp
  qed
qed

definition orderly :: "(sched \<times> step_label) list \<Rightarrow> bool" where
  "orderly tr \<longleftrightarrow> (\<forall>(S, l) \<in> set tr. disciplined l S)"

lemma run_ok:
  assumes "sched_run SE T tr s" "orderly tr"
  shows "sched_ok T (snd s) (fst s)"
  using assms by (induction rule: sched_run.induct) (auto simp: orderly_def start_ok intro: step_ok)

subsection \<open>Where nodes are\<close>

text \<open>The fields of a node tell its place.\<close>

definition nodes_with :: "sched \<Rightarrow> 32 word \<Rightarrow> ptr_val set" where
  "nodes_with S st = {n \<in> sc_live S. node_state n S = st}"

definition nodes_of :: "sched \<Rightarrow> ptr_val \<Rightarrow> 32 word \<Rightarrow> ptr_val set" where
  "nodes_of S t st = {n \<in> nodes_with S st. dn_owner (sc_nodes S n) = t}"

lemma in_place_tag:
  assumes I: "sched_inv T S pl" and L: "locals_ok T F S pl"
  shows "in_place S pl (Queued t b w) = nodes_of S t (queue_number b w)" "in_place S pl (Working t) = nodes_of S t STATE_WORKING"
    "(\<Union>t \<in> T. in_place S pl (Stolen t)) = nodes_with S STATE_STEALING"
proof -
  have s: "settled pl n" if "n \<in> sc_live S" for n using locals_okD(5) [OF L that] by (simp add: free_ok_def)
  have o: "dn_owner (sc_nodes S n) = t" if "n \<in> sc_live S" "pl n = Queued t b w \<or> pl n = Working t" for n t b w
    using sched_invD(7) [OF I that(1)] that(2) by (auto simp: node_ok_def)
  note tags = sched_invD(6) [OF I] and place = tag_place [OF I _ s]
  show "in_place S pl (Queued t b w) = nodes_of S t (queue_number b w)"
    using o tags place(1) by (fastforce simp: in_place_def nodes_of_def nodes_with_def)
  show "in_place S pl (Working t) = nodes_of S t STATE_WORKING"
    using o tags place(4) by (fastforce simp: in_place_def nodes_of_def nodes_with_def)
  show "(\<Union>t \<in> T. in_place S pl (Stolen t)) = nodes_with S STATE_STEALING"
    using tags place(3) locals_okD(5) [OF L] by (fastforce simp: in_place_def nodes_with_def free_ok_def)
qed

lemma buffers_disjoint: "in_place S pl (Stolen t) \<inter> in_place S pl (Stolen u) = {}" if "t \<noteq> u"
  using that by (auto simp: in_place_def)

text \<open>
  C6. After every orderly run, each queue of each thread is well formed and holds exactly the nodes of the thread whose state is the
  number of that queue; the thread runs exactly its node in the working state, if there is one; and
  the nodes being stolen are exactly those in the buffers of the thieves, each in one of them and once.
  A run is orderly when its steps kept to what the code relies on without checking it: the instructions that make a node static or moving or change
  its owner are given for nodes that are in no queue of another thread, nodes that are collected from the list of unreferenced nodes are idle, thread nodes get no new owner,
  priorities are not NaN and there are fewer than \<open>2 ^ 30 - 1\<close> nodes.
\<close>

theorem sched_places_exact:
  assumes "sched_run SE T tr (S, F)" "orderly tr"
  shows "(\<forall>t \<in> T. (\<forall>b w. queue_at (sc_links S) (sc_threads S t) b w (nodes_of S t (queue_number b w))) \<and>
       nodes_of S t STATE_WORKING = {th_current (sc_threads S t)} - {0, th_thread_node (sc_threads S t)} \<and>
       distinct (th_buffer (sc_threads S t)) \<and>
       (\<forall>u \<in> T. t \<noteq> u \<longrightarrow> set (th_buffer (sc_threads S t)) \<inter> set (th_buffer (sc_threads S u)) = {})) \<and>
     (\<Union>t \<in> T. set (th_buffer (sc_threads S t))) = nodes_with S STATE_STEALING"
proof -
  from run_ok [OF assms] obtain pl where I: "sched_inv T S pl" and L: "locals_ok T F S pl" by (auto simp: sched_ok_def)
  note e = in_place_tag [OF I L] and b = locals_okD(2) [OF L]
  have d: "set (th_buffer (sc_threads S t)) \<inter> set (th_buffer (sc_threads S u)) = {}" if "t \<in> T" "u \<in> T" "t \<noteq> u" for t u
    using buffers_disjoint [OF that(3), of S pl] b that by simp
  have u: "(\<Union>t \<in> T. set (th_buffer (sc_threads S t))) = nodes_with S STATE_STEALING" using e(3) b by simp
  note q = sched_invD(1) [OF I, unfolded e(1)] and w = locals_okD(1) [OF L, unfolded e(2)]
  show ?thesis by (intro conjI ballI allI impI) (rule q w d u locals_okD(3) [OF L]; assumption)+
qed

text \<open>
  C1. A node with unprocessed facts is never forgotten in an orderly run (as in the property on the places of nodes: coordination that requeues or
  gives away a node is for nodes no other thread has queued, collected nodes are idle, thread nodes get no new owner, priorities are not NaN): unless it is new and
  nobody has sent it a fact, its owner is one of the threads, and the node is
  in one of the queues of its owner, or its owner runs it, or a thief has it in its buffer.
\<close>

theorem sched_no_lost_node:
  assumes "sched_run SE T tr (S, F)" "orderly tr" "n \<in> sc_live S" "dn_unprocessed_facts (sc_nodes S n)" "n \<notin> F"
  shows "dn_owner (sc_nodes S n) \<in> T \<and>
    ((\<exists>b w X. queue_at (sc_links S) (sc_threads S (dn_owner (sc_nodes S n))) b w X \<and> n \<in> X) \<or>
     th_current (sc_threads S (dn_owner (sc_nodes S n))) = n \<or> (\<exists>t \<in> T. n \<in> set (th_buffer (sc_threads S t))))"
proof -
  from run_ok [OF assms(1,2)] obtain pl where I: "sched_inv T S pl" and L: "locals_ok T F S pl" by (auto simp: sched_ok_def)
  note o = owner_in [OF I assms(3)] and ok = sched_invD(7) [OF I assms(3)] and free = locals_okD(5) [OF L assms(3)]
  have at: "n \<in> in_place S pl (pl n)" using assms(3) by (simp add: in_place_def)
  show ?thesis
  proof (cases "pl n")
    case (Queued t b w)
    then have "t = dn_owner (sc_nodes S n)" using ok by (simp add: node_ok_def)
    then show ?thesis using sched_invD(1) [OF I o, of b w] at Queued o by metis
  next
    case (Working t)
    then have "t = dn_owner (sc_nodes S n)" using ok by (simp add: node_ok_def)
    then have "n \<in> {th_current (sc_threads S (dn_owner (sc_nodes S n)))} - {0, th_thread_node (sc_threads S (dn_owner (sc_nodes S n)))}"
      using at Working unfolding locals_okD(1) [OF L o, symmetric] by simp
    then show ?thesis using o by simp
  next
    case (Stolen t)
    then have "t \<in> T" using free by (simp add: free_ok_def)
    then have "n \<in> set (th_buffer (sc_threads S t))" using at Stolen unfolding locals_okD(2) [OF L \<open>t \<in> T\<close>, symmetric] by simp
    then show ?thesis using o \<open>t \<in> T\<close> by blast
  qed (use ok free assms(4,5) in \<open>auto simp: node_ok_def free_ok_def\<close>)
qed

subsection \<open>An example\<close>

text \<open>Two threads; the first one gets a node and runs it.\<close>

definition example_thread :: "nat \<Rightarrow> sched_thread" where
  "example_thread i =
     \<lparr>th_id = i, th_tstate = THREAD_ACTIVE, th_queue = (\<lambda>w. new_double_queue (queue_number False w)),
      th_prio = (\<lambda>w. \<lparr>pq_queue_number = queue_number True w, pq_typ = HEAP_DESC, pq_heap = []\<rparr>),
      th_current = 0, th_thread_node = 0, th_comm = \<lparr>bm_first = 0, bm_rest = []\<rparr>, th_steal_flag = False,
      th_static_nodes = 0, th_target = 0, th_buffer = []\<rparr>"

definition example_node :: db_node where
  "example_node = new_db_node example_env 0 0 \<lparr>bm_first = 0, bm_rest = []\<rparr> [] 1 example_matcher"

definition example_sched :: sched where
  "example_sched =
     \<lparr>sc_links = example_nodes, sc_nodes = (\<lambda>_. example_node), sc_live = {},
      sc_threads = (\<lambda>t. if t = 4096 then example_thread 0 else example_thread 1), sc_active_threads = 2, sc_done = False\<rparr>"

definition example_sched_env :: sched_env where
  "example_sched_env =
     \<lparr>se_db = example_env, se_scheduling_mechanism = True, se_just_moved = None, se_scheds = [4096, 8192],
      se_num_threads_next_uint = 1, se_fadd = (\<lambda>a b. a)\<rparr>"

lemma example_queued:
  "\<exists>S. init_queue_node example_env 4096 example_node 8 indexed_pred 16 example_sched = Some S \<and>
     sched_run example_sched_env {4096, 8192} [(example_sched, Create 0 0)] (S, {}) \<and> 16 \<in> sc_live S \<and> dn_unprocessed_facts (sc_nodes S 16) \<and>
     dn_owner (sc_nodes S 16) = 4096 \<and> th_current (sc_threads S 4096) = 0"
proof -
  have "map_option (\<lambda>S. (16 \<in> sc_live S, dn_unprocessed_facts (sc_nodes S 16), dn_owner (sc_nodes S 16), th_current (sc_threads S 4096)))
      (init_queue_node example_env 4096 example_node 8 indexed_pred 16 example_sched) = Some (True, True, 4096, 0)"
    by code_simp
  then obtain S where S: "init_queue_node example_env 4096 example_node 8 indexed_pred 16 example_sched = Some S"
    "16 \<in> sc_live S" "dn_unprocessed_facts (sc_nodes S 16)" "dn_owner (sc_nodes S 16) = 4096" "th_current (sc_threads S 4096) = 0" by auto
  have "sched_start {4096, 8192} example_sched"
    by (auto simp: sched_start_def example_sched_def example_thread_def Let_def)
  then have 1: "sched_run example_sched_env {4096, 8192} [] (example_sched, {})" by (rule sched_run.start)
  have e: "se_db example_sched_env = example_env" by (simp add: example_sched_env_def)
  have f: "fresh_address {4096, 8192} 16 example_sched" by (simp add: fresh_address_def example_sched_def example_thread_def)
  have "sched_step example_sched_env {4096, 8192} (example_sched, {}) (Create 0 0) (S, {})"
    by (rule sched_step.init [OF _ f example_node_def [folded e] S(1) [folded e]]) simp
  from sched_run.step [OF 1 this] S show ?thesis by auto
qed

lemma example_orderly: "orderly [(example_sched, Create 0 0)]"
  by (simp add: orderly_def example_sched_def float_is_nan_def float_mag_def)

theorem sched_no_lost_node_witness:
  "\<exists>S. init_queue_node example_env 4096 example_node 8 indexed_pred 16 example_sched = Some S \<and>
     (\<exists>b w X. queue_at (sc_links S) (sc_threads S 4096) b w X \<and> 16 \<in> X)"
proof -
  obtain S where S: "init_queue_node example_env 4096 example_node 8 indexed_pred 16 example_sched = Some S"
    "sched_run example_sched_env {4096, 8192} [(example_sched, Create 0 0)] (S, {})" "16 \<in> sc_live S" "dn_unprocessed_facts (sc_nodes S 16)"
    "dn_owner (sc_nodes S 16) = 4096" "th_current (sc_threads S 4096) = 0" using example_queued by blast
  have "map_option (\<lambda>S. (th_buffer (sc_threads S 4096), th_buffer (sc_threads S 8192)))
      (init_queue_node example_env 4096 example_node 8 indexed_pred 16 example_sched) = Some ([], [])" by code_simp
  then have "th_buffer (sc_threads S 4096) = []" "th_buffer (sc_threads S 8192) = []" using S(1) by auto
  with sched_no_lost_node [OF S(2) example_orderly S(3,4)] S(1,5,6) show ?thesis by auto
qed

theorem sched_places_exact_witness:
  "\<exists>S. init_queue_node example_env 4096 example_node 8 indexed_pred 16 example_sched = Some S \<and>
     th_current (sc_threads (pick_node 4096 S) 4096) = 16 \<and> nodes_of (pick_node 4096 S) 4096 STATE_WORKING = {16} \<and>
     queue_at (sc_links (pick_node 4096 S)) (sc_threads (pick_node 4096 S) 4096) False Moving (nodes_of (pick_node 4096 S) 4096 NORMAL_QUEUE_MOVING)"
proof -
  obtain S where S: "init_queue_node example_env 4096 example_node 8 indexed_pred 16 example_sched = Some S"
    "sched_run example_sched_env {4096, 8192} [(example_sched, Create 0 0)] (S, {})" "th_current (sc_threads S 4096) = 0" using example_queued by blast
  have "map_option (\<lambda>S. (th_current (sc_threads (pick_node 4096 S) 4096), th_thread_node (sc_threads (pick_node 4096 S) 4096)))
      (init_queue_node example_env 4096 example_node 8 indexed_pred 16 example_sched) = Some (16, 0)" by code_simp
  then have c: "th_current (sc_threads (pick_node 4096 S) 4096) = 16" "th_thread_node (sc_threads (pick_node 4096 S) 4096) = 0" using S(1) by auto
  have "sched_step example_sched_env {4096, 8192} (S, {}) Other (pick_node 4096 S, {})" by (rule sched_step.pick) (simp_all add: S(3))
  note run = sched_run.step [OF S(2) this, simplified]
  have "orderly [(example_sched, Create 0 0), (S, Other)]" using example_orderly by (simp add: orderly_def)
  from sched_places_exact [OF run this] have
    "\<And>b w. queue_at (sc_links (pick_node 4096 S)) (sc_threads (pick_node 4096 S) 4096) b w (nodes_of (pick_node 4096 S) 4096 (queue_number b w))"
    "nodes_of (pick_node 4096 S) 4096 STATE_WORKING = {16}" using c by auto
  with this(1) [of False Moving] S(1) c(1) show ?thesis by auto
qed

text \<open>
  The conditions are needed. The node is in the queue of the first thread; when the second one makes it static, it takes it out
  of its own queue and puts it into its queue of static nodes, and neither the queue that the node names nor the
  old one agree with the nodes of the first thread.
\<close>

lemma requeue_normal_moves:
  assumes "node_state n S = dq_queue_number (th_queue (sc_threads S t) w)" "w \<noteq> w'"
  shows "node_state n (requeue_normal t w w' n S) = dq_queue_number (th_queue (sc_threads S t) w')"
    "u \<noteq> t \<Longrightarrow> sc_threads (requeue_normal t w w' n S) u = sc_threads S u"
    "sc_nodes (requeue_normal t w w' n S) = sc_nodes S" "sc_live (requeue_normal t w w' n S) = sc_live S"
  using assms by (simp_all add: requeue_normal_def queue_remove_def queue_push_tail_def dq_do_remove_def dq_in_queue_def push_tail_node_def
      node_state_def upd_thread_def Let_def n_set_queue_def n_set_next_def n_set_prev_def)

lemma foreign_static_breaks:
  "\<exists>S S'. init_queue_node example_env 4096 example_node 8 indexed_pred 16 example_sched = Some S \<and>
     sched_run example_sched_env {4096, 8192} [(example_sched, Create 0 0), (S, Requeue 8192 16)] (S', {}) \<and> \<not> own_queue 8192 16 S \<and>
     \<not> queue_at (sc_links S') (sc_threads S' 4096) False Stati (nodes_of S' 4096 NORMAL_QUEUE_STATIC)"
proof -
  obtain S where S: "init_queue_node example_env 4096 example_node 8 indexed_pred 16 example_sched = Some S"
    "sched_run example_sched_env {4096, 8192} [(example_sched, Create 0 0)] (S, {})" "16 \<in> sc_live S" using example_queued by blast
  have "map_option (\<lambda>S. (node_state 16 S, dn_owner (sc_nodes S 16), dn_static_node (sc_nodes S 16), dq_head (th_queue (sc_threads S 4096) Stati),
        th_current (sc_threads S 8192), dq_queue_number (th_queue (sc_threads S 8192) Moving), dq_queue_number (th_queue (sc_threads S 8192) Stati)))
      (init_queue_node example_env 4096 example_node 8 indexed_pred 16 example_sched) = Some (100, 4096, 0, 0, 0, 100, 101)" by code_simp
  then have v: "node_state 16 S = 100" "dn_owner (sc_nodes S 16) = 4096" "dn_static_node (sc_nodes S 16) = 0"
    "dq_head (th_queue (sc_threads S 4096) Stati) = 0" "th_current (sc_threads S 8192) = 0"
    "dq_queue_number (th_queue (sc_threads S 8192) Moving) = 100" "dq_queue_number (th_queue (sc_threads S 8192) Stati) = 101"
    using S(1) by simp_all
  let ?S1 = "make_node_static 16 8192 S" and ?S = "set_node_static example_sched_env 8192 NORMAL_QUEUE_MOVING 16 S"
  have e: "?S = requeue_normal 8192 Moving Stati 16 ?S1"
    using v(3,5) by (simp add: set_node_static_def example_sched_env_def is_static_def)
  have q: "node_state 16 ?S1 = dq_queue_number (th_queue (sc_threads ?S1 8192) Moving)" "sc_live ?S1 = sc_live S"
    "dq_queue_number (th_queue (sc_threads ?S1 8192) Stati) = 101" "sc_threads ?S1 4096 = sc_threads S 4096" "dn_owner (sc_nodes ?S1 16) = 4096"
    using v by (simp_all add: make_node_static_def Let_def)
  note m = requeue_normal_moves [OF q(1), of Stati, folded e]
  have "coordinate example_sched_env {4096, 8192} 8192 16 S (Requeue 8192 16) ?S"
    by (rule coordinate.static) (simp add: may_read_def v(1))
  from sched_run.step [OF S(2) sched_step.coordinate [OF _ S(3) this]]
  have "sched_run example_sched_env {4096, 8192} [(example_sched, Create 0 0), (S, Requeue 8192 16)] (?S, {})" by simp
  moreover have "\<not> own_queue 8192 16 S"
  proof
    assume "own_queue 8192 16 S"
    then have "node_state 16 S = queue_number False Moving \<longrightarrow> dn_owner (sc_nodes S 16) = 8192" unfolding own_queue_def by blast
    with v(1,2) show False by simp
  qed
  moreover have "16 \<in> nodes_of ?S 4096 NORMAL_QUEUE_STATIC" "dq_head (th_queue (sc_threads ?S 4096) Stati) = 0"
    using m q S(3) v(4) by (simp_all add: nodes_of_def nodes_with_def)
  then have "\<not> queue_at (sc_links ?S) (sc_threads ?S 4096) False Stati (nodes_of ?S 4096 NORMAL_QUEUE_STATIC)"
    by (auto simp: queue_at_def normal_repr_def dq_reprD(7))
  ultimately show ?thesis using S(1) by blast
qed

end
