(* ===== verification/Termination.thy ===== *)
theory Termination
  imports Scheduler
begin

text \<open>
  Detection of termination (\<^verbatim>\<open>thread/termination_barrier.hpp\<close> and the states of threads in \<^verbatim>\<open>thread/thread.hpp\<close>). A thread changes a state with
  \<^verbatim>\<open>cmpxchg\<close>, in a second step the counter of the barrier and, when it became zero, in a third step
  \<^verbatim>\<open>done\<close>; other threads act in between.
\<close>

subsection \<open>The steps\<close>

datatype barrier_pc = Ready | Incrementing | Decrementing | Finishing

record term_state =
  ts_tstate :: "ptr_val \<Rightarrow> byte"
  ts_pc :: "ptr_val \<Rightarrow> barrier_pc"
  ts_active :: nat
  ts_done :: bool

definition cas :: "ptr_val \<Rightarrow> byte \<Rightarrow> ptr_val \<Rightarrow> barrier_pc \<Rightarrow> term_state \<Rightarrow> term_state" where
  "cas t b u pc s = s\<lparr>ts_tstate := (ts_tstate s)(t := b), ts_pc := (ts_pc s)(u := pc)\<rparr>"

text \<open>The thread \<open>u\<close> activates \<open>t\<close>; the other operations are of the thread itself.\<close>

definition activate_cas :: "ptr_val \<Rightarrow> ptr_val \<Rightarrow> term_state \<Rightarrow> term_state" where
  "activate_cas u t s =
     (let old_val = ts_tstate s t
      in if old_val = THREAD_INACTIVE then cas t THREAD_NEW_WORK u Incrementing s
         else if old_val = THREAD_ACTIVE then cas t THREAD_NEW_WORK u Ready s
         else s)"

definition active_cas :: "ptr_val \<Rightarrow> term_state \<Rightarrow> term_state" where
  "active_cas t s =
     (let old_val = ts_tstate s t
      in if old_val = THREAD_INACTIVE then cas t THREAD_ACTIVE t Incrementing s
         else if old_val = THREAD_ACTIVE then s
         else cas t THREAD_ACTIVE t Ready s)"

definition inactive_cas :: "ptr_val \<Rightarrow> term_state \<Rightarrow> term_state" where
  "inactive_cas t s =
     (let old_val = ts_tstate s t
      in if old_val = THREAD_INACTIVE then s
         else if old_val = THREAD_ACTIVE then cas t THREAD_INACTIVE t Decrementing s
         else cas t THREAD_ACTIVE t Ready s)"

definition force_cas :: "ptr_val \<Rightarrow> term_state \<Rightarrow> term_state" where
  "force_cas t s =
     (let old_val = ts_tstate s t
      in if old_val = THREAD_INACTIVE then s
         else if old_val = THREAD_ACTIVE then cas t THREAD_INACTIVE t Decrementing s
         else cas t THREAD_INACTIVE t Ready s)"

definition barrier_step :: "ptr_val \<Rightarrow> term_state \<Rightarrow> term_state" where
  "barrier_step u s =
     (case ts_pc s u of
        Ready \<Rightarrow> s
      | Incrementing \<Rightarrow> s\<lparr>ts_active := ts_active s + 1, ts_pc := (ts_pc s)(u := Ready)\<rparr>
      | Decrementing \<Rightarrow>
          let k = size_sub (ts_active s) 1
          in s\<lparr>ts_active := k, ts_pc := (ts_pc s)(u := if k = 0 then Finishing else Ready)\<rparr>
      | Finishing \<Rightarrow> s\<lparr>ts_done := True, ts_pc := (ts_pc s)(u := Ready)\<rparr>)"

text \<open>The operations of \<open>Scheduler\<close> are these steps without anything in between.\<close>

definition term_of :: "sched \<Rightarrow> term_state" where
  "term_of S = \<lparr>ts_tstate = (\<lambda>t. th_tstate (sc_threads S t)), ts_pc = (\<lambda>_. Ready), ts_active = sc_active_threads S, ts_done = sc_done S\<rparr>"

lemmas term_defs = term_of_def barrier_step_def cas_def set_tstate_def upd_thread_def barrier_is_active_def barrier_is_inactive_def Let_def fun_eq_iff

lemma term_of_refines:
  "term_of (activate_thread t S) = barrier_step u (barrier_step u (activate_cas u t (term_of S)))"
  "term_of (snd (set_active_if_inactive t S)) = barrier_step t (barrier_step t (active_cas t (term_of S)))"
  "term_of (snd (set_inactive_if_no_work t S)) = barrier_step t (barrier_step t (inactive_cas t (term_of S)))"
  "term_of (set_force_inactive t S) = barrier_step t (barrier_step t (force_cas t (term_of S)))"
  by (auto simp: activate_thread_def activate_cas_def term_defs)
    (auto simp: set_active_if_inactive_def active_cas_def set_inactive_if_no_work_def inactive_cas_def set_force_inactive_def force_cas_def term_defs)

subsection \<open>Runs\<close>

text \<open>
  A thread that activates others is active (\<^verbatim>\<open>new_work\<close> asserts it); a thread in the second or third step does nothing else.
  \<open>killed\<close> is \<^verbatim>\<open>killed_while_active\<close>; it does not count a thread that was active with new work. The first argument of a
  run is the number of these deactivations that nobody counts.
\<close>

inductive term_step :: "ptr_val set \<Rightarrow> term_state \<Rightarrow> nat \<Rightarrow> term_state \<Rightarrow> bool" for T s where
  activate: "u \<in> T \<Longrightarrow> t \<in> T \<Longrightarrow> u \<noteq> t \<Longrightarrow> ts_pc s u = Ready \<Longrightarrow> ts_tstate s u \<noteq> THREAD_INACTIVE \<Longrightarrow> term_step T s 0 (activate_cas u t s)"
| wake: "t \<in> T \<Longrightarrow> ts_pc s t = Ready \<Longrightarrow> term_step T s 0 (active_cas t s)"
| sleep: "t \<in> T \<Longrightarrow> ts_pc s t = Ready \<Longrightarrow> term_step T s 0 (inactive_cas t s)"
| killed: "t \<in> T \<Longrightarrow> ts_pc s t = Ready \<Longrightarrow> term_step T s (if ts_tstate s t \<in> {THREAD_INACTIVE, THREAD_ACTIVE} then 0 else 1) (force_cas t s)"
| barrier: "u \<in> T \<Longrightarrow> term_step T s 0 (barrier_step u s)"

definition term_start :: "ptr_val set \<Rightarrow> term_state" where
  "term_start T = \<lparr>ts_tstate = (\<lambda>_. THREAD_ACTIVE), ts_pc = (\<lambda>_. Ready), ts_active = card T, ts_done = False\<rparr>"

inductive term_run :: "ptr_val set \<Rightarrow> nat \<Rightarrow> term_state \<Rightarrow> bool" for T where
  start: "term_run T 0 (term_start T)"
| step: "term_run T n s \<Longrightarrow> term_step T s k s' \<Longrightarrow> term_run T (n + k) s'"

definition term_reachable :: "ptr_val set \<Rightarrow> term_state \<Rightarrow> bool" where
  "term_reachable T s \<longleftrightarrow> (\<exists>n. term_run T n s)"

definition actives :: "ptr_val set \<Rightarrow> term_state \<Rightarrow> ptr_val set" where
  "actives T s = {t \<in> T. ts_tstate s t \<noteq> THREAD_INACTIVE}"

definition in_step :: "ptr_val set \<Rightarrow> barrier_pc \<Rightarrow> term_state \<Rightarrow> ptr_val set" where
  "in_step T pc s = {u \<in> T. ts_pc s u = pc}"

definition balanced :: "ptr_val set \<Rightarrow> nat \<Rightarrow> term_state \<Rightarrow> bool" where
  "balanced T n s \<longleftrightarrow> ts_active s + card (in_step T Incrementing s) = card (actives T s) + card (in_step T Decrementing s) + n \<and>
     in_step T Incrementing s \<subseteq> actives T s"

lemma card_split:
  assumes "finite T" "t \<in> T"
  shows "card {x \<in> T. P x} = (if P t then 1 else 0) + card {x \<in> T - {t}. P x}"
proof -
  have "{x \<in> T. P x} = (if P t then insert t {x \<in> T - {t}. P x} else {x \<in> T - {t}. P x})" using assms(2) by auto
  then show ?thesis using assms(1) by simp
qed

lemma cas_counts:
  assumes "finite T" "t \<in> T" "u \<in> T"
  shows "card (actives T (cas t b u pc s)) + (if ts_tstate s t \<noteq> THREAD_INACTIVE then 1 else 0) = card (actives T s) + (if b \<noteq> THREAD_INACTIVE then 1 else 0)"
    "card (in_step T p (cas t b u pc s)) + (if ts_pc s u = p then 1 else 0) = card (in_step T p s) + (if pc = p then 1 else 0)"
    "ts_active (cas t b u pc s) = ts_active s"
proof -
  let ?s = "cas t b u pc s"
  have "{x \<in> T - {t}. ts_tstate ?s x \<noteq> THREAD_INACTIVE} = {x \<in> T - {t}. ts_tstate s x \<noteq> THREAD_INACTIVE}" "ts_tstate ?s t = b"
    "{x \<in> T - {u}. ts_pc ?s x = p} = {x \<in> T - {u}. ts_pc s x = p}" "ts_pc ?s u = pc" by (auto simp: cas_def)
  then show "card (actives T ?s) + (if ts_tstate s t \<noteq> THREAD_INACTIVE then 1 else 0) = card (actives T s) + (if b \<noteq> THREAD_INACTIVE then 1 else 0)"
    "card (in_step T p ?s) + (if ts_pc s u = p then 1 else 0) = card (in_step T p s) + (if pc = p then 1 else 0)"
    unfolding actives_def in_step_def
      card_split [OF assms(1,2), of "\<lambda>x. ts_tstate ?s x \<noteq> THREAD_INACTIVE"] card_split [OF assms(1,2), of "\<lambda>x. ts_tstate s x \<noteq> THREAD_INACTIVE"]
      card_split [OF assms(1,3), of "\<lambda>x. ts_pc ?s x = p"] card_split [OF assms(1,3), of "\<lambda>x. ts_pc s x = p"] by simp_all
  show "ts_active ?s = ts_active s" by (simp add: cas_def)
qed

lemma pc_counts:
  assumes "finite T" "u \<in> T"
  shows "card (in_step T p (s\<lparr>ts_pc := (ts_pc s)(u := pc)\<rparr>)) + (if ts_pc s u = p then 1 else 0) = card (in_step T p s) + (if pc = p then 1 else 0)"
proof -
  have "in_step T p (s\<lparr>ts_pc := (ts_pc s)(u := pc)\<rparr>) = in_step T p (cas u (ts_tstate s u) u pc s)" by (simp add: in_step_def cas_def)
  then show ?thesis using cas_counts(2) [OF assms(1,2,2)] by metis
qed

lemma cas_balanced:
  assumes T: "finite T" "t \<in> T" "u \<in> T" and B: "balanced T n s" and u: "ts_pc s u = Ready"
    and c: "ts_tstate s t = THREAD_INACTIVE \<and> b \<noteq> THREAD_INACTIVE \<and> pc = Incrementing \<and> (u = t \<or> ts_tstate s u \<noteq> THREAD_INACTIVE) \<and> k = 0 \<or>
      ts_tstate s t \<noteq> THREAD_INACTIVE \<and> b \<noteq> THREAD_INACTIVE \<and> pc = Ready \<and> k = 0 \<or>
      ts_tstate s t \<noteq> THREAD_INACTIVE \<and> b = THREAD_INACTIVE \<and> pc = Decrementing \<and> u = t \<and> k = 0 \<or>
      ts_tstate s t \<noteq> THREAD_INACTIVE \<and> b = THREAD_INACTIVE \<and> pc = Ready \<and> u = t \<and> k = 1"
  shows "balanced T (n + k) (cas t b u pc s)"
proof -
  note n = cas_counts(1,3) [OF T, where b = b and pc = pc and s = s] cas_counts(2) [OF T, where p = Incrementing and b = b and pc = pc and s = s]
    cas_counts(2) [OF T, where p = Decrementing and b = b and pc = pc and s = s]
  have "in_step T Incrementing (cas t b u pc s) \<subseteq> actives T (cas t b u pc s)"
    using B c u by (auto simp: balanced_def in_step_def actives_def cas_def split: if_splits)
  moreover have "ts_active (cas t b u pc s) + card (in_step T Incrementing (cas t b u pc s)) =
      card (actives T (cas t b u pc s)) + card (in_step T Decrementing (cas t b u pc s)) + (n + k)"
    using B c u n by (elim disjE) (simp_all add: balanced_def)
  ultimately show ?thesis by (simp add: balanced_def)
qed

lemma balanced_bound:
  assumes "finite T" "balanced T n s"
  shows "card (in_step T Decrementing s) + n \<le> ts_active s"
proof -
  have "finite (actives T s)" using assms(1) by (simp add: actives_def)
  from card_mono [OF this] assms(2) have "card (in_step T Incrementing s) \<le> card (actives T s)" by (simp add: balanced_def)
  with assms(2) show ?thesis by (simp add: balanced_def)
qed

lemma decrementing_bound:
  assumes "finite T" "balanced T n s" "u \<in> T" "ts_pc s u = Decrementing"
  shows "n < ts_active s"
proof -
  have "card (in_step T Decrementing s) > 0" using assms(1,3,4) by (auto simp: in_step_def card_gt_0_iff)
  with balanced_bound [OF assms(1,2)] show ?thesis by simp
qed

text \<open>With a counter of zero, every active thread is about to count one that it has activated.\<close>

lemma balanced_zero:
  assumes "finite T" "balanced T n s" "ts_active s = 0"
  shows "n = 0" "actives T s = in_step T Incrementing s" "in_step T Decrementing s = {}"
proof -
  have fin: "finite (actives T s)" "finite (in_step T Decrementing s)" using assms(1) by (simp_all add: actives_def in_step_def)
  from balanced_bound [OF assms(1,2)] assms(3) have z: "card (in_step T Decrementing s) = 0" "n = 0" by simp_all
  then show "n = 0" "in_step T Decrementing s = {}" using fin(2) by simp_all
  have "card (actives T s) \<le> card (in_step T Incrementing s)" "in_step T Incrementing s \<subseteq> actives T s"
    using assms(2,3) z by (simp_all add: balanced_def)
  then show "actives T s = in_step T Incrementing s" using fin(1) by (metis card_seteq)
qed

lemma barrier_balanced:
  assumes T: "finite T" "u \<in> T" and B: "balanced T n s"
  shows "balanced T n (barrier_step u s)"
proof -
  let ?s = "\<lambda>pc. s\<lparr>ts_pc := (ts_pc s)(u := pc)\<rparr>"
  note n = pc_counts [OF T, where p = Incrementing and s = s] pc_counts [OF T, where p = Decrementing and s = s]
  have act: "actives T (barrier_step u s) = actives T s"
    by (auto simp: barrier_step_def actives_def Let_def split: barrier_pc.splits)
  have sub: "in_step T Incrementing (?s pc) \<subseteq> actives T s" if "pc \<noteq> Incrementing" for pc
    using B that by (auto simp: balanced_def in_step_def)
  have pcs: "in_step T p (barrier_step u s) = in_step T p (?s (ts_pc (barrier_step u s) u))" for p
    by (auto simp: barrier_step_def in_step_def Let_def split: barrier_pc.splits)
  show ?thesis
  proof (cases "ts_pc s u")
    case Ready
    then show ?thesis using B by (simp add: barrier_step_def)
  next
    case Incrementing
    then have "ts_active (barrier_step u s) = ts_active s + 1" "ts_pc (barrier_step u s) u = Ready" by (simp_all add: barrier_step_def)
    then show ?thesis using n [of Ready] sub [of Ready] act pcs Incrementing B by (simp add: balanced_def)
  next
    case Decrementing
    have "ts_active (barrier_step u s) = ts_active s - 1" "0 < ts_active s"
      using decrementing_bound [OF T(1) B T(2) Decrementing] Decrementing by (auto simp: barrier_step_def Let_def)
    moreover have "ts_pc (barrier_step u s) u \<in> {Ready, Finishing}" using Decrementing by (simp add: barrier_step_def Let_def)
    ultimately show ?thesis
      using n [of "ts_pc (barrier_step u s) u"] sub [of "ts_pc (barrier_step u s) u"] act pcs Decrementing B by (auto simp: balanced_def)
  next
    case Finishing
    then have "ts_active (barrier_step u s) = ts_active s" "ts_pc (barrier_step u s) u = Ready" by (simp_all add: barrier_step_def)
    then show ?thesis using n [of Ready] sub [of Ready] act pcs Finishing B by (simp add: balanced_def)
  qed
qed

lemma finishing_zero:
  assumes "finite T" "balanced T n s" "u \<in> T" "ts_pc s u \<noteq> Finishing" "ts_pc (barrier_step u s) u = Finishing"
  shows "ts_active s = 1" "ts_active (barrier_step u s) = 0"
proof -
  have d: "ts_pc s u = Decrementing" using assms(4,5) by (cases "ts_pc s u") (simp_all add: barrier_step_def)
  from decrementing_bound [OF assms(1-3) d] assms(5) d show "ts_active s = 1" "ts_active (barrier_step u s) = 0"
    by (auto simp: barrier_step_def Let_def split: if_splits)
qed

lemma step_balanced:
  assumes T: "finite T" and B: "balanced T n s" and st: "term_step T s k s'"
  shows "balanced T (n + k) s'"
  using st
proof cases
  case (activate u t)
  then show ?thesis using cas_balanced [OF T activate(4,3) B activate(6), of _ _ 0] B by (simp add: activate_cas_def Let_def)
next
  case (wake t)
  then show ?thesis using cas_balanced [OF T wake(3,3) B wake(4), of _ _ 0] B by (simp add: active_cas_def Let_def)
next
  case (sleep t)
  then show ?thesis using cas_balanced [OF T sleep(3,3) B sleep(4), of _ _ 0] B by (simp add: inactive_cas_def Let_def)
next
  case (killed t)
  note c = cas_balanced [OF T killed(3,3) B killed(4), of THREAD_INACTIVE]
  from killed c [of Decrementing 0] c [of Ready 1] B show ?thesis by (auto simp: force_cas_def Let_def)
next
  case (barrier u)
  then show ?thesis using barrier_balanced [OF T _ B] by simp
qed

lemma run_balanced:
  assumes "finite T" "term_run T n s"
  shows "balanced T n s"
  using assms(2)
proof induction
  case start
  show ?case by (simp add: balanced_def term_start_def actives_def in_step_def)
next
  case (step n s k s')
  from step_balanced [OF assms(1) step(3,2)] show ?case .
qed

text \<open>
  C12. In every state that the threads reach, the counter of the barrier is the number of active threads, less the activations and plus the
  deactivations that have not reached it yet, plus the deactivations of killed threads with new work, which never reach it. A decrement never finds it
  at zero, and with such an uncounted deactivation it stays above zero. A thread sets \<^verbatim>\<open>done\<close> only after
  its own decrement gave zero, and in the state after that decrement every thread that is still active is about to count a
  thread that it has activated. (Between the decrement and \<^verbatim>\<open>done\<close> other threads go on.)
\<close>

theorem termination_counter:
  assumes "finite T" "term_run T n s"
  shows "ts_active s + card (in_step T Incrementing s) = card (actives T s) + card (in_step T Decrementing s) + n \<and>
    card (in_step T Decrementing s) + n \<le> ts_active s \<and>
    (\<forall>u \<in> T. (\<not> ts_done s \<and> ts_done (barrier_step u s) \<longrightarrow> ts_pc s u = Finishing) \<and>
       (ts_pc s u \<noteq> Finishing \<and> ts_pc (barrier_step u s) u = Finishing \<longrightarrow>
          ts_active s = 1 \<and> ts_active (barrier_step u s) = 0 \<and> n = 0 \<and>
          actives T (barrier_step u s) = in_step T Incrementing (barrier_step u s) \<and> in_step T Decrementing (barrier_step u s) = {}))"
proof (intro conjI ballI impI)
  note B = run_balanced [OF assms]
  show "ts_active s + card (in_step T Incrementing s) = card (actives T s) + card (in_step T Decrementing s) + n"
    using B by (simp add: balanced_def)
  show "card (in_step T Decrementing s) + n \<le> ts_active s" by (rule balanced_bound [OF assms(1) B])
  fix u assume u: "u \<in> T"
  show "ts_pc s u = Finishing" if "\<not> ts_done s \<and> ts_done (barrier_step u s)"
    using that by (auto simp: barrier_step_def Let_def split: barrier_pc.splits)
  assume f: "ts_pc s u \<noteq> Finishing \<and> ts_pc (barrier_step u s) u = Finishing"
  note zero = finishing_zero [OF assms(1) B u] f
  then show "ts_active s = 1" "ts_active (barrier_step u s) = 0" by simp_all
  with balanced_zero [OF assms(1) barrier_balanced [OF assms(1) u B]]
  show "n = 0" "actives T (barrier_step u s) = in_step T Incrementing (barrier_step u s)" "in_step T Decrementing (barrier_step u s) = {}"
    by simp_all
qed

definition early_trace :: "term_state \<Rightarrow> term_state" where
  "early_trace s =
     (let s = barrier_step 8192 (inactive_cas 8192 s); s = inactive_cas 8192 (activate_cas 4096 8192 s)
      in barrier_step 8192 (barrier_step 8192 (inactive_cas 8192 s)))"

lemmas early_defs = activate_cas_def inactive_cas_def cas_def barrier_step_def term_start_def

lemma term_run_step: "term_run T n s \<Longrightarrow> term_step T s 0 s' \<Longrightarrow> term_run T n s'"
  using term_run.step by fastforce

lemma early_run: "term_run {4096, 8192} 0 (early_trace (term_start {4096, 8192}))"
proof -
  let ?T = "{4096, 8192} :: ptr_val set"
  have s0: "term_run ?T 0 (term_start ?T)" by (rule term_run.start)
  have s1: "term_run ?T 0 (inactive_cas 8192 (term_start ?T))"
    by (rule term_run_step [OF s0 term_step.sleep]) (simp_all add: term_start_def)
  have s2: "term_run ?T 0 (barrier_step 8192 (inactive_cas 8192 (term_start ?T)))"
    by (rule term_run_step [OF s1 term_step.barrier]) simp
  have s3: "term_run ?T 0 (activate_cas 4096 8192 (barrier_step 8192 (inactive_cas 8192 (term_start ?T))))"
    by (rule term_run_step [OF s2 term_step.activate]) (simp_all add: early_defs)
  have s4: "term_run ?T 0 (inactive_cas 8192 (activate_cas 4096 8192 (barrier_step 8192 (inactive_cas 8192 (term_start ?T)))))"
    by (rule term_run_step [OF s3 term_step.sleep]) (simp_all add: early_defs)
  have s5: "term_run ?T 0 (inactive_cas 8192 (inactive_cas 8192 (activate_cas 4096 8192 (barrier_step 8192 (inactive_cas 8192 (term_start ?T))))))"
    by (rule term_run_step [OF s4 term_step.sleep]) (simp_all add: early_defs)
  have s6: "term_run ?T 0 (barrier_step 8192 (inactive_cas 8192 (inactive_cas 8192 (activate_cas 4096 8192
      (barrier_step 8192 (inactive_cas 8192 (term_start ?T)))))))"
    by (rule term_run_step [OF s5 term_step.barrier]) simp
  show ?thesis unfolding early_trace_def Let_def by (rule term_run_step [OF s6 term_step.barrier]) simp
qed

text \<open>
  C19. The second step comes too late: with two threads, the one that was activated can work, become inactive and count itself before the other one has
  counted it, which ends the run while the other thread is active.
\<close>

theorem termination_early:
  "term_reachable {4096, 8192} (early_trace (term_start {4096, 8192})) \<and>
   ts_done (early_trace (term_start {4096, 8192})) \<and> ts_tstate (early_trace (term_start {4096, 8192})) 4096 = THREAD_ACTIVE"
  using early_run
  by (auto simp: term_reachable_def) (simp_all add: early_trace_def early_defs Let_def)

text \<open>A thread that is killed with new work: the counter stays at two although one thread is active.\<close>

definition killed_trace :: "term_state \<Rightarrow> term_state" where
  "killed_trace s = force_cas 8192 (activate_cas 4096 8192 s)"

lemma killed_run: "term_run {4096, 8192} 1 (killed_trace (term_start {4096, 8192}))"
proof -
  let ?T = "{4096, 8192} :: ptr_val set"
  have s1: "term_run ?T 0 (activate_cas 4096 8192 (term_start ?T))"
    by (rule term_run_step [OF term_run.start term_step.activate]) (simp_all add: term_start_def)
  have "term_step ?T (activate_cas 4096 8192 (term_start ?T)) 1 (killed_trace (term_start ?T))"
    using term_step.killed [of 8192 ?T "activate_cas 4096 8192 (term_start ?T)"]
    by (simp add: killed_trace_def early_defs Let_def)
  from term_run.step [OF s1 this] show ?thesis by simp
qed

theorem termination_counter_witness:
  "actives {4096, 8192} (early_trace (term_start {4096, 8192})) = {4096} \<and>
   ts_active (early_trace (term_start {4096, 8192})) + card (in_step {4096, 8192} Incrementing (early_trace (term_start {4096, 8192}))) =
   1 + card (in_step {4096, 8192} Decrementing (early_trace (term_start {4096, 8192}))) \<and>
   actives {4096, 8192} (killed_trace (term_start {4096, 8192})) = {4096} \<and> 1 \<le> ts_active (killed_trace (term_start {4096, 8192}))"
proof -
  have "actives {4096, 8192} (early_trace (term_start {4096, 8192})) = {4096}"
    by (auto simp: actives_def early_trace_def early_defs Let_def)
  moreover have "actives {4096, 8192} (killed_trace (term_start {4096, 8192})) = {4096}"
    by (auto simp: actives_def killed_trace_def force_cas_def early_defs Let_def)
  ultimately show ?thesis using termination_counter [OF _ early_run] termination_counter [OF _ killed_run] by simp
qed

end
