(* ===== verification/Tree_Barrier.thy ===== *)
theory Tree_Barrier
  imports Meld_Prelude
begin

text \<open>
  The barrier at which the threads meet (\<^verbatim>\<open>utils/tree_barrier.hpp\<close>): every thread has a node of a tree, waits for the
  nodes below it, reports to the node above it, and waits until the root turns the common sense around. An atomic access of the
  code is one step of the model.
\<close>

subsection \<open>Construction\<close>

record inner_node =
  in_parent :: "nat option"
  in_count :: nat
  in_children_count :: nat
  in_thread_sense :: bool

record tree_barrier =
  tb_nodes :: "inner_node list"
  tb_sense :: bool

definition new_inner_node :: "bool \<Rightarrow> nat option \<Rightarrow> nat \<Rightarrow> inner_node" where
  "new_inner_node sense parent cnt =
     \<lparr>in_parent = parent, in_count = cnt, in_children_count = cnt, in_thread_sense = \<not> sense\<rparr>"

definition set_count :: "nat \<Rightarrow> inner_node \<Rightarrow> inner_node" where
  "set_count n nd = nd\<lparr>in_count := n, in_children_count := n\<rparr>"

text \<open>The loop over the children; \<open>k\<close> counts those that were built.\<close>

fun build_children :: "nat \<Rightarrow> ('a \<Rightarrow> bool \<times> 'a) \<Rightarrow> nat \<times> 'a \<Rightarrow> nat \<times> 'a" where
  "build_children 0 f r = r"
| "build_children (Suc i) f (k, ns) = (case f ns of (b, ns) \<Rightarrow> build_children i f (if b then k + 1 else k, ns))"

text \<open>\<open>sense\<close> is false while the tree is built; the nodes that exist are the list.\<close>

primrec build :: "nat \<Rightarrow> nat \<Rightarrow> nat \<Rightarrow> nat option \<Rightarrow> inner_node list \<Rightarrow> bool \<times> inner_node list" where
  "build sz radix 0 parent ns =
     (if length ns = sz then (False, ns) else (True, ns @ [new_inner_node False parent 0]))"
| "build sz radix (Suc depth) parent ns =
     (if length ns = sz then (False, ns)
      else let this_id = length ns
           in case build_children radix (build sz radix depth (Some this_id)) (0, ns @ [new_inner_node False parent radix]) of
                (num_children, ns) \<Rightarrow>
                  (True, if num_children \<noteq> radix then ns[this_id := set_count num_children (ns ! this_id)] else ns))"

function tree_depth :: "nat \<Rightarrow> nat \<Rightarrow> nat" where
  "tree_depth radix s = (if s > 1 \<and> radix > 1 then tree_depth radix (s div radix) + 1 else 0)"
  by auto
termination by (relation "measure snd") auto

declare tree_depth.simps [simp del]

definition new_tree_barrier :: "nat \<Rightarrow> nat \<Rightarrow> tree_barrier" where
  "new_tree_barrier s radix = \<lparr>tb_nodes = snd (build s radix (tree_depth radix s) None []), tb_sense = False\<rparr>"

subsection \<open>Waiting\<close>

text \<open>Where a thread is in \<^verbatim>\<open>wait\<close>, with the number of times it has come back from there.\<close>

datatype wait_pc = Outside | Children | Reset | Report | Sense

record barrier_run =
  br_tb :: tree_barrier
  br_pc :: "nat \<Rightarrow> wait_pc"
  br_left :: "nat \<Rightarrow> nat"

definition upd_inner :: "nat \<Rightarrow> (inner_node \<Rightarrow> inner_node) \<Rightarrow> barrier_run \<Rightarrow> barrier_run" where
  "upd_inner i f s = s\<lparr>br_tb := (br_tb s)\<lparr>tb_nodes := (tb_nodes (br_tb s))[i := f (tb_nodes (br_tb s) ! i)]\<rparr>\<rparr>"

definition set_wait_pc :: "nat \<Rightarrow> wait_pc \<Rightarrow> barrier_run \<Rightarrow> barrier_run" where
  "set_wait_pc i pc s = s\<lparr>br_pc := (br_pc s)(i := pc)\<rparr>"

text \<open>The next step of thread \<open>i\<close>; None while it spins.\<close>

definition wait_step :: "nat \<Rightarrow> barrier_run \<Rightarrow> barrier_run option" where
  "wait_step i s =
     (let nd = tb_nodes (br_tb s) ! i
      in case br_pc s i of
           Outside \<Rightarrow> Some (set_wait_pc i Children s)
         | Children \<Rightarrow> if in_children_count nd > 0 then None else Some (set_wait_pc i Reset s)
         | Reset \<Rightarrow> Some (set_wait_pc i Report (upd_inner i (\<lambda>nd. nd\<lparr>in_children_count := in_count nd\<rparr>) s))
         | Report \<Rightarrow>
             (case in_parent nd of
                Some p \<Rightarrow> Some (set_wait_pc i Sense (upd_inner p (\<lambda>nd. nd\<lparr>in_children_count := size_sub (in_children_count nd) 1\<rparr>) s))
              | None \<Rightarrow> Some (set_wait_pc i Sense (s\<lparr>br_tb := (br_tb s)\<lparr>tb_sense := \<not> tb_sense (br_tb s)\<rparr>\<rparr>)))
         | Sense \<Rightarrow>
             if in_parent nd \<noteq> None \<and> tb_sense (br_tb s) \<noteq> in_thread_sense nd then None
             else Some (set_wait_pc i Outside (upd_inner i (\<lambda>nd. nd\<lparr>in_thread_sense := \<not> in_thread_sense nd\<rparr>) s)
                    \<lparr>br_left := (br_left s)(i := br_left s i + 1)\<rparr>))"

definition barrier_start :: "nat \<Rightarrow> barrier_run" where
  "barrier_start n = \<lparr>br_tb = new_tree_barrier n 2, br_pc = (\<lambda>_. Outside), br_left = (\<lambda>_. 0)\<rparr>"

inductive barrier_reachable :: "nat \<Rightarrow> barrier_run \<Rightarrow> bool" for n where
  start: "barrier_reachable n (barrier_start n)"
| step: "barrier_reachable n s \<Longrightarrow> i < n \<Longrightarrow> wait_step i s = Some s' \<Longrightarrow> barrier_reachable n s'"

text \<open>How often a thread has called \<^verbatim>\<open>wait\<close>.\<close>

definition entered :: "barrier_run \<Rightarrow> nat \<Rightarrow> nat" where
  "entered s i = br_left s i + (if br_pc s i = Outside then 0 else 1)"

subsection \<open>The tree\<close>

definition children_of :: "nat option \<Rightarrow> inner_node list \<Rightarrow> nat" where
  "children_of p ns = length (filter (\<lambda>nd. in_parent nd = p) ns)"

text \<open>
  The nodes \<open>fs\<close>, which begin at index \<open>base\<close>, are \<open>c\<close> trees below \<open>par\<close>: every other node comes after its parent, and the counters are exact.
\<close>

definition exact :: "nat \<Rightarrow> inner_node list \<Rightarrow> inner_node list \<Rightarrow> nat \<Rightarrow> bool" where
  "exact base fs gs k \<longleftrightarrow> in_count (fs ! k) = children_of (Some (base + k)) gs \<and> in_children_count (fs ! k) = in_count (fs ! k) \<and> in_thread_sense (fs ! k)"

definition forest :: "nat \<Rightarrow> nat option \<Rightarrow> nat \<Rightarrow> inner_node list \<Rightarrow> bool" where
  "forest base par c fs \<longleftrightarrow> children_of par fs = c \<and>
     (\<forall>k < length fs. (in_parent (fs ! k) = par \<or> (\<exists>p. base \<le> p \<and> p < base + k \<and> in_parent (fs ! k) = Some p)) \<and> exact base fs fs k)"

lemma children_of_simps [simp]:
  "children_of p [] = 0" "children_of p (fs @ gs) = children_of p fs + children_of p gs"
  "children_of p (nd # fs) = (if in_parent nd = p then 1 else 0) + children_of p fs"
  by (simp_all add: children_of_def)

lemma children_of_none: "(\<And>k. k < length fs \<Longrightarrow> in_parent (fs ! k) \<noteq> p) \<Longrightarrow> children_of p fs = 0"
  by (simp add: children_of_def filter_empty_conv) (metis in_set_conv_nth)

lemma forest_empty [simp]: "forest base par 0 []"
  by (simp add: forest_def)

lemma forestD:
  assumes "forest base par c fs" "k < length fs"
  shows "in_parent (fs ! k) = par \<or> (\<exists>p. base \<le> p \<and> p < base + k \<and> in_parent (fs ! k) = Some p)" "exact base fs fs k"
  using assms unfolding forest_def by blast+

lemma forest_append:
  assumes f: "forest base par c fs" and g: "forest (base + length fs) par d gs" and par: "\<And>p. par = Some p \<Longrightarrow> p < base"
  shows "forest base par (c + d) (fs @ gs)"
proof -
  have 1: "children_of (Some (base + k)) gs = 0" if "k < length fs" for k
    by (rule children_of_none) (use forestD(1) [OF g] that par in \<open>fastforce\<close>)
  have 2: "children_of (Some (base + length fs + k)) fs = 0" for k
    by (rule children_of_none) (use forestD(1) [OF f] par in \<open>fastforce\<close>)
  have "(in_parent ((fs @ gs) ! k) = par \<or> (\<exists>p. base \<le> p \<and> p < base + k \<and> in_parent ((fs @ gs) ! k) = Some p)) \<and> exact base (fs @ gs) (fs @ gs) k"
    if k: "k < length (fs @ gs)" for k
  proof (cases "k < length fs")
    case True
    then show ?thesis using forestD [OF f True] 1 [OF True] by (auto simp: nth_append exact_def)
  next
    case False
    then obtain m where m: "k = length fs + m" using le_Suc_ex not_less by blast
    then have "m < length gs" using k by simp
    from forestD [OF g this] 2 [of m] m show ?thesis by (auto simp: nth_append exact_def add.assoc)
  qed
  then show ?thesis using f g by (simp add: forest_def)
qed

lemma forest_root:
  assumes f: "forest (Suc base) (Some base) c fs" and par: "\<And>p. par = Some p \<Longrightarrow> p < base"
    and root: "in_parent nd = par" "in_count nd = c" "in_children_count nd = c" "in_thread_sense nd"
  shows "forest base par 1 (nd # fs)"
proof -
  have p: "par \<noteq> Some q" if "base \<le> q" for q using par that by fastforce
  have "in_parent (fs ! k) \<noteq> par" if "k < length fs" for k
    using forestD(1) [OF f that] p by (metis Suc_leD order_refl)
  then have "children_of par fs = 0" by (rule children_of_none)
  moreover have "(in_parent ((nd # fs) ! k) = par \<or> (\<exists>p. base \<le> p \<and> p < base + k \<and> in_parent ((nd # fs) ! k) = Some p)) \<and> exact base (nd # fs) (nd # fs) k"
    if k: "k < length (nd # fs)" for k
  proof (cases k)
    case 0
    then show ?thesis using root f p by (simp add: exact_def forest_def)
  next
    case (Suc m)
    then have "m < length fs" using k by simp
    from forestD [OF f this] p [of "base + k"] root(1) show ?thesis by (auto simp: exact_def Suc) 
  qed
  ultimately show ?thesis using root(1) by (simp add: forest_def)
qed

text \<open>The number of nodes of a full tree.\<close>

fun full_tree :: "nat \<Rightarrow> nat \<Rightarrow> nat" where
  "full_tree radix 0 = 1"
| "full_tree radix (Suc d) = Suc (radix * full_tree radix d)"

definition tree_builds :: "nat \<Rightarrow> nat \<Rightarrow> nat option \<Rightarrow> inner_node list \<Rightarrow> nat \<times> inner_node list \<Rightarrow> bool" where
  "tree_builds sz m par ns r \<longleftrightarrow> (\<exists>fs. snd r = ns @ fs \<and> forest (length ns) par (fst r) fs \<and> length fs = min (sz - length ns) m)"

lemma build_children_builds:
  assumes f: "\<And>ms. length ns \<le> length ms \<Longrightarrow> length ms \<le> sz \<Longrightarrow> (case f ms of (b, ns') \<Rightarrow> tree_builds sz m par ms (if b then 1 else 0, ns'))"
    and par: "\<And>p. par = Some p \<Longrightarrow> p < length ns" and r: "tree_builds sz (j * m) par ns (k, ns')" and sz: "length ns \<le> sz"
  shows "tree_builds sz ((j + i) * m) par ns (build_children i f (k, ns'))"
  using r
proof (induction i arbitrary: j k ns')
  case (Suc i)
  from Suc.prems obtain fs where fs: "ns' = ns @ fs" "forest (length ns) par k fs" "length fs = min (sz - length ns) (j * m)" by (auto simp: tree_builds_def)
  obtain b ns'' where b: "f ns' = (b, ns'')" by fastforce
  have "length ns \<le> length ns'" "length ns' \<le> sz" using fs sz by simp_all
  from f [OF this] b obtain gs where gs: "ns'' = ns' @ gs" "forest (length ns') par (if b then 1 else 0) gs" "length gs = min (sz - length ns') m"
    by (auto simp: tree_builds_def)
  have "forest (length ns) par (k + (if b then 1 else 0)) (fs @ gs)"
    by (rule forest_append [OF fs(2)]) (use gs(2) fs(1) par in auto)
  moreover have "length (fs @ gs) = min (sz - length ns) (Suc j * m)" using fs(1,3) gs(3) sz by (auto simp: min_def)
  ultimately have "tree_builds sz (Suc j * m) par ns (if b then k + 1 else k, ns'')" using fs(1) gs(1) by (auto simp: tree_builds_def)
  from Suc.IH [OF this] show ?case by (simp add: b)
qed simp

lemma build_builds:
  assumes "length ns \<le> sz" "\<And>p. par = Some p \<Longrightarrow> p < length ns"
  shows "case build sz radix d par ns of (b, ns') \<Rightarrow> tree_builds sz (full_tree radix d) par ns (if b then 1 else 0, ns')"
  using assms
proof (induction d arbitrary: par ns)
  case 0
  have "forest (length ns) par 1 [new_inner_node False par 0]" by (rule forest_root) (use 0 in \<open>auto simp: new_inner_node_def\<close>)
  then show ?case using 0 by (auto simp: tree_builds_def)
next
  case (Suc d)
  show ?case
  proof (cases "length ns = sz")
    case False
    let ?id = "length ns" and ?ns = "ns @ [new_inner_node False par radix]"
    have l: "length ?ns \<le> sz" using Suc.prems(1) False by simp
    obtain c ns' where c: "build_children radix (build sz radix d (Some ?id)) (0, ?ns) = (c, ns')" by fastforce
    have "tree_builds sz ((0 + radix) * full_tree radix d) (Some ?id) ?ns (build_children radix (build sz radix d (Some ?id)) (0, ?ns))"
    proof (rule build_children_builds)
      show "case build sz radix d (Some ?id) ms of (b, ns') \<Rightarrow> tree_builds sz (full_tree radix d) (Some ?id) ms (if b then 1 else 0, ns')"
        if "length ?ns \<le> length ms" "length ms \<le> sz" for ms by (rule Suc.IH [OF that(2)]) (use that(1) in simp)
    qed (use l in \<open>auto simp: tree_builds_def\<close>)
    then obtain fs where fs: "ns' = ?ns @ fs" "forest (Suc ?id) (Some ?id) c fs" "length fs = min (sz - Suc ?id) (radix * full_tree radix d)"
      by (auto simp: tree_builds_def c)
    let ?nd = "(new_inner_node False par radix)\<lparr>in_count := c, in_children_count := c\<rparr>"
    have "forest ?id par 1 (?nd # fs)" by (rule forest_root [OF fs(2)]) (use Suc.prems(2) in \<open>auto simp: new_inner_node_def\<close>)
    moreover have "(if c \<noteq> radix then ns'[?id := set_count c (ns' ! ?id)] else ns') = ns @ ?nd # fs"
      by (simp add: fs(1) set_count_def nth_append list_update_append new_inner_node_def)
    ultimately have "tree_builds sz (full_tree radix (Suc d)) par ns (1, if c \<noteq> radix then ns'[?id := set_count c (ns' ! ?id)] else ns')"
      using fs(3) l by (auto simp: tree_builds_def min_def)
    then show ?thesis using False c by (simp add: Let_def)
  qed (simp add: tree_builds_def)
qed

lemma tree_depth_enough: "s \<le> full_tree 2 (tree_depth 2 s)"
proof (induction s rule: less_induct)
  case (less s)
  show ?case
  proof (cases "s > 1")
    case True
    then have "s div 2 \<le> full_tree 2 (tree_depth 2 (s div 2))" using less by simp
    then show ?thesis using True by (subst tree_depth.simps) simp
  qed (simp add: tree_depth.simps)
qed

text \<open>The nodes form one tree in which every parent comes before its children.\<close>

definition tree_ok :: "inner_node list \<Rightarrow> bool" where
  "tree_ok ns \<longleftrightarrow> (\<forall>i < length ns. (in_parent (ns ! i) = None \<longleftrightarrow> i = 0) \<and> (\<forall>p. in_parent (ns ! i) = Some p \<longrightarrow> p < i) \<and>
     in_count (ns ! i) = children_of (Some i) ns)"

lemma new_tree_ok:
  assumes "0 < s"
  shows "tree_ok (tb_nodes (new_tree_barrier s 2))" "length (tb_nodes (new_tree_barrier s 2)) = s"
    "i < s \<Longrightarrow> in_children_count (tb_nodes (new_tree_barrier s 2) ! i) = in_count (tb_nodes (new_tree_barrier s 2) ! i)"
    "i < s \<Longrightarrow> in_thread_sense (tb_nodes (new_tree_barrier s 2) ! i)" "\<not> tb_sense (new_tree_barrier s 2)"
proof -
  obtain b ns where b: "build s 2 (tree_depth 2 s) None [] = (b, ns)" by fastforce
  have "tree_builds s (full_tree 2 (tree_depth 2 s)) None [] (if b then 1 else 0, ns)"
    using build_builds [of "[]" s None 2 "tree_depth 2 s"] b by simp
  then have f: "forest 0 None (if b then 1 else 0) ns" "length ns = s" using tree_depth_enough [of s] by (auto simp: tree_builds_def)
  have ns: "tb_nodes (new_tree_barrier s 2) = ns" by (simp add: new_tree_barrier_def b)
  have one: "children_of None ns \<le> 1" using f(1) by (simp add: forest_def)
  have root: "in_parent (ns ! 0) = None" using forestD(1) [OF f(1), of 0] f(2) assms by auto
  have inner: "in_parent (ns ! i) \<noteq> None" if "i < length ns" "i \<noteq> 0" for i
  proof
    assume "in_parent (ns ! i) = None"
    obtain nd ms where ms: "ns = nd # ms" using f(2) assms by (cases ns) auto
    have "in_parent (ms ! (i - 1)) = None" "i - 1 < length ms" using \<open>in_parent (ns ! i) = None\<close> that ms by simp_all
    then have "filter (\<lambda>nd. in_parent nd = None) ms \<noteq> []" by (auto simp: filter_empty_conv)
    then have "children_of None ms > 0" by (simp add: children_of_def)
    then show False using one root ms by simp
  qed
  have "(in_parent (ns ! i) = None \<longleftrightarrow> i = 0) \<and> (\<forall>p. in_parent (ns ! i) = Some p \<longrightarrow> p < i) \<and> in_count (ns ! i) = children_of (Some i) ns"
    if "i < length ns" for i
    using root inner [OF that] forestD [OF f(1) that] by (cases "i = 0") (auto simp: exact_def)
  then show "tree_ok (tb_nodes (new_tree_barrier s 2))" unfolding tree_ok_def ns by blast
  show "length (tb_nodes (new_tree_barrier s 2)) = s" using f(2) ns by simp
  show "in_children_count (tb_nodes (new_tree_barrier s 2) ! i) = in_count (tb_nodes (new_tree_barrier s 2) ! i)"
    "in_thread_sense (tb_nodes (new_tree_barrier s 2) ! i)" if "i < s"
    using forestD(2) [OF f(1)] that f(2) ns by (simp_all add: exact_def)
  show "\<not> tb_sense (new_tree_barrier s 2)" by (simp add: new_tree_barrier_def)
qed

subsection \<open>The invariant\<close>

text \<open>How often a thread has set its counter again, and reported; the number of rounds is that of the reports of the root.\<close>

definition resets :: "(nat \<Rightarrow> nat) \<Rightarrow> (nat \<Rightarrow> wait_pc) \<Rightarrow> nat \<Rightarrow> nat" where
  "resets l pc i = l i + (if pc i = Report \<or> pc i = Sense then 1 else 0)"

definition reports :: "(nat \<Rightarrow> nat) \<Rightarrow> (nat \<Rightarrow> wait_pc) \<Rightarrow> nat \<Rightarrow> nat" where
  "reports l pc i = l i + (if pc i = Sense then 1 else 0)"

definition kids :: "nat \<Rightarrow> (nat \<Rightarrow> nat option) \<Rightarrow> nat \<Rightarrow> nat set" where
  "kids n par i = {k. k < n \<and> par k = Some i}"

definition tree_par :: "nat \<Rightarrow> (nat \<Rightarrow> nat option) \<Rightarrow> bool" where
  "tree_par n par \<longleftrightarrow> 0 < n \<and> (\<forall>i < n. (par i = None \<longleftrightarrow> i = 0) \<and> (\<forall>p. par i = Some p \<longrightarrow> p < i))"

text \<open>The counter of a node and the reports of its children since it was set add up to the number of its children.\<close>

definition binv :: "nat \<Rightarrow> (nat \<Rightarrow> nat option) \<Rightarrow> (nat \<Rightarrow> nat) \<Rightarrow> (nat \<Rightarrow> wait_pc) \<Rightarrow> (nat \<Rightarrow> nat) \<Rightarrow> (nat \<Rightarrow> bool) \<Rightarrow> bool \<Rightarrow> bool" where
  "binv n par l pc cc ts sense \<longleftrightarrow> sense = odd (reports l pc 0) \<and>
     (\<forall>i < n. l i \<le> reports l pc 0 \<and> ts i = even (l i) \<and>
        (\<forall>p. par i = Some p \<longrightarrow> resets l pc p \<le> reports l pc i \<and> (pc p = Reset \<longrightarrow> Suc (l p) \<le> reports l pc i)) \<and>
        cc i + (\<Sum>k \<in> kids n par i. reports l pc k - resets l pc i) = card (kids n par i))"

lemma binvD:
  assumes "binv n par l pc cc ts sense"
  shows "sense = odd (reports l pc 0)" "i < n \<Longrightarrow> l i \<le> reports l pc 0" "i < n \<Longrightarrow> ts i = even (l i)"
    "i < n \<Longrightarrow> par i = Some p \<Longrightarrow> resets l pc p \<le> reports l pc i" "i < n \<Longrightarrow> par i = Some p \<Longrightarrow> pc p = Reset \<Longrightarrow> Suc (l p) \<le> reports l pc i"
    "i < n \<Longrightarrow> cc i + (\<Sum>k \<in> kids n par i. reports l pc k - resets l pc i) = card (kids n par i)"
  using assms unfolding binv_def by blast+

lemma binv_chain:
  assumes T: "tree_par n par" and B: "binv n par l pc cc ts sense"
  shows "i < n \<Longrightarrow> reports l pc 0 \<le> reports l pc i"
proof (induction i rule: less_induct)
  case (less i)
  show ?case
  proof (cases "par i")
    case None
    then show ?thesis using T less.prems by (simp add: tree_par_def)
  next
    case (Some p)
    then have "p < i" "p < n" using T less.prems by (auto simp: tree_par_def)
    then have "reports l pc 0 \<le> reports l pc p" using less.IH by simp
    also have "\<dots> \<le> resets l pc p" by (simp add: reports_def resets_def)
    also have "\<dots> \<le> reports l pc i" by (rule binvD(4) [OF B less.prems Some])
    finally show ?thesis .
  qed
qed

lemma reports_bounds: "l i \<le> reports l pc i" "reports l pc i \<le> resets l pc i" "reports l pc i \<le> Suc (l i)" "resets l pc i \<le> Suc (l i)"
  by (simp_all add: reports_def resets_def)

lemma kid_bound:
  assumes T: "tree_par n par" and B: "binv n par l pc cc ts sense" and k: "k \<in> kids n par i"
  shows "i < n" "reports l pc k \<le> Suc (reports l pc i)" "resets l pc i \<le> reports l pc k" "reports l pc k - resets l pc i \<le> 1" "k \<noteq> 0"
proof -
  have kn: "k < n" "par k = Some i" using k by (simp_all add: kids_def)
  show i: "i < n" using T kn by (auto simp: tree_par_def)
  show "k \<noteq> 0" using T kn by (auto simp: tree_par_def)
  have "reports l pc k \<le> Suc (l k)" by (rule reports_bounds(3))
  also have "\<dots> \<le> Suc (reports l pc 0)" using binvD(2) [OF B kn(1)] by simp
  also have "\<dots> \<le> Suc (reports l pc i)" using binv_chain [OF T B i] by simp
  finally show 1: "reports l pc k \<le> Suc (reports l pc i)" .
  show "resets l pc i \<le> reports l pc k" by (rule binvD(4) [OF B kn])
  show "reports l pc k - resets l pc i \<le> 1" using 1 reports_bounds(2) [of l pc i] by simp
qed

lemma finite_kids [simp]: "finite (kids n par i)"
  by (simp add: kids_def)

lemma sum_all_one:
  fixes d :: "'a \<Rightarrow> nat"
  assumes "finite K" "\<And>k. k \<in> K \<Longrightarrow> d k \<le> 1" "sum d K = card K" "k \<in> K"
  shows "d k = 1"
proof (rule ccontr)
  assume "d k \<noteq> 1"
  then have "d k < 1" using assms(2,4) by (metis le_neq_implies_less)
  then have "sum d K < sum (\<lambda>_. 1) K" using assms by (intro sum_strict_mono_ex1) auto
  then show False using assms(3) by simp
qed

text \<open>The steps.\<close>

lemma binv_same:
  assumes B: "binv n par l pc cc ts sense" and e: "\<And>k. resets l' pc' k = resets l pc k" "\<And>k. reports l' pc' k = reports l pc k"
    and r: "\<And>p k. pc' p = Reset \<Longrightarrow> k \<in> kids n par p \<Longrightarrow> Suc (l' p) \<le> reports l pc k"
    and l: "\<And>k. k < n \<Longrightarrow> l' k \<le> reports l pc 0 \<and> ts' k = even (l' k)"
  shows "binv n par l' pc' cc ts' sense"
  using binvD(1,4,6) [OF B] r l unfolding binv_def e by (auto simp: kids_def)

lemma binv_enter:
  assumes B: "binv n par l pc cc ts sense" and i: "pc i = Outside"
  shows "binv n par l (pc(i := Children)) cc ts sense"
proof (rule binv_same [OF B])
  show "Suc (l p) \<le> reports l pc k" if "(pc(i := Children)) p = Reset" "k \<in> kids n par p" for p k
    using that binvD(5) [OF B, of k p] by (auto simp: kids_def split: if_splits)
qed (use i binvD(2,3) [OF B] in \<open>auto simp: resets_def reports_def\<close>)

lemma kids_done:
  assumes T: "tree_par n par" and B: "binv n par l pc cc ts sense" and i: "i < n" "cc i = 0" "k \<in> kids n par i"
  shows "reports l pc k = Suc (resets l pc i)"
proof -
  have "reports l pc k - resets l pc i = 1"
    by (rule sum_all_one [OF finite_kids kid_bound(4) [OF T B] _ i(3)]) (use binvD(6) [OF B i(1)] i(2) in simp_all)
  then show ?thesis by simp
qed

lemma binv_seen:
  assumes T: "tree_par n par" and B: "binv n par l pc cc ts sense" and i: "i < n" "pc i = Children" "cc i = 0"
  shows "binv n par l (pc(i := Reset)) cc ts sense"
proof (rule binv_same [OF B])
  show "Suc (l p) \<le> reports l pc k" if "(pc(i := Reset)) p = Reset" "k \<in> kids n par p" for p k
    using that kids_done [OF T B i(1,3), of k] i(2) binvD(5) [OF B, of k p]
    by (cases "p = i") (auto simp: resets_def kids_def)
qed (use i binvD(2,3) [OF B] in \<open>auto simp: resets_def reports_def\<close>)

lemma binv_reset:
  assumes T: "tree_par n par" and B: "binv n par l pc cc ts sense" and i: "i < n" "pc i = Reset"
  shows "binv n par l (pc(i := Report)) (cc(i := card (kids n par i))) ts sense"
proof -
  let ?pc = "pc(i := Report)"
  have rep: "reports l ?pc k = reports l pc k" for k using i by (simp add: reports_def)
  have res: "resets l ?pc k = (if k = i then Suc (l i) else resets l pc k)" for k by (simp add: resets_def)
  have kid: "Suc (l i) \<le> reports l pc k" "reports l pc k - Suc (l i) = 0" if k: "k \<in> kids n par i" for k
    using binvD(5) [OF B, of k i] kid_bound(2) [OF T B k] i k by (auto simp: kids_def reports_def)
  have "(cc(i := card (kids n par i))) k + (\<Sum>m \<in> kids n par k. reports l ?pc m - resets l ?pc k) = card (kids n par k)" if "k < n" for k
    using binvD(6) [OF B that] kid(2) unfolding rep res by (cases "k = i") simp_all
  moreover have "resets l ?pc p \<le> reports l ?pc k \<and> (?pc p = Reset \<longrightarrow> Suc (l p) \<le> reports l ?pc k)" if "k < n" "par k = Some p" for k p
    using binvD(4,5) [OF B that] kid(1) [of k] that unfolding rep res by (auto simp: kids_def)
  ultimately show ?thesis using binvD(1-3) [OF B] unfolding binv_def rep by blast
qed

lemma binv_report:
  assumes T: "tree_par n par" and B: "binv n par l pc cc ts sense" and i: "i < n" "pc i = Report" "par i = Some p"
  shows "binv n par l (pc(i := Sense)) (cc(p := size_sub (cc p) 1)) ts sense"
proof -
  let ?pc = "pc(i := Sense)"
  have k: "i \<in> kids n par p" using i by (simp add: kids_def)
  note b = kid_bound [OF T B k]
  have li: "reports l pc i = l i" "resets l pc p = l i"
    using i b(3) binvD(2) [OF B i(1)] binv_chain [OF T B b(1)] reports_bounds(2) [of l pc p] by (auto simp: reports_def)
  have rep: "reports l ?pc k = (if k = i then Suc (l i) else reports l pc k)" for k by (simp add: reports_def)
  have rep0: "reports l ?pc 0 = reports l pc 0" using b(5) by (simp add: rep)
  have res: "resets l ?pc k = resets l pc k" for k using i by (simp add: resets_def)
  let ?K = "kids n par p" and ?d = "\<lambda>k. reports l pc k - resets l pc p"
  have sum: "sum ?d ?K = sum ?d (?K - {i})" using sum.remove [OF finite_kids k, of ?d] li by simp
  have "sum ?d (?K - {i}) \<le> card (?K - {i})"
    using sum_bounded_above [of "?K - {i}" ?d 1] kid_bound(4) [OF T B] by simp
  moreover have "card ?K = Suc (card (?K - {i}))" by (rule card_Suc_Diff1 [OF finite_kids k, symmetric])
  ultimately have pos: "0 < cc p" using binvD(6) [OF B b(1)] sum by simp
  have "(\<Sum>k \<in> ?K. reports l ?pc k - resets l ?pc p) = 1 + sum ?d (?K - {i})"
    using sum.remove [OF finite_kids k, of "\<lambda>k. reports l ?pc k - resets l ?pc p"] li unfolding rep res by simp
  then have at_p: "cc p - 1 + (\<Sum>k \<in> ?K. reports l ?pc k - resets l ?pc p) = card ?K"
    using pos binvD(6) [OF B b(1)] sum by simp
  have "(cc(p := size_sub (cc p) 1)) m + (\<Sum>k \<in> kids n par m. reports l ?pc k - resets l ?pc m) = card (kids n par m)" if "m < n" for m
  proof (cases "m = p")
    case True
    then show ?thesis using at_p pos by simp
  next
    case False
    then have "i \<notin> kids n par m" using i by (simp add: kids_def)
    then have "(\<Sum>k \<in> kids n par m. reports l ?pc k - resets l ?pc m) = (\<Sum>k \<in> kids n par m. reports l pc k - resets l pc m)"
      by (intro sum.cong) (auto simp: rep res)
    then show ?thesis using False binvD(6) [OF B that] by simp
  qed
  moreover have "resets l ?pc q \<le> reports l ?pc m \<and> (?pc q = Reset \<longrightarrow> Suc (l q) \<le> reports l ?pc m)" if "m < n" "par m = Some q" for m q
    using binvD(4,5) [OF B that] li(1) unfolding rep res by (auto split: if_splits)
  ultimately show ?thesis using binvD(1-3) [OF B] unfolding binv_def rep0 by blast
qed

lemma binv_root:
  assumes T: "tree_par n par" and B: "binv n par l pc cc ts sense" and i: "pc 0 = Report"
  shows "binv n par l (pc(0 := Sense)) cc ts (\<not> sense)"
proof -
  let ?pc = "pc(0 := Sense)"
  have r0: "reports l pc 0 = l 0" "reports l ?pc 0 = Suc (l 0)" using i by (simp_all add: reports_def)
  have rep: "reports l ?pc k = reports l pc k" if "k \<noteq> 0" for k using that by (simp add: reports_def)
  have res: "resets l ?pc k = resets l pc k" for k using i by (simp add: resets_def)
  have k0: "k \<noteq> 0" if "k < n" "par k = Some p" for k p using T that by (auto simp: tree_par_def)
  have "(\<Sum>k \<in> kids n par m. reports l ?pc k - resets l ?pc m) = (\<Sum>k \<in> kids n par m. reports l pc k - resets l pc m)" for m
    by (intro sum.cong) (use k0 in \<open>auto simp: rep res kids_def\<close>)
  moreover have "l k \<le> Suc (l 0)" if "k < n" for k using binvD(2) [OF B that] r0 by simp
  moreover have "reports l ?pc k = reports l pc k" if "k < n" "par k = Some p" for k p using rep k0 [OF that] by blast
  ultimately show ?thesis using binvD [OF B] r0 unfolding binv_def res by (auto split: if_splits)
qed

lemma binv_leave:
  assumes T: "tree_par n par" and B: "binv n par l pc cc ts sense" and i: "i < n" "pc i = Sense" "par i = None \<or> sense = ts i"
  shows "binv n par (l(i := l i + 1)) (pc(i := Outside)) cc (ts(i := \<not> ts i)) sense"
proof (rule binv_same [OF B])
  have "l i + 1 \<le> reports l pc 0"
  proof (cases "i = 0")
    case True
    then show ?thesis using i by (simp add: reports_def)
  next
    case False
    then have "odd (reports l pc 0) = even (l i)" using i T binvD(1,3) [OF B] by (auto simp: tree_par_def)
    then have "l i \<noteq> reports l pc 0" by auto
    then show ?thesis using binvD(2) [OF B i(1)] by simp
  qed
  then show "(l(i := l i + 1)) k \<le> reports l pc 0 \<and> (ts(i := \<not> ts i)) k = even ((l(i := l i + 1)) k)" if "k < n" for k
    using binvD(2,3) [OF B that] by auto
  show "Suc ((l(i := l i + 1)) p) \<le> reports l pc k" if "(pc(i := Outside)) p = Reset" "k \<in> kids n par p" for p k
    using that binvD(5) [OF B, of k p] by (auto simp: kids_def split: if_splits)
qed (use i in \<open>auto simp: resets_def reports_def\<close>)

subsection \<open>Runs\<close>

abbreviation par_of :: "barrier_run \<Rightarrow> nat \<Rightarrow> nat option" where
  "par_of s \<equiv> \<lambda>i. in_parent (tb_nodes (br_tb s) ! i)"

abbreviation cc_of :: "barrier_run \<Rightarrow> nat \<Rightarrow> nat" where
  "cc_of s \<equiv> \<lambda>i. in_children_count (tb_nodes (br_tb s) ! i)"

abbreviation ts_of :: "barrier_run \<Rightarrow> nat \<Rightarrow> bool" where
  "ts_of s \<equiv> \<lambda>i. in_thread_sense (tb_nodes (br_tb s) ! i)"

definition run_inv :: "nat \<Rightarrow> barrier_run \<Rightarrow> bool" where
  "run_inv n s \<longleftrightarrow> length (tb_nodes (br_tb s)) = n \<and> tree_par n (par_of s) \<and>
     (\<forall>i < n. in_count (tb_nodes (br_tb s) ! i) = card (kids n (par_of s) i)) \<and>
     binv n (par_of s) (br_left s) (br_pc s) (cc_of s) (ts_of s) (tb_sense (br_tb s))"

lemma upd_inner_simps:
  assumes "i < length (tb_nodes (br_tb s))"
  shows "length (tb_nodes (br_tb (upd_inner i f s))) = length (tb_nodes (br_tb s))"
    "tb_nodes (br_tb (upd_inner i f s)) ! k = (if k = i then f (tb_nodes (br_tb s) ! i) else tb_nodes (br_tb s) ! k)"
    "br_pc (upd_inner i f s) = br_pc s" "br_left (upd_inner i f s) = br_left s" "tb_sense (br_tb (upd_inner i f s)) = tb_sense (br_tb s)"
  using assms by (auto simp: upd_inner_def)

lemma set_wait_pc_simps [simp]:
  "br_tb (set_wait_pc i pc s) = br_tb s" "br_pc (set_wait_pc i pc s) = (br_pc s)(i := pc)" "br_left (set_wait_pc i pc s) = br_left s"
  by (simp_all add: set_wait_pc_def)

lemma run_inv_change:
  assumes I: "run_inv n s" and p: "par_of s' = par_of s" and c: "\<And>k. in_count (tb_nodes (br_tb s') ! k) = in_count (tb_nodes (br_tb s) ! k)"
    and len: "length (tb_nodes (br_tb s')) = length (tb_nodes (br_tb s))"
    and B: "binv n (par_of s) (br_left s') (br_pc s') (cc_of s') (ts_of s') (tb_sense (br_tb s'))"
  shows "run_inv n s'"
  using I B unfolding run_inv_def p c len by blast

lemma run_inv_step:
  assumes I: "run_inv n s" and i: "i < n" and r: "wait_step i s = Some s'"
  shows "run_inv n s'"
proof -
  have len: "length (tb_nodes (br_tb s)) = n" and T: "tree_par n (par_of s)"
    and B: "binv n (par_of s) (br_left s) (br_pc s) (cc_of s) (ts_of s) (tb_sense (br_tb s))" using I by (simp_all add: run_inv_def)
  have cnt: "in_count (tb_nodes (br_tb s) ! k) = card (kids n (par_of s) k)" if "k < n" for k using I that by (simp add: run_inv_def)
  note u = upd_inner_simps
  show ?thesis
  proof (cases "br_pc s i")
    case Outside
    then have "s' = set_wait_pc i Children s" using r by (simp add: wait_step_def Let_def)
    then show ?thesis using binv_enter [OF B Outside] len T cnt by (simp add: run_inv_def)
  next
    case Children
    then have s': "s' = set_wait_pc i Reset s" "cc_of s i = 0" using r by (simp_all add: wait_step_def Let_def split: if_splits)
    then show ?thesis using binv_seen [OF T B i Children s'(2)] len T cnt by (simp add: run_inv_def)
  next
    case Reset
    then have s': "s' = set_wait_pc i Report (upd_inner i (\<lambda>nd. nd\<lparr>in_children_count := in_count nd\<rparr>) s)" using r by (simp add: wait_step_def Let_def)
    have e: "par_of s' = par_of s" "cc_of s' = (cc_of s)(i := card (kids n (par_of s) i))" "ts_of s' = ts_of s"
      using i len cnt [OF i] by (auto simp: s' u fun_eq_iff)
    have "binv n (par_of s) (br_left s') (br_pc s') (cc_of s') (ts_of s') (tb_sense (br_tb s'))"
      unfolding e using binv_reset [OF T B i Reset] i len by (simp add: s' u)
    then show ?thesis by (rule run_inv_change [OF I e(1), rotated 2]) (use i len in \<open>simp_all add: s' u\<close>)
  next
    case Report
    show ?thesis
    proof (cases "par_of s i")
      case None
      then have z: "i = 0" using T i by (simp add: tree_par_def)
      have "s' = set_wait_pc i Sense (s\<lparr>br_tb := (br_tb s)\<lparr>tb_sense := \<not> tb_sense (br_tb s)\<rparr>\<rparr>)"
        using r Report None by (simp add: wait_step_def Let_def)
      then show ?thesis using binv_root [OF T B] Report z len T cnt by (simp add: run_inv_def)
    next
      case (Some p)
      then have pn: "p < n" using T i by (auto simp: tree_par_def)
      have s': "s' = set_wait_pc i Sense (upd_inner p (\<lambda>nd. nd\<lparr>in_children_count := size_sub (in_children_count nd) 1\<rparr>) s)"
        using r Report Some by (simp add: wait_step_def Let_def)
      have e: "par_of s' = par_of s" "cc_of s' = (cc_of s)(p := size_sub (cc_of s p) 1)" "ts_of s' = ts_of s"
        using pn len by (auto simp: s' u fun_eq_iff)
      have "binv n (par_of s) (br_left s') (br_pc s') (cc_of s') (ts_of s') (tb_sense (br_tb s'))"
        unfolding e using binv_report [OF T B i Report Some] pn len by (simp add: s' u)
      then show ?thesis by (rule run_inv_change [OF I e(1), rotated 2]) (use pn len in \<open>simp_all add: s' u\<close>)
    qed
  next
    case Sense
    then have s': "s' = set_wait_pc i Outside (upd_inner i (\<lambda>nd. nd\<lparr>in_thread_sense := \<not> in_thread_sense nd\<rparr>) s)
        \<lparr>br_left := (br_left s)(i := br_left s i + 1)\<rparr>" and c: "par_of s i = None \<or> tb_sense (br_tb s) = ts_of s i"
      using r by (auto simp: wait_step_def Let_def split: if_splits)
    have e: "par_of s' = par_of s" "cc_of s' = cc_of s" "ts_of s' = (ts_of s)(i := \<not> ts_of s i)"
      using i len by (auto simp: s' u fun_eq_iff)
    have "binv n (par_of s) (br_left s') (br_pc s') (cc_of s') (ts_of s') (tb_sense (br_tb s'))"
      unfolding e using binv_leave [OF T B i Sense c] i len by (simp add: s' u)
    then show ?thesis by (rule run_inv_change [OF I e(1), rotated 2]) (use i len in \<open>simp_all add: s' u\<close>)
  qed
qed

lemma run_inv_start:
  assumes "0 < n"
  shows "run_inv n (barrier_start n)"
proof -
  let ?ns = "tb_nodes (new_tree_barrier n 2)" and ?p = "\<lambda>i. in_parent (tb_nodes (new_tree_barrier n 2) ! i)"
  note t = new_tree_ok [OF assms]
  have T: "tree_par n ?p" using t(1,2) assms by (simp add: tree_ok_def tree_par_def)
  have c: "in_count (?ns ! i) = card (kids n ?p i)" if "i < n" for i
    using t(1,2) that by (simp add: tree_ok_def children_of_def length_filter_conv_card kids_def)
  have "binv n ?p (\<lambda>_. 0) (\<lambda>_. Outside) (\<lambda>i. in_children_count (?ns ! i)) (\<lambda>i. in_thread_sense (?ns ! i)) False"
    using t(3,4) c by (simp add: binv_def resets_def reports_def)
  then show ?thesis using T c t(2,5) by (simp add: run_inv_def barrier_start_def)
qed

lemma reachable_inv:
  assumes "0 < n" "barrier_reachable n s"
  shows "run_inv n s"
  using assms(2)
proof induction
  case start
  show ?case by (rule run_inv_start [OF assms(1)])
next
  case (step s i s')
  from run_inv_step [OF step(4,2,3)] show ?case .
qed

text \<open>
  C8. The barrier holds every thread back: when a thread has come back from \<^verbatim>\<open>wait\<close> for the k-th time, all threads have called it
  at least k times.
\<close>

theorem tree_barrier_safe:
  assumes "barrier_reachable n s" "i < n" "j < n"
  shows "br_left s i \<le> entered s j"
proof -
  have n: "0 < n" using assms(2) by simp
  have T: "tree_par n (par_of s)" and B: "binv n (par_of s) (br_left s) (br_pc s) (cc_of s) (ts_of s) (tb_sense (br_tb s))"
    using reachable_inv [OF n assms(1)] by (simp_all add: run_inv_def)
  have "br_left s i \<le> reports (br_left s) (br_pc s) 0" by (rule binvD(2) [OF B assms(2)])
  also have "\<dots> \<le> reports (br_left s) (br_pc s) j" by (rule binv_chain [OF T B assms(3)])
  also have "\<dots> \<le> entered s j" by (simp add: reports_def entered_def)
  finally show ?thesis .
qed

lemma stuck_sense:
  assumes T: "tree_par n (par_of s)" and B: "binv n (par_of s) (br_left s) (br_pc s) (cc_of s) (ts_of s) (tb_sense (br_tb s))"
    and m: "m < n" "br_pc s m \<noteq> Outside" "wait_step m s = None"
  shows "br_pc s m = Children \<and> 0 < cc_of s m \<or> br_pc s m = Sense \<and> m \<noteq> 0" "br_left s m = reports (br_left s) (br_pc s) 0"
proof -
  let ?r = "reports (br_left s) (br_pc s)"
  have s: "br_pc s m = Children \<and> 0 < cc_of s m \<or> br_pc s m = Sense \<and> par_of s m \<noteq> None \<and> tb_sense (br_tb s) \<noteq> ts_of s m"
    using m(2,3) by (auto simp: wait_step_def Let_def split: wait_pc.splits if_splits option.splits)
  then show "br_pc s m = Children \<and> 0 < cc_of s m \<or> br_pc s m = Sense \<and> m \<noteq> 0" using T m(1) by (auto simp: tree_par_def)
  have le: "br_left s m \<le> ?r 0" "?r 0 \<le> ?r m" using binvD(2) [OF B m(1)] binv_chain [OF T B m(1)] by simp_all
  from s show "br_left s m = ?r 0"
  proof
    assume "br_pc s m = Children \<and> 0 < cc_of s m"
    then show ?thesis using le by (simp add: reports_def)
  next
    assume h: "br_pc s m = Sense \<and> par_of s m \<noteq> None \<and> tb_sense (br_tb s) \<noteq> ts_of s m"
    then have "?r 0 \<noteq> Suc (br_left s m)" using binvD(1) [OF B] binvD(3) [OF B m(1)] by auto
    moreover have "?r m = Suc (br_left s m)" using h by (simp add: reports_def)
    ultimately show ?thesis using le by simp
  qed
qed

text \<open>
  C14. The barrier lets the threads go: as long as a thread is in \<^verbatim>\<open>wait\<close> for the k-th time and all threads have called it
  k times, one of the threads in there does not spin.
\<close>

theorem tree_barrier_progress:
  assumes "barrier_reachable n s" "i < n" "br_pc s i \<noteq> Outside" "\<forall>j < n. entered s i \<le> entered s j"
  shows "\<exists>m < n. br_pc s m \<noteq> Outside \<and> wait_step m s \<noteq> None"
proof (rule ccontr)
  assume "\<not> ?thesis"
  then have none: "wait_step m s = None" if "m < n" "br_pc s m \<noteq> Outside" for m using that by blast
  have n: "0 < n" using assms(2) by simp
  have T: "tree_par n (par_of s)" and B: "binv n (par_of s) (br_left s) (br_pc s) (cc_of s) (ts_of s) (tb_sense (br_tb s))"
    using reachable_inv [OF n assms(1)] by (simp_all add: run_inv_def)
  let ?r = "reports (br_left s) (br_pc s)"
  note stuck = stuck_sense [OF T B _ _ none]
  have li: "br_left s i = ?r 0" by (rule stuck(2) [OF assms(2,3) assms(2,3)])
  have inside: "br_pc s j \<noteq> Outside" if "j < n" for j
  proof
    assume "br_pc s j = Outside"
    then have "Suc (br_left s i) \<le> br_left s j" using assms(3,4) that by (auto simp: entered_def)
    then show False using binvD(2) [OF B that] li by simp
  qed
  let ?C = "{m. m < n \<and> br_pc s m = Children}"
  have "0 \<in> ?C" using stuck(1) [of 0] inside [of 0] n by auto
  then have max: "Max ?C \<in> ?C" by (intro Max_in) auto
  have top: "m \<le> Max ?C" if "m < n" "br_pc s m = Children" for m by (rule Max_ge) (use that in auto)
  let ?m = "Max ?C"
  have m: "?m < n" "br_pc s ?m = Children" using max by simp_all
  have "?r k - resets (br_left s) (br_pc s) ?m = 1" if k: "k \<in> kids n (par_of s) ?m" for k
  proof -
    have kn: "k < n" "?m < k" using k T by (auto simp: kids_def tree_par_def)
    have "br_pc s k \<noteq> Children"
    proof
      assume "br_pc s k = Children"
      from top [OF kn(1) this] kn(2) show False by linarith
    qed
    then have "?r k = Suc (?r 0)" using stuck [of k] inside [of k] kn(1) by (auto simp: reports_def)
    moreover have "br_left s ?m = ?r 0" using stuck(2) [of ?m] inside [of ?m] m(1) by simp
    ultimately show ?thesis using m(2) by (simp add: resets_def)
  qed
  then have "(\<Sum>k \<in> kids n (par_of s) ?m. ?r k - resets (br_left s) (br_pc s) ?m) = card (kids n (par_of s) ?m)" by simp
  then have "cc_of s ?m = 0" using binvD(6) [OF B m(1)] by simp
  then show False using stuck(1) [of ?m] inside [of ?m] m by auto
qed

subsection \<open>An example\<close>

text \<open>Two threads: the second one reports, the root turns the sense around, and the second one leaves.\<close>

fun wait_steps :: "nat list \<Rightarrow> barrier_run \<Rightarrow> barrier_run option" where
  "wait_steps [] s = Some s"
| "wait_steps (i # is) s = Option.bind (wait_step i s) (wait_steps is)"

lemma wait_steps_reachable:
  "barrier_reachable n s \<Longrightarrow> \<forall>i \<in> set is. i < n \<Longrightarrow> wait_steps is s = Some s' \<Longrightarrow> barrier_reachable n s'"
  by (induction "is" arbitrary: s) (auto intro: barrier_reachable.step split: bind_splits)

lemma example_barrier:
  "\<exists>s. barrier_reachable 2 s \<and> wait_steps [1, 1, 1, 1, 0, 0, 0] (barrier_start 2) = Some s \<and> br_pc s 1 = Sense \<and> entered s 0 = 1 \<and> entered s 1 = 1"
  "\<exists>s. barrier_reachable 2 s \<and> wait_steps [1, 1, 1, 1, 0, 0, 0, 0, 1] (barrier_start 2) = Some s \<and> br_left s 1 = 1"
proof -
  have 1: "map_option (\<lambda>s. (br_pc s 1, entered s 0, entered s 1)) (wait_steps [1, 1, 1, 1, 0, 0, 0] (barrier_start 2)) = Some (Sense, 1, 1)" by code_simp
  have 2: "map_option (\<lambda>s. br_left s 1) (wait_steps [1, 1, 1, 1, 0, 0, 0, 0, 1] (barrier_start 2)) = Some 1" by code_simp
  show "\<exists>s. barrier_reachable 2 s \<and> wait_steps [1, 1, 1, 1, 0, 0, 0] (barrier_start 2) = Some s \<and> br_pc s 1 = Sense \<and> entered s 0 = 1 \<and> entered s 1 = 1"
    using 1 wait_steps_reachable [OF barrier_reachable.start [of 2], of "[1, 1, 1, 1, 0, 0, 0]"] by auto
  show "\<exists>s. barrier_reachable 2 s \<and> wait_steps [1, 1, 1, 1, 0, 0, 0, 0, 1] (barrier_start 2) = Some s \<and> br_left s 1 = 1"
    using 2 wait_steps_reachable [OF barrier_reachable.start [of 2], of "[1, 1, 1, 1, 0, 0, 0, 0, 1]"] by auto
qed

theorem tree_barrier_safe_witness:
  "\<exists>s. wait_steps [1, 1, 1, 1, 0, 0, 0, 0, 1] (barrier_start 2) = Some s \<and> br_left s 1 = 1 \<and> 1 \<le> entered s 0"
proof -
  obtain s where s: "barrier_reachable 2 s" "wait_steps [1, 1, 1, 1, 0, 0, 0, 0, 1] (barrier_start 2) = Some s" "br_left s 1 = 1"
    using example_barrier(2) by blast
  from tree_barrier_safe [OF s(1), of 1 0] s(2,3) show ?thesis by auto
qed

theorem tree_barrier_progress_witness:
  "\<exists>s. wait_steps [1, 1, 1, 1, 0, 0, 0] (barrier_start 2) = Some s \<and> (\<exists>m < 2. br_pc s m \<noteq> Outside \<and> wait_step m s \<noteq> None)"
proof -
  obtain s where s: "barrier_reachable 2 s" "wait_steps [1, 1, 1, 1, 0, 0, 0] (barrier_start 2) = Some s" "br_pc s 1 = Sense" "entered s 0 = 1" "entered s 1 = 1"
    using example_barrier(1) by blast
  have "\<forall>j < 2. entered s 1 \<le> entered s j" using s(4,5) by (auto simp: less_2_cases_iff)
  from tree_barrier_progress [OF s(1) _ _ this] s(2,3) show ?thesis by auto
qed

text \<open>The depth that the constructor computes is enough for two children per node, which is what the threads use, but not for three.\<close>

lemma tree_barrier_radix: "length (tb_nodes (new_tree_barrier 17 3)) = 13"
  by code_simp

end
