(* ===== verification/Spec2Isabelle.thy ===== *)
theory Spec2Isabelle
  imports Meld_Prelude Bitmap Rule_Matcher Intrusive_List Priority_Queue Program Instr External_Lists Vm_State
    Exec_Arith Exec_Loop Match Axiom_Data Trie_Spec Node_Run Sched_Safety
    Termination Tree_Barrier
begin

text \<open>
  Verification of the Meld virtual machine (\<^verbatim>\<open>src/\<close>).

  Meld is a linear logic language. A compiler, which is not part of the repository, translates a
  program to a byte-code file; the machine loads it, creates a graph of nodes, and lets threads run
  the rules of the program at the nodes. Every node has a database: linear facts, which a rule
  consumes, and persistent facts, which stay. A rule is a candidate when every predicate of its body
  has facts; the rule matcher of a node keeps the set of these rules, and a thread takes nodes from its
  work queues and runs their rules by interpreting byte code, which iterates over facts and derives
  new ones, at this node or at others.

  The build that is modelled is the interpreted one on x86-64 (\<^verbatim>\<open>COMPILED\<close> undefined), with real node
  addresses and node garbage collection; assertions are compiled out. Each theory models
  one component; its definitions carry the names of the source. The rest of this text says, bottom up,
  which theory models what, what the theorems (C1, C2, ..., in the text before each) show, and
  what is left out.

  \<^bold>\<open>Shared.\<close> \<open>Meld_Prelude\<close>: integer types at their widths, subtraction on \<^verbatim>\<open>size_t\<close> with wrap-around,
  \<^verbatim>\<open>ffsl\<close>. \<open>Linked_List\<close>: doubly linked chains in a store, with the locale of their laws.
  \<open>Heap_Order\<close>: sifting in binary heaps, independent of what is stored. \<open>Float_Val\<close>: comparison of doubles
  on their bit patterns (\<^verbatim>\<open>vm/priority.hpp\<close>); arithmetic on doubles is always a parameter.

  \<^bold>\<open>Rules and queues.\<close> \<open>Bitmap\<close> (\<^verbatim>\<open>vm/bitmap.hpp\<close>, \<^verbatim>\<open>vm/bitmap_static.hpp\<close>) represents sets of numbers;
  \<open>Rule_Matcher\<close> (\<^verbatim>\<open>vm/rule_matcher.hpp\<close>) refines a set of available predicates and the set of rules that
  are complete. \<open>Intrusive_List\<close> (\<^verbatim>\<open>utils/intrusive_list.hpp\<close>) and \<open>Double_Queue\<close>
  (\<^verbatim>\<open>queue/intrusive_implementation.hpp\<close>) refine sequences over an explicit store of link fields.
  \<open>Heap_Pqueue\<close> (\<^verbatim>\<open>queue/heap_implementation.hpp\<close>) keeps its heap order and positions, and
  \<open>Priority_Queue\<close> (\<^verbatim>\<open>thread/priority_queue.hpp\<close>) adds the bounded buckets; popping its best element
  when it is empty is shown to be wrong. What runs under a lock is one step.

  \<^bold>\<open>Programs.\<close> \<open>Types\<close> (\<^verbatim>\<open>vm/types.*\<close>), \<open>Vm_Predicate\<close> (\<^verbatim>\<open>vm/predicate.*\<close>, \<^verbatim>\<open>vm/reader.hpp\<close>), \<open>Program\<close>
  (\<^verbatim>\<open>vm/program.*\<close>): the loader of byte-code files as a function from bytes to tables or an error; which
  files it rejects, the layout it computes, the invariants of the tables. A file that ends too early is rejected, where the
  code goes on with stale bytes. \<open>Instr\<close> (\<^verbatim>\<open>vm/instr.hpp\<close>):
  opcodes, operand decoders and \<^verbatim>\<open>advance\<close>, with round trips for the headers. The layouts are those of the code;
  \<^verbatim>\<open>docs/vm_format.tex\<close> describes an older format.

  \<^bold>\<open>Values.\<close> \<open>Field_Val\<close> (\<^verbatim>\<open>vm/defs.hpp\<close>): the eight-byte union. \<open>Runtime_Heap\<close> (\<^verbatim>\<open>runtime/*\<close>): reference counted
  objects in a heap; counters stay exact, nothing is freed too early or left behind. \<open>Runtime_List\<close>
  and \<open>External_Lists\<close> (\<^verbatim>\<open>runtime/list.hpp\<close>, \<^verbatim>\<open>external/lists.cpp\<close>): the list functions equal functions on
  HOL lists, or are shown to differ from their intent.

  \<^bold>\<open>Interpreter.\<close> \<open>Call_Stack\<close>, \<open>Vm_State\<close>: the state. \<open>Exec_Data\<close>, \<open>Exec_Lists\<close>: the instructions that compute,
  move, build objects and call functions (\<^verbatim>\<open>vm/exec.cpp\<close>). \<open>Exec_Step\<close>: one step and the loop. \<open>Exec_Local\<close>:
  a data instruction reads only the bytes that \<^verbatim>\<open>advance\<close> skips (for the instructions that call a function with a list of arguments the code skips another number). \<open>Exec_Arith\<close>: what integer instructions
  compute. \<open>Exec_Loop\<close>: forward code ends. \<open>Match\<close>: match objects, built once and then refreshed.
  \<open>Axiom_Data\<close>: literal data in the code.

  \<^bold>\<open>Persistent facts.\<close> \<open>Trie_Node\<close>, \<open>Trie_Leaf\<close>, \<open>Trie\<close> (\<^verbatim>\<open>db/trie.*\<close>): the trees that hold the persistent facts of a
  node, with levels that turn into hash tables, counted leaves with depth counters, and the linked list
  of all leaves. A tree is a datatype; a pointer to a node is its position, and a leaf keeps its address.
  \<open>Trie_Keys\<close> and \<open>Trie_Change\<close>: the keys a tree stores, its shape invariant, and what changing one
  position does to them. \<open>Trie_Spec\<close>: the operations refine a counted set of facts in order of arrival.

  \<^bold>\<open>Linear facts.\<close> \<open>Hash_Table\<close> (\<^verbatim>\<open>db/hash_table.hpp\<close>, \<^verbatim>\<open>utils/hash.hpp\<close>): the nested hash tables of an indexed predicate, as
  trees, with their iterator; \<open>Hash_Table_Spec\<close>: a table refines a map from values to queues of facts (C11).
  \<open>Linear_Store\<close> (\<^verbatim>\<open>db/linear_store.hpp\<close>): the lists and tables of all linear predicates and their conversions;
  \<open>Linear_Store_Spec\<close>: it refines multisets of facts (C3). The locale \<open>fact_container\<close> is the contract of
  whatever facts can be added to. Both need that the memory of a new table has a clear bitmap, which
  the code does not ensure, that every fact of an indexed predicate has a key, and that no 16-bit counter overflows.

  \<^bold>\<open>Nodes.\<close> \<open>Node_Db\<close> (\<^verbatim>\<open>db/node.hpp\<close>, \<^verbatim>\<open>db/temporary_store.hpp\<close>, the parts of \<^verbatim>\<open>vm/state.cpp\<close> and
  \<^verbatim>\<open>vm/exec.cpp\<close> that move facts): how facts arrive at a node, wait, enter its database, are consumed, updated and
  generated. \<open>Node_Db_Spec\<close>: every operation keeps the invariant that the rule matcher and the database agree.
  \<open>Node_Run\<close>: the steps of a node and of the other threads that send it facts, in any order, with facts of the node and of its thread
  that are consumed, updated (in place or by generating them again) and written; no fact is lost
  (C2) and the matcher is exact between two rules (C7). What the steps ask for and the code does not check: at most 65535 facts
  of a predicate, a key in every fact of an indexed one, and that an update in place keeps the indexed field of a fact in a table.
  The facts that other nodes of the thread give to thread predicates are not modelled.

  \<^bold>\<open>Threads.\<close> \<open>Scheduler\<close> (\<^verbatim>\<open>thread/thread.*\<close>, \<^verbatim>\<open>thread/coord.cpp\<close>, \<^verbatim>\<open>thread/coord-include.hpp\<close>): the queues of the threads over the
  link fields of all nodes, sending facts, stealing, choosing the next node, changing priorities and owners; what runs under a lock is one
  step. \<open>Sched_Queues\<close>: the locale \<open>node_queue\<close> is the contract that the scheduler needs of a queue, and both kinds of queues have it.
  \<open>Sched_Inv\<close>, \<open>Sched_Ops\<close>, \<open>Sched_Coord\<close>, \<open>Sched_Run\<close>: every node has one place, and every operation keeps the queues and the fields of the nodes
  in agreement with it, also when it acts on a state that it read too early. \<open>Sched_Safety\<close>: the steps of all
  threads in any order, as the code makes them, with a label; a run is orderly when its steps kept to what the code relies on without checking it
  (coordination that requeues a node or changes its owner is about a node that this thread owns or that is in no queue, only idle nodes are collected, priorities are numbers, there are
  fewer than \<open>2\<^sup>3\<^sup>0\<close> nodes). After an orderly run
  the queues hold exactly the nodes whose fields say so (C6), and no node with unprocessed facts is
  forgotten (C1); \<open>foreign_static_breaks\<close> is a run that is not orderly and ends with a broken queue. \<open>Termination\<close> (\<^verbatim>\<open>thread/termination_barrier.hpp\<close>): the states of the threads and the counter of the active ones,
  which change in up to three steps: the state, the counter, the end of the run; what the counter means (C12) and how the run can end too early (C19). \<open>Tree_Barrier\<close>
  (\<^verbatim>\<open>utils/tree_barrier.hpp\<close>): no thread passes before all have arrived (C8), and then they can pass (C14). Accesses to
  memory take effect in one order for all threads.

  \<^bold>\<open>Fuel.\<close> A recursion that is not structural has a bound as its first argument, and running out is
  the value None. Releasing objects: the sum of all counters is enough (C9). Walking a list: its
  length. Reaching a leaf of a trie: the length of its key (C4). Reading nested patterns or literals: the length of the code. The interpreter: a program that only
  jumps forward ends when the depth of the recursion may be the length of its code (C15), which does not bound the number of instructions, since
  the body and the continuation of \<^verbatim>\<open>RESET_LINEAR\<close> have the same bound; a program that loops has no bound, and
  the loop is a property of \<^verbatim>\<open>execute\<close> with every bound.

  \<^bold>\<open>Parameters.\<close> Arithmetic and printing of doubles, external functions that a program registers, the
  addresses an allocator returns, uninitialised memory (also of the fields of a predicate that loading does not set), and the hash functions of the C++ library.

  \<^bold>\<open>Not modelled.\<close> Printing and statistics (\<^verbatim>\<open>vm/instr.cpp\<close>, \<^verbatim>\<open>stat/\<close>, \<^verbatim>\<open>vm/stat.*\<close>), which do not change
  what is computed; the entry points and the reading of options and files (\<^verbatim>\<open>meld.cpp\<close>,
  \<^verbatim>\<open>interface.cpp\<close>, \<^verbatim>\<open>machine.cpp\<close>, \<^verbatim>\<open>target.cpp\<close>); the allocators (\<^verbatim>\<open>mem/\<close>, \<^verbatim>\<open>thread/ids.*\<close>), which
  give addresses; the waiting loop of an idle thread, whose steps are those of the scheduler; aggregates (\<^verbatim>\<open>db/agg_configuration.*\<close>,
  \<^verbatim>\<open>db/tuple_aggregate.*\<close>) and the iterators of \<^verbatim>\<open>vm/exec.cpp\<close> over facts; the abandoned code in \<^verbatim>\<open>attic/\<close>; tests.
\<close>

end
